(* ===== verification/Prelude.thy ===== *)
theory Prelude
  imports
    Main
    "HOL-Library.Word"
    "HOL-Library.Char_ord"
    "HOL-Library.List_Lexorder"
    "HOL-Library.Product_Lexorder"
    "HOL-Library.Option_ord"
    "HOL-Library.Multiset"
    "HOL-Library.Code_Target_Nat"
begin

text \<open>
  Shared vocabulary of the development: results (Rust's \<open>Result\<close>) with their sequencing
  operators, machine-integer helpers, the ordered map that stands for \<open>BTreeMap\<close>, the ordered
  set that stands for \<open>BTreeSet\<close>, and adjacent pairs (\<open>slice::windows(2)\<close>).
  Strings are byte strings (\<open>char list\<close>), ordered as Rust orders \<open>str\<close>: bytewise,
  lexicographically.
\<close>

named_theorems result_simps "sequencing of results"
named_theorems btree_simps "lookups and invariants of ordered maps"

section \<open>Results\<close>

abbreviation Ok :: "'a \<Rightarrow> 'e + 'a" where "Ok \<equiv> Inr"
abbreviation Err :: "'e \<Rightarrow> 'e + 'a" where "Err \<equiv> Inl"

text \<open>The \<open>?\<close> operator: go on with the value, or return the error.\<close>

fun rbind :: "'e + 'a \<Rightarrow> ('a \<Rightarrow> 'e + 'b) \<Rightarrow> 'e + 'b" where
  "rbind (Inl e) k = Inl e"
| "rbind (Inr a) k = k a"

definition ensure :: "bool \<Rightarrow> 'e \<Rightarrow> 'e + unit" where
  "ensure b e = (if b then Ok () else Err e)"

definition ok_or :: "'e \<Rightarrow> 'a option \<Rightarrow> 'e + 'a" where
  "ok_or e x = (case x of None \<Rightarrow> Err e | Some a \<Rightarrow> Ok a)"

definition is_ok :: "'e + 'a \<Rightarrow> bool" where
  "is_ok r = (case r of Inl _ \<Rightarrow> False | Inr _ \<Rightarrow> True)"

fun map_err :: "('e \<Rightarrow> 'f) \<Rightarrow> 'e + 'a \<Rightarrow> 'f + 'a" where
  "map_err f (Inl e) = Inl (f e)"
| "map_err f (Inr a) = Inr a"

lemma rbind_Ok_iff [result_simps]: "rbind r k = Ok b \<longleftrightarrow> (\<exists>a. r = Ok a \<and> k a = Ok b)"
  by (cases r) auto

lemma rbind_Err_iff [result_simps]:
  "rbind r k = Err e \<longleftrightarrow> r = Err e \<or> (\<exists>a. r = Ok a \<and> k a = Err e)"
  by (cases r) auto

lemma ensure_Ok [result_simps]: "ensure b e = Ok u \<longleftrightarrow> b"
  by (cases u) (simp add: ensure_def)

lemma ensure_Err [result_simps]: "ensure b e = Err e' \<longleftrightarrow> \<not> b \<and> e' = e"
  by (auto simp: ensure_def)

lemma ensure_simps [simp]: "ensure True e = Ok ()" "ensure False e = Err e"
  by (simp_all add: ensure_def)

lemma ok_or_Ok [result_simps]: "ok_or e x = Ok a \<longleftrightarrow> x = Some a"
  by (cases x) (auto simp: ok_or_def)

lemma ok_or_Err [result_simps]: "ok_or e x = Err e' \<longleftrightarrow> x = None \<and> e' = e"
  by (cases x) (auto simp: ok_or_def)

lemma ok_or_simps [simp]: "ok_or e None = Err e" "ok_or e (Some a) = Ok a"
  by (simp_all add: ok_or_def)

lemma is_ok_simps [simp]: "is_ok (Err e) = False" "is_ok (Ok a) = True"
  by (simp_all add: is_ok_def)

lemma is_ok_iff: "is_ok r \<longleftrightarrow> (\<exists>a. r = Ok a)"
  by (cases r) auto

lemma rbind_assoc: "rbind (rbind r k) l = rbind r (\<lambda>a. rbind (k a) l)"
  by (cases r) auto

lemma map_err_Ok [result_simps]: "map_err f r = Ok a \<longleftrightarrow> r = Ok a"
  by (cases r) auto

text \<open>A \<open>for\<close> loop whose body may return early, over an explicit state.\<close>

fun try_fold :: "('s \<Rightarrow> 'a \<Rightarrow> 'e + 's) \<Rightarrow> 's \<Rightarrow> 'a list \<Rightarrow> 'e + 's" where
  "try_fold f s [] = Ok s"
| "try_fold f s (x # xs) = rbind (f s x) (\<lambda>s'. try_fold f s' xs)"

lemma try_fold_append:
  "try_fold f s (xs @ ys) = rbind (try_fold f s xs) (\<lambda>s'. try_fold f s' ys)"
  by (induction xs arbitrary: s) (simp_all add: rbind_assoc)

lemma try_fold_invariant:
  assumes "try_fold f s xs = Ok t" and "I s"
    and "\<And>s x s'. x \<in> set xs \<Longrightarrow> I s \<Longrightarrow> f s x = Ok s' \<Longrightarrow> I s'"
  shows "I t"
  using assms
proof (induction xs arbitrary: s)
  case Nil
  then show ?case by simp
next
  case (Cons x xs)
  from Cons.prems(1) obtain s' where s': "f s x = Ok s'" and rest: "try_fold f s' xs = Ok t"
    by (auto simp: result_simps)
  have "I s'" using Cons.prems(2,3) s' by auto
  with rest show ?case
    by (rule Cons.IH) (use Cons.prems(3) in auto)
qed

text \<open>The same loop over a numbered list (\<open>iter().enumerate()\<close>).\<close>

definition indexed :: "'a list \<Rightarrow> (nat \<times> 'a) list" where
  "indexed xs = zip [0..<length xs] xs"

lemma map_snd_indexed [simp]: "map snd (indexed xs) = xs"
  by (simp add: indexed_def)

lemma set_indexed: "(i, x) \<in> set (indexed xs) \<longleftrightarrow> i < length xs \<and> xs ! i = x"
  by (auto simp: indexed_def set_zip intro!: exI [of _ i])

lemma indexed_map: "indexed xs = map (\<lambda>i. (i, xs ! i)) [0..<length xs]"
  by (rule nth_equalityI) (simp_all add: indexed_def)

lemma indexed_snoc: "indexed (xs @ [x]) = indexed xs @ [(length xs, x)]"
  by (simp add: indexed_def)

text \<open>A \<open>for\<close> loop whose body may panic or not end.\<close>

fun fold_opt :: "('a \<Rightarrow> 's \<Rightarrow> 's option) \<Rightarrow> 'a list \<Rightarrow> 's \<Rightarrow> 's option" where
  "fold_opt f [] s = Some s"
| "fold_opt f (x # xs) s = Option.bind (f x s) (fold_opt f xs)"

lemma fold_opt_snoc: "fold_opt f (xs @ [x]) s = Option.bind (fold_opt f xs s) (f x)"
  by (induction xs arbitrary: s) (auto split: Option.bind_splits)

lemma fold_opt_pure: "(\<And>x s. x \<in> set xs \<Longrightarrow> f x s = Some (g x s)) \<Longrightarrow> fold_opt f xs s = Some (fold g xs s)"
  by (induction xs arbitrary: s) auto

section \<open>Machine integers\<close>

text \<open>
  \<open>u64\<close> and \<open>usize\<close> counters are natural numbers whose checked operations fail at
  \<open>2 ^ 64\<close> (a 64-bit target); \<open>i128\<close> values are integers with the bounds written out.
\<close>

definition u64_max :: nat where "u64_max = 2 ^ 64 - 1"
definition i64_min :: int where "i64_min = - (2 ^ 63)"
definition i64_max :: int where "i64_max = 2 ^ 63 - 1"
definition i128_min :: int where "i128_min = - (2 ^ 127)"
definition i128_max :: int where "i128_max = 2 ^ 127 - 1"

definition u64_checked_add :: "nat \<Rightarrow> nat \<Rightarrow> nat option" where
  "u64_checked_add a b = (if a + b \<le> u64_max then Some (a + b) else None)"

definition u64_checked_mul :: "nat \<Rightarrow> nat \<Rightarrow> nat option" where
  "u64_checked_mul a b = (if a * b \<le> u64_max then Some (a * b) else None)"

definition u64_saturating_add :: "nat \<Rightarrow> nat \<Rightarrow> nat" where
  "u64_saturating_add a b = min (a + b) u64_max"

definition u64_saturating_mul :: "nat \<Rightarrow> nat \<Rightarrow> nat" where
  "u64_saturating_mul a b = min (a * b) u64_max"

definition u64_wrapping_add :: "nat \<Rightarrow> nat \<Rightarrow> nat" where
  "u64_wrapping_add a b = (a + b) mod 2 ^ 64"

text \<open>Unchecked subtraction on values of the width.\<close>

definition u64_wrapping_sub :: "nat \<Rightarrow> nat \<Rightarrow> nat" where
  "u64_wrapping_sub a b = (if b \<le> a then a - b else a + 2 ^ 64 - b)"

definition i128_checked_add :: "int \<Rightarrow> int \<Rightarrow> int option" where
  "i128_checked_add a b = (if i128_min \<le> a + b \<and> a + b \<le> i128_max then Some (a + b) else None)"

definition i128_saturating_sub :: "int \<Rightarrow> int \<Rightarrow> int" where
  "i128_saturating_sub a b = max i128_min (min i128_max (a - b))"

definition in_i128 :: "int \<Rightarrow> bool" where
  "in_i128 a \<longleftrightarrow> i128_min \<le> a \<and> a \<le> i128_max"

lemma u64_checked_add_Some [result_simps]:
  "u64_checked_add a b = Some c \<longleftrightarrow> a + b \<le> u64_max \<and> c = a + b"
  by (auto simp: u64_checked_add_def)

lemma u64_checked_mul_Some [result_simps]:
  "u64_checked_mul a b = Some c \<longleftrightarrow> a * b \<le> u64_max \<and> c = a * b"
  by (auto simp: u64_checked_mul_def)

lemma i128_checked_add_Some [result_simps]:
  "i128_checked_add a b = Some c \<longleftrightarrow> in_i128 (a + b) \<and> c = a + b"
  by (auto simp: i128_checked_add_def in_i128_def)

section \<open>Adjacent pairs\<close>

text \<open>\<open>xs.windows(2)\<close>.\<close>

fun windows2 :: "'a list \<Rightarrow> ('a \<times> 'a) list" where
  "windows2 (x # y # zs) = (x, y) # windows2 (y # zs)"
| "windows2 _ = []"

lemma sum_list_filter_le: "sum_list (map f (filter P xs)) \<le> (sum_list (map f xs) :: nat)"
  by (induction xs) auto

lemma windows2_map: "windows2 (map f xs) = map (map_prod f f) (windows2 xs)"
  by (induction xs rule: windows2.induct) auto

lemma length_windows2 [simp]: "length (windows2 xs) = length xs - 1"
  by (induction xs rule: windows2.induct) auto

lemma windows2_nth: "Suc i < length xs \<Longrightarrow> windows2 xs ! i = (xs ! i, xs ! Suc i)"
proof (induction xs arbitrary: i rule: windows2.induct)
  case (1 x y zs)
  then show ?case by (cases i) auto
qed auto

lemma windows2_conv_nth: "windows2 xs = map (\<lambda>i. (xs ! i, xs ! Suc i)) [0..<length xs - 1]"
  by (rule nth_equalityI) (auto simp: windows2_nth)

lemma windows2_set_subset: "(a, b) \<in> set (windows2 xs) \<Longrightarrow> a \<in> set xs \<and> b \<in> set xs"
  by (induction xs rule: windows2.induct) auto

lemma windows2_append_pair: "windows2 (us @ a # b # vs) = windows2 (us @ [a]) @ (a, b) # windows2 (b # vs)"
  by (induction us rule: windows2.induct) auto

section \<open>Checked indexing\<close>

text \<open>\<open>xs[i]\<close> panics out of range, \<open>xs.get(i)\<close> is \<open>None\<close>; both are \<open>nth_opt\<close>. A slice
  \<open>xs[a..b]\<close> panics when \<open>b < a\<close> or past the end.\<close>

definition nth_opt :: "'a list \<Rightarrow> nat \<Rightarrow> 'a option" where
  "nth_opt xs i = (if i < length xs then Some (xs ! i) else None)"

definition slice_opt :: "'a list \<Rightarrow> nat \<Rightarrow> nat \<Rightarrow> 'a list option" where
  "slice_opt xs a b = (if a \<le> b \<and> b \<le> length xs then Some (take (b - a) (drop a xs)) else None)"

lemma nth_opt_Some [result_simps]: "nth_opt xs i = Some x \<longleftrightarrow> i < length xs \<and> x = xs ! i"
  by (auto simp: nth_opt_def)

lemma nth_opt_in [simp]: "i < length xs \<Longrightarrow> nth_opt xs i = Some (xs ! i)"
  by (simp add: nth_opt_def)

lemma slice_opt_in [simp]:
  "a \<le> b \<Longrightarrow> b \<le> length xs \<Longrightarrow> slice_opt xs a b = Some (take (b - a) (drop a xs))"
  by (simp add: slice_opt_def)

section \<open>Formatting\<close>

text \<open>\<open>format!("{n}")\<close> of an unsigned integer, and \<open>join\<close>.\<close>

definition digit_char :: "nat \<Rightarrow> char" where
  "digit_char d = char_of (48 + d)"

function show_nat :: "nat \<Rightarrow> string" where
  "show_nat n = (if n < 10 then [digit_char n] else show_nat (n div 10) @ [digit_char (n mod 10)])"
  by pat_completeness auto
termination
  by (relation "measure id") auto

declare show_nat.simps [simp del]

fun join_with :: "string \<Rightarrow> string list \<Rightarrow> string" where
  "join_with sep [] = []"
| "join_with sep [x] = x"
| "join_with sep (x # y # zs) = x @ sep @ join_with sep (y # zs)"

text \<open>\<open>format!("{xs:?}")\<close> of a list of unsigned integers.\<close>

definition show_nat_list :: "nat list \<Rightarrow> string" where
  "show_nat_list xs = ''['' @ join_with '', '' (map show_nat xs) @ '']''"

lemma digit_char_inject: "d < 10 \<Longrightarrow> e < 10 \<Longrightarrow> digit_char d = digit_char e \<longleftrightarrow> d = e"
  by (simp add: digit_char_def char_of_eq_iff take_bit_nat_eq_self)

lemma show_nat_neq_Nil [simp]: "show_nat n \<noteq> []"
  by (subst show_nat.simps) simp

lemma Nil_neq_show_nat [simp]: "[] \<noteq> show_nat n"
  by (rule not_sym) simp

lemma show_nat_inject: "show_nat m = show_nat n \<longleftrightarrow> m = n"
proof
  show "show_nat m = show_nat n \<Longrightarrow> m = n"
  proof (induction m arbitrary: n rule: show_nat.induct)
    case (1 m)
    consider "m < 10" "n < 10" | "m < 10" "10 \<le> n" | "10 \<le> m" "n < 10" | "10 \<le> m" "10 \<le> n"
      by linarith
    then show ?case
    proof cases
      case 4
      then have "show_nat (m div 10) = show_nat (n div 10)" "m mod 10 = n mod 10"
        using "1.prems" by (simp_all add: show_nat.simps [of m] show_nat.simps [of n] digit_char_inject)
      with 1 4 have "m div 10 = n div 10" "m mod 10 = n mod 10" by simp_all
      then show ?thesis by (metis div_mult_mod_eq)
    qed (use "1.prems" in \<open>simp_all add: show_nat.simps [of m] show_nat.simps [of n] digit_char_inject\<close>)
  qed
qed simp

end
