(* ===== verification/BTree.thy ===== *)
theory BTree
  imports Prelude
begin

text \<open>
  Rust's ordered collections. A \<open>BTreeMap\<close> is an association list with strictly ascending
  keys; its one update, \<open>bt_alter\<close>, is the entry API (\<open>entry(k).or_default()\<close> followed by an
  assignment through the reference). A \<open>BTreeSet\<close> is a strictly ascending list. The locales
  \<open>ordered_map\<close> and \<open>counter_map\<close> state what the callers rely on (look-up after an update, the
  order of iteration, and that look-ups determine the iteration), and prove the facts the
  counting loops of the program share.
\<close>

section \<open>Ordered maps\<close>

type_synonym ('k, 'v) btree_map = "('k \<times> 'v) list"

definition bt_inv :: "('k::linorder, 'v) btree_map \<Rightarrow> bool" where
  "bt_inv m \<longleftrightarrow> sorted_wrt (<) (map fst m)"

fun bt_alter :: "'k::linorder \<Rightarrow> ('v option \<Rightarrow> 'v) \<Rightarrow> ('k, 'v) btree_map \<Rightarrow> ('k, 'v) btree_map" where
  "bt_alter k f [] = [(k, f None)]"
| "bt_alter k f ((a, v) # m) =
     (if k < a then (k, f None) # (a, v) # m
      else if k = a then (a, f (Some v)) # m
      else (a, v) # bt_alter k f m)"

definition bt_insert :: "'k::linorder \<Rightarrow> 'v \<Rightarrow> ('k, 'v) btree_map \<Rightarrow> ('k, 'v) btree_map" where
  "bt_insert k v m = bt_alter k (\<lambda>_. v) m"

definition bt_get :: "('k, 'v) btree_map \<Rightarrow> 'k \<Rightarrow> 'v option" where
  "bt_get m k = map_of m k"

definition bt_keys :: "('k, 'v) btree_map \<Rightarrow> 'k list" where
  "bt_keys m = map fst m"

definition bt_values :: "('k, 'v) btree_map \<Rightarrow> 'v list" where
  "bt_values m = map snd m"

text \<open>\<open>*entry(k).or_default() += n\<close> and \<open>entry(k).or_default().push(x)\<close>.\<close>

definition bt_incr :: "'k::linorder \<Rightarrow> nat \<Rightarrow> ('k, nat) btree_map \<Rightarrow> ('k, nat) btree_map" where
  "bt_incr k n m = bt_alter k (\<lambda>e. case e of None \<Rightarrow> n | Some c \<Rightarrow> c + n) m"

definition bt_push :: "'k::linorder \<Rightarrow> 'v \<Rightarrow> ('k, 'v list) btree_map \<Rightarrow> ('k, 'v list) btree_map" where
  "bt_push k x m = bt_alter k (\<lambda>e. case e of None \<Rightarrow> [x] | Some xs \<Rightarrow> xs @ [x]) m"

text \<open>\<open>into_iter().collect::<BTreeMap>()\<close>: later pairs win.\<close>

definition bt_of_list :: "('k::linorder \<times> 'v) list \<Rightarrow> ('k, 'v) btree_map" where
  "bt_of_list ps = fold (\<lambda>(k, v). bt_insert k v) ps []"

lemma keys_bt_alter: "set (map fst (bt_alter k f m)) = insert k (set (map fst m))"
  by (induction k f m rule: bt_alter.induct) auto

lemma bt_inv_alter: "bt_inv m \<Longrightarrow> bt_inv (bt_alter k f m)"
proof (induction k f m rule: bt_alter.induct)
  case (2 k f a v m)
  have "\<forall>y \<in> set (map fst (bt_alter k f m)). a < y" if "\<not> k < a" "k \<noteq> a"
    using 2(2) that unfolding keys_bt_alter by (auto simp: bt_inv_def)
  with 2 show ?case by (auto simp: bt_inv_def)
qed (simp add: bt_inv_def)

lemma map_of_bt_alter:
  "bt_inv m \<Longrightarrow> map_of (bt_alter k f m) = (map_of m)(k \<mapsto> f (map_of m k))"
proof (induction k f m rule: bt_alter.induct)
  case (2 k f a v m)
  have "map_of m k = None" if "k < a"
    using 2(2) that by (auto simp: bt_inv_def map_of_eq_None_iff dest: less_trans)
  moreover have "bt_inv m" using 2(2) by (simp add: bt_inv_def)
  ultimately show ?case using 2(1) by (auto simp: fun_eq_iff)
qed auto

lemma bt_inv_distinct: "bt_inv m \<Longrightarrow> distinct (map fst m)"
  unfolding bt_inv_def by (metis strict_sorted_iff)

lemma bt_ext:
  assumes "bt_inv m" and "bt_inv m'" and "map_of m = map_of m'"
  shows "m = m'"
proof -
  have d: "distinct (map fst m)" "distinct (map fst m')"
    using assms by (simp_all add: bt_inv_distinct)
  then have "set m = set m'"
    by (metis assms(3) map_of_eq_Some_iff subrelI subset_antisym)
  moreover have "sorted (map fst m)" "sorted (map fst m')"
    using assms by (simp_all add: bt_inv_def strict_sorted_iff)
  ultimately show ?thesis
    using d by (intro map_sorted_distinct_set_unique [of fst]) (simp_all add: distinct_map)
qed

locale ordered_map =
  fixes empty :: "'m"
    and alter :: "'k::linorder \<Rightarrow> ('v option \<Rightarrow> 'v) \<Rightarrow> 'm \<Rightarrow> 'm"
    and get :: "'m \<Rightarrow> 'k \<Rightarrow> 'v option"
    and entries :: "'m \<Rightarrow> ('k \<times> 'v) list"
    and inv :: "'m \<Rightarrow> bool"
  assumes inv_empty: "inv empty"
    and inv_alter: "inv m \<Longrightarrow> inv (alter k f m)"
    and get_empty: "get empty k = None"
    and get_alter: "inv m \<Longrightarrow> get (alter k f m) k' = (if k' = k then Some (f (get m k)) else get m k')"
    and entries_get: "inv m \<Longrightarrow> map_of (entries m) = get m"
    and entries_sorted: "inv m \<Longrightarrow> sorted_wrt (<) (map fst (entries m))"
    and get_ext: "inv m \<Longrightarrow> inv m' \<Longrightarrow> (\<And>k. get m k = get m' k) \<Longrightarrow> m = m'"
begin

lemma inv_fold: "inv m \<Longrightarrow> inv (fold (\<lambda>x. alter (key x) (upd x)) xs m)"
  by (induction xs arbitrary: m) (auto intro: inv_alter)

text \<open>A loop over entries only touches the keys it visits, and there runs the updates in order.\<close>

lemma get_fold:
  "inv m \<Longrightarrow> get (fold (\<lambda>x. alter (key x) (upd x)) xs m) k =
     fold (\<lambda>x o'. Some (upd x o')) (filter (\<lambda>x. key x = k) xs) (get m k)"
  by (induction xs arbitrary: m) (auto simp: get_alter inv_alter)

text \<open>Two loops that run the same updates on each key build the same map.\<close>

lemma fold_ext:
  assumes "\<And>k. fold (\<lambda>x o'. Some (upd x o')) (filter (\<lambda>x. key x = k) xs) None
    = fold (\<lambda>x o'. Some (upd x o')) (filter (\<lambda>x. key x = k) ys) None"
  shows "fold (\<lambda>x. alter (key x) (upd x)) xs empty = fold (\<lambda>x. alter (key x) (upd x)) ys empty"
  by (rule get_ext) (simp_all add: inv_fold inv_empty get_fold get_empty assms)

lemma entries_in: "inv m \<Longrightarrow> (k, v) \<in> set (entries m) \<longleftrightarrow> get m k = Some v"
  using entries_get [of m] entries_sorted [of m]
  by (metis map_of_eq_Some_iff strict_sorted_iff)

end

text \<open>The counting instance: every update adds a weight.\<close>

locale counter_map = ordered_map empty alter get entries inv
  for empty :: "'m"
    and alter :: "'k::linorder \<Rightarrow> (nat option \<Rightarrow> nat) \<Rightarrow> 'm \<Rightarrow> 'm"
    and get entries inv
begin

definition count :: "'m \<Rightarrow> 'k \<Rightarrow> nat" where
  "count m k = (case get m k of None \<Rightarrow> 0 | Some c \<Rightarrow> c)"

definition bump :: "'k \<Rightarrow> nat \<Rightarrow> 'm \<Rightarrow> 'm" where
  "bump k n = alter k (\<lambda>e. case e of None \<Rightarrow> n | Some c \<Rightarrow> c + n)"

lemma inv_bump: "inv m \<Longrightarrow> inv (bump k n m)"
  by (simp add: bump_def inv_alter)

lemma inv_fold_bump: "inv m \<Longrightarrow> inv (fold (\<lambda>x. bump (key x) (w x)) xs m)"
  by (induction xs arbitrary: m) (auto intro: inv_bump)

lemma count_bump: "inv m \<Longrightarrow> count (bump k n m) k' = count m k' + (if k' = k then n else 0)"
  by (auto simp: count_def bump_def get_alter split: option.splits)

lemma count_fold_bump:
  "inv m \<Longrightarrow> count (fold (\<lambda>x. bump (key x) (w x)) xs m) k =
     count m k + sum_list (map w (filter (\<lambda>x. key x = k) xs))"
  by (induction xs arbitrary: m) (auto simp: count_bump inv_bump)

lemma get_fold_bump:
  "inv m \<Longrightarrow> get (fold (\<lambda>x. bump (key x) (w x)) xs m) k =
     (if k \<in> key ` set xs \<or> get m k \<noteq> None
      then Some (count m k + sum_list (map w (filter (\<lambda>x. key x = k) xs))) else None)"
proof (induction xs arbitrary: m)
  case Nil
  then show ?case by (auto simp: count_def)
next
  case (Cons x xs)
  have "get (bump (key x) (w x) m) k \<noteq> None \<longleftrightarrow> k = key x \<or> get m k \<noteq> None"
    using Cons.prems by (auto simp: bump_def get_alter)
  with Cons show ?case
    by (auto simp: inv_bump count_bump image_iff)
qed

end

interpretation bt: ordered_map "[]" bt_alter bt_get "\<lambda>m. m" bt_inv
proof unfold_locales
  show "\<And>m m'. bt_inv m \<Longrightarrow> bt_inv m' \<Longrightarrow> (\<And>k. bt_get m k = bt_get m' k) \<Longrightarrow> m = m'"
    by (rule bt_ext) (auto simp: bt_get_def fun_eq_iff)
  show "\<And>m k f. bt_inv m \<Longrightarrow> bt_inv (bt_alter k f m)"
    by (rule bt_inv_alter)
qed (auto simp: bt_get_def map_of_bt_alter bt_inv_def fun_eq_iff)

interpretation btc: counter_map "[]" bt_alter bt_get "\<lambda>m. m" bt_inv
  by unfold_locales

lemma bt_incr_bump: "bt_incr k n m = btc.bump k n m"
  by (simp add: bt_incr_def btc.bump_def)

lemma bt_incr_eq_bump: "bt_incr k n = btc.bump k n"
  by (rule ext) (rule bt_incr_bump)

lemma bt_inv_insert [btree_simps]: "bt_inv m \<Longrightarrow> bt_inv (bt_insert k v m)"
  by (simp add: bt_insert_def bt_inv_alter)

lemma bt_inv_incr [btree_simps]: "bt_inv m \<Longrightarrow> bt_inv (bt_incr k n m)"
  by (simp add: bt_incr_def bt_inv_alter)

lemma bt_inv_push [btree_simps]: "bt_inv m \<Longrightarrow> bt_inv (bt_push k x m)"
  by (simp add: bt_push_def bt_inv_alter)

lemma bt_inv_Nil [simp, btree_simps]: "bt_inv []"
  by (simp add: bt_inv_def)

lemma bt_get_Nil [simp]: "bt_get [] k = None"
  by (simp add: bt_get_def)

lemma bt_get_insert [btree_simps]:
  "bt_inv m \<Longrightarrow> bt_get (bt_insert k v m) k' = (if k' = k then Some v else bt_get m k')"
  by (simp add: bt_insert_def bt.get_alter)

lemma bt_get_push [btree_simps]:
  "bt_inv m \<Longrightarrow> bt_get (bt_push k x m) k' =
     (if k' = k then Some ((case bt_get m k of None \<Rightarrow> [] | Some xs \<Rightarrow> xs) @ [x]) else bt_get m k')"
  by (auto simp: bt_push_def bt.get_alter split: option.splits)

lemma bt_keys_dom: "set (bt_keys m) = {k. bt_get m k \<noteq> None}"
  by (auto simp: bt_keys_def bt_get_def map_of_eq_None_iff)

lemma set_bt_keys: "bt_inv m \<Longrightarrow> set (bt_keys m) = {k. bt_get m k \<noteq> None}"
  by (rule bt_keys_dom)

lemma keys_bt_incr: "set (map fst (bt_incr k n m)) = insert k (set (map fst m))"
  by (simp only: bt_incr_def keys_bt_alter)

lemma keys_bt_push: "set (map fst (bt_push k n m)) = insert k (set (map fst m))"
  by (simp only: bt_push_def keys_bt_alter)

text \<open>Grouping and counting loops.\<close>

lemma get_fold_push:
  "bt_get (fold (\<lambda>x. bt_push (key x) (val x)) xs []) k =
    (if \<exists>x \<in> set xs. key x = k then Some (map val (filter (\<lambda>x. key x = k) xs)) else None)"
proof -
  have inv: "bt_inv (fold (\<lambda>x. bt_push (key x) (val x)) xs m)" if "bt_inv m" for xs m
    using that by (induction xs arbitrary: m) (auto intro: bt_inv_push)
  show ?thesis
  proof (induction xs rule: rev_induct)
    case (snoc x xs)
    then show ?case by (auto simp: bt_get_push inv filter_empty_conv)
  qed simp
qed

lemma inv_fold_push: "bt_inv (fold (\<lambda>x. bt_push (key x) (val x)) xs [])"
  by (induction xs rule: rev_induct) (auto intro: bt_inv_push)

lemma fold_push_in:
  "(k, vs) \<in> set (fold (\<lambda>x. bt_push (key x) (val x)) xs []) \<longleftrightarrow>
    vs = map val (filter (\<lambda>x. key x = k) xs) \<and> (\<exists>x \<in> set xs. key x = k)"
  using bt.entries_in [OF inv_fold_push, of k vs key val xs] by (auto simp: get_fold_push)

lemma bt_inv_fold_incr: "bt_inv (fold (\<lambda>x. bt_incr (key x) n) xs [])"
  by (induction xs rule: rev_induct) (simp_all add: bt_inv_incr)

lemma get_fold_incr:
  fixes key :: "'a \<Rightarrow> 'b::linorder"
  shows "bt_get (fold (\<lambda>x. bt_incr (key x) (Suc 0)) xs []) k =
    (if k \<in> key ` set xs then Some (length (filter (\<lambda>x. key x = k) xs)) else None)"
  using btc.get_fold_bump [of "[]" key "\<lambda>_. Suc 0" xs k] by (simp add: bt_incr_eq_bump btc.count_def sum_list_triv)

section \<open>Ordered sets\<close>

text \<open>\<open>collect::<BTreeSet<_>>()\<close> iterates in ascending order without duplicates.\<close>

definition bset :: "'a::linorder list \<Rightarrow> 'a list" where
  "bset xs = sort (remdups xs)"

lemma set_bset [simp]: "set (bset xs) = set xs"
  by (simp add: bset_def)

lemma sorted_bset [simp]: "sorted (bset xs)"
  by (simp add: bset_def)

lemma distinct_bset [simp]: "distinct (bset xs)"
  by (simp add: bset_def)

lemma bset_eq_sorted_list_of_set: "bset xs = sorted_list_of_set (set xs)"
  by (simp add: bset_def sorted_list_of_set_sort_remdups)

lemma bset_cong: "set xs = set ys \<Longrightarrow> bset xs = bset ys"
  by (simp add: bset_eq_sorted_list_of_set)

lemma length_bset: "length (bset xs) = card (set xs)"
  by (metis distinct_bset distinct_card set_bset)

lemma bset_eq_Nil_iff [simp]: "bset xs = [] \<longleftrightarrow> xs = []"
  by (metis set_bset set_empty)

text \<open>\<open>sort_unstable(); dedup()\<close> on a totally ordered type is the same list.\<close>

lemma distinct_remdups_adj_if_sorted: "sorted xs \<Longrightarrow> distinct (remdups_adj xs)"
  by (induction xs rule: remdups_adj.induct) (auto simp: less_le)

lemma remdups_adj_sort: "remdups_adj (sort xs) = bset (xs :: 'a::linorder list)"
proof -
  have "distinct (remdups_adj (sort xs))" "sorted (remdups_adj (sort xs))"
    by (simp_all add: distinct_remdups_adj_if_sorted)
  then show ?thesis
    by (intro sorted_distinct_set_unique) simp_all
qed

lemma fold_insort_bset: "fold insort_insert xs [] = bset (xs :: 'a::linorder list)"
proof -
  have "sorted (fold insort_insert xs ys) \<and> distinct (fold insort_insert xs ys) \<and> set (fold insort_insert xs ys) = set xs \<union> set ys"
    if "sorted ys" "distinct ys" for ys :: "'a list"
    using that by (induction xs arbitrary: ys) (auto simp: sorted_insort_insert distinct_insort_insert set_insort_insert)
  from this [of "[]"] show ?thesis unfolding bset_eq_sorted_list_of_set by (simp add: sorted_distinct_set_unique)
qed

end
