(* ===== verification/Ieee64.thy ===== *)
theory Ieee64
  imports Prelude "HOL-Library.Log_Nat" Complex_Main
begin

text \<open>
  Rust's \<open>f64\<close>: IEEE 754 binary64 with round-to-nearest, ties to even. A value is not-a-number, an
  infinity, the negative zero, or a finite number given by the rational it denotes; every finite
  result of an operation is rounded to the binary64 grid, so rounding and overflow are in the
  model. The sign and payload of a NaN are not kept (Rust leaves them unspecified).
\<close>

section \<open>Rounding a positive rational to the grid\<close>

text \<open>The exponent of a positive rational: \<open>2 powi ilog2 q \<le> q < 2 powi (ilog2 q + 1)\<close>.\<close>

definition ilog2 :: "rat \<Rightarrow> int" where
  "ilog2 q = (let (n, d) = quotient_of q; k = bitlen n - bitlen d
    in if 2 powi k \<le> q then k else k - 1)"

text \<open>The distance of neighbouring grid points at \<open>q\<close>; subnormals share the smallest one.\<close>

definition ulp :: "rat \<Rightarrow> rat" where
  "ulp q = 2 powi (max (ilog2 q - 52) (-1074))"

definition round_half_even :: "rat \<Rightarrow> int" where
  "round_half_even x = (let f = \<lfloor>x\<rfloor>; r = x - of_int f
    in if r < 1 / 2 then f else if 1 / 2 < r then f + 1 else if even f then f else f + 1)"

definition round_mag :: "rat \<Rightarrow> rat" where
  "round_mag q = of_int (round_half_even (q / ulp q)) * ulp q"

lemma bitlen_bounds_int:
  assumes "0 < (x::int)"
  shows "2 ^ nat (bitlen x - 1) \<le> x" and "x < 2 ^ nat (bitlen x)" and "1 \<le> bitlen x"
proof -
  have "2 ^ nat (bitlen x - 1) \<le> x \<and> x < 2 ^ nat (bitlen x)"
    using assms by (rule bitlen_bounds)
  then show "2 ^ nat (bitlen x - 1) \<le> x" "x < 2 ^ nat (bitlen x)" by auto
  show "1 \<le> bitlen x" using assms bitlen_eq_zero_iff [of x] bitlen_nonneg [of x] by linarith
qed

lemma powi_nat: "0 \<le> k \<Longrightarrow> (2::rat) powi k = 2 ^ nat k"
  by (simp add: power_int_def)

lemma ilog2_bounds:
  assumes "0 < q"
  shows "2 powi ilog2 q \<le> q" and "q < 2 powi (ilog2 q + 1)"
proof -
  obtain n d where nd: "quotient_of q = (n, d)" by (cases "quotient_of q")
  have q: "q = of_int n / of_int d" using nd by (rule quotient_of_div)
  have d0: "0 < d" using nd by (rule quotient_of_denom_pos)
  have n0: "0 < n" using assms d0 by (simp add: q zero_less_divide_iff)
  let ?k = "bitlen n - bitlen d"
  note bn = bitlen_bounds_int [OF n0] and bd = bitlen_bounds_int [OF d0]
  have n_lo: "(2::rat) powi (bitlen n - 1) \<le> of_int n"
    using bn(1,3) by (simp add: powi_nat)
  have n_hi: "of_int n < (2::rat) powi (bitlen n)"
    using bn(2,3) by (simp add: powi_nat)
  have d_lo: "(2::rat) powi (bitlen d - 1) \<le> of_int d"
    using bd(1,3) by (simp add: powi_nat)
  have d_hi: "of_int d < (2::rat) powi (bitlen d)"
    using bd(2,3) by (simp add: powi_nat)
  have dpos: "(0::rat) < of_int d" using d0 by simp
  have "(2::rat) powi (?k - 1) * of_int d < 2 powi (?k - 1) * 2 powi (bitlen d)"
    using d_hi by (simp add: mult_strict_left_mono)
  also have "\<dots> = 2 powi (bitlen n - 1)"
    by (simp flip: power_int_add)
  also have "\<dots> \<le> of_int n" by (rule n_lo)
  finally have lo: "2 powi (?k - 1) < q" using dpos by (simp add: q field_simps)
  have "of_int n < (2::rat) powi (bitlen n)" by (rule n_hi)
  also have "\<dots> = 2 powi (?k + 1) * 2 powi (bitlen d - 1)"
    by (simp flip: power_int_add)
  also have "\<dots> \<le> 2 powi (?k + 1) * of_int d"
    using d_lo by (simp add: mult_left_mono)
  finally have hi: "q < 2 powi (?k + 1)" using dpos by (simp add: q field_simps)
  from lo hi show "2 powi ilog2 q \<le> q" "q < 2 powi (ilog2 q + 1)"
    by (auto simp: ilog2_def nd Let_def)
qed

lemma powi_mono: "a \<le> b \<Longrightarrow> (2::rat) powi a \<le> 2 powi b"
  by (rule power_int_increasing) auto

lemma powi_less_iff: "(2::rat) powi a < 2 powi b \<longleftrightarrow> a < b"
  by (meson linorder_not_less power_int_strict_increasing powi_mono one_less_numeral_iff semiring_norm(76))

lemma ilog2_mono: "0 < p \<Longrightarrow> p \<le> q \<Longrightarrow> ilog2 p \<le> ilog2 q"
proof -
  assume a: "0 < p" "p \<le> q"
  have "2 powi ilog2 p \<le> p" using a by (simp add: ilog2_bounds)
  also have "p \<le> q" by (rule a)
  also have "q < 2 powi (ilog2 q + 1)" using a by (intro ilog2_bounds(2)) simp
  finally show "ilog2 p \<le> ilog2 q" by (simp add: powi_less_iff)
qed

lemma ilog2_eqI: "2 powi e \<le> q \<Longrightarrow> q < 2 powi (e + 1) \<Longrightarrow> ilog2 q = e"
proof -
  assume a: "2 powi e \<le> q" "q < 2 powi (e + 1)"
  have q: "0 < q" by (rule less_le_trans [OF _ a(1)]) simp
  have "(2::rat) powi e < 2 powi (ilog2 q + 1)" "(2::rat) powi ilog2 q < 2 powi (e + 1)"
    using a ilog2_bounds [OF q] by linarith+
  then show "ilog2 q = e" by (simp add: powi_less_iff)
qed

lemma ulp_pos [simp]: "0 < ulp q"
  by (simp add: ulp_def)

lemma ulp_nonneg [simp]: "0 \<le> ulp q"
  by (rule less_imp_le) simp

lemma ulp_nonzero [simp]: "ulp q \<noteq> 0"
  using ulp_pos [of q] by (metis less_irrefl)

lemma round_half_even_of_int [simp]: "round_half_even (of_int i) = i"
  by (simp add: round_half_even_def)

lemma round_half_even_floor: "\<lfloor>x\<rfloor> \<le> round_half_even x" "round_half_even x \<le> \<lfloor>x\<rfloor> + 1"
  by (auto simp: round_half_even_def Let_def)

lemma round_half_even_mono: "x \<le> y \<Longrightarrow> round_half_even x \<le> round_half_even y"
proof (cases "\<lfloor>x\<rfloor> = \<lfloor>y\<rfloor>")
  case True
  assume "x \<le> y"
  then show ?thesis by (auto simp: round_half_even_def Let_def True)
next
  case False
  assume "x \<le> y"
  then have "\<lfloor>x\<rfloor> + 1 \<le> \<lfloor>y\<rfloor>" using False floor_mono [of x y] by linarith
  then show ?thesis using round_half_even_floor [of x] round_half_even_floor [of y] by linarith
qed

text \<open>Numbers on the grid are not changed.\<close>

lemma round_mag_grid: "q = of_int m * ulp q \<Longrightarrow> round_mag q = q"
proof -
  assume q: "q = of_int m * ulp q"
  have "q / ulp q = of_int m" by (subst (1) q) simp
  then show ?thesis using q by (simp add: round_mag_def)
qed

lemma round_mag_nonneg: "0 \<le> q \<Longrightarrow> 0 \<le> round_mag q"
proof -
  assume "0 \<le> q"
  then have "0 \<le> \<lfloor>q / ulp q\<rfloor>" by simp
  then have "0 \<le> round_half_even (q / ulp q)" using round_half_even_floor(1) order_trans by blast
  then show ?thesis by (simp add: round_mag_def)
qed

text \<open>Powers of two in the range are on the grid, also of the grid below them.\<close>

lemma powi_multiple: "s \<le> e \<Longrightarrow> (2::rat) powi e = of_int (2 ^ nat (e - s)) * 2 powi s"
  by (simp add: powi_nat [symmetric] flip: power_int_add)

lemma round_mag_below_power:
  assumes "0 < q" and "q \<le> 2 powi e" and "-1074 \<le> e" and "ilog2 q \<le> e"
  shows "round_mag q \<le> 2 powi e"
proof -
  let ?s = "max (ilog2 q - 52) (-1074)"
  have s: "?s \<le> e" using assms by auto
  have "q / ulp q \<le> of_int (2 ^ nat (e - ?s))"
    using assms(2) powi_multiple [OF s] by (simp add: ulp_def field_simps)
  then have "round_half_even (q / ulp q) \<le> 2 ^ nat (e - ?s)"
    using round_half_even_mono round_half_even_of_int by metis
  then have "of_int (round_half_even (q / ulp q)) * ulp q \<le> of_int (2 ^ nat (e - ?s)) * ulp q"
    by (intro mult_right_mono) (simp_all only: of_int_le_iff ulp_nonneg)
  then show ?thesis using powi_multiple [OF s] by (simp add: round_mag_def ulp_def)
qed

lemma round_mag_above_power:
  assumes "0 < q" and "2 powi e \<le> q" and "-1074 \<le> e" and "e \<le> ilog2 q" and "ilog2 q - 52 \<le> e"
  shows "2 powi e \<le> round_mag q"
proof -
  let ?s = "max (ilog2 q - 52) (-1074)"
  have s: "?s \<le> e" using assms by auto
  have "of_int (2 ^ nat (e - ?s)) \<le> q / ulp q"
    using assms(2) powi_multiple [OF s] by (simp add: ulp_def field_simps)
  then have "2 ^ nat (e - ?s) \<le> round_half_even (q / ulp q)"
    using round_half_even_mono round_half_even_of_int by metis
  then have "of_int (2 ^ nat (e - ?s)) * ulp q \<le> of_int (round_half_even (q / ulp q)) * ulp q"
    by (intro mult_right_mono) (simp_all only: of_int_le_iff ulp_nonneg)
  then show ?thesis using powi_multiple [OF s] by (simp add: round_mag_def ulp_def)
qed

text \<open>Rounding is monotone.\<close>

lemma round_mag_mono:
  assumes "0 < p" and "p \<le> q"
  shows "round_mag p \<le> round_mag q"
proof -
  have pq: "0 < q" "ilog2 p \<le> ilog2 q" using assms by (auto intro: ilog2_mono)
  show ?thesis
  proof (cases "ulp p = ulp q")
    case True
    have "round_half_even (p / ulp q) \<le> round_half_even (q / ulp q)"
      using assms by (intro round_half_even_mono divide_right_mono) simp_all
    then show ?thesis by (simp add: round_mag_def True mult_right_mono)
  next
    case False
    then have less: "ilog2 p < ilog2 q" and big: "-1022 < ilog2 q"
      using pq(2) False by (cases "ilog2 p = ilog2 q"; auto simp: ulp_def max_def split: if_splits)+
    have "round_mag p \<le> 2 powi (ilog2 q)"
    proof (rule round_mag_below_power)
      have "p < 2 powi (ilog2 p + 1)" using assms by (simp add: ilog2_bounds)
      also have "\<dots> \<le> 2 powi ilog2 q" using less by (intro powi_mono) simp
      finally show "p \<le> 2 powi (ilog2 q)" by simp
    qed (use assms less big in auto)
    also have "2 powi (ilog2 q) \<le> round_mag q"
      by (rule round_mag_above_power) (use pq big ilog2_bounds in auto)
    finally show ?thesis .
  qed
qed

section \<open>Values and operations\<close>

datatype f64 = F_nan | F_inf bool | F_negzero | F_fin rat

text \<open>\<open>F_inf True\<close> is the negative infinity.\<close>

abbreviation f64_zero :: f64 where "f64_zero \<equiv> F_fin 0"
abbreviation f64_one :: f64 where "f64_one \<equiv> F_fin 1"

text \<open>The least magnitude that overflows, \<open>2 ^ 1024\<close>, as a literal that evaluates.\<close>

definition f64_limit :: rat where
  "f64_limit = 179769313486231590772930519078902473361797697894230657273430081157732675805500963132708477322407536021120113879871393357658789768814416622492847430639474124377767893424865485276302219601246094119453082952085005768838150682342462881473913110540827237163350510684586298239947245938479716304835356329624224137216"

lemma f64_limit_eq: "f64_limit = 2 ^ 1024"
  by (simp add: f64_limit_def)

definition f64_round :: "rat \<Rightarrow> f64" where
  "f64_round q = (if q = 0 then F_fin 0
    else let m = round_mag \<bar>q\<bar> in
      if f64_limit \<le> m then F_inf (q < 0)
      else if m = 0 then (if q < 0 then F_negzero else F_fin 0)
      else F_fin (if q < 0 then - m else m))"

text \<open>\<open>n as f64\<close> for an unsigned and for a signed integer.\<close>

definition f64_of_nat :: "nat \<Rightarrow> f64" where
  "f64_of_nat n = f64_round (of_nat n)"

definition f64_of_int :: "int \<Rightarrow> f64" where
  "f64_of_int i = f64_round (of_int i)"

fun f64_negative :: "f64 \<Rightarrow> bool" where
  "f64_negative F_nan = False"
| "f64_negative (F_inf s) = s"
| "f64_negative F_negzero = True"
| "f64_negative (F_fin q) = (q < 0)"

fun f64_neg :: "f64 \<Rightarrow> f64" where
  "f64_neg F_nan = F_nan"
| "f64_neg (F_inf s) = F_inf (\<not> s)"
| "f64_neg F_negzero = F_fin 0"
| "f64_neg (F_fin q) = (if q = 0 then F_negzero else F_fin (- q))"

definition f64_signed_zero :: "bool \<Rightarrow> f64" where
  "f64_signed_zero s = (if s then F_negzero else F_fin 0)"

fun f64_add :: "f64 \<Rightarrow> f64 \<Rightarrow> f64" where
  "f64_add F_nan y = F_nan"
| "f64_add x F_nan = F_nan"
| "f64_add (F_inf s) (F_inf t) = (if s = t then F_inf s else F_nan)"
| "f64_add (F_inf s) y = F_inf s"
| "f64_add x (F_inf t) = F_inf t"
| "f64_add F_negzero F_negzero = F_negzero"
| "f64_add F_negzero (F_fin q) = F_fin q"
| "f64_add (F_fin p) F_negzero = F_fin p"
| "f64_add (F_fin p) (F_fin q) = f64_round (p + q)"

definition f64_sub :: "f64 \<Rightarrow> f64 \<Rightarrow> f64" where
  "f64_sub x y = f64_add x (f64_neg y)"

text \<open>The rational a finite value denotes.\<close>

fun f64_val :: "f64 \<Rightarrow> rat" where
  "f64_val (F_fin q) = q"
| "f64_val _ = 0"

fun f64_is_finite :: "f64 \<Rightarrow> bool" where
  "f64_is_finite (F_fin q) = True"
| "f64_is_finite F_negzero = True"
| "f64_is_finite _ = False"

definition f64_mul :: "f64 \<Rightarrow> f64 \<Rightarrow> f64" where
  "f64_mul x y = (let s = (f64_negative x \<noteq> f64_negative y) in
    if x = F_nan \<or> y = F_nan then F_nan
    else if f64_is_finite x \<and> f64_is_finite y then
      (let p = f64_val x * f64_val y in if p = 0 then f64_signed_zero s else f64_round p)
    else if (f64_is_finite x \<and> f64_val x = 0) \<or> (f64_is_finite y \<and> f64_val y = 0) then F_nan
    else F_inf s)"

definition f64_div :: "f64 \<Rightarrow> f64 \<Rightarrow> f64" where
  "f64_div x y = (let s = (f64_negative x \<noteq> f64_negative y) in
    if x = F_nan \<or> y = F_nan then F_nan
    else if \<not> f64_is_finite x then (if f64_is_finite y then F_inf s else F_nan)
    else if \<not> f64_is_finite y then f64_signed_zero s
    else if f64_val y = 0 then (if f64_val x = 0 then F_nan else F_inf s)
    else if f64_val x = 0 then f64_signed_zero s
    else f64_round (f64_val x / f64_val y))"

text \<open>The partial order of \<open>PartialOrd\<close>; a NaN compares with nothing.\<close>

fun f64_lt :: "f64 \<Rightarrow> f64 \<Rightarrow> bool" where
  "f64_lt F_nan y = False"
| "f64_lt x F_nan = False"
| "f64_lt (F_inf s) (F_inf t) = (s \<and> \<not> t)"
| "f64_lt (F_inf s) y = s"
| "f64_lt x (F_inf t) = (\<not> t)"
| "f64_lt x y = (f64_val x < f64_val y)"

fun f64_eq :: "f64 \<Rightarrow> f64 \<Rightarrow> bool" where
  "f64_eq F_nan y = False"
| "f64_eq x F_nan = False"
| "f64_eq (F_inf s) (F_inf t) = (s = t)"
| "f64_eq (F_inf s) y = False"
| "f64_eq x (F_inf t) = False"
| "f64_eq x y = (f64_val x = f64_val y)"

definition f64_le :: "f64 \<Rightarrow> f64 \<Rightarrow> bool" where
  "f64_le x y \<longleftrightarrow> f64_lt x y \<or> f64_eq x y"

text \<open>The total order of \<open>f64::total_cmp\<close>, with the NaN above everything.\<close>

fun f64_total_lt :: "f64 \<Rightarrow> f64 \<Rightarrow> bool" where
  "f64_total_lt F_nan y = False"
| "f64_total_lt x F_nan = True"
| "f64_total_lt F_negzero (F_fin q) = (0 \<le> q)"
| "f64_total_lt x y = f64_lt x y"

text \<open>\<open>f64::clamp\<close> (a NaN stays), \<open>f64::ceil\<close>, and the saturating \<open>as u64\<close>.\<close>

definition f64_clamp :: "f64 \<Rightarrow> f64 \<Rightarrow> f64 \<Rightarrow> f64" where
  "f64_clamp lo hi x = (let y = (if f64_lt x lo then lo else x) in if f64_lt hi y then hi else y)"

fun f64_ceil :: "f64 \<Rightarrow> f64" where
  "f64_ceil (F_fin q) = (if \<lceil>q\<rceil> = 0 \<and> q < 0 then F_negzero else F_fin (of_int \<lceil>q\<rceil>))"
| "f64_ceil x = x"

fun f64_to_u64 :: "f64 \<Rightarrow> nat" where
  "f64_to_u64 F_nan = 0"
| "f64_to_u64 (F_inf s) = (if s then 0 else u64_max)"
| "f64_to_u64 F_negzero = 0"
| "f64_to_u64 (F_fin q) = min (nat \<lfloor>q\<rfloor>) u64_max"

text \<open>A value in the closed unit interval.\<close>

definition f64_unit :: "f64 \<Rightarrow> bool" where
  "f64_unit x \<longleftrightarrow> f64_le f64_zero x \<and> f64_le x f64_one"

section \<open>Facts about the operations\<close>

lemma f64_round_zero [simp]: "f64_round 0 = F_fin 0"
  by (simp add: f64_round_def)

lemma ilog2_one [simp]: "ilog2 1 = 0"
  by (rule ilog2_eqI) simp_all

lemma round_mag_one [simp]: "round_mag 1 = 1"
proof (rule round_mag_grid)
  have "(2::rat) powi 0 = of_int (2 ^ 52) * 2 powi (-52)"
    using powi_multiple [of "-52" 0] by simp
  then show "1 = of_int (2 ^ 52) * ulp 1" by (simp add: ulp_def)
qed

lemma round_mag_le_one: "0 < q \<Longrightarrow> q \<le> 1 \<Longrightarrow> round_mag q \<le> 1"
  using round_mag_mono [of q 1] by simp

lemma round_mag_ge_one: "1 \<le> q \<Longrightarrow> 1 \<le> round_mag q"
  using round_mag_mono [of 1 q] by simp

lemma f64_round_unit: "0 \<le> q \<Longrightarrow> q \<le> 1 \<Longrightarrow> f64_unit (f64_round q)"
proof (cases "q = 0")
  case True
  then show ?thesis by (simp add: f64_unit_def f64_le_def)
next
  case False
  assume "0 \<le> q" "q \<le> 1"
  with False have q: "0 < q" "q \<le> 1" by simp_all
  have one: "\<not> (2 ^ 1024 \<le> (1::rat))" by simp
  have "round_mag q < 2 ^ 1024"
    using round_mag_le_one [OF q] one by linarith
  then show ?thesis
    using q round_mag_le_one [OF q] round_mag_nonneg [of q]
    by (auto simp: f64_round_def Let_def f64_unit_def f64_le_def not_le f64_limit_eq)
qed

lemma f64_of_nat_0 [simp]: "f64_of_nat 0 = F_fin 0"
  by (simp add: f64_of_nat_def)

lemma round_mag_u64:
  assumes "0 < n" and "n \<le> u64_max"
  shows "round_mag (of_nat n) < 2 ^ 1024"
proof -
  have n: "(0::rat) < of_nat n" "of_nat n \<le> (2::rat) powi 64"
    using assms by (simp_all add: u64_max_def)
  have "(of_nat n :: rat) < 2 powi 65"
    using n(2) by (rule le_less_trans) (simp add: powi_less_iff)
  then have "(2::rat) powi ilog2 (of_nat n) < 2 powi 65"
    using ilog2_bounds(1) [OF n(1)] by linarith
  then have "ilog2 (of_nat n) < 65" by (simp only: powi_less_iff)
  then have "round_mag (of_nat n) \<le> 2 powi 64"
    using n by (intro round_mag_below_power) simp_all
  also have "\<dots> < 2 ^ 1024" by simp
  finally show ?thesis .
qed

lemma f64_of_nat_pos:
  assumes "0 < n" and "n \<le> u64_max"
  shows "f64_of_nat n = F_fin (round_mag (of_nat n))" and "1 \<le> round_mag (of_nat n)"
proof -
  show one: "1 \<le> round_mag (of_nat n)" using assms by (intro round_mag_ge_one) simp
  then show "f64_of_nat n = F_fin (round_mag (of_nat n))"
    using assms round_mag_u64 [OF assms] by (auto simp: f64_of_nat_def f64_round_def Let_def f64_limit_eq)
qed

text \<open>The quotient of two counts is in the unit interval, whatever the rounding did.\<close>

lemma f64_div_counts_unit:
  assumes "a \<le> b" and "0 < b" and "b \<le> u64_max"
  shows "f64_unit (f64_div (f64_of_nat a) (f64_of_nat b))"
proof (cases "a = 0")
  case True
  then show ?thesis
    using f64_of_nat_pos [OF assms(2,3)]
    by (auto simp: f64_div_def f64_signed_zero_def f64_unit_def f64_le_def)
next
  case False
  let ?a = "round_mag (of_nat a)" and ?b = "round_mag (of_nat b)"
  have a: "f64_of_nat a = F_fin ?a" "1 \<le> ?a" using False assms by (auto intro: f64_of_nat_pos)
  have b: "f64_of_nat b = F_fin ?b" "1 \<le> ?b" using assms by (auto intro: f64_of_nat_pos)
  have "?a \<le> ?b" using False assms by (intro round_mag_mono) simp_all
  then have "f64_unit (f64_round (?a / ?b))"
    using a b by (intro f64_round_unit) simp_all
  then show ?thesis using a b by (simp add: f64_div_def)
qed

lemma f64_div_self_counts:
  "0 < b \<Longrightarrow> b \<le> u64_max \<Longrightarrow> f64_div (f64_of_nat b) (f64_of_nat b) = f64_one"
  using f64_of_nat_pos [of b] by (auto simp: f64_div_def f64_round_def f64_limit_def)

lemma f64_clamp_unit: "x \<noteq> F_nan \<Longrightarrow> f64_unit (f64_clamp f64_zero f64_one x)"
  by (cases x) (auto simp: f64_clamp_def f64_unit_def f64_le_def Let_def)

lemma f64_div_zero_count: "0 < b \<Longrightarrow> b \<le> u64_max \<Longrightarrow> f64_div (f64_of_nat 0) (f64_of_nat b) = f64_zero"
  using f64_of_nat_pos [of b] by (auto simp: f64_div_def f64_signed_zero_def)

lemma ilog2_nat_less:
  assumes "0 < n" and "n < 2 ^ k"
  shows "ilog2 (of_nat n) < int k"
proof -
  have "(of_nat n :: rat) < of_nat (2 ^ k)" using assms(2) by (simp only: of_nat_less_iff)
  then have "(of_nat n :: rat) < 2 powi int k" by simp
  moreover have "(2::rat) powi ilog2 (of_nat n) \<le> of_nat n" using assms(1) by (intro ilog2_bounds(1)) simp
  ultimately have "(2::rat) powi ilog2 (of_nat n) < 2 powi int k" by (rule le_less_trans [rotated])
  then show ?thesis unfolding powi_less_iff .
qed

lemma round_mag_nat_exact:
  assumes "0 < n" and "n < 2 ^ 53"
  shows "round_mag (of_nat n) = of_nat n"
proof (rule round_mag_grid)
  let ?e = "max (ilog2 (of_nat n) - 52) (-1074)"
  have "?e \<le> 0" using ilog2_nat_less [OF assms] by simp
  then have "(2::rat) powi 0 = of_int (2 ^ nat (0 - ?e)) * 2 powi ?e" by (rule powi_multiple)
  then have "(1::rat) = of_int (2 ^ nat (0 - ?e)) * ulp (of_nat n)" by (simp add: ulp_def)
  then show "of_nat n = of_int (int n * 2 ^ nat (0 - ?e)) * ulp (of_nat n)"
    by (metis mult.assoc mult.right_neutral of_int_mult of_int_of_nat_eq)
qed

lemma f64_of_nat_exact: "n < 2 ^ 53 \<Longrightarrow> f64_of_nat n = F_fin (of_nat n)"
proof (cases "n = 0")
  case False
  assume "n < 2 ^ 53"
  then show ?thesis
    using False f64_of_nat_pos(1) [of n] round_mag_nat_exact [of n] by (simp add: u64_max_def)
qed simp

end
