(* ===== verification/CoreData.thy ===== *)
theory CoreData
  imports BTree Ieee64
begin

text \<open>
  The canonical object-centric event log: \<open>crates/ocpm-core/src/error.rs\<close> and
  \<open>crates/ocpm-core/src/data.rs\<close>. Identifiers and counters are natural numbers (they are only
  compared here), instants are integers, the values of the opaque JSON metadata are a type
  parameter. \<open>log_validate\<close> and \<open>sort_canonical\<close> follow the code loop by loop; \<open>wf_log\<close> is the
  declarative reading of a valid log.
\<close>

section \<open>Errors (\<open>error.rs\<close>)\<close>

datatype ocpm_error_code =
  InvalidRequest | UnsupportedSemanticVersion | UnsupportedFormat | InvalidData | NotFound
| UnauthorizedScope | ProviderUnavailable | ProviderContractViolation | ResourceLimit | InputLimit
| Timeout | Cancelled | InsufficientData | SearchTruncated | ArtifactIncompatible | Internal

record ocpm_error =
  err_code :: ocpm_error_code
  err_message :: string
  err_retryable :: bool
  err_field_path :: "string option"
  err_limit :: "nat option"
  err_actual :: "nat option"

definition ocpm_error_new :: "ocpm_error_code \<Rightarrow> string \<Rightarrow> ocpm_error" where
  "ocpm_error_new c m = \<lparr>err_code = c, err_message = m, err_retryable = False, err_field_path = None,
     err_limit = None, err_actual = None\<rparr>"

definition invalid_data :: "string \<Rightarrow> ocpm_error" where
  "invalid_data m = ocpm_error_new InvalidData m"

definition invalid_request :: "string \<Rightarrow> ocpm_error" where
  "invalid_request m = ocpm_error_new InvalidRequest m"

definition resource_limit :: "string \<Rightarrow> nat \<Rightarrow> nat \<Rightarrow> ocpm_error" where
  "resource_limit m bound act = \<lparr>err_code = ResourceLimit, err_message = m, err_retryable = True,
     err_field_path = None, err_limit = Some bound, err_actual = Some act\<rparr>"

definition error_at :: "string \<Rightarrow> ocpm_error \<Rightarrow> ocpm_error" where
  "error_at p e = e\<lparr>err_field_path := Some p\<rparr>"

lemma error_codes [simp]:
  "err_code (ocpm_error_new c m) = c" "err_code (invalid_data m) = InvalidData"
  "err_code (invalid_request m) = InvalidRequest" "err_code (resource_limit m l a) = ResourceLimit"
  "err_code (error_at p e) = err_code e"
  by (simp_all add: ocpm_error_new_def invalid_data_def invalid_request_def resource_limit_def
      error_at_def)

type_synonym 'a ocpm_result = "ocpm_error + 'a"

section \<open>The data model (\<open>data.rs\<close>)\<close>

datatype timestamp = Timestamp (epoch_nanos_utc: int) (ts_source: "string option")

text \<open>The derived \<open>Ord\<close>: the instant first, then the source text.\<close>

instantiation timestamp :: linorder
begin

definition less_eq_timestamp :: "timestamp \<Rightarrow> timestamp \<Rightarrow> bool" where
  "s \<le> t \<longleftrightarrow> (epoch_nanos_utc s, ts_source s) \<le> (epoch_nanos_utc t, ts_source t)"

definition less_timestamp :: "timestamp \<Rightarrow> timestamp \<Rightarrow> bool" where
  "s < t \<longleftrightarrow> (epoch_nanos_utc s, ts_source s) < (epoch_nanos_utc t, ts_source t)"

instance
proof
  fix x y z :: timestamp
  show "(x < y) = (x \<le> y \<and> \<not> y \<le> x)" by (auto simp: less_eq_timestamp_def less_timestamp_def)
  show "x \<le> x" by (simp add: less_eq_timestamp_def)
  show "x \<le> y \<Longrightarrow> y \<le> z \<Longrightarrow> x \<le> z" unfolding less_eq_timestamp_def by (rule order_trans)
  show "x \<le> y \<Longrightarrow> y \<le> x \<Longrightarrow> x = y"
    by (cases x; cases y) (auto simp: less_eq_timestamp_def)
  show "x \<le> y \<or> y \<le> x" by (auto simp: less_eq_timestamp_def)
qed

end

definition timestamp_MIN :: timestamp where "timestamp_MIN = Timestamp i128_min None"
definition timestamp_MAX :: timestamp where "timestamp_MAX = Timestamp i128_max None"

definition from_epoch_nanos :: "int \<Rightarrow> timestamp" where
  "from_epoch_nanos n = Timestamp n None"

datatype attribute_value =
  AttrNull | AttrString string | AttrInteger int | AttrFloat f64 | AttrBoolean bool
| AttrTimestamp timestamp

text \<open>The derived \<open>PartialEq\<close>: floats compare as IEEE numbers.\<close>

fun attr_eq :: "attribute_value \<Rightarrow> attribute_value \<Rightarrow> bool" where
  "attr_eq (AttrFloat x) (AttrFloat y) = f64_eq x y"
| "attr_eq v w = (v = w)"

type_synonym attributes = "(string, attribute_value) btree_map"

record event =
  ev_id :: nat
  ev_external_id :: string
  ev_activity :: string
  ev_timestamp :: timestamp
  ev_sequence :: nat
  ev_lifecycle :: "string option"
  ev_attributes :: attributes

record object =
  ob_id :: nat
  ob_external_id :: string
  ob_type :: string

record event_object_relation =
  e2o_relation_id :: nat
  e2o_event_id :: nat
  e2o_object_id :: nat
  e2o_qualifier :: string

record object_object_relation =
  o2o_relation_id :: nat
  o2o_source_object_id :: nat
  o2o_target_object_id :: nat
  o2o_qualifier :: string
  o2o_valid_from :: "timestamp option"
  o2o_valid_to :: "timestamp option"

record object_attribute_change =
  oac_object_id :: nat
  oac_name :: string
  oac_valid_from :: timestamp
  oac_value :: attribute_value

record 'j canonical_log =
  log_dataset_id :: string
  log_tenant_id :: string
  log_source_watermark :: "timestamp option"
  log_events :: "event list"
  log_objects :: "object list"
  log_e2o :: "event_object_relation list"
  log_o2o :: "object_object_relation list"
  log_attribute_history :: "object_attribute_change list"
  log_metadata :: "(string, 'j) btree_map"

record canonical_event_batch =
  ceb_event_id :: "nat list"
  ceb_external_event_id :: "string list"
  ceb_activity :: "string list"
  ceb_timestamp_nanos_utc :: "int list"
  ceb_source_timestamp :: "string option list"
  ceb_sequence :: "nat list"
  ceb_lifecycle :: "string option list"
  ceb_attributes :: "attributes list"

record object_batch =
  obb_object_id :: "nat list"
  obb_external_object_id :: "string list"
  obb_object_type :: "string list"

record e2o_batch =
  e2ob_event_id :: "nat list"
  e2ob_object_id :: "nat list"
  e2ob_qualifier :: "string list"

record o2o_batch =
  o2ob_source_object_id :: "nat list"
  o2ob_target_object_id :: "nat list"
  o2ob_qualifier :: "string list"
  o2ob_valid_from_nanos_utc :: "int option list"
  o2ob_valid_to_nanos_utc :: "int option list"

record object_attribute_batch =
  oab_object_id :: "nat list"
  oab_name :: "string list"
  oab_valid_from_nanos_utc :: "int list"
  oab_value :: "attribute_value list"

record append_batch =
  ab_events :: canonical_event_batch
  ab_objects :: object_batch
  ab_e2o :: e2o_batch
  ab_o2o :: o2o_batch
  ab_attribute_history :: object_attribute_batch
  ab_source_watermark :: "timestamp option"

section \<open>Batch validation\<close>

definition max_encoded_bytes :: nat where "max_encoded_bytes = 16 * 1024 * 1024"

definition equal_lengths :: "string \<Rightarrow> nat list \<Rightarrow> unit ocpm_result" where
  "equal_lengths name lengths =
     ensure (\<forall>p \<in> set (windows2 lengths). fst p = snd p)
       (invalid_data (name @ '' batch columns must have equal lengths: '' @ show_nat_list lengths))"

text \<open>
  \<open>encoded\<close> stands for \<open>serde_json::to_vec\<close>: the serialiser's error text, or the number of bytes
  it wrote.
\<close>

definition append_batch_validate ::
  "(append_batch \<Rightarrow> string + nat) \<Rightarrow> append_batch \<Rightarrow> unit ocpm_result" where
  "append_batch_validate encoded b =
    rbind (let e = ab_events b in equal_lengths ''events''
      [length (ceb_event_id e), length (ceb_external_event_id e), length (ceb_activity e),
       length (ceb_timestamp_nanos_utc e), length (ceb_source_timestamp e),
       length (ceb_sequence e), length (ceb_lifecycle e), length (ceb_attributes e)]) (\<lambda>_.
    rbind (let x = ab_objects b in equal_lengths ''objects''
      [length (obb_object_id x), length (obb_external_object_id x), length (obb_object_type x)]) (\<lambda>_.
    rbind (let x = ab_e2o b in equal_lengths ''event_object_relations''
      [length (e2ob_event_id x), length (e2ob_object_id x), length (e2ob_qualifier x)]) (\<lambda>_.
    rbind (let x = ab_o2o b in equal_lengths ''object_object_relations''
      [length (o2ob_source_object_id x), length (o2ob_target_object_id x),
       length (o2ob_qualifier x), length (o2ob_valid_from_nanos_utc x),
       length (o2ob_valid_to_nanos_utc x)]) (\<lambda>_.
    rbind (let x = ab_attribute_history b in equal_lengths ''object_attribute_history''
      [length (oab_object_id x), length (oab_name x), length (oab_valid_from_nanos_utc x),
       length (oab_value x)]) (\<lambda>_.
    rbind (map_err (\<lambda>error. invalid_data (''append batch is invalid: '' @ error)) (encoded b)) (\<lambda>bytes.
    if max_encoded_bytes < bytes
    then Err (resource_limit ''append batch exceeds the 16 MiB provider boundary''
      max_encoded_bytes bytes)
    else Ok ()))))))"

section \<open>Log validation\<close>

definition validate_attribute :: "attribute_value \<Rightarrow> unit ocpm_result" where
  "validate_attribute v = (case v of
     AttrFloat x \<Rightarrow> ensure (f64_is_finite x) (invalid_data ''floating-point attributes must be finite'')
   | _ \<Rightarrow> Ok ())"

definition field_index :: "string \<Rightarrow> nat \<Rightarrow> string" where
  "field_index f i = f @ ''['' @ show_nat i @ '']''"

text \<open>The bodies of the five loops of \<open>CanonicalLog::validate\<close>, over the sets of values seen.\<close>

fun validate_event :: "nat set \<times> string set \<Rightarrow> nat \<times> event \<Rightarrow> (nat set \<times> string set) ocpm_result" where
  "validate_event (event_ids, external_ids) (i, e) =
    (let p = field_index ''events'' i in
     rbind (ensure (\<not> (ev_external_id e = [] \<or> ev_activity e = []))
       (error_at p (invalid_data ''event external_id and activity must be nonempty''))) (\<lambda>_.
     rbind (ensure (\<not> (ev_id e \<in> event_ids \<or> ev_external_id e \<in> external_ids))
       (error_at p (invalid_data ''event IDs must be unique''))) (\<lambda>_.
     rbind (try_fold (\<lambda>_ v. map_err (error_at p) (validate_attribute v)) ()
       (bt_values (ev_attributes e))) (\<lambda>_.
     Ok (insert (ev_id e) event_ids, insert (ev_external_id e) external_ids)))))"

fun validate_object :: "nat set \<times> string set \<Rightarrow> nat \<times> object \<Rightarrow> (nat set \<times> string set) ocpm_result" where
  "validate_object (object_ids, external_ids) (i, ob) =
    (let p = field_index ''objects'' i in
     rbind (ensure (\<not> (ob_external_id ob = [] \<or> ob_type ob = []))
       (error_at p (invalid_data ''object external_id and object_type must be nonempty''))) (\<lambda>_.
     rbind (ensure (\<not> (ob_id ob \<in> object_ids \<or> ob_external_id ob \<in> external_ids))
       (error_at p (invalid_data ''object IDs must be unique''))) (\<lambda>_.
     Ok (insert (ob_id ob) object_ids, insert (ob_external_id ob) external_ids))))"

fun validate_e2o :: "nat set \<Rightarrow> nat set \<Rightarrow> (nat \<times> nat) set \<Rightarrow> nat \<times> event_object_relation
    \<Rightarrow> (nat \<times> nat) set ocpm_result" where
  "validate_e2o event_ids object_ids relation_ids (i, r) =
    (let p = field_index ''event_object_relations'' i in
     rbind (ensure ((0, e2o_relation_id r) \<notin> relation_ids)
       (error_at p (invalid_data ''E2O relation IDs must be unique''))) (\<lambda>_.
     rbind (ensure (\<not> (e2o_event_id r \<notin> event_ids \<or> e2o_object_id r \<notin> object_ids))
       (error_at p (invalid_data ''E2O relation endpoint does not exist''))) (\<lambda>_.
     Ok (insert (0, e2o_relation_id r) relation_ids))))"

definition o2o_interval_ok :: "object_object_relation \<Rightarrow> bool" where
  "o2o_interval_ok r = (case (o2o_valid_from r, o2o_valid_to r) of
     (Some from, Some to) \<Rightarrow> \<not> to \<le> from | _ \<Rightarrow> True)"

fun validate_o2o :: "nat set \<Rightarrow> (nat \<times> nat) set \<Rightarrow> nat \<times> object_object_relation
    \<Rightarrow> (nat \<times> nat) set ocpm_result" where
  "validate_o2o object_ids relation_ids (i, r) =
    (let p = field_index ''object_object_relations'' i in
     rbind (ensure ((1, o2o_relation_id r) \<notin> relation_ids)
       (error_at p (invalid_data ''O2O relation IDs must be unique''))) (\<lambda>_.
     rbind (ensure (\<not> (o2o_source_object_id r \<notin> object_ids \<or> o2o_target_object_id r \<notin> object_ids))
       (error_at p (invalid_data ''O2O relation endpoint does not exist''))) (\<lambda>_.
     rbind (ensure (o2o_interval_ok r)
       (error_at p (invalid_data ''O2O valid_to must be after valid_from''))) (\<lambda>_.
     Ok (insert (1, o2o_relation_id r) relation_ids)))))"

definition oac_key :: "object_attribute_change \<Rightarrow> nat \<times> string \<times> timestamp" where
  "oac_key c = (oac_object_id c, oac_name c, oac_valid_from c)"

fun validate_change :: "nat set \<Rightarrow> (nat \<times> string \<times> timestamp) set \<Rightarrow> nat \<times> object_attribute_change
    \<Rightarrow> (nat \<times> string \<times> timestamp) set ocpm_result" where
  "validate_change object_ids keys (i, c) =
    (let p = field_index ''object_attribute_history'' i in
     rbind (ensure (\<not> (oac_object_id c \<notin> object_ids \<or> oac_name c = []))
       (error_at p (invalid_data ''invalid object attribute history row''))) (\<lambda>_.
     rbind (ensure (oac_key c \<notin> keys) (error_at p (invalid_data
       ''object attribute changes must be unique per object/name/time''))) (\<lambda>_.
     rbind (map_err (error_at p) (validate_attribute (oac_value c))) (\<lambda>_.
     Ok (insert (oac_key c) keys)))))"

definition log_validate :: "'j canonical_log \<Rightarrow> unit ocpm_result" where
  "log_validate cl =
    rbind (try_fold validate_event ({}, {}) (indexed (log_events cl))) (\<lambda>(event_ids, _).
    rbind (try_fold validate_object ({}, {}) (indexed (log_objects cl))) (\<lambda>(object_ids, _).
    rbind (try_fold (validate_e2o event_ids object_ids) {} (indexed (log_e2o cl))) (\<lambda>relation_ids.
    rbind (try_fold (validate_o2o object_ids) relation_ids (indexed (log_o2o cl))) (\<lambda>_.
    rbind (try_fold (validate_change object_ids) {} (indexed (log_attribute_history cl))) (\<lambda>_.
    Ok ())))))"

text \<open>\<open>CanonicalLog::sort_canonical\<close>: stable sorts, the comparators as lexicographic keys.\<close>

definition event_key :: "event \<Rightarrow> timestamp \<times> nat \<times> string" where
  "event_key e = (ev_timestamp e, ev_sequence e, ev_external_id e)"

definition sort_canonical :: "'j canonical_log \<Rightarrow> 'j canonical_log" where
  "sort_canonical cl = cl\<lparr>
     log_events := sort_key event_key (log_events cl),
     log_objects := sort_key (\<lambda>ob. (ob_type ob, ob_external_id ob)) (log_objects cl),
     log_e2o := sort_key e2o_relation_id (log_e2o cl),
     log_o2o := sort_key o2o_relation_id (log_o2o cl),
     log_attribute_history := sort_key oac_key (log_attribute_history cl)\<rparr>"

definition log_event :: "'j canonical_log \<Rightarrow> nat \<Rightarrow> event option" where
  "log_event cl i = find (\<lambda>e. ev_id e = i) (log_events cl)"

definition log_object :: "'j canonical_log \<Rightarrow> nat \<Rightarrow> object option" where
  "log_object cl i = find (\<lambda>ob. ob_id ob = i) (log_objects cl)"

section \<open>What a valid log is\<close>

definition attr_finite :: "attribute_value \<Rightarrow> bool" where
  "attr_finite v = (case v of AttrFloat x \<Rightarrow> f64_is_finite x | _ \<Rightarrow> True)"

definition wf_event :: "event \<Rightarrow> bool" where
  "wf_event e \<longleftrightarrow> ev_external_id e \<noteq> [] \<and> ev_activity e \<noteq> [] \<and>
     (\<forall>v \<in> set (bt_values (ev_attributes e)). attr_finite v)"

definition wf_object :: "object \<Rightarrow> bool" where
  "wf_object ob \<longleftrightarrow> ob_external_id ob \<noteq> [] \<and> ob_type ob \<noteq> []"

definition wf_log :: "'j canonical_log \<Rightarrow> bool" where
  "wf_log cl \<longleftrightarrow>
     (let event_ids = ev_id ` set (log_events cl); object_ids = ob_id ` set (log_objects cl) in
     (\<forall>e \<in> set (log_events cl). wf_event e) \<and>
     distinct (map ev_id (log_events cl)) \<and> distinct (map ev_external_id (log_events cl)) \<and>
     (\<forall>ob \<in> set (log_objects cl). wf_object ob) \<and>
     distinct (map ob_id (log_objects cl)) \<and> distinct (map ob_external_id (log_objects cl)) \<and>
     (\<forall>r \<in> set (log_e2o cl). e2o_event_id r \<in> event_ids \<and> e2o_object_id r \<in> object_ids) \<and>
     distinct (map e2o_relation_id (log_e2o cl)) \<and>
     (\<forall>r \<in> set (log_o2o cl). o2o_source_object_id r \<in> object_ids \<and>
        o2o_target_object_id r \<in> object_ids \<and> o2o_interval_ok r) \<and>
     distinct (map o2o_relation_id (log_o2o cl)) \<and>
     (\<forall>c \<in> set (log_attribute_history cl). oac_object_id c \<in> object_ids \<and> oac_name c \<noteq> [] \<and>
        attr_finite (oac_value c)) \<and>
     distinct (map oac_key (log_attribute_history cl)))"

text \<open>
  The loops are scans that reject a repeated key: the interface \<open>unique_scan\<close> is a step that
  succeeds exactly on an acceptable element with fresh keys, and records them.
\<close>

locale unique_scan =
  fixes step :: "'a set \<times> 'b set \<Rightarrow> nat \<times> 'x \<Rightarrow> 'e + ('a set \<times> 'b set)"
    and good :: "'x \<Rightarrow> bool"
    and key1 :: "'x \<Rightarrow> 'a"
    and key2 :: "'x \<Rightarrow> 'b"
  assumes step_ok: "step (A, B) (i, x) = Ok t \<longleftrightarrow>
    good x \<and> key1 x \<notin> A \<and> key2 x \<notin> B \<and> t = (insert (key1 x) A, insert (key2 x) B)"
begin

lemma scan_zip:
  assumes "length js = length xs"
  shows "try_fold step (A, B) (zip js xs) = Ok t \<longleftrightarrow>
    (\<forall>x \<in> set xs. good x \<and> key1 x \<notin> A \<and> key2 x \<notin> B) \<and>
    distinct (map key1 xs) \<and> distinct (map key2 xs) \<and>
    t = (A \<union> key1 ` set xs, B \<union> key2 ` set xs)"
  using assms
proof (induction js xs arbitrary: A B rule: list_induct2)
  case Nil
  then show ?case by auto
next
  case (Cons j js x xs)
  then show ?case by (fastforce simp: result_simps step_ok image_iff)
qed

lemma scan:
  "try_fold step ({}, {}) (indexed xs) = Ok t \<longleftrightarrow>
    (\<forall>x \<in> set xs. good x) \<and> distinct (map key1 xs) \<and> distinct (map key2 xs) \<and>
    t = (key1 ` set xs, key2 ` set xs)"
  by (simp add: indexed_def scan_zip)

end

text \<open>A scan over one key set is the special case whose second key is its position.\<close>

lemma single_scan:
  assumes step_ok: "\<And>A i x t. step A (i, x) = Ok t \<longleftrightarrow>
      good x \<and> key x \<notin> A \<and> t = insert (key x) A"
    and len: "length js = length xs"
  shows "try_fold step A (zip js xs) = Ok t \<longleftrightarrow>
    (\<forall>x \<in> set xs. good x \<and> key x \<notin> A) \<and> distinct (map key xs) \<and> t = A \<union> key ` set xs"
  using len
  by (induction js xs arbitrary: A rule: list_induct2) (fastforce simp: result_simps step_ok image_iff)+

lemma single_scan_indexed:
  assumes "\<And>A i x t. step A (i, x) = Ok t \<longleftrightarrow> good x \<and> key x \<notin> A \<and> t = insert (key x) A"
  shows "try_fold step A (indexed xs) = Ok t \<longleftrightarrow>
    (\<forall>x \<in> set xs. good x \<and> key x \<notin> A) \<and> distinct (map key xs) \<and> t = A \<union> key ` set xs"
  unfolding indexed_def by (rule single_scan) (auto simp: assms)

lemma validate_attribute_Ok [result_simps]: "validate_attribute v = Ok u \<longleftrightarrow> attr_finite v"
  by (cases v) (auto simp: validate_attribute_def attr_finite_def result_simps)

lemma validate_attributes_Ok:
  "try_fold (\<lambda>_ v. map_err f (validate_attribute v)) () vs = Ok u \<longleftrightarrow> (\<forall>v \<in> set vs. attr_finite v)"
  by (induction vs) (auto simp: result_simps)

interpretation events: unique_scan validate_event wf_event ev_id ev_external_id
  by unfold_locales (auto simp: Let_def result_simps validate_attributes_Ok wf_event_def)

interpretation objects: unique_scan validate_object wf_object ob_id ob_external_id
  by unfold_locales (auto simp: Let_def result_simps wf_object_def)

lemma validate_e2o_Ok:
  "validate_e2o E B A (i, r) = Ok t \<longleftrightarrow> (e2o_event_id r \<in> E \<and> e2o_object_id r \<in> B) \<and>
     (0, e2o_relation_id r) \<notin> A \<and> t = insert (0, e2o_relation_id r) A"
  by (auto simp: Let_def result_simps)

lemma validate_o2o_Ok:
  "validate_o2o B A (i, r) = Ok t \<longleftrightarrow>
     (o2o_source_object_id r \<in> B \<and> o2o_target_object_id r \<in> B \<and> o2o_interval_ok r) \<and>
     (1, o2o_relation_id r) \<notin> A \<and> t = insert (1, o2o_relation_id r) A"
  by (auto simp: Let_def result_simps)

lemma validate_change_Ok:
  "validate_change B A (i, c) = Ok t \<longleftrightarrow>
     (oac_object_id c \<in> B \<and> oac_name c \<noteq> [] \<and> attr_finite (oac_value c)) \<and>
     oac_key c \<notin> A \<and> t = insert (oac_key c) A"
  by (auto simp: Let_def result_simps)

lemmas scan_e2o = single_scan_indexed [where key = "\<lambda>r. (0, e2o_relation_id r)", OF validate_e2o_Ok]
lemmas scan_o2o = single_scan_indexed [where key = "\<lambda>r. (1, o2o_relation_id r)", OF validate_o2o_Ok]
lemmas scan_change = single_scan_indexed [where key = oac_key, OF validate_change_Ok]

lemma distinct_map_pair: "distinct (map (\<lambda>r. (c, f r)) xs) \<longleftrightarrow> distinct (map f xs)"
  by (auto simp: distinct_map inj_on_def)

lemma log_validate_Ok_iff: "log_validate cl = Ok () \<longleftrightarrow> wf_log cl"
  by (auto simp: log_validate_def result_simps events.scan objects.scan scan_e2o
      scan_o2o scan_change distinct_map_pair wf_log_def Let_def)

lemma distinct_map_mset: "mset xs = mset ys \<Longrightarrow> distinct (map f xs) \<longleftrightarrow> distinct (map f ys)"
  by (metis mset_map mset_eq_imp_distinct_iff)

lemma wf_log_perm:
  assumes "mset (log_events cl') = mset (log_events cl)"
    and "mset (log_objects cl') = mset (log_objects cl)"
    and "mset (log_e2o cl') = mset (log_e2o cl)"
    and "mset (log_o2o cl') = mset (log_o2o cl)"
    and "mset (log_attribute_history cl') = mset (log_attribute_history cl)"
  shows "wf_log cl' \<longleftrightarrow> wf_log cl"
proof -
  note sets = assms [THEN mset_eq_setD]
  show ?thesis
    unfolding wf_log_def Let_def sets
    by (simp add: assms [THEN distinct_map_mset])
qed

lemma wf_log_sort: "wf_log (sort_canonical cl) \<longleftrightarrow> wf_log cl"
  by (rule wf_log_perm) (simp_all add: sort_canonical_def)

section \<open>Properties\<close>

text \<open>C1: \<open>CanonicalLog::validate\<close> accepts exactly the well-formed logs: nonempty names, unique
  identifiers, existing relation endpoints, forward validity intervals, finite floats and one
  attribute change per object, name and time.\<close>

theorem log_validate_correct: "is_ok (log_validate cl) = wf_log cl"
  using log_validate_Ok_iff [of cl] by (auto simp: is_ok_iff)

lemma sort_key_idem: "sort_key f (sort_key f xs) = sort_key f xs"
  by (rule properties_for_sort_key) simp_all

lemma sort_key_mset_unique:
  assumes "mset xs = mset ys" and "distinct (map f ys)"
  shows "sort_key f xs = sort_key f ys"
proof (rule sort_key_inj_key_eq)
  have "inj_on f (set ys)" using assms(2) unfolding distinct_map by blast
  then show "inj_on f (set xs)" unfolding mset_eq_setD [OF assms(1)] .
  show "mset xs = mset (sort_key f ys)" unfolding mset_sort by (rule assms(1))
  show "sorted (map f (sort_key f ys))" by simp
qed

lemma distinct_map_finer: "distinct (map f xs) \<Longrightarrow> (\<And>x y. g x = g y \<Longrightarrow> f x = f y) \<Longrightarrow> distinct (map g xs)"
  unfolding distinct_map inj_on_def by blast

lemma wf_log_sort_keys:
  assumes "wf_log cl"
  shows "distinct (map event_key (log_events cl))"
    and "distinct (map (\<lambda>ob. (ob_type ob, ob_external_id ob)) (log_objects cl))"
    and "distinct (map e2o_relation_id (log_e2o cl))" and "distinct (map o2o_relation_id (log_o2o cl))"
    and "distinct (map oac_key (log_attribute_history cl))"
proof -
  have d: "distinct (map ev_external_id (log_events cl))" "distinct (map ob_external_id (log_objects cl))"
    using assms by (simp_all add: wf_log_def Let_def)
  show "distinct (map event_key (log_events cl))"
    by (rule distinct_map_finer [OF d(1)]) (simp add: event_key_def)
  show "distinct (map (\<lambda>ob. (ob_type ob, ob_external_id ob)) (log_objects cl))"
    by (rule distinct_map_finer [OF d(2)]) simp
qed (use assms in \<open>simp_all add: wf_log_def Let_def\<close>)

definition same_rows :: "'j canonical_log \<Rightarrow> 'j canonical_log \<Rightarrow> bool" where
  "same_rows cl' cl \<longleftrightarrow> mset (log_events cl') = mset (log_events cl) \<and> mset (log_objects cl') = mset (log_objects cl) \<and>
     mset (log_e2o cl') = mset (log_e2o cl) \<and> mset (log_o2o cl') = mset (log_o2o cl) \<and>
     mset (log_attribute_history cl') = mset (log_attribute_history cl) \<and>
     log_dataset_id cl' = log_dataset_id cl \<and> log_tenant_id cl' = log_tenant_id cl \<and>
     log_source_watermark cl' = log_source_watermark cl \<and> log_metadata cl' = log_metadata cl"

lemma sort_canonical_same_rows:
  fixes cl cl' :: "'j canonical_log"
  assumes "wf_log cl" and "same_rows cl' cl"
  shows "sort_canonical cl' = sort_canonical cl"
proof -
  note k = wf_log_sort_keys [OF assms(1)]
  have "sort_key event_key (log_events cl') = sort_key event_key (log_events cl)"
    by (rule sort_key_mset_unique [OF _ k(1)]) (use assms(2) in \<open>simp add: same_rows_def\<close>)
  moreover have "sort_key (\<lambda>ob. (ob_type ob, ob_external_id ob)) (log_objects cl')
      = sort_key (\<lambda>ob. (ob_type ob, ob_external_id ob)) (log_objects cl)"
    by (rule sort_key_mset_unique [OF _ k(2)]) (use assms(2) in \<open>simp add: same_rows_def\<close>)
  moreover have "sort_key e2o_relation_id (log_e2o cl') = sort_key e2o_relation_id (log_e2o cl)"
    by (rule sort_key_mset_unique [OF _ k(3)]) (use assms(2) in \<open>simp add: same_rows_def\<close>)
  moreover have "sort_key o2o_relation_id (log_o2o cl') = sort_key o2o_relation_id (log_o2o cl)"
    by (rule sort_key_mset_unique [OF _ k(4)]) (use assms(2) in \<open>simp add: same_rows_def\<close>)
  moreover have "sort_key oac_key (log_attribute_history cl') = sort_key oac_key (log_attribute_history cl)"
    by (rule sort_key_mset_unique [OF _ k(5)]) (use assms(2) in \<open>simp add: same_rows_def\<close>)
  ultimately show ?thesis
    using assms(2) by (cases cl; cases cl') (simp add: sort_canonical_def same_rows_def)
qed

text \<open>C2: \<open>sort_canonical\<close> is canonical: it permutes each table and keeps the log valid, it is
  idempotent, and every log with the same rows as a valid log, in any order, sorts to the same
  log.\<close>

theorem sort_canonical_canonical:
  assumes "wf_log cl"
  shows "wf_log (sort_canonical cl) \<and> same_rows (sort_canonical cl) cl \<and>
    sort_canonical (sort_canonical cl) = sort_canonical cl \<and>
    (\<forall>cl'. same_rows cl' cl \<longrightarrow> sort_canonical cl' = sort_canonical cl)"
proof (intro conjI allI impI)
  show "wf_log (sort_canonical cl)" using assms by (simp add: wf_log_sort)
  show "same_rows (sort_canonical cl) cl" by (simp add: same_rows_def sort_canonical_def)
  show "sort_canonical (sort_canonical cl) = sort_canonical cl" by (simp add: sort_canonical_def sort_key_idem)
  show "sort_canonical cl' = sort_canonical cl" if "same_rows cl' cl" for cl'
    by (rule sort_canonical_same_rows [OF assms that])
qed

definition sample_event :: "nat \<Rightarrow> string \<Rightarrow> string \<Rightarrow> int \<Rightarrow> event" where
  "sample_event i x a t = \<lparr>ev_id = i, ev_external_id = x, ev_activity = a, ev_timestamp = Timestamp t None,
     ev_sequence = 0, ev_lifecycle = None, ev_attributes = []\<rparr>"

definition sample_log :: "unit canonical_log" where
  "sample_log = \<lparr>log_dataset_id = ''d'', log_tenant_id = ''t'', log_source_watermark = None,
     log_events = [sample_event 2 ''e2'' ''pay'' 20, sample_event 1 ''e1'' ''order'' 10],
     log_objects = [\<lparr>ob_id = 1, ob_external_id = ''o1'', ob_type = ''order''\<rparr>],
     log_e2o = [\<lparr>e2o_relation_id = 2, e2o_event_id = 2, e2o_object_id = 1, e2o_qualifier = []\<rparr>,
       \<lparr>e2o_relation_id = 1, e2o_event_id = 1, e2o_object_id = 1, e2o_qualifier = []\<rparr>],
     log_o2o = [], log_attribute_history = [], log_metadata = []\<rparr>"

lemma sample_log_wf: "wf_log sample_log"
  by (simp add: wf_log_def sample_log_def sample_event_def wf_event_def wf_object_def bt_values_def)

theorem sort_canonical_canonical_witness:
  "wf_log (sort_canonical sample_log) \<and> map ev_id (log_events (sort_canonical sample_log)) = [1, 2]"
proof
  show "wf_log (sort_canonical sample_log)"
    using sort_canonical_canonical [OF sample_log_wf] by blast
  show "map ev_id (log_events (sort_canonical sample_log)) = [1, 2]"
    by code_simp
qed

end
