(* ===== verification/BindingCursor.thy ===== *)
theory BindingCursor
  imports CoreData
begin

text \<open>
  The byte cursor under the binding-capsule decoder of \<open>crates/ocpm-core/src/binding.rs\<close>
  (\<open>Cursor\<close>, lines 542 to 611) and the encoders of its tests. The cursor is the list of the
  remaining bytes; each operation returns its value and the bytes left. The integers keep their
  width: bytes are \<open>8 word\<close>, varints \<open>64 word\<close>, identifiers the signed reading of a
  \<open>64 word\<close>.
\<close>

unbundle bit_operations_syntax

type_synonym byte = "8 word"
type_synonym u64 = "64 word"

datatype binding_decode_error =
  Truncated | BadMagic | UnsupportedVersion byte | UnknownSchema byte | VarintOverflow
| BindingCountOverflow | AllocationFailed | DeltaOverflow | InvalidUtf8 | InvalidLabelDictionary
| InvalidPairGroups | TrailingBytes

type_synonym 'a binding_result = "binding_decode_error + 'a"

section \<open>Operations\<close>

definition cursor_take :: "nat \<Rightarrow> byte list \<Rightarrow> (byte list \<times> byte list) binding_result" where
  "cursor_take n bs = (if length bs < n then Err Truncated else Ok (take n bs, drop n bs))"

definition require_minimum :: "nat \<Rightarrow> byte list \<Rightarrow> unit binding_result" where
  "require_minimum n bs = (if length bs < n then Err Truncated else Ok ())"

definition cursor_byte :: "byte list \<Rightarrow> (byte \<times> byte list) binding_result" where
  "cursor_byte bs = rbind (cursor_take 1 bs) (\<lambda>(taken, rest). Ok (taken ! 0, rest))"

text \<open>The loop over the shifts \<open>0, 7, \<dots>, 63\<close>.\<close>

fun varint_loop :: "nat list \<Rightarrow> u64 \<Rightarrow> byte list \<Rightarrow> (u64 \<times> byte list) binding_result" where
  "varint_loop [] v bs = Err VarintOverflow"
| "varint_loop (s # ss) v bs = rbind (cursor_byte bs) (\<lambda>(b, rest).
     if s = 63 \<and> b AND 0xfe \<noteq> 0 then Err VarintOverflow
     else let v' = v OR push_bit s (ucast (b AND 0x7f)) in
       if b AND 0x80 = 0 then Ok (v', rest) else varint_loop ss v' rest)"

definition varint_shifts :: "nat list" where
  "varint_shifts = [0, 7, 14, 21, 28, 35, 42, 49, 56, 63]"

definition cursor_varint :: "byte list \<Rightarrow> (u64 \<times> byte list) binding_result" where
  "cursor_varint bs = varint_loop varint_shifts 0 bs"

definition usize_varint :: "byte list \<Rightarrow> (nat \<times> byte list) binding_result" where
  "usize_varint bs = rbind (cursor_varint bs) (\<lambda>(v, rest).
     if unat v \<le> u64_max then Ok (unat v, rest) else Err BindingCountOverflow)"

text \<open>\<open>((value >> 1) as i64) ^ -((value & 1) as i64)\<close>\<close>

definition zigzag_decode :: "u64 \<Rightarrow> u64" where
  "zigzag_decode v = drop_bit 1 v XOR - (v AND 1)"

definition signed_varint :: "byte list \<Rightarrow> (int \<times> byte list) binding_result" where
  "signed_varint bs = rbind (cursor_varint bs) (\<lambda>(v, rest). Ok (sint (zigzag_decode v), rest))"

definition i64_checked_add :: "int \<Rightarrow> int \<Rightarrow> int option" where
  "i64_checked_add a b = (if i64_min \<le> a + b \<and> a + b \<le> i64_max then Some (a + b) else None)"

fun delta_loop :: "nat \<Rightarrow> int \<Rightarrow> byte list \<Rightarrow> (int list \<times> byte list) binding_result" where
  "delta_loop 0 previous bs = Ok ([], bs)"
| "delta_loop (Suc n) previous bs = rbind (signed_varint bs) (\<lambda>(d, rest).
     rbind (ok_or DeltaOverflow (i64_checked_add previous d)) (\<lambda>p.
     rbind (delta_loop n p rest) (\<lambda>(ps, rest'). Ok (p # ps, rest'))))"

text \<open>\<open>reserved_vec\<close>: the allocator's answer to a reservation is the parameter \<open>alloc\<close>.\<close>

definition reserved_vec :: "(nat \<Rightarrow> bool) \<Rightarrow> nat \<Rightarrow> unit binding_result" where
  "reserved_vec alloc n = ensure (alloc n) AllocationFailed"

definition delta_ids :: "(nat \<Rightarrow> bool) \<Rightarrow> nat \<Rightarrow> byte list \<Rightarrow> (int list \<times> byte list) binding_result" where
  "delta_ids alloc n bs = rbind (require_minimum n bs) (\<lambda>_. rbind (reserved_vec alloc n) (\<lambda>_.
     delta_loop n 0 bs))"

section \<open>The encoders\<close>

function enc_varint :: "u64 \<Rightarrow> byte list" where
  "enc_varint v = (if 0x80 \<le> v then ((ucast v AND 0x7f) OR 0x80) # enc_varint (drop_bit 7 v)
     else [ucast v])"
  by pat_completeness auto
termination
proof (relation "measure unat")
  fix v :: u64
  assume "0x80 \<le> v"
  then have "0 < unat v" by (simp add: word_le_nat_alt)
  then show "(drop_bit 7 v, v) \<in> measure unat"
    by (simp add: drop_bit_eq_div unat_div)
qed simp

declare enc_varint.simps [simp del]

definition enc_signed :: "int \<Rightarrow> byte list" where
  "enc_signed i = (let v = word_of_int i :: u64 in
     enc_varint (push_bit 1 v XOR signed_drop_bit 63 v))"

fun enc_deltas :: "int \<Rightarrow> int list \<Rightarrow> byte list" where
  "enc_deltas previous [] = []"
| "enc_deltas previous (x # xs) = enc_signed (x - previous) @ enc_deltas x xs"

section \<open>Varints round trip\<close>

lemma mask7_byte: "(0x7f :: byte) = mask 7" and mask7_u64: "(0x7f :: u64) = mask 7"
  by (simp_all add: mask_eq_exp_minus_1)

lemma bit_flag: "bit (128 :: int) i \<longleftrightarrow> i = 7"
proof -
  have "(128 :: int) = push_bit 7 1" by simp
  then show ?thesis by (auto simp only: bit_push_bit_iff bit_1_iff) simp_all
qed

lemma payload_continued:
  "ucast (((ucast w AND 0x7f) OR 0x80 :: byte) AND 0x7f) = (w AND 0x7f :: u64)"
  unfolding mask7_byte mask7_u64
  by (rule bit_word_eqI) (auto simp: bit_simps bit_flag)

lemma flag_continued: "((ucast (w :: u64) AND 0x7f) OR 0x80 :: byte) AND 0x80 \<noteq> 0"
proof -
  have "bit (((ucast w AND 0x7f) OR 0x80 :: byte) AND 0x80) 7"
    by (simp add: bit_simps bit_flag)
  then show ?thesis by force
qed

lemma bits_small: "(w :: u64) < 2 ^ n \<Longrightarrow> bit w i \<Longrightarrow> i < n"
  by (metis bit_take_bit_iff less_mask_eq take_bit_eq_mask)

lemma payload_last: "w < 0x80 \<Longrightarrow> ucast ((ucast w :: byte) AND 0x7f) = (w :: u64)"
  unfolding mask7_byte
  by (rule bit_word_eqI) (use bits_small [of w 7] in \<open>force simp: bit_simps\<close>)

lemma flag_last: "w < 0x80 \<Longrightarrow> (ucast (w :: u64) :: byte) AND 0x80 = 0"
  by (rule bit_word_eqI) (use bits_small [of w 7] in \<open>auto simp: bit_simps bit_flag\<close>)

lemma high_last: "w < 2 \<Longrightarrow> (ucast (w :: u64) :: byte) AND 0xfe = 0"
proof -
  assume "w < 2"
  then have "unat w = 0 \<or> unat w = 1" by (simp add: word_less_nat_alt less_2_cases)
  then have "w = 0 \<or> w = 1" by (metis unat_0 unat_1 word_unat_eq_iff)
  then show ?thesis by auto
qed

lemma split_low7: "push_bit s (w AND 0x7f) OR push_bit (s + 7) (drop_bit 7 w) = push_bit s (w :: u64)"
  unfolding mask7_u64
proof (rule bit_word_eqI)
  fix n
  assume "n < LENGTH(64)"
  have "7 + (n - (s + 7)) = n - s" if "\<not> n - s < 7" "s \<le> n" using that by simp
  then show "bit (push_bit s (w AND mask 7) OR push_bit (s + 7) (drop_bit 7 w)) n = bit (push_bit s w) n"
    by (cases "n - s < 7") (auto simp: bit_simps)
qed

text \<open>One step of the decoder on the head of an encoding.\<close>

lemma varint_loop_continue:
  "0x80 \<le> w \<Longrightarrow> s \<noteq> 63 \<Longrightarrow> varint_loop (s # ss) a (enc_varint w @ rest) =
     varint_loop ss (a OR push_bit s (w AND 0x7f)) (enc_varint (drop_bit 7 w) @ rest)"
  using flag_continued [of w] payload_continued [of w]
  by (subst enc_varint.simps) (simp add: cursor_byte_def cursor_take_def Let_def)

lemma varint_loop_last:
  "w < 0x80 \<Longrightarrow> s = 63 \<longrightarrow> w < 2 \<Longrightarrow>
     varint_loop (s # ss) a (enc_varint w @ rest) = Ok (a OR push_bit s w, rest)"
  using flag_last [of w] payload_last [of w] high_last [of w]
  by (subst enc_varint.simps) (auto simp: cursor_byte_def cursor_take_def Let_def)

lemma varint_loop_enc:
  assumes "k < 10" and "unat w < 2 ^ (64 - 7 * k)"
  shows "varint_loop (map ((*) 7) [k..<10]) a (enc_varint w @ rest) = Ok (a OR push_bit (7 * k) w, rest)"
  using assms
proof (induction "10 - k" arbitrary: k w a)
  case 0
  then show ?case by simp
next
  case (Suc d)
  have shifts: "map ((*) 7) [k..<10] = 7 * k # map ((*) 7) [Suc k..<10]"
    using Suc.prems(1) by (simp add: upt_conv_Cons)
  have small: "w < 2" if "k = 9" using Suc.prems(2) that by (simp add: word_less_nat_alt)
  show ?case
  proof (cases "w < 0x80")
    case True
    show ?thesis unfolding shifts by (rule varint_loop_last) (use True small in simp_all)
  next
    case False
    have "k \<noteq> 9"
    proof
      assume "k = 9"
      with small have "w < 2" by simp
      with False show False by (simp add: word_less_nat_alt word_le_nat_alt)
    qed
    with Suc.prems have k: "Suc k < 10" by simp
    have "unat w < 2 ^ (64 - 7 * Suc k) * 2 ^ 7"
    proof -
      have e: "64 - 7 * k = (64 - 7 * Suc k) + 7" using k by simp
      show ?thesis using Suc.prems(2) unfolding e power_add .
    qed
    then have small': "unat (drop_bit 7 w) < 2 ^ (64 - 7 * Suc k)"
      by (simp add: drop_bit_eq_div unat_div less_mult_imp_div_less)
    have "varint_loop (map ((*) 7) [k..<10]) a (enc_varint w @ rest)
        = varint_loop (map ((*) 7) [Suc k..<10]) (a OR push_bit (7 * k) (w AND 0x7f))
            (enc_varint (drop_bit 7 w) @ rest)"
      unfolding shifts by (rule varint_loop_continue) (use False k in simp_all)
    also have "\<dots> = Ok ((a OR push_bit (7 * k) (w AND 0x7f)) OR push_bit (7 * Suc k) (drop_bit 7 w), rest)"
      by (rule Suc.hyps(1)) (use Suc.hyps(2) k small' in auto)
    also have "\<dots> = Ok (a OR push_bit (7 * k) w, rest)"
      using split_low7 [of "7 * k" w] by (simp add: or.assoc add.commute)
    finally show ?thesis .
  qed
qed

lemma cursor_varint_enc: "cursor_varint (enc_varint v @ rest) = Ok (v, rest)"
proof -
  have "varint_shifts = map ((*) 7) [0..<10]" by (simp add: varint_shifts_def upt_rec)
  then show ?thesis
    using varint_loop_enc [of 0 v 0 rest] unsigned_less [of v, where 'a = nat] by (simp add: cursor_varint_def)
qed

lemma usize_varint_enc: "n \<le> u64_max \<Longrightarrow> usize_varint (enc_varint (of_nat n) @ rest) = Ok (n, rest)"
  by (simp add: usize_varint_def cursor_varint_enc u64_max_def unat_of_nat)

section \<open>Zigzag and deltas round trip\<close>

lemma sign_mask: "signed_drop_bit 63 (v :: u64) = (if bit v 63 then - 1 else 0)"
proof (rule bit_word_eqI)
  fix n
  assume "n < LENGTH(64)"
  then show "bit (signed_drop_bit 63 v) n = bit (if bit v 63 then - 1 else 0 :: u64) n"
    by (cases "bit v 63"; cases "n = 0") (simp_all add: bit_signed_drop_bit_iff)
qed

lemma bit_double: "bit (push_bit (Suc 0) (v :: u64)) n \<longleftrightarrow> 0 < n \<and> n < 64 \<and> bit v (n - 1)"
  by (cases n) (auto simp only: bit_push_bit_iff bit_word_iff_drop_bit_and [symmetric], auto dest: bit_imp_le_length)

lemma zigzag_decode_enc: "zigzag_decode (push_bit 1 v XOR signed_drop_bit 63 v) = v"
proof -
  let ?z = "push_bit 1 v XOR signed_drop_bit 63 v"
  have z: "bit ?z n \<longleftrightarrow> (0 < n \<and> bit v (n - 1)) \<noteq> bit v 63" if "n < 64" for n
    using that unfolding sign_mask bit_xor_iff One_nat_def bit_double by (auto simp: bit_minus_1_iff)
  have low: "- (?z AND 1) = (if bit v 63 then - 1 else 0)"
  proof -
    have "?z AND 1 = (if bit ?z 0 then 1 else 0)" by (simp add: and_one_eq mod_2_eq_odd even_bit_succ_iff bit_0)
    then show ?thesis using z [of 0] by simp
  qed
  show ?thesis
  proof (rule bit_word_eqI)
    fix n
    assume n: "n < LENGTH(64)"
    show "bit (zigzag_decode ?z) n = bit v n"
    proof (cases "n = 63")
      case True
      then show ?thesis
        unfolding zigzag_decode_def low bit_xor_iff bit_drop_bit_eq
        by (auto simp: bit_minus_1_iff dest: bit_imp_le_length)
    next
      case False
      then show ?thesis
        using n z [of "Suc n"] unfolding zigzag_decode_def low bit_xor_iff bit_drop_bit_eq
        by (auto simp: bit_minus_1_iff)
    qed
  qed
qed

lemma signed_varint_enc:
  "i64_min \<le> i \<Longrightarrow> i \<le> i64_max \<Longrightarrow> signed_varint (enc_signed i @ rest) = Ok (i, rest)"
proof -
  assume "i64_min \<le> i" "i \<le> i64_max"
  then have "sint (word_of_int i :: u64) = i"
    by (simp add: i64_min_def i64_max_def signed_take_bit_int_eq_self sint_sbintrunc')
  then show ?thesis
    unfolding signed_varint_def enc_signed_def Let_def cursor_varint_enc zigzag_decode_enc
      rbind.simps prod.case by simp
qed

definition in_i64 :: "int \<Rightarrow> bool" where
  "in_i64 i \<longleftrightarrow> i64_min \<le> i \<and> i \<le> i64_max"

text \<open>A column can be delta-coded when its values and its differences are \<open>i64\<close> values.\<close>

fun deltas_ok :: "int \<Rightarrow> int list \<Rightarrow> bool" where
  "deltas_ok previous [] = True"
| "deltas_ok previous (x # xs) = (in_i64 x \<and> in_i64 (x - previous) \<and> deltas_ok x xs)"

lemma delta_loop_enc:
  "deltas_ok previous xs \<Longrightarrow> delta_loop (length xs) previous (enc_deltas previous xs @ rest) = Ok (xs, rest)"
  by (induction xs arbitrary: previous)
    (auto simp: signed_varint_enc in_i64_def i64_checked_add_def)

lemma length_enc_varint: "1 \<le> length (enc_varint v)"
  by (subst enc_varint.simps) simp

lemma length_enc_deltas: "length xs \<le> length (enc_deltas previous xs)"
proof (induction xs arbitrary: previous)
  case (Cons x xs)
  have "1 \<le> length (enc_signed (x - previous))"
    by (simp add: enc_signed_def Let_def length_enc_varint del: One_nat_def)
  with Cons [of x] show ?case by simp
qed simp

lemma delta_ids_enc:
  "deltas_ok 0 xs \<Longrightarrow> alloc (length xs) \<Longrightarrow> n = length xs \<Longrightarrow>
     delta_ids alloc n (enc_deltas 0 xs @ rest) = Ok (xs, rest)"
  using length_enc_deltas [of xs 0]
  by (simp add: delta_ids_def require_minimum_def reserved_vec_def delta_loop_enc not_less trans_le_add1)

end
