(* ===== verification/Binding.thy ===== *)
theory Binding
  imports BindingCursor "HOL-Library.Monad_Syntax"
begin

text \<open>
  Binding-result capsules: the decoder, the borrowed views and the row iterators of
  \<open>crates/ocpm-core/src/binding.rs\<close>. A capsule is materialized (columns of equal length) or
  factorized (groups whose rows are the square of their entries). Out-of-range indexing, which
  panics in the code, is \<open>None\<close> in the iterator model, so that its absence is a theorem.
\<close>

section \<open>Data\<close>

datatype binding_schema =
  IdViolation | IdIdViolation | IdLabelIdViolation | ValueSchema | FiveIds | PairGroupsSchema
| ThreeIdsViolation | TwoIds | ThreeIds | FourIds | FiveIdsViolation

definition schema_of_byte :: "byte \<Rightarrow> binding_schema binding_result" where
  "schema_of_byte b =
    (if b = 1 then Ok IdViolation else if b = 2 then Ok IdIdViolation
     else if b = 3 then Ok IdLabelIdViolation else if b = 4 then Ok ValueSchema
     else if b = 5 then Ok FiveIds else if b = 6 then Ok PairGroupsSchema
     else if b = 7 then Ok ThreeIdsViolation else if b = 8 then Ok TwoIds
     else if b = 9 then Ok ThreeIds else if b = 10 then Ok FourIds
     else if b = 11 then Ok FiveIdsViolation else Err (UnknownSchema b))"

fun schema_byte :: "binding_schema \<Rightarrow> byte" where
  "schema_byte IdViolation = 1"
| "schema_byte IdIdViolation = 2"
| "schema_byte IdLabelIdViolation = 3"
| "schema_byte ValueSchema = 4"
| "schema_byte FiveIds = 5"
| "schema_byte PairGroupsSchema = 6"
| "schema_byte ThreeIdsViolation = 7"
| "schema_byte TwoIds = 8"
| "schema_byte ThreeIds = 9"
| "schema_byte FourIds = 10"
| "schema_byte FiveIdsViolation = 11"

record binding_row =
  row_ids_array :: "int list"
  row_id_count :: nat
  row_label :: "string option"
  row_violated :: "bool option"
  row_value :: "f64 option"

definition row_ids :: "binding_row \<Rightarrow> int list" where
  "row_ids r = take (row_id_count r) (row_ids_array r)"

record materialized_rows =
  id_columns :: "int list list"
  label_dictionary :: "string list"
  label_indexes :: "nat list option"
  violations :: "bool list option"
  mat_values :: "f64 list option"

record pair_groups =
  pg_sources :: "int list"
  pg_sizes :: "nat list"
  pg_targets :: "int list"
  pg_events :: "int list"

datatype binding_storage = Materialized materialized_rows | PairGroups pair_groups

record binding_capsule =
  cap_schema :: binding_schema
  cap_row_count :: nat
  cap_storage :: binding_storage

section \<open>Standard-library decoding of text and floats\<close>

text \<open>\<open>str::from_utf8\<close>: the length of the well-formed sequence at the head, 0 if there is none.\<close>

definition is_cont :: "nat \<Rightarrow> bool" where
  "is_cont b \<longleftrightarrow> 0x80 \<le> b \<and> b \<le> 0xbf"

definition utf8_width :: "nat list \<Rightarrow> nat" where
  "utf8_width bs = (case bs of [] \<Rightarrow> 0 | a # r \<Rightarrow>
     if a < 0x80 then 1
     else if 0xc2 \<le> a \<and> a \<le> 0xdf then
       (case r of b # _ \<Rightarrow> if is_cont b then 2 else 0 | _ \<Rightarrow> 0)
     else if 0xe0 \<le> a \<and> a \<le> 0xef then
       (case r of b # c # _ \<Rightarrow>
          if is_cont b \<and> is_cont c \<and> (a = 0xe0 \<longrightarrow> 0xa0 \<le> b) \<and> (a = 0xed \<longrightarrow> b \<le> 0x9f) then 3 else 0
        | _ \<Rightarrow> 0)
     else if 0xf0 \<le> a \<and> a \<le> 0xf4 then
       (case r of b # c # d # _ \<Rightarrow>
          if is_cont b \<and> is_cont c \<and> is_cont d \<and> (a = 0xf0 \<longrightarrow> 0x90 \<le> b) \<and> (a = 0xf4 \<longrightarrow> b \<le> 0x8f)
          then 4 else 0
        | _ \<Rightarrow> 0)
     else 0)"

function utf8_valid :: "nat list \<Rightarrow> bool" where
  "utf8_valid bs = (if bs = [] then True else if utf8_width bs = 0 then False
     else utf8_valid (drop (utf8_width bs) bs))"
  by pat_completeness auto
termination
  by (relation "measure length") auto

declare utf8_valid.simps [simp del]

definition string_of_bytes :: "byte list \<Rightarrow> string" where
  "string_of_bytes bs = map (\<lambda>b. char_of (unat b)) bs"

definition bytes_of_string :: "string \<Rightarrow> byte list" where
  "bytes_of_string s = map (\<lambda>c. of_nat (of_char c)) s"

definition from_utf8 :: "byte list \<Rightarrow> string binding_result" where
  "from_utf8 bs = (if utf8_valid (map unat bs) then Ok (string_of_bytes bs) else Err InvalidUtf8)"

text \<open>\<open>f64::from_bits\<close>\<close>

definition f64_from_bits :: "u64 \<Rightarrow> f64" where
  "f64_from_bits w =
    (let neg = bit w 63;
         e = unat (take_bit 11 (drop_bit 52 w));
         m = unat (take_bit 52 w);
         mag = (if e = 0 then of_nat m * 2 powi (-1074)
                else of_nat (2 ^ 52 + m) * 2 powi (int e - 1075))
     in if e = 2047 then (if m = 0 then F_inf neg else F_nan)
        else if mag = 0 then f64_signed_zero neg
        else F_fin (if neg then - mag else mag))"

section \<open>The decoder\<close>

type_synonym alloc = "nat \<Rightarrow> bool"

definition count_add :: "nat \<Rightarrow> nat \<Rightarrow> nat binding_result" where
  "count_add a b = ok_or BindingCountOverflow (u64_checked_add a b)"

definition count_mul :: "nat \<Rightarrow> nat \<Rightarrow> nat binding_result" where
  "count_mul a b = ok_or BindingCountOverflow (u64_checked_mul a b)"

definition packed_count :: "nat \<Rightarrow> nat" where
  "packed_count n = n div 8 + (if n mod 8 \<noteq> 0 then 1 else 0)"

text \<open>The schema's shape: identifier columns, labels, violations, values.\<close>

fun schema_shape :: "binding_schema \<Rightarrow> nat \<times> bool \<times> bool \<times> bool" where
  "schema_shape IdViolation = (1, False, True, False)"
| "schema_shape IdIdViolation = (2, False, True, False)"
| "schema_shape IdLabelIdViolation = (2, True, True, False)"
| "schema_shape ValueSchema = (0, False, False, True)"
| "schema_shape FiveIds = (5, False, False, False)"
| "schema_shape PairGroupsSchema = (0, False, False, False)"
| "schema_shape ThreeIdsViolation = (3, False, True, False)"
| "schema_shape TwoIds = (2, False, False, False)"
| "schema_shape ThreeIds = (3, False, False, False)"
| "schema_shape FourIds = (4, False, False, False)"
| "schema_shape FiveIdsViolation = (5, False, True, False)"

text \<open>A fixed number of runs of a parser, its values in order.\<close>

fun repeat_parse :: "nat \<Rightarrow> (byte list \<Rightarrow> ('a \<times> byte list) binding_result) \<Rightarrow> byte list
    \<Rightarrow> ('a list \<times> byte list) binding_result" where
  "repeat_parse 0 p bs = Ok ([], bs)"
| "repeat_parse (Suc n) p bs = rbind (p bs) (\<lambda>(x, rest).
     rbind (repeat_parse n p rest) (\<lambda>(xs, rest'). Ok (x # xs, rest')))"

definition minimum_bytes :: "nat \<Rightarrow> bool \<Rightarrow> bool \<Rightarrow> bool \<Rightarrow> nat \<Rightarrow> nat binding_result" where
  "minimum_bytes id_count has_labels has_violations has_values row_count =
    rbind (count_mul row_count id_count) (\<lambda>m.
    rbind (if has_labels then rbind (count_add m 1) (\<lambda>v. count_add v row_count) else Ok m) (\<lambda>m.
    rbind (if has_violations then count_add m (packed_count row_count) else Ok m) (\<lambda>m.
    if has_values then count_add m row_count else Ok m)))"

definition decode_label :: "alloc \<Rightarrow> byte list \<Rightarrow> (string \<times> byte list) binding_result" where
  "decode_label alloc bs = rbind (usize_varint bs) (\<lambda>(len, rest).
     rbind (cursor_take len rest) (\<lambda>(taken, rest').
     rbind (from_utf8 taken) (\<lambda>value.
     rbind (reserved_vec alloc (length value)) (\<lambda>_. Ok (value, rest')))))"

definition decode_index :: "nat \<Rightarrow> byte list \<Rightarrow> (nat \<times> byte list) binding_result" where
  "decode_index dictionary_count bs = rbind (usize_varint bs) (\<lambda>(index, rest).
     if dictionary_count \<le> index then Err InvalidLabelDictionary else Ok (index, rest))"

definition decode_labels :: "alloc \<Rightarrow> bool \<Rightarrow> bool \<Rightarrow> nat \<Rightarrow> byte list
    \<Rightarrow> ((string list \<times> nat list) \<times> byte list) binding_result" where
  "decode_labels alloc has_violations has_values row_count bs =
    rbind (usize_varint bs) (\<lambda>(dictionary_count, rest).
    if row_count < dictionary_count \<or> (row_count \<noteq> 0 \<and> dictionary_count = 0)
    then Err InvalidLabelDictionary
    else
      rbind (count_add dictionary_count row_count) (\<lambda>m.
      rbind (if has_violations then count_add m (packed_count row_count) else Ok m) (\<lambda>m.
      rbind (if has_values then count_add m row_count else Ok m) (\<lambda>m.
      rbind (require_minimum m rest) (\<lambda>_.
      rbind (reserved_vec alloc dictionary_count) (\<lambda>_.
      rbind (repeat_parse dictionary_count (decode_label alloc) rest) (\<lambda>(dictionary, rest).
      rbind (reserved_vec alloc row_count) (\<lambda>_.
      rbind (repeat_parse row_count (decode_index dictionary_count) rest) (\<lambda>(indexes, rest).
      Ok ((dictionary, indexes), rest))))))))))"

definition unpack_bit :: "byte list \<Rightarrow> nat \<Rightarrow> bool" where
  "unpack_bit packed i \<longleftrightarrow> packed ! (i div 8) AND push_bit (i mod 8) 1 \<noteq> 0"

definition decode_violations :: "alloc \<Rightarrow> nat \<Rightarrow> byte list \<Rightarrow> (bool list \<times> byte list) binding_result" where
  "decode_violations alloc row_count bs =
    rbind (cursor_take (packed_count row_count) bs) (\<lambda>(packed, rest).
    rbind (reserved_vec alloc row_count) (\<lambda>_.
    Ok (map (unpack_bit packed) [0..<row_count], rest)))"

definition decode_value :: "byte list \<Rightarrow> (f64 \<times> byte list) binding_result" where
  "decode_value bs = rbind (cursor_varint bs) (\<lambda>(v, rest). Ok (f64_from_bits v, rest))"

definition decode_materialized :: "alloc \<Rightarrow> binding_schema \<Rightarrow> nat \<Rightarrow> byte list
    \<Rightarrow> (materialized_rows \<times> byte list) binding_result" where
  "decode_materialized alloc schema row_count bs =
    (case schema_shape schema of (id_count, has_labels, has_violations, has_values) \<Rightarrow>
    rbind (minimum_bytes id_count has_labels has_violations has_values row_count) (\<lambda>m.
    rbind (require_minimum m bs) (\<lambda>_.
    rbind (reserved_vec alloc id_count) (\<lambda>_.
    rbind (repeat_parse id_count (delta_ids alloc row_count) bs) (\<lambda>(columns, bs).
    rbind (if has_labels
           then rbind (decode_labels alloc has_violations has_values row_count bs)
             (\<lambda>((dictionary, indexes), rest). Ok ((dictionary, Some indexes), rest))
           else Ok (([], None), bs)) (\<lambda>((dictionary, indexes), bs).
    rbind (if has_violations
           then rbind (decode_violations alloc row_count bs) (\<lambda>(vs, rest). Ok (Some vs, rest))
           else Ok (None, bs)) (\<lambda>(vs, bs).
    rbind (if has_values
           then rbind (reserved_vec alloc row_count) (\<lambda>_.
             rbind (repeat_parse row_count decode_value bs) (\<lambda>(xs, rest). Ok (Some xs, rest)))
           else Ok (None, bs)) (\<lambda>(xs, bs).
    Ok (\<lparr>id_columns = columns, label_dictionary = dictionary, label_indexes = indexes,
         violations = vs, mat_values = xs\<rparr>, bs)))))))))"

text \<open>The loop over the group sizes, with the running entry and row counts.\<close>

fun sizes_loop :: "nat \<Rightarrow> nat \<Rightarrow> nat \<Rightarrow> byte list \<Rightarrow> ((nat list \<times> nat \<times> nat) \<times> byte list) binding_result" where
  "sizes_loop 0 entries expanded bs = Ok (([], entries, expanded), bs)"
| "sizes_loop (Suc n) entries expanded bs =
    rbind (usize_varint bs) (\<lambda>(size, rest).
    if size = 0 then Err InvalidPairGroups
    else
      rbind (count_add entries size) (\<lambda>entries'.
      rbind (count_mul size size) (\<lambda>square.
      rbind (count_add expanded square) (\<lambda>expanded'.
      rbind (sizes_loop n entries' expanded' rest) (\<lambda>((sizes, entries'', expanded''), rest').
      Ok ((size # sizes, entries'', expanded''), rest'))))))"

definition decode_pair_groups :: "alloc \<Rightarrow> nat \<Rightarrow> byte list \<Rightarrow> (pair_groups \<times> byte list) binding_result" where
  "decode_pair_groups alloc row_count bs =
    rbind (usize_varint bs) (\<lambda>(group_count, bs).
    rbind (count_mul group_count 2) (\<lambda>m.
    rbind (require_minimum m bs) (\<lambda>_.
    rbind (delta_ids alloc group_count bs) (\<lambda>(sources, bs).
    rbind (reserved_vec alloc group_count) (\<lambda>_.
    rbind (sizes_loop group_count 0 0 bs) (\<lambda>((sizes, entry_count, expanded_count), bs).
    if expanded_count \<noteq> row_count then Err InvalidPairGroups
    else
      rbind (count_mul entry_count 2) (\<lambda>m.
      rbind (require_minimum m bs) (\<lambda>_.
      rbind (delta_ids alloc entry_count bs) (\<lambda>(targets, bs).
      rbind (delta_ids alloc entry_count bs) (\<lambda>(events, bs).
      Ok (\<lparr>pg_sources = sources, pg_sizes = sizes, pg_targets = targets, pg_events = events\<rparr>, bs)))))))))))"

definition magic :: "byte list" where
  "magic = [0x4f, 0x43, 0x50, 0x42]"

definition binding_version :: byte where
  "binding_version = 1"

definition decode_capsule :: "alloc \<Rightarrow> byte list \<Rightarrow> binding_capsule binding_result" where
  "decode_capsule alloc bs =
    rbind (cursor_take 4 bs) (\<lambda>(m, bs).
    rbind (ensure (m = magic) BadMagic) (\<lambda>_.
    rbind (cursor_byte bs) (\<lambda>(version, bs).
    rbind (ensure (version = binding_version) (UnsupportedVersion version)) (\<lambda>_.
    rbind (cursor_byte bs) (\<lambda>(tag, bs).
    rbind (schema_of_byte tag) (\<lambda>schema.
    rbind (usize_varint bs) (\<lambda>(row_count, bs).
    rbind (if schema = PairGroupsSchema
           then rbind (decode_pair_groups alloc row_count bs) (\<lambda>(g, bs). Ok (PairGroups g, bs))
           else rbind (decode_materialized alloc schema row_count bs) (\<lambda>(m, bs). Ok (Materialized m, bs)))
      (\<lambda>(storage, bs).
    rbind (ensure (bs = []) TrailingBytes) (\<lambda>_.
    Ok \<lparr>cap_schema = schema, cap_row_count = row_count, cap_storage = storage\<rparr>)))))))))"

section \<open>Views\<close>

definition is_factorized :: "binding_capsule \<Rightarrow> bool" where
  "is_factorized c = (case cap_storage c of PairGroups _ \<Rightarrow> True | Materialized _ \<Rightarrow> False)"

definition materialized_view :: "binding_capsule \<Rightarrow> materialized_rows option" where
  "materialized_view c = (case cap_storage c of Materialized m \<Rightarrow> Some m | PairGroups _ \<Rightarrow> None)"

definition pair_groups_view :: "binding_capsule \<Rightarrow> pair_groups option" where
  "pair_groups_view c = (case cap_storage c of Materialized _ \<Rightarrow> None | PairGroups g \<Rightarrow> Some g)"

definition id_column_count :: "materialized_rows \<Rightarrow> nat" where
  "id_column_count m = length (id_columns m)"

definition id_column :: "materialized_rows \<Rightarrow> nat \<Rightarrow> int list option" where
  "id_column m i = nth_opt (id_columns m) i"

definition view_label :: "materialized_rows \<Rightarrow> nat \<Rightarrow> string option" where
  "view_label m row = do {
     indexes \<leftarrow> label_indexes m;
     index \<leftarrow> nth_opt indexes row;
     nth_opt (label_dictionary m) index }"

record pair_group =
  grp_source :: int
  grp_targets :: "int list"
  grp_events :: "int list"

definition expanded_row_count :: "pair_group \<Rightarrow> nat option" where
  "expanded_row_count g = u64_checked_mul (length (grp_targets g)) (length (grp_targets g))"

definition group_count :: "pair_groups \<Rightarrow> nat" where
  "group_count g = length (pg_sources g)"

definition entry_count :: "pair_groups \<Rightarrow> nat" where
  "entry_count g = length (pg_targets g)"

text \<open>
  \<open>PairGroupIter::next\<close> over the state \<open>(group, offset)\<close>. The outer option is the panic of an
  out-of-range index or slice.
\<close>

definition group_iter_next :: "pair_groups \<Rightarrow> nat \<times> nat \<Rightarrow> (pair_group option \<times> nat \<times> nat) option" where
  "group_iter_next g = (\<lambda>(gi, offset). case nth_opt (pg_sources g) gi of
     None \<Rightarrow> Some (None, gi, offset)
   | Some source \<Rightarrow> do {
       size \<leftarrow> nth_opt (pg_sizes g) gi;
       let stop = offset + size;
       targets \<leftarrow> slice_opt (pg_targets g) offset stop;
       events \<leftarrow> slice_opt (pg_events g) offset stop;
       Some (Some \<lparr>grp_source = source, grp_targets = targets, grp_events = events\<rparr>, gi + 1, stop) })"

fun group_iter_run :: "nat \<Rightarrow> pair_groups \<Rightarrow> nat \<times> nat \<Rightarrow> pair_group list option" where
  "group_iter_run 0 g st = None"
| "group_iter_run (Suc fuel) g st = do {
     (item, st') \<leftarrow> group_iter_next g st;
     (case item of None \<Rightarrow> Some []
      | Some x \<Rightarrow> map_option ((#) x) (group_iter_run fuel g st')) }"

section \<open>The row iterator\<close>

record rows_state =
  rs_row :: nat
  rs_group :: nat
  rs_left :: nat
  rs_right :: nat
  rs_entry_offset :: nat

definition rows_start :: rows_state where
  "rows_start = \<lparr>rs_row = 0, rs_group = 0, rs_left = 0, rs_right = 0, rs_entry_offset = 0\<rparr>"

fun opt_all :: "'a option list \<Rightarrow> 'a list option" where
  "opt_all [] = Some []"
| "opt_all (x # xs) = do { a \<leftarrow> x; as \<leftarrow> opt_all xs; Some (a # as) }"

text \<open>An optional column read at a row: absent columns give \<open>None\<close> without an index.\<close>

definition column_at :: "'a list option \<Rightarrow> nat \<Rightarrow> 'a option option" where
  "column_at column row = (case column of None \<Rightarrow> Some None | Some xs \<Rightarrow> map_option Some (nth_opt xs row))"

definition materialized_row :: "materialized_rows \<Rightarrow> nat \<Rightarrow> binding_row option" where
  "materialized_row m row = do {
     ids \<leftarrow> opt_all (map (\<lambda>column. nth_opt column row) (take 5 (id_columns m)));
     label \<leftarrow> (case label_indexes m of None \<Rightarrow> Some None
       | Some indexes \<Rightarrow> do {
           index \<leftarrow> nth_opt indexes row;
           map_option Some (nth_opt (label_dictionary m) index) });
     violated \<leftarrow> column_at (violations m) row;
     value \<leftarrow> column_at (mat_values m) row;
     Some \<lparr>row_ids_array = ids @ replicate (5 - length ids) 0,
       row_id_count = length (id_columns m), row_label = label, row_violated = violated,
       row_value = value\<rparr> }"

definition pair_row :: "pair_groups \<Rightarrow> nat \<Rightarrow> nat \<Rightarrow> nat \<Rightarrow> binding_row option" where
  "pair_row g gi left right = do {
     source \<leftarrow> nth_opt (pg_sources g) gi;
     target_left \<leftarrow> nth_opt (pg_targets g) left;
     target_right \<leftarrow> nth_opt (pg_targets g) right;
     event_left \<leftarrow> nth_opt (pg_events g) left;
     event_right \<leftarrow> nth_opt (pg_events g) right;
     Some \<lparr>row_ids_array = [source, target_left, target_right, event_left, event_right],
       row_id_count = 5, row_label = None, row_violated = None, row_value = None\<rparr> }"

definition pair_advance :: "nat \<Rightarrow> rows_state \<Rightarrow> rows_state" where
  "pair_advance n st =
    (let st = st\<lparr>rs_row := rs_row st + 1, rs_right := rs_right st + 1\<rparr> in
     if rs_right st = n then
       (let st = st\<lparr>rs_right := 0, rs_left := rs_left st + 1\<rparr> in
        if rs_left st = n then
          st\<lparr>rs_left := 0, rs_entry_offset := rs_entry_offset st + n, rs_group := rs_group st + 1\<rparr>
        else st)
     else st)"

definition rows_next :: "binding_capsule \<Rightarrow> rows_state \<Rightarrow> (binding_row option \<times> rows_state) option" where
  "rows_next c st = (case cap_storage c of
     Materialized m \<Rightarrow>
       if cap_row_count c \<le> rs_row st then Some (None, st)
       else do {
         r \<leftarrow> materialized_row m (rs_row st);
         Some (Some r, st\<lparr>rs_row := rs_row st + 1\<rparr>) }
   | PairGroups g \<Rightarrow>
       if length (pg_sources g) \<le> rs_group st then Some (None, st)
       else do {
         size \<leftarrow> nth_opt (pg_sizes g) (rs_group st);
         r \<leftarrow> pair_row g (rs_group st) (rs_entry_offset st + rs_left st) (rs_entry_offset st + rs_right st);
         Some (Some r, pair_advance size st) })"

definition rows_size_hint :: "binding_capsule \<Rightarrow> rows_state \<Rightarrow> nat" where
  "rows_size_hint c st = cap_row_count c - rs_row st"

text \<open>Draining the iterator; \<open>None\<close> is a panic or too little fuel.\<close>

fun rows_run :: "nat \<Rightarrow> binding_capsule \<Rightarrow> rows_state \<Rightarrow> binding_row list option" where
  "rows_run 0 c st = None"
| "rows_run (Suc fuel) c st = do {
     (item, st') \<leftarrow> rows_next c st;
     (case item of None \<Rightarrow> Some []
      | Some r \<Rightarrow> map_option ((#) r) (rows_run fuel c st')) }"

section \<open>Well-formed capsules\<close>

definition wf_materialized :: "binding_schema \<Rightarrow> nat \<Rightarrow> materialized_rows \<Rightarrow> bool" where
  "wf_materialized schema row_count m \<longleftrightarrow>
    (case schema_shape schema of (id_count, has_labels, has_violations, has_values) \<Rightarrow>
      length (id_columns m) = id_count \<and>
      (\<forall>column \<in> set (id_columns m). length column = row_count) \<and>
      (case label_indexes m of
         None \<Rightarrow> \<not> has_labels
       | Some indexes \<Rightarrow> has_labels \<and> length indexes = row_count \<and>
           (\<forall>i \<in> set indexes. i < length (label_dictionary m))) \<and>
      (case violations m of None \<Rightarrow> \<not> has_violations
       | Some vs \<Rightarrow> has_violations \<and> length vs = row_count) \<and>
      (case mat_values m of None \<Rightarrow> \<not> has_values
       | Some xs \<Rightarrow> has_values \<and> length xs = row_count))"

definition wf_pair_groups :: "nat \<Rightarrow> pair_groups \<Rightarrow> bool" where
  "wf_pair_groups row_count g \<longleftrightarrow>
     length (pg_sizes g) = length (pg_sources g) \<and> (\<forall>n \<in> set (pg_sizes g). 0 < n) \<and>
     length (pg_targets g) = sum_list (pg_sizes g) \<and> length (pg_events g) = sum_list (pg_sizes g) \<and>
     sum_list (map (\<lambda>n. n * n) (pg_sizes g)) = row_count"

definition wf_capsule :: "binding_capsule \<Rightarrow> bool" where
  "wf_capsule c \<longleftrightarrow> (case cap_storage c of
     Materialized m \<Rightarrow> cap_schema c \<noteq> PairGroupsSchema \<and> wf_materialized (cap_schema c) (cap_row_count c) m
   | PairGroups g \<Rightarrow> cap_schema c = PairGroupsSchema \<and> wf_pair_groups (cap_row_count c) g)"

lemma delta_loop_length: "delta_loop n p bs = Ok (xs, rest) \<Longrightarrow> length xs = n"
  by (induction n p bs arbitrary: xs rest rule: delta_loop.induct) (auto simp: result_simps)

lemma delta_ids_length: "delta_ids alloc n bs = Ok (xs, rest) \<Longrightarrow> length xs = n"
  by (auto simp: delta_ids_def result_simps dest: delta_loop_length)

lemma repeat_parse_length: "repeat_parse n p bs = Ok (xs, rest) \<Longrightarrow> length xs = n"
  by (induction n arbitrary: bs xs rest) (auto simp: result_simps)

lemma repeat_parse_all:
  "repeat_parse n p bs = Ok (xs, rest) \<Longrightarrow> (\<And>bs x r. p bs = Ok (x, r) \<Longrightarrow> P x) \<Longrightarrow> \<forall>x \<in> set xs. P x"
  by (induction n arbitrary: bs xs rest) (auto simp: result_simps)

lemma sizes_loop_Ok:
  "sizes_loop n e x bs = Ok ((sizes, e', x'), rest) \<Longrightarrow>
     length sizes = n \<and> (\<forall>k \<in> set sizes. 0 < k) \<and> e' = e + sum_list sizes \<and>
     x' = x + sum_list (map (\<lambda>k. k * k) sizes)"
proof (induction n e x bs arbitrary: sizes e' x' rest rule: sizes_loop.induct)
  case (2 n e x bs)
  then show ?case
    by (fastforce simp: result_simps count_add_def count_mul_def split: if_splits)
qed simp

lemma decode_pair_groups_wf:
  "decode_pair_groups alloc n bs = Ok (g, rest) \<Longrightarrow> wf_pair_groups n g"
  by (auto simp: decode_pair_groups_def result_simps wf_pair_groups_def
      dest!: sizes_loop_Ok delta_ids_length split: if_splits)

lemma decode_labels_wf:
  "decode_labels alloc hv hx n bs = Ok ((dict, indexes), rest) \<Longrightarrow>
     length indexes = n \<and> (\<forall>i \<in> set indexes. i < length dict)"
proof -
  assume "decode_labels alloc hv hx n bs = Ok ((dict, indexes), rest)"
  then obtain k bs1 bs2 where
    d: "repeat_parse k (decode_label alloc) bs1 = Ok (dict, bs2)" and
    x: "repeat_parse n (decode_index k) bs2 = Ok (indexes, rest)"
    by (auto simp: decode_labels_def result_simps split: if_splits)
  have "\<forall>i \<in> set indexes. i < k"
    using x by (rule repeat_parse_all) (auto simp: decode_index_def result_simps split: if_splits)
  then show ?thesis using repeat_parse_length [OF d] repeat_parse_length [OF x] by simp
qed

lemma decode_materialized_wf:
  assumes "decode_materialized alloc schema n bs = Ok (m, rest)"
  shows "wf_materialized schema n m"
proof -
  obtain k hl hv hx where shape: "schema_shape schema = (k, hl, hv, hx)"
    by (cases "schema_shape schema") auto
  obtain b1 b2 b3 b4 where
    cols: "repeat_parse k (delta_ids alloc n) b1 = Ok (id_columns m, b2)" and
    labels: "(if hl then rbind (decode_labels alloc hv hx n b2)
             (\<lambda>((dictionary, indexes), rest). Ok ((dictionary, Some indexes), rest))
           else Ok (([], None), b2)) = Ok ((label_dictionary m, label_indexes m), b3)" and
    viol: "(if hv then rbind (decode_violations alloc n b3) (\<lambda>(vs, rest). Ok (Some vs, rest))
           else Ok (None, b3)) = Ok (violations m, b4)" and
    vals: "(if hx then rbind (reserved_vec alloc n) (\<lambda>_.
             rbind (repeat_parse n decode_value b4) (\<lambda>(xs, rest). Ok (Some xs, rest)))
           else Ok (None, b4)) = Ok (mat_values m, rest)"
    using assms unfolding decode_materialized_def shape
    by (fastforce simp: result_simps)
  have "\<forall>c \<in> set (id_columns m). length c = n"
    using cols by (rule repeat_parse_all) (rule delta_ids_length)
  moreover have "length (id_columns m) = k" using cols by (rule repeat_parse_length)
  moreover have "case label_indexes m of None \<Rightarrow> \<not> hl
       | Some indexes \<Rightarrow> hl \<and> length indexes = n \<and> (\<forall>i \<in> set indexes. i < length (label_dictionary m))"
  proof (cases hl)
    case True
    with labels obtain indexes where i: "label_indexes m = Some indexes"
      and d: "decode_labels alloc hv hx n b2 = Ok ((label_dictionary m, indexes), b3)"
      by (cases "label_indexes m") (auto simp: result_simps)
    show ?thesis using True i decode_labels_wf [OF d] by simp
  qed (use labels in auto)
  moreover have "case violations m of None \<Rightarrow> \<not> hv | Some vs \<Rightarrow> hv \<and> length vs = n"
    using viol by (cases hv; cases "violations m") (auto simp: result_simps decode_violations_def)
  moreover have "case mat_values m of None \<Rightarrow> \<not> hx | Some xs \<Rightarrow> hx \<and> length xs = n"
    using vals by (cases hx; cases "mat_values m") (auto simp: result_simps dest: repeat_parse_length)
  ultimately show ?thesis by (simp add: wf_materialized_def shape)
qed

lemma decode_capsule_wf: "decode_capsule alloc bs = Ok c \<Longrightarrow> wf_capsule c"
  by (auto simp: decode_capsule_def result_simps wf_capsule_def
      dest: decode_pair_groups_wf decode_materialized_wf split: if_splits)

lemma decode_capsule_row_count: "decode_capsule alloc bs = Ok c \<Longrightarrow> cap_row_count c \<le> u64_max"
  by (auto simp: decode_capsule_def result_simps usize_varint_def split: if_splits)

section \<open>The iterators on well-formed capsules\<close>

text \<open>The rows a capsule stands for: column by column, or the square of every group.\<close>

definition materialized_row_spec :: "materialized_rows \<Rightarrow> nat \<Rightarrow> binding_row" where
  "materialized_row_spec m row =
    \<lparr>row_ids_array = map (\<lambda>column. column ! row) (id_columns m) @ replicate (5 - length (id_columns m)) 0,
     row_id_count = length (id_columns m),
     row_label = map_option (\<lambda>indexes. label_dictionary m ! (indexes ! row)) (label_indexes m),
     row_violated = map_option (\<lambda>vs. vs ! row) (violations m),
     row_value = map_option (\<lambda>xs. xs ! row) (mat_values m)\<rparr>"

definition group_offset :: "pair_groups \<Rightarrow> nat \<Rightarrow> nat" where
  "group_offset g i = sum_list (take i (pg_sizes g))"

definition group_at :: "pair_groups \<Rightarrow> nat \<Rightarrow> pair_group" where
  "group_at g i =
    \<lparr>grp_source = pg_sources g ! i,
     grp_targets = take (pg_sizes g ! i) (drop (group_offset g i) (pg_targets g)),
     grp_events = take (pg_sizes g ! i) (drop (group_offset g i) (pg_events g))\<rparr>"

definition groups_of :: "pair_groups \<Rightarrow> pair_group list" where
  "groups_of g = map (group_at g) [0..<length (pg_sources g)]"

definition group_row :: "pair_group \<Rightarrow> nat \<Rightarrow> nat \<Rightarrow> binding_row" where
  "group_row x l r =
    \<lparr>row_ids_array = [grp_source x, grp_targets x ! l, grp_targets x ! r, grp_events x ! l, grp_events x ! r],
     row_id_count = 5, row_label = None, row_violated = None, row_value = None\<rparr>"

definition group_rows :: "pair_group \<Rightarrow> binding_row list" where
  "group_rows x = concat (map (\<lambda>l. map (group_row x l) [0..<length (grp_targets x)])
     [0..<length (grp_targets x)])"

definition capsule_rows :: "binding_capsule \<Rightarrow> binding_row list" where
  "capsule_rows c = (case cap_storage c of
     Materialized m \<Rightarrow> map (materialized_row_spec m) [0..<cap_row_count c]
   | PairGroups g \<Rightarrow> concat (map group_rows (groups_of g)))"

lemma opt_all_map: "(\<And>x. x \<in> set xs \<Longrightarrow> f x = Some (g x)) \<Longrightarrow> opt_all (map f xs) = Some (map g xs)"
  by (induction xs) auto

lemma materialized_row_wf:
  assumes "wf_materialized schema n m" and "row < n"
  shows "materialized_row m row = Some (materialized_row_spec m row)"
proof -
  obtain k hl hv hx where shape: "schema_shape schema = (k, hl, hv, hx)"
    by (cases "schema_shape schema") auto
  have "k \<le> 5" using shape by (cases schema) auto
  then have "take 5 (id_columns m) = id_columns m"
    using assms shape by (simp add: wf_materialized_def)
  moreover have "opt_all (map (\<lambda>column. nth_opt column row) (id_columns m))
      = Some (map (\<lambda>column. column ! row) (id_columns m))"
    using assms shape by (intro opt_all_map) (auto simp: wf_materialized_def)
  ultimately show ?thesis
    using assms shape
    by (auto simp: materialized_row_def materialized_row_spec_def wf_materialized_def column_at_def
        split: option.splits)
qed

lemma materialized_run:
  assumes "cap_storage c = Materialized m" and "wf_materialized schema (cap_row_count c) m"
    and "rs_row st \<le> cap_row_count c" and "fuel = cap_row_count c - rs_row st"
  shows "rows_run (Suc fuel) c st = Some (map (materialized_row_spec m) [rs_row st..<cap_row_count c])"
  using assms(3,4)
proof (induction fuel arbitrary: st)
  case 0
  then show ?case using assms(1) by (simp add: rows_next_def)
next
  case (Suc fuel)
  then have row: "rs_row st < cap_row_count c" by simp
  let ?st = "st\<lparr>rs_row := rs_row st + 1\<rparr>"
  have "rows_run (Suc fuel) c ?st = Some (map (materialized_row_spec m) [rs_row ?st..<cap_row_count c])"
    by (rule Suc.IH) (use Suc.prems in simp_all)
  moreover have "rows_next c st = Some (Some (materialized_row_spec m (rs_row st)), ?st)"
    using row assms(1) materialized_row_wf [OF assms(2) row] by (simp add: rows_next_def)
  ultimately show ?case
    using row by (simp add: upt_conv_Cons del: rows_run.simps add: rows_run.simps(2) [of "Suc fuel"])
qed

text \<open>The factorized rows still to come from a state of the row iterator.\<close>

definition pair_valid :: "pair_groups \<Rightarrow> rows_state \<Rightarrow> bool" where
  "pair_valid g st \<longleftrightarrow> rs_entry_offset st = group_offset g (rs_group st) \<and>
     (rs_group st = length (pg_sources g) \<and> rs_left st = 0 \<and> rs_right st = 0 \<or>
      rs_group st < length (pg_sources g) \<and> rs_left st < pg_sizes g ! rs_group st \<and>
      rs_right st < pg_sizes g ! rs_group st)"

definition pair_remaining :: "pair_groups \<Rightarrow> rows_state \<Rightarrow> binding_row list" where
  "pair_remaining g st =
    (if rs_group st < length (pg_sources g) then
       (let x = group_at g (rs_group st); n = pg_sizes g ! rs_group st in
        map (group_row x (rs_left st)) [rs_right st..<n] @
        concat (map (\<lambda>l. map (group_row x l) [0..<n]) [Suc (rs_left st)..<n]) @
        concat (map group_rows (drop (Suc (rs_group st)) (groups_of g))))
     else [])"

lemma group_offset_Suc:
  "i < length (pg_sizes g) \<Longrightarrow> group_offset g (Suc i) = group_offset g i + pg_sizes g ! i"
  by (simp add: group_offset_def take_Suc_conv_app_nth)

lemma group_offset_bound:
  assumes "wf_pair_groups n g" and "i < length (pg_sources g)"
  shows "group_offset g i + pg_sizes g ! i \<le> length (pg_targets g)"
    and "group_offset g i + pg_sizes g ! i \<le> length (pg_events g)"
    and "0 < pg_sizes g ! i"
proof -
  have i: "i < length (pg_sizes g)" using assms by (simp add: wf_pair_groups_def)
  have "sum_list (pg_sizes g) = sum_list (take (Suc i) (pg_sizes g)) + sum_list (drop (Suc i) (pg_sizes g))"
    by (metis append_take_drop_id sum_list_append)
  then have "group_offset g (Suc i) \<le> sum_list (pg_sizes g)" by (simp add: group_offset_def)
  then show "group_offset g i + pg_sizes g ! i \<le> length (pg_targets g)"
    "group_offset g i + pg_sizes g ! i \<le> length (pg_events g)"
    using assms(1) group_offset_Suc [OF i] by (simp_all add: wf_pair_groups_def)
  show "0 < pg_sizes g ! i" using assms(1) i by (simp add: wf_pair_groups_def)
qed

lemma group_at_length:
  "wf_pair_groups n g \<Longrightarrow> i < length (pg_sources g) \<Longrightarrow>
     length (grp_targets (group_at g i)) = pg_sizes g ! i"
  using group_offset_bound [of n g i] by (simp add: group_at_def)

lemma pair_remaining_start:
  assumes "wf_pair_groups n g" and "rs_left st = 0" and "rs_right st = 0"
  shows "pair_remaining g st = concat (map group_rows (drop (rs_group st) (groups_of g)))"
proof (cases "rs_group st < length (pg_sources g)")
  case True
  have "drop (rs_group st) (groups_of g)
      = group_at g (rs_group st) # drop (Suc (rs_group st)) (groups_of g)"
    using True Cons_nth_drop_Suc [of "rs_group st" "groups_of g"] by (simp add: groups_of_def)
  moreover have "[0..<pg_sizes g ! rs_group st] = 0 # [Suc 0..<pg_sizes g ! rs_group st]"
    using group_offset_bound(3) [OF assms(1) True] by (simp add: upt_conv_Cons)
  ultimately show ?thesis
    using True assms by (simp add: pair_remaining_def Let_def group_rows_def group_at_length)
qed (simp add: pair_remaining_def groups_of_def)

lemma pair_step:
  assumes wf: "wf_pair_groups n g" and c: "cap_storage c = PairGroups g"
    and valid: "pair_valid g st" and more: "rs_group st < length (pg_sources g)"
  obtains r st' where "rows_next c st = Some (Some r, st')" and "pair_valid g st'"
    and "pair_remaining g st = r # pair_remaining g st'"
proof -
  let ?gi = "rs_group st" and ?n = "pg_sizes g ! rs_group st" and ?l = "rs_left st" and ?r = "rs_right st"
  have pos: "?l < ?n" "?r < ?n" "rs_entry_offset st = group_offset g ?gi"
    using valid more by (auto simp: pair_valid_def)
  have len: "length (pg_sizes g) = length (pg_sources g)" using wf by (simp add: wf_pair_groups_def)
  note bound = group_offset_bound [OF wf more]
  have "pair_row g ?gi (rs_entry_offset st + ?l) (rs_entry_offset st + ?r)
      = Some (group_row (group_at g ?gi) ?l ?r)"
    using pos bound more by (simp add: pair_row_def group_row_def group_at_def)
  then have step: "rows_next c st = Some (Some (group_row (group_at g ?gi) ?l ?r), pair_advance ?n st)"
    using c more len by (simp add: rows_next_def)
  have off: "group_offset g (Suc ?gi) = group_offset g ?gi + ?n"
    using more len by (simp add: group_offset_Suc)
  have valid': "pair_valid g (pair_advance ?n st)"
  proof (cases "Suc ?gi < length (pg_sources g)")
    case True
    then show ?thesis using pos more off group_offset_bound(3) [OF wf True]
      by (auto simp: pair_valid_def pair_advance_def Let_def)
  next
    case False
    then show ?thesis using pos more off by (auto simp: pair_valid_def pair_advance_def Let_def)
  qed
  have head: "[?r..<?n] = ?r # [Suc ?r..<?n]" using pos by (simp add: upt_conv_Cons)
  consider "Suc ?r < ?n" | "Suc ?r = ?n" "Suc ?l < ?n" | "Suc ?r = ?n" "Suc ?l = ?n"
    using pos by linarith
  then have "pair_remaining g st = group_row (group_at g ?gi) ?l ?r # pair_remaining g (pair_advance ?n st)"
  proof cases
    case 1
    then show ?thesis using more head by (simp add: pair_remaining_def pair_advance_def Let_def)
  next
    case 2
    then have "[Suc ?l..<?n] = Suc ?l # [Suc (Suc ?l)..<?n]" by (simp add: upt_conv_Cons)
    then show ?thesis using 2 more head by (simp add: pair_remaining_def pair_advance_def Let_def)
  next
    case 3
    let ?st = "pair_advance ?n st"
    have st: "rs_left ?st = 0" "rs_right ?st = 0" "rs_group ?st = Suc ?gi"
      using 3 by (simp_all add: pair_advance_def Let_def)
    show ?thesis
      using pair_remaining_start [OF wf st(1,2)] 3 more head unfolding st(3)
      by (simp add: pair_remaining_def [of g st] Let_def)
  qed
  with step valid' show thesis by (rule that)
qed

lemma pair_run:
  assumes "wf_pair_groups n g" and "cap_storage c = PairGroups g"
  shows "pair_valid g st \<Longrightarrow> rows_run (Suc (length (pair_remaining g st))) c st = Some (pair_remaining g st)"
proof (induction "length (pair_remaining g st)" arbitrary: st)
  case 0
  have "\<not> rs_group st < length (pg_sources g)"
  proof
    assume "rs_group st < length (pg_sources g)"
    then show False using pair_step [OF assms 0(2)] 0(1) by (metis length_0_conv list.distinct(1))
  qed
  then show ?case using assms(2) by (simp add: rows_next_def pair_remaining_def)
next
  case (Suc k)
  then have more: "rs_group st < length (pg_sources g)" by (auto simp: pair_remaining_def split: if_splits)
  obtain r st' where st': "rows_next c st = Some (Some r, st')" "pair_valid g st'"
    "pair_remaining g st = r # pair_remaining g st'"
    by (rule pair_step [OF assms Suc.prems more])
  then have "rows_run (Suc (length (pair_remaining g st'))) c st' = Some (pair_remaining g st')"
    using Suc.hyps by (intro Suc.hyps(1)) auto
  then show ?case using st'(1,3) by (simp del: rows_run.simps add: rows_run.simps(2) [of "Suc _"])
qed

lemma length_group_rows: "length (group_rows x) = length (grp_targets x) * length (grp_targets x)"
  by (simp add: group_rows_def length_concat comp_def sum_list_triv)

lemma length_capsule_rows:
  assumes "wf_capsule c"
  shows "length (capsule_rows c) = cap_row_count c"
proof (cases "cap_storage c")
  case (PairGroups g)
  then have wf: "wf_pair_groups (cap_row_count c) g" using assms by (simp add: wf_capsule_def)
  then have len: "length (pg_sizes g) = length (pg_sources g)" by (simp add: wf_pair_groups_def)
  have "map (\<lambda>i. length (group_rows (group_at g i))) [0..<length (pg_sources g)]
      = map (\<lambda>i. pg_sizes g ! i * pg_sizes g ! i) [0..<length (pg_sources g)]"
    by (auto simp: length_group_rows group_at_length [OF wf])
  also have "\<dots> = map (\<lambda>n. n * n) (pg_sizes g)"
    by (rule nth_equalityI) (simp_all add: len)
  finally show ?thesis
    using wf PairGroups by (simp add: capsule_rows_def length_concat groups_of_def comp_def wf_pair_groups_def)
qed (simp add: capsule_rows_def)

lemma capsule_run:
  assumes "wf_capsule c"
  shows "rows_run (Suc (cap_row_count c)) c rows_start = Some (capsule_rows c)"
proof (cases "cap_storage c")
  case (Materialized m)
  then have "wf_materialized (cap_schema c) (cap_row_count c) m" using assms by (simp add: wf_capsule_def)
  from materialized_run [OF Materialized this, of rows_start]
  show ?thesis using Materialized by (simp add: rows_start_def capsule_rows_def del: rows_run.simps)
next
  case (PairGroups g)
  then have wf: "wf_pair_groups (cap_row_count c) g" using assms by (simp add: wf_capsule_def)
  have "pair_valid g rows_start"
    using group_offset_bound(3) [OF wf]
    by (cases "pg_sources g") (force simp: pair_valid_def rows_start_def group_offset_def)+
  moreover have "pair_remaining g rows_start = capsule_rows c"
    using pair_remaining_start [OF wf, of rows_start] PairGroups
    by (simp add: rows_start_def capsule_rows_def)
  ultimately show ?thesis
    using pair_run [OF wf PairGroups, of rows_start] length_capsule_rows [OF assms] by metis
qed

section \<open>The group iterator\<close>

lemma group_iter_run_from:
  assumes "wf_pair_groups n g"
  shows "i \<le> length (pg_sources g) \<Longrightarrow>
    group_iter_run (Suc (length (pg_sources g) - i)) g (i, group_offset g i) = Some (drop i (groups_of g))"
proof (induction "length (pg_sources g) - i" arbitrary: i)
  case 0
  then show ?case by (simp add: group_iter_next_def nth_opt_def groups_of_def)
next
  case (Suc k)
  then have i: "i < length (pg_sources g)" by simp
  have len: "length (pg_sizes g) = length (pg_sources g)" using assms by (simp add: wf_pair_groups_def)
  note bound = group_offset_bound [OF assms i]
  have step: "group_iter_next g (i, group_offset g i)
      = Some (Some (group_at g i), Suc i, group_offset g (Suc i))"
    using i len bound by (simp add: group_iter_next_def group_at_def group_offset_Suc Let_def)
  have "group_iter_run (Suc (length (pg_sources g) - Suc i)) g (Suc i, group_offset g (Suc i))
      = Some (drop (Suc i) (groups_of g))"
    by (rule Suc.hyps(1)) (use Suc.hyps(2) i in auto)
  moreover have "length (pg_sources g) - i = Suc (length (pg_sources g) - Suc i)" using i by simp
  moreover have "drop i (groups_of g) = group_at g i # drop (Suc i) (groups_of g)"
    using i Cons_nth_drop_Suc [of i "groups_of g"] by (simp add: groups_of_def)
  ultimately show ?case
    using step by (simp del: group_iter_run.simps add: group_iter_run.simps(2) [of "Suc _"])
qed

lemma group_iter_run_all:
  "wf_pair_groups n g \<Longrightarrow> group_iter_run (Suc (group_count g)) g (0, 0) = Some (groups_of g)"
  using group_iter_run_from [of n g 0] by (simp add: group_count_def group_offset_def del: group_iter_run.simps)

end
