(* ===== verification/BindingCodec.thy ===== *)
theory BindingCodec
  imports Binding
begin

text \<open>
  The wire format of binding capsules as encoders (the column, varint and bit-packing encoders of
  the tests of \<open>crates/ocpm-core/src/binding.rs\<close>, extended to every schema), the decoder as their
  inverse, and the memory discipline of the decoder: no reservation exceeds the input.
\<close>

section \<open>Encoders\<close>

text \<open>Bits packed eight to a byte, the first in the lowest position.\<close>

fun pack_byte :: "bool list \<Rightarrow> byte" where
  "pack_byte [] = 0"
| "pack_byte (b # bs) = of_bool b OR push_bit 1 (pack_byte bs)"

function pack_bits :: "bool list \<Rightarrow> byte list" where
  "pack_bits vs = (if vs = [] then [] else pack_byte (take 8 vs) # pack_bits (drop 8 vs))"
  by pat_completeness auto
termination
  by (relation "measure length") auto

declare pack_bits.simps [simp del]

definition enc_label :: "string \<Rightarrow> byte list" where
  "enc_label s = enc_varint (of_nat (length s)) @ bytes_of_string s"

definition enc_index :: "nat \<Rightarrow> byte list" where
  "enc_index i = enc_varint (of_nat i)"

definition enc_labels :: "string list \<Rightarrow> nat list \<Rightarrow> byte list" where
  "enc_labels dictionary indexes =
     enc_index (length dictionary) @ concat (map enc_label dictionary) @ concat (map enc_index indexes)"

definition enc_columns :: "int list list \<Rightarrow> byte list" where
  "enc_columns columns = concat (map (enc_deltas 0) columns)"

text \<open>The values of a capsule are given by their IEEE bit patterns.\<close>

definition enc_materialized :: "materialized_rows \<Rightarrow> u64 list option \<Rightarrow> byte list" where
  "enc_materialized m ws =
     enc_columns (id_columns m) @
     (case label_indexes m of None \<Rightarrow> [] | Some indexes \<Rightarrow> enc_labels (label_dictionary m) indexes) @
     (case violations m of None \<Rightarrow> [] | Some vs \<Rightarrow> pack_bits vs) @
     (case ws of None \<Rightarrow> [] | Some ws \<Rightarrow> concat (map enc_varint ws))"

definition enc_pair_groups :: "pair_groups \<Rightarrow> byte list" where
  "enc_pair_groups g = enc_index (length (pg_sources g)) @ enc_deltas 0 (pg_sources g) @
     concat (map enc_index (pg_sizes g)) @ enc_deltas 0 (pg_targets g) @ enc_deltas 0 (pg_events g)"

definition enc_capsule :: "binding_capsule \<Rightarrow> u64 list option \<Rightarrow> byte list" where
  "enc_capsule c ws = magic @ [binding_version, schema_byte (cap_schema c)] @ enc_index (cap_row_count c) @
     (case cap_storage c of Materialized m \<Rightarrow> enc_materialized m ws | PairGroups g \<Rightarrow> enc_pair_groups g)"

text \<open>What a capsule must satisfy for its encoding to exist.\<close>

definition encodable_labels :: "nat \<Rightarrow> materialized_rows \<Rightarrow> bool" where
  "encodable_labels n m \<longleftrightarrow> (case label_indexes m of
     None \<Rightarrow> label_dictionary m = []
   | Some _ \<Rightarrow> list_all (\<lambda>s. utf8_valid (map of_char s)) (label_dictionary m) \<and>
       length (label_dictionary m) \<le> n \<and> (n \<noteq> 0 \<longrightarrow> label_dictionary m \<noteq> []))"

definition encodable :: "binding_capsule \<Rightarrow> u64 list option \<Rightarrow> bool" where
  "encodable c ws \<longleftrightarrow> (case cap_storage c of
     Materialized m \<Rightarrow> list_all (deltas_ok 0) (id_columns m) \<and> encodable_labels (cap_row_count c) m \<and>
       mat_values m = map_option (map f64_from_bits) ws
   | PairGroups g \<Rightarrow> cap_row_count c \<le> u64_max \<and>
       deltas_ok 0 (pg_sources g) \<and> deltas_ok 0 (pg_targets g) \<and> deltas_ok 0 (pg_events g))"

section \<open>Bits\<close>

lemma bit_pack_byte: "bit (pack_byte bs) i \<longleftrightarrow> i < 8 \<and> i < length bs \<and> bs ! i"
proof (induction bs arbitrary: i)
  case (Cons b bs)
  have "bit (of_bool b :: byte) i \<longleftrightarrow> b \<and> i = 0" by (cases b) (auto simp: bit_1_iff)
  moreover have "bit (push_bit 1 (pack_byte bs)) i \<longleftrightarrow> 0 < i \<and> i < 8 \<and> bit (pack_byte bs) (i - 1)"
    unfolding bit_push_bit_iff by (cases i) auto
  ultimately show ?case using Cons [of "i - 1"] by (cases i) (auto simp: bit_or_iff)
qed simp

lemma unpack_bit_iff: "unpack_bit packed i \<longleftrightarrow> bit (packed ! (i div 8)) (i mod 8)"
  by (simp add: unpack_bit_def and_exp_eq_0_iff_not_bit)

lemma unpack_pack: "i < length vs \<Longrightarrow> unpack_bit (pack_bits vs) i \<longleftrightarrow> vs ! i"
proof (induction vs arbitrary: i rule: pack_bits.induct)
  case (1 vs)
  then have ne: "vs \<noteq> []" by auto
  show ?case
  proof (cases "i < 8")
    case True
    then show ?thesis using "1.prems" ne
      by (subst pack_bits.simps) (auto simp: unpack_bit_iff bit_pack_byte)
  next
    case False
    then have "i div 8 = Suc ((i - 8) div 8)" "i mod 8 = (i - 8) mod 8"
      by (simp_all add: le_div_geq le_mod_geq)
    then have "unpack_bit (pack_bits vs) i = unpack_bit (pack_bits (drop 8 vs)) (i - 8)"
      using ne by (subst pack_bits.simps) (simp add: unpack_bit_iff)
    then show ?thesis using "1.IH" [OF ne, of "i - 8"] "1.prems" False by simp
  qed
qed

lemma length_pack_bits: "length (pack_bits vs) = packed_count (length vs)"
proof (induction vs rule: pack_bits.induct)
  case (1 vs)
  show ?case
  proof (cases "length vs < 8")
    case True
    then show ?thesis
      by (subst pack_bits.simps) (auto simp: packed_count_def pack_bits.simps [of "[]"])
  next
    case False
    then have ne: "vs \<noteq> []" by auto
    have "packed_count (length vs) = Suc (packed_count (length vs - 8))"
      using False by (simp add: packed_count_def le_div_geq le_mod_geq)
    then show ?thesis using "1.IH" [OF ne] ne by (subst pack_bits.simps) simp
  qed
qed

section \<open>The decoder inverts the encoders\<close>

lemma repeat_parse_enc:
  assumes "\<And>x rest. x \<in> set xs \<Longrightarrow> p (e x @ rest) = Ok (g x, rest)"
  shows "repeat_parse (length xs) p (concat (map e xs) @ rest) = Ok (map g xs, rest)"
  using assms by (induction xs) simp_all

lemma length_concat_enc:
  "(\<And>x. x \<in> set xs \<Longrightarrow> 1 \<le> length (e x)) \<Longrightarrow> length xs \<le> length (concat (map e xs))"
proof (induction xs)
  case (Cons x xs)
  have "1 \<le> length (e x)" "length xs \<le> length (concat (map e xs))" using Cons by auto
  then show ?case by simp
qed simp

lemma string_bytes [simp]: "string_of_bytes (bytes_of_string s) = s"
  by (induction s) (simp_all add: string_of_bytes_def bytes_of_string_def unat_of_nat)

lemma unat_bytes: "map unat (bytes_of_string s) = map of_char s"
  by (induction s) (simp_all add: bytes_of_string_def unat_of_nat)

lemma length_bytes_of_string [simp]: "length (bytes_of_string s) = length s"
  by (simp add: bytes_of_string_def)

lemma cursor_take_append: "n = length xs \<Longrightarrow> cursor_take n (xs @ rest) = Ok (xs, rest)"
  by (simp add: cursor_take_def)

lemma decode_label_enc:
  "utf8_valid (map of_char s) \<Longrightarrow> length s \<le> u64_max \<Longrightarrow> alloc (length s) \<Longrightarrow>
     decode_label alloc (enc_label s @ rest) = Ok (s, rest)"
  by (simp add: decode_label_def enc_label_def usize_varint_enc cursor_take_append from_utf8_def unat_bytes
      reserved_vec_def)

lemma decode_index_enc:
  "i < k \<Longrightarrow> i \<le> u64_max \<Longrightarrow> decode_index k (enc_index i @ rest) = Ok (i, rest)"
  by (simp add: decode_index_def enc_index_def usize_varint_enc)

lemma usize_enc_index: "n \<le> u64_max \<Longrightarrow> usize_varint (enc_index n @ rest) = Ok (n, rest)"
  by (simp add: enc_index_def usize_varint_enc)

lemma decode_value_enc: "decode_value (enc_varint w @ rest) = Ok (f64_from_bits w, rest)"
  by (simp add: decode_value_def cursor_varint_enc)

lemma decode_violations_enc:
  "alloc (length vs) \<Longrightarrow> decode_violations alloc (length vs) (pack_bits vs @ rest) = Ok (vs, rest)"
proof -
  have "map (unpack_bit (pack_bits vs)) [0..<length vs] = vs"
    by (rule nth_equalityI) (simp_all add: unpack_pack)
  then show "alloc (length vs) \<Longrightarrow> ?thesis"
    by (simp add: decode_violations_def cursor_take_append length_pack_bits reserved_vec_def)
qed

lemma count_add_Ok [simp]: "a + b \<le> u64_max \<Longrightarrow> count_add a b = Ok (a + b)"
  by (simp add: count_add_def u64_checked_add_def)

lemma count_mul_Ok [simp]: "a * b \<le> u64_max \<Longrightarrow> count_mul a b = Ok (a * b)"
  by (simp add: count_mul_def u64_checked_mul_def)

lemma require_minimum_Ok [simp]: "n \<le> length bs \<Longrightarrow> require_minimum n bs = Ok ()"
  by (simp add: require_minimum_def)

lemma enc_varint_nonempty [simp]: "enc_varint v \<noteq> []"
  using length_enc_varint [of v] by auto

lemma length_enc_index: "1 \<le> length (enc_index i)"
  by (simp add: enc_index_def length_enc_varint del: One_nat_def)

lemma length_enc_label: "length s < length (enc_label s)"
  by (simp add: enc_label_def)

lemma length_enc_columns:
  "\<forall>c \<in> set columns. length c = n \<Longrightarrow> n * length columns \<le> length (enc_columns columns)"
proof (induction columns)
  case (Cons c columns)
  then show ?case using length_enc_deltas [of c 0] by (simp add: enc_columns_def)
qed (simp add: enc_columns_def)

lemma length_enc_labels:
  "1 + length dictionary + length indexes \<le> length (enc_labels dictionary indexes)"
  "s \<in> set dictionary \<Longrightarrow> length s < length (enc_labels dictionary indexes)"
proof -
  have "length dictionary \<le> length (concat (map enc_label dictionary))"
    by (rule length_concat_enc) (use length_enc_label in \<open>metis One_nat_def Suc_leI gr_zeroI not_less_zero\<close>)
  moreover have "length indexes \<le> length (concat (map enc_index indexes))"
    by (rule length_concat_enc) (rule length_enc_index)
  ultimately show "1 + length dictionary + length indexes \<le> length (enc_labels dictionary indexes)"
    using length_enc_index [of "length dictionary"] by (simp add: enc_labels_def)
  assume "s \<in> set dictionary"
  then have "length (enc_label s) \<le> length (concat (map enc_label dictionary))"
    by (induction dictionary) auto
  then show "length s < length (enc_labels dictionary indexes)"
    using length_enc_label [of s] by (simp add: enc_labels_def)
qed

lemma decode_labels_enc:
  assumes "length indexes = n" and "\<forall>i \<in> set indexes. i < length dictionary"
    and "list_all (\<lambda>s. utf8_valid (map of_char s)) dictionary" and "length dictionary \<le> n"
    and "n \<noteq> 0 \<longrightarrow> dictionary \<noteq> []" and "\<forall>k \<le> N. alloc k"
    and "length (enc_labels dictionary indexes @ rest) \<le> N" and "N \<le> u64_max"
    and "(if hv then packed_count n else 0) + (if hx then n else 0) \<le> length rest"
  shows "decode_labels alloc hv hx n (enc_labels dictionary indexes @ rest) = Ok ((dictionary, indexes), rest)"
proof -
  let ?k = "length dictionary"
  have len: "1 + ?k + n + length rest \<le> N" "n \<le> N" "?k \<le> N"
    using length_enc_labels(1) [of dictionary indexes] assms by (simp_all del: One_nat_def)
  have labels: "repeat_parse ?k (decode_label alloc) (concat (map enc_label dictionary) @ r) = Ok (dictionary, r)" for r
  proof -
    have "decode_label alloc (enc_label s @ r) = Ok (s, r)" if "s \<in> set dictionary" for s r
    proof (rule decode_label_enc)
      have "length s \<le> N" using length_enc_labels(2) [OF that, of indexes] assms(7) by simp
      then show "length s \<le> u64_max" "alloc (length s)" using assms(6,8) by auto
    qed (use assms(3) that in \<open>simp add: list_all_iff\<close>)
    then show ?thesis using repeat_parse_enc [of dictionary "decode_label alloc" enc_label id] by simp
  qed
  have indexes: "repeat_parse n (decode_index ?k) (concat (map enc_index indexes) @ rest) = Ok (indexes, rest)"
  proof -
    have "decode_index ?k (enc_index i @ r) = Ok (i, r)" if "i \<in> set indexes" for i r
      using assms(2,8) len that by (intro decode_index_enc) auto
    then show ?thesis using repeat_parse_enc [of indexes "decode_index ?k" enc_index id] assms(1) by simp
  qed
  have min: "?k + n + (if hv then packed_count n else 0) + (if hx then n else 0)
      \<le> length (concat (map enc_label dictionary) @ concat (map enc_index indexes) @ rest)"
  proof -
    have "1 \<le> length (enc_label s)" for s
      by (simp add: enc_label_def length_enc_varint trans_le_add1 del: One_nat_def)
    then have "?k \<le> length (concat (map enc_label dictionary))" by (intro length_concat_enc)
    moreover have "length indexes \<le> length (concat (map enc_index indexes))"
      by (rule length_concat_enc) (rule length_enc_index)
    ultimately show ?thesis using assms(1,9) by simp
  qed
  have bound: "?k + n + (if hv then packed_count n else 0) + (if hx then n else 0) \<le> u64_max"
    using len assms(8,9) by (simp split: if_splits)
  have dict: "\<not> (n < ?k \<or> n \<noteq> 0 \<and> ?k = 0)" using assms(4,5) by auto
  show ?thesis
    using min bound dict len assms(6,8)
    by (cases hv; cases hx)
      (auto simp: decode_labels_def enc_labels_def usize_enc_index labels indexes reserved_vec_def)
qed

lemma minimum_bytes_Ok:
  assumes "n * k + (if hl then 1 + n else 0) + (if hv then packed_count n else 0) + (if hx then n else 0) \<le> u64_max"
  shows "minimum_bytes k hl hv hx n
      = Ok (n * k + (if hl then 1 + n else 0) + (if hv then packed_count n else 0) + (if hx then n else 0))"
  using assms by (cases hl; cases hv; cases hx) (simp_all add: minimum_bytes_def)

lemma decode_materialized_enc:
  assumes wf: "wf_materialized schema n m" and labels: "encodable_labels n m"
    and columns: "list_all (deltas_ok 0) (id_columns m)"
    and vals: "mat_values m = map_option (map f64_from_bits) ws"
    and alloc: "\<forall>k \<le> N. alloc k" and N: "length (enc_materialized m ws @ rest) \<le> N" "N \<le> u64_max" "5 \<le> N" "n \<le> N"
  shows "decode_materialized alloc schema n (enc_materialized m ws @ rest) = Ok (m, rest)"
proof -
  obtain k hl hv hx where shape: "schema_shape schema = (k, hl, hv, hx)"
    by (cases "schema_shape schema") auto
  have k: "k \<le> 5" using shape by (cases schema) auto
  let ?v = "case violations m of None \<Rightarrow> [] | Some vs \<Rightarrow> pack_bits vs"
  let ?x = "case ws of None \<Rightarrow> [] | Some ws \<Rightarrow> concat (map enc_varint ws)"
  let ?l = "case label_indexes m of None \<Rightarrow> [] | Some indexes \<Rightarrow> enc_labels (label_dictionary m) indexes"
  have cols: "length (id_columns m) = k" "\<forall>c \<in> set (id_columns m). length c = n"
    using wf shape by (simp_all add: wf_materialized_def)
  have lx: "(if hx then n else 0) \<le> length ?x"
  proof (cases ws)
    case (Some xs)
    have "length xs \<le> length (concat (map enc_varint xs))"
      by (rule length_concat_enc) (rule length_enc_varint)
    then show ?thesis using Some vals wf shape by (simp add: wf_materialized_def)
  qed (use vals wf shape in \<open>simp add: wf_materialized_def\<close>)
  have lv: "(if hv then packed_count n else 0) \<le> length ?v"
    using wf shape by (auto simp: wf_materialized_def length_pack_bits split: option.splits)
  have ll: "(if hl then 1 + n else 0) \<le> length ?l"
  proof (cases "label_indexes m")
    case (Some indexes)
    have "1 + length indexes \<le> length (enc_labels (label_dictionary m) indexes)"
      using length_enc_labels(1) [of "label_dictionary m" indexes] by linarith
    then show ?thesis using Some wf shape by (simp add: wf_materialized_def)
  qed (use wf shape in \<open>simp add: wf_materialized_def\<close>)
  have lc: "n * k \<le> length (enc_columns (id_columns m))"
    using length_enc_columns [OF cols(2)] cols(1) by simp
  let ?min = "n * k + (if hl then 1 + n else 0) + (if hv then packed_count n else 0) + (if hx then n else 0)"
  have bytes: "enc_materialized m ws = enc_columns (id_columns m) @ ?l @ ?v @ ?x"
    by (simp add: enc_materialized_def)
  have enough: "?min \<le> length (enc_materialized m ws @ rest)"
    using lc ll lv lx unfolding bytes length_append by linarith
  then have min: "minimum_bytes k hl hv hx n = Ok ?min"
    by (intro minimum_bytes_Ok) (use N in linarith)
  have p_cols: "repeat_parse k (delta_ids alloc n) (enc_columns (id_columns m) @ r) = Ok (id_columns m, r)" for r
  proof -
    have "delta_ids alloc n (enc_deltas 0 c @ r) = Ok (c, r)" if "c \<in> set (id_columns m)" for c r
      using columns cols(2) alloc N that by (intro delta_ids_enc) (auto simp: list_all_iff)
    then show ?thesis using repeat_parse_enc [of "id_columns m" "delta_ids alloc n" "enc_deltas 0" id] cols(1)
      by (simp add: enc_columns_def)
  qed
  have p_labels: "(if hl then rbind (decode_labels alloc hv hx n (?l @ ?v @ ?x @ rest))
        (\<lambda>((dictionary, indexes), rest). Ok ((dictionary, Some indexes), rest))
      else Ok (([], None), ?l @ ?v @ ?x @ rest)) = Ok ((label_dictionary m, label_indexes m), ?v @ ?x @ rest)"
  proof (cases "label_indexes m")
    case None
    then show ?thesis using wf shape labels by (simp add: wf_materialized_def encodable_labels_def)
  next
    case (Some indexes)
    have "decode_labels alloc hv hx n (enc_labels (label_dictionary m) indexes @ ?v @ ?x @ rest)
        = Ok ((label_dictionary m, indexes), ?v @ ?x @ rest)"
    proof (rule decode_labels_enc [where N = N])
      show "length (enc_labels (label_dictionary m) indexes @ ?v @ ?x @ rest) \<le> N"
        using N(1) Some unfolding bytes by simp
      show "(if hv then packed_count n else 0) + (if hx then n else 0) \<le> length (?v @ ?x @ rest)"
        using lv lx unfolding length_append by linarith
    qed (use wf shape labels Some alloc N in \<open>auto simp: wf_materialized_def encodable_labels_def\<close>)
    then show ?thesis using Some wf shape by (simp add: wf_materialized_def)
  qed
  have p_viol: "(if hv then rbind (decode_violations alloc n (?v @ ?x @ rest)) (\<lambda>(vs, rest). Ok (Some vs, rest))
      else Ok (None, ?v @ ?x @ rest)) = Ok (violations m, ?x @ rest)"
    using wf shape alloc N decode_violations_enc [of alloc]
    by (cases "violations m") (auto simp: wf_materialized_def)
  have p_vals: "(if hx then rbind (reserved_vec alloc n) (\<lambda>_.
        rbind (repeat_parse n decode_value (?x @ rest)) (\<lambda>(xs, rest). Ok (Some xs, rest)))
      else Ok (None, ?x @ rest)) = Ok (mat_values m, rest)"
    using wf shape alloc N vals repeat_parse_enc [of _ decode_value enc_varint f64_from_bits, OF decode_value_enc]
    by (cases ws) (auto simp: wf_materialized_def reserved_vec_def)
  have checks: "require_minimum ?min (enc_materialized m ws @ rest) = Ok ()" "reserved_vec alloc k = Ok ()"
    using enough k alloc N by (simp_all add: require_minimum_Ok reserved_vec_def)
  have "decode_materialized alloc schema n ((enc_columns (id_columns m) @ ?l @ ?v @ ?x) @ rest)
      = Ok (\<lparr>id_columns = id_columns m, label_dictionary = label_dictionary m, label_indexes = label_indexes m,
          violations = violations m, mat_values = mat_values m\<rparr>, rest)"
    unfolding decode_materialized_def shape prod.case min rbind.simps append_assoc
      checks [unfolded bytes append_assoc] rbind.simps p_cols p_labels p_viol p_vals prod.case ..
  then show ?thesis by (simp add: bytes)
qed

lemma sizes_loop_enc:
  assumes "\<forall>k \<in> set sizes. 0 < k" and "e + sum_list sizes \<le> u64_max"
    and "x + sum_list (map (\<lambda>k. k * k) sizes) \<le> u64_max"
  shows "sizes_loop (length sizes) e x (concat (map enc_index sizes) @ rest)
    = Ok ((sizes, e + sum_list sizes, x + sum_list (map (\<lambda>k. k * k) sizes)), rest)"
  using assms
proof (induction sizes arbitrary: e x)
  case (Cons k sizes)
  have "k \<le> u64_max" "e + k \<le> u64_max" "k * k \<le> u64_max" "x + k * k \<le> u64_max"
    using Cons.prems(2,3) by simp_all
  moreover have "sizes_loop (length sizes) (e + k) (x + k * k) (concat (map enc_index sizes) @ rest)
      = Ok ((sizes, e + k + sum_list sizes, x + k * k + sum_list (map (\<lambda>k. k * k) sizes)), rest)"
    by (rule Cons.IH) (use Cons.prems in \<open>simp_all add: add.assoc\<close>)
  ultimately show ?case using Cons.prems(1) by (simp add: usize_enc_index add.assoc)
qed simp

lemma decode_pair_groups_enc:
  assumes wf: "wf_pair_groups n g" and "n \<le> u64_max"
    and deltas: "deltas_ok 0 (pg_sources g)" "deltas_ok 0 (pg_targets g)" "deltas_ok 0 (pg_events g)"
    and alloc: "\<forall>k \<le> N. alloc k" and N: "length (enc_pair_groups g @ rest) \<le> N" "N \<le> u64_max"
  shows "decode_pair_groups alloc n (enc_pair_groups g @ rest) = Ok (g, rest)"
proof -
  let ?s = "pg_sources g" and ?z = "pg_sizes g" and ?t = "pg_targets g" and ?e = "pg_events g"
  have eq: "length ?z = length ?s" "length ?t = sum_list ?z" "length ?e = sum_list ?z"
    "sum_list (map (\<lambda>k. k * k) ?z) = n" "\<forall>k \<in> set ?z. 0 < k"
    using wf by (simp_all add: wf_pair_groups_def)
  have len: "length ?s \<le> length (enc_deltas 0 ?s)" "length ?z \<le> length (concat (map enc_index ?z))"
    "length ?t \<le> length (enc_deltas 0 ?t)" "length ?e \<le> length (enc_deltas 0 ?e)"
    by (rule length_enc_deltas) (rule length_concat_enc, rule length_enc_index, (rule length_enc_deltas)+)
  have total: "length (enc_deltas 0 ?s) + length (concat (map enc_index ?z)) + length (enc_deltas 0 ?t)
      + length (enc_deltas 0 ?e) + length rest \<le> N"
    using N(1) by (simp add: enc_pair_groups_def)
  have small: "length ?s * 2 \<le> N" "sum_list ?z * 2 \<le> N" "length ?s \<le> N" "sum_list ?z \<le> N"
    using len total eq by linarith+
  have sizes: "sizes_loop (length ?s) 0 0 (concat (map enc_index ?z) @ r) = Ok ((?z, sum_list ?z, n), r)" for r
    using sizes_loop_enc [of ?z 0 0 r] eq small N(2) assms(2) by simp
  have ids: "delta_ids alloc (length xs) (enc_deltas 0 xs @ r) = Ok (xs, r)"
    if "deltas_ok 0 xs" "length xs \<le> N" for xs r
    using that alloc by (intro delta_ids_enc) auto
  have sources: "delta_ids alloc (length ?s) (enc_deltas 0 ?s @ r) = Ok (?s, r)"
    and targets: "delta_ids alloc (sum_list ?z) (enc_deltas 0 ?t @ r) = Ok (?t, r)"
    and events: "delta_ids alloc (sum_list ?z) (enc_deltas 0 ?e @ r) = Ok (?e, r)" for r
    using ids [OF deltas(1)] ids [OF deltas(2)] ids [OF deltas(3)] small eq(2,3) by simp_all
  have min: "require_minimum (length ?s * 2) (enc_deltas 0 ?s @ concat (map enc_index ?z) @ r) = Ok ()"
    "require_minimum (sum_list ?z * 2) (enc_deltas 0 ?t @ enc_deltas 0 ?e @ r) = Ok ()" for r
    using len eq by (simp_all add: require_minimum_def)
  show ?thesis
    using small N(2) alloc
    by (simp add: decode_pair_groups_def enc_pair_groups_def usize_enc_index min sources sizes targets events
        reserved_vec_def)
qed

lemma schema_byte_inverse: "schema_of_byte (schema_byte s) = Ok s"
  by (cases s) (simp_all add: schema_of_byte_def)

text \<open>The head of an encoded capsule parses to its schema and row count.\<close>

lemma decode_capsule_head:
  "cap_row_count c \<le> u64_max \<Longrightarrow>
     decode_capsule alloc (magic @ [binding_version, schema_byte (cap_schema c)] @ enc_index (cap_row_count c) @ body) =
     rbind (if cap_schema c = PairGroupsSchema
           then rbind (decode_pair_groups alloc (cap_row_count c) body) (\<lambda>(g, bs). Ok (PairGroups g, bs))
           else rbind (decode_materialized alloc (cap_schema c) (cap_row_count c) body)
             (\<lambda>(m, bs). Ok (Materialized m, bs)))
      (\<lambda>(storage, bs). rbind (ensure (bs = []) TrailingBytes) (\<lambda>_.
    Ok \<lparr>cap_schema = cap_schema c, cap_row_count = cap_row_count c, cap_storage = storage\<rparr>))"
  by (simp add: decode_capsule_def magic_def cursor_take_def cursor_byte_def binding_version_def
      schema_byte_inverse usize_enc_index)

lemma wf_materialized_rows_bound:
  assumes "wf_materialized schema n m" and "schema \<noteq> PairGroupsSchema"
    and "mat_values m = map_option (map f64_from_bits) ws"
  shows "n \<le> length (enc_materialized m ws)"
proof (cases "schema = ValueSchema")
  case True
  then obtain xs where xs: "ws = Some xs" "length xs = n"
    using assms by (cases ws) (auto simp: wf_materialized_def)
  then have "length xs \<le> length (concat (map enc_varint xs))"
    by (intro length_concat_enc length_enc_varint)
  then show ?thesis using xs by (simp add: enc_materialized_def)
next
  case False
  then have "1 \<le> length (id_columns m)" and cols: "\<forall>c \<in> set (id_columns m). length c = n"
    using assms(1,2) by (cases schema; simp add: wf_materialized_def)+
  then have "n \<le> n * length (id_columns m)" by simp
  also have "\<dots> \<le> length (enc_columns (id_columns m))" by (rule length_enc_columns [OF cols])
  finally show ?thesis by (simp add: enc_materialized_def)
qed

lemma decode_capsule_enc:
  assumes wf: "wf_capsule c" and enc: "encodable c ws"
    and N: "length (enc_capsule c ws @ rest) \<le> u64_max" and alloc: "\<forall>k \<le> length (enc_capsule c ws @ rest). alloc k"
  shows "decode_capsule alloc (enc_capsule c ws @ rest) = (if rest = [] then Ok c else Err TrailingBytes)"
proof (cases "cap_storage c")
  case (Materialized m)
  let ?N = "length (enc_capsule c ws @ rest)"
  have m: "cap_schema c \<noteq> PairGroupsSchema" "wf_materialized (cap_schema c) (cap_row_count c) m"
    "mat_values m = map_option (map f64_from_bits) ws"
    using wf enc Materialized by (simp_all add: wf_capsule_def encodable_def)
  have rows: "cap_row_count c \<le> ?N"
    using wf_materialized_rows_bound [OF m(2,1,3)] Materialized by (simp add: enc_capsule_def)
  have "decode_materialized alloc (cap_schema c) (cap_row_count c) (enc_materialized m ws @ rest) = Ok (m, rest)"
    by (rule decode_materialized_enc [where N = ?N, OF m(2) _ _ m(3) alloc])
      (use N enc rows Materialized in \<open>auto simp: encodable_def enc_capsule_def magic_def\<close>)
  moreover have "cap_row_count c \<le> u64_max" using rows N by simp
  moreover have "enc_capsule c ws @ rest = magic @ [binding_version, schema_byte (cap_schema c)] @
      enc_index (cap_row_count c) @ (enc_materialized m ws @ rest)"
    by (simp add: enc_capsule_def Materialized)
  moreover have "\<lparr>cap_schema = cap_schema c, cap_row_count = cap_row_count c, cap_storage = Materialized m\<rparr> = c"
    using Materialized by simp
  ultimately show ?thesis
    using m(1) decode_capsule_head [of c alloc "enc_materialized m ws @ rest"] by (simp add: ensure_def)
next
  case (PairGroups g)
  have g: "cap_schema c = PairGroupsSchema" "wf_pair_groups (cap_row_count c) g" "cap_row_count c \<le> u64_max"
    using wf enc PairGroups by (simp_all add: wf_capsule_def encodable_def)
  have "decode_pair_groups alloc (cap_row_count c) (enc_pair_groups g @ rest) = Ok (g, rest)"
    by (rule decode_pair_groups_enc [OF g(2,3) _ _ _ alloc])
      (use N enc PairGroups in \<open>auto simp: encodable_def enc_capsule_def\<close>)
  moreover have "enc_capsule c ws @ rest = magic @ [binding_version, schema_byte (cap_schema c)] @
      enc_index (cap_row_count c) @ (enc_pair_groups g @ rest)"
    by (simp add: enc_capsule_def PairGroups)
  moreover have "\<lparr>cap_schema = PairGroupsSchema, cap_row_count = cap_row_count c, cap_storage = PairGroups g\<rparr> = c"
    using PairGroups g(1) by simp
  ultimately show ?thesis
    using g(1,3) decode_capsule_head [of c alloc "enc_pair_groups g @ rest"] by (simp add: ensure_def)
qed

section \<open>Reservations never exceed the input\<close>

text \<open>A result that is no allocation failure and, as a parse, leaves at most \<open>n\<close> bytes.\<close>

definition fine :: "'a binding_result \<Rightarrow> bool" where
  "fine r \<longleftrightarrow> r \<noteq> Err AllocationFailed"

definition good :: "nat \<Rightarrow> ('a \<times> byte list) binding_result \<Rightarrow> bool" where
  "good n r \<longleftrightarrow> (case r of Inl e \<Rightarrow> e \<noteq> AllocationFailed | Inr (x, rest) \<Rightarrow> length rest \<le> n)"

named_theorems good_intros "parsers that reserve no more than the input"

lemma good_fine: "good n r \<Longrightarrow> fine r"
  by (auto simp: good_def fine_def split: sum.splits)

lemma good_mono: "good m r \<Longrightarrow> m \<le> n \<Longrightarrow> good n r"
  by (auto simp: good_def split: sum.splits prod.splits)

lemma good_Ok: "length rest \<le> n \<Longrightarrow> good n (Ok (x, rest))"
  by (simp add: good_def)

lemma good_Err: "e \<noteq> AllocationFailed \<Longrightarrow> good n (Err e)"
  by (simp add: good_def)

lemma good_bind:
  "good n r \<Longrightarrow> (\<And>x rest. r = Ok (x, rest) \<Longrightarrow> length rest \<le> n \<Longrightarrow> good n (k (x, rest))) \<Longrightarrow>
     good n (rbind r k)"
  by (cases r) (auto simp: good_def split: sum.splits prod.splits)

lemma good_check: "fine r \<Longrightarrow> (\<And>x. r = Ok x \<Longrightarrow> good n (k x)) \<Longrightarrow> good n (rbind r k)"
  by (cases r) (auto simp: good_def fine_def)

text \<open>The check rule at the types of the checks, so that it never applies to a parser.\<close>

lemmas good_checks =
  good_check [where 'a = nat] good_check [where 'a = int] good_check [where 'a = unit]
  good_check [where 'a = string]

lemma fine_bind: "fine r \<Longrightarrow> (\<And>x. r = Ok x \<Longrightarrow> fine (k x)) \<Longrightarrow> fine (rbind r k)"
  by (cases r) (auto simp: fine_def)

lemma fine_simps [simp]:
  "fine (Ok x)" "fine (Err e) \<longleftrightarrow> e \<noteq> AllocationFailed" "fine (count_add a b)" "fine (count_mul a b)"
  "fine (require_minimum a bs)" "fine (reserved_vec alloc a) \<longleftrightarrow> alloc a"
  "e \<noteq> AllocationFailed \<Longrightarrow> fine (ensure p e)" "e \<noteq> AllocationFailed \<Longrightarrow> fine (ok_or e y)"
  "fine (from_utf8 ts)"
  by (auto simp: fine_def count_add_def count_mul_def require_minimum_def reserved_vec_def result_simps
      ensure_def ok_or_def from_utf8_def split: option.splits)

lemma require_minimum_bound: "require_minimum a bs = Ok u \<Longrightarrow> a \<le> length bs"
  by (simp add: require_minimum_def split: if_splits)

lemma count_results:
  "count_add a b = Ok c \<Longrightarrow> c = a + b" "count_mul a b = Ok c \<Longrightarrow> c = a * b"
  by (simp_all add: count_add_def count_mul_def result_simps)

lemma good_take: "length bs \<le> n \<Longrightarrow> good n (cursor_take k bs)"
  by (auto simp: cursor_take_def good_def)

lemma good_byte: "length bs \<le> n \<Longrightarrow> good n (cursor_byte bs)"
  unfolding cursor_byte_def by (rule good_bind) (auto intro: good_take good_Ok)

lemma good_varint_loop: "length bs \<le> n \<Longrightarrow> good n (varint_loop ss v bs)"
proof (induction ss arbitrary: v bs)
  case (Cons s ss)
  show ?case unfolding varint_loop.simps
    by (rule good_bind) (auto intro!: good_byte good_Err good_Ok Cons simp: Let_def)
qed (simp add: good_Err)

lemma good_varint: "length bs \<le> n \<Longrightarrow> good n (cursor_varint bs)"
  by (simp add: cursor_varint_def good_varint_loop)

lemma good_usize: "length bs \<le> n \<Longrightarrow> good n (usize_varint bs)"
  unfolding usize_varint_def by (rule good_bind) (auto intro: good_varint good_Ok good_Err)

lemma good_signed: "length bs \<le> n \<Longrightarrow> good n (signed_varint bs)"
  unfolding signed_varint_def by (rule good_bind) (auto intro: good_varint good_Ok good_Err)

lemma good_delta_loop: "length bs \<le> n \<Longrightarrow> good n (delta_loop k p bs)"
proof (induction k arbitrary: p bs)
  case (Suc k)
  show ?case unfolding delta_loop.simps
  proof (rule good_bind [OF good_signed [OF Suc.prems]])
    fix d and rest :: "byte list"
    assume "length rest \<le> n"
    then show "good n ((\<lambda>(d, rest). rbind (ok_or DeltaOverflow (i64_checked_add p d)) (\<lambda>q.
        rbind (delta_loop k q rest) (\<lambda>(ps, rest'). Ok (q # ps, rest')))) (d, rest))"
      by (auto intro!: good_check good_bind good_Ok Suc.IH)
  qed
qed (simp add: good_Ok)

lemma good_repeat: "(\<And>bs. length bs \<le> n \<Longrightarrow> good n (p bs)) \<Longrightarrow> length bs \<le> n \<Longrightarrow> good n (repeat_parse k p bs)"
proof (induction k arbitrary: bs)
  case (Suc k)
  show ?case unfolding repeat_parse.simps
    by (rule good_bind [OF Suc.prems(1) [OF Suc.prems(2)]]) (auto intro!: good_bind good_Ok Suc.IH Suc.prems(1))
qed (simp add: good_Ok)

lemma good_sizes_loop: "length bs \<le> n \<Longrightarrow> good n (sizes_loop k e x bs)"
proof (induction k arbitrary: e x bs)
  case (Suc k)
  show ?case unfolding sizes_loop.simps
    by (rule good_bind [OF good_usize [OF Suc.prems]]) (auto intro!: good_check good_bind good_Ok good_Err Suc.IH)
qed (simp add: good_Ok)

text \<open>The allocator serves every reservation up to \<open>n\<close> elements.\<close>

definition serves :: "nat \<Rightarrow> alloc \<Rightarrow> bool" where
  "serves n alloc \<longleftrightarrow> (\<forall>k \<le> n. alloc k)"

lemma servesD [intro]: "serves n alloc \<Longrightarrow> k \<le> n \<Longrightarrow> alloc k"
  by (simp add: serves_def)

lemma good_delta_ids: "serves n alloc \<Longrightarrow> length bs \<le> n \<Longrightarrow> good n (delta_ids alloc k bs)"
  unfolding delta_ids_def
  by (intro good_check good_delta_loop) (auto dest!: require_minimum_bound)

lemma take_length: "cursor_take k bs = Ok (xs, rest) \<Longrightarrow> length xs \<le> length bs"
  by (auto simp: cursor_take_def split: if_splits)

lemma from_utf8_length: "from_utf8 ts = Ok v \<Longrightarrow> length v = length ts"
  by (auto simp: from_utf8_def string_of_bytes_def split: if_splits)

lemma good_label:
  assumes "serves n alloc" and "length bs \<le> n"
  shows "good n (decode_label alloc bs)"
  unfolding decode_label_def
proof (rule good_bind [OF good_usize [OF assms(2)]], simp)
  fix k and rest :: "byte list"
  assume rest: "length rest \<le> n"
  show "good n (rbind (cursor_take k rest) (\<lambda>(taken, rest'). rbind (from_utf8 taken) (\<lambda>value.
      rbind (reserved_vec alloc (length value)) (\<lambda>_. Ok (value, rest')))))"
    by (rule good_bind [OF good_take [OF rest]])
      (use rest assms(1) in \<open>auto intro!: good_check good_Ok dest!: take_length from_utf8_length\<close>)
qed

lemma good_index: "length bs \<le> n \<Longrightarrow> good n (decode_index k bs)"
  unfolding decode_index_def by (rule good_bind [OF good_usize]) (auto intro: good_Ok good_Err)

lemma good_value: "length bs \<le> n \<Longrightarrow> good n (decode_value bs)"
  unfolding decode_value_def by (rule good_bind [OF good_varint]) (auto intro: good_Ok)

lemma good_violations:
  "serves n alloc \<Longrightarrow> length bs \<le> n \<Longrightarrow> rows \<le> n \<Longrightarrow> good n (decode_violations alloc rows bs)"
  unfolding decode_violations_def by (rule good_bind [OF good_take]) (auto intro!: good_check good_Ok)

lemma good_labels:
  assumes "serves n alloc" and "length bs \<le> n" and "rows \<le> n"
  shows "good n (decode_labels alloc hv hx rows bs)"
  unfolding decode_labels_def
  by (rule good_bind [OF good_usize [OF assms(2)]])
    (use assms in \<open>auto intro!: good_Err good_checks good_bind good_repeat good_label good_index good_Ok\<close>)

lemma good_materialized:
  assumes "serves n alloc" and "length bs \<le> n" and "5 \<le> n" and "schema \<noteq> PairGroupsSchema"
  shows "good n (decode_materialized alloc schema rows bs)"
proof -
  obtain k hl hv hx where shape: "schema_shape schema = (k, hl, hv, hx)"
    by (cases "schema_shape schema") auto
  have k: "k \<le> 5" "0 < k \<or> hx" using shape assms(4) by (cases schema; simp)+
  have rows: "rows \<le> n" if "minimum_bytes k hl hv hx rows = Ok m" "require_minimum m bs = Ok u" for m u
  proof -
    have "rows * k + (if hx then rows else 0) \<le> m"
      using that(1) by (auto simp: minimum_bytes_def result_simps dest!: count_results split: if_splits)
    moreover have "rows \<le> rows * k + (if hx then rows else 0)" using k(2) by auto
    ultimately show ?thesis using require_minimum_bound [OF that(2)] assms(2) by linarith
  qed
  have min: "fine (minimum_bytes k hl hv hx rows)"
    unfolding minimum_bytes_def by (auto intro!: fine_bind)
  show ?thesis
    unfolding decode_materialized_def shape prod.case
  proof (rule good_check [OF min], rule good_check, simp)
    fix m u
    assume "minimum_bytes k hl hv hx rows = Ok m" "require_minimum m bs = Ok u"
    then have "rows \<le> n" by (rule rows)
    then show "good n (rbind (reserved_vec alloc k) (\<lambda>_.
      rbind (repeat_parse k (delta_ids alloc rows) bs) (\<lambda>(columns, bs).
      rbind (if hl then rbind (decode_labels alloc hv hx rows bs)
               (\<lambda>((dictionary, indexes), rest). Ok ((dictionary, Some indexes), rest))
             else Ok (([], None), bs)) (\<lambda>((dictionary, indexes), bs).
      rbind (if hv then rbind (decode_violations alloc rows bs) (\<lambda>(vs, rest). Ok (Some vs, rest))
             else Ok (None, bs)) (\<lambda>(vs, bs).
      rbind (if hx then rbind (reserved_vec alloc rows) (\<lambda>_.
               rbind (repeat_parse rows decode_value bs) (\<lambda>(xs, rest). Ok (Some xs, rest)))
             else Ok (None, bs)) (\<lambda>(xs, bs).
      Ok (\<lparr>id_columns = columns, label_dictionary = dictionary, label_indexes = indexes,
         violations = vs, mat_values = xs\<rparr>, bs)))))))"
      using assms k(1)
      by (auto intro!: good_checks good_bind good_repeat good_delta_ids good_labels good_violations
          good_value good_Ok servesD [OF assms(1)])
  qed
qed

lemma good_pair_groups:
  assumes "serves n alloc" and "length bs \<le> n"
  shows "good n (decode_pair_groups alloc rows bs)"
  unfolding decode_pair_groups_def
  by (rule good_bind [OF good_usize [OF assms(2)]])
    (use assms in \<open>auto intro!: good_Err good_checks good_bind good_delta_ids good_sizes_loop good_Ok
       dest!: require_minimum_bound count_results\<close>)

lemma fine_parse:
  "good n r \<Longrightarrow> (\<And>x rest. length rest \<le> n \<Longrightarrow> fine (k (x, rest))) \<Longrightarrow> fine (rbind r k)"
  by (cases r) (auto simp: good_def fine_def split: prod.splits)

lemmas fine_checks = fine_bind [where 'a = unit] fine_bind [where 'a = binding_schema]

lemma fine_schema: "fine (schema_of_byte b)"
  by (simp add: schema_of_byte_def)

lemma fine_capsule:
  assumes "serves (max 5 (length bs)) alloc"
  shows "fine (decode_capsule alloc bs)"
proof -
  have *: "length bs \<le> max 5 (length bs)" "5 \<le> max 5 (length bs)" by simp_all
  show ?thesis
    unfolding decode_capsule_def
    by (rule fine_parse [OF good_take [OF *(1)]])
      (use assms * in \<open>auto intro!: fine_checks fine_schema fine_parse good_byte good_usize good_bind
         good_pair_groups good_materialized good_Ok simp del: max.bounded_iff le_max_iff_disj\<close>)
qed

section \<open>Properties\<close>

text \<open>C3: Decoding inverts encoding for every schema: the encoding of a well-formed capsule decodes
  to that capsule, and with any byte after it the decoder answers \<open>TrailingBytes\<close>.\<close>

theorem capsule_roundtrip:
  assumes "wf_capsule c" and "encodable c ws" and "length (enc_capsule c ws @ rest) \<le> u64_max"
    and "serves (length (enc_capsule c ws @ rest)) alloc"
  shows "decode_capsule alloc (enc_capsule c ws @ rest) = (if rest = [] then Ok c else Err TrailingBytes)"
  by (rule decode_capsule_enc) (use assms in \<open>simp_all add: serves_def\<close>)

definition sample_capsule :: binding_capsule where
  "sample_capsule = \<lparr>cap_schema = IdLabelIdViolation, cap_row_count = 3,
     cap_storage = Materialized \<lparr>id_columns = [[1, 2, 3], [10, 11, 12]], label_dictionary = [''alice'', ''bob''],
       label_indexes = Some [0, 1, 0], violations = Some [True, False, True], mat_values = None\<rparr>\<rparr>"

lemma sample_capsule_facts:
  "wf_capsule sample_capsule" "encodable sample_capsule None"
  "length (enc_capsule sample_capsule None @ [7]) \<le> u64_max"
  "serves n (\<lambda>_. True)"
  by (code_simp, code_simp, code_simp, simp add: serves_def)

theorem capsule_roundtrip_witness:
  "decode_capsule (\<lambda>_. True) (enc_capsule sample_capsule None @ [7]) = Err TrailingBytes"
  using capsule_roundtrip [OF sample_capsule_facts] by simp

text \<open>C4: A decoded capsule never makes its iterators panic: they end, they yield exactly
  \<open>row_count\<close> rows, which are the rows the columns or groups stand for, and the group iterator
  yields exactly the groups whose squares those rows are.\<close>

theorem decoded_capsule_iterates:
  assumes "decode_capsule alloc bs = Ok c"
  shows "rows_run (Suc (cap_row_count c)) c rows_start = Some (capsule_rows c) \<and>
    length (capsule_rows c) = cap_row_count c \<and>
    (case pair_groups_view c of None \<Rightarrow> True
     | Some g \<Rightarrow> group_iter_run (Suc (group_count g)) g (0, 0) = Some (groups_of g) \<and>
         capsule_rows c = concat (map group_rows (groups_of g)))"
proof -
  have wf: "wf_capsule c" using assms by (rule decode_capsule_wf)
  then show ?thesis
    using capsule_run [OF wf] length_capsule_rows [OF wf]
    by (auto simp: pair_groups_view_def wf_capsule_def capsule_rows_def simp del: rows_run.simps group_iter_run.simps
        dest: group_iter_run_all split: binding_storage.splits)
qed

text \<open>The bytes of the test \<open>lazily_expands_multiple_pair_groups\<close>.\<close>

definition sample_groups_bytes :: "byte list" where
  "sample_groups_bytes = magic @ [1, 6, 5, 2, 20, 20, 2, 1] @ [200, 1, 2, 198, 1] @ [208, 15, 2, 206, 15]"

definition sample_groups :: binding_capsule where
  "sample_groups = \<lparr>cap_schema = PairGroupsSchema, cap_row_count = 5, cap_storage = PairGroups
     \<lparr>pg_sources = [10, 20], pg_sizes = [2, 1], pg_targets = [100, 101, 200], pg_events = [1000, 1001, 2000]\<rparr>\<rparr>"

lemma sample_groups_decode: "decode_capsule (\<lambda>_. True) sample_groups_bytes = Ok sample_groups"
  by code_simp

theorem decoded_capsule_iterates_witness: "length (capsule_rows sample_groups) = 5"
  using decoded_capsule_iterates [OF sample_groups_decode] by (simp add: sample_groups_def)

text \<open>C5: A hostile count cannot make the decoder reserve memory out of proportion: an allocator that
  serves every reservation of at most as many elements as the input has bytes (and of five) never
  makes decoding fail with \<open>AllocationFailed\<close>.\<close>

theorem decode_reservations_bounded:
  assumes "serves (max 5 (length bs)) alloc"
  shows "decode_capsule alloc bs \<noteq> Err AllocationFailed"
  using fine_capsule [OF assms] by (simp add: fine_def)

theorem decode_reservations_bounded_witness:
  "decode_capsule (\<lambda>k. k \<le> 5) [0x4f, 0x43, 0x50, 0x42] \<noteq> Err AllocationFailed"
  by (rule decode_reservations_bounded) (simp add: serves_def)

end
