(* ===== verification/Models.thy ===== *)
theory Models
  imports CoreData
begin

text \<open>
  Process models (\<open>crates/ocpm-core/src/model.rs\<close>) and their interchange formats
  (\<open>crates/ocpm-core/src/serialization.rs\<close>): DOT, PNML and SVG text. JSON values are the type
  parameter \<open>'j\<close>; the canonical JSON hash is the parameter \<open>content_hash\<close>; the standard library's
  debug text of a string and fixed-point text of a float are the parameters \<open>debug_str\<close> and
  \<open>fixed6\<close>.
\<close>

section \<open>Models\<close>

record dfg_edge =
  de_source :: string
  de_target :: string
  de_object_type :: string
  de_frequency :: nat

record dfg_model =
  dfg_activities :: "string list"
  dfg_start_activities :: "(string, nat) btree_map"
  dfg_end_activities :: "(string, nat) btree_map"
  dfg_edges :: "dfg_edge list"

datatype process_tree =
  TreeActivity string | TreeSequence "process_tree list" | TreeExclusive "process_tree list"
| TreeParallel "process_tree list" | TreeLoop process_tree process_tree | TreeTau

record place =
  pl_id :: string
  pl_initial_tokens :: nat
  pl_final_tokens :: nat

record transition =
  tr_id :: string
  tr_label :: "string option"

record petri_arc =
  arc_source :: string
  arc_target :: string
  arc_weight :: nat
  arc_object_type :: "string option"
  arc_variable :: bool

record petri_net =
  net_places :: "place list"
  net_transitions :: "transition list"
  net_arcs :: "petri_arc list"

record oc_petri_net =
  ocpn_object_types :: "string list"
  ocpn_net :: petri_net

datatype declare_template =
  Existence | Absence | Exactly | Init | End | Response | Precedence | Succession | Coexistence
| NotCoexistence | Choice | ExclusiveChoice

record declare_constraint =
  dcl_template :: declare_template
  dcl_activation :: string
  dcl_target :: "string option"
  dcl_object_type :: "string option"
  dcl_support :: f64
  dcl_confidence :: f64

datatype process_model =
  Dfg dfg_model | PTree process_tree | PNet petri_net | OCPNet oc_petri_net
| OcDeclare "declare_constraint list"

record 'j model_artifact =
  ma_schema_version :: string
  ma_algorithm :: string
  ma_algorithm_version :: string
  ma_parameters :: "(string, 'j) btree_map"
  ma_dataset_id :: string
  ma_source_watermark :: "timestamp option"
  ma_model :: process_model
  ma_content_hash :: string

definition finalize_hash :: "('j model_artifact \<Rightarrow> string ocpm_result) \<Rightarrow> 'j model_artifact
    \<Rightarrow> 'j model_artifact ocpm_result" where
  "finalize_hash content_hash artifact =
    (let artifact = artifact\<lparr>ma_content_hash := []\<rparr> in
     rbind (content_hash artifact) (\<lambda>h. Ok (artifact\<lparr>ma_content_hash := h\<rparr>)))"

section \<open>Escaping\<close>

text \<open>\<open>str::replace\<close> of one character.\<close>

definition replace_char :: "char \<Rightarrow> string \<Rightarrow> string \<Rightarrow> string" where
  "replace_char c t s = concat (map (\<lambda>x. if x = c then t else [x]) s)"

definition quote_char :: char where "quote_char = CHR 0x22"
definition newline :: char where "newline = CHR 0x0A"
definition backslash :: char where "backslash = CHR 0x5C"
definition apostrophe :: char where "apostrophe = CHR 0x27"

definition xml_text :: "string \<Rightarrow> string" where
  "xml_text s = replace_char apostrophe ''&apos;'' (replace_char quote_char ''&quot;''
     (replace_char CHR ''>'' ''&gt;'' (replace_char CHR ''<'' ''&lt;'' (replace_char CHR ''&'' ''&amp;'' s))))"

definition dot_text :: "string \<Rightarrow> string" where
  "dot_text s = replace_char newline [backslash, CHR ''n''] (replace_char quote_char [backslash, quote_char]
     (replace_char backslash [backslash, backslash] s))"

definition hex_digit :: "nat \<Rightarrow> char" where
  "hex_digit n = (if n < 10 then char_of (48 + n) else char_of (87 + n))"

definition hex :: "string \<Rightarrow> string" where
  "hex bytes = concat (map (\<lambda>b. [hex_digit (of_char b div 16), hex_digit (of_char b mod 16)]) bytes)"

definition dot_id :: "string \<Rightarrow> string" where
  "dot_id v = ''n_'' @ hex v"

definition dquote :: string where "dquote = [quote_char]"
definition nl :: string where "nl = [newline]"

section \<open>DOT\<close>

definition dfg_dot :: "dfg_model \<Rightarrow> string" where
  "dfg_dot m =
    concat (map (\<lambda>activity. ''  '' @ dot_id activity @ '' [label='' @ dquote @ dot_text activity @ dquote @ ''];'' @ nl)
      (dfg_activities m)) @
    concat (map (\<lambda>edge. ''  '' @ dot_id (de_source edge) @ '' -> '' @ dot_id (de_target edge) @ '' [label='' @ dquote @
        show_nat (de_frequency edge) @ '' / '' @ dot_text (de_object_type edge) @ dquote @ ''];'' @ nl) (dfg_edges m))"

definition write_petri_dot :: "petri_net \<Rightarrow> string" where
  "write_petri_dot net =
    concat (map (\<lambda>p. ''  '' @ dot_id (pl_id p) @ '' [shape=circle,label='' @ dquote @ dot_text (pl_id p) @ '' ('' @
        show_nat (pl_initial_tokens p) @ ''/'' @ show_nat (pl_final_tokens p) @ '')'' @ dquote @ ''];'' @ nl) (net_places net)) @
    concat (map (\<lambda>t. ''  '' @ dot_id (tr_id t) @ '' [shape=box,label='' @ dquote @
        dot_text (case tr_label t of None \<Rightarrow> ''tau'' | Some l \<Rightarrow> l) @ dquote @ ''];'' @ nl) (net_transitions net)) @
    concat (map (\<lambda>a. ''  '' @ dot_id (arc_source a) @ '' -> '' @ dot_id (arc_target a) @ '' [label='' @ dquote @
        show_nat (arc_weight a) @ (case arc_object_type a of None \<Rightarrow> [] | Some v \<Rightarrow> '' / '' @ dot_text v) @
        dquote @ ''];'' @ nl) (net_arcs net))"

text \<open>\<open>write_tree_dot\<close> threads the next node number; the result is the number after the subtree and
  the text.\<close>

definition tree_label :: "process_tree \<Rightarrow> string" where
  "tree_label t = (case t of TreeActivity a \<Rightarrow> a | TreeSequence _ \<Rightarrow> ''sequence'' | TreeExclusive _ \<Rightarrow> ''exclusive''
     | TreeParallel _ \<Rightarrow> ''parallel'' | TreeLoop _ _ \<Rightarrow> ''loop'' | TreeTau \<Rightarrow> ''tau'')"

definition tree_node :: "string \<Rightarrow> nat option \<Rightarrow> nat \<Rightarrow> string" where
  "tree_node label parent i = ''  n'' @ show_nat i @ '' [label='' @ dquote @ dot_text label @ dquote @ ''];'' @ nl @
     (case parent of None \<Rightarrow> [] | Some p \<Rightarrow> ''  n'' @ show_nat p @ '' -> n'' @ show_nat i @ '';'' @ nl)"

definition tree_children :: "process_tree \<Rightarrow> process_tree list" where
  "tree_children t = (case t of TreeActivity _ \<Rightarrow> [] | TreeSequence cs \<Rightarrow> cs | TreeExclusive cs \<Rightarrow> cs
     | TreeParallel cs \<Rightarrow> cs | TreeLoop body redo \<Rightarrow> [body, redo] | TreeTau \<Rightarrow> [])"

lemma tree_children_smaller [termination_simp]: "c \<in> set (tree_children t) \<Longrightarrow> size c < size t"
  by (cases t) (auto simp: tree_children_def less_Suc_eq_le intro: size_list_estimation' [OF _ order.refl])

fun write_tree_dot :: "process_tree \<Rightarrow> nat option \<Rightarrow> nat \<Rightarrow> nat \<times> string" where
  "write_tree_dot t parent i =
    fold (\<lambda>c (n, text). case write_tree_dot c (Some i) n of (n', text') \<Rightarrow> (n', text @ text'))
      (tree_children t) (i + 1, tree_node (tree_label t) parent i)"

declare write_tree_dot.simps [simp del]

definition template_name :: "declare_template \<Rightarrow> string" where
  "template_name t = (case t of Existence \<Rightarrow> ''Existence'' | Absence \<Rightarrow> ''Absence'' | Exactly \<Rightarrow> ''Exactly''
     | Init \<Rightarrow> ''Init'' | End \<Rightarrow> ''End'' | Response \<Rightarrow> ''Response'' | Precedence \<Rightarrow> ''Precedence''
     | Succession \<Rightarrow> ''Succession'' | Coexistence \<Rightarrow> ''Coexistence'' | NotCoexistence \<Rightarrow> ''NotCoexistence''
     | Choice \<Rightarrow> ''Choice'' | ExclusiveChoice \<Rightarrow> ''ExclusiveChoice'')"

definition or_empty :: "string option \<Rightarrow> string" where
  "or_empty x = (case x of None \<Rightarrow> [] | Some s \<Rightarrow> s)"

definition or_star :: "string option \<Rightarrow> string" where
  "or_star x = (case x of None \<Rightarrow> ''*'' | Some s \<Rightarrow> s)"

definition declare_dot :: "declare_constraint list \<Rightarrow> string" where
  "declare_dot cs = concat (map (\<lambda>(i, c). ''  c'' @ show_nat i @ '' [shape=box,label='' @ dquote @
     dot_text (template_name (dcl_template c) @ '': '' @ dcl_activation c @ '' '' @ or_empty (dcl_target c) @ '' ['' @
       or_star (dcl_object_type c) @ '']'') @ dquote @ ''];'' @ nl) (indexed cs))"

definition model_dot :: "'j model_artifact \<Rightarrow> string" where
  "model_dot artifact = ''digraph process_model {'' @ nl @ ''  rankdir=LR;'' @ nl @
    (case ma_model artifact of
       Dfg m \<Rightarrow> dfg_dot m
     | PTree t \<Rightarrow> snd (write_tree_dot t None 0)
     | PNet net \<Rightarrow> write_petri_dot net
     | OCPNet m \<Rightarrow> write_petri_dot (ocpn_net m)
     | OcDeclare cs \<Rightarrow> declare_dot cs) @ ''}'' @ nl"

section \<open>PNML\<close>

definition xml_attr :: "string \<Rightarrow> string \<Rightarrow> string" where
  "xml_attr name v = '' '' @ name @ ''='' @ dquote @ v @ dquote"

definition xml_element :: "string \<Rightarrow> string \<Rightarrow> string" where
  "xml_element name body = ''<'' @ name @ ''>'' @ body @ ''</'' @ name @ ''>''"

definition toolspecific :: "string \<Rightarrow> string" where
  "toolspecific body = ''<toolspecific'' @ xml_attr ''tool'' ''ocpm-engine'' @ xml_attr ''version'' ''1.0'' @ ''>'' @
     body @ ''</toolspecific>''"

definition place_pnml :: "place \<Rightarrow> string" where
  "place_pnml p = ''    <place'' @ xml_attr ''id'' (xml_text (pl_id p)) @ ''>'' @
     xml_element ''initialMarking'' (xml_element ''text'' (show_nat (pl_initial_tokens p))) @
     toolspecific (xml_element ''finalMarking'' (show_nat (pl_final_tokens p))) @ ''</place>'' @ nl"

definition transition_pnml :: "transition \<Rightarrow> string" where
  "transition_pnml t = ''    <transition'' @ xml_attr ''id'' (xml_text (tr_id t)) @ ''>'' @
     xml_element ''name'' (xml_element ''text'' (xml_text (or_empty (tr_label t)))) @ ''</transition>'' @ nl"

definition show_bool :: "bool \<Rightarrow> string" where
  "show_bool b = (if b then ''true'' else ''false'')"

definition arc_pnml :: "nat \<times> petri_arc \<Rightarrow> string" where
  "arc_pnml = (\<lambda>(i, a). ''    <arc'' @ xml_attr ''id'' (''a'' @ show_nat i) @ xml_attr ''source'' (xml_text (arc_source a)) @
     xml_attr ''target'' (xml_text (arc_target a)) @ ''>'' @
     xml_element ''inscription'' (xml_element ''text'' (show_nat (arc_weight a))) @
     toolspecific (xml_element ''object-type'' (xml_text (or_empty (arc_object_type a))) @
       xml_element ''variable'' (show_bool (arc_variable a))) @ ''</arc>'' @ nl)"

definition pnml_header :: string where
  "pnml_header = ''<?xml'' @ xml_attr ''version'' ''1.0'' @ xml_attr ''encoding'' ''UTF-8'' @ ''?>'' @ nl @ ''<pnml>'' @ nl @
     ''  <net'' @ xml_attr ''id'' ''ocpm'' @ xml_attr ''type'' ''http://www.pnml.org/version-2009/grammar/ptnet'' @ ''>'' @ nl"

definition net_pnml :: "string list \<Rightarrow> petri_net \<Rightarrow> string" where
  "net_pnml object_types net = pnml_header @
     (if object_types \<noteq> [] then ''    '' @ toolspecific (xml_element ''object-types''
        (xml_text (join_with '','' object_types))) @ nl else []) @
     concat (map place_pnml (net_places net)) @ concat (map transition_pnml (net_transitions net)) @
     concat (map arc_pnml (indexed (net_arcs net))) @ ''  </net>'' @ nl @ ''</pnml>'' @ nl"

definition model_pnml :: "'j model_artifact \<Rightarrow> string ocpm_result" where
  "model_pnml artifact = (case ma_model artifact of
     PNet net \<Rightarrow> Ok (net_pnml [] net)
   | OCPNet m \<Rightarrow> Ok (net_pnml (ocpn_object_types m) (ocpn_net m))
   | _ \<Rightarrow> Err (invalid_request ''PNML export requires a Petri net or object-centric Petri net''))"

section \<open>SVG\<close>

text \<open>The derived \<open>Debug\<close> text of a process tree.\<close>

fun debug_tree :: "(string \<Rightarrow> string) \<Rightarrow> process_tree \<Rightarrow> string" where
  "debug_tree d (TreeActivity a) = ''Activity('' @ d a @ '')''"
| "debug_tree d (TreeSequence cs) = ''Sequence(['' @ join_with '', '' (map (debug_tree d) cs) @ ''])''"
| "debug_tree d (TreeExclusive cs) = ''Exclusive(['' @ join_with '', '' (map (debug_tree d) cs) @ ''])''"
| "debug_tree d (TreeParallel cs) = ''Parallel(['' @ join_with '', '' (map (debug_tree d) cs) @ ''])''"
| "debug_tree d (TreeLoop body redo) = ''Loop { body: '' @ debug_tree d body @ '', redo: '' @ debug_tree d redo @ '' }''"
| "debug_tree d TreeTau = ''Tau''"

definition model_lines :: "(string \<Rightarrow> string) \<Rightarrow> (f64 \<Rightarrow> string) \<Rightarrow> process_model \<Rightarrow> string list" where
  "model_lines debug_str fixed6 m = (case m of
     Dfg m \<Rightarrow> map (\<lambda>e. de_source e @ '' -> '' @ de_target e @ '' | type='' @ de_object_type e @ '' frequency='' @
       show_nat (de_frequency e)) (dfg_edges m)
   | PTree t \<Rightarrow> [debug_tree debug_str t]
   | PNet net \<Rightarrow> map (\<lambda>a. arc_source a @ '' -> '' @ arc_target a @ '' | weight='' @ show_nat (arc_weight a)) (net_arcs net)
   | OCPNet m \<Rightarrow> map (\<lambda>a. arc_source a @ '' -> '' @ arc_target a @ '' | type='' @ or_empty (arc_object_type a) @
       '' weight='' @ show_nat (arc_weight a) @ '' variable='' @ show_bool (arc_variable a)) (net_arcs (ocpn_net m))
   | OcDeclare cs \<Rightarrow> map (\<lambda>c. template_name (dcl_template c) @ ''('' @ dcl_activation c @ '', '' @ or_empty (dcl_target c) @
       '') | type='' @ or_star (dcl_object_type c) @ '' support='' @ fixed6 (dcl_support c) @ '' confidence='' @
       fixed6 (dcl_confidence c)) cs)"

definition svg_line :: "nat \<times> string \<Rightarrow> string" where
  "svg_line = (\<lambda>(i, line). ''<text'' @ xml_attr ''x'' ''20'' @ xml_attr ''y'' (show_nat (52 + i * 24)) @
     xml_attr ''font-family'' ''monospace'' @ xml_attr ''font-size'' ''14'' @ ''>'' @ xml_text line @ ''</text>'' @ nl)"

definition model_svg :: "(string \<Rightarrow> string) \<Rightarrow> (f64 \<Rightarrow> string) \<Rightarrow> 'j model_artifact \<Rightarrow> string" where
  "model_svg debug_str fixed6 artifact =
    (let lines = model_lines debug_str fixed6 (ma_model artifact);
       height = u64_saturating_add 40 (length lines * 24) in
     ''<svg'' @ xml_attr ''xmlns'' ''http://www.w3.org/2000/svg'' @ xml_attr ''width'' ''960'' @
     xml_attr ''height'' (show_nat height) @ xml_attr ''viewBox'' (''0 0 960 '' @ show_nat height) @ ''>'' @ nl @
     ''<rect'' @ xml_attr ''width'' ''100%'' @ xml_attr ''height'' ''100%'' @ xml_attr ''fill'' ''white'' @ ''/>'' @ nl @
     ''<text'' @ xml_attr ''x'' ''20'' @ xml_attr ''y'' ''24'' @ xml_attr ''font-family'' ''monospace'' @
     xml_attr ''font-size'' ''16'' @ xml_attr ''font-weight'' ''bold'' @ ''>ocpm-engine process model</text>'' @ nl @
     concat (map svg_line (indexed lines)) @ ''</svg>'' @ nl)"

section \<open>Facts about escaping\<close>

fun xml_escape :: "char \<Rightarrow> string" where
  "xml_escape c = (if c = CHR ''&'' then ''&amp;'' else if c = CHR ''<'' then ''&lt;'' else if c = CHR ''>'' then ''&gt;''
     else if c = quote_char then ''&quot;'' else if c = apostrophe then ''&apos;'' else [c])"

lemma replace_char_append: "replace_char c t (xs @ ys) = replace_char c t xs @ replace_char c t ys"
  by (simp add: replace_char_def)

lemma xml_text_escape: "xml_text s = concat (map xml_escape s)"
proof (induction s)
  case (Cons c s)
  have one: "replace_char a t [x] = (if x = a then t else [x])" for a t x by (simp add: replace_char_def)
  have "xml_text [c] = xml_escape c"
    by (simp add: xml_text_def one, simp add: replace_char_def quote_char_def apostrophe_def)
  moreover have "xml_text (c # s) = xml_text [c] @ xml_text s"
    unfolding xml_text_def using replace_char_append by (metis append_Cons append_Nil)
  ultimately show ?case using Cons by simp
qed (simp add: xml_text_def replace_char_def)

fun dot_escape :: "char \<Rightarrow> string" where
  "dot_escape c = (if c = backslash then [backslash, backslash] else if c = quote_char then [backslash, quote_char]
     else if c = newline then [backslash, CHR ''n''] else [c])"

lemma dot_text_escape: "dot_text s = concat (map dot_escape s)"
proof (induction s)
  case (Cons c s)
  have one: "replace_char a t [x] = (if x = a then t else [x])" for a t x by (simp add: replace_char_def)
  have "dot_text [c] = dot_escape c"
    by (simp add: dot_text_def one, simp add: replace_char_def quote_char_def newline_def backslash_def)
  moreover have "dot_text (c # s) = dot_text [c] @ dot_text s"
    unfolding dot_text_def using replace_char_append by (metis append_Cons append_Nil)
  ultimately show ?case using Cons by simp
qed (simp add: dot_text_def replace_char_def)

text \<open>Readers of the escaped text: character data of XML, and the body of a DOT string.\<close>

fun xml_read :: "string \<Rightarrow> string option" where
  "xml_read [] = Some []"
| "xml_read (c # s) =
    (if c = CHR ''<'' \<or> c = CHR ''>'' \<or> c = quote_char \<or> c = apostrophe then None
     else if c \<noteq> CHR ''&'' then map_option ((#) c) (xml_read s)
     else if take 4 s = ''amp;'' then map_option ((#) CHR ''&'') (xml_read (drop 4 s))
     else if take 3 s = ''lt;'' then map_option ((#) CHR ''<'') (xml_read (drop 3 s))
     else if take 3 s = ''gt;'' then map_option ((#) CHR ''>'') (xml_read (drop 3 s))
     else if take 5 s = ''quot;'' then map_option ((#) quote_char) (xml_read (drop 5 s))
     else if take 5 s = ''apos;'' then map_option ((#) apostrophe) (xml_read (drop 5 s))
     else None)"

lemma xml_read_escape: "xml_read (xml_escape c @ s) = map_option ((#) c) (xml_read s)"
  by (auto simp: quote_char_def apostrophe_def)

lemma xml_read_text: "xml_read (xml_text s) = Some s"
  unfolding xml_text_escape by (induction s) (simp_all add: xml_read_escape del: xml_escape.simps xml_read.simps(2))

fun dot_read :: "string \<Rightarrow> string option" where
  "dot_read [] = Some []"
| "dot_read (c # s) =
    (if c = quote_char \<or> c = newline then None
     else if c \<noteq> backslash then map_option ((#) c) (dot_read s)
     else (case s of [] \<Rightarrow> None
       | d # s' \<Rightarrow> if d = CHR ''n'' then map_option ((#) newline) (dot_read s')
           else if d = backslash \<or> d = quote_char then map_option ((#) d) (dot_read s') else None))"

lemma dot_read_escape: "dot_read (dot_escape c @ s) = map_option ((#) c) (dot_read s)"
  by (auto simp: quote_char_def newline_def backslash_def)

lemma dot_read_text: "dot_read (dot_text s) = Some s"
  unfolding dot_text_escape by (induction s) (simp_all add: dot_read_escape del: dot_escape.simps dot_read.simps(2))

lemma hex_digit_inject: "m < 16 \<Longrightarrow> n < 16 \<Longrightarrow> hex_digit m = hex_digit n \<longleftrightarrow> m = n"
  by (auto simp: hex_digit_def char_of_eq_iff take_bit_nat_eq_self)

lemma hex_inject: "hex s = hex t \<longleftrightarrow> s = t"
proof
  show "hex s = hex t \<Longrightarrow> s = t"
  proof (induction s arbitrary: t)
    case Nil
    then show ?case by (cases t) (simp_all add: hex_def)
  next
    case (Cons c s)
    then obtain d t' where t: "t = d # t'" by (cases t) (simp_all add: hex_def)
    have b: "(of_char c :: nat) < 256" "(of_char d :: nat) < 256" by simp_all
    have eq: "hex_digit (of_char c div 16) = hex_digit (of_char d div 16)"
      "hex_digit (of_char c mod 16) = hex_digit (of_char d mod 16)" "hex s = hex t'"
      using Cons.prems t by (simp_all add: hex_def)
    have "(of_char c :: nat) div 16 = of_char d div 16" "(of_char c :: nat) mod 16 = of_char d mod 16"
      using eq(1,2) b by (subst (asm) hex_digit_inject; simp add: less_mult_imp_div_less)+
    then have "(of_char c :: nat) = of_char d" by (metis div_mult_mod_eq)
    then show ?case using Cons.IH [OF eq(3)] t by simp
  qed
qed simp

section \<open>The DOT text of a process tree\<close>

fun tree_nodes :: "process_tree \<Rightarrow> nat" where
  "tree_nodes t = Suc (sum_list (map tree_nodes (tree_children t)))"

declare tree_nodes.simps [simp del]

type_synonym node_line = "nat \<times> nat option \<times> string"

definition node_text :: "node_line \<Rightarrow> string" where
  "node_text = (\<lambda>(i, parent, label). tree_node label parent i)"

text \<open>Lines that draw a tree: numbered consecutively from \<open>i\<close>, the first with the given parent, every
  other with a parent numbered before it.\<close>

definition draws_tree :: "node_line list \<Rightarrow> nat \<Rightarrow> nat \<Rightarrow> nat option \<Rightarrow> bool" where
  "draws_tree ls i n parent \<longleftrightarrow> map fst ls = [i..<i + n] \<and> ls \<noteq> [] \<and> fst (snd (hd ls)) = parent \<and>
     (\<forall>l \<in> set (tl ls). \<exists>p. fst (snd l) = Some p \<and> i \<le> p \<and> p < fst l)"

definition draws_children :: "node_line list \<Rightarrow> nat \<Rightarrow> nat \<Rightarrow> nat \<Rightarrow> bool" where
  "draws_children ls rt i n \<longleftrightarrow> map fst ls = [i..<i + n] \<and>
     (\<forall>l \<in> set ls. \<exists>p. fst (snd l) = Some p \<and> rt \<le> p \<and> p < fst l)"

lemma draws_children_append:
  assumes "draws_children ls rt i n" and "draws_tree ls' (i + n) m (Some rt)" and "rt < i"
  shows "draws_children (ls @ ls') rt i (n + m)"
proof -
  from assms(2) obtain l rest where ls': "ls' = l # rest" by (cases ls') (auto simp: draws_tree_def)
  have "map fst (ls @ ls') = [i..<i + (n + m)]"
    using assms(1,2) upt_add_eq_append [of i "i + n" m] by (simp add: draws_children_def draws_tree_def add.assoc)
  moreover have "fst l = i + n"
    using assms(2) ls' by (cases m) (auto simp: draws_tree_def upt_conv_Cons simp del: upt_Suc)
  ultimately show ?thesis
    using assms ls' by (fastforce simp: draws_children_def draws_tree_def)
qed

lemma write_tree_draws:
  "\<exists>ls. write_tree_dot t parent i = (i + tree_nodes t, concat (map node_text ls)) \<and> draws_tree ls i (tree_nodes t) parent"
proof (induction t parent i rule: write_tree_dot.induct)
  case (1 t parent i)
  let ?step = "\<lambda>c (n, txs). case write_tree_dot c (Some i) n of (n', txs') \<Rightarrow> (n', txs @ txs')"
  have IH: "\<exists>ls. write_tree_dot c (Some i) n = (n + tree_nodes c, concat (map node_text ls)) \<and>
      draws_tree ls n (tree_nodes c) (Some i)" if "c \<in> set (tree_children t)" for c n
    using 1 that by auto
  have fold: "\<exists>ls. fold ?step cs (Suc i + k, txs) = (Suc i + k + sum_list (map tree_nodes cs), txs @ concat (map node_text ls)) \<and>
      (draws_children ps i (Suc i) k \<longrightarrow> draws_children (ps @ ls) i (Suc i) (k + sum_list (map tree_nodes cs)))"
    if "set cs \<subseteq> set (tree_children t)" for cs k txs ps
    using that
  proof (induction cs arbitrary: k txs ps)
    case Nil
    then show ?case by (intro exI [of _ "[]"]) simp
  next
    case (Cons c cs)
    obtain ls where ls: "write_tree_dot c (Some i) (Suc i + k) = (Suc i + k + tree_nodes c, concat (map node_text ls))"
      "draws_tree ls (Suc i + k) (tree_nodes c) (Some i)" using IH Cons.prems by fastforce
    obtain ls' where ls': "fold ?step cs (Suc i + (k + tree_nodes c), txs @ concat (map node_text ls))
        = (Suc i + (k + tree_nodes c) + sum_list (map tree_nodes cs), (txs @ concat (map node_text ls)) @ concat (map node_text ls'))"
      "draws_children (ps @ ls) i (Suc i) (k + tree_nodes c) \<longrightarrow>
        draws_children ((ps @ ls) @ ls') i (Suc i) (k + tree_nodes c + sum_list (map tree_nodes cs))"
      using Cons.IH [of "k + tree_nodes c" "txs @ concat (map node_text ls)" "ps @ ls"] Cons.prems by auto
    show ?case
      using ls ls' draws_children_append [of ps i "Suc i" k ls "tree_nodes c"]
      by (intro exI [of _ "ls @ ls'"]) (simp add: add.assoc)
  qed
  obtain ls where ls: "fold ?step (tree_children t) (Suc i + 0, tree_node (tree_label t) parent i)
      = (Suc i + 0 + sum_list (map tree_nodes (tree_children t)), tree_node (tree_label t) parent i @ concat (map node_text ls))"
    "draws_children ([] @ ls) i (Suc i) (0 + sum_list (map tree_nodes (tree_children t)))"
    using fold [of "tree_children t" 0 "tree_node (tree_label t) parent i" "[]"] by (auto simp: draws_children_def)
  have "write_tree_dot t parent i = (i + tree_nodes t, concat (map node_text ((i, parent, tree_label t) # ls)))"
    using ls(1) by (simp add: write_tree_dot.simps [of t] tree_nodes.simps [of t] node_text_def)
  moreover have "draws_tree ((i, parent, tree_label t) # ls) i (tree_nodes t) parent"
    using ls(2) by (auto simp: draws_tree_def draws_children_def tree_nodes.simps [of t] upt_conv_Cons simp del: upt_Suc)
  ultimately show ?case by blast
qed

section \<open>Properties\<close>

text \<open>Exported names stay data: an XML reader gives back exactly the text that \<open>xml_text\<close> escaped,
  a DOT reader the text that \<open>dot_text\<close> escaped, and distinct names get distinct DOT
  identifiers.\<close>

theorem export_escaping_roundtrip:
  "xml_read (xml_text s) = Some s \<and> dot_read (dot_text s) = Some s \<and> (dot_id s = dot_id t \<longleftrightarrow> s = t)"
  by (simp add: xml_read_text dot_read_text dot_id_def hex_inject)

text \<open>The DOT text of a process tree draws that tree: one line per node, numbered from 0 without
  gaps, the root without a parent, every other node with one parent numbered before it.\<close>

theorem tree_dot_draws:
  "\<exists>ls. model_dot \<lparr>ma_schema_version = sv, ma_algorithm = al, ma_algorithm_version = av, ma_parameters = ps,
      ma_dataset_id = di, ma_source_watermark = sw, ma_model = PTree t, ma_content_hash = ch\<rparr> =
    ''digraph process_model {'' @ nl @ ''  rankdir=LR;'' @ nl @ concat (map node_text ls) @ ''}'' @ nl \<and>
    draws_tree ls 0 (tree_nodes t) None"
  using write_tree_draws [of t None 0] by (auto simp: model_dot_def)

end
