(* ===== verification/Requests.thy ===== *)
theory Requests
  imports Models
begin

text \<open>
  Requests and results (\<open>crates/ocpm-core/src/request.rs\<close>, \<open>result.rs\<close>) and the query entry point
  (\<open>crates/ocpm-query/src/lib.rs\<close>). The provider behind the entry point is a parameter.
\<close>

section \<open>Views and constraints\<close>

record dataset_view =
  dv_start :: "timestamp option"
  dv_end :: "timestamp option"
  dv_object_types :: "string list"
  dv_activities :: "string list"
  dv_qualifiers :: "string list"
  dv_event_ids :: "nat list"
  dv_object_ids :: "nat list"
  dv_event_attributes :: attributes
  dv_object_attributes :: attributes
  dv_statuses :: "string list"
  dv_related_object_types :: "string list"
  dv_minimum_execution_duration_nanos :: "int option"
  dv_maximum_execution_duration_nanos :: "int option"

definition default_view :: dataset_view where
  "default_view = \<lparr>dv_start = None, dv_end = None, dv_object_types = [], dv_activities = [], dv_qualifiers = [],
     dv_event_ids = [], dv_object_ids = [], dv_event_attributes = [], dv_object_attributes = [], dv_statuses = [],
     dv_related_object_types = [], dv_minimum_execution_duration_nanos = None,
     dv_maximum_execution_duration_nanos = None\<rparr>"

text \<open>\<open>Option::is_none_or\<close>.\<close>

definition is_none_or :: "('a \<Rightarrow> bool) \<Rightarrow> 'a option \<Rightarrow> bool" where
  "is_none_or p x = (case x of None \<Rightarrow> True | Some a \<Rightarrow> p a)"

definition contains_timestamp :: "dataset_view \<Rightarrow> timestamp \<Rightarrow> bool" where
  "contains_timestamp view t \<longleftrightarrow>
     is_none_or (\<lambda>start. epoch_nanos_utc start \<le> epoch_nanos_utc t) (dv_start view) \<and>
     is_none_or (\<lambda>stop. epoch_nanos_utc t < epoch_nanos_utc stop) (dv_end view)"

datatype constraint =
  EventIdC "nat list" | ObjectIdC "nat list" | EventActivity "string list"
| EventAttributeEquals string attribute_value | ObjectAttributeEquals string attribute_value
| ObjectType "string list" | E2oQualifier "string list" | O2oQualifier "string list"
| DirectlyFollows string string | EventuallyFollows string string
| TemporalDistance string string "int option" "int option"
| Relationship "string option" "string option" "string option"
| ChildCount constraint nat "nat option"
| And "constraint list" | Or "constraint list" | Not constraint | Label string constraint

record query_request =
  qr_semantic_version :: string
  qr_view :: dataset_view
  qr_constraint :: constraint
  qr_limit :: nat

definition default_result_limit :: nat where "default_result_limit = 100000"

datatype discovery_algorithm =
  AlgDfg | AlgOcDfg | AlgAlpha | AlgInductiveProcessTree | AlgPetriNet | AlgObjectCentricPetriNet | AlgOcDeclare

record 'j discovery_request =
  dr_semantic_version :: string
  dr_view :: dataset_view
  dr_algorithm :: discovery_algorithm
  dr_algorithm_version :: string
  dr_parameters :: "(string, 'j) btree_map"

datatype conformance_method =
  FrequencyCoverage | TokenReplay | Alignment | OcpnQuality | OcDeclareMethod | Constraints

record 'j conformance_request =
  cq_semantic_version :: string
  cq_view :: dataset_view
  cq_method :: conformance_method
  cq_model :: "'j model_artifact"
  cq_parameters :: "(string, 'j) btree_map"

section \<open>Results\<close>

record dataset_profile =
  dp_dataset_id :: string
  dp_tenant_id :: string
  dp_source_watermark :: "timestamp option"
  dp_event_count :: nat
  dp_object_count :: nat
  dp_e2o_count :: nat
  dp_o2o_count :: nat
  dp_object_attribute_change_count :: nat
  dp_activities :: "(string, nat) btree_map"
  dp_object_types :: "(string, nat) btree_map"
  dp_start :: "timestamp option"
  dp_end :: "timestamp option"

record query_binding =
  qb_event_ids :: "nat list"
  qb_object_ids :: "nat list"
  qb_labels :: "string list"
  qb_violated :: bool

record query_result =
  qres_bindings :: "query_binding list"
  qres_total_matches :: nat
  qres_truncated :: bool

record 'j conformance_result_v1 =
  cv_fitness :: "f64 option"
  cv_precision :: "f64 option"
  cv_generalization :: "f64 option"
  cv_simplicity :: "f64 option"
  cv_conforming :: nat
  cv_deviations :: nat
  cv_exact :: bool
  cv_violations :: "query_binding list"
  cv_diagnostics :: "(string, 'j) btree_map"

section \<open>Query validation\<close>

lemma try_fold_cong [fundef_cong]:
  "xs = ys \<Longrightarrow> s = t \<Longrightarrow> (\<And>x s. x \<in> set ys \<Longrightarrow> f s x = g s x) \<Longrightarrow> try_fold f s xs = try_fold g t ys"
proof (induction ys arbitrary: xs s t)
  case (Cons y ys)
  have "try_fold f s' ys = try_fold g s' ys" for s' using Cons.IH [of ys s' s'] Cons.prems(3) by simp
  then show ?case using Cons.prems by simp
qed simp

definition maximum_depth :: nat where "maximum_depth = 64"

fun validate_constraint :: "constraint \<Rightarrow> nat \<Rightarrow> unit ocpm_result" where
  "validate_constraint c depth =
    (if maximum_depth < depth
     then Err (error_at ''constraint'' (invalid_request ''constraint nesting exceeds 64 levels''))
     else case c of
       EventActivity activities \<Rightarrow> ensure (activities \<noteq> []) (invalid_request ''activities must not be empty'')
     | EventAttributeEquals name v \<Rightarrow> ensure (name \<noteq> []) (invalid_request ''attribute name must not be empty'')
     | ObjectType object_types \<Rightarrow> ensure (object_types \<noteq> []) (invalid_request ''object_types must not be empty'')
     | E2oQualifier qualifiers \<Rightarrow> ensure (qualifiers \<noteq> []) (invalid_request ''qualifiers must not be empty'')
     | O2oQualifier qualifiers \<Rightarrow> ensure (qualifiers \<noteq> []) (invalid_request ''qualifiers must not be empty'')
     | DirectlyFollows source target \<Rightarrow>
         ensure (source \<noteq> [] \<and> target \<noteq> []) (invalid_request ''follow activities must not be empty'')
     | EventuallyFollows source target \<Rightarrow>
         ensure (source \<noteq> [] \<and> target \<noteq> []) (invalid_request ''follow activities must not be empty'')
     | ChildCount child minimum maximum \<Rightarrow>
         rbind (ensure (\<not> (case maximum of None \<Rightarrow> False | Some m \<Rightarrow> m < minimum))
           (invalid_request ''child-count maximum must be at least minimum'')) (\<lambda>_.
         validate_constraint child (depth + 1))
     | And children \<Rightarrow>
         rbind (ensure (children \<noteq> []) (invalid_request ''boolean constraint requires at least one child'')) (\<lambda>_.
         try_fold (\<lambda>_ child. validate_constraint child (depth + 1)) () children)
     | Or children \<Rightarrow>
         rbind (ensure (children \<noteq> []) (invalid_request ''boolean constraint requires at least one child'')) (\<lambda>_.
         try_fold (\<lambda>_ child. validate_constraint child (depth + 1)) () children)
     | Not child \<Rightarrow> validate_constraint child (depth + 1)
     | Label name child \<Rightarrow>
         rbind (ensure (name \<noteq> []) (invalid_request ''label name must not be empty'')) (\<lambda>_.
         validate_constraint child (depth + 1))
     | _ \<Rightarrow> Ok ())"

declare validate_constraint.simps [simp del]

definition validate_query :: "query_request \<Rightarrow> unit ocpm_result" where
  "validate_query request =
    rbind (ensure (qr_semantic_version request = ''1.0'')
      (error_at ''semantic_version'' (invalid_request ''semantic_version must be 1.0''))) (\<lambda>_.
    rbind (ensure (qr_limit request \<noteq> 0)
      (error_at ''limit'' (invalid_request ''limit must be greater than zero''))) (\<lambda>_.
    validate_constraint (qr_constraint request) 0))"

definition query_execute :: "(query_request \<Rightarrow> query_result ocpm_result) \<Rightarrow> query_request
    \<Rightarrow> query_result ocpm_result" where
  "query_execute query request = rbind (validate_query request) (\<lambda>_. query request)"

section \<open>What a valid constraint is\<close>

fun wf_constraint :: "constraint \<Rightarrow> bool" where
  "wf_constraint (EventActivity activities) = (activities \<noteq> [])"
| "wf_constraint (EventAttributeEquals name v) = (name \<noteq> [])"
| "wf_constraint (ObjectType object_types) = (object_types \<noteq> [])"
| "wf_constraint (E2oQualifier qualifiers) = (qualifiers \<noteq> [])"
| "wf_constraint (O2oQualifier qualifiers) = (qualifiers \<noteq> [])"
| "wf_constraint (DirectlyFollows source target) = (source \<noteq> [] \<and> target \<noteq> [])"
| "wf_constraint (EventuallyFollows source target) = (source \<noteq> [] \<and> target \<noteq> [])"
| "wf_constraint (ChildCount child minimum maximum) = (is_none_or (\<lambda>m. minimum \<le> m) maximum \<and> wf_constraint child)"
| "wf_constraint (And children) = (children \<noteq> [] \<and> list_all wf_constraint children)"
| "wf_constraint (Or children) = (children \<noteq> [] \<and> list_all wf_constraint children)"
| "wf_constraint (Not child) = wf_constraint child"
| "wf_constraint (Label name child) = (name \<noteq> [] \<and> wf_constraint child)"
| "wf_constraint _ = True"

fun nesting_within :: "nat \<Rightarrow> constraint \<Rightarrow> bool" where
  "nesting_within n (ChildCount child _ _) = (0 < n \<and> nesting_within (n - 1) child)"
| "nesting_within n (And children) = (children = [] \<or> 0 < n \<and> list_all (nesting_within (n - 1)) children)"
| "nesting_within n (Or children) = (children = [] \<or> 0 < n \<and> list_all (nesting_within (n - 1)) children)"
| "nesting_within n (Not child) = (0 < n \<and> nesting_within (n - 1) child)"
| "nesting_within n (Label _ child) = (0 < n \<and> nesting_within (n - 1) child)"
| "nesting_within n _ = True"

lemma try_fold_unit: "try_fold (\<lambda>_ x. f x) () xs = Ok () \<longleftrightarrow> list_all (\<lambda>x. f x = Ok ()) xs"
  by (induction xs) (auto simp: result_simps)

lemma validate_constraint_Ok:
  "validate_constraint c depth = Ok () \<longleftrightarrow> depth \<le> maximum_depth \<and> wf_constraint c \<and> nesting_within (maximum_depth - depth) c"
proof (induction c arbitrary: depth)
  case (ChildCount c mn mx)
  show ?case
    by (subst validate_constraint.simps)
      (auto simp: result_simps ChildCount is_none_or_def not_less split: option.splits)
next
  case (And cs)
  have "list_all (\<lambda>x. validate_constraint x (depth + 1) = Ok ()) cs \<longleftrightarrow>
      list_all (\<lambda>x. depth + 1 \<le> maximum_depth \<and> wf_constraint x \<and> nesting_within (maximum_depth - (depth + 1)) x) cs"
    by (intro list.pred_cong refl) (use And in simp)
  then show ?case
    by (subst validate_constraint.simps) (cases cs; auto simp: result_simps try_fold_unit list_all_iff)
next
  case (Or cs)
  have "list_all (\<lambda>x. validate_constraint x (depth + 1) = Ok ()) cs \<longleftrightarrow>
      list_all (\<lambda>x. depth + 1 \<le> maximum_depth \<and> wf_constraint x \<and> nesting_within (maximum_depth - (depth + 1)) x) cs"
    by (intro list.pred_cong refl) (use Or in simp)
  then show ?case
    by (subst validate_constraint.simps) (cases cs; auto simp: result_simps try_fold_unit list_all_iff)
next
  case (Not c)
  show ?case by (subst validate_constraint.simps) (auto simp: result_simps Not)
next
  case (Label n c)
  show ?case by (subst validate_constraint.simps) (auto simp: result_simps Label)
qed (subst validate_constraint.simps; auto simp: result_simps)+

lemma try_fold_unit_Err: "try_fold (\<lambda>_ x. f x) () xs = Err e \<Longrightarrow> \<exists>x \<in> set xs. f x = Err e"
  by (induction xs) (auto simp: result_simps)

lemma validate_constraint_Err: "validate_constraint c depth = Err e \<Longrightarrow> err_code e = InvalidRequest"
proof (induction c depth rule: validate_constraint.induct)
  case (1 c depth)
  show ?case
  proof (cases "maximum_depth < depth")
    case True
    then show ?thesis using "1.prems" by (simp add: validate_constraint.simps [of c]) (metis error_codes(3,5))
  next
    case False
    note IH = "1.IH" [OF False]
    show ?thesis
      using "1.prems" False IH
      by (simp add: validate_constraint.simps [of c] split: constraint.splits)
        (auto simp: result_simps dest: try_fold_unit_Err)
  qed
qed

lemma validate_query_Ok:
  "validate_query request = Ok () \<longleftrightarrow> qr_semantic_version request = ''1.0'' \<and> qr_limit request \<noteq> 0 \<and>
     wf_constraint (qr_constraint request) \<and> nesting_within 64 (qr_constraint request)"
  by (auto simp: validate_query_def result_simps validate_constraint_Ok maximum_depth_def)

lemma validate_query_Err: "validate_query request = Err e \<Longrightarrow> err_code e = InvalidRequest"
  by (auto simp: validate_query_def result_simps dest: validate_constraint_Err)

text \<open>Query execution reaches the provider exactly for requests of version 1.0 with a positive limit
  and a well-formed constraint nested at most 64 levels deep; any other request is refused as
  invalid before the provider runs.\<close>

theorem query_execute_validates:
  "if qr_semantic_version request = ''1.0'' \<and> qr_limit request \<noteq> 0 \<and>
      wf_constraint (qr_constraint request) \<and> nesting_within 64 (qr_constraint request)
   then query_execute query request = query request
   else \<exists>e. query_execute query request = Err e \<and> err_code e = InvalidRequest"
  using validate_query_Ok [of request] validate_query_Err [of request]
  by (cases "validate_query request") (auto simp: query_execute_def)

end
