(* ===== verification/EventBatch.thy ===== *)
theory EventBatch
  imports BindingCursor
begin

text \<open>
  Factorized event batches: \<open>crates/ocpm-core/src/event_batch.rs\<close>. A batch holds one activity
  path, a packed vector of case identifiers and one packed timestamp vector per case; the summary
  builder counts variants, activities and directly-follows edges on that representation, or on
  expanded cases. Payloads are byte lists; the checked counters fail as the code's do. A panic
  (an out-of-range slice, a failed \<open>expect\<close>) is the extra error value \<open>Panicked\<close>, which the
  theorems exclude. The state a builder keeps after a failed push is not modelled.
\<close>

section \<open>Batches\<close>

datatype byte_order = LittleEndian | BigEndian

datatype event_batch_error =
  EmptyActivityPath | EmptyCaseBatch | ActivityCountMismatch | DimensionOverflow
| InvalidCaseIdPayload | InvalidTimestampPayload | InvalidByteOrder | InvalidTimestampHeader
| CountOverflow | DurationOverflow | Panicked

type_synonym 'a batch_result = "event_batch_error + 'a"

record event_batch =
  eb_activity_path :: "string list"
  eb_case_count :: nat
  eb_case_id_payload :: "byte list"
  eb_timestamp_payload :: "byte list"
  eb_byte_order :: byte_order

text \<open>\<open>from_le_bytes\<close>, \<open>from_be_bytes\<close> and their inverses.\<close>

fun le_nat :: "byte list \<Rightarrow> nat" where
  "le_nat [] = 0"
| "le_nat (b # bs) = unat b + 256 * le_nat bs"

fun le_bytes :: "nat \<Rightarrow> nat \<Rightarrow> byte list" where
  "le_bytes 0 n = []"
| "le_bytes (Suc k) n = of_nat (n mod 256) # le_bytes k (n div 256)"

definition ordered_bytes :: "byte_order \<Rightarrow> byte list \<Rightarrow> byte list" where
  "ordered_bytes order bs = (case order of LittleEndian \<Rightarrow> bs | BigEndian \<Rightarrow> rev bs)"

definition read_i32 :: "byte list \<Rightarrow> byte_order \<Rightarrow> int" where
  "read_i32 bs order = sint (of_nat (le_nat (ordered_bytes order bs)) :: 32 word)"

definition read_i64 :: "byte list \<Rightarrow> byte_order \<Rightarrow> int" where
  "read_i64 bs order = sint (of_nat (le_nat (ordered_bytes order bs)) :: 64 word)"

definition write_i32 :: "byte_order \<Rightarrow> int \<Rightarrow> byte list" where
  "write_i32 order i = ordered_bytes order (le_bytes 4 (unat (word_of_int i :: 32 word)))"

definition write_i64 :: "byte_order \<Rightarrow> int \<Rightarrow> byte list" where
  "write_i64 order i = ordered_bytes order (le_bytes 8 (unat (word_of_int i :: 64 word)))"

definition dimension :: "nat option \<Rightarrow> nat batch_result" where
  "dimension x = ok_or DimensionOverflow x"

definition read_slice :: "byte list \<Rightarrow> nat \<Rightarrow> nat \<Rightarrow> byte list batch_result" where
  "read_slice bs from n = ok_or Panicked (slice_opt bs from (from + n))"

definition detect_order :: "byte list \<Rightarrow> int \<Rightarrow> byte_order batch_result" where
  "detect_order header expected =
    (case (read_i32 header LittleEndian = expected, read_i32 header BigEndian = expected) of
       (True, False) \<Rightarrow> Ok LittleEndian
     | (False, True) \<Rightarrow> Ok BigEndian
     | _ \<Rightarrow> Err InvalidByteOrder)"

definition check_header :: "byte list \<Rightarrow> nat \<Rightarrow> int \<Rightarrow> byte_order \<Rightarrow> nat \<Rightarrow> unit batch_result" where
  "check_header payload record_bytes expected order case_index =
    rbind (dimension (u64_checked_mul case_index record_bytes)) (\<lambda>offset.
    rbind (read_slice payload offset 4) (\<lambda>header.
    ensure (read_i32 header order = expected) InvalidTimestampHeader))"

definition batch_decode :: "string list \<Rightarrow> int \<Rightarrow> int \<Rightarrow> byte list \<Rightarrow> byte list \<Rightarrow> event_batch batch_result" where
  "batch_decode activity_path activity_count_i32 case_count_i32 case_id_payload timestamp_payload =
    rbind (ensure (0 < activity_count_i32) EmptyActivityPath) (\<lambda>_.
    rbind (ensure (0 < case_count_i32) EmptyCaseBatch) (\<lambda>_.
    let activity_count = nat activity_count_i32; case_count = nat case_count_i32 in
    rbind (ensure (length activity_path = activity_count) ActivityCountMismatch) (\<lambda>_.
    rbind (dimension (u64_checked_mul case_count 8)) (\<lambda>expected_case_bytes.
    rbind (ensure (length case_id_payload = expected_case_bytes) InvalidCaseIdPayload) (\<lambda>_.
    rbind (dimension (u64_checked_mul activity_count 8)) (\<lambda>vector_bytes.
    rbind (dimension (u64_checked_add 4 vector_bytes)) (\<lambda>record_bytes.
    rbind (dimension (u64_checked_mul case_count record_bytes)) (\<lambda>expected_timestamp_bytes.
    rbind (ensure (length timestamp_payload = expected_timestamp_bytes) InvalidTimestampPayload) (\<lambda>_.
    rbind (read_slice timestamp_payload 0 4) (\<lambda>header.
    rbind (detect_order header (int activity_count)) (\<lambda>order.
    rbind (try_fold (\<lambda>_. check_header timestamp_payload record_bytes (int activity_count) order) ()
      [0..<case_count]) (\<lambda>_.
    Ok \<lparr>eb_activity_path = activity_path, eb_case_count = case_count,
        eb_case_id_payload = case_id_payload, eb_timestamp_payload = timestamp_payload,
        eb_byte_order = order\<rparr>))))))))))))"

definition activity_count :: "event_batch \<Rightarrow> nat" where
  "activity_count b = length (eb_activity_path b)"

definition event_count :: "event_batch \<Rightarrow> nat" where
  "event_count b = eb_case_count b * activity_count b"

definition payload_bytes :: "event_batch \<Rightarrow> nat" where
  "payload_bytes b = length (eb_case_id_payload b) + length (eb_timestamp_payload b)"

record event_case =
  ec_case_id :: int
  ec_timestamps :: "byte list"
  ec_activity_count :: nat
  ec_byte_order :: byte_order

definition batch_case :: "event_batch \<Rightarrow> nat \<Rightarrow> event_case option batch_result" where
  "batch_case b index =
    (if eb_case_count b \<le> index then Ok None
     else
       let case_offset = index * 8;
         timestamp_record_bytes = 4 + activity_count b * 8;
         timestamp_offset = index * timestamp_record_bytes + 4 in
       rbind (read_slice (eb_case_id_payload b) case_offset 8) (\<lambda>id_bytes.
       rbind (read_slice (eb_timestamp_payload b) timestamp_offset (activity_count b * 8)) (\<lambda>timestamps.
       Ok (Some \<lparr>ec_case_id = read_i64 id_bytes (eb_byte_order b), ec_timestamps = timestamps,
         ec_activity_count = activity_count b, ec_byte_order = eb_byte_order b\<rparr>))))"

definition timestamp_micros :: "event_case \<Rightarrow> nat \<Rightarrow> int option batch_result" where
  "timestamp_micros c i =
    (if ec_activity_count c \<le> i then Ok None
     else rbind (read_slice (ec_timestamps c) (i * 8) 8) (\<lambda>bytes. Ok (Some (read_i64 bytes (ec_byte_order c)))))"

text \<open>\<open>EventCases::next\<close> over the index, and a loop over the iterator.\<close>

definition cases_next :: "event_batch \<Rightarrow> nat \<Rightarrow> (event_case option \<times> nat) batch_result" where
  "cases_next b index = rbind (batch_case b index) (\<lambda>result.
     Ok (result, index + (if result \<noteq> None then 1 else 0)))"

fun cases_fold :: "nat \<Rightarrow> event_batch \<Rightarrow> nat \<Rightarrow> ('s \<Rightarrow> event_case \<Rightarrow> 's batch_result) \<Rightarrow> 's \<Rightarrow> 's batch_result" where
  "cases_fold 0 b index f s = Err Panicked"
| "cases_fold (Suc fuel) b index f s = rbind (cases_next b index) (\<lambda>(item, index').
     case item of None \<Rightarrow> Ok s
     | Some c \<Rightarrow> rbind (f s c) (cases_fold fuel b index' f))"

section \<open>The summary builder\<close>

record activity_accumulator =
  case_frequency :: nat
  occurrence_frequency :: nat
  start_frequency :: nat
  end_frequency :: nat

definition accumulator_default :: activity_accumulator where
  "accumulator_default = \<lparr>case_frequency = 0, occurrence_frequency = 0, start_frequency = 0, end_frequency = 0\<rparr>"

record summary_builder =
  sb_case_count :: nat
  sb_event_count :: nat
  sb_payload_bytes :: nat
  sb_variants :: "(string list, nat) btree_map"
  sb_dfg :: "(string \<times> string, nat \<times> int) btree_map"
  sb_activities :: "(string, activity_accumulator) btree_map"

definition builder_new :: summary_builder where
  "builder_new = \<lparr>sb_case_count = 0, sb_event_count = 0, sb_payload_bytes = 0, sb_variants = [],
     sb_dfg = [], sb_activities = []\<rparr>"

definition checked_add :: "nat \<Rightarrow> nat \<Rightarrow> nat batch_result" where
  "checked_add target n = ok_or CountOverflow (u64_checked_add target n)"

definition checked_duration_add :: "int \<Rightarrow> int \<Rightarrow> int batch_result" where
  "checked_duration_add target n = ok_or DurationOverflow (i128_checked_add target n)"

text \<open>A fallible update through \<open>entry(k).or_default()\<close>.\<close>

definition bt_try_update :: "'k::linorder \<Rightarrow> 'v \<Rightarrow> ('v \<Rightarrow> 'e + 'v) \<Rightarrow> ('k, 'v) btree_map
    \<Rightarrow> 'e + ('k, 'v) btree_map" where
  "bt_try_update k d f m = rbind (f (case bt_get m k of None \<Rightarrow> d | Some v \<Rightarrow> v)) (\<lambda>v. Ok (bt_insert k v m))"

definition checked_map_add :: "('k::linorder, nat) btree_map \<Rightarrow> 'k \<Rightarrow> nat \<Rightarrow> ('k, nat) btree_map batch_result" where
  "checked_map_add m k n = bt_try_update k 0 (\<lambda>v. checked_add v n) m"

definition add_occurrence :: "nat \<Rightarrow> activity_accumulator \<Rightarrow> activity_accumulator batch_result" where
  "add_occurrence n a = rbind (checked_add (occurrence_frequency a) n) (\<lambda>v. Ok (a\<lparr>occurrence_frequency := v\<rparr>))"

definition add_case :: "nat \<Rightarrow> activity_accumulator \<Rightarrow> activity_accumulator batch_result" where
  "add_case n a = rbind (checked_add (case_frequency a) n) (\<lambda>v. Ok (a\<lparr>case_frequency := v\<rparr>))"

definition add_start :: "nat \<Rightarrow> activity_accumulator \<Rightarrow> activity_accumulator batch_result" where
  "add_start n a = rbind (checked_add (start_frequency a) n) (\<lambda>v. Ok (a\<lparr>start_frequency := v\<rparr>))"

definition add_end :: "nat \<Rightarrow> activity_accumulator \<Rightarrow> activity_accumulator batch_result" where
  "add_end n a = rbind (checked_add (end_frequency a) n) (\<lambda>v. Ok (a\<lparr>end_frequency := v\<rparr>))"

text \<open>The activity loop, with the set of the activities seen.\<close>

definition count_activity :: "nat \<Rightarrow> string set \<times> (string, activity_accumulator) btree_map \<Rightarrow> string
    \<Rightarrow> (string set \<times> (string, activity_accumulator) btree_map) batch_result" where
  "count_activity n = (\<lambda>(seen, m) activity.
     rbind (bt_try_update activity accumulator_default (\<lambda>a. rbind (add_occurrence n a) (\<lambda>a.
       if activity \<in> seen then Ok a else add_case n a)) m) (\<lambda>m.
     Ok (insert activity seen, m)))"

definition batch_edge :: "event_batch \<Rightarrow> nat \<Rightarrow> nat \<times> int \<Rightarrow> event_case \<Rightarrow> (nat \<times> int) batch_result" where
  "batch_edge b edge_index = (\<lambda>(freq, duration) c.
     rbind (timestamp_micros c edge_index) (\<lambda>s.
     rbind (ok_or Panicked s) (\<lambda>source.
     rbind (timestamp_micros c (edge_index + 1)) (\<lambda>t.
     rbind (ok_or Panicked t) (\<lambda>target.
     rbind (checked_duration_add duration (target - source)) (\<lambda>d. Ok (freq, d)))))))"

definition count_edge :: "nat \<Rightarrow> event_batch \<Rightarrow> (string \<times> string, nat \<times> int) btree_map
    \<Rightarrow> nat \<times> string \<times> string \<Rightarrow> (string \<times> string, nat \<times> int) btree_map batch_result" where
  "count_edge n b m = (\<lambda>(edge_index, pair).
     bt_try_update pair (0, 0) (\<lambda>(freq, duration).
       rbind (checked_add freq n) (\<lambda>freq.
       cases_fold (Suc (eb_case_count b)) b 0 (batch_edge b edge_index) (freq, duration))) m)"

definition count_end :: "(nat \<Rightarrow> activity_accumulator \<Rightarrow> activity_accumulator batch_result) \<Rightarrow> nat
    \<Rightarrow> string option \<Rightarrow> (string, activity_accumulator) btree_map
    \<Rightarrow> (string, activity_accumulator) btree_map batch_result" where
  "count_end add n end_activity m = (case end_activity of None \<Rightarrow> Ok m
     | Some activity \<Rightarrow> bt_try_update activity accumulator_default (add n) m)"

definition first_opt :: "'a list \<Rightarrow> 'a option" where
  "first_opt xs = (case xs of [] \<Rightarrow> None | x # _ \<Rightarrow> Some x)"

definition last_opt :: "'a list \<Rightarrow> 'a option" where
  "last_opt xs = (if xs = [] then None else Some (last xs))"

definition push_batch :: "summary_builder \<Rightarrow> event_batch \<Rightarrow> summary_builder batch_result" where
  "push_batch s b =
    (let n = eb_case_count b; path = eb_activity_path b in
    rbind (checked_add (sb_case_count s) n) (\<lambda>case_count'.
    rbind (checked_add (sb_event_count s) (event_count b)) (\<lambda>event_count'.
    rbind (checked_add (sb_payload_bytes s) (payload_bytes b)) (\<lambda>payload_bytes'.
    rbind (checked_map_add (sb_variants s) path n) (\<lambda>variants'.
    rbind (try_fold (count_activity n) ({}, sb_activities s) path) (\<lambda>(seen, activities).
    rbind (count_end add_start n (first_opt path) activities) (\<lambda>activities.
    rbind (count_end add_end n (last_opt path) activities) (\<lambda>activities.
    rbind (try_fold (count_edge n b) (sb_dfg s) (indexed (windows2 path))) (\<lambda>dfg'.
    Ok \<lparr>sb_case_count = case_count', sb_event_count = event_count', sb_payload_bytes = payload_bytes',
        sb_variants = variants', sb_dfg = dfg', sb_activities = activities\<rparr>)))))))))"

definition case_edge :: "int list \<Rightarrow> (string \<times> string, nat \<times> int) btree_map
    \<Rightarrow> nat \<times> string \<times> string \<Rightarrow> (string \<times> string, nat \<times> int) btree_map batch_result" where
  "case_edge ts m = (\<lambda>(edge_index, pair).
     bt_try_update pair (0, 0) (\<lambda>(freq, duration).
       rbind (checked_add freq 1) (\<lambda>freq.
       rbind (ok_or Panicked (nth_opt ts (edge_index + 1))) (\<lambda>target.
       rbind (ok_or Panicked (nth_opt ts edge_index)) (\<lambda>source.
       rbind (checked_duration_add duration (target - source)) (\<lambda>d. Ok (freq, d)))))) m)"

definition push_case :: "summary_builder \<Rightarrow> string list \<Rightarrow> int list \<Rightarrow> summary_builder batch_result" where
  "push_case s path ts =
    rbind (ensure (path \<noteq> []) EmptyActivityPath) (\<lambda>_.
    rbind (ensure (length path = length ts) ActivityCountMismatch) (\<lambda>_.
    rbind (checked_add (sb_case_count s) 1) (\<lambda>case_count'.
    rbind (checked_add (sb_event_count s) (length path)) (\<lambda>event_count'.
    rbind (checked_map_add (sb_variants s) path 1) (\<lambda>variants'.
    rbind (try_fold (count_activity 1) ({}, sb_activities s) path) (\<lambda>(seen, activities).
    rbind (count_end add_start 1 (nth_opt path 0) activities) (\<lambda>activities.
    rbind (count_end add_end 1 (nth_opt path (length path - 1)) activities) (\<lambda>activities.
    rbind (try_fold (case_edge ts) (sb_dfg s) (indexed (windows2 path))) (\<lambda>dfg'.
    Ok \<lparr>sb_case_count = case_count', sb_event_count = event_count', sb_payload_bytes = sb_payload_bytes s,
        sb_variants = variants', sb_dfg = dfg', sb_activities = activities\<rparr>)))))))))"

section \<open>The summary\<close>

record event_variant_count =
  evc_activity_path :: "string list"
  evc_frequency :: nat

record event_dfg_edge =
  ede_source :: string
  ede_target :: string
  ede_frequency :: nat
  ede_mean_duration_seconds :: f64

record event_activity_count =
  eac_activity :: string
  eac_case_frequency :: nat
  eac_occurrence_frequency :: nat
  eac_start_frequency :: nat
  eac_end_frequency :: nat

record event_log_summary =
  els_case_count :: nat
  els_event_count :: nat
  els_payload_bytes :: nat
  els_variants :: "event_variant_count list"
  els_dfg :: "event_dfg_edge list"
  els_activities :: "event_activity_count list"

definition builder_finish :: "summary_builder \<Rightarrow> event_log_summary" where
  "builder_finish s =
    \<lparr>els_case_count = sb_case_count s, els_event_count = sb_event_count s,
     els_payload_bytes = sb_payload_bytes s,
     els_variants = map (\<lambda>(path, n). \<lparr>evc_activity_path = path, evc_frequency = n\<rparr>) (sb_variants s),
     els_dfg = map (\<lambda>((source, target), (n, duration)).
       \<lparr>ede_source = source, ede_target = target, ede_frequency = n,
        ede_mean_duration_seconds =
          f64_div (f64_div (f64_of_int duration) (f64_of_nat n)) (F_fin 1000000)\<rparr>) (sb_dfg s),
     els_activities = map (\<lambda>(activity, a).
       \<lparr>eac_activity = activity, eac_case_frequency = case_frequency a,
        eac_occurrence_frequency = occurrence_frequency a, eac_start_frequency = start_frequency a,
        eac_end_frequency = end_frequency a\<rparr>) (sb_activities s)\<rparr>"

definition summarize_event_batches :: "event_batch list \<Rightarrow> event_log_summary batch_result" where
  "summarize_event_batches batches =
    rbind (try_fold push_batch builder_new batches) (\<lambda>s. Ok (builder_finish s))"

section \<open>Integers in byte order\<close>

lemma length_le_bytes [simp]: "length (le_bytes k n) = k"
  by (induction k arbitrary: n) simp_all

lemma le_nat_le_bytes: "le_nat (le_bytes k n) = n mod 256 ^ k"
proof (induction k arbitrary: n)
  case (Suc k)
  have "unat (of_nat (n mod 256) :: byte) = n mod 256"
    by (simp add: unat_of_nat)
  then show ?case
    using Suc [of "n div 256"] by (simp add: mod_mult2_eq [of n 256 "256 ^ k"])
qed simp

lemma le_bytes_le_nat: "le_bytes (length bs) (le_nat bs) = bs"
proof (induction bs)
  case (Cons b bs)
  have b: "unat b < 256" using unsigned_less [of b, where 'a = nat] by simp
  then have "(unat b + 256 * le_nat bs) mod 256 = unat b" "(unat b + 256 * le_nat bs) div 256 = le_nat bs"
    by simp_all
  then show ?case using Cons by simp
qed simp

lemma le_nat_bound: "le_nat bs < 256 ^ length bs"
proof (induction bs)
  case (Cons b bs)
  have "unat b \<le> 255" using unsigned_less [of b, where 'a = nat] by simp
  with Cons show ?case by simp
qed simp

lemma ordered_bytes_twice [simp]: "ordered_bytes order (ordered_bytes order bs) = bs"
  by (cases order) (simp_all add: ordered_bytes_def)

lemma length_ordered_bytes [simp]: "length (ordered_bytes order bs) = length bs"
  by (cases order) (simp_all add: ordered_bytes_def)

definition in_i32 :: "int \<Rightarrow> bool" where
  "in_i32 i \<longleftrightarrow> - (2 ^ 31) \<le> i \<and> i < 2 ^ 31"

lemma length_write [simp]: "length (write_i32 order i) = 4" "length (write_i64 order i) = 8"
  by (simp_all add: write_i32_def write_i64_def)

lemma read_write_i32: "in_i32 i \<Longrightarrow> read_i32 (write_i32 order i) order = i"
proof -
  assume i: "in_i32 i"
  have "unat (word_of_int i :: 32 word) < 256 ^ 4"
    using unsigned_less [of "word_of_int i :: 32 word", where 'a = nat] by simp
  then have "le_nat (le_bytes 4 (unat (word_of_int i :: 32 word))) = unat (word_of_int i :: 32 word)"
    by (simp add: le_nat_le_bytes)
  then have "read_i32 (write_i32 order i) order = sint (word_of_int i :: 32 word)"
    by (simp add: read_i32_def write_i32_def)
  then show ?thesis
    using i by (simp add: in_i32_def signed_take_bit_int_eq_self sint_sbintrunc')
qed

lemma read_write_i64: "in_i64 i \<Longrightarrow> read_i64 (write_i64 order i) order = i"
proof -
  assume i: "in_i64 i"
  have "unat (word_of_int i :: 64 word) < 256 ^ 8"
    using unsigned_less [of "word_of_int i :: 64 word", where 'a = nat] by simp
  then have "le_nat (le_bytes 8 (unat (word_of_int i :: 64 word))) = unat (word_of_int i :: 64 word)"
    by (simp add: le_nat_le_bytes)
  then have "read_i64 (write_i64 order i) order = sint (word_of_int i :: 64 word)"
    by (simp add: read_i64_def write_i64_def)
  then show ?thesis
    using i by (simp add: in_i64_def i64_min_def i64_max_def signed_take_bit_int_eq_self sint_sbintrunc')
qed

lemma read_i32_eq_nat:
  assumes "length bs = 4" and "n < 2 ^ 31" and "read_i32 bs order = int n"
  shows "le_nat (ordered_bytes order bs) = n"
proof -
  let ?v = "le_nat (ordered_bytes order bs)"
  have v: "?v < 2 ^ 32" using le_nat_bound [of "ordered_bytes order bs"] assms(1) by simp
  have "word_of_int (sint (of_nat ?v :: 32 word)) = (word_of_int (int n) :: 32 word)"
    using assms(3) by (simp only: read_i32_def)
  then have "(of_nat ?v :: 32 word) = of_nat n" by simp
  then have "unat (of_nat ?v :: 32 word) = unat (of_nat n :: 32 word)" by simp
  then show ?thesis using v assms(2) by (simp add: unat_of_nat)
qed

text \<open>Below 65792 no positive count reads the same in both orders.\<close>

lemma le_bytes_4:
  "le_bytes 4 n = [of_nat (n mod 256), of_nat (n div 256 mod 256), of_nat (n div 256 div 256 mod 256),
     of_nat (n div 256 div 256 div 256 mod 256)]"
proof -
  have four: "(4::nat) = Suc (Suc (Suc (Suc 0)))" by simp
  show ?thesis unfolding four le_bytes.simps ..
qed

lemma palindrome_free:
  fixes n :: nat
  assumes "0 < n" and "n < 65792" and "bs = le_bytes 4 n"
  shows "le_nat (rev bs) \<noteq> n"
proof
  assume "le_nat (rev bs) = n"
  then have "rev bs = bs" using le_bytes_le_nat [of "rev bs"] assms(3) by simp
  then have e: "of_nat (n mod 256) = (of_nat (n div 256 div 256 div 256 mod 256) :: byte)"
    "of_nat (n div 256 mod 256) = (of_nat (n div 256 div 256 mod 256) :: byte)"
    unfolding assms(3) le_bytes_4 rev.simps append.simps list.inject by blast+
  have byte: "a mod 256 = b mod 256" if "of_nat (a mod 256) = (of_nat (b mod 256) :: byte)" for a b :: nat
  proof -
    have "unat (of_nat (a mod 256) :: byte) = unat (of_nat (b mod 256) :: byte)" by (simp only: that)
    then show ?thesis by (simp add: unat_of_nat)
  qed
  have d: "n mod 256 = n div 256 div 256 div 256 mod 256" "n div 256 mod 256 = n div 256 div 256 mod 256"
    by (rule byte [OF e(1)], rule byte [OF e(2)])
  define q where "q = n div 256"
  have "n div 256 div 256 div 256 = 0" using assms(2) by simp
  then have n: "n = 256 * q" using d(1) mult_div_mod_eq [of 256 n] by (simp add: q_def)
  then have q: "0 < q" "q < 257" "q mod 256 = q div 256 mod 256" using assms(1,2) d(2) by (simp_all add: q_def)
  show False
  proof (cases "q < 256")
    case False
    then have "q = 256" using q(2) by simp
    then show False using q(3) by simp
  qed (use q in simp)
qed

lemma detect_order_write:
  assumes "0 < n" and "n < 65792"
  shows "detect_order (write_i32 order (int n)) (int n) = Ok order"
proof -
  have same: "read_i32 (write_i32 order (int n)) order = int n"
    using assms by (intro read_write_i32) (simp add: in_i32_def)
  have w: "unat (word_of_int (int n) :: 32 word) = n"
    using assms(2) by (simp add: unat_of_nat)
  have other: "read_i32 (write_i32 order (int n)) order' \<noteq> int n" if "order' \<noteq> order" for order'
  proof
    assume "read_i32 (write_i32 order (int n)) order' = int n"
    then have "le_nat (ordered_bytes order' (write_i32 order (int n))) = n"
      using assms(2) by (intro read_i32_eq_nat) simp_all
    moreover have "ordered_bytes order' (write_i32 order (int n)) = rev (le_bytes 4 n)"
      using that w by (cases order; cases order') (simp_all add: ordered_bytes_def write_i32_def)
    ultimately show False using palindrome_free [OF assms refl] by simp
  qed
  show ?thesis
    using same other [of LittleEndian] other [of BigEndian] by (cases order) (simp_all add: detect_order_def)
qed

section \<open>Decoded batches\<close>

definition record_bytes :: "event_batch \<Rightarrow> nat" where
  "record_bytes b = 4 + activity_count b * 8"

definition wf_batch :: "event_batch \<Rightarrow> bool" where
  "wf_batch b \<longleftrightarrow> 0 < eb_case_count b \<and> eb_activity_path b \<noteq> [] \<and>
     length (eb_case_id_payload b) = eb_case_count b * 8 \<and>
     length (eb_timestamp_payload b) = eb_case_count b * record_bytes b"

lemma read_slice_in: "from + n \<le> length bs \<Longrightarrow> read_slice bs from n = Ok (take n (drop from bs))"
  by (simp add: read_slice_def)

lemma batch_decode_wf: "batch_decode path ac cc ids ts = Ok b \<Longrightarrow> wf_batch b"
  by (auto simp: batch_decode_def Let_def result_simps dimension_def wf_batch_def record_bytes_def
      activity_count_def)

definition case_at :: "event_batch \<Rightarrow> nat \<Rightarrow> event_case" where
  "case_at b i =
    \<lparr>ec_case_id = read_i64 (take 8 (drop (i * 8) (eb_case_id_payload b))) (eb_byte_order b),
     ec_timestamps = take (activity_count b * 8) (drop (i * record_bytes b + 4) (eb_timestamp_payload b)),
     ec_activity_count = activity_count b, ec_byte_order = eb_byte_order b\<rparr>"

definition stamp :: "event_batch \<Rightarrow> nat \<Rightarrow> nat \<Rightarrow> int" where
  "stamp b i j = read_i64 (take 8 (drop (i * record_bytes b + 4 + j * 8) (eb_timestamp_payload b))) (eb_byte_order b)"

lemma record_fits:
  assumes "wf_batch b" and "i < eb_case_count b"
  shows "i * 8 + 8 \<le> length (eb_case_id_payload b)"
    and "i * record_bytes b + record_bytes b \<le> length (eb_timestamp_payload b)"
proof -
  have "Suc i * 8 \<le> eb_case_count b * 8" using assms(2) by simp
  then show "i * 8 + 8 \<le> length (eb_case_id_payload b)" using assms(1) by (simp add: wf_batch_def)
  have "Suc i * record_bytes b \<le> eb_case_count b * record_bytes b" using assms(2) by (intro mult_le_mono1) simp
  then show "i * record_bytes b + record_bytes b \<le> length (eb_timestamp_payload b)"
    using assms(1) by (simp add: wf_batch_def)
qed

lemma batch_case_in:
  "wf_batch b \<Longrightarrow> i < eb_case_count b \<Longrightarrow> batch_case b i = Ok (Some (case_at b i))"
  using record_fits [of b i]
  by (simp add: batch_case_def Let_def read_slice_in case_at_def record_bytes_def)

lemma batch_case_out: "eb_case_count b \<le> i \<Longrightarrow> batch_case b i = Ok None"
  by (simp add: batch_case_def)

lemma timestamp_micros_at:
  assumes "wf_batch b" and "i < eb_case_count b" and "j < activity_count b"
  shows "timestamp_micros (case_at b i) j = Ok (Some (stamp b i j))"
proof -
  have j: "Suc j * 8 \<le> activity_count b * 8" using assms(3) by (intro mult_le_mono1) simp
  have fits: "i * record_bytes b + 4 + activity_count b * 8 \<le> length (eb_timestamp_payload b)"
    using record_fits(2) [OF assms(1,2)] by (simp add: record_bytes_def)
  have "drop (j * 8) (take (activity_count b * 8) xs) = take (activity_count b * 8 - j * 8) (drop (j * 8) xs)"
    for xs :: "byte list" by (simp add: drop_take)
  moreover have "min 8 (activity_count b * 8 - j * 8) = 8" using j by simp
  ultimately show ?thesis
    using j fits assms(3)
    by (simp add: timestamp_micros_def case_at_def read_slice_in stamp_def add.commute add.left_commute)
qed

lemma timestamp_micros_out: "activity_count b \<le> j \<Longrightarrow> timestamp_micros (case_at b i) j = Ok None"
  by (simp add: timestamp_micros_def case_at_def)

text \<open>A loop over the iterator is a loop over the cases in order.\<close>

lemma cases_fold_from:
  "wf_batch b \<Longrightarrow> i \<le> eb_case_count b \<Longrightarrow>
     cases_fold (Suc (eb_case_count b - i)) b i f s = try_fold f s (map (case_at b) [i..<eb_case_count b])"
proof (induction "eb_case_count b - i" arbitrary: i s)
  case 0
  then show ?case by (simp add: cases_next_def batch_case_out)
next
  case (Suc k)
  then have i: "i < eb_case_count b" "eb_case_count b - i = Suc (eb_case_count b - Suc i)" by simp_all
  have "cases_fold (Suc (eb_case_count b - Suc i)) b (Suc i) f
      = (\<lambda>s'. try_fold f s' (map (case_at b) [Suc i..<eb_case_count b]))"
    by (rule ext, rule Suc.hyps(1)) (use Suc.hyps(2) Suc.prems i in auto)
  then show ?case
    using i Suc.prems(1)
    by (simp add: cases_next_def batch_case_in upt_conv_Cons del: cases_fold.simps
        add: cases_fold.simps(2) [of "Suc _"])
qed

lemma cases_fold_all:
  "wf_batch b \<Longrightarrow> cases_fold (Suc (eb_case_count b)) b 0 f s = try_fold f s (map (case_at b) [0..<eb_case_count b])"
  using cases_fold_from [of b 0 f s] by (simp del: cases_fold.simps)

section \<open>Encoding a batch\<close>

definition enc_record :: "byte_order \<Rightarrow> int list \<Rightarrow> byte list" where
  "enc_record order ts = write_i32 order (int (length ts)) @ concat (map (write_i64 order) ts)"

lemma drop_concat:
  "\<forall>x \<in> set xs. length x = n \<Longrightarrow> i \<le> length xs \<Longrightarrow> drop (i * n) (concat xs) = concat (drop i xs)"
proof (induction xs arbitrary: i)
  case (Cons x xs)
  then show ?case by (cases i) auto
qed simp

lemma take_drop_concat:
  assumes "\<forall>x \<in> set xs. length x = n" and "i < length xs"
  shows "take n (drop (i * n) (concat xs)) = xs ! i"
proof -
  have "drop (i * n) (concat xs) = xs ! i @ concat (drop (Suc i) xs)"
    using drop_concat [OF assms(1), of i] assms(2) Cons_nth_drop_Suc [OF assms(2)]
    by (metis concat.simps(2) less_imp_le_nat)
  then show ?thesis using assms by simp
qed

lemma length_concat_const: "\<forall>x \<in> set xs. length x = n \<Longrightarrow> length (concat xs) = length xs * n"
  by (induction xs) auto

lemma length_enc_record: "length (enc_record order ts) = 4 + length ts * 8"
  by (simp add: enc_record_def length_concat_const [where n = 8])

lemma batch_roundtrip_aux:
  assumes path: "path \<noteq> []" "length path < 65792"
    and cases: "tss \<noteq> []" "length ids = length tss" "length tss < 2 ^ 31"
    and ts: "\<forall>ts \<in> set tss. length ts = length path"
  shows "batch_decode path (int (length path)) (int (length tss)) (concat (map (write_i64 order) ids))
      (concat (map (enc_record order) tss)) =
    Ok \<lparr>eb_activity_path = path, eb_case_count = length tss, eb_case_id_payload = concat (map (write_i64 order) ids),
        eb_timestamp_payload = concat (map (enc_record order) tss), eb_byte_order = order\<rparr>"
proof -
  let ?n = "length path" and ?r = "4 + length path * 8" and ?bytes = "concat (map (enc_record order) tss)"
  have rec: "\<forall>x \<in> set (map (enc_record order) tss). length x = ?r"
    using ts by (auto simp: length_enc_record)
  have len: "length ?bytes = length tss * ?r" using length_concat_const [OF rec] by simp
  have small: "length tss * 8 \<le> u64_max" "?r \<le> u64_max" "?n * 8 \<le> u64_max"
    using path cases by (simp_all add: u64_max_def)
  have total: "length tss * ?r \<le> u64_max"
  proof -
    have "length tss * ?r \<le> 2 ^ 31 * 2 ^ 20" by (rule mult_le_mono) (use path cases in simp_all)
    then show ?thesis by (simp add: u64_max_def)
  qed
  have header: "take 4 (drop (i * ?r) ?bytes) = write_i32 order (int ?n)" and
    fits: "i * ?r + 4 \<le> length ?bytes" if "i < length tss" for i
  proof -
    have "take ?r (drop (i * ?r) ?bytes) = enc_record order (tss ! i)"
      using take_drop_concat [OF rec] that by simp
    then have "take 4 (take ?r (drop (i * ?r) ?bytes)) = write_i32 order (int ?n)"
      using ts that by (simp add: enc_record_def)
    then show "take 4 (drop (i * ?r) ?bytes) = write_i32 order (int ?n)" by (simp add: min_def)
    have "Suc i * ?r \<le> length tss * ?r" using that by (intro mult_le_mono1) simp
    then show "i * ?r + 4 \<le> length ?bytes" unfolding len by simp
  qed
  have check: "check_header ?bytes ?r (int ?n) order i = Ok ()" if "i < length tss" for i
  proof -
    have "i * ?r \<le> u64_max" using fits [OF that] total len by linarith
    then show ?thesis
      using header [OF that] fits [OF that] path(2)
      by (simp add: check_header_def dimension_def u64_checked_mul_def read_slice_in read_write_i32 in_i32_def)
  qed
  have loop: "try_fold (\<lambda>_. check_header ?bytes ?r (int ?n) order) () is = Ok ()"
    if "\<forall>i \<in> set is. i < length tss" for "is"
    using that by (induction "is") (simp_all add: check)
  have "read_slice ?bytes 0 4 = Ok (write_i32 order (int ?n))"
    using header [of 0] fits [of 0] cases(1) by (simp add: read_slice_in)
  moreover have "detect_order (write_i32 order (int ?n)) (int ?n) = Ok order"
    using path by (intro detect_order_write) simp_all
  ultimately show ?thesis
    using path(1) cases len small total loop [of "[0..<length tss]"]
    by (simp add: batch_decode_def dimension_def u64_checked_mul_def u64_checked_add_def
        length_concat_const [where n = 8])
qed

lemma batch_encoded_values:
  assumes path: "path \<noteq> []" and cases: "tss \<noteq> []" "length ids = length tss"
    and ts: "\<forall>ts \<in> set tss. length ts = length path \<and> list_all in_i64 ts" and ids: "list_all in_i64 ids"
    and b: "b = \<lparr>eb_activity_path = path, eb_case_count = length tss, eb_case_id_payload = concat (map (write_i64 order) ids),
        eb_timestamp_payload = concat (map (enc_record order) tss), eb_byte_order = order\<rparr>"
  shows "wf_batch b" and "i < length tss \<Longrightarrow> ec_case_id (case_at b i) = ids ! i"
    and "i < length tss \<Longrightarrow> j < length path \<Longrightarrow> stamp b i j = tss ! i ! j"
proof -
  let ?r = "4 + length path * 8" and ?bytes = "concat (map (enc_record order) tss)"
  have rec: "\<forall>x \<in> set (map (enc_record order) tss). length x = ?r"
    using ts by (auto simp: length_enc_record)
  have r: "record_bytes b = ?r" by (simp add: b record_bytes_def activity_count_def)
  show "wf_batch b"
    using path cases length_concat_const [OF rec] r
    by (simp add: wf_batch_def length_concat_const [where n = 8]) (simp add: b length_concat_const [where n = 8])
  show "ec_case_id (case_at b i) = ids ! i" if i: "i < length tss"
  proof -
    have "take 8 (drop (i * 8) (concat (map (write_i64 order) ids))) = write_i64 order (ids ! i)"
      using take_drop_concat [of "map (write_i64 order) ids" 8 i] cases i by simp
    then show ?thesis using ids i cases by (simp add: case_at_def b read_write_i64 list_all_length)
  qed
  show "stamp b i j = tss ! i ! j" if i: "i < length tss" and j: "j < length path"
  proof -
    have l: "length (tss ! i) = length path" "in_i64 (tss ! i ! j)"
      using ts i j by (auto simp: list_all_length)
    have rcd: "take ?r (drop (i * ?r) ?bytes) = enc_record order (tss ! i)"
      using take_drop_concat [OF rec] i by simp
    have "Suc j * 8 \<le> length path * 8" using j by (intro mult_le_mono1) simp
    then have "take 8 (drop (i * ?r + 4 + j * 8) ?bytes) = take 8 (drop (4 + j * 8) (take ?r (drop (i * ?r) ?bytes)))"
      by (simp add: drop_take min_def ac_simps)
    also have "\<dots> = take 8 (drop (j * 8) (concat (map (write_i64 order) (tss ! i))))"
      by (simp add: rcd enc_record_def)
    also have "\<dots> = write_i64 order (tss ! i ! j)"
      using take_drop_concat [of "map (write_i64 order) (tss ! i)" 8 j] l j by simp
    finally show ?thesis using l(2) r by (simp add: stamp_def b read_write_i64)
  qed
qed

section \<open>Accumulating maps\<close>

text \<open>
  What the counting loops share: entries hold values of a commutative monoid, every step adds a
  weight to one entry, and the weights may come in any order or be summed first.
\<close>

definition bounded_map :: "('v \<Rightarrow> bool) \<Rightarrow> ('k, 'v) btree_map \<Rightarrow> bool" where
  "bounded_map P m \<longleftrightarrow> (\<forall>k v. bt_get m k = Some v \<longrightarrow> P v)"

locale accumulating = comm_monoid plus zero
  for plus :: "'v \<Rightarrow> 'v \<Rightarrow> 'v" and zero :: 'v +
  fixes fits :: "nat \<Rightarrow> 'v \<Rightarrow> bool"
  assumes fits_zero: "fits n zero"
    and fits_mono: "fits m v \<Longrightarrow> m \<le> n \<Longrightarrow> fits n v"
begin

definition total :: "'v list \<Rightarrow> 'v" where
  "total vs = foldr plus vs zero"

definition bump :: "'k \<Rightarrow> 'v \<Rightarrow> ('k \<Rightarrow> 'v option) \<Rightarrow> 'k \<Rightarrow> 'v option" where
  "bump k d M = M(k \<mapsto> plus (case M k of None \<Rightarrow> zero | Some v \<Rightarrow> v) d)"

definition bumps :: "('k \<times> 'v) list \<Rightarrow> ('k \<Rightarrow> 'v option) \<Rightarrow> 'k \<Rightarrow> 'v option" where
  "bumps L M = fold (\<lambda>(k, d). bump k d) L M"

lemma total_simps: "total [] = zero" "total (v # vs) = plus v (total vs)"
  by (simp_all add: total_def)

lemma bumps_simps: "bumps [] M = M" "bumps ((k, d) # L) M = bumps L (bump k d M)"
  "bumps (L @ L') M = bumps L' (bumps L M)"
  by (simp_all add: bumps_def)

lemma bump_commute: "bump k d (bump k' d' M) = bump k' d' (bump k d M)"
  by (auto simp: bump_def fun_eq_iff assoc commute left_commute split: option.splits)

lemma bumps_mset: "mset L = mset L' \<Longrightarrow> bumps L M = bumps L' M"
proof -
  assume "mset L = mset L'"
  then have "fold (\<lambda>(k, d). bump k d) L = fold (\<lambda>(k, d). bump k d) L'"
    by (intro fold_multiset_equiv) (auto simp: fun_eq_iff bump_commute [THEN fun_cong])
  then show ?thesis by (simp add: bumps_def)
qed

lemma bumps_same: "cs \<noteq> [] \<Longrightarrow> bumps (map (\<lambda>c. (k, w c)) cs) M = bump k (total (map w cs)) M"
proof (induction cs arbitrary: M)
  case (Cons c cs)
  have "bump k d (bump k d' M) = bump k (plus d' d) M" for d d'
    by (auto simp: bump_def fun_eq_iff assoc split: option.splits)
  with Cons show ?case
    by (cases "cs = []") (simp_all add: bumps_simps total_def)
qed simp

lemma mset_swap:
  "mset (concat (map (\<lambda>c. map (f c) es) cs)) = mset (concat (map (\<lambda>e. map (\<lambda>c. f c e) cs) es))"
proof (induction cs)
  case Nil
  then show ?case by (induction es) simp_all
next
  case (Cons c cs)
  have "mset (concat (map (\<lambda>e. map (\<lambda>c. f c e) (c # cs)) es))
      = mset (map (f c) es) + mset (concat (map (\<lambda>e. map (\<lambda>c. f c e) cs) es))"
    by (induction es) simp_all
  with Cons show ?case by simp
qed

lemma bumps_swap:
  assumes "cs \<noteq> []"
  shows "bumps (concat (map (\<lambda>c. map (\<lambda>e. (key e, w c e)) es) cs)) M
    = bumps (map (\<lambda>e. (key e, total (map (\<lambda>c. w c e) cs))) es) M"
proof -
  have "bumps (concat (map (\<lambda>c. map (\<lambda>e. (key e, w c e)) es) cs)) M
      = bumps (concat (map (\<lambda>e. map (\<lambda>c. (key e, w c e)) cs) es)) M"
    by (rule bumps_mset) (rule mset_swap)
  also have "\<dots> = bumps (map (\<lambda>e. (key e, total (map (\<lambda>c. w c e) cs))) es) M"
    by (induction es arbitrary: M) (simp_all add: bumps_simps bumps_same [OF assms])
  finally show ?thesis .
qed

text \<open>A checked loop that succeeded, kept the order of the keys, stayed within a bound and added
  the weights \<open>L\<close>.\<close>

definition grown :: "nat \<Rightarrow> ('k::linorder \<times> 'v) list \<Rightarrow> ('k, 'v) btree_map \<Rightarrow> 'e + ('k, 'v) btree_map \<Rightarrow> bool" where
  "grown n L m r \<longleftrightarrow> (\<exists>m'. r = Ok m' \<and> bt_inv m' \<and> bounded_map (fits n) m' \<and> bt_get m' = bumps L (bt_get m))"

lemma grown_refl: "bt_inv m \<Longrightarrow> bounded_map (fits n) m \<Longrightarrow> grown n [] m (Ok m)"
  by (simp add: grown_def bumps_simps)

lemma grown_bind:
  assumes "grown n L m r"
    and "\<And>m'. bt_inv m' \<Longrightarrow> bounded_map (fits n) m' \<Longrightarrow> grown n' L' m' (k m')"
  shows "grown n' (L @ L') m (rbind r k)"
  using assms by (fastforce simp: grown_def bumps_simps)

lemma bounded_mono: "bounded_map (fits m) b \<Longrightarrow> m \<le> n \<Longrightarrow> bounded_map (fits n) b"
  by (auto simp: bounded_map_def intro: fits_mono)

lemma grown_mono: "grown m L b r \<Longrightarrow> m \<le> n \<Longrightarrow> grown n L b r"
  by (auto simp: grown_def intro: bounded_mono)

lemma grown_update:
  assumes "bt_inv m" and "bounded_map (fits n) m" and "n \<le> n'"
    and f: "\<And>v. fits n v \<Longrightarrow> f v = Ok (plus v d) \<and> fits n' (plus v d)"
  shows "grown n' [(k, d)] m (bt_try_update k zero f m)"
proof -
  let ?v = "case bt_get m k of None \<Rightarrow> zero | Some v \<Rightarrow> v"
  have "fits n ?v" using assms(2) by (auto simp: bounded_map_def fits_zero split: option.splits)
  then have v: "f ?v = Ok (plus ?v d)" "fits n' (plus ?v d)" using f by auto
  have "bt_get (bt_insert k (plus ?v d) m) = bumps [(k, d)] (bt_get m)"
    using assms(1) by (simp add: bumps_simps bump_def fun_eq_iff bt_get_insert)
  moreover have "bounded_map (fits n') (bt_insert k (plus ?v d) m)"
    using assms v(2) by (auto simp: bounded_map_def bt_get_insert intro: fits_mono)
  ultimately show ?thesis
    using v(1) assms(1) by (simp add: grown_def bt_try_update_def bt_inv_insert)
qed

text \<open>A loop of such updates, each worth \<open>w\<close>.\<close>

lemma grown_loop:
  fixes key :: "'x \<Rightarrow> 'k::linorder" and m :: "('k, 'v) btree_map"
  assumes step: "\<And>e m n. e \<in> set es \<Longrightarrow> bt_inv m \<Longrightarrow> bounded_map (fits n) m \<Longrightarrow> n + w \<le> limit \<Longrightarrow>
      grown (n + w) [(key e, d e)] m (step m e)"
    and "bt_inv m" and "bounded_map (fits n) m" and "n + length es * w \<le> limit"
  shows "grown (n + length es * w) (map (\<lambda>e. (key e, d e)) es) m (try_fold step m es)"
  using assms
proof (induction es arbitrary: m n)
  case Nil
  then show ?case by (simp add: grown_refl)
next
  case (Cons e es)
  have "grown (n + w) [(key e, d e)] m (step m e)" using Cons.prems by simp
  then have "grown (n + w + length es * w) ([(key e, d e)] @ map (\<lambda>e. (key e, d e)) es) m
      (rbind (step m e) (\<lambda>m'. try_fold step m' es))"
  proof (rule grown_bind)
    fix m' :: "('k, 'v) btree_map"
    assume "bt_inv m'" "bounded_map (fits (n + w)) m'"
    then show "grown (n + w + length es * w) (map (\<lambda>e. (key e, d e)) es) m' (try_fold step m' es)"
      using Cons.prems by (intro Cons.IH) (simp_all add: add.assoc)
  qed
  then show ?case by (simp add: add.assoc)
qed

end

definition acc_plus :: "activity_accumulator \<Rightarrow> activity_accumulator \<Rightarrow> activity_accumulator" where
  "acc_plus a b = \<lparr>case_frequency = case_frequency a + case_frequency b,
     occurrence_frequency = occurrence_frequency a + occurrence_frequency b,
     start_frequency = start_frequency a + start_frequency b, end_frequency = end_frequency a + end_frequency b\<rparr>"

definition acc_fits :: "nat \<Rightarrow> activity_accumulator \<Rightarrow> bool" where
  "acc_fits n a \<longleftrightarrow> case_frequency a \<le> n \<and> occurrence_frequency a \<le> n \<and> start_frequency a \<le> n \<and> end_frequency a \<le> n"

definition acc_scale :: "nat \<Rightarrow> activity_accumulator \<Rightarrow> activity_accumulator" where
  "acc_scale n a = \<lparr>case_frequency = n * case_frequency a, occurrence_frequency = n * occurrence_frequency a,
     start_frequency = n * start_frequency a, end_frequency = n * end_frequency a\<rparr>"

definition dur_plus :: "nat \<times> int \<Rightarrow> nat \<times> int \<Rightarrow> nat \<times> int" where
  "dur_plus x y = (fst x + fst y, snd x + snd y)"

definition dur_fits :: "nat \<Rightarrow> nat \<times> int \<Rightarrow> bool" where
  "dur_fits n x \<longleftrightarrow> fst x \<le> n \<and> \<bar>snd x\<bar> \<le> int n * 2 ^ 64"

interpretation nats: accumulating "(+)" "0 :: nat" "\<lambda>n v. v \<le> n"
  by unfold_locales simp_all

interpretation accs: accumulating acc_plus accumulator_default acc_fits
  by unfold_locales (auto simp: acc_plus_def accumulator_default_def acc_fits_def)

interpretation durs: accumulating dur_plus "(0, 0)" dur_fits
proof unfold_locales
  fix m n and v :: "nat \<times> int"
  assume v: "dur_fits m v" and "m \<le> n"
  then have "int m * 2 ^ 64 \<le> int n * 2 ^ 64" by simp
  with v \<open>m \<le> n\<close> show "dur_fits n v" unfolding dur_fits_def by linarith
qed (auto simp: dur_plus_def dur_fits_def)

section \<open>The counting loops\<close>

lemma checked_add_in: "a + b \<le> u64_max \<Longrightarrow> checked_add a b = Ok (a + b)"
  by (simp add: checked_add_def u64_checked_add_def)

lemma variants_grown:
  "bt_inv m \<Longrightarrow> bounded_map (\<lambda>v. v \<le> N) m \<Longrightarrow> N + n \<le> u64_max \<Longrightarrow>
     nats.grown (N + n) [(path, n)] m (checked_map_add m path n)"
  unfolding checked_map_add_def by (rule nats.grown_update) (auto simp: checked_add_in)

text \<open>What one case of a path adds to the activities: at each position an occurrence, and a case at
  the first one; a start and an end.\<close>

fun occurrence_units :: "string set \<Rightarrow> string list \<Rightarrow> (string \<times> activity_accumulator) list" where
  "occurrence_units seen [] = []"
| "occurrence_units seen (a # path) =
     (a, \<lparr>case_frequency = if a \<in> seen then 0 else 1, occurrence_frequency = 1, start_frequency = 0,
       end_frequency = 0\<rparr>) # occurrence_units (insert a seen) path"

definition activity_units :: "string list \<Rightarrow> (string \<times> activity_accumulator) list" where
  "activity_units path = occurrence_units {} path @
     [(hd path, accumulator_default\<lparr>start_frequency := 1\<rparr>), (last path, accumulator_default\<lparr>end_frequency := 1\<rparr>)]"

definition scaled :: "nat \<Rightarrow> (string \<times> activity_accumulator) list \<Rightarrow> (string \<times> activity_accumulator) list" where
  "scaled n us = map (\<lambda>u. (fst u, acc_scale n (snd u))) us"

lemma occurrences_grown:
  assumes "bt_inv m" and "bounded_map (acc_fits N) m" and "N + length path * n \<le> u64_max"
  shows "accs.grown (N + length path * n) (scaled n (occurrence_units seen path)) m
    (rbind (try_fold (count_activity n) (seen, m) path) (\<lambda>(seen, m). Ok m))"
  using assms
proof (induction path arbitrary: m N seen)
  case Nil
  then show ?case by (simp add: accs.grown_refl scaled_def)
next
  case (Cons a path)
  let ?u = "\<lparr>case_frequency = if a \<in> seen then 0 else n, occurrence_frequency = n, start_frequency = 0, end_frequency = 0\<rparr>"
  have "accs.grown (N + n) [(a, ?u)] m (bt_try_update a accumulator_default (\<lambda>x. rbind (add_occurrence n x) (\<lambda>x.
       if a \<in> seen then Ok x else add_case n x)) m)"
    by (rule accs.grown_update [OF Cons.prems(1,2)])
      (use Cons.prems(3) in \<open>auto simp: acc_fits_def acc_plus_def add_occurrence_def add_case_def checked_add_in\<close>)
  then have "accs.grown (N + n + length path * n) ([(a, ?u)] @ scaled n (occurrence_units (insert a seen) path)) m
      (rbind (bt_try_update a accumulator_default (\<lambda>x. rbind (add_occurrence n x) (\<lambda>x.
       if a \<in> seen then Ok x else add_case n x)) m) (\<lambda>m'.
       rbind (try_fold (count_activity n) (insert a seen, m') path) (\<lambda>(seen, m). Ok m)))"
  proof (rule accs.grown_bind)
    fix m' :: "(string, activity_accumulator) btree_map"
    assume "bt_inv m'" "bounded_map (acc_fits (N + n)) m'"
    then show "accs.grown (N + n + length path * n) (scaled n (occurrence_units (insert a seen) path)) m'
      (rbind (try_fold (count_activity n) (insert a seen, m') path) (\<lambda>(seen, m). Ok m))"
      using Cons.prems by (intro Cons.IH) (simp_all add: add.assoc)
  qed
  moreover have "(a, ?u) # scaled n (occurrence_units (insert a seen) path) = scaled n (occurrence_units seen (a # path))"
    by (simp add: scaled_def acc_scale_def)
  ultimately show ?case
    by (simp add: count_activity_def rbind_assoc add.assoc)
qed

lemma end_grown:
  assumes "bt_inv m" and "bounded_map (acc_fits N) m" and "N + n \<le> u64_max"
    and "add = add_start \<and> u = accumulator_default\<lparr>start_frequency := 1\<rparr> \<or>
         add = add_end \<and> u = accumulator_default\<lparr>end_frequency := 1\<rparr>"
  shows "accs.grown (N + n) [(a, acc_scale n u)] m (count_end add n (Some a) m)"
proof -
  have "add n v = Ok (acc_plus v (acc_scale n u)) \<and> acc_fits (N + n) (acc_plus v (acc_scale n u))"
    if "acc_fits N v" for v
    using assms(3,4) that
    by (auto simp: acc_fits_def acc_plus_def acc_scale_def accumulator_default_def add_start_def add_end_def
        checked_add_in)
  then show ?thesis
    using accs.grown_update [OF assms(1,2), of "N + n" "add n" "acc_scale n u" a] by (simp add: count_end_def)
qed

lemma activities_grown:
  assumes "bt_inv m" and "bounded_map (acc_fits N) m" and "N + (length path + 2) * n \<le> u64_max"
  shows "accs.grown (N + (length path + 2) * n) (scaled n (activity_units path)) m
    (rbind (try_fold (count_activity n) ({}, m) path) (\<lambda>(seen, m).
      rbind (count_end add_start n (Some (hd path)) m) (\<lambda>m. count_end add_end n (Some (last path)) m)))"
proof -
  let ?N = "N + length path * n" and ?s = "accumulator_default\<lparr>start_frequency := 1\<rparr>"
    and ?e = "accumulator_default\<lparr>end_frequency := 1\<rparr>"
  have ends: "accs.grown (?N + n + n) ([(hd path, acc_scale n ?s)] @ [(last path, acc_scale n ?e)]) m'
      (rbind (count_end add_start n (Some (hd path)) m') (\<lambda>m. count_end add_end n (Some (last path)) m))"
    if "bt_inv m'" "bounded_map (acc_fits ?N) m'" for m'
    by (rule accs.grown_bind, rule end_grown [OF that], use assms(3) in simp, simp)
      (rule end_grown; use assms(3) in simp)
  have "accs.grown (?N + n + n) (scaled n (occurrence_units {} path) @ [(hd path, acc_scale n ?s)] @ [(last path, acc_scale n ?e)]) m
    (rbind (rbind (try_fold (count_activity n) ({}, m) path) (\<lambda>(seen, m). Ok m)) (\<lambda>m.
      rbind (count_end add_start n (Some (hd path)) m) (\<lambda>m. count_end add_end n (Some (last path)) m)))"
    by (rule accs.grown_bind [OF occurrences_grown [OF assms(1,2)] ends]) (use assms(3) in simp_all)
  moreover have "?N + n + n = N + (length path + 2) * n" by simp
  ultimately show ?thesis
    by (simp add: rbind_assoc activity_units_def scaled_def case_prod_unfold)
qed

lemma read_i64_range: "- (2 ^ 63) \<le> read_i64 bs order" "read_i64 bs order < 2 ^ 63"
  using sint_ge [of "of_nat (le_nat (ordered_bytes order bs)) :: 64 word"]
    sint_lt [of "of_nat (le_nat (ordered_bytes order bs)) :: 64 word"] by (simp_all add: read_i64_def)

lemma in_i64_read: "in_i64 (read_i64 bs order)"
  using read_i64_range [of bs order] by (simp add: in_i64_def i64_min_def i64_max_def)

lemma checked_duration_add_in:
  "\<bar>d\<bar> \<le> 2 ^ 126 \<Longrightarrow> \<bar>x\<bar> \<le> 2 ^ 64 \<Longrightarrow> checked_duration_add d x = Ok (d + x)"
  by (simp add: checked_duration_add_def i128_checked_add_def i128_min_def i128_max_def abs_le_iff)

definition stamp_diff :: "event_batch \<Rightarrow> nat \<Rightarrow> nat \<Rightarrow> int" where
  "stamp_diff b i j = stamp b i (j + 1) - stamp b i j"

lemma stamp_diff_bound: "\<bar>stamp_diff b i j\<bar> \<le> 2 ^ 64"
proof -
  have "- (2 ^ 63) \<le> stamp b i j" "stamp b i j < 2 ^ 63" for i j
    unfolding stamp_def by (rule read_i64_range)+
  from this [of i j] this [of i "j + 1"] show ?thesis by (simp add: stamp_diff_def abs_le_iff)
qed

lemma batch_edge_loop:
  assumes "wf_batch b" and "j + 1 < activity_count b"
  shows "\<forall>i \<in> set cs. i < eb_case_count b \<Longrightarrow> \<bar>d\<bar> + int (length cs) * 2 ^ 64 \<le> 2 ^ 126 \<Longrightarrow>
    try_fold (batch_edge b j) (f, d) (map (case_at b) cs) = Ok (f, d + sum_list (map (\<lambda>i. stamp_diff b i j) cs))"
proof (induction cs arbitrary: d)
  case (Cons i cs)
  let ?x = "stamp_diff b i j"
  have "\<bar>d\<bar> \<le> 2 ^ 126" using Cons.prems(2) by simp
  then have add: "checked_duration_add d ?x = Ok (d + ?x)" by (intro checked_duration_add_in stamp_diff_bound)
  have "batch_edge b j (f, d) (case_at b i) = Ok (f, d + ?x)"
    using assms Cons.prems(1) add by (simp add: batch_edge_def timestamp_micros_at stamp_diff_def)
  moreover have "\<bar>d + ?x\<bar> + int (length cs) * 2 ^ 64 \<le> 2 ^ 126"
    using Cons.prems(2) stamp_diff_bound [of b i j] abs_triangle_ineq [of d ?x] by (simp add: algebra_simps)
  ultimately show ?case using Cons by (simp add: add.assoc)
qed simp

lemma abs_sum_list: "(\<And>x. x \<in> set xs \<Longrightarrow> \<bar>f x\<bar> \<le> (B :: int)) \<Longrightarrow> \<bar>sum_list (map f xs)\<bar> \<le> int (length xs) * B"
proof (induction xs)
  case (Cons x xs)
  then have "\<bar>f x\<bar> \<le> B" "\<bar>sum_list (map f xs)\<bar> \<le> int (length xs) * B" by simp_all
  then show ?case using abs_triangle_ineq [of "f x" "sum_list (map f xs)"] by (simp add: algebra_simps)
qed simp

definition batch_edge_weight :: "event_batch \<Rightarrow> nat \<times> string \<times> string \<Rightarrow> nat \<times> int" where
  "batch_edge_weight b e = (eb_case_count b, sum_list (map (\<lambda>i. stamp_diff b i (fst e)) [0..<eb_case_count b]))"

lemma count_edge_grown:
  assumes "wf_batch b" and "fst e + 1 < activity_count b" and "bt_inv m" and "bounded_map (dur_fits N) m"
    and "N + eb_case_count b \<le> 2 ^ 62"
  shows "durs.grown (N + eb_case_count b) [(snd e, batch_edge_weight b e)] m (count_edge (eb_case_count b) b m e)"
proof -
  let ?n = "eb_case_count b" and ?j = "fst e"
  let ?S = "sum_list (map (\<lambda>i. stamp_diff b i ?j) [0..<?n])"
  have S: "\<bar>?S\<bar> \<le> int ?n * 2 ^ 64"
    using abs_sum_list [of "[0..<?n]" "\<lambda>i. stamp_diff b i ?j" "2 ^ 64"] stamp_diff_bound by simp
  have big: "(int N + int ?n) * 2 ^ 64 \<le> 2 ^ 126"
  proof -
    have "int N + int ?n \<le> 2 ^ 62" using assms(5) by simp
    then have "(int N + int ?n) * 2 ^ 64 \<le> 2 ^ 62 * 2 ^ 64" by (rule mult_right_mono) simp
    then show ?thesis by simp
  qed
  have step: "rbind (checked_add f ?n) (\<lambda>f. cases_fold (Suc ?n) b 0 (batch_edge b ?j) (f, d)) = Ok (f + ?n, d + ?S)
      \<and> dur_fits (N + ?n) (f + ?n, d + ?S)" if fd: "dur_fits N (f, d)" for f d
  proof
    have f: "f \<le> N" "\<bar>d\<bar> \<le> int N * 2 ^ 64" using fd by (simp_all add: dur_fits_def)
    have "checked_add f ?n = Ok (f + ?n)" using f assms(5) by (intro checked_add_in) (simp add: u64_max_def)
    moreover have "try_fold (batch_edge b ?j) (f + ?n, d) (map (case_at b) [0..<?n]) = Ok (f + ?n, d + ?S)"
      by (rule batch_edge_loop [OF assms(1,2)]) (use f big in \<open>simp_all add: algebra_simps\<close>)
    ultimately show "rbind (checked_add f ?n) (\<lambda>f. cases_fold (Suc ?n) b 0 (batch_edge b ?j) (f, d)) = Ok (f + ?n, d + ?S)"
      by (simp add: cases_fold_all [OF assms(1)] del: cases_fold.simps)
    show "dur_fits (N + ?n) (f + ?n, d + ?S)"
      using f S abs_triangle_ineq [of d ?S] by (simp add: dur_fits_def algebra_simps)
  qed
  have "durs.grown (N + ?n) [(snd e, batch_edge_weight b e)] m
     (bt_try_update (snd e) (0, 0) (\<lambda>(f, d). rbind (checked_add f ?n) (\<lambda>f.
        cases_fold (Suc ?n) b 0 (batch_edge b ?j) (f, d))) m)"
    by (rule durs.grown_update [OF assms(3,4)])
      (use step in \<open>auto simp: dur_plus_def batch_edge_weight_def split: prod.splits\<close>)
  then show ?thesis by (simp add: count_edge_def case_prod_unfold)
qed

definition case_edge_weight :: "int list \<Rightarrow> nat \<times> string \<times> string \<Rightarrow> nat \<times> int" where
  "case_edge_weight ts e = (1, ts ! (fst e + 1) - ts ! fst e)"

lemma case_edge_grown:
  assumes "fst e + 1 < length ts" and "list_all in_i64 ts" and "bt_inv m" and "bounded_map (dur_fits N) m"
    and "N + 1 \<le> 2 ^ 62"
  shows "durs.grown (N + 1) [(snd e, case_edge_weight ts e)] m (case_edge ts m e)"
proof -
  let ?x = "ts ! (fst e + 1) - ts ! fst e"
  have "in_i64 (ts ! (fst e + 1))" "in_i64 (ts ! fst e)" using assms(1,2) by (auto simp: list_all_length)
  then have x: "\<bar>?x\<bar> \<le> 2 ^ 64" by (auto simp: in_i64_def i64_min_def i64_max_def)
  have step: "rbind (checked_add f 1) (\<lambda>f. rbind (ok_or Panicked (nth_opt ts (fst e + 1))) (\<lambda>target.
       rbind (ok_or Panicked (nth_opt ts (fst e))) (\<lambda>source.
       rbind (checked_duration_add d (target - source)) (\<lambda>d. Ok (f, d))))) = Ok (f + 1, d + ?x)
      \<and> dur_fits (N + 1) (f + 1, d + ?x)" if fd: "dur_fits N (f, d)" for f d
  proof
    have f: "f \<le> N" "\<bar>d\<bar> \<le> int N * 2 ^ 64" using fd by (simp_all add: dur_fits_def)
    have "int N * 2 ^ 64 \<le> 2 ^ 62 * 2 ^ 64" using assms(5) by (intro mult_right_mono) simp_all
    then have "checked_duration_add d ?x = Ok (d + ?x)" using f x by (intro checked_duration_add_in) simp_all
    moreover have "checked_add f 1 = Ok (f + 1)" using f assms(5) by (intro checked_add_in) (simp add: u64_max_def)
    ultimately show "rbind (checked_add f 1) (\<lambda>f. rbind (ok_or Panicked (nth_opt ts (fst e + 1))) (\<lambda>target.
       rbind (ok_or Panicked (nth_opt ts (fst e))) (\<lambda>source.
       rbind (checked_duration_add d (target - source)) (\<lambda>d. Ok (f, d))))) = Ok (f + 1, d + ?x)"
      using assms(1) by simp
    show "dur_fits (N + 1) (f + 1, d + ?x)"
      using f x abs_triangle_ineq [of d ?x] by (simp add: dur_fits_def algebra_simps)
  qed
  have "durs.grown (N + 1) [(snd e, case_edge_weight ts e)] m (bt_try_update (snd e) (0, 0) (\<lambda>(f, d).
     rbind (checked_add f 1) (\<lambda>f. rbind (ok_or Panicked (nth_opt ts (fst e + 1))) (\<lambda>target.
       rbind (ok_or Panicked (nth_opt ts (fst e))) (\<lambda>source.
       rbind (checked_duration_add d (target - source)) (\<lambda>d. Ok (f, d)))))) m)"
    by (rule durs.grown_update [OF assms(3,4)])
      (use step in \<open>auto simp: dur_plus_def case_edge_weight_def split: prod.splits\<close>)
  then show ?thesis by (simp add: case_edge_def case_prod_unfold)
qed

section \<open>One push\<close>

definition builder_fits :: "nat \<Rightarrow> summary_builder \<Rightarrow> bool" where
  "builder_fits N s \<longleftrightarrow> sb_case_count s \<le> N \<and> sb_event_count s \<le> N \<and>
     bt_inv (sb_variants s) \<and> bounded_map (\<lambda>v. v \<le> N) (sb_variants s) \<and>
     bt_inv (sb_activities s) \<and> bounded_map (acc_fits N) (sb_activities s) \<and>
     bt_inv (sb_dfg s) \<and> bounded_map (dur_fits N) (sb_dfg s)"

definition edge_list :: "string list \<Rightarrow> (nat \<times> string \<times> string) list" where
  "edge_list path = indexed (windows2 path)"

lemma edge_list_bound: "e \<in> set (edge_list path) \<Longrightarrow> fst e + 1 < length path"
  by (cases e) (auto simp: edge_list_def set_indexed)

lemma length_indexed [simp]: "length (indexed xs) = length xs"
  by (simp add: indexed_def)

lemma hd_first_opt: "path \<noteq> [] \<Longrightarrow> first_opt path = Some (hd path) \<and> last_opt path = Some (last path) \<and>
    nth_opt path 0 = Some (hd path) \<and> nth_opt path (length path - 1) = Some (last path)"
  by (cases path) (auto simp: first_opt_def last_opt_def last_conv_nth)

text \<open>The two pushes share their counters: what each adds to the three maps, from a builder within a
  bound.\<close>

definition pushed :: "nat \<Rightarrow> nat \<Rightarrow> string list \<Rightarrow> (nat \<times> string \<times> string \<Rightarrow> nat \<times> int) \<Rightarrow> summary_builder
    \<Rightarrow> nat \<Rightarrow> summary_builder \<Rightarrow> bool" where
  "pushed N n path w s bytes s' \<longleftrightarrow> builder_fits (N + 3 * (n * length path)) s' \<and>
     sb_case_count s' = sb_case_count s + n \<and> sb_event_count s' = sb_event_count s + n * length path \<and>
     sb_payload_bytes s' = sb_payload_bytes s + bytes \<and>
     bt_get (sb_variants s') = nats.bumps [(path, n)] (bt_get (sb_variants s)) \<and>
     bt_get (sb_activities s') = accs.bumps (scaled n (activity_units path)) (bt_get (sb_activities s)) \<and>
     bt_get (sb_dfg s') = durs.bumps (map (\<lambda>e. (snd e, w e)) (edge_list path)) (bt_get (sb_dfg s))"

lemma growth_bounds:
  fixes n :: nat
  assumes "path \<noteq> []"
  shows "n \<le> 3 * (n * length path)" and "n * length path \<le> 3 * (n * length path)"
    and "(length path + 2) * n \<le> 3 * (n * length path)" and "length (edge_list path) * n \<le> 3 * (n * length path)"
proof -
  let ?x = "n * length path"
  have "n * 1 \<le> ?x" using assms by (intro mult_le_mono2) (simp add: Suc_le_eq)
  then have n: "n \<le> ?x" by simp
  have e: "length (edge_list path) * n \<le> ?x"
    using mult_le_mono1 [of "length (edge_list path)" "length path" n] by (simp add: edge_list_def mult.commute)
  have "(length path + 2) * n = ?x + n + n" by (simp add: algebra_simps)
  with n e show "n \<le> 3 * ?x" "?x \<le> 3 * ?x" "(length path + 2) * n \<le> 3 * ?x" "length (edge_list path) * n \<le> 3 * ?x"
    by linarith+
qed

lemma push_common:
  assumes s: "builder_fits N s" and path: "path \<noteq> []" and N: "N + 3 * (n * length path) \<le> 2 ^ 62"
    and bytes: "sb_payload_bytes s + bytes \<le> u64_max"
    and edge: "\<And>e m N. e \<in> set (edge_list path) \<Longrightarrow> bt_inv m \<Longrightarrow> bounded_map (dur_fits N) m \<Longrightarrow> N + n \<le> 2 ^ 62 \<Longrightarrow>
      durs.grown (N + n) [(snd e, w e)] m (step m e)"
  shows "\<exists>v seen a a1 a2 d. checked_add (sb_case_count s) n = Ok (sb_case_count s + n) \<and>
    checked_add (sb_event_count s) (n * length path) = Ok (sb_event_count s + n * length path) \<and>
    checked_add (sb_payload_bytes s) bytes = Ok (sb_payload_bytes s + bytes) \<and>
    checked_map_add (sb_variants s) path n = Ok v \<and>
    try_fold (count_activity n) ({}, sb_activities s) path = Ok (seen, a) \<and>
    count_end add_start n (Some (hd path)) a = Ok a1 \<and> count_end add_end n (Some (last path)) a1 = Ok a2 \<and>
    try_fold step (sb_dfg s) (edge_list path) = Ok d \<and>
    pushed N n path w s bytes \<lparr>sb_case_count = sb_case_count s + n, sb_event_count = sb_event_count s + n * length path,
      sb_payload_bytes = sb_payload_bytes s + bytes, sb_variants = v, sb_dfg = d, sb_activities = a2\<rparr>"
proof -
  let ?M = "N + 3 * (n * length path)"
  note g = growth_bounds [OF path, of n]
  have s': "sb_case_count s \<le> N" "sb_event_count s \<le> N" "bt_inv (sb_variants s)" "bounded_map (\<lambda>v. v \<le> N) (sb_variants s)"
    "bt_inv (sb_activities s)" "bounded_map (acc_fits N) (sb_activities s)"
    "bt_inv (sb_dfg s)" "bounded_map (dur_fits N) (sb_dfg s)"
    using s by (simp_all add: builder_fits_def)
  have M: "?M \<le> u64_max" "2 ^ 62 \<le> u64_max" using N by (simp_all add: u64_max_def)
  have counts: "checked_add (sb_case_count s) n = Ok (sb_case_count s + n)"
    "checked_add (sb_event_count s) (n * length path) = Ok (sb_event_count s + n * length path)"
    "checked_add (sb_payload_bytes s) bytes = Ok (sb_payload_bytes s + bytes)"
    using g s'(1,2) M(1) bytes by (intro checked_add_in; linarith)+
  have "nats.grown ?M [(path, n)] (sb_variants s) (checked_map_add (sb_variants s) path n)"
    by (rule nats.grown_mono [OF variants_grown [OF s'(3,4)]]) (use g M in linarith)+
  then obtain v where v: "checked_map_add (sb_variants s) path n = Ok v" "bt_inv v" "bounded_map (\<lambda>v. v \<le> ?M) v"
    "bt_get v = nats.bumps [(path, n)] (bt_get (sb_variants s))"
    by (auto simp: nats.grown_def)
  have "accs.grown ?M (scaled n (activity_units path)) (sb_activities s)
    (rbind (try_fold (count_activity n) ({}, sb_activities s) path) (\<lambda>(seen, m).
      rbind (count_end add_start n (Some (hd path)) m) (\<lambda>m. count_end add_end n (Some (last path)) m)))"
    by (rule accs.grown_mono [OF activities_grown [OF s'(5,6)]]) (use g M in linarith)+
  then obtain seen a a1 a2 where a: "try_fold (count_activity n) ({}, sb_activities s) path = Ok (seen, a)"
    "count_end add_start n (Some (hd path)) a = Ok a1" "count_end add_end n (Some (last path)) a1 = Ok a2"
    "bt_inv a2" "bounded_map (acc_fits ?M) a2"
    "bt_get a2 = accs.bumps (scaled n (activity_units path)) (bt_get (sb_activities s))"
    by (auto simp: accs.grown_def result_simps)
  have "durs.grown (N + length (edge_list path) * n) (map (\<lambda>e. (snd e, w e)) (edge_list path)) (sb_dfg s)
      (try_fold step (sb_dfg s) (edge_list path))"
    by (rule durs.grown_loop [where limit = "2 ^ 62", OF edge s'(7,8)]) (use g(4) N in linarith)+
  then have "durs.grown ?M (map (\<lambda>e. (snd e, w e)) (edge_list path)) (sb_dfg s)
      (try_fold step (sb_dfg s) (edge_list path))"
    by (rule durs.grown_mono) (use g(4) in linarith)
  then obtain d where d: "try_fold step (sb_dfg s) (edge_list path) = Ok d" "bt_inv d" "bounded_map (dur_fits ?M) d"
    "bt_get d = durs.bumps (map (\<lambda>e. (snd e, w e)) (edge_list path)) (bt_get (sb_dfg s))"
    by (auto simp: durs.grown_def)
  have "sb_case_count s + n \<le> ?M" "sb_event_count s + n * length path \<le> ?M" using g s'(1,2) by linarith+
  then show ?thesis
    using counts v a d unfolding pushed_def builder_fits_def by (intro exI conjI) simp_all
qed

lemma push_batch_pushed:
  assumes "builder_fits N s" and "wf_batch b" and "N + 3 * event_count b \<le> 2 ^ 62"
    and "sb_payload_bytes s + payload_bytes b \<le> u64_max"
  shows "\<exists>s'. push_batch s b = Ok s' \<and>
    pushed N (eb_case_count b) (eb_activity_path b) (batch_edge_weight b) s (payload_bytes b) s'"
proof -
  have path: "eb_activity_path b \<noteq> []" using assms(2) by (simp add: wf_batch_def)
  have n: "event_count b = eb_case_count b * length (eb_activity_path b)" by (simp add: event_count_def activity_count_def)
  have edge: "durs.grown (N + eb_case_count b) [(snd e, batch_edge_weight b e)] m (count_edge (eb_case_count b) b m e)"
    if "e \<in> set (edge_list (eb_activity_path b))" "bt_inv m" "bounded_map (dur_fits N) m" "N + eb_case_count b \<le> 2 ^ 62"
    for e m N
    by (rule count_edge_grown [OF assms(2) _ that(2,3,4)])
      (use edge_list_bound [OF that(1)] in \<open>simp add: activity_count_def\<close>)
  show ?thesis
    using push_common [OF assms(1) path assms(3) [unfolded n] assms(4) edge] hd_first_opt [OF path]
    by (auto simp: push_batch_def Let_def n edge_list_def)
qed

lemma push_case_pushed:
  assumes "builder_fits N s" and "path \<noteq> []" and "length ts = length path" and "list_all in_i64 ts"
    and "N + 3 * length path \<le> 2 ^ 62" and "sb_payload_bytes s \<le> u64_max"
  shows "\<exists>s'. push_case s path ts = Ok s' \<and> pushed N 1 path (case_edge_weight ts) s 0 s'"
proof -
  have edge: "durs.grown (N + 1) [(snd e, case_edge_weight ts e)] m (case_edge ts m e)"
    if "e \<in> set (edge_list path)" "bt_inv m" "bounded_map (dur_fits N) m" "N + 1 \<le> 2 ^ 62" for e m N
    by (rule case_edge_grown [OF _ assms(4) that(2,3,4)]) (use edge_list_bound [OF that(1)] assms(3) in simp)
  show ?thesis
    using push_common [OF assms(1,2) _ _ edge, of 0] assms hd_first_opt [OF assms(2)]
    by (auto simp: push_case_def edge_list_def)
qed

section \<open>A batch is its expanded cases\<close>

definition expanded :: "event_batch \<Rightarrow> int list list" where
  "expanded b = map (\<lambda>i. map (stamp b i) [0..<activity_count b]) [0..<eb_case_count b]"

definition push_cases :: "summary_builder \<Rightarrow> string list \<Rightarrow> int list list \<Rightarrow> summary_builder batch_result" where
  "push_cases s path tss = try_fold (\<lambda>s ts. push_case s path ts) s tss"

lemma push_cases_pushed:
  assumes "path \<noteq> []" and "\<forall>ts \<in> set tss. length ts = length path \<and> list_all in_i64 ts"
    and "builder_fits N s" and "N + length tss * (3 * length path) \<le> 2 ^ 62" and "sb_payload_bytes s \<le> u64_max"
  shows "\<exists>s'. push_cases s path tss = Ok s' \<and> builder_fits (N + length tss * (3 * length path)) s' \<and>
     sb_case_count s' = sb_case_count s + length tss \<and>
     sb_event_count s' = sb_event_count s + length tss * length path \<and>
     sb_payload_bytes s' = sb_payload_bytes s \<and>
     bt_get (sb_variants s') = nats.bumps (concat (map (\<lambda>ts. map (\<lambda>p. (p, 1)) [path]) tss)) (bt_get (sb_variants s)) \<and>
     bt_get (sb_activities s') = accs.bumps (concat (map (\<lambda>ts. map (\<lambda>u. (fst u, snd u)) (activity_units path)) tss))
       (bt_get (sb_activities s)) \<and>
     bt_get (sb_dfg s') = durs.bumps (concat (map (\<lambda>ts. map (\<lambda>e. (snd e, case_edge_weight ts e)) (edge_list path)) tss))
       (bt_get (sb_dfg s))"
  using assms
proof (induction tss arbitrary: s N)
  case Nil
  then show ?case by (simp add: push_cases_def nats.bumps_simps accs.bumps_simps durs.bumps_simps)
next
  case (Cons ts tss)
  have "acc_scale 1 u = u" for u by (cases u) (simp add: acc_scale_def)
  then have one: "scaled 1 (activity_units path) = activity_units path" by (simp add: scaled_def)
  have "N + 3 * length path \<le> 2 ^ 62" using Cons.prems(4) by simp
  then obtain s1 where s1: "push_case s path ts = Ok s1" "pushed N 1 path (case_edge_weight ts) s 0 s1"
    using push_case_pushed [OF Cons.prems(3,1), of ts] Cons.prems(2,5) by auto
  have fits: "builder_fits (N + 3 * length path) s1" "sb_payload_bytes s1 \<le> u64_max"
    using s1(2) Cons.prems(5) by (simp_all add: pushed_def)
  obtain s2 where s2: "push_cases s1 path tss = Ok s2" "builder_fits (N + 3 * length path + length tss * (3 * length path)) s2"
     "sb_case_count s2 = sb_case_count s1 + length tss"
     "sb_event_count s2 = sb_event_count s1 + length tss * length path"
     "sb_payload_bytes s2 = sb_payload_bytes s1"
     "bt_get (sb_variants s2) = nats.bumps (concat (map (\<lambda>ts. map (\<lambda>p. (p, 1)) [path]) tss)) (bt_get (sb_variants s1))"
     "bt_get (sb_activities s2) = accs.bumps (concat (map (\<lambda>ts. map (\<lambda>u. (fst u, snd u)) (activity_units path)) tss))
       (bt_get (sb_activities s1))"
     "bt_get (sb_dfg s2) = durs.bumps (concat (map (\<lambda>ts. map (\<lambda>e. (snd e, case_edge_weight ts e)) (edge_list path)) tss))
       (bt_get (sb_dfg s1))"
    using Cons.IH [OF Cons.prems(1) _ fits(1) _ fits(2)] Cons.prems(2,4) by (auto simp: add.assoc)
  have "push_cases s path (ts # tss) = Ok s2" using s1(1) s2(1) by (simp add: push_cases_def)
  moreover have "bt_get (sb_variants s2)
      = nats.bumps (concat (map (\<lambda>ts. map (\<lambda>p. (p, 1)) [path]) (ts # tss))) (bt_get (sb_variants s))"
    using s1(2) s2(6) by (simp only: pushed_def list.map concat.simps nats.bumps_simps(3))
  moreover have "bt_get (sb_activities s2)
      = accs.bumps (concat (map (\<lambda>ts. map (\<lambda>u. (fst u, snd u)) (activity_units path)) (ts # tss))) (bt_get (sb_activities s))"
    using s1(2) s2(7) one by (simp only: pushed_def list.map concat.simps accs.bumps_simps(3) prod.collapse map_ident)
  moreover have "bt_get (sb_dfg s2) = durs.bumps (concat (map (\<lambda>ts. map (\<lambda>e. (snd e, case_edge_weight ts e))
      (edge_list path)) (ts # tss))) (bt_get (sb_dfg s))"
    using s1(2) s2(8) by (simp only: pushed_def list.map concat.simps durs.bumps_simps(3))
  moreover have "N + length (ts # tss) * (3 * length path) = N + 3 * length path + length tss * (3 * length path)" by simp
  moreover have "sb_case_count s1 = sb_case_count s + 1" "sb_event_count s1 = sb_event_count s + length path"
    "sb_payload_bytes s1 = sb_payload_bytes s"
    using s1(2) by (simp_all add: pushed_def)
  ultimately show ?case using s2(2-5) by (intro exI [of _ s2] conjI) (simp_all add: add.assoc)
qed

lemma total_nats: "nats.total (map (\<lambda>c. 1) cs) = length cs"
  by (induction cs) (simp_all add: nats.total_simps)

lemma total_accs: "accs.total (map (\<lambda>c. u) cs) = acc_scale (length cs) u"
  by (induction cs) (simp_all only: list.map accs.total_simps list.size, simp_all add: acc_plus_def acc_scale_def accumulator_default_def)

lemma total_durs: "durs.total (map (\<lambda>c. (1, f c)) cs) = (length cs, sum_list (map f cs))"
  by (induction cs) (simp_all only: list.map durs.total_simps list.size, simp_all add: dur_plus_def)

lemma bt_get_eqI: "bt_inv m \<Longrightarrow> bt_inv m' \<Longrightarrow> bt_get m = bt_get m' \<Longrightarrow> m = m'"
  by (rule bt.get_ext) simp_all

lemma expanded_edge_weight:
  assumes "e \<in> set (edge_list (eb_activity_path b))"
  shows "durs.total (map (\<lambda>ts. case_edge_weight ts e) (expanded b)) = batch_edge_weight b e"
proof -
  have j: "fst e + 1 < activity_count b" using edge_list_bound [OF assms] by (simp add: activity_count_def)
  have "map (\<lambda>ts. case_edge_weight ts e) (expanded b)
      = map (\<lambda>i. (1, stamp_diff b i (fst e))) [0..<eb_case_count b]"
    using j by (simp add: expanded_def case_edge_weight_def stamp_diff_def)
  then show ?thesis by (simp only: total_durs batch_edge_weight_def length_upt diff_zero)
qed

lemma push_batch_expanded:
  assumes "builder_fits N s" and "wf_batch b" and "N + 3 * event_count b \<le> 2 ^ 62"
    and "sb_payload_bytes s + payload_bytes b \<le> u64_max"
  shows "\<exists>s'. push_batch s b = Ok (s'\<lparr>sb_payload_bytes := sb_payload_bytes s + payload_bytes b\<rparr>) \<and>
    push_cases s (eb_activity_path b) (expanded b) = Ok s' \<and> builder_fits (N + 3 * event_count b) s' \<and>
    sb_payload_bytes s' = sb_payload_bytes s"
proof -
  let ?path = "eb_activity_path b" and ?tss = "expanded b"
  have path: "?path \<noteq> []" and tss: "?tss \<noteq> []" "length ?tss = eb_case_count b"
    using assms(2) by (simp_all add: wf_batch_def expanded_def)
  have n: "event_count b = eb_case_count b * length ?path" by (simp add: event_count_def activity_count_def)
  have ts: "\<forall>ts \<in> set ?tss. length ts = length ?path \<and> list_all in_i64 ts"
    by (auto simp: expanded_def activity_count_def list_all_iff stamp_def in_i64_read)
  have N': "N + length ?tss * (3 * length ?path) = N + 3 * event_count b" using tss(2) by (simp add: n)
  obtain s1 where s1: "push_batch s b = Ok s1"
    "pushed N (eb_case_count b) ?path (batch_edge_weight b) s (payload_bytes b) s1"
    using push_batch_pushed [OF assms] by auto
  have N2: "N + length ?tss * (3 * length ?path) \<le> 2 ^ 62" and p2: "sb_payload_bytes s \<le> u64_max"
    using N' assms(3,4) by simp_all
  obtain s2 where s2: "push_cases s ?path ?tss = Ok s2" "builder_fits (N + 3 * event_count b) s2"
     "sb_case_count s2 = sb_case_count s + eb_case_count b"
     "sb_event_count s2 = sb_event_count s + event_count b"
     "sb_payload_bytes s2 = sb_payload_bytes s"
     "bt_get (sb_variants s2) = nats.bumps (concat (map (\<lambda>ts. map (\<lambda>p. (p, 1)) [?path]) ?tss)) (bt_get (sb_variants s))"
     "bt_get (sb_activities s2) = accs.bumps (concat (map (\<lambda>ts. map (\<lambda>u. (fst u, snd u)) (activity_units ?path)) ?tss))
       (bt_get (sb_activities s))"
     "bt_get (sb_dfg s2) = durs.bumps (concat (map (\<lambda>ts. map (\<lambda>e. (snd e, case_edge_weight ts e)) (edge_list ?path)) ?tss))
       (bt_get (sb_dfg s))"
    using push_cases_pushed [OF path ts assms(1) N2 p2] unfolding tss(2) N' [unfolded tss(2)] n [symmetric] by auto
  have inv: "bt_inv (sb_variants s1)" "bt_inv (sb_variants s2)" "bt_inv (sb_activities s1)" "bt_inv (sb_activities s2)"
    "bt_inv (sb_dfg s1)" "bt_inv (sb_dfg s2)"
    using s1(2) s2(2) by (simp_all add: pushed_def builder_fits_def)
  have "sb_variants s1 = sb_variants s2"
    using s1(2) s2(6) nats.bumps_swap [OF tss(1), of id "\<lambda>ts p. 1" "[?path]"] tss(2)
    by (intro bt_get_eqI inv) (simp add: pushed_def total_nats [unfolded One_nat_def])
  moreover have "sb_activities s1 = sb_activities s2"
    using s1(2) s2(7) accs.bumps_swap [OF tss(1), of fst "\<lambda>ts. snd" "activity_units ?path"] tss(2)
    by (intro bt_get_eqI inv) (simp add: pushed_def total_accs scaled_def)
  moreover have "sb_dfg s1 = sb_dfg s2"
  proof (intro bt_get_eqI inv)
    have "map (\<lambda>e. (snd e, durs.total (map (\<lambda>ts. case_edge_weight ts e) ?tss))) (edge_list ?path)
        = map (\<lambda>e. (snd e, batch_edge_weight b e)) (edge_list ?path)"
      by (auto simp: expanded_edge_weight)
    then show "bt_get (sb_dfg s1) = bt_get (sb_dfg s2)"
      using s1(2) unfolding s2(8) durs.bumps_swap [OF tss(1), of snd case_edge_weight "edge_list ?path"]
      by (simp only: pushed_def)
  qed
  ultimately have "s1 = s2\<lparr>sb_payload_bytes := sb_payload_bytes s + payload_bytes b\<rparr>"
    using s1(2) s2(3,4) n by (cases s1; cases s2) (simp add: pushed_def)
  then show ?thesis using s1(1) s2(1,2,5) by auto
qed

section \<open>Properties\<close>

text \<open>C6: Decoding a batch written in either byte order finds the byte order and gives back every case
  identifier and timestamp, for activity paths shorter than 65792 (the least count whose bytes
  read the same in both orders), and the case after the last is absent.\<close>

theorem event_batch_roundtrip:
  assumes "path \<noteq> []" and "length path < 65792" and "tss \<noteq> []" and "length tss < 2 ^ 31"
    and "length ids = length tss" and "list_all in_i64 ids"
    and "\<forall>ts \<in> set tss. length ts = length path \<and> list_all in_i64 ts"
  shows "\<exists>b. batch_decode path (int (length path)) (int (length tss)) (concat (map (write_i64 order) ids))
      (concat (map (enc_record order) tss)) = Ok b \<and>
    eb_byte_order b = order \<and> eb_activity_path b = path \<and>
    (\<forall>i < length tss. \<exists>c. batch_case b i = Ok (Some c) \<and> ec_case_id c = ids ! i \<and>
       (\<forall>j < length path. timestamp_micros c j = Ok (Some (tss ! i ! j)))) \<and>
    batch_case b (length tss) = Ok None"
proof -
  let ?b = "\<lparr>eb_activity_path = path, eb_case_count = length tss, eb_case_id_payload = concat (map (write_i64 order) ids),
        eb_timestamp_payload = concat (map (enc_record order) tss), eb_byte_order = order\<rparr>"
  note enc = batch_encoded_values [OF assms(1,3,5,7,6) refl, where order = order]
  have "batch_case ?b i = Ok (Some (case_at ?b i)) \<and> ec_case_id (case_at ?b i) = ids ! i \<and>
      (\<forall>j < length path. timestamp_micros (case_at ?b i) j = Ok (Some (tss ! i ! j)))" if "i < length tss" for i
    using enc(2) [OF that] enc(3) [OF that] that
    by (simp add: batch_case_in [OF enc(1)] timestamp_micros_at [OF enc(1)] activity_count_def)
  then show ?thesis
    using batch_roundtrip_aux [OF assms(1-3,5,4), of order] assms(7) by (auto simp: batch_case_out)
qed

theorem event_batch_roundtrip_witness:
  "\<exists>b. batch_decode [''a'', ''b''] 2 1 (write_i64 BigEndian 7)
      (enc_record BigEndian [100, 250]) = Ok b \<and> eb_byte_order b = BigEndian"
  using event_batch_roundtrip [of "[''a'', ''b'']" "[[100, 250]]" "[7]" BigEndian]
  by (auto simp: in_i64_def i64_min_def i64_max_def)

text \<open>Summarising a factorized batch without expanding it is the same as pushing its cases one by
  one: from any builder whose counters are bounded, both succeed and leave the same builder, apart
  from the payload bytes only batches have.\<close>

theorem push_batch_as_cases:
  assumes "builder_fits N s" and "batch_decode path ac cc ids ts = Ok b" and "N + 3 * event_count b \<le> 2 ^ 62"
    and "sb_payload_bytes s + payload_bytes b \<le> u64_max"
  shows "\<exists>s'. push_batch s b = Ok (s'\<lparr>sb_payload_bytes := sb_payload_bytes s + payload_bytes b\<rparr>) \<and>
    push_cases s (eb_activity_path b) (expanded b) = Ok s' \<and> builder_fits (N + 3 * event_count b) s'"
  using push_batch_expanded [OF assms(1) batch_decode_wf [OF assms(2)] assms(3,4)] by auto

definition sample_batch :: event_batch where
  "sample_batch = \<lparr>eb_activity_path = [''a'', ''b''], eb_case_count = 1, eb_case_id_payload = [0, 0, 0, 0, 0, 0, 0, 7],
     eb_timestamp_payload = [0, 0, 0, 2, 0, 0, 0, 0, 0, 0, 0, 100, 0, 0, 0, 0, 0, 0, 0, 250], eb_byte_order = BigEndian\<rparr>"

lemma sample_batch_decode:
  "batch_decode [''a'', ''b''] 2 1 [0, 0, 0, 0, 0, 0, 0, 7] [0, 0, 0, 2, 0, 0, 0, 0, 0, 0, 0, 100, 0, 0, 0, 0, 0, 0, 0, 250]
    = Ok sample_batch"
  by code_simp

lemma builder_new_fits: "builder_fits 0 builder_new"
  by (simp add: builder_fits_def builder_new_def bounded_map_def)

theorem push_batch_as_cases_witness:
  "\<exists>s'. push_cases builder_new [''a'', ''b''] (expanded sample_batch) = Ok s'"
  using push_batch_as_cases [OF builder_new_fits sample_batch_decode]
  by (auto simp: sample_batch_def event_count_def activity_count_def payload_bytes_def builder_new_def u64_max_def)

end
