(* ===== verification/Provider.thy ===== *)
theory Provider
  imports Requests EventBatch
begin

text \<open>
  The provider contract: \<open>crates/ocpm-provider/src/lib.rs\<close>. The trait's required methods are the
  parameters of the operations that call them (\<open>process_executions\<close>, \<open>profile\<close>); the default
  methods are definitions. The clock is a natural number, observed where the code reads
  \<open>Instant::now()\<close>; the shared cancellation flag is observed where the code loads it.
\<close>

section \<open>Execution contexts\<close>

record execution_context =
  ctx_cancelled :: bool
  ctx_deadline :: "nat option"

definition ctx_new :: execution_context where
  "ctx_new = \<lparr>ctx_cancelled = False, ctx_deadline = None\<rparr>"

text \<open>\<open>now.checked_add(timeout).unwrap_or(now)\<close>, for clocks up to \<open>instant_max\<close>.\<close>

definition ctx_with_timeout :: "nat \<Rightarrow> nat \<Rightarrow> nat \<Rightarrow> execution_context" where
  "ctx_with_timeout instant_max now timeout =
    \<lparr>ctx_cancelled = False, ctx_deadline = Some (if now + timeout \<le> instant_max then now + timeout else now)\<rparr>"

definition ctx_with_deadline :: "nat \<Rightarrow> execution_context" where
  "ctx_with_deadline deadline = \<lparr>ctx_cancelled = False, ctx_deadline = Some deadline\<rparr>"

definition ctx_cancel :: "execution_context \<Rightarrow> execution_context" where
  "ctx_cancel ctx = ctx\<lparr>ctx_cancelled := True\<rparr>"

definition ctx_is_timed_out :: "execution_context \<Rightarrow> nat \<Rightarrow> bool" where
  "ctx_is_timed_out ctx now = (case ctx_deadline ctx of None \<Rightarrow> False | Some deadline \<Rightarrow> deadline \<le> now)"

definition ctx_check :: "execution_context \<Rightarrow> nat \<Rightarrow> unit ocpm_result" where
  "ctx_check ctx now =
    (if ctx_cancelled ctx then Err (ocpm_error_new Cancelled ''execution was cancelled'')
     else if ctx_is_timed_out ctx now then Err (ocpm_error_new Timeout ''execution deadline was exceeded'')
     else Ok ())"

text \<open>The \<open>*_with_context\<close> methods: a check, the call, a check. The context and clock may have moved
  between the two observations.\<close>

definition with_context :: "execution_context \<times> nat \<Rightarrow> execution_context \<times> nat \<Rightarrow> 'a ocpm_result \<Rightarrow> 'a ocpm_result" where
  "with_context before after call =
    rbind (ctx_check (fst before) (snd before)) (\<lambda>_.
    rbind call (\<lambda>result.
    rbind (ctx_check (fst after) (snd after)) (\<lambda>_. Ok result)))"

section \<open>Populations\<close>

datatype execution_mode = LeadingObject | ConnectedComponent

datatype population_selector =
  EventTime timestamp timestamp | LeadingObjectStart timestamp timestamp
| ExecutionContained timestamp timestamp | CaseSet "nat list"

record population_resolution =
  pr_view :: "dataset_view option"
  pr_object_count :: nat

definition population_resolution_new :: "dataset_view \<Rightarrow> nat \<Rightarrow> population_resolution" where
  "population_resolution_new view object_count =
    \<lparr>pr_view = (if 0 < object_count then Some view else None), pr_object_count = object_count\<rparr>"

datatype provider_capability =
  CanonicalScan | ProcessExecutions | ObjectCentricQuery | DfgAggregate | VariantAggregate
| PerformanceAggregate | BottleneckObservations | PredictionFeatures

record capability_coverage =
  cov_available :: bool
  cov_reason_code :: "string option"

definition coverage_available :: capability_coverage where
  "coverage_available = \<lparr>cov_available = True, cov_reason_code = None\<rparr>"

definition coverage_unavailable :: "string \<Rightarrow> capability_coverage" where
  "coverage_unavailable reason = \<lparr>cov_available = False, cov_reason_code = Some reason\<rparr>"

record capability_report =
  rep_lifecycle :: capability_coverage
  rep_resource :: capability_coverage
  rep_shared_event :: capability_coverage
  rep_resource_calendar :: capability_coverage

definition default_report :: capability_report where
  "default_report = (let unknown = coverage_unavailable ''provider_capability_not_declared'' in
    \<lparr>rep_lifecycle = unknown, rep_resource = unknown, rep_shared_event = unknown, rep_resource_calendar = unknown\<rparr>)"

record process_execution =
  pe_id :: string
  pe_object_type :: string
  pe_object_ids :: "nat list"
  pe_events :: "event list"
  pe_event_object_ids :: "(nat, nat list) btree_map"

definition activity_path :: "process_execution \<Rightarrow> string list" where
  "activity_path e = map ev_activity (pe_events e)"

record provider_estimate =
  est_startup_ns :: nat
  est_rows_read :: nat
  est_rows_returned :: nat
  est_bytes_transferred :: nat
  est_peak_memory_bytes :: nat
  est_confidence :: f64

type_synonym executions_method =
  "dataset_view \<Rightarrow> execution_mode \<Rightarrow> string option \<Rightarrow> process_execution list ocpm_result"

definition selector_window :: "population_selector \<Rightarrow> (timestamp \<times> timestamp) option" where
  "selector_window s = (case s of EventTime a b \<Rightarrow> Some (a, b) | LeadingObjectStart a b \<Rightarrow> Some (a, b)
     | ExecutionContained a b \<Rightarrow> Some (a, b) | CaseSet _ \<Rightarrow> None)"

definition matches_window :: "timestamp \<Rightarrow> timestamp \<Rightarrow> timestamp \<Rightarrow> bool" where
  "matches_window v start stop \<longleftrightarrow>
     epoch_nanos_utc start \<le> epoch_nanos_utc v \<and> epoch_nanos_utc v < epoch_nanos_utc stop"

definition first_object_ids :: "process_execution list \<Rightarrow> nat list" where
  "first_object_ids es = List.map_filter (\<lambda>e. first_opt (pe_object_ids e)) es"

definition starts_within :: "timestamp \<Rightarrow> timestamp \<Rightarrow> process_execution \<Rightarrow> bool" where
  "starts_within start stop e = (case first_opt (pe_events e) of None \<Rightarrow> False
     | Some ev \<Rightarrow> matches_window (ev_timestamp ev) start stop)"

definition contained_within :: "timestamp \<Rightarrow> timestamp \<Rightarrow> process_execution \<Rightarrow> bool" where
  "contained_within start stop e = (case (first_opt (pe_events e), last_opt (pe_events e)) of
     (Some a, Some b) \<Rightarrow> matches_window (ev_timestamp a) start stop \<and> matches_window (ev_timestamp b) start stop
   | _ \<Rightarrow> False)"

text \<open>The selection: the view the resolution goes on with, and the identifiers found.\<close>

definition select_population :: "executions_method \<Rightarrow> dataset_view \<Rightarrow> population_selector \<Rightarrow> string
    \<Rightarrow> (dataset_view \<times> nat list) ocpm_result" where
  "select_population process_executions view selector leading = (case selector of
     EventTime start stop \<Rightarrow>
       let view = view\<lparr>dv_start := Some start, dv_end := Some stop\<rparr> in
       rbind (process_executions view LeadingObject (Some leading)) (\<lambda>es. Ok (view, first_object_ids es))
   | LeadingObjectStart start stop \<Rightarrow>
       let view = view\<lparr>dv_start := None, dv_end := None\<rparr> in
       rbind (process_executions view LeadingObject (Some leading)) (\<lambda>es.
         Ok (view, first_object_ids (filter (starts_within start stop) es)))
   | ExecutionContained start stop \<Rightarrow>
       let view = view\<lparr>dv_start := None, dv_end := None\<rparr> in
       rbind (process_executions view LeadingObject (Some leading)) (\<lambda>es.
         Ok (view, first_object_ids (filter (contained_within start stop) es)))
   | CaseSet object_ids \<Rightarrow>
       let requested = bset object_ids;
         view = view\<lparr>dv_object_ids := (if dv_object_ids view = [] then requested
           else filter (\<lambda>i. i \<in> set requested) (dv_object_ids view))\<rparr> in
       if dv_object_ids view = [] then Ok (view, [])
       else rbind (process_executions view LeadingObject (Some leading)) (\<lambda>es. Ok (view, first_object_ids es)))"

definition is_event_time :: "population_selector \<Rightarrow> bool" where
  "is_event_time s = (case s of EventTime _ _ \<Rightarrow> True | _ \<Rightarrow> False)"

definition resolve_population :: "executions_method \<Rightarrow> dataset_view \<Rightarrow> population_selector \<Rightarrow> string option
    \<Rightarrow> population_resolution ocpm_result" where
  "resolve_population process_executions base_view selector leading_object_type =
    rbind (ok_or (invalid_request ''population resolution requires a leading object type'') leading_object_type) (\<lambda>leading.
    rbind (ensure (case selector_window selector of None \<Rightarrow> True
        | Some (start, stop) \<Rightarrow> epoch_nanos_utc start < epoch_nanos_utc stop)
      (invalid_request ''population window must have start before end'')) (\<lambda>_.
    rbind (select_population process_executions base_view selector leading) (\<lambda>(view, ids).
    let selected_ids = remdups_adj (sort ids);
      view = (if is_event_time selector then view else view\<lparr>dv_object_ids := selected_ids\<rparr>) in
    Ok (population_resolution_new view (length selected_ids)))))"

section \<open>Bottleneck observations\<close>

record bottleneck_observation =
  bo_object_id :: nat
  bo_object_type :: string
  bo_source_event_id :: nat
  bo_source_activity :: string
  bo_source_timestamp_nanos :: int
  bo_source_lifecycle :: "string option"
  bo_source_attributes :: attributes
  bo_target_event_id :: nat
  bo_target_activity :: string
  bo_target_timestamp_nanos :: int
  bo_target_lifecycle :: "string option"
  bo_target_attributes :: attributes

definition observe :: "nat \<Rightarrow> string \<Rightarrow> event \<times> event \<Rightarrow> bottleneck_observation" where
  "observe object_id object_type = (\<lambda>(source, target).
    \<lparr>bo_object_id = object_id, bo_object_type = object_type,
     bo_source_event_id = ev_id source, bo_source_activity = ev_activity source,
     bo_source_timestamp_nanos = epoch_nanos_utc (ev_timestamp source),
     bo_source_lifecycle = ev_lifecycle source, bo_source_attributes = ev_attributes source,
     bo_target_event_id = ev_id target, bo_target_activity = ev_activity target,
     bo_target_timestamp_nanos = epoch_nanos_utc (ev_timestamp target),
     bo_target_lifecycle = ev_lifecycle target, bo_target_attributes = ev_attributes target\<rparr>)"

definition observations_from_executions :: "process_execution list \<Rightarrow> bottleneck_observation list" where
  "observations_from_executions executions = concat (map (\<lambda>e. case first_opt (pe_object_ids e) of
     None \<Rightarrow> [] | Some object_id \<Rightarrow> map (observe object_id (pe_object_type e)) (windows2 (pe_events e))) executions)"

record bottleneck_observation_request =
  bor_view :: dataset_view
  bor_leading_object_type :: "string option"

definition bottleneck_leading_types :: "bottleneck_observation_request \<Rightarrow> string option list" where
  "bottleneck_leading_types request = (case bor_leading_object_type request of
     Some leading \<Rightarrow> [Some leading]
   | None \<Rightarrow> if dv_object_types (bor_view request) = [] then [None]
       else map Some (dv_object_types (bor_view request)))"

definition bottleneck_observations :: "executions_method \<Rightarrow> bottleneck_observation_request
    \<Rightarrow> bottleneck_observation list ocpm_result" where
  "bottleneck_observations process_executions request =
    try_fold (\<lambda>observations leading.
      rbind (process_executions (bor_view request) LeadingObject leading) (\<lambda>executions.
      Ok (observations @ observations_from_executions executions))) [] (bottleneck_leading_types request)"

definition default_snapshot :: "dataset_view \<Rightarrow> 'j canonical_log ocpm_result" where
  "default_snapshot view = Err (ocpm_error_new ProviderUnavailable ''provider does not expose canonical snapshot export'')"

section \<open>The context as a state machine\<close>

text \<open>What can happen to a request's context: any holder of the token cancels, and time passes.\<close>

inductive ctx_step :: "execution_context \<times> nat \<Rightarrow> execution_context \<times> nat \<Rightarrow> bool" where
  cancel: "ctx_step (ctx, now) (ctx_cancel ctx, now)"
| tick: "now \<le> now' \<Longrightarrow> ctx_step (ctx, now) (ctx, now')"

inductive_cases ctx_stepE: "ctx_step s t"

lemma ctx_check_Err_iff: "\<not> is_ok (ctx_check ctx now) \<longleftrightarrow> ctx_cancelled ctx \<or> ctx_is_timed_out ctx now"
  by (simp add: ctx_check_def)

lemma ctx_step_stopped:
  "ctx_step s t \<Longrightarrow> \<not> is_ok (ctx_check (fst s) (snd s)) \<Longrightarrow> \<not> is_ok (ctx_check (fst t) (snd t))"
  by (auto simp: ctx_check_Err_iff ctx_cancel_def ctx_is_timed_out_def elim!: ctx_stepE split: option.splits)

lemma ctx_steps_stopped:
  "ctx_step\<^sup>*\<^sup>* s t \<Longrightarrow> \<not> is_ok (ctx_check (fst s) (snd s)) \<Longrightarrow> \<not> is_ok (ctx_check (fst t) (snd t))"
  by (induction rule: rtranclp_induct) (auto dest: ctx_step_stopped)

lemma with_context_Ok:
  "with_context before after call = Ok r \<longleftrightarrow> is_ok (ctx_check (fst before) (snd before)) \<and> call = Ok r \<and>
     is_ok (ctx_check (fst after) (snd after))"
  by (auto simp: with_context_def result_simps is_ok_iff)

text \<open>Cancellation and deadlines fail closed: once a context is cancelled or past its deadline, it stays
  so along every later cancellation and passage of time; a context-aware call answers with a result
  only when the context was live at both observations, hence at every moment in between.\<close>

theorem with_context_fails_closed:
  assumes "ctx_step\<^sup>*\<^sup>* before mid" and "ctx_step\<^sup>*\<^sup>* mid after" and "with_context before after call = Ok r"
  shows "call = Ok r \<and> is_ok (ctx_check (fst mid) (snd mid))"
  using assms ctx_steps_stopped [OF assms(2)] by (auto simp: with_context_Ok)

theorem with_context_fails_closed_witness:
  "with_context (ctx_new, 5) (ctx_new, 9) (Ok (3 :: nat)) = Ok 3 \<and> is_ok (ctx_check ctx_new 7)"
proof -
  have steps: "ctx_step\<^sup>*\<^sup>* (ctx_new, 5) (ctx_new, 7)" "ctx_step\<^sup>*\<^sup>* (ctx_new, 7) (ctx_new, 9)"
    by (rule r_into_rtranclp, rule ctx_step.tick, simp)+
  have call: "with_context (ctx_new, 5) (ctx_new, 9) (Ok (3 :: nat)) = Ok 3"
    by (simp add: with_context_def ctx_check_def ctx_new_def ctx_is_timed_out_def)
  show ?thesis using with_context_fails_closed [OF steps call] call by simp
qed

section \<open>The contract of executions\<close>

text \<open>
  What the population resolver relies on: leading-object executions carry one object, and when the
  view names objects it is one of them.
\<close>

locale leading_provider =
  fixes process_executions :: executions_method
  assumes leading_objects: "process_executions view LeadingObject leading = Ok es \<Longrightarrow> e \<in> set es \<Longrightarrow>
    (\<exists>i. pe_object_ids e = [i] \<and> (dv_object_ids view = [] \<or> i \<in> set (dv_object_ids view)))"
begin

lemma first_ids_allowed:
  assumes "process_executions view LeadingObject leading = Ok es" and "set fs \<subseteq> set es"
    and "dv_object_ids view \<noteq> []"
  shows "set (first_object_ids fs) \<subseteq> set (dv_object_ids view)"
proof
  fix i
  assume "i \<in> set (first_object_ids fs)"
  then obtain e where e: "e \<in> set es" "first_opt (pe_object_ids e) = Some i"
    using assms(2) by (auto simp: first_object_ids_def List.map_filter_def)
  from leading_objects [OF assms(1) e(1)] e(2) assms(3)
  show "i \<in> set (dv_object_ids view)" by (auto simp: first_opt_def)
qed

lemma case_set_within:
  assumes "select_population process_executions view (CaseSet ids) leading = Ok (view', found)"
  shows "set found \<subseteq> set ids" and "dv_object_ids view \<noteq> [] \<Longrightarrow> set found \<subseteq> set (dv_object_ids view)"
proof -
  have "set found \<subseteq> set (dv_object_ids view')"
    using assms by (auto simp: select_population_def Let_def result_simps split: if_splits
        dest!: first_ids_allowed [OF _ order.refl])
  moreover have "set (dv_object_ids view') \<subseteq> set ids"
    "dv_object_ids view \<noteq> [] \<Longrightarrow> set (dv_object_ids view') \<subseteq> set (dv_object_ids view)"
    using assms by (auto simp: select_population_def Let_def result_simps split: if_splits)
  ultimately show "set found \<subseteq> set ids" "dv_object_ids view \<noteq> [] \<Longrightarrow> set found \<subseteq> set (dv_object_ids view)"
    by blast+
qed

end

lemma resolve_population_OkE:
  assumes "resolve_population pe view selector leading = Ok r"
  obtains l view' ids where "leading = Some l"
    and "case selector_window selector of None \<Rightarrow> True | Some (a, b) \<Rightarrow> epoch_nanos_utc a < epoch_nanos_utc b"
    and "select_population pe view selector l = Ok (view', ids)"
    and "r = population_resolution_new (if is_event_time selector then view' else view'\<lparr>dv_object_ids := bset ids\<rparr>)
        (length (bset ids))"
  using assms
  by (cases "is_event_time selector")
    (auto simp: resolve_population_def result_simps Let_def remdups_adj_sort simp del: split_paired_Ex)

lemma resolution_explicit:
  assumes "resolve_population process_executions base_view selector leading = Ok r"
  shows "(pr_view r = None \<longleftrightarrow> pr_object_count r = 0) \<and>
    (case pr_view r of None \<Rightarrow> True
     | Some view \<Rightarrow> is_event_time selector \<or>
         dv_object_ids view \<noteq> [] \<and> length (dv_object_ids view) = pr_object_count r \<and>
         sorted_wrt (<) (dv_object_ids view))"
  using assms
  by (rule resolve_population_OkE) (auto simp: population_resolution_new_def strict_sorted_iff split: if_splits)

text \<open>An empty population is never confused with "no filter": a resolved view is present exactly when
  at least one object was selected, and unless the selector is an event window the view names
  exactly the selected objects, so its object list is not empty.\<close>

theorem resolve_population_explicit:
  assumes "resolve_population process_executions base_view selector leading = Ok r"
  shows "(pr_view r = None \<longleftrightarrow> pr_object_count r = 0) \<and>
    (case pr_view r of None \<Rightarrow> True
     | Some view \<Rightarrow> is_event_time selector \<or>
         dv_object_ids view \<noteq> [] \<and> length (dv_object_ids view) = pr_object_count r \<and>
         sorted_wrt (<) (dv_object_ids view))"
  using assms by (rule resolution_explicit)

definition sample_execution :: process_execution where
  "sample_execution = \<lparr>pe_id = ''object:o1'', pe_object_type = ''order'', pe_object_ids = [4],
     pe_events = [sample_event 1 ''e1'' ''create'' 10], pe_event_object_ids = []\<rparr>"

theorem resolve_population_explicit_witness:
  "\<exists>r. resolve_population (\<lambda>_ _ _. Ok [sample_execution]) default_view (CaseSet [4, 9]) (Some ''order'') = Ok r \<and>
    pr_object_count r = 1 \<and> pr_view r \<noteq> None"
proof -
  let ?r = "population_resolution_new (default_view\<lparr>dv_object_ids := [4]\<rparr>) 1"
  have r: "resolve_population (\<lambda>_ _ _. Ok [sample_execution]) default_view (CaseSet [4, 9]) (Some ''order'') = Ok ?r"
    by code_simp
  show ?thesis
    using r resolve_population_explicit [OF r] by (intro exI [of _ ?r]) (auto simp: population_resolution_new_def)
qed

text \<open>The reference projection of executions to bottleneck observations yields one observation per
  pair of adjacent events of an execution with an object, in order, and nothing else.\<close>

theorem observations_adjacent:
  "observations_from_executions executions =
    concat (map (\<lambda>e. map (\<lambda>i. observe (hd (pe_object_ids e)) (pe_object_type e) (pe_events e ! i, pe_events e ! Suc i))
      [0..<length (pe_events e) - 1]) (filter (\<lambda>e. pe_object_ids e \<noteq> []) executions)) \<and>
   length (observations_from_executions executions) =
     sum_list (map (\<lambda>e. length (pe_events e) - 1) (filter (\<lambda>e. pe_object_ids e \<noteq> []) executions))"
proof -
  have one: "(case first_opt (pe_object_ids e) of None \<Rightarrow> []
      | Some i \<Rightarrow> map (observe i (pe_object_type e)) (windows2 (pe_events e))) =
    (if pe_object_ids e \<noteq> [] then map (\<lambda>i. observe (hd (pe_object_ids e)) (pe_object_type e)
      (pe_events e ! i, pe_events e ! Suc i)) [0..<length (pe_events e) - 1] else [])" for e
    by (cases "pe_object_ids e") (simp_all add: first_opt_def windows2_conv_nth)
  have eq: "observations_from_executions executions = concat (map (\<lambda>e. map (\<lambda>i. observe (hd (pe_object_ids e))
      (pe_object_type e) (pe_events e ! i, pe_events e ! Suc i)) [0..<length (pe_events e) - 1])
      (filter (\<lambda>e. pe_object_ids e \<noteq> []) executions))"
    unfolding observations_from_executions_def one by (induction executions) simp_all
  show ?thesis
    by (rule conjI, rule eq) (simp add: eq length_concat comp_def)
qed

text \<open>An execution with a given path of activities.\<close>

definition path_execution :: "string list \<Rightarrow> process_execution" where
  "path_execution path = \<lparr>pe_id = [], pe_object_type = ''order'', pe_object_ids = [],
     pe_events = map (\<lambda>a. sample_event 1 ''e'' a 0) path, pe_event_object_ids = []\<rparr>"

lemma activity_path_execution [simp]: "activity_path (path_execution path) = path"
  by (simp add: activity_path_def path_execution_def sample_event_def comp_def)

lemma path_execution_length [simp]: "length (pe_events (path_execution path)) = length path"
  by (simp add: path_execution_def)

end
