(* ===== verification/UnionFind.thy ===== *)
theory UnionFind
  imports Prelude "HOL-Library.Monad_Syntax"
begin

text \<open>
  The disjoint-set forest of \<open>crates/ocpm-local/src/lib.rs\<close> (\<open>UnionFind\<close>, lines 690 to 740):
  path compression and union by rank, the rank a saturating byte. \<open>None\<close> is an out-of-range index
  or a walk that does not end. The interface \<open>partition\<close> is what the connected-component
  extraction relies on.
\<close>

record union_find =
  uf_parent :: "nat list"
  uf_rank :: "nat list"

definition uf_new :: "nat \<Rightarrow> union_find" where
  "uf_new n = \<lparr>uf_parent = [0..<n], uf_rank = replicate n 0\<rparr>"

partial_function (option) uf_root :: "union_find \<Rightarrow> nat \<Rightarrow> (union_find \<times> nat) option" where
  "uf_root u v = (case nth_opt (uf_parent u) v of None \<Rightarrow> None
     | Some p \<Rightarrow> if p \<noteq> v then Option.bind (uf_root u p) (\<lambda>(u', r). Some (u'\<lparr>uf_parent := (uf_parent u')[v := r]\<rparr>, r))
         else Some (u, v))"

declare uf_root.simps [code]

definition u8_saturating_add :: "nat \<Rightarrow> nat \<Rightarrow> nat" where
  "u8_saturating_add a b = min (a + b) 255"

definition uf_join :: "union_find \<Rightarrow> nat \<Rightarrow> nat \<Rightarrow> union_find option" where
  "uf_join u left right = do {
     (u, left) \<leftarrow> uf_root u left;
     (u, right) \<leftarrow> uf_root u right;
     if left = right then Some u
     else do {
       rank_left \<leftarrow> nth_opt (uf_rank u) left;
       rank_right \<leftarrow> nth_opt (uf_rank u) right;
       Some (if rank_left < rank_right then u\<lparr>uf_parent := (uf_parent u)[left := right]\<rparr>
         else if rank_right < rank_left then u\<lparr>uf_parent := (uf_parent u)[right := left]\<rparr>
         else u\<lparr>uf_parent := (uf_parent u)[right := left],
           uf_rank := (uf_rank u)[left := u8_saturating_add rank_left 1]\<rparr>) } }"

section \<open>Forests\<close>

inductive root_of :: "nat list \<Rightarrow> nat \<Rightarrow> nat \<Rightarrow> bool" for p where
  root: "p ! v = v \<Longrightarrow> root_of p v v"
| up: "p ! v \<noteq> v \<Longrightarrow> root_of p (p ! v) r \<Longrightarrow> root_of p v r"

lemma root_of_fun: "root_of p v r \<Longrightarrow> root_of p v s \<Longrightarrow> r = s"
proof (induction arbitrary: s rule: root_of.induct)
  case (root v)
  from root(2,1) show ?case by cases auto
next
  case (up v r)
  from up(4,1) have "root_of p (p ! v) s" by cases auto
  then show ?case by (rule up.IH)
qed

text \<open>Heights that grow along the parents: the forest has no cycle. The rank is not one, because it
  saturates.\<close>

definition heights :: "(nat \<Rightarrow> nat) \<Rightarrow> nat list \<Rightarrow> bool" where
  "heights h p \<longleftrightarrow> (\<forall>v < length p. p ! v < length p \<and> (p ! v \<noteq> v \<longrightarrow> h v < h (p ! v)))"

lemma root_of_facts:
  assumes "heights h p"
  shows "root_of p v r \<Longrightarrow> v < length p \<Longrightarrow> r < length p \<and> p ! r = r \<and> (r = v \<or> h v < h r)"
proof (induction rule: root_of.induct)
  case (up v r)
  then show ?case using assms by (fastforce simp: heights_def)
qed simp

lemma root_of_total:
  assumes "heights h p" and "v < length p"
  shows "\<exists>r. root_of p v r"
proof -
  obtain H where H: "\<forall>v < length p. h v \<le> H"
    by (metis finite_nat_set_iff_bounded_le finite_imageI finite_lessThan imageI lessThan_iff)
  show ?thesis using assms(2)
  proof (induction "H - h v" arbitrary: v rule: less_induct)
    case less
    show ?case
    proof (cases "p ! v = v")
      case False
      have "p ! v < length p" "h v < h (p ! v)" using assms(1) less.prems False by (auto simp: heights_def)
      then have "\<exists>r. root_of p (p ! v) r" using H less.prems by (intro less.hyps) (simp_all add: diff_less_mono2 less_le_trans)
      then show ?thesis using False by (auto intro: root_of.up)
    qed (auto intro: root_of.root)
  qed
qed

lemma compress_root:
  assumes "heights h p" and "v < length p" and "root_of p v r"
  shows "root_of p x s \<Longrightarrow> root_of (p[v := r]) x s"
proof (induction rule: root_of.induct)
  case (root x)
  show ?case
  proof (cases "x = v")
    case True
    then have "r = v" using root assms(3) root_of.root root_of_fun by blast
    then show ?thesis using True assms(2) by (intro root_of.root) simp
  qed (use root in \<open>auto intro: root_of.root\<close>)
next
  case (up x s)
  show ?case
  proof (cases "x = v")
    case True
    have r: "p ! r = r" "r = v \<or> h v < h r" using root_of_facts [OF assms(1,3,2)] by auto
    have s: "s = r" using True root_of.up [OF up(1,2)] assms(3) root_of_fun by blast
    have "r \<noteq> v" using r(1) up(1) True by metis
    then have "root_of (p[v := r]) r r" using r(1) by (intro root_of.root) simp
    moreover have "p[v := r] ! v = r" using assms(2) by simp
    ultimately have "root_of (p[v := r]) v r" using root_of.up [of "p[v := r]" v r] \<open>r \<noteq> v\<close> by metis
    then show ?thesis using True s by metis
  qed (use up in \<open>auto intro: root_of.up\<close>)
qed

lemma compress_heights:
  assumes "heights h p" and "v < length p" and "root_of p v r"
  shows "heights h (p[v := r])"
  unfolding heights_def
proof (intro allI impI conjI)
  fix x
  assume x: "x < length (p[v := r])"
  note r = root_of_facts [OF assms(1,3,2)]
  show "p[v := r] ! x < length (p[v := r])" using assms(1) r x by (cases "x = v") (simp_all add: heights_def)
  assume "p[v := r] ! x \<noteq> x"
  then show "h x < h (p[v := r] ! x)" using assms(1) r x by (cases "x = v") (simp_all add: heights_def)
qed

lemma uf_root_correct:
  assumes "heights h (uf_parent u)" and "v < length (uf_parent u)"
  shows "\<exists>u' r. uf_root u v = Some (u', r) \<and> root_of (uf_parent u) v r \<and> heights h (uf_parent u') \<and>
    length (uf_parent u') = length (uf_parent u) \<and> uf_rank u' = uf_rank u \<and>
    (\<forall>x s. root_of (uf_parent u) x s \<longrightarrow> root_of (uf_parent u') x s)"
proof -
  obtain r where "root_of (uf_parent u) v r" using root_of_total [OF assms] by blast
  then show ?thesis using assms(2)
  proof (induction rule: root_of.induct)
    case (root v)
    then show ?case using assms(1) by (subst uf_root.simps) (auto intro: root_of.root)
  next
    case (up v r)
    have "uf_parent u ! v < length (uf_parent u)" using assms(1) up.prems by (simp add: heights_def)
    from up.IH [OF this] obtain u' r' where u': "uf_root u (uf_parent u ! v) = Some (u', r')"
      "root_of (uf_parent u) (uf_parent u ! v) r'" "heights h (uf_parent u')"
      "length (uf_parent u') = length (uf_parent u)" "uf_rank u' = uf_rank u"
      "\<forall>x s. root_of (uf_parent u) x s \<longrightarrow> root_of (uf_parent u') x s" by auto
    have v: "root_of (uf_parent u) v r'" using up(1) u'(2) by (rule root_of.up)
    then have v': "root_of (uf_parent u') v r'" using u'(6) by blast
    have len: "v < length (uf_parent u')" using up.prems u'(4) by simp
    have "uf_root u v = Some (u'\<lparr>uf_parent := (uf_parent u')[v := r']\<rparr>, r')"
      using up(1) up.prems u'(1) by (subst uf_root.simps) simp
    then show ?case
      using v u' compress_heights [OF u'(3) len v'] compress_root [OF u'(3) len v'] by auto
  qed
qed

text \<open>Linking one root below another.\<close>

lemma link_correct:
  assumes h: "heights h p" and a: "a < length p" "p ! a = a" and b: "b < length p" "p ! b = b" and "a \<noteq> b"
  shows "\<exists>h'. heights h' (p[a := b])" and "root_of p x s \<Longrightarrow> root_of (p[a := b]) x (if s = a then b else s)"
proof -
  have "heights (h(b := max (h b) (Suc (h a)))) (p[a := b])"
    unfolding heights_def
  proof (intro allI impI conjI)
    fix v
    assume v: "v < length (p[a := b])"
    show "p[a := b] ! v < length (p[a := b])" using h v b(1) by (cases "v = a") (simp_all add: heights_def)
    assume ne: "p[a := b] ! v \<noteq> v"
    show "(h(b := max (h b) (Suc (h a)))) v < (h(b := max (h b) (Suc (h a)))) (p[a := b] ! v)"
    proof (cases "v = a")
      case True
      then show ?thesis using assms by (simp add: nth_list_update)
    next
      case False
      then have "p ! v \<noteq> v" "p[a := b] ! v = p ! v" using ne by simp_all
      moreover have "h v < h (p ! v)" using h v \<open>p ! v \<noteq> v\<close> by (simp add: heights_def)
      moreover have "v \<noteq> b" using b(2) \<open>p ! v \<noteq> v\<close> by auto
      ultimately show ?thesis by auto
    qed
  qed
  then show "\<exists>h'. heights h' (p[a := b])" by blast
  show "root_of p x s \<Longrightarrow> root_of (p[a := b]) x (if s = a then b else s)"
  proof (induction rule: root_of.induct)
    case (root x)
    have bb: "root_of (p[a := b]) b b" using assms by (intro root_of.root) simp
    show ?case
    proof (cases "x = a")
      case True
      then show ?thesis using bb assms by (auto intro: root_of.up)
    qed (use root in \<open>auto intro: root_of.root\<close>)
  next
    case (up x s)
    then have "x \<noteq> a" using a(2) by auto
    then show ?case using up by (auto intro: root_of.up)
  qed
qed

section \<open>The interface\<close>

definition uf_inv :: "nat \<Rightarrow> union_find \<Rightarrow> bool" where
  "uf_inv n u \<longleftrightarrow> length (uf_parent u) = n \<and> length (uf_rank u) = n \<and> (\<exists>h. heights h (uf_parent u))"

definition uf_rep :: "union_find \<Rightarrow> nat \<Rightarrow> nat" where
  "uf_rep u v = (case uf_root u v of None \<Rightarrow> v | Some (_, r) \<Rightarrow> r)"

lemma uf_rep_root_of: "uf_inv n u \<Longrightarrow> v < n \<Longrightarrow> root_of (uf_parent u) v r \<longleftrightarrow> uf_rep u v = r"
proof -
  assume inv: "uf_inv n u" "v < n"
  then obtain h where "heights h (uf_parent u)" "v < length (uf_parent u)" by (auto simp: uf_inv_def)
  from uf_root_correct [OF this] obtain u' r' where "uf_root u v = Some (u', r')" "root_of (uf_parent u) v r'"
    by blast
  then show ?thesis using root_of_fun by (auto simp: uf_rep_def)
qed

locale partition =
  fixes new :: "nat \<Rightarrow> 's"
    and find_root :: "'s \<Rightarrow> nat \<Rightarrow> ('s \<times> nat) option"
    and join :: "'s \<Rightarrow> nat \<Rightarrow> nat \<Rightarrow> 's option"
    and inv :: "nat \<Rightarrow> 's \<Rightarrow> bool"
    and rep :: "'s \<Rightarrow> nat \<Rightarrow> nat"
  assumes inv_new: "inv n (new n)"
    and rep_new: "i < n \<Longrightarrow> rep (new n) i = i"
    and find_correct: "inv n u \<Longrightarrow> i < n \<Longrightarrow>
      \<exists>u'. find_root u i = Some (u', rep u i) \<and> inv n u' \<and> (\<forall>x < n. rep u' x = rep u x)"
    and join_correct: "inv n u \<Longrightarrow> i < n \<Longrightarrow> j < n \<Longrightarrow>
      \<exists>u'. join u i j = Some u' \<and> inv n u' \<and> (\<forall>x < n. \<forall>y < n. rep u' x = rep u' y \<longleftrightarrow>
        rep u x = rep u y \<or> rep u x = rep u i \<and> rep u y = rep u j \<or> rep u x = rep u j \<and> rep u y = rep u i)"
begin

fun joins :: "'s \<Rightarrow> (nat \<times> nat) list \<Rightarrow> 's option" where
  "joins u [] = Some u"
| "joins u ((i, j) # ps) = Option.bind (join u i j) (\<lambda>u'. joins u' ps)"

text \<open>After any joins, two elements share a representative exactly when the joined pairs connect
  them.\<close>

lemma joins_from:
  assumes "inv n u" and "\<forall>(i, j) \<in> set ps. i < n \<and> j < n"
    and "\<forall>x < n. \<forall>y < n. rep u x = rep u y \<longleftrightarrow> (x, y) \<in> R\<^sup>*" and "sym R" and "R \<subseteq> {..<n} \<times> {..<n}"
  shows "\<exists>u'. joins u ps = Some u' \<and> inv n u' \<and>
    (\<forall>x < n. \<forall>y < n. rep u' x = rep u' y \<longleftrightarrow> (x, y) \<in> (R \<union> set ps \<union> (set ps)\<inverse>)\<^sup>*)"
  using assms
proof (induction ps arbitrary: u R)
  case Nil
  then show ?case by simp
next
  case (Cons p ps)
  obtain i j where p: "p = (i, j)" by (cases p)
  have ij: "i < n" "j < n" using Cons.prems(2) p by auto
  obtain u1 where u1: "join u i j = Some u1" "inv n u1"
    "\<forall>x < n. \<forall>y < n. rep u1 x = rep u1 y \<longleftrightarrow>
        rep u x = rep u y \<or> rep u x = rep u i \<and> rep u y = rep u j \<or> rep u x = rep u j \<and> rep u y = rep u i"
    using join_correct [OF Cons.prems(1) ij] by blast
  let ?R = "R \<union> {(i, j), (j, i)}"
  have sub: "R\<^sup>* \<subseteq> ?R\<^sup>*" by (rule rtrancl_mono) auto
  have symR: "(x, y) \<in> R\<^sup>* \<Longrightarrow> (y, x) \<in> R\<^sup>*" for x y using Cons.prems(4) by (meson sym_rtrancl symD)
  have eq: "(x, y) \<in> ?R\<^sup>* \<longleftrightarrow> (x, y) \<in> R\<^sup>* \<or> (x, i) \<in> R\<^sup>* \<and> (j, y) \<in> R\<^sup>* \<or> (x, j) \<in> R\<^sup>* \<and> (i, y) \<in> R\<^sup>*" for x y
  proof
    assume "(x, y) \<in> ?R\<^sup>*"
    then show "(x, y) \<in> R\<^sup>* \<or> (x, i) \<in> R\<^sup>* \<and> (j, y) \<in> R\<^sup>* \<or> (x, j) \<in> R\<^sup>* \<and> (i, y) \<in> R\<^sup>*"
      by (induction rule: rtrancl_induct) (auto intro: rtrancl.rtrancl_into_rtrancl)
  next
    have "(i, j) \<in> ?R\<^sup>*" "(j, i) \<in> ?R\<^sup>*" by auto
    then show "(x, y) \<in> R\<^sup>* \<or> (x, i) \<in> R\<^sup>* \<and> (j, y) \<in> R\<^sup>* \<or> (x, j) \<in> R\<^sup>* \<and> (i, y) \<in> R\<^sup>* \<Longrightarrow> (x, y) \<in> ?R\<^sup>*"
      using sub by (meson rtrancl_trans subsetD)
  qed
  have same: "\<forall>x < n. \<forall>y < n. rep u1 x = rep u1 y \<longleftrightarrow> (x, y) \<in> ?R\<^sup>*"
  proof (intro allI impI)
    fix x y
    assume xy: "x < n" "y < n"
    have "rep u x = rep u i \<longleftrightarrow> (x, i) \<in> R\<^sup>*" "rep u y = rep u j \<longleftrightarrow> (j, y) \<in> R\<^sup>*"
      "rep u x = rep u j \<longleftrightarrow> (x, j) \<in> R\<^sup>*" "rep u y = rep u i \<longleftrightarrow> (i, y) \<in> R\<^sup>*" "rep u x = rep u y \<longleftrightarrow> (x, y) \<in> R\<^sup>*"
      using Cons.prems(3) xy ij symR by blast+
    then show "rep u1 x = rep u1 y \<longleftrightarrow> (x, y) \<in> ?R\<^sup>*" using u1(3) xy eq by simp
  qed
  have "sym ?R" "?R \<subseteq> {..<n} \<times> {..<n}" using Cons.prems(4,5) ij by (auto simp: sym_def)
  from Cons.IH [OF u1(2) _ same this] Cons.prems(2) obtain u' where
    u': "joins u1 ps = Some u'" "inv n u'"
    "\<forall>x < n. \<forall>y < n. rep u' x = rep u' y \<longleftrightarrow> (x, y) \<in> (?R \<union> set ps \<union> (set ps)\<inverse>)\<^sup>*" by auto
  have "?R \<union> set ps \<union> (set ps)\<inverse> = R \<union> set (p # ps) \<union> (set (p # ps))\<inverse>" using p by auto
  then show ?case using u' u1(1) p by auto
qed

lemma joins_connected:
  assumes "\<forall>(i, j) \<in> set ps. i < n \<and> j < n"
  shows "\<exists>u. joins (new n) ps = Some u \<and> inv n u \<and>
    (\<forall>x < n. \<forall>y < n. rep u x = rep u y \<longleftrightarrow> (x, y) \<in> (set ps \<union> (set ps)\<inverse>)\<^sup>*)"
  using joins_from [OF inv_new assms, of "{}"] by (auto simp: rep_new sym_def)

end

lemma uf_inv_new: "uf_inv n (uf_new n)"
  by (auto simp: uf_inv_def uf_new_def heights_def)

lemma uf_find_correct:
  assumes "uf_inv n u" and "i < n"
  shows "\<exists>u'. uf_root u i = Some (u', uf_rep u i) \<and> uf_inv n u' \<and> (\<forall>x < n. uf_rep u' x = uf_rep u x)"
proof -
  obtain h where h: "heights h (uf_parent u)" "i < length (uf_parent u)" using assms by (auto simp: uf_inv_def)
  obtain u' r where u': "uf_root u i = Some (u', r)" "heights h (uf_parent u')"
    "length (uf_parent u') = length (uf_parent u)" "uf_rank u' = uf_rank u"
    "\<forall>x s. root_of (uf_parent u) x s \<longrightarrow> root_of (uf_parent u') x s"
    using uf_root_correct [OF h] by blast
  have inv: "uf_inv n u'" using assms(1) u' by (auto simp: uf_inv_def)
  have "uf_rep u' x = uf_rep u x" if "x < n" for x
    using uf_rep_root_of [OF inv that] uf_rep_root_of [OF assms(1) that] u'(5) by blast
  then show ?thesis using u'(1) inv by (auto simp: uf_rep_def)
qed

lemma uf_link:
  assumes "uf_inv n u" and "a < n" "uf_parent u ! a = a" "b < n" "uf_parent u ! b = b" "a \<noteq> b"
    and "length ranks = n"
  shows "uf_inv n \<lparr>uf_parent = (uf_parent u)[a := b], uf_rank = ranks\<rparr> \<and>
    (\<forall>x < n. uf_rep \<lparr>uf_parent = (uf_parent u)[a := b], uf_rank = ranks\<rparr> x =
      (if uf_rep u x = a then b else uf_rep u x))"
proof -
  let ?u = "\<lparr>uf_parent = (uf_parent u)[a := b], uf_rank = ranks\<rparr>"
  obtain h where h: "heights h (uf_parent u)" "length (uf_parent u) = n" using assms(1) by (auto simp: uf_inv_def)
  note link = link_correct [OF h(1), of a b] 
  have inv: "uf_inv n ?u" using link(1) h(2) assms by (simp add: uf_inv_def)
  have "uf_rep ?u x = (if uf_rep u x = a then b else uf_rep u x)" if "x < n" for x
    using link(2) [of x "uf_rep u x"] uf_rep_root_of [OF assms(1) that, of "uf_rep u x"]
      uf_rep_root_of [OF inv that] h(2) assms by simp
  then show ?thesis using inv by blast
qed

lemma uf_root_fixed:
  assumes "uf_inv n u" and "i < n"
  shows "uf_rep u i < n \<and> uf_parent u ! uf_rep u i = uf_rep u i"
proof -
  obtain h where h: "heights h (uf_parent u)" "length (uf_parent u) = n" using assms(1) by (auto simp: uf_inv_def)
  show ?thesis using root_of_facts [OF h(1), of i "uf_rep u i"] uf_rep_root_of [OF assms] assms(2) h(2) by simp
qed

lemma uf_join_correct:
  assumes "uf_inv n u" and i: "i < n" and j: "j < n"
  shows "\<exists>u'. uf_join u i j = Some u' \<and> uf_inv n u' \<and> (\<forall>x < n. \<forall>y < n. uf_rep u' x = uf_rep u' y \<longleftrightarrow>
    uf_rep u x = uf_rep u y \<or> uf_rep u x = uf_rep u i \<and> uf_rep u y = uf_rep u j \<or>
    uf_rep u x = uf_rep u j \<and> uf_rep u y = uf_rep u i)"
proof -
  obtain u1 where u1: "uf_root u i = Some (u1, uf_rep u i)" "uf_inv n u1" "\<forall>x < n. uf_rep u1 x = uf_rep u x"
    using uf_find_correct [OF assms(1) i] by blast
  obtain u2 where u2: "uf_root u1 j = Some (u2, uf_rep u1 j)" "uf_inv n u2" "\<forall>x < n. uf_rep u2 x = uf_rep u1 x"
    using uf_find_correct [OF u1(2) j] by blast
  let ?a = "uf_rep u i" and ?b = "uf_rep u j"
  have reps: "uf_rep u1 j = ?b" "\<forall>x < n. uf_rep u2 x = uf_rep u x" using u1(3) u2(3) j by auto
  have a: "?a < n" "uf_parent u2 ! ?a = ?a" and b: "?b < n" "uf_parent u2 ! ?b = ?b"
    using uf_root_fixed [OF u2(2) i] uf_root_fixed [OF u2(2) j] reps(2) i j by auto
  show ?thesis
  proof (cases "?a = ?b")
    case True
    then have "uf_join u i j = Some u2" using u1(1) u2(1) reps by (simp add: uf_join_def)
    then show ?thesis using u2(2) reps(2) True by auto
  next
    case False
    have len: "length (uf_rank u2) = n" using u2(2) by (simp add: uf_inv_def)
    let ?ab = "\<lambda>ranks. \<lparr>uf_parent = (uf_parent u2)[?a := ?b], uf_rank = ranks\<rparr>"
    let ?ba = "\<lambda>ranks. \<lparr>uf_parent = (uf_parent u2)[?b := ?a], uf_rank = ranks\<rparr>"
    have cases: "uf_join u i j = Some (?ab (uf_rank u2)) \<or>
        (\<exists>ranks. length ranks = n \<and> uf_join u i j = Some (?ba ranks))"
      using u1(1) u2(1) reps(1) False len a(1) b(1) by (cases u2) (auto simp: uf_join_def)
    have ab: "\<exists>u'. uf_join u i j = Some u' \<and> uf_inv n u' \<and> (\<forall>x < n. \<forall>y < n. uf_rep u' x = uf_rep u' y \<longleftrightarrow>
        uf_rep u x = uf_rep u y \<or> uf_rep u x = ?a \<and> uf_rep u y = ?b \<or> uf_rep u x = ?b \<and> uf_rep u y = ?a)"
      if "uf_join u i j = Some (?ab ranks)" "length ranks = n" for ranks
      using uf_link [OF u2(2) a b False that(2)] that(1) reps(2) by auto
    have ba: "\<exists>u'. uf_join u i j = Some u' \<and> uf_inv n u' \<and> (\<forall>x < n. \<forall>y < n. uf_rep u' x = uf_rep u' y \<longleftrightarrow>
        uf_rep u x = uf_rep u y \<or> uf_rep u x = ?a \<and> uf_rep u y = ?b \<or> uf_rep u x = ?b \<and> uf_rep u y = ?a)"
      if "uf_join u i j = Some (?ba ranks)" "length ranks = n" for ranks
      using uf_link [OF u2(2) b a False [symmetric] that(2)] that(1) reps(2) by auto
    show ?thesis using cases ab [OF _ len] ba by blast
  qed
qed

interpretation uf: partition uf_new uf_root uf_join uf_inv uf_rep
proof unfold_locales
  show "uf_rep (uf_new n) i = i" if "i < n" for i n
    using that by (simp add: uf_rep_def uf_new_def uf_root.simps)
qed (simp_all add: uf_inv_new uf_find_correct uf_join_correct)

end
