(* ===== verification/Local.thy ===== *)
theory Local
  imports Provider UnionFind
begin

text \<open>
  The complete provider over a canonical log held in memory: \<open>crates/ocpm-local/src/lib.rs\<close>. The
  provider is the sorted log with its index from events to objects. Queries are evaluated with the
  labels they push as an explicit state. \<open>None\<close> in \<open>connected_executions\<close> is an out-of-range index
  or an endless walk of the disjoint-set forest, which never happens (\<open>connected_executions_Some\<close>).
\<close>

section \<open>The provider\<close>

record 'j local_provider =
  lp_log :: "'j canonical_log"
  lp_objects_by_event :: "(nat, nat list) btree_map"

definition objects_by_event :: "event_object_relation list \<Rightarrow> (nat, nat list) btree_map" where
  "objects_by_event relations =
    map (\<lambda>(i, ids). (i, sort ids)) (fold (\<lambda>r. bt_push (e2o_event_id r) (e2o_object_id r)) relations [])"

definition local_new :: "'j canonical_log \<Rightarrow> 'j local_provider ocpm_result" where
  "local_new cl =
    rbind (log_validate cl) (\<lambda>_.
    let cl = sort_canonical cl in
    Ok \<lparr>lp_log = cl, lp_objects_by_event = objects_by_event (log_e2o cl)\<rparr>)"

text \<open>\<open>Iterator::max_by\<close>: the last of several greatest elements.\<close>

definition max_by_last :: "('a \<Rightarrow> 'b::linorder) \<Rightarrow> 'a list \<Rightarrow> 'a option" where
  "max_by_last f xs = fold (\<lambda>x best. case best of None \<Rightarrow> Some x
     | Some y \<Rightarrow> if f x < f y then Some y else Some x) xs None"

text \<open>\<open>value == Some(expected)\<close> under the derived equality of attribute values.\<close>

definition opt_attr_eq :: "attribute_value option \<Rightarrow> attribute_value \<Rightarrow> bool" where
  "opt_attr_eq v w = (case v of None \<Rightarrow> False | Some x \<Rightarrow> attr_eq x w)"

definition object_attribute_value_at :: "'j local_provider \<Rightarrow> nat \<Rightarrow> string \<Rightarrow> timestamp option \<Rightarrow> attribute_value option" where
  "object_attribute_value_at p object_id name before =
    map_option oac_value (max_by_last (\<lambda>c. epoch_nanos_utc (oac_valid_from c))
      (filter (\<lambda>c. oac_object_id c = object_id \<and> oac_name c = name \<and>
        is_none_or (\<lambda>stop. epoch_nanos_utc (oac_valid_from c) < epoch_nanos_utc stop) before)
      (log_attribute_history (lp_log p))))"

definition related_object :: "'j local_provider \<Rightarrow> nat \<Rightarrow> object_object_relation \<Rightarrow> object option" where
  "related_object p object_id r =
    (if o2o_source_object_id r = object_id then log_object (lp_log p) (o2o_target_object_id r)
     else if o2o_target_object_id r = object_id then log_object (lp_log p) (o2o_source_object_id r)
     else None)"

definition is_some_and :: "('a \<Rightarrow> bool) \<Rightarrow> 'a option \<Rightarrow> bool" where
  "is_some_and f x = (case x of None \<Rightarrow> False | Some a \<Rightarrow> f a)"

definition object_matches_view :: "'j local_provider \<Rightarrow> dataset_view \<Rightarrow> nat \<Rightarrow> bool" where
  "object_matches_view p view object_id = (case log_object (lp_log p) object_id of None \<Rightarrow> False
   | Some ob \<Rightarrow>
      (dv_object_types view = [] \<or> ob_type ob \<in> set (dv_object_types view)) \<and>
      (dv_object_ids view = [] \<or> ob_id ob \<in> set (dv_object_ids view)) \<and>
      (\<forall>(name, v) \<in> set (dv_object_attributes view).
        opt_attr_eq (object_attribute_value_at p (ob_id ob) name (dv_end view)) v) \<and>
      (dv_related_object_types view = [] \<or>
        (\<exists>r \<in> set (log_o2o (lp_log p)). is_some_and (\<lambda>related. ob_type related \<in> set (dv_related_object_types view))
          (related_object p (ob_id ob) r))))"

definition event_matches_view :: "dataset_view \<Rightarrow> event \<Rightarrow> bool" where
  "event_matches_view view e \<longleftrightarrow>
    contains_timestamp view (ev_timestamp e) \<and>
    (dv_event_ids view = [] \<or> ev_id e \<in> set (dv_event_ids view)) \<and>
    (dv_activities view = [] \<or> ev_activity e \<in> set (dv_activities view)) \<and>
    (\<forall>(name, v) \<in> set (dv_event_attributes view). opt_attr_eq (bt_get (ev_attributes e) name) v) \<and>
    (dv_statuses view = [] \<or> is_some_and (\<lambda>v. case v of AttrString status \<Rightarrow> status \<in> set (dv_statuses view)
       | _ \<Rightarrow> False) (bt_get (ev_attributes e) ''status''))"

definition execution_duration_matches :: "dataset_view \<Rightarrow> event list \<Rightarrow> bool" where
  "execution_duration_matches view events =
    (let duration = (case (first_opt events, last_opt events) of
        (Some a, Some b) \<Rightarrow> i128_saturating_sub (epoch_nanos_utc (ev_timestamp b)) (epoch_nanos_utc (ev_timestamp a))
      | _ \<Rightarrow> 0)
     in is_none_or (\<lambda>minimum. minimum \<le> duration) (dv_minimum_execution_duration_nanos view) \<and>
        is_none_or (\<lambda>maximum. duration \<le> maximum) (dv_maximum_execution_duration_nanos view))"

definition qualifier_allowed :: "dataset_view \<Rightarrow> string \<Rightarrow> bool" where
  "qualifier_allowed view qualifier \<longleftrightarrow> dv_qualifiers view = [] \<or> qualifier \<in> set (dv_qualifiers view)"

definition instant_key :: "event \<Rightarrow> int \<times> nat \<times> string" where
  "instant_key e = (epoch_nanos_utc (ev_timestamp e), ev_sequence e, ev_external_id e)"

definition filtered_events_for_objects :: "'j local_provider \<Rightarrow> dataset_view \<Rightarrow> nat list \<Rightarrow> event list" where
  "filtered_events_for_objects p view object_ids =
    (let event_ids = concat (map (\<lambda>object_id. map e2o_event_id (filter (\<lambda>r. e2o_object_id r = object_id \<and>
        qualifier_allowed view (e2o_qualifier r)) (log_e2o (lp_log p)))) object_ids)
     in sort_key instant_key (filter (\<lambda>e. ev_id e \<in> set event_ids \<and> event_matches_view view e) (log_events (lp_log p))))"

definition event_objects :: "'j local_provider \<Rightarrow> nat list \<Rightarrow> (nat, nat list) btree_map" where
  "event_objects p selected = bt_of_list (List.map_filter (\<lambda>(event_id, object_ids).
     let found = filter (\<lambda>i. i \<in> set selected) object_ids in
     if found \<noteq> [] then Some (event_id, found) else None) (lp_objects_by_event p))"

definition leading_execution :: "'j local_provider \<Rightarrow> dataset_view \<Rightarrow> object \<Rightarrow> process_execution" where
  "leading_execution p view ob = \<lparr>pe_id = ''object:'' @ ob_external_id ob, pe_object_type = ob_type ob,
     pe_object_ids = [ob_id ob], pe_events = filtered_events_for_objects p view [ob_id ob],
     pe_event_object_ids = event_objects p [ob_id ob]\<rparr>"

definition leading_executions :: "'j local_provider \<Rightarrow> dataset_view \<Rightarrow> string option \<Rightarrow> process_execution list" where
  "leading_executions p view leading_object_type =
    (let leading_type = (case leading_object_type of Some l \<Rightarrow> Some l | None \<Rightarrow> first_opt (dv_object_types view))
     in filter (\<lambda>e. pe_events e \<noteq> [] \<and> execution_duration_matches view (pe_events e))
       (map (leading_execution p view)
         (filter (\<lambda>ob. is_none_or (\<lambda>kind. ob_type ob = kind) leading_type \<and> object_matches_view p view (ob_id ob))
           (log_objects (lp_log p)))))"

section \<open>Connected components\<close>

definition object_indexes :: "object list \<Rightarrow> nat \<rightharpoonup> nat" where
  "object_indexes objects = fold (\<lambda>(i, ob) m. m(ob_id ob \<mapsto> i)) (indexed objects) Map.empty"

text \<open>\<open>union.join(left, right)\<close> when both objects have an index.\<close>

definition join_found :: "(nat \<rightharpoonup> nat) \<Rightarrow> nat \<times> nat \<Rightarrow> union_find \<Rightarrow> union_find option" where
  "join_found indexes = (\<lambda>(a, b) u. case (indexes a, indexes b) of
     (Some i, Some j) \<Rightarrow> uf_join u i j | _ \<Rightarrow> Some u)"

definition join_event_objects :: "(nat \<rightharpoonup> nat) \<Rightarrow> nat list \<Rightarrow> union_find \<Rightarrow> union_find option" where
  "join_event_objects indexes object_ids u = (case object_ids of [] \<Rightarrow> Some u
     | first # rest \<Rightarrow> fold_opt (\<lambda>object_id. join_found indexes (first, object_id)) rest u)"

definition union_objects :: "'j local_provider \<Rightarrow> union_find option" where
  "union_objects p = (let indexes = object_indexes (log_objects (lp_log p)) in do {
     u \<leftarrow> fold_opt (join_event_objects indexes) (bt_values (lp_objects_by_event p))
       (uf_new (length (log_objects (lp_log p))));
     fold_opt (\<lambda>r. join_found indexes (o2o_source_object_id r, o2o_target_object_id r)) (log_o2o (lp_log p)) u })"

definition group_object :: "'j local_provider \<Rightarrow> dataset_view \<Rightarrow> nat \<times> object
    \<Rightarrow> union_find \<times> (nat, nat list) btree_map \<Rightarrow> (union_find \<times> (nat, nat list) btree_map) option" where
  "group_object p view = (\<lambda>(i, ob) (u, groups).
     if object_matches_view p view (ob_id ob)
     then do { (u, r) \<leftarrow> uf_root u i; Some (u, bt_push r (ob_id ob) groups) }
     else Some (u, groups))"

definition component_execution :: "'j local_provider \<Rightarrow> dataset_view \<Rightarrow> nat \<times> nat list \<Rightarrow> process_execution option" where
  "component_execution p view = (\<lambda>(r, object_ids).
     let object_ids = sort object_ids; events = filtered_events_for_objects p view object_ids in
     if events \<noteq> [] \<and> execution_duration_matches view events
     then Some \<lparr>pe_id = ''component:'' @ show_nat r, pe_object_type = ''connected_component'',
       pe_object_ids = object_ids, pe_events = events, pe_event_object_ids = event_objects p object_ids\<rparr>
     else None)"

definition connected_executions :: "'j local_provider \<Rightarrow> dataset_view \<Rightarrow> process_execution list option" where
  "connected_executions p view = do {
     u \<leftarrow> union_objects p;
     (u, groups) \<leftarrow> fold_opt (group_object p view) (indexed (log_objects (lp_log p))) (u, []);
     Some (List.map_filter (component_execution p view) groups) }"

definition local_process_executions :: "'j local_provider \<Rightarrow> dataset_view \<Rightarrow> execution_mode \<Rightarrow> string option
    \<Rightarrow> process_execution list ocpm_result option" where
  "local_process_executions p view mode leading_object_type = (case mode of
     LeadingObject \<Rightarrow> Some (Ok (leading_executions p view leading_object_type))
   | ConnectedComponent \<Rightarrow> map_option Ok (connected_executions p view))"

section \<open>Queries\<close>

text \<open>\<open>iter().all(f)\<close> and \<open>iter().any(f)\<close> with a closure that changes a captured variable: they stop at
  the first failure or success.\<close>

fun all_st :: "('a \<Rightarrow> 's \<Rightarrow> bool \<times> 's) \<Rightarrow> 'a list \<Rightarrow> 's \<Rightarrow> bool \<times> 's" where
  "all_st f [] s = (True, s)"
| "all_st f (x # xs) s = (case f x s of (b, s') \<Rightarrow> if b then all_st f xs s' else (False, s'))"

fun any_st :: "('a \<Rightarrow> 's \<Rightarrow> bool \<times> 's) \<Rightarrow> 'a list \<Rightarrow> 's \<Rightarrow> bool \<times> 's" where
  "any_st f [] s = (False, s)"
| "any_st f (x # xs) s = (case f x s of (b, s') \<Rightarrow> if b then (True, s') else any_st f xs s')"

lemma all_st_cong [fundef_cong]:
  "xs = ys \<Longrightarrow> s = t \<Longrightarrow> (\<And>x s. x \<in> set ys \<Longrightarrow> f x s = g x s) \<Longrightarrow> all_st f xs s = all_st g ys t"
proof (induction ys arbitrary: xs s t)
  case (Cons y ys)
  have "all_st f ys s' = all_st g ys s'" for s' using Cons.IH [of ys s' s'] Cons.prems(3) by simp
  then show ?case using Cons.prems by (simp split: prod.splits)
qed simp

lemma any_st_cong [fundef_cong]:
  "xs = ys \<Longrightarrow> s = t \<Longrightarrow> (\<And>x s. x \<in> set ys \<Longrightarrow> f x s = g x s) \<Longrightarrow> any_st f xs s = any_st g ys t"
proof (induction ys arbitrary: xs s t)
  case (Cons y ys)
  have "any_st f ys s' = any_st g ys s'" for s' using Cons.IH [of ys s' s'] Cons.prems(3) by simp
  then show ?case using Cons.prems by (simp split: prod.splits)
qed simp

definition eventually_step :: "string \<Rightarrow> string \<Rightarrow> event \<Rightarrow> bool \<Rightarrow> bool \<times> bool" where
  "eventually_step source target e source_seen =
    (source_seen \<and> ev_activity e = target, if ev_activity e = source then True else source_seen)"

definition within_distance :: "int option \<Rightarrow> int option \<Rightarrow> event \<Rightarrow> event \<Rightarrow> bool" where
  "within_distance minimum_nanos maximum_nanos left right =
    (let distance = i128_saturating_sub (epoch_nanos_utc (ev_timestamp right)) (epoch_nanos_utc (ev_timestamp left))
     in is_none_or (\<lambda>minimum. minimum \<le> distance) minimum_nanos \<and>
        is_none_or (\<lambda>maximum. distance \<le> maximum) maximum_nanos)"

definition object_has_type :: "'j local_provider \<Rightarrow> string \<Rightarrow> nat \<Rightarrow> bool" where
  "object_has_type p kind i = is_some_and (\<lambda>ob. ob_type ob = kind) (log_object (lp_log p) i)"

fun evaluate_constraint :: "'j local_provider \<Rightarrow> process_execution \<Rightarrow> constraint \<Rightarrow> string list \<Rightarrow> bool \<times> string list" where
  "evaluate_constraint p execution (EventIdC event_ids) labels =
    (\<exists>e \<in> set (pe_events execution). ev_id e \<in> set event_ids, labels)"
| "evaluate_constraint p execution (ObjectIdC object_ids) labels =
    (\<exists>i \<in> set (pe_object_ids execution). i \<in> set object_ids, labels)"
| "evaluate_constraint p execution (EventActivity activities) labels =
    (\<exists>e \<in> set (pe_events execution). ev_activity e \<in> set activities, labels)"
| "evaluate_constraint p execution (EventAttributeEquals name v) labels =
    (\<exists>e \<in> set (pe_events execution). opt_attr_eq (bt_get (ev_attributes e) name) v, labels)"
| "evaluate_constraint p execution (ObjectAttributeEquals name v) labels =
    (\<exists>i \<in> set (pe_object_ids execution). opt_attr_eq
      (object_attribute_value_at p i name (map_option ev_timestamp (last_opt (pe_events execution)))) v, labels)"
| "evaluate_constraint p execution (ObjectType object_types) labels =
    (\<exists>i \<in> set (pe_object_ids execution).
      is_some_and (\<lambda>ob. ob_type ob \<in> set object_types) (log_object (lp_log p) i), labels)"
| "evaluate_constraint p execution (E2oQualifier qualifiers) labels =
    (\<exists>r \<in> set (log_e2o (lp_log p)). e2o_event_id r \<in> set (map ev_id (pe_events execution)) \<and>
      e2o_object_id r \<in> set (pe_object_ids execution) \<and> e2o_qualifier r \<in> set qualifiers, labels)"
| "evaluate_constraint p execution (O2oQualifier qualifiers) labels =
    (\<exists>r \<in> set (log_o2o (lp_log p)). o2o_source_object_id r \<in> set (pe_object_ids execution) \<and>
      o2o_target_object_id r \<in> set (pe_object_ids execution) \<and> o2o_qualifier r \<in> set qualifiers, labels)"
| "evaluate_constraint p execution (DirectlyFollows source target) labels =
    (\<exists>(a, b) \<in> set (windows2 (pe_events execution)). ev_activity a = source \<and> ev_activity b = target, labels)"
| "evaluate_constraint p execution (EventuallyFollows source target) labels =
    (fst (any_st (eventually_step source target) (pe_events execution) False), labels)"
| "evaluate_constraint p execution (TemporalDistance source target minimum_nanos maximum_nanos) labels =
    (\<exists>(i, left) \<in> set (indexed (pe_events execution)). ev_activity left = source \<and>
      (\<exists>right \<in> set (drop (i + 1) (pe_events execution)).
        ev_activity right = target \<and> within_distance minimum_nanos maximum_nanos left right), labels)"
| "evaluate_constraint p execution (Relationship source_object_type target_object_type qualifier) labels =
    (\<exists>r \<in> set (log_o2o (lp_log p)). o2o_source_object_id r \<in> set (pe_object_ids execution) \<and>
      o2o_target_object_id r \<in> set (pe_object_ids execution) \<and> is_none_or (\<lambda>v. o2o_qualifier r = v) qualifier \<and>
      is_none_or (\<lambda>v. object_has_type p v (o2o_source_object_id r)) source_object_type \<and>
      is_none_or (\<lambda>v. object_has_type p v (o2o_target_object_id r)) target_object_type, labels)"
| "evaluate_constraint p execution (ChildCount child minimum maximum) labels =
    (let count = length (filter (\<lambda>e. fst (evaluate_constraint p (execution\<lparr>pe_events := [e]\<rparr>) child []))
        (pe_events execution))
     in (minimum \<le> count \<and> is_none_or (\<lambda>m. count \<le> m) maximum, labels))"
| "evaluate_constraint p execution (And children) labels =
    all_st (\<lambda>child labels. evaluate_constraint p execution child labels) children labels"
| "evaluate_constraint p execution (Or children) labels =
    any_st (\<lambda>child labels. evaluate_constraint p execution child labels) children labels"
| "evaluate_constraint p execution (Not child) labels =
    (case evaluate_constraint p execution child labels of (b, labels') \<Rightarrow> (\<not> b, labels'))"
| "evaluate_constraint p execution (Label name child) labels =
    (case evaluate_constraint p execution child labels of (matched, labels') \<Rightarrow>
      (matched, if matched then labels' @ [name] else labels'))"

definition query_step :: "'j local_provider \<Rightarrow> query_request \<Rightarrow> process_execution
    \<Rightarrow> query_binding list \<times> nat \<Rightarrow> query_binding list \<times> nat" where
  "query_step p request execution = (\<lambda>(bindings, total_matches).
    case evaluate_constraint p execution (qr_constraint request) [] of (matched, labels) \<Rightarrow>
      if matched
      then (if length bindings < qr_limit request
         then bindings @ [\<lparr>qb_event_ids = map ev_id (pe_events execution), qb_object_ids = pe_object_ids execution,
           qb_labels = labels, qb_violated = False\<rparr>]
         else bindings, u64_saturating_add total_matches 1)
      else (bindings, total_matches))"

definition local_query :: "'j local_provider \<Rightarrow> query_request \<Rightarrow> query_result ocpm_result" where
  "local_query p request =
    (if qr_semantic_version request \<noteq> ''1.0'' then Err (invalid_request ''semantic_version must be 1.0'')
     else case fold (query_step p request) (leading_executions p (qr_view request) None) ([], 0) of
       (bindings, total_matches) \<Rightarrow>
         Ok \<lparr>qres_bindings = bindings, qres_total_matches = total_matches,
           qres_truncated = length bindings < total_matches\<rparr>)"

section \<open>Profiles, snapshots and estimates\<close>

definition no_object_filter :: "dataset_view \<Rightarrow> bool" where
  "no_object_filter view \<longleftrightarrow> dv_object_types view = [] \<and> dv_object_ids view = [] \<and>
     dv_object_attributes view = [] \<and> dv_related_object_types view = []"

definition matching_objects :: "'j local_provider \<Rightarrow> dataset_view \<Rightarrow> object list" where
  "matching_objects p view = filter (\<lambda>ob. object_matches_view p view (ob_id ob)) (log_objects (lp_log p))"

definition o2o_in_window :: "dataset_view \<Rightarrow> object_object_relation \<Rightarrow> bool" where
  "o2o_in_window view r \<longleftrightarrow>
     is_none_or (\<lambda>from. is_none_or (\<lambda>stop. epoch_nanos_utc from < epoch_nanos_utc stop) (dv_end view)) (o2o_valid_from r) \<and>
     is_none_or (\<lambda>to. is_none_or (\<lambda>start. epoch_nanos_utc start < epoch_nanos_utc to) (dv_start view)) (o2o_valid_to r)"

definition selected_events :: "'j local_provider \<Rightarrow> dataset_view \<Rightarrow> nat list \<Rightarrow> event list" where
  "selected_events p view relation_event_ids = filter (\<lambda>e. event_matches_view view e \<and>
     (no_object_filter view \<or> ev_id e \<in> set relation_event_ids)) (log_events (lp_log p))"

definition selected_relations :: "'j local_provider \<Rightarrow> dataset_view \<Rightarrow> nat list \<Rightarrow> event_object_relation list" where
  "selected_relations p view object_ids = filter (\<lambda>r. e2o_object_id r \<in> set object_ids \<and>
     qualifier_allowed view (e2o_qualifier r)) (log_e2o (lp_log p))"

definition selected_o2o :: "'j local_provider \<Rightarrow> dataset_view \<Rightarrow> nat list \<Rightarrow> object_object_relation list" where
  "selected_o2o p view object_ids = filter (\<lambda>r. o2o_source_object_id r \<in> set object_ids \<and>
     o2o_target_object_id r \<in> set object_ids \<and> qualifier_allowed view (o2o_qualifier r) \<and>
     o2o_in_window view r) (log_o2o (lp_log p))"

definition profile_event :: "event \<Rightarrow> dataset_profile \<Rightarrow> dataset_profile" where
  "profile_event e pf = pf\<lparr>dp_activities := bt_incr (ev_activity e) 1 (dp_activities pf),
     dp_start := Some (case dp_start pf of None \<Rightarrow> ev_timestamp e | Some v \<Rightarrow> min v (ev_timestamp e)),
     dp_end := Some (case dp_end pf of None \<Rightarrow> ev_timestamp e | Some v \<Rightarrow> max v (ev_timestamp e))\<rparr>"

definition profile_object :: "object \<Rightarrow> dataset_profile \<Rightarrow> dataset_profile" where
  "profile_object ob pf = pf\<lparr>dp_object_types := bt_incr (ob_type ob) 1 (dp_object_types pf)\<rparr>"

definition local_profile :: "'j local_provider \<Rightarrow> dataset_view \<Rightarrow> dataset_profile ocpm_result" where
  "local_profile p view =
    (let selected_object_ids = map ob_id (matching_objects p view);
       relations = selected_relations p view selected_object_ids;
       events = selected_events p view (map e2o_event_id relations);
       objects = matching_objects p view;
       profile = \<lparr>dp_dataset_id = log_dataset_id (lp_log p), dp_tenant_id = log_tenant_id (lp_log p),
         dp_source_watermark = log_source_watermark (lp_log p), dp_event_count = length events,
         dp_object_count = length objects, dp_e2o_count = length relations,
         dp_o2o_count = length (selected_o2o p view selected_object_ids),
         dp_object_attribute_change_count = length (filter (\<lambda>c. oac_object_id c \<in> set selected_object_ids \<and>
           contains_timestamp view (oac_valid_from c)) (log_attribute_history (lp_log p))),
         dp_activities = [], dp_object_types = [], dp_start = None, dp_end = None\<rparr>
     in Ok (fold profile_object objects (fold profile_event events profile)))"

definition local_snapshot :: "'j local_provider \<Rightarrow> dataset_view \<Rightarrow> 'j canonical_log ocpm_result" where
  "local_snapshot p view =
    (let object_ids = map ob_id (matching_objects p view);
       relation_event_ids = map e2o_event_id (selected_relations p view object_ids);
       events = selected_events p view relation_event_ids;
       event_ids = map ev_id events;
       snapshot = \<lparr>log_dataset_id = log_dataset_id (lp_log p), log_tenant_id = log_tenant_id (lp_log p),
         log_source_watermark = log_source_watermark (lp_log p),
         log_events = events,
         log_objects = filter (\<lambda>ob. ob_id ob \<in> set object_ids) (log_objects (lp_log p)),
         log_e2o = filter (\<lambda>r. e2o_event_id r \<in> set event_ids \<and> e2o_object_id r \<in> set object_ids \<and>
           qualifier_allowed view (e2o_qualifier r)) (log_e2o (lp_log p)),
         log_o2o = selected_o2o p view object_ids,
         log_attribute_history = filter (\<lambda>c. oac_object_id c \<in> set object_ids) (log_attribute_history (lp_log p)),
         log_metadata = log_metadata (lp_log p)\<rparr>;
       snapshot = sort_canonical snapshot
     in rbind (log_validate snapshot) (\<lambda>_. Ok snapshot))"

definition local_capabilities :: "provider_capability list" where
  "local_capabilities = [CanonicalScan, ProcessExecutions, ObjectCentricQuery, DfgAggregate, VariantAggregate,
     PerformanceAggregate, BottleneckObservations, PredictionFeatures]"

definition local_capability_report :: "capability_report ocpm_result" where
  "local_capability_report = Ok \<lparr>rep_lifecycle = coverage_available, rep_resource = coverage_available,
     rep_shared_event = coverage_available,
     rep_resource_calendar = coverage_unavailable ''resource_calendar_not_supplied''\<rparr>"

definition local_estimate :: "'j local_provider \<Rightarrow> dataset_view \<Rightarrow> provider_capability \<Rightarrow> provider_estimate" where
  "local_estimate p view operation =
    (let n = length (filter (\<lambda>e. contains_timestamp view (ev_timestamp e)) (log_events (lp_log p)))
     in \<lparr>est_startup_ns = 1000, est_rows_read = n, est_rows_returned = n, est_bytes_transferred = 0,
       est_peak_memory_bytes = u64_saturating_mul n 64, est_confidence = f64_one\<rparr>)"

section \<open>Providers built from a log\<close>

definition local_wf :: "'j local_provider \<Rightarrow> bool" where
  "local_wf p \<longleftrightarrow> wf_log (lp_log p) \<and> sort_canonical (lp_log p) = lp_log p \<and>
     lp_objects_by_event p = objects_by_event (log_e2o (lp_log p))"

lemma sort_canonical_idem: "sort_canonical (sort_canonical cl) = sort_canonical cl"
  by (simp add: sort_canonical_def sort_key_idem)

lemma sort_canonical_sorted:
  assumes "sort_canonical cl = cl"
  shows "sorted (map event_key (log_events cl))" and "sorted (map oac_key (log_attribute_history cl))"
proof -
  show "sorted (map event_key (log_events cl))"
    using arg_cong [OF assms, of log_events] by (simp add: sort_canonical_def) (metis sorted_sort_key)
  show "sorted (map oac_key (log_attribute_history cl))"
    using arg_cong [OF assms, of log_attribute_history] by (simp add: sort_canonical_def) (metis sorted_sort_key)
qed

lemma local_new_wf: "local_new cl = Ok p \<Longrightarrow> local_wf p \<and> lp_log p = sort_canonical cl"
  by (auto simp: local_new_def result_simps log_validate_Ok_iff local_wf_def wf_log_sort sort_canonical_idem Let_def)

lemma max_by_last_snoc:
  "max_by_last f (xs @ [x]) = (case max_by_last f xs of None \<Rightarrow> Some x | Some y \<Rightarrow> if f x < f y then Some y else Some x)"
  by (simp add: max_by_last_def)

lemma max_by_last_sorted: "sorted (map f xs) \<Longrightarrow> max_by_last f xs = last_opt xs"
proof (induction xs rule: rev_induct)
  case (snoc x xs)
  then have "max_by_last f xs = last_opt xs" by (simp add: sorted_append)
  moreover have "xs \<noteq> [] \<Longrightarrow> f (last xs) \<le> f x" using snoc.prems by (simp add: sorted_append)
  ultimately show ?case by (auto simp: max_by_last_snoc last_opt_def)
qed (simp add: max_by_last_def last_opt_def)

text \<open>The attribute changes of an object before an instant, and the last of them in the order of
  time stamps.\<close>

definition change_of :: "'j local_provider \<Rightarrow> nat \<Rightarrow> string \<Rightarrow> timestamp option \<Rightarrow> object_attribute_change \<Rightarrow> bool" where
  "change_of p i name before c \<longleftrightarrow> c \<in> set (log_attribute_history (lp_log p)) \<and> oac_object_id c = i \<and> oac_name c = name \<and>
     is_none_or (\<lambda>stop. epoch_nanos_utc (oac_valid_from c) < epoch_nanos_utc stop) before"

definition attribute_is :: "'j local_provider \<Rightarrow> nat \<Rightarrow> string \<Rightarrow> timestamp option \<Rightarrow> attribute_value \<Rightarrow> bool" where
  "attribute_is p i name before v \<longleftrightarrow> (\<exists>c. change_of p i name before c \<and> attr_eq (oac_value c) v \<and>
     (\<forall>c'. change_of p i name before c' \<longrightarrow> oac_valid_from c' \<le> oac_valid_from c))"

lemma epoch_mono: "s \<le> t \<Longrightarrow> epoch_nanos_utc s \<le> epoch_nanos_utc t"
  by (auto simp: less_eq_timestamp_def less_eq_prod_def)

lemma last_greatest: "sorted_wrt (\<lambda>x y. f x \<le> f y) xs \<Longrightarrow> x \<in> set xs \<Longrightarrow> f x \<le> (f (last xs) :: 'b::linorder)"
  by (induction xs) auto

lemma attribute_value_correct:
  assumes "local_wf p"
  shows "opt_attr_eq (object_attribute_value_at p i name before) v \<longleftrightarrow> attribute_is p i name before v"
proof -
  define cs where "cs = filter (\<lambda>c. oac_object_id c = i \<and> oac_name c = name \<and>
    is_none_or (\<lambda>stop. epoch_nanos_utc (oac_valid_from c) < epoch_nanos_utc stop) before) (log_attribute_history (lp_log p))"
  have "sorted (map oac_key (log_attribute_history (lp_log p)))"
    using assms by (intro sort_canonical_sorted) (simp add: local_wf_def)
  then have keys: "sorted_wrt (\<lambda>c c'. oac_key c \<le> oac_key c') cs" by (simp add: sorted_map sorted_wrt_filter cs_def)
  have mem: "change_of p i name before c \<longleftrightarrow> c \<in> set cs" for c by (auto simp: change_of_def cs_def)
  have same: "oac_object_id c = i" "oac_name c = name" if "c \<in> set cs" for c using that by (simp_all add: cs_def)
  have order: "sorted_wrt (\<lambda>c c'. oac_valid_from c \<le> oac_valid_from c') cs"
    using keys by (rule sorted_wrt_mono_rel [rotated]) (auto simp: oac_key_def less_eq_prod_def same)
  then have "sorted (map (\<lambda>c. epoch_nanos_utc (oac_valid_from c)) cs)"
    unfolding sorted_map by (rule sorted_wrt_mono_rel [rotated]) (rule epoch_mono)
  then have val: "object_attribute_value_at p i name before = map_option oac_value (last_opt cs)"
    by (simp add: object_attribute_value_at_def max_by_last_sorted cs_def [symmetric])
  have inj: "inj_on oac_key (set cs)"
    using assms by (auto simp: local_wf_def wf_log_def Let_def distinct_map inj_on_def cs_def)
  show ?thesis
  proof (cases "cs = []")
    case True
    then show ?thesis by (simp add: val last_opt_def opt_attr_eq_def attribute_is_def mem)
  next
    case False
    then have l: "last cs \<in> set cs" by simp
    have "c = last cs" if "c \<in> set cs" "oac_valid_from (last cs) \<le> oac_valid_from c" for c
    proof (rule inj_onD [OF inj _ that(1) l])
      show "oac_key c = oac_key (last cs)"
        using same [OF that(1)] same [OF l] that(2) last_greatest [OF order that(1)] by (simp add: oac_key_def)
    qed
    then have "attribute_is p i name before v \<longleftrightarrow> attr_eq (oac_value (last cs)) v"
      unfolding attribute_is_def mem using l last_greatest [OF order] by blast
    then show ?thesis using False by (simp add: val last_opt_def opt_attr_eq_def)
  qed
qed

section \<open>What holds of an execution\<close>

text \<open>The reading of a query constraint, by positions and rows instead of loops.\<close>

definition type_is :: "'j local_provider \<Rightarrow> nat \<Rightarrow> string \<Rightarrow> bool" where
  "type_is p i kind \<longleftrightarrow> (\<exists>ob \<in> set (log_objects (lp_log p)). ob_id ob = i \<and> ob_type ob = kind)"

definition inner_o2o :: "'j local_provider \<Rightarrow> process_execution \<Rightarrow> object_object_relation \<Rightarrow> bool" where
  "inner_o2o p x r \<longleftrightarrow> r \<in> set (log_o2o (lp_log p)) \<and>
     {o2o_source_object_id r, o2o_target_object_id r} \<subseteq> set (pe_object_ids x)"

fun holds :: "'j local_provider \<Rightarrow> process_execution \<Rightarrow> constraint \<Rightarrow> bool" where
  "holds p x (EventIdC ids) = (ev_id ` set (pe_events x) \<inter> set ids \<noteq> {})"
| "holds p x (ObjectIdC ids) = (set (pe_object_ids x) \<inter> set ids \<noteq> {})"
| "holds p x (EventActivity activities) = (set (activity_path x) \<inter> set activities \<noteq> {})"
| "holds p x (EventAttributeEquals name v) =
    (\<exists>e \<in> set (pe_events x). \<exists>w. bt_get (ev_attributes e) name = Some w \<and> attr_eq w v)"
| "holds p x (ObjectAttributeEquals name v) = (\<exists>i \<in> set (pe_object_ids x).
    attribute_is p i name (if pe_events x = [] then None else Some (ev_timestamp (last (pe_events x)))) v)"
| "holds p x (ObjectType kinds) = (\<exists>i \<in> set (pe_object_ids x). \<exists>kind \<in> set kinds. type_is p i kind)"
| "holds p x (E2oQualifier qualifiers) = (\<exists>r \<in> set (log_e2o (lp_log p)). e2o_qualifier r \<in> set qualifiers \<and>
    e2o_object_id r \<in> set (pe_object_ids x) \<and> (\<exists>e \<in> set (pe_events x). ev_id e = e2o_event_id r))"
| "holds p x (O2oQualifier qualifiers) = (\<exists>r. inner_o2o p x r \<and> o2o_qualifier r \<in> set qualifiers)"
| "holds p x (DirectlyFollows source target) = (\<exists>i. Suc i < length (activity_path x) \<and>
    activity_path x ! i = source \<and> activity_path x ! Suc i = target)"
| "holds p x (EventuallyFollows source target) = (\<exists>j < length (activity_path x).
    activity_path x ! j = target \<and> (\<exists>i < j. activity_path x ! i = source))"
| "holds p x (TemporalDistance source target minimum maximum) = (\<exists>i j. i < j \<and> j < length (pe_events x) \<and>
    ev_activity (pe_events x ! i) = source \<and> ev_activity (pe_events x ! j) = target \<and>
    within_distance minimum maximum (pe_events x ! i) (pe_events x ! j))"
| "holds p x (Relationship source_type target_type qualifier) = (\<exists>r. inner_o2o p x r \<and> qualifier \<in> {None, Some (o2o_qualifier r)} \<and>
    (source_type = None \<or> type_is p (o2o_source_object_id r) (the source_type)) \<and>
    (target_type = None \<or> type_is p (o2o_target_object_id r) (the target_type)))"
| "holds p x (ChildCount child minimum maximum) =
    (let n = card {i. i < length (pe_events x) \<and> holds p (x\<lparr>pe_events := [pe_events x ! i]\<rparr>) child}
     in minimum \<le> n \<and> (maximum = None \<or> n \<le> the maximum))"
| "holds p x (And children) = (\<forall>c \<in> set children. holds p x c)"
| "holds p x (Or children) = (\<exists>c \<in> set children. holds p x c)"
| "holds p x (Not child) = (\<not> holds p x child)"
| "holds p x (Label _ child) = holds p x child"

text \<open>The labels a constraint can push: those whose labelled part holds, outside child counts.\<close>

fun matched_labels :: "'j local_provider \<Rightarrow> process_execution \<Rightarrow> constraint \<Rightarrow> string set" where
  "matched_labels p x (And children) = (\<Union>c \<in> set children. matched_labels p x c)"
| "matched_labels p x (Or children) = (\<Union>c \<in> set children. matched_labels p x c)"
| "matched_labels p x (Not child) = matched_labels p x child"
| "matched_labels p x (Label name child) = (if holds p x child then {name} else {}) \<union> matched_labels p x child"
| "matched_labels p x _ = {}"

lemma any_eventually:
  "fst (any_st (eventually_step a b) es seen) \<longleftrightarrow>
    (\<exists>j < length es. ev_activity (es ! j) = b \<and> (seen \<or> (\<exists>i < j. ev_activity (es ! i) = a)))"
proof (induction es arbitrary: seen)
  case (Cons e es)
  show ?case
    using Cons.IH by (cases "ev_activity e = a"; cases seen; cases "ev_activity e = b")
      (simp_all add: eventually_step_def [of _ _ e] Ex_less_Suc2)
qed simp

lemma windows2_set: "(a, b) \<in> set (windows2 xs) \<longleftrightarrow> (\<exists>i. Suc i < length xs \<and> a = xs ! i \<and> b = xs ! Suc i)"
  by (auto simp: windows2_conv_nth less_diff_conv)

lemma set_drop_nth: "x \<in> set (drop n xs) \<longleftrightarrow> (\<exists>j. n \<le> j \<and> j < length xs \<and> x = xs ! j)"
proof
  assume "x \<in> set (drop n xs)"
  then obtain k where "k < length (drop n xs)" "x = drop n xs ! k" by (auto simp: in_set_conv_nth)
  then show "\<exists>j. n \<le> j \<and> j < length xs \<and> x = xs ! j" by (intro exI [of _ "n + k"]) auto
next
  assume "\<exists>j. n \<le> j \<and> j < length xs \<and> x = xs ! j"
  then obtain j where "n \<le> j" "j < length xs" "x = xs ! j" by blast
  then show "x \<in> set (drop n xs)" by (intro nth_mem [of "j - n" "drop n xs", simplified, THEN back_subst [of "\<lambda>y. y \<in> _"]]) auto
qed

text \<open>Stopping at the first failure or success changes the labels, not the answer.\<close>

lemma all_st_labels:
  assumes "\<And>c l. c \<in> set cs \<Longrightarrow> \<exists>new. f c l = (P c, l @ new) \<and> set new \<subseteq> L c"
  shows "\<exists>new. all_st f cs l = ((\<forall>c \<in> set cs. P c), l @ new) \<and> set new \<subseteq> (\<Union>c \<in> set cs. L c)"
  using assms
proof (induction cs arbitrary: l)
  case (Cons c cs)
  obtain n1 where n1: "f c l = (P c, l @ n1)" "set n1 \<subseteq> L c" using Cons.prems [of c l] by auto
  obtain n2 where n2: "all_st f cs (l @ n1) = ((\<forall>c \<in> set cs. P c), (l @ n1) @ n2)" "set n2 \<subseteq> (\<Union>c \<in> set cs. L c)"
    using Cons.IH [of "l @ n1"] Cons.prems by (metis list.set_intros(2))
  show ?case
  proof (cases "P c")
    case True
    then show ?thesis using n1 n2 by (intro exI [of _ "n1 @ n2"]) auto
  qed (use n1 in auto)
qed simp

lemma any_st_labels:
  assumes "\<And>c l. c \<in> set cs \<Longrightarrow> \<exists>new. f c l = (P c, l @ new) \<and> set new \<subseteq> L c"
  shows "\<exists>new. any_st f cs l = ((\<exists>c \<in> set cs. P c), l @ new) \<and> set new \<subseteq> (\<Union>c \<in> set cs. L c)"
  using assms
proof (induction cs arbitrary: l)
  case (Cons c cs)
  obtain n1 where n1: "f c l = (P c, l @ n1)" "set n1 \<subseteq> L c" using Cons.prems [of c l] by auto
  obtain n2 where n2: "any_st f cs (l @ n1) = ((\<exists>c \<in> set cs. P c), (l @ n1) @ n2)" "set n2 \<subseteq> (\<Union>c \<in> set cs. L c)"
    using Cons.IH [of "l @ n1"] Cons.prems by (metis list.set_intros(2))
  show ?case
  proof (cases "P c")
    case False
    then show ?thesis using n1 n2 by (intro exI [of _ "n1 @ n2"]) auto
  qed (use n1 in auto)
qed simp

lemma log_object_type:
  assumes "local_wf p"
  shows "is_some_and (\<lambda>ob. P (ob_type ob)) (log_object (lp_log p) i) \<longleftrightarrow> (\<exists>kind. P kind \<and> type_is p i kind)"
proof -
  have uniq: "ob = ob'" if "ob \<in> set (log_objects (lp_log p))" "ob' \<in> set (log_objects (lp_log p))" "ob_id ob = ob_id ob'" for ob ob'
    using assms that by (auto simp: local_wf_def wf_log_def Let_def distinct_map inj_on_def)
  show ?thesis
    unfolding log_object_def is_some_and_def type_is_def
    by (auto simp: find_None_iff find_Some_iff split: option.splits) (metis nth_mem uniq)+
qed

lemma evaluate_holds:
  assumes "local_wf p"
  shows "\<exists>new. evaluate_constraint p x c labels = (holds p x c, labels @ new) \<and> set new \<subseteq> matched_labels p x c"
proof (induction c arbitrary: x labels)
  case (ObjectAttributeEquals n v)
  show ?case by (auto simp: attribute_value_correct [OF assms] last_opt_def)
next
  case (ObjectType ts)
  show ?case by (simp add: log_object_type [OF assms, of "\<lambda>k. k \<in> set ts"] Bex_def)
next
  case (Relationship s t u)
  have eq: "object_has_type p k i = type_is p i k" for k i
    using log_object_type [OF assms, of "\<lambda>k'. k' = k" i] by (auto simp: object_has_type_def)
  show ?case by (cases s; cases t; cases u; fastforce simp: eq inner_o2o_def is_none_or_def)
next
  case (E2oQualifier qs)
  show ?case by (force simp: image_iff)
next
  case (EventuallyFollows a b)
  have "holds p x (EventuallyFollows a b) \<longleftrightarrow> fst (any_st (eventually_step a b) (pe_events x) False)"
    unfolding any_eventually by (simp add: activity_path_def cong: conj_cong)
  then show ?case by simp
next
  case (DirectlyFollows a b)
  show ?case by (fastforce simp: windows2_set activity_path_def Bex_def)
next
  case (TemporalDistance a b mn mx)
  let ?es = "pe_events x"
  have "(\<exists>(i, l) \<in> set (indexed ?es). ev_activity l = a \<and> (\<exists>r \<in> set (drop (i + 1) ?es). ev_activity r = b \<and> within_distance mn mx l r)) \<longleftrightarrow>
      (\<exists>i. i < length ?es \<and> ev_activity (?es ! i) = a \<and> (\<exists>j. i < j \<and> j < length ?es \<and> ev_activity (?es ! j) = b \<and>
        within_distance mn mx (?es ! i) (?es ! j)))"
    by (fastforce simp: set_indexed set_drop_nth Suc_le_eq Bex_def)
  then have "(\<exists>(i, l) \<in> set (indexed ?es). ev_activity l = a \<and> (\<exists>r \<in> set (drop (i + 1) ?es). ev_activity r = b \<and> within_distance mn mx l r)) \<longleftrightarrow>
      holds p x (TemporalDistance a b mn mx)" using less_trans by (simp only: holds.simps) blast
  then show ?case by simp
next
  case (ChildCount c mn mx)
  have "fst (evaluate_constraint p y c []) = holds p y c" for y using ChildCount [of y "[]"] by auto
  then show ?case by (cases mx) (simp_all add: length_filter_conv_card Let_def is_none_or_def)
next
  case (And cs)
  then show ?case using all_st_labels [of cs "evaluate_constraint p x" "holds p x" "matched_labels p x"] by simp
next
  case (Or cs)
  then show ?case using any_st_labels [of cs "evaluate_constraint p x" "holds p x" "matched_labels p x"] by simp
next
  case (Not c)
  obtain new where "evaluate_constraint p x c labels = (holds p x c, labels @ new)" "set new \<subseteq> matched_labels p x c"
    using Not [of x labels] by blast
  then show ?case by auto
next
  case (Label n c)
  obtain new where "evaluate_constraint p x c labels = (holds p x c, labels @ new)" "set new \<subseteq> matched_labels p x c"
    using Label [of x labels] by blast
  then show ?case by (cases "holds p x c") auto
qed (auto simp: activity_path_def opt_attr_eq_def inner_o2o_def split: option.splits)

text \<open>C8: Query constraints mean what they say: on a provider built from a log, the evaluator, with its
  short-circuiting, its scan flags and its look-ups, answers exactly the reading of the constraint
  by positions and rows, and it only appends labels whose labelled part holds.\<close>

theorem evaluate_constraint_correct:
  assumes "local_new cl = Ok p"
  shows "fst (evaluate_constraint p x c labels) = holds p x c \<and>
   (\<exists>new. snd (evaluate_constraint p x c labels) = labels @ new \<and> set new \<subseteq> matched_labels p x c)"
  using evaluate_holds [of p x c labels] local_new_wf [OF assms] by auto

definition sample_provider :: "unit local_provider" where
  "sample_provider = \<lparr>lp_log = sort_canonical sample_log, lp_objects_by_event = [(1, [1]), (2, [1])]\<rparr>"

lemma sample_provider_new: "local_new sample_log = Ok sample_provider"
proof -
  have "objects_by_event (log_e2o (sort_canonical sample_log)) = [(1, [1]), (2, [1])]" by code_simp
  then show ?thesis
    using log_validate_Ok_iff [of sample_log] sample_log_wf by (simp add: local_new_def sample_provider_def Let_def)
qed

theorem evaluate_constraint_correct_witness:
  "\<exists>x \<in> set (leading_executions sample_provider default_view None).
     holds sample_provider x (And [Label ''paid'' (EventuallyFollows ''order'' ''pay''), Not (EventActivity [''ship''])]) \<and>
     snd (evaluate_constraint sample_provider x (And [Label ''paid'' (EventuallyFollows ''order'' ''pay''),
       Not (EventActivity [''ship''])]) []) = [''paid'']"
proof -
  let ?c = "And [Label ''paid'' (EventuallyFollows ''order'' ''pay''), Not (EventActivity [''ship''])]"
  let ?x = "leading_execution sample_provider default_view \<lparr>ob_id = 1, ob_external_id = ''o1'', ob_type = ''order''\<rparr>"
  have x: "leading_executions sample_provider default_view None = [?x]"
    and v: "evaluate_constraint sample_provider ?x ?c [] = (True, [''paid''])" by code_simp+
  have "holds sample_provider ?x ?c"
    using evaluate_constraint_correct [OF sample_provider_new, of ?x ?c "[]"] v by simp
  then show ?thesis using x v by simp
qed

section \<open>Snapshots\<close>

text \<open>The rows a view keeps, read off the log: an object's events by an allowed relation to it.\<close>

definition link_kept :: "dataset_view \<Rightarrow> string \<Rightarrow> bool" where
  "link_kept view qualifier \<longleftrightarrow> (dv_qualifiers view \<noteq> [] \<longrightarrow> qualifier \<in> set (dv_qualifiers view))"

definition o2o_kept :: "dataset_view \<Rightarrow> object_object_relation \<Rightarrow> bool" where
  "o2o_kept view r \<longleftrightarrow> link_kept view (o2o_qualifier r) \<and>
     (\<forall>from stop. o2o_valid_from r = Some from \<and> dv_end view = Some stop \<longrightarrow> epoch_nanos_utc from < epoch_nanos_utc stop) \<and>
     (\<forall>to start. o2o_valid_to r = Some to \<and> dv_start view = Some start \<longrightarrow> epoch_nanos_utc start < epoch_nanos_utc to)"

definition snapshot_rows :: "'j local_provider \<Rightarrow> dataset_view \<Rightarrow> 'j canonical_log \<Rightarrow> 'j canonical_log \<Rightarrow> bool" where
  "snapshot_rows p view cl s \<longleftrightarrow>
    (let ids = ob_id ` set (log_objects s); kept = ev_id ` set (log_events s) in
     set (log_objects s) = {ob \<in> set (log_objects cl). object_matches_view p view (ob_id ob)} \<and>
     set (log_events s) = {e \<in> set (log_events cl). event_matches_view view e \<and> (no_object_filter view \<or>
       (\<exists>r \<in> set (log_e2o cl). e2o_event_id r = ev_id e \<and> e2o_object_id r \<in> ids \<and> link_kept view (e2o_qualifier r)))} \<and>
     set (log_e2o s) = {r \<in> set (log_e2o cl). e2o_event_id r \<in> kept \<and> e2o_object_id r \<in> ids \<and>
       link_kept view (e2o_qualifier r)} \<and>
     set (log_o2o s) = {r \<in> set (log_o2o cl). o2o_source_object_id r \<in> ids \<and> o2o_target_object_id r \<in> ids \<and>
       o2o_kept view r} \<and>
     set (log_attribute_history s) = {c \<in> set (log_attribute_history cl). oac_object_id c \<in> ids} \<and>
     log_dataset_id s = log_dataset_id cl \<and> log_tenant_id s = log_tenant_id cl \<and>
     log_source_watermark s = log_source_watermark cl \<and> log_metadata s = log_metadata cl)"

lemma link_kept_allowed: "qualifier_allowed view q = link_kept view q"
  by (auto simp: link_kept_def qualifier_allowed_def)

lemma o2o_kept_allowed: "qualifier_allowed view (o2o_qualifier r) \<and> o2o_in_window view r \<longleftrightarrow> o2o_kept view r"
  by (auto simp: o2o_kept_def link_kept_allowed o2o_in_window_def is_none_or_def split: option.split)

lemma snapshot_rows_sorted: "snapshot_rows p view (sort_canonical cl) s = snapshot_rows p view cl s"
  "snapshot_rows p view cl (sort_canonical s) = snapshot_rows p view cl s"
  by (simp_all add: snapshot_rows_def sort_canonical_def)

lemma local_snapshot_Ok:
  assumes "local_wf p"
  shows "\<exists>s. local_snapshot p view = Ok s \<and> wf_log s \<and> sort_canonical s = s \<and> snapshot_rows p view (lp_log p) s"
proof -
  let ?l = "lp_log p"
  have wf: "wf_log ?l" using assms by (simp add: local_wf_def)
  have wf_snapshot: "wf_log s" if "log_objects s = filter P (log_objects ?l)" "log_events s = filter Q (log_events ?l)"
    "log_e2o s = filter (\<lambda>r. e2o_event_id r \<in> ev_id ` set (log_events s) \<and> e2o_object_id r \<in> ob_id ` set (log_objects s) \<and> R r) (log_e2o ?l)"
    "log_o2o s = filter (\<lambda>r. o2o_source_object_id r \<in> ob_id ` set (log_objects s) \<and>
       o2o_target_object_id r \<in> ob_id ` set (log_objects s) \<and> T r) (log_o2o ?l)"
    "log_attribute_history s = filter (\<lambda>c. oac_object_id c \<in> ob_id ` set (log_objects s)) (log_attribute_history ?l)"
    for s :: "'a canonical_log" and P Q R T
    using wf unfolding wf_log_def Let_def that by (simp add: distinct_map_filter)
  define object_ids where "object_ids = map ob_id (matching_objects p view)"
  have ids: "filter (\<lambda>ob. ob_id ob \<in> set object_ids) (log_objects ?l) = matching_objects p view"
    unfolding object_ids_def matching_objects_def by (rule filter_cong) auto
  define s where "s = \<lparr>log_dataset_id = log_dataset_id ?l, log_tenant_id = log_tenant_id ?l,
    log_source_watermark = log_source_watermark ?l,
    log_events = selected_events p view (map e2o_event_id (selected_relations p view object_ids)),
    log_objects = matching_objects p view,
    log_e2o = filter (\<lambda>r. e2o_event_id r \<in> set (map ev_id (selected_events p view (map e2o_event_id (selected_relations p view object_ids)))) \<and>
      e2o_object_id r \<in> set object_ids \<and> qualifier_allowed view (e2o_qualifier r)) (log_e2o ?l),
    log_o2o = selected_o2o p view object_ids,
    log_attribute_history = filter (\<lambda>c. oac_object_id c \<in> set object_ids) (log_attribute_history ?l),
    log_metadata = log_metadata ?l\<rparr>"
  have w: "wf_log s"
    by (rule wf_snapshot [where T = "\<lambda>r. qualifier_allowed view (o2o_qualifier r) \<and> o2o_in_window view r"])
      (auto simp: s_def object_ids_def matching_objects_def selected_events_def selected_o2o_def)
  have "set (log_events s) = {e \<in> set (log_events ?l). event_matches_view view e \<and> (no_object_filter view \<or>
      (\<exists>r \<in> set (log_e2o ?l). e2o_event_id r = ev_id e \<and> e2o_object_id r \<in> ob_id ` set (log_objects s) \<and>
        link_kept view (e2o_qualifier r)))}"
    by (auto simp: s_def selected_events_def selected_relations_def object_ids_def link_kept_allowed image_iff; metis)
  then have rows: "snapshot_rows p view ?l s"
    by (auto simp: snapshot_rows_def Let_def s_def matching_objects_def selected_o2o_def object_ids_def
        link_kept_allowed o2o_kept_allowed simp flip: o2o_kept_allowed)
  have "local_snapshot p view = rbind (log_validate (sort_canonical s)) (\<lambda>_. Ok (sort_canonical s))"
    unfolding local_snapshot_def Let_def object_ids_def [symmetric] ids s_def ..
  then have "local_snapshot p view = Ok (sort_canonical s)"
    using w log_validate_Ok_iff [of "sort_canonical s"] by (simp add: wf_log_sort)
  then show ?thesis
    using w rows by (intro exI [of _ "sort_canonical s"]) (simp add: wf_log_sort sort_canonical_idem snapshot_rows_sorted)
qed

lemma default_matches:
  "ob \<in> set (log_objects (lp_log p)) \<Longrightarrow> object_matches_view p default_view (ob_id ob)" "event_matches_view default_view e"
proof -
  assume "ob \<in> set (log_objects (lp_log p))"
  then have "log_object (lp_log p) (ob_id ob) \<noteq> None" by (auto simp: log_object_def find_None_iff)
  then show "object_matches_view p default_view (ob_id ob)" by (auto simp: object_matches_view_def default_view_def)
qed (simp add: event_matches_view_def default_view_def contains_timestamp_def is_none_or_def)

lemma log_eta: "\<lparr>log_dataset_id = log_dataset_id cl, log_tenant_id = log_tenant_id cl,
    log_source_watermark = log_source_watermark cl, log_events = log_events cl, log_objects = log_objects cl,
    log_e2o = log_e2o cl, log_o2o = log_o2o cl, log_attribute_history = log_attribute_history cl,
    log_metadata = log_metadata cl\<rparr> = (cl :: 'j canonical_log)"
  by (cases cl) simp

lemma local_snapshot_default:
  assumes "local_wf p"
  shows "local_snapshot p default_view = Ok (lp_log p)"
proof -
  let ?l = "lp_log p"
  have wf: "wf_log ?l" and srt: "sort_canonical ?l = ?l" using assms by (simp_all add: local_wf_def)
  have m: "matching_objects p default_view = log_objects ?l"
    unfolding matching_objects_def by (simp add: default_matches)
  have e: "selected_events p default_view ids = log_events ?l" for ids
    unfolding selected_events_def by (simp add: default_matches) (simp add: no_object_filter_def default_view_def)
  have q: "qualifier_allowed default_view k" "o2o_in_window default_view r" for k r
    by (simp_all add: qualifier_allowed_def o2o_in_window_def default_view_def is_none_or_def split: option.split)
  have rows: "filter (\<lambda>ob. ob_id ob \<in> set (map ob_id (log_objects ?l))) (log_objects ?l) = log_objects ?l"
    "filter (\<lambda>r. e2o_event_id r \<in> set (map ev_id (log_events ?l)) \<and> e2o_object_id r \<in> set (map ob_id (log_objects ?l)) \<and>
       qualifier_allowed default_view (e2o_qualifier r)) (log_e2o ?l) = log_e2o ?l"
    "selected_o2o p default_view (map ob_id (log_objects ?l)) = log_o2o ?l"
    "filter (\<lambda>c. oac_object_id c \<in> set (map ob_id (log_objects ?l))) (log_attribute_history ?l) = log_attribute_history ?l"
    using wf by (simp_all add: filter_id_conv q selected_o2o_def wf_log_def Let_def)
  have "local_snapshot p default_view = rbind (log_validate (sort_canonical ?l)) (\<lambda>_. Ok (sort_canonical ?l))"
    unfolding local_snapshot_def Let_def m e rows log_eta ..
  then show ?thesis using wf srt log_validate_Ok_iff [of ?l] by simp
qed

text \<open>C9: A provider built from a log can always answer with a snapshot: a valid log in canonical order
  with exactly the objects the view admits; exactly the admitted events that, when the view filters
  objects, one of those objects takes part in by an allowed qualifier; exactly the allowed relations
  between kept events and kept objects; exactly the allowed object relations between kept objects
  whose validity meets the window; exactly the kept objects' attribute changes; and the log's identity,
  watermark and metadata. The unrestricted snapshot is the whole log.\<close>

theorem local_snapshot_valid:
  assumes "local_new cl = Ok p"
  shows "(\<exists>s. local_snapshot p view = Ok s \<and> wf_log s \<and> sort_canonical s = s \<and> snapshot_rows p view cl s) \<and>
    local_snapshot p default_view = Ok (sort_canonical cl)"
proof -
  have p: "local_wf p" "lp_log p = sort_canonical cl" using local_new_wf [OF assms] by simp_all
  show ?thesis
    using local_snapshot_Ok [OF p(1), of view] local_snapshot_default [OF p(1)] by (simp add: p(2) snapshot_rows_sorted)
qed

theorem local_snapshot_valid_witness:
  "\<exists>s. local_snapshot sample_provider (default_view\<lparr>dv_activities := [''pay'']\<rparr>) = Ok s \<and> wf_log s \<and>
     map ev_id (log_events s) = [2] \<and> map e2o_relation_id (log_e2o s) = [2]"
proof -
  let ?v = "default_view\<lparr>dv_activities := [''pay'']\<rparr>"
  obtain s where s: "local_snapshot sample_provider ?v = Ok s" "wf_log s"
    using local_snapshot_valid [OF sample_provider_new, of ?v] by blast
  have "map_sum id (\<lambda>s. (map ev_id (log_events s), map e2o_relation_id (log_e2o s))) (local_snapshot sample_provider ?v) = Ok ([2], [2])"
    by code_simp
  then show ?thesis using s by auto
qed

section \<open>Executions and queries\<close>

lemma wf_log_external_ids: "wf_log cl \<Longrightarrow> distinct (map instant_key (log_events cl))"
  by (rule distinct_map_finer [of ev_external_id]) (simp_all add: wf_log_def Let_def instant_key_def)

lemma filtered_events_sorted:
  assumes "local_wf p"
  shows "sorted_wrt (\<lambda>a b. instant_key a < instant_key b) (filtered_events_for_objects p view ids)"
proof -
  let ?es = "filtered_events_for_objects p view ids"
  have "sorted (map instant_key ?es)" by (simp add: filtered_events_for_objects_def Let_def)
  moreover have "distinct (map instant_key ?es)"
    unfolding filtered_events_for_objects_def Let_def distinct_map_mset [OF mset_sort]
    using assms by (intro distinct_map_filter wf_log_external_ids) (simp add: local_wf_def)
  ultimately have "sorted_wrt (<) (map instant_key ?es)" by (simp add: strict_sorted_iff)
  then show ?thesis by (simp add: sorted_wrt_map)
qed

lemma filtered_events_set:
  "set (filtered_events_for_objects p view ids) = {e \<in> set (log_events (lp_log p)). event_matches_view view e \<and>
     (\<exists>r \<in> set (log_e2o (lp_log p)). e2o_event_id r = ev_id e \<and> e2o_object_id r \<in> set ids \<and>
        qualifier_allowed view (e2o_qualifier r))}"
  by (force simp: filtered_events_for_objects_def Let_def)

lemma leading_executionsD:
  assumes "e \<in> set (leading_executions p view leading)"
  obtains ob where "ob \<in> set (log_objects (lp_log p))" and "object_matches_view p view (ob_id ob)"
    and "e = leading_execution p view ob" and "pe_events e \<noteq> []" and "execution_duration_matches view (pe_events e)"
    and "is_none_or (\<lambda>kind. ob_type ob = kind) leading"
  using assms by (auto simp: leading_executions_def Let_def is_none_or_def split: option.splits)

lemma fold_query_step:
  assumes "n + length xs \<le> u64_max" and "length bs = min n (qr_limit request)"
  shows "fold (query_step p request) xs (bs, n) =
    (let ms = filter (\<lambda>x. fst (evaluate_constraint p x (qr_constraint request) [])) xs in
     (bs @ map (\<lambda>x. \<lparr>qb_event_ids = map ev_id (pe_events x), qb_object_ids = pe_object_ids x,
        qb_labels = snd (evaluate_constraint p x (qr_constraint request) []), qb_violated = False\<rparr>)
        (take (qr_limit request - n) ms), n + length ms))"
  using assms
proof (induction xs arbitrary: bs n)
  case (Cons x xs)
  have sat: "u64_saturating_add n (Suc 0) = Suc n" using Cons.prems by (simp add: u64_saturating_add_def)
  obtain m l where ml: "evaluate_constraint p x (qr_constraint request) [] = (m, l)" by force
  show ?case
  proof (cases m)
    case False
    then show ?thesis using Cons.prems Cons.IH [of n bs] by (simp add: query_step_def [of _ _ x] ml)
  next
    case True
    show ?thesis
    proof (cases "n < qr_limit request")
      case less: True
      then have "qr_limit request - n = Suc (qr_limit request - Suc n)" by simp
      then show ?thesis
        using True less Cons.prems by (simp add: query_step_def [of _ _ x] ml sat) (subst Cons.IH; simp add: Let_def)
    next
      case False
      then show ?thesis
        using True Cons.prems by (simp add: query_step_def [of _ _ x] ml sat) (subst Cons.IH; simp add: Let_def)
    qed
  qed
qed (simp add: Let_def)

text \<open>C10: A query returns the matches in execution order, cut at the limit: with the executions that
  satisfy the constraint counted exactly, the result is marked truncated exactly when there are
  more of them than the limit; an unknown semantic version is an invalid request.\<close>

theorem local_query_correct:
  assumes "local_new cl = Ok p" and "length (log_objects cl) \<le> u64_max"
  shows "let ms = filter (\<lambda>x. holds p x (qr_constraint request)) (leading_executions p (qr_view request) None) in
    if qr_semantic_version request \<noteq> ''1.0'' then local_query p request = Err (invalid_request ''semantic_version must be 1.0'')
    else \<exists>res. local_query p request = Ok res \<and> qres_total_matches res = length ms \<and>
      map qb_object_ids (qres_bindings res) = map pe_object_ids (take (qr_limit request) ms) \<and>
      map qb_event_ids (qres_bindings res) = map (map ev_id \<circ> pe_events) (take (qr_limit request) ms) \<and>
      (qres_truncated res \<longleftrightarrow> qr_limit request < length ms)"
proof -
  have p: "local_wf p" "lp_log p = sort_canonical cl" using local_new_wf [OF assms(1)] by simp_all
  have ev: "fst (evaluate_constraint p x (qr_constraint request) []) = holds p x (qr_constraint request)" for x
    using evaluate_holds [OF p(1), of x "qr_constraint request" "[]"] by auto
  let ?xs = "leading_executions p (qr_view request) None"
  have "length ?xs \<le> length (log_objects (lp_log p))"
    unfolding leading_executions_def Let_def by (rule order.trans [OF length_filter_le]) simp
  then have len: "0 + length ?xs \<le> u64_max" using assms(2) p(2) by (simp add: sort_canonical_def)
  have "min (length ms) k < length ms \<longleftrightarrow> k < length ms" for k and ms :: "process_execution list" by auto
  then show ?thesis
    by (simp add: local_query_def fold_query_step [OF len, where bs = "[]", simplified] Let_def ev comp_def min.commute)
qed

theorem local_query_correct_witness:
  "\<exists>res. local_query sample_provider \<lparr>qr_semantic_version = ''1.0'', qr_view = default_view,
      qr_constraint = EventuallyFollows ''order'' ''pay'', qr_limit = 5\<rparr> = Ok res \<and>
    qres_total_matches res = 1 \<and> \<not> qres_truncated res"
proof -
  let ?r = "\<lparr>qr_semantic_version = ''1.0'', qr_view = default_view,
      qr_constraint = EventuallyFollows ''order'' ''pay'', qr_limit = 5\<rparr>"
  have "length (log_objects sample_log) \<le> u64_max" by (simp add: sample_log_def u64_max_def)
  from local_query_correct [OF sample_provider_new this, of ?r]
  obtain res where res: "local_query sample_provider ?r = Ok res"
    "qres_truncated res \<longleftrightarrow> 5 < qres_total_matches res" by (auto simp: Let_def)
  have "map_sum id qres_total_matches (local_query sample_provider ?r) = Ok 1" by code_simp
  then show ?thesis using res by auto
qed

section \<open>The execution contract\<close>

text \<open>\<open>process_executions\<close> as the callers of the provider trait see it.\<close>

definition local_method :: "'j local_provider \<Rightarrow> executions_method" where
  "local_method p view mode leading = the (local_process_executions p view mode leading)"

lemma log_object_id: "log_object cl i = Some ob \<Longrightarrow> ob_id ob = i \<and> ob \<in> set (log_objects cl)"
  by (auto simp: log_object_def find_Some_iff)

lemma object_matches_ids: "object_matches_view p view i \<Longrightarrow> dv_object_ids view = [] \<or> i \<in> set (dv_object_ids view)"
  by (auto simp: object_matches_view_def dest!: log_object_id split: option.splits)

interpretation local: leading_provider "local_method p"
proof unfold_locales
  fix view leading es e
  assume "local_method p view LeadingObject leading = Ok es" "e \<in> set es"
  then have "e \<in> set (leading_executions p view leading)" by (simp add: local_method_def local_process_executions_def)
  then obtain ob where "object_matches_view p view (ob_id ob)" "e = leading_execution p view ob"
    by (rule leading_executionsD)
  then show "\<exists>i. pe_object_ids e = [i] \<and> (dv_object_ids view = [] \<or> i \<in> set (dv_object_ids view))"
    using object_matches_ids by (auto simp: leading_execution_def)
qed

section \<open>Connected components are the components\<close>

lemma objects_by_event_in:
  "ids \<in> set (bt_values (objects_by_event rs)) \<longleftrightarrow> (\<exists>r \<in> set rs.
    ids = sort (map e2o_object_id (filter (\<lambda>s. e2o_event_id s = e2o_event_id r) rs)))"
proof -
  have "ids \<in> set (bt_values (objects_by_event rs)) \<longleftrightarrow>
      (\<exists>k vs. (k, vs) \<in> set (fold (\<lambda>r. bt_push (e2o_event_id r) (e2o_object_id r)) rs []) \<and> ids = sort vs)"
    by (force simp: bt_values_def objects_by_event_def)
  also have "\<dots> \<longleftrightarrow> (\<exists>r \<in> set rs. ids = sort (map e2o_object_id (filter (\<lambda>s. e2o_event_id s = e2o_event_id r) rs)))"
    unfolding fold_push_in by blast
  finally show ?thesis .
qed

text \<open>The pairs of objects the code joins.\<close>

definition event_pairs :: "nat list \<Rightarrow> (nat \<times> nat) list" where
  "event_pairs ids = (case ids of [] \<Rightarrow> [] | first # rest \<Rightarrow> map (Pair first) rest)"

definition joined_pairs :: "'j local_provider \<Rightarrow> (nat \<times> nat) list" where
  "joined_pairs p = concat (map event_pairs (bt_values (lp_objects_by_event p))) @
     map (\<lambda>r. (o2o_source_object_id r, o2o_target_object_id r)) (log_o2o (lp_log p))"

definition found_pair :: "(nat \<rightharpoonup> nat) \<Rightarrow> nat \<times> nat \<Rightarrow> (nat \<times> nat) list" where
  "found_pair indexes = (\<lambda>(a, b). case (indexes a, indexes b) of (Some i, Some j) \<Rightarrow> [(i, j)] | _ \<Rightarrow> [])"

lemma joins_append: "uf.joins u (xs @ ys) = Option.bind (uf.joins u xs) (\<lambda>u'. uf.joins u' ys)"
proof (induction xs arbitrary: u)
  case (Cons x xs)
  then show ?case by (cases x; cases "uf_join u (fst x) (snd x)") simp_all
qed simp

lemma join_found_joins: "join_found indexes ab u = uf.joins u (found_pair indexes ab)"
  by (auto simp: join_found_def found_pair_def split: prod.splits option.splits bind_split)

lemma fold_opt_joins:
  assumes "\<And>x u. x \<in> set xs \<Longrightarrow> f x u = uf.joins u (g x)"
  shows "fold_opt f xs u = uf.joins u (concat (map g xs))"
  using assms
proof (induction xs arbitrary: u)
  case (Cons x xs)
  have "fold_opt f xs = (\<lambda>u'. uf.joins u' (concat (map g xs)))" by (rule ext) (use Cons in simp)
  then show ?case using Cons.prems [of x u] by (simp add: joins_append)
qed simp

lemma union_objects_joins:
  "union_objects p = uf.joins (uf_new (length (log_objects (lp_log p))))
     (concat (map (found_pair (object_indexes (log_objects (lp_log p)))) (joined_pairs p)))"
proof -
  let ?ix = "object_indexes (log_objects (lp_log p))"
  have ev: "join_event_objects ?ix ids u = uf.joins u (concat (map (found_pair ?ix) (event_pairs ids)))" for ids u
    by (cases ids) (simp_all add: join_event_objects_def event_pairs_def fold_opt_joins [OF join_found_joins] comp_def)
  have "concat (map (\<lambda>ids. concat (map (found_pair ?ix) (event_pairs ids))) xs) =
      concat (map (found_pair ?ix) (concat (map event_pairs xs)))" for xs
    by (induction xs) simp_all
  then show ?thesis
    by (simp add: union_objects_def Let_def joined_pairs_def fold_opt_joins [OF ev] fold_opt_joins [OF join_found_joins]
        joins_append comp_def)
qed

lemma object_indexes_Some: "object_indexes obs i = Some k \<Longrightarrow> k < length obs \<and> ob_id (obs ! k) = i"
proof (induction obs arbitrary: i k rule: rev_induct)
  case (snoc ob obs)
  have "object_indexes (obs @ [ob]) = (object_indexes obs)(ob_id ob \<mapsto> length obs)"
    by (simp add: object_indexes_def indexed_def)
  then show ?case using snoc by (fastforce simp: nth_append split: if_splits)
qed (simp add: object_indexes_def indexed_def)

lemma object_indexes_nth: "distinct (map ob_id obs) \<Longrightarrow> k < length obs \<Longrightarrow> object_indexes obs (ob_id (obs ! k)) = Some k"
proof (induction obs rule: rev_induct)
  case (snoc ob obs)
  have "object_indexes (obs @ [ob]) = (object_indexes obs)(ob_id ob \<mapsto> length obs)"
    by (simp add: object_indexes_def indexed_def)
  then show ?case using snoc by (auto simp: nth_append less_Suc_eq image_iff) (metis nth_mem)
qed simp

text \<open>The forest always answers.\<close>

lemma union_objects_Some:
  "\<exists>u. union_objects p = Some u \<and> uf_inv (length (log_objects (lp_log p))) u \<and>
    (\<forall>x < length (log_objects (lp_log p)). \<forall>y < length (log_objects (lp_log p)). uf_rep u x = uf_rep u y \<longleftrightarrow>
      (x, y) \<in> (let ps = set (concat (map (found_pair (object_indexes (log_objects (lp_log p)))) (joined_pairs p)))
        in ps \<union> ps\<inverse>)\<^sup>*)"
  unfolding union_objects_joins Let_def
  by (rule uf.joins_connected) (auto simp: found_pair_def split: option.splits dest!: sym [THEN object_indexes_Some])

lemma group_objects:
  assumes "uf_inv n u" and "\<forall>x < n. uf_rep u x = rep x" and "\<forall>(i, ob) \<in> set xs. i < n"
  shows "\<exists>u'. fold_opt (group_object p view) xs (u, g) = Some (u', fold (\<lambda>x. bt_push (rep (fst x)) (ob_id (snd x)))
    (filter (\<lambda>x. object_matches_view p view (ob_id (snd x))) xs) g)"
  using assms
proof (induction xs arbitrary: u g)
  case (Cons x xs)
  obtain i ob where x: "x = (i, ob)" by force
  show ?case
  proof (cases "object_matches_view p view (ob_id ob)")
    case True
    have "i < n" using Cons.prems(3) x by simp
    then obtain u' where u': "uf_root u i = Some (u', rep i)" "uf_inv n u'" "\<forall>x < n. uf_rep u' x = rep x"
      using uf_find_correct [OF Cons.prems(1)] Cons.prems(2) by force
    then show ?thesis using Cons.IH [OF u'(2,3)] Cons.prems(3) True x by (simp add: group_object_def [of _ _ ])
  next
    case False
    then show ?thesis using Cons.IH [OF Cons.prems(1,2)] Cons.prems(3) x by (simp add: group_object_def [of _ _])
  qed
qed simp

lemma connected_executions_Some:
  "\<exists>u. union_objects p = Some u \<and> connected_executions p view = Some (List.map_filter (component_execution p view)
    (fold (\<lambda>x. bt_push (uf_rep u (fst x)) (ob_id (snd x)))
      (filter (\<lambda>x. object_matches_view p view (ob_id (snd x))) (indexed (log_objects (lp_log p)))) []))"
proof -
  obtain u where u: "union_objects p = Some u" "uf_inv (length (log_objects (lp_log p))) u"
    using union_objects_Some by blast
  have "\<forall>(i, ob) \<in> set (indexed (log_objects (lp_log p))). i < length (log_objects (lp_log p))"
    by (auto simp: set_indexed)
  from group_objects [OF u(2) _ this, of "uf_rep u" p view "[]"] u(1) show ?thesis
    by (auto simp: connected_executions_def)
qed

text \<open>Two objects are linked when they share an event or a relation of the log joins them.\<close>

definition linked :: "'j canonical_log \<Rightarrow> (nat \<times> nat) set" where
  "linked cl = {(e2o_object_id r, e2o_object_id s) | r s. r \<in> set (log_e2o cl) \<and> s \<in> set (log_e2o cl) \<and>
       e2o_event_id r = e2o_event_id s} \<union>
     {(o2o_source_object_id r, o2o_target_object_id r) | r. r \<in> set (log_o2o cl)} \<union>
     {(o2o_target_object_id r, o2o_source_object_id r) | r. r \<in> set (log_o2o cl)}"

lemma linked_e2o: "r \<in> set (log_e2o cl) \<Longrightarrow> s \<in> set (log_e2o cl) \<Longrightarrow> e2o_event_id r = e2o_event_id s \<Longrightarrow>
    (e2o_object_id r, e2o_object_id s) \<in> linked cl"
  by (auto simp: linked_def)

lemma linked_o2o: "r \<in> set (log_o2o cl) \<Longrightarrow>
    (o2o_source_object_id r, o2o_target_object_id r) \<in> linked cl \<and> (o2o_target_object_id r, o2o_source_object_id r) \<in> linked cl"
  by (auto simp: linked_def)

lemma linked_cases:
  assumes "ab \<in> linked cl"
  obtains r s where "ab = (e2o_object_id r, e2o_object_id s)" "r \<in> set (log_e2o cl)" "s \<in> set (log_e2o cl)"
      "e2o_event_id r = e2o_event_id s"
  | r where "r \<in> set (log_o2o cl)" "ab = (o2o_source_object_id r, o2o_target_object_id r) \<or>
      ab = (o2o_target_object_id r, o2o_source_object_id r)"
  using assms by (auto simp: linked_def)

lemma event_pairs_star:
  assumes "a \<in> set ids" and "b \<in> set ids"
  shows "(a, b) \<in> (set (event_pairs ids) \<union> (set (event_pairs ids))\<inverse>)\<^sup>*"
proof -
  obtain x xs where ids: "ids = x # xs" using assms by (cases ids) auto
  have "(x, c) \<in> (set (event_pairs ids))\<^sup>*" if "c \<in> set ids" for c
    using that ids by (cases "c = x") (auto simp: event_pairs_def)
  then have fwd: "(x, b) \<in> (set (event_pairs ids))\<^sup>*" and "(x, a) \<in> (set (event_pairs ids))\<^sup>*" using assms by simp_all
  then have "(a, x) \<in> ((set (event_pairs ids))\<inverse>)\<^sup>*" by (simp add: rtrancl_converse)
  with fwd show ?thesis by (meson in_rtrancl_UnI rtrancl_trans)
qed

definition event_group :: "event_object_relation list \<Rightarrow> event_object_relation \<Rightarrow> nat list" where
  "event_group rs r = sort (map e2o_object_id (filter (\<lambda>s. e2o_event_id s = e2o_event_id r) rs))"

lemma joined_pairs_set:
  assumes "local_wf p"
  shows "set (joined_pairs p) = (\<Union>r \<in> set (log_e2o (lp_log p)). set (event_pairs (event_group (log_e2o (lp_log p)) r))) \<union>
    {(o2o_source_object_id r, o2o_target_object_id r) | r. r \<in> set (log_o2o (lp_log p))}"
proof -
  have "set (bt_values (lp_objects_by_event p)) = event_group (log_e2o (lp_log p)) ` set (log_e2o (lp_log p))"
    using assms by (auto simp: local_wf_def objects_by_event_in event_group_def)
  then show ?thesis by (auto simp: joined_pairs_def)
qed

lemma event_pairs_linked: "set (event_pairs (event_group (log_e2o cl) r)) \<subseteq> linked cl"
proof
  fix ab
  assume ab: "ab \<in> set (event_pairs (event_group (log_e2o cl) r))"
  have "set (event_pairs ids) \<subseteq> set ids \<times> set ids" for ids :: "nat list" by (cases ids) (auto simp: event_pairs_def)
  with ab have "fst ab \<in> set (event_group (log_e2o cl) r)" "snd ab \<in> set (event_group (log_e2o cl) r)"
    by (metis mem_Times_iff subsetD)+
  then obtain s t where "s \<in> set (log_e2o cl)" "t \<in> set (log_e2o cl)" "e2o_event_id s = e2o_event_id t"
    "ab = (e2o_object_id s, e2o_object_id t)" by (cases ab) (auto simp: event_group_def)
  then show "ab \<in> linked cl" using linked_e2o by simp
qed

lemma joined_sub: "local_wf p \<Longrightarrow> set (joined_pairs p) \<subseteq> linked (lp_log p)"
  using event_pairs_linked linked_o2o by (fastforce simp: joined_pairs_set)

lemma linked_ids: "wf_log cl \<Longrightarrow> linked cl \<subseteq> ob_id ` set (log_objects cl) \<times> ob_id ` set (log_objects cl)"
  by (auto simp: linked_def wf_log_def Let_def)

lemma linked_sym: "(a, b) \<in> linked cl \<Longrightarrow> (b, a) \<in> linked cl"
  by (erule linked_cases) (auto simp: linked_e2o linked_o2o)

lemma joined_linked:
  assumes "local_wf p"
  shows "(set (joined_pairs p) \<union> (set (joined_pairs p))\<inverse>)\<^sup>* = (linked (lp_log p))\<^sup>*"
proof (rule subset_antisym; rule rtrancl_subset_rtrancl)
  let ?P = "set (joined_pairs p)" and ?rs = "log_e2o (lp_log p)"
  let ?ids = "event_group ?rs"
  show "?P \<union> ?P\<inverse> \<subseteq> (linked (lp_log p))\<^sup>*" using joined_sub [OF assms] linked_sym by blast
  note P = joined_pairs_set [OF assms]
  show "linked (lp_log p) \<subseteq> (?P \<union> ?P\<inverse>)\<^sup>*"
  proof
    fix ab
    assume "ab \<in> linked (lp_log p)"
    then show "ab \<in> (?P \<union> ?P\<inverse>)\<^sup>*"
    proof (cases rule: linked_cases)
      case (1 r s)
      have "set (event_pairs (?ids r)) \<union> (set (event_pairs (?ids r)))\<inverse> \<subseteq> ?P \<union> ?P\<inverse>" unfolding P using 1(2) by (intro Un_mono converse_mono [THEN iffD2]) auto
      moreover have "ab \<in> (set (event_pairs (?ids r)) \<union> (set (event_pairs (?ids r)))\<inverse>)\<^sup>*"
        unfolding 1(1) by (rule event_pairs_star) (use 1 in \<open>auto simp: event_group_def\<close>)
      ultimately show ?thesis using rtrancl_mono by blast
    next
      case (2 r)
      then show ?thesis unfolding P by (intro r_into_rtrancl) blast
    qed
  qed
qed

lemma rtrancl_image:
  assumes "\<And>x y. (x, y) \<in> R \<Longrightarrow> (f x, f y) \<in> S"
  shows "(a, b) \<in> R\<^sup>* \<Longrightarrow> (f a, f b) \<in> S\<^sup>*"
  by (induction rule: rtrancl_induct) (auto intro: rtrancl.rtrancl_into_rtrancl assms)

lemma same_component:
  assumes "local_wf p" and "union_objects p = Some u" and "i < length (log_objects (lp_log p))"
    and "j < length (log_objects (lp_log p))"
  shows "uf_rep u i = uf_rep u j \<longleftrightarrow>
    (ob_id (log_objects (lp_log p) ! i), ob_id (log_objects (lp_log p) ! j)) \<in> (linked (lp_log p))\<^sup>*"
proof -
  let ?obs = "log_objects (lp_log p)" and ?ix = "object_indexes (log_objects (lp_log p))"
  let ?f = "\<lambda>i. ob_id (?obs ! i)" and ?P = "set (joined_pairs p)"
  define E where "E = set (concat (map (found_pair ?ix) (joined_pairs p)))"
  have d: "distinct (map ob_id ?obs)" using assms(1) by (simp add: local_wf_def wf_log_def Let_def)
  have ix: "?ix (?f k) = Some k" if "k < length ?obs" for k using object_indexes_nth [OF d that] .
  have known: "\<exists>k. ?ix a = Some k" if "a \<in> ob_id ` set ?obs" for a
    using that ix by (metis (no_types, lifting) imageE in_set_conv_nth)
  have P_ids: "a \<in> ob_id ` set ?obs \<and> b \<in> ob_id ` set ?obs" if "(a, b) \<in> ?P" for a b
    using that joined_sub [OF assms(1)] linked_ids [of "lp_log p"] assms(1) by (auto simp: local_wf_def)
  have E_in: "(k, l) \<in> E \<longleftrightarrow> (\<exists>a b. (a, b) \<in> ?P \<and> ?ix a = Some k \<and> ?ix b = Some l)" for k l
  proof -
    have "(k, l) \<in> set (found_pair ?ix (a, b)) \<longleftrightarrow> ?ix a = Some k \<and> ?ix b = Some l" for a b
      by (auto simp: found_pair_def split: option.splits)
    then show ?thesis by (simp add: E_def Bex_def)
  qed
  have up: "(?f k, ?f l) \<in> ?P \<union> ?P\<inverse>" if "(k, l) \<in> E \<union> E\<inverse>" for k l
    using that by (auto simp: E_in dest!: object_indexes_Some)
  have down: "(the (?ix a), the (?ix b)) \<in> E \<union> E\<inverse>" if "(a, b) \<in> ?P \<union> ?P\<inverse>" for a b
    using that P_ids known by (fastforce simp: E_in)
  have "(i, j) \<in> (E \<union> E\<inverse>)\<^sup>* \<longleftrightarrow> (?f i, ?f j) \<in> (?P \<union> ?P\<inverse>)\<^sup>*"
    using rtrancl_image [of "E \<union> E\<inverse>" ?f "?P \<union> ?P\<inverse>" i j, OF up]
      rtrancl_image [of "?P \<union> ?P\<inverse>" "\<lambda>a. the (?ix a)" "E \<union> E\<inverse>" "?f i" "?f j", OF down] ix assms(3,4) by auto
  then show ?thesis
    using union_objects_Some [of p] assms(2-4) unfolding joined_linked [OF assms(1)] Let_def E_def by auto
qed

text \<open>The component of an object: the admitted objects that shared events and object relations lead to.\<close>

definition component_of :: "'j local_provider \<Rightarrow> dataset_view \<Rightarrow> 'j canonical_log \<Rightarrow> nat \<Rightarrow> nat set" where
  "component_of p view cl x = {y \<in> ob_id ` set (log_objects cl). object_matches_view p view y \<and> (x, y) \<in> (linked cl)\<^sup>*}"

definition component_ids :: "'j local_provider \<Rightarrow> dataset_view \<Rightarrow> (nat \<Rightarrow> nat) \<Rightarrow> nat \<Rightarrow> nat list" where
  "component_ids p view rep r = map (\<lambda>x. ob_id (snd x)) (filter (\<lambda>x. rep (fst x) = r)
     (filter (\<lambda>x. object_matches_view p view (ob_id (snd x))) (indexed (log_objects (lp_log p)))))"

lemma component_ids_set: "set (component_ids p view rep r) = {ob_id (log_objects (lp_log p) ! j) | j.
    j < length (log_objects (lp_log p)) \<and> object_matches_view p view (ob_id (log_objects (lp_log p) ! j)) \<and> rep j = r}"
  by (auto simp: component_ids_def set_indexed image_iff)

lemma indexed_ids: "map (\<lambda>x. g (snd x)) (indexed xs) = map g xs"
  by (simp add: indexed_def comp_def flip: map_map [of g snd, unfolded comp_def])

lemma component_ids_distinct:
  assumes "local_wf p"
  shows "distinct (component_ids p view rep r)"
proof -
  have "distinct (map (\<lambda>x. ob_id (snd x)) (indexed (log_objects (lp_log p))))"
    unfolding indexed_ids using assms by (simp add: local_wf_def wf_log_def Let_def)
  then show ?thesis unfolding component_ids_def by (simp add: distinct_map_filter)
qed

lemma component_ids_component:
  assumes "local_wf p" and "union_objects p = Some u" and "i < length (log_objects (lp_log p))"
  shows "set (component_ids p view (uf_rep u) (uf_rep u i)) = component_of p view (lp_log p) (ob_id (log_objects (lp_log p) ! i))"
proof -
  let ?obs = "log_objects (lp_log p)" and ?f = "\<lambda>j. ob_id (log_objects (lp_log p) ! j)"
  have "set (component_ids p view (uf_rep u) (uf_rep u i)) =
      {?f j | j. j < length ?obs \<and> object_matches_view p view (?f j) \<and> (?f i, ?f j) \<in> (linked (lp_log p))\<^sup>*}"
    unfolding component_ids_set using same_component [OF assms] by (auto simp: eq_commute)
  also have "\<dots> = component_of p view (lp_log p) (?f i)"
    unfolding component_of_def by (auto simp: set_conv_nth)
  finally show ?thesis .
qed

lemma component_ids_list:
  assumes "local_wf p" and "union_objects p = Some u" and "i < length (log_objects (lp_log p))"
  shows "sort (component_ids p view (uf_rep u) (uf_rep u i)) =
    sorted_list_of_set (component_of p view (lp_log p) (ob_id (log_objects (lp_log p) ! i)))"
  unfolding component_ids_component [OF assms, symmetric] sorted_list_of_set_sort_remdups
  using component_ids_distinct [OF assms(1)] by (simp add: distinct_remdups_id)

lemma connected_groups:
  assumes "connected_executions p view = Some es"
  obtains u groups where "union_objects p = Some u" and "es = List.map_filter (component_execution p view) groups"
    and "distinct (map fst groups)"
    and "\<And>r ids. (r, ids) \<in> set groups \<longleftrightarrow> ids = component_ids p view (uf_rep u) r \<and> (\<exists>i < length (log_objects (lp_log p)).
      object_matches_view p view (ob_id (log_objects (lp_log p) ! i)) \<and> uf_rep u i = r)"
proof -
  let ?m = "\<lambda>x. object_matches_view p view (ob_id (snd x))"
  obtain u where u: "union_objects p = Some u" "es = List.map_filter (component_execution p view)
    (fold (\<lambda>x. bt_push (uf_rep u (fst x)) (ob_id (snd x))) (filter ?m (indexed (log_objects (lp_log p)))) [])"
    using connected_executions_Some [of p view] assms by auto
  let ?groups = "fold (\<lambda>x. bt_push (uf_rep u (fst x)) (ob_id (snd x))) (filter ?m (indexed (log_objects (lp_log p)))) []"
  have "(\<exists>x \<in> set (filter ?m (indexed (log_objects (lp_log p)))). uf_rep u (fst x) = r) \<longleftrightarrow>
      (\<exists>i < length (log_objects (lp_log p)). object_matches_view p view (ob_id (log_objects (lp_log p) ! i)) \<and> uf_rep u i = r)" for r
    by (simp add: Bex_def split_paired_Ex set_indexed)
  then have "(r, ids) \<in> set ?groups \<longleftrightarrow> ids = component_ids p view (uf_rep u) r \<and> (\<exists>i < length (log_objects (lp_log p)).
      object_matches_view p view (ob_id (log_objects (lp_log p) ! i)) \<and> uf_rep u i = r)" for r ids
    using fold_push_in [of r ids "\<lambda>x. uf_rep u (fst x)" "\<lambda>x. ob_id (snd x)" "filter ?m (indexed (log_objects (lp_log p)))"]
    by (simp only: component_ids_def)
  then show thesis by (intro that [OF u bt_inv_distinct [OF inv_fold_push]])
qed

lemma component_execution_ids: "component_execution p view g = Some e \<Longrightarrow> pe_object_ids e = sort (snd g) \<and>
    pe_object_type e = ''connected_component'' \<and> pe_events e = filtered_events_for_objects p view (sort (snd g))"
  by (auto simp: component_execution_def Let_def split: if_splits prod.splits)

lemma component_execution_Some: "(\<exists>e. component_execution p view g = Some e) \<longleftrightarrow>
    filtered_events_for_objects p view (sort (snd g)) \<noteq> [] \<and>
    execution_duration_matches view (filtered_events_for_objects p view (sort (snd g)))"
  by (cases g) (simp add: component_execution_def Let_def)

lemma map_filter_in: "y \<in> set (List.map_filter f xs) \<longleftrightarrow> (\<exists>x \<in> set xs. f x = Some y)"
  by (force simp: List.map_filter_def)

lemma distinct_executions:
  "distinct (concat (map snd groups)) \<Longrightarrow>
    distinct (concat (map pe_object_ids (List.map_filter (component_execution p view) groups)))"
proof (induction groups)
  case (Cons g groups)
  obtain r ids where g: "g = (r, ids)" by force
  let ?es = "List.map_filter (component_execution p view) groups"
  have sub: "set (concat (map pe_object_ids ?es)) \<subseteq> set (concat (map snd groups))"
    by (force simp: map_filter_in dest: component_execution_ids)
  have ids: "distinct ids" "set ids \<inter> set (concat (map snd groups)) = {}" "distinct (concat (map pe_object_ids ?es))"
    using Cons g by simp_all
  show ?case
  proof (cases "component_execution p view (r, ids)")
    case None
    then show ?thesis using ids(3) g by (simp add: map_filter_simps)
  next
    case (Some e)
    then have "pe_object_ids e = sort ids" using component_execution_ids by fastforce
    then show ?thesis using Some g ids sub by (simp add: map_filter_simps) blast
  qed
qed (simp add: map_filter_simps)

lemma connected_executions_distinct:
  assumes "local_wf p" and "connected_executions p view = Some es"
  shows "distinct (concat (map pe_object_ids es))"
proof -
  obtain u groups where es: "es = List.map_filter (component_execution p view) groups" and d: "distinct (map fst groups)"
    and g: "\<And>r ids. (r, ids) \<in> set groups \<Longrightarrow> ids = component_ids p view (uf_rep u) r"
    using connected_groups [OF assms(2)] by metis
  have id: "i = j" if "i < length (log_objects (lp_log p))" "j < length (log_objects (lp_log p))"
    "ob_id (log_objects (lp_log p) ! i) = ob_id (log_objects (lp_log p) ! j)" for i j
  proof -
    have "distinct (map ob_id (log_objects (lp_log p)))" using assms(1) by (simp add: local_wf_def wf_log_def Let_def)
    from nth_eq_iff_index_eq [OF this, of i j] show ?thesis using that by simp
  qed
  have disjoint: "set (component_ids p view rep r) \<inter> set (component_ids p view rep r') = {}" if "r \<noteq> r'" for rep r r'
    using that unfolding component_ids_set by (auto dest: id)
  have "distinct (concat (map snd groups))" using d g
  proof (induction groups)
    case (Cons g groups)
    obtain r ids where gr: "g = (r, ids)" by force
    have "set ids \<inter> set ids' = {}" if "(r', ids') \<in> set groups" for r' ids'
      using that Cons.prems gr disjoint [of r r' "uf_rep u"] by (force simp: image_iff)
    then show ?case using Cons gr component_ids_distinct [OF assms(1), of view "uf_rep u" r] by fastforce
  qed simp
  then show ?thesis unfolding es by (rule distinct_executions)
qed

lemma connected_executions_ids:
  assumes "local_wf p" and "connected_executions p view = Some es"
  shows "set (map pe_object_ids es) = {ids. \<exists>x \<in> ob_id ` set (log_objects (lp_log p)). object_matches_view p view x \<and>
      ids = sorted_list_of_set (component_of p view (lp_log p) x) \<and> filtered_events_for_objects p view ids \<noteq> [] \<and>
      execution_duration_matches view (filtered_events_for_objects p view ids)}" (is "_ = ?components")
proof -
  let ?obs = "log_objects (lp_log p)" and ?ev = "filtered_events_for_objects p view"
  obtain u groups where u: "union_objects p = Some u" and es: "es = List.map_filter (component_execution p view) groups"
    and g: "\<And>r ids. (r, ids) \<in> set groups \<longleftrightarrow> ids = component_ids p view (uf_rep u) r \<and> (\<exists>i < length ?obs.
      object_matches_view p view (ob_id (?obs ! i)) \<and> uf_rep u i = r)"
    using connected_groups [OF assms(2)] by metis
  have "ids \<in> set (map pe_object_ids es) \<longleftrightarrow> (\<exists>g \<in> set groups. ids = sort (snd g) \<and> ?ev ids \<noteq> [] \<and>
      execution_duration_matches view (?ev ids))" for ids
  proof -
    have "ids \<in> set (map pe_object_ids es) \<longleftrightarrow> (\<exists>g \<in> set groups. \<exists>e. component_execution p view g = Some e \<and> ids = pe_object_ids e)"
      unfolding es set_map image_iff Bex_def map_filter_in by blast
    also have "\<dots> \<longleftrightarrow> (\<exists>g \<in> set groups. (\<exists>e. component_execution p view g = Some e) \<and> ids = sort (snd g))"
      using component_execution_ids by metis
    also have "\<dots> \<longleftrightarrow> (\<exists>g \<in> set groups. ids = sort (snd g) \<and> ?ev ids \<noteq> [] \<and> execution_duration_matches view (?ev ids))"
      unfolding component_execution_Some by blast
    finally show ?thesis .
  qed
  moreover have "(\<exists>g \<in> set groups. ids = sort (snd g)) \<longleftrightarrow> (\<exists>i < length ?obs. object_matches_view p view (ob_id (?obs ! i)) \<and>
      ids = sorted_list_of_set (component_of p view (lp_log p) (ob_id (?obs ! i))))" for ids
  proof -
    have "(\<exists>g \<in> set groups. ids = sort (snd g)) \<longleftrightarrow> (\<exists>i < length ?obs. object_matches_view p view (ob_id (?obs ! i)) \<and>
        ids = sort (component_ids p view (uf_rep u) (uf_rep u i)))"
      unfolding Bex_def split_paired_Ex snd_conv g by blast
    then show ?thesis using component_ids_list [OF assms(1) u, of _ view] by auto
  qed
  ultimately have "ids \<in> set (map pe_object_ids es) \<longleftrightarrow> (\<exists>i < length ?obs. object_matches_view p view (ob_id (?obs ! i)) \<and>
      ids = sorted_list_of_set (component_of p view (lp_log p) (ob_id (?obs ! i))) \<and> ?ev ids \<noteq> [] \<and>
      execution_duration_matches view (?ev ids))" for ids by blast
  then show ?thesis by (auto simp: set_conv_nth)
qed

text \<open>C11: Connected-component extraction terminates without an out-of-range access and its executions
  are the components: no object is in two of them or twice in one, and the object lists are exactly
  those, in ascending order, of the admitted objects' components under shared events and the object
  relations of the log, less the components without an admitted event or with a duration outside the
  view. Each execution carries exactly the admitted events related to its objects through an allowed
  qualifier, in strictly ascending order. Every object relation joins, whatever its validity: the
  specification's restriction to the relations active at the event has no counterpart in the code.\<close>

theorem connected_executions_components:
  assumes "local_new cl = Ok p"
  shows "\<exists>es. connected_executions p view = Some es \<and> distinct (concat (map pe_object_ids es)) \<and>
    set (map pe_object_ids es) = {ids. \<exists>x \<in> ob_id ` set (log_objects cl). object_matches_view p view x \<and>
      ids = sorted_list_of_set (component_of p view cl x) \<and> filtered_events_for_objects p view ids \<noteq> [] \<and>
      execution_duration_matches view (filtered_events_for_objects p view ids)} \<and>
    (\<forall>e \<in> set es. pe_object_type e = ''connected_component'' \<and>
      set (pe_events e) = {ev \<in> set (log_events cl). event_matches_view view ev \<and>
        (\<exists>r \<in> set (log_e2o cl). e2o_event_id r = ev_id ev \<and> e2o_object_id r \<in> set (pe_object_ids e) \<and>
          link_kept view (e2o_qualifier r))} \<and>
      sorted_wrt (\<lambda>a b. instant_key a < instant_key b) (pe_events e))"
proof -
  have p: "local_wf p" "lp_log p = sort_canonical cl" using local_new_wf [OF assms] by simp_all
  have sets: "set (log_events (lp_log p)) = set (log_events cl)" "set (log_e2o (lp_log p)) = set (log_e2o cl)"
    "set (log_objects (lp_log p)) = set (log_objects cl)" "component_of p view (lp_log p) = component_of p view cl"
    unfolding p(2) by (simp_all add: sort_canonical_def linked_def component_of_def fun_eq_iff)
  obtain es where es: "connected_executions p view = Some es" using connected_executions_Some by blast
  have "pe_object_type e = ''connected_component'' \<and> pe_events e = filtered_events_for_objects p view (pe_object_ids e)"
    if "e \<in> set es" for e
  proof (rule connected_groups [OF es])
    fix u groups
    assume "es = List.map_filter (component_execution p view) groups"
    then have "\<exists>g \<in> set groups. component_execution p view g = Some e" using that by (simp only: map_filter_in)
    then obtain g where "component_execution p view g = Some e" ..
    then show ?thesis using component_execution_ids by fastforce
  qed
  moreover note filtered_events_set [of p view, unfolded sets link_kept_allowed] filtered_events_sorted [OF p(1), of view]
  ultimately have "\<forall>e \<in> set es. pe_object_type e = ''connected_component'' \<and>
      set (pe_events e) = {ev \<in> set (log_events cl). event_matches_view view ev \<and>
        (\<exists>r \<in> set (log_e2o cl). e2o_event_id r = ev_id ev \<and> e2o_object_id r \<in> set (pe_object_ids e) \<and>
          link_kept view (e2o_qualifier r))} \<and>
      sorted_wrt (\<lambda>a b. instant_key a < instant_key b) (pe_events e)" by simp
  then show ?thesis
    using es connected_executions_ids [OF p(1) es, unfolded sets] connected_executions_distinct [OF p(1) es] by blast
qed

theorem connected_executions_components_witness:
  "\<exists>e. connected_executions sample_provider default_view = Some [e] \<and> pe_object_ids e = [1] \<and>
     sorted_wrt (\<lambda>a b. instant_key a < instant_key b) (pe_events e)"
proof -
  have "map_option (map pe_object_ids) (connected_executions sample_provider default_view) = Some [[1]]" by code_simp
  then obtain e where e: "connected_executions sample_provider default_view = Some [e]" "pe_object_ids e = [1]"
    by (auto simp: map_eq_Cons_conv)
  have "sorted_wrt (\<lambda>a b. instant_key a < instant_key b) (pe_events e)"
    using connected_executions_components [OF sample_provider_new, of default_view]
    by (simp only: e(1) option.inject simp_thms ex_simps list.set ball_simps)
  then show ?thesis using e by blast
qed

text \<open>C12: Leading-object extraction: the executions are, in the order of the log's objects, those of the
  admitted objects of the leading type that have events and an admitted duration; each carries
  exactly the admitted events related to its object through an allowed qualifier, in strictly
  ascending order of instant, sequence and external identifier.\<close>

theorem leading_executions_correct:
  assumes "local_new cl = Ok p"
  shows "map pe_object_ids (leading_executions p view (Some kind)) =
      map (\<lambda>ob. [ob_id ob]) (filter (\<lambda>ob. ob_type ob = kind \<and> object_matches_view p view (ob_id ob) \<and>
        filtered_events_for_objects p view [ob_id ob] \<noteq> [] \<and>
        execution_duration_matches view (filtered_events_for_objects p view [ob_id ob])) (log_objects (sort_canonical cl))) \<and>
    (\<forall>e \<in> set (leading_executions p view (Some kind)).
      set (pe_events e) = {ev \<in> set (log_events cl). event_matches_view view ev \<and>
        (\<exists>r \<in> set (log_e2o cl). e2o_event_id r = ev_id ev \<and> [e2o_object_id r] = pe_object_ids e \<and>
          qualifier_allowed view (e2o_qualifier r))} \<and>
      sorted_wrt (\<lambda>a b. instant_key a < instant_key b) (pe_events e))"
proof -
  have p: "local_wf p" "lp_log p = sort_canonical cl" using local_new_wf [OF assms] by simp_all
  have sets: "set (log_events (lp_log p)) = set (log_events cl)" "set (log_e2o (lp_log p)) = set (log_e2o cl)"
    unfolding p(2) by (simp_all add: sort_canonical_def)
  have "map pe_object_ids (filter P (map (leading_execution p view) obs)) =
      map (\<lambda>ob. [ob_id ob]) (filter (\<lambda>ob. P (leading_execution p view ob)) obs)" for P obs
    by (induction obs) (simp_all add: leading_execution_def)
  then have "map pe_object_ids (leading_executions p view (Some kind)) =
      map (\<lambda>ob. [ob_id ob]) (filter (\<lambda>ob. ob_type ob = kind \<and> object_matches_view p view (ob_id ob) \<and>
        filtered_events_for_objects p view [ob_id ob] \<noteq> [] \<and>
        execution_duration_matches view (filtered_events_for_objects p view [ob_id ob])) (log_objects (lp_log p)))"
    by (simp add: leading_executions_def leading_execution_def is_none_or_def conj_ac cong: filter_cong)
  moreover have "set (pe_events e) = {ev \<in> set (log_events cl). event_matches_view view ev \<and>
        (\<exists>r \<in> set (log_e2o cl). e2o_event_id r = ev_id ev \<and> [e2o_object_id r] = pe_object_ids e \<and>
          qualifier_allowed view (e2o_qualifier r))} \<and> sorted_wrt (\<lambda>a b. instant_key a < instant_key b) (pe_events e)"
    if "e \<in> set (leading_executions p view (Some kind))" for e
    using that by (rule leading_executionsD)
      (simp add: leading_execution_def filtered_events_set filtered_events_sorted [OF p(1)] sets)
  ultimately show ?thesis unfolding p(2) by blast
qed

theorem leading_executions_correct_witness:
  "\<exists>e. leading_executions sample_provider default_view (Some ''order'') = [e] \<and> pe_object_ids e = [1] \<and>
     sorted_wrt (\<lambda>a b. instant_key a < instant_key b) (pe_events e)"
proof -
  have "map pe_object_ids (leading_executions sample_provider default_view (Some ''order'')) = [[1]]" by code_simp
  then obtain e where "leading_executions sample_provider default_view (Some ''order'') = [e]" "pe_object_ids e = [1]"
    by (auto simp: map_eq_Cons_conv)
  then show ?thesis using leading_executions_correct [OF sample_provider_new, of default_view "''order''"] by auto
qed

text \<open>Resolving a case set against the local provider never widens it: the resolved view names only
  requested objects, only objects the base view allowed, and at least one of them.\<close>

theorem case_set_never_widens:
  assumes "resolve_population (local_method p) view (CaseSet ids) leading = Ok r" and "pr_view r = Some v"
  shows "dv_object_ids v \<noteq> [] \<and> set (dv_object_ids v) \<subseteq> set ids \<and>
    (dv_object_ids view \<noteq> [] \<longrightarrow> set (dv_object_ids v) \<subseteq> set (dv_object_ids view))"
  using assms(1)
proof (rule resolve_population_OkE)
  fix l view' found
  assume sel: "select_population (local_method p) view (CaseSet ids) l = Ok (view', found)"
    and "r = population_resolution_new (if is_event_time (CaseSet ids) then view' else view'\<lparr>dv_object_ids := bset found\<rparr>)
        (length (bset found))"
  then have "dv_object_ids v = bset found" "bset found \<noteq> []"
    using assms(2) by (auto simp: population_resolution_new_def is_event_time_def split: if_splits)
  then show ?thesis using local.case_set_within [OF sel] by simp
qed

theorem case_set_never_widens_witness:
  "\<exists>r v. resolve_population (local_method sample_provider) default_view (CaseSet [9, 1]) (Some ''order'') = Ok r \<and>
     pr_view r = Some v \<and> set (dv_object_ids v) \<subseteq> {9, 1}"
proof -
  have "map_sum id (map_option dv_object_ids \<circ> pr_view)
      (resolve_population (local_method sample_provider) default_view (CaseSet [9, 1]) (Some ''order'')) = Ok (Some [1])"
    by code_simp
  then obtain r v where r: "resolve_population (local_method sample_provider) default_view (CaseSet [9, 1]) (Some ''order'') = Ok r"
    "pr_view r = Some v" by (cases "resolve_population (local_method sample_provider) default_view (CaseSet [9, 1]) (Some ''order'')") auto
  then show ?thesis using case_set_never_widens [OF r] by auto
qed

section \<open>Profiles\<close>

lemma profile_events:
  "fold profile_event es pf = pf\<lparr>
     dp_activities := fold (\<lambda>e. bt_incr (ev_activity e) 1) es (dp_activities pf),
     dp_start := fold (\<lambda>e t. Some (case t of None \<Rightarrow> ev_timestamp e | Some v \<Rightarrow> min v (ev_timestamp e))) es (dp_start pf),
     dp_end := fold (\<lambda>e t. Some (case t of None \<Rightarrow> ev_timestamp e | Some v \<Rightarrow> max v (ev_timestamp e))) es (dp_end pf)\<rparr>"
  by (induction es arbitrary: pf) (simp_all add: profile_event_def)

lemma profile_objects:
  "fold profile_object obs pf = pf\<lparr>dp_object_types := fold (\<lambda>ob. bt_incr (ob_type ob) 1) obs (dp_object_types pf)\<rparr>"
  by (induction obs arbitrary: pf) (simp_all add: profile_object_def)

lemma fold_min_Some:
  fixes f :: "'a \<Rightarrow> 'b::linorder"
  shows "fold (\<lambda>e t. Some (case t of None \<Rightarrow> f e | Some v \<Rightarrow> min v (f e))) xs None =
    (if xs = [] then None else Some (Min (f ` set xs)))"
  by (induction xs rule: rev_induct) (auto simp: min.commute)

lemma fold_max_Some:
  fixes f :: "'a \<Rightarrow> 'b::linorder"
  shows "fold (\<lambda>e t. Some (case t of None \<Rightarrow> f e | Some v \<Rightarrow> max v (f e))) xs None =
    (if xs = [] then None else Some (Max (f ` set xs)))"
  by (induction xs rule: rev_induct) (auto simp: max.commute)

text \<open>A dataset profile describes the snapshot of the same view: its event, object and
  object-relation counts are the sizes of the snapshot's tables, every activity and object type of
  the snapshot is counted exactly, and start and end are the least and greatest event time stamps.\<close>

theorem local_profile_describes_snapshot:
  assumes "local_profile p view = Ok pf" and "local_snapshot p view = Ok s"
  shows "dp_event_count pf = length (log_events s) \<and> dp_object_count pf = length (log_objects s) \<and>
    dp_o2o_count pf = length (log_o2o s) \<and>
    (\<forall>a. bt_get (dp_activities pf) a = (if a \<in> ev_activity ` set (log_events s)
      then Some (length (filter (\<lambda>e. ev_activity e = a) (log_events s))) else None)) \<and>
    (\<forall>k. bt_get (dp_object_types pf) k = (if k \<in> ob_type ` set (log_objects s)
      then Some (length (filter (\<lambda>ob. ob_type ob = k) (log_objects s))) else None)) \<and>
    dp_start pf = (if log_events s = [] then None else Some (Min (ev_timestamp ` set (log_events s)))) \<and>
    dp_end pf = (if log_events s = [] then None else Some (Max (ev_timestamp ` set (log_events s))))"
proof -
  define ids where "ids = map ob_id (matching_objects p view)"
  define es where "es = selected_events p view (map e2o_event_id (selected_relations p view ids))"
  have m: "filter (\<lambda>ob. ob_id ob \<in> set ids) (log_objects (lp_log p)) = matching_objects p view"
    unfolding ids_def matching_objects_def by (rule filter_cong) auto
  have s: "log_events s = sort_key event_key es"
    "log_objects s = sort_key (\<lambda>ob. (ob_type ob, ob_external_id ob)) (matching_objects p view)"
    "log_o2o s = sort_key o2o_relation_id (selected_o2o p view ids)"
    using assms(2) unfolding local_snapshot_def Let_def ids_def [symmetric] m es_def [symmetric]
    by (auto simp: result_simps sort_canonical_def)
  have len: "length (filter P (sort_key k xs)) = length (filter P xs)" for P and k :: "'c \<Rightarrow> 'd::linorder" and xs
    by (metis mset_filter mset_sort size_mset)
  have "sort_key event_key es = [] \<longleftrightarrow> es = []" by (metis length_0_conv length_sort)
  then show ?thesis
    using assms(1) unfolding local_profile_def Let_def ids_def [symmetric] es_def [symmetric] s
    by (auto simp: profile_events profile_objects get_fold_incr fold_min_Some fold_max_Some len)
qed

theorem local_profile_describes_snapshot_witness:
  "\<exists>pf s. local_profile sample_provider default_view = Ok pf \<and> local_snapshot sample_provider default_view = Ok s \<and>
    dp_event_count pf = length (log_events s) \<and> dp_activities pf = [(''order'', 1), (''pay'', 1)]"
proof -
  have "map_sum id dp_activities (local_profile sample_provider default_view) = Ok [(''order'', 1), (''pay'', 1)]" by code_simp
  then obtain pf where pf: "local_profile sample_provider default_view = Ok pf" "dp_activities pf = [(''order'', 1), (''pay'', 1)]"
    by (cases "local_profile sample_provider default_view") auto
  obtain s where s: "local_snapshot sample_provider default_view = Ok s"
    using local_snapshot_default local_new_wf [OF sample_provider_new] by blast
  show ?thesis using local_profile_describes_snapshot [OF pf(1) s] pf s by blast
qed

end
