(* ===== verification/ProcessTrees.thy ===== *)
theory ProcessTrees
  imports Provider
begin

text \<open>
  Process-tree discovery: \<open>discover_process_tree\<close> and its helpers in
  \<open>crates/ocpm-discovery/src/lib.rs\<close> (boundary cuts, exclusive cuts, the topological order of the
  activities). \<open>None\<close> is a panic: an index out of range or a missing map entry.
\<close>

type_synonym relation = "(string \<times> string) list"

section \<open>Cuts\<close>

definition common_boundary :: "string list list \<Rightarrow> bool \<Rightarrow> string option" where
  "common_boundary traces first =
    (let boundary = (if first then first_opt else last_opt) in
     case first_opt traces of None \<Rightarrow> None
     | Some trace \<Rightarrow> case boundary trace of None \<Rightarrow> None
        | Some candidate \<Rightarrow> if \<forall>trace \<in> set traces. boundary trace = Some candidate then Some candidate else None)"

definition compact_sequence :: "process_tree list \<Rightarrow> process_tree" where
  "compact_sequence children = (case filter (\<lambda>child. child \<noteq> TreeTau) children of
     [] \<Rightarrow> TreeTau | [child] \<Rightarrow> child | cs \<Rightarrow> TreeSequence cs)"

definition most_frequent_trace :: "string list list \<Rightarrow> string list" where
  "most_frequent_trace traces =
    (let frequencies = fold (\<lambda>trace. bt_incr trace 1) traces [];
       best = fold (\<lambda>right best. case best of None \<Rightarrow> Some right
         | Some left \<Rightarrow> if snd right < snd left \<or> snd left = snd right \<and> fst left < fst right then Some left else Some right)
         frequencies None
     in case best of None \<Rightarrow> [] | Some (trace, _) \<Rightarrow> trace)"

definition direct_relations :: "string list list \<Rightarrow> relation" where
  "direct_relations traces = bset (concat (map windows2 traces))"

definition insert_ready :: "string \<Rightarrow> string list \<Rightarrow> string list" where
  "insert_ready target ready = (let position = length (takeWhile (\<lambda>item. \<not> target < item) ready)
     in take position ready @ [target] @ drop position ready)"

definition kahn_edge :: "string \<times> string \<Rightarrow> (string, nat) btree_map \<times> string list
    \<Rightarrow> ((string, nat) btree_map \<times> string list) option" where
  "kahn_edge = (\<lambda>(_, target) (indegree, ready). case bt_get indegree target of None \<Rightarrow> None
   | Some degree \<Rightarrow> let degree = u64_wrapping_sub degree 1 in
       Some (bt_insert target degree indegree, if degree = 0 then insert_ready target ready else ready))"

partial_function (option) kahn :: "relation \<Rightarrow> (string, nat) btree_map \<Rightarrow> string list \<Rightarrow> string list \<Rightarrow> string list option" where
  "kahn directed indegree ready output = (case ready of [] \<Rightarrow> Some output
   | activity # ready' \<Rightarrow>
      Option.bind (fold_opt kahn_edge (filter (\<lambda>p. fst p = activity) directed) (indegree, ready'))
        (\<lambda>(indegree', ready''). kahn directed indegree' ready'' (output @ [activity])))"

declare kahn.simps [code]

definition topological_activity_order :: "string list \<Rightarrow> relation \<Rightarrow> string list option" where
  "topological_activity_order activities follows =
    (let indegree = bt_of_list (map (\<lambda>activity. (activity, 0)) activities);
       directed = bset (filter (\<lambda>(left, right). (right, left) \<notin> set follows) follows);
       indegree = fold (\<lambda>(_, target). bt_incr target 1) directed indegree;
       ready = map fst (filter (\<lambda>(_, degree). degree = 0) indegree)
     in kahn directed indegree ready [])"

definition group_by_first :: "string list list \<Rightarrow> (string, string list list) btree_map option" where
  "group_by_first traces = fold_opt (\<lambda>trace groups. case nth_opt trace 0 of None \<Rightarrow> None
     | Some first \<Rightarrow> Some (bt_push first trace groups)) traces []"

definition disjoint_groups :: "string list list list \<Rightarrow> bool" where
  "disjoint_groups groups =
    (let activity_partitions = map (\<lambda>group. bset (concat group)) groups
     in \<forall>(i, left) \<in> set (indexed activity_partitions). \<forall>right \<in> set (drop (i + 1) activity_partitions).
       set left \<inter> set right = {})"

definition flat_tree :: "string list list \<Rightarrow> string list \<Rightarrow> process_tree option" where
  "flat_tree traces activities =
    (let follows = direct_relations traces in
     if \<forall>left \<in> set activities. \<forall>right \<in> set activities.
       left = right \<or> (left, right) \<in> set follows \<and> (right, left) \<in> set follows
     then Some (TreeParallel (map TreeActivity activities))
     else Option.bind (topological_activity_order activities follows) (\<lambda>order.
       if length order = length activities then Some (TreeSequence (map TreeActivity order))
       else let representative = most_frequent_trace traces;
           body = (case first_opt representative of None \<Rightarrow> TreeTau | Some a \<Rightarrow> TreeActivity a);
           redo = compact_sequence (map TreeActivity (drop 1 representative))
         in Some (TreeLoop body redo)))"

function process_tree_cut :: "string list list \<Rightarrow> nat \<Rightarrow> process_tree option" where
  "process_tree_cut traces depth =
    (if traces = [] then Some TreeTau
     else let activities = bset (concat traces) in
     if length activities = 1 then Some (TreeActivity (hd activities))
     else if 128 \<le> depth then Some (TreeSequence (map TreeActivity (most_frequent_trace traces)))
     else case common_boundary traces True of
       Some first \<Rightarrow> map_option (\<lambda>tree. compact_sequence [TreeActivity first, tree])
         (process_tree_cut (map (drop 1) traces) (depth + 1))
     | None \<Rightarrow> case common_boundary traces False of
       Some lst \<Rightarrow> map_option (\<lambda>tree. compact_sequence [tree, TreeActivity lst])
         (process_tree_cut (map (\<lambda>trace. take (length trace - 1) trace) traces) (depth + 1))
     | None \<Rightarrow> case group_by_first traces of None \<Rightarrow> None
     | Some by_first \<Rightarrow>
         if 1 < length by_first \<and> disjoint_groups (bt_values by_first)
         then map_option TreeExclusive (those (map (\<lambda>group. process_tree_cut group (depth + 1)) (bt_values by_first)))
         else flat_tree traces activities)"
  by pat_completeness auto
termination
  by (relation "measure (\<lambda>(_, depth). 128 - depth)") auto

declare process_tree_cut.simps [simp del]

definition discover_process_tree :: "process_execution list \<Rightarrow> process_tree option" where
  "discover_process_tree executions =
    process_tree_cut (filter (\<lambda>trace. trace \<noteq> []) (map activity_path executions)) 0"

section \<open>The topological order\<close>

text \<open>What the loop maintains: the in-degrees count the predecessors still to come, the finished and ready
  activities are those whose predecessors are finished, and every finished activity came after its
  predecessors.\<close>

definition before :: "relation \<Rightarrow> string list \<Rightarrow> bool" where
  "before D out \<longleftrightarrow> (\<forall>i < length out. \<forall>s. (s, out ! i) \<in> set D \<longrightarrow> s \<in> set (take i out))"

definition pending :: "relation \<Rightarrow> string list \<Rightarrow> string \<Rightarrow> string set" where
  "pending D out t = {s. (s, t) \<in> set D \<and> s \<notin> set out}"

definition kahn_inv :: "string list \<Rightarrow> relation \<Rightarrow> (string, nat) btree_map \<Rightarrow> string list \<Rightarrow> string list \<Rightarrow> bool" where
  "kahn_inv acts D d ready out \<longleftrightarrow> bt_inv d \<and> distinct (out @ ready) \<and> set (out @ ready) \<subseteq> set acts \<and>
     (\<forall>t \<in> set acts. bt_get d t = Some (card (pending D out t))) \<and>
     (\<forall>t \<in> set acts. t \<in> set (out @ ready) \<longleftrightarrow> pending D out t = {}) \<and> before D out"

lemma finite_pending [simp]: "finite (pending D out t)"
  by (rule finite_subset [of _ "fst ` set D"]) (force simp: pending_def)+

lemma mset_insert_ready [simp]: "mset (insert_ready t ready) = add_mset t (mset ready)"
proof -
  have "mset (take n xs) + mset (drop n xs) = mset xs" for n and xs :: "string list"
    by (metis append_take_drop_id mset_append)
  then show ?thesis by (simp add: insert_ready_def Let_def)
qed

lemma kahn_edges:
  assumes "bt_inv d" and "distinct (map snd es)" and "\<forall>t \<in> snd ` set es. \<exists>k. bt_get d t = Some (Suc k)"
  shows "\<exists>d' ready'. fold_opt kahn_edge es (d, ready) = Some (d', ready') \<and> bt_inv d' \<and>
    (\<forall>t. bt_get d' t = (if t \<in> snd ` set es then map_option (\<lambda>k. k - 1) (bt_get d t) else bt_get d t)) \<and>
    mset ready' = mset ready + mset (filter (\<lambda>t. bt_get d t = Some 1) (map snd es))"
  using assms
proof (induction es arbitrary: d ready)
  case (Cons e es)
  obtain s t where e: "e = (s, t)" by force
  obtain k where k: "bt_get d t = Some (Suc k)" using Cons.prems(3) e by auto
  let ?d = "bt_insert t k d" and ?r = "if k = 0 then insert_ready t ready else ready"
  have step: "kahn_edge e (d, ready) = Some (?d, ?r)"
    using k e by (simp add: kahn_edge_def u64_wrapping_sub_def)
  have inv: "bt_inv ?d" using Cons.prems(1) by (rule bt_inv_insert)
  have fresh: "t \<notin> snd ` set es" "distinct (map snd es)" using Cons.prems(2) e by auto
  then have get: "bt_get ?d u = bt_get d u" if "u \<in> snd ` set es" for u
    using that Cons.prems(1) by (auto simp: bt_get_insert)
  have "\<forall>u \<in> snd ` set es. \<exists>k. bt_get ?d u = Some (Suc k)" using Cons.prems(3) get by auto
  from Cons.IH [OF inv fresh(2) this, of ?r] obtain d' r' where IH:
    "fold_opt kahn_edge es (?d, ?r) = Some (d', r')" "bt_inv d'"
    "\<forall>u. bt_get d' u = (if u \<in> snd ` set es then map_option (\<lambda>k. k - 1) (bt_get ?d u) else bt_get ?d u)"
    "mset r' = mset ?r + mset (filter (\<lambda>u. bt_get ?d u = Some 1) (map snd es))" by blast
  have "filter (\<lambda>u. bt_get ?d u = Some 1) (map snd es) = filter (\<lambda>u. bt_get d u = Some 1) (map snd es)"
    using get by (intro filter_cong) (auto simp: image_iff)
  then have "mset r' = mset ready + mset (filter (\<lambda>u. bt_get d u = Some 1) (map snd (e # es)))"
    using IH(4) k e by simp
  moreover have "\<forall>u. bt_get d' u = (if u \<in> snd ` set (e # es) then map_option (\<lambda>k. k - 1) (bt_get d u) else bt_get d u)"
    using IH(3) get k e fresh(1) Cons.prems(1) by (auto simp: bt_get_insert)
  ultimately show ?case using step IH(1,2) by simp
qed simp

lemma pending_snoc: "pending D (out @ [a]) t = pending D out t - {a}"
  by (auto simp: pending_def)

lemma kahn_step:
  assumes "kahn_inv acts D d (a # ready) out" and "distinct D" and "snd ` set D \<subseteq> set acts"
  shows "\<exists>d' ready'. fold_opt kahn_edge (filter (\<lambda>p. fst p = a) D) (d, ready) = Some (d', ready') \<and>
    kahn_inv acts D d' ready' (out @ [a])"
proof -
  let ?es = "filter (\<lambda>p. fst p = a) D"
  have inv: "bt_inv d" "distinct (out @ a # ready)" "set (out @ a # ready) \<subseteq> set acts"
    "\<forall>t \<in> set acts. bt_get d t = Some (card (pending D out t))"
    "\<forall>t \<in> set acts. t \<in> set (out @ a # ready) \<longleftrightarrow> pending D out t = {}" "before D out"
    using assms(1) by (auto simp: kahn_inv_def)
  have a: "a \<notin> set out" "a \<in> set acts" using inv(2,3) by auto
  have targets: "snd ` set ?es = {t. (a, t) \<in> set D}" by force
  have d: "distinct (map snd ?es)" using assms(2) by (auto simp: distinct_map inj_on_def)
  have hit: "a \<in> pending D out t" "t \<in> set acts" "card (pending D out t) = Suc (card (pending D out t - {a}))" if "(a, t) \<in> set D" for t
  proof -
    show "t \<in> set acts" using that assms(3) by force
    show in_p: "a \<in> pending D out t" using that a by (simp add: pending_def)
    show "card (pending D out t) = Suc (card (pending D out t - {a}))" using card.remove [OF finite_pending in_p] .
  qed
  have miss: "pending D out t - {a} = pending D out t" if "(a, t) \<notin> set D" for t using that by (auto simp: pending_def)
  have "\<forall>t \<in> snd ` set ?es. \<exists>k. bt_get d t = Some (Suc k)"
    unfolding targets using inv(4) hit(2,3) by (metis mem_Collect_eq)
  from kahn_edges [OF inv(1) d this, of ready] obtain d' ready' where r:
    "fold_opt kahn_edge ?es (d, ready) = Some (d', ready')" "bt_inv d'"
    "\<forall>t. bt_get d' t = (if (a, t) \<in> set D then map_option (\<lambda>k. k - 1) (bt_get d t) else bt_get d t)"
    "mset ready' = mset ready + mset (filter (\<lambda>t. bt_get d t = Some 1) (map snd ?es))"
    unfolding targets by auto
  have one: "bt_get d t = Some 1 \<longleftrightarrow> pending D out t - {a} = {}" if "(a, t) \<in> set D" for t
  proof -
    have "card (pending D out t) = 1 \<longleftrightarrow> card (pending D out t - {a}) = 0" using hit(3) [OF that] by linarith
    then show ?thesis using inv(4) hit(2) [OF that] by simp
  qed
  have new: "set ready' = set ready \<union> {t. (a, t) \<in> set D \<and> pending D out t - {a} = {}}"
  proof -
    have "set ready' = set ready \<union> set (filter (\<lambda>t. bt_get d t = Some 1) (map snd ?es))"
      by (metis r(4) set_mset_mset set_mset_union)
    also have "set (filter (\<lambda>t. bt_get d t = Some 1) (map snd ?es)) = {t. (a, t) \<in> set D \<and> bt_get d t = Some 1}" by force
    finally show ?thesis using one by blast
  qed
  have fresh: "t \<notin> set (out @ a # ready)" if "(a, t) \<in> set D" for t using hit [OF that] inv(5) by auto
  have "distinct (filter (\<lambda>t. bt_get d t = Some 1) (map snd ?es))" using d by simp
  moreover have "set ready \<inter> set (filter (\<lambda>t. bt_get d t = Some 1) (map snd ?es)) = {}" using fresh by (auto simp: image_iff)
  ultimately have "distinct (ready @ filter (\<lambda>t. bt_get d t = Some 1) (map snd ?es))" using inv(2) by simp
  then have "distinct ready'" using r(4) by (metis mset_append mset_eq_imp_distinct_iff)
  then have dist: "distinct ((out @ [a]) @ ready')" using inv(2) new fresh by auto
  have sub: "set ((out @ [a]) @ ready') \<subseteq> set acts" using inv(3) new hit(2) by auto
  have deg: "\<forall>t \<in> set acts. bt_get d' t = Some (card (pending D (out @ [a]) t))"
    using r(3) inv(4) hit(3) miss by (simp add: pending_snoc)
  have fin: "\<forall>t \<in> set acts. t \<in> set ((out @ [a]) @ ready') \<longleftrightarrow> pending D (out @ [a]) t = {}"
  proof
    fix t
    assume "t \<in> set acts"
    then show "t \<in> set ((out @ [a]) @ ready') \<longleftrightarrow> pending D (out @ [a]) t = {}"
      using inv(5) new hit(1) miss fresh by (cases "(a, t) \<in> set D") (auto simp: pending_snoc)
  qed
  have "pending D out a = {}" using inv(5) a(2) by auto
  then have "before D (out @ [a])" using inv(6) by (auto simp: before_def nth_append less_Suc_eq pending_def)
  then show ?thesis using r(1,2) dist sub deg fin by (auto simp: kahn_inv_def)
qed

lemma kahn_terminates:
  assumes "kahn_inv acts D d ready out" and "distinct D" and "snd ` set D \<subseteq> set acts"
  shows "\<exists>d' out'. kahn D d ready out = Some out' \<and> kahn_inv acts D d' [] out'"
  using assms(1)
proof (induction "card (set acts) - length out" arbitrary: d ready out rule: less_induct)
  case less
  show ?case
  proof (cases ready)
    case Nil
    then show ?thesis using less.prems by (auto simp: kahn.simps)
  next
    case (Cons a rest)
    obtain d' ready' where step: "fold_opt kahn_edge (filter (\<lambda>p. fst p = a) D) (d, rest) = Some (d', ready')"
      "kahn_inv acts D d' ready' (out @ [a])" using kahn_step [OF less.prems [unfolded Cons] assms(2,3)] by blast
    have "distinct (out @ [a])" "set (out @ [a]) \<subseteq> set acts" using less.prems Cons by (auto simp: kahn_inv_def)
    then have "length (out @ [a]) \<le> card (set acts)" by (metis List.finite_set card_mono distinct_card)
    then have "card (set acts) - length (out @ [a]) < card (set acts) - length out" by simp
    from less.hyps [OF this step(2)] show ?thesis using step(1) unfolding Cons by (subst kahn.simps) simp
  qed
qed

definition directed_of :: "relation \<Rightarrow> relation" where
  "directed_of follows = bset (filter (\<lambda>(left, right). (right, left) \<notin> set follows) follows)"

lemma get_bt_of_list_const: "bt_inv (bt_of_list (map (\<lambda>a. (a, c)) xs)) \<and>
    bt_get (bt_of_list (map (\<lambda>a. (a, c)) xs)) k = (if k \<in> set xs then Some c else None)"
  by (induction xs rule: rev_induct) (auto simp: bt_of_list_def bt_inv_insert bt_get_insert)

lemma card_pending_Nil: "distinct D \<Longrightarrow> length (filter (\<lambda>p. snd p = t) D) = card (pending D [] t)"
proof -
  assume "distinct D"
  then have "length (filter (\<lambda>p. snd p = t) D) = card (set (filter (\<lambda>p. snd p = t) D))" by (metis distinct_card distinct_filter)
  also have "set (filter (\<lambda>p. snd p = t) D) = (\<lambda>s. (s, t)) ` pending D [] t" by (force simp: pending_def)
  also have "card \<dots> = card (pending D [] t)" by (rule card_image) (simp add: inj_on_def)
  finally show ?thesis .
qed

lemma kahn_init:
  assumes "distinct D" and "snd ` set D \<subseteq> set acts"
  defines "d \<equiv> fold (\<lambda>(_, target). bt_incr target 1) D (bt_of_list (map (\<lambda>a. (a, 0)) acts))"
  shows "kahn_inv acts D d (map fst (filter (\<lambda>(_, degree). degree = 0) d)) []"
proof -
  let ?m = "bt_of_list (map (\<lambda>a. (a, 0 :: nat)) acts)"
  have m: "bt_inv ?m" "bt_get ?m k = (if k \<in> set acts then Some 0 else None)" for k
    using get_bt_of_list_const [of "0 :: nat" acts k] by simp_all
  have "(\<lambda>(_ :: string, target :: string). bt_incr target 1) = (\<lambda>p. btc.bump (snd p) 1)"
    by (auto simp: fun_eq_iff bt_incr_bump)
  then have d: "d = fold (\<lambda>p. btc.bump (snd p) 1) D ?m" by (simp add: d_def)
  have inv: "bt_inv d" unfolding d by (rule btc.inv_fold_bump [OF m(1)])
  have "bt_get d k = (if k \<in> set acts then Some (length (filter (\<lambda>p. snd p = k) D)) else None)" for k
    unfolding d btc.get_fold_bump [OF m(1)] using m(2) assms(2) by (auto simp: btc.count_def sum_list_triv)
  then have get: "bt_get d k = (if k \<in> set acts then Some (card (pending D [] k)) else None)" for k
    by (simp add: card_pending_Nil [OF assms(1)])
  have ready: "set (map fst (filter (\<lambda>(_, degree). degree = 0) d)) = {k \<in> set acts. pending D [] k = {}}"
  proof -
    have "set (map fst (filter (\<lambda>(_, degree). degree = 0) d)) = {k. (k, 0) \<in> set d}" by force
    also have "\<dots> = {k. bt_get d k = Some 0}" using bt.entries_in [OF inv] by simp
    finally show ?thesis by (auto simp: get split: if_splits)
  qed
  have "distinct (map fst (filter (\<lambda>(_, degree). degree = 0) d))" using bt_inv_distinct [OF inv] by (rule distinct_map_filter)
  then show ?thesis using inv get ready unfolding kahn_inv_def before_def by (auto simp: before_def)
qed

lemma topological_order:
  assumes "distinct activities" and "snd ` set follows \<subseteq> set activities" and "fst ` set follows \<subseteq> set activities"
  shows "\<exists>order. topological_activity_order activities follows = Some order \<and> distinct order \<and>
    set order \<subseteq> set activities \<and> before (directed_of follows) order \<and>
    (length order = length activities \<longleftrightarrow> acyclic (set (directed_of follows)))"
proof -
  let ?D = "directed_of follows"
  have D: "distinct ?D" "snd ` set ?D \<subseteq> set activities" "fst ` set ?D \<subseteq> set activities"
    using assms(2,3) by (auto simp: directed_of_def)
  obtain d out where out: "topological_activity_order activities follows = Some out" "kahn_inv activities ?D d [] out"
    using kahn_terminates [OF kahn_init [OF D(1,2)] D(1,2)]
    by (auto simp: topological_activity_order_def directed_of_def Let_def)
  have o: "distinct out" "set out \<subseteq> set activities" "before ?D out"
    "\<forall>t \<in> set activities. t \<in> set out \<longleftrightarrow> pending ?D out t = {}"
    using out(2) by (auto simp: kahn_inv_def)
  have all: "length out = length activities \<longleftrightarrow> set out = set activities"
    using o(1,2) assms(1) by (metis List.finite_set card_subset_eq distinct_card)
  have "set out = set activities \<longleftrightarrow> acyclic (set ?D)"
  proof
    assume full: "set out = set activities"
    define pos where "pos t = (THE i. i < length out \<and> out ! i = t)" for t
    have pos: "pos (out ! i) = i" if "i < length out" for i
      unfolding pos_def using that o(1) by (intro the_equality) (auto simp: nth_eq_iff_index_eq)
    have "pos s < pos t" if "(s, t) \<in> set ?D" for s t
    proof -
      have "t \<in> set out" using that D(2) full by force
      then obtain i where i: "i < length out" "out ! i = t" by (auto simp: in_set_conv_nth)
      then have "s \<in> set (take i out)" using o(3) that by (auto simp: before_def)
      then obtain j where "j < i" "out ! j = s" by (auto simp: in_set_conv_nth)
      then show ?thesis using pos i by auto
    qed
    then have "set ?D \<subseteq> inv_image less_than pos" by auto
    then show "acyclic (set ?D)" by (meson acyclic_subset wf_acyclic wf_inv_image wf_less_than)
  next
    assume "acyclic (set ?D)"
    then have wf: "wf (set ?D)" by (simp add: finite_acyclic_wf)
    have "t \<in> set activities \<longrightarrow> t \<in> set out" for t
    proof (induction t rule: wf_induct_rule [OF wf])
      case (1 t)
      then have "pending ?D out t = {}" using D(3) by (force simp: pending_def)
      then show ?case using o(4) by blast
    qed
    then show "set out = set activities" using o(2) by blast
  qed
  then show ?thesis using out(1) o all by blast
qed

text \<open>C13: The topological order of the activities is Kahn's order: the loop ends without a missing entry, it
  lists each activity at most once and after all its one-way predecessors, and it lists all of them
  exactly when the one-way relation has no cycle.\<close>

theorem topological_order_correct:
  assumes "distinct activities" and "snd ` set follows \<subseteq> set activities" and "fst ` set follows \<subseteq> set activities"
  shows "\<exists>order. topological_activity_order activities follows = Some order \<and> distinct order \<and>
    set order \<subseteq> set activities \<and> before (directed_of follows) order \<and>
    (length order = length activities \<longleftrightarrow> acyclic (set (directed_of follows)))"
  using assms by (rule topological_order)

theorem topological_order_correct_witness:
  "\<exists>order. topological_activity_order [''a'', ''b'', ''c''] [(''a'', ''c''), (''c'', ''b'')] = Some order \<and>
     before [(''a'', ''c''), (''c'', ''b'')] order \<and> length order = 3"
proof -
  have o: "topological_activity_order [''a'', ''b'', ''c''] [(''a'', ''c''), (''c'', ''b'')] = Some [''a'', ''c'', ''b'']"
    "directed_of [(''a'', ''c''), (''c'', ''b'')] = [(''a'', ''c''), (''c'', ''b'')]" by code_simp+
  show ?thesis
    using topological_order_correct [of "[''a'', ''b'', ''c'']" "[(''a'', ''c''), (''c'', ''b'')]"] unfolding o by auto
qed

section \<open>Trees of equally long traces\<close>

fun tree_activities :: "process_tree \<Rightarrow> string set" where
  "tree_activities (TreeActivity a) = {a}"
| "tree_activities (TreeSequence ts) = (\<Union>t \<in> set ts. tree_activities t)"
| "tree_activities (TreeExclusive ts) = (\<Union>t \<in> set ts. tree_activities t)"
| "tree_activities (TreeParallel ts) = (\<Union>t \<in> set ts. tree_activities t)"
| "tree_activities (TreeLoop body redo) = tree_activities body \<union> tree_activities redo"
| "tree_activities TreeTau = {}"

lemma compact_sequence_activities: "tree_activities (compact_sequence ts) = (\<Union>t \<in> set ts. tree_activities t)"
proof -
  have "(\<Union>t \<in> set ts. tree_activities t) = (\<Union>t \<in> set (filter (\<lambda>t. t \<noteq> TreeTau) ts). tree_activities t)" by force
  moreover have "tree_activities (case cs of [] \<Rightarrow> TreeTau | [child] \<Rightarrow> child | cs \<Rightarrow> TreeSequence cs) =
      (\<Union>t \<in> set cs. tree_activities t)" for cs by (auto split: list.splits)
  ultimately show ?thesis unfolding compact_sequence_def by metis
qed

lemma most_frequent_in: "traces \<noteq> [] \<Longrightarrow> most_frequent_trace traces \<in> set traces"
proof -
  assume ne: "traces \<noteq> []"
  let ?fs = "fold (\<lambda>trace. bt_incr trace 1) traces []"
  let ?f = "\<lambda>right best. case best of None \<Rightarrow> Some right
    | Some left \<Rightarrow> if snd right < snd left \<or> snd left = snd right \<and> fst left < fst right then Some left else Some right"
  have keys: "fst ` set ?fs = set traces"
  proof (induction traces rule: rev_induct)
    case (snoc t ts)
    then show ?case using keys_bt_incr [of t 1 "fold (\<lambda>trace. bt_incr trace 1) ts []"] by simp
  qed simp
  have best: "fold ?f xs b = Some p \<Longrightarrow> p \<in> set xs \<or> b = Some p" for xs b and p :: "string list \<times> nat"
    by (induction xs arbitrary: b) (force split: option.splits if_splits)+
  have some: "fold ?f xs b \<noteq> None" if "xs \<noteq> [] \<or> b \<noteq> None" for xs and b :: "(string list \<times> nat) option"
    using that by (induction xs arbitrary: b) (auto split: option.splits)
  have "?fs \<noteq> []" using keys ne by auto
  then obtain p where p: "fold ?f ?fs None = Some p" using some [of ?fs None] by auto
  then have "fst p \<in> set traces" using best [OF p] keys by auto
  then show ?thesis using p by (simp add: most_frequent_trace_def Let_def case_prod_unfold)
qed

lemma direct_relations_activities:
  "fst ` set (direct_relations traces) \<subseteq> set (concat traces)" "snd ` set (direct_relations traces) \<subseteq> set (concat traces)"
  by (auto simp: direct_relations_def dest!: windows2_set_subset)

lemma flat_tree_Some:
  assumes "traces \<noteq> []"
  shows "\<exists>t. flat_tree traces (bset (concat traces)) = Some t \<and> tree_activities t \<subseteq> set (concat traces)"
proof -
  let ?acts = "bset (concat traces)"
  obtain order where order: "topological_activity_order ?acts (direct_relations traces) = Some order" "set order \<subseteq> set (concat traces)"
    using topological_order [of ?acts "direct_relations traces"] direct_relations_activities [of traces] by auto
  have rep: "set (most_frequent_trace traces) \<subseteq> set (concat traces)" using most_frequent_in [OF assms] by auto
  then have "set (drop 1 (most_frequent_trace traces)) \<subseteq> set (concat traces)" by (meson set_drop_subset subset_trans)
  then show ?thesis
    using order rep by (auto simp: flat_tree_def Let_def compact_sequence_activities first_opt_def split: list.splits)
qed

lemma group_by_first_Some:
  assumes "\<forall>trace \<in> set traces. trace \<noteq> []"
  shows "group_by_first traces = Some (fold (\<lambda>trace. bt_push (hd trace) trace) traces [])"
proof -
  have "fold_opt (\<lambda>trace groups. case nth_opt trace 0 of None \<Rightarrow> None | Some first \<Rightarrow> Some (bt_push first trace groups)) traces g
      = Some (fold (\<lambda>trace. bt_push (hd trace) trace) traces g)" for g
    using assms by (induction traces arbitrary: g) (auto simp: nth_opt_def hd_conv_nth)
  then show ?thesis by (simp add: group_by_first_def)
qed

lemma groups_traces: "grp \<in> set (bt_values (fold (\<lambda>trace. bt_push (hd trace) trace) traces [])) \<Longrightarrow> set grp \<subseteq> set traces"
  by (auto simp: bt_values_def fold_push_in)

lemma those_Some: "\<forall>x \<in> set xs. \<exists>y. f x = Some y \<and> P y \<Longrightarrow> \<exists>ys. those (map f xs) = Some ys \<and> (\<forall>y \<in> set ys. P y)"
  by (induction xs) auto

lemma common_boundary_Some:
  "common_boundary traces True = Some a \<Longrightarrow> trace \<in> set traces \<Longrightarrow> trace \<noteq> [] \<and> hd trace = a"
  "common_boundary traces False = Some a \<Longrightarrow> trace \<in> set traces \<Longrightarrow> trace \<noteq> [] \<and> last trace = a"
  by (cases trace; auto simp: common_boundary_def first_opt_def last_opt_def Let_def split: option.splits list.splits if_splits)+

lemma single_traces:
  assumes "\<forall>trace \<in> set traces. trace = [a]" and "traces \<noteq> []"
  shows "length (bset (concat traces)) = 1"
proof -
  have "set (concat traces) = {a}" using assms by (cases traces) auto
  then show ?thesis by (simp add: length_bset)
qed

lemma process_tree_cut_equal:
  assumes "\<forall>trace \<in> set traces. length trace = n" and "0 < n"
  shows "\<exists>t. process_tree_cut traces depth = Some t \<and> tree_activities t \<subseteq> set (concat traces)"
  using assms
proof (induction traces depth arbitrary: n rule: process_tree_cut.induct)
  case (1 traces depth)
  note eq = process_tree_cut.simps [of traces depth]
  let ?acts = "bset (concat traces)"
  consider (trivial) "traces = [] \<or> length ?acts = 1 \<or> 128 \<le> depth"
    | (cut) "traces \<noteq> []" "length ?acts \<noteq> 1" "\<not> 128 \<le> depth" by blast
  then show ?case
  proof cases
    case trivial
    have "set (most_frequent_trace traces) \<subseteq> set (concat traces)" if "traces \<noteq> []" using most_frequent_in [OF that] by auto
    moreover have "hd ?acts \<in> set (concat traces)" if "length ?acts = 1"
      using that by (metis hd_in_set length_0_conv set_bset zero_neq_one)
    ultimately show ?thesis using trivial by (auto simp: eq Let_def)
  next
    case cut
    note IH = "1.IH" [OF cut(1) refl cut(2,3)]
    have long: "1 < n" if "\<forall>trace \<in> set traces. trace = [a] \<or> n \<noteq> 1" for a
      using that "1.prems"(2) single_traces [of traces a] cut(1,2) by fastforce
    show ?thesis
    proof (cases "common_boundary traces True")
      case (Some a)
      have "\<forall>trace \<in> set traces. trace = [a] \<or> n \<noteq> 1"
        using "1.prems"(1) common_boundary_Some(1) [OF Some] by (fastforce simp: length_Suc_conv)
      then have pos: "0 < n - 1" using long by (metis zero_less_diff)
      have len: "\<forall>trace \<in> set (map (drop 1) traces). length trace = n - 1" using "1.prems"(1) by auto
      obtain t where t: "process_tree_cut (map (drop 1) traces) (depth + 1) = Some t"
        "tree_activities t \<subseteq> set (concat (map (drop 1) traces))" using IH(3) [OF Some len pos] by blast
      have "set (concat (map (drop 1) traces)) \<subseteq> set (concat traces)" using set_drop_subset by fastforce
      moreover have "a \<in> set (concat traces)" using common_boundary_Some(1) [OF Some] cut(1)
        by (metis UN_I hd_in_set list.set_sel(1) set_concat)
      ultimately show ?thesis using t cut Some by (auto simp: eq Let_def compact_sequence_activities)
    next
      case none: None
      show ?thesis
      proof (cases "common_boundary traces False")
        case (Some a)
        let ?heads = "map (\<lambda>trace. take (length trace - 1) trace) traces"
        have "\<forall>trace \<in> set traces. trace = [a] \<or> n \<noteq> 1"
          using "1.prems"(1) common_boundary_Some(2) [OF Some] by (fastforce simp: length_Suc_conv)
        then have pos: "0 < n - 1" using long by (metis zero_less_diff)
        have len: "\<forall>trace \<in> set ?heads. length trace = n - 1" using "1.prems"(1) by simp
        obtain t where t: "process_tree_cut ?heads (depth + 1) = Some t"
          "tree_activities t \<subseteq> set (concat ?heads)" using IH(2) [OF none Some len pos] by blast
        have "set (concat ?heads) \<subseteq> set (concat traces)" using set_take_subset by fastforce
        moreover have "a \<in> set (concat traces)" using common_boundary_Some(2) [OF Some] cut(1)
          by (metis UN_I last_in_set list.set_sel(1) set_concat)
        ultimately show ?thesis using t cut none Some by (auto simp: eq Let_def compact_sequence_activities)
      next
        case None
        let ?g = "fold (\<lambda>trace. bt_push (hd trace) trace) traces []"
        have g: "group_by_first traces = Some ?g" using "1.prems" by (intro group_by_first_Some) auto
        show ?thesis
        proof (cases "1 < length ?g \<and> disjoint_groups (bt_values ?g)")
          case True
          have "\<forall>grp \<in> set (bt_values ?g). \<exists>t. process_tree_cut grp (depth + 1) = Some t \<and>
              tree_activities t \<subseteq> set (concat traces)"
          proof
            fix grp
            assume grp: "grp \<in> set (bt_values ?g)"
            have sub: "set grp \<subseteq> set traces" using groups_traces [OF grp] .
            then have "\<forall>trace \<in> set grp. length trace = n" using "1.prems"(1) by blast
            from IH(1) [OF none None g True grp this "1.prems"(2)] sub
            show "\<exists>t. process_tree_cut grp (depth + 1) = Some t \<and> tree_activities t \<subseteq> set (concat traces)" by fastforce
          qed
          from those_Some [OF this] obtain ts where ts: "those (map (\<lambda>grp. process_tree_cut grp (depth + 1)) (bt_values ?g)) = Some ts"
            "\<forall>t \<in> set ts. tree_activities t \<subseteq> set (concat traces)" by blast
          then have "tree_activities (TreeExclusive ts) \<subseteq> set (concat traces)" by (simp only: tree_activities.simps) blast
          moreover have "process_tree_cut traces depth = Some (TreeExclusive ts)" using cut none None g True ts(1) by (simp add: eq)
          ultimately show ?thesis by blast
        next
          case False
          then show ?thesis using cut none None g flat_tree_Some [OF cut(1)] by (auto simp: eq Let_def)
        qed
      qed
    qed
  qed
qed

text \<open>C14: Process-tree discovery returns on every log whose nonempty traces are equally long, without
  running off the end of a trace, and the tree mentions only activities of the log.\<close>

theorem process_tree_returns:
  assumes "\<forall>e \<in> set executions. activity_path e = [] \<or> length (activity_path e) = n"
  shows "\<exists>tree. discover_process_tree executions = Some tree \<and>
    tree_activities tree \<subseteq> (\<Union>e \<in> set executions. set (activity_path e))"
proof -
  let ?ts = "filter (\<lambda>trace. trace \<noteq> []) (map activity_path executions)"
  have "\<exists>tree. process_tree_cut ?ts 0 = Some tree \<and> tree_activities tree \<subseteq> set (concat ?ts)"
  proof (cases "n = 0")
    case True
    then have "?ts = []" using assms by auto
    then show ?thesis by (simp add: process_tree_cut.simps)
  next
    case False
    then show ?thesis using assms by (intro process_tree_cut_equal [of _ n]) auto
  qed
  moreover have "set (concat ?ts) \<subseteq> (\<Union>e \<in> set executions. set (activity_path e))" by auto
  ultimately show ?thesis unfolding discover_process_tree_def by (meson subset_trans)
qed

theorem process_tree_returns_witness:
  "\<exists>tree. discover_process_tree [path_execution [''a'', ''b''], path_execution [''c'', ''d'']] = Some tree \<and>
     tree_activities tree \<subseteq> {''a'', ''b'', ''c'', ''d''}"
proof -
  have "\<forall>e \<in> set [path_execution [''a'', ''b''], path_execution [''c'', ''d'']].
      activity_path e = [] \<or> length (activity_path e) = 2" by simp
  from process_tree_returns [OF this] show ?thesis by auto
qed

text \<open>Traces of different length can make process-tree discovery panic: when one trace is the common
  first activity alone and another continues with two different activities, the cut strips the first
  activity and then reads the first element of the empty remainder.\<close>

theorem process_tree_panics:
  "b \<noteq> c \<Longrightarrow> discover_process_tree [path_execution [a], path_execution [a, b, c]] = None"
proof -
  assume bc: "b \<noteq> c"
  have two: "length (bset [b, c]) = 2" using bc by (simp add: length_bset)
  have "\<not> length (bset [a, a, b, c]) = 1"
  proof -
    have "2 \<le> card {a, b, c}" using bc card_mono [of "{a, b, c}" "{b, c}"] by simp
    then show ?thesis by (simp add: length_bset insert_commute)
  qed
  then show ?thesis
    using two by (simp add: discover_process_tree_def process_tree_cut.simps common_boundary_def first_opt_def
        last_opt_def group_by_first_def nth_opt_def Let_def)
qed

theorem process_tree_panics_witness:
  "discover_process_tree [path_execution [''a''], path_execution [''a'', ''b'', ''c'']] = None"
  using process_tree_panics [of "''b''" "''c''" "''a''"] by simp

end
