(* ===== verification/Discovery.thy ===== *)
theory Discovery
  imports ProcessTrees
begin

text \<open>
  Model discovery: \<open>crates/ocpm-discovery/src/lib.rs\<close>. Directly-follows graphs, the alpha miner,
  object-centric Petri nets and declarative constraints; \<open>None\<close> is a panic (process-tree cuts are in
  \<open>ProcessTrees\<close>).
  JSON parameter values are the type \<open>'j\<close> with their accessors \<open>as_str\<close> and \<open>as_f64\<close>.
\<close>

section \<open>Directly-follows graphs\<close>

definition unit_separator :: char where "unit_separator = CHR 0x1F"

definition boundary_key :: "string \<Rightarrow> string \<Rightarrow> string" where
  "boundary_key object_type activity = object_type @ [unit_separator] @ activity"

text \<open>\<open>str::split_once\<close>.\<close>

fun split_once :: "char \<Rightarrow> string \<Rightarrow> (string \<times> string) option" where
  "split_once c [] = None"
| "split_once c (x # xs) = (if x = c then Some ([], xs)
     else map_option (\<lambda>(a, b). (x # a, b)) (split_once c xs))"

definition decode_boundary :: "(string, nat) btree_map \<Rightarrow> (string, nat) btree_map" where
  "decode_boundary boundary = fold (\<lambda>(key, frequency).
     bt_incr (case split_once unit_separator key of None \<Rightarrow> key | Some (_, activity) \<Rightarrow> activity) frequency) boundary []"

record dfg_state =
  ds_activities :: "string list"
  ds_starts :: "(string, nat) btree_map"
  ds_ends :: "(string, nat) btree_map"
  ds_edges :: "(string \<times> string \<times> string, nat) btree_map"

definition dfg_execution :: "bool \<Rightarrow> process_execution \<Rightarrow> dfg_state \<Rightarrow> dfg_state" where
  "dfg_execution object_centric e s = (case first_opt (pe_events e) of None \<Rightarrow> s
   | Some first \<Rightarrow>
      let object_type = (if object_centric then pe_object_type e else []) in
      s\<lparr>ds_starts := bt_incr (boundary_key object_type (ev_activity first)) 1 (ds_starts s),
        ds_ends := (case last_opt (pe_events e) of None \<Rightarrow> ds_ends s
          | Some lst \<Rightarrow> bt_incr (boundary_key object_type (ev_activity lst)) 1 (ds_ends s)),
        ds_activities := fold (\<lambda>ev. insort_insert (ev_activity ev)) (pe_events e) (ds_activities s),
        ds_edges := fold (\<lambda>(a, b). bt_incr (ev_activity a, ev_activity b, object_type) 1) (windows2 (pe_events e)) (ds_edges s)\<rparr>)"

definition discover_dfg :: "process_execution list \<Rightarrow> bool \<Rightarrow> dfg_model" where
  "discover_dfg executions object_centric =
    (let s = fold (dfg_execution object_centric) executions
       \<lparr>ds_activities = [], ds_starts = [], ds_ends = [], ds_edges = []\<rparr>
     in \<lparr>dfg_activities = ds_activities s, dfg_start_activities = decode_boundary (ds_starts s),
       dfg_end_activities = decode_boundary (ds_ends s),
       dfg_edges = map (\<lambda>((source, target, object_type), frequency).
         \<lparr>de_source = source, de_target = target, de_object_type = object_type, de_frequency = frequency\<rparr>) (ds_edges s)\<rparr>)"

section \<open>The alpha miner\<close>

type_synonym candidate = "string list \<times> string list"

definition max_alpha_candidates :: nat where "max_alpha_candidates = 65536"

definition pairwise_unrelated :: "string list \<Rightarrow> relation \<Rightarrow> bool" where
  "pairwise_unrelated vs follows \<longleftrightarrow> (\<forall>left \<in> set vs. \<forall>right \<in> set vs.
     left = right \<or> (left, right) \<notin> set follows \<and> (right, left) \<notin> set follows)"

definition valid_alpha_pair :: "string list \<Rightarrow> string list \<Rightarrow> relation \<Rightarrow> relation \<Rightarrow> bool" where
  "valid_alpha_pair sources targets causal follows \<longleftrightarrow>
     (\<forall>source \<in> set sources. \<forall>target \<in> set targets. (source, target) \<in> set causal) \<and>
     pairwise_unrelated sources follows \<and> pairwise_unrelated targets follows"

definition alpha_addition :: "relation \<Rightarrow> relation \<Rightarrow> candidate \<Rightarrow> candidate \<Rightarrow> candidate list" where
  "alpha_addition causal follows left right =
    (if fst left = fst right
     then let targets = bset (snd left @ snd right) in
       if valid_alpha_pair (fst left) targets causal follows then [(fst left, targets)] else []
     else []) @
    (if snd left = snd right
     then let sources = bset (fst left @ fst right) in
       if valid_alpha_pair sources (snd left) causal follows then [(sources, snd left)] else []
     else [])"

definition alpha_extend :: "relation \<Rightarrow> relation \<Rightarrow> candidate list \<Rightarrow> candidate list" where
  "alpha_extend causal follows candidates = bset (candidates @
     concat (map (\<lambda>left. concat (map (alpha_addition causal follows left) candidates)) candidates))"

function alpha_candidates :: "relation \<Rightarrow> relation \<Rightarrow> candidate list \<Rightarrow> candidate list ocpm_result" where
  "alpha_candidates causal follows candidates =
    (let extended = alpha_extend causal follows candidates in
     if max_alpha_candidates < length extended
     then Err (resource_limit ''alpha candidate-place search exceeded its deterministic safety bound''
       max_alpha_candidates (length extended))
     else if length extended = length candidates then Ok extended
     else alpha_candidates causal follows extended)"
  by pat_completeness auto

lemma alpha_extend_set:
  "set candidates \<subseteq> set (alpha_extend causal follows candidates)" "distinct (alpha_extend causal follows candidates)"
  by (auto simp: alpha_extend_def)

termination alpha_candidates
proof (relation "measures [\<lambda>(_, _, c). Suc max_alpha_candidates - card (set c), \<lambda>(_, _, c). if distinct c then 0 else 1]")
  fix causal follows :: relation and c x :: "candidate list"
  assume x: "x = alpha_extend causal follows c" and len: "\<not> max_alpha_candidates < length x" "length x \<noteq> length c"
  have "set c \<subseteq> set x" and d: "distinct x" unfolding x by (rule alpha_extend_set)+
  then have le: "card (set c) \<le> card (set x)" by (simp add: card_mono)
  have "card (set c) < card (set x)" if "distinct c" using le len(2) d that by (simp add: distinct_card)
  moreover have "card (set x) \<le> max_alpha_candidates" using len(1) d by (simp add: distinct_card)
  ultimately show "((causal, follows, x), causal, follows, c) \<in>
      measures [\<lambda>(_, _, c). Suc max_alpha_candidates - card (set c), \<lambda>(_, _, c). if distinct c then 0 else 1]"
    using le d by (auto simp: Suc_diff_le intro: diff_le_mono2 diff_less_mono2)
qed simp

declare alpha_candidates.simps [simp del]

definition maximal_candidates :: "candidate list \<Rightarrow> candidate list" where
  "maximal_candidates candidates = filter (\<lambda>c. \<not> (\<exists>other \<in> set candidates. c \<noteq> other \<and>
     set (fst c) \<subseteq> set (fst other) \<and> set (snd c) \<subseteq> set (snd other))) candidates"

definition transition_id :: "string \<Rightarrow> string" where
  "transition_id activity = ''t:'' @ activity"

definition arc :: "string \<Rightarrow> string \<Rightarrow> petri_arc" where
  "arc source target = \<lparr>arc_source = source, arc_target = target, arc_weight = 1, arc_object_type = None, arc_variable = False\<rparr>"

text \<open>\<open>dedup_by\<close> keeps the first of adjacent arcs with the same ends.\<close>

fun dedup_by :: "('a \<Rightarrow> 'k) \<Rightarrow> 'a list \<Rightarrow> 'a list" where
  "dedup_by f (x # y # xs) = (if f x = f y then dedup_by f (x # xs) else x # dedup_by f (y # xs))"
| "dedup_by f xs = xs"

definition arc_ends :: "petri_arc \<Rightarrow> string \<times> string" where
  "arc_ends a = (arc_source a, arc_target a)"

definition follows_of :: "dfg_model \<Rightarrow> relation" where
  "follows_of dfg = bset (map (\<lambda>e. (de_source e, de_target e)) (dfg_edges dfg))"

definition causal_of :: "relation \<Rightarrow> relation" where
  "causal_of follows = filter (\<lambda>(source, target). (target, source) \<notin> set follows) follows"

definition alpha_net :: "dfg_model \<Rightarrow> candidate list \<Rightarrow> petri_net" where
  "alpha_net dfg maximal =
    (let places = [\<lparr>pl_id = ''source'', pl_initial_tokens = 1, pl_final_tokens = 0\<rparr>,
         \<lparr>pl_id = ''sink'', pl_initial_tokens = 0, pl_final_tokens = 1\<rparr>];
       transitions = map (\<lambda>activity. \<lparr>tr_id = transition_id activity, tr_label = Some activity\<rparr>) (dfg_activities dfg);
       arcs = map (\<lambda>activity. arc ''source'' (transition_id activity)) (bt_keys (dfg_start_activities dfg)) @
         map (\<lambda>activity. arc (transition_id activity) ''sink'') (bt_keys (dfg_end_activities dfg));
       places = places @ map (\<lambda>(i, _). \<lparr>pl_id = ''p'' @ show_nat i, pl_initial_tokens = 0, pl_final_tokens = 0\<rparr>)
         (indexed maximal);
       arcs = arcs @ concat (map (\<lambda>(i, sources, targets).
         map (\<lambda>source. arc (transition_id source) (''p'' @ show_nat i)) sources @
         map (\<lambda>target. arc (''p'' @ show_nat i) (transition_id target)) targets) (indexed maximal))
     in \<lparr>net_places = places, net_transitions = transitions, net_arcs = dedup_by arc_ends (sort_key arc_ends arcs)\<rparr>)"

definition discover_alpha :: "process_execution list \<Rightarrow> petri_net ocpm_result" where
  "discover_alpha executions =
    (let dfg = discover_dfg executions False; follows = follows_of dfg; causal = causal_of follows in
     rbind (alpha_candidates causal follows (bset (map (\<lambda>(source, target). ([source], [target])) causal))) (\<lambda>candidates.
     Ok (alpha_net dfg (maximal_candidates candidates))))"

section \<open>Object-centric Petri nets\<close>

definition activity_types :: "process_execution list \<Rightarrow> (string, string list) btree_map" where
  "activity_types executions = fold (\<lambda>e. fold (\<lambda>ev. bt_alter (ev_activity ev)
     (\<lambda>types. insort_insert (pe_object_type e) (case types of None \<Rightarrow> [] | Some ts \<Rightarrow> ts))) (pe_events e)) executions []"

definition strip_prefix :: "string \<Rightarrow> string \<Rightarrow> string option" where
  "strip_prefix pre s = (if take (length pre) s = pre then Some (drop (length pre) s) else None)"

definition type_arc :: "(string, string list) btree_map \<Rightarrow> petri_arc \<Rightarrow> petri_arc" where
  "type_arc types a =
    (let trans = (case strip_prefix ''t:'' (arc_source a) of Some x \<Rightarrow> Some x
       | None \<Rightarrow> strip_prefix ''t:'' (arc_target a))
     in case Option.bind trans (bt_get types) of None \<Rightarrow> a
     | Some ts \<Rightarrow> (if length ts = 1 then a\<lparr>arc_object_type := first_opt ts\<rparr> else a)\<lparr>arc_variable := 1 < length ts\<rparr>)"

definition discover_object_centric_petri_net :: "process_execution list \<Rightarrow> oc_petri_net ocpm_result" where
  "discover_object_centric_petri_net executions =
    (let object_types = bset (map pe_object_type executions) in
     rbind (discover_alpha executions) (\<lambda>net.
     Ok \<lparr>ocpn_object_types = object_types,
       ocpn_net = net\<lparr>net_arcs := map (type_arc (activity_types executions)) (net_arcs net)\<rparr>\<rparr>))"

section \<open>Declarative constraints\<close>

definition contains_activity :: "string \<Rightarrow> process_execution \<Rightarrow> bool" where
  "contains_activity activity e \<longleftrightarrow> (\<exists>ev \<in> set (pe_events e). ev_activity ev = activity)"

definition response_holds :: "process_execution \<Rightarrow> string \<Rightarrow> string \<Rightarrow> bool" where
  "response_holds e activation target \<longleftrightarrow> (\<forall>(i, ev) \<in> set (indexed (pe_events e)). ev_activity ev \<noteq> activation \<or>
     (\<exists>later \<in> set (drop (i + 1) (pe_events e)). ev_activity later = target))"

definition common_object_type :: "process_execution list \<Rightarrow> string option" where
  "common_object_type executions = (let kinds = bset (map pe_object_type executions)
     in if length kinds = 1 then first_opt kinds else None)"

definition existence_constraint :: "process_execution list \<Rightarrow> f64 \<Rightarrow> string \<Rightarrow> declare_constraint list" where
  "existence_constraint executions minimum_support activity =
    (let support = f64_div (f64_of_nat (length (filter (contains_activity activity) executions))) (f64_of_nat (length executions))
     in if f64_le minimum_support support
       then [\<lparr>dcl_template = Existence, dcl_activation = activity, dcl_target = None,
         dcl_object_type = common_object_type executions, dcl_support = support, dcl_confidence = support\<rparr>] else [])"

definition response_constraint :: "process_execution list \<Rightarrow> f64 \<Rightarrow> string \<times> string \<Rightarrow> declare_constraint list" where
  "response_constraint executions minimum_support = (\<lambda>(activation, target).
    if activation = target then [] else
    let activated = length (filter (contains_activity activation) executions) in
    if activated = 0 then [] else
    let response = length (filter (\<lambda>e. response_holds e activation target) executions);
      support = f64_div (f64_of_nat response) (f64_of_nat (length executions));
      confidence = f64_div (f64_of_nat response) (f64_of_nat activated)
    in if f64_le minimum_support support
      then [\<lparr>dcl_template = Response, dcl_activation = activation, dcl_target = Some target,
        dcl_object_type = common_object_type executions, dcl_support = support, dcl_confidence = confidence\<rparr>] else [])"

definition declare_key :: "declare_constraint \<Rightarrow> string \<times> string \<times> string option" where
  "declare_key c = (template_name (dcl_template c), dcl_activation c, dcl_target c)"

definition discover_declare :: "process_execution list \<Rightarrow> f64 \<Rightarrow> declare_constraint list" where
  "discover_declare executions minimum_support =
    (let activities = bset (concat (map activity_path executions)) in
     sort_key declare_key (concat (map (existence_constraint executions minimum_support) activities) @
       concat (map (\<lambda>activation. concat (map (\<lambda>target. response_constraint executions minimum_support (activation, target))
         activities)) activities)))"

section \<open>The entry point\<close>

definition discovery_mode :: "('j \<Rightarrow> string option) \<Rightarrow> (string, 'j) btree_map \<Rightarrow> execution_mode ocpm_result" where
  "discovery_mode as_str parameters = (case Option.bind (bt_get parameters ''execution_mode'') as_str of
     None \<Rightarrow> Ok LeadingObject
   | Some v \<Rightarrow> if v = ''connected_component'' then Ok ConnectedComponent
       else if v = ''leading_object'' then Ok LeadingObject
       else Err (invalid_request (''unsupported execution_mode '' @ v)))"

definition discover_model :: "('j \<Rightarrow> f64 option) \<Rightarrow> 'j discovery_request \<Rightarrow> process_execution list
    \<Rightarrow> process_model ocpm_result option" where
  "discover_model as_f64 request executions = (case dr_algorithm request of
     AlgDfg \<Rightarrow> Some (Ok (Dfg (discover_dfg executions False)))
   | AlgOcDfg \<Rightarrow> Some (Ok (Dfg (discover_dfg executions True)))
   | AlgAlpha \<Rightarrow> Some (rbind (discover_alpha executions) (\<lambda>net. Ok (PNet net)))
   | AlgPetriNet \<Rightarrow> Some (rbind (discover_alpha executions) (\<lambda>net. Ok (PNet net)))
   | AlgInductiveProcessTree \<Rightarrow> map_option (\<lambda>tree. Ok (PTree tree)) (discover_process_tree executions)
   | AlgObjectCentricPetriNet \<Rightarrow> Some (rbind (discover_object_centric_petri_net executions) (\<lambda>net. Ok (OCPNet net)))
   | AlgOcDeclare \<Rightarrow>
      let minimum_support = (case Option.bind (bt_get (dr_parameters request) ''minimum_support'') as_f64 of
          Some v \<Rightarrow> v | None \<Rightarrow> f64_round (8 / 10))
      in Some (rbind (ensure (f64_le f64_zero minimum_support \<and> f64_le minimum_support f64_one)
          (invalid_request ''minimum_support must be between 0 and 1'')) (\<lambda>_.
        Ok (OcDeclare (discover_declare executions minimum_support)))))"

definition algorithm_name :: "discovery_algorithm \<Rightarrow> string" where
  "algorithm_name a = (case a of AlgDfg \<Rightarrow> ''dfg'' | AlgOcDfg \<Rightarrow> ''ocdfg'' | AlgAlpha \<Rightarrow> ''alpha''
     | AlgInductiveProcessTree \<Rightarrow> ''inductiveprocesstree'' | AlgPetriNet \<Rightarrow> ''petrinet''
     | AlgObjectCentricPetriNet \<Rightarrow> ''objectcentricpetrinet'' | AlgOcDeclare \<Rightarrow> ''ocdeclare'')"

definition discover :: "('j \<Rightarrow> string option) \<Rightarrow> ('j \<Rightarrow> f64 option) \<Rightarrow> ('j model_artifact \<Rightarrow> string ocpm_result)
    \<Rightarrow> executions_method \<Rightarrow> (dataset_view \<Rightarrow> dataset_profile ocpm_result) \<Rightarrow> 'j discovery_request
    \<Rightarrow> 'j model_artifact ocpm_result option" where
  "discover as_str as_f64 content_hash process_executions profile request =
    (if dr_semantic_version request \<noteq> ''1.0'' then Some (Err (invalid_request ''semantic_version must be 1.0''))
     else case discovery_mode as_str (dr_parameters request) of Err e \<Rightarrow> Some (Err e)
     | Ok mode \<Rightarrow>
        let leading = Option.bind (bt_get (dr_parameters request) ''leading_object_type'') as_str in
        (case process_executions (dr_view request) mode leading of Err e \<Rightarrow> Some (Err e)
         | Ok executions \<Rightarrow>
            if executions = [] then Some (Err (ocpm_error_new InsufficientData
              ''discovery requires at least one nonempty process execution''))
            else case profile (dr_view request) of Err e \<Rightarrow> Some (Err e)
            | Ok pf \<Rightarrow> map_option (\<lambda>model. rbind model (\<lambda>model.
                finalize_hash content_hash \<lparr>ma_schema_version = ''1.0'', ma_algorithm = algorithm_name (dr_algorithm request),
                  ma_algorithm_version = dr_algorithm_version request, ma_parameters = dr_parameters request,
                  ma_dataset_id = dp_dataset_id pf, ma_source_watermark = dp_source_watermark pf, ma_model = model,
                  ma_content_hash = []\<rparr>)) (discover_model as_f64 request executions)))"

section \<open>What a directly-follows graph counts\<close>

definition execution_type :: "bool \<Rightarrow> process_execution \<Rightarrow> string" where
  "execution_type object_centric e = (if object_centric then pe_object_type e else [])"

definition edge_keys :: "bool \<Rightarrow> process_execution \<Rightarrow> (string \<times> string \<times> string) list" where
  "edge_keys object_centric e = map (\<lambda>(a, b). (a, b, execution_type object_centric e)) (windows2 (activity_path e))"

lemma fold_edges: "fold (\<lambda>(a, b). bt_incr (ev_activity a, ev_activity b, t) 1) (windows2 es) m =
    fold (\<lambda>k. bt_incr k 1) (map (\<lambda>(a, b). (a, b, t)) (windows2 (map ev_activity es))) m"
  by (simp add: windows2_map fold_map comp_def case_prod_unfold)

lemma dfg_fold:
  "fold (dfg_execution oc) es s = \<lparr>
     ds_activities = fold insort_insert (concat (map activity_path es)) (ds_activities s),
     ds_starts = fold (\<lambda>e. bt_incr (boundary_key (execution_type oc e) (hd (activity_path e))) 1)
       (filter (\<lambda>e. activity_path e \<noteq> []) es) (ds_starts s),
     ds_ends = fold (\<lambda>e. bt_incr (boundary_key (execution_type oc e) (last (activity_path e))) 1)
       (filter (\<lambda>e. activity_path e \<noteq> []) es) (ds_ends s),
     ds_edges = fold (\<lambda>k. bt_incr k 1) (concat (map (edge_keys oc) es)) (ds_edges s)\<rparr>"
proof (induction es arbitrary: s)
  case (Cons e es)
  show ?case
  proof (cases "pe_events e")
    case Nil
    then have "dfg_execution oc e s = s" by (simp add: dfg_execution_def first_opt_def)
    then show ?thesis using Cons Nil by (simp add: activity_path_def edge_keys_def)
  next
    case (Cons ev evs)
    then have "dfg_execution oc e s = s\<lparr>ds_starts := bt_incr (boundary_key (execution_type oc e) (hd (activity_path e))) 1 (ds_starts s),
        ds_ends := bt_incr (boundary_key (execution_type oc e) (last (activity_path e))) 1 (ds_ends s),
        ds_activities := fold insort_insert (activity_path e) (ds_activities s),
        ds_edges := fold (\<lambda>k. bt_incr k 1) (edge_keys oc e) (ds_edges s)\<rparr>"
      unfolding dfg_execution_def fold_edges
      by (simp add: first_opt_def last_opt_def activity_path_def execution_type_def edge_keys_def fold_map comp_def last_map Let_def)
    then show ?thesis using Cons.IH Cons by (simp add: activity_path_def)
  qed
qed simp

lemma sum_filter_incr:
  "sum_list (map snd (filter (\<lambda>x. P (fst x)) (bt_incr k n m))) =
     (if P k then n else 0) + sum_list (map snd (filter (\<lambda>x. P (fst x)) m))"
  unfolding bt_incr_def
  by (induction k "\<lambda>e. case e of None \<Rightarrow> n | Some c \<Rightarrow> c + n" m rule: bt_alter.induct) auto

lemma sum_fold_incr:
  "sum_list (map snd (filter (\<lambda>x. P (fst x)) (fold (\<lambda>x. bt_incr (key x) 1) xs []))) = length (filter (\<lambda>x. P (key x)) xs)"
proof -
  have "sum_list (map snd (filter (\<lambda>x. P (fst x)) (fold (\<lambda>x. bt_incr (key x) 1) xs m))) =
      length (filter (\<lambda>x. P (key x)) xs) + sum_list (map snd (filter (\<lambda>x. P (fst x)) m))" for m
    by (induction xs arbitrary: m) (simp_all add: sum_filter_incr)
  from this [of "[]"] show ?thesis by simp
qed

lemma split_once_boundary: "unit_separator \<notin> set t \<Longrightarrow> split_once unit_separator (boundary_key t a) = Some (t, a)"
  by (induction t) (auto simp: boundary_key_def)

lemma decode_boundary_counts:
  assumes "\<forall>x \<in> set xs. unit_separator \<notin> set (ty x)"
  shows "bt_get (decode_boundary (fold (\<lambda>x. bt_incr (boundary_key (ty x) (act x)) 1) xs [])) a =
    (if \<exists>x \<in> set xs. act x = a then Some (length (filter (\<lambda>x. act x = a) xs)) else None)"
proof -
  define dec where "dec key = (case split_once unit_separator key of None \<Rightarrow> key | Some (_, activity) \<Rightarrow> activity)" for key
  let ?m = "fold (\<lambda>x. bt_incr (boundary_key (ty x) (act x)) 1) xs []"
  have d: "dec (boundary_key (ty x) (act x)) = act x" if "x \<in> set xs" for x
    using assms that by (simp add: dec_def split_once_boundary)
  have keys: "fst ` set ?m = (\<lambda>x. boundary_key (ty x) (act x)) ` set xs"
  proof (induction xs rule: rev_induct)
    case (snoc x xs)
    then show ?case using keys_bt_incr [of "boundary_key (ty x) (act x)" 1 "fold (\<lambda>x. bt_incr (boundary_key (ty x) (act x)) 1) xs []"]
      by simp
  qed simp
  have "decode_boundary ?m = fold (\<lambda>p. btc.bump (dec (fst p)) (snd p)) ?m []"
    by (simp add: decode_boundary_def dec_def case_prod_unfold bt_incr_eq_bump)
  then have "bt_get (decode_boundary ?m) a = (if a \<in> (\<lambda>p. dec (fst p)) ` set ?m
      then Some (sum_list (map snd (filter (\<lambda>p. dec (fst p) = a) ?m))) else None)"
    by (simp add: btc.get_fold_bump btc.count_def)
  moreover have "a \<in> (\<lambda>p. dec (fst p)) ` set ?m \<longleftrightarrow> (\<exists>x \<in> set xs. act x = a)"
  proof -
    have "(\<lambda>p. dec (fst p)) ` set ?m = dec ` (fst ` set ?m)" by (simp add: image_image)
    also have "\<dots> = act ` set xs" unfolding keys image_image by (rule image_cong) (simp_all add: d)
    finally show ?thesis by (auto simp: image_iff)
  qed
  moreover have "sum_list (map snd (filter (\<lambda>p. dec (fst p) = a) ?m)) = length (filter (\<lambda>x. act x = a) xs)"
    unfolding sum_fold_incr [of "\<lambda>k. dec k = a"] by (intro arg_cong [of _ _ length] filter_cong refl) (simp add: d)
  ultimately show ?thesis by simp
qed

lemma discover_dfg_parts:
  "dfg_activities (discover_dfg es oc) = bset (concat (map activity_path es))"
  "dfg_edges (discover_dfg es oc) = map (\<lambda>((source, target, object_type), frequency).
     \<lparr>de_source = source, de_target = target, de_object_type = object_type, de_frequency = frequency\<rparr>)
     (fold (\<lambda>k. bt_incr k 1) (concat (map (edge_keys oc) es)) [])"
  by (simp_all add: discover_dfg_def Let_def dfg_fold fold_insort_bset)

lemma count_list_filter: "count_list xs x = length (filter (\<lambda>k. k = x) xs)"
  by (induction xs) auto

lemma dfg_edge_in:
  "\<lparr>de_source = a, de_target = b, de_object_type = t, de_frequency = n\<rparr> \<in> set (dfg_edges (discover_dfg es oc)) \<longleftrightarrow>
    0 < n \<and> n = count_list (concat (map (edge_keys oc) es)) (a, b, t)"
proof -
  let ?ks = "concat (map (edge_keys oc) es)"
  let ?m = "fold (\<lambda>k. bt_incr k 1) ?ks []"
  have "\<lparr>de_source = a, de_target = b, de_object_type = t, de_frequency = n\<rparr> \<in> set (dfg_edges (discover_dfg es oc)) \<longleftrightarrow>
      ((a, b, t), n) \<in> set ?m" by (force simp: discover_dfg_parts)
  also have "\<dots> \<longleftrightarrow> bt_get ?m (a, b, t) = Some n" by (rule bt.entries_in) (rule bt_inv_fold_incr)
  also have "\<dots> \<longleftrightarrow> (a, b, t) \<in> set ?ks \<and> n = length (filter (\<lambda>k. k = (a, b, t)) ?ks)"
    using get_fold_incr [of "\<lambda>k. k" ?ks "(a, b, t)"] by (auto simp del: set_concat)
  also have "length (filter (\<lambda>k. k = (a, b, t)) ?ks) = count_list ?ks (a, b, t)"
    using count_list_filter [of ?ks] by metis
  also have "(a, b, t) \<in> set ?ks \<longleftrightarrow> 0 < count_list ?ks (a, b, t)" by (metis count_list_0_iff gr0I less_numeral_extra(3))
  finally show ?thesis by blast
qed

lemma discover_dfg_boundaries:
  fixes es object_centric
  defines "m \<equiv> discover_dfg es object_centric" and "runs \<equiv> filter (\<lambda>e. activity_path e \<noteq> []) es"
  assumes "object_centric \<Longrightarrow> \<forall>e \<in> set es. unit_separator \<notin> set (pe_object_type e)"
  shows "bt_get (dfg_start_activities m) a = (if a \<in> (\<lambda>e. hd (activity_path e)) ` set runs
      then Some (length (filter (\<lambda>e. hd (activity_path e) = a) runs)) else None)"
    and "bt_get (dfg_end_activities m) a = (if a \<in> (\<lambda>e. last (activity_path e)) ` set runs
      then Some (length (filter (\<lambda>e. last (activity_path e) = a) runs)) else None)"
proof -
  have sep: "\<forall>e \<in> set runs. unit_separator \<notin> set (execution_type object_centric e)"
    using assms(3) by (auto simp: execution_type_def runs_def)
  have img: "(\<exists>x \<in> set runs. f x = a) \<longleftrightarrow> a \<in> f ` set runs" for f :: "process_execution \<Rightarrow> string"
    by (auto simp: image_iff)
  have "dfg_start_activities m = decode_boundary (fold (\<lambda>e. bt_incr (boundary_key (execution_type object_centric e)
      (hd (activity_path e))) 1) runs [])" "dfg_end_activities m = decode_boundary (fold (\<lambda>e. bt_incr (boundary_key
      (execution_type object_centric e) (last (activity_path e))) 1) runs [])"
    by (simp_all add: m_def runs_def discover_dfg_def Let_def dfg_fold)
  then show "bt_get (dfg_start_activities m) a = (if a \<in> (\<lambda>e. hd (activity_path e)) ` set runs
      then Some (length (filter (\<lambda>e. hd (activity_path e) = a) runs)) else None)"
    and "bt_get (dfg_end_activities m) a = (if a \<in> (\<lambda>e. last (activity_path e)) ` set runs
      then Some (length (filter (\<lambda>e. last (activity_path e) = a) runs)) else None)"
    by (simp_all only: decode_boundary_counts [OF sep] img)
qed

text \<open>C15: A discovered directly-follows graph counts the log: its activities are those of the log in order,
  its edges carry exactly the number of adjacent occurrences per object type, in strictly ascending
  order of source, target and type, and its start and end activities count the executions that begin
  and end there (object types without the unit separator).\<close>

theorem discover_dfg_counts:
  assumes "object_centric \<Longrightarrow> \<forall>e \<in> set es. unit_separator \<notin> set (pe_object_type e)"
  shows "let m = discover_dfg es object_centric; runs = filter (\<lambda>e. activity_path e \<noteq> []) es in
    dfg_activities m = bset (concat (map activity_path es)) \<and>
    set (dfg_edges m) = {\<lparr>de_source = a, de_target = b, de_object_type = t, de_frequency = n\<rparr> | a b t n.
      0 < n \<and> n = count_list (concat (map (edge_keys object_centric) es)) (a, b, t)} \<and>
    sorted_wrt (\<lambda>x y. (de_source x, de_target x, de_object_type x) < (de_source y, de_target y, de_object_type y)) (dfg_edges m) \<and>
    (\<forall>a. bt_get (dfg_start_activities m) a = (if a \<in> (\<lambda>e. hd (activity_path e)) ` set runs
      then Some (length (filter (\<lambda>e. hd (activity_path e) = a) runs)) else None)) \<and>
    (\<forall>a. bt_get (dfg_end_activities m) a = (if a \<in> (\<lambda>e. last (activity_path e)) ` set runs
      then Some (length (filter (\<lambda>e. last (activity_path e) = a) runs)) else None))"
proof -
  let ?m = "discover_dfg es object_centric" and ?runs = "filter (\<lambda>e. activity_path e \<noteq> []) es"
  have edges: "set (dfg_edges ?m) = {\<lparr>de_source = a, de_target = b, de_object_type = t, de_frequency = n\<rparr> | a b t n.
      0 < n \<and> n = count_list (concat (map (edge_keys object_centric) es)) (a, b, t)}" (is "_ = ?E")
  proof (intro set_eqI)
    fix x
    obtain a b t n where x: "x = \<lparr>de_source = a, de_target = b, de_object_type = t, de_frequency = n\<rparr>" by (cases x)
    show "x \<in> set (dfg_edges ?m) \<longleftrightarrow> x \<in> ?E" unfolding x dfg_edge_in by auto
  qed
  have order: "sorted_wrt (\<lambda>x y. (de_source x, de_target x, de_object_type x) < (de_source y, de_target y, de_object_type y)) (dfg_edges ?m)"
  proof -
    let ?f = "\<lambda>((source, target, object_type), frequency).
      \<lparr>de_source = source, de_target = target, de_object_type = object_type, de_frequency = frequency\<rparr>"
    have eq: "(\<lambda>x y. (de_source (?f x), de_target (?f x), de_object_type (?f x)) <
        (de_source (?f y), de_target (?f y), de_object_type (?f y))) = (\<lambda>x y. fst x < fst y)"
      by (intro ext) (simp split: prod.splits)
    show ?thesis
      unfolding discover_dfg_parts sorted_wrt_map eq
      using bt_inv_fold_incr [of "\<lambda>k. k" 1 "concat (map (edge_keys object_centric) es)"]
      by (simp add: bt_inv_def sorted_wrt_map)
  qed
  show ?thesis
    unfolding Let_def using edges order discover_dfg_boundaries [OF assms] by (simp add: discover_dfg_parts(1))
qed

theorem discover_dfg_counts_witness:
  "bt_get (dfg_start_activities (discover_dfg [path_execution [''a'', ''b''], path_execution [''a'']] True)) ''a'' = Some 2"
proof -
  have "unit_separator \<notin> set (pe_object_type (path_execution p))" for p
    by (simp add: path_execution_def unit_separator_def)
  then have "True \<Longrightarrow> \<forall>e \<in> set [path_execution [''a'', ''b''], path_execution [''a'']]. unit_separator \<notin> set (pe_object_type e)"
    by simp
  from discover_dfg_counts [OF this] show ?thesis by (simp add: Let_def)
qed

section \<open>The places of the alpha miner\<close>

definition log_follows :: "process_execution list \<Rightarrow> (string \<times> string) set" where
  "log_follows es = (\<Union>e \<in> set es. set (windows2 (activity_path e)))"

text \<open>The alpha algorithm over a directly-follows relation, in its classic reading: pairs of sets of
  activities, each source before each target in one direction only, and no activity of a set following
  any of that set, itself included; of these the maximal ones.\<close>

definition alpha_pair :: "(string \<times> string) set \<Rightarrow> string set \<Rightarrow> string set \<Rightarrow> bool" where
  "alpha_pair F A B \<longleftrightarrow> A \<noteq> {} \<and> B \<noteq> {} \<and> A \<times> B \<subseteq> F - F\<inverse> \<and> A \<times> A \<inter> F = {} \<and> B \<times> B \<inter> F = {}"

definition alpha_maximal :: "(string \<times> string) set \<Rightarrow> string set \<Rightarrow> string set \<Rightarrow> bool" where
  "alpha_maximal F A B \<longleftrightarrow> alpha_pair F A B \<and>
     (\<forall>A' B'. alpha_pair F A' B' \<longrightarrow> A \<subseteq> A' \<longrightarrow> B \<subseteq> B' \<longrightarrow> A' = A \<and> B' = B)"

text \<open>The pairs the search of the code is over: it does not compare an activity with itself.\<close>

definition mined_pair :: "(string \<times> string) set \<Rightarrow> string set \<Rightarrow> string set \<Rightarrow> bool" where
  "mined_pair F A B \<longleftrightarrow> A \<noteq> {} \<and> B \<noteq> {} \<and> A \<times> B \<subseteq> F - F\<inverse> \<and>
     (\<forall>x \<in> A. \<forall>y \<in> A. x \<noteq> y \<longrightarrow> (x, y) \<notin> F) \<and> (\<forall>x \<in> B. \<forall>y \<in> B. x \<noteq> y \<longrightarrow> (x, y) \<notin> F)"

definition mined_maximal :: "(string \<times> string) set \<Rightarrow> string set \<Rightarrow> string set \<Rightarrow> bool" where
  "mined_maximal F A B \<longleftrightarrow> mined_pair F A B \<and>
     (\<forall>A' B'. mined_pair F A' B' \<longrightarrow> A \<subseteq> A' \<longrightarrow> B \<subseteq> B' \<longrightarrow> A' = A \<and> B' = B)"

lemma mined_pair_alpha: "mined_pair F A B \<longleftrightarrow> alpha_pair (F - Id) A B"
proof -
  have "A \<times> B \<subseteq> F - F\<inverse> \<longleftrightarrow> A \<times> B \<subseteq> (F - Id) - (F - Id)\<inverse>" by auto
  moreover have "(\<forall>x \<in> C. \<forall>y \<in> C. x \<noteq> y \<longrightarrow> (x, y) \<notin> F) \<longleftrightarrow> C \<times> C \<inter> (F - Id) = {}" for C by auto
  ultimately show ?thesis unfolding mined_pair_def alpha_pair_def by simp
qed

lemma mined_maximal_alpha: "mined_maximal F A B \<longleftrightarrow> alpha_maximal (F - Id) A B"
  by (simp add: mined_maximal_def alpha_maximal_def mined_pair_alpha)

lemma follows_of_log: "set (follows_of (discover_dfg es False)) = log_follows es"
proof -
  have "(a, b) \<in> set (follows_of (discover_dfg es False)) \<longleftrightarrow> (\<exists>t n.
      \<lparr>de_source = a, de_target = b, de_object_type = t, de_frequency = n\<rparr> \<in> set (dfg_edges (discover_dfg es False)))" for a b
  proof -
    have "(a, b) \<in> set (follows_of (discover_dfg es False)) \<longleftrightarrow>
        (\<exists>x \<in> set (dfg_edges (discover_dfg es False)). de_source x = a \<and> de_target x = b)"
      by (auto simp: follows_of_def image_iff)
    also have "\<dots> \<longleftrightarrow> (\<exists>t n. \<lparr>de_source = a, de_target = b, de_object_type = t, de_frequency = n\<rparr> \<in>
        set (dfg_edges (discover_dfg es False)))"
      by (metis dfg_edge.cases dfg_edge.select_convs(1,2))
    finally show ?thesis .
  qed
  moreover have "0 < count_list xs x \<longleftrightarrow> x \<in> set xs" for xs and x :: "string \<times> string \<times> string"
    by (metis count_list_0_iff gr0I less_numeral_extra(3))
  ultimately show ?thesis
    by (force simp: dfg_edge_in log_follows_def edge_keys_def execution_type_def image_iff)
qed

lemma causal_of_set: "set (causal_of follows) = set follows - (set follows)\<inverse>"
  by (auto simp: causal_of_def)

lemma valid_alpha_pair_iff:
  "A \<noteq> [] \<Longrightarrow> B \<noteq> [] \<Longrightarrow> valid_alpha_pair A B (causal_of follows) follows \<longleftrightarrow> mined_pair (set follows) (set A) (set B)"
proof -
  have "pairwise_unrelated C follows \<longleftrightarrow> (\<forall>x \<in> set C. \<forall>y \<in> set C. x \<noteq> y \<longrightarrow> (x, y) \<notin> set follows)" for C
    unfolding pairwise_unrelated_def by metis
  moreover have "(\<forall>x \<in> set A. \<forall>y \<in> set B. (x, y) \<in> R) \<longleftrightarrow> set A \<times> set B \<subseteq> R" for R by auto
  moreover assume "A \<noteq> []" "B \<noteq> []"
  ultimately show ?thesis unfolding valid_alpha_pair_def mined_pair_def causal_of_set by (simp only: set_empty) blast
qed

definition wf_candidate :: "relation \<Rightarrow> candidate \<Rightarrow> bool" where
  "wf_candidate follows c \<longleftrightarrow> bset (fst c) = fst c \<and> bset (snd c) = snd c \<and> mined_pair (set follows) (set (fst c)) (set (snd c))"

lemma bset_idem [simp]: "bset (bset xs) = bset (xs :: 'a::linorder list)"
  by (rule bset_cong) simp

lemma addition_wf:
  assumes "wf_candidate follows l" and "wf_candidate follows r" and "c \<in> set (alpha_addition (causal_of follows) follows l r)"
  shows "wf_candidate follows c"
proof -
  have ne: "fst l \<noteq> []" "snd l \<noteq> []" using assms(1) by (auto simp: wf_candidate_def mined_pair_def)
  show ?thesis
    using assms ne unfolding alpha_addition_def
    by (auto simp: wf_candidate_def Let_def valid_alpha_pair_iff split: if_splits)
qed

lemma extend_wf:
  "(\<forall>c \<in> set cs. wf_candidate follows c) \<Longrightarrow> \<forall>c \<in> set (alpha_extend (causal_of follows) follows cs). wf_candidate follows c"
  by (auto simp: alpha_extend_def dest: addition_wf)

text \<open>A search that ends without hitting the bound is closed under the two unions.\<close>

lemma alpha_candidates_Ok:
  assumes "alpha_candidates causal follows cs = Ok out" and "distinct cs"
  shows "distinct out \<and> set cs \<subseteq> set out \<and> set (alpha_extend causal follows out) = set out \<and>
    ((\<forall>c \<in> set cs. I c) \<longrightarrow> (\<forall>xs. (\<forall>c \<in> set xs. I c) \<longrightarrow> (\<forall>c \<in> set (alpha_extend causal follows xs). I c)) \<longrightarrow>
      (\<forall>c \<in> set out. I c))"
  using assms
proof (induction causal follows cs rule: alpha_candidates.induct)
  case (1 causal follows cs)
  let ?x = "alpha_extend causal follows cs"
  have x: "set cs \<subseteq> set ?x" "distinct ?x" by (rule alpha_extend_set)+
  show ?case
  proof (cases "length ?x = length cs")
    case True
    then have out: "out = ?x" using "1.prems"(1) by (simp add: alpha_candidates.simps [of _ _ cs] Let_def split: if_splits)
    have "set cs = set ?x" using True x "1.prems"(2) by (metis List.finite_set card_subset_eq distinct_card)
    then have "set (alpha_extend causal follows ?x) = set ?x" using x by (auto simp: alpha_extend_def)
    then show ?thesis using out x by blast
  next
    case False
    then have "alpha_candidates causal follows ?x = Ok out" "\<not> max_alpha_candidates < length ?x"
      using "1.prems"(1) by (auto simp: alpha_candidates.simps [of _ _ cs] Let_def split: if_splits)
    from "1.IH" [OF refl this(2) False this(1) x(2)] x(1) show ?thesis by blast
  qed
qed

lemma closed_addition:
  assumes "set (alpha_extend causal follows cs) = set cs" and "l \<in> set cs" and "r \<in> set cs"
  shows "set (alpha_addition causal follows l r) \<subseteq> set cs"
  using assms by (auto simp: alpha_extend_def)

lemma mined_pair_sub:
  "mined_pair F A B \<Longrightarrow> A' \<subseteq> A \<Longrightarrow> B' \<subseteq> B \<Longrightarrow> A' \<noteq> {} \<Longrightarrow> B' \<noteq> {} \<Longrightarrow> mined_pair F A' B'"
  unfolding mined_pair_def by blast

lemma bset_sorted_list: "finite B \<Longrightarrow> B \<noteq> {} \<Longrightarrow> sorted_list_of_set B \<noteq> []"
  by simp

lemma bset_insert: "finite B \<Longrightarrow> bset ([b] @ sorted_list_of_set B) = sorted_list_of_set (insert b (B :: string set))"
  by (simp add: bset_eq_sorted_list_of_set)

lemma singleton_list: "sorted_list_of_set {a :: string} = [a]"
  by simp

text \<open>Completeness: every pair is built up from singletons, first its targets, then its sources.\<close>

lemma closed_targets:
  assumes closed: "set (alpha_extend (causal_of follows) follows cs) = set cs"
    and base: "\<And>a b. (a, b) \<in> set (causal_of follows) \<Longrightarrow> ([a], [b]) \<in> set cs" and "finite B" and "B \<noteq> {}"
  shows "mined_pair (set follows) {a} B \<Longrightarrow> ([a], sorted_list_of_set B) \<in> set cs"
  using assms(3,4)
proof (induction B rule: finite_ne_induct)
  case (singleton b)
  then show ?case using base by (simp add: mined_pair_def causal_of_set)
next
  case (insert b B)
  have "([a], sorted_list_of_set B) \<in> set cs"
    using insert.prems insert.hyps by (intro insert.IH) (rule mined_pair_sub, auto)
  moreover have "([a], [b]) \<in> set cs" using insert.prems by (intro base) (auto simp: mined_pair_def causal_of_set)
  ultimately have "set (alpha_addition (causal_of follows) follows ([a], [b]) ([a], sorted_list_of_set B)) \<subseteq> set cs"
    by (intro closed_addition closed)
  moreover have "valid_alpha_pair [a] (sorted_list_of_set (insert b B)) (causal_of follows) follows"
    using insert.prems insert.hyps by (subst valid_alpha_pair_iff) (simp_all add: set_sorted_list_of_set del: sorted_list_of_set_insert_remove sorted_list_of_set_insert)
  ultimately show ?case
    using insert.hyps by (simp add: alpha_addition_def bset_insert [simplified] Let_def del: sorted_list_of_set_insert_remove)
qed

lemma closed_sources:
  assumes closed: "set (alpha_extend (causal_of follows) follows cs) = set cs"
    and base: "\<And>a b. (a, b) \<in> set (causal_of follows) \<Longrightarrow> ([a], [b]) \<in> set cs" and B: "finite B" "B \<noteq> {}"
    and "finite A" and "A \<noteq> {}"
  shows "mined_pair (set follows) A B \<Longrightarrow> (sorted_list_of_set A, sorted_list_of_set B) \<in> set cs"
  using assms(5,6)
proof (induction A rule: finite_ne_induct)
  case (singleton a)
  then show ?case using closed_targets [OF closed base B] by simp
next
  case (insert a A)
  have "(sorted_list_of_set A, sorted_list_of_set B) \<in> set cs"
    using insert.prems insert.hyps B by (intro insert.IH) (rule mined_pair_sub, auto)
  moreover have "([a], sorted_list_of_set B) \<in> set cs"
    using insert.prems B by (intro closed_targets [OF closed base B]) (auto intro: mined_pair_sub)
  ultimately have "set (alpha_addition (causal_of follows) follows ([a], sorted_list_of_set B)
      (sorted_list_of_set A, sorted_list_of_set B)) \<subseteq> set cs"
    by (intro closed_addition closed)
  moreover have "valid_alpha_pair (sorted_list_of_set (insert a A)) (sorted_list_of_set B) (causal_of follows) follows"
    using insert.prems insert.hyps B by (subst valid_alpha_pair_iff) (simp_all add: set_sorted_list_of_set del: sorted_list_of_set_insert_remove sorted_list_of_set_insert)
  ultimately show ?case
    using insert.hyps by (simp add: alpha_addition_def bset_insert [simplified] Let_def del: sorted_list_of_set_insert_remove)
qed

definition candidate_sets :: "candidate \<Rightarrow> string set \<times> string set" where
  "candidate_sets c = (set (fst c), set (snd c))"

lemma mined_pair_finite: "mined_pair F A B \<Longrightarrow> finite F \<Longrightarrow> finite A \<and> finite B"
proof -
  assume a: "mined_pair F A B" "finite F"
  then obtain x y where "x \<in> A" "y \<in> B" "A \<times> B \<subseteq> F" unfolding mined_pair_def by auto
  then have "(\<lambda>a. (a, y)) ` A \<subseteq> F" "(\<lambda>b. (x, b)) ` B \<subseteq> F" by auto
  then have "finite ((\<lambda>a. (a, y)) ` A)" "finite ((\<lambda>b. (x, b)) ` B)" using a(2) finite_subset by blast+
  then show ?thesis by (auto dest!: finite_imageD simp: inj_on_def)
qed

lemma alpha_search:
  assumes "alpha_candidates (causal_of follows) follows
    (bset (map (\<lambda>(source, target). ([source], [target])) (causal_of follows))) = Ok out"
  shows "inj_on candidate_sets (set out) \<and> candidate_sets ` set out = {(A, B). mined_pair (set follows) A B}"
proof -
  let ?init = "bset (map (\<lambda>(source, target). ([source], [target])) (causal_of follows))"
  have init: "\<forall>c \<in> set ?init. wf_candidate follows c"
  proof
    fix c
    assume "c \<in> set ?init"
    then obtain a b where "c = ([a], [b])" "(a, b) \<in> set follows" "(b, a) \<notin> set follows"
      by (auto simp: causal_of_set)
    then show "wf_candidate follows c" by (simp add: wf_candidate_def mined_pair_def bset_def)
  qed
  note out = alpha_candidates_Ok [OF assms distinct_bset, of "wf_candidate follows"]
  have wf: "wf_candidate follows c" if "c \<in> set out" for c
    using out init extend_wf [of _ follows] that by metis
  have base: "([a], [b]) \<in> set out" if "(a, b) \<in> set (causal_of follows)" for a b
    using out that by force
  have "inj_on candidate_sets (set out)"
  proof (rule inj_onI)
    fix c c'
    assume "c \<in> set out" "c' \<in> set out" and eq: "candidate_sets c = candidate_sets c'"
    then have "bset (fst c) = fst c" "bset (fst c') = fst c'" "bset (snd c) = snd c" "bset (snd c') = snd c'"
      using wf by (simp_all add: wf_candidate_def)
    moreover have "bset (fst c) = bset (fst c')" "bset (snd c) = bset (snd c')"
      using eq by (auto simp: candidate_sets_def intro!: bset_cong)
    ultimately show "c = c'" by (metis prod_eqI)
  qed
  moreover have "(A, B) \<in> candidate_sets ` set out \<longleftrightarrow> mined_pair (set follows) A B" for A B
  proof
    assume "(A, B) \<in> candidate_sets ` set out"
    then show "mined_pair (set follows) A B" using wf by (auto simp: candidate_sets_def wf_candidate_def)
  next
    assume p: "mined_pair (set follows) A B"
    then have fin: "finite A" "finite B" "A \<noteq> {}" "B \<noteq> {}"
      using mined_pair_finite [OF p] by (auto simp: mined_pair_def)
    have "(sorted_list_of_set A, sorted_list_of_set B) \<in> set out"
      by (rule closed_sources) (use out base fin p in auto)
    then show "(A, B) \<in> candidate_sets ` set out"
      using fin by (intro image_eqI [of _ _ "(sorted_list_of_set A, sorted_list_of_set B)"]) (simp_all add: candidate_sets_def)
  qed
  ultimately show ?thesis by auto
qed

lemma maximal_candidates_sets:
  assumes "inj_on candidate_sets (set out)" and "candidate_sets ` set out = {(A, B). mined_pair F A B}"
  shows "candidate_sets ` set (maximal_candidates out) = {(A, B). mined_maximal F A B}"
proof (intro set_eqI iffI)
  fix x
  assume "x \<in> candidate_sets ` set (maximal_candidates out)"
  then obtain c where c: "c \<in> set out" "x = candidate_sets c"
    and max: "\<not> (\<exists>d \<in> set out. c \<noteq> d \<and> set (fst c) \<subseteq> set (fst d) \<and> set (snd c) \<subseteq> set (snd d))"
    by (auto simp: maximal_candidates_def)
  have "mined_pair F (set (fst c)) (set (snd c))" using c(1) assms(2) by (force simp: candidate_sets_def)
  moreover have "A' = set (fst c) \<and> B' = set (snd c)"
    if "mined_pair F A' B'" "set (fst c) \<subseteq> A'" "set (snd c) \<subseteq> B'" for A' B'
  proof -
    have "(A', B') \<in> candidate_sets ` set out" using assms(2) that(1) by simp
    then obtain d where "d \<in> set out" "A' = set (fst d)" "B' = set (snd d)" by (auto simp: candidate_sets_def)
    then have "c = d" using max that(2,3) by metis
    then show ?thesis using \<open>A' = _\<close> \<open>B' = _\<close> by simp
  qed
  ultimately show "x \<in> {(A, B). mined_maximal F A B}" using c(2) by (simp add: mined_maximal_def candidate_sets_def)
next
  fix x
  assume "x \<in> {(A, B). mined_maximal F A B}"
  then obtain A B where x: "x = (A, B)" "mined_pair F A B"
    and max: "\<And>A' B'. mined_pair F A' B' \<Longrightarrow> A \<subseteq> A' \<Longrightarrow> B \<subseteq> B' \<Longrightarrow> A' = A \<and> B' = B"
    by (auto simp: mined_maximal_def)
  then have "(A, B) \<in> candidate_sets ` set out" using assms(2) by simp
  then obtain c where c: "c \<in> set out" "candidate_sets c = (A, B)" by force
  have "c = d" if "d \<in> set out" "set (fst c) \<subseteq> set (fst d)" "set (snd c) \<subseteq> set (snd d)" for d
  proof (rule inj_onD [OF assms(1) _ c(1) that(1)])
    have "mined_pair F (set (fst d)) (set (snd d))" using that(1) assms(2) by (force simp: candidate_sets_def)
    then show "candidate_sets c = candidate_sets d" using max that(2,3) c(2) by (auto simp: candidate_sets_def)
  qed
  then have "c \<in> set (maximal_candidates out)" using c(1) by (auto simp: maximal_candidates_def)
  then show "x \<in> candidate_sets ` set (maximal_candidates out)" using c(2) x(1) by force
qed

lemma dedup_by_remdups: "map f (dedup_by f xs) = remdups_adj (map f xs)" "set (dedup_by f xs) \<subseteq> set xs"
  by (induction f xs rule: dedup_by.induct) auto

lemma alpha_arcs_distinct: "distinct (map arc_ends (net_arcs (alpha_net dfg ps)))"
  by (simp add: alpha_net_def Let_def dedup_by_remdups distinct_remdups_adj_if_sorted)

text \<open>The search drops the activities that directly follow themselves from the relation first.\<close>

lemma alpha_places:
  assumes "discover_alpha es = Ok net"
  shows "\<exists>ps. net = alpha_net (discover_dfg es False) ps \<and> distinct ps \<and> inj_on candidate_sets (set ps) \<and>
    candidate_sets ` set ps = {(A, B). alpha_maximal (log_follows es - Id) A B} \<and> distinct (map arc_ends (net_arcs net))"
proof -
  let ?F = "follows_of (discover_dfg es False)"
  obtain out where out: "alpha_candidates (causal_of ?F) ?F
      (bset (map (\<lambda>(source, target). ([source], [target])) (causal_of ?F))) = Ok out"
    "net = alpha_net (discover_dfg es False) (maximal_candidates out)"
    using assms by (auto simp: discover_alpha_def Let_def result_simps)
  note s = alpha_search [OF out(1)]
  have "distinct (maximal_candidates out)" using alpha_candidates_Ok [OF out(1) distinct_bset] by (simp add: maximal_candidates_def)
  moreover have "inj_on candidate_sets (set (maximal_candidates out))"
    by (rule inj_on_subset [OF conjunct1 [OF s]]) (auto simp: maximal_candidates_def)
  ultimately show ?thesis
    using maximal_candidates_sets s out(2) alpha_arcs_distinct unfolding follows_of_log [symmetric] mined_maximal_alpha [symmetric] by blast
qed

text \<open>An activity that repeats shows the difference: on the one trace \<open>a, a, b\<close> the classic algorithm has
  no pair at all, since \<open>a\<close> follows itself, and the code has a place from \<open>a\<close> to \<open>b\<close>.\<close>

lemma alpha_self_loop:
  "(\<nexists>A B. alpha_pair (log_follows [path_execution [''a'', ''a'', ''b'']]) A B) \<and>
    (\<exists>ps. discover_alpha [path_execution [''a'', ''a'', ''b'']] =
      Ok (alpha_net (discover_dfg [path_execution [''a'', ''a'', ''b'']] False) ps) \<and> ({''a''}, {''b''}) \<in> candidate_sets ` set ps)"
proof -
  let ?es = "[path_execution [''a'', ''a'', ''b'']]"
  have F: "log_follows ?es = {(''a'', ''a''), (''a'', ''b'')}"
    by (simp add: log_follows_def activity_path_def path_execution_def sample_event_def)
  have none: "\<not> alpha_pair (log_follows ?es) A B" for A B
  proof
    assume *: "alpha_pair (log_follows ?es) A B"
    then obtain x y where "x \<in> A" "y \<in> B" by (auto simp: alpha_pair_def)
    with * show False unfolding F alpha_pair_def by fastforce
  qed
  have "A' = {''a''} \<and> B' = {''b''}" if "alpha_pair {(''a'', ''b'')} A' B'" for A' B'
    using that unfolding alpha_pair_def by auto
  moreover have "alpha_pair {(''a'', ''b'')} {''a''} {''b''}" by (auto simp: alpha_pair_def)
  moreover have "log_follows ?es - Id = {(''a'', ''b'')}" unfolding F by auto
  ultimately have max: "alpha_maximal (log_follows ?es - Id) {''a''} {''b''}"
    unfolding alpha_maximal_def by metis
  show ?thesis
  proof (intro conjI notI)
    show False if "\<exists>A B. alpha_pair (log_follows ?es) A B" using that none by blast
    have "map_sum id (\<lambda>net. length (net_places net)) (discover_alpha ?es) = Ok 3" by code_simp
    then obtain net where net: "discover_alpha ?es = Ok net" by (cases "discover_alpha ?es") auto
    from alpha_places [OF net] obtain ps where "net = alpha_net (discover_dfg ?es False) ps"
      "candidate_sets ` set ps = {(A, B). alpha_maximal (log_follows ?es - Id) A B}" by blast
    then show "\<exists>ps. discover_alpha ?es = Ok (alpha_net (discover_dfg ?es False) ps) \<and> ({''a''}, {''b''}) \<in> candidate_sets ` set ps"
      using max net by (intro exI [of _ ps]) simp
  qed
qed

text \<open>C16: On a log in which no activity directly follows itself the alpha miner is the classic alpha
  algorithm: unless the search hits its safety bound, the inner places of the net are exactly the
  maximal pairs of activity sets that are causally connected and, within each set, unrelated in the
  directly-follows relation of the log, one place each, and no two arcs of the net join the same ends.
  (With such activities the code works on the relation without them, which the classic algorithm does not.)\<close>

theorem discover_alpha_places:
  assumes "discover_alpha es = Ok net" and "\<forall>a. (a, a) \<notin> log_follows es"
  shows "\<exists>ps. net = alpha_net (discover_dfg es False) ps \<and> distinct ps \<and> inj_on candidate_sets (set ps) \<and>
    candidate_sets ` set ps = {(A, B). alpha_maximal (log_follows es) A B} \<and> distinct (map arc_ends (net_arcs net))"
proof -
  have "log_follows es - Id = log_follows es" using assms(2) by auto
  then show ?thesis using alpha_places [OF assms(1)] by simp
qed

theorem discover_alpha_places_witness:
  "\<exists>net ps. discover_alpha [path_execution [''a'', ''b'', ''d''], path_execution [''a'', ''c'', ''d'']] = Ok net \<and>
    length (net_places net) = 4 \<and> net = alpha_net (discover_dfg [path_execution [''a'', ''b'', ''d''], path_execution [''a'', ''c'', ''d'']] False) ps \<and>
    distinct ps"
proof -
  let ?es = "[path_execution [''a'', ''b'', ''d''], path_execution [''a'', ''c'', ''d'']]"
  have n: "map_sum id (\<lambda>net. length (net_places net)) (discover_alpha ?es) = Ok 4" by code_simp
  then obtain net where net: "discover_alpha ?es = Ok net" by (cases "discover_alpha ?es") auto
  have "\<forall>a. (a, a) \<notin> log_follows ?es" by (simp add: log_follows_def activity_path_def path_execution_def sample_event_def)
  then show ?thesis using discover_alpha_places [OF net] n net by auto
qed

end
