(* ===== verification/Kernels.thy ===== *)
theory Kernels
  imports CoreData
begin

text \<open>
  The frequency kernels of \<open>crates/ocpm-core/src/lib.rs\<close>: frequency-ranked conformance of
  transitions and of variants, next-activity prediction, bottleneck ranking and frequency drift.
  Unchecked sums wrap at 64 bits, as in the release profile; floats are the binary64 values of
  \<open>Ieee64\<close>. Hash maps and sets are ordered maps and sets where their order cannot show, and the
  order of iteration is a parameter (\<open>iteration\<close>) where it can. The logarithm is a parameter
  too, because its rounding is the platform's.
\<close>

section \<open>Data\<close>

datatype analytics_error = InvalidCoverage | ColumnLengthMismatch | AnalyticsCountOverflow

datatype transition_key = TransitionKey (tk_source: string) (tk_target: string) (tk_edge_type: string)

definition tk_tuple :: "transition_key \<Rightarrow> string \<times> string \<times> string" where
  "tk_tuple k = (tk_source k, tk_target k, tk_edge_type k)"

lemma tk_tuple_eq: "tk_tuple x = tk_tuple y \<Longrightarrow> x = y"
  by (cases x; cases y) (simp add: tk_tuple_def)

instantiation transition_key :: linorder
begin

definition less_eq_transition_key :: "transition_key \<Rightarrow> transition_key \<Rightarrow> bool" where
  "x \<le> y \<longleftrightarrow> tk_tuple x \<le> tk_tuple y"

definition less_transition_key :: "transition_key \<Rightarrow> transition_key \<Rightarrow> bool" where
  "x < y \<longleftrightarrow> tk_tuple x < tk_tuple y"

instance
proof
  fix x y z :: transition_key
  show "(x < y) = (x \<le> y \<and> \<not> y \<le> x)" by (auto simp: less_eq_transition_key_def less_transition_key_def)
  show "x \<le> x" by (simp add: less_eq_transition_key_def)
  show "x \<le> y \<Longrightarrow> y \<le> z \<Longrightarrow> x \<le> z" unfolding less_eq_transition_key_def by (rule order_trans)
  show "x \<le> y \<Longrightarrow> y \<le> x \<Longrightarrow> x = y"
    unfolding less_eq_transition_key_def by (rule tk_tuple_eq) (rule antisym)
  show "x \<le> y \<or> y \<le> x" by (auto simp: less_eq_transition_key_def)
qed

end

record 'k conformance_result =
  cr_fitness :: f64
  cr_conforming :: nat
  cr_deviations :: nat
  cr_test_total :: nat
  cr_model_size :: nat
  cr_model :: "'k list"

record next_activity_result =
  nar_accuracy :: f64
  nar_correct :: nat
  nar_test_total :: nat
  nar_model_size :: nat
  nar_predictions :: "(string \<times> string \<times> string) list"

record drift_contributor =
  dc_label :: string
  dc_baseline_share :: f64
  dc_current_share :: f64
  dc_share_delta :: f64
  dc_js_contribution :: f64

record frequency_drift_result =
  fdr_divergence :: f64
  fdr_baseline_total :: nat
  fdr_current_total :: nat
  fdr_contributors :: "drift_contributor list"

section \<open>Frequency-ranked conformance\<close>

text \<open>\<open>iter().sum::<u64>()\<close> without overflow checks.\<close>

definition u64_sum :: "nat list \<Rightarrow> nat" where
  "u64_sum xs = fold (\<lambda>x s. u64_wrapping_add s x) xs 0"

definition validate_coverage :: "f64 \<Rightarrow> analytics_error + unit" where
  "validate_coverage coverage =
     ensure (f64_is_finite coverage \<and> f64_lt f64_zero coverage \<and> f64_le coverage f64_one) InvalidCoverage"

definition ratio :: "nat \<Rightarrow> nat \<Rightarrow> f64" where
  "ratio numerator denominator =
    (if denominator = 0 then f64_one else f64_div (f64_of_nat numerator) (f64_of_nat denominator))"

type_synonym 'k freq_row = "'k \<times> nat \<times> nat"

abbreviation row_key :: "'k freq_row \<Rightarrow> 'k" where "row_key r \<equiv> fst r"
abbreviation row_train :: "'k freq_row \<Rightarrow> nat" where "row_train r \<equiv> fst (snd r)"
abbreviation row_test :: "'k freq_row \<Rightarrow> nat" where "row_test r \<equiv> snd (snd r)"

definition rank_key :: "'k freq_row \<Rightarrow> int \<times> 'k" where
  "rank_key r = (- int (row_train r), row_key r)"

definition coverage_target :: "nat \<Rightarrow> f64 \<Rightarrow> nat" where
  "coverage_target train_total coverage = f64_to_u64 (f64_ceil (f64_mul (f64_of_nat train_total) coverage))"

text \<open>The greedy loop: rows with no training observation are skipped.\<close>

fun cover :: "nat \<Rightarrow> nat \<Rightarrow> ('k \<times> nat) list \<Rightarrow> 'k list" where
  "cover target covered [] = []"
| "cover target covered ((k, n) # rows) =
    (if target \<le> covered then []
     else if 0 < n then k # cover target (u64_saturating_add covered n) rows
     else cover target covered rows)"

definition frequency_conformance :: "('k::linorder) freq_row list \<Rightarrow> f64 \<Rightarrow> analytics_error + 'k conformance_result" where
  "frequency_conformance rows coverage =
    rbind (validate_coverage coverage) (\<lambda>_.
    let rows = sort_key rank_key rows;
      train_total = u64_sum (map row_train rows);
      target = coverage_target train_total coverage;
      model = cover target 0 (map (\<lambda>r. (row_key r, row_train r)) rows);
      test_total = u64_sum (map row_test rows);
      conforming = u64_sum (map row_test (filter (\<lambda>r. row_key r \<in> set model) rows));
      deviations = test_total - conforming;
      model = sort model in
    Ok \<lparr>cr_fitness = ratio conforming test_total, cr_conforming = conforming, cr_deviations = deviations,
        cr_test_total = test_total, cr_model_size = length model, cr_model = model\<rparr>)"

definition dfg_frequency_conformance ::
  "transition_key freq_row list \<Rightarrow> f64 \<Rightarrow> analytics_error + transition_key conformance_result" where
  "dfg_frequency_conformance rows coverage = frequency_conformance rows coverage"

definition variant_frequency_conformance ::
  "string freq_row list \<Rightarrow> f64 \<Rightarrow> analytics_error + string conformance_result" where
  "variant_frequency_conformance rows coverage = frequency_conformance rows coverage"

section \<open>Next activity\<close>

definition better :: "string \<times> nat \<Rightarrow> string \<times> nat \<Rightarrow> bool" where
  "better candidate current \<longleftrightarrow>
     snd current < snd candidate \<or> (snd candidate = snd current \<and> fst candidate < fst current)"

definition offer :: "transition_key freq_row \<Rightarrow> (string \<times> string, string \<times> nat) btree_map
    \<Rightarrow> (string \<times> string, string \<times> nat) btree_map" where
  "offer r winners =
    (if row_train r = 0 then winners
     else let candidate = (tk_target (row_key r), row_train r) in
       bt_alter (tk_source (row_key r), tk_edge_type (row_key r))
         (\<lambda>current. case current of None \<Rightarrow> candidate
            | Some c \<Rightarrow> if better candidate c then candidate else c) winners)"

definition next_winners :: "transition_key freq_row list \<Rightarrow> (string \<times> string, string \<times> nat) btree_map" where
  "next_winners rows = fold offer rows []"

definition predicted :: "(string \<times> string, string \<times> nat) btree_map \<Rightarrow> transition_key freq_row \<Rightarrow> bool" where
  "predicted winners r = (case bt_get winners (tk_source (row_key r), tk_edge_type (row_key r)) of
     None \<Rightarrow> False | Some w \<Rightarrow> fst w = tk_target (row_key r))"

definition next_activity_prediction :: "transition_key freq_row list \<Rightarrow> next_activity_result" where
  "next_activity_prediction rows =
    (let winners = next_winners rows;
       test_total = u64_sum (map row_test rows);
       correct = u64_sum (map row_test (filter (predicted winners) rows));
       predictions = sort (map (\<lambda>((source, edge_type), (target, _)). (source, edge_type, target)) winners) in
     \<lparr>nar_accuracy = ratio correct test_total, nar_correct = correct, nar_test_total = test_total,
      nar_model_size = length predictions, nar_predictions = predictions\<rparr>)"

section \<open>Bottleneck ranking\<close>

text \<open>\<open>sort_unstable_by\<close> with a comparator, as insertion sort; on a total order every sort gives the
  same list.\<close>

fun insert_by :: "('a \<Rightarrow> 'a \<Rightarrow> bool) \<Rightarrow> 'a \<Rightarrow> 'a list \<Rightarrow> 'a list" where
  "insert_by le x [] = [x]"
| "insert_by le x (y # ys) = (if le x y then x # y # ys else y # insert_by le x ys)"

definition sort_by :: "('a \<Rightarrow> 'a \<Rightarrow> bool) \<Rightarrow> 'a list \<Rightarrow> 'a list" where
  "sort_by le xs = foldr (insert_by le) xs []"

datatype ordering = Less | Equal | Greater

definition f64_partial_cmp :: "f64 \<Rightarrow> f64 \<Rightarrow> ordering option" where
  "f64_partial_cmp x y = (if f64_lt x y then Some Less else if f64_lt y x then Some Greater
     else if f64_eq x y then Some Equal else None)"

definition nat_cmp :: "nat \<Rightarrow> nat \<Rightarrow> ordering" where
  "nat_cmp a b = (if a < b then Less else if b < a then Greater else Equal)"

definition then_with :: "ordering \<Rightarrow> ordering \<Rightarrow> ordering" where
  "then_with a b = (case a of Equal \<Rightarrow> b | _ \<Rightarrow> a)"

definition bottleneck_cmp :: "nat list \<Rightarrow> f64 list \<Rightarrow> nat \<Rightarrow> nat \<Rightarrow> ordering" where
  "bottleneck_cmp frequencies mean_durations left right =
    then_with (then_with
      (case f64_partial_cmp (mean_durations ! right) (mean_durations ! left) of None \<Rightarrow> Equal | Some c \<Rightarrow> c)
      (nat_cmp (frequencies ! right) (frequencies ! left)))
      (nat_cmp left right)"

definition rank_bottlenecks :: "nat list \<Rightarrow> f64 list \<Rightarrow> analytics_error + nat list" where
  "rank_bottlenecks frequencies mean_durations =
    (if length frequencies \<noteq> length mean_durations then Err ColumnLengthMismatch
     else Ok (sort_by (\<lambda>l r. bottleneck_cmp frequencies mean_durations l r \<noteq> Greater) [0..<length frequencies]))"

section \<open>Drift\<close>

definition drift_add :: "(string, nat \<times> nat) btree_map \<Rightarrow> string \<times> nat \<times> nat
    \<Rightarrow> analytics_error + (string, nat \<times> nat) btree_map" where
  "drift_add m = (\<lambda>(label, baseline, current).
     let counts = (case bt_get m label of None \<Rightarrow> (0, 0) | Some c \<Rightarrow> c) in
     rbind (ok_or AnalyticsCountOverflow (u64_checked_add (fst counts) baseline)) (\<lambda>a.
     rbind (ok_or AnalyticsCountOverflow (u64_checked_add (snd counts) current)) (\<lambda>b.
     Ok (bt_insert label (a, b) m))))"

definition checked_total :: "nat list \<Rightarrow> analytics_error + nat" where
  "checked_total xs = try_fold (\<lambda>t x. ok_or AnalyticsCountOverflow (u64_checked_add t x)) 0 xs"

definition share :: "nat \<Rightarrow> nat \<Rightarrow> f64" where
  "share n denominator =
    (if denominator = 0 then f64_zero else f64_div (f64_of_nat n) (f64_of_nat denominator))"

definition f64_half :: f64 where "f64_half = F_fin (1 / 2)"

definition js_term :: "(f64 \<Rightarrow> f64) \<Rightarrow> f64 \<Rightarrow> f64 \<Rightarrow> f64" where
  "js_term log2 s midpoint =
    (if f64_eq s f64_zero then f64_zero else f64_mul (f64_mul f64_half s) (log2 (f64_div s midpoint)))"

definition js_contribution :: "(f64 \<Rightarrow> f64) \<Rightarrow> nat \<Rightarrow> nat \<Rightarrow> f64 \<Rightarrow> f64 \<Rightarrow> f64" where
  "js_contribution log2 baseline_total current_total baseline_share current_share =
    (if baseline_total = 0 \<and> current_total = 0 then f64_zero
     else if baseline_total = 0 then current_share
     else if current_total = 0 then baseline_share
     else let midpoint = f64_mul (f64_add baseline_share current_share) f64_half in
       f64_add (js_term log2 baseline_share midpoint) (js_term log2 current_share midpoint))"

definition contributor :: "(f64 \<Rightarrow> f64) \<Rightarrow> nat \<Rightarrow> nat \<Rightarrow> string \<times> nat \<times> nat \<Rightarrow> drift_contributor" where
  "contributor log2 baseline_total current_total = (\<lambda>(label, baseline, current).
     let baseline_share = share baseline baseline_total; current_share = share current current_total in
     \<lparr>dc_label = label, dc_baseline_share = baseline_share, dc_current_share = current_share,
      dc_share_delta = f64_sub current_share baseline_share,
      dc_js_contribution = js_contribution log2 baseline_total current_total baseline_share current_share\<rparr>)"

definition contributor_le :: "drift_contributor \<Rightarrow> drift_contributor \<Rightarrow> bool" where
  "contributor_le left right \<longleftrightarrow>
     f64_total_lt (dc_js_contribution right) (dc_js_contribution left) \<or>
     (\<not> f64_total_lt (dc_js_contribution left) (dc_js_contribution right) \<and> dc_label left \<le> dc_label right)"

definition frequency_drift ::
  "((string \<times> nat \<times> nat) list \<Rightarrow> (string \<times> nat \<times> nat) list) \<Rightarrow> (f64 \<Rightarrow> f64)
    \<Rightarrow> (string \<times> nat \<times> nat) list \<Rightarrow> nat \<Rightarrow> analytics_error + frequency_drift_result" where
  "frequency_drift iteration log2 rows top_n =
    rbind (try_fold drift_add [] rows) (\<lambda>m.
    let aggregated = iteration m in
    rbind (checked_total (map (\<lambda>(_, b, _). b) aggregated)) (\<lambda>baseline_total.
    rbind (checked_total (map (\<lambda>(_, _, c). c) aggregated)) (\<lambda>current_total.
    let contributors = map (contributor log2 baseline_total current_total) aggregated;
      divergence = fold (\<lambda>c d. f64_add d (dc_js_contribution c)) contributors f64_zero in
    Ok \<lparr>fdr_divergence = f64_clamp f64_zero f64_one divergence, fdr_baseline_total = baseline_total,
        fdr_current_total = current_total,
        fdr_contributors = take top_n (sort_by contributor_le contributors)\<rparr>)))"

section \<open>Sums and greedy prefixes\<close>

lemma u64_sum_from: "fold (\<lambda>x s. u64_wrapping_add s x) xs a mod 2 ^ 64 = (a + sum_list xs) mod 2 ^ 64"
  by (induction xs arbitrary: a) (simp_all add: u64_wrapping_add_def mod_simps add.assoc)

lemma u64_sum_eq: "u64_sum xs = sum_list xs mod 2 ^ 64"
proof (cases xs rule: rev_cases)
  case (snoc ys y)
  have "u64_sum xs = u64_sum xs mod 2 ^ 64" by (simp add: snoc u64_sum_def u64_wrapping_add_def)
  then show ?thesis using u64_sum_from [of xs 0] by (simp add: u64_sum_def)
qed (simp add: u64_sum_def)

lemma u64_sum_exact: "sum_list xs \<le> u64_max \<Longrightarrow> u64_sum xs = sum_list xs"
  by (simp add: u64_sum_eq u64_max_def)

lemma u64_sum_perm: "mset xs = mset ys \<Longrightarrow> u64_sum xs = u64_sum ys"
  by (simp add: u64_sum_eq) (metis sum_mset_sum_list)

lemma sum_take_le: "sum_list (take i xs) \<le> sum_list (xs :: nat list)"
  by (metis append_take_drop_id le_add1 sum_list_append)

lemma cover_prefix:
  assumes "c + sum_list (map snd rows) \<le> u64_max" and "sorted_wrt (\<ge>) (map snd rows)"
  shows "\<exists>n \<le> length rows. cover target c rows = map fst (take n rows) \<and>
    (\<forall>i < n. c + sum_list (map snd (take i rows)) < target) \<and>
    (target \<le> c + sum_list (map snd (take n rows)) \<or>
     c + sum_list (map snd (take n rows)) = c + sum_list (map snd rows))"
  using assms
proof (induction rows arbitrary: c)
  case Nil
  then show ?case by simp
next
  case (Cons r rows)
  obtain k n where r: "r = (k, n)" by (cases r)
  show ?case
  proof (cases "target \<le> c")
    case True
    then show ?thesis using r by (intro exI [of _ 0]) simp
  next
    case c: False
    show ?thesis
    proof (cases "n = 0")
      case True
      then have "\<forall>x \<in> set (map snd rows). x = 0" using Cons.prems(2) r by auto
      then have zero: "sum_list (map snd rows) = 0" "\<forall>x \<in> set rows. snd x = 0"
        by (auto simp: sum_list_eq_0_iff)
      have "cover target c xs = []" if "\<forall>x \<in> set xs. snd x = 0" for xs :: "('a \<times> nat) list"
        using that by (induction xs) (auto split: prod.splits)
      then show ?thesis using c r True zero by (intro exI [of _ 0]) simp
    next
      case False
      have "c + n + sum_list (map snd rows) \<le> u64_max" "sorted_wrt (\<ge>) (map snd rows)"
        using Cons.prems r by simp_all
      from Cons.IH [OF this] obtain m where m: "m \<le> length rows"
        "cover target (c + n) rows = map fst (take m rows)"
        "\<forall>i < m. c + n + sum_list (map snd (take i rows)) < target"
        "target \<le> c + n + sum_list (map snd (take m rows)) \<or>
          c + n + sum_list (map snd (take m rows)) = c + n + sum_list (map snd rows)"
        by auto
      have "u64_saturating_add c n = c + n" using Cons.prems(1) r by (simp add: u64_saturating_add_def)
      moreover have "\<forall>i < Suc m. c + sum_list (map snd (take i ((k, n) # rows))) < target"
        using m(3) c by (auto simp: less_Suc_eq_0_disj add.assoc)
      ultimately show ?thesis
        using c False m r by (intro exI [of _ "Suc m"]) (simp add: add.assoc)
    qed
  qed
qed

text \<open>In a descending list no selection of \<open>k\<close> elements outweighs the first \<open>k\<close>.\<close>

lemma sum_mset_le_take:
  assumes "sorted_wrt (\<ge>) xs" and "S \<subseteq># mset (xs :: nat list)"
  shows "\<Sum>\<^sub># S \<le> sum_list (take (size S) xs)"
  using assms
proof (induction xs arbitrary: S)
  case Nil
  then show ?case by simp
next
  case (Cons x xs)
  show ?case
  proof (cases "x \<in># S")
    case True
    then obtain T where T: "S = add_mset x T" by (metis insert_DiffM)
    then have "T \<subseteq># mset xs" using Cons.prems(2) by simp
    then show ?thesis using Cons.IH [of T] Cons.prems(1) T by simp
  next
    case False
    have S: "S \<subseteq># mset xs"
    proof (rule mset_subset_eqI)
      fix a
      show "count S a \<le> count (mset xs) a"
        using mset_subset_eq_count [OF Cons.prems(2), of a] False
        by (cases "a = x") (simp_all add: not_in_iff)
    qed
    then have IH: "\<Sum>\<^sub># S \<le> sum_list (take (size S) xs)" using Cons.IH [of S] Cons.prems(1) by simp
    show ?thesis
    proof (cases "size S")
      case (Suc k)
      then have k: "k < length xs" using size_mset_mono [OF S] by simp
      have "sum_list (take (Suc k) xs) = sum_list (take k xs) + xs ! k" using k by (simp add: take_Suc_conv_app_nth)
      moreover have "xs ! k \<le> x" using Cons.prems(1) k by simp
      ultimately show ?thesis using IH Suc by simp
    qed (use IH in simp)
  qed
qed

lemma sorted_rank: "sorted_wrt (\<ge>) (map row_train (sort_key rank_key rows))"
proof -
  have "sorted (map (fst \<circ> rank_key) (sort_key rank_key rows))"
    using sorted_sort_key [of rank_key rows]
    by (auto simp: sorted_wrt_map rank_key_def less_eq_prod_def elim!: sorted_wrt_mono_rel [rotated])
  then show ?thesis by (simp add: sorted_wrt_map rank_key_def)
qed

section \<open>The target\<close>

text \<open>Below \<open>2 ^ 53\<close> observations the target never exceeds what the rows hold.\<close>

lemma coverage_target_le:
  assumes "n < 2 ^ 53" and "validate_coverage coverage = Ok ()"
  shows "coverage_target n coverage \<le> n"
proof (cases "n = 0")
  case True
  have "f64_is_finite coverage" using assms(2) by (simp add: validate_coverage_def result_simps)
  then show ?thesis using True
    by (cases coverage) (auto simp: coverage_target_def f64_mul_def f64_signed_zero_def Let_def)
next
  case False
  from assms(2) obtain q where q: "coverage = F_fin q" "0 < q" "q \<le> 1"
    by (cases coverage) (auto simp: validate_coverage_def result_simps f64_le_def)
  let ?p = "of_nat n * q"
  have p: "0 < ?p" "?p \<le> of_nat n" using False q by (simp_all add: mult_left_le)
  have "round_mag ?p \<le> round_mag (of_nat n)" using p by (rule round_mag_mono)
  then have r: "0 \<le> round_mag ?p" "round_mag ?p \<le> of_nat n"
    using round_mag_nat_exact [of n] False assms(1) p by (simp_all add: round_mag_nonneg)
  have "(of_nat n :: rat) < of_nat (2 ^ 53)" using assms(1) by (simp only: of_nat_less_iff)
  then have "(of_nat n :: rat) < 2 ^ 1024" by simp
  then have lim: "\<not> f64_limit \<le> round_mag ?p" using r by (simp add: f64_limit_eq)
  have "f64_mul (f64_of_nat n) coverage = f64_round ?p"
    using q False assms(1) by (simp add: f64_of_nat_exact f64_mul_def)
  also have "\<dots> = F_fin (round_mag ?p)" using p lim by (auto simp: f64_round_def Let_def)
  finally have m: "f64_mul (f64_of_nat n) coverage = F_fin (round_mag ?p)" .
  have "nat \<lceil>round_mag ?p\<rceil> \<le> n" using r by (simp add: ceiling_le_iff nat_le_iff)
  then show ?thesis using r by (simp add: coverage_target_def m not_less min.coboundedI1)
qed

section \<open>Conformance\<close>

lemma frequency_conformance_Ok:
  "frequency_conformance rows coverage = Ok r \<longleftrightarrow>
    validate_coverage coverage = Ok () \<and>
    (let ranked = sort_key rank_key rows;
       target = coverage_target (u64_sum (map row_train ranked)) coverage;
       model = cover target 0 (map (\<lambda>r. (row_key r, row_train r)) ranked);
       test_total = u64_sum (map row_test ranked);
       conforming = u64_sum (map row_test (filter (\<lambda>r. row_key r \<in> set model) ranked)) in
     r = \<lparr>cr_fitness = ratio conforming test_total, cr_conforming = conforming,
       cr_deviations = test_total - conforming, cr_test_total = test_total, cr_model_size = length model,
       cr_model = sort model\<rparr>)"
  by (auto simp: frequency_conformance_def Let_def result_simps)

lemma sum_list_sort: "sum_list (map f (sort_key g xs)) = (sum_list (map f xs) :: nat)"
proof -
  have "\<Sum>\<^sub># (mset (map f (sort_key g xs))) = \<Sum>\<^sub># (mset (map f xs))" by simp
  then show ?thesis unfolding sum_mset_sum_list .
qed

lemma conformance_minimal_aux:
  fixes rows :: "('k::linorder) freq_row list"
  assumes ok: "frequency_conformance rows coverage = Ok r" and small: "sum_list (map row_train rows) < 2 ^ 53"
  defines "target \<equiv> coverage_target (sum_list (map row_train rows)) coverage"
    and "ranked \<equiv> sort_key rank_key rows"
  shows "cr_model r = sort (map row_key (take (cr_model_size r) ranked))"
    and "target \<le> sum_list (map row_train (take (cr_model_size r) ranked))"
    and "S \<subseteq># mset rows \<Longrightarrow> target \<le> \<Sum>\<^sub># (image_mset row_train S) \<Longrightarrow> cr_model_size r \<le> size S"
proof -
  let ?ps = "map (\<lambda>r. (row_key r, row_train r)) ranked"
  have sum: "sum_list (map row_train ranked) = sum_list (map row_train rows)"
    unfolding ranked_def by (rule sum_list_sort)
  have exact: "u64_sum (map row_train ranked) = sum_list (map row_train rows)"
    using small by (simp add: u64_sum_exact sum u64_max_def)
  have fst_snd: "map snd ?ps = map row_train ranked" by (simp add: comp_def)
  have desc: "sorted_wrt (\<ge>) (map row_train ranked)" unfolding ranked_def by (rule sorted_rank)
  obtain n where n: "n \<le> length ranked" "cover target 0 ?ps = map fst (take n ?ps)"
    "\<forall>i < n. sum_list (map snd (take i ?ps)) < target"
    "target \<le> sum_list (map snd (take n ?ps)) \<or> sum_list (map snd (take n ?ps)) = sum_list (map snd ?ps)"
    using cover_prefix [of 0 ?ps target] small desc unfolding fst_snd by (auto simp: sum u64_max_def)
  have model: "cover target 0 ?ps = map row_key (take n ranked)"
    unfolding n(2) by (simp add: take_map comp_def)
  have "cr_model r = sort (cover (coverage_target (u64_sum (map row_train ranked)) coverage) 0 ?ps) \<and>
      cr_model_size r = length (cover (coverage_target (u64_sum (map row_train ranked)) coverage) 0 ?ps)"
    using ok unfolding frequency_conformance_Ok Let_def ranked_def [symmetric] by (elim conjE) simp
  then have r: "cr_model r = sort (cover target 0 ?ps)" "cr_model_size r = n"
    unfolding exact target_def [symmetric] using n(1) by (simp_all add: model)
  show "cr_model r = sort (map row_key (take (cr_model_size r) ranked))" using r model by simp
  have sums: "sum_list (map snd (take i ?ps)) = sum_list (map row_train (take i ranked))" for i
    by (simp add: take_map comp_def)
  have "target \<le> sum_list (map row_train rows)"
    using coverage_target_le [OF small, of coverage] ok by (simp add: target_def frequency_conformance_Ok)
  then show "target \<le> sum_list (map row_train (take (cr_model_size r) ranked))"
    using n(4) r(2) sum unfolding sums fst_snd by auto
  show "cr_model_size r \<le> size S" if S: "S \<subseteq># mset rows" and t: "target \<le> \<Sum>\<^sub># (image_mset row_train S)"
  proof (rule ccontr)
    assume "\<not> cr_model_size r \<le> size S"
    then have "sum_list (map row_train (take (size S) ranked)) < target" using n(3) r(2) unfolding sums by simp
    moreover have "image_mset row_train S \<subseteq># mset (map row_train ranked)"
      using image_mset_subseteq_mono [OF S] by (simp add: ranked_def)
    then have "\<Sum>\<^sub># (image_mset row_train S) \<le> sum_list (take (size S) (map row_train ranked))"
      using sum_mset_le_take [OF desc] by (metis size_image_mset)
    ultimately show False using t by (simp add: take_map)
  qed
qed

lemma map_sort_key: "map f (sort_key f xs) = sort (map f xs)"
  by (rule properties_for_sort [symmetric]) simp_all

lemma ranked_pairs:
  "map (\<lambda>r. (row_key r, row_train r)) (sort_key rank_key rows) = map (\<lambda>(n, k). (k, nat (- n))) (sort (map rank_key rows))"
  unfolding map_sort_key [symmetric] by (simp add: comp_def rank_key_def)

lemma frequency_conformance_perm:
  assumes "mset rows' = mset rows"
  shows "frequency_conformance rows' coverage = frequency_conformance rows coverage"
proof -
  have "sort (map rank_key rows') = sort (map rank_key rows)"
    by (rule properties_for_sort) (simp_all add: assms)
  then have pairs: "map (\<lambda>r. (row_key r, row_train r)) (sort_key rank_key rows')
      = map (\<lambda>r. (row_key r, row_train r)) (sort_key rank_key rows)" by (simp only: ranked_pairs)
  have sums: "u64_sum (map f (sort_key rank_key rows')) = u64_sum (map f (sort_key rank_key rows))"
    and filters: "u64_sum (map f (filter P (sort_key rank_key rows'))) = u64_sum (map f (filter P (sort_key rank_key rows)))"
    for f and P :: "'a freq_row \<Rightarrow> bool"
    by (rule u64_sum_perm, simp add: assms)+
  show ?thesis unfolding frequency_conformance_def Let_def sums pairs filters ..
qed

lemma ratio_unit: "n \<le> d \<Longrightarrow> d \<le> u64_max \<Longrightarrow> f64_unit (ratio n d)"
  by (auto simp: ratio_def f64_div_counts_unit) (simp add: f64_unit_def f64_le_def)

lemma conformance_accounting_aux:
  assumes "frequency_conformance rows coverage = Ok r" and "sum_list (map row_test rows) \<le> u64_max"
  shows "cr_test_total r = sum_list (map row_test rows)"
    and "cr_conforming r = sum_list (map row_test (filter (\<lambda>x. row_key x \<in> set (cr_model r)) rows))"
    and "cr_conforming r + cr_deviations r = cr_test_total r" and "f64_unit (cr_fitness r)"
proof -
  let ?ranked = "sort_key rank_key rows"
  have r: "cr_test_total r = u64_sum (map row_test ?ranked)"
    "cr_conforming r = u64_sum (map row_test (filter (\<lambda>x. row_key x \<in> set (cr_model r)) ?ranked))"
    "cr_deviations r = cr_test_total r - cr_conforming r" "cr_fitness r = ratio (cr_conforming r) (cr_test_total r)"
    using assms(1) unfolding frequency_conformance_Ok Let_def by (elim conjE; simp)+
  have all: "u64_sum (map row_test ?ranked) = sum_list (map row_test rows)"
    using assms(2) by (simp add: u64_sum_exact sum_list_sort)
  have filt: "u64_sum (map row_test (filter P ?ranked)) = sum_list (map row_test (filter P rows))" for P
  proof -
    have "sum_list (map row_test (filter P rows)) \<le> u64_max"
      using sum_list_filter_le [of row_test P rows] assms(2) by linarith
    then show ?thesis by (simp add: u64_sum_exact filter_sort sum_list_sort)
  qed
  show t: "cr_test_total r = sum_list (map row_test rows)" using r(1) all by simp
  show c: "cr_conforming r = sum_list (map row_test (filter (\<lambda>x. row_key x \<in> set (cr_model r)) rows))"
    using r(2) filt by simp
  have le: "cr_conforming r \<le> cr_test_total r" unfolding t c by (rule sum_list_filter_le)
  then show "cr_conforming r + cr_deviations r = cr_test_total r" using r(3) by simp
  show "f64_unit (cr_fitness r)" unfolding r(4) using le assms(2) t by (intro ratio_unit) simp_all
qed

section \<open>Next-activity prediction\<close>

abbreviation row_group :: "transition_key freq_row \<Rightarrow> string \<times> string" where
  "row_group r \<equiv> (tk_source (row_key r), tk_edge_type (row_key r))"

text \<open>The best candidate of a group: it is one of its rows, and none is better.\<close>

definition best_of :: "transition_key freq_row list \<Rightarrow> string \<times> string \<Rightarrow> string \<times> nat \<Rightarrow> bool" where
  "best_of rows g w \<longleftrightarrow>
     (\<exists>r \<in> set rows. row_group r = g \<and> 0 < row_train r \<and> w = (tk_target (row_key r), row_train r)) \<and>
     (\<forall>r \<in> set rows. row_group r = g \<and> 0 < row_train r \<longrightarrow> \<not> better (tk_target (row_key r), row_train r) w)"

lemma better_trans: "\<not> better a b \<Longrightarrow> better c b \<Longrightarrow> \<not> better a c"
  by (auto simp: better_def)

lemma better_antisym: "\<not> better a b \<Longrightarrow> \<not> better b a \<Longrightarrow> a = b"
  by (auto simp: better_def prod_eq_iff)

lemma best_of_unique: "best_of rows g w \<Longrightarrow> best_of rows g w' \<Longrightarrow> w = w'"
  unfolding best_of_def by (metis better_antisym)

lemma next_winners_inv: "bt_inv (next_winners rows)"
  unfolding next_winners_def
  by (induction rows rule: rev_induct) (auto simp: offer_def Let_def intro: bt_inv_alter)

lemma next_winners_best:
  "(case bt_get (next_winners rows) g of
      None \<Rightarrow> \<forall>r \<in> set rows. row_group r = g \<longrightarrow> row_train r = 0
    | Some w \<Rightarrow> best_of rows g w)"
proof (induction rows rule: rev_induct)
  case Nil
  then show ?case by (simp add: next_winners_def)
next
  case (snoc r rows)
  let ?m = "next_winners rows" and ?c = "(tk_target (row_key r), row_train r)"
  have m: "next_winners (rows @ [r]) = offer r ?m" by (simp add: next_winners_def)
  show ?case
  proof (cases "row_train r = 0 \<or> row_group r \<noteq> g")
    case True
    then have "bt_get (next_winners (rows @ [r])) g = bt_get ?m g"
      by (auto simp: m offer_def Let_def bt.get_alter next_winners_inv)
    then show ?thesis using snoc True by (fastforce simp: best_of_def split: option.splits)
  next
    case False
    then have g: "bt_get (next_winners (rows @ [r])) g = Some (case bt_get ?m g of None \<Rightarrow> ?c
        | Some c \<Rightarrow> if better ?c c then ?c else c)"
      by (auto simp: m offer_def Let_def bt.get_alter next_winners_inv)
    show ?thesis
    proof (cases "bt_get ?m g")
      case None
      then show ?thesis using snoc g False by (fastforce simp: best_of_def better_def)
    next
      case (Some c)
      then have c: "best_of rows g c" using snoc by simp
      show ?thesis
      proof (cases "better ?c c")
        case True
        then show ?thesis
          using c g Some False better_trans [OF _ True] by (auto simp: best_of_def) (auto simp: better_def)
      next
        case worse: False
        then show ?thesis using c g Some by (auto simp: best_of_def)
      qed
    qed
  qed
qed

lemma next_activity_perm:
  assumes "mset rows' = mset rows"
  shows "next_activity_prediction rows' = next_activity_prediction rows"
proof -
  have sets: "set rows' = set rows" by (rule mset_eq_setD [OF assms])
  then have best: "best_of rows' = best_of rows" by (intro ext) (simp add: best_of_def)
  have winners: "next_winners rows' = next_winners rows"
  proof (rule bt.get_ext [OF next_winners_inv next_winners_inv])
    fix g
    show "bt_get (next_winners rows') g = bt_get (next_winners rows) g"
      using next_winners_best [of rows g] next_winners_best [of rows' g]
      unfolding best sets by (auto split: option.splits dest: best_of_unique) (auto simp: best_of_def)
  qed
  have "u64_sum (map row_test (filter P rows')) = u64_sum (map row_test (filter P rows))"
    "u64_sum (map row_test rows') = u64_sum (map row_test rows)" for P
    by (rule u64_sum_perm, simp add: assms)+
  then show ?thesis unfolding next_activity_prediction_def Let_def winners by simp
qed

lemma nar_predictions_iff:
  "(source, edge_type, target) \<in> set (nar_predictions (next_activity_prediction rows)) \<longleftrightarrow>
     (\<exists>n. best_of rows (source, edge_type) (target, n))"
proof -
  let ?m = "next_winners rows"
  have "(source, edge_type, target) \<in> set (nar_predictions (next_activity_prediction rows)) \<longleftrightarrow>
      (\<exists>n. ((source, edge_type), (target, n)) \<in> set ?m)"
    by (force simp: next_activity_prediction_def Let_def)
  also have "\<dots> \<longleftrightarrow> (\<exists>n. bt_get ?m (source, edge_type) = Some (target, n))"
    using bt.entries_in [OF next_winners_inv] by blast
  also have "\<dots> \<longleftrightarrow> (\<exists>n. best_of rows (source, edge_type) (target, n))"
    using next_winners_best [of rows "(source, edge_type)"]
    by (auto split: option.splits dest: best_of_unique) (auto simp: best_of_def)
  finally show ?thesis .
qed

section \<open>Sorting with a comparator\<close>

lemma mset_insert_by: "mset (insert_by le x xs) = add_mset x (mset xs)"
  by (induction xs) auto

lemma mset_sort_by [simp]: "mset (sort_by le xs) = mset xs"
  by (induction xs) (simp_all add: sort_by_def mset_insert_by)

lemma length_sort_by [simp]: "length (sort_by le xs) = length xs"
  by (metis mset_sort_by size_mset)

lemma insert_by_key:
  assumes "\<And>y. y \<in> set ys \<Longrightarrow> le x y \<longleftrightarrow> f x \<le> (f y :: 'b::linorder)"
  shows "insert_by le x ys = insort_key f x ys"
  using assms by (induction ys) auto

lemma sort_by_key:
  assumes "\<And>x y. x \<in> set xs \<Longrightarrow> y \<in> set xs \<Longrightarrow> le x y \<longleftrightarrow> f x \<le> (f y :: 'b::linorder)"
  shows "sort_by le xs = sort_key f xs"
  using assms
proof (induction xs)
  case (Cons x xs)
  have "sort_by le xs = sort_key f xs" using Cons by simp
  then have "sort_by le (x # xs) = insert_by le x (sort_key f xs)" by (simp add: sort_by_def)
  also have "\<dots> = insort_key f x (sort_key f xs)" by (rule insert_by_key) (use Cons.prems in auto)
  finally show ?case by simp
qed (simp add: sort_by_def)

text \<open>The floats that are numbers, as a linear order.\<close>

fun f64_rank :: "f64 \<Rightarrow> int \<times> rat" where
  "f64_rank (F_inf s) = (if s then -1 else 1, 0)"
| "f64_rank (F_fin q) = (0, q)"
| "f64_rank _ = (0, 0)"

lemma f64_lt_rank: "x \<noteq> F_nan \<Longrightarrow> y \<noteq> F_nan \<Longrightarrow> f64_lt x y \<longleftrightarrow> f64_rank x < f64_rank y"
  by (cases x; cases y) (auto simp: less_prod_def)

lemma f64_eq_rank: "x \<noteq> F_nan \<Longrightarrow> y \<noteq> F_nan \<Longrightarrow> f64_eq x y \<longleftrightarrow> f64_rank x = f64_rank y"
  by (cases x; cases y) auto

definition bottleneck_key :: "nat list \<Rightarrow> f64 list \<Rightarrow> nat \<Rightarrow> (int \<times> rat) \<times> int \<times> nat" where
  "bottleneck_key fs ds i = ((- fst (f64_rank (ds ! i)), - snd (f64_rank (ds ! i))), - int (fs ! i), i)"

lemma bottleneck_cmp_key:
  assumes "ds ! l \<noteq> F_nan" and "ds ! r \<noteq> F_nan"
  shows "bottleneck_cmp fs ds l r \<noteq> Greater \<longleftrightarrow> bottleneck_key fs ds l \<le> bottleneck_key fs ds r"
proof -
  obtain a b c d where ranks: "f64_rank (ds ! l) = (a, b)" "f64_rank (ds ! r) = (c, d)"
    by (cases "f64_rank (ds ! l)"; cases "f64_rank (ds ! r)")
  have same: "l = r \<Longrightarrow> a = c \<and> b = d" using ranks by auto
  consider "f64_rank (ds ! r) < f64_rank (ds ! l)" | "f64_rank (ds ! l) < f64_rank (ds ! r)"
    | "f64_rank (ds ! l) = f64_rank (ds ! r)" by fastforce
  then show ?thesis
    by cases (use assms same in \<open>auto simp: bottleneck_cmp_def bottleneck_key_def f64_partial_cmp_def f64_lt_rank
        f64_eq_rank then_with_def nat_cmp_def ranks less_prod_def less_eq_prod_def\<close>)
qed

lemma rank_bottlenecks_key:
  assumes "length fs = length ds" and "F_nan \<notin> set ds"
  shows "rank_bottlenecks fs ds = Ok (sort_key (bottleneck_key fs ds) [0..<length fs])"
proof -
  have "sort_by (\<lambda>l r. bottleneck_cmp fs ds l r \<noteq> Greater) [0..<length fs]
      = sort_key (bottleneck_key fs ds) [0..<length fs]"
    by (rule sort_by_key, rule bottleneck_cmp_key) (use assms in \<open>auto dest!: nth_mem\<close>)
  then show ?thesis using assms by (simp add: rank_bottlenecks_def)
qed

section \<open>Drift totals\<close>

lemma clamp_not_nan: "f64_clamp f64_zero f64_one x \<noteq> F_nan \<Longrightarrow> f64_unit (f64_clamp f64_zero f64_one x)"
  by (cases "x = F_nan") (simp_all add: f64_clamp_unit, simp add: f64_clamp_def)

lemma bt_sum_insert:
  fixes g :: "'k::linorder \<times> 'v \<Rightarrow> nat"
  shows "bt_inv m \<Longrightarrow> sum_list (map g (bt_insert k v m)) + (case bt_get m k of None \<Rightarrow> 0 | Some w \<Rightarrow> g (k, w))
    = sum_list (map g m) + g (k, v)"
proof (induction m)
  case (Cons x m)
  obtain a w where x: "x = (a, w)" by (cases x)
  have inv: "bt_inv m" using Cons.prems by (simp add: bt_inv_def)
  have "bt_get m k = None" if "k < a"
    using Cons.prems x that by (auto simp: bt_inv_def bt_get_def map_of_eq_None_iff dest: less_trans)
  then show ?case using Cons.IH [OF inv] x by (auto simp: bt_insert_def bt_get_def split: option.splits)
qed (simp add: bt_insert_def)

abbreviation baselines :: "(string \<times> nat \<times> nat) list \<Rightarrow> nat" where
  "baselines rows \<equiv> sum_list (map (\<lambda>r. fst (snd r)) rows)"

abbreviation currents :: "(string \<times> nat \<times> nat) list \<Rightarrow> nat" where
  "currents rows \<equiv> sum_list (map (\<lambda>r. snd (snd r)) rows)"

lemma bt_get_le_sum: "bt_get m k = Some w \<Longrightarrow> g (k, w) \<le> (sum_list (map g m) :: nat)"
  by (auto simp: bt_get_def dest!: map_of_SomeD intro!: member_le_sum_list)

lemma drift_add_Ok:
  assumes "bt_inv m" and "drift_add m r = Ok m'"
  shows "bt_inv m' \<and> baselines m' = baselines m + fst (snd r) \<and> currents m' = currents m + snd (snd r) \<and>
    fst ` set m' = insert (fst r) (fst ` set m)"
proof -
  obtain l b c where r: "r = (l, b, c)" by (cases r)
  let ?old = "case bt_get m l of None \<Rightarrow> (0, 0) | Some x \<Rightarrow> x"
  have m': "m' = bt_insert l (fst ?old + b, snd ?old + c) m"
    using assms(2) r by (auto simp: drift_add_def Let_def result_simps)
  have keys: "fst ` set m' = insert l (fst ` set m)"
    using keys_bt_alter [of l _ m] by (simp add: m' bt_insert_def)
  show ?thesis
    using bt_sum_insert [OF assms(1), of "\<lambda>r. fst (snd r)" l "(fst ?old + b, snd ?old + c)"]
      bt_sum_insert [OF assms(1), of "\<lambda>r. snd (snd r)" l "(fst ?old + b, snd ?old + c)"] keys r
    by (auto simp: m' bt_inv_insert assms(1) split: option.splits)
qed

lemma drift_add_in:
  assumes "bt_inv m" and "baselines m + fst (snd r) \<le> u64_max" and "currents m + snd (snd r) \<le> u64_max"
  shows "\<exists>m'. drift_add m r = Ok m'"
proof -
  obtain l b c where r: "r = (l, b, c)" by (cases r)
  let ?old = "case bt_get m l of None \<Rightarrow> (0, 0) | Some x \<Rightarrow> x"
  have "fst ?old \<le> baselines m" "snd ?old \<le> currents m"
    using bt_get_le_sum [of m l _ "\<lambda>r. fst (snd r)"] bt_get_le_sum [of m l _ "\<lambda>r. snd (snd r)"]
    by (auto split: option.splits)
  then show ?thesis using assms(2,3) r by (simp add: drift_add_def Let_def u64_checked_add_def)
qed

lemma drift_fold_Ok:
  assumes "bt_inv m" and "try_fold drift_add m rows = Ok m'"
  shows "bt_inv m' \<and> baselines m' = baselines m + baselines rows \<and> currents m' = currents m + currents rows \<and>
    fst ` set m' = fst ` set m \<union> fst ` set rows"
  using assms
proof (induction rows arbitrary: m)
  case (Cons r rows)
  then obtain m1 where m1: "drift_add m r = Ok m1" "try_fold drift_add m1 rows = Ok m'" by (auto simp: result_simps)
  show ?case using drift_add_Ok [OF Cons.prems(1) m1(1)] Cons.IH [OF _ m1(2)] by auto
qed simp

lemma drift_fold_in:
  assumes "bt_inv m" and "baselines m + baselines rows \<le> u64_max" and "currents m + currents rows \<le> u64_max"
  shows "\<exists>m'. try_fold drift_add m rows = Ok m'"
  using assms
proof (induction rows arbitrary: m)
  case (Cons r rows)
  then obtain m1 where m1: "drift_add m r = Ok m1" using drift_add_in [of m r] by auto
  show ?case using drift_add_Ok [OF Cons.prems(1) m1] Cons m1 by (auto simp: add.assoc)
qed simp

lemma checked_total_from:
  "try_fold (\<lambda>t x. ok_or AnalyticsCountOverflow (u64_checked_add t x)) a xs = Ok t \<longleftrightarrow>
     (xs = [] \<or> a + sum_list xs \<le> u64_max) \<and> t = a + sum_list xs"
proof (induction xs arbitrary: a)
  case (Cons x xs)
  have "try_fold (\<lambda>t x. ok_or AnalyticsCountOverflow (u64_checked_add t x)) a (x # xs) = Ok t \<longleftrightarrow>
      a + x \<le> u64_max \<and> (xs = [] \<or> a + x + sum_list xs \<le> u64_max) \<and> t = a + x + sum_list xs"
    by (simp add: result_simps Cons.IH)
  then show ?case by (cases "xs = []") (simp_all add: add.assoc, linarith?)
qed auto

lemma checked_total_Ok: "checked_total xs = Ok t \<longleftrightarrow> sum_list xs \<le> u64_max \<and> t = sum_list xs"
  by (cases xs) (auto simp: checked_total_def checked_total_from simp del: try_fold.simps)

lemma drift_fold_Err: "try_fold drift_add m rows = Err e \<Longrightarrow> e = AnalyticsCountOverflow"
  by (induction rows arbitrary: m) (auto simp: result_simps drift_add_def Let_def split: prod.splits)

lemma checked_total_Err: "checked_total xs = Err e \<Longrightarrow> e = AnalyticsCountOverflow"
proof -
  have "try_fold (\<lambda>t x. ok_or AnalyticsCountOverflow (u64_checked_add t x)) a xs = Err e \<Longrightarrow> e = AnalyticsCountOverflow" for a
    by (induction xs arbitrary: a) (auto simp: result_simps)
  then show "checked_total xs = Err e \<Longrightarrow> ?thesis" unfolding checked_total_def .
qed

text \<open>What a successful drift computed, from the aggregated map.\<close>

lemma drift_aggregate:
  assumes "\<And>m. mset (iteration m) = mset m" and "try_fold drift_add [] rows = Ok m"
  shows "sum_list (map (\<lambda>(_, b, _). b) (iteration m)) = baselines rows"
    and "sum_list (map (\<lambda>(_, _, c). c) (iteration m)) = currents rows"
    and "length (iteration m) = card (fst ` set rows)"
proof -
  have agg: "bt_inv m" "baselines m = baselines rows" "currents m = currents rows" "fst ` set m = fst ` set rows"
    using drift_fold_Ok [OF bt_inv_Nil assms(2)] by simp_all
  have perm: "sum_list (map f (iteration m)) = sum_list (map f m)" for f :: "string \<times> nat \<times> nat \<Rightarrow> nat"
  proof -
    have "\<Sum>\<^sub># (mset (map f (iteration m))) = \<Sum>\<^sub># (mset (map f m))" by (simp add: assms(1))
    then show ?thesis unfolding sum_mset_sum_list .
  qed
  show "sum_list (map (\<lambda>(_, b, _). b) (iteration m)) = baselines rows"
    "sum_list (map (\<lambda>(_, _, c). c) (iteration m)) = currents rows"
    using agg(2,3) perm by (simp_all add: case_prod_unfold)
  have "length (iteration m) = length m" by (metis assms(1) size_mset)
  also have "\<dots> = card (fst ` set m)"
    using bt_inv_distinct [OF agg(1)] by (metis distinct_card length_map set_map)
  finally show "length (iteration m) = card (fst ` set rows)" by (simp add: agg(4))
qed

text \<open>The total order of \<open>f64::total_cmp\<close> as a key.\<close>

fun total_rank :: "f64 \<Rightarrow> int \<times> rat \<times> int" where
  "total_rank F_nan = (2, 0, 0)"
| "total_rank (F_inf s) = (if s then -1 else 1, 0, 0)"
| "total_rank F_negzero = (0, 0, 0)"
| "total_rank (F_fin q) = (0, q, 1)"

lemma f64_total_lt_rank: "f64_total_lt x y \<longleftrightarrow> total_rank x < total_rank y"
  by (cases x; cases y) (auto simp: less_prod_def)

text \<open>The order by descending score, then by label.\<close>

definition score_key :: "f64 \<Rightarrow> string \<Rightarrow> (int \<times> rat \<times> int) \<times> string" where
  "score_key x label = (case total_rank x of (a, b, d) \<Rightarrow> ((- a, - b, - d), label))"

lemma score_key_le: "f64_total_lt y x \<or> (\<not> f64_total_lt x y \<and> l \<le> l') \<longleftrightarrow> score_key x l \<le> score_key y l'"
  by (cases "total_rank x"; cases "total_rank y") (auto simp: score_key_def f64_total_lt_rank less_prod_def less_eq_prod_def)

lemma sort_by_score:
  assumes "\<And>x y. le x y \<longleftrightarrow> f64_total_lt (score y) (score x) \<or> (\<not> f64_total_lt (score x) (score y) \<and> label x \<le> label y)"
  shows "sort_by le xs = sort_key (\<lambda>x. score_key (score x) (label x)) xs"
    and "sorted_wrt (\<lambda>x y. \<not> f64_total_lt (score x) (score y)) (sort_by le xs)"
proof -
  show eq: "sort_by le xs = sort_key (\<lambda>x. score_key (score x) (label x)) xs"
    by (rule sort_by_key) (simp add: assms score_key_le)
  have "sorted_wrt (\<lambda>x y. score_key (score x) (label x) \<le> score_key (score y) (label y)) (sort_by le xs)"
    using sorted_sort_key [of "\<lambda>x. score_key (score x) (label x)" xs] by (simp add: eq sorted_wrt_map)
  then show "sorted_wrt (\<lambda>x y. \<not> f64_total_lt (score x) (score y)) (sort_by le xs)"
    by (rule sorted_wrt_mono_rel [rotated]) (simp flip: score_key_le, metis less_asym f64_total_lt_rank)
qed

lemma contributors_descending:
  "sorted_wrt (\<lambda>x y. \<not> f64_total_lt (dc_js_contribution x) (dc_js_contribution y)) (take n (sort_by contributor_le cs))"
  by (intro sorted_wrt_take sort_by_score(2)) (rule contributor_le_def)

section \<open>Properties\<close>

text \<open>C7: Frequency conformance builds the smallest frequency-ranked model that reaches the coverage: the
  model is the top of the ranking, it covers the target, and no selection of rows that covers the
  target is smaller (for fewer than \<open>2 ^ 53\<close> training observations, where counts are exact floats).\<close>

theorem dfg_conformance_minimal:
  assumes "dfg_frequency_conformance rows coverage = Ok r" and "sum_list (map row_train rows) < 2 ^ 53"
  shows "cr_model r = sort (map row_key (take (cr_model_size r) (sort_key rank_key rows))) \<and>
    coverage_target (sum_list (map row_train rows)) coverage
      \<le> sum_list (map row_train (take (cr_model_size r) (sort_key rank_key rows))) \<and>
    (\<forall>S. S \<subseteq># mset rows \<and>
       coverage_target (sum_list (map row_train rows)) coverage \<le> \<Sum>\<^sub># (image_mset row_train S)
       \<longrightarrow> cr_model_size r \<le> size S)"
  using conformance_minimal_aux [OF assms(1) [unfolded dfg_frequency_conformance_def] assms(2)] by blast

definition sample_rows :: "transition_key freq_row list" where
  "sample_rows = [(TransitionKey ''a'' ''b'' ''order'', 5, 4), (TransitionKey ''a'' ''c'' ''order'', 2, 3),
     (TransitionKey ''b'' ''c'' ''order'', 3, 1)]"

definition sample_result :: "transition_key conformance_result" where
  "sample_result = \<lparr>cr_fitness = ratio 5 8, cr_conforming = 5, cr_deviations = 3, cr_test_total = 8,
     cr_model_size = 2, cr_model = [TransitionKey ''a'' ''b'' ''order'', TransitionKey ''b'' ''c'' ''order'']\<rparr>"

lemma sample_conformance: "dfg_frequency_conformance sample_rows (F_fin (4 / 5)) = Ok sample_result"
  by code_simp

lemma sample_train: "sum_list (map row_train sample_rows) < 2 ^ 53"
  by (simp add: sample_rows_def)

theorem dfg_conformance_minimal_witness:
  "coverage_target 10 (F_fin (4 / 5)) \<le> sum_list (map row_train (take 2 (sort_key rank_key sample_rows)))"
  using dfg_conformance_minimal [OF sample_conformance sample_train] by (simp add: sample_result_def sample_rows_def)

text \<open>The result of frequency conformance and of next-activity prediction does not depend on the
  order the rows arrive in, so neither query plans nor hash seeds show.\<close>

theorem kernels_order_independent:
  assumes "mset rows' = mset rows"
  shows "dfg_frequency_conformance rows' coverage = dfg_frequency_conformance rows coverage \<and>
    next_activity_prediction rows' = next_activity_prediction rows"
  unfolding dfg_frequency_conformance_def
  by (rule conjI, rule frequency_conformance_perm [OF assms], rule next_activity_perm [OF assms])

theorem kernels_order_independent_witness:
  "dfg_frequency_conformance (rev sample_rows) (F_fin (4 / 5)) = Ok sample_result"
  using kernels_order_independent [of "rev sample_rows" sample_rows "F_fin (4 / 5)"] sample_conformance by simp

text \<open>When the held-out counts fit in 64 bits, variant conformance accounts for every observation:
  conforming and deviating observations add up to the total, the conforming ones are those of the
  variants in the model, and the fitness is in the unit interval.\<close>

theorem variant_conformance_accounting:
  assumes "variant_frequency_conformance rows coverage = Ok r" and "sum_list (map row_test rows) \<le> u64_max"
  shows "cr_test_total r = sum_list (map row_test rows) \<and>
    cr_conforming r = sum_list (map row_test (filter (\<lambda>x. row_key x \<in> set (cr_model r)) rows)) \<and>
    cr_conforming r + cr_deviations r = cr_test_total r \<and> f64_unit (cr_fitness r)"
  using conformance_accounting_aux [OF assms(1) [unfolded variant_frequency_conformance_def] assms(2)] by blast

lemma sample_variants:
  "variant_frequency_conformance [(''ab'', 3, 1), (''ac'', 1, 1)] (F_fin (1 / 2))
    = Ok \<lparr>cr_fitness = ratio 1 2, cr_conforming = 1, cr_deviations = 1, cr_test_total = 2, cr_model_size = 1, cr_model = [''ab'']\<rparr>"
  by code_simp

theorem variant_conformance_accounting_witness: "f64_unit (ratio 1 2)"
  using variant_conformance_accounting [OF sample_variants] by (simp add: u64_max_def)

text \<open>Unchecked sums wrap: with held-out counts past 64 bits the fitness leaves the unit interval.\<close>

lemma variant_fitness_overflow:
  "map_sum id (\<lambda>r. (cr_conforming r, cr_test_total r, f64_unit (cr_fitness r)))
     (variant_frequency_conformance [(''a'', 1, 18446744073709551615), (''b'', 0, 2)] f64_one)
    = Ok (18446744073709551615, 1, False)"
  by code_simp

text \<open>Next-activity prediction names, for each source and edge type with training observations, the
  target with the most observations, the least in order among equals; groups with no training
  observation get no prediction.\<close>

theorem next_activity_best:
  "(source, edge_type, target) \<in> set (nar_predictions (next_activity_prediction rows)) \<longleftrightarrow>
     (\<exists>n. best_of rows (source, edge_type) (target, n))"
  by (rule nar_predictions_iff)

text \<open>Bottleneck ranking of columns of equal length and without NaN returns every index once, the
  longest mean duration first, then the highest frequency, then the lowest index; columns of
  different lengths are an error.\<close>

theorem rank_bottlenecks_correct:
  assumes "F_nan \<notin> set ds"
  shows "(case rank_bottlenecks fs ds of
      Inl e \<Rightarrow> e = ColumnLengthMismatch \<and> length fs \<noteq> length ds
    | Inr is \<Rightarrow> length fs = length ds \<and> mset is = mset [0..<length fs] \<and>
        sorted_wrt (\<lambda>i j. f64_lt (ds ! j) (ds ! i) \<or> f64_eq (ds ! i) (ds ! j) \<and>
          (fs ! j < fs ! i \<or> fs ! i = fs ! j \<and> i < j)) is)"
proof (cases "length fs = length ds")
  case True
  let ?is = "sort_key (bottleneck_key fs ds) [0..<length fs]"
  have d: "distinct ?is" "set ?is = {0..<length fs}" by simp_all
  have "sorted_wrt (\<lambda>i j. bottleneck_key fs ds i \<le> bottleneck_key fs ds j \<and> i \<noteq> j) ?is"
    using sorted_sort_key [of "bottleneck_key fs ds" "[0..<length fs]"] d(1)
    by (simp add: sorted_wrt_map sorted_wrt_iff_nth_less distinct_conv_nth)
  then have "sorted_wrt (\<lambda>i j. f64_lt (ds ! j) (ds ! i) \<or> f64_eq (ds ! i) (ds ! j) \<and>
          (fs ! j < fs ! i \<or> fs ! i = fs ! j \<and> i < j)) ?is"
  proof (rule sorted_wrt_mono_rel [rotated])
    fix i j
    assume "i \<in> set ?is" "j \<in> set ?is" and le: "bottleneck_key fs ds i \<le> bottleneck_key fs ds j \<and> i \<noteq> j"
    then have "ds ! i \<noteq> F_nan" "ds ! j \<noteq> F_nan" using assms True by (auto dest!: nth_mem)
    then show "f64_lt (ds ! j) (ds ! i) \<or> f64_eq (ds ! i) (ds ! j) \<and> (fs ! j < fs ! i \<or> fs ! i = fs ! j \<and> i < j)"
      using le by (cases "f64_rank (ds ! i)"; cases "f64_rank (ds ! j)")
        (auto simp: f64_lt_rank f64_eq_rank bottleneck_key_def less_eq_prod_def less_prod_def)
  qed
  then show ?thesis using rank_bottlenecks_key [OF True assms] True by simp
qed (simp add: rank_bottlenecks_def)

theorem rank_bottlenecks_correct_witness:
  "rank_bottlenecks [1, 2, 3] [F_fin 5, F_fin 7, F_fin 5] = Ok [1, 2, 0] \<and> mset [1, 2, 0] = mset [0..<length [1, 2, 3 :: nat]]"
proof
  show r: "rank_bottlenecks [1, 2, 3] [F_fin 5, F_fin 7, F_fin 5] = Ok [1, 2, 0]" by code_simp
  have "F_nan \<notin> set [F_fin 5, F_fin 7, F_fin 5]" by simp
  from rank_bottlenecks_correct [OF this, of "[1, 2, 3]"]
  show "mset [1, 2, 0] = mset [0..<length [1, 2, 3 :: nat]]" unfolding r sum.case by blast
qed

text \<open>Frequency drift succeeds exactly when both totals fit in 64 bits, whatever order the hash map
  iterates in; then it reports the exact totals, one contributor per distinct label up to
  \<open>top_n\<close>, ordered by descending contribution, and a divergence in the unit interval unless it
  is NaN.\<close>

theorem frequency_drift_correct:
  assumes "\<And>m. mset (iteration m) = mset m"
  shows "(case frequency_drift iteration lg rows top_n of
      Inl e \<Rightarrow> e = AnalyticsCountOverflow \<and> \<not> (baselines rows \<le> u64_max \<and> currents rows \<le> u64_max)
    | Inr r \<Rightarrow> baselines rows \<le> u64_max \<and> currents rows \<le> u64_max \<and>
        fdr_baseline_total r = baselines rows \<and> fdr_current_total r = currents rows \<and>
        length (fdr_contributors r) = min (card (fst ` set rows)) top_n \<and>
        sorted_wrt (\<lambda>x y. \<not> f64_total_lt (dc_js_contribution x) (dc_js_contribution y)) (fdr_contributors r) \<and>
        (fdr_divergence r \<noteq> F_nan \<longrightarrow> f64_unit (fdr_divergence r)))"
proof (cases "try_fold drift_add [] rows")
  case (Inl e)
  then have "\<not> (baselines rows \<le> u64_max \<and> currents rows \<le> u64_max)"
    using drift_fold_in [OF bt_inv_Nil, of rows] by auto
  then show ?thesis using Inl drift_fold_Err [OF Inl] by (simp add: frequency_drift_def)
next
  case (Inr m)
  note agg = drift_aggregate [OF assms Inr]
  let ?b = "checked_total (map (\<lambda>(_, b, _). b) (iteration m))" and ?c = "checked_total (map (\<lambda>(_, _, c). c) (iteration m))"
  have b: "?b = Ok t \<longleftrightarrow> baselines rows \<le> u64_max \<and> t = baselines rows"
    and c: "?c = Ok t \<longleftrightarrow> currents rows \<le> u64_max \<and> t = currents rows" for t
    by (simp_all only: checked_total_Ok agg(1,2))
  show ?thesis
  proof (cases "baselines rows \<le> u64_max \<and> currents rows \<le> u64_max")
    case True
    then have "?b = Ok (baselines rows)" "?c = Ok (currents rows)" using b c by simp_all
    then show ?thesis
      using True Inr agg(3) by (simp add: frequency_drift_def Let_def contributors_descending clamp_not_nan)
  next
    case False
    then have "(\<exists>e. ?b = Err e) \<or> (\<exists>e. ?c = Err e)" using b c by (cases ?b; cases ?c) auto
    then show ?thesis
      using False Inr checked_total_Err
      by (cases ?b; cases ?c) (auto simp: frequency_drift_def Let_def)
  qed
qed

definition drift_sample :: "(string \<times> nat \<times> nat) list" where
  "drift_sample = [(''a'', 0, 1), (''b'', 0, 1), (''c'', 0, 4)]"

theorem frequency_drift_correct_witness:
  "(case frequency_drift rev id drift_sample 2 of Inl _ \<Rightarrow> False | Inr r \<Rightarrow> fdr_current_total r = 6)"
  using frequency_drift_correct [where iteration = rev and lg = id and rows = drift_sample and top_n = 2]
  by (auto simp: drift_sample_def u64_max_def split: sum.splits)

text \<open>The divergence itself depends on the iteration order, because float addition is not
  associative: the same three labels give 1 in one order and the float below 1 in the other.\<close>

lemma drift_sample_shares: "share 1 6 = F_fin (6004799503160661 / 36028797018963968)" "share 4 6 = F_fin (6004799503160661 / 9007199254740992)"
  by code_simp+

lemma drift_sample_sums:
  "f64_add (f64_add (f64_add f64_zero (F_fin (6004799503160661 / 36028797018963968))) (F_fin (6004799503160661 / 36028797018963968))) (F_fin (6004799503160661 / 9007199254740992)) = F_fin 1"
  "f64_add (f64_add (f64_add f64_zero (F_fin (6004799503160661 / 9007199254740992))) (F_fin (6004799503160661 / 36028797018963968))) (F_fin (6004799503160661 / 36028797018963968)) = F_fin (9007199254740991 / 9007199254740992)"
  by code_simp+

lemma drift_sample_aggregate: "try_fold drift_add [] drift_sample = Ok drift_sample"
  by code_simp

lemma drift_order_dependent:
  "map_sum id fdr_divergence (frequency_drift id id drift_sample 0) = Ok (F_fin 1)"
  "map_sum id fdr_divergence (frequency_drift rev id drift_sample 0) = Ok (F_fin (9007199254740991 / 9007199254740992))"
  unfolding frequency_drift_def drift_sample_aggregate
  by (simp_all add: drift_sample_def checked_total_def u64_checked_add_def u64_max_def contributor_def
      Let_def js_contribution_def drift_sample_shares [simplified] drift_sample_sums [simplified] f64_clamp_def)

end
