(* ===== verification/Alignment.thy ===== *)
theory Alignment
  imports Provider
begin

text \<open>
  Directly-follows alignments: \<open>align_dfg\<close> and \<open>relax\<close> of \<open>crates/ocpm-conformance/src/lib.rs\<close>, a
  shortest-path search over pairs of a trace position and a model activity. The binary heap is a list
  from which the least entry is taken; stale entries stay in it as in the code. \<open>None\<close> is a search
  that does not end.
\<close>

section \<open>The search\<close>

type_synonym node = "nat \<times> string"
type_synonym entry = "nat \<times> nat \<times> string"

record search =
  se_heap :: "entry list"
  se_distance :: "(node, nat) btree_map"

definition relax :: "nat \<Rightarrow> nat \<Rightarrow> string \<Rightarrow> search \<Rightarrow> search" where
  "relax cost index activity s =
    (let key = (index, activity) in
     if is_none_or (\<lambda>known. cost < known) (bt_get (se_distance s) key)
     then \<lparr>se_heap = (cost, key) # se_heap s, se_distance = bt_insert key cost (se_distance s)\<rparr>
     else s)"

text \<open>\<open>BinaryHeap::pop\<close> of reversed entries: the least entry.\<close>

definition heap_pop :: "entry list \<Rightarrow> (entry \<times> entry list) option" where
  "heap_pop h = (case h of [] \<Rightarrow> None | x # xs \<Rightarrow> let m = fold min xs x in Some (m, remove1 m h))"

definition adjacency :: "dfg_model \<Rightarrow> (string, string list) btree_map" where
  "adjacency model = fold (\<lambda>e. bt_push (de_source e) (de_target e)) (dfg_edges model) []"

definition relax_start :: "string list \<Rightarrow> string \<Rightarrow> search \<Rightarrow> search" where
  "relax_start trace start s =
    (let s = relax 0 0 start s in
     case trace of [] \<Rightarrow> s | first # _ \<Rightarrow> relax (if first \<noteq> start then 1 else 0) 1 start s)"

definition relax_target :: "string list \<Rightarrow> nat \<Rightarrow> nat \<Rightarrow> string \<Rightarrow> search \<Rightarrow> search" where
  "relax_target trace cost index target s =
    (let s = relax (cost + 1) index target s in
     if index < length trace then relax (cost + (if trace ! index \<noteq> target then 1 else 0)) (index + 1) target s else s)"

definition expand :: "dfg_model \<Rightarrow> string list \<Rightarrow> nat \<Rightarrow> nat \<Rightarrow> string \<Rightarrow> search \<Rightarrow> search" where
  "expand model trace cost index activity s =
    (let s = (if index < length trace then relax (cost + 1) (index + 1) activity s else s);
       targets = (case bt_get (adjacency model) activity of None \<Rightarrow> [] | Some ts \<Rightarrow> ts)
     in fold (relax_target trace cost index) targets s)"

definition state_bound :: "dfg_model \<Rightarrow> string list \<Rightarrow> nat" where
  "state_bound model trace = u64_saturating_add (u64_saturating_mul (length trace + 1) (max (length (dfg_activities model)) 1)) 1"

partial_function (option) align_loop :: "dfg_model \<Rightarrow> string list \<Rightarrow> search \<Rightarrow> nat \<Rightarrow> (nat \<times> nat) ocpm_result option" where
  "align_loop model trace s visited = (case heap_pop (se_heap s) of
     None \<Rightarrow> Some (Err (ocpm_error_new InsufficientData ''no accepting DFG alignment exists''))
   | Some ((cost, index, activity), heap) \<Rightarrow>
      let s = s\<lparr>se_heap := heap\<rparr> in
      if bt_get (se_distance s) (index, activity) \<noteq> Some cost then align_loop model trace s visited
      else let visited = visited + 1 in
      if state_bound model trace < visited
      then Some (Err (ocpm_error_new SearchTruncated ''alignment state bound was exceeded''))
      else if index = length trace \<and> activity \<in> set (bt_keys (dfg_end_activities model)) then Some (Ok (cost, visited))
      else align_loop model trace (expand model trace cost index activity s) visited)"

declare align_loop.simps [code]

definition align_dfg :: "dfg_model \<Rightarrow> string list \<Rightarrow> (nat \<times> nat) ocpm_result option" where
  "align_dfg model trace =
    (if dfg_start_activities model = [] \<or> dfg_end_activities model = []
     then Some (Err (ocpm_error_new InsufficientData ''DFG alignment requires start and end activities''))
     else align_loop model trace
       (fold (relax_start trace) (bt_keys (dfg_start_activities model)) \<lparr>se_heap = [], se_distance = []\<rparr>) 0)"

section \<open>Alignments\<close>

text \<open>
  The moves the search follows. The first model activity is free when the trace has not begun
  (\<open>free_start\<close>); afterwards a log move and a model move cost one, and advancing both costs one unless
  the activities agree.
\<close>

definition mismatch :: "string list \<Rightarrow> nat \<Rightarrow> string \<Rightarrow> nat" where
  "mismatch trace i a = (if trace ! i \<noteq> a then 1 else 0)"

inductive aligned :: "dfg_model \<Rightarrow> string list \<Rightarrow> nat \<Rightarrow> node \<Rightarrow> bool" for model trace where
  free_start: "s \<in> set (bt_keys (dfg_start_activities model)) \<Longrightarrow> aligned model trace 0 (0, s)"
| start: "s \<in> set (bt_keys (dfg_start_activities model)) \<Longrightarrow> trace \<noteq> [] \<Longrightarrow> aligned model trace (mismatch trace 0 s) (1, s)"
| log_move: "aligned model trace c (i, a) \<Longrightarrow> i < length trace \<Longrightarrow> aligned model trace (c + 1) (i + 1, a)"
| model_move: "aligned model trace c (i, a) \<Longrightarrow> e \<in> set (dfg_edges model) \<Longrightarrow> de_source e = a \<Longrightarrow>
    aligned model trace (c + 1) (i, de_target e)"
| both: "aligned model trace c (i, a) \<Longrightarrow> e \<in> set (dfg_edges model) \<Longrightarrow> de_source e = a \<Longrightarrow> i < length trace \<Longrightarrow>
    aligned model trace (c + mismatch trace i (de_target e)) (i + 1, de_target e)"

definition accepted :: "dfg_model \<Rightarrow> string list \<Rightarrow> nat \<Rightarrow> bool" where
  "accepted model trace c \<longleftrightarrow> (\<exists>a \<in> set (bt_keys (dfg_end_activities model)). aligned model trace c (length trace, a))"

text \<open>The weighted steps out of a node, and the weighted entry nodes.\<close>

definition targets_of :: "dfg_model \<Rightarrow> string \<Rightarrow> string list" where
  "targets_of model a = map de_target (filter (\<lambda>e. de_source e = a) (dfg_edges model))"

definition steps :: "dfg_model \<Rightarrow> string list \<Rightarrow> node \<Rightarrow> (nat \<times> node) list" where
  "steps model trace = (\<lambda>(i, a). (if i < length trace then [(1, (i + 1, a))] else []) @
     concat (map (\<lambda>t. (1, (i, t)) # (if i < length trace then [(mismatch trace i t, (i + 1, t))] else [])) (targets_of model a)))"

definition entries :: "dfg_model \<Rightarrow> string list \<Rightarrow> (nat \<times> node) list" where
  "entries model trace = concat (map (\<lambda>s. (0, (0, s)) # (if trace \<noteq> [] then [(mismatch trace 0 s, (1, s))] else []))
     (bt_keys (dfg_start_activities model)))"

definition relaxes :: "nat \<Rightarrow> (nat \<times> node) list \<Rightarrow> search \<Rightarrow> search" where
  "relaxes cost ws s = fold (\<lambda>(w, (i, a)). relax (cost + w) i a) ws s"

lemma relaxes_append: "relaxes c (xs @ ys) s = relaxes c ys (relaxes c xs s)"
  by (simp add: relaxes_def)

lemma relaxes_concat: "relaxes c (concat xss) s = fold (relaxes c) xss s"
  by (induction xss arbitrary: s) (simp_all add: relaxes_append, simp add: relaxes_def)

lemma adjacency_targets: "(case bt_get (adjacency model) a of None \<Rightarrow> [] | Some ts \<Rightarrow> ts) = targets_of model a"
proof -
  have "targets_of model a = []" if "\<not> (\<exists>e \<in> set (dfg_edges model). de_source e = a)"
    using that by (auto simp: targets_of_def filter_empty_conv)
  then show ?thesis by (simp add: adjacency_def get_fold_push targets_of_def)
qed

lemma expand_steps: "expand model trace c i a s = relaxes c (steps model trace (i, a)) s"
proof -
  have "relax_target trace c i t s = relaxes c ((1, (i, t)) # (if i < length trace then [(mismatch trace i t, (i + 1, t))] else [])) s"
    for t s by (simp add: relax_target_def relaxes_def mismatch_def Let_def)
  then have "fold (relax_target trace c i) ts s = fold (relaxes c) (map (\<lambda>t. (1, (i, t)) #
      (if i < length trace then [(mismatch trace i t, (i + 1, t))] else [])) ts) s" for ts s
    by (induction ts arbitrary: s) simp_all
  then show ?thesis
    unfolding expand_def adjacency_targets Let_def steps_def case_prod_conv relaxes_append relaxes_concat
    by (simp add: relaxes_def)
qed

lemma start_entries: "fold (relax_start trace) (bt_keys (dfg_start_activities model)) s = relaxes 0 (entries model trace) s"
proof -
  have "relax_start trace t s = relaxes 0 ((0, (0, t)) # (if trace \<noteq> [] then [(mismatch trace 0 t, (1, t))] else [])) s" for t s
    by (cases trace) (simp_all add: relax_start_def relaxes_def mismatch_def Let_def)
  then have "fold (relax_start trace) ts s = fold (relaxes 0) (map (\<lambda>t. (0, (0, t)) #
      (if trace \<noteq> [] then [(mismatch trace 0 t, (1, t))] else [])) ts) s" for ts s
    by (induction ts arbitrary: s) simp_all
  then show ?thesis by (simp add: entries_def relaxes_concat)
qed

lemma aligned_entry: "(w, v) \<in> set (entries model trace) \<Longrightarrow> aligned model trace w v"
  by (auto simp: entries_def intro: aligned.free_start aligned.start [simplified] split: if_splits)

lemma aligned_step: "aligned model trace c v \<Longrightarrow> (w, u) \<in> set (steps model trace v) \<Longrightarrow> aligned model trace (c + w) u"
  by (cases v) (auto simp: steps_def targets_of_def split: if_splits
      intro: aligned.log_move [simplified] aligned.model_move [simplified] aligned.both [simplified])

lemma aligned_induct_steps [consumes 1, case_names entry step]:
  assumes "aligned model trace c v"
    and "\<And>w v. (w, v) \<in> set (entries model trace) \<Longrightarrow> P w v"
    and "\<And>c v w u. aligned model trace c v \<Longrightarrow> P c v \<Longrightarrow> (w, u) \<in> set (steps model trace v) \<Longrightarrow> P (c + w) u"
  shows "P c v"
  using assms(1)
proof (induction rule: aligned.induct)
  case (free_start s)
  then show ?case by (intro assms(2)) (auto simp: entries_def)
next
  case (start s)
  then show ?case by (intro assms(2)) (auto simp: entries_def)
next
  case (log_move c i a)
  then show ?case by (intro assms(3) [of c "(i, a)"]) (auto simp: steps_def)
next
  case (model_move c i a e)
  then show ?case by (intro assms(3) [of c "(i, a)"]) (auto simp: steps_def targets_of_def)
next
  case (both c i a e)
  then show ?case by (intro assms(3) [of c "(i, a)"]) (auto simp: steps_def targets_of_def)
qed


section \<open>The invariant of the search\<close>

definition reached :: "search \<Rightarrow> nat \<Rightarrow> node \<Rightarrow> bool" where
  "reached s c v \<longleftrightarrow> (\<exists>d \<le> c. bt_get (se_distance s) v = Some d)"

lemma reached_mono: "reached s c v \<Longrightarrow> c \<le> c' \<Longrightarrow> reached s c' v"
  unfolding reached_def by (meson le_trans)

text \<open>
  \<open>X\<close> holds the nodes already taken from the heap at their distance and \<open>c\<close> is the cost the search has
  arrived at: distances are costs of alignments, every entry of the heap is at or beyond \<open>c\<close> and no
  better than the known distance, and each node outside \<open>X\<close> with a distance waits in the heap at it.
\<close>

definition frontier :: "dfg_model \<Rightarrow> string list \<Rightarrow> node set \<Rightarrow> nat \<Rightarrow> search \<Rightarrow> bool" where
  "frontier model trace X c s \<longleftrightarrow> bt_inv (se_distance s) \<and> distinct (se_heap s) \<and>
     (\<forall>v d. bt_get (se_distance s) v = Some d \<longrightarrow> aligned model trace d v) \<and>
     (\<forall>(e, v) \<in> set (se_heap s). c \<le> e \<and> reached s e v) \<and>
     (\<forall>v d. v \<notin> X \<longrightarrow> bt_get (se_distance s) v = Some d \<longrightarrow> (d, v) \<in> set (se_heap s)) \<and>
     (\<forall>v \<in> X. reached s c v \<and> (\<forall>d. bt_get (se_distance s) v = Some d \<longrightarrow> (d, v) \<notin> set (se_heap s)))"

text \<open>Every move out of an expanded node has been relaxed, and none of them was accepting.\<close>

definition explored :: "dfg_model \<Rightarrow> string list \<Rightarrow> node set \<Rightarrow> search \<Rightarrow> bool" where
  "explored model trace X s \<longleftrightarrow> (\<forall>(w, u) \<in> set (entries model trace). reached s w u) \<and>
     (\<forall>v \<in> X. \<forall>d. bt_get (se_distance s) v = Some d \<longrightarrow> (\<forall>(w, u) \<in> set (steps model trace v). reached s (d + w) u))"

lemma relax_reached: "bt_inv (se_distance s) \<Longrightarrow> reached s c v \<Longrightarrow> reached (relax e i a s) c v"
  by (auto simp: relax_def reached_def Let_def bt_get_insert is_none_or_def split: option.splits)

lemma relax_reaches: "bt_inv (se_distance s) \<Longrightarrow> reached (relax e i a s) e (i, a)"
  by (auto simp: relax_def reached_def Let_def bt_get_insert is_none_or_def split: option.splits)

lemma relax_expanded: "bt_inv (se_distance s) \<Longrightarrow> reached s c v \<Longrightarrow> c \<le> e \<Longrightarrow>
    bt_get (se_distance (relax e i a s)) v = bt_get (se_distance s) v"
  by (auto simp: relax_def reached_def Let_def bt_get_insert is_none_or_def split: option.splits)

lemma relax_inv: "bt_inv (se_distance s) \<Longrightarrow> bt_inv (se_distance (relax e i a s))"
  by (simp add: relax_def Let_def bt_inv_insert)

lemma relax_frontier:
  assumes F: "frontier model trace X c s" and al: "aligned model trace e (i, a)" and le: "c \<le> e"
  shows "frontier model trace X c (relax e i a s)"
proof (cases "is_none_or (\<lambda>known. e < known) (bt_get (se_distance s) (i, a))")
  case False
  then show ?thesis using F by (simp add: relax_def)
next
  case True
  define t where "t = relax e i a s"
  have inv: "bt_inv (se_distance s)" and X: "(i, a) \<notin> X"
    using F True le by (fastforce simp: frontier_def reached_def is_none_or_def)+
  have heap: "se_heap t = (e, i, a) # se_heap s" using True by (simp add: t_def relax_def Let_def)
  have get: "bt_get (se_distance t) v = (if v = (i, a) then Some e else bt_get (se_distance s) v)" for v
    using True inv by (simp add: t_def relax_def bt_get_insert Let_def)
  have keep: "reached s x v \<Longrightarrow> reached t x v" for x v using relax_reached [OF inv] by (simp add: t_def)
  have new: "(e, i, a) \<notin> set (se_heap s)" using F True by (fastforce simp: frontier_def reached_def is_none_or_def)
  have "frontier model trace X c t"
    unfolding frontier_def
  proof (intro conjI)
    show "bt_inv (se_distance t)" using relax_inv [OF inv] by (simp add: t_def)
    show "distinct (se_heap t)" using F new by (simp add: heap frontier_def)
    show "\<forall>v d. bt_get (se_distance t) v = Some d \<longrightarrow> aligned model trace d v"
      using F al by (auto simp: get frontier_def)
    have "reached t e (i, a)" by (simp add: reached_def get)
    then show "\<forall>(e, v) \<in> set (se_heap t). c \<le> e \<and> reached t e v" using F keep le by (auto simp: heap frontier_def)
    show "\<forall>v d. v \<notin> X \<longrightarrow> bt_get (se_distance t) v = Some d \<longrightarrow> (d, v) \<in> set (se_heap t)"
      using F by (auto simp: get heap frontier_def)
    show "\<forall>v \<in> X. reached t c v \<and> (\<forall>d. bt_get (se_distance t) v = Some d \<longrightarrow> (d, v) \<notin> set (se_heap t))"
      using F X keep by (auto simp: get heap frontier_def)
  qed
  then show ?thesis by (simp add: t_def)
qed

lemma relaxes_Cons: "relaxes c ((w, i, a) # ws) s = relaxes c ws (relax (c + w) i a s)"
  by (simp add: relaxes_def)

lemma relaxes_frontier: "frontier model trace X c s \<Longrightarrow> (\<forall>(w, u) \<in> set ws. aligned model trace (c + w) u) \<Longrightarrow>
    frontier model trace X c (relaxes c ws s)"
proof (induction ws arbitrary: s)
  case (Cons x ws)
  obtain w i a where x: "x = (w, i, a)" by (cases x)
  show ?case unfolding x relaxes_Cons by (rule Cons.IH [OF relax_frontier [OF Cons.prems(1)]]) (use Cons.prems(2) in \<open>auto simp: x\<close>)
qed (simp add: relaxes_def)

lemma relaxes_reached: "bt_inv (se_distance s) \<Longrightarrow> reached s e v \<Longrightarrow> reached (relaxes c ws s) e v"
proof (induction ws arbitrary: s)
  case (Cons x ws)
  then show ?case by (cases x) (simp add: relaxes_Cons relax_inv relax_reached)
qed (simp add: relaxes_def)

lemma relaxes_reaches: "bt_inv (se_distance s) \<Longrightarrow> (w, v) \<in> set ws \<Longrightarrow> reached (relaxes c ws s) (c + w) v"
proof (induction ws arbitrary: s)
  case (Cons x ws)
  obtain w' i a where x: "x = (w', i, a)" by (cases x)
  have inv: "bt_inv (se_distance (relax (c + w') i a s))" using relax_inv [OF Cons.prems(1)] .
  show ?case
  proof (cases "(w, v) = x")
    case True
    then show ?thesis using relaxes_reached [OF inv relax_reaches [OF Cons.prems(1)]] by (simp add: x relaxes_Cons)
  next
    case False
    then show ?thesis using Cons.IH [OF inv] Cons.prems(2) by (auto simp: x relaxes_Cons)
  qed
qed simp

lemma relaxes_expanded: "bt_inv (se_distance s) \<Longrightarrow> reached s c v \<Longrightarrow>
    bt_get (se_distance (relaxes c ws s)) v = bt_get (se_distance s) v"
proof (induction ws arbitrary: s)
  case (Cons x ws)
  obtain w i a where x: "x = (w, i, a)" by (cases x)
  have "bt_get (se_distance (relaxes c ws (relax (c + w) i a s))) v = bt_get (se_distance (relax (c + w) i a s)) v"
    using Cons.IH [OF relax_inv [OF Cons.prems(1)] relax_reached [OF Cons.prems]] .
  then show ?case using relax_expanded [OF Cons.prems, of "c + w" i a] by (simp add: x relaxes_Cons)
qed (simp add: relaxes_def)

text \<open>Every alignment has been expanded, or passes through an entry of the heap that costs no more.\<close>

lemma frontier_blocks:
  assumes F: "frontier model trace X c s" and E: "explored model trace X s" and al: "aligned model trace e v"
  shows "(v \<in> X \<and> reached s e v) \<or> (\<exists>(d, u) \<in> set (se_heap s). d \<le> e \<and> bt_get (se_distance s) u = Some d)"
proof -
  have wait: "(u \<in> X \<and> reached s e u) \<or> (\<exists>(d, u) \<in> set (se_heap s). d \<le> e \<and> bt_get (se_distance s) u = Some d)"
    if reach: "reached s e u" for e u
  proof (cases "u \<in> X")
    case False
    obtain d where d: "d \<le> e" "bt_get (se_distance s) u = Some d" using reach by (auto simp: reached_def)
    then have "(d, u) \<in> set (se_heap s)" using F False unfolding frontier_def by blast
    then show ?thesis using d by blast
  qed (simp add: reach)
  from al show ?thesis
  proof (induction rule: aligned_induct_steps)
    case (entry w v)
    then have "reached s w v" using E by (auto simp: explored_def)
    then show ?case by (rule wait)
  next
    case (step e v w u)
    from step.IH show ?case
    proof
      assume "v \<in> X \<and> reached s e v"
      then obtain d where d: "v \<in> X" "d \<le> e" "bt_get (se_distance s) v = Some d" by (auto simp: reached_def)
      then have "reached s (d + w) u" using E step.hyps(2) by (fastforce simp: explored_def)
      then show ?thesis using wait reached_mono d(2) add_le_mono1 by blast
    next
      assume "\<exists>(d, u) \<in> set (se_heap s). d \<le> e \<and> bt_get (se_distance s) u = Some d"
      then show ?thesis by fastforce
    qed
  qed
qed

section \<open>The search finds a cheapest alignment\<close>

lemma heap_pop_None: "heap_pop h = None \<longleftrightarrow> h = []"
  by (simp add: heap_pop_def Let_def split: list.splits)

lemma heap_pop_Some:
  assumes "heap_pop h = Some (m, r)"
  shows "m \<in> set h" "\<forall>x \<in> set h. m \<le> x" "r = remove1 m h"
proof -
  obtain x xs where h: "h = x # xs" "m = fold min xs x" "r = remove1 m h"
    using assms by (auto simp: heap_pop_def Let_def split: list.splits)
  then have "m = Min (set h)" by (simp only: Min.set_eq_fold)
  then show "m \<in> set h" "\<forall>x \<in> set h. m \<le> x" "r = remove1 m h" using h Min_in [of "set h"] by auto
qed

definition alignment_nodes :: "dfg_model \<Rightarrow> string list \<Rightarrow> node set" where
  "alignment_nodes model trace = {0..length trace} \<times> (set (bt_keys (dfg_start_activities model)) \<union> de_target ` set (dfg_edges model))"

lemma finite_alignment_nodes: "finite (alignment_nodes model trace)"
  by (simp add: alignment_nodes_def)

lemma aligned_nodes: "aligned model trace c v \<Longrightarrow> v \<in> alignment_nodes model trace"
  by (induction rule: aligned.induct) (auto simp: alignment_nodes_def Suc_le_eq)

lemma frontier_expanded:
  assumes "frontier model trace X c s"
  shows "X \<subseteq> alignment_nodes model trace" "card X \<le> card (alignment_nodes model trace)" "finite X"
proof -
  show "X \<subseteq> alignment_nodes model trace" using assms aligned_nodes unfolding frontier_def reached_def by blast
  then show "card X \<le> card (alignment_nodes model trace)" "finite X"
    using card_mono [OF finite_alignment_nodes] finite_subset [OF _ finite_alignment_nodes] by blast+
qed

text \<open>Dropping a stale entry, and expanding a node at its distance.\<close>

lemma frontier_stale:
  assumes F: "frontier model trace X c s" and stale: "bt_get (se_distance s) v \<noteq> Some e"
  shows "frontier model trace X c (s\<lparr>se_heap := remove1 (e, v) (se_heap s)\<rparr>)"
proof -
  have "set (remove1 (e, v) (se_heap s)) = set (se_heap s) - {(e, v)}"
    using F by (simp add: frontier_def set_remove1_eq)
  then show ?thesis using F stale by (auto simp: frontier_def reached_def distinct_remove1)
qed

lemma frontier_pop:
  assumes F: "frontier model trace X c s" and v: "bt_get (se_distance s) v = Some e"
    and m: "(e, v) \<in> set (se_heap s)" "\<forall>x \<in> set (se_heap s). (e, v) \<le> x"
  shows "frontier model trace (insert v X) e (s\<lparr>se_heap := remove1 (e, v) (se_heap s)\<rparr>)" "v \<notin> X"
proof -
  have h: "set (remove1 (e, v) (se_heap s)) = set (se_heap s) - {(e, v)}"
    using F by (simp add: frontier_def set_remove1_eq)
  have le: "\<forall>(d, u) \<in> set (se_heap s). e \<le> d" using m(2) by (auto simp: less_eq_prod_def)
  have "c \<le> e" using F m(1) by (auto simp: frontier_def)
  then show "frontier model trace (insert v X) e (s\<lparr>se_heap := remove1 (e, v) (se_heap s)\<rparr>)"
    using F v le by (auto simp: frontier_def reached_def h distinct_remove1)
  show "v \<notin> X" using F v m(1) by (auto simp: frontier_def)
qed

lemma explored_expand:
  assumes F: "frontier model trace (insert v X) e s" and E: "explored model trace X s" and v: "bt_get (se_distance s) v = Some e"
  shows "frontier model trace (insert v X) e (relaxes e (steps model trace v) s)"
    "explored model trace (insert v X) (relaxes e (steps model trace v) s)"
proof -
  have inv: "bt_inv (se_distance s)" and al: "aligned model trace e v" using F v unfolding frontier_def by blast+
  show "frontier model trace (insert v X) e (relaxes e (steps model trace v) s)"
    using aligned_step [OF al] by (intro relaxes_frontier F) auto
  have same: "bt_get (se_distance (relaxes e (steps model trace v) s)) u = bt_get (se_distance s) u" if "u \<in> insert v X" for u
    using F that by (intro relaxes_expanded inv) (auto simp: frontier_def)
  show "explored model trace (insert v X) (relaxes e (steps model trace v) s)"
    unfolding explored_def
  proof (intro conjI ballI allI impI)
    show "case x of (w, u) \<Rightarrow> reached (relaxes e (steps model trace v) s) w u" if "x \<in> set (entries model trace)" for x
      using E that relaxes_reached [OF inv] by (auto simp: explored_def)
    show "case x of (w, u') \<Rightarrow> reached (relaxes e (steps model trace v) s) (d + w) u'"
      if u: "u \<in> insert v X" "bt_get (se_distance (relaxes e (steps model trace v) s)) u = Some d" "x \<in> set (steps model trace u)" for u d x
    proof (cases "u = v")
      case True
      then have "d = e" using u(2) same [of v] v by simp
      then show ?thesis using u(3) True relaxes_reaches [OF inv] by auto
    next
      case False
      then have "case x of (w, u') \<Rightarrow> reached s (d + w) u'" using E u same [OF u(1)] by (auto simp: explored_def)
      then show ?thesis using relaxes_reached [OF inv] by auto
    qed
  qed
qed

definition accepting :: "dfg_model \<Rightarrow> string list \<Rightarrow> node \<Rightarrow> bool" where
  "accepting model trace = (\<lambda>(i, a). i = length trace \<and> a \<in> set (bt_keys (dfg_end_activities model)))"

lemma accepted_accepting: "accepted model trace c \<longleftrightarrow> (\<exists>v. accepting model trace v \<and> aligned model trace c v)"
  by (auto simp: accepted_def accepting_def)

definition cheapest :: "dfg_model \<Rightarrow> string list \<Rightarrow> nat \<Rightarrow> bool" where
  "cheapest model trace c \<longleftrightarrow> accepted model trace c \<and> (\<forall>c'. accepted model trace c' \<longrightarrow> c \<le> c')"

definition search_outcome :: "dfg_model \<Rightarrow> string list \<Rightarrow> (nat \<times> nat) ocpm_result \<Rightarrow> bool" where
  "search_outcome model trace r = (case r of
     Ok (c, k) \<Rightarrow> cheapest model trace c \<and> k \<le> card (alignment_nodes model trace)
   | Err e \<Rightarrow> (err_code e = InsufficientData \<and> (\<forall>c. \<not> accepted model trace c)) \<or>
       (err_code e = SearchTruncated \<and> state_bound model trace < card (alignment_nodes model trace)))"

lemma frontier_cheapest:
  assumes F: "frontier model trace X c s" and E: "explored model trace X s" and X: "\<forall>u \<in> X. \<not> accepting model trace u"
    and ac: "accepted model trace e"
  shows "\<exists>(d, u) \<in> set (se_heap s). d \<le> e"
  using ac frontier_blocks [OF F E] X by (fastforce simp: accepted_accepting)

lemma align_loop_outcome:
  assumes "frontier model trace X c s" "explored model trace X s" "\<forall>u \<in> X. \<not> accepting model trace u" "visited = card X"
  shows "\<exists>r. align_loop model trace s visited = Some r \<and> search_outcome model trace r"
  using assms
proof (induction "(card (alignment_nodes model trace) - card X, length (se_heap s))" arbitrary: X c s visited
    rule: wf_induct_rule [OF wf_lex_prod [OF wf_less_than wf_less_than]])
  case (1 X s c visited)
  note F = \<open>frontier model trace X c s\<close> and E = \<open>explored model trace X s\<close>
    and X = \<open>\<forall>u \<in> X. \<not> accepting model trace u\<close> and k = \<open>visited = card X\<close>
  show ?case
  proof (cases "heap_pop (se_heap s)")
    case None
    then have "\<not> accepted model trace e" for e using frontier_cheapest [OF F E X] by (auto simp: heap_pop_None)
    then show ?thesis using None by (simp add: align_loop.simps search_outcome_def ocpm_error_new_def)
  next
    case (Some mr)
    obtain e i a r where mr: "mr = ((e, i, a), r)" by (cases mr) auto
    note pop = heap_pop_Some [OF Some [unfolded mr]]
    define t where "t = s\<lparr>se_heap := r\<rparr>"
    have dist: "se_distance t = se_distance s" by (simp add: t_def)
    show ?thesis
    proof (cases "bt_get (se_distance s) (i, a) = Some e")
      case False
      have "frontier model trace X c t" using frontier_stale [OF F False] by (simp add: t_def pop(3))
      moreover have "explored model trace X t" using E by (simp add: explored_def reached_def dist)
      moreover have "length (se_heap t) < length (se_heap s)"
        using pop(1) length_pos_if_in_set [OF pop(1)] by (simp add: t_def pop(3) length_remove1)
      ultimately have "\<exists>r. align_loop model trace t visited = Some r \<and> search_outcome model trace r"
        using X k by (intro 1(1) [of X t c]) auto
      then show ?thesis using Some False by (subst align_loop.simps) (simp add: mr t_def)
    next
      case True
      note fp = frontier_pop [OF F True pop(1,2), folded pop(3), folded t_def]
      have card: "card (insert (i, a) X) = card X + 1" using frontier_expanded(3) [OF F] fp(2) by simp
      have le: "card (insert (i, a) X) \<le> card (alignment_nodes model trace)" using frontier_expanded(2) [OF fp(1)] .
      consider (bound) "state_bound model trace < visited + 1"
        | (accept) "\<not> state_bound model trace < visited + 1" "accepting model trace (i, a)"
        | (expand) "\<not> state_bound model trace < visited + 1" "\<not> accepting model trace (i, a)" by blast
      then show ?thesis
      proof cases
        case bound
        then show ?thesis using Some True le card k
          by (subst align_loop.simps) (simp add: mr search_outcome_def ocpm_error_new_def)
      next
        case accept
        have "e \<le> e'" if "accepted model trace e'" for e'
          using frontier_cheapest [OF F E X that] pop(2) by (fastforce simp: less_eq_prod_def)
        moreover have "accepted model trace e" using accept(2) F True unfolding accepted_accepting frontier_def by blast
        ultimately show ?thesis using Some True accept le card k
          by (subst align_loop.simps) (auto simp: mr search_outcome_def cheapest_def accepting_def)
      next
        case expand
        define u where "u = relaxes e (steps model trace (i, a)) t"
        have Et: "explored model trace X t" using E by (simp add: explored_def reached_def dist)
        have "\<exists>r. align_loop model trace u (visited + 1) = Some r \<and> search_outcome model trace r"
          using explored_expand [OF fp(1) Et] True expand(2) X card le k
          by (intro 1(1) [of "insert (i, a) X" u e]) (auto simp: u_def dist)
        then show ?thesis using Some True expand
          by (subst align_loop.simps) (auto simp: mr t_def u_def accepting_def expand_steps)
      qed
    qed
  qed
qed

lemma aligned_nonempty: "aligned model trace c v \<Longrightarrow> dfg_start_activities model \<noteq> []"
  by (induction rule: aligned.induct) (auto simp: bt_keys_def)

text \<open>The search starts with nothing expanded.\<close>

lemma align_dfg_outcome:
  "\<exists>r. align_dfg model trace = Some r \<and> search_outcome model trace r"
proof (cases "dfg_start_activities model = [] \<or> dfg_end_activities model = []")
  case True
  then have "\<not> accepted model trace c" for c
    using aligned_nonempty by (auto simp: accepted_def bt_keys_def)
  then show ?thesis using True by (auto simp: align_dfg_def search_outcome_def ocpm_error_new_def)
next
  case False
  define s where "s = relaxes 0 (entries model trace) \<lparr>se_heap = [], se_distance = []\<rparr>"
  have "frontier model trace {} 0 s"
    unfolding s_def by (rule relaxes_frontier) (auto simp: frontier_def intro: aligned_entry)
  moreover have "explored model trace {} s"
    using relaxes_reaches [of "\<lparr>se_heap = [], se_distance = []\<rparr>" _ _ "entries model trace" 0]
    by (auto simp: explored_def s_def)
  ultimately have "\<exists>r. align_loop model trace s 0 = Some r \<and> search_outcome model trace r"
    by (rule align_loop_outcome) auto
  then show ?thesis using False by (simp add: align_dfg_def s_def start_entries)
qed

section \<open>Runs of the model\<close>

definition dfg_run :: "dfg_model \<Rightarrow> string list \<Rightarrow> bool" where
  "dfg_run model path \<longleftrightarrow> path \<noteq> [] \<and> hd path \<in> set (bt_keys (dfg_start_activities model)) \<and>
     last path \<in> set (bt_keys (dfg_end_activities model)) \<and>
     successively (\<lambda>a b. \<exists>e \<in> set (dfg_edges model). de_source e = a \<and> de_target e = b) path"

lemma aligned_zero:
  assumes "aligned model trace c v" "c = 0"
  shows "\<exists>q. (q = take (fst v) trace \<or> (\<exists>s. q = s # take (fst v) trace)) \<and> q \<noteq> [] \<and> last q = snd v \<and>
    hd q \<in> set (bt_keys (dfg_start_activities model)) \<and>
    successively (\<lambda>a b. \<exists>e \<in> set (dfg_edges model). de_source e = a \<and> de_target e = b) q"
  using assms
proof (induction rule: aligned.induct)
  case (free_start s)
  then show ?case by (intro exI [of _ "[s]"]) simp
next
  case (start s)
  then show ?case by (intro exI [of _ "[s]"]) (auto simp: mismatch_def take_Suc hd_conv_nth split: if_splits)
next
  case (both c i a e)
  then obtain q where q: "q = take i trace \<or> (\<exists>s. q = s # take i trace)" "q \<noteq> []" "last q = a"
    "hd q \<in> set (bt_keys (dfg_start_activities model))"
    "successively (\<lambda>a b. \<exists>e \<in> set (dfg_edges model). de_source e = a \<and> de_target e = b) q" by auto
  have "trace ! i = de_target e" using both.prems by (simp add: mismatch_def split: if_splits)
  then show ?case using both.hyps q
    by (intro exI [of _ "q @ [de_target e]"]) (auto simp: take_Suc_conv_app_nth successively_append_iff)
qed simp_all

lemma aligned_run:
  assumes "aligned model trace 0 (i, a)" "drop i trace = xs"
    "successively (\<lambda>a b. \<exists>e \<in> set (dfg_edges model). de_source e = a \<and> de_target e = b) (a # xs)" "i \<le> length trace"
  shows "aligned model trace 0 (length trace, last (a # xs))"
  using assms
proof (induction xs arbitrary: i a)
  case (Cons x xs)
  then have i: "i < length trace" by (metis drop_all list.distinct(1) not_le)
  then have x: "trace ! i = x" "drop (i + 1) trace = xs" using Cons.prems(2) by (metis Cons_nth_drop_Suc Suc_eq_plus1 list.inject)+
  obtain e where e: "e \<in> set (dfg_edges model)" "de_source e = a" "de_target e = x" using Cons.prems(3) by auto
  have "aligned model trace 0 (i + 1, x)" using aligned.both [OF Cons.prems(1) e(1,2) i] e(3) x(1) by (simp add: mismatch_def)
  then show ?case using Cons.IH [of "i + 1" x] Cons.prems(3) x(2) i by simp
qed (simp add: le_antisym)

lemma accepted_zero: "accepted model trace 0 \<longleftrightarrow> dfg_run model trace \<or> (\<exists>s. dfg_run model (s # trace))"
proof
  assume "accepted model trace 0"
  then show "dfg_run model trace \<or> (\<exists>s. dfg_run model (s # trace))"
    using aligned_zero [of model trace 0] by (fastforce simp: accepted_def dfg_run_def)
next
  assume "dfg_run model trace \<or> (\<exists>s. dfg_run model (s # trace))"
  then show "accepted model trace 0"
  proof
    assume r: "dfg_run model trace"
    then obtain x xs where t: "trace = x # xs" by (cases trace) (auto simp: dfg_run_def)
    have "aligned model trace 0 (1, x)" using aligned.start [of x model trace] r by (simp add: t dfg_run_def mismatch_def)
    then show ?thesis using aligned_run [of model trace 1 x xs] r by (auto simp: t dfg_run_def accepted_def)
  next
    assume "\<exists>s. dfg_run model (s # trace)"
    then obtain s where r: "dfg_run model (s # trace)" ..
    have "aligned model trace 0 (0, s)" using r by (auto simp: dfg_run_def intro: aligned.free_start)
    then show ?thesis using aligned_run [of model trace 0 s trace] r unfolding accepted_def dfg_run_def by auto
  qed
qed

text \<open>With every start and every edge target among the activities, the state bound is never exceeded.\<close>

definition activities_listed :: "dfg_model \<Rightarrow> bool" where
  "activities_listed model \<longleftrightarrow> set (bt_keys (dfg_start_activities model)) \<union> de_target ` set (dfg_edges model) \<subseteq> set (dfg_activities model)"

lemma alignment_nodes_bound:
  assumes "activities_listed model"
  shows "card (alignment_nodes model trace) \<le> (length trace + 1) * length (dfg_activities model)"
proof -
  define A where "A = set (bt_keys (dfg_start_activities model)) \<union> de_target ` set (dfg_edges model)"
  have "card A \<le> length (dfg_activities model)"
    using assms card_mono [of "set (dfg_activities model)" A] card_length [of "dfg_activities model"]
    by (simp add: A_def activities_listed_def)
  then show ?thesis
    by (simp add: alignment_nodes_def A_def [symmetric] card_cartesian_product del: mult_Suc)
qed

lemma state_bound_suffices:
  assumes "activities_listed model" "(length trace + 1) * length (dfg_activities model) + 1 < 2 ^ 64"
  shows "card (alignment_nodes model trace) \<le> state_bound model trace"
proof -
  have "card (alignment_nodes model trace) \<le> (length trace + 1) * length (dfg_activities model)"
    using alignment_nodes_bound [OF assms(1)] .
  also have "\<dots> \<le> state_bound model trace"
  proof -
    have "(length trace + 1) * length (dfg_activities model) \<le> (length trace + 1) * max (length (dfg_activities model)) 1"
      by (intro mult_le_mono2) simp
    then show ?thesis using assms(2) unfolding state_bound_def u64_saturating_add_def u64_saturating_mul_def u64_max_def
      by linarith
  qed
  finally show ?thesis .
qed

lemma align_dfg_decides:
  assumes "activities_listed model" "(length trace + 1) * length (dfg_activities model) + 1 < 2 ^ 64"
  shows "(\<exists>c k. align_dfg model trace = Some (Ok (c, k)) \<and> cheapest model trace c \<and>
      k \<le> (length trace + 1) * length (dfg_activities model)) \<or>
    (\<exists>e. align_dfg model trace = Some (Err e) \<and> err_code e = InsufficientData \<and> (\<forall>c. \<not> accepted model trace c))"
proof -
  obtain r where r: "align_dfg model trace = Some r" "search_outcome model trace r" using align_dfg_outcome by blast
  show ?thesis
  proof (cases r)
    case (Inl e)
    then show ?thesis using r state_bound_suffices [OF assms] by (auto simp: search_outcome_def)
  next
    case (Inr ck)
    then show ?thesis using r alignment_nodes_bound [OF assms(1), of trace]
      by (cases ck) (auto simp: search_outcome_def)
  qed
qed

section \<open>Unit costs\<close>

text \<open>
  The cost model of the specification: the moves that turn a trace into a run of the model, with one for
  a log move and for a model move and nothing for a synchronous one.
\<close>

inductive moves :: "string list \<Rightarrow> string list \<Rightarrow> nat \<Rightarrow> bool" where
  no_moves: "moves [] [] 0"
| log_only: "moves t r c \<Longrightarrow> moves (x # t) r (c + 1)"
| model_only: "moves t r c \<Longrightarrow> moves t (a # r) (c + 1)"
| synchronous: "moves t r c \<Longrightarrow> moves (a # t) (a # r) c"

definition unit_cost :: "dfg_model \<Rightarrow> string list \<Rightarrow> nat \<Rightarrow> bool" where
  "unit_cost model trace d \<longleftrightarrow> (\<exists>run. dfg_run model run \<and> moves trace run d) \<and>
     (\<forall>run d'. dfg_run model run \<and> moves trace run d' \<longrightarrow> d \<le> d')"

abbreviation model_path :: "dfg_model \<Rightarrow> string list \<Rightarrow> bool" where
  "model_path model \<equiv> successively (\<lambda>a b. \<exists>e \<in> set (dfg_edges model). de_source e = a \<and> de_target e = b)"

lemma moves_append: "moves t r c \<Longrightarrow> moves t' r' c' \<Longrightarrow> moves (t @ t') (r @ r') (c + c')"
proof (induction rule: moves.induct)
  case (log_only t r c x)
  then show ?case using moves.log_only [of "t @ t'" "r @ r'" "c + c'" x] by simp
next
  case (model_only t r c a)
  then show ?case using moves.model_only [of "t @ t'" "r @ r'" "c + c'" a] by simp
qed (auto intro: moves.intros)

lemma moves_exist: "\<exists>c. moves t r c"
proof (induction t)
  case Nil
  show ?case by (induction r) (auto intro: moves.intros)
qed (auto intro: moves.intros)

lemma moves_zero: "moves t r c \<Longrightarrow> c = 0 \<Longrightarrow> t = r"
  by (induction rule: moves.induct) simp_all

lemma moves_one: "moves [x] [a] (2 * mismatch [x] 0 a)"
  using moves.log_only [OF moves.model_only [OF no_moves], of x a] moves.synchronous [OF no_moves]
  by (simp add: mismatch_def numeral_2_eq_2)

lemma model_only_one: "moves [] [a] 1"
  using moves.model_only [OF no_moves, of a] by simp

lemma log_only_one: "moves [x] [] 1"
  using moves.log_only [OF no_moves, of x] by simp

lemma unit_cost_exists: "dfg_run model run \<Longrightarrow> \<exists>d. unit_cost model trace d"
proof -
  let ?P = "\<lambda>d. \<exists>run. dfg_run model run \<and> moves trace run d"
  assume "dfg_run model run"
  then have "\<exists>d. ?P d" using moves_exist by blast
  then have "?P (LEAST d. ?P d)" by (rule LeastI_ex)
  moreover have "(LEAST d. ?P d) \<le> d'" if "?P d'" for d' using that by (rule Least_le)
  ultimately show ?thesis unfolding unit_cost_def by blast
qed

text \<open>What the search has paid for, in unit costs: at most twice as much, and the free first move.\<close>

lemma aligned_moves:
  assumes "aligned model trace c v"
  shows "fst v \<le> length trace \<and> (\<exists>p m. p \<noteq> [] \<and> hd p \<in> set (bt_keys (dfg_start_activities model)) \<and> last p = snd v \<and>
    model_path model p \<and> moves (take (fst v) trace) p m \<and> m \<le> 2 * c + 1)"
  using assms
proof (induction rule: aligned.induct)
  case (free_start s)
  then show ?case using model_only_one [of s] by (intro conjI exI [of _ "[s]"] exI [of _ 1]) simp_all
next
  case (start s)
  then obtain x xs where t: "trace = x # xs" by (cases trace) auto
  have "mismatch [x] 0 s = mismatch trace 0 s" by (simp add: mismatch_def t)
  then show ?case using start moves_one [of x s] t
    by (intro conjI exI [of _ "[s]"] exI [of _ "2 * mismatch trace 0 s"]) simp_all
next
  case (log_move c i a)
  then obtain p m where p: "p \<noteq> []" "hd p \<in> set (bt_keys (dfg_start_activities model))" "last p = a" "model_path model p"
    "moves (take i trace) p m" "m \<le> 2 * c + 1" by auto
  have "moves (take (i + 1) trace) p (m + 1)"
    using moves_append [OF p(5) log_only_one [of "trace ! i"]] log_move.hyps(2) by (simp add: take_Suc_conv_app_nth)
  then show ?case using p log_move.hyps(2) by (intro conjI exI [of _ p] exI [of _ "m + 1"]) simp_all
next
  case (model_move c i a e)
  then obtain p m where p: "p \<noteq> []" "hd p \<in> set (bt_keys (dfg_start_activities model))" "last p = a" "model_path model p"
    "moves (take i trace) p m" "m \<le> 2 * c + 1" by auto
  have "moves (take i trace) (p @ [de_target e]) (m + 1)" using moves_append [OF p(5) model_only_one [of "de_target e"]] by simp
  then show ?case using p model_move.hyps(2,3) model_move.IH
    by (intro conjI exI [of _ "p @ [de_target e]"] exI [of _ "m + 1"]) (auto simp: successively_append_iff)
next
  case (both c i a e)
  then obtain p m where p: "p \<noteq> []" "hd p \<in> set (bt_keys (dfg_start_activities model))" "last p = a" "model_path model p"
    "moves (take i trace) p m" "m \<le> 2 * c + 1" by auto
  have "mismatch [trace ! i] 0 (de_target e) = mismatch trace i (de_target e)" by (simp add: mismatch_def)
  then have "moves (take (i + 1) trace) (p @ [de_target e]) (m + 2 * mismatch trace i (de_target e))"
    using moves_append [OF p(5) moves_one [of "trace ! i" "de_target e"]] both.hyps(4) by (simp add: take_Suc_conv_app_nth)
  then show ?case using p both.hyps(2-4)
    by (intro conjI exI [of _ "p @ [de_target e]"] exI [of _ "m + 2 * mismatch trace i (de_target e)"])
      (auto simp: successively_append_iff)
qed

text \<open>Once an activity of the model is entered, every unit-cost continuation is open to the search.\<close>

lemma moves_aligned:
  assumes "moves t r m" and "aligned model trace c (i, a)" and "drop i trace = t" and "i \<le> length trace"
    and "model_path model (a # r)"
  shows "\<exists>c' \<le> c + m. aligned model trace c' (length trace, last (a # r))"
  using assms
proof (induction arbitrary: c i a rule: moves.induct)
  case no_moves
  then have "i = length trace" by simp
  then show ?case using no_moves.prems(1) by auto
next
  case (log_only t r m x)
  then have i: "i < length trace" "drop (i + 1) trace = t" by (auto simp flip: tl_drop simp: drop_Suc not_le intro: ccontr)
  from log_only.IH [OF aligned.log_move [OF log_only.prems(1) i(1)] i(2) _ log_only.prems(4)] i(1)
  show ?case by fastforce
next
  case (model_only t r m b)
  then obtain e where e: "e \<in> set (dfg_edges model)" "de_source e = a" "de_target e = b" by auto
  from model_only.IH [OF aligned.model_move [OF model_only.prems(1) e(1,2)]] model_only.prems e(3)
  show ?case by fastforce
next
  case (synchronous t r m b)
  then have i: "i < length trace" "drop (i + 1) trace = t" by (auto simp flip: tl_drop simp: drop_Suc not_le intro: ccontr)
  have "trace ! i = b" using hd_drop_conv_nth [OF i(1)] synchronous.prems(2) by simp
  note i = i this
  obtain e where e: "e \<in> set (dfg_edges model)" "de_source e = a" "de_target e = b" using synchronous.prems by auto
  from synchronous.IH [OF aligned.both [OF synchronous.prems(1) e(1,2) i(1)]] synchronous.prems e(3) i
  show ?case by (fastforce simp: mismatch_def)
qed

lemma aligned_logs: "s \<in> set (bt_keys (dfg_start_activities model)) \<Longrightarrow> i \<le> length trace \<Longrightarrow> aligned model trace i (i, s)"
proof (induction i)
  case (Suc i)
  then show ?case using aligned.log_move [of model trace i i s] by simp
qed (simp add: aligned.free_start)

lemma moves_entry:
  assumes "moves t r m" and "drop i trace = t" and "i \<le> length trace" and "r \<noteq> []"
    and "hd r \<in> set (bt_keys (dfg_start_activities model))" and "model_path model r"
  shows "\<exists>c \<le> i + m + 1. aligned model trace c (length trace, last r)"
  using assms
proof (induction arbitrary: i rule: moves.induct)
  case (log_only t r m x)
  then have i: "i < length trace" "drop (i + 1) trace = t" by (auto simp flip: tl_drop simp: drop_Suc not_le intro: ccontr)
  from log_only.IH [OF i(2)] log_only.prems i(1) show ?case by fastforce
next
  case (model_only t r m b)
  have "aligned model trace i (i, b)" using model_only.prems by (intro aligned_logs) simp_all
  then obtain c where "c \<le> i + m" "aligned model trace c (length trace, last (b # r))"
    using moves_aligned [OF model_only.hyps _ model_only.prems(1,2)] model_only.prems(5) by blast
  then show ?case by (intro exI [of _ c]) simp
next
  case (synchronous t r m b)
  then have i: "i < length trace" "drop (i + 1) trace = t" by (auto simp flip: tl_drop simp: drop_Suc not_le intro: ccontr)
  from moves_aligned [OF synchronous.hyps aligned_logs i(2), of b model] synchronous.prems i(1)
  show ?case by fastforce
qed simp

lemma unit_accepted: "dfg_run model run \<Longrightarrow> moves trace run d \<Longrightarrow> \<exists>c \<le> d + 1. accepted model trace c"
  using moves_entry [of trace run d 0 trace model] by (auto simp: accepted_def dfg_run_def)

lemma accepted_unit:
  assumes "accepted model trace c"
  shows "\<exists>run d. dfg_run model run \<and> moves trace run d \<and> d \<le> 2 * c + 1"
proof -
  obtain a where "a \<in> set (bt_keys (dfg_end_activities model))" "aligned model trace c (length trace, a)"
    using assms by (auto simp: accepted_def)
  then show ?thesis using aligned_moves [of model trace c "(length trace, a)"] by (auto simp: dfg_run_def)
qed

lemma accepted_iff_run: "(\<exists>c. accepted model trace c) \<longleftrightarrow> (\<exists>run. dfg_run model run)"
  using unit_accepted accepted_unit moves_exist by meson

lemma cheapest_unit:
  assumes "cheapest model trace c"
  shows "\<exists>d. unit_cost model trace d \<and> d \<le> 2 * c + 1 \<and> c \<le> d + 1 \<and> (d = 0 \<longrightarrow> c = 0)"
proof -
  have c: "accepted model trace c" "\<And>c'. accepted model trace c' \<Longrightarrow> c \<le> c'" using assms by (auto simp: cheapest_def)
  obtain run d' where r: "dfg_run model run" "moves trace run d'" "d' \<le> 2 * c + 1" using accepted_unit [OF c(1)] by blast
  obtain d where d: "unit_cost model trace d" using unit_cost_exists [OF r(1)] by blast
  then obtain run' where r': "dfg_run model run'" "moves trace run' d" by (auto simp: unit_cost_def)
  have "d \<le> d'" using d r(1,2) by (auto simp: unit_cost_def)
  moreover have "c \<le> d + 1" using unit_accepted [OF r'] c(2) by (metis le_trans)
  moreover have "c = 0" if "d = 0" using moves_zero [OF r'(2) that] r'(1) c(2) [of 0] by (simp add: accepted_zero)
  ultimately show ?thesis using d r(3) by (intro exI [of _ d]) simp
qed

section \<open>Properties\<close>

text \<open>
  C17: with the starts and the edge targets of the model among its activities, and a state bound that fits
  \<open>usize\<close>, the search always returns and is never truncated: either a cost, with no more expanded states
  than pairs of a trace position and an activity, or \<open>InsufficientData\<close> when the model has no run at all.
  The cost departs from the least cost of an alignment under unit costs, which the specification asks for,
  but only within bounds: it is zero when that is, never more than one above it, and never less than half
  of it rounded down. (The first model move is free, a substitution is charged once, and log moves before
  the first synchronous move cost one extra.)
\<close>

theorem align_dfg_cheapest:
  assumes "activities_listed model" "(length trace + 1) * length (dfg_activities model) + 1 < 2 ^ 64"
  shows "(\<exists>c k d. align_dfg model trace = Some (Ok (c, k)) \<and> k \<le> (length trace + 1) * length (dfg_activities model) \<and>
      cheapest model trace c \<and> unit_cost model trace d \<and> c \<le> d + 1 \<and> d \<le> 2 * c + 1 \<and> (d = 0 \<longrightarrow> c = 0)) \<or>
    (\<exists>e. align_dfg model trace = Some (Err e) \<and> err_code e = InsufficientData \<and> (\<forall>run. \<not> dfg_run model run))"
  using align_dfg_decides [OF assms] cheapest_unit [of model trace] accepted_iff_run [of model trace] by blast

text \<open>The model of two activities in sequence.\<close>

definition two_step :: dfg_model where
  "two_step = \<lparr>dfg_activities = [''a'', ''b''], dfg_start_activities = [(''a'', 1)], dfg_end_activities = [(''b'', 1)],
     dfg_edges = [\<lparr>de_source = ''a'', de_target = ''b'', de_object_type = ''order'', de_frequency = 1\<rparr>]\<rparr>"

lemma two_step_listed: "activities_listed two_step"
  by (simp add: activities_listed_def two_step_def bt_keys_def)

lemma two_step_run: "dfg_run two_step [''a'', ''b'']"
  by (simp add: two_step_def dfg_run_def bt_keys_def)

theorem align_dfg_cheapest_witness:
  "\<exists>c k d. align_dfg two_step [''a'', ''x'', ''b''] = Some (Ok (c, k)) \<and> unit_cost two_step [''a'', ''x'', ''b''] d \<and>
     c \<le> d + 1 \<and> d \<le> 2 * c + 1 \<and> k \<le> 8"
  using align_dfg_cheapest [OF two_step_listed, of "[''a'', ''x'', ''b'']"] two_step_run by (auto simp: two_step_def)

text \<open>
  A trace aligns at cost zero exactly when it is a run of the model, or becomes one by putting some
  activity in front: the first activity of the model is never charged for when the trace leaves it out.
\<close>

theorem align_dfg_zero:
  assumes "activities_listed model" "(length trace + 1) * length (dfg_activities model) + 1 < 2 ^ 64"
  shows "(\<exists>k. align_dfg model trace = Some (Ok (0, k))) \<longleftrightarrow> dfg_run model trace \<or> (\<exists>s. dfg_run model (s # trace))"
proof -
  have "(\<exists>k. align_dfg model trace = Some (Ok (0, k))) \<longleftrightarrow> accepted model trace 0"
    using align_dfg_decides [OF assms] by (auto simp: cheapest_def)
  then show ?thesis by (simp add: accepted_zero)
qed

theorem align_dfg_zero_witness:
  "(\<exists>k. align_dfg two_step [''b''] = Some (Ok (0, k))) \<and> \<not> dfg_run two_step [''b'']"
proof
  have "dfg_run two_step (''a'' # [''b''])" by (simp add: two_step_def dfg_run_def bt_keys_def)
  then show "\<exists>k. align_dfg two_step [''b''] = Some (Ok (0, k))"
    using align_dfg_zero [OF two_step_listed, of "[''b'']"] by (auto simp: two_step_def)
  show "\<not> dfg_run two_step [''b'']" by (simp add: two_step_def dfg_run_def bt_keys_def)
qed

text \<open>So a trace without the first activity is free where the specification charges one model move.\<close>

lemma align_dfg_free_start:
  "(\<exists>k. align_dfg two_step [''b''] = Some (Ok (0, k))) \<and> unit_cost two_step [''b''] 1"
proof
  show "\<exists>k. align_dfg two_step [''b''] = Some (Ok (0, k))"
    using align_dfg_zero [OF two_step_listed, of "[''b'']"] two_step_run by (auto simp: two_step_def)
  have "moves [''b''] [''b''] 0" by (rule moves.synchronous [OF no_moves])
  then have "moves [''b''] [''a'', ''b''] 1" using moves.model_only [of "[''b'']" "[''b'']" 0 "''a''"] by simp
  moreover have "0 < d" if "dfg_run two_step run" "moves [''b''] run d" for run d
  proof (rule ccontr)
    assume "\<not> 0 < d"
    then have "dfg_run two_step [''b'']" using moves_zero [OF that(2)] that(1) by simp
    then show False by (simp add: two_step_def dfg_run_def bt_keys_def)
  qed
  ultimately show "unit_cost two_step [''b''] 1" using two_step_run unfolding unit_cost_def by (fastforce simp: Suc_le_eq)
qed

end
