(* ===== verification/Conformance.thy ===== *)
theory Conformance
  imports Kernels Alignment
begin

text \<open>
  Conformance checking: \<open>crates/ocpm-conformance/src/lib.rs\<close>. Frequency coverage, token replay,
  directly-follows alignments and declarative checks. Token counters are 64-bit numbers that wrap
  (the release profile does not check overflow). JSON values are the type \<open>'j\<close>, with the
  constructors \<open>json_nat\<close> and \<open>json_strings\<close> for the diagnostics.
\<close>

definition conformance_ratio :: "nat \<Rightarrow> nat \<Rightarrow> f64" where
  "conformance_ratio numerator denominator =
    (if denominator = 0 then f64_one else f64_div (f64_of_nat numerator) (f64_of_nat denominator))"

definition simplicity_of :: "nat \<Rightarrow> f64" where
  "simplicity_of n = f64_div f64_one (f64_add f64_one (f64_of_nat n))"

definition violation_binding :: "process_execution \<Rightarrow> query_binding" where
  "violation_binding e = \<lparr>qb_event_ids = map ev_id (pe_events e), qb_object_ids = pe_object_ids e,
     qb_labels = [pe_id e], qb_violated = True\<rparr>"

definition validate_artifact :: "('j model_artifact \<Rightarrow> string ocpm_result) \<Rightarrow> 'j model_artifact \<Rightarrow> unit ocpm_result" where
  "validate_artifact content_hash artifact =
    rbind (ensure (ma_schema_version artifact = ''1.0'')
      (ocpm_error_new ArtifactIncompatible ''model artifact schema_version must be 1.0'')) (\<lambda>_.
    rbind (finalize_hash content_hash artifact) (\<lambda>expected.
    ensure (ma_content_hash expected = ma_content_hash artifact)
      (ocpm_error_new ArtifactIncompatible ''model artifact content hash does not match its contents'')))"

section \<open>Frequency coverage\<close>

record coverage_state =
  cs_conforming :: nat
  cs_deviations :: nat
  cs_observed :: "(string \<times> string) list"
  cs_violations :: "query_binding list"

definition coverage_pair :: "(string \<times> string) list \<Rightarrow> event \<times> event \<Rightarrow> coverage_state \<times> bool \<Rightarrow> coverage_state \<times> bool" where
  "coverage_pair allowed = (\<lambda>(a, b) (s, deviates).
     let pair = (ev_activity a, ev_activity b); s = s\<lparr>cs_observed := insort_insert pair (cs_observed s)\<rparr> in
     if pair \<in> set allowed then (s\<lparr>cs_conforming := cs_conforming s + 1\<rparr>, deviates)
     else (s\<lparr>cs_deviations := cs_deviations s + 1\<rparr>, True))"

definition coverage_execution :: "(string \<times> string) list \<Rightarrow> process_execution \<Rightarrow> coverage_state \<Rightarrow> coverage_state" where
  "coverage_execution allowed e s = (case fold (coverage_pair allowed) (windows2 (pe_events e)) (s, False) of
     (s, deviates) \<Rightarrow> if deviates then s\<lparr>cs_violations := cs_violations s @ [violation_binding e]\<rparr> else s)"

definition frequency_coverage :: "(nat \<Rightarrow> 'j) \<Rightarrow> process_execution list \<Rightarrow> 'j model_artifact
    \<Rightarrow> 'j conformance_result_v1 ocpm_result" where
  "frequency_coverage json_nat executions artifact = (case ma_model artifact of
     Dfg model \<Rightarrow>
      let allowed = bset (map (\<lambda>e. (de_source e, de_target e)) (dfg_edges model));
        s = fold (coverage_execution allowed) executions
          \<lparr>cs_conforming = 0, cs_deviations = 0, cs_observed = [], cs_violations = []\<rparr>;
        total = cs_conforming s + cs_deviations s
      in Ok \<lparr>cv_fitness = Some (conformance_ratio (cs_conforming s) total),
        cv_precision = Some (conformance_ratio (length (filter (\<lambda>p. p \<in> set allowed) (cs_observed s))) (length allowed)),
        cv_generalization = None, cv_simplicity = Some (simplicity_of (length allowed)),
        cv_conforming = cs_conforming s, cv_deviations = cs_deviations s, cv_exact = True,
        cv_violations = cs_violations s,
        cv_diagnostics = bt_of_list [(''observed_edges'', json_nat (length (cs_observed s))),
          (''model_edges'', json_nat (length allowed))]\<rparr>
   | _ \<Rightarrow> Err (invalid_request ''frequency_coverage requires a DFG model''))"

section \<open>Token replay\<close>

record replay =
  rp_missing :: nat
  rp_remaining :: nat
  rp_consumed :: nat
  rp_produced :: nat
  rp_log_moves :: nat

definition replay_default :: replay where
  "replay_default = \<lparr>rp_missing = 0, rp_remaining = 0, rp_consumed = 0, rp_produced = 0, rp_log_moves = 0\<rparr>"

type_synonym tokens = "(string, nat) btree_map"

definition token_count :: "tokens \<Rightarrow> string \<Rightarrow> nat" where
  "token_count tokens place = (case bt_get tokens place of None \<Rightarrow> 0 | Some n \<Rightarrow> n)"

definition supply_arc :: "petri_arc \<Rightarrow> tokens \<times> replay \<Rightarrow> tokens \<times> replay" where
  "supply_arc a = (\<lambda>(tokens, r). let available = token_count tokens (arc_source a) in
     if available < arc_weight a
     then let missing = arc_weight a - available in
       (bt_insert (arc_source a) (u64_wrapping_add available missing) tokens,
        r\<lparr>rp_missing := u64_wrapping_add (rp_missing r) missing\<rparr>)
     else (tokens, r))"

definition consume_arc :: "petri_arc \<Rightarrow> tokens \<times> replay \<Rightarrow> tokens \<times> replay" where
  "consume_arc a = (\<lambda>(tokens, r).
     (bt_insert (arc_source a) (u64_wrapping_sub (token_count tokens (arc_source a)) (arc_weight a)) tokens,
      r\<lparr>rp_consumed := u64_wrapping_add (rp_consumed r) (arc_weight a)\<rparr>))"

definition produce_arc :: "petri_arc \<Rightarrow> tokens \<times> replay \<Rightarrow> tokens \<times> replay" where
  "produce_arc a = (\<lambda>(tokens, r). case bt_get tokens (arc_target a) of None \<Rightarrow> (tokens, r)
     | Some n \<Rightarrow> (bt_insert (arc_target a) (u64_wrapping_add n (arc_weight a)) tokens,
         r\<lparr>rp_produced := u64_wrapping_add (rp_produced r) (arc_weight a)\<rparr>))"

definition incoming_arcs :: "petri_net \<Rightarrow> transition \<Rightarrow> tokens \<Rightarrow> petri_arc list" where
  "incoming_arcs net t tokens = filter (\<lambda>a. arc_target a = tr_id t \<and> bt_get tokens (arc_source a) \<noteq> None) (net_arcs net)"

definition replay_event :: "petri_net \<Rightarrow> event \<Rightarrow> tokens \<times> replay \<Rightarrow> tokens \<times> replay" where
  "replay_event net ev = (\<lambda>(tokens, r).
    case find (\<lambda>t. tr_label t = Some (ev_activity ev)) (net_transitions net) of
      None \<Rightarrow> (tokens, r\<lparr>rp_log_moves := u64_wrapping_add (rp_log_moves r) 1\<rparr>)
    | Some t \<Rightarrow>
       let incoming = incoming_arcs net t tokens;
         enabled = (\<forall>a \<in> set incoming. arc_weight a \<le> token_count tokens (arc_source a));
         supplied = (if enabled then (tokens, r) else fold supply_arc incoming (tokens, r));
         consumed = fold consume_arc incoming supplied
       in fold produce_arc (filter (\<lambda>a. arc_source a = tr_id t) (net_arcs net)) consumed)"

definition abs_diff :: "nat \<Rightarrow> nat \<Rightarrow> nat" where
  "abs_diff a b = (if a < b then b - a else a - b)"

definition initial_tokens :: "petri_net \<Rightarrow> tokens" where
  "initial_tokens net = bt_of_list (map (\<lambda>p. (pl_id p, pl_initial_tokens p)) (net_places net))"

definition replay_trace :: "petri_net \<Rightarrow> process_execution \<Rightarrow> replay" where
  "replay_trace net e =
    (case fold (replay_event net) (pe_events e) (initial_tokens net, replay_default) of
      (tokens, r) \<Rightarrow> fold (\<lambda>p r. r\<lparr>rp_remaining :=
        u64_wrapping_add (rp_remaining r) (abs_diff (token_count tokens (pl_id p)) (pl_final_tokens p))\<rparr>) (net_places net) r)"

record replay_totals =
  rt_conforming :: nat
  rt_deviations :: nat
  rt_missing :: nat
  rt_remaining :: nat
  rt_consumed :: nat
  rt_produced :: nat
  rt_violations :: "query_binding list"

definition replay_execution :: "petri_net \<Rightarrow> process_execution \<Rightarrow> replay_totals \<Rightarrow> replay_totals" where
  "replay_execution net e s =
    (let r = replay_trace net e;
       off = u64_wrapping_add (u64_wrapping_add (rp_log_moves r) (rp_missing r)) (rp_remaining r) in
     \<lparr>rt_conforming = u64_wrapping_add (rt_conforming s) (u64_wrapping_sub (length (pe_events e)) (rp_log_moves r)),
      rt_deviations = u64_wrapping_add (rt_deviations s) off,
      rt_missing = u64_wrapping_add (rt_missing s) (rp_missing r),
      rt_remaining = u64_wrapping_add (rt_remaining s) (rp_remaining r),
      rt_consumed = u64_wrapping_add (rt_consumed s) (rp_consumed r),
      rt_produced = u64_wrapping_add (rt_produced s) (rp_produced r),
      rt_violations = (if 0 < off then rt_violations s @ [violation_binding e] else rt_violations s)\<rparr>)"

definition net_of_model :: "process_model \<Rightarrow> petri_net option" where
  "net_of_model model = (case model of PNet net \<Rightarrow> Some net | OCPNet oc \<Rightarrow> Some (ocpn_net oc) | _ \<Rightarrow> None)"

definition replay_fitness :: "replay_totals \<Rightarrow> f64" where
  "replay_fitness s =
    (let missing_penalty = conformance_ratio (rt_missing s) (max (rt_consumed s) 1);
       remaining_penalty = conformance_ratio (rt_remaining s) (max (rt_produced s) 1)
     in f64_clamp f64_zero f64_one (f64_sub (f64_sub f64_one (f64_mul f64_half missing_penalty)) (f64_mul f64_half remaining_penalty)))"

definition token_replay :: "(nat \<Rightarrow> 'j) \<Rightarrow> process_execution list \<Rightarrow> 'j model_artifact
    \<Rightarrow> 'j conformance_result_v1 ocpm_result" where
  "token_replay json_nat executions artifact = (case net_of_model (ma_model artifact) of
     None \<Rightarrow> Err (invalid_request ''token_replay requires a Petri net or object-centric Petri net'')
   | Some net \<Rightarrow>
      let s = fold (replay_execution net) executions \<lparr>rt_conforming = 0, rt_deviations = 0, rt_missing = 0,
          rt_remaining = 0, rt_consumed = 0, rt_produced = 0, rt_violations = []\<rparr>
      in Ok \<lparr>cv_fitness = Some (replay_fitness s), cv_precision = None, cv_generalization = None,
        cv_simplicity = Some (f64_div f64_one (f64_add (f64_add f64_one (f64_of_nat (length (net_places net))))
          (f64_of_nat (length (net_transitions net))))),
        cv_conforming = rt_conforming s, cv_deviations = rt_deviations s, cv_exact = True,
        cv_violations = rt_violations s,
        cv_diagnostics = bt_of_list [(''missing_tokens'', json_nat (rt_missing s)),
          (''remaining_tokens'', json_nat (rt_remaining s)), (''consumed_tokens'', json_nat (rt_consumed s)),
          (''produced_tokens'', json_nat (rt_produced s))]\<rparr>)"

section \<open>Alignments\<close>

record alignment_totals =
  at_synchronous :: nat
  at_moves :: nat
  at_violations :: "query_binding list"
  at_expanded :: nat

fun align_executions :: "dfg_model \<Rightarrow> process_execution list \<Rightarrow> alignment_totals \<Rightarrow> alignment_totals ocpm_result option" where
  "align_executions model [] s = Some (Ok s)"
| "align_executions model (e # es) s = (case align_dfg model (activity_path e) of None \<Rightarrow> None
   | Some (Err x) \<Rightarrow> Some (Err x)
   | Some (Ok (cost, states)) \<Rightarrow>
      align_executions model es \<lparr>at_synchronous = at_synchronous s + (length (pe_events e) - min cost (length (pe_events e))),
        at_moves = at_moves s + cost,
        at_violations = (if 0 < cost then at_violations s @ [violation_binding e] else at_violations s),
        at_expanded = at_expanded s + states\<rparr>)"

definition alignment :: "(nat \<Rightarrow> 'j) \<Rightarrow> process_execution list \<Rightarrow> 'j model_artifact
    \<Rightarrow> 'j conformance_result_v1 ocpm_result option" where
  "alignment json_nat executions artifact = (case ma_model artifact of
     Dfg model \<Rightarrow>
      map_option (\<lambda>r. rbind r (\<lambda>s.
        Ok \<lparr>cv_fitness = Some (conformance_ratio (at_synchronous s) (at_synchronous s + at_moves s)), cv_precision = None,
          cv_generalization = None, cv_simplicity = Some (simplicity_of (length (dfg_edges model))),
          cv_conforming = at_synchronous s, cv_deviations = at_moves s, cv_exact = True, cv_violations = at_violations s,
          cv_diagnostics = bt_of_list [(''expanded_alignment_states'', json_nat (at_expanded s))]\<rparr>))
        (align_executions model executions \<lparr>at_synchronous = 0, at_moves = 0, at_violations = [], at_expanded = 0\<rparr>)
   | _ \<Rightarrow> Some (map_err (\<lambda>_. invalid_request
       ''alignment currently accepts a DFG, Petri net, or object-centric Petri net'') (token_replay json_nat executions artifact)))"

definition ocpn_quality :: "(nat \<Rightarrow> 'j) \<Rightarrow> (string list \<Rightarrow> 'j) \<Rightarrow> process_execution list \<Rightarrow> 'j model_artifact
    \<Rightarrow> 'j conformance_result_v1 ocpm_result" where
  "ocpn_quality json_nat json_strings executions artifact = (case ma_model artifact of
     OCPNet _ \<Rightarrow> rbind (token_replay json_nat executions artifact) (\<lambda>result.
       Ok (result\<lparr>cv_diagnostics := bt_insert ''object_types_recomposed''
         (json_strings (bset (map pe_object_type executions))) (cv_diagnostics result)\<rparr>))
   | _ \<Rightarrow> Err (invalid_request ''ocpn_quality requires an object-centric Petri net''))"

section \<open>Declarative constraints\<close>

definition positions :: "string list \<Rightarrow> string \<Rightarrow> nat list" where
  "positions path activity = map fst (filter (\<lambda>(_, v). v = activity) (indexed path))"

definition declare_holds :: "process_execution \<Rightarrow> declare_constraint \<Rightarrow> bool" where
  "declare_holds e c =
    (let path = activity_path e; activation = positions path (dcl_activation c);
       target = (case dcl_target c of None \<Rightarrow> [] | Some t \<Rightarrow> positions path t) in
     case dcl_template c of
       Existence \<Rightarrow> activation \<noteq> []
     | Absence \<Rightarrow> activation = []
     | Exactly \<Rightarrow> length activation = 1
     | Init \<Rightarrow> 0 \<in> set activation
     | End \<Rightarrow> length path - 1 \<in> set activation
     | Response \<Rightarrow> \<forall>left \<in> set activation. \<exists>right \<in> set target. left < right
     | Precedence \<Rightarrow> \<forall>right \<in> set target. \<exists>left \<in> set activation. left < right
     | Succession \<Rightarrow> (\<forall>left \<in> set activation. \<exists>right \<in> set target. left < right) \<and>
         (\<forall>right \<in> set target. \<exists>left \<in> set activation. left < right)
     | Coexistence \<Rightarrow> (activation = []) = (target = [])
     | NotCoexistence \<Rightarrow> activation = [] \<or> target = []
     | Choice \<Rightarrow> activation \<noteq> [] \<or> target \<noteq> []
     | ExclusiveChoice \<Rightarrow> (activation = []) \<noteq> (target = []))"

definition declare_execution :: "declare_constraint list \<Rightarrow> process_execution
    \<Rightarrow> nat \<times> nat \<times> query_binding list \<Rightarrow> nat \<times> nat \<times> query_binding list" where
  "declare_execution constraints e = (\<lambda>(conforming, deviations, violations).
     let failed = length (filter (\<lambda>c. \<not> declare_holds e c) constraints) in
     (conforming + (length constraints - failed), deviations + failed,
      if 0 < failed then violations @ [violation_binding e] else violations))"

definition declarative :: "(nat \<Rightarrow> 'j) \<Rightarrow> process_execution list \<Rightarrow> 'j model_artifact
    \<Rightarrow> 'j conformance_result_v1 ocpm_result" where
  "declarative json_nat executions artifact = (case ma_model artifact of
     OcDeclare constraints \<Rightarrow>
      (case fold (declare_execution constraints) executions (0, 0, []) of (conforming, deviations, violations) \<Rightarrow>
        Ok \<lparr>cv_fitness = Some (conformance_ratio conforming (conforming + deviations)), cv_precision = None,
          cv_generalization = None, cv_simplicity = Some (simplicity_of (length constraints)),
          cv_conforming = conforming, cv_deviations = deviations, cv_exact = True, cv_violations = violations,
          cv_diagnostics = bt_of_list [(''constraint_count'', json_nat (length constraints))]\<rparr>)
   | _ \<Rightarrow> Err (invalid_request ''declarative conformance requires an OC-DECLARE model''))"

section \<open>The entry point\<close>

definition conformance_mode :: "('j \<Rightarrow> string option) \<Rightarrow> (string, 'j) btree_map \<Rightarrow> execution_mode" where
  "conformance_mode as_str parameters =
    (if Option.bind (bt_get parameters ''execution_mode'') as_str = Some ''connected_component''
     then ConnectedComponent else LeadingObject)"

definition check :: "('j \<Rightarrow> string option) \<Rightarrow> (nat \<Rightarrow> 'j) \<Rightarrow> (string list \<Rightarrow> 'j) \<Rightarrow> ('j model_artifact \<Rightarrow> string ocpm_result)
    \<Rightarrow> executions_method \<Rightarrow> 'j conformance_request \<Rightarrow> 'j conformance_result_v1 ocpm_result option" where
  "check as_str json_nat json_strings content_hash process_executions request =
    (if cq_semantic_version request \<noteq> ''1.0'' then Some (Err (invalid_request ''semantic_version must be 1.0''))
     else case validate_artifact content_hash (cq_model request) of Err e \<Rightarrow> Some (Err e)
     | Ok _ \<Rightarrow>
        let mode = conformance_mode as_str (cq_parameters request);
          leading = Option.bind (bt_get (cq_parameters request) ''leading_object_type'') as_str in
        (case process_executions (cq_view request) mode leading of Err e \<Rightarrow> Some (Err e)
         | Ok executions \<Rightarrow> (case cq_method request of
             FrequencyCoverage \<Rightarrow> Some (frequency_coverage json_nat executions (cq_model request))
           | TokenReplay \<Rightarrow> Some (token_replay json_nat executions (cq_model request))
           | Alignment \<Rightarrow> alignment json_nat executions (cq_model request)
           | OcpnQuality \<Rightarrow> Some (ocpn_quality json_nat json_strings executions (cq_model request))
           | OcDeclareMethod \<Rightarrow> Some (declarative json_nat executions (cq_model request))
           | Constraints \<Rightarrow> Some (declarative json_nat executions (cq_model request)))))"

section \<open>What frequency coverage counts\<close>

definition path_pairs :: "process_execution \<Rightarrow> (string \<times> string) list" where
  "path_pairs e = windows2 (activity_path e)"

lemma coverage_pairs:
  "fold (coverage_pair allowed) ps (s, d) =
    (let ks = map (\<lambda>(a, b). (ev_activity a, ev_activity b)) ps in
     (s\<lparr>cs_conforming := cs_conforming s + length (filter (\<lambda>k. k \<in> set allowed) ks),
        cs_deviations := cs_deviations s + length (filter (\<lambda>k. k \<notin> set allowed) ks),
        cs_observed := fold insort_insert ks (cs_observed s)\<rparr>, d \<or> \<not> set ks \<subseteq> set allowed))"
proof (induction ps arbitrary: s d)
  case (Cons p ps)
  obtain a b where "p = (a, b)" by (cases p)
  then show ?case using Cons.IH by (auto simp: coverage_pair_def Let_def)
qed simp

lemma path_pairs_windows: "map (\<lambda>(a, b). (ev_activity a, ev_activity b)) (windows2 (pe_events e)) = path_pairs e"
  by (simp add: path_pairs_def activity_path_def windows2_map map_prod_def)

lemma coverage_fold:
  "fold (coverage_execution allowed) es s =
    (let ks = concat (map path_pairs es) in
     s\<lparr>cs_conforming := cs_conforming s + length (filter (\<lambda>k. k \<in> set allowed) ks),
       cs_deviations := cs_deviations s + length (filter (\<lambda>k. k \<notin> set allowed) ks),
       cs_observed := fold insort_insert ks (cs_observed s),
       cs_violations := cs_violations s @ map violation_binding (filter (\<lambda>e. \<not> set (path_pairs e) \<subseteq> set allowed) es)\<rparr>)"
proof (induction es arbitrary: s)
  case (Cons e es)
  show ?case unfolding fold_Cons comp_apply Cons.IH
    by (simp add: coverage_execution_def coverage_pairs path_pairs_windows Let_def)
qed simp

lemma frequency_coverage_counts:
  assumes "ma_model artifact = Dfg model"
  shows "\<exists>r. frequency_coverage json_nat es artifact = Ok r \<and>
    (let allowed = (\<lambda>e. (de_source e, de_target e)) ` set (dfg_edges model); ks = concat (map path_pairs es) in
     cv_conforming r = length (filter (\<lambda>k. k \<in> allowed) ks) \<and> cv_deviations r = length (filter (\<lambda>k. k \<notin> allowed) ks) \<and>
     cv_fitness r = Some (conformance_ratio (cv_conforming r) (cv_conforming r + cv_deviations r)) \<and>
     cv_precision r = Some (conformance_ratio (card (set ks \<inter> allowed)) (card allowed)) \<and>
     cv_violations r = map violation_binding (filter (\<lambda>e. \<not> set (path_pairs e) \<subseteq> allowed) es))"
proof -
  have "length (filter (\<lambda>p. p \<in> A) (bset xs)) = card (set xs \<inter> A)" for A and xs :: "(string \<times> string) list"
    using distinct_card [of "filter (\<lambda>p. p \<in> A) (bset xs)"] by (simp add: Int_def conj_commute)
  then show ?thesis using assms
    by (simp add: frequency_coverage_def Let_def coverage_fold fold_insort_bset length_bset del: set_concat)
qed

section \<open>The firing sequences the replay follows\<close>

text \<open>
  The token game of the net on unbounded markings: the tokens a transition takes from a place and puts
  into it, and the marking after a sequence of labels, each fired by the first transition carrying it.
\<close>

type_synonym marking = "string \<Rightarrow> nat"

definition weight_from :: "petri_arc list \<Rightarrow> marking" where
  "weight_from arcs p = sum_list (map arc_weight (filter (\<lambda>a. arc_source a = p) arcs))"

definition weight_to :: "petri_arc list \<Rightarrow> marking" where
  "weight_to arcs p = sum_list (map arc_weight (filter (\<lambda>a. arc_target a = p) arcs))"

definition input_weight :: "petri_net \<Rightarrow> transition \<Rightarrow> marking" where
  "input_weight net t = weight_from (filter (\<lambda>a. arc_target a = tr_id t) (net_arcs net))"

definition output_weight :: "petri_net \<Rightarrow> transition \<Rightarrow> marking" where
  "output_weight net t = weight_to (filter (\<lambda>a. arc_source a = tr_id t) (net_arcs net))"

definition place_ids :: "petri_net \<Rightarrow> string list" where
  "place_ids net = map pl_id (net_places net)"

definition fireable :: "petri_net \<Rightarrow> transition \<Rightarrow> marking \<Rightarrow> bool" where
  "fireable net t m \<longleftrightarrow> (\<forall>p \<in> set (place_ids net). input_weight net t p \<le> m p)"

fun firing :: "petri_net \<Rightarrow> string list \<Rightarrow> marking \<Rightarrow> marking option" where
  "firing net [] m = Some m"
| "firing net (label # labels) m = (case find (\<lambda>t. tr_label t = Some label) (net_transitions net) of
     None \<Rightarrow> None
   | Some t \<Rightarrow> if fireable net t m
       then firing net labels (\<lambda>p. m p - input_weight net t p + output_weight net t p) else None)"

definition initial_marking :: "petri_net \<Rightarrow> marking" where
  "initial_marking net p = sum_list (map pl_initial_tokens (filter (\<lambda>pl. pl_id pl = p) (net_places net)))"

definition arc_weights :: "petri_net \<Rightarrow> nat" where
  "arc_weights net = sum_list (map arc_weight (net_arcs net))"

lemma u64_wrapping_add_small: "a + b < 2 ^ 64 \<Longrightarrow> u64_wrapping_add a b = a + b"
  by (simp add: u64_wrapping_add_def)

lemma weight_from_Cons: "weight_from (a # arcs) p = (if arc_source a = p then arc_weight a else 0) + weight_from arcs p"
  by (simp add: weight_from_def)

lemma weight_to_Cons: "weight_to (a # arcs) p = (if arc_target a = p then arc_weight a else 0) + weight_to arcs p"
  by (simp add: weight_to_def)

lemma output_weight_le: "output_weight net t p \<le> arc_weights net"
  unfolding output_weight_def weight_to_def arc_weights_def filter_filter by (rule sum_list_filter_le)

text \<open>Tokens: a search tree whose keys are the places.\<close>

definition tokens_of :: "string set \<Rightarrow> tokens \<Rightarrow> marking \<Rightarrow> bool" where
  "tokens_of K tokens m \<longleftrightarrow> bt_inv tokens \<and> (\<forall>p. bt_get tokens p = (if p \<in> K then Some (m p) else None))"

lemma tokens_of_count: "tokens_of K tokens m \<Longrightarrow> p \<in> K \<Longrightarrow> token_count tokens p = m p"
  by (simp add: tokens_of_def token_count_def)

lemma tokens_of_insert: "tokens_of K tokens m \<Longrightarrow> p \<in> K \<Longrightarrow> tokens_of K (bt_insert p n tokens) (m(p := n))"
  by (auto simp: tokens_of_def bt_inv_insert bt_get_insert)

lemma tokens_of_cong: "tokens_of K tokens m \<Longrightarrow> (\<And>p. p \<in> K \<Longrightarrow> m p = m' p) \<Longrightarrow> tokens_of K tokens m'"
  by (simp add: tokens_of_def)

lemma consume_fold:
  assumes "tokens_of K tokens m" "\<forall>a \<in> set arcs. arc_source a \<in> K" "\<forall>p \<in> K. weight_from arcs p \<le> m p"
  shows "\<exists>tokens' r'. fold consume_arc arcs (tokens, r) = (tokens', r') \<and> tokens_of K tokens' (\<lambda>p. m p - weight_from arcs p) \<and>
    rp_missing r' = rp_missing r \<and> rp_log_moves r' = rp_log_moves r \<and> rp_remaining r' = rp_remaining r"
  using assms
proof (induction arcs arbitrary: tokens m r)
  case (Cons a arcs)
  define p where "p = arc_source a"
  have p: "p \<in> K" "arc_weight a \<le> m p" using Cons.prems(2,3) by (auto simp: p_def weight_from_Cons)
  have rest: "\<forall>q \<in> K. weight_from arcs q \<le> (m(p := m p - arc_weight a)) q"
    using Cons.prems(3) p(2) by (fastforce simp: weight_from_Cons p_def)
  have step: "consume_arc a (tokens, r) = (bt_insert p (m p - arc_weight a) tokens,
      r\<lparr>rp_consumed := u64_wrapping_add (rp_consumed r) (arc_weight a)\<rparr>)"
    using tokens_of_count [OF Cons.prems(1) p(1)] p(2) by (simp add: consume_arc_def p_def u64_wrapping_sub_def)
  show ?case
    using Cons.IH [OF tokens_of_insert [OF Cons.prems(1) p(1)] _ rest,
        of "r\<lparr>rp_consumed := u64_wrapping_add (rp_consumed r) (arc_weight a)\<rparr>"] Cons.prems(2) step
    by (auto simp: weight_from_Cons p_def elim!: tokens_of_cong)
qed (simp add: weight_from_def)

lemma produce_fold:
  assumes "tokens_of K tokens m" "\<forall>p \<in> K. m p + weight_to arcs p < 2 ^ 64"
  shows "\<exists>tokens' r'. fold produce_arc arcs (tokens, r) = (tokens', r') \<and> tokens_of K tokens' (\<lambda>p. m p + weight_to arcs p) \<and>
    rp_missing r' = rp_missing r \<and> rp_log_moves r' = rp_log_moves r \<and> rp_remaining r' = rp_remaining r"
  using assms
proof (induction arcs arbitrary: tokens m r)
  case (Cons a arcs)
  define p where "p = arc_target a"
  show ?case
  proof (cases "p \<in> K")
    case False
    then have "produce_arc a (tokens, r) = (tokens, r)" using Cons.prems(1) by (simp add: produce_arc_def tokens_of_def p_def)
    moreover have "\<forall>q \<in> K. weight_to (a # arcs) q = weight_to arcs q" using False by (auto simp: weight_to_Cons p_def)
    ultimately show ?thesis using Cons.IH [OF Cons.prems(1)] Cons.prems(2) by (fastforce elim!: tokens_of_cong)
  next
    case True
    have get: "bt_get tokens p = Some (m p)" using True Cons.prems(1) by (simp add: tokens_of_def)
    have "m p + arc_weight a < 2 ^ 64" using Cons.prems(2) True by (fastforce simp: weight_to_Cons p_def)
    then have step: "produce_arc a (tokens, r) = (bt_insert p (m p + arc_weight a) tokens,
        r\<lparr>rp_produced := u64_wrapping_add (rp_produced r) (arc_weight a)\<rparr>)"
      using get by (simp add: produce_arc_def p_def u64_wrapping_add_small)
    have "\<forall>q \<in> K. (m(p := m p + arc_weight a)) q + weight_to arcs q < 2 ^ 64"
      using Cons.prems(2) by (fastforce simp: weight_to_Cons p_def)
    then show ?thesis
      using Cons.IH [OF tokens_of_insert [OF Cons.prems(1) True], of "m p + arc_weight a" "r\<lparr>rp_produced := u64_wrapping_add (rp_produced r) (arc_weight a)\<rparr>"] step
      by (auto simp: weight_to_Cons p_def elim!: tokens_of_cong)
  qed
qed (simp add: weight_to_def)

text \<open>Supplying missing tokens: the counter of missing tokens grows as soon as one arc is short.\<close>

lemma supply_fold:
  assumes "rp_missing r + sum_list (map arc_weight arcs) < 2 ^ 64"
  shows "\<exists>tokens' r'. fold supply_arc arcs (tokens, r) = (tokens', r') \<and> rp_missing r \<le> rp_missing r' \<and>
    rp_missing r' \<le> rp_missing r + sum_list (map arc_weight arcs) \<and> rp_log_moves r' = rp_log_moves r \<and>
    ((\<exists>a \<in> set arcs. token_count tokens (arc_source a) < arc_weight a) \<longrightarrow> rp_missing r < rp_missing r')"
  using assms
proof (induction arcs arbitrary: tokens r)
  case (Cons a arcs)
  define p where "p = arc_source a"
  show ?case
  proof (cases "token_count tokens p < arc_weight a")
    case False
    then have "supply_arc a (tokens, r) = (tokens, r)" by (simp add: supply_arc_def p_def)
    then show ?thesis using Cons.IH [of r tokens] Cons.prems False by (fastforce simp: p_def)
  next
    case True
    define missing where "missing = arc_weight a - token_count tokens p"
    have m: "0 < missing" "missing \<le> arc_weight a" using True by (simp_all add: missing_def)
    have step: "supply_arc a (tokens, r) = (bt_insert p (u64_wrapping_add (token_count tokens p) missing) tokens,
        r\<lparr>rp_missing := rp_missing r + missing\<rparr>)"
      using True Cons.prems m by (simp add: supply_arc_def p_def missing_def u64_wrapping_add_small)
    show ?thesis
      using Cons.IH [of "r\<lparr>rp_missing := rp_missing r + missing\<rparr>" "bt_insert p (u64_wrapping_add (token_count tokens p) missing) tokens"]
        Cons.prems m step by auto
  qed
qed simp

lemma consume_counters: "rp_missing (snd (fold consume_arc arcs s)) = rp_missing (snd s)"
  "rp_log_moves (snd (fold consume_arc arcs s)) = rp_log_moves (snd s)"
  by (induction arcs arbitrary: s) (auto simp: consume_arc_def split: prod.splits)

lemma produce_counters: "rp_missing (snd (fold produce_arc arcs s)) = rp_missing (snd s)"
  "rp_log_moves (snd (fold produce_arc arcs s)) = rp_log_moves (snd s)"
  by (induction arcs arbitrary: s) (auto simp: produce_arc_def split: prod.splits option.splits)

lemma incoming_weights: "sum_list (map arc_weight (incoming_arcs net t tokens)) \<le> arc_weights net"
  unfolding incoming_arcs_def arc_weights_def by (rule sum_list_filter_le)

lemma replay_event_counters:
  assumes "rp_missing r + arc_weights net < 2 ^ 64" "rp_log_moves r + 1 < 2 ^ 64"
  shows "rp_missing r \<le> rp_missing (snd (replay_event net ev (tokens, r)))"
    "rp_missing (snd (replay_event net ev (tokens, r))) \<le> rp_missing r + arc_weights net"
    "rp_log_moves r \<le> rp_log_moves (snd (replay_event net ev (tokens, r)))"
    "rp_log_moves (snd (replay_event net ev (tokens, r))) \<le> rp_log_moves r + 1"
proof -
  have sup: "rp_missing r \<le> rp_missing (snd (fold supply_arc (incoming_arcs net t tokens) (tokens, r))) \<and>
    rp_missing (snd (fold supply_arc (incoming_arcs net t tokens) (tokens, r))) \<le> rp_missing r + arc_weights net \<and>
    rp_log_moves (snd (fold supply_arc (incoming_arcs net t tokens) (tokens, r))) = rp_log_moves r" for t
    using supply_fold [of r "incoming_arcs net t tokens" tokens] assms(1) incoming_weights [of net t tokens] by auto
  show "rp_missing r \<le> rp_missing (snd (replay_event net ev (tokens, r)))"
    "rp_missing (snd (replay_event net ev (tokens, r))) \<le> rp_missing r + arc_weights net"
    "rp_log_moves r \<le> rp_log_moves (snd (replay_event net ev (tokens, r)))"
    "rp_log_moves (snd (replay_event net ev (tokens, r))) \<le> rp_log_moves r + 1"
    using sup assms(2)
    by (auto simp: replay_event_def Let_def consume_counters produce_counters u64_wrapping_add_small split: option.split)
qed

text \<open>With one arc between a place and a transition at most, the guard of the code is the firing rule.\<close>

lemma incoming_enabled:
  assumes T: "tokens_of (set (place_ids net)) tokens m" and D: "distinct (map (\<lambda>a. (arc_source a, arc_target a)) (net_arcs net))"
  shows "(\<forall>a \<in> set (incoming_arcs net t tokens). arc_weight a \<le> token_count tokens (arc_source a)) \<longleftrightarrow> fireable net t m"
    "p \<in> set (place_ids net) \<Longrightarrow> weight_from (incoming_arcs net t tokens) p = input_weight net t p"
proof -
  have inc: "incoming_arcs net t tokens = filter (\<lambda>a. arc_target a = tr_id t \<and> arc_source a \<in> set (place_ids net)) (net_arcs net)"
    unfolding incoming_arcs_def using T by (intro filter_cong) (auto simp: tokens_of_def)
  show eq: "weight_from (incoming_arcs net t tokens) p = input_weight net t p" if "p \<in> set (place_ids net)" for p
    unfolding weight_from_def input_weight_def inc filter_filter using that by (intro arg_cong [of _ _ "\<lambda>l. sum_list (map arc_weight l)"] filter_cong) auto
  have none: "weight_from arcs p = 0" if "\<forall>a \<in> set arcs. arc_source a \<noteq> p" for arcs p
    using that by (simp add: weight_from_def filter_empty_conv)
  have single: "weight_from arcs p = arc_weight a"
    if "distinct (map arc_source arcs)" "a \<in> set arcs" "arc_source a = p" for arcs a p
    using that
  proof (induction arcs)
    case (Cons x arcs)
    show ?case
    proof (cases "x = a")
      case True
      then have "weight_from arcs p = 0" using Cons.prems by (intro none) (auto simp: image_iff)
      then show ?thesis using True Cons.prems(3) by (simp add: weight_from_Cons)
    next
      case False
      then have "a \<in> set arcs" "arc_source x \<noteq> p" using Cons.prems by auto
      then show ?thesis using Cons.IH Cons.prems by (simp add: weight_from_Cons)
    qed
  qed simp
  have dist: "distinct (map arc_source (incoming_arcs net t tokens))"
    using D unfolding inc by (auto simp: distinct_map inj_on_def)
  show "(\<forall>a \<in> set (incoming_arcs net t tokens). arc_weight a \<le> token_count tokens (arc_source a)) \<longleftrightarrow> fireable net t m"
  proof
    assume en: "\<forall>a \<in> set (incoming_arcs net t tokens). arc_weight a \<le> token_count tokens (arc_source a)"
    show "fireable net t m" unfolding fireable_def
    proof
      fix p assume p: "p \<in> set (place_ids net)"
      show "input_weight net t p \<le> m p"
      proof (cases "\<exists>a \<in> set (incoming_arcs net t tokens). arc_source a = p")
        case True
        then show ?thesis using en single [OF dist] eq [OF p] tokens_of_count [OF T p] by force
      next
        case False
        then show ?thesis using none [of "incoming_arcs net t tokens" p] eq [OF p] by auto
      qed
    qed
  next
    assume f: "fireable net t m"
    show "\<forall>a \<in> set (incoming_arcs net t tokens). arc_weight a \<le> token_count tokens (arc_source a)"
    proof
      fix a assume a: "a \<in> set (incoming_arcs net t tokens)"
      then have p: "arc_source a \<in> set (place_ids net)" by (simp add: inc)
      then show "arc_weight a \<le> token_count tokens (arc_source a)"
        using f single [OF dist a refl] eq [OF p] tokens_of_count [OF T p] by (metis fireable_def)
    qed
  qed
qed

lemma replay_event_fires:
  assumes T: "tokens_of (set (place_ids net)) tokens m" and D: "distinct (map (\<lambda>a. (arc_source a, arc_target a)) (net_arcs net))"
    and t: "find (\<lambda>t. tr_label t = Some (ev_activity ev)) (net_transitions net) = Some t" and f: "fireable net t m"
    and b: "\<forall>p \<in> set (place_ids net). m p + arc_weights net < 2 ^ 64"
  shows "\<exists>tokens' r'. replay_event net ev (tokens, r) = (tokens', r') \<and>
    tokens_of (set (place_ids net)) tokens' (\<lambda>p. m p - input_weight net t p + output_weight net t p) \<and>
    rp_missing r' = rp_missing r \<and> rp_log_moves r' = rp_log_moves r \<and> rp_remaining r' = rp_remaining r"
proof -
  note en = incoming_enabled [OF T D]
  have le: "\<forall>p \<in> set (place_ids net). weight_from (incoming_arcs net t tokens) p \<le> m p"
    using f en(2) by (simp add: fireable_def)
  have src: "\<forall>a \<in> set (incoming_arcs net t tokens). arc_source a \<in> set (place_ids net)"
    using T by (auto simp: incoming_arcs_def tokens_of_def split: if_splits)
  obtain tokens1 r1 where c: "fold consume_arc (incoming_arcs net t tokens) (tokens, r) = (tokens1, r1)"
    "tokens_of (set (place_ids net)) tokens1 (\<lambda>p. m p - weight_from (incoming_arcs net t tokens) p)"
    "rp_missing r1 = rp_missing r" "rp_log_moves r1 = rp_log_moves r" "rp_remaining r1 = rp_remaining r"
    using consume_fold [OF T src le] by blast
  have T1: "tokens_of (set (place_ids net)) tokens1 (\<lambda>p. m p - input_weight net t p)"
    using c(2) by (rule tokens_of_cong) (simp add: en(2))
  have "m p - input_weight net t p + output_weight net t p < 2 ^ 64" if "p \<in> set (place_ids net)" for p
    using b [rule_format, OF that] output_weight_le [of net t p] by linarith
  then show ?thesis
    using produce_fold [OF T1, of "filter (\<lambda>a. arc_source a = tr_id t) (net_arcs net)" r1] c f en(1) [of t]
    by (simp add: replay_event_def t Let_def output_weight_def)
qed

lemma replay_event_deviates:
  assumes T: "tokens_of (set (place_ids net)) tokens m" and D: "distinct (map (\<lambda>a. (arc_source a, arc_target a)) (net_arcs net))"
    and b: "rp_missing r + arc_weights net < 2 ^ 64" "rp_log_moves r + 1 < 2 ^ 64"
    and f: "firing net [ev_activity ev] m = None"
  shows "rp_missing r + rp_log_moves r < rp_missing (snd (replay_event net ev (tokens, r))) + rp_log_moves (snd (replay_event net ev (tokens, r)))"
proof (cases "find (\<lambda>t. tr_label t = Some (ev_activity ev)) (net_transitions net)")
  case None
  then show ?thesis using b(2) by (simp add: replay_event_def u64_wrapping_add_small)
next
  case (Some t)
  then have "\<not> fireable net t m" using f by (simp split: if_splits)
  then have short: "\<exists>a \<in> set (incoming_arcs net t tokens). token_count tokens (arc_source a) < arc_weight a"
    using incoming_enabled(1) [OF T D, of t] by (auto simp: not_le)
  have "rp_missing r + sum_list (map arc_weight (incoming_arcs net t tokens)) < 2 ^ 64"
    using incoming_weights [of net t tokens] b(1) by linarith
  from supply_fold [OF this, of tokens] short obtain tokens' r' where
    s: "fold supply_arc (incoming_arcs net t tokens) (tokens, r) = (tokens', r')" "rp_missing r < rp_missing r'" "rp_log_moves r' = rp_log_moves r"
    by blast
  have "\<not> (\<forall>a \<in> set (incoming_arcs net t tokens). arc_weight a \<le> token_count tokens (arc_source a))"
    using short by (auto simp: not_le)
  then show ?thesis using s Some unfolding replay_event_def Let_def
    by (simp add: consume_counters produce_counters del: ball_simps)
qed

lemma replay_fold_counters:
  assumes "rp_missing (snd s) + length evs * arc_weights net < 2 ^ 64" "rp_log_moves (snd s) + length evs < 2 ^ 64"
  shows "rp_missing (snd s) \<le> rp_missing (snd (fold (replay_event net) evs s)) \<and> rp_log_moves (snd s) \<le> rp_log_moves (snd (fold (replay_event net) evs s))"
  using assms
proof (induction evs arbitrary: s)
  case (Cons ev evs)
  obtain tokens r where s: "s = (tokens, r)" by (cases s)
  have "rp_missing r + arc_weights net < 2 ^ 64" "rp_log_moves r + 1 < 2 ^ 64" using Cons.prems by (simp_all add: s)
  note c = replay_event_counters [OF this, of ev tokens]
  have "rp_missing (snd (replay_event net ev s)) + length evs * arc_weights net < 2 ^ 64" using c(2) Cons.prems(1) by (simp add: s)
  moreover have "rp_log_moves (snd (replay_event net ev s)) + length evs < 2 ^ 64" using c(4) Cons.prems(2) by (simp add: s)
  ultimately show ?case using Cons.IH [of "replay_event net ev s"] c(1,3) by (simp add: s)
qed simp

lemma firing_Cons: "firing net (l # ls) m = Option.bind (firing net [l] m) (firing net ls)"
  by (simp split: option.split)

lemma replay_fold_firing:
  assumes D: "distinct (map (\<lambda>a. (arc_source a, arc_target a)) (net_arcs net))"
    and "tokens_of (set (place_ids net)) tokens m" "\<forall>p \<in> set (place_ids net). m p + length evs * arc_weights net < 2 ^ 64"
    "rp_missing r + length evs * arc_weights net < 2 ^ 64" "rp_log_moves r + length evs < 2 ^ 64"
  shows "case firing net (map ev_activity evs) m of
      None \<Rightarrow> rp_missing r + rp_log_moves r < rp_missing (snd (fold (replay_event net) evs (tokens, r))) + rp_log_moves (snd (fold (replay_event net) evs (tokens, r)))
    | Some m' \<Rightarrow> \<exists>tokens' r'. fold (replay_event net) evs (tokens, r) = (tokens', r') \<and> tokens_of (set (place_ids net)) tokens' m' \<and>
        rp_missing r' = rp_missing r \<and> rp_log_moves r' = rp_log_moves r \<and> rp_remaining r' = rp_remaining r \<and>
        (\<forall>p \<in> set (place_ids net). m' p \<le> m p + length evs * arc_weights net)"
  using assms(2-)
proof (induction evs arbitrary: tokens m r)
  case (Cons ev evs)
  have b: "rp_missing r + arc_weights net < 2 ^ 64" "rp_log_moves r + 1 < 2 ^ 64" using Cons.prems(3,4) by simp_all
  show ?case
  proof (cases "firing net [ev_activity ev] m")
    case None
    note d = replay_event_deviates [OF Cons.prems(1) D b None] and c = replay_event_counters [OF b, of ev tokens]
    have "rp_missing (snd (replay_event net ev (tokens, r))) + length evs * arc_weights net < 2 ^ 64"
      "rp_log_moves (snd (replay_event net ev (tokens, r))) + length evs < 2 ^ 64"
      using c(2,4) Cons.prems(3,4) by simp_all
    moreover have "firing net (map ev_activity (ev # evs)) m = None"
      using None unfolding list.map firing_Cons [of net "ev_activity ev" "map ev_activity evs"] by simp
    ultimately show ?thesis using replay_fold_counters [of "replay_event net ev (tokens, r)" evs net] d
      by (simp del: firing.simps)
  next
    case (Some m1)
    then obtain t where t: "find (\<lambda>t. tr_label t = Some (ev_activity ev)) (net_transitions net) = Some t" "fireable net t m"
      and m1: "m1 = (\<lambda>p. m p - input_weight net t p + output_weight net t p)" by (auto split: option.splits if_splits)
    have "\<forall>p \<in> set (place_ids net). m p + arc_weights net < 2 ^ 64" using Cons.prems(2) by auto
    from replay_event_fires [OF Cons.prems(1) D t this] obtain tokens1 r1 where
      e: "replay_event net ev (tokens, r) = (tokens1, r1)" "tokens_of (set (place_ids net)) tokens1 m1"
      "rp_missing r1 = rp_missing r" "rp_log_moves r1 = rp_log_moves r" "rp_remaining r1 = rp_remaining r" unfolding m1 by blast
    have le: "m1 p \<le> m p + arc_weights net" for p unfolding m1 using output_weight_le [of net t p] by linarith
    have m1b: "\<forall>p \<in> set (place_ids net). m1 p + length evs * arc_weights net < 2 ^ 64"
    proof
      fix p assume "p \<in> set (place_ids net)"
      then have "m p + length (ev # evs) * arc_weights net < 2 ^ 64" using Cons.prems(2) by blast
      then show "m1 p + length evs * arc_weights net < 2 ^ 64" using le [of p] by simp
    qed
    have fold: "fold (replay_event net) (ev # evs) (tokens, r) = fold (replay_event net) evs (tokens1, r1)" by (simp add: e(1))
    have fire: "firing net (map ev_activity (ev # evs)) m = firing net (map ev_activity evs) m1"
      using t by (simp add: m1)
    have "rp_missing r1 + length evs * arc_weights net < 2 ^ 64" "rp_log_moves r1 + length evs < 2 ^ 64"
      using Cons.prems(3,4) by (simp_all add: e(3,4))
    note IH = Cons.IH [OF e(2) m1b this]
    show ?thesis
    proof (cases "firing net (map ev_activity evs) m1")
      case None
      then show ?thesis using IH unfolding fold fire by (simp add: e(3,4))
    next
      case (Some m2)
      have "m2 p \<le> m p + length (ev # evs) * arc_weights net" if "m2 p \<le> m1 p + length evs * arc_weights net" for p
        using that le [of p] by simp
      then show ?thesis using IH Some unfolding fold fire by (auto simp: e(3-5))
    qed
  qed
qed simp

text \<open>The counters of a trace of \<open>n\<close> events stay within 64 bits.\<close>

definition replay_bounded :: "petri_net \<Rightarrow> nat \<Rightarrow> bool" where
  "replay_bounded net n \<longleftrightarrow> (length (net_places net) + 1) *
     (sum_list (map pl_initial_tokens (net_places net)) + n * (arc_weights net + 1) + sum_list (map pl_final_tokens (net_places net))) < 2 ^ 64"

lemma bt_of_list_get: "distinct (map fst ps) \<Longrightarrow> bt_get (bt_of_list ps) k = map_of ps k \<and> bt_inv (bt_of_list ps)"
proof (induction ps rule: rev_induct)
  case (snoc p ps)
  obtain a b where "p = (a, b)" by (cases p)
  moreover have "map_of ps (fst p) = None" using snoc.prems by (simp add: map_of_eq_None_iff)
  ultimately have p: "bt_of_list (ps @ [p]) = bt_insert a b (bt_of_list ps)" "map_of (ps @ [p]) k = (if k = a then Some b else map_of ps k)"
    by (auto simp: bt_of_list_def map_add_def split: option.splits)
  then show ?case using snoc by (simp add: bt_get_insert bt_inv_insert)
qed (simp add: bt_of_list_def)

lemma initial_tokens_of:
  assumes "distinct (place_ids net)"
  shows "tokens_of (set (place_ids net)) (initial_tokens net) (initial_marking net)"
proof -
  have look: "map_of (map (\<lambda>p. (pl_id p, pl_initial_tokens p)) ps) q = (if q \<in> pl_id ` set ps
      then Some (sum_list (map pl_initial_tokens (filter (\<lambda>pl. pl_id pl = q) ps))) else None)" if "distinct (map pl_id ps)" for ps q
    using that
  proof (induction ps)
    case (Cons x ps)
    then have "filter (\<lambda>pl. pl_id pl = pl_id x) ps = []" by (auto simp: filter_empty_conv image_iff)
    then show ?case using Cons by auto
  qed simp
  have "distinct (map fst (map (\<lambda>p. (pl_id p, pl_initial_tokens p)) (net_places net)))"
    using assms by (simp add: place_ids_def comp_def)
  from bt_of_list_get [OF this] look [of "net_places net"] assms show ?thesis
    by (simp add: tokens_of_def initial_tokens_def initial_marking_def place_ids_def)
qed

lemma remaining_fold:
  assumes "\<forall>p \<in> set ps. abs_diff (f p) (pl_final_tokens p) \<le> B" "rp_remaining r + length ps * B < 2 ^ 64"
  defines "r' \<equiv> fold (\<lambda>p r. r\<lparr>rp_remaining := u64_wrapping_add (rp_remaining r) (abs_diff (f p) (pl_final_tokens p))\<rparr>) ps r"
  shows "rp_missing r' = rp_missing r \<and> rp_log_moves r' = rp_log_moves r \<and> rp_remaining r \<le> rp_remaining r' \<and>
    (rp_remaining r' = rp_remaining r \<longleftrightarrow> (\<forall>p \<in> set ps. f p = pl_final_tokens p))"
  using assms(1,2) unfolding r'_def
proof (induction ps arbitrary: r)
  case (Cons p ps)
  define d where "d = abs_diff (f p) (pl_final_tokens p)"
  have d: "d \<le> B" "d = 0 \<longleftrightarrow> f p = pl_final_tokens p" using Cons.prems(1) by (auto simp: d_def abs_diff_def)
  have step: "u64_wrapping_add (rp_remaining r) d = rp_remaining r + d" using Cons.prems(2) d(1) by (simp add: u64_wrapping_add_small)
  show ?case
    using Cons.IH [of "r\<lparr>rp_remaining := rp_remaining r + d\<rparr>"] Cons.prems d(2) d(1) by (auto simp: step d_def [symmetric])
qed simp

lemma remaining_counters:
  "rp_missing (fold (\<lambda>p r. r\<lparr>rp_remaining := f p r\<rparr>) ps r) = rp_missing r"
  "rp_log_moves (fold (\<lambda>p r. r\<lparr>rp_remaining := f p r\<rparr>) ps r) = rp_log_moves r"
  by (induction ps arbitrary: r) simp_all

lemma member_le_sum: "x \<in> set xs \<Longrightarrow> f x \<le> (sum_list (map f xs) :: nat)"
  by (simp add: member_le_sum_list)

lemma initial_marking_le: "initial_marking net p \<le> sum_list (map pl_initial_tokens (net_places net))"
  unfolding initial_marking_def by (rule sum_list_filter_le)

lemma replay_default_zero: "rp_missing replay_default = 0" "rp_log_moves replay_default = 0" "rp_remaining replay_default = 0"
  by (simp_all add: replay_default_def)

lemma replay_trace_decides:
  assumes D: "distinct (place_ids net)" "distinct (map (\<lambda>a. (arc_source a, arc_target a)) (net_arcs net))"
    and B: "replay_bounded net (length (pe_events e))"
  shows "rp_log_moves (replay_trace net e) = 0 \<and> rp_missing (replay_trace net e) = 0 \<and> rp_remaining (replay_trace net e) = 0 \<longleftrightarrow>
    (\<exists>m. firing net (activity_path e) (initial_marking net) = Some m \<and> (\<forall>p \<in> set (net_places net). m (pl_id p) = pl_final_tokens p))"
proof -
  define n where "n = length (pe_events e)"
  define C where "C = sum_list (map pl_initial_tokens (net_places net)) + n * (arc_weights net + 1) + sum_list (map pl_final_tokens (net_places net))"
  have CB: "(length (net_places net) + 1) * C < 2 ^ 64" using B by (simp add: replay_bounded_def C_def n_def)
  then have "C + length (net_places net) * C < 2 ^ 64" by simp
  then have C1: "C < 2 ^ 64" by linarith
  have nC: "n * arc_weights net \<le> C" "n \<le> C" by (simp_all add: C_def)
  have init: "initial_marking net p + n * arc_weights net \<le> C" for p
    using initial_marking_le [of net p] by (simp add: C_def)
  obtain tokens r where fold: "fold (replay_event net) (pe_events e) (initial_tokens net, replay_default) = (tokens, r)" by fastforce
  have trace: "replay_trace net e = fold (\<lambda>p r. r\<lparr>rp_remaining :=
      u64_wrapping_add (rp_remaining r) (abs_diff (token_count tokens (pl_id p)) (pl_final_tokens p))\<rparr>) (net_places net) r"
    by (simp add: replay_trace_def fold)
  have F: "case firing net (activity_path e) (initial_marking net) of None \<Rightarrow> 0 < rp_missing r + rp_log_moves r
    | Some m \<Rightarrow> tokens_of (set (place_ids net)) tokens m \<and> rp_missing r = 0 \<and> rp_log_moves r = 0 \<and> rp_remaining r = 0 \<and>
        (\<forall>p \<in> set (place_ids net). m p \<le> initial_marking net p + n * arc_weights net)"
  proof -
    have "\<forall>p \<in> set (place_ids net). initial_marking net p + length (pe_events e) * arc_weights net < 2 ^ 64"
      using init C1 unfolding n_def by (meson le_less_trans)
    moreover have "rp_missing replay_default + length (pe_events e) * arc_weights net < 2 ^ 64"
      "rp_log_moves replay_default + length (pe_events e) < 2 ^ 64"
      using nC C1 by (simp_all add: replay_default_def n_def)
    ultimately show ?thesis
      using replay_fold_firing [OF D(2) initial_tokens_of [OF D(1)], of "pe_events e" replay_default]
      by (auto simp: fold replay_default_zero n_def activity_path_def split: option.splits)
  qed
  show ?thesis
  proof (cases "firing net (activity_path e) (initial_marking net)")
    case None
    then show ?thesis using F by (auto simp: trace remaining_counters)
  next
    case (Some m)
    have T: "tokens_of (set (place_ids net)) tokens m" and zero: "rp_missing r = 0" "rp_log_moves r = 0" "rp_remaining r = 0"
      and le: "\<forall>p \<in> set (place_ids net). m p \<le> initial_marking net p + n * arc_weights net" using F Some by auto
    have count: "token_count tokens (pl_id p) = m (pl_id p)" if "p \<in> set (net_places net)" for p
      using tokens_of_count [OF T] that by (simp add: place_ids_def)
    have "abs_diff (m (pl_id p)) (pl_final_tokens p) \<le> C" if p: "p \<in> set (net_places net)" for p
    proof -
      have "m (pl_id p) \<le> C" using le p init [of "pl_id p"] by (fastforce simp: place_ids_def intro: le_trans)
      moreover have "pl_final_tokens p \<le> C" using member_le_sum [OF p, of pl_final_tokens] by (simp add: C_def)
      ultimately show ?thesis unfolding abs_diff_def by auto
    qed
    then show ?thesis
      using remaining_fold [of "net_places net" "\<lambda>p. token_count tokens (pl_id p)" C r] zero Some CB
      by (simp add: trace count)
  qed
qed

section \<open>Firing sequences\<close>

text \<open>
  The token game itself, independent of the choice the replay makes: any enabled transition of the net may
  fire, those without a label unseen. A net plays a trace when some firing sequence from the initial to the
  final marking has the trace for its visible labels.
\<close>

inductive fires :: "petri_net \<Rightarrow> marking \<Rightarrow> transition list \<Rightarrow> marking \<Rightarrow> bool" for net where
  fires_done: "fires net m [] m"
| fires_step: "t \<in> set (net_transitions net) \<Longrightarrow> fireable net t m \<Longrightarrow>
    fires net (\<lambda>p. m p - input_weight net t p + output_weight net t p) ts m' \<Longrightarrow> fires net m (t # ts) m'"

definition plays :: "petri_net \<Rightarrow> string list \<Rightarrow> bool" where
  "plays net trace \<longleftrightarrow> (\<exists>ts m. fires net (initial_marking net) ts m \<and> List.map_filter tr_label ts = trace \<and>
     (\<forall>p \<in> set (net_places net). m (pl_id p) = pl_final_tokens p))"

definition clear_labels :: "petri_net \<Rightarrow> bool" where
  "clear_labels net \<longleftrightarrow> distinct (map tr_label (net_transitions net)) \<and> (\<forall>t \<in> set (net_transitions net). tr_label t \<noteq> None)"

lemma firing_fires:
  "firing net labels m = Some m' \<Longrightarrow> \<exists>ts. fires net m ts m' \<and> List.map_filter tr_label ts = labels"
proof (induction net labels m rule: firing.induct)
  case (1 net m)
  then show ?case by (intro exI [of _ "[]"]) (simp add: fires_done map_filter_simps)
next
  case (2 net label labels m)
  then obtain t where t: "find (\<lambda>t. tr_label t = Some label) (net_transitions net) = Some t" "fireable net t m"
    and rest: "firing net labels (\<lambda>p. m p - input_weight net t p + output_weight net t p) = Some m'"
    by (auto split: option.splits if_splits)
  obtain ts where ts: "fires net (\<lambda>p. m p - input_weight net t p + output_weight net t p) ts m'"
    "List.map_filter tr_label ts = labels" using "2.IH" [OF t rest] by blast
  have "t \<in> set (net_transitions net)" "tr_label t = Some label" using t(1) by (auto simp: find_Some_iff)
  then show ?case using t(2) ts by (intro exI [of _ "t # ts"]) (simp add: fires_step map_filter_simps)
qed

lemma fires_firing:
  assumes "fires net m ts m'" and "clear_labels net"
  shows "firing net (List.map_filter tr_label ts) m = Some m'"
  using assms(1)
proof (induction rule: fires.induct)
  case (fires_step t m ts m')
  obtain label where l: "tr_label t = Some label" using fires_step.hyps(1) assms(2) by (auto simp: clear_labels_def)
  have "s = t" if "s \<in> set (net_transitions net)" "tr_label s = Some label" for s
  proof (rule inj_onD)
    show "inj_on tr_label (set (net_transitions net))" using assms(2) by (simp add: clear_labels_def distinct_map)
  qed (use that l fires_step.hyps(1) in simp_all)
  moreover have "\<exists>s. find (\<lambda>t. tr_label t = Some label) (net_transitions net) = Some s"
    using fires_step.hyps(1) l by (cases "find (\<lambda>t. tr_label t = Some label) (net_transitions net)") (auto simp: find_None_iff)
  ultimately have "find (\<lambda>t. tr_label t = Some label) (net_transitions net) = Some t"
    by (metis (mono_tags, lifting) find_Some_iff nth_mem)
  then show ?case using l fires_step by (simp add: map_filter_simps)
qed (simp add: map_filter_simps)

lemma firing_plays:
  "\<exists>m. firing net trace (initial_marking net) = Some m \<and> (\<forall>p \<in> set (net_places net). m (pl_id p) = pl_final_tokens p)
    \<Longrightarrow> plays net trace"
  "plays net trace \<Longrightarrow> clear_labels net \<Longrightarrow>
    \<exists>m. firing net trace (initial_marking net) = Some m \<and> (\<forall>p \<in> set (net_places net). m (pl_id p) = pl_final_tokens p)"
  using firing_fires fires_firing unfolding plays_def by blast+

section \<open>Properties\<close>

text \<open>
  C18: for a net with distinct places and at most one arc between a place and a transition, and counters
  that fit 64 bits, a trace that replays with no log move, no missing and no remaining token is the visible
  part of a firing sequence from the initial to the final marking; and when every transition has a label of
  its own, every such trace replays so. (Without that, the code may take a transition that is not enabled
  although another one with the label is, and it never fires a silent one.)
\<close>

theorem token_replay_decides:
  assumes "distinct (place_ids net)" "distinct (map (\<lambda>a. (arc_source a, arc_target a)) (net_arcs net))"
    and "replay_bounded net (length (pe_events e))"
  shows "(rp_log_moves (replay_trace net e) = 0 \<and> rp_missing (replay_trace net e) = 0 \<and> rp_remaining (replay_trace net e) = 0 \<longrightarrow>
      plays net (activity_path e)) \<and>
    (clear_labels net \<longrightarrow> plays net (activity_path e) \<longrightarrow>
      rp_log_moves (replay_trace net e) = 0 \<and> rp_missing (replay_trace net e) = 0 \<and> rp_remaining (replay_trace net e) = 0)"
  using replay_trace_decides [OF assms] firing_plays [of net "activity_path e"] by blast

text \<open>A net that pays once: from the place \<open>i\<close> to the place \<open>o\<close>.\<close>

definition pay_net :: petri_net where
  "pay_net = \<lparr>net_places = [\<lparr>pl_id = ''i'', pl_initial_tokens = 1, pl_final_tokens = 0\<rparr>, \<lparr>pl_id = ''o'', pl_initial_tokens = 0, pl_final_tokens = 1\<rparr>],
     net_transitions = [\<lparr>tr_id = ''t'', tr_label = Some ''pay''\<rparr>],
     net_arcs = [\<lparr>arc_source = ''i'', arc_target = ''t'', arc_weight = 1, arc_object_type = None, arc_variable = False\<rparr>,
       \<lparr>arc_source = ''t'', arc_target = ''o'', arc_weight = 1, arc_object_type = None, arc_variable = False\<rparr>]\<rparr>"

lemma pay_net_checks: "distinct (place_ids pay_net)" "distinct (map (\<lambda>a. (arc_source a, arc_target a)) (net_arcs pay_net))"
  "n \<le> 2 \<Longrightarrow> replay_bounded pay_net n" "clear_labels pay_net"
  by (simp_all add: pay_net_def place_ids_def replay_bounded_def arc_weights_def clear_labels_def)

theorem token_replay_decides_witness:
  "plays pay_net [''pay''] \<and> \<not> plays pay_net [''pay'', ''pay'']"
proof
  have path: "activity_path (path_execution p) = p" for p
    by (simp add: activity_path_def path_execution_def sample_event_def comp_def)
  have "rp_log_moves (replay_trace pay_net (path_execution [''pay''])) = 0 \<and>
      rp_missing (replay_trace pay_net (path_execution [''pay''])) = 0 \<and>
      rp_remaining (replay_trace pay_net (path_execution [''pay''])) = 0" by code_simp
  then show "plays pay_net [''pay'']"
    using token_replay_decides [OF pay_net_checks(1,2), of "path_execution [''pay'']"] pay_net_checks(3)
    by (simp add: path_execution_length path)
  have "rp_missing (replay_trace pay_net (path_execution [''pay'', ''pay''])) \<noteq> 0" by code_simp
  then show "\<not> plays pay_net [''pay'', ''pay'']"
    using token_replay_decides [OF pay_net_checks(1,2), of "path_execution [''pay'', ''pay'']"] pay_net_checks(3,4)
    by (simp add: path_execution_length path)
qed

text \<open>Two transitions with one label: the first listed is not enabled, the second is, and firing it ends
  in the final marking; the replay takes the first and reports a missing token.\<close>

definition twin_net :: petri_net where
  "twin_net = \<lparr>net_places = [\<lparr>pl_id = ''i'', pl_initial_tokens = 1, pl_final_tokens = 0\<rparr>, \<lparr>pl_id = ''j'', pl_initial_tokens = 0, pl_final_tokens = 0\<rparr>],
     net_transitions = [\<lparr>tr_id = ''s'', tr_label = Some ''pay''\<rparr>, \<lparr>tr_id = ''t'', tr_label = Some ''pay''\<rparr>],
     net_arcs = [\<lparr>arc_source = ''j'', arc_target = ''s'', arc_weight = 1, arc_object_type = None, arc_variable = False\<rparr>,
       \<lparr>arc_source = ''i'', arc_target = ''t'', arc_weight = 1, arc_object_type = None, arc_variable = False\<rparr>]\<rparr>"

lemma token_replay_first_listed:
  "plays twin_net [''pay''] \<and> rp_missing (replay_trace twin_net (path_execution [''pay''])) = 1"
proof
  let ?t = "\<lparr>tr_id = ''t'', tr_label = Some ''pay''\<rparr>"
  have "fires twin_net (initial_marking twin_net) [?t]
      (\<lambda>p. initial_marking twin_net p - input_weight twin_net ?t p + output_weight twin_net ?t p)"
    by (intro fires_step fires_done) (simp_all add: twin_net_def fireable_def place_ids_def initial_marking_def
        input_weight_def weight_from_def)
  then show "plays twin_net [''pay'']" unfolding plays_def
    by (intro exI conjI) (assumption, simp_all add: map_filter_simps twin_net_def initial_marking_def
        input_weight_def output_weight_def weight_from_def weight_to_def)
  show "rp_missing (replay_trace twin_net (path_execution [''pay''])) = 1" by code_simp
qed

end
