(* ===== verification/FloatOps.thy ===== *)
theory FloatOps
  imports Ieee64
begin

text \<open>
  The operations on \<open>f64\<close> that the prediction and the bottleneck crates use beside the arithmetic of \<open>Ieee64\<close>:
  \<open>max\<close>, \<open>min\<close>, \<open>abs\<close>, \<open>floor\<close>, \<open>round\<close> (half away from zero), sums of iterators, total comparison, and saturating
  casts to integers.
\<close>

definition f64_max :: "f64 \<Rightarrow> f64 \<Rightarrow> f64" where
  "f64_max x y = (if x = F_nan then y else if y = F_nan then x else if f64_lt x y then y else x)"

definition f64_min :: "f64 \<Rightarrow> f64 \<Rightarrow> f64" where
  "f64_min x y = (if x = F_nan then y else if y = F_nan then x else if f64_lt y x then y else x)"

fun f64_round_away :: "f64 \<Rightarrow> f64" where
  "f64_round_away (F_fin q) = (let r = (if 0 \<le> q then \<lfloor>q + 1 / 2\<rfloor> else \<lceil>q - 1 / 2\<rceil>) in
     if r = 0 \<and> q < 0 then F_negzero else F_fin (of_int r))"
| "f64_round_away x = x"

fun f64_floor :: "f64 \<Rightarrow> f64" where
  "f64_floor (F_fin q) = F_fin (of_int \<lfloor>q\<rfloor>)"
| "f64_floor x = x"

fun f64_abs :: "f64 \<Rightarrow> f64" where
  "f64_abs F_nan = F_nan"
| "f64_abs (F_inf s) = F_inf False"
| "f64_abs F_negzero = F_fin 0"
| "f64_abs (F_fin q) = F_fin \<bar>q\<bar>"

definition f64_sum :: "f64 list \<Rightarrow> f64" where
  "f64_sum xs = fold (\<lambda>x s. f64_add s x) xs F_negzero"

definition f64_total_le :: "f64 \<Rightarrow> f64 \<Rightarrow> bool" where
  "f64_total_le x y \<longleftrightarrow> \<not> f64_total_lt y x"

text \<open>\<open>as i128\<close> saturates and maps NaN to zero.\<close>

fun f64_to_i128 :: "f64 \<Rightarrow> int" where
  "f64_to_i128 (F_fin q) = max i128_min (min i128_max (if 0 \<le> q then \<lfloor>q\<rfloor> else \<lceil>q\<rceil>))"
| "f64_to_i128 (F_inf s) = (if s then i128_min else i128_max)"
| "f64_to_i128 F_nan = 0"
| "f64_to_i128 F_negzero = 0"

text \<open>Nanoseconds as seconds and back.\<close>

definition nanos_to_seconds :: "int \<Rightarrow> f64" where
  "nanos_to_seconds n = f64_div (f64_of_int n) (f64_of_nat 1000000000)"

definition seconds_to_nanos :: "f64 \<Rightarrow> int" where
  "seconds_to_nanos x = f64_to_i128 (f64_round_away (f64_mul x (f64_of_nat 1000000000)))"

text \<open>
  The square root: scaled so that the root of the integer part has more than 53 bits, then rounded once. A half marks an inexact
  root, which lies strictly between two neighbours of the scaled grid, where no rounding boundary is.
\<close>

fun isqrt :: "nat \<Rightarrow> nat" where
  "isqrt n = (if n = 0 then 0 else let r = 2 * isqrt (n div 4) in if (r + 1) * (r + 1) \<le> n then r + 1 else r)"

declare isqrt.simps [simp del]

definition f64_sqrt :: "f64 \<Rightarrow> f64" where
  "f64_sqrt x = (case x of F_nan \<Rightarrow> F_nan | F_inf s \<Rightarrow> if s then F_nan else F_inf False | F_negzero \<Rightarrow> F_negzero
   | F_fin q \<Rightarrow> if q < 0 then F_nan else if q = 0 then F_fin 0
       else let n = nat \<lfloor>q * 4 ^ 600\<rfloor>; r = isqrt n in
         if of_nat (r * r) = q * 4 ^ 600 then f64_round (of_nat r / 2 ^ 600)
         else f64_round ((of_nat r + 1 / 2) / 2 ^ 600))"

lemma isqrt_bounds: "isqrt n * isqrt n \<le> n \<and> n < (isqrt n + 1) * (isqrt n + 1)"
proof (induction n rule: isqrt.induct)
  case (1 n)
  show ?case
  proof (cases "n = 0")
    case False
    let ?s = "isqrt (n div 4)"
    have s: "?s * ?s \<le> n div 4" "n div 4 < (?s + 1) * (?s + 1)" using 1 [OF False] by auto
    then have "4 * (?s * ?s) \<le> n" "n < 4 * ((?s + 1) * (?s + 1))" by linarith+
    then show ?thesis by (subst (1 2 3 4) isqrt.simps) (auto simp: Let_def False algebra_simps)
  qed (simp add: isqrt.simps)
qed

section \<open>Positions in a list\<close>

text \<open>A position scaled by a probability stays within the list.\<close>

lemma scaled_position:
  assumes "n < 2 ^ 53" "0 \<le> q" "q \<le> 1"
  shows "\<exists>y. f64_mul (f64_of_nat n) (F_fin q) = F_fin y \<and> 0 \<le> y \<and> y \<le> of_nat n"
proof (cases "of_nat n * q = 0")
  case True
  then show ?thesis using assms by (auto simp: f64_of_nat_exact f64_mul_def f64_signed_zero_def)
next
  case False
  then have "n \<noteq> 0" "q \<noteq> 0" by auto
  then have pos: "0 < of_nat n * q" "0 < n" using assms(2) by simp_all
  have "of_nat n * q \<le> of_nat n * (1 :: rat)" using assms(3) by (rule mult_left_mono) simp
  then have "round_mag (of_nat n * q) \<le> round_mag (of_nat n)" by (intro round_mag_mono pos) simp
  then have "round_mag (of_nat n * q) \<le> of_nat n" using round_mag_nat_exact [OF pos(2) assms(1)] by simp
  moreover have "of_nat n < f64_limit"
  proof -
    have "(of_nat n :: rat) < of_nat (2 ^ 53)" using assms(1) by (simp only: of_nat_less_iff)
    also have "\<dots> < f64_limit" by (simp add: f64_limit_def)
    finally show ?thesis .
  qed
  moreover have "0 \<le> round_mag (of_nat n * q)" using pos by (intro round_mag_nonneg) simp
  ultimately show ?thesis using pos assms(1) by (auto simp: f64_of_nat_exact f64_mul_def f64_round_def Let_def)
qed

end
