(* ===== verification/Prediction.thy ===== *)
theory Prediction
  imports Kernels Provider FloatOps
begin

text \<open>
  Predictive monitoring: \<open>crates/ocpm-prediction/src/lib.rs\<close> and the prediction requests and results of
  \<open>crates/ocpm-core/src\<close>. Fitting counts what follows each suffix of a prefix, up to a maximum order; prediction
  backs off to the longest suffix with support. JSON texts, JSON values and the content hash come
  from the argument \<open>api\<close>, a record of the functions the code calls. \<open>None\<close> is a panic.
\<close>

section \<open>Data\<close>

datatype prediction_target = NextActivity | RemainingTime | Outcome | Risk

record numeric_summary =
  ns_support :: nat
  ns_mean :: f64
  ns_lower :: f64
  ns_upper :: f64

record binary_summary =
  bs_positive :: nat
  bs_total :: nat

record prediction_artifact =
  pa_schema_version :: string
  pa_target :: prediction_target
  pa_dataset_id :: string
  pa_maximum_order :: nat
  pa_feature_encoding :: string
  pa_next_counts :: "(string, (string, nat) btree_map) btree_map"
  pa_remaining :: "(string, numeric_summary) btree_map"
  pa_binary :: "(string, binary_summary) btree_map"
  pa_target_attribute :: "string option"
  pa_positive_value :: "attribute_value option"
  pa_content_hash :: string

record prediction_state =
  ps_event_ids :: "nat list"
  ps_object_ids :: "nat list"
  ps_activities :: "string list"
  ps_as_of :: timestamp
  ps_attributes :: attributes

record 'j prediction_request =
  pq_semantic_version :: string
  pq_view :: dataset_view
  pq_target :: prediction_target
  pq_state :: prediction_state
  pq_model_artifact :: "'j option"
  pq_parameters :: "(string, 'j) btree_map"

record 'j fit_prediction_request =
  fq_semantic_version :: string
  fq_view :: dataset_view
  fq_target :: prediction_target
  fq_parameters :: "(string, 'j) btree_map"
  fq_seed :: nat

record prediction_candidate =
  pc_label :: string
  pc_probability :: f64

record 'j prediction_result =
  pr_candidates :: "prediction_candidate list"
  pr_point_estimate_seconds :: "f64 option"
  pr_interval_seconds :: "(f64 \<times> f64) option"
  pr_backoff_level :: string
  pr_support :: nat
  pr_model_hash :: "string option"
  pr_diagnostics :: "(string, 'j) btree_map"

text \<open>
  The JSON library: the variants of a value that the code tells apart, the readers it calls, the
  texts it uses as keys, the reading of an artifact, and the values it builds for diagnostics.
\<close>

datatype json_shape = JsonNull | JsonString string | JsonBool bool | JsonNumber "int option" "f64 option" | JsonOther

record 'j json_api =
  js_shape :: "'j \<Rightarrow> json_shape"
  js_as_str :: "'j \<Rightarrow> string option"
  js_as_u64 :: "'j \<Rightarrow> nat option"
  js_activities_text :: "string list \<Rightarrow> string"
  js_tabular_text :: "string option \<Rightarrow> nat \<Rightarrow> nat \<Rightarrow> nat \<Rightarrow> string"
  js_artifact :: "'j \<Rightarrow> string + prediction_artifact"
  js_content_hash :: "prediction_artifact \<Rightarrow> string ocpm_result"
  js_string :: "string \<Rightarrow> 'j"
  js_nat :: "nat \<Rightarrow> 'j"
  js_f64 :: "f64 \<Rightarrow> 'j"
  js_target :: "prediction_target \<Rightarrow> 'j"
  js_object :: "(string, 'j) btree_map \<Rightarrow> 'j"

section \<open>Artifacts and keys\<close>

definition prediction_finalize :: "'j json_api \<Rightarrow> prediction_artifact \<Rightarrow> prediction_artifact ocpm_result" where
  "prediction_finalize api artifact =
    (let artifact = artifact\<lparr>pa_content_hash := []\<rparr> in
     rbind (js_content_hash api artifact) (\<lambda>h. Ok (artifact\<lparr>pa_content_hash := h\<rparr>)))"

definition prediction_validate :: "'j json_api \<Rightarrow> prediction_artifact \<Rightarrow> unit ocpm_result" where
  "prediction_validate api artifact =
    rbind (ensure (pa_schema_version artifact = ''1.0'')
      (ocpm_error_new ArtifactIncompatible ''prediction artifact schema_version must be 1.0'')) (\<lambda>_.
    rbind (prediction_finalize api artifact) (\<lambda>expected.
    rbind (ensure (pa_content_hash expected = pa_content_hash artifact)
      (ocpm_error_new ArtifactIncompatible ''prediction artifact content hash does not match'')) (\<lambda>_.
    ensure (pa_feature_encoding artifact = ''sequential'' \<or> pa_feature_encoding artifact = ''tabular'')
      (ocpm_error_new ArtifactIncompatible ''graph/GNN artifacts belong to the optional ocpm-gnn module''))))"

definition validate_feature_encoding :: "string \<Rightarrow> unit ocpm_result" where
  "validate_feature_encoding v =
    (if v = ''graph'' then Err (invalid_request ''graph/GNN prediction belongs to the optional ocpm-gnn module'')
     else if v = ''sequential'' \<or> v = ''tabular'' then Ok ()
     else Err (invalid_request ''feature_encoding must be sequential or tabular''))"

definition feature_key :: "'j json_api \<Rightarrow> string list \<Rightarrow> string \<Rightarrow> nat \<Rightarrow> nat \<Rightarrow> string" where
  "feature_key api vs encoding prefix_length object_count =
    (if encoding = ''tabular'' then js_tabular_text api (last_opt vs) (length vs) prefix_length object_count
     else js_activities_text api vs)"

definition backoff_key :: "'j json_api \<Rightarrow> string list \<Rightarrow> nat \<Rightarrow> nat \<Rightarrow> string \<Rightarrow> (string \<Rightarrow> bool) \<Rightarrow> (string \<times> nat) option" where
  "backoff_key api path object_count maximum_order encoding exist =
    find (\<lambda>(key, _). exist key) (map (\<lambda>order. (feature_key api (drop (length path - order) path) encoding (length path) object_count, order))
      (rev [0..<Suc (min maximum_order (length path))]))"

definition json_attribute :: "'j json_api \<Rightarrow> 'j \<Rightarrow> attribute_value ocpm_result" where
  "json_attribute api v = (case js_shape api v of
     JsonNull \<Rightarrow> Ok AttrNull
   | JsonString s \<Rightarrow> Ok (AttrString s)
   | JsonBool b \<Rightarrow> Ok (AttrBoolean b)
   | JsonNumber (Some i) _ \<Rightarrow> Ok (AttrInteger i)
   | JsonNumber None (Some x) \<Rightarrow> Ok (AttrFloat x)
   | JsonNumber None None \<Rightarrow> Err (invalid_request ''positive_value number is unsupported'')
   | JsonOther \<Rightarrow> Err (invalid_request ''positive_value must be a scalar JSON value''))"

section \<open>Fitting\<close>

text \<open>The difference of two instants in seconds.\<close>

definition i128_wrapping_sub :: "int \<Rightarrow> int \<Rightarrow> int" where
  "i128_wrapping_sub a b = (a - b + 2 ^ 127) mod 2 ^ 128 - 2 ^ 127"

definition seconds_between :: "event \<Rightarrow> event \<Rightarrow> f64" where
  "seconds_between current lst = f64_div (f64_of_int (i128_wrapping_sub (epoch_nanos_utc (ev_timestamp lst))
     (epoch_nanos_utc (ev_timestamp current)))) (f64_of_nat 1000000000)"

definition quantile :: "f64 list \<Rightarrow> f64 \<Rightarrow> f64 option" where
  "quantile vs probability =
    nth_opt vs (f64_to_u64 (f64_round_away (f64_mul (f64_of_nat (length vs - 1)) probability)))"

definition summarise :: "f64 list \<Rightarrow> numeric_summary option" where
  "summarise vs = (let vs = sort_by f64_total_le vs in
     Option.bind (quantile vs (f64_round (5 / 100))) (\<lambda>lower.
     Option.bind (quantile vs (f64_round (95 / 100))) (\<lambda>upper.
     Some \<lparr>ns_support = length vs, ns_mean = f64_div (f64_sum vs) (f64_of_nat (length vs)),
       ns_lower = lower, ns_upper = upper\<rparr>)))"

record fit_state =
  fs_next :: "(string, (string, nat) btree_map) btree_map"
  fs_remaining :: "(string, f64 list) btree_map"
  fs_binary :: "(string, binary_summary) btree_map"

definition count_next :: "string \<Rightarrow> string \<Rightarrow> (string, (string, nat) btree_map) btree_map \<Rightarrow> (string, (string, nat) btree_map) btree_map" where
  "count_next prefix activity = bt_alter prefix (\<lambda>m. bt_incr activity 1 (case m of None \<Rightarrow> [] | Some c \<Rightarrow> c))"

definition count_outcome :: "string \<Rightarrow> bool \<Rightarrow> (string, binary_summary) btree_map \<Rightarrow> (string, binary_summary) btree_map" where
  "count_outcome prefix positive = bt_alter prefix (\<lambda>b.
     let b = (case b of None \<Rightarrow> \<lparr>bs_positive = 0, bs_total = 0\<rparr> | Some b \<Rightarrow> b) in
     b\<lparr>bs_total := bs_total b + 1, bs_positive := bs_positive b + (if positive then 1 else 0)\<rparr>)"

definition fit_order :: "'j json_api \<Rightarrow> string \<Rightarrow> bool option \<Rightarrow> process_execution \<Rightarrow> nat \<Rightarrow> nat \<Rightarrow> fit_state \<Rightarrow> fit_state" where
  "fit_order api encoding outcome e index order s =
    (let path = activity_path e;
       prefix = feature_key api (take order (drop (index - order) path)) encoding index (length (pe_object_ids e));
       s = (case nth_opt path index of None \<Rightarrow> s | Some activity \<Rightarrow> s\<lparr>fs_next := count_next prefix activity (fs_next s)\<rparr>);
       s = (case (nth_opt (pe_events e) index, last_opt (pe_events e)) of
           (Some current, Some lst) \<Rightarrow> s\<lparr>fs_remaining := bt_push prefix (f64_max (seconds_between current lst) f64_zero) (fs_remaining s)\<rparr>
         | _ \<Rightarrow> s)
     in case outcome of None \<Rightarrow> s | Some positive \<Rightarrow> s\<lparr>fs_binary := count_outcome prefix positive (fs_binary s)\<rparr>)"

definition outcome_of :: "string option \<Rightarrow> attribute_value option \<Rightarrow> process_execution \<Rightarrow> bool option" where
  "outcome_of target_attribute positive_value e =
    Option.bind (Option.bind target_attribute (\<lambda>attribute.
      Option.bind (last_opt (pe_events e)) (\<lambda>terminal. bt_get (ev_attributes terminal) attribute)))
      (\<lambda>v. map_option (attr_eq v) positive_value)"

definition fit_execution :: "'j json_api \<Rightarrow> nat \<Rightarrow> string \<Rightarrow> string option \<Rightarrow> attribute_value option \<Rightarrow> process_execution \<Rightarrow> fit_state \<Rightarrow> fit_state" where
  "fit_execution api maximum_order encoding target_attribute positive_value e s =
    fold (\<lambda>index. fold (fit_order api encoding (outcome_of target_attribute positive_value e) e index)
      [0..<Suc (min maximum_order index)]) [0..<length (activity_path e)] s"

definition build_artifact :: "'j json_api \<Rightarrow> process_execution list \<Rightarrow> string \<Rightarrow> prediction_target \<Rightarrow> nat \<Rightarrow> string \<Rightarrow> string option
    \<Rightarrow> attribute_value option \<Rightarrow> prediction_artifact ocpm_result option" where
  "build_artifact api executions dataset_id target maximum_order encoding target_attribute positive_value =
    (let s = fold (fit_execution api maximum_order encoding target_attribute positive_value) executions
       \<lparr>fs_next = [], fs_remaining = [], fs_binary = []\<rparr>
     in Option.bind (those (map (\<lambda>(key, vs). map_option (Pair key) (summarise vs)) (fs_remaining s))) (\<lambda>remaining.
       Some (prediction_finalize api \<lparr>pa_schema_version = ''1.0'', pa_target = target, pa_dataset_id = dataset_id,
         pa_maximum_order = maximum_order, pa_feature_encoding = encoding, pa_next_counts = fs_next s,
         pa_remaining = remaining, pa_binary = fs_binary s, pa_target_attribute = target_attribute,
         pa_positive_value = positive_value, pa_content_hash = []\<rparr>)))"

definition parameter_str :: "'j json_api \<Rightarrow> (string, 'j) btree_map \<Rightarrow> string \<Rightarrow> string option" where
  "parameter_str api parameters name = Option.bind (bt_get parameters name) (js_as_str api)"

definition maximum_order_of :: "'j json_api \<Rightarrow> (string, 'j) btree_map \<Rightarrow> nat" where
  "maximum_order_of api parameters = (case Option.bind (bt_get parameters ''maximum_order'') (js_as_u64 api) of None \<Rightarrow> 3 | Some n \<Rightarrow> n)"

definition feature_encoding_of :: "'j json_api \<Rightarrow> (string, 'j) btree_map \<Rightarrow> string" where
  "feature_encoding_of api parameters = (case parameter_str api parameters ''feature_encoding'' of None \<Rightarrow> ''sequential'' | Some v \<Rightarrow> v)"

definition positive_value_of :: "'j json_api \<Rightarrow> (string, 'j) btree_map \<Rightarrow> attribute_value option ocpm_result" where
  "positive_value_of api parameters = (case bt_get parameters ''positive_value'' of None \<Rightarrow> Ok None
   | Some v \<Rightarrow> rbind (json_attribute api v) (\<lambda>a. Ok (Some a)))"

definition fit_checks :: "'j json_api \<Rightarrow> 'j fit_prediction_request \<Rightarrow> unit ocpm_result" where
  "fit_checks api request =
    (let maximum_order = maximum_order_of api (fq_parameters request) in
     rbind (ensure (fq_semantic_version request = ''1.0'') (invalid_request ''semantic_version must be 1.0'')) (\<lambda>_.
     rbind (ensure (\<not> (maximum_order = 0 \<or> 32 < maximum_order)) (invalid_request ''maximum_order must be between 1 and 32'')) (\<lambda>_.
     validate_feature_encoding (feature_encoding_of api (fq_parameters request)))))"

definition fit_inputs :: "'j json_api \<Rightarrow> executions_method \<Rightarrow> (dataset_view \<Rightarrow> dataset_profile ocpm_result) \<Rightarrow> 'j fit_prediction_request
    \<Rightarrow> (process_execution list \<times> dataset_profile \<times> attribute_value option) ocpm_result" where
  "fit_inputs api process_executions profile request =
    rbind (fit_checks api request) (\<lambda>_.
    rbind (process_executions (fq_view request) LeadingObject (parameter_str api (fq_parameters request) ''leading_object_type'')) (\<lambda>executions.
    rbind (profile (fq_view request)) (\<lambda>pf.
    rbind (ensure (executions \<noteq> []) (ocpm_error_new InsufficientData ''prediction fitting requires process executions'')) (\<lambda>_.
    rbind (positive_value_of api (fq_parameters request)) (\<lambda>positive_value. Ok (executions, pf, positive_value))))))"

definition fit :: "'j json_api \<Rightarrow> executions_method \<Rightarrow> (dataset_view \<Rightarrow> dataset_profile ocpm_result) \<Rightarrow> 'j fit_prediction_request
    \<Rightarrow> prediction_artifact ocpm_result option" where
  "fit api process_executions profile request =
    (case fit_inputs api process_executions profile request of Err e \<Rightarrow> Some (Err e)
     | Ok (executions, pf, positive_value) \<Rightarrow>
        build_artifact api executions (dp_dataset_id pf) (fq_target request) (maximum_order_of api (fq_parameters request))
          (feature_encoding_of api (fq_parameters request)) (parameter_str api (fq_parameters request) ''target_attribute'') positive_value)"

section \<open>Prediction\<close>

definition has_support :: "prediction_target \<Rightarrow> prediction_artifact \<Rightarrow> string \<Rightarrow> bool" where
  "has_support target artifact key = (case target of
     NextActivity \<Rightarrow> bt_get (pa_next_counts artifact) key \<noteq> None
   | RemainingTime \<Rightarrow> bt_get (pa_remaining artifact) key \<noteq> None
   | Outcome \<Rightarrow> bt_get (pa_binary artifact) key \<noteq> None
   | Risk \<Rightarrow> bt_get (pa_binary artifact) key \<noteq> None)"

definition candidate_le :: "prediction_candidate \<Rightarrow> prediction_candidate \<Rightarrow> bool" where
  "candidate_le left right \<longleftrightarrow> f64_total_lt (pc_probability right) (pc_probability left) \<or>
     (\<not> f64_total_lt (pc_probability left) (pc_probability right) \<and> pc_label left \<le> pc_label right)"

definition next_candidates :: "(string, nat) btree_map \<Rightarrow> prediction_candidate list" where
  "next_candidates counts = (let s = u64_sum (map snd counts) in
     sort_by candidate_le (map (\<lambda>(label, n). \<lparr>pc_label = label, pc_probability = f64_div (f64_of_nat n) (f64_of_nat s)\<rparr>) counts))"

definition positive_share :: "binary_summary \<Rightarrow> f64" where
  "positive_share b = f64_div (f64_of_nat (bs_positive b)) (f64_of_nat (bs_total b))"

text \<open>The answer of an artifact at a key; indexing a missing key panics.\<close>

definition answer :: "prediction_target \<Rightarrow> prediction_artifact \<Rightarrow> string \<Rightarrow> 'j prediction_result \<Rightarrow> 'j prediction_result option" where
  "answer target artifact key result = (case target of
     NextActivity \<Rightarrow> map_option (\<lambda>counts. result\<lparr>pr_support := u64_sum (map snd counts), pr_candidates := next_candidates counts\<rparr>)
       (bt_get (pa_next_counts artifact) key)
   | RemainingTime \<Rightarrow> map_option (\<lambda>x. result\<lparr>pr_support := ns_support x, pr_point_estimate_seconds := Some (ns_mean x),
       pr_interval_seconds := Some (ns_lower x, ns_upper x)\<rparr>) (bt_get (pa_remaining artifact) key)
   | _ \<Rightarrow> map_option (\<lambda>b. result\<lparr>pr_support := bs_total b, pr_candidates :=
       [\<lparr>pc_label = ''positive'', pc_probability = positive_share b\<rparr>,
        \<lparr>pc_label = ''negative'', pc_probability = f64_sub f64_one (positive_share b)\<rparr>]\<rparr>) (bt_get (pa_binary artifact) key))"

definition predict_with :: "'j json_api \<Rightarrow> 'j prediction_request \<Rightarrow> prediction_artifact \<Rightarrow> 'j prediction_result ocpm_result option" where
  "predict_with api request artifact =
    (case rbind (prediction_validate api artifact) (\<lambda>_.
        rbind (ensure (pa_target artifact = pq_target request)
          (ocpm_error_new ArtifactIncompatible ''prediction artifact target differs from request target'')) (\<lambda>_.
        ok_or (ocpm_error_new InsufficientData ''no prediction support exists for this prefix'')
          (backoff_key api (ps_activities (pq_state request)) (length (ps_object_ids (pq_state request)))
            (pa_maximum_order artifact) (pa_feature_encoding artifact) (has_support (pq_target request) artifact)))) of
       Err e \<Rightarrow> Some (Err e)
     | Ok (key, order) \<Rightarrow> map_option Ok (answer (pq_target request) artifact key
         \<lparr>pr_candidates = [], pr_point_estimate_seconds = None, pr_interval_seconds = None,
           pr_backoff_level = ''order_'' @ show_nat order, pr_support = 0, pr_model_hash = Some (pa_content_hash artifact),
           pr_diagnostics = [(''feature_encoding'', js_string api (pa_feature_encoding artifact))]\<rparr>))"

definition fit_request :: "'j prediction_request \<Rightarrow> 'j fit_prediction_request" where
  "fit_request request = \<lparr>fq_semantic_version = pq_semantic_version request, fq_view = pq_view request,
     fq_target = pq_target request, fq_parameters = pq_parameters request, fq_seed = 0\<rparr>"

definition predict :: "'j json_api \<Rightarrow> executions_method \<Rightarrow> (dataset_view \<Rightarrow> dataset_profile ocpm_result) \<Rightarrow> 'j prediction_request
    \<Rightarrow> 'j prediction_result ocpm_result option" where
  "predict api process_executions profile request =
    (if pq_semantic_version request \<noteq> ''1.0'' then Some (Err (invalid_request ''semantic_version must be 1.0''))
     else case (case pq_model_artifact request of
         Some v \<Rightarrow> Some (map_err (\<lambda>error. ocpm_error_new ArtifactIncompatible (''invalid prediction artifact: '' @ error)) (js_artifact api v))
       | None \<Rightarrow> fit api process_executions profile (fit_request request)) of
       None \<Rightarrow> None
     | Some (Err e) \<Rightarrow> Some (Err e)
     | Some (Ok artifact) \<Rightarrow> predict_with api request artifact)"

section \<open>Temporal holdout\<close>

definition completion_key :: "process_execution \<Rightarrow> timestamp option \<times> string" where
  "completion_key e = (map_option ev_timestamp (last_opt (pe_events e)), pe_id e)"

definition holdout_split :: "nat \<Rightarrow> f64 \<Rightarrow> nat" where
  "holdout_split n holdout_fraction = f64_to_u64 (f64_floor (f64_mul (f64_of_nat n) (f64_sub f64_one holdout_fraction)))"

record holdout_state =
  hs_evaluated :: nat
  hs_correct :: nat
  hs_absolute_error :: f64
  hs_interval_hits :: nat
  hs_brier :: f64

definition winner :: "(string, nat) btree_map \<Rightarrow> (string \<times> nat) option" where
  "winner counts = (case counts of [] \<Rightarrow> None | p # ps \<Rightarrow>
     Some (fold (\<lambda>(l, n) (l', n'). if n < n' \<or> (n = n' \<and> l' < l) then (l', n') else (l, n)) ps p))"

definition holdout_index :: "'j json_api \<Rightarrow> prediction_target \<Rightarrow> prediction_artifact \<Rightarrow> process_execution \<Rightarrow> nat \<Rightarrow> holdout_state
    \<Rightarrow> holdout_state option" where
  "holdout_index api target artifact e index s =
    (let path = activity_path e in
     case backoff_key api (take index path) (length (pe_object_ids e)) (pa_maximum_order artifact) (pa_feature_encoding artifact)
         (has_support target artifact) of
       None \<Rightarrow> Some s
     | Some (key, _) \<Rightarrow> (case target of
         NextActivity \<Rightarrow> Option.bind (bt_get (pa_next_counts artifact) key) (\<lambda>counts.
           Option.bind (nth_opt path index) (\<lambda>activity.
           Some (s\<lparr>hs_correct := hs_correct s + (if map_option fst (winner counts) = Some activity then 1 else 0),
             hs_evaluated := hs_evaluated s + 1\<rparr>)))
       | RemainingTime \<Rightarrow> (case (nth_opt (pe_events e) index, last_opt (pe_events e)) of
           (Some current, Some lst) \<Rightarrow> Option.bind (bt_get (pa_remaining artifact) key) (\<lambda>x.
             let actual = seconds_between current lst in
             Some (s\<lparr>hs_absolute_error := f64_add (hs_absolute_error s) (f64_abs (f64_sub (ns_mean x) actual)),
               hs_interval_hits := hs_interval_hits s + (if f64_le (ns_lower x) actual \<and> f64_le actual (ns_upper x) then 1 else 0),
               hs_evaluated := hs_evaluated s + 1\<rparr>))
         | _ \<Rightarrow> Some s)
       | _ \<Rightarrow> (case outcome_of (pa_target_attribute artifact) (pa_positive_value artifact) e of None \<Rightarrow> Some s
         | Some actual \<Rightarrow> Option.bind (bt_get (pa_binary artifact) key) (\<lambda>b.
             let d = f64_sub (positive_share b) (if actual then f64_one else f64_zero) in
             Some (s\<lparr>hs_brier := f64_add (hs_brier s) (f64_mul d d), hs_evaluated := hs_evaluated s + 1\<rparr>)))))"

definition holdout_metrics :: "'j json_api \<Rightarrow> prediction_target \<Rightarrow> holdout_state \<Rightarrow> 'j" where
  "holdout_metrics api target s =
    (let share = (\<lambda>x. js_f64 api (f64_div x (f64_of_nat (hs_evaluated s)))) in
     js_object api (bt_of_list (case target of
       NextActivity \<Rightarrow> [(''accuracy'', share (f64_of_nat (hs_correct s))), (''correct'', js_nat api (hs_correct s))]
     | RemainingTime \<Rightarrow> [(''mean_absolute_error_seconds'', share (hs_absolute_error s)),
         (''interval_coverage'', share (f64_of_nat (hs_interval_hits s)))]
     | _ \<Rightarrow> [(''brier_score'', share (hs_brier s))])))"

definition holdout_executions :: "process_execution list \<Rightarrow> process_execution list" where
  "holdout_executions executions = sort_key completion_key executions"

definition holdout_inputs :: "'j json_api \<Rightarrow> executions_method \<Rightarrow> (dataset_view \<Rightarrow> dataset_profile ocpm_result) \<Rightarrow> dataset_view \<Rightarrow> f64
    \<Rightarrow> (string, 'j) btree_map \<Rightarrow> (process_execution list \<times> nat \<times> attribute_value option \<times> dataset_profile) ocpm_result" where
  "holdout_inputs api process_executions profile view holdout_fraction parameters =
    rbind (ensure (f64_le f64_zero holdout_fraction \<and> f64_lt holdout_fraction f64_one)
      (invalid_request ''holdout_fraction must be between 0 and 1'')) (\<lambda>_.
    rbind (process_executions view LeadingObject None) (\<lambda>executions.
    let executions = holdout_executions executions; split = holdout_split (length executions) holdout_fraction in
    rbind (ensure (\<not> (split = 0 \<or> length executions \<le> split))
      (ocpm_error_new InsufficientData ''temporal holdout requires nonempty train and test partitions'')) (\<lambda>_.
    rbind (validate_feature_encoding (feature_encoding_of api parameters)) (\<lambda>_.
    rbind (positive_value_of api parameters) (\<lambda>positive_value.
    rbind (profile view) (\<lambda>pf. Ok (executions, split, positive_value, pf)))))))"

definition holdout_execution :: "'j json_api \<Rightarrow> prediction_target \<Rightarrow> prediction_artifact \<Rightarrow> process_execution \<Rightarrow> holdout_state \<Rightarrow> holdout_state option" where
  "holdout_execution api target artifact e = fold_opt (holdout_index api target artifact e) [0..<length (activity_path e)]"

definition holdout_result :: "'j json_api \<Rightarrow> prediction_target \<Rightarrow> (string, 'j) btree_map \<Rightarrow> prediction_artifact \<Rightarrow> nat \<Rightarrow> nat
    \<Rightarrow> holdout_state \<Rightarrow> 'j prediction_result ocpm_result" where
  "holdout_result api target parameters artifact split n s =
    (if hs_evaluated s = 0 then Err (ocpm_error_new InsufficientData ''temporal holdout has no supported test prefixes'')
     else Ok \<lparr>pr_candidates = [], pr_point_estimate_seconds = None, pr_interval_seconds = None,
       pr_backoff_level = ''evaluation_manifest'', pr_support = hs_evaluated s, pr_model_hash = Some (pa_content_hash artifact),
       pr_diagnostics = bt_of_list [(''target'', js_target api target), (''train_executions'', js_nat api split),
         (''test_executions'', js_nat api (n - split)), (''parameters'', js_object api parameters),
         (''metrics'', holdout_metrics api target s),
         (''leakage_guard'', js_string api
           ''executions are sorted by completion time; the model is fit only on the earlier partition'')]\<rparr>)"

definition evaluate_temporal_holdout :: "'j json_api \<Rightarrow> executions_method \<Rightarrow> (dataset_view \<Rightarrow> dataset_profile ocpm_result) \<Rightarrow> dataset_view
    \<Rightarrow> prediction_target \<Rightarrow> f64 \<Rightarrow> (string, 'j) btree_map \<Rightarrow> 'j prediction_result ocpm_result option" where
  "evaluate_temporal_holdout api process_executions profile view target holdout_fraction parameters =
    (case holdout_inputs api process_executions profile view holdout_fraction parameters of Err e \<Rightarrow> Some (Err e)
     | Ok (executions, split, positive_value, pf) \<Rightarrow>
        (case build_artifact api (take split executions) (dp_dataset_id pf) target (maximum_order_of api parameters)
            (feature_encoding_of api parameters) (parameter_str api parameters ''target_attribute'') positive_value of
           None \<Rightarrow> None
         | Some (Err e) \<Rightarrow> Some (Err e)
         | Some (Ok artifact) \<Rightarrow> map_option (holdout_result api target parameters artifact split (length executions))
             (fold_opt (holdout_execution api target artifact) (drop split executions)
               \<lparr>hs_evaluated = 0, hs_correct = 0, hs_absolute_error = f64_zero, hs_interval_hits = 0, hs_brier = f64_zero\<rparr>)))"

section \<open>What fitting counts\<close>

text \<open>Every occurrence of an activity after one of the contexts that fitting records for it.\<close>

definition context_at :: "process_execution \<Rightarrow> nat \<Rightarrow> nat \<Rightarrow> string list" where
  "context_at e index order = take order (drop (index - order) (activity_path e))"

definition samples :: "nat \<Rightarrow> process_execution list \<Rightarrow> (process_execution \<times> nat \<times> nat) list" where
  "samples maximum_order es = concat (map (\<lambda>e. concat (map (\<lambda>index. map (\<lambda>order. (e, index, order)) [0..<Suc (min maximum_order index)])
     [0..<length (activity_path e)])) es)"

definition sample_key :: "'j json_api \<Rightarrow> string \<Rightarrow> process_execution \<times> nat \<times> nat \<Rightarrow> string" where
  "sample_key api encoding = (\<lambda>(e, index, order). feature_key api (context_at e index order) encoding index (length (pe_object_ids e)))"

lemma samples_in: "(e, index, order) \<in> set (samples maximum_order es) \<longleftrightarrow>
    e \<in> set es \<and> index < length (activity_path e) \<and> order \<le> maximum_order \<and> order \<le> index"
  by (auto simp: samples_def image_iff simp del: upt_Suc)

text \<open>One recorded sample: all three tables under the same key.\<close>

definition record_sample :: "'j json_api \<Rightarrow> string \<Rightarrow> string option \<Rightarrow> attribute_value option \<Rightarrow> process_execution \<times> nat \<times> nat \<Rightarrow> fit_state \<Rightarrow> fit_state" where
  "record_sample api encoding target_attribute positive_value = (\<lambda>(e, index, order) s.
     let key = sample_key api encoding (e, index, order) in
     \<lparr>fs_next = count_next key (activity_path e ! index) (fs_next s),
      fs_remaining = bt_push key (f64_max (seconds_between (pe_events e ! index) (last (pe_events e))) f64_zero) (fs_remaining s),
      fs_binary = (case outcome_of target_attribute positive_value e of None \<Rightarrow> fs_binary s
        | Some positive \<Rightarrow> count_outcome key positive (fs_binary s))\<rparr>)"

lemma fit_order_record:
  assumes "index < length (activity_path e)"
  shows "fit_order api encoding (outcome_of ta pv e) e index order s = record_sample api encoding ta pv (e, index, order) s"
proof -
  have len: "index < length (pe_events e)" using assms by (simp add: activity_path_def)
  then have "pe_events e \<noteq> []" by auto
  then show ?thesis using assms len
    by (auto simp: fit_order_def record_sample_def sample_key_def context_at_def nth_opt_def last_opt_def Let_def split: option.split)
qed

lemma fold_fit: "fold (fit_execution api maximum_order encoding ta pv) es s = fold (record_sample api encoding ta pv) (samples maximum_order es) s"
proof (induction es arbitrary: s)
  case (Cons e es)
  have "fit_execution api maximum_order encoding ta pv e s = fold (record_sample api encoding ta pv)
      (concat (map (\<lambda>index. map (\<lambda>order. (e, index, order)) [0..<Suc (min maximum_order index)]) [0..<length (activity_path e)])) s"
  proof -
    have "fit_execution api maximum_order encoding ta pv e s = fold (\<lambda>index. fold (\<lambda>order. record_sample api encoding ta pv (e, index, order))
        [0..<Suc (min maximum_order index)]) [0..<length (activity_path e)] s"
      unfolding fit_execution_def by (intro fold_cong refl ext) (simp add: fit_order_record)
    also have "\<dots> = fold (record_sample api encoding ta pv)
      (concat (map (\<lambda>index. map (\<lambda>order. (e, index, order)) [0..<Suc (min maximum_order index)]) [0..<length (activity_path e)])) s"
    proof -
      have "fold (\<lambda>index. fold (\<lambda>order. r (e, index, order)) (h index)) is s =
        fold r (concat (map (\<lambda>index. map (\<lambda>order. (e, index, order)) (h index)) is)) s" for r :: "_ \<Rightarrow> 's \<Rightarrow> 's" and h "is" s
        by (induction "is" arbitrary: s) (simp_all add: fold_map comp_def)
      then show ?thesis .
    qed
    finally show ?thesis .
  qed
  then show ?case using Cons.IH by (simp add: samples_def del: upt_Suc)
qed (simp add: samples_def)

lemma record_fields:
  "fs_next (fold (record_sample api encoding ta pv) ss s) = fold (\<lambda>x. count_next (sample_key api encoding x) (activity_path (fst x) ! fst (snd x))) ss (fs_next s)"
  "fs_remaining (fold (record_sample api encoding ta pv) ss s) = fold (\<lambda>x. bt_push (sample_key api encoding x)
     (f64_max (seconds_between (pe_events (fst x) ! fst (snd x)) (last (pe_events (fst x)))) f64_zero)) ss (fs_remaining s)"
  "fs_binary (fold (record_sample api encoding ta pv) ss s) = fold (\<lambda>x m. case outcome_of ta pv (fst x) of None \<Rightarrow> m
     | Some positive \<Rightarrow> count_outcome (sample_key api encoding x) positive m) ss (fs_binary s)"
  by (induction ss arbitrary: s) (auto simp: record_sample_def Let_def split: option.split)

text \<open>The count of a label after a key, and the whole table under a key.\<close>

definition next_count :: "(string, (string, nat) btree_map) btree_map \<Rightarrow> string \<Rightarrow> string \<Rightarrow> nat" where
  "next_count m key a = (case bt_get m key of None \<Rightarrow> 0 | Some c \<Rightarrow> (case bt_get c a of None \<Rightarrow> 0 | Some n \<Rightarrow> n))"

definition table_ok :: "(string, (string, nat) btree_map) btree_map \<Rightarrow> bool" where
  "table_ok m \<longleftrightarrow> bt_inv m \<and> (\<forall>k c. bt_get m k = Some c \<longrightarrow> c \<noteq> [] \<and> bt_inv c \<and> (\<forall>a n. bt_get c a = Some n \<longrightarrow> 0 < n))"

lemma count_next_get: "bt_inv m \<Longrightarrow> bt_get (count_next key a m) k =
    (if k = key then Some (bt_incr a 1 (case bt_get m key of None \<Rightarrow> [] | Some c \<Rightarrow> c)) else bt_get m k)"
  by (simp add: count_next_def bt.get_alter)

lemma get_incr: "bt_inv m \<Longrightarrow> bt_get (bt_incr k n m) j = (if j = k then Some (n + (case bt_get m k of None \<Rightarrow> 0 | Some c \<Rightarrow> c)) else bt_get m j)"
  by (auto simp: bt_incr_def bt.get_alter split: option.split)

lemma incr_not_Nil: "bt_incr k n m \<noteq> []"
  using keys_bt_incr [of k n m] by auto

lemma table_ok_count_next:
  assumes "table_ok m"
  shows "table_ok (count_next key a m)"
    "next_count (count_next key a m) k b = next_count m k b + (if k = key \<and> b = a then 1 else 0)"
proof -
  have inv: "bt_inv m" using assms by (simp add: table_ok_def)
  have old: "bt_inv (case bt_get m key of None \<Rightarrow> [] | Some c \<Rightarrow> c)"
    "bt_get (case bt_get m key of None \<Rightarrow> [] | Some c \<Rightarrow> c) x = Some n \<Longrightarrow> 0 < n" for x n
    using assms by (auto simp: table_ok_def split: option.splits)
  show "table_ok (count_next key a m)"
    unfolding table_ok_def
  proof (intro conjI allI impI)
    show "bt_inv (count_next key a m)" using inv by (simp add: count_next_def bt.inv_alter)
    fix k c assume c: "bt_get (count_next key a m) k = Some c"
    show "c \<noteq> []" "bt_inv c" using c old(1) assms
      by (auto simp: count_next_get [OF inv] table_ok_def incr_not_Nil bt_inv_incr split: if_splits)
    fix x n assume "bt_get c x = Some n"
    then show "0 < n" using c old assms
      by (auto simp: count_next_get [OF inv] table_ok_def get_incr split: if_splits)
  qed
  show "next_count (count_next key a m) k b = next_count m k b + (if k = key \<and> b = a then 1 else 0)"
    using old(1) by (auto simp: next_count_def count_next_get [OF inv] get_incr split: option.splits)
qed

lemma fold_count_next:
  assumes "table_ok m"
  shows "table_ok (fold (\<lambda>x. count_next (key x) (label x)) xs m) \<and>
    next_count (fold (\<lambda>x. count_next (key x) (label x)) xs m) k a = next_count m k a + length (filter (\<lambda>x. key x = k \<and> label x = a) xs) \<and>
    (bt_get (fold (\<lambda>x. count_next (key x) (label x)) xs m) k = None \<longleftrightarrow> bt_get m k = None \<and> k \<notin> key ` set xs)"
  using assms
proof (induction xs arbitrary: m)
  case (Cons x xs)
  have inv: "bt_inv m" using Cons.prems by (simp add: table_ok_def)
  note step = table_ok_count_next [OF Cons.prems, of "key x" "label x"]
  show ?case using Cons.IH [OF step(1)] by (auto simp: step(2) count_next_get [OF inv])
qed simp

section \<open>Summaries exist\<close>

lemma quantile_in_range:
  assumes vs: "vs \<noteq> []" "length vs < 2 ^ 53" and p: "0 \<le> p" "p \<le> 1"
  shows "\<exists>v \<in> set vs. quantile vs (f64_round p) = Some v"
proof -
  define n where "n = length vs - 1"
  have n: "n < length vs" "n < 2 ^ 53" using vs unfolding n_def by (simp, linarith)
  obtain q where q: "f64_round p = F_fin q" "0 \<le> q" "q \<le> 1"
    using f64_round_unit [OF p] p by (cases "f64_round p") (auto simp: f64_unit_def f64_le_def f64_round_def Let_def split: if_splits)
  define x where "x = f64_mul (f64_of_nat n) (f64_round p)"
  obtain y where y: "x = F_fin y" "0 \<le> y" "y \<le> of_nat n" using scaled_position [OF n(2) q(2,3)] unfolding x_def q(1) by blast
  have "\<lfloor>y + 1 / 2\<rfloor> \<le> \<lfloor>of_nat n + 1 / 2 :: rat\<rfloor>" using y(3) by (intro floor_mono) simp
  also have "\<dots> = int n" by (simp add: floor_unique)
  finally have "f64_to_u64 (f64_round_away x) \<le> n" using y(2) by (auto simp: y(1) Let_def)
  then have "f64_to_u64 (f64_round_away x) < length vs" using n(1) by simp
  moreover have "quantile vs (f64_round p) = nth_opt vs (f64_to_u64 (f64_round_away x))" by (simp add: quantile_def x_def n_def)
  ultimately show ?thesis by (simp add: nth_opt_def)
qed

lemma summarise_Some:
  assumes "vs \<noteq> []" "length vs < 2 ^ 53"
  shows "\<exists>x. summarise vs = Some x \<and> ns_support x = length vs \<and> ns_lower x \<in> set vs \<and> ns_upper x \<in> set vs"
proof -
  define ws where "ws = sort_by f64_total_le vs"
  have len: "length ws = length vs" by (simp add: ws_def)
  then have ws: "ws \<noteq> []" "length ws = length vs" "set ws = set vs"
    using assms(1) mset_eq_setD [of ws vs] by (auto simp: ws_def)
  have in_range: "\<exists>v \<in> set vs. quantile ws (f64_round p) = Some v" if "0 \<le> p" "p \<le> 1" for p
    using quantile_in_range [OF ws(1) _ that] assms(2) unfolding ws(2,3) by blast
  define lo hi where "lo = f64_round (5 / 100)" and "hi = f64_round (95 / 100)"
  have "0 \<le> (5 / 100 :: rat)" "(5 / 100 :: rat) \<le> 1" "0 \<le> (95 / 100 :: rat)" "(95 / 100 :: rat) \<le> 1" by simp_all
  then obtain l u where lu: "quantile ws lo = Some l" "l \<in> set vs" "quantile ws hi = Some u" "u \<in> set vs"
    unfolding lo_def hi_def using in_range by metis
  have "summarise vs = Some \<lparr>ns_support = length ws, ns_mean = f64_div (f64_sum ws) (f64_of_nat (length ws)), ns_lower = l, ns_upper = u\<rparr>"
    unfolding summarise_def Let_def ws_def [symmetric] lo_def [symmetric] hi_def [symmetric] lu(1,3) by simp
  then show ?thesis using lu(2,4) ws(2) by simp
qed

lemma those_pairs: "those (map (\<lambda>(key, vs). map_option (Pair key) (f vs)) m) = Some r \<Longrightarrow> (bt_get r k = None \<longleftrightarrow> bt_get m k = None) \<and>
    (\<forall>vs. bt_get m k = Some vs \<longrightarrow> bt_get r k = f vs)"
proof (induction m arbitrary: r)
  case (Cons x m)
  obtain key vs where x: "x = (key, vs)" by (cases x)
  obtain y r' where "f vs = Some y" "those (map (\<lambda>(key, vs). map_option (Pair key) (f vs)) m) = Some r'" "r = (key, y) # r'"
    using Cons.prems by (auto simp: x split: option.splits)
  then show ?case using Cons.IH [of r'] by (auto simp: x bt_get_def)
qed (simp add: bt_get_def)

lemma those_values: "\<forall>(key, vs) \<in> set m. f vs \<noteq> None \<Longrightarrow> \<exists>r. those (map (\<lambda>(key, vs). map_option (Pair key) (f vs)) m) = Some r"
  by (induction m) auto

lemma binary_fold:
  "bt_inv m \<Longrightarrow> bt_inv (fold (\<lambda>x m. case out x of None \<Rightarrow> m | Some positive \<Rightarrow> count_outcome (key x) positive m) xs m) \<and>
   bt_get (fold (\<lambda>x m. case out x of None \<Rightarrow> m | Some positive \<Rightarrow> count_outcome (key x) positive m) xs m) k =
    (let ys = filter (\<lambda>x. key x = k \<and> out x \<noteq> None) xs; old = bt_get m k in
     if ys = [] then old else Some \<lparr>bs_positive = (case old of None \<Rightarrow> 0 | Some b \<Rightarrow> bs_positive b) + length (filter (\<lambda>x. out x = Some True) ys),
       bs_total = (case old of None \<Rightarrow> 0 | Some b \<Rightarrow> bs_total b) + length ys\<rparr>)"
proof (induction xs arbitrary: m)
  case (Cons x xs)
  show ?case
  proof (cases "out x")
    case None
    then show ?thesis using Cons by (simp add: Let_def)
  next
    case (Some positive)
    have inv: "bt_inv (count_outcome (key x) positive m)" using Cons.prems by (simp add: count_outcome_def bt.inv_alter)
    have get: "bt_get (count_outcome (key x) positive m) k = (if k = key x then Some
        \<lparr>bs_positive = (case bt_get m k of None \<Rightarrow> 0 | Some b \<Rightarrow> bs_positive b) + (if positive then 1 else 0),
         bs_total = (case bt_get m k of None \<Rightarrow> 0 | Some b \<Rightarrow> bs_total b) + 1\<rparr> else bt_get m k)"
      using Cons.prems by (auto simp: count_outcome_def bt.get_alter Let_def split: option.split)
    show ?thesis using Cons.IH [OF inv] Some by (auto simp: get Let_def)
  qed
qed (simp add: Let_def)

text \<open>A table holds as many observations as its counts add up to.\<close>

lemma sum_incr: "sum_list (map snd (bt_incr k n m)) = sum_list (map snd m) + n"
  unfolding bt_incr_def by (induction k "\<lambda>e. case e of None \<Rightarrow> n | Some c \<Rightarrow> c + n" m rule: bt_alter.induct) simp_all

lemma fold_count_total:
  assumes "table_ok m"
  shows "(case bt_get (fold (\<lambda>x. count_next (key x) (label x)) xs m) k of None \<Rightarrow> 0 | Some c \<Rightarrow> sum_list (map snd c)) =
    (case bt_get m k of None \<Rightarrow> 0 | Some c \<Rightarrow> sum_list (map snd c)) + length (filter (\<lambda>x. key x = k) xs)"
  using assms
proof (induction xs arbitrary: m)
  case (Cons x xs)
  have inv: "bt_inv m" using Cons.prems by (simp add: table_ok_def)
  show ?case
    using Cons.IH [OF table_ok_count_next(1) [OF Cons.prems], of "key x" "label x"]
    by (auto simp: count_next_get [OF inv] sum_incr split: option.splits)
qed simp

text \<open>The counts of a fitted artifact, over the samples of the training executions.\<close>

definition artifact_counts :: "'j json_api \<Rightarrow> string \<Rightarrow> string option \<Rightarrow> attribute_value option \<Rightarrow> (process_execution \<times> nat \<times> nat) list
    \<Rightarrow> prediction_artifact \<Rightarrow> bool" where
  "artifact_counts api encoding ta pv ss a \<longleftrightarrow> (\<forall>key.
     (let here = filter (\<lambda>x. sample_key api encoding x = key) ss; judged = filter (\<lambda>x. outcome_of ta pv (fst x) \<noteq> None) here in
      (bt_get (pa_next_counts a) key = None \<longleftrightarrow> here = []) \<and>
      (\<forall>label. next_count (pa_next_counts a) key label = length (filter (\<lambda>(e, index, order). activity_path e ! index = label) here)) \<and>
      (case bt_get (pa_next_counts a) key of None \<Rightarrow> 0 | Some c \<Rightarrow> sum_list (map snd c)) = length here \<and>
      (case bt_get (pa_remaining a) key of None \<Rightarrow> here = []
       | Some x \<Rightarrow> ns_support x = length here \<and> here \<noteq> [] \<and> {ns_lower x, ns_upper x} \<subseteq>
           (\<lambda>(e, index, order). f64_max (seconds_between (pe_events e ! index) (last (pe_events e))) f64_zero) ` set here) \<and>
      bt_get (pa_binary a) key = (if judged = [] then None else Some \<lparr>bs_positive =
        length (filter (\<lambda>x. outcome_of ta pv (fst x) = Some True) judged), bs_total = length judged\<rparr>)))"

lemma build_artifact_counts:
  assumes "length (samples maximum_order es) < 2 ^ 53"
  shows "\<exists>a. build_artifact api es dataset target maximum_order encoding ta pv = Some (prediction_finalize api a) \<and>
    pa_schema_version a = ''1.0'' \<and> pa_target a = target \<and> pa_maximum_order a = maximum_order \<and> pa_feature_encoding a = encoding \<and>
    table_ok (pa_next_counts a) \<and> artifact_counts api encoding ta pv (samples maximum_order es) a"
proof -
  define ss where "ss = samples maximum_order es"
  define s where "s = fold (record_sample api encoding ta pv) ss \<lparr>fs_next = [], fs_remaining = [], fs_binary = []\<rparr>"
  have s: "fold (fit_execution api maximum_order encoding ta pv) es \<lparr>fs_next = [], fs_remaining = [], fs_binary = []\<rparr> = s"
    by (simp add: fold_fit s_def ss_def)
  define dur where "dur x = f64_max (seconds_between (pe_events (fst x) ! fst (snd x)) (last (pe_events (fst x)))) f64_zero"
    for x :: "process_execution \<times> nat \<times> nat"
  have rem: "bt_get (fs_remaining s) k = (if \<exists>x \<in> set ss. sample_key api encoding x = k
      then Some (map dur (filter (\<lambda>x. sample_key api encoding x = k) ss)) else None)" for k
    unfolding s_def record_fields dur_def by (simp add: get_fold_push)
  have short: "length (filter P ss) < 2 ^ 53" for P using assms length_filter_le [of P ss] unfolding ss_def by linarith
  have "summarise vs \<noteq> None" if "(key, vs) \<in> set (fs_remaining s)" for key vs
  proof -
    have vs: "vs = map dur (filter (\<lambda>x. sample_key api encoding x = key) ss)" "\<exists>x \<in> set ss. sample_key api encoding x = key"
      using that unfolding s_def record_fields dur_def by (simp_all add: fold_push_in)
    then have "vs \<noteq> []" by (auto simp: filter_empty_conv)
    then show ?thesis using summarise_Some [of vs] short vs(1) by auto
  qed
  then have "\<forall>(key, vs) \<in> set (fs_remaining s). summarise vs \<noteq> None" by auto
  from those_values [OF this] obtain r where r: "those (map (\<lambda>(key, vs). map_option (Pair key) (summarise vs)) (fs_remaining s)) = Some r" ..
  define a where "a = \<lparr>pa_schema_version = ''1.0'', pa_target = target, pa_dataset_id = dataset, pa_maximum_order = maximum_order,
    pa_feature_encoding = encoding, pa_next_counts = fs_next s, pa_remaining = r, pa_binary = fs_binary s,
    pa_target_attribute = ta, pa_positive_value = pv, pa_content_hash = []\<rparr>"
  have ok: "table_ok []" by (simp add: table_ok_def)
  note fc = fold_count_next [OF ok, of "sample_key api encoding" "\<lambda>x. activity_path (fst x) ! fst (snd x)" ss]
  have "artifact_counts api encoding ta pv ss a"
    unfolding artifact_counts_def Let_def
  proof (intro allI conjI)
    fix key label
    show "(bt_get (pa_next_counts a) key = None) = (filter (\<lambda>x. sample_key api encoding x = key) ss = [])"
      using fc [of key] by (auto simp: a_def s_def record_fields filter_empty_conv image_iff)
    show "next_count (pa_next_counts a) key label =
        length (filter (\<lambda>(e, index, order). activity_path e ! index = label) (filter (\<lambda>x. sample_key api encoding x = key) ss))"
      using fc [of key label] by (simp add: a_def s_def record_fields next_count_def case_prod_unfold conj_commute)
    show "(case bt_get (pa_next_counts a) key of None \<Rightarrow> 0 | Some c \<Rightarrow> sum_list (map snd c)) = length (filter (\<lambda>x. sample_key api encoding x = key) ss)"
      using fold_count_total [OF ok, of "sample_key api encoding" "\<lambda>x. activity_path (fst x) ! fst (snd x)" ss key]
      by (simp add: a_def s_def record_fields)
    show "case bt_get (pa_remaining a) key of None \<Rightarrow> filter (\<lambda>x. sample_key api encoding x = key) ss = []
       | Some x \<Rightarrow> ns_support x = length (filter (\<lambda>x. sample_key api encoding x = key) ss) \<and> filter (\<lambda>x. sample_key api encoding x = key) ss \<noteq> [] \<and>
           {ns_lower x, ns_upper x} \<subseteq> (\<lambda>(e, index, order). f64_max (seconds_between (pe_events e ! index) (last (pe_events e))) f64_zero) `
             set (filter (\<lambda>x. sample_key api encoding x = key) ss)"
    proof (cases "filter (\<lambda>x. sample_key api encoding x = key) ss = []")
      case True
      then show ?thesis using those_pairs [OF r, of key] by (simp add: a_def rem filter_empty_conv)
    next
      case False
      define here where "here = filter (\<lambda>x. sample_key api encoding x = key) ss"
      have "bt_get (fs_remaining s) key = Some (map dur here)" using False by (auto simp: rem here_def filter_empty_conv)
      moreover obtain x where "summarise (map dur here) = Some x" "ns_support x = length here" "ns_lower x \<in> dur ` set here" "ns_upper x \<in> dur ` set here"
        using summarise_Some [of "map dur here"] False short by (auto simp: here_def)
      ultimately show ?thesis using those_pairs [OF r, of key] False by (simp add: a_def here_def dur_def case_prod_unfold)
    qed
    show "bt_get (pa_binary a) key = (if filter (\<lambda>x. outcome_of ta pv (fst x) \<noteq> None) (filter (\<lambda>x. sample_key api encoding x = key) ss) = [] then None
      else Some \<lparr>bs_positive = length (filter (\<lambda>x. outcome_of ta pv (fst x) = Some True)
          (filter (\<lambda>x. outcome_of ta pv (fst x) \<noteq> None) (filter (\<lambda>x. sample_key api encoding x = key) ss))),
        bs_total = length (filter (\<lambda>x. outcome_of ta pv (fst x) \<noteq> None) (filter (\<lambda>x. sample_key api encoding x = key) ss))\<rparr>)"
      using binary_fold [where m = "[]" and out = "\<lambda>x. outcome_of ta pv (fst x)" and key = "sample_key api encoding" and xs = ss and k = key]
      by (simp add: a_def s_def record_fields Let_def conj_commute cong: filter_cong)
  qed
  moreover have "table_ok (pa_next_counts a)" using fc by (simp add: a_def s_def record_fields)
  moreover have "build_artifact api es dataset target maximum_order encoding ta pv = Some (prediction_finalize api a)"
    by (simp add: build_artifact_def s r Let_def a_def)
  moreover have "pa_schema_version a = ''1.0''" "pa_target a = target" "pa_maximum_order a = maximum_order" "pa_feature_encoding a = encoding"
    by (simp_all add: a_def)
  ultimately show ?thesis unfolding ss_def by blast
qed

section \<open>Backing off\<close>

lemma find_map_rev:
  "find (\<lambda>(key, _). P key) (map (\<lambda>k. (g k, k)) (rev [0..<Suc n])) = Some (key, k) \<longleftrightarrow>
    k \<le> n \<and> key = g k \<and> P key \<and> (\<forall>k'. k < k' \<and> k' \<le> n \<longrightarrow> \<not> P (g k'))"
proof (induction n)
  case (Suc n)
  have "find (\<lambda>(key, _). P key) (map (\<lambda>k. (g k, k)) (rev [0..<Suc (Suc n)])) =
      (if P (g (Suc n)) then Some (g (Suc n), Suc n) else find (\<lambda>(key, _). P key) (map (\<lambda>k. (g k, k)) (rev [0..<Suc n])))" by simp
  then show ?case using Suc.IH by (auto simp: le_Suc_eq simp del: upt_Suc)
qed auto

lemma find_map_rev_None:
  "find (\<lambda>(key, _). P key) (map (\<lambda>k. (g k, k)) (rev [0..<Suc n])) = None \<longleftrightarrow> (\<forall>k \<le> n. \<not> P (g k))"
  by (auto simp: find_None_iff simp del: upt_Suc)

lemma backoff_longest:
  "backoff_key api path object_count maximum_order encoding exist = Some (key, k) \<longleftrightarrow>
    k \<le> min maximum_order (length path) \<and> key = feature_key api (drop (length path - k) path) encoding (length path) object_count \<and> exist key \<and>
    (\<forall>k'. k < k' \<and> k' \<le> min maximum_order (length path) \<longrightarrow>
      \<not> exist (feature_key api (drop (length path - k') path) encoding (length path) object_count))"
  unfolding backoff_key_def by (rule find_map_rev)

section \<open>Prediction from a fitted artifact\<close>

lemma finalize_Ok: "prediction_finalize api a = Ok b \<Longrightarrow> b = a\<lparr>pa_content_hash := pa_content_hash b\<rparr>"
  by (auto simp: prediction_finalize_def Let_def result_simps)

lemma fit_inputs_Ok:
  "fit_inputs api process_executions profile request = Ok (es, pf, pv) \<Longrightarrow>
    process_executions (fq_view request) LeadingObject (parameter_str api (fq_parameters request) ''leading_object_type'') = Ok es"
  by (auto simp: fit_inputs_def result_simps)

text \<open>
  Fitting on valid inputs with fewer than \<open>2 ^ 53\<close> samples returns and does not run off a sorted sample list; the
  artifact it seals holds, for every key, exactly the counts of the activities that followed, the number of
  remaining-time samples with interval bounds among them, and the positive and total outcomes of the
  executions whose last event has the target attribute.
\<close>

theorem fit_counts:
  assumes "fit_inputs api process_executions profile request = Ok (es, pf, pv)"
    and "length (samples (maximum_order_of api (fq_parameters request)) es) < 2 ^ 53"
  shows "\<exists>a. fit api process_executions profile request = Some (prediction_finalize api a) \<and>
    artifact_counts api (feature_encoding_of api (fq_parameters request)) (parameter_str api (fq_parameters request) ''target_attribute'') pv
      (samples (maximum_order_of api (fq_parameters request)) es) a"
  using build_artifact_counts [OF assms(2), where api = api and dataset = "dp_dataset_id pf" and target = "fq_target request"
      and encoding = "feature_encoding_of api (fq_parameters request)"
      and ta = "parameter_str api (fq_parameters request) ''target_attribute''" and pv = pv] assms(1)
  by (auto simp: fit_def)

text \<open>The activities that followed a context in the training executions, for contexts up to the maximum order.\<close>

definition followers :: "nat \<Rightarrow> process_execution list \<Rightarrow> string list \<Rightarrow> string list" where
  "followers maximum_order es context =
    map (\<lambda>(e, index, order). activity_path e ! index) (filter (\<lambda>(e, index, order). context_at e index order = context) (samples maximum_order es))"

lemma sequential_here:
  assumes "inj (js_activities_text api)"
  shows "filter (\<lambda>x. sample_key api ''sequential'' x = js_activities_text api context) ss =
    filter (\<lambda>(e, index, order). context_at e index order = context) ss"
  by (rule filter_cong) (auto simp: sample_key_def feature_key_def inj_eq [OF assms])

lemma counts_nonempty:
  fixes c :: "(string, nat) btree_map"
  assumes "bt_inv c" "\<And>a n. bt_get c a = Some n \<Longrightarrow> 0 < n"
  shows "distinct (map fst c)" "(a, n) \<in> set c \<longleftrightarrow> 0 < n \<and> n = (case bt_get c a of None \<Rightarrow> 0 | Some n \<Rightarrow> n)"
proof -
  show "distinct (map fst c)" using assms(1) by (rule bt_inv_distinct)
  have "(a, n) \<in> set c \<longleftrightarrow> bt_get c a = Some n" by (rule bt.entries_in) (rule assms(1))
  then show "(a, n) \<in> set c \<longleftrightarrow> 0 < n \<and> n = (case bt_get c a of None \<Rightarrow> 0 | Some n \<Rightarrow> n)"
    using assms(2) [of a] by (auto split: option.splits)
qed

lemma next_candidates_facts:
  assumes "bt_inv c" "\<And>a n. bt_get c a = Some n \<Longrightarrow> 0 < n"
  shows "set (next_candidates c) = {\<lparr>pc_label = a, pc_probability = f64_div (f64_of_nat n) (f64_of_nat (u64_sum (map snd c)))\<rparr> | a n.
      0 < n \<and> n = (case bt_get c a of None \<Rightarrow> 0 | Some n \<Rightarrow> n)}"
    "distinct (map pc_label (next_candidates c))"
    "sorted_wrt (\<lambda>x y. \<not> f64_total_lt (pc_probability x) (pc_probability y)) (next_candidates c)"
proof -
  define cs where "cs = map (\<lambda>(label, n). \<lparr>pc_label = label, pc_probability = f64_div (f64_of_nat n) (f64_of_nat (u64_sum (map snd c)))\<rparr>) c"
  have nc: "next_candidates c = sort_by candidate_le cs" by (simp add: next_candidates_def cs_def)
  have m: "mset (next_candidates c) = mset cs" by (simp add: nc)
  show "set (next_candidates c) = {\<lparr>pc_label = a, pc_probability = f64_div (f64_of_nat n) (f64_of_nat (u64_sum (map snd c)))\<rparr> | a n.
      0 < n \<and> n = (case bt_get c a of None \<Rightarrow> 0 | Some n \<Rightarrow> n)}"
    unfolding mset_eq_setD [OF m] cs_def set_map by (auto simp: counts_nonempty(2) [OF assms] image_iff Bex_def)
  have "mset (map pc_label (next_candidates c)) = mset (map pc_label cs)" using m by simp
  moreover have "map pc_label cs = map fst c" by (simp add: cs_def split_beta)
  ultimately show "distinct (map pc_label (next_candidates c))"
    using mset_eq_imp_distinct_iff bt_inv_distinct [OF assms(1)] by metis
  show "sorted_wrt (\<lambda>x y. \<not> f64_total_lt (pc_probability x) (pc_probability y)) (next_candidates c)"
    unfolding nc by (rule sort_by_score(2)) (rule candidate_le_def)
qed

lemma artifact_nextD:
  assumes "artifact_counts api encoding ta pv ss a"
  shows "bt_get (pa_next_counts a) key = None \<longleftrightarrow> filter (\<lambda>x. sample_key api encoding x = key) ss = []"
    "next_count (pa_next_counts a) key label =
      length (filter (\<lambda>(e, index, order). activity_path e ! index = label) (filter (\<lambda>x. sample_key api encoding x = key) ss))"
    "(case bt_get (pa_next_counts a) key of None \<Rightarrow> 0 | Some c \<Rightarrow> sum_list (map snd c)) = length (filter (\<lambda>x. sample_key api encoding x = key) ss)"
  using assms unfolding artifact_counts_def Let_def by blast+

text \<open>What a next-activity prediction means: the longest suffix of the state with followers, and their shares.\<close>

definition predicts_next :: "nat \<Rightarrow> process_execution list \<Rightarrow> string list \<Rightarrow> 'j prediction_result \<Rightarrow> bool" where
  "predicts_next maximum_order es path r \<longleftrightarrow> (\<exists>k \<le> min maximum_order (length path).
     let after = (\<lambda>k. followers maximum_order es (drop (length path - k) path)) in
     after k \<noteq> [] \<and> (\<forall>k'. k < k' \<longrightarrow> k' \<le> min maximum_order (length path) \<longrightarrow> after k' = []) \<and>
     pr_backoff_level r = ''order_'' @ show_nat k \<and> pr_support r = length (after k) \<and>
     set (pr_candidates r) = {\<lparr>pc_label = a, pc_probability = f64_div (f64_of_nat (count_list (after k) a)) (f64_of_nat (length (after k)))\<rparr> | a.
       a \<in> set (after k)} \<and>
     distinct (map pc_label (pr_candidates r)) \<and>
     sorted_wrt (\<lambda>x y. \<not> f64_total_lt (pc_probability x) (pc_probability y)) (pr_candidates r))"

lemma count_list_map: "count_list (map f xs) a = length (filter (\<lambda>x. f x = a) xs)"
  by (induction xs) auto

lemma predict_with_next:
  assumes inj: "inj (js_activities_text api)" and a: "artifact_counts api ''sequential'' ta pv (samples maximum_order es) a"
    "table_ok (pa_next_counts a)" "pa_maximum_order a = maximum_order" "pa_feature_encoding a = ''sequential''"
    and b: "b = a\<lparr>pa_content_hash := h\<rparr>" and t: "pq_target request = NextActivity" and short: "length (samples maximum_order es) < 2 ^ 53"
    and r: "predict_with api request b = Some (Ok r)"
  shows "predicts_next maximum_order es (ps_activities (pq_state request)) r"
proof -
  define path where "path = ps_activities (pq_state request)"
  define n where "n = length (ps_object_ids (pq_state request))"
  define after where "after k = followers maximum_order es (drop (length path - k) path)" for k
  have key: "feature_key api (drop (length path - k) path) ''sequential'' (length path) n = js_activities_text api (drop (length path - k) path)" for k
    by (simp add: feature_key_def)
  have here: "filter (\<lambda>x. sample_key api ''sequential'' x = js_activities_text api (drop (length path - k) path)) (samples maximum_order es) =
      filter (\<lambda>(e, index, order). context_at e index order = drop (length path - k) path) (samples maximum_order es)" for k
    by (rule sequential_here [OF inj])
  have support: "has_support NextActivity b (js_activities_text api (drop (length path - k) path)) \<longleftrightarrow> after k \<noteq> []" for k
    using artifact_nextD(1) [OF a(1)] by (simp add: has_support_def b here after_def followers_def)
  obtain key k where bo: "backoff_key api path n maximum_order ''sequential'' (has_support NextActivity b) = Some (key, k)"
    and ans: "answer NextActivity b key \<lparr>pr_candidates = [], pr_point_estimate_seconds = None, pr_interval_seconds = None,
      pr_backoff_level = ''order_'' @ show_nat k, pr_support = 0, pr_model_hash = Some (pa_content_hash b),
      pr_diagnostics = [(''feature_encoding'', js_string api (pa_feature_encoding b))]\<rparr> = Some r"
    using r t a(3,4) unfolding predict_with_def path_def n_def
    by (auto simp: b result_simps split: sum.splits prod.splits)
  note longest = bo [unfolded backoff_longest, unfolded key support]
  have k: "k \<le> min maximum_order (length path)" "key = js_activities_text api (drop (length path - k) path)" "after k \<noteq> []"
    "\<forall>k'. k < k' \<longrightarrow> k' \<le> min maximum_order (length path) \<longrightarrow> after k' = []"
    using longest support [of k] by auto
  obtain c where c: "bt_get (pa_next_counts a) key = Some c" and rc: "pr_support r = u64_sum (map snd c)" "pr_candidates r = next_candidates c"
    "pr_backoff_level r = ''order_'' @ show_nat k" using ans by (auto simp: answer_def b)
  have ok: "bt_inv c" "\<And>x m. bt_get c x = Some m \<Longrightarrow> 0 < m" using a(2) c by (auto simp: table_ok_def)
  have counts: "(case bt_get c x of None \<Rightarrow> 0 | Some m \<Rightarrow> m) = count_list (after k) x" for x
  proof -
    have "next_count (pa_next_counts a) key x = (case bt_get c x of None \<Rightarrow> 0 | Some m \<Rightarrow> m)" by (simp add: next_count_def c)
    moreover have "next_count (pa_next_counts a) key x = count_list (after k) x"
      unfolding artifact_nextD(2) [OF a(1)] k(2) here after_def followers_def count_list_map by (simp add: case_prod_unfold)
    ultimately show ?thesis by simp
  qed
  have sum: "sum_list (map snd c) = length (after k)"
    using artifact_nextD(3) [OF a(1), of key] c k(2) by (simp add: here after_def followers_def)
  have "length (after k) \<le> length (samples maximum_order es)" by (simp add: after_def followers_def)
  then have u: "u64_sum (map snd c) = length (after k)" using short by (simp add: u64_sum_exact sum u64_max_def)
  have "set (pr_candidates r) = {\<lparr>pc_label = x, pc_probability = f64_div (f64_of_nat (count_list (after k) x)) (f64_of_nat (length (after k)))\<rparr> | x.
      x \<in> set (after k)}"
  proof -
    have "set (next_candidates c) = {\<lparr>pc_label = x, pc_probability = f64_div (f64_of_nat m) (f64_of_nat (length (after k)))\<rparr> | x m.
        0 < m \<and> m = count_list (after k) x}" using next_candidates_facts(1) [OF ok] by (simp only: u counts)
    moreover have "0 < count_list (after k) x \<longleftrightarrow> x \<in> set (after k)" for x by (metis count_list_0_iff gr0I less_numeral_extra(3))
    ultimately show ?thesis unfolding rc(2) by auto
  qed
  then show ?thesis
    using k next_candidates_facts(2,3) [OF ok] rc u
    unfolding predicts_next_def Let_def path_def [symmetric] after_def [symmetric] by auto
qed

lemma validate_finalized_prediction:
  assumes "prediction_finalize api a = Ok b" "pa_schema_version a = ''1.0''" "pa_feature_encoding a = ''sequential''"
  shows "prediction_validate api b = Ok ()"
proof -
  obtain h where h: "js_content_hash api (a\<lparr>pa_content_hash := []\<rparr>) = Ok h" "b = a\<lparr>pa_content_hash := h\<rparr>"
    using assms(1) by (auto simp: prediction_finalize_def Let_def result_simps)
  then show ?thesis using assms(2,3) by (simp add: prediction_validate_def prediction_finalize_def Let_def ensure_def)
qed

lemma followers_empty_context: "followers maximum_order es [] = [] \<longleftrightarrow> (\<forall>e \<in> set es. activity_path e = [])"
proof
  assume none: "followers maximum_order es [] = []"
  show "\<forall>e \<in> set es. activity_path e = []"
  proof
    fix e assume e: "e \<in> set es"
    show "activity_path e = []"
    proof (rule ccontr)
      assume "activity_path e \<noteq> []"
      then have "(e, 0, 0) \<in> set (samples maximum_order es)" using e by (simp add: samples_in)
      then show False using none by (auto simp: followers_def filter_empty_conv context_at_def)
    qed
  qed
next
  assume "\<forall>e \<in> set es. activity_path e = []"
  then have "samples maximum_order es = []" by (simp add: samples_def)
  then show "followers maximum_order es [] = []" by (simp add: followers_def)
qed

text \<open>
  C21: a next-activity request without a model, with valid parameters, the sequential encoding and key texts that
  tell activity lists apart, is always answered. When training saw an event, the backoff level is the longest
  suffix of the state, within the maximum order, that was followed by an activity; the candidates are exactly the
  activities that followed it, each once, with their share of the occurrences, in descending order; the
  support counts the occurrences. Otherwise the answer is \<open>InsufficientData\<close>. (This is what the code does where the
  specification of the engine asks for more: the shares are not smoothed, the levels are suffixes of the activities only,
  without one for the object type, and a single occurrence is support enough for a level.)
\<close>

theorem predict_next_activity:
  assumes "fit_inputs api process_executions profile (fit_request request) = Ok (es, pf, pv)"
    and "pq_target request = NextActivity" "pq_model_artifact request = None"
    and "feature_encoding_of api (pq_parameters request) = ''sequential''" and "inj (js_activities_text api)"
    and "\<forall>a. is_ok (js_content_hash api a)"
    and "length (samples (maximum_order_of api (pq_parameters request)) es) < 2 ^ 53"
  shows "if \<exists>e \<in> set es. activity_path e \<noteq> []
    then \<exists>r. predict api process_executions profile request = Some (Ok r) \<and>
      predicts_next (maximum_order_of api (pq_parameters request)) es (ps_activities (pq_state request)) r
    else \<exists>x. predict api process_executions profile request = Some (Err x) \<and> err_code x = InsufficientData"
proof -
  define n where "n = maximum_order_of api (pq_parameters request)"
  define path where "path = ps_activities (pq_state request)"
  obtain a where a: "build_artifact api es (dp_dataset_id pf) (pq_target request) n ''sequential''
      (parameter_str api (pq_parameters request) ''target_attribute'') pv = Some (prediction_finalize api a)"
    "pa_schema_version a = ''1.0''" "pa_target a = NextActivity" "pa_maximum_order a = n" "pa_feature_encoding a = ''sequential''" "table_ok (pa_next_counts a)"
    "artifact_counts api ''sequential'' (parameter_str api (pq_parameters request) ''target_attribute'') pv (samples n es) a"
    using build_artifact_counts [OF assms(7)] assms(2) unfolding n_def by metis
  obtain b where b: "prediction_finalize api a = Ok b"
  proof -
    obtain h where "js_content_hash api (a\<lparr>pa_content_hash := []\<rparr>) = Ok h" using assms(6) by (auto simp: is_ok_iff)
    then show thesis by (intro that) (simp add: prediction_finalize_def)
  qed
  obtain h where fin: "b = a\<lparr>pa_content_hash := h\<rparr>" using finalize_Ok [OF b] by blast
  have v: "pq_semantic_version request = ''1.0''"
    using assms(1) by (auto simp: fit_inputs_def fit_checks_def fit_request_def Let_def result_simps)
  have fit: "fit api process_executions profile (fit_request request) = Some (Ok b)"
    using assms(1,4) a(1) b by (simp add: fit_def fit_request_def n_def)
  then have p: "predict api process_executions profile request = predict_with api request b"
    using assms(3) v by (simp add: predict_def)
  have fields: "pa_target b = NextActivity" "pa_maximum_order b = n" "pa_feature_encoding b = ''sequential''" "pa_next_counts b = pa_next_counts a"
    using a(3-5) by (simp_all add: fin)
  have valid: "prediction_validate api b = Ok ()" by (rule validate_finalized_prediction [OF b a(2,5)])
  have support: "has_support NextActivity b (js_activities_text api ctx) \<longleftrightarrow> followers n es ctx \<noteq> []" for ctx
    using artifact_nextD(1) [OF a(7)] by (simp add: has_support_def fields(4) sequential_here [OF assms(5)] followers_def)
  have samp: "samples n es = []" if "\<not> (\<exists>e \<in> set es. activity_path e \<noteq> [])"
    using that by (simp add: samples_def)
  show ?thesis
  proof (cases "\<exists>e \<in> set es. activity_path e \<noteq> []")
    case True
    then have "followers n es [] \<noteq> []" by (simp add: followers_empty_context)
    then have "has_support NextActivity b (feature_key api (drop (length path - 0) path) ''sequential'' (length path) k)" for k
      by (simp add: feature_key_def support)
    then have "backoff_key api path k n ''sequential'' (has_support NextActivity b) \<noteq> None" for k
      unfolding backoff_key_def find_map_rev_None by blast
    then obtain key k where bo: "backoff_key api path (length (ps_object_ids (pq_state request))) n ''sequential'' (has_support NextActivity b) = Some (key, k)"
      by fastforce
    then have "bt_get (pa_next_counts b) key \<noteq> None" by (auto simp: backoff_longest has_support_def)
    then obtain r where r: "predict_with api request b = Some (Ok r)"
      using bo valid fields by (auto simp: predict_with_def path_def assms(2) ensure_def answer_def)
    from predict_with_next [OF assms(5) a(7,6,4,5) fin assms(2) assms(7) [folded n_def] r] True p r show ?thesis by (auto simp: n_def)
  next
    case False
    have "followers n es ctx = []" for ctx using samp [OF False] by (simp add: followers_def)
    then have "backoff_key api path k n ''sequential'' (has_support NextActivity b) = None" for k
      unfolding backoff_key_def find_map_rev_None by (simp add: feature_key_def support)
    then show ?thesis using False valid fields p
      by (simp add: predict_with_def path_def assms(2) ensure_def ok_or_def ocpm_error_new_def)
  qed
qed

section \<open>The temporal holdout\<close>

lemma holdout_index_Some:
  assumes "index < length (activity_path e)"
  shows "\<exists>s'. holdout_index api target a e index s = Some s' \<and> hs_evaluated s \<le> hs_evaluated s' \<and> hs_evaluated s' \<le> hs_evaluated s + 1"
proof -
  have len: "index < length (pe_events e)" using assms by (simp add: activity_path_def)
  then have ne: "pe_events e \<noteq> []" by auto
  show ?thesis
  proof (cases "backoff_key api (take index (activity_path e)) (length (pe_object_ids e)) (pa_maximum_order a) (pa_feature_encoding a) (has_support target a)")
    case None
    then show ?thesis by (simp add: holdout_index_def)
  next
    case (Some kk)
    obtain key k where kk: "kk = (key, k)" by (cases kk)
    have "has_support target a key" using Some unfolding kk backoff_longest by blast
    then show ?thesis using Some len ne assms
      by (cases target) (auto simp: kk holdout_index_def has_support_def nth_opt_def last_opt_def Let_def split: option.splits)
  qed
qed

lemma holdout_fold_Some:
  assumes "\<forall>x \<in> set xs. \<forall>s. \<exists>s'. f x s = Some s' \<and> hs_evaluated s \<le> hs_evaluated s' \<and> hs_evaluated s' \<le> hs_evaluated s + g x"
  shows "\<exists>s'. fold_opt f xs s = Some s' \<and> hs_evaluated s' \<le> hs_evaluated s + sum_list (map g xs)"
  using assms
proof (induction xs arbitrary: s)
  case (Cons x xs)
  have "\<exists>s1. f x s = Some s1 \<and> hs_evaluated s \<le> hs_evaluated s1 \<and> hs_evaluated s1 \<le> hs_evaluated s + g x"
    using Cons.prems by simp
  then obtain s1 where s1: "f x s = Some s1" "hs_evaluated s1 \<le> hs_evaluated s + g x" by blast
  moreover obtain s2 where "fold_opt f xs s1 = Some s2" "hs_evaluated s2 \<le> hs_evaluated s1 + sum_list (map g xs)"
    using Cons.IH [of s1] Cons.prems by auto
  ultimately show ?case by simp
qed simp

lemma holdout_inputs_Ok:
  assumes "holdout_inputs api process_executions profile view fraction parameters = Ok (es, split, pv, pf)"
  shows "\<exists>raw. process_executions view LeadingObject None = Ok raw \<and> es = sort_key completion_key raw"
    "0 < split" "split < length es"
  using assms by (auto simp: holdout_inputs_def holdout_executions_def Let_def result_simps)

lemma holdout_execution_Some:
  "\<exists>s'. holdout_execution api target a e s = Some s' \<and> hs_evaluated s' \<le> hs_evaluated s + length (activity_path e)"
proof -
  have "\<forall>x \<in> set [0..<length (activity_path e)]. \<forall>s. \<exists>s'. holdout_index api target a e x s = Some s' \<and>
      hs_evaluated s \<le> hs_evaluated s' \<and> hs_evaluated s' \<le> hs_evaluated s + 1"
    by (intro ballI allI holdout_index_Some) simp
  from holdout_fold_Some [OF this, of s] show ?thesis by (simp add: holdout_execution_def sum_list_triv)
qed

lemma holdout_execution_grows:
  assumes "holdout_execution api target a e s = Some s'"
  shows "hs_evaluated s \<le> hs_evaluated s'"
proof -
  have "hs_evaluated s \<le> hs_evaluated s'" if "fold_opt (holdout_index api target a e) xs s = Some s'" "\<forall>x \<in> set xs. x < length (activity_path e)" for xs s s'
    using that
  proof (induction xs arbitrary: s)
    case (Cons x xs)
    obtain s1 where "holdout_index api target a e x s = Some s1" "hs_evaluated s \<le> hs_evaluated s1"
      using holdout_index_Some [of x e api target a s] Cons.prems(2) by auto
    then show ?case using Cons.IH [of s1] Cons.prems by simp
  qed simp
  then show ?thesis using assms by (simp add: holdout_execution_def)
qed

text \<open>
  C22: on valid inputs the temporal holdout returns, without running off a list or indexing a missing key; its
  training and test partitions are both nonempty, together they are the executions of the provider, no
  test execution completed before a training execution, the model evaluated is the one fitted on the
  training partition alone, and the support is positive and bounded by the test events.
\<close>

theorem holdout_leak_free:
  assumes "holdout_inputs api process_executions profile view fraction parameters = Ok (es, split, pv, pf)"
    and "length (samples (maximum_order_of api parameters) (take split es)) < 2 ^ 53"
  shows "\<exists>result. evaluate_temporal_holdout api process_executions profile view target fraction parameters = Some result \<and>
    (\<exists>raw. process_executions view LeadingObject None = Ok raw \<and> mset (take split es) + mset (drop split es) = mset raw) \<and>
    take split es \<noteq> [] \<and> drop split es \<noteq> [] \<and>
    (\<forall>train \<in> set (take split es). \<forall>test \<in> set (drop split es). completion_key train \<le> completion_key test) \<and>
    (\<forall>r. result = Ok r \<longrightarrow> 0 < pr_support r \<and> pr_support r \<le> sum_list (map (\<lambda>e. length (activity_path e)) (drop split es)) \<and>
      (\<exists>artifact. build_artifact api (take split es) (dp_dataset_id pf) target (maximum_order_of api parameters)
        (feature_encoding_of api parameters) (parameter_str api parameters ''target_attribute'') pv = Some (Ok artifact) \<and>
        pr_model_hash r = Some (pa_content_hash artifact)))"
proof -
  note inp = holdout_inputs_Ok [OF assms(1)]
  obtain raw where raw: "process_executions view LeadingObject None = Ok raw" "es = sort_key completion_key raw" using inp(1) by blast
  have parts: "mset (take split es) + mset (drop split es) = mset raw"
    by (metis append_take_drop_id mset_append mset_sort raw(2))
  have ne: "take split es \<noteq> []" "drop split es \<noteq> []" using inp(2,3) by auto
  have sorted: "\<forall>train \<in> set (take split es). \<forall>test \<in> set (drop split es). completion_key train \<le> completion_key test"
  proof -
    have "sorted (map completion_key (take split es @ drop split es))" unfolding append_take_drop_id raw(2) by (rule sorted_sort_key)
    then show ?thesis unfolding map_append sorted_append by simp
  qed
  obtain a where a: "build_artifact api (take split es) (dp_dataset_id pf) target (maximum_order_of api parameters)
      (feature_encoding_of api parameters) (parameter_str api parameters ''target_attribute'') pv = Some (prediction_finalize api a)"
    using build_artifact_counts [OF assms(2)] by blast
  define result where "result = (case prediction_finalize api a of Err e \<Rightarrow> Some (Err e)
    | Ok artifact \<Rightarrow> map_option (holdout_result api target parameters artifact split (length es))
        (fold_opt (holdout_execution api target artifact) (drop split es)
          \<lparr>hs_evaluated = 0, hs_correct = 0, hs_absolute_error = f64_zero, hs_interval_hits = 0, hs_brier = f64_zero\<rparr>))"
  have ev: "evaluate_temporal_holdout api process_executions profile view target fraction parameters = result"
    by (simp add: evaluate_temporal_holdout_def assms(1) a result_def split: sum.split)
  have fold: "\<exists>s. fold_opt (holdout_execution api target artifact) (drop split es)
      \<lparr>hs_evaluated = 0, hs_correct = 0, hs_absolute_error = f64_zero, hs_interval_hits = 0, hs_brier = f64_zero\<rparr> = Some s \<and>
      hs_evaluated s \<le> sum_list (map (\<lambda>e. length (activity_path e)) (drop split es))" for artifact
  proof -
    have "\<forall>x \<in> set (drop split es). \<forall>s. \<exists>s'. holdout_execution api target artifact x s = Some s' \<and>
        hs_evaluated s \<le> hs_evaluated s' \<and> hs_evaluated s' \<le> hs_evaluated s + length (activity_path x)"
      using holdout_execution_Some holdout_execution_grows by blast
    from holdout_fold_Some [OF this] show ?thesis by fastforce
  qed
  show ?thesis
  proof (cases "prediction_finalize api a")
    case (Inl e)
    then show ?thesis using ev raw(1) parts ne sorted by (auto simp: result_def)
  next
    case (Inr artifact)
    obtain st where st: "fold_opt (holdout_execution api target artifact) (drop split es)
        \<lparr>hs_evaluated = 0, hs_correct = 0, hs_absolute_error = f64_zero, hs_interval_hits = 0, hs_brier = f64_zero\<rparr> = Some st"
      "hs_evaluated st \<le> sum_list (map (\<lambda>e. length (activity_path e)) (drop split es))" using fold [of artifact] by blast
    define hr where "hr = holdout_result api target parameters artifact split (length es) st"
    have run: "evaluate_temporal_holdout api process_executions profile view target fraction parameters = Some hr"
      by (simp add: ev result_def Inr st(1) hr_def)
    have trained: "build_artifact api (take split es) (dp_dataset_id pf) target (maximum_order_of api parameters)
        (feature_encoding_of api parameters) (parameter_str api parameters ''target_attribute'') pv = Some (Ok artifact)" by (simp add: a Inr)
    have facts: "0 < pr_support r" "pr_support r \<le> sum_list (map (\<lambda>e. length (activity_path e)) (drop split es))"
      "pr_model_hash r = Some (pa_content_hash artifact)" if "hr = Ok r" for r
      using that st(2) by (auto simp: hr_def holdout_result_def split: if_splits)
    show ?thesis
      using run raw(1) parts ne sorted trained facts by (intro exI [of _ hr] conjI) blast+
  qed
qed

section \<open>Witnesses\<close>

text \<open>Key texts that tell activity lists apart: each character is marked, each activity ends in a comma.\<close>

fun marked_text :: "string list \<Rightarrow> string" where
  "marked_text [] = []"
| "marked_text ([] # xs) = CHR '','' # marked_text xs"
| "marked_text ((c # s) # xs) = CHR ''-'' # c # marked_text (s # xs)"

lemma marked_text_inj: "inj marked_text"
proof (rule injI)
  show "xs = ys" if "marked_text xs = marked_text ys" for xs ys
    using that
  proof (induction xs arbitrary: ys rule: marked_text.induct)
    case 1
    then show ?case by (cases ys rule: marked_text.cases) simp_all
  next
    case (2 xs)
    then show ?case by (cases ys rule: marked_text.cases) simp_all
  next
    case (3 c s xs)
    then obtain s' zs where ys: "ys = (c # s') # zs" "marked_text (s # xs) = marked_text (s' # zs)"
      by (cases ys rule: marked_text.cases) auto
    then show ?case using "3.IH" [of "s' # zs"] by simp
  qed
qed

definition unit_api :: "unit json_api" where
  "unit_api = \<lparr>js_shape = (\<lambda>_. JsonNull), js_as_str = (\<lambda>_. None), js_as_u64 = (\<lambda>_. None), js_activities_text = marked_text,
     js_tabular_text = (\<lambda>_ _ _ _. []), js_artifact = (\<lambda>_. Inl []), js_content_hash = (\<lambda>_. Ok ''h''), js_string = (\<lambda>_. ()),
     js_nat = (\<lambda>_. ()), js_f64 = (\<lambda>_. ()), js_target = (\<lambda>_. ()), js_object = (\<lambda>_. ())\<rparr>"

definition two_paths :: "process_execution list" where
  "two_paths = [path_execution [''a'', ''b''], path_execution [''a'', ''c'']]"

definition paths_method :: executions_method where
  "paths_method view mode leading = Ok two_paths"

definition paths_profile :: dataset_profile where
  "paths_profile = \<lparr>dp_dataset_id = ''d'', dp_tenant_id = ''t'', dp_source_watermark = None, dp_event_count = 4, dp_object_count = 0,
     dp_e2o_count = 0, dp_o2o_count = 0, dp_object_attribute_change_count = 0, dp_activities = [], dp_object_types = [],
     dp_start = None, dp_end = None\<rparr>"

definition after_a :: "unit prediction_request" where
  "after_a = \<lparr>pq_semantic_version = ''1.0'', pq_view = default_view, pq_target = NextActivity,
     pq_state = \<lparr>ps_event_ids = [], ps_object_ids = [], ps_activities = [''x'', ''a''], ps_as_of = Timestamp 0 None, ps_attributes = []\<rparr>,
     pq_model_artifact = None, pq_parameters = []\<rparr>"

lemma after_a_inputs: "fit_inputs unit_api paths_method (\<lambda>_. Ok paths_profile) (fit_request after_a) = Ok (two_paths, paths_profile, None)"
  by (simp add: fit_inputs_def fit_checks_def fit_request_def after_a_def maximum_order_of_def feature_encoding_of_def parameter_str_def
      validate_feature_encoding_def paths_method_def two_paths_def positive_value_of_def bt_get_def ensure_def)

lemma after_a_parameters: "maximum_order_of unit_api (pq_parameters after_a) = 3" "feature_encoding_of unit_api (pq_parameters after_a) = ''sequential''"
  by (simp_all add: after_a_def maximum_order_of_def feature_encoding_of_def parameter_str_def bt_get_def)

lemma two_paths_samples: "length (samples 3 two_paths) = 6"
  by (simp add: samples_def two_paths_def upt_rec)

theorem fit_counts_witness:
  "\<exists>a. fit unit_api paths_method (\<lambda>_. Ok paths_profile) (fit_request after_a) = Some (prediction_finalize unit_api a) \<and>
    next_count (pa_next_counts a) (marked_text [''a'']) ''b'' = 1"
proof -
  have "length (samples (maximum_order_of unit_api (fq_parameters (fit_request after_a))) two_paths) < 2 ^ 53"
    using two_paths_samples after_a_parameters(1) by (simp add: fit_request_def)
  from fit_counts [OF after_a_inputs this] obtain a where
    a: "fit unit_api paths_method (\<lambda>_. Ok paths_profile) (fit_request after_a) = Some (prediction_finalize unit_api a)"
    "artifact_counts unit_api ''sequential'' None None (samples 3 two_paths) a"
    using after_a_parameters by (auto simp: fit_request_def parameter_str_def after_a_def bt_get_def)
  have "next_count (pa_next_counts a) (marked_text [''a'']) ''b'' = 1"
    unfolding artifact_nextD(2) [OF a(2)]
    by (simp add: samples_def two_paths_def upt_rec sample_key_def feature_key_def unit_api_def context_at_def)
  then show ?thesis using a(1) by blast
qed

theorem predict_next_activity_witness:
  "\<exists>r. predict unit_api paths_method (\<lambda>_. Ok paths_profile) after_a = Some (Ok r) \<and> predicts_next 3 two_paths [''x'', ''a''] r"
proof -
  have "pq_target after_a = NextActivity" "pq_model_artifact after_a = None" "inj (js_activities_text unit_api)"
    "\<forall>a. is_ok (js_content_hash unit_api a)" "ps_activities (pq_state after_a) = [''x'', ''a'']"
    by (simp_all add: after_a_def unit_api_def marked_text_inj is_ok_iff)
  moreover have "\<exists>e \<in> set two_paths. activity_path e \<noteq> []" by (simp add: two_paths_def)
  ultimately show ?thesis
    using predict_next_activity [OF after_a_inputs _ _ after_a_parameters(2)] two_paths_samples after_a_parameters(1) by simp
qed

lemma round_mag_half: "round_mag (1 / 2) = 1 / 2"
proof (rule round_mag_grid)
  have il: "ilog2 (1 / 2) = -1" by (rule ilog2_eqI) (simp_all add: power_int_minus)
  have "(2::rat) powi (-1) = of_int (2 ^ 52) * 2 powi (-53)" using powi_multiple [of "-53" "-1"] by simp
  then show "1 / 2 = of_int (2 ^ 52) * ulp (1 / 2)" by (simp add: ulp_def il power_int_minus field_simps)
qed

lemma holdout_split_half: "holdout_split 2 (F_fin (1 / 2)) = 1"
proof -
  have "f64_sub f64_one (F_fin (1 / 2)) = F_fin (1 / 2)"
    by (simp add: f64_sub_def f64_round_def Let_def round_mag_half f64_limit_def)
  then show ?thesis using f64_of_nat_exact [of 2]
    by (simp add: holdout_split_def f64_mul_def f64_round_def Let_def f64_limit_def u64_max_def)
qed

lemma two_paths_holdout: "holdout_inputs unit_api paths_method (\<lambda>_. Ok paths_profile) default_view (F_fin (1 / 2)) [] = Ok (two_paths, 1, None, paths_profile)"
proof -
  have "holdout_executions two_paths = two_paths" by (simp add: holdout_executions_def two_paths_def completion_key_def path_execution_def last_opt_def sample_event_def)
  moreover have "length two_paths = 2" by (simp add: two_paths_def)
  ultimately show ?thesis
    by (simp add: holdout_inputs_def paths_method_def holdout_split_half feature_encoding_of_def parameter_str_def validate_feature_encoding_def
        positive_value_of_def bt_get_def ensure_def f64_le_def)
qed

theorem holdout_leak_free_witness:
  "\<exists>result. evaluate_temporal_holdout unit_api paths_method (\<lambda>_. Ok paths_profile) default_view NextActivity (F_fin (1 / 2)) [] = Some result"
proof -
  have "length (samples (maximum_order_of unit_api []) (take 1 two_paths)) < 2 ^ 53"
    by (simp add: samples_def two_paths_def upt_rec maximum_order_of_def bt_get_def)
  from holdout_leak_free [OF two_paths_holdout this, of NextActivity] show ?thesis by blast
qed

end
