(* ===== verification/Engine.thy ===== *)
theory Engine
  imports Local EventBatch Requests
begin

text \<open>
  The engine facade: \<open>crates/ocpm-engine/src/lib.rs\<close>, the operations with logic of their own. Appending rows to the log
  of a provider, the execution summary over a provider without one, execution plans, and the views that
  the PostgreSQL pushdown can preserve. \<open>from_log\<close> is \<open>local_new\<close>. The calls that only pass a request on to
  another component are not repeated here.
\<close>

section \<open>Appending a batch\<close>

definition batch_events :: "canonical_event_batch \<Rightarrow> event list" where
  "batch_events b = map (\<lambda>(((((((i, external_id), activity), ts), source), sq), lc), attrs).
     \<lparr>ev_id = i, ev_external_id = external_id, ev_activity = activity, ev_timestamp = Timestamp ts source,
      ev_sequence = sq, ev_lifecycle = lc, ev_attributes = attrs\<rparr>)
     (zip (zip (zip (zip (zip (zip (zip (ceb_event_id b) (ceb_external_event_id b)) (ceb_activity b)) (ceb_timestamp_nanos_utc b))
       (ceb_source_timestamp b)) (ceb_sequence b)) (ceb_lifecycle b)) (ceb_attributes b))"

definition batch_objects :: "object_batch \<Rightarrow> object list" where
  "batch_objects b = map (\<lambda>((i, external_id), kind). \<lparr>ob_id = i, ob_external_id = external_id, ob_type = kind\<rparr>)
     (zip (zip (obb_object_id b) (obb_external_object_id b)) (obb_object_type b))"

definition batch_changes :: "object_attribute_batch \<Rightarrow> object_attribute_change list" where
  "batch_changes b = map (\<lambda>(((i, name), valid_from), v).
     \<lparr>oac_object_id = i, oac_name = name, oac_valid_from = from_epoch_nanos valid_from, oac_value = v\<rparr>)
     (zip (zip (zip (oab_object_id b) (oab_name b)) (oab_valid_from_nanos_utc b)) (oab_value b))"

definition max_relation_id :: "'j canonical_log \<Rightarrow> nat" where
  "max_relation_id cl = fold max (map e2o_relation_id (log_e2o cl) @ map o2o_relation_id (log_o2o cl)) 0"

definition next_relation_id :: "nat \<Rightarrow> nat ocpm_result" where
  "next_relation_id n = ok_or (resource_limit ''relation ID overflow'' u64_max u64_max) (u64_checked_add n 1)"

definition push_e2o :: "nat \<times> event_object_relation list \<Rightarrow> (nat \<times> nat) \<times> string \<Rightarrow> (nat \<times> event_object_relation list) ocpm_result" where
  "push_e2o = (\<lambda>(relation_id, relations) ((event_id, object_id), qualifier).
     rbind (next_relation_id relation_id) (\<lambda>relation_id. Ok (relation_id, relations @
       [\<lparr>e2o_relation_id = relation_id, e2o_event_id = event_id, e2o_object_id = object_id, e2o_qualifier = qualifier\<rparr>])))"

definition push_o2o :: "nat \<times> object_object_relation list \<Rightarrow> (((nat \<times> nat) \<times> string) \<times> int option) \<times> int option
    \<Rightarrow> (nat \<times> object_object_relation list) ocpm_result" where
  "push_o2o = (\<lambda>(relation_id, relations) ((((source, target), qualifier), valid_from), valid_to).
     rbind (next_relation_id relation_id) (\<lambda>relation_id. Ok (relation_id, relations @
       [\<lparr>o2o_relation_id = relation_id, o2o_source_object_id = source, o2o_target_object_id = target, o2o_qualifier = qualifier,
         o2o_valid_from = map_option from_epoch_nanos valid_from, o2o_valid_to = map_option from_epoch_nanos valid_to\<rparr>])))"

definition e2o_columns :: "e2o_batch \<Rightarrow> ((nat \<times> nat) \<times> string) list" where
  "e2o_columns b = zip (zip (e2ob_event_id b) (e2ob_object_id b)) (e2ob_qualifier b)"

definition o2o_columns :: "o2o_batch \<Rightarrow> ((((nat \<times> nat) \<times> string) \<times> int option) \<times> int option) list" where
  "o2o_columns b = zip (zip (zip (zip (o2ob_source_object_id b) (o2ob_target_object_id b)) (o2ob_qualifier b))
     (o2ob_valid_from_nanos_utc b)) (o2ob_valid_to_nanos_utc b)"

definition watermark_regresses :: "timestamp option \<Rightarrow> timestamp option \<Rightarrow> bool" where
  "watermark_regresses current incoming = (case (current, incoming) of (Some c, Some i) \<Rightarrow> i < c | _ \<Rightarrow> False)"

text \<open>The log with the rows of a batch, relation rows with fresh consecutive identifiers.\<close>

definition extend_log :: "'j canonical_log \<Rightarrow> append_batch \<Rightarrow> 'j canonical_log ocpm_result" where
  "extend_log cl b =
    rbind (try_fold push_e2o (max_relation_id cl, log_e2o cl) (e2o_columns (ab_e2o b))) (\<lambda>(relation_id, e2o).
    rbind (try_fold push_o2o (relation_id, log_o2o cl) (o2o_columns (ab_o2o b))) (\<lambda>(relation_id, o2o).
    Ok (cl\<lparr>log_events := log_events cl @ batch_events (ab_events b), log_objects := log_objects cl @ batch_objects (ab_objects b),
      log_e2o := e2o, log_o2o := o2o, log_attribute_history := log_attribute_history cl @ batch_changes (ab_attribute_history b),
      log_source_watermark := (case ab_source_watermark b of None \<Rightarrow> log_source_watermark cl | Some w \<Rightarrow> Some w)\<rparr>)))"

definition engine_append :: "(append_batch \<Rightarrow> string + nat) \<Rightarrow> (dataset_view \<Rightarrow> 'j canonical_log ocpm_result) \<Rightarrow> append_batch
    \<Rightarrow> 'j local_provider ocpm_result" where
  "engine_append encoded snapshot b =
    rbind (append_batch_validate encoded b) (\<lambda>_.
    rbind (snapshot default_view) (\<lambda>cl.
    rbind (ensure (\<not> watermark_regresses (log_source_watermark cl) (ab_source_watermark b))
      (invalid_request ''source_watermark must be monotonic'')) (\<lambda>_.
    rbind (extend_log cl b) local_new)))"

section \<open>Execution summaries\<close>

record execution_summary_request =
  es_view :: dataset_view
  es_leading_object_type :: "string option"
  es_complete_lifecycle :: bool

text \<open>The texts of the batch errors.\<close>

fun batch_error_text :: "event_batch_error \<Rightarrow> string" where
  "batch_error_text EmptyActivityPath = ''activity_count must be positive''"
| "batch_error_text EmptyCaseBatch = ''case_count must be positive''"
| "batch_error_text ActivityCountMismatch = ''activity_path length does not match activity_count''"
| "batch_error_text DimensionOverflow = ''event batch dimensions overflow the addressable platform size''"
| "batch_error_text InvalidCaseIdPayload = ''case-id payload length does not match case_count''"
| "batch_error_text InvalidTimestampPayload = ''timestamp payload length does not match batch dimensions''"
| "batch_error_text InvalidByteOrder = ''timestamp payload byte order is ambiguous or invalid''"
| "batch_error_text InvalidTimestampHeader = ''timestamp vector header does not match activity_count''"
| "batch_error_text CountOverflow = ''event batch count overflowed an unsigned 64-bit total''"
| "batch_error_text DurationOverflow = ''event batch duration total overflowed a signed 128-bit accumulator''"
| "batch_error_text Panicked = []"

definition scan_view :: "execution_summary_request \<Rightarrow> dataset_view" where
  "scan_view request = (if es_complete_lifecycle request then es_view request\<lparr>dv_start := None, dv_end := None\<rparr> else es_view request)"

text \<open>An execution that started before the view or did not end within it.\<close>

definition outside_lifecycle :: "dataset_view \<Rightarrow> process_execution \<Rightarrow> bool" where
  "outside_lifecycle view e \<longleftrightarrow>
     is_none_or (\<lambda>ev. is_some_and (\<lambda>start. epoch_nanos_utc (ev_timestamp ev) < epoch_nanos_utc start) (dv_start view)) (first_opt (pe_events e)) \<or>
     is_none_or (\<lambda>ev. is_some_and (\<lambda>stop. epoch_nanos_utc stop \<le> epoch_nanos_utc (ev_timestamp ev)) (dv_end view)) (last_opt (pe_events e))"

text \<open>Microseconds, truncated towards zero, in 64 bits.\<close>

definition summary_micros :: "event \<Rightarrow> int ocpm_result" where
  "summary_micros ev = (let n = epoch_nanos_utc (ev_timestamp ev); micros = (if 0 \<le> n then n div 1000 else - ((- n) div 1000)) in
     if - (2 ^ 63) \<le> micros \<and> micros < 2 ^ 63 then Ok micros
     else Err (invalid_request ''event timestamp is outside microsecond summary range''))"

definition summary_case :: "execution_summary_request \<Rightarrow> summary_builder \<Rightarrow> process_execution \<Rightarrow> summary_builder ocpm_result" where
  "summary_case request s e =
    (if es_complete_lifecycle request \<and> outside_lifecycle (es_view request) e then Ok s
     else rbind (try_fold (\<lambda>ts ev. rbind (summary_micros ev) (\<lambda>t. Ok (ts @ [t]))) [] (pe_events e)) (\<lambda>timestamps.
       map_err (\<lambda>error. resource_limit (batch_error_text error) u64_max u64_max) (push_case s (activity_path e) timestamps)))"

definition execution_summary :: "(execution_summary_request \<Rightarrow> event_log_summary option ocpm_result) \<Rightarrow> executions_method
    \<Rightarrow> execution_summary_request \<Rightarrow> event_log_summary ocpm_result" where
  "execution_summary provider_summary process_executions request =
    rbind (provider_summary request) (\<lambda>found. case found of Some x \<Rightarrow> Ok x
     | None \<Rightarrow> rbind (process_executions (scan_view request) LeadingObject (es_leading_object_type request)) (\<lambda>executions.
         rbind (try_fold (summary_case request) builder_new executions) (\<lambda>s. Ok (builder_finish s))))"

section \<open>Plans\<close>

record execution_step =
  st_operator :: string
  st_provider :: string
  st_estimated_rows :: nat
  st_estimated_bytes :: nat
  st_pushed_predicates :: "string list"
  st_fallback_reason :: "string option"

record execution_plan =
  pl_semantic_version :: string
  pl_steps :: "execution_step list"
  pl_estimated_total_ns :: nat
  pl_estimated_peak_memory_bytes :: nat

definition predicate_summary :: "dataset_view \<Rightarrow> string list" where
  "predicate_summary view = concat (map (\<lambda>(present, name). if present then [name] else [])
     [(dv_start view \<noteq> None \<or> dv_end view \<noteq> None, ''timestamp_range''), (dv_object_types view \<noteq> [], ''object_types''),
      (dv_activities view \<noteq> [], ''activities''), (dv_qualifiers view \<noteq> [], ''qualifiers''), (dv_event_ids view \<noteq> [], ''event_ids''),
      (dv_object_ids view \<noteq> [], ''object_ids''), (dv_event_attributes view \<noteq> [], ''event_attributes''),
      (dv_object_attributes view \<noteq> [], ''object_attributes''), (dv_statuses view \<noteq> [], ''statuses''),
      (dv_related_object_types view \<noteq> [], ''related_object_types''),
      (dv_minimum_execution_duration_nanos view \<noteq> None \<or> dv_maximum_execution_duration_nanos view \<noteq> None, ''execution_duration'')])"

text \<open>The lowercased debug text of a capability.\<close>

fun capability_text :: "provider_capability \<Rightarrow> string" where
  "capability_text CanonicalScan = ''canonicalscan''"
| "capability_text ProcessExecutions = ''processexecutions''"
| "capability_text ObjectCentricQuery = ''objectcentricquery''"
| "capability_text DfgAggregate = ''dfgaggregate''"
| "capability_text VariantAggregate = ''variantaggregate''"
| "capability_text PerformanceAggregate = ''performanceaggregate''"
| "capability_text BottleneckObservations = ''bottleneckobservations''"
| "capability_text PredictionFeatures = ''predictionfeatures''"

definition explain :: "string \<Rightarrow> (dataset_view \<Rightarrow> provider_capability \<Rightarrow> provider_estimate) \<Rightarrow> dataset_view \<Rightarrow> provider_capability \<Rightarrow> execution_plan" where
  "explain name estimate view operation =
    (let est = estimate view operation in
     \<lparr>pl_semantic_version = ''1.0'', pl_steps = [\<lparr>st_operator = capability_text operation, st_provider = name,
        st_estimated_rows = est_rows_returned est, st_estimated_bytes = est_bytes_transferred est,
        st_pushed_predicates = predicate_summary view, st_fallback_reason = None\<rparr>],
      pl_estimated_total_ns = est_startup_ns est, pl_estimated_peak_memory_bytes = est_peak_memory_bytes est\<rparr>)"

definition postgres_bottleneck_view_supported :: "dataset_view \<Rightarrow> bool" where
  "postgres_bottleneck_view_supported view \<longleftrightarrow> dv_qualifiers view = [] \<and> dv_event_ids view = [] \<and> dv_object_ids view = [] \<and>
     dv_event_attributes view = [] \<and> dv_object_attributes view = [] \<and> dv_statuses view = [] \<and> dv_related_object_types view = [] \<and>
     dv_minimum_execution_duration_nanos view = None \<and> dv_maximum_execution_duration_nanos view = None"

section \<open>What an append does\<close>

text \<open>The columns of rows: the transposition that \<open>append\<close> undoes.\<close>

definition event_columns :: "event list \<Rightarrow> canonical_event_batch" where
  "event_columns es = \<lparr>ceb_event_id = map ev_id es, ceb_external_event_id = map ev_external_id es, ceb_activity = map ev_activity es,
     ceb_timestamp_nanos_utc = map (epoch_nanos_utc \<circ> ev_timestamp) es, ceb_source_timestamp = map (ts_source \<circ> ev_timestamp) es,
     ceb_sequence = map ev_sequence es, ceb_lifecycle = map ev_lifecycle es, ceb_attributes = map ev_attributes es\<rparr>"

definition object_columns :: "object list \<Rightarrow> object_batch" where
  "object_columns obs = \<lparr>obb_object_id = map ob_id obs, obb_external_object_id = map ob_external_id obs, obb_object_type = map ob_type obs\<rparr>"

definition e2o_row_columns :: "event_object_relation list \<Rightarrow> e2o_batch" where
  "e2o_row_columns rs = \<lparr>e2ob_event_id = map e2o_event_id rs, e2ob_object_id = map e2o_object_id rs, e2ob_qualifier = map e2o_qualifier rs\<rparr>"

definition o2o_row_columns :: "object_object_relation list \<Rightarrow> o2o_batch" where
  "o2o_row_columns rs = \<lparr>o2ob_source_object_id = map o2o_source_object_id rs, o2ob_target_object_id = map o2o_target_object_id rs,
     o2ob_qualifier = map o2o_qualifier rs, o2ob_valid_from_nanos_utc = map (map_option epoch_nanos_utc \<circ> o2o_valid_from) rs,
     o2ob_valid_to_nanos_utc = map (map_option epoch_nanos_utc \<circ> o2o_valid_to) rs\<rparr>"

definition change_columns :: "object_attribute_change list \<Rightarrow> object_attribute_batch" where
  "change_columns cs = \<lparr>oab_object_id = map oac_object_id cs, oab_name = map oac_name cs,
     oab_valid_from_nanos_utc = map (epoch_nanos_utc \<circ> oac_valid_from) cs, oab_value = map oac_value cs\<rparr>"

lemma equal_lengths_Ok [result_simps]: "equal_lengths name ns = Ok u \<longleftrightarrow> (\<forall>p \<in> set (windows2 ns). fst p = snd p)"
  by (simp add: equal_lengths_def result_simps)

definition equal_columns :: "append_batch \<Rightarrow> bool" where
  "equal_columns b \<longleftrightarrow> event_columns (batch_events (ab_events b)) = ab_events b \<and> object_columns (batch_objects (ab_objects b)) = ab_objects b \<and>
     change_columns (batch_changes (ab_attribute_history b)) = ab_attribute_history b"

lemma valid_batch_columns:
  assumes "append_batch_validate encoded b = Ok u"
  shows "equal_columns b" "length (e2o_columns (ab_e2o b)) = length (e2ob_event_id (ab_e2o b))"
    "length (o2o_columns (ab_o2o b)) = length (o2ob_source_object_id (ab_o2o b))"
proof -
  show "equal_columns b"
  proof (cases b)
    case (fields ev obs e2o o2o hist w)
    show ?thesis
    proof (cases ev; cases obs; cases hist)
    qed (use assms in \<open>auto simp: fields append_batch_validate_def result_simps equal_columns_def event_columns_def object_columns_def
      change_columns_def batch_events_def batch_objects_def batch_changes_def from_epoch_nanos_def Let_def intro!: nth_equalityI\<close>)
  qed
qed (use assms in \<open>auto simp: append_batch_validate_def result_simps Let_def e2o_columns_def o2o_columns_def\<close>)

text \<open>Rows numbered from the identifier after \<open>n\<close>.\<close>

definition numbered :: "(nat \<Rightarrow> 'c \<Rightarrow> 'r) \<Rightarrow> nat \<Rightarrow> 'c list \<Rightarrow> 'r list" where
  "numbered row n cs = map (\<lambda>(i, c). row (n + 1 + i) c) (indexed cs)"

lemma numbered_Cons: "numbered row n (c # cs) = row (n + 1) c # numbered row (n + 1) cs"
  by (auto simp: numbered_def indexed_def upt_conv_Cons map_Suc_upt [symmetric] zip_map1 simp del: upt_Suc intro!: map_cong)

lemma length_numbered [simp]: "length (numbered row n cs) = length cs"
  by (simp add: numbered_def indexed_def)

lemma map_numbered: "(\<And>k c. f (row k c) = k) \<Longrightarrow> map f (numbered row n cs) = [n + 1..<n + 1 + length cs]"
  by (rule nth_equalityI) (simp_all add: numbered_def indexed_def del: upt_Suc)

lemma map_numbered_column: "(\<And>k c. f (row k c) = g c) \<Longrightarrow> map f (numbered row n cs) = map g cs"
  by (rule nth_equalityI) (simp_all add: numbered_def indexed_def)

text \<open>
  Both relation loops number rows: the interface \<open>numbering\<close> is a step that gives the row the next identifier.
\<close>

locale numbering =
  fixes push :: "nat \<times> 'r list \<Rightarrow> 'c \<Rightarrow> (nat \<times> 'r list) ocpm_result"
    and row :: "nat \<Rightarrow> 'c \<Rightarrow> 'r"
  assumes push: "push (n, rs) c = rbind (next_relation_id n) (\<lambda>k. Ok (k, rs @ [row k c]))"
begin

lemma fold_push: "try_fold push (n, rs) cs = Ok s \<longleftrightarrow> s = (n + length cs, rs @ numbered row n cs) \<and> (cs = [] \<or> n + length cs \<le> u64_max)"
proof (induction cs arbitrary: n rs)
  case Nil
  then show ?case by (auto simp: numbered_def indexed_def)
next
  case (Cons c cs)
  show ?case
  proof (cases "n + 1 \<le> u64_max")
    case True
    then have "push (n, rs) c = Ok (n + 1, rs @ [row (n + 1) c])" by (simp add: push next_relation_id_def u64_checked_add_def ok_or_def)
    then show ?thesis using Cons.IH [of "n + 1" "rs @ [row (n + 1) c]"] True by (auto simp: numbered_Cons)
  next
    case False
    then have "push (n, rs) c = Err (resource_limit ''relation ID overflow'' u64_max u64_max)"
      by (simp add: push next_relation_id_def u64_checked_add_def ok_or_def)
    then show ?thesis using False by auto
  qed
qed

end

definition e2o_row :: "nat \<Rightarrow> (nat \<times> nat) \<times> string \<Rightarrow> event_object_relation" where
  "e2o_row k = (\<lambda>((event_id, object_id), qualifier).
     \<lparr>e2o_relation_id = k, e2o_event_id = event_id, e2o_object_id = object_id, e2o_qualifier = qualifier\<rparr>)"

definition o2o_row :: "nat \<Rightarrow> (((nat \<times> nat) \<times> string) \<times> int option) \<times> int option \<Rightarrow> object_object_relation" where
  "o2o_row k = (\<lambda>((((source, target), qualifier), valid_from), valid_to).
     \<lparr>o2o_relation_id = k, o2o_source_object_id = source, o2o_target_object_id = target, o2o_qualifier = qualifier,
      o2o_valid_from = map_option from_epoch_nanos valid_from, o2o_valid_to = map_option from_epoch_nanos valid_to\<rparr>)"

interpretation e2os: numbering push_e2o e2o_row
  by unfold_locales (simp add: push_e2o_def e2o_row_def split: prod.split)

interpretation o2os: numbering push_o2o o2o_row
  by unfold_locales (simp add: push_o2o_def o2o_row_def split: prod.split)

text \<open>The rows that an append adds, and the log it builds.\<close>

definition new_e2o :: "'j canonical_log \<Rightarrow> append_batch \<Rightarrow> event_object_relation list" where
  "new_e2o cl b = numbered e2o_row (max_relation_id cl) (e2o_columns (ab_e2o b))"

definition new_o2o :: "'j canonical_log \<Rightarrow> append_batch \<Rightarrow> object_object_relation list" where
  "new_o2o cl b = numbered o2o_row (max_relation_id cl + length (e2o_columns (ab_e2o b))) (o2o_columns (ab_o2o b))"

definition appended_log :: "'j canonical_log \<Rightarrow> append_batch \<Rightarrow> 'j canonical_log" where
  "appended_log cl b = cl\<lparr>log_events := log_events cl @ batch_events (ab_events b), log_objects := log_objects cl @ batch_objects (ab_objects b),
     log_e2o := log_e2o cl @ new_e2o cl b, log_o2o := log_o2o cl @ new_o2o cl b,
     log_attribute_history := log_attribute_history cl @ batch_changes (ab_attribute_history b),
     log_source_watermark := (case ab_source_watermark b of None \<Rightarrow> log_source_watermark cl | Some w \<Rightarrow> Some w)\<rparr>"

definition relation_ids_fit :: "'j canonical_log \<Rightarrow> append_batch \<Rightarrow> bool" where
  "relation_ids_fit cl b \<longleftrightarrow> (let n = length (e2o_columns (ab_e2o b)) + length (o2o_columns (ab_o2o b)) in
     n = 0 \<or> max_relation_id cl + n \<le> u64_max)"

lemma extend_log_Ok: "extend_log cl b = Ok cl' \<longleftrightarrow> relation_ids_fit cl b \<and> cl' = appended_log cl b"
  by (auto simp: extend_log_def result_simps e2os.fold_push o2os.fold_push relation_ids_fit_def appended_log_def new_e2o_def new_o2o_def Let_def)

lemma fold_max: "fold max xs (m :: nat) = Max (set (m # xs))"
  by (rule Max.set_eq_fold [symmetric])

lemma max_relation_id_perm:
  assumes "set (log_e2o cl') = set (log_e2o cl)" "set (log_o2o cl') = set (log_o2o cl)"
  shows "max_relation_id cl' = max_relation_id cl"
  unfolding max_relation_id_def fold_max by (simp add: assms)

lemma relation_ids_below:
  "r \<in> set (log_e2o cl) \<Longrightarrow> e2o_relation_id r \<le> max_relation_id cl" "q \<in> set (log_o2o cl) \<Longrightarrow> o2o_relation_id q \<le> max_relation_id cl"
  unfolding max_relation_id_def fold_max by (auto intro!: Max_ge)

lemma upt_join: "i \<le> j \<Longrightarrow> j \<le> k \<Longrightarrow> [i..<j] @ [j..<k] = [i..<k]"
  by (metis le_Suc_ex upt_add_eq_append)

lemma new_relation_ids:
  "map e2o_relation_id (new_e2o cl b) @ map o2o_relation_id (new_o2o cl b) =
    [max_relation_id cl + 1..<max_relation_id cl + 1 + length (e2o_columns (ab_e2o b)) + length (o2o_columns (ab_o2o b))]"
proof -
  have "map e2o_relation_id (new_e2o cl b) = [max_relation_id cl + 1..<max_relation_id cl + 1 + length (e2o_columns (ab_e2o b))]"
    unfolding new_e2o_def by (rule map_numbered) (simp add: e2o_row_def split: prod.split)
  moreover have "map o2o_relation_id (new_o2o cl b) = [max_relation_id cl + length (e2o_columns (ab_e2o b)) + 1..<
      max_relation_id cl + length (e2o_columns (ab_e2o b)) + 1 + length (o2o_columns (ab_o2o b))]"
    unfolding new_o2o_def by (rule map_numbered) (simp add: o2o_row_def split: prod.split)
  ultimately show ?thesis 

    by (simp add: upt_join add.commute add.left_commute del: upt_Suc)
qed

lemma valid_batch_relations:
  assumes "append_batch_validate encoded b = Ok u"
  shows "e2o_row_columns (new_e2o cl b) = ab_e2o b" "o2o_row_columns (new_o2o cl b) = ab_o2o b"
proof -
  show "e2o_row_columns (new_e2o cl b) = ab_e2o b"
  proof (cases "ab_e2o b")
    case (fields ids obs qs)
    have l: "length ids = length obs" "length obs = length qs"
      using assms by (auto simp: append_batch_validate_def result_simps Let_def fields)
    have c: "map e2o_event_id (new_e2o cl b) = map (\<lambda>c. fst (fst c)) (e2o_columns (ab_e2o b))"
      "map e2o_object_id (new_e2o cl b) = map (\<lambda>c. snd (fst c)) (e2o_columns (ab_e2o b))"
      "map e2o_qualifier (new_e2o cl b) = map snd (e2o_columns (ab_e2o b))"
      unfolding new_e2o_def by (rule map_numbered_column, simp add: e2o_row_def split: prod.split)+
    have "map (\<lambda>c. fst (fst c)) (e2o_columns (ab_e2o b)) = ids" "map (\<lambda>c. snd (fst c)) (e2o_columns (ab_e2o b)) = obs"
      "map snd (e2o_columns (ab_e2o b)) = qs"
      by (rule nth_equalityI; simp add: e2o_columns_def fields l)+
    then show ?thesis by (simp add: e2o_row_columns_def c fields)
  qed
  show "o2o_row_columns (new_o2o cl b) = ab_o2o b"
  proof (cases "ab_o2o b")
    case (fields ss ts qs fs us)
    have l: "length ss = length ts" "length ts = length qs" "length qs = length fs" "length fs = length us"
      using assms by (auto simp: append_batch_validate_def result_simps Let_def fields)
    let ?cs = "o2o_columns (ab_o2o b)"
    have c: "map o2o_source_object_id (new_o2o cl b) = map (\<lambda>c. fst (fst (fst (fst c)))) ?cs"
      "map o2o_target_object_id (new_o2o cl b) = map (\<lambda>c. snd (fst (fst (fst c)))) ?cs"
      "map o2o_qualifier (new_o2o cl b) = map (\<lambda>c. snd (fst (fst c))) ?cs"
      "map (map_option epoch_nanos_utc \<circ> o2o_valid_from) (new_o2o cl b) = map (\<lambda>c. snd (fst c)) ?cs"
      "map (map_option epoch_nanos_utc \<circ> o2o_valid_to) (new_o2o cl b) = map snd ?cs"
      unfolding new_o2o_def
      by (rule map_numbered_column, simp add: o2o_row_def from_epoch_nanos_def option.map_comp comp_def option.map_ident split: prod.split)+
    have "map (\<lambda>c. fst (fst (fst (fst c)))) ?cs = ss" "map (\<lambda>c. snd (fst (fst (fst c)))) ?cs = ts" "map (\<lambda>c. snd (fst (fst c))) ?cs = qs"
      "map (\<lambda>c. snd (fst c)) ?cs = fs" "map snd ?cs = us"
      by (rule nth_equalityI; simp add: o2o_columns_def fields l)+
    then show ?thesis unfolding o2o_row_columns_def c by (simp add: fields)
  qed
qed

lemma appended_wf_sort: "wf_log (appended_log (sort_canonical cl) b) \<longleftrightarrow> wf_log (appended_log cl b)"
  and appended_same_rows: "same_rows (appended_log (sort_canonical cl) b) (appended_log cl b)"
proof -
  have "set (log_e2o (sort_canonical cl)) = set (log_e2o cl)" "set (log_o2o (sort_canonical cl)) = set (log_o2o cl)"
    by (simp_all add: sort_canonical_def)
  then have m: "new_e2o (sort_canonical cl) b = new_e2o cl b" "new_o2o (sort_canonical cl) b = new_o2o cl b"
    unfolding new_e2o_def new_o2o_def by (metis max_relation_id_perm)+
  show same: "same_rows (appended_log (sort_canonical cl) b) (appended_log cl b)"
    unfolding same_rows_def appended_log_def m by (simp add: sort_canonical_def split: option.split)
  show "wf_log (appended_log (sort_canonical cl) b) \<longleftrightarrow> wf_log (appended_log cl b)"
    by (rule wf_log_perm) (use same in \<open>simp_all add: same_rows_def\<close>)
qed

lemma same_rows_trans: "same_rows a b \<Longrightarrow> same_rows b c \<Longrightarrow> same_rows a c"
  by (simp add: same_rows_def)

lemma same_rows_sort: "same_rows (sort_canonical cl) cl"
  by (simp add: same_rows_def sort_canonical_def)

lemma engine_append_Ok:
  assumes "local_wf p"
  shows "engine_append encoded (local_snapshot p) b = Ok p' \<longleftrightarrow>
    is_ok (append_batch_validate encoded b) \<and> \<not> watermark_regresses (log_source_watermark (lp_log p)) (ab_source_watermark b) \<and>
    relation_ids_fit (lp_log p) b \<and> wf_log (appended_log (lp_log p) b) \<and>
    p' = \<lparr>lp_log = sort_canonical (appended_log (lp_log p) b),
      lp_objects_by_event = objects_by_event (log_e2o (sort_canonical (appended_log (lp_log p) b)))\<rparr>"
  by (auto simp: engine_append_def result_simps local_snapshot_default [OF assms] extend_log_Ok local_new_def log_validate_Ok_iff Let_def is_ok_iff)

lemma engine_append_wf: "local_wf p \<Longrightarrow> engine_append encoded (local_snapshot p) b = Ok p' \<Longrightarrow>
    local_wf p' \<and> same_rows (lp_log p') (appended_log (lp_log p) b)"
  by (simp add: engine_append_Ok local_wf_def wf_log_sort sort_canonical_idem same_rows_sort)

lemma watermark_mono:
  "\<not> watermark_regresses (log_source_watermark cl) (ab_source_watermark b) \<Longrightarrow>
    log_source_watermark cl \<le> log_source_watermark (appended_log cl b) \<and> ab_source_watermark b \<le> log_source_watermark (appended_log cl b)"
  by (auto simp: watermark_regresses_def appended_log_def split: option.splits)

text \<open>
  C23: \<open>append\<close> succeeds exactly when the batch is valid, its watermark does not move back, the relation identifiers
  do not overflow and the log with the rows of the batch is well formed. Then the new engine holds every old row and the rows
  that the columns of the batch stand for, none of them lost, the relations numbered consecutively after all
  identifiers in use, and the watermark has not decreased.
\<close>

theorem append_extends:
  assumes "local_new cl = Ok p"
  shows "(is_ok (engine_append encoded (local_snapshot p) b) \<longleftrightarrow>
      is_ok (append_batch_validate encoded b) \<and> \<not> watermark_regresses (log_source_watermark cl) (ab_source_watermark b) \<and>
      relation_ids_fit cl b \<and> wf_log (appended_log cl b)) \<and>
    (\<forall>p'. engine_append encoded (local_snapshot p) b = Ok p' \<longrightarrow>
      local_wf p' \<and> same_rows (lp_log p') (appended_log cl b) \<and>
      event_columns (batch_events (ab_events b)) = ab_events b \<and> object_columns (batch_objects (ab_objects b)) = ab_objects b \<and>
      e2o_row_columns (new_e2o cl b) = ab_e2o b \<and> o2o_row_columns (new_o2o cl b) = ab_o2o b \<and>
      change_columns (batch_changes (ab_attribute_history b)) = ab_attribute_history b \<and>
      map e2o_relation_id (new_e2o cl b) @ map o2o_relation_id (new_o2o cl b) =
        [max_relation_id cl + 1..<max_relation_id cl + 1 + length (new_e2o cl b) + length (new_o2o cl b)] \<and>
      (\<forall>r \<in> set (log_e2o cl). e2o_relation_id r \<le> max_relation_id cl) \<and>
      (\<forall>r \<in> set (log_o2o cl). o2o_relation_id r \<le> max_relation_id cl) \<and>
      log_source_watermark cl \<le> log_source_watermark (lp_log p'))"
proof -
  have p: "local_wf p" "lp_log p = sort_canonical cl" using local_new_wf [OF assms] by simp_all
  have w: "log_source_watermark (sort_canonical cl) = log_source_watermark cl" by (simp add: sort_canonical_def)
  have m: "max_relation_id (sort_canonical cl) = max_relation_id cl" by (rule max_relation_id_perm) (simp_all add: sort_canonical_def)
  have fit: "relation_ids_fit (sort_canonical cl) b = relation_ids_fit cl b" unfolding relation_ids_fit_def m ..
  have iff: "is_ok (engine_append encoded (local_snapshot p) b) \<longleftrightarrow>
      is_ok (append_batch_validate encoded b) \<and> \<not> watermark_regresses (log_source_watermark cl) (ab_source_watermark b) \<and>
      relation_ids_fit cl b \<and> wf_log (appended_log cl b)"
    unfolding is_ok_iff [of "engine_append encoded (local_snapshot p) b"] engine_append_Ok [OF p(1)] p(2) w fit appended_wf_sort by blast
  have "local_wf p' \<and> same_rows (lp_log p') (appended_log cl b) \<and>
      event_columns (batch_events (ab_events b)) = ab_events b \<and> object_columns (batch_objects (ab_objects b)) = ab_objects b \<and>
      e2o_row_columns (new_e2o cl b) = ab_e2o b \<and> o2o_row_columns (new_o2o cl b) = ab_o2o b \<and>
      change_columns (batch_changes (ab_attribute_history b)) = ab_attribute_history b \<and>
      log_source_watermark cl \<le> log_source_watermark (lp_log p')" if ok: "engine_append encoded (local_snapshot p) b = Ok p'" for p'
  proof -
    have valid: "append_batch_validate encoded b = Ok ()" and mono: "\<not> watermark_regresses (log_source_watermark cl) (ab_source_watermark b)"
      using ok unfolding engine_append_Ok [OF p(1)] p(2) w by (auto simp: is_ok_iff)
    have same: "same_rows (lp_log p') (appended_log cl b)"
      using engine_append_wf [OF p(1) ok] appended_same_rows same_rows_trans unfolding p(2) by blast
    then have "log_source_watermark (lp_log p') = log_source_watermark (appended_log cl b)" by (simp add: same_rows_def)
    then show ?thesis
      using engine_append_wf [OF p(1) ok] same valid_batch_columns(1) [OF valid, unfolded equal_columns_def] valid_batch_relations [OF valid, where cl = cl]
        watermark_mono [OF mono] by simp
  qed
  moreover have "length (new_e2o cl b) = length (e2o_columns (ab_e2o b))" "length (new_o2o cl b) = length (o2o_columns (ab_o2o b))"
    by (simp_all add: new_e2o_def new_o2o_def)
  ultimately show ?thesis using iff new_relation_ids [of cl b] relation_ids_below [where cl = cl] by metis
qed

text \<open>The engines that a sequence of appends leads to.\<close>

inductive engine_history :: "(append_batch \<Rightarrow> string + nat) \<Rightarrow> 'j local_provider \<Rightarrow> append_batch list \<Rightarrow> 'j local_provider \<Rightarrow> bool"
  for encoded p0 where
  history_start: "engine_history encoded p0 [] p0"
| history_append: "engine_history encoded p0 bs p \<Longrightarrow> engine_append encoded (local_snapshot p) b = Ok p' \<Longrightarrow>
    engine_history encoded p0 (bs @ [b]) p'"

inductive_cases engine_history_snoc: "engine_history encoded p0 (bs @ [b]) p'"

definition relation_ids_disjoint :: "'j canonical_log \<Rightarrow> bool" where
  "relation_ids_disjoint cl \<longleftrightarrow> e2o_relation_id ` set (log_e2o cl) \<inter> o2o_relation_id ` set (log_o2o cl) = {}"

lemma disjoint_appended: "relation_ids_disjoint cl \<Longrightarrow> relation_ids_disjoint (appended_log cl b)"
proof -
  let ?new = "map e2o_relation_id (new_e2o cl b) @ map o2o_relation_id (new_o2o cl b)"
  have d: "distinct ?new" and gt: "\<forall>k \<in> set ?new. max_relation_id cl < k" unfolding new_relation_ids by auto
  assume "relation_ids_disjoint cl"
  moreover have "e2o_relation_id ` set (new_e2o cl b) \<inter> o2o_relation_id ` set (new_o2o cl b) = {}" using d by auto
  moreover have "e2o_relation_id ` set (log_e2o cl) \<inter> o2o_relation_id ` set (new_o2o cl b) = {}"
    "e2o_relation_id ` set (new_e2o cl b) \<inter> o2o_relation_id ` set (log_o2o cl) = {}"
    using gt relation_ids_below [where cl = cl] by (auto simp: leD dest!: leD) (metis UnI1 imageI leD)
  ultimately show ?thesis unfolding relation_ids_disjoint_def appended_log_def by auto
qed

definition history_kept :: "'j canonical_log \<Rightarrow> append_batch list \<Rightarrow> 'j canonical_log \<Rightarrow> bool" where
  "history_kept cl bs l \<longleftrightarrow>
     mset (log_events l) = mset (log_events cl) + mset (concat (map (batch_events \<circ> ab_events) bs)) \<and>
     mset (log_objects l) = mset (log_objects cl) + mset (concat (map (batch_objects \<circ> ab_objects) bs)) \<and>
     mset (log_attribute_history l) = mset (log_attribute_history cl) + mset (concat (map (batch_changes \<circ> ab_attribute_history) bs)) \<and>
     mset (log_e2o cl) \<subseteq># mset (log_e2o l) \<and> mset (log_o2o cl) \<subseteq># mset (log_o2o l) \<and>
     length (log_e2o l) = length (log_e2o cl) + sum_list (map (length \<circ> e2o_columns \<circ> ab_e2o) bs) \<and>
     length (log_o2o l) = length (log_o2o cl) + sum_list (map (length \<circ> o2o_columns \<circ> ab_o2o) bs) \<and>
     log_dataset_id l = log_dataset_id cl \<and> log_tenant_id l = log_tenant_id cl \<and>
     log_source_watermark cl \<le> log_source_watermark l \<and> (\<forall>b \<in> set bs. ab_source_watermark b \<le> log_source_watermark l) \<and>
     (relation_ids_disjoint cl \<longrightarrow> relation_ids_disjoint l)"

lemma history_kept_step:
  assumes "history_kept cl bs l" "same_rows l' (appended_log l b)"
    and "\<not> watermark_regresses (log_source_watermark l) (ab_source_watermark b)"
  shows "history_kept cl (bs @ [b]) l'"
proof -
  note rows = assms(2) [unfolded same_rows_def]
  have size: "length (log_e2o l') = length (log_e2o (appended_log l b))" "length (log_o2o l') = length (log_o2o (appended_log l b))"
    using rows by (metis size_mset)+
  have sets: "set (log_e2o l') = set (log_e2o (appended_log l b))" "set (log_o2o l') = set (log_o2o (appended_log l b))"
    using rows mset_eq_setD by metis+
  have disj: "relation_ids_disjoint l \<Longrightarrow> relation_ids_disjoint l'"
    using disjoint_appended [of l b] unfolding relation_ids_disjoint_def sets .
  have "mset (log_e2o l) \<subseteq># mset (log_e2o l')" "mset (log_o2o l) \<subseteq># mset (log_o2o l')" using rows by (simp_all add: appended_log_def)
  moreover have wm: "log_source_watermark l \<le> log_source_watermark l'" "ab_source_watermark b \<le> log_source_watermark l'"
    using rows watermark_mono [OF assms(3)] by simp_all
  ultimately show ?thesis
    using assms(1) rows size disj unfolding history_kept_def
    by (auto simp: appended_log_def new_e2o_def new_o2o_def intro: order_trans subset_mset.order_trans)
qed

text \<open>
  C24: along every sequence of appends to an engine built from a log, the engine stays well formed and its unrestricted
  snapshot is its log; it holds exactly the events, objects and attribute changes of the log and of all batches, every relation
  of the log and one per relation of a batch, the identity of the dataset is kept, the watermark never
  decreases and covers every batch, and relation identifiers stay unique across both kinds of relations.
\<close>

theorem history_invariant:
  assumes "local_new cl = Ok p0" and "engine_history encoded p0 bs p"
  shows "local_wf p \<and> local_snapshot p default_view = Ok (lp_log p) \<and> history_kept cl bs (lp_log p)"
proof -
  have "local_wf p \<and> history_kept cl bs (lp_log p)"
    using assms(2)
  proof (induction rule: engine_history.induct)
    case history_start
    have "same_rows (lp_log p0) cl" using local_new_wf [OF assms(1)] by (simp add: same_rows_sort)
    then have "history_kept cl [] (lp_log p0)"
      using mset_eq_setD [of "log_e2o (lp_log p0)" "log_e2o cl"] mset_eq_setD [of "log_o2o (lp_log p0)" "log_o2o cl"]
        mset_eq_length [of "log_e2o (lp_log p0)" "log_e2o cl"] mset_eq_length [of "log_o2o (lp_log p0)" "log_o2o cl"]
      by (simp add: history_kept_def same_rows_def relation_ids_disjoint_def)
    then show ?case using local_new_wf [OF assms(1)] by simp
  next
    case (history_append bs p b p')
    have wf: "local_wf p" using history_append.IH by simp
    have "\<not> watermark_regresses (log_source_watermark (lp_log p)) (ab_source_watermark b)"
      using history_append.hyps(2) unfolding engine_append_Ok [OF wf] by blast
    then show ?case using history_kept_step history_append.IH engine_append_wf [OF wf history_append.hyps(2)] by blast
  qed
  then show ?thesis using local_snapshot_default by blast
qed

section \<open>What a summary counts\<close>

context accumulating
begin

lemma bumps_at: "bumps L M k = (let ds = map snd (filter (\<lambda>p. fst p = k) L) in
    if ds = [] then M k else Some (plus (case M k of None \<Rightarrow> zero | Some v \<Rightarrow> v) (total ds)))"
proof (induction L arbitrary: M)
  case (Cons p L)
  obtain j d where p: "p = (j, d)" by (cases p)
  show ?case unfolding p bumps_simps Cons.IH
    by (auto simp: bump_def total_def Let_def assoc split: option.split)
qed (simp add: bumps_simps)

end

definition summarised :: "execution_summary_request \<Rightarrow> process_execution list \<Rightarrow> process_execution list" where
  "summarised request es = filter (\<lambda>e. \<not> (es_complete_lifecycle request \<and> outside_lifecycle (es_view request) e)) es"

definition micros_of :: "event \<Rightarrow> int" where
  "micros_of ev = (let n = epoch_nanos_utc (ev_timestamp ev) in if 0 \<le> n then n div 1000 else - ((- n) div 1000))"

text \<open>The steps of an execution between adjacent events, with their durations.\<close>

definition transitions :: "process_execution \<Rightarrow> ((string \<times> string) \<times> int) list" where
  "transitions e = map (\<lambda>(a, b). ((ev_activity a, ev_activity b), micros_of b - micros_of a)) (windows2 (pe_events e))"

lemma fold_summary_micros:
  "\<forall>ev \<in> set evs. in_i64 (micros_of ev) \<Longrightarrow>
    try_fold (\<lambda>ts ev. rbind (summary_micros ev) (\<lambda>t. Ok (ts @ [t]))) acc evs = Ok (acc @ map micros_of evs)"
  by (induction evs arbitrary: acc) (auto simp: summary_micros_def micros_of_def in_i64_def i64_min_def i64_max_def Let_def)

lemma edge_weights: "map (\<lambda>e'. (snd e', case_edge_weight (map micros_of (pe_events e)) e')) (edge_list (activity_path e)) =
    map (\<lambda>(p, d). (p, (1, d))) (transitions e)"
proof (rule nth_equalityI)
  show "length (map (\<lambda>e'. (snd e', case_edge_weight (map micros_of (pe_events e)) e')) (edge_list (activity_path e))) =
    length (map (\<lambda>(p, d). (p, (1 :: nat, d))) (transitions e))"
    by (simp add: edge_list_def transitions_def activity_path_def length_windows2)
  show "map (\<lambda>e'. (snd e', case_edge_weight (map micros_of (pe_events e)) e')) (edge_list (activity_path e)) ! i =
    map (\<lambda>(p, d). (p, (1, d))) (transitions e) ! i"
    if "i < length (map (\<lambda>e'. (snd e', case_edge_weight (map micros_of (pe_events e)) e')) (edge_list (activity_path e)))" for i
    using that by (simp add: edge_list_def transitions_def activity_path_def windows2_map indexed_def windows2_nth
        case_edge_weight_def length_windows2)
qed

definition summary_holds :: "process_execution list \<Rightarrow> summary_builder \<Rightarrow> bool" where
  "summary_holds es s \<longleftrightarrow> sb_case_count s = length es \<and> sb_event_count s = sum_list (map (length \<circ> pe_events) es) \<and>
     sb_payload_bytes s = 0 \<and> bt_get (sb_variants s) = nats.bumps (map (\<lambda>e. (activity_path e, 1)) es) (\<lambda>_. None) \<and>
     bt_get (sb_dfg s) = durs.bumps (map (\<lambda>(p, d). (p, (1, d))) (concat (map transitions es))) (\<lambda>_. None)"

lemma rbind_Ok_right: "rbind r Ok = r"
  by (cases r) simp_all

lemma summary_fold:
  assumes "\<forall>e \<in> set es. pe_events e \<noteq> [] \<and> (\<forall>ev \<in> set (pe_events e). in_i64 (micros_of ev))"
    and "3 * sum_list (map (length \<circ> pe_events) es) \<le> 2 ^ 62"
  shows "\<exists>s. try_fold (summary_case request) builder_new (summarised request es) = Ok s \<and>
    builder_fits (3 * sum_list (map (length \<circ> pe_events) (summarised request es))) s \<and> summary_holds (summarised request es) s"
  using assms
proof (induction es rule: rev_induct)
  case Nil
  then show ?case by (simp add: summarised_def builder_new_def builder_fits_def bounded_map_def summary_holds_def nats.bumps_simps durs.bumps_simps fun_eq_iff)
next
  case (snoc e es)
  obtain s where s: "try_fold (summary_case request) builder_new (summarised request es) = Ok s"
    "builder_fits (3 * sum_list (map (length \<circ> pe_events) (summarised request es))) s" "summary_holds (summarised request es) s"
  proof -
    have "\<forall>e \<in> set es. pe_events e \<noteq> [] \<and> (\<forall>ev \<in> set (pe_events e). in_i64 (micros_of ev))"
      "3 * sum_list (map (length \<circ> pe_events) es) \<le> 2 ^ 62" using snoc.prems unfolding map_append sum_list_append by (simp_all add: comp_def)
    then show ?thesis using snoc.IH that by blast
  qed
  show ?case
  proof (cases "es_complete_lifecycle request \<and> outside_lifecycle (es_view request) e")
    case True
    then have "summarised request (es @ [e]) = summarised request es" by (simp add: summarised_def)
    then show ?thesis using s by metis
  next
    case False
    let ?ts = "map micros_of (pe_events e)"
    have ev: "pe_events e \<noteq> []" "\<forall>ev \<in> set (pe_events e). in_i64 (micros_of ev)" using snoc.prems(1) by auto
    have "sum_list (map (length \<circ> pe_events) (summarised request es)) \<le> sum_list (map (length \<circ> pe_events) es)"
      unfolding summarised_def by (rule sum_list_filter_le)
    then have room: "3 * sum_list (map (length \<circ> pe_events) (summarised request es)) + 3 * length (activity_path e) \<le> 2 ^ 62"
      using snoc.prems(2) unfolding map_append sum_list_append by (simp add: activity_path_def)
    have "\<exists>s'. push_case s (activity_path e) ?ts = Ok s' \<and>
        pushed (3 * sum_list (map (length \<circ> pe_events) (summarised request es))) 1 (activity_path e) (case_edge_weight ?ts) s 0 s'"
      by (rule push_case_pushed [OF s(2)])
        (use ev room s(3) in \<open>auto simp: activity_path_def list_all_iff summary_holds_def u64_max_def\<close>)
    then obtain s' where s': "push_case s (activity_path e) ?ts = Ok s'"
      "pushed (3 * sum_list (map (length \<circ> pe_events) (summarised request es))) 1 (activity_path e) (case_edge_weight ?ts) s 0 s'" by blast
    have "summary_case request s e = Ok s'" using False ev s'(1) by (auto simp: summary_case_def fold_summary_micros)
    moreover have "summary_holds (summarised request es @ [e]) s'"
      using s(3) s'(2) unfolding summary_holds_def pushed_def edge_weights
      by (simp add: nats.bumps_simps durs.bumps_simps activity_path_def)
    moreover have "builder_fits (3 * sum_list (map (length \<circ> pe_events) (summarised request es @ [e]))) s'"
      using s'(2) by (simp add: pushed_def activity_path_def)
    moreover have "summarised request (es @ [e]) = summarised request es @ [e]" using False by (auto simp: summarised_def)
    moreover have "try_fold (summary_case request) builder_new (summarised request es @ [e]) = summary_case request s e"
      by (simp add: try_fold_append s(1) rbind_Ok_right)
    ultimately show ?thesis by metis
  qed
qed

lemma summary_skips: "try_fold (summary_case request) s es = try_fold (summary_case request) s (summarised request es)"
  by (induction es arbitrary: s) (simp_all add: summarised_def summary_case_def)

lemma bt_get_in: "bt_inv m \<Longrightarrow> bt_get m k = Some v \<longleftrightarrow> (k, v) \<in> set m"
  by (simp add: bt_get_def bt_inv_def map_of_eq_Some_iff strict_sorted_iff)

lemma durs_total_ones: "durs.total (map (\<lambda>d. (1, d)) ds) = (length ds, sum_list ds)"
  using total_durs [of id ds] by simp

lemma filter_pairs: "map snd (filter (\<lambda>p. fst p = k) (map (\<lambda>(p, d). (p, (1 :: nat, d))) ps)) = map (\<lambda>d. (1, d)) (map snd (filter (\<lambda>t. fst t = k) ps))"
  by (induction ps) auto

text \<open>
  Over a provider without a summary of its own, the execution summary of executions with events and representable
  timestamps returns, and describes exactly the executions of the scanned view, with the complete lifecycle those that begin and
  end within the view: their number, their events, how many follow each variant, and for each pair of activities the number of
  adjacent occurrences with their mean duration.
\<close>

theorem execution_summary_counts:
  assumes "process_executions (scan_view request) LeadingObject (es_leading_object_type request) = Ok es"
    and "\<forall>e \<in> set es. pe_events e \<noteq> [] \<and> (\<forall>ev \<in> set (pe_events e). in_i64 (micros_of ev))"
    and "3 * sum_list (map (length \<circ> pe_events) es) \<le> 2 ^ 62"
  shows "\<exists>s. execution_summary (\<lambda>_. Ok None) process_executions request = Ok s \<and>
    els_case_count s = length (summarised request es) \<and>
    els_event_count s = sum_list (map (length \<circ> pe_events) (summarised request es)) \<and>
    (\<forall>path n. \<lparr>evc_activity_path = path, evc_frequency = n\<rparr> \<in> set (els_variants s) \<longleftrightarrow>
      0 < n \<and> n = length (filter (\<lambda>e. activity_path e = path) (summarised request es))) \<and>
    (\<forall>a b n mean. \<lparr>ede_source = a, ede_target = b, ede_frequency = n, ede_mean_duration_seconds = mean\<rparr> \<in> set (els_dfg s) \<longleftrightarrow>
      (let ds = map snd (filter (\<lambda>t. fst t = (a, b)) (concat (map transitions (summarised request es)))) in
       ds \<noteq> [] \<and> n = length ds \<and> mean = f64_div (f64_div (f64_of_int (sum_list ds)) (f64_of_nat n)) (F_fin 1000000)))"
proof -
  let ?es = "summarised request es"
  obtain s where s: "try_fold (summary_case request) builder_new ?es = Ok s" "builder_fits (3 * sum_list (map (length \<circ> pe_events) ?es)) s"
    "summary_holds ?es s"
    using summary_fold [OF assms(2,3)] by blast
  have inv: "bt_inv (sb_variants s)" "bt_inv (sb_dfg s)" using s(2) by (simp_all add: builder_fits_def)
  have run: "execution_summary (\<lambda>_. Ok None) process_executions request = Ok (builder_finish s)"
    by (simp add: execution_summary_def assms(1) summary_skips [of request builder_new es] s(1))
  have variant: "bt_get (sb_variants s) path = Some n \<longleftrightarrow> 0 < n \<and> n = length (filter (\<lambda>e. activity_path e = path) ?es)" for path n
  proof -
    have "map snd (filter (\<lambda>p. fst p = path) (map (\<lambda>e. (activity_path e, 1 :: nat)) ?es)) = map (\<lambda>_. 1) (filter (\<lambda>e. activity_path e = path) ?es)"
      by (induction ?es) (simp_all add: filter_map comp_def)
    then have "bt_get (sb_variants s) path = (if filter (\<lambda>e. activity_path e = path) ?es = [] then None
        else Some (length (filter (\<lambda>e. activity_path e = path) ?es)))"
      using s(3) total_nats [of "filter (\<lambda>e. activity_path e = path) ?es"] by (simp add: summary_holds_def nats.bumps_at)
    then show ?thesis by auto
  qed
  have dfg: "bt_get (sb_dfg s) ab = (let ds = map snd (filter (\<lambda>t. fst t = ab) (concat (map transitions ?es))) in
      if ds = [] then None else Some (length ds, sum_list ds))" for ab
  proof -
    have g: "bt_get (sb_dfg s) = durs.bumps (map (\<lambda>(p, d). (p, (1, d))) (concat (map transitions ?es))) (\<lambda>_. None)"
      using s(3) by (simp add: summary_holds_def)
    show ?thesis unfolding g durs.bumps_at filter_pairs Let_def durs_total_ones by (simp add: dur_plus_def)
  qed
  have els: "\<lparr>ede_source = a, ede_target = b, ede_frequency = n, ede_mean_duration_seconds = mean\<rparr> \<in> set (els_dfg (builder_finish s)) \<longleftrightarrow>
      (\<exists>d. bt_get (sb_dfg s) (a, b) = Some (n, d) \<and> mean = f64_div (f64_div (f64_of_int d) (f64_of_nat n)) (F_fin 1000000))" for a b n mean
    unfolding bt_get_in [OF inv(2)] by (auto simp: builder_finish_def image_iff) force
  have elv: "\<lparr>evc_activity_path = path, evc_frequency = n\<rparr> \<in> set (els_variants (builder_finish s)) \<longleftrightarrow> bt_get (sb_variants s) path = Some n" for path n
    unfolding bt_get_in [OF inv(1)] by (force simp: builder_finish_def image_iff)
  have counts: "els_case_count (builder_finish s) = length ?es" "els_event_count (builder_finish s) = sum_list (map (length \<circ> pe_events) ?es)"
    using s(3) by (simp_all add: builder_finish_def summary_holds_def)
  show ?thesis
    by (rule exI [of _ "builder_finish s"]) (unfold elv els variant dfg, use run counts in \<open>auto simp: Let_def\<close>)
qed

section \<open>Witnesses\<close>

definition sample_append :: append_batch where
  "sample_append = \<lparr>ab_events = event_columns [sample_event 3 ''e3'' ''ship'' 30], ab_objects = object_columns [],
     ab_e2o = \<lparr>e2ob_event_id = [3], e2ob_object_id = [1], e2ob_qualifier = [[]]\<rparr>,
     ab_o2o = o2o_row_columns [], ab_attribute_history = change_columns [], ab_source_watermark = Some (Timestamp 30 None)\<rparr>"

lemmas sample_append_simps = sample_append_def event_columns_def object_columns_def o2o_row_columns_def change_columns_def sample_event_def

lemma sample_append_valid: "append_batch_validate (\<lambda>_. Inr 0) sample_append = Ok ()"
  by (simp add: append_batch_validate_def equal_lengths_def ensure_def sample_append_simps)

lemma sample_appended: "appended_log sample_log sample_append = sample_log\<lparr>
    log_events := log_events sample_log @ [sample_event 3 ''e3'' ''ship'' 30],
    log_e2o := log_e2o sample_log @ [\<lparr>e2o_relation_id = 3, e2o_event_id = 3, e2o_object_id = 1, e2o_qualifier = []\<rparr>],
    log_source_watermark := Some (Timestamp 30 None)\<rparr>"
  by (simp add: appended_log_def sample_append_simps batch_events_def batch_objects_def batch_changes_def new_e2o_def new_o2o_def
      e2o_columns_def o2o_columns_def numbered_def indexed_def max_relation_id_def sample_log_def e2o_row_def)

lemma sample_append_ok: "\<exists>p'. engine_append (\<lambda>_. Inr 0) (local_snapshot sample_provider) sample_append = Ok p'"
proof -
  have wf: "local_wf sample_provider" and l: "lp_log sample_provider = sort_canonical sample_log"
    using local_new_wf [OF sample_provider_new] by simp_all
  have "wf_log (appended_log sample_log sample_append)"
    unfolding sample_appended by (simp add: wf_log_def sample_log_def sample_event_def wf_event_def wf_object_def bt_values_def)
  moreover have "relation_ids_fit (sort_canonical sample_log) sample_append"
  proof -
    have "max_relation_id (sort_canonical sample_log) = max_relation_id sample_log"
      by (rule max_relation_id_perm) (simp_all add: sort_canonical_def)
    then show ?thesis
      by (simp add: relation_ids_fit_def max_relation_id_def sample_log_def sample_append_simps e2o_columns_def o2o_columns_def u64_max_def)
  qed
  moreover have "\<not> watermark_regresses (log_source_watermark (sort_canonical sample_log)) (ab_source_watermark sample_append)"
    by (simp add: watermark_regresses_def sort_canonical_def sample_log_def)
  ultimately show ?thesis
    unfolding engine_append_Ok [OF wf] l by (simp add: appended_wf_sort sample_append_valid is_ok_iff)
qed

theorem append_extends_witness:
  "\<exists>p'. engine_append (\<lambda>_. Inr 0) (local_snapshot sample_provider) sample_append = Ok p' \<and>
    mset (map ev_id (log_events (lp_log p'))) = {#1, 2, 3#} \<and> mset (map e2o_relation_id (log_e2o (lp_log p'))) = {#1, 2, 3#}"
proof -
  obtain p' where p': "engine_append (\<lambda>_. Inr 0) (local_snapshot sample_provider) sample_append = Ok p'" using sample_append_ok by blast
  then have "same_rows (lp_log p') (appended_log sample_log sample_append)"
    using append_extends [OF sample_provider_new] by blast
  then show ?thesis
    using p' unfolding sample_appended by (auto simp: same_rows_def sample_log_def sample_event_def)
qed

theorem history_invariant_witness:
  "\<exists>p. engine_history (\<lambda>_. Inr 0) sample_provider [sample_append] p \<and> local_wf p \<and> length (log_e2o (lp_log p)) = 3 \<and>
    Some (Timestamp 30 None) \<le> log_source_watermark (lp_log p)"
proof -
  obtain p where "engine_append (\<lambda>_. Inr 0) (local_snapshot sample_provider) sample_append = Ok p" using sample_append_ok by blast
  then have h: "engine_history (\<lambda>_. Inr 0) sample_provider ([] @ [sample_append]) p"
    by (rule history_append [OF history_start])
  have "e2o_columns (ab_e2o sample_append) = [((3, 1), [])]" "ab_source_watermark sample_append = Some (Timestamp 30 None)"
    "length (log_e2o sample_log) = 2" by (simp_all add: sample_append_def e2o_columns_def sample_log_def)
  then show ?thesis
    using h history_invariant [OF sample_provider_new h] by (intro exI [of _ p]) (simp add: history_kept_def)
qed

definition two_orders :: executions_method where
  "two_orders view mode leading = Ok [path_execution [''a'', ''b''], path_execution [''a'']]"

definition whole_request :: execution_summary_request where
  "whole_request = \<lparr>es_view = default_view, es_leading_object_type = None, es_complete_lifecycle = True\<rparr>"

theorem execution_summary_counts_witness:
  "\<exists>s. execution_summary (\<lambda>_. Ok None) two_orders whole_request = Ok s \<and> els_case_count s = 2 \<and> els_event_count s = 3"
proof -
  let ?es = "[path_execution [''a'', ''b''], path_execution [''a'']]"
  have "two_orders (scan_view whole_request) LeadingObject (es_leading_object_type whole_request) = Ok ?es" by (simp add: two_orders_def)
  moreover have "\<forall>e \<in> set ?es. pe_events e \<noteq> [] \<and> (\<forall>ev \<in> set (pe_events e). in_i64 (micros_of ev))"
    by (simp add: path_execution_def sample_event_def micros_of_def in_i64_def i64_min_def i64_max_def)
  moreover have "3 * sum_list (map (length \<circ> pe_events) ?es) \<le> 2 ^ 62" by (simp add: path_execution_def)
  moreover have "summarised whole_request ?es = ?es"
    by (simp add: summarised_def whole_request_def default_view_def outside_lifecycle_def path_execution_def is_none_or_def is_some_and_def
        first_opt_def last_opt_def)
  ultimately show ?thesis using execution_summary_counts [of two_orders whole_request ?es] by (auto simp: path_execution_def)
qed

end
