(* ===== verification/BottleneckData.thy ===== *)
theory BottleneckData
  imports Kernels Provider FloatOps
begin

text \<open>
  Requests, results, validation and statistics of \<open>crates/ocpm-bottleneck/src/lib.rs\<close>. The exponential function of the
  platform is a parameter of the tests that use it. \<open>None\<close> is an index out of range.
\<close>

section \<open>Requests and results\<close>

record availability_interval =
  av_start_nanos :: int
  av_end_nanos :: int

record temporal_hypothesis =
  th_id :: string
  th_cause_activity :: string
  th_cause_attribute :: "string option"
  th_cause_value :: "attribute_value option"
  th_effect_source_activity :: "string option"
  th_effect_target_activity :: string
  th_effect_threshold_seconds :: f64
  th_minimum_lag_seconds :: f64
  th_maximum_lag_seconds :: "f64 option"

record bottleneck_request =
  br_semantic_version :: string
  br_view :: dataset_view
  br_comparison_view :: "dataset_view option"
  br_leading_object_type :: "string option"
  br_minimum_support :: nat
  br_tail_quantile :: f64
  br_slow_threshold_seconds :: "f64 option"
  br_batch_tolerance_seconds :: f64
  br_minimum_batch_size :: nat
  br_resource_attribute :: string
  br_resource_calendars :: "(string, availability_interval list) btree_map"
  br_hypotheses :: "temporal_hypothesis list"

definition default_bottleneck_request :: bottleneck_request where
  "default_bottleneck_request = \<lparr>br_semantic_version = ''1.0'', br_view = default_view, br_comparison_view = None,
     br_leading_object_type = None, br_minimum_support = 5, br_tail_quantile = f64_round (95 / 100), br_slow_threshold_seconds = None,
     br_batch_tolerance_seconds = F_fin 60, br_minimum_batch_size = 2, br_resource_attribute = ''org:resource'',
     br_resource_calendars = [], br_hypotheses = []\<rparr>"

record bottleneck_signal =
  sg_object_type :: string
  sg_source_activity :: string
  sg_target_activity :: string
  sg_support :: nat
  sg_mean_seconds :: f64
  sg_median_seconds :: f64
  sg_p90_seconds :: f64
  sg_p95_seconds :: f64
  sg_tail_mean_seconds :: f64
  sg_threshold_seconds :: f64
  sg_affected_count :: nat
  sg_affected_rate :: f64
  sg_affected_rate_interval_95 :: "f64 \<times> f64"
  sg_impact_seconds :: f64

record synchronization_attribution =
  sy_activity :: string
  sy_object_type :: string
  sy_support :: nat
  sy_lagging_count :: nat
  sy_mean_readiness_lag_seconds :: f64
  sy_p95_readiness_lag_seconds :: f64

record waiting_cause_attribution =
  wc_activity :: string
  wc_resource :: string
  wc_support :: nat
  wc_total_wait_seconds :: f64
  wc_batching_seconds :: f64
  wc_prioritization_seconds :: f64
  wc_contention_seconds :: f64
  wc_unavailability_seconds :: f64
  wc_extraneous_seconds :: f64

record resource_pressure_result =
  rp_activity :: string
  rp_resource :: string
  rp_support :: nat
  rp_arrival_rate_per_hour :: f64
  rp_throughput_per_hour :: f64
  rp_utilization :: f64
  rp_mean_wait_seconds :: f64
  rp_p95_wait_seconds :: f64
  rp_mean_service_seconds :: f64
  rp_maximum_queue :: nat
  rp_backlog_delta :: int
  rp_unstable :: bool

record bottleneck_change =
  bc_object_type :: string
  bc_source_activity :: string
  bc_target_activity :: string
  bc_baseline_support :: nat
  bc_current_support :: nat
  bc_median_delta_seconds :: f64
  bc_p95_delta_seconds :: f64
  bc_impact_delta_seconds :: f64
  bc_ks_statistic :: f64
  bc_p_value :: f64
  bc_q_value :: f64

record performance_pattern =
  pp_activity :: string
  pp_resource :: string
  pp_support :: nat
  pp_batch_rate :: f64
  pp_overtaking_rate :: f64
  pp_burstiness :: f64

record blocking_cascade =
  cs_activities :: "string list"
  cs_resources :: "string list"
  cs_support :: nat
  cs_maximum_depth :: nat
  cs_attributed_delay_seconds :: f64

record causal_hypothesis_result =
  hy_id :: string
  hy_exposed :: nat
  hy_unexposed :: nat
  hy_effect_given_cause :: f64
  hy_effect_without_cause :: f64
  hy_risk_difference :: f64
  hy_risk_ratio :: "f64 option"
  hy_p_value :: f64
  hy_q_value :: f64
  hy_supported :: bool

record bottleneck_diagnostics =
  bd_observation_count :: nat
  bd_lifecycle_instance_count :: nat
  bd_synchronized_event_count :: nat
  bd_provider :: string
  bd_exact :: bool

record bottleneck_result =
  bres_semantic_version :: string
  bres_signals :: "bottleneck_signal list"
  bres_synchronization :: "synchronization_attribution list"
  bres_waiting_causes :: "waiting_cause_attribution list"
  bres_resource_pressure :: "resource_pressure_result list"
  bres_changes :: "bottleneck_change list"
  bres_patterns :: "performance_pattern list"
  bres_cascades :: "blocking_cascade list"
  bres_hypotheses :: "causal_hypothesis_result list"
  bres_warnings :: "string list"
  bres_diagnostics :: bottleneck_diagnostics

section \<open>Validation\<close>

definition hypothesis_invalid :: "temporal_hypothesis \<Rightarrow> bool" where
  "hypothesis_invalid h \<longleftrightarrow> th_id h = [] \<or> th_cause_activity h = [] \<or> th_effect_target_activity h = [] \<or>
     \<not> f64_is_finite (th_effect_threshold_seconds h) \<or> f64_lt (th_effect_threshold_seconds h) f64_zero \<or>
     \<not> f64_is_finite (th_minimum_lag_seconds h) \<or> f64_lt (th_minimum_lag_seconds h) f64_zero \<or>
     (case th_maximum_lag_seconds h of None \<Rightarrow> False | Some m \<Rightarrow> \<not> f64_is_finite m \<or> f64_lt m (th_minimum_lag_seconds h)) \<or>
     (th_cause_attribute h \<noteq> None) \<noteq> (th_cause_value h \<noteq> None)"

definition validate_bottleneck_request :: "bottleneck_request \<Rightarrow> unit ocpm_result" where
  "validate_bottleneck_request request =
    rbind (ensure (br_semantic_version request = ''1.0'') (invalid_request ''bottleneck semantic_version must be 1.0'')) (\<lambda>_.
    rbind (ensure (f64_le (F_fin (1 / 2)) (br_tail_quantile request) \<and> f64_lt (br_tail_quantile request) f64_one)
      (invalid_request ''tail_quantile must be in [0.5, 1.0)'')) (\<lambda>_.
    rbind (ensure (\<not> (br_minimum_support request = 0 \<or> br_minimum_batch_size request < 2))
      (invalid_request ''minimum_support must be positive and minimum_batch_size at least 2'')) (\<lambda>_.
    rbind (ensure (\<not> (f64_lt (br_batch_tolerance_seconds request) f64_zero \<or>
        (case br_slow_threshold_seconds request of None \<Rightarrow> False | Some v \<Rightarrow> f64_lt v f64_zero \<or> \<not> f64_is_finite v)))
      (invalid_request ''duration thresholds must be finite and nonnegative'')) (\<lambda>_.
    rbind (try_fold (\<lambda>_ intervals. ensure (\<not> (\<exists>x \<in> set intervals. av_end_nanos x \<le> av_start_nanos x))
        (invalid_request ''resource calendar intervals must have positive duration'')) () (bt_values (br_resource_calendars request))) (\<lambda>_.
    try_fold (\<lambda>_ h. ensure (\<not> hypothesis_invalid h)
      (invalid_request ''temporal hypotheses require nonempty activities, finite ordered lags, a nonnegative threshold, and paired cause_attribute/cause_value''))
      () (br_hypotheses request))))))"

section \<open>Statistics\<close>

definition f64_lit :: "rat \<Rightarrow> f64" where
  "f64_lit q = f64_round q"

definition lower_bound :: "f64 list \<Rightarrow> f64 \<Rightarrow> nat" where
  "lower_bound vs needle = length (takeWhile (\<lambda>v. f64_total_lt v needle) vs)"

definition sample_quantile :: "f64 list \<Rightarrow> f64 \<Rightarrow> f64 option" where
  "sample_quantile vs probability =
    (if vs = [] then Some f64_zero
     else let position = f64_mul (f64_of_nat (length vs - 1)) (f64_clamp f64_zero f64_one probability);
              lower = f64_to_u64 (f64_floor position); upper = f64_to_u64 (f64_ceil position) in
       if lower = upper then nth_opt vs lower
       else Option.bind (nth_opt vs lower) (\<lambda>lo. Option.bind (nth_opt vs upper) (\<lambda>hi.
         Some (f64_add lo (f64_mul (f64_sub hi lo) (f64_sub position (f64_of_nat lower)))))))"

definition sample_mean :: "f64 list \<Rightarrow> f64" where
  "sample_mean vs = (if vs = [] then f64_zero else f64_div (f64_sum vs) (f64_of_nat (length vs)))"

definition standard_deviation :: "f64 list \<Rightarrow> f64 \<Rightarrow> f64" where
  "standard_deviation vs average =
    (if length vs < 2 then f64_zero
     else f64_sqrt (f64_div (f64_sum (map (\<lambda>v. f64_mul (f64_sub v average) (f64_sub v average)) vs)) (f64_of_nat (length vs))))"

definition count_ratio :: "nat \<Rightarrow> nat \<Rightarrow> f64" where
  "count_ratio numerator denominator = (if denominator = 0 then f64_zero else f64_div (f64_of_nat numerator) (f64_of_nat denominator))"

definition wilson_interval :: "nat \<Rightarrow> nat \<Rightarrow> f64 \<times> f64" where
  "wilson_interval successes n_total =
    (if n_total = 0 then (f64_zero, f64_zero)
     else let z = f64_lit (1959963984540054 / 1000000000000000); n = f64_of_nat n_total; p = f64_div (f64_of_nat successes) n;
              denominator = f64_add f64_one (f64_div (f64_mul z z) n);
              center = f64_div (f64_add p (f64_div (f64_mul z z) (f64_mul (F_fin 2) n))) denominator;
              margin = f64_div (f64_mul z (f64_sqrt (f64_add (f64_div (f64_mul p (f64_sub f64_one p)) n)
                (f64_div (f64_mul z z) (f64_mul (f64_mul (F_fin 4) n) n))))) denominator
       in (f64_max (f64_sub center margin) f64_zero, f64_min (f64_add center margin) f64_one))"

text \<open>The Kolmogorov-Smirnov walk over two sorted samples, from the indexes reached and the maximum so far.\<close>

definition ks_next :: "f64 list \<Rightarrow> f64 list \<Rightarrow> f64 option" where
  "ks_next left right = (case (left, right) of
     (l # _, r # _) \<Rightarrow> Some (if f64_le l r then l else r) | (l # _, []) \<Rightarrow> Some l | ([], r # _) \<Rightarrow> Some r | ([], []) \<Rightarrow> None)"

definition ks_difference :: "nat \<Rightarrow> nat \<Rightarrow> nat \<Rightarrow> nat \<Rightarrow> f64" where
  "ks_difference i n j m = f64_abs (f64_sub (f64_div (f64_of_nat i) (f64_of_nat n)) (f64_div (f64_of_nat j) (f64_of_nat m)))"

definition ks_advance :: "f64 list \<Rightarrow> nat \<Rightarrow> f64 \<Rightarrow> nat" where
  "ks_advance vs i v = i + length (takeWhile (\<lambda>x. f64_le x v) (drop i vs))"

partial_function (option) ks_walk :: "f64 list \<Rightarrow> f64 list \<Rightarrow> nat \<Rightarrow> nat \<Rightarrow> f64 \<Rightarrow> f64 option" where
  "ks_walk left right i j maximum =
    (case ks_next (drop i left) (drop j right) of None \<Rightarrow> Some maximum
     | Some v \<Rightarrow> let i = ks_advance left i v; j = ks_advance right j v in
         ks_walk left right i j (f64_max maximum (ks_difference i (length left) j (length right))))"

declare ks_walk.simps [code]

definition ks_statistic :: "f64 list \<Rightarrow> f64 list \<Rightarrow> f64 option" where
  "ks_statistic left right = ks_walk left right 0 0 f64_zero"

text \<open>The step-up procedure, from the largest rank down.\<close>

definition bh_step :: "nat \<Rightarrow> nat \<times> nat \<times> f64 \<Rightarrow> f64 list \<times> f64 \<Rightarrow> f64 list \<times> f64" where
  "bh_step n = (\<lambda>(rank, index, v) (output, previous).
     let adjusted = f64_min (f64_min (f64_div (f64_mul v (f64_of_nat n)) (f64_of_nat (rank + 1))) previous) f64_one in
     (output[index := adjusted], adjusted))"

definition benjamini_hochberg :: "f64 list \<Rightarrow> f64 list" where
  "benjamini_hochberg vs =
    (let ranked = sort_by (\<lambda>x y. f64_total_le (snd x) (snd y)) (indexed vs) in
     fst (fold (bh_step (length vs)) (rev (indexed ranked)) (replicate (length vs) f64_one, f64_one)))"

text \<open>\<open>d\<close> is the density of the standard normal distribution over the platform's exponential.\<close>

definition normal_density :: "(f64 \<Rightarrow> f64) \<Rightarrow> f64 \<Rightarrow> f64" where
  "normal_density fexp v = f64_div (fexp (f64_mul (f64_mul (f64_lit (- (1 / 2))) v) v))
     (f64_sqrt (f64_mul (F_fin 2) (f64_lit (314159265358979323846264338327950288 / 10 ^ 35))))"

definition normal_two_sided_survival :: "(f64 \<Rightarrow> f64) \<Rightarrow> f64 \<Rightarrow> f64" where
  "normal_two_sided_survival fexp z =
    (let z = f64_abs z in
     if f64_eq z f64_zero then f64_one
     else if f64_le (F_fin 9) z then f64_zero
     else let width = f64_div z (F_fin 512); density = normal_density fexp;
              integral = fold (\<lambda>index s. f64_add s (f64_mul (if even index then F_fin 2 else F_fin 4) (density (f64_mul (f64_of_nat index) width))))
                [1..<512] (f64_add (density f64_zero) (density z));
              upper_tail = f64_max (f64_sub (F_fin (1 / 2)) (f64_div (f64_mul integral width) (F_fin 3))) f64_zero
       in f64_clamp f64_zero f64_one (f64_mul (F_fin 2) upper_tail))"

text \<open>Products of 64-bit counts wrap.\<close>

definition u64_wrapping :: "nat \<Rightarrow> nat" where
  "u64_wrapping n = n mod 2 ^ 64"

definition chi_square_p_value :: "(f64 \<Rightarrow> f64) \<Rightarrow> nat \<Rightarrow> nat \<Rightarrow> nat \<Rightarrow> nat \<Rightarrow> f64" where
  "chi_square_p_value fexp a b c d =
    (let n = f64_of_nat (u64_wrapping (a + b + c + d));
         denominator = f64_of_nat (u64_wrapping ((a + b) * (c + d) * (a + c) * (b + d))) in
     if f64_eq n f64_zero \<or> f64_eq denominator f64_zero then f64_one
     else let cross = f64_abs (f64_sub (f64_mul (f64_of_nat a) (f64_of_nat d)) (f64_mul (f64_of_nat b) (f64_of_nat c)));
              chi_square = f64_div (f64_mul (f64_mul n cross) cross) denominator
       in normal_two_sided_survival fexp (f64_sqrt chi_square))"

text \<open>The alternating series, cut after 100 terms or at a term below \<open>1e-14\<close>.\<close>

fun survival_series :: "(f64 \<Rightarrow> f64) \<Rightarrow> f64 \<Rightarrow> nat list \<Rightarrow> f64 \<Rightarrow> f64" where
  "survival_series fexp lambda [] s = s"
| "survival_series fexp lambda (order # orders) s =
    (let term_value = fexp (f64_mul (f64_mul (f64_mul (F_fin (- 2)) (f64_mul (f64_of_nat order) (f64_of_nat order))) lambda) lambda);
         s = f64_add s (if odd order then term_value else f64_neg term_value) in
     if f64_lt term_value (f64_lit (1 / 10 ^ 14)) then s else survival_series fexp lambda orders s)"

definition kolmogorov_survival :: "(f64 \<Rightarrow> f64) \<Rightarrow> f64 \<Rightarrow> f64" where
  "kolmogorov_survival fexp lambda =
    (if f64_le lambda f64_zero then f64_one
     else f64_clamp f64_zero f64_one (f64_mul (F_fin 2) (survival_series fexp lambda [1..<101] f64_zero)))"

end
