(* ===== verification/BottleneckStats.thy ===== *)
theory BottleneckStats
  imports BottleneckData
begin

text \<open>
  Facts about the statistics of \<open>crates/ocpm-bottleneck/src/lib.rs\<close>: quantiles never leave the sample, the Kolmogorov-Smirnov walk
  ends and finds the greatest difference of the empirical distributions, and the step-up procedure of Benjamini and Hochberg.
\<close>

section \<open>Quantiles\<close>

lemma clamp_unit_cases: "f64_clamp f64_zero f64_one x \<in> {F_nan, F_negzero} \<or> (\<exists>q. f64_clamp f64_zero f64_one x = F_fin q \<and> 0 \<le> q \<and> q \<le> 1)"
  by (cases x) (auto simp: f64_clamp_def Let_def)

lemma position_bounds:
  assumes "n < 2 ^ 53"
  shows "f64_to_u64 (f64_floor (f64_mul (f64_of_nat n) (f64_clamp f64_zero f64_one p))) \<le> n \<and>
    f64_to_u64 (f64_ceil (f64_mul (f64_of_nat n) (f64_clamp f64_zero f64_one p))) \<le> n"
proof -
  consider "f64_clamp f64_zero f64_one p = F_nan" | "f64_clamp f64_zero f64_one p = F_negzero"
    | q where "f64_clamp f64_zero f64_one p = F_fin q" "0 \<le> q" "q \<le> 1"
    using clamp_unit_cases [of p] by auto
  then show ?thesis
  proof cases
    case 1
    then show ?thesis by (simp add: f64_mul_def)
  next
    case 2
    then show ?thesis using assms by (simp add: f64_mul_def f64_of_nat_exact f64_signed_zero_def)
  next
    case 3
    then obtain y where y: "f64_mul (f64_of_nat n) (F_fin q) = F_fin y" "0 \<le> y" "y \<le> of_nat n" using scaled_position [OF assms] by blast
    have "\<lfloor>y\<rfloor> \<le> int n" "\<lceil>y\<rceil> \<le> int n" using y(3) by linarith+
    then show ?thesis using y(2) unfolding 3(1) y(1) by (auto simp: min_def u64_max_def)
  qed
qed

lemma quantile_total:
  assumes "length vs \<le> 2 ^ 53"
  shows "\<exists>v. sample_quantile vs probability = Some v"
proof (cases "vs = []")
  case False
  then have "length vs - 1 < 2 ^ 53" using assms by (cases vs) auto
  note bounds = position_bounds [OF this, of probability]
  then show ?thesis using False by (cases vs) (auto simp: sample_quantile_def Let_def nth_opt_def less_Suc_eq_le)
qed (simp add: sample_quantile_def)

section \<open>Ranks\<close>

lemma f64_le_rank: "x \<noteq> F_nan \<Longrightarrow> y \<noteq> F_nan \<Longrightarrow> f64_le x y \<longleftrightarrow> f64_rank x \<le> f64_rank y"
  by (auto simp: f64_le_def f64_lt_rank f64_eq_rank)

lemma f64_max_rank: "x \<noteq> F_nan \<Longrightarrow> y \<noteq> F_nan \<Longrightarrow> f64_max x y \<noteq> F_nan \<and> f64_max x y \<in> {x, y} \<and> f64_rank (f64_max x y) = max (f64_rank x) (f64_rank y)"
  by (auto simp: f64_max_def f64_lt_rank max_def)

lemma f64_min_rank: "x \<noteq> F_nan \<Longrightarrow> y \<noteq> F_nan \<Longrightarrow> f64_min x y \<noteq> F_nan \<and> f64_min x y \<in> {x, y} \<and> f64_rank (f64_min x y) = min (f64_rank x) (f64_rank y)"
  by (auto simp: f64_min_def f64_lt_rank min_def)

text \<open>A sample without NaN, in ascending order.\<close>

definition ascending :: "f64 list \<Rightarrow> bool" where
  "ascending vs \<longleftrightarrow> F_nan \<notin> set vs \<and> sorted (map f64_rank vs)"

lemma total_sorted_ascending:
  assumes "F_nan \<notin> set vs"
  shows "ascending (sort_by f64_total_le vs)"
proof -
  have key: "sort_by f64_total_le vs = sort_key total_rank vs"
    by (rule sort_by_key) (simp add: f64_total_le_def f64_total_lt_rank not_less)
  have rank: "total_rank x \<le> total_rank y \<Longrightarrow> f64_rank x \<le> f64_rank y" if "x \<noteq> F_nan" "y \<noteq> F_nan" for x y
    using that by (cases x; cases y) (auto simp: less_eq_prod_def split: if_splits)
  have "sorted_wrt (\<lambda>x y. total_rank x \<le> total_rank y) (sort_key total_rank vs)"
    using sorted_sort_key [of total_rank vs] by (simp add: sorted_wrt_map)
  then have "sorted_wrt (\<lambda>x y. f64_rank x \<le> f64_rank y) (sort_key total_rank vs)"
    by (rule sorted_wrt_mono_rel [rotated]) (use rank assms in \<open>metis set_sort\<close>)
  then show ?thesis using assms by (simp add: key ascending_def sorted_wrt_map)
qed

text \<open>The number of values up to a threshold is the position where the walk over a sorted sample stops.\<close>

definition count_le :: "f64 list \<Rightarrow> f64 \<Rightarrow> nat" where
  "count_le vs v = length (filter (\<lambda>x. f64_le x v) vs)"

lemma count_le_position:
  assumes "ascending vs" "v \<noteq> F_nan"
  shows "i < length vs \<Longrightarrow> f64_le (vs ! i) v \<longleftrightarrow> i < count_le vs v" and "count_le vs v = length (takeWhile (\<lambda>x. f64_le x v) vs)"
proof -
  have "filter (\<lambda>x. f64_le x v) vs = takeWhile (\<lambda>x. f64_le x v) vs"
    using assms
  proof (induction vs)
    case (Cons x vs)
    have "\<not> f64_le y v" if "y \<in> set vs" "\<not> f64_le x v" for y
    proof -
      have "y \<noteq> F_nan" "x \<noteq> F_nan" "f64_rank x \<le> f64_rank y" using Cons.prems that(1) by (auto simp: ascending_def)
      then show ?thesis using that(2) Cons.prems(2) by (auto simp: f64_le_rank)
    qed
    then show ?case using Cons by (auto simp: ascending_def filter_empty_conv)
  qed simp
  then show eq: "count_le vs v = length (takeWhile (\<lambda>x. f64_le x v) vs)" by (simp add: count_le_def)
  show "f64_le (vs ! i) v \<longleftrightarrow> i < count_le vs v" if "i < length vs"
  proof
    assume "i < count_le vs v"
    then show "f64_le (vs ! i) v" unfolding eq by (metis nth_mem set_takeWhileD takeWhile_nth)
  next
    assume le: "f64_le (vs ! i) v"
    show "i < count_le vs v"
    proof (rule ccontr)
      assume "\<not> i < count_le vs v"
      then have k: "count_le vs v \<le> i" "count_le vs v < length vs" using that by auto
      then have "\<not> f64_le (vs ! count_le vs v) v" unfolding eq by (metis nth_length_takeWhile)
      moreover have "f64_rank (vs ! count_le vs v) \<le> f64_rank (vs ! i)"
        using assms(1) k that by (auto simp: ascending_def sorted_iff_nth_mono)
      moreover have "vs ! count_le vs v \<noteq> F_nan" "vs ! i \<noteq> F_nan" using assms(1) k(2) that by (metis ascending_def nth_mem)+
      ultimately show False using le assms(2) by (auto simp: f64_le_rank)
    qed
  qed
qed

lemma advance_count:
  assumes "ascending vs" "v \<noteq> F_nan" "i \<le> count_le vs v"
  shows "ks_advance vs i v = count_le vs v"
proof -
  have len: "count_le vs v \<le> length vs" by (simp add: count_le_def)
  have "takeWhile (\<lambda>x. f64_le x v) vs = take i vs @ takeWhile (\<lambda>x. f64_le x v) (drop i vs)"
  proof -
    have "f64_le x v" if "x \<in> set (take i vs)" for x
      using that assms(3) len count_le_position(1) [OF assms(1,2)] by (auto simp: in_set_conv_nth)
    then have "takeWhile (\<lambda>x. f64_le x v) (take i vs @ drop i vs) = take i vs @ takeWhile (\<lambda>x. f64_le x v) (drop i vs)"
      by (intro takeWhile_append2)
    then show ?thesis by simp
  qed
  then have "count_le vs v = length (take i vs @ takeWhile (\<lambda>x. f64_le x v) (drop i vs))"
    by (simp only: count_le_position(2) [OF assms(1,2)])
  then show ?thesis using assms(3) len by (simp add: ks_advance_def)
qed

section \<open>The Kolmogorov-Smirnov walk\<close>

text \<open>The difference of the empirical distributions at a value.\<close>

definition distribution_difference :: "f64 list \<Rightarrow> f64 list \<Rightarrow> f64 \<Rightarrow> f64" where
  "distribution_difference left right v = ks_difference (count_le left v) (length left) (count_le right v) (length right)"

lemma unit_number: "f64_unit x \<Longrightarrow> x = F_negzero \<or> (\<exists>q. x = F_fin q)"
  by (cases x) (auto simp: f64_unit_def f64_le_def)

lemma round_number: "f64_round q \<noteq> F_nan"
  by (auto simp: f64_round_def Let_def)

lemma sub_number: "f64_unit x \<Longrightarrow> f64_unit y \<Longrightarrow> f64_sub x y \<noteq> F_nan"
  by (auto dest!: unit_number simp: f64_sub_def round_number split: if_splits)

lemma difference_number:
  assumes "left \<noteq> []" "right \<noteq> []" "length left \<le> u64_max" "length right \<le> u64_max"
  shows "distribution_difference left right v \<noteq> F_nan"
proof -
  have "f64_unit (f64_div (f64_of_nat (count_le vs v)) (f64_of_nat (length vs)))" if "vs \<noteq> []" "length vs \<le> u64_max" for vs
    by (rule f64_div_counts_unit) (use that in \<open>simp_all add: count_le_def\<close>)
  then have "f64_sub (f64_div (f64_of_nat (count_le left v)) (f64_of_nat (length left)))
      (f64_div (f64_of_nat (count_le right v)) (f64_of_nat (length right))) \<noteq> F_nan"
    using assms by (intro sub_number)
  moreover have "f64_abs x \<noteq> F_nan" if "x \<noteq> F_nan" for x using that by (cases x) auto
  ultimately show ?thesis by (simp add: distribution_difference_def ks_difference_def)
qed

lemma difference_cong:
  assumes "ascending left" "ascending right" "v \<noteq> F_nan" "w \<noteq> F_nan" "f64_rank v = f64_rank w"
  shows "distribution_difference left right v = distribution_difference left right w"
proof -
  have "count_le vs v = count_le vs w" if "ascending vs" for vs
  proof -
    have "f64_le x v = f64_le x w" if "x \<in> set vs" for x
    proof -
      have "x \<noteq> F_nan" using that \<open>ascending vs\<close> by (auto simp: ascending_def)
      then show ?thesis using assms(3-5) by (simp add: f64_le_rank)
    qed
    then show ?thesis unfolding count_le_def by (metis filter_cong)
  qed
  then show ?thesis using assms(1,2) by (simp add: distribution_difference_def)
qed

lemma ks_next_min:
  assumes "ascending left" "ascending right" "left \<noteq> [] \<or> right \<noteq> []"
  shows "\<exists>v. ks_next left right = Some v \<and> v \<in> set left \<union> set right \<and> v \<noteq> F_nan \<and> (\<forall>x \<in> set left \<union> set right. f64_rank v \<le> f64_rank x)"
  using assms by (cases left; cases right) (auto simp: ks_next_def ascending_def f64_le_rank)

lemma ascending_drop: "ascending vs \<Longrightarrow> ascending (drop i vs)"
  unfolding ascending_def by (metis drop_map in_set_dropD sorted_wrt_drop)

text \<open>The positions separate the values seen from the values to come.\<close>

definition cut :: "f64 list \<Rightarrow> f64 list \<Rightarrow> nat \<Rightarrow> nat \<Rightarrow> bool" where
  "cut left right i j \<longleftrightarrow> i \<le> length left \<and> j \<le> length right \<and>
     (\<forall>x \<in> set (take i left) \<union> set (take j right). \<forall>y \<in> set (drop i left) \<union> set (drop j right). f64_rank x < f64_rank y)"

lemma cut_advance:
  assumes "ascending left" "ascending right" "cut left right i j" "v \<in> set (drop i left) \<union> set (drop j right)" "v \<noteq> F_nan"
    "\<forall>x \<in> set (drop i left) \<union> set (drop j right). f64_rank v \<le> f64_rank x"
  shows "ks_advance left i v = count_le left v" "ks_advance right j v = count_le right v" "i \<le> count_le left v" "j \<le> count_le right v"
    "cut left right (count_le left v) (count_le right v)" "i < count_le left v \<or> j < count_le right v"
proof -
  have nan: "x \<noteq> F_nan" if "x \<in> set left \<union> set right" for x using that assms(1,2) by (auto simp: ascending_def)
  have before: "i \<le> count_le vs v" if "ascending vs" "\<forall>x \<in> set (take i vs). f64_rank x < f64_rank v" "i \<le> length vs" for vs i
  proof (rule ccontr)
    assume "\<not> i \<le> count_le vs v"
    then have k: "count_le vs v < i" "count_le vs v < length vs" using that(3) by auto
    then have "vs ! count_le vs v \<in> set (take i vs)" by (metis in_set_conv_nth length_take min_less_iff_conj nth_take)
    then have "f64_rank (vs ! count_le vs v) < f64_rank v" using that(2) by blast
    moreover have "vs ! count_le vs v \<noteq> F_nan" using that(1) k(2) by (metis ascending_def nth_mem)
    ultimately show False using count_le_position(1) [OF that(1) assms(5) k(2)] assms(5) by (simp add: f64_le_rank order_less_imp_le)
  qed
  show i: "i \<le> count_le left v" using assms(3,4) by (intro before [OF assms(1)]) (auto simp: cut_def)
  show j: "j \<le> count_le right v" using assms(3,4) by (intro before [OF assms(2)]) (auto simp: cut_def)
  show "ks_advance left i v = count_le left v" "ks_advance right j v = count_le right v"
    by (rule advance_count, fact+)+
  have taken: "f64_rank x \<le> f64_rank v" if mem: "x \<in> set (take (count_le vs v) vs)" and asc: "ascending vs" for x vs
  proof -
    obtain k where k: "k < count_le vs v" "k < length vs" "x = vs ! k"
      using mem unfolding in_set_conv_nth by auto
    then have "f64_le x v" using count_le_position(1) [OF asc assms(5)] by simp
    moreover have "x \<noteq> F_nan" using mem asc by (metis ascending_def in_set_takeD)
    ultimately show ?thesis using assms(5) by (simp add: f64_le_rank)
  qed
  have left_over: "f64_rank v < f64_rank x" if mem: "x \<in> set (drop (count_le vs v) vs)" and asc: "ascending vs" for x vs
  proof -
    have len: "count_le vs v \<le> length vs" by (simp add: count_le_def)
    obtain d where d: "d < length (drop (count_le vs v) vs)" "x = drop (count_le vs v) vs ! d" using mem unfolding in_set_conv_nth by blast
    define k where "k = count_le vs v + d"
    have k: "count_le vs v \<le> k" "k < length vs" "x = vs ! k" using d len by (simp_all add: k_def)
    then have "\<not> f64_le x v" using count_le_position(1) [OF asc assms(5), of k] by simp
    moreover have "x \<noteq> F_nan" using mem asc by (metis ascending_def in_set_dropD)
    ultimately show ?thesis using assms(5) by (simp add: f64_le_rank)
  qed
  show "cut left right (count_le left v) (count_le right v)"
    using taken left_over assms(1,2) unfolding cut_def by (fastforce simp: count_le_def)
  show "i < count_le left v \<or> j < count_le right v"
  proof (rule ccontr)
    assume "\<not> ?thesis"
    then have "count_le left v = i" "count_le right v = j" using i j by auto
    then have "f64_rank v < f64_rank v" using left_over [of v] assms(1,2,4) by auto
    then show False by simp
  qed
qed

lemma ks_walk_greatest:
  assumes "ascending left" "ascending right" "left \<noteq> []" "right \<noteq> []" "length left \<le> u64_max" "length right \<le> u64_max"
    "cut left right i j" "m \<noteq> F_nan"
  shows "\<exists>d. ks_walk left right i j m = Some d \<and> d \<noteq> F_nan \<and> f64_rank m \<le> f64_rank d \<and>
    (\<forall>v \<in> set (drop i left) \<union> set (drop j right). f64_rank (distribution_difference left right v) \<le> f64_rank d) \<and>
    (d = m \<or> (\<exists>v \<in> set (drop i left) \<union> set (drop j right). d = distribution_difference left right v))"
  using assms(7,8)
proof (induction "(length left - i) + (length right - j)" arbitrary: i j m rule: less_induct)
  case less
  let ?rest = "set (drop i left) \<union> set (drop j right)" and ?D = "distribution_difference left right"
  show ?case
  proof (cases "drop i left = [] \<and> drop j right = []")
    case True
    then have "ks_walk left right i j m = Some m" by (subst ks_walk.simps) (simp add: ks_next_def)
    then show ?thesis using True less.prems(2) by simp
  next
    case False
    then obtain v where v: "ks_next (drop i left) (drop j right) = Some v" "v \<in> ?rest" "v \<noteq> F_nan" "\<forall>x \<in> ?rest. f64_rank v \<le> f64_rank x"
      using ks_next_min [OF ascending_drop [OF assms(1)] ascending_drop [OF assms(2)]] by (metis (no_types, lifting))
    note cut = cut_advance [OF assms(1,2) less.prems(1) v(2-4)]
    let ?i = "count_le left v" and ?j = "count_le right v" and ?m = "f64_max m (?D v)"
    have walk: "ks_walk left right i j m = ks_walk left right ?i ?j ?m"
      by (subst ks_walk.simps) (simp add: v(1) cut(1,2) Let_def distribution_difference_def)
    have D: "?D v \<noteq> F_nan" by (rule difference_number [OF assms(3-6)])
    note max = f64_max_rank [OF less.prems(2) D]
    have "?i \<le> length left" "?j \<le> length right" by (simp_all add: count_le_def)
    then have "(length left - ?i) + (length right - ?j) < (length left - i) + (length right - j)" using cut(3,4,6) by linarith
    then obtain d where d: "ks_walk left right ?i ?j ?m = Some d" "d \<noteq> F_nan" "f64_rank ?m \<le> f64_rank d"
      "\<forall>w \<in> set (drop ?i left) \<union> set (drop ?j right). f64_rank (?D w) \<le> f64_rank d"
      "d = ?m \<or> (\<exists>w \<in> set (drop ?i left) \<union> set (drop ?j right). d = ?D w)"
      using less.hyps [of ?i ?j ?m] cut(5) max by blast
    have sub: "set (drop ?i left) \<union> set (drop ?j right) \<subseteq> ?rest"
      using cut(3,4) by (meson Un_mono set_drop_subset_set_drop)
    have greater: "f64_rank (?D w) \<le> f64_rank d" if "w \<in> ?rest" for w
    proof (cases "w \<in> set (drop ?i left) \<union> set (drop ?j right)")
      case False
      have nan: "w \<noteq> F_nan" using that assms(1,2) by (auto simp: ascending_def dest: in_set_dropD)
      have "w \<in> set left \<union> set right" using that by (auto dest: in_set_dropD)
      then have "w \<in> set (take ?i left) \<union> set (take ?j right)" using False
        by (metis Un_iff append_take_drop_id set_append)
      then have "f64_le w v" using count_le_position(2) [OF assms(1) v(3)] count_le_position(2) [OF assms(2) v(3)]
        by (metis Un_iff set_takeWhileD takeWhile_eq_take)
      then have "f64_rank w = f64_rank v" using that v(3,4) nan by (simp add: f64_le_rank antisym)
      then have "?D w = ?D v" by (rule difference_cong [OF assms(1,2) nan v(3)])
      then show ?thesis using max d(3) by simp
    qed (use d(4) in blast)
    have "d = m \<or> (\<exists>w \<in> ?rest. d = ?D w)" using d(5) max sub v(2) by blast
    then show ?thesis using walk d(1,2,3) greater max by (intro exI [of _ d]) simp
  qed
qed

lemma ks_statistic_total:
  assumes "ascending left" "ascending right" "left \<noteq> []" "right \<noteq> []" "length left \<le> u64_max" "length right \<le> u64_max"
  shows "\<exists>d. ks_statistic left right = Some d"
proof -
  have "cut left right 0 0" "f64_zero \<noteq> F_nan" by (simp_all add: cut_def)
  then show ?thesis using ks_walk_greatest [OF assms, of 0 0 f64_zero] by (auto simp: ks_statistic_def)
qed

text \<open>
  C29: the Kolmogorov-Smirnov statistic of two ordered samples without NaN is the greatest difference of their empirical
  distributions at a value of either sample: the walk over both samples ends without leaving them, no value has a greater
  difference, and the result is zero or the difference at one of the values.
\<close>

theorem ks_statistic_correct:
  assumes "ascending left" "ascending right" "left \<noteq> []" "right \<noteq> []" "length left \<le> u64_max" "length right \<le> u64_max"
  shows "\<exists>d. ks_statistic left right = Some d \<and>
    (\<forall>v \<in> set left \<union> set right. f64_le (ks_difference (length (filter (\<lambda>x. f64_le x v) left)) (length left)
      (length (filter (\<lambda>x. f64_le x v) right)) (length right)) d) \<and>
    (d = f64_zero \<or> (\<exists>v \<in> set left \<union> set right. d = ks_difference (length (filter (\<lambda>x. f64_le x v) left)) (length left)
      (length (filter (\<lambda>x. f64_le x v) right)) (length right)))"
proof -
  have "cut left right 0 0" "f64_zero \<noteq> F_nan" by (simp_all add: cut_def)
  then obtain d where d: "ks_walk left right 0 0 f64_zero = Some d" "d \<noteq> F_nan"
    "\<forall>v \<in> set left \<union> set right. f64_rank (distribution_difference left right v) \<le> f64_rank d"
    "d = f64_zero \<or> (\<exists>v \<in> set left \<union> set right. d = distribution_difference left right v)"
    using ks_walk_greatest [OF assms, of 0 0 f64_zero] by auto
  have "\<forall>v \<in> set left \<union> set right. f64_le (distribution_difference left right v) d"
    using d(2,3) difference_number [OF assms(3-6)] by (simp add: f64_le_rank)
  then show ?thesis using d(1,4) unfolding ks_statistic_def distribution_difference_def count_le_def by blast
qed

theorem ks_statistic_correct_witness:
  "\<exists>d. ks_statistic [F_fin 1, F_fin 2] [F_fin 2, F_fin 3] = Some d \<and> f64_le (ks_difference 1 2 0 2) d"
proof -
  have sample: "ascending [F_fin 1, F_fin 2]" "ascending [F_fin 2, F_fin 3]" by (simp_all add: ascending_def less_eq_prod_def)
  obtain d where d: "ks_statistic [F_fin 1, F_fin 2] [F_fin 2, F_fin 3] = Some d"
    "\<forall>v \<in> set [F_fin 1, F_fin 2] \<union> set [F_fin 2, F_fin 3]. f64_le (ks_difference (length (filter (\<lambda>x. f64_le x v) [F_fin 1, F_fin 2]))
      (length [F_fin 1, F_fin 2]) (length (filter (\<lambda>x. f64_le x v) [F_fin 2, F_fin 3])) (length [F_fin 2, F_fin 3])) d"
    using ks_statistic_correct [OF sample] by (auto simp: u64_max_def)
  have "filter (\<lambda>x. f64_le x (F_fin 1)) [F_fin 1, F_fin 2] = [F_fin 1]" "filter (\<lambda>x. f64_le x (F_fin 1)) [F_fin 2, F_fin 3] = []"
    by (simp_all add: f64_le_def)
  then show ?thesis using d(1) bspec [OF d(2), of "F_fin 1"] by (simp add: numeral_2_eq_2)
qed

section \<open>The step-up procedure\<close>

text \<open>The value that the procedure compares at a rank.\<close>

definition adjusted_value :: "nat \<Rightarrow> nat \<Rightarrow> f64 \<Rightarrow> f64" where
  "adjusted_value n rank v = f64_div (f64_mul v (f64_of_nat n)) (f64_of_nat (rank + 1))"

lemma adjusted_number:
  assumes "v \<noteq> F_nan" "0 < n" "n \<le> u64_max" "rank < n"
  shows "adjusted_value n rank v \<noteq> F_nan"
proof -
  obtain a b where pos: "f64_of_nat n = F_fin a" "1 \<le> a" "f64_of_nat (rank + 1) = F_fin b" "1 \<le> b"
    using f64_of_nat_pos [of n] f64_of_nat_pos [of "rank + 1"] assms by (metis Suc_eq_plus1 Suc_leI le_trans zero_less_Suc)
  have "f64_mul v (F_fin a) \<noteq> F_nan" using assms(1) pos(2) by (auto simp: f64_mul_def Let_def f64_signed_zero_def round_number)
  then show ?thesis unfolding adjusted_value_def pos(1,3) using pos(4)
    by (auto simp: f64_div_def Let_def f64_signed_zero_def round_number)
qed

text \<open>The least of the adjusted values from a rank on, and one.\<close>

definition step_up :: "f64 list \<Rightarrow> f64 \<Rightarrow> f64" where
  "step_up adjusted start = foldr (\<lambda>v previous. f64_min (f64_min v previous) f64_one) adjusted start"

lemma step_up_Cons: "step_up (v # vs) start = f64_min (f64_min v (step_up vs start)) f64_one"
  by (simp add: step_up_def)

lemma step_up_least:
  assumes "F_nan \<notin> set adjusted"
  shows "step_up adjusted f64_one \<noteq> F_nan \<and> f64_le (step_up adjusted f64_one) f64_one \<and> (\<forall>v \<in> set adjusted. f64_le (step_up adjusted f64_one) v) \<and>
    (step_up adjusted f64_one = f64_one \<or> step_up adjusted f64_one \<in> set adjusted)"
  using assms
proof (induction adjusted)
  case Nil
  then show ?case by (simp add: step_up_def f64_le_def)
next
  case (Cons v vs)
  let ?p = "step_up vs f64_one"
  have ih: "?p \<noteq> F_nan" "f64_rank ?p \<le> f64_rank f64_one" "\<forall>w \<in> set vs. f64_rank ?p \<le> f64_rank w" "?p = f64_one \<or> ?p \<in> set vs"
  proof -
    have nan: "w \<noteq> F_nan" if "w \<in> set vs" for w using that Cons.prems by auto
    show "?p \<noteq> F_nan" "?p = f64_one \<or> ?p \<in> set vs" using Cons by simp_all
    moreover have "f64_one \<noteq> F_nan" by simp
    ultimately show "f64_rank ?p \<le> f64_rank f64_one" "\<forall>w \<in> set vs. f64_rank ?p \<le> f64_rank w"
      using Cons nan by (simp_all add: f64_le_rank)
  qed
  have v: "v \<noteq> F_nan" "f64_one \<noteq> F_nan" using Cons.prems by auto
  define q where "q = f64_min v ?p"
  have q: "q \<noteq> F_nan" "q \<in> {v, ?p}" "f64_rank q = min (f64_rank v) (f64_rank ?p)"
    using f64_min_rank [OF v(1) ih(1)] by (simp_all add: q_def)
  have r: "f64_min q f64_one \<noteq> F_nan" "f64_min q f64_one \<in> {q, f64_one}" "f64_rank (f64_min q f64_one) = min (f64_rank q) (f64_rank f64_one)"
    using f64_min_rank [OF q(1) v(2)] by simp_all
  have step: "step_up (v # vs) f64_one = f64_min q f64_one" by (simp add: step_up_Cons q_def)
  have "f64_le (f64_min q f64_one) w" if "w = f64_one \<or> w \<in> set (v # vs)" for w
  proof -
    have "w \<noteq> F_nan" using that Cons.prems by auto
    moreover have "f64_rank (f64_min q f64_one) \<le> f64_rank w" using that ih(2,3) unfolding r(3) q(3) by (auto simp: min_le_iff_disj)
    ultimately show ?thesis using r(1) by (simp add: f64_le_rank)
  qed
  then show ?case unfolding step using r(1,2) q(2) ih(4) by auto
qed

lemma map_insert_by: "map f (insert_by (\<lambda>x y. le (f x) (f y)) x ys) = insert_by le (f x) (map f ys)"
  by (induction ys) auto

lemma map_sort_by: "map f (sort_by (\<lambda>x y. le (f x) (f y)) xs) = sort_by le (map f xs)"
  by (induction xs) (simp_all add: sort_by_def map_insert_by)

lemma bh_run:
  assumes "distinct (map fst ranked)" "fst ` set ranked \<subseteq> {..<n}" "length out = n"
  shows "\<exists>out'. foldr (bh_step n) (map (\<lambda>r. (r, ranked ! r)) [k..<length ranked]) (out, start) =
      (out', step_up (map (\<lambda>r. adjusted_value n r (snd (ranked ! r))) [k..<length ranked]) start) \<and> length out' = n \<and>
    (\<forall>r. k \<le> r \<and> r < length ranked \<longrightarrow>
      out' ! fst (ranked ! r) = step_up (map (\<lambda>r. adjusted_value n r (snd (ranked ! r))) [r..<length ranked]) start)"
proof (induction "length ranked - k" arbitrary: k)
  case 0
  then show ?case using assms(3) by (auto simp: step_up_def)
next
  case (Suc d)
  then have k: "k < length ranked" "d = length ranked - Suc k" by auto
  let ?q = "\<lambda>r. step_up (map (\<lambda>r. adjusted_value n r (snd (ranked ! r))) [r..<length ranked]) start"
  obtain out' where out': "foldr (bh_step n) (map (\<lambda>r. (r, ranked ! r)) [Suc k..<length ranked]) (out, start) = (out', ?q (Suc k))"
    "length out' = n" "\<forall>r. Suc k \<le> r \<and> r < length ranked \<longrightarrow> out' ! fst (ranked ! r) = ?q r"
    using Suc.hyps(1) [OF k(2)] by blast
  have upt: "[k..<length ranked] = k # [Suc k..<length ranked]" using k(1) by (rule upt_conv_Cons)
  have q: "?q k = f64_min (f64_min (adjusted_value n k (snd (ranked ! k))) (?q (Suc k))) f64_one"
    unfolding upt by (simp add: step_up_Cons)
  have step: "foldr (bh_step n) (map (\<lambda>r. (r, ranked ! r)) [k..<length ranked]) (out, start) = (out'[fst (ranked ! k) := ?q k], ?q k)"
    unfolding upt list.map foldr.simps comp_apply out'(1)
    by (cases "ranked ! k") (simp add: bh_step_def step_up_Cons Let_def adjusted_value_def)
  have idx: "fst (ranked ! k) < n" using assms(2) k(1) nth_mem by blast
  have "(out'[fst (ranked ! k) := ?q k]) ! fst (ranked ! r) = ?q r" if "k \<le> r" "r < length ranked" for r
  proof (cases "r = k")
    case False
    then have "fst (ranked ! k) \<noteq> fst (ranked ! r)" using assms(1) k(1) that by (simp add: distinct_conv_nth)
    then show ?thesis using out'(3) that False by simp
  qed (use idx out'(2) in simp)
  then show ?case using step out'(2) by (intro exI [of _ "out'[fst (ranked ! k) := ?q k]"]) simp
qed

text \<open>
  C30: the correction of Benjamini and Hochberg is the step-up procedure: there is an ascending order of the p-values in which the
  value at each rank becomes the least of one and the adjusted values \<open>p * n / (rank + 1)\<close> of its own and all later ranks.
\<close>

theorem benjamini_hochberg_step_up:
  assumes "F_nan \<notin> set vs" "length vs \<le> u64_max"
  shows "length (benjamini_hochberg vs) = length vs \<and> (\<exists>order. distinct order \<and> set order = {..<length vs} \<and> ascending (map ((!) vs) order) \<and>
    (\<forall>r < length vs. let q = benjamini_hochberg vs ! (order ! r); adjusted = (\<lambda>k. f64_div (f64_mul (vs ! (order ! k)) (f64_of_nat (length vs))) (f64_of_nat (k + 1))) in
       f64_le q f64_one \<and> (\<forall>k. r \<le> k \<and> k < length vs \<longrightarrow> f64_le q (adjusted k)) \<and>
       (q = f64_one \<or> (\<exists>k. r \<le> k \<and> k < length vs \<and> q = adjusted k))))"
proof -
  let ?n = "length vs"
  define ranked where "ranked = sort_by (\<lambda>x y. f64_total_le (snd x) (snd y)) (indexed vs)"
  let ?adj = "\<lambda>r. adjusted_value ?n r (snd (ranked ! r))"
  have mset: "mset ranked = mset (indexed vs)" by (simp add: ranked_def)
  have len: "length ranked = ?n" using arg_cong [OF mset, of size] by (simp add: indexed_def)
  have fsts: "mset (map fst ranked) = mset [0..<?n]" unfolding mset_map mset by (simp add: indexed_def flip: mset_map)
  have dist: "distinct (map fst ranked)" by (rule mset_eq_imp_distinct_iff [THEN iffD2, OF fsts]) simp
  have fst_set: "set (map fst ranked) = {..<?n}" using mset_eq_setD [OF fsts] by (simp add: atLeast0LessThan)
  have entry: "fst (ranked ! r) < ?n \<and> snd (ranked ! r) = vs ! fst (ranked ! r)" if "r < ?n" for r
  proof -
    have "ranked ! r \<in> set ranked" using that len by simp
    then have "ranked ! r \<in> set (indexed vs)" using mset_eq_setD [OF mset] by simp
    then show ?thesis using set_indexed [of "fst (ranked ! r)" "snd (ranked ! r)" vs] by simp
  qed
  have nan: "?adj r \<noteq> F_nan" if "r < ?n" for r
  proof (rule adjusted_number [OF _ _ assms(2) that])
    show "snd (ranked ! r) \<noteq> F_nan" using entry [OF that] assms(1) by (metis nth_mem)
    show "0 < ?n" using that by linarith
  qed
  have run: "benjamini_hochberg vs = fst (foldr (bh_step ?n) (map (\<lambda>r. (r, ranked ! r)) [0..<length ranked]) (replicate ?n f64_one, f64_one))"
    by (simp only: benjamini_hochberg_def Let_def ranked_def [symmetric] foldr_conv_fold indexed_map [of ranked] comp_apply)
  obtain out where out: "foldr (bh_step ?n) (map (\<lambda>r. (r, ranked ! r)) [0..<length ranked]) (replicate ?n f64_one, f64_one) =
      (out, step_up (map ?adj [0..<length ranked]) f64_one)" "length out = ?n"
    "\<forall>r. 0 \<le> r \<and> r < length ranked \<longrightarrow> out ! fst (ranked ! r) = step_up (map ?adj [r..<length ranked]) f64_one"
    using bh_run [OF dist, of ?n "replicate ?n f64_one" 0 f64_one] fst_set by auto
  have bh: "benjamini_hochberg vs = out" unfolding run out(1) by simp
  have "ascending (map ((!) vs) (map fst ranked))"
  proof -
    have "map ((!) vs) (map fst ranked) = map snd ranked" by (rule nth_equalityI) (use entry len in simp_all)
    moreover have "map snd ranked = sort_by f64_total_le vs"
      by (simp add: ranked_def map_sort_by)
    ultimately show ?thesis using total_sorted_ascending [OF assms(1)] by simp
  qed
  moreover have "let q = benjamini_hochberg vs ! (map fst ranked ! r);
      adjusted = (\<lambda>k. f64_div (f64_mul (vs ! (map fst ranked ! k)) (f64_of_nat ?n)) (f64_of_nat (k + 1))) in
      f64_le q f64_one \<and> (\<forall>k. r \<le> k \<and> k < ?n \<longrightarrow> f64_le q (adjusted k)) \<and> (q = f64_one \<or> (\<exists>k. r \<le> k \<and> k < ?n \<and> q = adjusted k))"
    if "r < ?n" for r
  proof -
    have "F_nan \<notin> set (map ?adj [r..<?n])" using nan by fastforce
    note least = step_up_least [OF this]
    have q: "benjamini_hochberg vs ! (map fst ranked ! r) = step_up (map ?adj [r..<?n]) f64_one" using out(3) that len bh by simp
    have adj: "?adj k = f64_div (f64_mul (vs ! (map fst ranked ! k)) (f64_of_nat ?n)) (f64_of_nat (k + 1))" if "k < ?n" for k
      using entry [OF that] that len by (simp add: adjusted_value_def)
    show ?thesis unfolding Let_def q using least adj by fastforce
  qed
  ultimately show ?thesis using bh out(2) dist fst_set by (intro conjI exI [of _ "map fst ranked"]) simp_all
qed

theorem benjamini_hochberg_step_up_witness:
  "\<exists>i. i < 2 \<and> length (benjamini_hochberg [F_fin (1 / 2), F_fin (1 / 100)]) = 2 \<and> f64_le (benjamini_hochberg [F_fin (1 / 2), F_fin (1 / 100)] ! i) f64_one"
proof -
  let ?vs = "[F_fin (1 / 2), F_fin (1 / 100)]"
  have sample: "F_nan \<notin> set ?vs" "length ?vs \<le> u64_max" by (simp_all add: u64_max_def)
  obtain order where order: "distinct order" "set order = {..<length ?vs}" "length (benjamini_hochberg ?vs) = length ?vs"
    "\<forall>r < length ?vs. f64_le (benjamini_hochberg ?vs ! (order ! r)) f64_one"
    using benjamini_hochberg_step_up [OF sample] unfolding Let_def by blast
  have len: "length ?vs = 2" by simp
  have "length order = 2" using distinct_card [OF order(1)] order(2) by simp
  then have "order ! 0 \<in> set order" by simp
  then have "order ! 0 < length ?vs" unfolding order(2) by simp
  moreover have "f64_le (benjamini_hochberg ?vs ! (order ! 0)) f64_one" using order(4) by simp
  ultimately show ?thesis using order(3) unfolding len by blast
qed

end
