(* ===== verification/Intervals.thy ===== *)
theory Intervals
  imports Prelude FloatOps
begin

text \<open>
  Interval arithmetic of \<open>crates/ocpm-bottleneck/src/lib.rs\<close>: busy timelines with prefix sums, the overlap with a union
  of intervals, and the longest queue. Instants are 128-bit nanoseconds with saturating arithmetic. \<open>None\<close> is an index out of
  range; the theorems exclude it.
\<close>

section \<open>Operations\<close>

definition i128_saturating_add :: "int \<Rightarrow> int \<Rightarrow> int" where
  "i128_saturating_add a b = max i128_min (min i128_max (a + b))"

definition i128_saturating_mul :: "int \<Rightarrow> int \<Rightarrow> int" where
  "i128_saturating_mul a b = max i128_min (min i128_max (a * b))"

text \<open>\<open>slice::partition_point\<close> on a slice where the elements that satisfy the predicate come first.\<close>

definition partition_point :: "('a \<Rightarrow> bool) \<Rightarrow> 'a list \<Rightarrow> nat" where
  "partition_point P xs = length (takeWhile P xs)"

definition last_of :: "'a list \<Rightarrow> 'a option" where
  "last_of xs = (if xs = [] then None else Some (last xs))"

definition merge_interval :: "(int \<times> int) list \<Rightarrow> int \<times> int \<Rightarrow> (int \<times> int) list" where
  "merge_interval merged = (\<lambda>(start, stop). case last_of merged of
     Some (a, b) \<Rightarrow> if start \<le> b then butlast merged @ [(a, max b stop)] else merged @ [(start, stop)]
   | None \<Rightarrow> merged @ [(start, stop)])"

definition merge_intervals :: "(int \<times> int) list \<Rightarrow> (int \<times> int) list" where
  "merge_intervals xs = foldl merge_interval [] (sort_key fst (filter (\<lambda>(start, stop). start < stop) xs))"

definition prefix_step :: "int list \<Rightarrow> int \<times> int \<Rightarrow> int list" where
  "prefix_step prefix = (\<lambda>(start, stop). prefix @
     [i128_saturating_add (case last_of prefix of None \<Rightarrow> 0 | Some p \<Rightarrow> p) (i128_saturating_sub stop start)])"

record busy_timeline =
  tl_intervals :: "(int \<times> int) list"
  tl_prefix_nanos :: "int list"

definition busy_timeline_new :: "(int \<times> int) list \<Rightarrow> busy_timeline" where
  "busy_timeline_new xs = (let merged = merge_intervals xs in
     \<lparr>tl_intervals = merged, tl_prefix_nanos = foldl prefix_step [0] merged\<rparr>)"

definition overlap_nanos :: "busy_timeline \<Rightarrow> int \<Rightarrow> int \<Rightarrow> int option" where
  "overlap_nanos t start stop =
    (if stop \<le> start \<or> tl_intervals t = [] then Some 0
     else let fst_in = partition_point (\<lambda>(_, b). b \<le> start) (tl_intervals t);
              after_last = partition_point (\<lambda>(a, _). a < stop) (tl_intervals t) in
       if after_last \<le> fst_in then Some 0
       else Option.bind (nth_opt (tl_prefix_nanos t) after_last) (\<lambda>hi.
         Option.bind (nth_opt (tl_prefix_nanos t) fst_in) (\<lambda>lo.
         Option.bind (nth_opt (tl_intervals t) fst_in) (\<lambda>(a, _).
         Option.bind (nth_opt (tl_intervals t) (after_last - 1)) (\<lambda>(_, b).
         let left_clip = max (i128_saturating_sub start a) 0; right_clip = max (i128_saturating_sub b stop) 0 in
         Some (max (i128_saturating_sub (i128_saturating_sub (i128_saturating_sub hi lo) left_clip) right_clip) 0))))))"

definition overlap_seconds :: "busy_timeline \<Rightarrow> int \<Rightarrow> int \<Rightarrow> f64 option" where
  "overlap_seconds t start stop = map_option nanos_to_seconds (overlap_nanos t start stop)"

text \<open>One interval of the union walk: the total of the closed intervals and the open one.\<close>

definition union_step :: "int \<times> (int \<times> int) option \<Rightarrow> int \<times> int \<Rightarrow> int \<times> (int \<times> int) option" where
  "union_step = (\<lambda>(s, current) interval. case current of
     Some (left, right) \<Rightarrow> if fst interval \<le> right then (s, Some (left, max right (snd interval)))
       else (i128_saturating_add s (i128_saturating_sub right left), Some interval)
   | None \<Rightarrow> (s, Some interval))"

definition clip_interval :: "int \<Rightarrow> int \<Rightarrow> int \<times> int \<Rightarrow> int \<times> int" where
  "clip_interval start stop = (\<lambda>(left, right). (max left start, min right stop))"

definition union_overlap_nanos :: "int \<Rightarrow> int \<Rightarrow> (int \<times> int) list \<Rightarrow> int" where
  "union_overlap_nanos start stop xs =
    (let (s, current) = foldl union_step (0, None) (sort_key fst (filter (\<lambda>(left, right). left < right) (map (clip_interval start stop) xs)))
     in case current of None \<Rightarrow> s | Some (left, right) \<Rightarrow> i128_saturating_add s (i128_saturating_sub right left))"

definition union_overlap_seconds :: "int \<Rightarrow> int \<Rightarrow> (int \<times> int) list \<Rightarrow> f64" where
  "union_overlap_seconds start stop xs = nanos_to_seconds (union_overlap_nanos start stop xs)"

text \<open>The queue: one up at each arrival, one down at each start, arrivals first at equal instants.\<close>

definition queue_changes :: "(int \<times> int) list \<Rightarrow> (int \<times> int) list" where
  "queue_changes xs = concat (map (\<lambda>(ready, start). [(ready, 1), (start, - 1)]) xs)"

definition queue_step :: "int \<times> int \<Rightarrow> int \<times> int \<Rightarrow> int \<times> int" where
  "queue_step = (\<lambda>(current, maximum) (_, change). let current = current + change in (current, max maximum current))"

definition maximum_queue :: "(int \<times> int) list \<Rightarrow> nat" where
  "maximum_queue xs = nat (max (snd (foldl queue_step (0, 0) (sort_key (\<lambda>(t, change). (t, - change)) (queue_changes xs)))) 0)"

section \<open>Merged intervals\<close>

definition covered :: "(int \<times> int) list \<Rightarrow> int set" where
  "covered xs = {t. \<exists>(a, b) \<in> set xs. a \<le> t \<and> t < b}"

definition separated :: "(int \<times> int) list \<Rightarrow> bool" where
  "separated xs \<longleftrightarrow> (\<forall>(a, b) \<in> set xs. a < b) \<and> sorted_wrt (\<lambda>x y. snd x < fst y) xs"

definition measure_of :: "(int \<times> int) list \<Rightarrow> int" where
  "measure_of xs = sum_list (map (\<lambda>(a, b). b - a) xs)"

lemma covered_simps [simp]: "covered [] = {}" "covered (x # xs) = {fst x..<snd x} \<union> covered xs" "covered (xs @ ys) = covered xs \<union> covered ys"
  by (auto simp: covered_def)

lemma merge_last: "last_of (xs @ [x]) = Some x" "last_of [] = None"
  by (simp_all add: last_of_def)

lemma merge_interval_inv:
  assumes "separated m" and "\<forall>(a, b) \<in> set m. a \<le> s" and "s < e"
  shows "separated (merge_interval m (s, e))" "covered (merge_interval m (s, e)) = covered m \<union> {s..<e}"
    "\<forall>(a, b) \<in> set (merge_interval m (s, e)). a \<le> s"
proof -
  have all: "separated (merge_interval m (s, e)) \<and> covered (merge_interval m (s, e)) = covered m \<union> {s..<e} \<and>
      (\<forall>(a, b) \<in> set (merge_interval m (s, e)). a \<le> s)"
  proof (cases m rule: rev_cases)
    case Nil
    then show ?thesis using assms(3) by (auto simp: merge_interval_def merge_last separated_def)
  next
    case (snoc ys y)
    obtain a b where y: "y = (a, b)" by (cases y)
    have ab: "a < b" "a \<le> s" using assms(1,2) by (auto simp: snoc y separated_def)
    have early: "\<forall>x \<in> set ys. snd x < a" using assms(1) by (auto simp: snoc y separated_def sorted_wrt_append)
    show ?thesis
    proof (cases "s \<le> b")
      case True
      have "{a..<max b e} = {a..<b} \<union> {s..<e}" using True ab assms(3) by auto
      then show ?thesis using assms True ab by (auto simp: snoc y merge_interval_def merge_last separated_def sorted_wrt_append)
    next
      case False
      have "\<forall>x \<in> set ys. snd x < s" using early ab(2) by force
      then show ?thesis using assms False by (auto simp: snoc y merge_interval_def merge_last separated_def sorted_wrt_append)
    qed
  qed
  then show "separated (merge_interval m (s, e))" "covered (merge_interval m (s, e)) = covered m \<union> {s..<e}"
    "\<forall>(a, b) \<in> set (merge_interval m (s, e)). a \<le> s" by auto
qed

lemma foldl_merge:
  assumes "separated m" and "\<forall>(a, b) \<in> set m. \<forall>x \<in> set xs. a \<le> fst x" and "sorted (map fst xs)" and "\<forall>(s, e) \<in> set xs. s < e"
  shows "separated (foldl merge_interval m xs) \<and> covered (foldl merge_interval m xs) = covered m \<union> covered xs"
  using assms
proof (induction xs arbitrary: m)
  case (Cons x xs)
  obtain s e where x: "x = (s, e)" by (cases x)
  have pre: "\<forall>(a, b) \<in> set m. a \<le> s" "s < e" "\<forall>y \<in> set xs. s \<le> fst y" using Cons.prems by (auto simp: x)
  note step = merge_interval_inv [OF Cons.prems(1) pre(1,2)]
  have "\<forall>(a, b) \<in> set (merge_interval m (s, e)). \<forall>y \<in> set xs. a \<le> fst y" using step(3) pre(3) by fastforce
  then have "separated (foldl merge_interval (merge_interval m (s, e)) xs) \<and>
      covered (foldl merge_interval (merge_interval m (s, e)) xs) = covered (merge_interval m (s, e)) \<union> covered xs"
    using Cons.IH [OF step(1)] Cons.prems(3,4) by auto
  then show ?case using step(2) by (auto simp: x)
qed simp

lemma covered_sorted_filter: "covered (sort_key fst (filter (\<lambda>(s, e). s < e) xs)) = covered xs"
proof (rule set_eqI)
  have "a < b" if "a \<le> t" "t < b" for a b t :: int using that by (rule order.strict_trans1)
  then show "t \<in> covered (sort_key fst (filter (\<lambda>(s, e). s < e) xs)) \<longleftrightarrow> t \<in> covered xs" for t
    unfolding covered_def mem_Collect_eq set_sort set_filter by blast
qed

lemma merge_intervals_correct: "separated (merge_intervals xs)" "covered (merge_intervals xs) = covered xs"
proof -
  let ?ys = "sort_key fst (filter (\<lambda>(s, e). s < e) xs)"
  have "separated (foldl merge_interval [] ?ys) \<and> covered (foldl merge_interval [] ?ys) = covered [] \<union> covered ?ys"
    by (rule foldl_merge) (auto simp: separated_def)
  then show "separated (merge_intervals xs)" "covered (merge_intervals xs) = covered xs"
    by (simp_all add: merge_intervals_def covered_sorted_filter)
qed

text \<open>The size of the covered part of a window.\<close>

definition clip_size :: "int \<Rightarrow> int \<Rightarrow> int \<times> int \<Rightarrow> int" where
  "clip_size s e x = max 0 (min (snd x) e - max (fst x) s)"

lemma separated_Cons: "separated (x # xs) \<longleftrightarrow> fst x < snd x \<and> (\<forall>y \<in> set xs. snd x < fst y) \<and> separated xs"
  by (auto simp: separated_def split: prod.splits)

lemma finite_covered [simp]: "finite (covered xs)"
  by (induction xs) simp_all

lemma card_window: "separated m \<Longrightarrow> int (card ({s..<e} \<inter> covered m)) = sum_list (map (clip_size s e) m)"
proof (induction m)
  case (Cons x m)
  have sep: "fst x < snd x" "\<forall>y \<in> set m. snd x < fst y" "separated m" using Cons.prems by (simp_all add: separated_Cons)
  have "({s..<e} \<inter> {fst x..<snd x}) \<inter> ({s..<e} \<inter> covered m) = {}" using sep(2) by (fastforce simp: covered_def)
  then have "card (({s..<e} \<inter> {fst x..<snd x}) \<union> ({s..<e} \<inter> covered m)) = card ({s..<e} \<inter> {fst x..<snd x}) + card ({s..<e} \<inter> covered m)"
    by (intro card_Un_disjoint) simp_all
  moreover have "card ({s..<e} \<inter> {fst x..<snd x}) = nat (clip_size s e x)"
    by (simp add: clip_size_def max.commute min.commute)
  moreover have "0 \<le> clip_size s e x" by (simp add: clip_size_def)
  ultimately show ?case using Cons.IH [OF sep(3)] by (simp add: Int_Un_distrib)
qed simp

lemma card_covered: "separated m \<Longrightarrow> int (card (covered m)) = measure_of m"
proof (induction m)
  case (Cons x m)
  have sep: "fst x < snd x" "\<forall>y \<in> set m. snd x < fst y" "separated m" using Cons.prems by (simp_all add: separated_Cons)
  have "{fst x..<snd x} \<inter> covered m = {}" using sep(2) by (fastforce simp: covered_def)
  then have "card ({fst x..<snd x} \<union> covered m) = card {fst x..<snd x} + card (covered m)" by (intro card_Un_disjoint) simp_all
  then show ?case using Cons.IH [OF sep(3)] sep(1) by (simp add: measure_of_def split: prod.split)
qed (simp add: measure_of_def)

lemma measure_bound:
  assumes "separated m" "covered m \<subseteq> {lo..<hi}" "lo \<le> hi"
  shows "0 \<le> measure_of m \<and> measure_of m \<le> hi - lo"
proof -
  have "card (covered m) \<le> card {lo..<hi}" by (rule card_mono) (simp_all add: assms(2))
  then show ?thesis using card_covered [OF assms(1)] assms(3) by simp
qed

section \<open>The union walk\<close>

lemma saturating_exact [simp]:
  "in_i128 (a - b) \<Longrightarrow> i128_saturating_sub a b = a - b" "in_i128 (a + b) \<Longrightarrow> i128_saturating_add a b = a + b"
  by (simp_all add: i128_saturating_sub_def i128_saturating_add_def in_i128_def)

definition small :: "int \<Rightarrow> bool" where
  "small t \<longleftrightarrow> \<bar>t\<bar> \<le> 2 ^ 124"

lemma in_i128_small: "\<bar>x\<bar> \<le> 2 ^ 126 \<Longrightarrow> in_i128 x"
  by (auto simp: in_i128_def i128_min_def i128_max_def abs_le_iff)

lemma measure_append [simp]: "measure_of (xs @ ys) = measure_of xs + measure_of ys" "measure_of [x] = snd x - fst x" "measure_of [] = 0"
  by (simp_all add: measure_of_def split: prod.split)

lemma separated_butlast: "separated (xs @ [x]) \<Longrightarrow> separated xs"
  by (auto simp: separated_def sorted_wrt_append)

lemma union_walk:
  assumes "small lo" "small hi" "\<forall>(a, b) \<in> set xs. lo \<le> a \<and> a < b \<and> b \<le> hi" "sorted (map fst xs)"
  shows "foldl union_step (0, None) xs =
    (let m = foldl merge_interval [] xs in (measure_of (butlast m), last_of m))"
  using assms(3,4)
proof (induction xs rule: rev_induct)
  case Nil
  then show ?case by (simp add: last_of_def)
next
  case (snoc x xs)
  obtain s e where x: "x = (s, e)" by (cases x)
  define m where "m = foldl merge_interval [] xs"
  have m: "separated m" "covered m = covered xs"
    using foldl_merge [of "[]" xs] snoc.prems by (auto simp: m_def separated_def sorted_append)
  have IH: "foldl union_step (0, None) xs = (measure_of (butlast m), last_of m)"
    using snoc by (simp add: m_def Let_def sorted_append)
  have goal: "?case \<longleftrightarrow> union_step (measure_of (butlast m), last_of m) (s, e) =
      (measure_of (butlast (merge_interval m (s, e))), last_of (merge_interval m (s, e)))"
    unfolding foldl_append m_def [symmetric] foldl.simps x Let_def IH ..
  show ?case
  proof (cases m rule: rev_cases)
    case Nil
    then show ?thesis unfolding goal by (simp add: union_step_def merge_interval_def last_of_def)
  next
    case (snoc ys y)
    obtain a b where y: "y = (a, b)" by (cases y)
    have lohi: "covered m \<subseteq> {lo..<hi}" using snoc.prems(1) unfolding m(2) by (fastforce simp: covered_def)
    have ab: "a < b" "lo \<le> a" "b \<le> hi"
    proof -
      show "a < b" using m(1) by (auto simp: snoc y separated_def)
      then have "a \<in> covered m" "b - 1 \<in> covered m" by (auto simp: snoc y)
      then show "lo \<le> a" "b \<le> hi" using lohi by force+
    qed
    have hl: "lo \<le> hi" "hi - lo \<le> 2 ^ 125" using ab assms(1,2) by (simp_all add: small_def abs_le_iff)
    have "0 \<le> measure_of ys \<and> measure_of ys \<le> hi - lo"
      by (rule measure_bound) (use m(1) lohi hl in \<open>auto simp: snoc intro: separated_butlast\<close>)
    then have "in_i128 (b - a)" "in_i128 (measure_of ys + (b - a))"
      using ab hl by (intro in_i128_small; simp)+
    then show ?thesis
      unfolding goal by (simp add: snoc y union_step_def merge_interval_def last_of_def butlast_append)
  qed
qed

lemma union_overlap_measure:
  assumes "small start" "small stop"
  shows "union_overlap_nanos start stop xs = int (card ({start..<stop} \<inter> covered xs))"
proof -
  let ?ys = "sort_key fst (filter (\<lambda>(left, right). left < right) (map (clip_interval start stop) xs))"
  define m where "m = foldl merge_interval [] ?ys"
  have mi: "m = merge_intervals (map (clip_interval start stop) xs)" by (simp add: m_def merge_intervals_def)
  have "covered (map (clip_interval start stop) xs) = {start..<stop} \<inter> covered xs"
  proof (rule set_eqI)
    show "t \<in> covered (map (clip_interval start stop) xs) \<longleftrightarrow> t \<in> {start..<stop} \<inter> covered xs" for t
      by (induction xs) (auto simp: clip_interval_def split: prod.split)
  qed
  then have m: "separated m" "covered m = {start..<stop} \<inter> covered xs" unfolding mi by (simp_all add: merge_intervals_correct)
  have walk: "foldl union_step (0, None) ?ys = (measure_of (butlast m), last_of m)"
  proof -
    have "\<forall>(a, b) \<in> set ?ys. start \<le> a \<and> a < b \<and> b \<le> stop" by (auto simp: clip_interval_def)
    then have "foldl union_step (0, None) ?ys = (let m = foldl merge_interval [] ?ys in (measure_of (butlast m), last_of m))"
      by (rule union_walk [OF assms]) simp
    then show ?thesis unfolding m_def Let_def .
  qed
  show ?thesis
  proof (cases m rule: rev_cases)
    case Nil
    then show ?thesis using walk m(2) by (simp add: union_overlap_nanos_def last_of_def)
  next
    case (snoc ys y)
    have ab: "fst y < snd y" "start \<le> fst y" "snd y \<le> stop"
    proof -
      show "fst y < snd y" using m(1) by (auto simp: snoc separated_def)
      then have "fst y \<in> covered m" "snd y - 1 \<in> covered m" by (auto simp: snoc)
      then show "start \<le> fst y" "snd y \<le> stop" using m(2) by force+
    qed
    have hl: "start \<le> stop" "stop - start \<le> 2 ^ 125" using ab assms by (simp_all add: small_def abs_le_iff)
    have "0 \<le> measure_of ys \<and> measure_of ys \<le> stop - start"
      by (rule measure_bound) (use m hl in \<open>auto simp: snoc intro: separated_butlast\<close>)
    then have "in_i128 (snd y - fst y)" "in_i128 (measure_of ys + (snd y - fst y))"
      using ab hl by (intro in_i128_small; simp)+
    then have "union_overlap_nanos start stop xs = measure_of m"
      using walk by (simp add: union_overlap_nanos_def snoc last_of_def split_def)
    then show ?thesis using card_covered [OF m(1)] m(2) by simp
  qed
qed

section \<open>Busy timelines\<close>

lemma foldl_prefix:
  assumes "separated m" "covered m \<subseteq> {lo..<hi}" "small lo" "small hi"
  shows "foldl prefix_step [0] m = map (\<lambda>i. measure_of (take i m)) [0..<Suc (length m)]"
  using assms(1,2)
proof (induction m rule: rev_induct)
  case (snoc y m)
  have m: "separated m" "covered m \<subseteq> {lo..<hi}" using snoc.prems by (auto intro: separated_butlast)
  have ab: "fst y < snd y" using snoc.prems(1) by (auto simp: separated_def)
  then have "fst y \<in> {lo..<hi}" "snd y - 1 \<in> {lo..<hi}" using snoc.prems(2) by auto
  then have b: "lo \<le> fst y" "snd y \<le> hi" "lo \<le> hi" by auto
  have hl: "hi - lo \<le> 2 ^ 125" using assms(3,4) by (simp add: small_def abs_le_iff)
  have "0 \<le> measure_of m \<and> measure_of m \<le> hi - lo" by (rule measure_bound [OF m b(3)])
  then have sat: "in_i128 (snd y - fst y)" "in_i128 (measure_of m + (snd y - fst y))"
    using ab b hl by (intro in_i128_small; simp)+
  let ?p = "map (\<lambda>i. measure_of (take i m)) [0..<Suc (length m)]"
  have "last_of ?p = Some (measure_of m)" by (simp add: last_of_def)
  moreover have "foldl prefix_step [0] (m @ [y]) = prefix_step ?p (fst y, snd y)" using snoc.IH [OF m] by simp
  ultimately have "foldl prefix_step [0] (m @ [y]) = ?p @ [measure_of m + (snd y - fst y)]"
    using sat by (cases y) (simp add: prefix_step_def del: upt_Suc)
  also have "\<dots> = map (\<lambda>i. measure_of (take i (m @ [y]))) [0..<Suc (length (m @ [y]))]" by simp
  finally show ?case .
qed simp

lemma sum_full: "\<forall>x \<in> set mid. start \<le> fst x \<and> fst x < snd x \<and> snd x \<le> stop \<Longrightarrow> sum_list (map (clip_size start stop) mid) = measure_of mid"
  by (induction mid) (auto simp: measure_of_def clip_size_def)

lemma separated_hd: "separated m \<Longrightarrow> m \<noteq> [] \<Longrightarrow> fst (hd m) < snd (hd m)"
  by (cases m) (auto simp: separated_def)

lemma sum_clipped:
  assumes "separated M" "M \<noteq> []" "start < stop" "\<forall>x \<in> set M. start < snd x \<and> fst x < stop"
  shows "sum_list (map (clip_size start stop) M) = measure_of M - max (start - fst (hd M)) 0 - max (snd (last M) - stop) 0"
proof (cases "M = [hd M]")
  case True
  have "hd M \<in> set M" using assms(2) by simp
  then have "start < snd (hd M) \<and> fst (hd M) < stop" using assms(4) by blast
  then have "sum_list (map (clip_size start stop) [hd M]) = measure_of [hd M] - max (start - fst (hd [hd M])) 0 - max (snd (last [hd M]) - stop) 0"
    using assms(3) separated_hd [OF assms(1,2)] by (simp add: clip_size_def)
  then show ?thesis using True by metis
next
  case False
  then obtain x mid y where M: "M = x # mid @ [y]" using assms(2) by (metis append_Cons append_Nil list.collapse rev_exhaust)
  have sep: "fst x < snd x" "snd x < fst y" "fst y < snd y" "\<forall>z \<in> set mid. snd x < fst z \<and> fst z < snd z \<and> snd z < fst y"
    using assms(1) by (auto simp: M separated_def sorted_wrt_append)
  have ends: "start < snd x" "fst y < stop" using assms(4) by (simp_all add: M)
  have "sum_list (map (clip_size start stop) mid) = measure_of mid" by (rule sum_full) (use sep(4) ends in force)
  moreover have "clip_size start stop x = snd x - fst x - max (start - fst x) 0" using sep ends by (simp add: clip_size_def)
  moreover have "clip_size start stop y = snd y - fst y - max (snd y - stop) 0" using sep ends by (simp add: clip_size_def)
  ultimately show ?thesis using measure_append(1) [of "[x]" "mid @ [y]"] measure_append(1) [of mid "[y]"]
    by (simp add: M)
qed

lemma separated_nth: "separated m \<Longrightarrow> i < j \<Longrightarrow> j < length m \<Longrightarrow> snd (m ! i) < fst (m ! j)"
  by (auto simp: separated_def sorted_wrt_iff_nth_less)

lemma separated_nth_order: "separated m \<Longrightarrow> i < length m \<Longrightarrow> fst (m ! i) < snd (m ! i)"
  by (metis (mono_tags, lifting) case_prod_beta nth_mem separated_def)

lemma separated_mono:
  assumes "separated m" "i \<le> j" "j < length m"
  shows "fst (m ! i) \<le> fst (m ! j)" "snd (m ! i) \<le> snd (m ! j)"
proof -
  have "i = j \<or> snd (m ! i) < fst (m ! j)" using separated_nth [OF assms(1) _ assms(3), of i] assms(2) by linarith
  moreover have "fst (m ! i) < snd (m ! i)" "fst (m ! j) < snd (m ! j)" using separated_nth_order [OF assms(1)] assms(2,3) by simp_all
  ultimately show "fst (m ! i) \<le> fst (m ! j)" "snd (m ! i) \<le> snd (m ! j)" by auto
qed

lemma separated_drop: "separated m \<Longrightarrow> separated (drop k m)" "separated m \<Longrightarrow> separated (take k m)"
  by (auto simp: separated_def dest: in_set_dropD in_set_takeD intro: sorted_wrt_drop sorted_wrt_take)

lemma partition_point_le: "partition_point P xs \<le> length xs"
  by (simp add: partition_point_def length_takeWhile_le)

lemma partition_point_nth:
  "i < partition_point P xs \<Longrightarrow> P (xs ! i)" "partition_point P xs < length xs \<Longrightarrow> \<not> P (xs ! partition_point P xs)"
  by (auto simp: partition_point_def nth_length_takeWhile) (metis nth_mem set_takeWhileD takeWhile_nth)

lemma nth_upt_prefix: "k \<le> n \<Longrightarrow> nth_opt (map f [0..<Suc n]) k = Some (f k)"
  by (simp add: nth_opt_def del: upt_Suc)

lemma covered_ends: "x \<in> set m \<Longrightarrow> fst x < snd x \<Longrightarrow> fst x \<in> covered m \<and> snd x - 1 \<in> covered m"
  unfolding covered_def by (cases x) force

lemma sum_none: "\<forall>x \<in> set xs. snd x \<le> start \<or> stop \<le> fst x \<Longrightarrow> start < stop \<Longrightarrow> \<forall>x \<in> set xs. fst x < snd x \<Longrightarrow>
    sum_list (map (clip_size start stop) xs) = 0"
  by (induction xs) (auto simp: clip_size_def)

lemma timeline_overlap_measure:
  assumes "small start" "small stop" and "\<forall>(a, b) \<in> set xs. small a \<and> small b"
  shows "overlap_nanos (busy_timeline_new xs) start stop = Some (int (card ({start..<stop} \<inter> covered xs)))"
proof -
  define m where "m = merge_intervals xs"
  have m: "separated m" "covered m = covered xs" by (simp_all add: m_def merge_intervals_correct)
  define t where "t = busy_timeline_new xs"
  have small_lo: "small (- (2 ^ 124))" "small (2 ^ 124)" by (simp_all add: small_def)
  have lohi: "covered m \<subseteq> {- (2 ^ 124)..<2 ^ 124}" using assms(3) unfolding m(2) by (fastforce simp: covered_def small_def abs_le_iff)
  have t: "tl_intervals t = m" "tl_prefix_nanos t = map (\<lambda>i. measure_of (take i m)) [0..<Suc (length m)]"
    using foldl_prefix [OF m(1) lohi small_lo] by (simp_all add: t_def busy_timeline_new_def Let_def m_def)
  have card: "int (card ({start..<stop} \<inter> covered xs)) = sum_list (map (clip_size start stop) m)" using card_window [OF m(1)] m(2) by simp
  show ?thesis
  proof (cases "stop \<le> start \<or> m = []")
    case True
    then have "{start..<stop} \<inter> covered xs = {}" using m(2) by auto
    then show ?thesis using True t(1) by (auto simp: overlap_nanos_def t_def [symmetric])
  next
    case False
    then have ss: "start < stop" "m \<noteq> []" by auto
    define f where "f = partition_point (\<lambda>(_, b). b \<le> start) m"
    define l where "l = partition_point (\<lambda>(a, _). a < stop) m"
    have le: "f \<le> length m" "l \<le> length m" by (simp_all add: f_def l_def partition_point_le)
    have before: "i < f \<Longrightarrow> snd (m ! i) \<le> start" and inside: "i < l \<Longrightarrow> fst (m ! i) < stop" for i
      using partition_point_nth(1) [of i] unfolding f_def l_def by (force simp: case_prod_beta)+
    have after_f: "start < snd (m ! i)" if "f \<le> i" "i < length m" for i
    proof -
      have "start < snd (m ! f)" using partition_point_nth(2) [of "\<lambda>(_, b). b \<le> start" m] that by (fastforce simp: f_def case_prod_beta)
      then show ?thesis using separated_mono(2) [OF m(1) that] by linarith
    qed
    have after_l: "stop \<le> fst (m ! i)" if "l \<le> i" "i < length m" for i
    proof -
      have "stop \<le> fst (m ! l)" using partition_point_nth(2) [of "\<lambda>(a, _). a < stop" m] that by (fastforce simp: l_def case_prod_beta)
      then show ?thesis using separated_mono(1) [OF m(1) that] by linarith
    qed
    have order: "\<forall>x \<in> set m. fst x < snd x" using m(1) by (auto simp: separated_def)
    have ends: "sum_list (map (clip_size start stop) (take k m)) = 0" if "k \<le> f" for k
    proof (rule sum_none [OF _ ss(1)])
      show "\<forall>x \<in> set (take k m). snd x \<le> start \<or> stop \<le> fst x" 
      proof
        fix x assume "x \<in> set (take k m)"
        then obtain i where "i < k" "x = m ! i" by (auto simp: in_set_conv_nth)
        then show "snd x \<le> start \<or> stop \<le> fst x" using before [of i] that by simp
      qed
      show "\<forall>x \<in> set (take k m). fst x < snd x" using order in_set_takeD by fast
    qed
    have ends': "sum_list (map (clip_size start stop) (drop k m)) = 0" if "l \<le> k" for k
    proof (rule sum_none [OF _ ss(1)])
      show "\<forall>x \<in> set (drop k m). snd x \<le> start \<or> stop \<le> fst x" 
      proof
        fix x assume "x \<in> set (drop k m)"
        then obtain i where "i < length m - k" "x = m ! (k + i)" by (auto simp: in_set_conv_nth)
        then show "snd x \<le> start \<or> stop \<le> fst x" using after_l [of "k + i"] that by auto
      qed
      show "\<forall>x \<in> set (drop k m). fst x < snd x" using order in_set_dropD by fast
    qed
    show ?thesis
    proof (cases "l \<le> f")
      case True
      have "sum_list (map (clip_size start stop) m) = sum_list (map (clip_size start stop) (take f m)) + sum_list (map (clip_size start stop) (drop f m))"
        by (metis append_take_drop_id map_append sum_list_append)
      then have "sum_list (map (clip_size start stop) m) = 0" using ends [of f] ends' [OF True] by simp
      then show ?thesis using True ss unfolding card t_def [symmetric]
        by (simp add: overlap_nanos_def t(1) f_def [symmetric] l_def [symmetric])
    next
      case False
      then have fl: "f < l" "f < length m" "l - 1 < length m" using le by linarith+
      define M where "M = drop f (take l m)"
      have M: "separated M" "M \<noteq> []" using fl le m(1) by (simp_all add: M_def separated_drop)
      have split: "m = take f m @ M @ drop l m" using fl(1) by (simp add: M_def) (metis append.assoc append_take_drop_id le_add_diff_inverse less_imp_le take_add drop_take)
      have hl: "hd M = m ! f" "last M = m ! (l - 1)" using fl le by (simp_all add: M_def hd_drop_conv_nth last_conv_nth min_absorb2)
      have "\<forall>x \<in> set M. start < snd x \<and> fst x < stop"

      proof
        fix x assume "x \<in> set M"
        then obtain i where "i < l - f" "x = m ! (f + i)" using le by (auto simp: M_def in_set_conv_nth)
        then show "start < snd x \<and> fst x < stop" using after_f [of "f + i"] inside [of "f + i"] le by simp
      qed
      note clipped = sum_clipped [OF M ss(1) this, unfolded hl]
      have "sum_list (map (clip_size start stop) m) = sum_list (map (clip_size start stop) M)"
        using ends [of f] ends' [of l] by (subst split) simp
      moreover have "measure_of (take l m) = measure_of (take f m) + measure_of M"
        using fl(1) by (metis M_def append_take_drop_id less_imp_le measure_append(1) min.absorb1 take_take)
      ultimately have res: "sum_list (map (clip_size start stop) m) =
          measure_of (take l m) - measure_of (take f m) - max (start - fst (m ! f)) 0 - max (snd (m ! (l - 1)) - stop) 0"
        using clipped by linarith
      have bounds: "0 \<le> measure_of (take k m)" "measure_of (take k m) \<le> 2 ^ 125" for k
      proof -
        have "covered (take k m) \<subseteq> {- (2 ^ 124)..<2 ^ 124}" using lohi by (metis append_take_drop_id covered_simps(3) le_sup_iff)
        from measure_bound [OF separated_drop(2) [OF m(1)] this] show "0 \<le> measure_of (take k m)" "measure_of (take k m) \<le> 2 ^ 125" by simp_all
      qed
      have pts: "\<bar>fst (m ! f)\<bar> \<le> 2 ^ 124" "\<bar>snd (m ! (l - 1))\<bar> \<le> 2 ^ 124"
      proof -
        have "fst (m ! f) \<in> covered m" "snd (m ! (l - 1)) - 1 \<in> covered m"
          using order nth_mem [OF fl(2)] nth_mem [OF fl(3)] covered_ends by blast+
        then have "fst (m ! f) \<in> {- (2 ^ 124)..<2 ^ 124}" "snd (m ! (l - 1)) - 1 \<in> {- (2 ^ 124)..<2 ^ 124}" using lohi by blast+
        then show "\<bar>fst (m ! f)\<bar> \<le> 2 ^ 124" "\<bar>snd (m ! (l - 1))\<bar> \<le> 2 ^ 124" by (simp_all add: abs_le_iff)
      qed
      define hi lo c d where "hi = measure_of (take l m)" and "lo = measure_of (take f m)"
        and "c = max (start - fst (m ! f)) 0" and "d = max (snd (m ! (l - 1)) - stop) 0"
      have sm: "\<bar>start\<bar> \<le> 2 ^ 124" "\<bar>stop\<bar> \<le> 2 ^ 124" using assms(1,2) by (simp_all add: small_def)
      have cd: "0 \<le> c" "c \<le> 2 ^ 125" "0 \<le> d" "d \<le> 2 ^ 125" using sm pts by (simp_all add: c_def d_def abs_le_iff)
      have nonneg: "0 \<le> hi - lo - c - d"
      proof -
        have "0 \<le> sum_list (map (clip_size start stop) m)" by (rule sum_list_nonneg) (auto simp: clip_size_def)
        then show ?thesis unfolding res hi_def lo_def c_def d_def .
      qed
      have i128: "in_i128 (start - fst (m ! f))" "in_i128 (snd (m ! (l - 1)) - stop)" "in_i128 (hi - lo)" "in_i128 (hi - lo - c)" "in_i128 (hi - lo - c - d)"
        using sm pts cd bounds [of l] bounds [of f] nonneg unfolding hi_def [symmetric] lo_def [symmetric]
        by (intro in_i128_small; simp add: abs_le_iff)+
      have "overlap_nanos t start stop = Some (hi - lo - c - d)"
        using ss fl le i128 nonneg unfolding overlap_nanos_def t Let_def f_def [symmetric] l_def [symmetric]
        by (simp add: nth_upt_prefix split_def hi_def [symmetric] lo_def [symmetric] c_def [symmetric] d_def [symmetric] del: upt_Suc One_nat_def)
      then show ?thesis unfolding card res t_def [symmetric] hi_def lo_def c_def d_def .
    qed
  qed
qed

section \<open>The longest queue\<close>

text \<open>How many wait at an instant, those that arrive or start then included.\<close>

definition waiting_at :: "(int \<times> int) list \<Rightarrow> int \<Rightarrow> nat" where
  "waiting_at xs t = length (filter (\<lambda>(ready, start). ready \<le> t \<and> t \<le> start) xs)"

definition arrivals :: "(int \<times> int) list \<Rightarrow> (int \<times> int \<Rightarrow> bool) \<Rightarrow> int" where
  "arrivals cs P = sum_list (map snd (filter P cs))"

lemma queue_run: "foldl queue_step (c, m) cs = (c + sum_list (map snd cs), Max (set (m # map (\<lambda>k. c + sum_list (map snd (take k cs))) [1..<Suc (length cs)])))"
proof (induction cs rule: rev_induct)
  case (snoc y cs)
  let ?f = "\<lambda>k. c + sum_list (map snd (take k (cs @ [y])))"
  have same: "map ?f [1..<Suc (length cs)] = map (\<lambda>k. c + sum_list (map snd (take k cs))) [1..<Suc (length cs)]"
    by (rule map_cong [OF refl]) auto
  have "map ?f [1..<Suc (length (cs @ [y]))] = map (\<lambda>k. c + sum_list (map snd (take k cs))) [1..<Suc (length cs)] @ [c + sum_list (map snd cs) + snd y]"
    unfolding same [symmetric] by (simp add: add.assoc)
  moreover have "foldl queue_step (c, m) (cs @ [y]) = (c + sum_list (map snd cs) + snd y,
      max (Max (set (m # map (\<lambda>k. c + sum_list (map snd (take k cs))) [1..<Suc (length cs)]))) (c + sum_list (map snd cs) + snd y))"
    unfolding foldl_append snoc.IH by (simp add: queue_step_def split_def Let_def del: upt_Suc)
  moreover have "Max (set (m # zs @ [z])) = max (Max (set (m # zs))) z" for zs and z :: int
  proof -
    have "set (m # zs @ [z]) = insert z (set (m # zs))" by auto
    then show ?thesis by (simp only: Max_insert finite_set list.simps set_empty2 max.commute) (simp add: max.commute)
  qed
  ultimately show ?case by (metis (no_types, lifting) add.assoc list.simps(8) list.simps(9) map_append sum_list.Cons sum_list.Nil sum_list_append add.right_neutral)
qed simp

lemma changes_split: "sum_list (map snd (filter P (queue_changes xs))) =
    int (length (filter (\<lambda>(r, s). P (r, 1)) xs)) - int (length (filter (\<lambda>(r, s). P (s, - 1)) xs))"
  by (induction xs) (auto simp: queue_changes_def)

lemma waiting_difference:
  assumes "\<forall>(r, s) \<in> set xs. r \<le> s"
  shows "int (length (filter (\<lambda>(r, s). r \<le> t) xs)) - int (length (filter (\<lambda>(r, s). s < t) xs)) = int (waiting_at xs t)"
  using assms by (induction xs) (auto simp: waiting_at_def)

definition queue_key :: "int \<times> int \<Rightarrow> int \<times> int" where
  "queue_key = (\<lambda>(t, change). (t, - change))"

lemma sum_signs:
  "\<forall>c \<in> set cs. snd c = 1 \<or> snd c = - 1 \<Longrightarrow> sum_list (map snd cs) =
    int (length (filter (\<lambda>c. snd c = 1) cs)) - int (length (filter (\<lambda>c. snd c = - 1) cs))"
  by (induction cs) auto

lemma changes_signs: "\<forall>c \<in> set (queue_changes xs). snd c = 1 \<or> snd c = - 1"
  by (auto simp: queue_changes_def)

lemma count_changes:
  "length (filter (\<lambda>c. snd c = 1 \<and> fst c \<le> t) (queue_changes xs)) = length (filter (\<lambda>(r, s). r \<le> t) xs)"
  "length (filter (\<lambda>c. snd c = - 1 \<and> fst c < t) (queue_changes xs)) = length (filter (\<lambda>(r, s). s < t) xs)"
  by (induction xs) (auto simp: queue_changes_def)

lemma length_filter_mset: "mset xs = mset ys \<Longrightarrow> length (filter P xs) = length (filter P ys)"
  by (metis mset_filter size_mset)

lemma length_filter_weaken: "(\<forall>x \<in> set xs. P x \<longrightarrow> Q x) \<Longrightarrow> length (filter P xs) \<le> length (filter Q xs)"
  by (induction xs) auto

lemma prefix_waiting:
  assumes xs: "\<forall>(r, s) \<in> set xs. r \<le> s" and L: "sort_key queue_key (queue_changes xs) = (p @ [x]) @ rest"
  shows "sum_list (map snd (p @ [x])) \<le> int (waiting_at xs (fst x))"
proof -
  let ?L = "sort_key queue_key (queue_changes xs)" and ?t = "fst x"
  have ms: "mset ?L = mset (queue_changes xs)" by simp
  have "sorted (map queue_key ?L)" by simp
  then have le: "\<forall>c \<in> set (p @ [x]). queue_key c \<le> queue_key x" "\<forall>c \<in> set rest. queue_key x \<le> queue_key c"
    unfolding L by (auto simp: sorted_append)
  have signs: "\<forall>c \<in> set ?L. snd c = 1 \<or> snd c = - 1" using changes_signs [of xs] by simp
  then have sp: "\<forall>c \<in> set (p @ [x]). snd c = 1 \<or> snd c = - 1" unfolding L by auto
  have "length (filter (\<lambda>c. snd c = 1) (p @ [x])) \<le> length (filter (\<lambda>c. snd c = 1 \<and> fst c \<le> ?t) (p @ [x]))"
    by (rule length_filter_weaken) (use le(1) in \<open>fastforce simp: queue_key_def split: prod.splits\<close>)
  also have "\<dots> \<le> length (filter (\<lambda>c. snd c = 1 \<and> fst c \<le> ?t) ?L)" unfolding L by simp
  finally have up: "length (filter (\<lambda>c. snd c = 1) (p @ [x])) \<le> length (filter (\<lambda>(r, s). r \<le> ?t) xs)"
    unfolding length_filter_mset [OF ms] count_changes .
  have "filter (\<lambda>c. snd c = - 1 \<and> fst c < ?t) rest = []"
    using le(2) by (auto simp: filter_empty_conv queue_key_def split: prod.splits)
  then have "length (filter (\<lambda>c. snd c = - 1 \<and> fst c < ?t) ?L) = length (filter (\<lambda>c. snd c = - 1 \<and> fst c < ?t) (p @ [x]))"
    unfolding L by simp
  also have "\<dots> \<le> length (filter (\<lambda>c. snd c = - 1) (p @ [x]))" by (rule length_filter_weaken) simp
  finally have "length (filter (\<lambda>(r, s). s < ?t) xs) \<le> length (filter (\<lambda>c. snd c = - 1) (p @ [x]))"
    unfolding length_filter_mset [OF ms] count_changes .
  then show ?thesis using up waiting_difference [OF xs, of ?t] unfolding sum_signs [OF sp] by linarith
qed

lemma waiting_prefix:
  assumes xs: "\<forall>(r, s) \<in> set xs. r \<le> s"
  shows "\<exists>k \<le> length (queue_changes xs). sum_list (map snd (take k (sort_key queue_key (queue_changes xs)))) = int (waiting_at xs t)"
proof -
  let ?L = "sort_key queue_key (queue_changes xs)" and ?P = "\<lambda>c. queue_key c \<le> (t, - 1)"
  have srt: "sorted (map queue_key ?L)" by simp
  have tw: "takeWhile ?P ys = filter ?P ys" if "sorted (map queue_key ys)" for ys
    using that
  proof (induction ys)
    case (Cons y ys)
    have "filter ?P ys = []" if "\<not> ?P y" using Cons.prems that by (auto simp: filter_empty_conv dest: order_trans)
    then show ?case using Cons by simp
  qed simp
  have "mset (map snd (filter ?P ?L)) = mset (map snd (filter ?P (queue_changes xs)))" by simp
  then have "sum_list (map snd (filter ?P ?L)) = sum_list (map snd (filter ?P (queue_changes xs)))"
    by (metis sum_mset_sum_list)
  also have "\<dots> = int (length (filter (\<lambda>(r, s). r \<le> t) xs)) - int (length (filter (\<lambda>(r, s). s < t) xs))"
  proof -
    have "?P (r, 1) \<longleftrightarrow> r \<le> t" "?P (r, - 1) \<longleftrightarrow> r < t" for r by (auto simp: queue_key_def)
    then show ?thesis unfolding changes_split by simp
  qed
  finally have "sum_list (map snd (takeWhile ?P ?L)) = int (waiting_at xs t)" unfolding tw [OF srt] waiting_difference [OF xs] .
  then have "sum_list (map snd (take (length (takeWhile ?P ?L)) ?L)) = int (waiting_at xs t)" by (simp add: takeWhile_eq_take [symmetric])
  moreover have "length (takeWhile ?P ?L) \<le> length (queue_changes xs)" by (metis length_sort length_takeWhile_le)
  ultimately show ?thesis by blast
qed

lemma maximum_queue_max:
  assumes "\<forall>(ready, start) \<in> set xs. ready \<le> start"
  shows "(\<forall>t. waiting_at xs t \<le> maximum_queue xs) \<and> (\<exists>t. waiting_at xs t = maximum_queue xs)"
proof -
  let ?L = "sort_key queue_key (queue_changes xs)" and ?S = "\<lambda>k. sum_list (map snd (take k (sort_key queue_key (queue_changes xs))))"
  define M where "M = Max (set (0 # map ?S [1..<Suc (length ?L)]))"
  have key: "(\<lambda>(t, change). (t :: int, - change :: int)) = queue_key" by (simp add: queue_key_def)
  have run: "maximum_queue xs = nat M"
    unfolding maximum_queue_def key queue_run M_def by (simp add: max_def)
  have S: "?S k \<le> M" if "k \<le> length ?L" for k
  proof (cases "k = 0")
    case False
    then show ?thesis unfolding M_def using that by (intro Max_ge) (auto simp del: upt_Suc)
  qed (simp add: M_def)
  have upper: "waiting_at xs t \<le> maximum_queue xs" for t
  proof -
    obtain k where "k \<le> length ?L" "?S k = int (waiting_at xs t)" using waiting_prefix [OF assms, of t] by auto
    then have "int (waiting_at xs t) \<le> M" using S by metis
    then show ?thesis using run by simp
  qed
  have "M \<in> set (0 # map ?S [1..<Suc (length ?L)])" unfolding M_def by (intro Max_in) simp_all
  then consider "M = 0" | k where "1 \<le> k" "k \<le> length ?L" "M = ?S k" by (auto simp del: upt_Suc)
  then have "\<exists>t. waiting_at xs t = maximum_queue xs"
  proof cases
    case 1
    then have "waiting_at xs 0 = maximum_queue xs" using upper [of 0] run by simp
    then show ?thesis by blast
  next
    case 2
    then have "length (take k ?L) = k" by simp
    then have "take k ?L \<noteq> []" using 2(1) by force
    then obtain p x where p: "take k ?L = p @ [x]" using rev_exhaust by blast
    have "?L = (p @ [x]) @ drop k ?L" unfolding p [symmetric] by simp
    then have "?S k \<le> int (waiting_at xs (fst x))" unfolding p using prefix_waiting [OF assms] by blast
    then have "waiting_at xs (fst x) = maximum_queue xs" using upper [of "fst x"] 2(3) run by simp
    then show ?thesis by blast
  qed
  then show ?thesis using upper by blast
qed

section \<open>Properties\<close>

text \<open>
  C31: the busy timeline, with its merged intervals, prefix sums and binary searches, and the walk over clipped intervals compute the
  same overlap of a window with a union of intervals, the number of its nanoseconds that some interval covers; no index
  is out of range and nothing saturates for instants within \<open>2 ^ 124\<close> nanoseconds of the epoch.
\<close>

theorem overlap_is_union:
  assumes "small start" "small stop" and "\<forall>(a, b) \<in> set xs. small a \<and> small b"
  shows "overlap_seconds (busy_timeline_new xs) start stop = Some (union_overlap_seconds start stop xs) \<and>
    union_overlap_seconds start stop xs = nanos_to_seconds (int (card {t. start \<le> t \<and> t < stop \<and> (\<exists>(a, b) \<in> set xs. a \<le> t \<and> t < b)}))"
proof -
  have "{t. start \<le> t \<and> t < stop \<and> (\<exists>(a, b) \<in> set xs. a \<le> t \<and> t < b)} = {start..<stop} \<inter> covered xs" by (auto simp: covered_def)
  then show ?thesis
    using timeline_overlap_measure [OF assms] union_overlap_measure [OF assms(1,2)]
    by (simp add: overlap_seconds_def union_overlap_seconds_def)
qed

theorem overlap_is_union_witness:
  "overlap_seconds (busy_timeline_new [(0, 4), (2, 6), (8, 9)]) 1 10 = Some (union_overlap_seconds 1 10 [(0, 4), (2, 6), (8, 9)])"
  using overlap_is_union [of 1 10 "[(0, 4), (2, 6), (8, 9)]"] by (simp add: small_def)

text \<open>
  The maximum queue is the largest number of work items that are ready and not yet started at one instant, an item
  that starts at once counted at the instant of its start.
\<close>

theorem maximum_queue_correct:
  assumes "\<forall>(ready, start) \<in> set xs. ready \<le> start"
  shows "(\<forall>t. length (filter (\<lambda>(ready, start). ready \<le> t \<and> t \<le> start) xs) \<le> maximum_queue xs) \<and>
    (\<exists>t. length (filter (\<lambda>(ready, start). ready \<le> t \<and> t \<le> start) xs) = maximum_queue xs)"
  using maximum_queue_max [OF assms] unfolding waiting_at_def .

theorem maximum_queue_correct_witness: "1 \<le> maximum_queue [(5, 5)]"
proof -
  have "\<forall>(ready, start) \<in> set [(5 :: int, 5 :: int)]. ready \<le> start" by simp
  from maximum_queue_correct [OF this]
  have "length (filter (\<lambda>(ready, start). ready \<le> 5 \<and> 5 \<le> start) [(5 :: int, 5 :: int)]) \<le> maximum_queue [(5, 5)]" by blast
  then show ?thesis by simp
qed

end
