(* ===== verification/Fenwick.thy ===== *)
theory Fenwick
  imports Intervals
begin

text \<open>
  The Fenwick trees of \<open>crates/ocpm-bottleneck/src/lib.rs\<close>: prefix minima for overtaking, prefix counts for inversions. Both
  share their walks: an update climbs by the lowest set bit of the index, a query clears it. \<open>None\<close> is a walk that does not end
  or leaves the array; the theorems exclude it. Indexes are below \<open>2 ^ 63\<close>, the addressable size of a vector.
\<close>

unbundle bit_operations_syntax

section \<open>Walks\<close>

definition wrapping_neg :: "nat \<Rightarrow> nat" where
  "wrapping_neg n = (2 ^ 64 - n) mod 2 ^ 64"

definition low_bit :: "nat \<Rightarrow> nat" where
  "low_bit n = n AND wrapping_neg n"

definition clear_low :: "nat \<Rightarrow> nat" where
  "clear_low n = n AND (n - 1)"

text \<open>\<open>while index < len { cells[index] = f(cells[index]); index += index & -index }\<close>\<close>

function fenwick_update :: "('c \<Rightarrow> 'c) \<Rightarrow> nat \<Rightarrow> 'c list \<Rightarrow> 'c list option" where
  "fenwick_update f index cells =
    (if index < length cells
     then if low_bit index = 0 then None else fenwick_update f (index + low_bit index) (cells[index := f (cells ! index)])
     else Some cells)"
  by pat_completeness auto
termination by (relation "measure (\<lambda>(f, index, cells). length cells - index)") auto

declare fenwick_update.simps [simp del]

text \<open>\<open>while index > 0 { acc = g(acc, cells[index]); index &= index - 1 }\<close>\<close>

lemma and_parts:
  fixes a b :: nat
  shows "(2 * a) AND (2 * b) = 2 * (a AND b)" "(2 * a) AND (2 * b + 1) = 2 * (a AND b)" "(2 * a + 1) AND (2 * b) = 2 * (a AND b)"
    "(2 * a + 1) AND (2 * b + 1) = 2 * (a AND b) + 1"
  by (subst and_rec, simp)+

lemma odd_part: "0 < n \<Longrightarrow> \<exists>k m. n = 2 ^ k * (2 * m + 1)" for n :: nat
proof (induction n rule: less_induct)
  case (less n)
  show ?case
  proof (cases "even n")
    case True
    then obtain h where h: "n = 2 * h" by blast
    then obtain k m where "h = 2 ^ k * (2 * m + 1)" using less by fastforce
    then have "n = 2 ^ Suc k * (2 * m + 1)" by (simp add: h)
    then show ?thesis by blast
  next
    case False
    then obtain m where "n = 2 * m + 1" by (auto elim: oddE)
    then have "n = 2 ^ 0 * (2 * m + 1)" by simp
    then show ?thesis by blast
  qed
qed

lemma clear_low_odd_part: "clear_low (2 ^ k * (2 * m + 1)) = 2 ^ Suc k * m"
proof (induction k)
  case 0
  then show ?case using and_parts(3) [of m m] by (simp add: clear_low_def)
next
  case (Suc k)
  let ?h = "2 ^ k * (2 * m + 1)"
  have "0 < ?h" by simp
  then have "2 * ?h - 1 = 2 * (?h - 1) + 1" by linarith
  then have "clear_low (2 * ?h) = 2 * clear_low ?h" unfolding clear_low_def using and_parts(2) by metis
  then show ?case using Suc by (simp add: mult.assoc)
qed

lemma and_complement: "m < 2 ^ v \<Longrightarrow> m AND (2 ^ v - 1 - m) = 0" for m :: nat
proof (induction v arbitrary: m)
  case (Suc v)
  obtain q where q: "m = 2 * q \<or> m = 2 * q + 1" by (metis oddE evenE)
  then have "q < 2 ^ v" using Suc.prems by auto
  then have ih: "q AND (2 ^ v - 1 - q) = 0" by (rule Suc.IH)
  show ?case
  proof (cases "m = 2 * q")
    case True
    then have "2 ^ Suc v - 1 - m = 2 * (2 ^ v - 1 - q) + 1" using \<open>q < 2 ^ v\<close> by simp
    then show ?thesis using and_parts(2) [of q "2 ^ v - 1 - q"] ih unfolding True by simp
  next
    case False
    then have m: "m = 2 * q + 1" using q by blast
    then have "2 ^ Suc v - 1 - m = 2 * (2 ^ v - 1 - q)" by simp
    then show ?thesis using and_parts(3) [of q "2 ^ v - 1 - q"] ih unfolding m by simp
  qed
qed simp

lemma and_neg_odd_part: "2 ^ k * (2 * m + 1) < 2 ^ w \<Longrightarrow> 2 ^ k * (2 * m + 1) AND (2 ^ w - 2 ^ k * (2 * m + 1)) = (2 ^ k :: nat)"
proof (induction k arbitrary: w)
  case 0
  then obtain v where w: "w = Suc v" by (cases w) simp_all
  have "m < 2 ^ v" using 0 by (simp add: w)
  then have "(2 :: nat) ^ w - (2 * m + 1) = 2 * (2 ^ v - 1 - m) + 1" by (simp add: w)
  then show ?case using and_parts(4) [of m "2 ^ v - 1 - m"] and_complement [OF \<open>m < 2 ^ v\<close>] by (simp add: mult_0_right)
next
  case (Suc k)
  let ?h = "2 ^ k * (2 * m + 1)"
  obtain v where w: "w = Suc v" using Suc.prems by (cases w) simp_all
  have "?h < 2 ^ v" using Suc.prems by (simp add: w)
  then have "?h AND (2 ^ v - ?h) = 2 ^ k" by (rule Suc.IH)
  moreover have "(2 :: nat) ^ w - 2 * ?h = 2 * (2 ^ v - ?h)" by (simp add: w)
  ultimately have "(2 * ?h) AND (2 ^ w - 2 * ?h) = 2 * 2 ^ k" using and_parts(1) by metis
  then show ?case by (simp add: mult.assoc)
qed

lemma low_bit_odd_part:
  assumes "2 ^ k * (2 * m + 1) < 2 ^ 64"
  shows "low_bit (2 ^ k * (2 * m + 1)) = 2 ^ k"
proof -
  have "0 < 2 ^ k * (2 * m + 1)" by simp
  then have "(2 ^ 64 - 2 ^ k * (2 * m + 1)) mod 2 ^ 64 = 2 ^ 64 - 2 ^ k * (2 * m + 1)" by (intro mod_less) simp
  then show ?thesis using and_neg_odd_part [OF assms] by (simp only: low_bit_def wrapping_neg_def)
qed

lemma clear_low_less: "0 < n \<Longrightarrow> clear_low n < n"
proof -
  assume "0 < n"
  then obtain k m where n: "n = 2 ^ k * (2 * m + 1)" using odd_part by blast
  show "clear_low n < n" unfolding n clear_low_odd_part by simp
qed

function fenwick_query :: "('a \<Rightarrow> 'c \<Rightarrow> 'a) \<Rightarrow> nat \<Rightarrow> 'c list \<Rightarrow> 'a \<Rightarrow> 'a option" where
  "fenwick_query g index cells acc =
    (if 0 < index then Option.bind (nth_opt cells index) (\<lambda>c. fenwick_query g (clear_low index) cells (g acc c)) else Some acc)"
  by pat_completeness auto
termination by (relation "measure (\<lambda>(g, index, cells, acc). index)") (auto simp: clear_low_less)

declare fenwick_query.simps [simp del]

section \<open>What a walk visits\<close>

text \<open>The cell of an index stands for the positions above the index without its lowest bit.\<close>

definition covers :: "nat \<Rightarrow> nat \<Rightarrow> bool" where
  "covers i p \<longleftrightarrow> clear_low i < p \<and> p \<le> i"

lemma low_clear:
  assumes "0 < n" "n < 2 ^ 64"
  shows "n = clear_low n + low_bit n" "0 < low_bit n"
proof -
  obtain k m where n: "n = 2 ^ k * (2 * m + 1)" using odd_part [OF assms(1)] by blast
  have lb: "low_bit n = 2 ^ k" using low_bit_odd_part [of k m] assms(2) unfolding n by blast
  have "clear_low n = 2 ^ Suc k * m" unfolding n by (rule clear_low_odd_part)
  then show "n = clear_low n + low_bit n" "0 < low_bit n" unfolding lb by (simp_all add: n)
qed

lemma covers_self: "0 < i \<Longrightarrow> covers i i"
  by (simp add: covers_def clear_low_less)

lemma covers_step:
  assumes "0 < p" "p < 2 ^ 64" "p < i" "i < 2 ^ 64"
  shows "covers i p \<longleftrightarrow> covers i (p + low_bit p)"
proof -
  have "0 < i" using assms(3) by simp
  then obtain k m where i: "i = 2 ^ k * (2 * m + 1)" using odd_part by blast
  obtain j l where p: "p = 2 ^ j * (2 * l + 1)" using odd_part [OF assms(1)] by blast
  have lb: "low_bit p = 2 ^ j" using low_bit_odd_part [of j l] assms(2) unfolding p by blast
  have ci: "clear_low i = 2 ^ Suc k * m" unfolding i by (rule clear_low_odd_part)
  have up: "p + 2 ^ j = 2 ^ Suc j * (l + 1)" by (simp add: p)
  show ?thesis unfolding covers_def lb ci
  proof
    assume a: "2 ^ Suc k * m < p \<and> p \<le> i"
    have "j < k"
    proof (rule ccontr)
      assume "\<not> j < k"
      then have "2 ^ k dvd p" by (simp add: p le_imp_power_dvd dvd_mult2)
      then obtain c where c: "p = 2 ^ k * c" by blast
      have "2 ^ k * (2 * m) < 2 ^ k * c" "2 ^ k * c < 2 ^ k * (2 * m + 1)" using a assms(3) unfolding c i by simp_all
      then have "2 * m < c" "c < 2 * m + 1" by (simp_all only: mult_less_cancel1)
      then show False by simp
    qed
    then have "2 ^ Suc j dvd i" by (simp add: i le_imp_power_dvd dvd_mult2 Suc_leI del: power_Suc)
    then obtain c where c: "i = 2 ^ Suc j * c" by blast
    have "2 ^ j * (2 * l + 1) < 2 ^ j * (2 * c)" using assms(3) unfolding p c by simp
    then have "2 * l + 1 < 2 * c" by (simp only: mult_less_cancel1)
    then have "l < c" by simp
    then have "2 ^ Suc j * (l + 1) \<le> 2 ^ Suc j * c" by (intro mult_le_mono2) simp
    then have "p + 2 ^ j \<le> i" unfolding up c [symmetric] .
    then show "2 ^ Suc k * m < p + 2 ^ j \<and> p + 2 ^ j \<le> i" using a by (simp add: trans_less_add1)
  next
    assume a: "2 ^ Suc k * m < p + 2 ^ j \<and> p + 2 ^ j \<le> i"
    show "2 ^ Suc k * m < p \<and> p \<le> i"
    proof (rule ccontr)
      assume "\<not> ?thesis"
      then have le: "p \<le> 2 ^ Suc k * m" using assms(3) by simp
      show False
      proof (cases "j \<le> Suc k")
        case True
        then have "2 ^ j dvd 2 ^ Suc k * m" by (intro dvd_mult2 le_imp_power_dvd)
        then obtain c where c: "2 ^ Suc k * m = 2 ^ j * c" by blast
        have le': "2 ^ j * (2 * l + 1) \<le> 2 ^ j * c" and less': "2 ^ j * c < 2 ^ j * (2 * l + 2)"
          using le a unfolding c p by (simp_all add: algebra_simps)
        have "2 * l + 1 \<le> c" by (rule mult_left_le_imp_le [OF le']) simp
        moreover have "c < 2 * l + 2" by (rule mult_left_less_imp_less [OF less']) simp
        ultimately have c2: "c = 2 * l + 1" by simp
        show False
        proof (cases "j = Suc k")
          case True
          have "2 ^ Suc k * m = 2 ^ Suc k * (2 * l + 1)" using c unfolding True c2 .
          then have "m = 2 * l + 1" by (metis mult_cancel1 power_not_zero zero_neq_numeral)
          then show False using a unfolding i p True by (simp add: algebra_simps)
        next
          case False
          then have "2 ^ Suc j dvd 2 ^ Suc k * m" using True by (intro dvd_mult2 le_imp_power_dvd) simp
          then have "2 ^ Suc j dvd (2 :: nat) ^ j * (2 * l + 1)" unfolding c c2 .
          then have "2 dvd 2 * l + 1" unfolding power_Suc2 nat_mult_dvd_cancel_disj by simp
          then show False by simp
        qed
      next
        case False
        then have "2 ^ Suc k dvd p + 2 ^ j" unfolding up by (intro dvd_mult2 le_imp_power_dvd) simp
        then obtain c where c: "p + 2 ^ j = 2 ^ Suc k * c" by blast
        have "m < c" using a by (simp add: c)
        then have "2 ^ Suc k * (m + 1) \<le> 2 ^ Suc k * c" by (intro mult_le_mono2) simp
        then have "2 ^ Suc k * (m + 1) \<le> i" using a by (simp add: c)
        then show False by (simp add: i)
      qed
    qed
  qed
qed

lemma low_bit_le: "0 < p \<Longrightarrow> p < 2 ^ 64 \<Longrightarrow> low_bit p \<le> p"
  using low_clear [of p] by linarith

lemma fenwick_update_cells:
  assumes "0 < q" "q < 2 ^ 64" "length cells \<le> 2 ^ 63"
  shows "fenwick_update f q cells = Some (map (\<lambda>i. if covers i q then f (cells ! i) else cells ! i) [0..<length cells])"
  using assms
proof (induction f q cells rule: fenwick_update.induct)
  case (1 f q cells)
  show ?case
  proof (cases "q < length cells")
    case False
    then have "map (\<lambda>i. if covers i q then f (cells ! i) else cells ! i) [0..<length cells] = cells"
      by (intro nth_equalityI) (auto simp: covers_def)
    then show ?thesis using False by (subst fenwick_update.simps) simp
  next
    case True
    let ?q = "q + low_bit q" and ?cells = "cells[q := f (cells ! q)]"
    have lb: "0 < low_bit q" "low_bit q \<le> q" using low_clear(2) low_bit_le "1.prems" by simp_all
    have q': "?q < 2 ^ 64" using lb True "1.prems"(3) by simp
    have run: "fenwick_update f q cells = fenwick_update f ?q ?cells" using True lb by (subst fenwick_update.simps) simp
    also have "\<dots> = Some (map (\<lambda>i. if covers i ?q then f (?cells ! i) else ?cells ! i) [0..<length ?cells])"
      using "1.IH" [OF True] lb q' "1.prems" by simp
    also have "map (\<lambda>i. if covers i ?q then f (?cells ! i) else ?cells ! i) [0..<length ?cells] =
        map (\<lambda>i. if covers i q then f (cells ! i) else cells ! i) [0..<length cells]"
    proof (rule map_cong)
      fix i assume "i \<in> set [0..<length cells]"
      then have i: "i < length cells" by simp
      then have i64: "i < 2 ^ 64" using "1.prems"(3) by simp
      consider "i < q" | "i = q" | "q < i" by linarith
      then show "(if covers i ?q then f (?cells ! i) else ?cells ! i) = (if covers i q then f (cells ! i) else cells ! i)"
      proof cases
        case 1
        then show ?thesis by (simp add: covers_def)
      next
        case 2
        then show ?thesis using lb "1.prems"(1) i covers_self [of q] by (simp add: covers_def)
      next
        case 3
        then show ?thesis using covers_step [OF "1.prems"(1,2) 3 i64] by simp
      qed
    qed simp
    finally show ?thesis .
  qed
qed

section \<open>Trees over commuting steps\<close>

text \<open>The values stored at the positions that satisfy a predicate, in the order of their insertion.\<close>

definition stored :: "(nat \<Rightarrow> bool) \<Rightarrow> (nat \<times> 'v) list \<Rightarrow> 'v list" where
  "stored P ps = map snd (filter (\<lambda>e. P (fst e)) ps)"

locale fenwick =
  fixes put :: "'v \<Rightarrow> 'c \<Rightarrow> 'c" and merge :: "'c \<Rightarrow> 'c \<Rightarrow> 'c" and unit :: 'c
  assumes put_commute: "put x (put y c) = put y (put x c)"
    and merge: "merge (fold put xs unit) (fold put ys unit) = fold put (xs @ ys) unit"
begin

definition holds :: "'c list \<Rightarrow> (nat \<times> 'v) list \<Rightarrow> bool" where
  "holds cells ps \<longleftrightarrow> (\<forall>i < length cells. 0 < i \<longrightarrow> cells ! i = fold put (stored (covers i) ps) unit)"

lemma holds_new: "holds (replicate n unit) []"
  by (simp add: holds_def stored_def)

lemma put_mset: "mset xs = mset ys \<Longrightarrow> fold put xs unit = fold put ys unit"
proof -
  assume "mset xs = mset ys"
  then have "fold put xs = fold put ys" by (intro fold_multiset_equiv) (simp_all add: fun_eq_iff put_commute)
  then show ?thesis by simp
qed

lemma update_holds:
  assumes "holds cells ps" "0 < p" "p < 2 ^ 64" "length cells \<le> 2 ^ 63"
  shows "\<exists>cells'. fenwick_update (put v) p cells = Some cells' \<and> length cells' = length cells \<and> holds cells' (ps @ [(p, v)])"
  unfolding fenwick_update_cells [OF assms(2-4)] using assms(1) by (simp add: holds_def stored_def)

lemma query_holds:
  assumes "holds cells ps" "i < length cells" "length cells \<le> 2 ^ 63"
  shows "fenwick_query merge i cells (fold put xs unit) = Some (fold put (xs @ stored (\<lambda>p. 0 < p \<and> p \<le> i) ps) unit)"
  using assms(2)
proof (induction i arbitrary: xs rule: less_induct)
  case (less i)
  show ?case
  proof (cases "i = 0")
    case True
    then have "stored (\<lambda>p. 0 < p \<and> p \<le> i) ps = []" by (auto simp: stored_def filter_empty_conv)
    then show ?thesis using True by (subst fenwick_query.simps) simp
  next
    case False
    have cell: "cells ! i = fold put (stored (covers i) ps) unit" using assms(1) less.prems False by (simp add: holds_def)
    have lt: "clear_low i < i" using False by (simp add: clear_low_less)
    have "fenwick_query merge i cells (fold put xs unit) = fenwick_query merge (clear_low i) cells (merge (fold put xs unit) (cells ! i))"
      using False less.prems by (subst fenwick_query.simps) simp
    also have "\<dots> = fenwick_query merge (clear_low i) cells (fold put (xs @ stored (covers i) ps) unit)" unfolding cell merge ..
    also have "\<dots> = Some (fold put ((xs @ stored (covers i) ps) @ stored (\<lambda>p. 0 < p \<and> p \<le> clear_low i) ps) unit)"
      by (rule less.IH [OF lt]) (use lt less.prems in simp)
    also have "fold put ((xs @ stored (covers i) ps) @ stored (\<lambda>p. 0 < p \<and> p \<le> clear_low i) ps) unit =
        fold put (xs @ stored (\<lambda>p. 0 < p \<and> p \<le> i) ps) unit"
    proof (rule put_mset)
      have "mset (stored (covers i) ps) + mset (stored (\<lambda>p. 0 < p \<and> p \<le> clear_low i) ps) = mset (stored (\<lambda>p. 0 < p \<and> p \<le> i) ps)"
        using lt by (induction ps) (auto simp: stored_def covers_def)
      then show "mset ((xs @ stored (covers i) ps) @ stored (\<lambda>p. 0 < p \<and> p \<le> clear_low i) ps) = mset (xs @ stored (\<lambda>p. 0 < p \<and> p \<le> i) ps)"
        by (simp add: add.assoc)
    qed
    finally show ?thesis .
  qed
qed

lemma query_new:
  assumes "holds cells ps" "i < length cells" "length cells \<le> 2 ^ 63"
  shows "fenwick_query merge i cells unit = Some (fold put (stored (\<lambda>p. 0 < p \<and> p \<le> i) ps) unit)"
  using query_holds [OF assms, of "[]"] by simp

end

section \<open>Prefix minima\<close>

definition fenwick_minimum_new :: "nat \<Rightarrow> int list" where
  "fenwick_minimum_new n = replicate (n + 1) i128_max"

definition fenwick_minimum_insert :: "nat \<Rightarrow> int \<Rightarrow> int list \<Rightarrow> int list option" where
  "fenwick_minimum_insert index v cells = fenwick_update (\<lambda>c. min c v) index cells"

definition fenwick_minimum :: "nat \<Rightarrow> int list \<Rightarrow> int option option" where
  "fenwick_minimum index cells = map_option (\<lambda>v. if v \<noteq> i128_max then Some v else None) (fenwick_query min index cells i128_max)"

definition put_min :: "int \<Rightarrow> int \<Rightarrow> int" where
  "put_min v c = min c v"

lemma fold_put_min: "fold put_min xs m = Min (set (m # xs))" for m :: int
proof -
  have "put_min = (min :: int \<Rightarrow> int \<Rightarrow> int)" by (intro ext) (simp add: put_min_def min.commute)
  then show ?thesis by (simp only: Min.set_eq_fold)
qed

interpretation minima: fenwick put_min min i128_max
proof
  show "put_min x (put_min y c) = put_min y (put_min x c)" for x y c by (simp add: put_min_def min.commute min.left_commute)
  show "min (fold put_min xs i128_max) (fold put_min ys i128_max) = fold put_min (xs @ ys) i128_max" for xs ys
  proof -
    have "set (i128_max # xs @ ys) = set (i128_max # xs) \<union> set (i128_max # ys)" by auto
    then show ?thesis unfolding fold_put_min by (metis Min_Un finite_set list.distinct(1) set_empty)
  qed
qed

section \<open>Inversions\<close>

definition dedup_sorted :: "'a::linorder list \<Rightarrow> 'a list" where
  "dedup_sorted xs = remdups_adj (sort xs)"

definition put_count :: "unit \<Rightarrow> nat \<Rightarrow> nat" where
  "put_count _ c = u64_saturating_add c 1"

definition inversion_step :: "int list \<Rightarrow> nat \<times> int \<Rightarrow> nat list \<times> nat \<Rightarrow> (nat list \<times> nat) option" where
  "inversion_step ordered = (\<lambda>(seen, v) (tree, n).
     let position = partition_point (\<lambda>candidate. candidate < v) ordered + 1 in
     Option.bind (fenwick_query u64_saturating_add position tree 0) (\<lambda>not_greater.
     if seen < not_greater then None
     else Option.bind (fenwick_update (\<lambda>c. u64_saturating_add c 1) position tree) (\<lambda>tree.
       Some (tree, u64_saturating_add n (seen - not_greater)))))"

definition inversion_count :: "int list \<Rightarrow> nat option" where
  "inversion_count vs = (let ordered = dedup_sorted vs in
     map_option snd (fold_opt (inversion_step ordered) (indexed vs) (replicate (length ordered + 1) 0, 0)))"

lemma fold_put_count: "fold put_count xs c = min (c + length xs) u64_max" if "c \<le> u64_max"
  using that by (induction xs arbitrary: c) (auto simp: put_count_def u64_saturating_add_def)

interpretation counts: fenwick put_count u64_saturating_add 0
proof
  show "u64_saturating_add (fold put_count xs 0) (fold put_count ys 0) = fold put_count (xs @ ys) 0" for xs ys
    unfolding fold_put_count [OF le0] by (simp add: u64_saturating_add_def)
qed (simp add: put_count_def)

text \<open>Positions in a sorted list without duplicates.\<close>

lemma partition_point_mono: "(\<And>x. P x \<Longrightarrow> Q x) \<Longrightarrow> partition_point P xs \<le> partition_point Q xs"
  by (induction xs) (auto simp: partition_point_def)

lemma partition_point_sorted: "sorted xs \<Longrightarrow> partition_point (\<lambda>x. x < v) xs = length (filter (\<lambda>x. x < v) xs)"
  unfolding partition_point_def
  by (induction xs) (auto simp: filter_empty_conv intro!: sym [of 0])

lemma partition_point_sorted_le: "sorted xs \<Longrightarrow> partition_point (\<lambda>x. x \<le> v) xs = length (filter (\<lambda>x. x \<le> v) xs)"
  unfolding partition_point_def
  by (induction xs) (auto simp: filter_empty_conv intro!: sym [of 0])

lemma position_less: "sorted xs \<Longrightarrow> v \<in> set xs \<Longrightarrow> partition_point (\<lambda>x. x < v) xs < length xs"
  unfolding partition_point_sorted by (rule length_filter_less) auto

lemma position_order:
  assumes "sorted xs" "v \<in> set xs"
  shows "partition_point (\<lambda>x. x < u) xs \<le> partition_point (\<lambda>x. x < v) xs \<longleftrightarrow> u \<le> v \<or> partition_point (\<lambda>x. x < u) xs = partition_point (\<lambda>x. x < v) xs"
    and "v < u \<Longrightarrow> partition_point (\<lambda>x. x < v) xs < partition_point (\<lambda>x. x < u) xs"
proof -
  show less: "partition_point (\<lambda>x. x < v) xs < partition_point (\<lambda>x. x < u) xs" if "v < u" for u
  proof -
    have "filter (\<lambda>x. x < v) xs = filter (\<lambda>x. x < v) (filter (\<lambda>x. x < u) xs)" using that by (auto simp: intro!: filter_cong)
    also have "length \<dots> < length (filter (\<lambda>x. x < u) xs)" by (rule length_filter_less [of v]) (use assms(2) that in auto)
    finally show ?thesis unfolding partition_point_sorted [OF assms(1)] .
  qed
  show "partition_point (\<lambda>x. x < u) xs \<le> partition_point (\<lambda>x. x < v) xs \<longleftrightarrow> u \<le> v \<or> partition_point (\<lambda>x. x < u) xs = partition_point (\<lambda>x. x < v) xs"
    using less [of u] partition_point_mono [of "\<lambda>x. x < u" "\<lambda>x. x < v" xs] by (metis leD leI less_le_trans order_refl)
qed

lemma position_le_iff:
  assumes "sorted xs" "v \<in> set xs"
  shows "partition_point (\<lambda>x. x < u) xs \<le> partition_point (\<lambda>x. x < v) xs \<longleftrightarrow> u \<le> v"
  using position_order [OF assms] partition_point_mono [of "\<lambda>x. x < u" "\<lambda>x. x < v" xs] by (metis leD leI less_le_trans)

lemma dedup_sorted_props: "sorted (dedup_sorted xs)" "set (dedup_sorted xs) = set xs" "length (dedup_sorted xs) \<le> length xs"
  by (simp_all add: dedup_sorted_def sorted_remdups_adj) (metis length_sort remdups_adj_length)

definition inversions :: "int list \<Rightarrow> nat" where
  "inversions vs = card {(i, j). i < j \<and> j < length vs \<and> vs ! j < vs ! i}"

lemma inversions_snoc: "inversions (vs @ [v]) = inversions vs + length (filter (\<lambda>u. v < u) vs)"
proof -
  let ?new = "(\<lambda>i. (i, length vs)) ` {i. i < length vs \<and> v < vs ! i}"
  have set: "{(i, j). i < j \<and> j < length (vs @ [v]) \<and> (vs @ [v]) ! j < (vs @ [v]) ! i} =
      {(i, j). i < j \<and> j < length vs \<and> vs ! j < vs ! i} \<union> ?new"
    by (auto simp: nth_append less_Suc_eq)
  have fin: "finite {(i, j). i < j \<and> j < length vs \<and> vs ! j < vs ! i}"
    by (rule finite_subset [of _ "{..<length vs} \<times> {..<length vs}"]) auto
  have "card ({(i, j). i < j \<and> j < length vs \<and> vs ! j < vs ! i} \<union> ?new) = inversions vs + card ?new"
    unfolding inversions_def by (rule card_Un_disjoint [OF fin]) auto
  moreover have "card ?new = length (filter (\<lambda>u. v < u) vs)"
    by (subst card_image) (auto simp: inj_on_def length_filter_conv_card)
  ultimately show ?thesis unfolding inversions_def [of "vs @ [v]"] set by simp
qed

lemma inversions_bound: "inversions vs \<le> length vs * length vs"
proof (induction vs rule: rev_induct)
  case (snoc v vs)
  have "length (filter (\<lambda>u. v < u) vs) \<le> length vs" by (rule length_filter_le)
  moreover have "length (vs @ [v]) * length (vs @ [v]) = length vs * length vs + 2 * length vs + 1" by simp
  ultimately show ?case using snoc unfolding inversions_snoc by linarith
qed (simp add: inversions_def)

definition position_in :: "int list \<Rightarrow> int \<Rightarrow> nat" where
  "position_in ordered v = partition_point (\<lambda>x. x < v) ordered + 1"

lemma count_positions:
  assumes "sorted ordered" "set vs \<subseteq> set ordered" "v \<in> set ordered"
  shows "stored (\<lambda>p. 0 < p \<and> p \<le> position_in ordered v) (map (\<lambda>u. (position_in ordered u, ())) vs) = map (\<lambda>_. ()) (filter (\<lambda>u. u \<le> v) vs)"
  using position_le_iff [OF assms(1,3)] by (induction vs) (auto simp: stored_def position_in_def)

lemma inversion_run:
  assumes "sorted ordered" "length ordered < 2 ^ 62" "set vs \<subseteq> set ordered" "length vs < 2 ^ 32"
  shows "\<exists>tree. fold_opt (inversion_step ordered) (indexed vs) (replicate (length ordered + 1) 0, 0) = Some (tree, inversions vs) \<and>
    length tree = length ordered + 1 \<and> counts.holds tree (map (\<lambda>u. (position_in ordered u, ())) vs)"
  using assms(3,4)
proof (induction vs rule: rev_induct)
  case Nil
  then show ?case using counts.holds_new [of "length ordered + 1"] by (auto simp: indexed_def inversions_def)
next
  case (snoc v vs)
  obtain tree where tree: "fold_opt (inversion_step ordered) (indexed vs) (replicate (length ordered + 1) 0, 0) = Some (tree, inversions vs)"
    "length tree = length ordered + 1" "counts.holds tree (map (\<lambda>u. (position_in ordered u, ())) vs)"
    using snoc by auto
  let ?p = "position_in ordered v" and ?le = "length (filter (\<lambda>u. u \<le> v) vs)"
  have v: "v \<in> set ordered" using snoc.prems by simp
  have p: "0 < ?p" "?p < length tree" using position_less [OF assms(1) v] by (simp_all add: position_in_def tree(2))
  have len: "length tree \<le> 2 ^ 63" "?p < 2 ^ 64" using p assms(2) by (simp_all add: tree(2))
  have vs: "length vs < 2 ^ 32" "set vs \<subseteq> set ordered" using snoc.prems by auto
  have sq: "length vs * length vs \<le> (2 ^ 32 - 1) * (2 ^ 32 - 1)" by (intro mult_le_mono) (use vs in auto)
  have le: "?le \<le> length vs" "?le + length (filter (\<lambda>u. v < u) vs) = length vs"
    using sum_length_filter_compl [of "\<lambda>u. u \<le> v" vs] by (simp_all add: not_le)
  have "fenwick_query u64_saturating_add ?p tree 0 = Some (fold put_count (stored (\<lambda>p. 0 < p \<and> p \<le> ?p) (map (\<lambda>u. (position_in ordered u, ())) vs)) 0)"
    by (rule counts.query_new [OF tree(3) p(2) len(1)])
  also have "\<dots> = Some ?le"
    unfolding count_positions [OF assms(1) vs(2) v] fold_put_count [OF le0] using le vs(1) by (simp add: u64_max_def)
  finally have q: "fenwick_query u64_saturating_add ?p tree 0 = Some ?le" .
  have put: "put_count () = (\<lambda>c. u64_saturating_add c 1)" by (simp add: put_count_def fun_eq_iff)
  obtain tree' where t': "fenwick_update (\<lambda>c. u64_saturating_add c 1) ?p tree = Some tree'" "length tree' = length tree"
    "counts.holds tree' (map (\<lambda>u. (position_in ordered u, ())) vs @ [(?p, ())])"
    using counts.update_holds [OF tree(3) p(1) len(2,1), of "()"] unfolding put by blast
  have "u64_saturating_add (inversions vs) (length vs - ?le) = inversions (vs @ [v])"
  proof -
    have "inversions vs + (length vs - ?le) \<le> u64_max"
      using inversions_bound [of vs] sq vs(1) by (simp add: u64_max_def)
    then show ?thesis using le(2) by (simp add: u64_saturating_add_def inversions_snoc)
  qed
  then have "inversion_step ordered (length vs, v) (tree, inversions vs) = Some (tree', inversions (vs @ [v]))"
    using q t'(1) le(1) unfolding inversion_step_def Let_def prod.case position_in_def [symmetric] by (simp add: not_less)
  then show ?case using tree(1) t'(2,3) by (simp add: indexed_snoc fold_opt_snoc tree(2))
qed

lemma inversion_count_total:
  assumes "length vs < 2 ^ 32"
  shows "inversion_count vs = Some (inversions vs)"
proof -
  have "length (dedup_sorted vs) < 2 ^ 62" using dedup_sorted_props(3) [of vs] assms by simp
  then show ?thesis
    using inversion_run [OF dedup_sorted_props(1), of vs vs] dedup_sorted_props(2) [of vs] assms
    by (auto simp: inversion_count_def Let_def)
qed

text \<open>
  The Fenwick tree counts inversions: on fewer than \<open>2 ^ 32\<close> values the walks end within the array and the result is the
  number of pairs of positions whose values are out of order.
\<close>

theorem inversion_count_correct:
  assumes "length vs < 2 ^ 32"
  shows "inversion_count vs = Some (card {(i, j). i < j \<and> j < length vs \<and> vs ! j < vs ! i})"
  using inversion_count_total [OF assms] by (simp add: inversions_def)

theorem inversion_count_correct_witness: "inversion_count [3, 1, 2, 1] = Some 4"
proof -
  have "{(i, j). i < j \<and> j < length [3, 1, 2, 1 :: int] \<and> [3, 1, 2, 1] ! j < [3, 1, 2, 1 :: int] ! i} = {(0, 1), (0, 2), (0, 3), (2, 3)}"
    by (auto simp: less_Suc_eq numeral_eq_Suc)
  then show ?thesis using inversion_count_correct [of "[3, 1, 2, 1]"] by simp
qed

end
