(* ===== verification/Lifecycle.thy ===== *)
theory Lifecycle
  imports Provider
begin

text \<open>
  Activity instances of \<open>crates/ocpm-bottleneck/src/lib.rs\<close>: the events of each object are ordered and the starts of an activity
  are paired with its completions, first in, first out.
\<close>

section \<open>Operations\<close>

record event_point =
  ep_event_id :: nat
  ep_activity :: string
  ep_timestamp :: int
  ep_lifecycle :: "string option"
  ep_attributes :: attributes

record activity_instance =
  ai_id :: nat
  ai_activity :: string
  ai_resource :: string
  ai_ready :: int
  ai_start :: int
  ai_complete :: int

definition to_ascii_lowercase :: "string \<Rightarrow> string" where
  "to_ascii_lowercase = map (\<lambda>c. if CHR ''A'' \<le> c \<and> c \<le> CHR ''Z'' then char_of ((of_char c :: nat) + 32) else c)"

definition resource_of :: "string \<Rightarrow> event_point \<Rightarrow> string" where
  "resource_of requested point =
    (case bt_get (ep_attributes point) requested of Some (AttrString v) \<Rightarrow> v
     | _ \<Rightarrow> (case bt_get (ep_attributes point) ''resource'' of Some (AttrString v) \<Rightarrow> v | _ \<Rightarrow> []))"

definition source_point :: "bottleneck_observation \<Rightarrow> event_point" where
  "source_point ob = \<lparr>ep_event_id = bo_source_event_id ob, ep_activity = bo_source_activity ob, ep_timestamp = bo_source_timestamp_nanos ob,
     ep_lifecycle = bo_source_lifecycle ob, ep_attributes = bo_source_attributes ob\<rparr>"

definition target_point :: "bottleneck_observation \<Rightarrow> event_point" where
  "target_point ob = \<lparr>ep_event_id = bo_target_event_id ob, ep_activity = bo_target_activity ob, ep_timestamp = bo_target_timestamp_nanos ob,
     ep_lifecycle = bo_target_lifecycle ob, ep_attributes = bo_target_attributes ob\<rparr>"

type_synonym point_map = "(nat \<times> string, (int \<times> nat \<times> nat, event_point) btree_map) btree_map"

text \<open>\<open>entry(object).or_default().entry(key).or_insert(point)\<close>.\<close>

definition insert_point :: "nat \<times> string \<Rightarrow> event_point \<Rightarrow> point_map \<Rightarrow> point_map" where
  "insert_point ob point = bt_alter ob (\<lambda>m.
     bt_alter (ep_timestamp point, ep_event_id point, ep_event_id point) (\<lambda>old. case old of None \<Rightarrow> point | Some p \<Rightarrow> p)
       (case m of None \<Rightarrow> [] | Some m \<Rightarrow> m))"

definition observation_points :: "bottleneck_observation list \<Rightarrow> point_map" where
  "observation_points observations = fold (\<lambda>ob points.
     insert_point (bo_object_id ob, bo_object_type ob) (target_point ob)
       (insert_point (bo_object_id ob, bo_object_type ob) (source_point ob) points)) observations []"

definition lifecycle_text :: "event_point \<Rightarrow> string" where
  "lifecycle_text point = to_ascii_lowercase (case ep_lifecycle point of None \<Rightarrow> [] | Some l \<Rightarrow> l)"

definition begins :: "event_point \<Rightarrow> bool" where
  "begins point \<longleftrightarrow> lifecycle_text point \<in> {''start'', ''begin'', ''resume''}"

definition finishes :: "event_point \<Rightarrow> bool" where
  "finishes point \<longleftrightarrow> lifecycle_text point \<in> {''complete'', ''end'', ''suspend''}"

type_synonym open_starts = "(string, (int \<times> int \<times> string) list) btree_map"

definition ready_at :: "event_point list \<Rightarrow> nat \<Rightarrow> event_point \<Rightarrow> int" where
  "ready_at points index point = (if index = 0 then ep_timestamp point else ep_timestamp (points ! (index - 1)))"

definition lifecycle_step :: "string \<Rightarrow> event_point list \<Rightarrow> nat \<times> event_point \<Rightarrow> open_starts \<times> activity_instance list
    \<Rightarrow> open_starts \<times> activity_instance list" where
  "lifecycle_step attribute points = (\<lambda>(index, point) (starts, result).
     if begins point then
       (bt_push (ep_activity point) (ready_at points index point, ep_timestamp point, resource_of attribute point) starts, result)
     else if finishes point then
       (case bt_get starts (ep_activity point) of
          Some ((ready, start, start_resource) # queue) \<Rightarrow>
            (bt_insert (ep_activity point) queue starts,
             if ep_timestamp point < start then result
             else result @ [\<lparr>ai_id = length result, ai_activity = ep_activity point,
               ai_resource = (let complete_resource = resource_of attribute point in
                 if complete_resource = [] then start_resource else complete_resource),
               ai_ready = ready, ai_start = start, ai_complete = ep_timestamp point\<rparr>])
        | _ \<Rightarrow> (starts, result))
     else (starts, result))"

definition lifecycle_group :: "string \<Rightarrow> event_point list \<Rightarrow> activity_instance list \<Rightarrow> activity_instance list" where
  "lifecycle_group attribute points result = snd (fold (lifecycle_step attribute points) (indexed points) ([], result))"

definition lifecycle_instances :: "bottleneck_observation list \<Rightarrow> string \<Rightarrow> activity_instance list" where
  "lifecycle_instances observations attribute =
    (if \<forall>ob \<in> set observations. bo_source_lifecycle ob = None \<and> bo_target_lifecycle ob = None then []
     else fold (\<lambda>(_, ordered). lifecycle_group attribute (bt_values ordered)) (observation_points observations) [])"

section \<open>Ordered points\<close>

definition ordered_ok :: "(int \<times> nat \<times> nat, event_point) btree_map \<Rightarrow> bool" where
  "ordered_ok ordered \<longleftrightarrow> bt_inv ordered \<and> (\<forall>(key, point) \<in> set ordered. fst key = ep_timestamp point)"

definition points_ok :: "point_map \<Rightarrow> bool" where
  "points_ok m \<longleftrightarrow> (\<forall>e \<in> set m. ordered_ok (snd e))"

lemma bt_alter_in: "(k', v') \<in> set (bt_alter k f m) \<Longrightarrow> (k', v') \<in> set m \<or> (k' = k \<and> (v' = f None \<or> (\<exists>v. (k, v) \<in> set m \<and> v' = f (Some v))))"
  by (induction k f m rule: bt_alter.induct) (auto split: if_splits)

lemma points_ok_insert:
  assumes "points_ok m"
  shows "points_ok (insert_point ob point m)"
proof -
  let ?g = "bt_alter (ep_timestamp point, ep_event_id point, ep_event_id point) (\<lambda>old. case old of None \<Rightarrow> point | Some p \<Rightarrow> p)"
  have ok: "ordered_ok (?g ordered)" if "ordered_ok ordered" for ordered
    using that unfolding ordered_ok_def by (fastforce dest: bt_alter_in intro: bt_inv_alter)
  have nil: "ordered_ok []" by (simp add: ordered_ok_def)
  have "ordered_ok ordered" if "(k, ordered) \<in> set (insert_point ob point m)" for k ordered
  proof -
    have "(k, ordered) \<in> set m \<or> ordered = ?g [] \<or> (\<exists>old. (ob, old) \<in> set m \<and> ordered = ?g old)"
      using that unfolding insert_point_def by (fastforce dest: bt_alter_in)
    then show ?thesis
    proof (elim disjE exE)
      assume "(k, ordered) \<in> set m"
      then show ?thesis using assms unfolding points_ok_def by fastforce
    next
      assume "ordered = ?g []"
      then show ?thesis using ok nil by blast
    next
      fix old assume old: "(ob, old) \<in> set m \<and> ordered = ?g old"
      then have "ordered_ok old" using assms unfolding points_ok_def by fastforce
      then show ?thesis using old ok by blast
    qed
  qed
  then show ?thesis unfolding points_ok_def by force
qed

lemma observation_points_ok: "points_ok (observation_points observations)"
proof -
  have "points_ok (fold (\<lambda>ob points. insert_point (bo_object_id ob, bo_object_type ob) (target_point ob)
       (insert_point (bo_object_id ob, bo_object_type ob) (source_point ob) points)) obs m)" if "points_ok m" for obs m
    using that by (induction obs arbitrary: m) (simp_all add: points_ok_insert)
  moreover have "points_ok []" by (simp add: points_ok_def)
  ultimately show ?thesis unfolding observation_points_def by blast
qed

lemma ordered_timestamps:
  assumes "ordered_ok ordered"
  shows "sorted (map ep_timestamp (bt_values ordered))"
proof -
  have "sorted (map fst ordered)" using assms by (simp add: ordered_ok_def bt_inv_def strict_sorted_iff)
  then have "sorted (map (fst \<circ> fst) ordered)"
    unfolding sorted_map sorted_wrt_map by (rule sorted_wrt_mono_rel [rotated]) (auto simp: less_eq_prod_def)
  moreover have "map (fst \<circ> fst) ordered = map ep_timestamp (bt_values ordered)" using assms by (auto simp: bt_values_def ordered_ok_def)
  ultimately show ?thesis by simp
qed

section \<open>First in, first out\<close>

text \<open>The instance that the start at one index and the completion at another make.\<close>

definition paired :: "string \<Rightarrow> event_point list \<Rightarrow> nat \<Rightarrow> nat \<times> nat \<Rightarrow> activity_instance" where
  "paired attribute points n = (\<lambda>(j, i). \<lparr>ai_id = n, ai_activity = ep_activity (points ! i),
     ai_resource = (if resource_of attribute (points ! i) = [] then resource_of attribute (points ! j) else resource_of attribute (points ! i)),
     ai_ready = ready_at points j (points ! j), ai_start = ep_timestamp (points ! j), ai_complete = ep_timestamp (points ! i)\<rparr>)"

definition starts_of :: "event_point list \<Rightarrow> nat \<Rightarrow> string \<Rightarrow> nat list" where
  "starts_of points k a = filter (\<lambda>j. begins (points ! j) \<and> ep_activity (points ! j) = a) [0..<k]"

definition pair_starts :: "event_point list \<Rightarrow> (nat \<times> nat) list \<Rightarrow> string \<Rightarrow> nat list" where
  "pair_starts points pairs a = map fst (filter (\<lambda>p. ep_activity (points ! fst p) = a) pairs)"

definition open_entry :: "string \<Rightarrow> event_point list \<Rightarrow> nat \<Rightarrow> int \<times> int \<times> string" where
  "open_entry attribute points j = (ready_at points j (points ! j), ep_timestamp (points ! j), resource_of attribute (points ! j))"

definition pairs_ok :: "event_point list \<Rightarrow> nat \<Rightarrow> (nat \<times> nat) list \<Rightarrow> bool" where
  "pairs_ok points k pairs \<longleftrightarrow> (\<forall>(j, i) \<in> set pairs. j < i \<and> i < k \<and> finishes (points ! i) \<and> ep_activity (points ! i) = ep_activity (points ! j)) \<and>
     sorted_wrt (<) (map snd pairs)"

definition numbered_instances :: "string \<Rightarrow> event_point list \<Rightarrow> nat \<Rightarrow> (nat \<times> nat) list \<Rightarrow> activity_instance list" where
  "numbered_instances attribute points base pairs = map (\<lambda>(n, p). paired attribute points (base + n) p) (indexed pairs)"

definition lifecycle_inv :: "string \<Rightarrow> event_point list \<Rightarrow> activity_instance list \<Rightarrow> nat \<Rightarrow> open_starts \<times> activity_instance list \<Rightarrow> bool" where
  "lifecycle_inv attribute points base k = (\<lambda>(starts, result). \<exists>pairs Q.
     result = base @ numbered_instances attribute points (length base) pairs \<and> bt_inv starts \<and> pairs_ok points k pairs \<and>
     (\<forall>a. (case bt_get starts a of None \<Rightarrow> [] | Some q \<Rightarrow> q) = map (open_entry attribute points) (Q a) \<and>
       pair_starts points pairs a @ Q a = starts_of points k a))"

lemma begins_not_finishes: "begins p \<Longrightarrow> \<not> finishes p"
  by (auto simp: begins_def finishes_def)

lemma numbered_snoc: "numbered_instances attribute points n (ps @ [p]) = numbered_instances attribute points n ps @ [paired attribute points (n + length ps) p]"
  by (simp add: numbered_instances_def indexed_def)

lemma length_numbered_instances [simp]: "length (numbered_instances attribute points n ps) = length ps"
  by (simp add: numbered_instances_def indexed_def)

lemma starts_of_Suc: "starts_of points (Suc k) a = starts_of points k a @ (if begins (points ! k) \<and> ep_activity (points ! k) = a then [k] else [])"
  by (simp add: starts_of_def)

lemma pairs_ok_Suc: "pairs_ok points k pairs \<Longrightarrow> pairs_ok points (Suc k) pairs"
  by (auto simp: pairs_ok_def)

lemma lifecycle_inv_step:
  assumes inv: "lifecycle_inv attribute points base k st" and k: "k < length points" and srt: "sorted (map ep_timestamp points)"
  shows "lifecycle_inv attribute points base (Suc k) (lifecycle_step attribute points (k, points ! k) st)"
proof -
  obtain starts result where st: "st = (starts, result)" by (cases st)
  obtain pairs Q where I: "result = base @ numbered_instances attribute points (length base) pairs" "bt_inv starts" "pairs_ok points k pairs"
    "\<And>a. (case bt_get starts a of None \<Rightarrow> [] | Some q \<Rightarrow> q) = map (open_entry attribute points) (Q a)"
    "\<And>a. pair_starts points pairs a @ Q a = starts_of points k a"
    using inv unfolding lifecycle_inv_def st by auto
  let ?p = "points ! k" let ?a = "ep_activity (points ! k)"
  consider (start) "begins ?p" | (finish) "\<not> begins ?p" "finishes ?p" | (other) "\<not> begins ?p" "\<not> finishes ?p" by blast
  then show ?thesis
  proof cases
    case start
    let ?Q = "Q(?a := Q ?a @ [k])"
    have "(case bt_get (bt_push ?a (open_entry attribute points k) starts) a of None \<Rightarrow> [] | Some q \<Rightarrow> q) = map (open_entry attribute points) (?Q a)" for a
      using I(4) [of a] I(2) by (auto simp: bt_get_push)
    moreover have "pair_starts points pairs a @ ?Q a = starts_of points (Suc k) a" for a
      using I(5) [of a] start by (auto simp: starts_of_Suc)
    ultimately have "\<exists>pairs Q. result = base @ numbered_instances attribute points (length base) pairs \<and>
        bt_inv (bt_push ?a (open_entry attribute points k) starts) \<and> pairs_ok points (Suc k) pairs \<and>
        (\<forall>a. (case bt_get (bt_push ?a (open_entry attribute points k) starts) a of None \<Rightarrow> [] | Some q \<Rightarrow> q) = map (open_entry attribute points) (Q a) \<and>
        pair_starts points pairs a @ Q a = starts_of points (Suc k) a)"
      using I(1,2) pairs_ok_Suc [OF I(3)] by (intro exI [of _ pairs] exI [of _ ?Q]) (auto intro: bt_inv_push)
    then show ?thesis using start by (simp add: st lifecycle_step_def lifecycle_inv_def open_entry_def)
  next
    case other
    then show ?thesis using I pairs_ok_Suc [OF I(3)] by (auto simp: st lifecycle_step_def lifecycle_inv_def starts_of_Suc)
  next
    case finish
    show ?thesis
    proof (cases "Q ?a")
      case Nil
      then have "bt_get starts ?a = None \<or> bt_get starts ?a = Some []" using I(4) [of ?a] by (auto split: option.splits)
      then have "lifecycle_step attribute points (k, ?p) st = st" using finish by (auto simp: st lifecycle_step_def)
      then show ?thesis using I pairs_ok_Suc [OF I(3)] finish by (auto simp: st lifecycle_inv_def starts_of_Suc)
    next
      case (Cons j q)
      have get: "bt_get starts ?a = Some (open_entry attribute points j # map (open_entry attribute points) q)"
        using I(4) [of ?a] Cons by (auto split: option.splits)
      have j: "j < k" "begins (points ! j)" "ep_activity (points ! j) = ?a"
      proof -
        have "j \<in> set (starts_of points k ?a)" using I(5) [of ?a] Cons by (metis in_set_conv_decomp)
        then show "j < k" "begins (points ! j)" "ep_activity (points ! j) = ?a" by (auto simp: starts_of_def)
      qed
      have ts: "ep_timestamp (points ! j) \<le> ep_timestamp ?p" using srt j(1) k by (auto simp: sorted_iff_nth_mono)
      let ?Q = "Q(?a := q)" and ?pairs = "pairs @ [(j, k)]"
      have step: "lifecycle_step attribute points (k, ?p) st =
          (bt_insert ?a (map (open_entry attribute points) q) starts, result @ [paired attribute points (length result) (j, k)])"
        using finish get ts by (simp add: st lifecycle_step_def open_entry_def paired_def Let_def)
      have ok: "pairs_ok points (Suc k) ?pairs" using I(3) j finish by (auto simp: pairs_ok_def sorted_wrt_append)
      have queues: "(case bt_get (bt_insert ?a (map (open_entry attribute points) q) starts) a of None \<Rightarrow> [] | Some q \<Rightarrow> q) =
          map (open_entry attribute points) (?Q a)" for a
        using I(4) [of a] I(2) by (auto simp: bt_get_insert)
      have ps: "pair_starts points ?pairs a @ ?Q a = starts_of points (Suc k) a" for a
        using I(5) [of a] finish(1) Cons j(3) by (auto simp: pair_starts_def starts_of_Suc)
      have res: "result @ [paired attribute points (length result) (j, k)] = base @ numbered_instances attribute points (length base) ?pairs"
        by (simp add: I(1) numbered_snoc)
      show ?thesis unfolding step lifecycle_inv_def res prod.case
        using bt_inv_insert [OF I(2)] ok queues ps by blast
    qed
  qed
qed

lemma lifecycle_group_pairs:
  assumes "sorted (map ep_timestamp points)"
  shows "\<exists>pairs. lifecycle_group attribute points base = base @ numbered_instances attribute points (length base) pairs \<and>
    pairs_ok points (length points) pairs \<and>
    (\<forall>a. \<exists>n. pair_starts points pairs a = take n (starts_of points (length points) a))"
proof -
  have "lifecycle_inv attribute points base k (fold (lifecycle_step attribute points) (map (\<lambda>i. (i, points ! i)) [0..<k]) ([], base))"
    if "k \<le> length points" for k
    using that
  proof (induction k)
    case 0
    show ?case
      unfolding lifecycle_inv_def list.map fold.simps id_apply prod.case upt_0
      by (rule exI [of _ "[]"], rule exI [of _ "\<lambda>_. []"])
        (simp add: numbered_instances_def indexed_def pair_starts_def starts_of_def pairs_ok_def)
  next
    case (Suc k)
    then show ?case using lifecycle_inv_step [OF Suc.IH _ assms] by simp
  qed
  from this [OF order.refl] have "lifecycle_inv attribute points base (length points)
      (fold (lifecycle_step attribute points) (indexed points) ([], base))" by (simp add: indexed_map)
  then obtain pairs Q where "lifecycle_group attribute points base = base @ numbered_instances attribute points (length base) pairs"
    "pairs_ok points (length points) pairs" "\<And>a. pair_starts points pairs a @ Q a = starts_of points (length points) a"
    unfolding lifecycle_inv_def lifecycle_group_def by (auto simp: case_prod_unfold)
  moreover have "pair_starts points pairs a = take (length (pair_starts points pairs a)) (starts_of points (length points) a)" for a
    using calculation(3) [of a] by (metis append_eq_conv_conj)
  ultimately show ?thesis by blast
qed

definition timed_instance :: "activity_instance \<Rightarrow> bool" where
  "timed_instance x \<longleftrightarrow> ai_ready x \<le> ai_start x \<and> ai_start x \<le> ai_complete x"

definition instances_ok :: "activity_instance list \<Rightarrow> bool" where
  "instances_ok xs \<longleftrightarrow> map ai_id xs = [0..<length xs] \<and> (\<forall>x \<in> set xs. timed_instance x)"

lemma numbered_ids: "map ai_id (numbered_instances attribute points n pairs) = [n..<n + length pairs]"
  by (rule nth_equalityI) (simp_all add: numbered_instances_def indexed_map paired_def split_def)

lemma lifecycle_group_ok:
  assumes "sorted (map ep_timestamp points)" "instances_ok base"
  shows "instances_ok (lifecycle_group attribute points base)"
proof -
  obtain pairs where pairs: "lifecycle_group attribute points base = base @ numbered_instances attribute points (length base) pairs"
    "pairs_ok points (length points) pairs"
    using lifecycle_group_pairs [OF assms(1)] by blast
  have mono: "i \<le> j \<Longrightarrow> j < length points \<Longrightarrow> ep_timestamp (points ! i) \<le> ep_timestamp (points ! j)" for i j
    using assms(1) by (auto simp: sorted_iff_nth_mono)
  have "timed_instance (paired attribute points n (j, i))" if "(j, i) \<in> set pairs" for n j i
    using pairs(2) that mono [of "j - 1" j] mono [of j i] by (fastforce simp: pairs_ok_def timed_instance_def paired_def ready_at_def)
  then have "\<forall>x \<in> set (numbered_instances attribute points (length base) pairs). timed_instance x"
    by (auto simp: numbered_instances_def set_indexed) (metis nth_mem)
  moreover have "[0..<length base] @ [length base..<length base + length pairs] = [0..<length base + length pairs]"
    by (metis le0 upt_add_eq_append add_0)
  ultimately show ?thesis using assms(2) by (auto simp: instances_ok_def pairs(1) numbered_ids)
qed

lemma lifecycle_instances_ok: "instances_ok (lifecycle_instances observations attribute)"
proof -
  have "instances_ok (fold (\<lambda>(_, ordered). lifecycle_group attribute (bt_values ordered)) m base)"
    if "points_ok m" "instances_ok base" for m base
    using that
  proof (induction m arbitrary: base)
    case (Cons e m)
    have "sorted (map ep_timestamp (bt_values (snd e)))" by (rule ordered_timestamps) (use Cons.prems in \<open>simp add: points_ok_def\<close>)
    then have "instances_ok (lifecycle_group attribute (bt_values (snd e)) base)" using Cons.prems(2) by (rule lifecycle_group_ok)
    then show ?case using Cons by (simp add: points_ok_def case_prod_unfold)
  qed simp
  moreover have "instances_ok []" by (simp add: instances_ok_def)
  ultimately show ?thesis using observation_points_ok by (simp add: lifecycle_instances_def)
qed

text \<open>
  Lifecycle events are paired first in, first out: for each object, the starts that belong to an activity's instances are the
  first starts of that activity in the order of time, each completion comes after its start and closes one instance; the
  instances are numbered consecutively over all objects, and each is ready before it starts and starts before it completes.
\<close>

theorem lifecycle_fifo:
  "map ai_id (lifecycle_instances observations attribute) = [0..<length (lifecycle_instances observations attribute)] \<and>
   (\<forall>x \<in> set (lifecycle_instances observations attribute). ai_ready x \<le> ai_start x \<and> ai_start x \<le> ai_complete x) \<and>
   (\<forall>(ob, ordered) \<in> set (observation_points observations). \<forall>base. let points = bt_values ordered in
      \<exists>pairs. lifecycle_group attribute points base = base @ map (\<lambda>(n, p). paired attribute points (length base + n) p) (indexed pairs) \<and>
        (\<forall>(j, i) \<in> set pairs. j < i \<and> i < length points \<and> finishes (points ! i) \<and> ep_activity (points ! i) = ep_activity (points ! j)) \<and>
        sorted_wrt (<) (map snd pairs) \<and>
        (\<forall>a. \<exists>n. map fst (filter (\<lambda>p. ep_activity (points ! fst p) = a) pairs) =
          take n (filter (\<lambda>j. begins (points ! j) \<and> ep_activity (points ! j) = a) [0..<length points])))"
proof -
  have "sorted (map ep_timestamp (bt_values ordered))" if "(ob, ordered) \<in> set (observation_points observations)" for ob ordered
    by (rule ordered_timestamps) (use observation_points_ok that in \<open>force simp: points_ok_def\<close>)
  then show ?thesis
    using lifecycle_instances_ok [of observations attribute] lifecycle_group_pairs [of _ attribute]
    unfolding instances_ok_def timed_instance_def numbered_instances_def pairs_ok_def pair_starts_def starts_of_def Let_def by blast
qed

definition lifecycle_sample :: "bottleneck_observation list" where
  "lifecycle_sample =
    (let work = (\<lambda>i a. \<lparr>bo_object_id = 1, bo_object_type = ''order'', bo_source_event_id = i, bo_source_activity = ''pack'',
       bo_source_timestamp_nanos = int i, bo_source_lifecycle = Some a, bo_source_attributes = [], bo_target_event_id = i + 1,
       bo_target_activity = ''pack'', bo_target_timestamp_nanos = int i + 5, bo_target_lifecycle = Some ''Complete'', bo_target_attributes = []\<rparr>)
     in [work 1 ''Start''])"

lemma lifecycle_sample_run: "lifecycle_instances lifecycle_sample ''org'' =
    [\<lparr>ai_id = 0, ai_activity = ''pack'', ai_resource = [], ai_ready = 1, ai_start = 1, ai_complete = 6\<rparr>]"
  by code_simp

theorem lifecycle_fifo_witness: "\<exists>x \<in> set (lifecycle_instances lifecycle_sample ''org''). ai_start x \<le> ai_complete x"
  using lifecycle_fifo [of lifecycle_sample "''org''"] unfolding lifecycle_sample_run by simp

end
