(* ===== verification/Waiting.thy ===== *)
theory Waiting
  imports BottleneckData Fenwick Lifecycle
begin

text \<open>
  Waiting times of \<open>crates/ocpm-bottleneck/src/lib.rs\<close>: their causes, the pressure on resources and performance patterns,
  over the activity instances of \<open>Lifecycle\<close>. Hash maps from instances to values are partial functions. \<open>None\<close>
  is an index out of range or a walk that does not end.
\<close>

section \<open>Grouping\<close>

definition with_resource :: "activity_instance list \<Rightarrow> activity_instance list" where
  "with_resource instances = filter (\<lambda>x. ai_resource x \<noteq> []) instances"

definition group_key :: "activity_instance \<Rightarrow> string \<times> string" where
  "group_key x = (ai_activity x, ai_resource x)"

definition activity_groups :: "activity_instance list \<Rightarrow> (string \<times> string, activity_instance list) btree_map" where
  "activity_groups instances = fold (\<lambda>x. bt_push (group_key x) x) (with_resource instances) []"

definition resource_groups :: "activity_instance list \<Rightarrow> (string, activity_instance list) btree_map" where
  "resource_groups instances = fold (\<lambda>x. bt_push (ai_resource x) x) (with_resource instances) []"

section \<open>Batching\<close>

text \<open>The end of the cluster that begins before \<open>xs\<close>: starts at most a tolerance apart.\<close>

fun cluster_end :: "int \<Rightarrow> activity_instance \<Rightarrow> activity_instance list \<Rightarrow> activity_instance list \<times> activity_instance list" where
  "cluster_end tolerance prev [] = ([], [])"
| "cluster_end tolerance prev (x # xs) =
     (if i128_saturating_sub (ai_start x) (ai_start prev) \<le> tolerance
      then let (cluster, rest) = cluster_end tolerance x xs in (x # cluster, rest)
      else ([], x # xs))"

lemma cluster_end_length: "cluster_end tolerance prev xs = (c, r) \<Longrightarrow> length r \<le> length xs"
  by (induction tolerance prev xs arbitrary: c rule: cluster_end.induct) (fastforce split: if_splits prod.splits)+

function clusters :: "int \<Rightarrow> activity_instance list \<Rightarrow> activity_instance list list" where
  "clusters tolerance [] = []"
| "clusters tolerance (x # xs) = (let (cluster, rest) = cluster_end tolerance x xs in (x # cluster) # clusters tolerance rest)"
  by pat_completeness auto
termination by (relation "measure (\<lambda>(_, xs). length xs)") (auto dest!: cluster_end_length [OF sym] simp: le_imp_less_Suc)

definition cluster_delay :: "nat \<Rightarrow> activity_instance list \<Rightarrow> (nat \<rightharpoonup> f64) \<Rightarrow> (nat \<rightharpoonup> f64)" where
  "cluster_delay minimum_batch_size cluster delays =
    (if minimum_batch_size \<le> length cluster
     then let release = (case cluster of [] \<Rightarrow> 0 | x # xs \<Rightarrow> fold max (map ai_ready xs) (ai_ready x)) in
       fold (\<lambda>x m. m(ai_id x \<mapsto> f64_max (nanos_to_seconds (i128_saturating_sub release (ai_ready x))) f64_zero)) cluster delays
     else delays)"

definition batch_delays :: "activity_instance list \<Rightarrow> bottleneck_request \<Rightarrow> (nat \<rightharpoonup> f64)" where
  "batch_delays instances request =
    fold (\<lambda>(_, xs) delays. fold (cluster_delay (br_minimum_batch_size request))
      (clusters (seconds_to_nanos (br_batch_tolerance_seconds request)) (sort_key ai_start xs)) delays) (activity_groups instances) (\<lambda>_. None)"

section \<open>Overtaking\<close>

text \<open>The instances that start together, and the rest.\<close>

function start_runs :: "activity_instance list \<Rightarrow> activity_instance list list" where
  "start_runs [] = []"
| "start_runs (x # xs) = (x # takeWhile (\<lambda>y. ai_start y = ai_start x) xs) # start_runs (dropWhile (\<lambda>y. ai_start y = ai_start x) xs)"
  by pat_completeness auto
termination by (relation "measure length") (auto simp: le_imp_less_Suc length_dropWhile_le)

definition overtaken :: "int list \<Rightarrow> int list \<Rightarrow> activity_instance \<Rightarrow> (nat \<rightharpoonup> f64) \<Rightarrow> (nat \<rightharpoonup> f64) option" where
  "overtaken readies cells x output =
    (let upper = partition_point (\<lambda>ready. ready \<le> ai_ready x) readies in
     map_option (\<lambda>earliest. case earliest of None \<Rightarrow> output
       | Some start \<Rightarrow> output(ai_id x \<mapsto> f64_max (nanos_to_seconds (i128_saturating_sub (ai_start x) start)) f64_zero))
       (fenwick_minimum (length readies - upper) cells))"

definition record_start :: "int list \<Rightarrow> activity_instance \<Rightarrow> int list \<Rightarrow> int list option" where
  "record_start readies x cells =
    fenwick_minimum_insert (length readies - partition_point (\<lambda>ready. ready < ai_ready x) readies) (ai_start x) cells"

definition overtaking_run :: "int list \<Rightarrow> activity_instance list \<Rightarrow> int list \<times> (nat \<rightharpoonup> f64) \<Rightarrow> (int list \<times> (nat \<rightharpoonup> f64)) option" where
  "overtaking_run readies run = (\<lambda>(cells, output).
     Option.bind (fold_opt (overtaken readies cells) run output) (\<lambda>output.
     Option.bind (fold_opt (record_start readies) run cells) (\<lambda>cells. Some (cells, output))))"

definition overtaking_group :: "activity_instance list \<Rightarrow> (nat \<rightharpoonup> f64) \<Rightarrow> (nat \<rightharpoonup> f64) option" where
  "overtaking_group xs output =
    (let xs = sort_key (\<lambda>x. (ai_start x, ai_id x)) xs; readies = dedup_sorted (map ai_ready xs) in
     map_option snd (fold_opt (overtaking_run readies) (start_runs xs) (fenwick_minimum_new (length readies), output)))"

definition overtaking_delays :: "activity_instance list \<Rightarrow> (nat \<rightharpoonup> f64) option" where
  "overtaking_delays instances = fold_opt (\<lambda>(_, xs). overtaking_group xs) (resource_groups instances) (\<lambda>_. None)"

section \<open>Causes of waiting\<close>

definition busy_timelines :: "activity_instance list \<Rightarrow> (string, busy_timeline) btree_map" where
  "busy_timelines instances = map (\<lambda>(r, xs). (r, busy_timeline_new (map (\<lambda>x. (ai_start x, ai_complete x)) xs))) (resource_groups instances)"

definition value_or_zero :: "f64 option \<Rightarrow> f64" where
  "value_or_zero v = (case v of None \<Rightarrow> f64_zero | Some x \<Rightarrow> x)"

record wait_split =
  ws_total :: f64
  ws_batching :: f64
  ws_contention :: f64
  ws_overtaking :: f64
  ws_unavailable :: f64
  ws_remaining :: f64

text \<open>The shares of one wait: each is taken from what the previous ones left.\<close>

definition split_wait :: "f64 \<Rightarrow> f64 \<Rightarrow> f64 \<Rightarrow> f64 \<Rightarrow> f64 \<Rightarrow> wait_split" where
  "split_wait total_wait batch contended overtaken_for unavailable_for =
    (let remaining = total_wait; batching = f64_min batch remaining; remaining = f64_sub remaining batching;
         contention = f64_min contended remaining; remaining = f64_sub remaining contention;
         overtaking = f64_min overtaken_for remaining; remaining = f64_sub remaining overtaking;
         unavailable = f64_min unavailable_for remaining; remaining = f64_sub remaining unavailable
     in \<lparr>ws_total = total_wait, ws_batching = batching, ws_contention = contention, ws_overtaking = overtaking,
         ws_unavailable = unavailable, ws_remaining = remaining\<rparr>)"

definition wait_seconds :: "activity_instance \<Rightarrow> f64" where
  "wait_seconds x = f64_max (nanos_to_seconds (i128_saturating_sub (ai_start x) (ai_ready x))) f64_zero"

definition unavailable_seconds :: "bottleneck_request \<Rightarrow> activity_instance \<Rightarrow> f64" where
  "unavailable_seconds request x = value_or_zero (map_option (\<lambda>available.
     f64_max (f64_sub (wait_seconds x) (union_overlap_seconds (ai_ready x) (ai_start x)
       (map (\<lambda>i. (av_start_nanos i, av_end_nanos i)) available))) f64_zero) (bt_get (br_resource_calendars request) (ai_resource x)))"

definition contention_seconds :: "(string, busy_timeline) btree_map \<Rightarrow> activity_instance \<Rightarrow> f64 option" where
  "contention_seconds busy x = (case bt_get busy (ai_resource x) of None \<Rightarrow> Some f64_zero
     | Some timeline \<Rightarrow> overlap_seconds timeline (ai_ready x) (ai_start x))"

definition instance_wait :: "(string, busy_timeline) btree_map \<Rightarrow> (nat \<rightharpoonup> f64) \<Rightarrow> (nat \<rightharpoonup> f64) \<Rightarrow> bottleneck_request \<Rightarrow> activity_instance
    \<Rightarrow> wait_split option" where
  "instance_wait busy batch overtaking request x = map_option (\<lambda>contended.
     split_wait (wait_seconds x) (value_or_zero (batch (ai_id x))) contended (value_or_zero (overtaking (ai_id x))) (unavailable_seconds request x))
     (contention_seconds busy x)"

definition add_wait :: "activity_instance \<Rightarrow> wait_split \<Rightarrow> (string \<times> string, waiting_cause_attribution) btree_map
    \<Rightarrow> (string \<times> string, waiting_cause_attribution) btree_map" where
  "add_wait x w = bt_alter (group_key x) (\<lambda>e.
     let e = (case e of Some e \<Rightarrow> e | None \<Rightarrow> \<lparr>wc_activity = ai_activity x, wc_resource = ai_resource x, wc_support = 0,
       wc_total_wait_seconds = f64_zero, wc_batching_seconds = f64_zero, wc_prioritization_seconds = f64_zero,
       wc_contention_seconds = f64_zero, wc_unavailability_seconds = f64_zero, wc_extraneous_seconds = f64_zero\<rparr>) in
     e\<lparr>wc_support := wc_support e + 1, wc_total_wait_seconds := f64_add (wc_total_wait_seconds e) (ws_total w),
       wc_batching_seconds := f64_add (wc_batching_seconds e) (ws_batching w),
       wc_contention_seconds := f64_add (wc_contention_seconds e) (ws_contention w),
       wc_prioritization_seconds := f64_add (wc_prioritization_seconds e) (ws_overtaking w),
       wc_unavailability_seconds := f64_add (wc_unavailability_seconds e) (ws_unavailable w),
       wc_extraneous_seconds := f64_add (wc_extraneous_seconds e) (f64_max (ws_remaining w) f64_zero)\<rparr>)"

definition waiting_causes :: "activity_instance list \<Rightarrow> bottleneck_request \<Rightarrow> waiting_cause_attribution list option" where
  "waiting_causes instances request =
    (let batch = batch_delays instances request; busy = busy_timelines instances in
     Option.bind (overtaking_delays instances) (\<lambda>overtaking.
     map_option (\<lambda>grouped. filter (\<lambda>v. br_minimum_support request \<le> wc_support v) (bt_values grouped))
       (fold_opt (\<lambda>x grouped. map_option (\<lambda>w. add_wait x w grouped) (instance_wait busy batch overtaking request x))
         (with_resource instances) [])))"

section \<open>Resource pressure\<close>

definition trunc_div :: "int \<Rightarrow> int \<Rightarrow> int" where
  "trunc_div a b = (if 0 \<le> a then a div b else - ((- a) div b))"

definition waiting_count :: "activity_instance list \<Rightarrow> int \<Rightarrow> int" where
  "waiting_count xs t = int (length (filter (\<lambda>x. ai_ready x \<le> t \<and> t < ai_start x) xs))"

definition group_pressure :: "string \<Rightarrow> string \<Rightarrow> activity_instance list \<Rightarrow> resource_pressure_result option" where
  "group_pressure activity resource xs =
    (let first = fold min (map ai_ready (tl xs)) (ai_ready (hd xs)); lst = fold max (map ai_complete (tl xs)) (ai_complete (hd xs));
         waits = sort_by f64_total_le (map wait_seconds xs);
         services = map (\<lambda>x. f64_max (nanos_to_seconds (i128_saturating_sub (ai_complete x) (ai_start x))) f64_zero) xs;
         span = i128_saturating_sub lst first;
         early = i128_saturating_add first (trunc_div span 4);
         late = i128_saturating_add first (trunc_div (i128_saturating_mul span 3) 4);
         backlog = waiting_count xs late - waiting_count xs early;
         midpoint = i128_saturating_add first (trunc_div span 2);
         half_hours = f64_max (f64_div (nanos_to_seconds (i128_saturating_sub lst midpoint)) (F_fin 3600)) (f64_div f64_one (F_fin 3600));
         arrival = f64_div (f64_of_nat (length (filter (\<lambda>x. midpoint \<le> ai_ready x) xs))) half_hours;
         throughput = f64_div (f64_of_nat (length (filter (\<lambda>x. midpoint \<le> ai_complete x \<and> ai_complete x \<le> lst) xs))) half_hours
     in Option.bind (overlap_seconds (busy_timeline_new (map (\<lambda>x. (ai_start x, ai_complete x)) xs)) first lst) (\<lambda>busy.
        Option.bind (sample_quantile waits (f64_lit (95 / 100))) (\<lambda>p95.
        Some \<lparr>rp_activity = activity, rp_resource = resource, rp_support = length xs, rp_arrival_rate_per_hour = arrival,
          rp_throughput_per_hour = throughput,
          rp_utilization = f64_clamp f64_zero f64_one (f64_div busy (f64_max (nanos_to_seconds (i128_saturating_sub lst first)) (F_fin (1 / 2 ^ 52)))),
          rp_mean_wait_seconds = sample_mean waits, rp_p95_wait_seconds = p95, rp_mean_service_seconds = sample_mean services,
          rp_maximum_queue = maximum_queue (map (\<lambda>x. (ai_ready x, ai_start x)) xs), rp_backlog_delta = backlog,
          rp_unstable = (f64_lt (f64_mul throughput (f64_lit (101 / 100))) arrival \<or> 0 < backlog)\<rparr>)))"

definition resource_pressure :: "activity_instance list \<Rightarrow> nat \<Rightarrow> resource_pressure_result list option" where
  "resource_pressure instances minimum_support =
    those (map (\<lambda>((activity, resource), xs). group_pressure activity resource xs)
      (filter (\<lambda>(_, xs). minimum_support \<le> length xs \<and> xs \<noteq> []) (activity_groups instances)))"

section \<open>Patterns\<close>

text \<open>How many instances lie in clusters of at least the batch size: the members so far and the open cluster.\<close>

definition batch_step :: "int \<Rightarrow> nat \<Rightarrow> activity_instance \<times> activity_instance \<Rightarrow> nat \<times> nat \<Rightarrow> nat \<times> nat" where
  "batch_step tolerance minimum_batch_size = (\<lambda>(a, b) (batched, cluster).
     if i128_saturating_sub (ai_start b) (ai_start a) \<le> tolerance then (batched, cluster + 1)
     else (if minimum_batch_size \<le> cluster then batched + cluster else batched, 1))"

definition batched_count :: "int \<Rightarrow> nat \<Rightarrow> activity_instance list \<Rightarrow> nat" where
  "batched_count tolerance minimum_batch_size xs =
    (let (batched, cluster) = fold (batch_step tolerance minimum_batch_size) (windows2 xs) (0, 1)
     in if minimum_batch_size \<le> cluster then batched + cluster else batched)"

definition group_pattern :: "bottleneck_request \<Rightarrow> string \<Rightarrow> string \<Rightarrow> activity_instance list \<Rightarrow> performance_pattern option" where
  "group_pattern request activity resource xs =
    (let xs = sort_key ai_start xs;
         batched = batched_count (seconds_to_nanos (br_batch_tolerance_seconds request)) (br_minimum_batch_size request) xs;
         pairs = u64_saturating_mul (length xs) (length xs - 1) div 2;
         interarrival = map (\<lambda>(a, b). f64_abs (nanos_to_seconds (i128_saturating_sub (ai_ready b) (ai_ready a)))) (windows2 xs);
         average = sample_mean interarrival; deviation = standard_deviation interarrival average;
         burstiness = (if f64_lt f64_zero (f64_add deviation average)
           then f64_div (f64_sub deviation average) (f64_add deviation average) else f64_zero)
     in map_option (\<lambda>overtakes. \<lparr>pp_activity = activity, pp_resource = resource, pp_support = length xs,
          pp_batch_rate = f64_div (f64_of_nat batched) (f64_of_nat (length xs)),
          pp_overtaking_rate = (if pairs = 0 then f64_zero else f64_div (f64_of_nat overtakes) (f64_of_nat pairs)),
          pp_burstiness = burstiness\<rparr>) (inversion_count (map ai_ready xs)))"

definition performance_patterns :: "activity_instance list \<Rightarrow> bottleneck_request \<Rightarrow> performance_pattern list option" where
  "performance_patterns instances request =
    those (map (\<lambda>((activity, resource), xs). group_pattern request activity resource xs)
      (filter (\<lambda>(_, xs). br_minimum_support request \<le> length xs) (activity_groups instances)))"

section \<open>Overtaking, as a specification\<close>

text \<open>The instances that started before \<open>x\<close> although they were ready later, and the wait since the first of them.\<close>

definition overtakers :: "activity_instance set \<Rightarrow> activity_instance \<Rightarrow> activity_instance set" where
  "overtakers X x = {y \<in> X. ai_resource y = ai_resource x \<and> ai_start y < ai_start x \<and> ai_ready x < ai_ready y}"

definition overtaking_delay :: "activity_instance set \<Rightarrow> activity_instance \<Rightarrow> f64 option" where
  "overtaking_delay X x = (if overtakers X x = {} then None
     else Some (f64_max (nanos_to_seconds (i128_saturating_sub (ai_start x) (Min (ai_start ` overtakers X x)))) f64_zero))"

definition put_delay :: "activity_instance set \<Rightarrow> activity_instance \<Rightarrow> (nat \<rightharpoonup> f64) \<Rightarrow> (nat \<rightharpoonup> f64)" where
  "put_delay X x m = (case overtaking_delay X x of None \<Rightarrow> m | Some d \<Rightarrow> m(ai_id x \<mapsto> d))"

definition ready_position :: "int list \<Rightarrow> activity_instance \<Rightarrow> nat" where
  "ready_position readies x = length readies - partition_point (\<lambda>ready. ready < ai_ready x) readies"

definition recorded :: "int list \<Rightarrow> activity_instance list \<Rightarrow> (nat \<times> int) list" where
  "recorded readies ys = map (\<lambda>y. (ready_position readies y, ai_start y)) ys"

lemma position_above:
  assumes "sorted xs" "v \<in> set xs"
  shows "length xs - partition_point (\<lambda>x. x < v) xs \<le> length xs - partition_point (\<lambda>x. x \<le> u) xs \<longleftrightarrow> u < (v :: int)"
proof -
  have le: "(\<lambda>x. x \<le> u) = (\<lambda>x. x < u + 1)" by (simp add: fun_eq_iff zless_add1_eq order_le_less)
  have "length xs - partition_point (\<lambda>x. x < v) xs \<le> length xs - partition_point (\<lambda>x. x \<le> u) xs \<longleftrightarrow>
      partition_point (\<lambda>x. x \<le> u) xs \<le> partition_point (\<lambda>x. x < v) xs"
    using position_less [OF assms] partition_point_le [of "\<lambda>x. x \<le> u" xs] by linarith
  also have "\<dots> \<longleftrightarrow> u + 1 \<le> v" unfolding le by (rule position_le_iff [OF assms])
  finally show ?thesis by linarith
qed

lemma recorded_later:
  assumes "sorted readies" "ai_ready ` set ys \<subseteq> set readies"
  shows "stored (\<lambda>p. 0 < p \<and> p \<le> length readies - partition_point (\<lambda>ready. ready \<le> ai_ready x) readies) (recorded readies ys) =
    map ai_start (filter (\<lambda>y. ai_ready x < ai_ready y) ys)"
  using assms(2)
proof (induction ys)
  case (Cons y ys)
  have y: "ai_ready y \<in> set readies" using Cons.prems by simp
  have "0 < ready_position readies y" using position_less [OF assms(1) y] by (simp add: ready_position_def)
  then show ?case using Cons position_above [OF assms(1) y, of "ai_ready x"] by (simp add: stored_def recorded_def ready_position_def)
qed (simp add: stored_def recorded_def)

lemma overtaken_put:
  assumes "minima.holds cells (recorded readies ys)" "length cells = length readies + 1" "length cells \<le> 2 ^ 63"
    "sorted readies" "ai_ready ` set ys \<subseteq> set readies" "ai_start x \<le> i128_max"
    "overtakers X x = {y \<in> set ys. ai_ready x < ai_ready y}" "\<forall>y \<in> set ys. ai_start y < ai_start x"
  shows "overtaken readies cells x output = Some (put_delay X x output)"
proof -
  let ?later = "map ai_start (filter (\<lambda>y. ai_ready x < ai_ready y) ys)"
  have set: "set ?later = ai_start ` overtakers X x" using assms(7) by auto
  have q: "fenwick_query min (length readies - partition_point (\<lambda>ready. ready \<le> ai_ready x) readies) cells i128_max =
      Some (Min (insert i128_max (set ?later)))"
    by (subst minima.query_new [OF assms(1) _ assms(3)]) (simp_all add: assms(2) recorded_later [OF assms(4,5)] fold_put_min)
  show ?thesis
  proof (cases "overtakers X x = {}")
    case True
    then have "?later = []" using set by (simp only: image_empty set_empty)
    then show ?thesis using q True by (simp add: overtaken_def fenwick_minimum_def put_delay_def overtaking_delay_def)
  next
    case False
    have fin: "finite (ai_start ` overtakers X x)" "ai_start ` overtakers X x \<noteq> {}" using False set by (metis List.finite_set, simp)
    have "Min (ai_start ` overtakers X x) \<in> ai_start ` overtakers X x" using fin by (rule Min_in)
    then have "Min (ai_start ` overtakers X x) < i128_max" using assms(6,7,8) by fastforce
    moreover have "Min (insert i128_max (set ?later)) = min i128_max (Min (ai_start ` overtakers X x))"
      unfolding set using fin by (rule Min_insert)
    ultimately show ?thesis
      using q False by (simp add: overtaken_def fenwick_minimum_def put_delay_def overtaking_delay_def)
  qed
qed

lemma record_holds:
  assumes "minima.holds cells (recorded readies ys)" "length cells = length readies + 1" "length cells \<le> 2 ^ 63"
    "sorted readies" "ai_ready ` set xs \<subseteq> set readies"
  shows "\<exists>cells'. fold_opt (record_start readies) xs cells = Some cells' \<and> length cells' = length cells \<and>
    minima.holds cells' (recorded readies (ys @ xs))"
  using assms(1-3,5)
proof (induction xs arbitrary: cells ys)
  case (Cons x xs)
  have p: "0 < ready_position readies x" using position_less [OF assms(4), of "ai_ready x"] Cons.prems(4) by (simp add: ready_position_def)
  have small: "ready_position readies x < 2 ^ 64"
    by (rule le_less_trans [of _ "length readies"]) (use Cons.prems(2,3) in \<open>auto simp: ready_position_def\<close>)
  obtain cells' where cells': "fenwick_update (put_min (ai_start x)) (ready_position readies x) cells = Some cells'"
    "length cells' = length cells" "minima.holds cells' (recorded readies ys @ [(ready_position readies x, ai_start x)])"
    using minima.update_holds [OF Cons.prems(1) p small Cons.prems(3)] by blast
  have put: "put_min (ai_start x) = (\<lambda>c. min c (ai_start x))" by (simp add: put_min_def fun_eq_iff)
  have "minima.holds cells' (recorded readies (ys @ [x]))" using cells'(3) by (simp add: recorded_def)
  then obtain cells'' where "fold_opt (record_start readies) xs cells' = Some cells''" "length cells'' = length cells'"
    "minima.holds cells'' (recorded readies ((ys @ [x]) @ xs))"
    using Cons.IH [of cells' "ys @ [x]"] cells'(2) Cons.prems by auto
  moreover have "record_start readies x cells = Some cells'"
    using cells'(1) unfolding record_start_def fenwick_minimum_insert_def ready_position_def put .
  ultimately show ?case using cells'(2) by simp
qed auto

lemma overtaking_runs:
  assumes "minima.holds cells (recorded readies ys)" "length cells = length readies + 1" "length cells \<le> 2 ^ 63" "sorted readies"
    "ai_ready ` set (ys @ xs) \<subseteq> set readies" "\<forall>x \<in> set xs. ai_start x \<le> i128_max" "sorted (map ai_start xs)"
    "\<forall>y \<in> set ys. \<forall>x \<in> set xs. ai_start y < ai_start x" "\<forall>x \<in> set xs. \<forall>y \<in> set (ys @ xs). ai_resource y = ai_resource x"
  shows "\<exists>cells'. fold_opt (overtaking_run readies) (start_runs xs) (cells, m) = Some (cells', fold (put_delay (set (ys @ xs))) xs m)"
  using assms
proof (induction xs arbitrary: cells ys m rule: start_runs.induct)
  case (2 x xs)
  let ?same = "\<lambda>y. ai_start y = ai_start x"
  let ?run = "x # takeWhile ?same xs" and ?rest = "dropWhile ?same xs"
  have split: "x # xs = ?run @ ?rest" by simp
  have run: "ai_start z = ai_start x" if "z \<in> set ?run" for z using that by (auto dest: set_takeWhileD)
  have least: "ai_start x \<le> ai_start z" if "z \<in> set (x # xs)" for z using that "2.prems"(7) by auto
  have "sorted (map ai_start ?run @ map ai_start ?rest)" using "2.prems"(7) by (subst map_append [symmetric]) (simp only: split [symmetric])
  then have sorted_rest: "sorted (map ai_start ?rest)" by (simp only: sorted_append)
  have rest: "ai_start x < ai_start z" if "z \<in> set ?rest" for z
  proof (cases ?rest)
    case (Cons r rs)
    then have "\<not> ?same r" using hd_dropWhile [of ?same xs] by simp
    moreover have "r \<in> set xs" using Cons by (metis list.set_intros(1) set_dropWhileD)
    ultimately have "ai_start x < ai_start r" using least [of r] by simp
    moreover have "sorted (map ai_start ?rest)" using sorted_rest .
    ultimately show ?thesis using that unfolding Cons by fastforce
  next
    case Nil
    then show ?thesis using that by (metis empty_iff list.set(1))
  qed
  have X: "overtakers (set (ys @ x # xs)) z = {y \<in> set ys. ai_ready z < ai_ready y}" if "z \<in> set ?run" for z
  proof -
    have z: "z \<in> set (x # xs)" using that by (auto dest: set_takeWhileD)
    show ?thesis using run [OF that] least z "2.prems"(8,9) unfolding overtakers_def by fastforce
  qed
  have queries: "fold_opt (overtaken readies cells) ?run m = Some (fold (put_delay (set (ys @ x # xs))) ?run m)"
  proof (rule fold_opt_pure)
    fix z s assume z: "z \<in> set ?run"
    then have "z \<in> set (x # xs)" by (auto dest: set_takeWhileD)
    then show "overtaken readies cells z s = Some (put_delay (set (ys @ x # xs)) z s)"
      by (intro overtaken_put [OF "2.prems"(1-4) _ _ X [OF z]]) (use "2.prems"(5,6,8) in auto)
  qed
  have "ai_ready ` set ?run \<subseteq> set readies" using "2.prems"(5) by (auto dest: set_takeWhileD)
  then obtain cells' where cells': "fold_opt (record_start readies) ?run cells = Some cells'" "length cells' = length cells"
    "minima.holds cells' (recorded readies (ys @ ?run))"
    using record_holds [OF "2.prems"(1-4)] by blast
  have step: "overtaking_run readies ?run (cells, m) = Some (cells', fold (put_delay (set (ys @ x # xs))) ?run m)"
    unfolding overtaking_run_def prod.case queries bind.bind_lunit cells'(1) ..
  have "\<exists>cells''. fold_opt (overtaking_run readies) (start_runs ?rest) (cells', fold (put_delay (set (ys @ x # xs))) ?run m) =
      Some (cells'', fold (put_delay (set ((ys @ ?run) @ ?rest))) ?rest (fold (put_delay (set (ys @ x # xs))) ?run m))"
  proof (rule "2.IH" [OF cells'(3)])
    show "length cells' = length readies + 1" "length cells' \<le> 2 ^ 63" using "2.prems"(2,3) cells'(2) by simp_all
    show "sorted readies" by (rule "2.prems"(4))
    show "ai_ready ` set ((ys @ ?run) @ ?rest) \<subseteq> set readies" using "2.prems"(5) by (auto dest: set_takeWhileD set_dropWhileD)
    show "\<forall>z \<in> set ?rest. ai_start z \<le> i128_max" using "2.prems"(6) by (auto dest: set_dropWhileD)
    show "sorted (map ai_start ?rest)" by (rule sorted_rest)
    show "\<forall>y \<in> set (ys @ ?run). \<forall>z \<in> set ?rest. ai_start y < ai_start z"
    proof (intro ballI)
      fix y z assume y: "y \<in> set (ys @ ?run)" and z: "z \<in> set ?rest"
      have "z \<in> set (x # xs)" using z by (metis set_dropWhileD list.set_intros(2))
      then show "ai_start y < ai_start z" using y "2.prems"(8) run [of y] rest [OF z] by (metis Un_iff set_append)
    qed
    show "\<forall>z \<in> set ?rest. \<forall>y \<in> set ((ys @ ?run) @ ?rest). ai_resource y = ai_resource z"
    proof (intro ballI)
      fix y z assume z: "z \<in> set ?rest" and y: "y \<in> set ((ys @ ?run) @ ?rest)"
      have "z \<in> set (x # xs)" using z by (metis set_dropWhileD list.set_intros(2))
      moreover have "y \<in> set (ys @ x # xs)" using y by (simp only: append_assoc split [symmetric])
      ultimately show "ai_resource y = ai_resource z" using "2.prems"(9) by metis
    qed
  qed
  moreover have "(ys @ ?run) @ ?rest = ys @ x # xs" by simp
  moreover have "fold f (x # xs) m = fold f ?rest (fold f ?run m)" for f :: "activity_instance \<Rightarrow> (nat \<rightharpoonup> f64) \<Rightarrow> _"
  proof -
    have "fold f (?run @ ?rest) m = fold f ?rest (fold f ?run m)" by (simp only: fold_append comp_apply)
    then show ?thesis by (simp only: split [symmetric])
  qed
  ultimately show ?case using step by (simp only: start_runs.simps fold_opt.simps bind.bind_lunit)
qed simp

lemma put_delay_frame: "ai_id x \<noteq> i \<Longrightarrow> put_delay X x m i = m i"
  by (simp add: put_delay_def split: option.splits)

lemma fold_put_delay:
  assumes "distinct (map ai_id xs)" "\<forall>x \<in> set xs. m (ai_id x) = None"
  shows "x \<in> set xs \<Longrightarrow> fold (put_delay X) xs m (ai_id x) = overtaking_delay X x"
    and "i \<notin> ai_id ` set xs \<Longrightarrow> fold (put_delay X) xs m i = m i"
proof -
  show frame: "i \<notin> ai_id ` set xs \<Longrightarrow> fold (put_delay X) xs m i = m i" for xs m i
    by (induction xs arbitrary: m) (auto simp: put_delay_frame)
  show "x \<in> set xs \<Longrightarrow> fold (put_delay X) xs m (ai_id x) = overtaking_delay X x"
    using assms
  proof (induction xs arbitrary: m)
    case (Cons y xs)
    show ?case
    proof (cases "x = y")
      case True
      then have "ai_id x \<notin> ai_id ` set xs" using Cons.prems(2) by auto
      moreover have "put_delay X y m (ai_id y) = overtaking_delay X y" using Cons.prems(3) by (simp add: put_delay_def split: option.splits)
      ultimately show ?thesis using frame [of "ai_id x" xs] True by simp
    next
      case False
      have "\<forall>z \<in> set xs. put_delay X y m (ai_id z) = None"
      proof
        fix z assume "z \<in> set xs"
        then show "put_delay X y m (ai_id z) = None" using Cons.prems(2,3) by (subst put_delay_frame) auto
      qed
      then show ?thesis using Cons False by simp
    qed
  qed simp
qed

lemma overtaking_group_delays:
  assumes "length xs < 2 ^ 63" "\<forall>x \<in> set xs. ai_start x \<le> i128_max" "\<forall>x \<in> set xs. ai_resource x = r"
  shows "\<exists>ys. mset ys = mset xs \<and> overtaking_group xs output = Some (fold (put_delay (set xs)) ys output)"
proof -
  let ?ys = "sort_key (\<lambda>x. (ai_start x, ai_id x)) xs" and ?readies = "dedup_sorted (map ai_ready (sort_key (\<lambda>x. (ai_start x, ai_id x)) xs))"
  have len: "length ?readies < 2 ^ 63"
    by (rule le_less_trans [OF dedup_sorted_props(3)]) (use assms(1) in simp)
  have "sorted (map fst (map (\<lambda>x. (ai_start x, ai_id x)) ?ys))"
    by (rule sorted_map_mono [OF sorted_sort_key]) (auto simp: less_eq_prod_def mono_on_def)
  then have "sorted (map ai_start ?ys)" by (simp add: comp_def)
  moreover have "minima.holds (fenwick_minimum_new (length ?readies)) (recorded ?readies [])"
    unfolding fenwick_minimum_new_def recorded_def list.map by (rule minima.holds_new)
  ultimately have "\<exists>cells'. fold_opt (overtaking_run ?readies) (start_runs ?ys) (fenwick_minimum_new (length ?readies), output) =
      Some (cells', fold (put_delay (set ([] @ ?ys))) ?ys output)"
    by (intro overtaking_runs) (use len assms dedup_sorted_props(1,2) [of "map ai_ready ?ys"] in \<open>auto simp: fenwick_minimum_new_def\<close>)
  then show ?thesis by (intro exI [of _ ?ys]) (auto simp: overtaking_group_def Let_def)
qed

lemma overtaking_delay_group:
  assumes "x \<in> set xs" "xs = filter (\<lambda>x. ai_resource x = r) (with_resource instances)"
  shows "overtaking_delay (set xs) x = overtaking_delay (set instances) x"
proof -
  have "overtakers (set xs) x = overtakers (set instances) x" using assms by (auto simp: overtakers_def with_resource_def)
  then show ?thesis by (simp add: overtaking_delay_def)
qed

lemma overtaking_groups_delays:
  assumes "\<forall>(r, xs) \<in> set es. xs = filter (\<lambda>x. ai_resource x = r) (with_resource instances)" "distinct (map fst es)"
    "length instances < 2 ^ 63" "\<forall>x \<in> set instances. ai_start x \<le> i128_max" "distinct (map ai_id instances)"
    "\<forall>x \<in> set instances. ai_resource x \<in> fst ` set es \<longrightarrow> m (ai_id x) = None"
  shows "\<exists>m'. fold_opt (\<lambda>(_, xs). overtaking_group xs) es m = Some m' \<and>
    (\<forall>x \<in> set instances. m' (ai_id x) = (if ai_resource x \<noteq> [] \<and> ai_resource x \<in> fst ` set es then overtaking_delay (set instances) x else m (ai_id x)))"
  using assms(1,2,6)
proof (induction es arbitrary: m)
  case (Cons e es)
  obtain r xs where e: "e = (r, xs)" by (cases e)
  have xs: "xs = filter (\<lambda>x. ai_resource x = r) (with_resource instances)" using Cons.prems(1) e by simp
  have sub: "set xs \<subseteq> set instances" "\<forall>x \<in> set xs. ai_resource x = r" "\<forall>x \<in> set xs. ai_resource x \<noteq> []"
    unfolding xs with_resource_def by auto
  have len: "length xs < 2 ^ 63"
    by (rule le_less_trans [OF _ assms(3)]) (simp add: xs with_resource_def le_trans [OF length_filter_le length_filter_le])
  have inj: "x = y" if "x \<in> set instances" "y \<in> set instances" "ai_id x = ai_id y" for x y
    using assms(5) that by (meson distinct_map inj_onD)
  have starts: "\<forall>x \<in> set xs. ai_start x \<le> i128_max" using sub(1) assms(4) by blast
  obtain ys where ys: "mset ys = mset xs" "overtaking_group xs m = Some (fold (put_delay (set xs)) ys m)"
    using overtaking_group_delays [OF len starts sub(2), of m] by blast
  let ?m = "fold (put_delay (set xs)) ys m"
  have set_ys: "set ys = set xs" using ys(1) by (rule mset_eq_setD)
  have dist: "distinct (map ai_id ys)"
  proof -
    have "distinct (map ai_id xs)" unfolding xs with_resource_def filter_filter using assms(5) by (rule distinct_map_filter)
    then show ?thesis using ys(1) by (metis mset_map mset_eq_imp_distinct_iff)
  qed
  have new: "\<forall>x \<in> set ys. m (ai_id x) = None" using Cons.prems(3) e sub set_ys by auto
  have here: "?m (ai_id x) = overtaking_delay (set instances) x" if "x \<in> set xs" for x
    using fold_put_delay(1) [OF dist new, of x] overtaking_delay_group [OF that xs] that set_ys by simp
  have there: "?m (ai_id x) = m (ai_id x)" if "x \<in> set instances" "x \<notin> set xs" for x
    by (rule fold_put_delay(2) [OF dist new]) (use inj [OF that(1)] that sub(1) set_ys in blast)
  have in_xs: "x \<in> set xs \<longleftrightarrow> ai_resource x \<noteq> [] \<and> ai_resource x = r" if "x \<in> set instances" for x
    using that by (auto simp: xs with_resource_def)
  have notin: "r \<notin> fst ` set es" using Cons.prems(2) e by simp
  have "\<forall>x \<in> set instances. ai_resource x \<in> fst ` set es \<longrightarrow> ?m (ai_id x) = None"
    using Cons.prems(3) there in_xs notin e by (metis image_insert insert_iff list.simps(15))
  then obtain m' where m': "fold_opt (\<lambda>(_, xs). overtaking_group xs) es ?m = Some m'"
    "\<forall>x \<in> set instances. m' (ai_id x) =
      (if ai_resource x \<noteq> [] \<and> ai_resource x \<in> fst ` set es then overtaking_delay (set instances) x else ?m (ai_id x))"
    using Cons.IH [of ?m] Cons.prems(1,2) by auto
  have "\<forall>x \<in> set instances. m' (ai_id x) =
      (if ai_resource x \<noteq> [] \<and> ai_resource x \<in> fst ` set (e # es) then overtaking_delay (set instances) x else m (ai_id x))"
    using m'(2) here there in_xs notin e by (metis fst_conv image_insert insert_iff list.simps(15))
  then show ?case using m'(1) ys(2) e by simp
qed simp

lemma overtaking_delays_values:
  assumes "length instances < 2 ^ 63" "\<forall>x \<in> set instances. ai_start x \<le> i128_max" "distinct (map ai_id instances)"
  shows "\<exists>m. overtaking_delays instances = Some m \<and>
    (\<forall>x \<in> set instances. m (ai_id x) = (if ai_resource x = [] then None else overtaking_delay (set instances) x))"
proof -
  have groups: "\<forall>(r, xs) \<in> set (resource_groups instances). xs = filter (\<lambda>x. ai_resource x = r) (with_resource instances)"
    using fold_push_in [where key = ai_resource and val = "\<lambda>x. x" and xs = "with_resource instances"] by (auto simp: resource_groups_def)
  have dist: "distinct (map fst (resource_groups instances))"
    using bt_inv_distinct [OF inv_fold_push [where val = "\<lambda>x. x"]] by (simp add: resource_groups_def)
  have keys: "ai_resource x \<in> fst ` set (resource_groups instances)" if "x \<in> set instances" "ai_resource x \<noteq> []" for x
  proof -
    have "x \<in> set (with_resource instances)" using that by (simp add: with_resource_def)
    then have "(ai_resource x, filter (\<lambda>y. ai_resource y = ai_resource x) (with_resource instances)) \<in> set (resource_groups instances)"
      using fold_push_in [where key = ai_resource and val = "\<lambda>x. x" and xs = "with_resource instances"] by (auto simp: resource_groups_def)
    then show ?thesis by force
  qed
  obtain m where m: "overtaking_delays instances = Some m"
    "\<forall>x \<in> set instances. m (ai_id x) = (if ai_resource x \<noteq> [] \<and> ai_resource x \<in> fst ` set (resource_groups instances)
      then overtaking_delay (set instances) x else None)"
    using overtaking_groups_delays [OF groups dist assms, of "\<lambda>_. None"] by (auto simp: overtaking_delays_def)
  then show ?thesis using keys by auto
qed

section \<open>Clusters\<close>

lemma batched_clusters:
  "(let (batched, cluster) = fold (batch_step tolerance m) (windows2 (x # xs)) (b, n) in if m \<le> cluster then batched + cluster else batched) =
    b + (let (c, rest) = cluster_end tolerance x xs in (if m \<le> n + length c then n + length c else 0) +
      sum_list (map length (filter (\<lambda>c. m \<le> length c) (clusters tolerance rest))))"
proof (induction xs arbitrary: x b n)
  case (Cons y ys)
  show ?case
  proof (cases "i128_saturating_sub (ai_start y) (ai_start x) \<le> tolerance")
    case True
    then have "fold (batch_step tolerance m) (windows2 (x # y # ys)) (b, n) = fold (batch_step tolerance m) (windows2 (y # ys)) (b, n + 1)"
      by (simp add: batch_step_def)
    then show ?thesis using Cons.IH [of y b "n + 1"] True by (auto split: prod.splits)
  next
    case False
    then have "fold (batch_step tolerance m) (windows2 (x # y # ys)) (b, n) =
        fold (batch_step tolerance m) (windows2 (y # ys)) (if m \<le> n then b + n else b, 1)" by (simp add: batch_step_def)
    then show ?thesis using Cons.IH [of y "if m \<le> n then b + n else b" 1] False by (auto split: prod.splits)
  qed
qed simp

lemma concat_clusters: "concat (clusters tolerance xs) = xs"
proof -
  have "cluster_end tolerance x xs = (c, r) \<Longrightarrow> c @ r = xs" for tolerance x xs c r
    by (induction tolerance x xs arbitrary: c rule: cluster_end.induct) (auto split: if_splits prod.splits)
  then show ?thesis by (induction tolerance xs rule: clusters.induct) (auto split: prod.splits)
qed

lemma clusters_within: "\<forall>c \<in> set (clusters tolerance xs). c \<noteq> [] \<and> (\<forall>(a, b) \<in> set (windows2 c). i128_saturating_sub (ai_start b) (ai_start a) \<le> tolerance)"
proof -
  have within: "cluster_end tolerance x xs = (c, r) \<Longrightarrow> \<forall>(a, b) \<in> set (windows2 (x # c)). i128_saturating_sub (ai_start b) (ai_start a) \<le> tolerance" for tolerance x xs c r
    by (induction tolerance x xs arbitrary: c rule: cluster_end.induct) (auto split: if_splits prod.splits)
  show ?thesis
  proof (induction tolerance xs rule: clusters.induct)
    case (2 tolerance x xs)
    obtain c r where split: "cluster_end tolerance x xs = (c, r)" by fastforce
    then show ?case using 2 [OF split [symmetric] refl] within [OF split] by simp
  qed simp
qed

lemma clusters_apart: "\<forall>(c, d) \<in> set (windows2 (clusters tolerance xs)). tolerance < i128_saturating_sub (ai_start (hd d)) (ai_start (last c))"
proof -
  have apart: "cluster_end tolerance x xs = (c, y # r) \<Longrightarrow> tolerance < i128_saturating_sub (ai_start y) (ai_start (last (x # c)))" for tolerance x xs c y r
    by (induction tolerance x xs arbitrary: c rule: cluster_end.induct) (auto split: if_splits prod.splits)
  show ?thesis
  proof (induction tolerance xs rule: clusters.induct)
    case (2 tolerance x xs)
    obtain c r where split: "cluster_end tolerance x xs = (c, r)" by fastforce
    have ih: "\<forall>(c, d) \<in> set (windows2 (clusters tolerance r)). tolerance < i128_saturating_sub (ai_start (hd d)) (ai_start (last c))"
      by (rule 2 [OF split [symmetric] refl])
    show ?case
    proof (cases r)
      case (Cons y ys)
      obtain c' r' where "cluster_end tolerance y ys = (c', r')" by fastforce
      then have "clusters tolerance r = (y # c') # clusters tolerance r'" using Cons by simp
      then show ?thesis using split ih apart [OF split [unfolded Cons]] by simp
    qed (use split in simp)
  qed simp
qed

text \<open>
  The two readings of batching agree: the clusters of the waiting causes cut the work of a group, in the order of its starts, into
  maximal runs whose consecutive starts are at most the tolerance apart, and the batch rate of the patterns counts exactly the
  instances in clusters of at least the batch size.
\<close>

theorem batching_clusters_agree:
  assumes "2 \<le> minimum_batch_size"
  shows "concat (clusters tolerance xs) = xs \<and>
    (\<forall>c \<in> set (clusters tolerance xs). c \<noteq> [] \<and> (\<forall>(a, b) \<in> set (windows2 c). i128_saturating_sub (ai_start b) (ai_start a) \<le> tolerance)) \<and>
    (\<forall>(c, d) \<in> set (windows2 (clusters tolerance xs)). tolerance < i128_saturating_sub (ai_start (hd d)) (ai_start (last c))) \<and>
    batched_count tolerance minimum_batch_size xs = length (concat (filter (\<lambda>c. minimum_batch_size \<le> length c) (clusters tolerance xs)))"
proof -
  have "batched_count tolerance minimum_batch_size xs = sum_list (map length (filter (\<lambda>c. minimum_batch_size \<le> length c) (clusters tolerance xs)))"
  proof (cases xs)
    case Nil
    then show ?thesis using assms by (simp add: batched_count_def)
  next
    case (Cons y ys)
    then show ?thesis using batched_clusters [of tolerance minimum_batch_size y ys 0 1] by (simp add: batched_count_def split: prod.splits)
  qed
  then show ?thesis using concat_clusters clusters_within clusters_apart by (simp add: length_concat)
qed

text \<open>
  C27: the overtaking delay of an activity instance is the time since the earliest start among the instances of the same
  resource that were ready later and nevertheless started earlier; an instance that nobody overtook, or without a resource, has
  none. The Fenwick tree over the distinct ready times computes it without leaving the array.
\<close>

theorem overtaking_delays_correct:
  assumes "length instances < 2 ^ 63" "\<forall>x \<in> set instances. ai_start x \<le> i128_max" "distinct (map ai_id instances)"
  shows "\<exists>m. overtaking_delays instances = Some m \<and> (\<forall>x \<in> set instances.
    let earlier = {y \<in> set instances. ai_resource y = ai_resource x \<and> ai_start y < ai_start x \<and> ai_ready x < ai_ready y} in
    m (ai_id x) = (if ai_resource x = [] \<or> earlier = {} then None
      else Some (f64_max (nanos_to_seconds (i128_saturating_sub (ai_start x) (Min (ai_start ` earlier)))) f64_zero)))"
proof -
  obtain m where m: "overtaking_delays instances = Some m"
    "\<forall>x \<in> set instances. m (ai_id x) = (if ai_resource x = [] then None else overtaking_delay (set instances) x)"
    using overtaking_delays_values [OF assms] by blast
  show ?thesis
    by (intro exI [of _ m] conjI ballI m(1), subst bspec [OF m(2)]) (simp_all only: Let_def overtaking_delay_def overtakers_def split: if_split, simp_all)
qed

definition overtaken_sample :: "activity_instance list" where
  "overtaken_sample =
    [\<lparr>ai_id = 0, ai_activity = ''pack'', ai_resource = ''r'', ai_ready = 0, ai_start = 9, ai_complete = 12\<rparr>,
     \<lparr>ai_id = 1, ai_activity = ''pack'', ai_resource = ''r'', ai_ready = 3, ai_start = 4, ai_complete = 6\<rparr>,
     \<lparr>ai_id = 2, ai_activity = ''ship'', ai_resource = ''r'', ai_ready = 2, ai_start = 7, ai_complete = 8\<rparr>]"

theorem overtaking_delays_correct_witness:
  "\<exists>m. overtaking_delays overtaken_sample = Some m \<and> m 0 = Some (f64_max (nanos_to_seconds 5) f64_zero) \<and> m 1 = None"
proof -
  have sample: "length overtaken_sample < 2 ^ 63" "\<forall>x \<in> set overtaken_sample. ai_start x \<le> i128_max" "distinct (map ai_id overtaken_sample)"
    by (simp_all add: overtaken_sample_def i128_max_def)
  obtain m where m: "overtaking_delays overtaken_sample = Some m"
    "\<forall>x \<in> set overtaken_sample.
      let earlier = {y \<in> set overtaken_sample. ai_resource y = ai_resource x \<and> ai_start y < ai_start x \<and> ai_ready x < ai_ready y} in
      m (ai_id x) = (if ai_resource x = [] \<or> earlier = {} then None
        else Some (f64_max (nanos_to_seconds (i128_saturating_sub (ai_start x) (Min (ai_start ` earlier)))) f64_zero))"
    using overtaking_delays_correct [OF sample] by blast
  have first: "{y \<in> set overtaken_sample. ai_resource y = ai_resource (overtaken_sample ! 0) \<and>
      ai_start y < ai_start (overtaken_sample ! 0) \<and> ai_ready (overtaken_sample ! 0) < ai_ready y} = {overtaken_sample ! 1, overtaken_sample ! 2}"
    by (auto simp: overtaken_sample_def)
  have second: "{y \<in> set overtaken_sample. ai_resource y = ai_resource (overtaken_sample ! 1) \<and>
      ai_start y < ai_start (overtaken_sample ! 1) \<and> ai_ready (overtaken_sample ! 1) < ai_ready y} = {}"
    by (auto simp: overtaken_sample_def)
  have "m (ai_id (overtaken_sample ! 0)) = Some (f64_max (nanos_to_seconds 5) f64_zero)"
    using bspec [OF m(2), of "overtaken_sample ! 0"] unfolding first Let_def
    by (simp add: overtaken_sample_def i128_saturating_sub_def i128_min_def i128_max_def)
  moreover have "m (ai_id (overtaken_sample ! 1)) = None"
    using bspec [OF m(2), of "overtaken_sample ! 1"] unfolding second Let_def by (simp add: overtaken_sample_def)
  ultimately show ?thesis using m(1) by (auto simp: overtaken_sample_def)
qed

theorem batching_clusters_agree_witness: "batched_count 3 2 overtaken_sample = length (concat (filter (\<lambda>c. 2 \<le> length c) (clusters 3 overtaken_sample)))"
  using batching_clusters_agree [of 2 3 overtaken_sample] by simp

end
