(* ===== verification/Cascades.thy ===== *)
theory Cascades
  imports BottleneckData Lifecycle
begin

text \<open>
  Blocking cascades of \<open>crates/ocpm-bottleneck/src/lib.rs\<close>: each waiting activity instance is blocked by the instance of its
  resource that overlaps its wait the longest, and the chains of blockers are grouped by their activities and resources. Hash maps
  from instances to values are partial functions.
\<close>

section \<open>Operations\<close>

definition blocks :: "activity_instance \<Rightarrow> activity_instance \<Rightarrow> bool" where
  "blocks other waiting \<longleftrightarrow> ai_id other \<noteq> ai_id waiting \<and> ai_resource other = ai_resource waiting \<and>
     ai_start other < ai_start waiting \<and> ai_ready waiting < ai_complete other"

definition block_overlap :: "activity_instance \<Rightarrow> activity_instance \<Rightarrow> f64" where
  "block_overlap waiting other = f64_max (nanos_to_seconds (i128_saturating_sub (min (ai_start waiting) (ai_complete other))
     (max (ai_ready waiting) (ai_start other)))) f64_zero"

text \<open>\<open>max_by\<close>: the last of several greatest.\<close>

definition strongest_blocker :: "activity_instance list \<Rightarrow> activity_instance \<Rightarrow> (activity_instance \<times> f64) option" where
  "strongest_blocker instances waiting = fold (\<lambda>other best.
     let candidate = (other, block_overlap waiting other) in
     case best of None \<Rightarrow> Some candidate | Some b \<Rightarrow> if f64_total_lt (snd candidate) (snd b) then Some b else Some candidate)
     (filter (\<lambda>other. blocks other waiting) instances) None"

definition blockers :: "activity_instance list \<Rightarrow> (nat \<rightharpoonup> nat \<times> f64)" where
  "blockers instances = fold (\<lambda>waiting m. case strongest_blocker instances waiting of
     None \<Rightarrow> m | Some (other, overlap) \<Rightarrow> if f64_lt f64_zero overlap then m(ai_id waiting \<mapsto> (ai_id other, overlap)) else m)
     (filter (\<lambda>x. ai_resource x \<noteq> [] \<and> ai_ready x < ai_start x) instances) (\<lambda>_. None)"

definition instances_by_id :: "activity_instance list \<Rightarrow> (nat \<rightharpoonup> activity_instance)" where
  "instances_by_id instances = fold (\<lambda>x m. m(ai_id x \<mapsto> x)) instances (\<lambda>_. None)"

definition maximum_cascade :: nat where "maximum_cascade = 32"

function cascade_walk :: "(nat \<rightharpoonup> nat \<times> f64) \<Rightarrow> (nat \<rightharpoonup> activity_instance) \<Rightarrow> nat \<Rightarrow> nat set \<Rightarrow> string list \<Rightarrow> string list \<Rightarrow> f64
    \<Rightarrow> string list \<times> string list \<times> f64" where
  "cascade_walk blocker by_id current visited activities resources delay =
    (case blocker current of None \<Rightarrow> (activities, resources, delay)
     | Some (following, overlap) \<Rightarrow>
        if current \<in> visited \<or> following = current then (activities, resources, delay)
        else (case by_id following of None \<Rightarrow> (activities, resources, delay)
          | Some x \<Rightarrow>
            let activities = activities @ [ai_activity x]; resources = resources @ [ai_resource x]; delay = f64_add delay overlap in
            if maximum_cascade \<le> length activities then (activities, resources, delay)
            else cascade_walk blocker by_id following (insert current visited) activities resources delay))"
  by pat_completeness auto
termination by (relation "measure (\<lambda>(_, _, _, _, activities, _, _). maximum_cascade - length activities)") auto

definition grow_cascade :: "string list \<times> string list \<Rightarrow> f64 \<Rightarrow> blocking_cascade option \<Rightarrow> blocking_cascade" where
  "grow_cascade k delay e = (let e = (case e of Some e \<Rightarrow> e | None \<Rightarrow> \<lparr>cs_activities = fst k, cs_resources = snd k, cs_support = 0,
       cs_maximum_depth = 0, cs_attributed_delay_seconds = f64_zero\<rparr>) in
     e\<lparr>cs_support := cs_support e + 1, cs_maximum_depth := max (cs_maximum_depth e) (length (cs_activities e) - 1),
       cs_attributed_delay_seconds := f64_add (cs_attributed_delay_seconds e) delay\<rparr>)"

definition add_cascade :: "(nat \<rightharpoonup> nat \<times> f64) \<Rightarrow> (nat \<rightharpoonup> activity_instance) \<Rightarrow> activity_instance
    \<Rightarrow> (string list \<times> string list, blocking_cascade) btree_map \<Rightarrow> (string list \<times> string list, blocking_cascade) btree_map" where
  "add_cascade blocker by_id x grouped =
    (let (activities, resources, delay) = cascade_walk blocker by_id (ai_id x) {} [ai_activity x] [ai_resource x] f64_zero in
     if length activities < 2 then grouped else bt_alter (activities, resources) (grow_cascade (activities, resources) delay) grouped)"

definition blocking_cascades :: "activity_instance list \<Rightarrow> nat \<Rightarrow> blocking_cascade list" where
  "blocking_cascades instances minimum_support =
    filter (\<lambda>v. minimum_support \<le> cs_support v)
      (bt_values (fold (add_cascade (blockers instances) (instances_by_id instances)) instances []))"

section \<open>The strongest blocker\<close>

definition waits :: "activity_instance \<Rightarrow> bool" where
  "waits x \<longleftrightarrow> ai_resource x \<noteq> [] \<and> ai_ready x < ai_start x"

text \<open>\<open>y\<close> blocks \<open>x\<close> for the positive time \<open>d\<close>, and nobody blocks it longer.\<close>

definition blocked_by :: "activity_instance list \<Rightarrow> activity_instance \<Rightarrow> activity_instance \<Rightarrow> f64 \<Rightarrow> bool" where
  "blocked_by instances x y d \<longleftrightarrow> waits x \<and> y \<in> set instances \<and> blocks y x \<and> d = block_overlap x y \<and> f64_lt f64_zero d \<and>
     (\<forall>z \<in> set instances. blocks z x \<longrightarrow> \<not> f64_total_lt d (block_overlap x z))"

lemma strongest_blocker_max:
  "case strongest_blocker instances x of None \<Rightarrow> filter (\<lambda>y. blocks y x) instances = []
   | Some (y, d) \<Rightarrow> y \<in> set instances \<and> blocks y x \<and> d = block_overlap x y \<and>
       (\<forall>z \<in> set instances. blocks z x \<longrightarrow> \<not> f64_total_lt d (block_overlap x z))"
proof -
  let ?step = "\<lambda>other best. let candidate = (other, block_overlap x other) in
     case best of None \<Rightarrow> Some candidate | Some b \<Rightarrow> if f64_total_lt (snd candidate) (snd b) then Some b else Some candidate"
  have "case fold ?step ys None of None \<Rightarrow> ys = []
     | Some (y, d) \<Rightarrow> y \<in> set ys \<and> d = block_overlap x y \<and> (\<forall>z \<in> set ys. \<not> f64_total_lt d (block_overlap x z))" for ys
  proof (induction ys rule: rev_induct)
    case (snoc z ys)
    show ?case
    proof (cases "fold ?step ys None")
      case None
      then show ?thesis using snoc by (simp add: f64_total_lt_rank)
    next
      case (Some best)
      then show ?thesis using snoc by (cases best) (auto simp: Let_def f64_total_lt_rank)
    qed
  qed simp
  from this [of "filter (\<lambda>y. blocks y x) instances"] show ?thesis
    unfolding strongest_blocker_def by (auto split: option.splits)
qed

lemma fold_update_other: "i \<notin> ai_id ` set xs \<Longrightarrow>
    fold (\<lambda>x m. case g x of None \<Rightarrow> m | Some v \<Rightarrow> m(ai_id x \<mapsto> v)) xs m i = m i"
  by (induction xs arbitrary: m) (auto split: option.splits)

lemma fold_update_value:
  assumes "distinct (map ai_id xs)" "x \<in> set xs" "m (ai_id x) = None"
  shows "fold (\<lambda>x m. case g x of None \<Rightarrow> m | Some v \<Rightarrow> m(ai_id x \<mapsto> v)) xs m (ai_id x) = g x"
  using assms
proof (induction xs arbitrary: m)
  case (Cons y xs)
  show ?case
  proof (cases "x = y")
    case True
    then have "ai_id x \<notin> ai_id ` set xs" using Cons.prems(1) by simp
    then show ?thesis using True Cons.prems(3) by (simp add: fold_update_other split: option.splits)
  next
    case False
    then have "x \<in> set xs" using Cons.prems(2) by simp
    then have "ai_id x \<noteq> ai_id y" using Cons.prems(1) by (metis distinct.simps(2) image_eqI list.map(2) list.set_map)
    then show ?thesis using Cons False by (auto split: option.splits)
  qed
qed simp

lemma blockers_value:
  assumes "distinct (map ai_id instances)" "x \<in> set instances"
  shows "blockers instances (ai_id x) = (if waits x then
    (case strongest_blocker instances x of Some (y, d) \<Rightarrow> if f64_lt f64_zero d then Some (ai_id y, d) else None | None \<Rightarrow> None) else None)"
proof -
  let ?g = "\<lambda>x. case strongest_blocker instances x of Some (y, d) \<Rightarrow> if f64_lt f64_zero d then Some (ai_id y, d) else None | None \<Rightarrow> None"
  let ?xs = "filter (\<lambda>x. ai_resource x \<noteq> [] \<and> ai_ready x < ai_start x) instances"
  have fold: "blockers instances = fold (\<lambda>x m. case ?g x of None \<Rightarrow> m | Some v \<Rightarrow> m(ai_id x \<mapsto> v)) ?xs (\<lambda>_. None)"
    unfolding blockers_def by (intro arg_cong [of _ _ "\<lambda>f. fold f ?xs _"] ext) (auto split: option.splits prod.splits)
  have dist: "distinct (map ai_id ?xs)" using assms(1) by (rule distinct_map_filter)
  show ?thesis
  proof (cases "waits x")
    case True
    then have "x \<in> set ?xs" using assms(2) by (simp add: waits_def)
    then show ?thesis using True fold_update_value [OF dist, where x = x and m = "\<lambda>_. None" and g = ?g] fold by simp
  next
    case False
    have "ai_id x \<notin> ai_id ` set ?xs"
    proof
      assume "ai_id x \<in> ai_id ` set ?xs"
      then obtain y where y: "y \<in> set ?xs" "ai_id x = ai_id y" by blast
      then have "x = y" using assms by (metis distinct_map filter_is_subset inj_on_def subsetD)
      then show False using y(1) False by (simp add: waits_def)
    qed
    then show ?thesis using False fold_update_other [where i = "ai_id x" and xs = ?xs and g = ?g and m = "\<lambda>_. None"] fold by simp
  qed
qed

lemma blockers_blocked_by:
  assumes "distinct (map ai_id instances)" "x \<in> set instances"
  shows "(\<exists>y d. blockers instances (ai_id x) = Some (ai_id y, d) \<and> blocked_by instances x y d) \<or>
    (blockers instances (ai_id x) = None \<and> (\<forall>y d. \<not> blocked_by instances x y d))"
proof (cases "strongest_blocker instances x")
  case None
  then have "\<forall>y \<in> set instances. \<not> blocks y x" using strongest_blocker_max [where instances = instances and x = x] by (auto simp: filter_empty_conv)
  then show ?thesis using None by (auto simp: blockers_value [OF assms] blocked_by_def)
next
  case (Some b)
  obtain y d where b: "b = (y, d)" by (cases b)
  have y: "y \<in> set instances" "blocks y x" "d = block_overlap x y" "\<forall>z \<in> set instances. blocks z x \<longrightarrow> \<not> f64_total_lt d (block_overlap x z)"
    using strongest_blocker_max [where instances = instances and x = x] by (auto simp: Some b)
  have same: "total_rank e = total_rank d" if "blocked_by instances x z e" for z e
  proof -
    have "\<not> f64_total_lt d e" "\<not> f64_total_lt e d" using y that by (auto simp: blocked_by_def)
    then show ?thesis by (simp add: f64_total_lt_rank)
  qed
  have inj: "e = d" if "total_rank e = total_rank d" for e
    using that by (cases e; cases d) (auto split: if_splits)
  show ?thesis
  proof (cases "waits x \<and> f64_lt f64_zero d")
    case True
    then show ?thesis using Some b y by (auto simp: blockers_value [OF assms] blocked_by_def)
  next
    case False
    then have "\<forall>z e. \<not> blocked_by instances x z e" using same inj by (metis blocked_by_def)
    then show ?thesis using Some b False by (auto simp: blockers_value [OF assms])
  qed
qed

lemma instances_by_id_value:
  assumes "distinct (map ai_id instances)" "x \<in> set instances"
  shows "instances_by_id instances (ai_id x) = Some x"
  using fold_update_value [OF assms, where m = "\<lambda>_. None" and g = Some] by (simp add: instances_by_id_def)

section \<open>Chains of blockers\<close>

fun chain :: "activity_instance list \<Rightarrow> activity_instance list \<Rightarrow> f64 list \<Rightarrow> bool" where
  "chain instances [x] [] \<longleftrightarrow> True"
| "chain instances (x # y # ys) (d # ds) \<longleftrightarrow> blocked_by instances x y d \<and> chain instances (y # ys) ds"
| "chain instances _ _ \<longleftrightarrow> False"

text \<open>A chain is a cascade when it goes on until nobody blocks its last member or it has the greatest length.\<close>

definition maximal_chain :: "activity_instance list \<Rightarrow> nat \<Rightarrow> activity_instance list \<Rightarrow> f64 list \<Rightarrow> bool" where
  "maximal_chain instances bound xs ds \<longleftrightarrow> chain instances xs ds \<and> length xs \<le> bound \<and>
     (length xs < bound \<longrightarrow> (\<forall>y d. \<not> blocked_by instances (last xs) y d))"

lemma blocked_by_earlier: "blocked_by instances x y d \<Longrightarrow> ai_start y < ai_start x \<and> ai_resource y = ai_resource x \<and> y \<in> set instances"
  by (auto simp: blocked_by_def blocks_def)

lemma cascade_walk_step:
  assumes "blocker current = Some (following, overlap)" "current \<notin> visited" "following \<noteq> current" "by_id following = Some x"
  shows "cascade_walk blocker by_id current visited activities resources delay =
    (if maximum_cascade \<le> length activities + 1 then (activities @ [ai_activity x], resources @ [ai_resource x], f64_add delay overlap)
     else cascade_walk blocker by_id following (insert current visited) (activities @ [ai_activity x]) (resources @ [ai_resource x]) (f64_add delay overlap))"
  using assms by (subst cascade_walk.simps) (simp add: Let_def)

lemma cascade_walk_stop: "blocker current = None \<Longrightarrow> cascade_walk blocker by_id current visited activities resources delay = (activities, resources, delay)"
  by (subst cascade_walk.simps) simp

declare cascade_walk.simps [simp del]

lemma cascade_walk_chain:
  assumes "distinct (map ai_id instances)" "x \<in> set instances" "\<forall>y \<in> set instances. ai_id y \<in> visited \<longrightarrow> ai_start x < ai_start y"
    "length activities < maximum_cascade"
  shows "\<exists>ys ds. maximal_chain instances (maximum_cascade + 1 - length activities) (x # ys) ds \<and>
    cascade_walk (blockers instances) (instances_by_id instances) (ai_id x) visited activities resources delay =
      (activities @ map ai_activity ys, resources @ map ai_resource ys, foldl f64_add delay ds)"
  using assms(2-4)
proof (induction "maximum_cascade - length activities" arbitrary: x visited activities resources delay rule: less_induct)
  case less
  consider (stop) "blockers instances (ai_id x) = None" "\<forall>y d. \<not> blocked_by instances x y d"
    | (step) y d where "blockers instances (ai_id x) = Some (ai_id y, d)" "blocked_by instances x y d"
    using blockers_blocked_by [OF assms(1) less.prems(1)] by metis
  then show ?case
  proof cases
    case stop
    then have "maximal_chain instances (maximum_cascade + 1 - length activities) (x # []) []"
      using less.prems(3) by (auto simp: maximal_chain_def)
    then show ?thesis using cascade_walk_stop [of "blockers instances", OF stop(1)] by fastforce
  next
    case step
    have y: "y \<in> set instances" "ai_start y < ai_start x" "ai_id y \<noteq> ai_id x"
      using blocked_by_earlier [OF step(2)] step(2) by (auto simp: blocked_by_def blocks_def)
    have fresh: "ai_id x \<notin> visited" using less.prems(1,2) by blast
    note walk = cascade_walk_step [of "blockers instances" "ai_id x" "ai_id y" d visited "instances_by_id instances" y activities resources delay,
      OF step(1) fresh y(3) instances_by_id_value [OF assms(1) y(1)]]
    show ?thesis
    proof (cases "maximum_cascade \<le> length activities + 1")
      case True
      then have "maximal_chain instances (maximum_cascade + 1 - length activities) (x # [y]) [d]"
        using less.prems(3) step(2) by (auto simp: maximal_chain_def)
      moreover have "foldl f64_add delay [d] = f64_add delay d" by simp
      ultimately show ?thesis using walk True by (intro exI [of _ "[y]"] exI [of _ "[d]"]) simp
    next
      case False
      have later: "\<forall>z \<in> set instances. ai_id z \<in> insert (ai_id x) visited \<longrightarrow> ai_start y < ai_start z"
      proof (intro ballI impI)
        fix z assume z: "z \<in> set instances" "ai_id z \<in> insert (ai_id x) visited"
        then have "z = x \<or> ai_start x < ai_start z" using less.prems(1,2) assms(1) by (auto simp: distinct_map dest: inj_onD)
        then show "ai_start y < ai_start z" using y(2) by auto
      qed
      have "maximum_cascade - length (activities @ [ai_activity y]) < maximum_cascade - length activities"
        "length (activities @ [ai_activity y]) < maximum_cascade" using False by simp_all
      note ih = less.hyps [OF this(1) y(1) later this(2), of "resources @ [ai_resource y]" "f64_add delay d"]
      obtain ys ds where ih: "maximal_chain instances (maximum_cascade + 1 - length (activities @ [ai_activity y])) (y # ys) ds"
        "cascade_walk (blockers instances) (instances_by_id instances) (ai_id y) (insert (ai_id x) visited)
           (activities @ [ai_activity y]) (resources @ [ai_resource y]) (f64_add delay d) =
           ((activities @ [ai_activity y]) @ map ai_activity ys, (resources @ [ai_resource y]) @ map ai_resource ys, foldl f64_add (f64_add delay d) ds)"
        using ih by blast
      have "maximal_chain instances (maximum_cascade + 1 - length activities) (x # y # ys) (d # ds)"
        using ih(1) step(2) False by (auto simp: maximal_chain_def)
      then show ?thesis using walk False ih(2) by (intro exI [of _ "y # ys"] exI [of _ "d # ds"]) simp
    qed
  qed
qed

text \<open>The key and the delay of the cascade that starts at an instance.\<close>

definition cascade_of :: "activity_instance list \<Rightarrow> activity_instance \<Rightarrow> (string list \<times> string list) \<times> f64" where
  "cascade_of instances x = (let (activities, resources, delay) =
     cascade_walk (blockers instances) (instances_by_id instances) (ai_id x) {} [ai_activity x] [ai_resource x] f64_zero
     in ((activities, resources), delay))"

lemma cascade_of_chain:
  assumes "distinct (map ai_id instances)" "x \<in> set instances"
  shows "\<exists>ys ds. maximal_chain instances 32 (x # ys) ds \<and>
    cascade_of instances x = ((map ai_activity (x # ys), map ai_resource (x # ys)), foldl f64_add f64_zero ds)"
proof -
  obtain ys ds where *: "maximal_chain instances (maximum_cascade + 1 - length [ai_activity x]) (x # ys) ds"
    "cascade_walk (blockers instances) (instances_by_id instances) (ai_id x) {} [ai_activity x] [ai_resource x] f64_zero =
      ([ai_activity x] @ map ai_activity ys, [ai_resource x] @ map ai_resource ys, foldl f64_add f64_zero ds)"
    using cascade_walk_chain [OF assms, of "{}" "[ai_activity x]" "[ai_resource x]" f64_zero] by (auto simp: maximum_cascade_def)
  show ?thesis by (rule exI [of _ ys], rule exI [of _ ds]) (use * in \<open>simp add: cascade_of_def maximum_cascade_def\<close>)
qed

lemma chain_props:
  assumes "chain instances xs ds"
  shows "length xs = Suc (length ds)" and "sorted_wrt (\<lambda>x y. ai_start y < ai_start x) xs"
    and "\<forall>x \<in> set xs. ai_resource x = ai_resource (hd xs)" and "set (tl xs) \<subseteq> set instances"
    and "\<forall>i. Suc i < length xs \<longrightarrow> blocked_by instances (xs ! i) (xs ! Suc i) (ds ! i)"
proof -
  have "length xs = Suc (length ds) \<and> sorted_wrt (\<lambda>x y. ai_start y < ai_start x) xs \<and>
    (\<forall>x \<in> set xs. ai_resource x = ai_resource (hd xs)) \<and> set (tl xs) \<subseteq> set instances \<and>
    (\<forall>i. Suc i < length xs \<longrightarrow> blocked_by instances (xs ! i) (xs ! Suc i) (ds ! i))"
    using assms
  proof (induction instances xs ds rule: chain.induct)
    case (2 instances x y ys d ds)
    have ih: "length (y # ys) = Suc (length ds)" "sorted_wrt (\<lambda>x y. ai_start y < ai_start x) (y # ys)"
      "\<forall>x \<in> set (y # ys). ai_resource x = ai_resource y" "set ys \<subseteq> set instances"
      "\<forall>i. Suc i < length (y # ys) \<longrightarrow> blocked_by instances ((y # ys) ! i) ((y # ys) ! Suc i) (ds ! i)"
      and blocked: "blocked_by instances x y d" using 2 by auto
    note first = blocked_by_earlier [OF blocked]
    have "sorted_wrt (\<lambda>x y. ai_start y < ai_start x) (x # y # ys)" using ih(2) first by fastforce
    moreover have "blocked_by instances ((x # y # ys) ! i) ((x # y # ys) ! Suc i) ((d # ds) ! i)" if "Suc i < length (x # y # ys)" for i
      using that ih(5) blocked by (cases i) auto
    ultimately show ?case using ih first by auto
  qed auto
  then show "length xs = Suc (length ds)" "sorted_wrt (\<lambda>x y. ai_start y < ai_start x) xs"
    "\<forall>x \<in> set xs. ai_resource x = ai_resource (hd xs)" "set (tl xs) \<subseteq> set instances"
    "\<forall>i. Suc i < length xs \<longrightarrow> blocked_by instances (xs ! i) (xs ! Suc i) (ds ! i)" by blast+
qed

section \<open>Grouping the cascades\<close>

text \<open>Support and delay of the cascades with one key, in the order of the instances.\<close>

definition cascade_summary :: "(string list \<times> string list) \<Rightarrow> f64 list \<Rightarrow> blocking_cascade" where
  "cascade_summary k ds = \<lparr>cs_activities = fst k, cs_resources = snd k, cs_support = length ds, cs_maximum_depth = length (fst k) - 1,
     cs_attributed_delay_seconds = foldl f64_add f64_zero ds\<rparr>"

lemma add_cascade_alter:
  "add_cascade (blockers instances) (instances_by_id instances) x m =
    (if length (fst (fst (cascade_of instances x))) < 2 then m
     else bt_alter (fst (cascade_of instances x)) (grow_cascade (fst (cascade_of instances x)) (snd (cascade_of instances x))) m)"
  by (simp add: add_cascade_def cascade_of_def split: prod.split)

lemma grow_cascades:
  "fold (\<lambda>x e. Some (grow_cascade k (f x) e)) xs None = (if xs = [] then None else Some (cascade_summary k (map f xs)))"
proof (induction xs rule: rev_induct)
  case (snoc x xs)
  then show ?case by (cases "xs = []") (auto simp: grow_cascade_def cascade_summary_def Let_def)
qed simp

definition cascade_members :: "activity_instance list \<Rightarrow> (string list \<times> string list) \<Rightarrow> activity_instance list" where
  "cascade_members instances k = filter (\<lambda>x. fst (cascade_of instances x) = k) instances"

lemma fold_filtered: "fold (\<lambda>x m. if P x then m else f x m) xs m = fold f (filter (\<lambda>x. \<not> P x) xs) m"
  by (induction xs arbitrary: m) auto

lemma blocking_cascades_entries:
  obtains m where "bt_inv m" and "\<And>k c. (k, c) \<in> set m \<longleftrightarrow> 2 \<le> length (fst k) \<and> cascade_members instances k \<noteq> [] \<and>
      c = cascade_summary k (map (\<lambda>x. snd (cascade_of instances x)) (cascade_members instances k))"
    and "blocking_cascades instances minimum = filter (\<lambda>c. minimum \<le> cs_support c) (map snd m)"
proof -
  let ?key = "\<lambda>x. fst (cascade_of instances x)" and ?delay = "\<lambda>x. snd (cascade_of instances x)"
  let ?xs = "filter (\<lambda>x. \<not> length (fst (?key x)) < 2) instances"
  let ?m = "fold (\<lambda>x. bt_alter (?key x) (grow_cascade (?key x) (?delay x))) ?xs []"
  have m: "fold (add_cascade (blockers instances) (instances_by_id instances)) instances [] = ?m"
    unfolding fold_filtered [symmetric] by (intro fold_cong) (auto simp: fun_eq_iff add_cascade_alter)
  have inv: "bt_inv ?m" by (rule bt.inv_fold) simp
  have members: "filter (\<lambda>x. ?key x = k) ?xs = (if 2 \<le> length (fst k) then cascade_members instances k else [])" for k
    unfolding cascade_members_def by (auto simp: filter_empty_conv intro!: filter_cong)
  have entry: "(k, c) \<in> set ?m \<longleftrightarrow> 2 \<le> length (fst k) \<and> cascade_members instances k \<noteq> [] \<and> c = cascade_summary k (map ?delay (cascade_members instances k))" for k c
  proof -
    have "bt_get ?m k = fold (\<lambda>x e. Some (grow_cascade (?key x) (?delay x) e)) (filter (\<lambda>x. ?key x = k) ?xs) None"
      using bt.get_fold [of "[]" ?key "\<lambda>x. grow_cascade (?key x) (?delay x)" ?xs k] by simp
    also have "\<dots> = fold (\<lambda>x e. Some (grow_cascade k (?delay x) e)) (filter (\<lambda>x. ?key x = k) ?xs) None"
      by (intro fold_cong) auto
    also have "\<dots> = (if filter (\<lambda>x. ?key x = k) ?xs = [] then None else Some (cascade_summary k (map ?delay (filter (\<lambda>x. ?key x = k) ?xs))))"
      by (rule grow_cascades)
    finally show ?thesis unfolding bt.entries_in [OF inv] members by auto
  qed
  show thesis by (rule that [OF inv entry]) (simp add: blocking_cascades_def m bt_values_def)
qed

lemma blocking_cascades_set:
  "set (blocking_cascades instances minimum) =
    {cascade_summary k (map (\<lambda>x. snd (cascade_of instances x)) (cascade_members instances k)) | k.
      2 \<le> length (fst k) \<and> cascade_members instances k \<noteq> [] \<and> minimum \<le> length (cascade_members instances k)}"
proof (rule blocking_cascades_entries [of instances minimum])
  fix m :: "(string list \<times> string list, blocking_cascade) btree_map"
  assume m: "\<And>k c. (k, c) \<in> set m \<longleftrightarrow> 2 \<le> length (fst k) \<and> cascade_members instances k \<noteq> [] \<and>
      c = cascade_summary k (map (\<lambda>x. snd (cascade_of instances x)) (cascade_members instances k))"
    and b: "blocking_cascades instances minimum = filter (\<lambda>c. minimum \<le> cs_support c) (map snd m)"
  have "c \<in> set (blocking_cascades instances minimum) \<longleftrightarrow> (\<exists>k. (k, c) \<in> set m \<and> minimum \<le> cs_support c)" for c
    unfolding b by force
  then show ?thesis unfolding m by (auto simp: cascade_summary_def)
qed

lemma blocking_cascades_sorted:
  "sorted_wrt (<) (map (\<lambda>c. (cs_activities c, cs_resources c)) (blocking_cascades instances minimum))"
proof (rule blocking_cascades_entries [of instances minimum])
  fix m :: "(string list \<times> string list, blocking_cascade) btree_map"
  assume inv: "bt_inv m" and m: "\<And>k c. (k, c) \<in> set m \<longleftrightarrow> 2 \<le> length (fst k) \<and> cascade_members instances k \<noteq> [] \<and>
      c = cascade_summary k (map (\<lambda>x. snd (cascade_of instances x)) (cascade_members instances k))"
    and b: "blocking_cascades instances minimum = filter (\<lambda>c. minimum \<le> cs_support c) (map snd m)"
  have "(cs_activities (snd e), cs_resources (snd e)) = fst e" if "e \<in> set m" for e
    using m [of "fst e" "snd e"] that by (simp add: cascade_summary_def)
  then have "map (\<lambda>c. (cs_activities c, cs_resources c)) (map snd m) = map fst m" by simp
  then have "sorted_wrt (<) (map (\<lambda>c. (cs_activities c, cs_resources c)) (map snd m))" using inv by (simp only: bt_inv_def)
  moreover have "sorted_wrt (<) (map f cs) \<Longrightarrow> sorted_wrt (<) (map f (filter P cs))"
    for f :: "blocking_cascade \<Rightarrow> string list \<times> string list" and P cs
    by (simp only: sorted_wrt_map sorted_wrt_filter)
  ultimately show ?thesis unfolding b by blast
qed

text \<open>The activities and the resources along a chain.\<close>

definition chain_key :: "activity_instance list \<Rightarrow> string list \<times> string list" where
  "chain_key xs = (map ai_activity xs, map ai_resource xs)"

text \<open>A chain of blockers from an instance: it has at most 32 members of one resource, with strictly decreasing starts,
  and ends early only where nobody blocks its last member.\<close>

definition chain_from :: "activity_instance list \<Rightarrow> activity_instance \<Rightarrow> activity_instance list \<times> f64 list \<Rightarrow> bool" where
  "chain_from instances x = (\<lambda>(xs, ds). xs \<noteq> [] \<and> hd xs = x \<and> maximal_chain instances 32 xs ds \<and> set xs \<subseteq> set instances \<and>
     sorted_wrt (\<lambda>x y. ai_start y < ai_start x) xs \<and> (\<forall>y \<in> set xs. ai_resource y = ai_resource x))"

lemma cascade_chain_from:
  assumes "distinct (map ai_id instances)" "x \<in> set instances"
  shows "\<exists>c. chain_from instances x c \<and> cascade_of instances x = (chain_key (fst c), foldl f64_add f64_zero (snd c))"
proof -
  obtain ys ds where ys: "maximal_chain instances 32 (x # ys) ds"
    "cascade_of instances x = ((map ai_activity (x # ys), map ai_resource (x # ys)), foldl f64_add f64_zero ds)"
    using cascade_of_chain [OF assms] by blast
  have "chain instances (x # ys) ds" using ys(1) by (simp add: maximal_chain_def)
  note props = chain_props [OF this]
  have "\<forall>y \<in> set (x # ys). ai_resource y = ai_resource x" "set (x # ys) \<subseteq> set instances"
    using props(3,4) assms(2) by (simp_all only: list.sel) simp
  then have "chain_from instances x (x # ys, ds)" using ys(1) props(2) by (simp only: chain_from_def prod.case list.sel) blast
  then show ?thesis using ys(2) by (intro exI [of _ "(x # ys, ds)"]) (simp only: chain_key_def fst_conv snd_conv)
qed

text \<open>
  C28: with a chain of blockers chosen for each instance (only instances that block for exactly the same time leave a choice), in which each
  member waits for its successor longer than for any other of its blockers, the blocking cascades are exactly the classes
  of at least the minimum support of the instances whose chains have two or more members: one for each sequence of activities and
  resources, in strictly ascending order of these, with the number of its instances for support, and the total over them, in
  their order, of the summed waits along the chain for delay.
\<close>

theorem blocking_cascades_correct:
  assumes "distinct (map ai_id instances)"
  shows "\<exists>chains. (\<forall>x \<in> set instances. chain_from instances x (chains x)) \<and>
    (let members = (\<lambda>k. filter (\<lambda>x. chain_key (fst (chains x)) = k) instances) in
      set (blocking_cascades instances minimum) =
        {\<lparr>cs_activities = fst k, cs_resources = snd k, cs_support = length (members k), cs_maximum_depth = length (fst k) - 1,
           cs_attributed_delay_seconds = foldl f64_add f64_zero (map (\<lambda>x. foldl f64_add f64_zero (snd (chains x))) (members k))\<rparr> | k.
          2 \<le> length (fst k) \<and> members k \<noteq> [] \<and> minimum \<le> length (members k)}) \<and>
    sorted_wrt (<) (map (\<lambda>c. (cs_activities c, cs_resources c)) (blocking_cascades instances minimum))"
proof -
  have "\<forall>x \<in> set instances. \<exists>c. chain_from instances x c \<and> cascade_of instances x = (chain_key (fst c), foldl f64_add f64_zero (snd c))"
    using cascade_chain_from [OF assms] by blast
  then obtain chains where chains: "\<forall>x \<in> set instances. chain_from instances x (chains x) \<and>
      cascade_of instances x = (chain_key (fst (chains x)), foldl f64_add f64_zero (snd (chains x)))" by (rule bchoice [THEN exE])
  define members where "members k = filter (\<lambda>x. chain_key (fst (chains x)) = k) instances" for k
  have m: "cascade_members instances k = members k" for k
    unfolding cascade_members_def members_def using chains by (intro filter_cong) auto
  have "map (\<lambda>x. snd (cascade_of instances x)) (members k) = map (\<lambda>x. foldl f64_add f64_zero (snd (chains x))) (members k)" for k
    using chains by (auto simp: members_def)
  then have "set (blocking_cascades instances minimum) =
      {cascade_summary k (map (\<lambda>x. foldl f64_add f64_zero (snd (chains x))) (members k)) | k.
        2 \<le> length (fst k) \<and> members k \<noteq> [] \<and> minimum \<le> length (members k)}"
    by (simp only: blocking_cascades_set m)
  then have "let members = (\<lambda>k. filter (\<lambda>x. chain_key (fst (chains x)) = k) instances) in
      set (blocking_cascades instances minimum) =
        {\<lparr>cs_activities = fst k, cs_resources = snd k, cs_support = length (members k), cs_maximum_depth = length (fst k) - 1,
           cs_attributed_delay_seconds = foldl f64_add f64_zero (map (\<lambda>x. foldl f64_add f64_zero (snd (chains x))) (members k))\<rparr> | k.
          2 \<le> length (fst k) \<and> members k \<noteq> [] \<and> minimum \<le> length (members k)}"
    unfolding Let_def members_def [symmetric] by (simp only: cascade_summary_def length_map)
  then show ?thesis using chains by (intro exI [of _ chains] conjI blocking_cascades_sorted) simp_all
qed

definition cascade_sample :: "activity_instance list" where
  "cascade_sample =
    [\<lparr>ai_id = 0, ai_activity = ''pack'', ai_resource = ''r'', ai_ready = 0, ai_start = 0, ai_complete = 5000000000\<rparr>,
     \<lparr>ai_id = 1, ai_activity = ''ship'', ai_resource = ''r'', ai_ready = 1000000000, ai_start = 5000000000, ai_complete = 9000000000\<rparr>]"

theorem blocking_cascades_correct_witness:
  "\<exists>chains. (\<forall>x \<in> set cascade_sample. chain_from cascade_sample x (chains x)) \<and>
    map cs_activities (blocking_cascades cascade_sample 1) = [[''ship'', ''pack'']]"
proof -
  have "distinct (map ai_id cascade_sample)" by (simp add: cascade_sample_def)
  from blocking_cascades_correct [OF this, of 1]
  obtain chains where chains: "\<forall>x \<in> set cascade_sample. chain_from cascade_sample x (chains x)" by (elim exE conjE)
  show ?thesis by (intro exI [of _ chains] conjI, rule chains, code_simp)
qed

end
