(* ===== verification/Bottleneck.thy ===== *)
theory Bottleneck
  imports BottleneckStats Waiting Cascades
begin

text \<open>
  The analysis of \<open>crates/ocpm-bottleneck/src/lib.rs\<close>: durations of the edges and their signals, synchronization, drift between two
  views, temporal hypotheses, and the phases of \<open>analyze\<close> with a check of the context between them. The provider's projected
  observations, the platform's exponential and the outcome of each check are parameters. \<open>None\<close> is a panic.
\<close>

section \<open>Comparisons\<close>

definition total_cmp :: "f64 \<Rightarrow> f64 \<Rightarrow> ordering" where
  "total_cmp x y = (if f64_total_lt x y then Less else if f64_total_lt y x then Greater else Equal)"

definition string_cmp :: "string \<Rightarrow> string \<Rightarrow> ordering" where
  "string_cmp a b = (if a < b then Less else if b < a then Greater else Equal)"

section \<open>Edges\<close>

type_synonym edge_key = "string \<times> string \<times> string"
type_synonym distributions = "(edge_key, f64 list) btree_map"

definition edge_key_of :: "bottleneck_observation \<Rightarrow> edge_key" where
  "edge_key_of ob = (bo_object_type ob, bo_source_activity ob, bo_target_activity ob)"

definition observed_duration :: "bottleneck_observation \<Rightarrow> f64" where
  "observed_duration ob = nanos_to_seconds (i128_saturating_sub (bo_target_timestamp_nanos ob) (bo_source_timestamp_nanos ob))"

definition edge_distributions :: "bottleneck_observation list \<Rightarrow> distributions" where
  "edge_distributions observations = map (\<lambda>(k, vs). (k, sort_by f64_total_le vs))
    (fold (\<lambda>ob grouped. let duration = observed_duration ob in
       if f64_le f64_zero duration \<and> f64_is_finite duration then bt_push (edge_key_of ob) duration grouped else grouped) observations [])"

text \<open>The upper fence of the quartiles, unless the request names a threshold.\<close>

definition upper_fence :: "f64 list \<Rightarrow> f64 option" where
  "upper_fence vs = Option.bind (sample_quantile vs (F_fin (1 / 4))) (\<lambda>q1. Option.bind (sample_quantile vs (F_fin (3 / 4))) (\<lambda>q3.
     Some (f64_add q3 (f64_mul (F_fin (3 / 2)) (f64_max (f64_sub q3 q1) f64_zero)))))"

definition excess_seconds :: "f64 \<Rightarrow> f64 list \<Rightarrow> f64" where
  "excess_seconds threshold vs = f64_sum (map (\<lambda>v. f64_max (f64_sub v threshold) f64_zero) vs)"

definition edge_signal :: "bottleneck_request \<Rightarrow> edge_key \<times> f64 list \<Rightarrow> bottleneck_signal option" where
  "edge_signal request = (\<lambda>((object_type, source, target), vs).
    Option.bind (upper_fence vs) (\<lambda>fence.
    Option.bind (sample_quantile vs (br_tail_quantile request)) (\<lambda>tail_from.
    Option.bind (sample_quantile vs (F_fin (1 / 2))) (\<lambda>median.
    Option.bind (sample_quantile vs (f64_lit (9 / 10))) (\<lambda>p90.
    Option.bind (sample_quantile vs (f64_lit (95 / 100))) (\<lambda>p95.
    let threshold = (case br_slow_threshold_seconds request of Some t \<Rightarrow> t | None \<Rightarrow> fence);
        affected = length (filter (\<lambda>v. f64_lt threshold v) vs) in
    Some \<lparr>sg_object_type = object_type, sg_source_activity = source, sg_target_activity = target, sg_support = length vs,
      sg_mean_seconds = sample_mean vs, sg_median_seconds = median, sg_p90_seconds = p90, sg_p95_seconds = p95,
      sg_tail_mean_seconds = sample_mean (drop (lower_bound vs tail_from) vs), sg_threshold_seconds = threshold,
      sg_affected_count = affected, sg_affected_rate = f64_div (f64_of_nat affected) (f64_of_nat (length vs)),
      sg_affected_rate_interval_95 = wilson_interval affected (length vs), sg_impact_seconds = excess_seconds threshold vs\<rparr>))))))"

definition signal_cmp :: "bottleneck_signal \<Rightarrow> bottleneck_signal \<Rightarrow> ordering" where
  "signal_cmp left right =
    then_with (total_cmp (sg_impact_seconds right) (sg_impact_seconds left))
    (then_with (total_cmp (sg_p95_seconds right) (sg_p95_seconds left))
    (then_with (total_cmp (sg_affected_rate right) (sg_affected_rate left))
    (then_with (nat_cmp (sg_support right) (sg_support left))
    (then_with (string_cmp (sg_object_type left) (sg_object_type right))
    (then_with (string_cmp (sg_source_activity left) (sg_source_activity right))
      (string_cmp (sg_target_activity left) (sg_target_activity right)))))))"

definition edge_signals :: "bottleneck_observation list \<Rightarrow> bottleneck_request \<Rightarrow> (bottleneck_signal list \<times> distributions) option" where
  "edge_signals observations request =
    (let ds = edge_distributions observations in
     map_option (\<lambda>signals. (sort_by (\<lambda>l r. signal_cmp l r \<noteq> Greater) signals, ds))
       (those (map (edge_signal request) (filter (\<lambda>(_, vs). br_minimum_support request \<le> length vs) ds))))"

section \<open>Synchronization\<close>

definition synchronized_event_count :: "bottleneck_observation list \<Rightarrow> nat" where
  "synchronized_event_count observations = length (filter (\<lambda>types. 1 < length types) (bt_values
    (fold (\<lambda>ob. bt_alter (bo_target_event_id ob) (\<lambda>types. insort_insert (bo_object_type ob) (case types of None \<Rightarrow> [] | Some ts \<Rightarrow> ts)))
      observations ([] :: (nat, string list) btree_map))))"

definition add_lag :: "int \<Rightarrow> bottleneck_observation \<Rightarrow> (string \<times> string, f64 list \<times> nat) btree_map \<Rightarrow> (string \<times> string, f64 list \<times> nat) btree_map" where
  "add_lag latest ob = bt_alter (bo_target_activity ob, bo_object_type ob) (\<lambda>e.
     let (lags, lagging) = (case e of None \<Rightarrow> ([], 0) | Some e \<Rightarrow> e) in
     (lags @ [nanos_to_seconds (i128_saturating_sub latest (bo_source_timestamp_nanos ob))],
      if bo_source_timestamp_nanos ob = latest then lagging + 1 else lagging))"

definition event_lags :: "bottleneck_observation list \<Rightarrow> (string \<times> string, f64 list \<times> nat) btree_map \<Rightarrow> (string \<times> string, f64 list \<times> nat) btree_map" where
  "event_lags obs grouped =
    (if length (bset (map bo_object_type obs)) < 2 then grouped
     else let latest = fold max (map bo_source_timestamp_nanos (tl obs)) (bo_source_timestamp_nanos (hd obs)) in
       fold (add_lag latest) obs grouped)"

definition synchronization :: "bottleneck_observation list \<Rightarrow> nat \<Rightarrow> synchronization_attribution list option" where
  "synchronization observations minimum_support =
    (let by_event = fold (\<lambda>ob. bt_push (bo_target_event_id ob) ob) observations [];
         grouped = fold event_lags (bt_values by_event) [] in
     those (map (\<lambda>((activity, object_type), (lags, lagging)). let lags = sort_by f64_total_le lags in
         map_option (\<lambda>p95. \<lparr>sy_activity = activity, sy_object_type = object_type, sy_support = length lags, sy_lagging_count = lagging,
           sy_mean_readiness_lag_seconds = sample_mean lags, sy_p95_readiness_lag_seconds = p95\<rparr>) (sample_quantile lags (f64_lit (95 / 100))))
       (filter (\<lambda>(_, (lags, _)). minimum_support \<le> length lags) grouped)))"

section \<open>Drift\<close>

definition edge_change :: "(f64 \<Rightarrow> f64) \<Rightarrow> bottleneck_request \<Rightarrow> edge_key \<Rightarrow> f64 list \<Rightarrow> f64 list \<Rightarrow> bottleneck_change option" where
  "edge_change fexp request = (\<lambda>(object_type, source, target) left right.
    Option.bind (ks_statistic left right) (\<lambda>statistic.
    Option.bind (case br_slow_threshold_seconds request of Some t \<Rightarrow> Some t | None \<Rightarrow> upper_fence left) (\<lambda>threshold.
    Option.bind (sample_quantile right (F_fin (1 / 2))) (\<lambda>median_right. Option.bind (sample_quantile left (F_fin (1 / 2))) (\<lambda>median_left.
    Option.bind (sample_quantile right (f64_lit (95 / 100))) (\<lambda>p95_right. Option.bind (sample_quantile left (f64_lit (95 / 100))) (\<lambda>p95_left.
    let effective = f64_div (f64_of_nat (u64_wrapping (length left * length right))) (f64_of_nat (u64_wrapping (length left + length right))) in
    Some \<lparr>bc_object_type = object_type, bc_source_activity = source, bc_target_activity = target,
      bc_baseline_support = length left, bc_current_support = length right,
      bc_median_delta_seconds = f64_sub median_right median_left, bc_p95_delta_seconds = f64_sub p95_right p95_left,
      bc_impact_delta_seconds = f64_sub (excess_seconds threshold right) (excess_seconds threshold left),
      bc_ks_statistic = statistic, bc_p_value = kolmogorov_survival fexp (f64_mul (f64_sqrt effective) statistic),
      bc_q_value = f64_one\<rparr>)))))))"

definition change_cmp :: "bottleneck_change \<Rightarrow> bottleneck_change \<Rightarrow> ordering" where
  "change_cmp left right = then_with (total_cmp (bc_q_value left) (bc_q_value right))
     (total_cmp (f64_abs (bc_impact_delta_seconds right)) (f64_abs (bc_impact_delta_seconds left)))"

definition drift_changes :: "(f64 \<Rightarrow> f64) \<Rightarrow> bottleneck_observation list \<Rightarrow> distributions \<Rightarrow> bottleneck_request \<Rightarrow> bottleneck_change list option" where
  "drift_changes fexp baseline current request =
    (let baseline = edge_distributions baseline;
         keys = bset (map fst baseline @ map fst current);
         pairs = filter (\<lambda>(k, left, right). br_minimum_support request \<le> length left \<and> br_minimum_support request \<le> length right)
           (List.map_filter (\<lambda>k. Option.bind (bt_get baseline k) (\<lambda>left. map_option (\<lambda>right. (k, left, right)) (bt_get current k))) keys)
     in map_option (\<lambda>changes.
          let q_values = benjamini_hochberg (map bc_p_value changes);
              changes = map (\<lambda>(c, q). c\<lparr>bc_q_value := q\<rparr>) (zip changes q_values)
          in sort_by (\<lambda>l r. change_cmp l r \<noteq> Greater) changes)
        (those (map (\<lambda>(k, left, right). edge_change fexp request k left right) pairs)))"

section \<open>Temporal hypotheses\<close>

definition opt_value_eq :: "attribute_value option \<Rightarrow> attribute_value option \<Rightarrow> bool" where
  "opt_value_eq v w = (case (v, w) of (None, None) \<Rightarrow> True | (Some x, Some y) \<Rightarrow> attr_eq x y | _ \<Rightarrow> False)"

definition is_cause :: "temporal_hypothesis \<Rightarrow> bottleneck_observation \<Rightarrow> bool" where
  "is_cause h ob \<longleftrightarrow> bo_source_activity ob = th_cause_activity h \<and>
     (case th_cause_attribute h of None \<Rightarrow> True | Some name \<Rightarrow> opt_value_eq (bt_get (bo_source_attributes ob) name) (th_cause_value h))"

definition is_effect :: "temporal_hypothesis \<Rightarrow> bottleneck_observation \<Rightarrow> bool" where
  "is_effect h ob \<longleftrightarrow> bo_target_activity ob = th_effect_target_activity h \<and>
     (case th_effect_source_activity h of None \<Rightarrow> True | Some source \<Rightarrow> bo_source_activity ob = source)"

definition effect_present :: "temporal_hypothesis \<Rightarrow> bottleneck_observation \<Rightarrow> bool" where
  "effect_present h ob \<longleftrightarrow> f64_lt (th_effect_threshold_seconds h) (observed_duration ob)"

definition latest_cause :: "temporal_hypothesis \<Rightarrow> bottleneck_observation \<Rightarrow> int" where
  "latest_cause h ob = i128_saturating_sub (bo_source_timestamp_nanos ob) (seconds_to_nanos (th_minimum_lag_seconds h))"

definition earliest_cause :: "temporal_hypothesis \<Rightarrow> bottleneck_observation \<Rightarrow> int" where
  "earliest_cause h ob = (case th_maximum_lag_seconds h of None \<Rightarrow> i128_min
     | Some m \<Rightarrow> i128_saturating_sub (bo_source_timestamp_nanos ob) (seconds_to_nanos m))"

definition is_exposed :: "temporal_hypothesis \<Rightarrow> int list \<Rightarrow> bottleneck_observation \<Rightarrow> bool" where
  "is_exposed h causes ob \<longleftrightarrow>
     partition_point (\<lambda>v. v < earliest_cause h ob) causes < partition_point (\<lambda>v. v \<le> latest_cause h ob) causes"

text \<open>The four cells: exposed with and without effect, unexposed with and without effect.\<close>

type_synonym contingency = "nat \<times> nat \<times> nat \<times> nat"

definition count_effect :: "temporal_hypothesis \<Rightarrow> int list \<Rightarrow> bottleneck_observation \<Rightarrow> contingency \<Rightarrow> contingency" where
  "count_effect h causes ob = (\<lambda>(a, b, c, d).
     if is_exposed h causes ob then (if effect_present h ob then (a + 1, b, c, d) else (a, b + 1, c, d))
     else (if effect_present h ob then (a, b, c + 1, d) else (a, b, c, d + 1)))"

definition count_object :: "temporal_hypothesis \<Rightarrow> bottleneck_observation list \<Rightarrow> contingency \<Rightarrow> contingency" where
  "count_object h obs = fold (count_effect h (map bo_source_timestamp_nanos (filter (is_cause h) obs))) (filter (is_effect h) obs)"

definition observations_by_object :: "bottleneck_observation list \<Rightarrow> (nat, bottleneck_observation list) btree_map" where
  "observations_by_object observations = map (\<lambda>(k, obs). (k, sort_key bo_source_timestamp_nanos obs))
    (fold (\<lambda>ob. bt_push (bo_object_id ob) ob) observations [])"

definition test_hypothesis :: "(f64 \<Rightarrow> f64) \<Rightarrow> (nat, bottleneck_observation list) btree_map \<Rightarrow> temporal_hypothesis \<Rightarrow> causal_hypothesis_result" where
  "test_hypothesis fexp by_object h =
    (let (a, b, c, d) = fold (count_object h) (bt_values by_object) (0, 0, 0, 0);
         p_exposed = count_ratio a (a + b); p_unexposed = count_ratio c (c + d) in
     \<lparr>hy_id = th_id h, hy_exposed = a + b, hy_unexposed = c + d, hy_effect_given_cause = p_exposed, hy_effect_without_cause = p_unexposed,
       hy_risk_difference = f64_sub p_exposed p_unexposed,
       hy_risk_ratio = (if f64_lt f64_zero p_unexposed then Some (f64_div p_exposed p_unexposed) else None),
       hy_p_value = chi_square_p_value fexp a b c d, hy_q_value = f64_one, hy_supported = False\<rparr>)"

definition support_hypothesis :: "nat \<Rightarrow> causal_hypothesis_result \<times> f64 \<Rightarrow> causal_hypothesis_result" where
  "support_hypothesis minimum_support = (\<lambda>(r, q). r\<lparr>hy_q_value := q,
     hy_supported := (f64_le q (f64_lit (5 / 100)) \<and> f64_lt f64_zero (hy_risk_difference r) \<and>
       minimum_support \<le> hy_exposed r \<and> minimum_support \<le> hy_unexposed r)\<rparr>)"

definition temporal_hypotheses :: "(f64 \<Rightarrow> f64) \<Rightarrow> bottleneck_observation list \<Rightarrow> bottleneck_request \<Rightarrow> causal_hypothesis_result list" where
  "temporal_hypotheses fexp observations request =
    (if br_hypotheses request = [] then []
     else let results = map (test_hypothesis fexp (observations_by_object observations)) (br_hypotheses request);
              q_values = benjamini_hochberg (map hy_p_value results)
          in map (support_hypothesis (br_minimum_support request)) (zip results q_values))"

section \<open>The analysis\<close>

definition analysis_warnings :: "activity_instance list \<Rightarrow> bottleneck_request \<Rightarrow> string list" where
  "analysis_warnings instances request =
    (if instances = [] then [''queue, waiting-cause, and blocking results require paired start/complete lifecycle events''] else []) @
    (if instances \<noteq> [] \<and> (\<forall>x \<in> set instances. ai_resource x = [])
     then [''resource analysis requires event attribute '' @ [CHR 0x27] @ br_resource_attribute request @ [CHR 0x27] @ '' (or '' @ [CHR 0x27] @ ''resource'' @ [CHR 0x27] @ '')''] else []) @
    (if br_resource_calendars request = []
     then [''unavailability is not inferred; provide explicit resource_calendars to attribute it''] else [])"

text \<open>\<open>value?\<close> inside a function that may panic.\<close>

definition check_then :: "unit ocpm_result \<Rightarrow> 'a ocpm_result option \<Rightarrow> 'a ocpm_result option" where
  "check_then c k = (case c of Err e \<Rightarrow> Some (Err e) | Ok _ \<Rightarrow> k)"

text \<open>\<open>check k\<close> is the outcome of the \<open>k\<close>-th check.\<close>

definition analyze_observations_checked :: "(f64 \<Rightarrow> f64) \<Rightarrow> string \<Rightarrow> bottleneck_observation list \<Rightarrow> bottleneck_observation list option
    \<Rightarrow> bottleneck_request \<Rightarrow> (nat \<Rightarrow> unit ocpm_result) \<Rightarrow> bottleneck_result ocpm_result option" where
  "analyze_observations_checked fexp provider_name observations comparison request check =
    check_then (validate_bottleneck_request request) (check_then (check 0)
    (Option.bind (edge_signals observations request) (\<lambda>(signals, ds). check_then (check 1)
    (Option.bind (synchronization observations (br_minimum_support request)) (\<lambda>synchronized. check_then (check 2)
    (let instances = lifecycle_instances observations (br_resource_attribute request) in check_then (check 3)
    (Option.bind (waiting_causes instances request) (\<lambda>waiting. check_then (check 4)
    (Option.bind (resource_pressure instances (br_minimum_support request)) (\<lambda>pressure. check_then (check 5)
    (Option.bind (performance_patterns instances request) (\<lambda>patterns. check_then (check 6)
    (let cascades = blocking_cascades instances (br_minimum_support request) in check_then (check 7)
    (Option.bind (case comparison of None \<Rightarrow> Some [] | Some baseline \<Rightarrow> drift_changes fexp baseline ds request) (\<lambda>changes. check_then (check 8)
    (let hypotheses = temporal_hypotheses fexp observations request in check_then (check 9)
    (Some (Ok \<lparr>bres_semantic_version = ''1.0'', bres_signals = signals, bres_synchronization = synchronized, bres_waiting_causes = waiting,
      bres_resource_pressure = pressure, bres_changes = changes, bres_patterns = patterns, bres_cascades = cascades,
      bres_hypotheses = hypotheses, bres_warnings = analysis_warnings instances request,
      bres_diagnostics = \<lparr>bd_observation_count = length observations, bd_lifecycle_instance_count = length instances,
        bd_synchronized_event_count = synchronized_event_count observations, bd_provider = provider_name, bd_exact = True\<rparr>\<rparr>))))))))))))))))))"

definition analyze_observations :: "(f64 \<Rightarrow> f64) \<Rightarrow> string \<Rightarrow> bottleneck_observation list \<Rightarrow> bottleneck_observation list option
    \<Rightarrow> bottleneck_request \<Rightarrow> bottleneck_result ocpm_result option" where
  "analyze_observations fexp provider_name observations comparison request =
    analyze_observations_checked fexp provider_name observations comparison request (\<lambda>_. Ok ())"

text \<open>\<open>moments k\<close> is the context and the clock at the \<open>k\<close>-th check.\<close>

definition analyze_observations_with_context :: "(f64 \<Rightarrow> f64) \<Rightarrow> string \<Rightarrow> bottleneck_observation list \<Rightarrow> bottleneck_observation list option
    \<Rightarrow> bottleneck_request \<Rightarrow> (nat \<Rightarrow> execution_context \<times> nat) \<Rightarrow> bottleneck_result ocpm_result option" where
  "analyze_observations_with_context fexp provider_name observations comparison request moments =
    analyze_observations_checked fexp provider_name observations comparison request (\<lambda>k. ctx_check (fst (moments k)) (snd (moments k)))"

definition observation_projection :: "bottleneck_request \<Rightarrow> string list" where
  "observation_projection request =
    bset ([br_resource_attribute request, ''resource''] @ List.map_filter th_cause_attribute (br_hypotheses request))"

definition observation_request :: "bottleneck_request \<Rightarrow> dataset_view \<Rightarrow> bottleneck_observation_request" where
  "observation_request request view = \<lparr>bor_view = view, bor_leading_object_type = br_leading_object_type request\<rparr>"

type_synonym projected_method = "bottleneck_observation_request \<Rightarrow> string list \<Rightarrow> bottleneck_observation list ocpm_result"

definition compared_observations :: "projected_method \<Rightarrow> bottleneck_request \<Rightarrow> bottleneck_observation list option ocpm_result" where
  "compared_observations projected request = (case br_comparison_view request of None \<Rightarrow> Ok None
     | Some view \<Rightarrow> rbind (projected (observation_request request view) (observation_projection request)) (\<lambda>obs. Ok (Some obs)))"

definition analyze_bottlenecks :: "(f64 \<Rightarrow> f64) \<Rightarrow> string \<Rightarrow> projected_method \<Rightarrow> bottleneck_request \<Rightarrow> bottleneck_result ocpm_result option" where
  "analyze_bottlenecks fexp provider_name projected request =
    (case rbind (validate_bottleneck_request request) (\<lambda>_.
          rbind (projected (observation_request request (br_view request)) (observation_projection request)) (\<lambda>observations.
          rbind (compared_observations projected request) (\<lambda>comparison. Ok (observations, comparison)))) of
       Err e \<Rightarrow> Some (Err e)
     | Ok (observations, comparison) \<Rightarrow> analyze_observations fexp provider_name observations comparison request)"

text \<open>The checks of the phases follow the two after the acquisitions; the last one comes after the analysis.\<close>

definition analyze_bottlenecks_with_context :: "(f64 \<Rightarrow> f64) \<Rightarrow> string \<Rightarrow> projected_method \<Rightarrow> bottleneck_request \<Rightarrow> (nat \<Rightarrow> execution_context \<times> nat)
    \<Rightarrow> bottleneck_result ocpm_result option" where
  "analyze_bottlenecks_with_context fexp provider_name projected request moments =
    (let check = (\<lambda>k. ctx_check (fst (moments k)) (snd (moments k))) in
     case rbind (validate_bottleneck_request request) (\<lambda>_.
          rbind (projected (observation_request request (br_view request)) (observation_projection request)) (\<lambda>observations.
          rbind (check 0) (\<lambda>_.
          rbind (compared_observations projected request) (\<lambda>comparison.
          rbind (check 1) (\<lambda>_. Ok (observations, comparison)))))) of
       Err e \<Rightarrow> Some (Err e)
     | Ok (observations, comparison) \<Rightarrow>
         map_option (\<lambda>r. rbind r (\<lambda>result. rbind (check 12) (\<lambda>_. Ok result)))
           (analyze_observations_with_context fexp provider_name observations comparison request (\<lambda>k. moments (k + 2))))"

end
