(* ===== verification/BottleneckFacts.thy ===== *)
theory BottleneckFacts
  imports Bottleneck
begin

text \<open>
  The bottleneck analysis as a whole: the operations of the phases never leave their arrays, the counts of the temporal hypotheses,
  and the analysis with a context.
\<close>

section \<open>How many instances there are, and when they start\<close>

lemma length_bt_alter: "length (bt_alter k f m) \<le> Suc (length m)"
  by (induction k f m rule: bt_alter.induct) auto

definition point_count :: "point_map \<Rightarrow> nat" where
  "point_count m = sum_list (map (\<lambda>e. length (snd e)) m)"

lemma point_count_alter:
  assumes "length (f None) \<le> 1" "\<And>v. length (f (Some v)) \<le> Suc (length v)"
  shows "point_count (bt_alter k f m) \<le> Suc (point_count m)"
  using assms by (induction k f m rule: bt_alter.induct) (auto simp: point_count_def)

lemma point_count_insert: "point_count (insert_point ob point m) \<le> Suc (point_count m)"
  unfolding insert_point_def by (rule point_count_alter) (simp_all add: length_bt_alter)

lemma bt_alter_values:
  assumes "\<forall>e \<in> set m. Q (snd e)" "Q (f None)" "\<And>v. Q v \<Longrightarrow> Q (f (Some v))"
  shows "\<forall>e \<in> set (bt_alter k f m). Q (snd e)"
  using assms by (induction k f m rule: bt_alter.induct) auto

lemma point_count_observations: "point_count (observation_points observations) \<le> 2 * length observations"
proof -
  let ?f = "\<lambda>ob points. insert_point (bo_object_id ob, bo_object_type ob) (target_point ob)
       (insert_point (bo_object_id ob, bo_object_type ob) (source_point ob) points)"
  have "point_count (fold ?f observations m) \<le> point_count m + 2 * length observations" for m
  proof (induction observations arbitrary: m)
    case (Cons ob observations)
    have "point_count (?f ob m) \<le> point_count m + 2" using point_count_insert by (metis Suc_le_mono add_2_eq_Suc' le_trans)
    then show ?case using Cons.IH [of "?f ob m"] by simp
  qed simp
  from this [of "[]"] show ?thesis by (simp add: observation_points_def point_count_def)
qed

lemma lifecycle_step_length: "length (snd (lifecycle_step attribute points p s)) \<le> Suc (length (snd s))"
  by (cases p; cases s) (auto simp: lifecycle_step_def split: option.splits list.splits)

lemma lifecycle_group_length: "length (lifecycle_group attribute points base) \<le> length base + length points"
proof -
  have "length (snd (fold (lifecycle_step attribute points) ps s)) \<le> length (snd s) + length ps" for ps s
  proof (induction ps arbitrary: s)
    case (Cons p ps)
    then have "length (snd (fold (lifecycle_step attribute points) ps (lifecycle_step attribute points p s))) \<le>
        length (snd (lifecycle_step attribute points p s)) + length ps" by blast
    then show ?case using lifecycle_step_length [of attribute points p s] by simp
  qed simp
  from this [of "indexed points" "([], base)"] show ?thesis by (simp add: lifecycle_group_def indexed_def)
qed

lemma lifecycle_instances_length: "length (lifecycle_instances observations attribute) \<le> 2 * length observations"
proof -
  have "length (fold (\<lambda>(_, ordered). lifecycle_group attribute (bt_values ordered)) m base) \<le> length base + point_count m" for m base
  proof (induction m arbitrary: base)
    case (Cons e m)
    let ?base = "lifecycle_group attribute (bt_values (snd e)) base"
    have "length (fold (\<lambda>(_, ordered). lifecycle_group attribute (bt_values ordered)) m ?base) \<le> length ?base + point_count m" by (rule Cons.IH)
    moreover have "length ?base \<le> length base + length (snd e)"
      using lifecycle_group_length [of attribute "bt_values (snd e)" base] by (simp add: bt_values_def)
    moreover have "point_count (e # m) = length (snd e) + point_count m" by (simp add: point_count_def)
    ultimately show ?case by (simp add: case_prod_unfold)
  qed (simp add: point_count_def)
  from this [where m = "observation_points observations" and base = "[]"] show ?thesis
    using point_count_observations [of observations] by (auto simp: lifecycle_instances_def)
qed

definition observed_times :: "bottleneck_observation list \<Rightarrow> int set" where
  "observed_times observations = bo_source_timestamp_nanos ` set observations \<union> bo_target_timestamp_nanos ` set observations"

lemma insert_point_times:
  assumes "\<forall>e \<in> set m. \<forall>p \<in> set (snd e). ep_timestamp (snd p) \<in> T" "ep_timestamp point \<in> T"
  shows "\<forall>e \<in> set (insert_point ob point m). \<forall>p \<in> set (snd e). ep_timestamp (snd p) \<in> T"
  unfolding insert_point_def
proof (rule bt_alter_values [where Q = "\<lambda>ordered. \<forall>p \<in> set ordered. ep_timestamp (snd p) \<in> T", OF assms(1)])
  have inner: "\<forall>p \<in> set (bt_alter k (\<lambda>old. case old of None \<Rightarrow> point | Some p \<Rightarrow> p) ordered). ep_timestamp (snd p) \<in> T"
    if "\<forall>p \<in> set ordered. ep_timestamp (snd p) \<in> T" for k ordered
    by (rule bt_alter_values [where Q = "\<lambda>p. ep_timestamp p \<in> T", OF that]) (use assms(2) in simp_all)
  show "\<forall>p \<in> set (bt_alter (ep_timestamp point, ep_event_id point, ep_event_id point) (\<lambda>old. case old of None \<Rightarrow> point | Some p \<Rightarrow> p)
      (case None of None \<Rightarrow> [] | Some m \<Rightarrow> m)). ep_timestamp (snd p) \<in> T" by (rule inner) simp
  show "\<forall>p \<in> set (bt_alter (ep_timestamp point, ep_event_id point, ep_event_id point) (\<lambda>old. case old of None \<Rightarrow> point | Some p \<Rightarrow> p)
      (case Some v of None \<Rightarrow> [] | Some m \<Rightarrow> m)). ep_timestamp (snd p) \<in> T" if "\<forall>p \<in> set v. ep_timestamp (snd p) \<in> T" for v
    by (rule inner) (use that in simp)
qed

lemma observation_points_times:
  "\<forall>e \<in> set (observation_points observations). \<forall>p \<in> set (snd e). ep_timestamp (snd p) \<in> observed_times observations"
proof -
  have "\<forall>e \<in> set (fold (\<lambda>ob points. insert_point (bo_object_id ob, bo_object_type ob) (target_point ob)
       (insert_point (bo_object_id ob, bo_object_type ob) (source_point ob) points)) obs m). \<forall>p \<in> set (snd e). ep_timestamp (snd p) \<in> T"
    if "\<forall>e \<in> set m. \<forall>p \<in> set (snd e). ep_timestamp (snd p) \<in> T" "observed_times obs \<subseteq> T" for obs m T
    using that
  proof (induction obs arbitrary: m)
    case (Cons ob obs)
    have "ep_timestamp (source_point ob) \<in> T" "ep_timestamp (target_point ob) \<in> T" "observed_times obs \<subseteq> T"
      using Cons.prems(2) by (auto simp: observed_times_def source_point_def target_point_def)
    then show ?case
      unfolding fold_simps(2) by (intro Cons.IH insert_point_times Cons.prems(1))
  qed simp
  from this [where m = "[]" and obs = observations and T = "observed_times observations"] show ?thesis by (simp add: observation_points_def)
qed

lemma lifecycle_group_starts:
  assumes "\<forall>p \<in> set points. ep_timestamp p \<in> T" "\<forall>x \<in> set base. ai_start x \<in> T"
  shows "\<forall>x \<in> set (lifecycle_group attribute points base). ai_start x \<in> T"
proof -
  let ?inv = "\<lambda>(starts, result). (\<forall>e \<in> set starts. \<forall>q \<in> set (snd e). fst (snd q) \<in> T) \<and> (\<forall>x \<in> set result. ai_start x \<in> T)"
  have step: "?inv (lifecycle_step attribute points (i, p) s)" if p: "p \<in> set points" and inv: "?inv s" for i p s
  proof -
    obtain starts result where s: "s = (starts, result)" by (cases s)
    let ?Q = "\<lambda>v. \<forall>q \<in> set v. fst (snd q) \<in> T"
    have inv: "\<forall>e \<in> set starts. ?Q (snd e)" "\<forall>x \<in> set result. ai_start x \<in> T" using inv by (simp_all add: s)
    have get: "?Q v" if "bt_get starts k = Some v" for k v
      using inv(1) that by (metis bt_get_def map_of_SomeD snd_conv)
    have push: "\<forall>e \<in> set (bt_push a (r, ep_timestamp p, c) starts). ?Q (snd e)" for a r c
      unfolding bt_push_def by (rule bt_alter_values [where Q = ?Q, OF inv(1)]) (use assms(1) p in auto)
    have insert: "\<forall>e \<in> set (bt_insert a w starts). ?Q (snd e)" if "?Q w" for a w
      unfolding bt_insert_def by (rule bt_alter_values [where Q = ?Q, OF inv(1)]) (use that in auto)
    show ?thesis
    proof (cases "begins p")
      case True
      then show ?thesis using push inv(2) by (simp add: s lifecycle_step_def)
    next
      case False
      show ?thesis
      proof (cases "finishes p \<and> (\<exists>e queue. bt_get starts (ep_activity p) = Some (e # queue))")
        case True
        then obtain r t c queue where q: "bt_get starts (ep_activity p) = Some ((r, t, c) # queue)" by (metis prod_cases3)
        have "?Q ((r, t, c) # queue)" by (rule get [OF q])
        then have "\<forall>e \<in> set (bt_insert (ep_activity p) queue starts). ?Q (snd e)" "t \<in> T" by (intro insert, simp_all)
        then show ?thesis using True False q inv(2) by (simp add: s lifecycle_step_def)
      next
        case False
        then have "lifecycle_step attribute points (i, p) s = s"
          using \<open>\<not> begins p\<close> by (auto simp: s lifecycle_step_def split: option.splits list.splits)
        then show ?thesis using inv by (simp add: s)
      qed
    qed
  qed
  have "?inv (fold (lifecycle_step attribute points) ps s)" if "\<forall>p \<in> set ps. snd p \<in> set points" "?inv s" for ps s
    using that
  proof (induction ps arbitrary: s)
    case (Cons p ps)
    have "?inv (lifecycle_step attribute points p s)" using step [of "snd p" s "fst p"] Cons.prems by simp
    then show ?case using Cons by simp
  qed simp
  moreover have "\<forall>p \<in> set (indexed points). snd p \<in> set points" by (auto simp: set_indexed)
  ultimately have "?inv (fold (lifecycle_step attribute points) (indexed points) ([], base))" using assms(2) by simp
  then show ?thesis by (auto simp: lifecycle_group_def split: prod.splits)
qed

lemma lifecycle_instances_starts: "\<forall>x \<in> set (lifecycle_instances observations attribute). ai_start x \<in> observed_times observations"
proof -
  have "\<forall>x \<in> set (fold (\<lambda>(_, ordered). lifecycle_group attribute (bt_values ordered)) m base). ai_start x \<in> T"
    if "\<forall>e \<in> set m. \<forall>p \<in> set (snd e). ep_timestamp (snd p) \<in> T" "\<forall>x \<in> set base. ai_start x \<in> T" for m base T
    using that
  proof (induction m arbitrary: base)
    case (Cons e m)
    have "\<forall>x \<in> set (lifecycle_group attribute (bt_values (snd e)) base). ai_start x \<in> T"
      using Cons.prems by (intro lifecycle_group_starts) (auto simp: bt_values_def)
    then show ?case using Cons by (simp add: case_prod_unfold)
  qed simp
  note this [OF observation_points_times, of "[]"]
  then show ?thesis by (simp add: lifecycle_instances_def)
qed

section \<open>No phase leaves its arrays\<close>

lemma those_total: "(\<And>x. x \<in> set xs \<Longrightarrow> \<exists>y. f x = Some y) \<Longrightarrow> \<exists>ys. those (map f xs) = Some ys"
  by (induction xs) (auto split: option.splits)

lemma overlap_total: "\<exists>v. overlap_seconds (busy_timeline_new xs) start stop = Some v"
proof -
  have len: "length (foldl prefix_step ps m) = length ps + length m" for ps m
    by (induction m arbitrary: ps) (auto simp: prefix_step_def)
  have "overlap_nanos (busy_timeline_new xs) start stop \<noteq> None"
    using partition_point_le [of "\<lambda>(_, b). b \<le> start" "merge_intervals xs"] partition_point_le [of "\<lambda>(a, _). a < stop" "merge_intervals xs"]
    by (auto simp: overlap_nanos_def busy_timeline_new_def Let_def len nth_opt_def split: prod.splits)
  then show ?thesis by (auto simp: overlap_seconds_def)
qed

lemma fold_opt_total: "(\<And>x s. x \<in> set xs \<Longrightarrow> \<exists>s'. f x s = Some s') \<Longrightarrow> \<exists>s'. fold_opt f xs s = Some s'"
  by (induction xs arbitrary: s) (auto, metis bind.bind_lunit)

lemma contention_total: "\<exists>v. contention_seconds (busy_timelines instances) x = Some v"
proof (cases "bt_get (busy_timelines instances) (ai_resource x)")
  case (Some timeline)
  then obtain xs where "timeline = busy_timeline_new xs"
    by (auto simp: busy_timelines_def bt_get_def dest!: map_of_SomeD)
  then show ?thesis using overlap_total Some by (simp add: contention_seconds_def)
qed (simp add: contention_seconds_def)

lemma waiting_causes_total:
  assumes "length instances < 2 ^ 63" "\<forall>x \<in> set instances. ai_start x \<le> i128_max" "distinct (map ai_id instances)"
  shows "\<exists>r. waiting_causes instances request = Some r"
proof -
  obtain m where m: "overtaking_delays instances = Some m" using overtaking_delays_values [OF assms] by blast
  have "\<exists>w. instance_wait (busy_timelines instances) batch m request x = Some w" for batch x
    using contention_total [of instances x] by (auto simp: instance_wait_def)
  then have "\<exists>g. fold_opt (\<lambda>x grouped. map_option (\<lambda>w. add_wait x w grouped)
      (instance_wait (busy_timelines instances) (batch_delays instances request) m request x)) (with_resource instances) [] = Some g"
    by (intro fold_opt_total) (metis option.simps(9))
  then show ?thesis by (auto simp: waiting_causes_def m Let_def)
qed

lemma activity_group_length: "((a, r), xs) \<in> set (activity_groups instances) \<Longrightarrow> length xs \<le> length instances \<and> xs \<noteq> []"
proof -
  assume "((a, r), xs) \<in> set (activity_groups instances)"
  then have "xs = filter (\<lambda>x. group_key x = (a, r)) (with_resource instances) \<and> (\<exists>x \<in> set (with_resource instances). group_key x = (a, r))"
    using fold_push_in [where key = group_key and val = "\<lambda>x. x" and xs = "with_resource instances"] by (simp add: activity_groups_def)
  then show ?thesis by (auto simp: with_resource_def filter_empty_conv le_trans [OF length_filter_le length_filter_le])
qed

lemma resource_pressure_total:
  assumes "length instances \<le> 2 ^ 53"
  shows "\<exists>r. resource_pressure instances minimum_support = Some r"
  unfolding resource_pressure_def
proof (rule those_total)
  fix e assume mem: "e \<in> set (filter (\<lambda>(_, xs). minimum_support \<le> length xs \<and> xs \<noteq> []) (activity_groups instances))"
  obtain a r xs where e: "e = ((a, r), xs)" by (metis surj_pair)
  then have len: "length xs \<le> 2 ^ 53" using mem activity_group_length [of a r xs instances] assms by simp
  obtain busy where busy: "overlap_seconds (busy_timeline_new (map (\<lambda>x. (ai_start x, ai_complete x)) xs))
      (fold min (map ai_ready (tl xs)) (ai_ready (hd xs))) (fold max (map ai_complete (tl xs)) (ai_complete (hd xs))) = Some busy"
    using overlap_total by blast
  obtain p95 where p95: "sample_quantile (sort_by f64_total_le (map wait_seconds xs)) (f64_lit (95 / 100)) = Some p95"
    using quantile_total [of "sort_by f64_total_le (map wait_seconds xs)"] len by auto
  show "\<exists>y. (case e of (k, xs) \<Rightarrow> (case k of (activity, resource) \<Rightarrow> group_pressure activity resource) xs) = Some y"
    unfolding e prod.case group_pressure_def Let_def busy p95 bind.bind_lunit by blast
qed

lemma performance_patterns_total:
  assumes "length instances < 2 ^ 32"
  shows "\<exists>r. performance_patterns instances request = Some r"
  unfolding performance_patterns_def
proof (rule those_total)
  fix e assume mem: "e \<in> set (filter (\<lambda>(_, xs). br_minimum_support request \<le> length xs) (activity_groups instances))"
  obtain a r xs where e: "e = ((a, r), xs)" by (metis surj_pair)
  then have len: "length xs < 2 ^ 32" using mem activity_group_length [of a r xs instances] assms by simp
  obtain n where n: "inversion_count (map ai_ready (sort_key ai_start xs)) = Some n"
    using inversion_count_total [of "map ai_ready (sort_key ai_start xs)"] len by auto
  show "\<exists>y. (case e of (k, xs) \<Rightarrow> (case k of (activity, resource) \<Rightarrow> group_pattern request activity resource) xs) = Some y"
    unfolding e prod.case group_pattern_def Let_def n option.map by blast
qed

text \<open>The samples of the edges are numbers, ascending, and no longer than the observations.\<close>

lemma edge_distribution_props:
  assumes "(k, vs) \<in> set (edge_distributions observations)"
  shows "ascending vs" "vs \<noteq> []" "length vs \<le> length observations"
proof -
  let ?good = "\<lambda>ob. f64_le f64_zero (observed_duration ob) \<and> f64_is_finite (observed_duration ob)"
  have "fold (\<lambda>ob grouped. let duration = observed_duration ob in
      if f64_le f64_zero duration \<and> f64_is_finite duration then bt_push (edge_key_of ob) duration grouped else grouped) observations m =
      fold (\<lambda>ob. bt_push (edge_key_of ob) (observed_duration ob)) (filter ?good observations) m" for m
    by (induction observations arbitrary: m) (auto simp: Let_def)
  then obtain us where us: "(k, us) \<in> set (fold (\<lambda>ob. bt_push (edge_key_of ob) (observed_duration ob)) (filter ?good observations) [])"
    "vs = sort_by f64_total_le us"
    using assms by (auto simp: edge_distributions_def)
  have u: "us = map observed_duration (filter (\<lambda>ob. edge_key_of ob = k) (filter ?good observations))"
    "\<exists>ob \<in> set (filter ?good observations). edge_key_of ob = k" using us(1) by (simp_all add: fold_push_in)
  have "F_nan \<notin> set us" unfolding u(1) by (auto simp: f64_le_def)
  then show "ascending vs" unfolding us(2) by (rule total_sorted_ascending)
  have "us \<noteq> []" using u by (auto simp: filter_empty_conv)
  then show "vs \<noteq> []" unfolding us(2) by (metis length_sort_by length_0_conv)
  have "length us \<le> length observations" unfolding u(1) by (simp add: le_trans [OF length_filter_le length_filter_le])
  then show "length vs \<le> length observations" by (simp add: us(2))
qed

lemma upper_fence_total: "length vs \<le> 2 ^ 53 \<Longrightarrow> \<exists>v. upper_fence vs = Some v"
  using quantile_total [of vs "F_fin (1 / 4)"] quantile_total [of vs "F_fin (3 / 4)"] by (auto simp: upper_fence_def)

lemma edge_signal_total:
  assumes "length vs \<le> 2 ^ 53"
  shows "\<exists>s. edge_signal request (k, vs) = Some s"
proof -
  obtain fence where fence: "upper_fence vs = Some fence" using upper_fence_total [OF assms] by blast
  obtain a b c d where q: "sample_quantile vs (br_tail_quantile request) = Some a" "sample_quantile vs (F_fin (1 / 2)) = Some b"
    "sample_quantile vs (f64_lit (9 / 10)) = Some c" "sample_quantile vs (f64_lit (95 / 100)) = Some d"
    using quantile_total [OF assms] by meson
  obtain object_type source_activity target_activity where k: "k = (object_type, source_activity, target_activity)" by (metis surj_pair)
  show ?thesis unfolding k edge_signal_def prod.case fence q bind.bind_lunit Let_def by blast
qed

lemma edge_signals_total:
  assumes "length observations \<le> 2 ^ 53"
  shows "\<exists>r. edge_signals observations request = Some r"
proof -
  have "\<exists>ss. those (map (edge_signal request) (filter (\<lambda>(_, vs). br_minimum_support request \<le> length vs) (edge_distributions observations))) = Some ss"
  proof (rule those_total)
    fix e assume e: "e \<in> set (filter (\<lambda>(_, vs). br_minimum_support request \<le> length vs) (edge_distributions observations))"
    then have "(fst e, snd e) \<in> set (edge_distributions observations)" by simp
    then have "length (snd e) \<le> 2 ^ 53" using edge_distribution_props(3) assms by (meson le_trans)
    then show "\<exists>s. edge_signal request e = Some s" using edge_signal_total [of "snd e" request "fst e"] by simp
  qed
  then show ?thesis by (auto simp: edge_signals_def Let_def)
qed

lemma bt_alter_grows:
  assumes "\<forall>e \<in> set m. Q (snd e)" "\<And>v. Q v \<Longrightarrow> R v" "R (f None)" "\<And>v. Q v \<Longrightarrow> R (f (Some v))"
  shows "\<forall>e \<in> set (bt_alter k f m). R (snd e)"
  using assms by (induction k f m rule: bt_alter.induct) auto

definition lags_within :: "nat \<Rightarrow> (string \<times> string, f64 list \<times> nat) btree_map \<Rightarrow> bool" where
  "lags_within n m \<longleftrightarrow> (\<forall>e \<in> set m. length (fst (snd e)) \<le> n)"

lemma add_lag_within: "lags_within n m \<Longrightarrow> lags_within (Suc n) (add_lag latest ob m)"
  unfolding lags_within_def add_lag_def
  by (rule bt_alter_grows [where Q = "\<lambda>e. length (fst e) \<le> n"]) (auto simp: Let_def split: prod.splits)

lemma event_lags_within: "lags_within n m \<Longrightarrow> lags_within (n + length obs) (event_lags obs m)"
proof -
  have "lags_within n m \<Longrightarrow> lags_within (n + length obs) (fold (add_lag latest) obs m)" for latest n m
  proof (induction obs arbitrary: n m)
    case (Cons ob obs)
    then show ?case using Cons.IH [OF add_lag_within [OF Cons.prems]] by simp
  qed simp
  moreover have "lags_within n m \<Longrightarrow> lags_within (n + length obs) m" by (auto simp: lags_within_def intro: trans_le_add1)
  ultimately show "lags_within n m \<Longrightarrow> ?thesis" by (simp add: event_lags_def Let_def)
qed

lemma push_length: "sum_list (map length (bt_values (bt_push k x m))) = Suc (sum_list (map length (bt_values m)))"
proof -
  have "sum_list (map (\<lambda>e. length (snd e)) (bt_alter k (\<lambda>e. case e of None \<Rightarrow> [x] | Some us \<Rightarrow> us @ [x]) m)) =
      Suc (sum_list (map (\<lambda>e. length (snd e)) m))"
    by (induction k "\<lambda>e. case e of None \<Rightarrow> [x] | Some us \<Rightarrow> us @ [x]" m rule: bt_alter.induct) auto
  then show ?thesis by (simp add: bt_push_def bt_values_def comp_def)
qed

lemma push_lengths: "sum_list (map length (bt_values (fold (\<lambda>x. bt_push (key x) x) xs m))) = sum_list (map length (bt_values m)) + length xs"
  by (induction xs arbitrary: m) (simp_all add: push_length)

lemma synchronization_total:
  assumes "length observations \<le> 2 ^ 53"
  shows "\<exists>r. synchronization observations minimum_support = Some r"
proof -
  let ?by_event = "fold (\<lambda>ob. bt_push (bo_target_event_id ob) ob) observations []"
  have fold: "lags_within n m \<Longrightarrow> lags_within (n + sum_list (map length vss)) (fold event_lags vss m)" for n m vss
  proof (induction vss arbitrary: n m)
    case (Cons vs vss)
    then show ?case using Cons.IH [OF event_lags_within [OF Cons.prems, of vs]] by (simp add: add.assoc)
  qed simp
  have "lags_within 0 []" by (simp add: lags_within_def)
  note fold [OF this, of "bt_values ?by_event"]
  then have within: "lags_within (length observations) (fold event_lags (bt_values ?by_event) [])"
    unfolding push_lengths [where key = bo_target_event_id] by (simp add: bt_values_def)
  show ?thesis
    unfolding synchronization_def Let_def
  proof (rule those_total)
    fix e assume mem: "e \<in> set (filter (\<lambda>(_, (lags, _)). minimum_support \<le> length lags) (fold event_lags (bt_values ?by_event) []))"
    obtain a t lags n where e: "e = ((a, t), (lags, n))" by (metis surj_pair)
    then have "length lags \<le> length observations" using mem within by (fastforce simp: lags_within_def)
    then obtain p95 where "sample_quantile (sort_by f64_total_le lags) (f64_lit (95 / 100)) = Some p95"
      using quantile_total [of "sort_by f64_total_le lags"] assms by fastforce
    then show "\<exists>y. (case e of (k, v) \<Rightarrow> (case k of (activity, object_type) \<Rightarrow> \<lambda>(lags, lagging). map_option (\<lambda>p95.
        \<lparr>sy_activity = activity, sy_object_type = object_type, sy_support = length (sort_by f64_total_le lags), sy_lagging_count = lagging,
          sy_mean_readiness_lag_seconds = sample_mean (sort_by f64_total_le lags), sy_p95_readiness_lag_seconds = p95\<rparr>)
        (sample_quantile (sort_by f64_total_le lags) (f64_lit (95 / 100)))) v) = Some y"
      by (simp add: e)
  qed
qed

lemma drift_changes_total:
  assumes "length observations \<le> 2 ^ 53" "length baseline \<le> 2 ^ 53"
  shows "\<exists>r. drift_changes fexp baseline (edge_distributions observations) request = Some r"
proof -
  have "\<exists>c. edge_change fexp request k left right = Some c"
    if "(k, left) \<in> set (edge_distributions baseline)" "(k, right) \<in> set (edge_distributions observations)" for k left right
  proof -
    note l = edge_distribution_props [OF that(1)] and r = edge_distribution_props [OF that(2)]
    have len: "length left \<le> 2 ^ 53" "length right \<le> 2 ^ 53" using l(3) r(3) assms by simp_all
    have "length left \<le> u64_max" "length right \<le> u64_max" using len by (simp_all add: u64_max_def)
    then obtain d where d: "ks_statistic left right = Some d" using ks_statistic_total [OF l(1) r(1) l(2) r(2)] by blast
    obtain t where t: "(case br_slow_threshold_seconds request of Some t \<Rightarrow> Some t | None \<Rightarrow> upper_fence left) = Some t"
      using upper_fence_total [OF len(1)] by (cases "br_slow_threshold_seconds request") auto
    obtain a b c e where q: "sample_quantile right (F_fin (1 / 2)) = Some a" "sample_quantile left (F_fin (1 / 2)) = Some b"
      "sample_quantile right (f64_lit (95 / 100)) = Some c" "sample_quantile left (f64_lit (95 / 100)) = Some e"
      using quantile_total [OF len(1)] quantile_total [OF len(2)] by meson
    obtain object_type source_activity target_activity where k: "k = (object_type, source_activity, target_activity)" by (metis surj_pair)
    show ?thesis unfolding k edge_change_def prod.case d t q bind.bind_lunit Let_def by blast
  qed
  then have "\<exists>cs. those (map (\<lambda>(k, left, right). edge_change fexp request k left right) pairs) = Some cs"
    if "\<forall>(k, left, right) \<in> set pairs. (k, left) \<in> set (edge_distributions baseline) \<and> (k, right) \<in> set (edge_distributions observations)" for pairs
    using that by (intro those_total) fastforce
  moreover have "\<forall>(k, left, right) \<in> set (filter (\<lambda>(k, left, right). br_minimum_support request \<le> length left \<and> br_minimum_support request \<le> length right)
      (List.map_filter (\<lambda>k. Option.bind (bt_get (edge_distributions baseline) k) (\<lambda>left. map_option (\<lambda>right. (k, left, right)) (bt_get (edge_distributions observations) k))) keys)).
      (k, left) \<in> set (edge_distributions baseline) \<and> (k, right) \<in> set (edge_distributions observations)" for keys
    by (auto simp: List.map_filter_def bt_get_def Option.bind_eq_Some_conv dest: map_of_SomeD)
  ultimately show ?thesis unfolding drift_changes_def Let_def by (metis (no_types, lifting) option.simps(9))
qed

section \<open>The phases\<close>

lemma check_then_Some: "(\<exists>r. k = Some r) \<Longrightarrow> \<exists>r. check_then c k = Some r"
  by (cases c) (auto simp: check_then_def)

lemma check_then_Ok: "check_then c k = Some (Ok r) \<longleftrightarrow> is_ok c \<and> k = Some (Ok r)"
  by (cases c) (auto simp: check_then_def)

text \<open>The sizes and times for which the phases are known not to panic.\<close>

definition small_input :: "bottleneck_observation list \<Rightarrow> bottleneck_observation list option \<Rightarrow> bool" where
  "small_input observations comparison \<longleftrightarrow> length observations < 2 ^ 31 \<and> (\<forall>t \<in> observed_times observations. t \<le> i128_max) \<and>
     (case comparison of None \<Rightarrow> True | Some baseline \<Rightarrow> length baseline \<le> 2 ^ 53)"

lemma analysis_total:
  assumes "small_input observations comparison"
  shows "\<exists>r. analyze_observations_checked fexp provider_name observations comparison request check = Some r"
proof -
  have len: "length observations < 2 ^ 31" using assms by (simp add: small_input_def)
  then have obs: "length observations \<le> 2 ^ 53" by simp
  define instances where "instances = lifecycle_instances observations (br_resource_attribute request)"
  have count: "length instances < 2 ^ 32"
    using lifecycle_instances_length [of observations "br_resource_attribute request"] len by (simp add: instances_def)
  have starts: "\<forall>x \<in> set instances. ai_start x \<le> i128_max"
    using lifecycle_instances_starts assms unfolding instances_def small_input_def by blast
  have "instances_ok instances" unfolding instances_def by (rule lifecycle_instances_ok)
  then have ids: "distinct (map ai_id instances)" by (simp add: instances_ok_def)
  obtain signals ds where signals: "edge_signals observations request = Some (signals, ds)"
    using edge_signals_total [OF obs, of request] by auto
  have ds: "ds = edge_distributions observations" using signals by (auto simp: edge_signals_def Let_def)
  obtain sync where sync: "synchronization observations (br_minimum_support request) = Some sync"
    using synchronization_total [OF obs] by blast
  have "length instances < 2 ^ 63" "length instances \<le> 2 ^ 53" using count by simp_all
  then obtain waiting pressure where waiting: "waiting_causes instances request = Some waiting"
    and pressure: "resource_pressure instances (br_minimum_support request) = Some pressure"
    using waiting_causes_total [OF _ starts ids] resource_pressure_total by meson
  obtain patterns where patterns: "performance_patterns instances request = Some patterns" using performance_patterns_total [OF count] by blast
  obtain changes where changes: "(case comparison of None \<Rightarrow> Some [] | Some baseline \<Rightarrow> drift_changes fexp baseline ds request) = Some changes"
  proof (cases comparison)
    case (Some baseline)
    then have "length baseline \<le> 2 ^ 53" using assms by (simp add: small_input_def)
    then show thesis using drift_changes_total [OF obs, of baseline fexp request] that Some ds by auto
  qed simp
  show ?thesis
    unfolding analyze_observations_checked_def instances_def [symmetric] Let_def signals sync waiting pressure patterns changes bind.bind_lunit prod.case
    by (intro check_then_Some exI) (rule refl)
qed

lemma analysis_checks:
  "analyze_observations_checked fexp provider_name observations comparison request check = Some (Ok r) \<longleftrightarrow>
     analyze_observations fexp provider_name observations comparison request = Some (Ok r) \<and> (\<forall>k < 10. is_ok (check k))"
proof -
  have all: "(\<forall>k < 10. is_ok (check k)) \<longleftrightarrow> is_ok (check 0) \<and> is_ok (check 1) \<and> is_ok (check 2) \<and> is_ok (check 3) \<and> is_ok (check 4) \<and>
      is_ok (check 5) \<and> is_ok (check 6) \<and> is_ok (check 7) \<and> is_ok (check 8) \<and> is_ok (check 9)"
    by (simp add: numeral_eq_Suc All_less_Suc, blast)
  show ?thesis
    unfolding analyze_observations_def analyze_observations_checked_def all
    by (simp only: check_then_Ok Option.bind_eq_Some_conv Let_def case_prod_unfold is_ok_simps simp_thms) blast
qed

text \<open>
  C25: the bottleneck analysis never panics: for fewer than \<open>2 ^ 31\<close> observations with timestamps of the width of \<open>i128\<close>, whatever
  the request, the platform's exponential and the outcomes of the checks are, every index stays within its array, every walk ends
  and the analysis returns a result or an error.
\<close>

theorem analyze_observations_total:
  assumes "length observations < 2 ^ 31"
    and "\<forall>ob \<in> set observations. bo_source_timestamp_nanos ob \<le> i128_max \<and> bo_target_timestamp_nanos ob \<le> i128_max"
    and "case comparison of None \<Rightarrow> True | Some baseline \<Rightarrow> length baseline \<le> 2 ^ 53"
  shows "analyze_observations_checked fexp provider_name observations comparison request check \<noteq> None"
proof -
  have "small_input observations comparison" using assms by (auto simp: small_input_def observed_times_def)
  then show ?thesis using analysis_total by blast
qed

theorem analyze_observations_total_witness:
  "analyze_observations_checked (\<lambda>x. x) ''local'' lifecycle_sample (Some lifecycle_sample) default_bottleneck_request (\<lambda>_. Ok ()) \<noteq> None"
  by (rule analyze_observations_total) (simp_all add: lifecycle_sample_def i128_max_def)

lemma stopped_before: "ctx_step\<^sup>*\<^sup>* a b \<Longrightarrow> is_ok (ctx_check (fst b) (snd b)) \<Longrightarrow> is_ok (ctx_check (fst a) (snd a))"
  using ctx_steps_stopped by blast

lemma moments_before:
  assumes "\<And>k. ctx_step\<^sup>*\<^sup>* (moments k) (moments (Suc k))" "is_ok (ctx_check (fst (moments n)) (snd (moments n)))"
  shows "k \<le> n \<Longrightarrow> is_ok (ctx_check (fst (moments k)) (snd (moments k)))"
proof (induction rule: inc_induct)
  case (step j)
  then show ?case using stopped_before [OF assms(1)] by blast
qed (rule assms(2))

lemma analyze_bottlenecks_Ok:
  "analyze_bottlenecks fexp provider_name projected request = Some (Ok r) \<longleftrightarrow> is_ok (validate_bottleneck_request request) \<and>
    (\<exists>observations comparison. projected (observation_request request (br_view request)) (observation_projection request) = Ok observations \<and>
      compared_observations projected request = Ok comparison \<and> analyze_observations fexp provider_name observations comparison request = Some (Ok r))"
proof -
  let ?acquire = "rbind (validate_bottleneck_request request) (\<lambda>_.
    rbind (projected (observation_request request (br_view request)) (observation_projection request)) (\<lambda>observations.
    rbind (compared_observations projected request) (\<lambda>comparison. Ok (observations, comparison))))"
  show ?thesis
  proof (cases ?acquire)
    case (Inl e)
    then show ?thesis by (auto simp: analyze_bottlenecks_def result_simps is_ok_iff)
  next
    case (Inr p)
    then show ?thesis by (cases p) (auto simp: analyze_bottlenecks_def result_simps is_ok_iff)
  qed
qed

lemma analyze_bottlenecks_with_context_Ok:
  "analyze_bottlenecks_with_context fexp provider_name projected request moments = Some (Ok r) \<longleftrightarrow>
    analyze_bottlenecks fexp provider_name projected request = Some (Ok r) \<and> (\<forall>k < 13. is_ok (ctx_check (fst (moments k)) (snd (moments k))))"
proof -
  let ?check = "\<lambda>k. ctx_check (fst (moments k)) (snd (moments k))"
  let ?acquire = "rbind (validate_bottleneck_request request) (\<lambda>_.
    rbind (projected (observation_request request (br_view request)) (observation_projection request)) (\<lambda>observations.
    rbind (?check 0) (\<lambda>_. rbind (compared_observations projected request) (\<lambda>comparison.
    rbind (?check 1) (\<lambda>_. Ok (observations, comparison))))))"
  have all: "(\<forall>k < 13. is_ok (?check k)) \<longleftrightarrow> is_ok (?check 0) \<and> is_ok (?check 1) \<and> (\<forall>k < 10. is_ok (?check (k + 2))) \<and> is_ok (?check 12)"
    by (simp add: numeral_eq_Suc All_less_Suc, blast)
  have run: "analyze_bottlenecks_with_context fexp provider_name projected request moments = Some (Ok r) \<longleftrightarrow>
    (\<exists>observations comparison. ?acquire = Ok (observations, comparison) \<and>
      analyze_observations fexp provider_name observations comparison request = Some (Ok r) \<and> (\<forall>k < 10. is_ok (?check (k + 2))) \<and> is_ok (?check 12))"
  proof (cases ?acquire)
    case (Inl e)
    then show ?thesis by (simp add: analyze_bottlenecks_with_context_def Let_def)
  next
    case (Inr p)
    obtain observations comparison where p: "p = (observations, comparison)" by (cases p)
    have "map_option (\<lambda>r. rbind r (\<lambda>result. rbind (?check 12) (\<lambda>_. Ok result))) a = Some (Ok r) \<longleftrightarrow> a = Some (Ok r) \<and> is_ok (?check 12)" for a
      by (auto simp: result_simps is_ok_iff)
    then show ?thesis using Inr
      by (simp add: p analyze_bottlenecks_with_context_def Let_def analyze_observations_with_context_def analysis_checks)
  qed
  show ?thesis unfolding run all analyze_bottlenecks_Ok by (auto simp: result_simps is_ok_iff)
qed

text \<open>
  The analysis under a context fails closed and changes nothing: over any course of cancellations and passing time between
  its checks it returns a result exactly when the analysis without a context returns the same result and the context is still
  live at the last check.
\<close>

theorem analyze_with_context_fails_closed:
  assumes "\<forall>k. ctx_step\<^sup>*\<^sup>* (moments k) (moments (Suc k))"
  shows "analyze_bottlenecks_with_context fexp provider_name projected request moments = Some (Ok r) \<longleftrightarrow>
    analyze_bottlenecks fexp provider_name projected request = Some (Ok r) \<and>
    \<not> ctx_cancelled (fst (moments 12)) \<and> \<not> ctx_is_timed_out (fst (moments 12)) (snd (moments 12))"
proof -
  have "(\<forall>k < 13. is_ok (ctx_check (fst (moments k)) (snd (moments k)))) \<longleftrightarrow> is_ok (ctx_check (fst (moments 12)) (snd (moments 12)))"
    using moments_before [of moments 12] assms by (auto simp: less_Suc_eq_le numeral_eq_Suc)
  then show ?thesis using ctx_check_Err_iff [of "fst (moments 12)" "snd (moments 12)"]
    unfolding analyze_bottlenecks_with_context_Ok by blast
qed

theorem analyze_with_context_fails_closed_witness:
  "\<not> (\<exists>r. analyze_bottlenecks_with_context (\<lambda>x. x) ''local'' (\<lambda>_ _. Ok lifecycle_sample) default_bottleneck_request
      (\<lambda>k. if k < 5 then (ctx_new, 0) else (ctx_cancel ctx_new, 0)) = Some (Ok r))"
proof -
  let ?moments = "\<lambda>k :: nat. if k < 5 then (ctx_new, 0 :: nat) else (ctx_cancel ctx_new, 0)"
  have "\<forall>k. ctx_step\<^sup>*\<^sup>* (?moments k) (?moments (Suc k))"
    by (auto intro: ctx_step.cancel r_into_rtranclp)
  note analyze_with_context_fails_closed [of ?moments, OF this]
  then show ?thesis by (simp add: ctx_cancel_def)
qed

section \<open>Signals\<close>



















section \<open>Temporal hypotheses\<close>

text \<open>The causes on the same object within the lags of an effect.\<close>

definition exposed_to :: "temporal_hypothesis \<Rightarrow> bottleneck_observation list \<Rightarrow> bottleneck_observation \<Rightarrow> bool" where
  "exposed_to h observations e \<longleftrightarrow> (\<exists>c \<in> set observations. bo_object_id c = bo_object_id e \<and> is_cause h c \<and>
     earliest_cause h e \<le> bo_source_timestamp_nanos c \<and> bo_source_timestamp_nanos c \<le> latest_cause h e)"

lemma window_nonempty:
  assumes "sorted ts"
  shows "partition_point (\<lambda>v. v < lo) ts < partition_point (\<lambda>v. v \<le> hi) ts \<longleftrightarrow> (\<exists>t \<in> set ts. lo \<le> t \<and> t \<le> (hi :: int))"
proof -
  have mono: "length (filter P ts) \<le> length (filter Q ts)" if "\<And>t. t \<in> set ts \<Longrightarrow> P t \<Longrightarrow> Q t" for P Q
    using that by (intro length_filter_weaken) blast
  show ?thesis
    unfolding partition_point_sorted [OF assms] partition_point_sorted_le [OF assms]
  proof
    assume less: "length (filter (\<lambda>v. v < lo) ts) < length (filter (\<lambda>v. v \<le> hi) ts)"
    show "\<exists>t \<in> set ts. lo \<le> t \<and> t \<le> hi"
    proof (rule ccontr)
      assume "\<not> ?thesis"
      then have "length (filter (\<lambda>v. v \<le> hi) ts) \<le> length (filter (\<lambda>v. v < lo) ts)" by (intro mono) force
      then show False using less by simp
    qed
  next
    assume "\<exists>t \<in> set ts. lo \<le> t \<and> t \<le> hi"
    then obtain t where t: "t \<in> set ts" "lo \<le> t" "t \<le> hi" by blast
    have "filter (\<lambda>v. v < lo) ts = filter (\<lambda>v. v < lo) (filter (\<lambda>v. v \<le> hi) ts)" using t by (auto intro!: filter_cong)
    also have "length \<dots> < length (filter (\<lambda>v. v \<le> hi) ts)" by (rule length_filter_less [of t]) (use t in auto)
    finally show "length (filter (\<lambda>v. v < lo) ts) < length (filter (\<lambda>v. v \<le> hi) ts)" .
  qed
qed

lemma count_effects:
  "fold (count_effect h causes) es (a, b, c, d) =
    (a + length (filter (\<lambda>e. is_exposed h causes e \<and> effect_present h e) es), b + length (filter (\<lambda>e. is_exposed h causes e \<and> \<not> effect_present h e) es),
     c + length (filter (\<lambda>e. \<not> is_exposed h causes e \<and> effect_present h e) es), d + length (filter (\<lambda>e. \<not> is_exposed h causes e \<and> \<not> effect_present h e) es))"
  by (induction es arbitrary: a b c d) (auto simp: count_effect_def)

definition cell_of :: "temporal_hypothesis \<Rightarrow> bottleneck_observation list \<Rightarrow> bool \<Rightarrow> bool \<Rightarrow> bottleneck_observation \<Rightarrow> bool" where
  "cell_of h observations exposed present e \<longleftrightarrow> is_effect h e \<and> exposed_to h observations e = exposed \<and> effect_present h e = present"

lemma group_exposed:
  assumes "(k, obs) \<in> set (observations_by_object observations)" "e \<in> set obs"
  shows "is_exposed h (map bo_source_timestamp_nanos (filter (is_cause h) obs)) e \<longleftrightarrow> exposed_to h observations e"
proof -
  obtain us where us: "(k, us) \<in> set (fold (\<lambda>ob. bt_push (bo_object_id ob) ob) observations [])" "obs = sort_key bo_source_timestamp_nanos us"
    using assms(1) by (auto simp: observations_by_object_def)
  have u: "us = filter (\<lambda>ob. bo_object_id ob = k) observations"
    using us(1) fold_push_in [where key = bo_object_id and val = "\<lambda>x. x" and xs = observations] by simp
  have "sorted (map bo_source_timestamp_nanos (filter (is_cause h) obs))"
    unfolding us(2) by (metis sorted_filter sorted_sort_key)
  then have "is_exposed h (map bo_source_timestamp_nanos (filter (is_cause h) obs)) e \<longleftrightarrow>
      (\<exists>c \<in> set (filter (is_cause h) obs). earliest_cause h e \<le> bo_source_timestamp_nanos c \<and> bo_source_timestamp_nanos c \<le> latest_cause h e)"
    unfolding is_exposed_def by (subst window_nonempty) auto
  moreover have "bo_object_id e = k" using assms(2) by (simp add: us(2) u)
  ultimately show ?thesis by (auto simp: exposed_to_def us(2) u)
qed

lemma count_object_cells:
  assumes "(k, obs) \<in> set (observations_by_object observations)"
  shows "count_object h obs (a, b, c, d) =
    (a + length (filter (cell_of h observations True True) obs), b + length (filter (cell_of h observations True False) obs),
     c + length (filter (cell_of h observations False True) obs), d + length (filter (cell_of h observations False False) obs))"
proof -
  let ?causes = "map bo_source_timestamp_nanos (filter (is_cause h) obs)"
  have "length (filter (\<lambda>e. is_exposed h ?causes e = x \<and> effect_present h e = y) (filter (is_effect h) obs)) = length (filter (cell_of h observations x y) obs)" for x y
  proof -
    have "filter (\<lambda>e. is_exposed h ?causes e = x \<and> effect_present h e = y) (filter (is_effect h) obs) = filter (cell_of h observations x y) obs"
      unfolding filter_filter by (rule filter_cong [OF refl]) (use group_exposed [OF assms] in \<open>auto simp: cell_of_def\<close>)
    then show ?thesis by simp
  qed
  from this [of True True] this [of True False] this [of False True] this [of False False] show ?thesis
    by (simp add: count_object_def count_effects)
qed

lemma push_filter_length:
  "sum_list (map (\<lambda>xs. length (filter P xs)) (bt_values (bt_push k x m))) = (if P x then 1 else 0) + sum_list (map (\<lambda>xs. length (filter P xs)) (bt_values m))"
proof -
  have "sum_list (map (\<lambda>e. length (filter P (snd e))) (bt_alter k (\<lambda>e. case e of None \<Rightarrow> [x] | Some us \<Rightarrow> us @ [x]) m)) =
      (if P x then 1 else 0) + sum_list (map (\<lambda>e. length (filter P (snd e))) m)"
    by (induction k "\<lambda>e. case e of None \<Rightarrow> [x] | Some us \<Rightarrow> us @ [x]" m rule: bt_alter.induct) auto
  then show ?thesis by (simp add: bt_push_def bt_values_def comp_def)
qed

lemma groups_filter_length:
  "sum_list (map (\<lambda>obs. length (filter P obs)) (bt_values (observations_by_object observations))) = length (filter P observations)"
proof -
  have "sum_list (map (\<lambda>obs. length (filter P obs)) (bt_values (fold (\<lambda>ob. bt_push (bo_object_id ob) ob) observations m))) =
      sum_list (map (\<lambda>obs. length (filter P obs)) (bt_values m)) + length (filter P observations)" for m
    by (induction observations arbitrary: m) (simp_all add: push_filter_length)
  from this [of "[]"] show ?thesis
    by (simp add: observations_by_object_def bt_values_def comp_def case_prod_unfold filter_sort length_sort)
qed

lemma hypothesis_cells:
  "fold (count_object h) (bt_values (observations_by_object observations)) (0, 0, 0, 0) =
    (length (filter (cell_of h observations True True) observations), length (filter (cell_of h observations True False) observations),
     length (filter (cell_of h observations False True) observations), length (filter (cell_of h observations False False) observations))"
proof -
  let ?n = "\<lambda>x y groups. sum_list (map (\<lambda>obs. length (filter (cell_of h observations x y) obs)) groups)"
  have "fold (count_object h) (map snd es) (a, b, c, d) =
      (a + ?n True True (map snd es), b + ?n True False (map snd es), c + ?n False True (map snd es), d + ?n False False (map snd es))"
    if "set es \<subseteq> set (observations_by_object observations)" for es a b c d
    using that
  proof (induction es arbitrary: a b c d)
    case (Cons e es)
    have "(fst e, snd e) \<in> set (observations_by_object observations)" using Cons.prems by simp
    note count_object_cells [OF this, of h a b c d]
    then show ?case using Cons by (simp add: add.assoc)
  qed simp
  from this [OF order_refl] show ?thesis unfolding bt_values_def [symmetric] groups_filter_length by simp
qed

lemma exposed_split:
  "length (filter (cell_of h observations x True) observations) + length (filter (cell_of h observations x False) observations) =
    length (filter (\<lambda>e. is_effect h e \<and> exposed_to h observations e = x) observations)"
proof -
  have "length (filter (cell_of h observations x True) xs) + length (filter (cell_of h observations x False) xs) =
      length (filter (\<lambda>e. is_effect h e \<and> exposed_to h observations e = x) xs)" for xs
    by (induction xs) (auto simp: cell_of_def)
  then show ?thesis .
qed

lemma benjamini_hochberg_length: "length (benjamini_hochberg vs) = length vs"
proof -
  have "length (fst (fold (bh_step n) xs s)) = length (fst s)" for n xs s
    by (induction xs arbitrary: s) (auto simp: bh_step_def Let_def split: prod.splits)
  then show ?thesis by (simp add: benjamini_hochberg_def Let_def)
qed

text \<open>
  C26: a temporal hypothesis compares the effects that follow a cause with those that do not: an effect counts as exposed exactly
  when some observation of the same object has the cause within the lags before it, whatever the order of the observations; the
  rates are those of effects above the threshold among the exposed and the unexposed; and the hypothesis is supported exactly when
  the corrected p-value is at most 5%, the risk difference is positive and both groups have the minimum support.
\<close>

theorem temporal_hypotheses_correct:
  assumes "i < length (br_hypotheses request)"
  shows "length (temporal_hypotheses fexp observations request) = length (br_hypotheses request) \<and>
    (let h = br_hypotheses request ! i; r = temporal_hypotheses fexp observations request ! i;
         follows = (\<lambda>e. \<exists>c \<in> set observations. bo_object_id c = bo_object_id e \<and> is_cause h c \<and>
           earliest_cause h e \<le> bo_source_timestamp_nanos c \<and> bo_source_timestamp_nanos c \<le> latest_cause h e);
         exposed = filter (\<lambda>e. is_effect h e \<and> follows e) observations; unexposed = filter (\<lambda>e. is_effect h e \<and> \<not> follows e) observations
     in hy_id r = th_id h \<and> hy_exposed r = length exposed \<and> hy_unexposed r = length unexposed \<and>
       hy_effect_given_cause r = count_ratio (length (filter (effect_present h) exposed)) (length exposed) \<and>
       hy_effect_without_cause r = count_ratio (length (filter (effect_present h) unexposed)) (length unexposed) \<and>
       hy_q_value r = benjamini_hochberg (map hy_p_value (temporal_hypotheses fexp observations request)) ! i \<and>
       (hy_supported r \<longleftrightarrow> f64_le (hy_q_value r) (f64_lit (5 / 100)) \<and> f64_lt f64_zero (hy_risk_difference r) \<and>
         br_minimum_support request \<le> hy_exposed r \<and> br_minimum_support request \<le> hy_unexposed r))"
proof -
  let ?rs = "map (test_hypothesis fexp (observations_by_object observations)) (br_hypotheses request)"
  let ?h = "br_hypotheses request ! i"
  have run: "temporal_hypotheses fexp observations request =
      map (support_hypothesis (br_minimum_support request)) (zip ?rs (benjamini_hochberg (map hy_p_value ?rs)))"
    using assms by (auto simp: temporal_hypotheses_def Let_def)
  have len: "length (benjamini_hochberg (map hy_p_value ?rs)) = length (br_hypotheses request)" by (simp add: benjamini_hochberg_length)
  have p: "map hy_p_value (temporal_hypotheses fexp observations request) = map hy_p_value ?rs"
    unfolding run by (rule nth_equalityI) (simp_all add: benjamini_hochberg_length support_hypothesis_def)
  have r: "temporal_hypotheses fexp observations request ! i =
      support_hypothesis (br_minimum_support request) (test_hypothesis fexp (observations_by_object observations) ?h, benjamini_hochberg (map hy_p_value ?rs) ! i)"
    unfolding run using assms len by simp
  have present: "filter (effect_present h) (filter (\<lambda>e. is_effect h e \<and> exposed_to h observations e = x) xs) = filter (cell_of h observations x True) xs" for h x xs
    unfolding filter_filter by (rule filter_cong) (auto simp: cell_of_def)
  note splits = exposed_split [of ?h observations True] exposed_split [of ?h observations False]
  note presents = present [of ?h True observations] present [of ?h False observations]
  have fields: "test_hypothesis fexp (observations_by_object observations) ?h =
    (let exposed = filter (\<lambda>e. is_effect ?h e \<and> exposed_to ?h observations e = True) observations;
         unexposed = filter (\<lambda>e. is_effect ?h e \<and> exposed_to ?h observations e = False) observations;
         pe = count_ratio (length (filter (effect_present ?h) exposed)) (length exposed);
         pu = count_ratio (length (filter (effect_present ?h) unexposed)) (length unexposed) in
     \<lparr>hy_id = th_id ?h, hy_exposed = length exposed, hy_unexposed = length unexposed, hy_effect_given_cause = pe, hy_effect_without_cause = pu,
       hy_risk_difference = f64_sub pe pu, hy_risk_ratio = (if f64_lt f64_zero pu then Some (f64_div pe pu) else None),
       hy_p_value = chi_square_p_value fexp (length (filter (cell_of ?h observations True True) observations))
         (length (filter (cell_of ?h observations True False) observations)) (length (filter (cell_of ?h observations False True) observations))
         (length (filter (cell_of ?h observations False False) observations)), hy_q_value = f64_one, hy_supported = False\<rparr>)"
    unfolding test_hypothesis_def hypothesis_cells prod.case Let_def splits presents ..
  have "length (temporal_hypotheses fexp observations request) = length (br_hypotheses request)" by (simp add: run benjamini_hochberg_length)
  then show ?thesis
    unfolding Let_def p r fields exposed_to_def by (simp add: support_hypothesis_def)
qed

definition hypothesis_sample :: temporal_hypothesis where
  "hypothesis_sample = \<lparr>th_id = ''h'', th_cause_activity = ''pack'', th_cause_attribute = None, th_cause_value = None,
     th_effect_source_activity = None, th_effect_target_activity = ''pack'', th_effect_threshold_seconds = F_fin 1,
     th_minimum_lag_seconds = F_fin 0, th_maximum_lag_seconds = None\<rparr>"

theorem temporal_hypotheses_correct_witness:
  "hy_exposed (temporal_hypotheses (\<lambda>x. x) lifecycle_sample (default_bottleneck_request\<lparr>br_hypotheses := [hypothesis_sample]\<rparr>) ! 0) = 1"
proof -
  let ?h = hypothesis_sample and ?request = "default_bottleneck_request\<lparr>br_hypotheses := [hypothesis_sample]\<rparr>"
  have "0 < length (br_hypotheses ?request)" by simp
  from temporal_hypotheses_correct [OF this, of "\<lambda>x. x" lifecycle_sample]
  have "hy_exposed (temporal_hypotheses (\<lambda>x. x) lifecycle_sample ?request ! 0) =
      length (filter (\<lambda>e. is_effect ?h e \<and> (\<exists>c \<in> set lifecycle_sample. bo_object_id c = bo_object_id e \<and> is_cause ?h c \<and>
        earliest_cause ?h e \<le> bo_source_timestamp_nanos c \<and> bo_source_timestamp_nanos c \<le> latest_cause ?h e)) lifecycle_sample)"
    unfolding Let_def by simp
  also have "\<dots> = 1" by code_simp
  finally show ?thesis .
qed

section \<open>An overflow\<close>

text \<open>
  The denominator of the chi-square statistic is a product of 64-bit counts. For 65536 exposed effects and 65536 unexposed
  observations without effect, a perfect association, the product wraps to zero and the p-value is one.
\<close>

theorem chi_square_overflow: "chi_square_p_value fexp 65536 0 0 65536 = f64_one"
proof -
  have wraps: "f64_of_nat (u64_wrapping ((65536 + 0) * (0 + 65536) * (65536 + 0) * (0 + 65536))) = f64_zero" by (simp add: u64_wrapping_def)
  have "f64_eq f64_zero f64_zero" by simp
  then show ?thesis unfolding chi_square_p_value_def Let_def wraps by simp
qed

section \<open>A gap of the validation\<close>

text \<open>The tolerance of batching is only compared with zero, which no NaN is below.\<close>

theorem tolerance_not_checked_for_nan:
  "validate_bottleneck_request (default_bottleneck_request\<lparr>br_batch_tolerance_seconds := F_nan\<rparr>) = Ok () \<and>
   validate_bottleneck_request (default_bottleneck_request\<lparr>br_batch_tolerance_seconds := F_inf False\<rparr>) = Ok ()"
  by code_simp

end
