(* ===== verification/Population.thy ===== *)
theory Population
  imports BottleneckFacts
begin

text \<open>
  Bottleneck analysis of an explicit population, from \<open>crates/ocpm-engine/src/lib.rs\<close>: the selector is resolved to a view before the
  analysis runs, and the families of metrics that the provider cannot evaluate are reported. The provider's methods are parameters.
\<close>

section \<open>Operations\<close>

record population_bottleneck_request =
  pbr_request :: bottleneck_request
  pbr_population :: population_selector

record population_summary =
  ps_selector :: population_selector
  ps_object_count :: nat

record unsupported_metric_family =
  um_family :: string
  um_reason_code :: string

record population_bottleneck_result =
  pbres_result :: bottleneck_result
  pbres_population :: population_summary
  pbres_capabilities :: capability_report
  pbres_unsupported :: "unsupported_metric_family list"

definition push_unsupported :: "string \<Rightarrow> capability_coverage list \<Rightarrow> unsupported_metric_family list \<Rightarrow> unsupported_metric_family list" where
  "push_unsupported family requirements unsupported = (case filter (\<lambda>c. \<not> cov_available c) requirements of [] \<Rightarrow> unsupported
     | c # _ \<Rightarrow> unsupported @ [\<lparr>um_family = family,
         um_reason_code = (case cov_reason_code c of None \<Rightarrow> ''capability_unavailable'' | Some r \<Rightarrow> r)\<rparr>])"

definition unsupported_families :: "capability_report \<Rightarrow> unsupported_metric_family list" where
  "unsupported_families report =
    push_unsupported ''resource_unavailability'' [rep_lifecycle report, rep_resource report, rep_resource_calendar report]
      (fold (\<lambda>family. push_unsupported family [rep_lifecycle report, rep_resource report])
        [''waiting_causes'', ''resource_pressure'', ''performance_patterns'', ''blocking_cascades'']
        (push_unsupported ''synchronization'' [rep_shared_event report] []))"

definition population_leading_type :: "bottleneck_request \<Rightarrow> string option" where
  "population_leading_type request = (case br_leading_object_type request of Some t \<Rightarrow> Some t
     | None \<Rightarrow> if length (dv_object_types (br_view request)) = 1 then Some (dv_object_types (br_view request) ! 0) else None)"

definition validate_population :: "population_bottleneck_request \<Rightarrow> string ocpm_result" where
  "validate_population typed = (let request = pbr_request typed; view = br_view request in
    rbind (ensure (\<not> (dv_start view \<noteq> None \<or> dv_end view \<noteq> None \<or> dv_object_ids view \<noteq> []))
      (invalid_request ''explicit population cannot be combined with legacy view time or object_ids'')) (\<lambda>_.
    rbind (ensure (br_comparison_view request = None)
      (invalid_request ''explicit population does not infer comparison population semantics'')) (\<lambda>_.
    rbind (ensure (case selector_window (pbr_population typed) of None \<Rightarrow> True | Some (start, stop) \<Rightarrow> start < stop)
      (invalid_request ''population window must have start before end'')) (\<lambda>_.
    ok_or (invalid_request ''explicit population requires exactly one leading object type'') (population_leading_type request)))))"

definition bottlenecks_for_population :: "(f64 \<Rightarrow> f64) \<Rightarrow> string \<Rightarrow> projected_method
    \<Rightarrow> (dataset_view \<Rightarrow> population_selector \<Rightarrow> string option \<Rightarrow> population_resolution ocpm_result) \<Rightarrow> capability_report ocpm_result
    \<Rightarrow> population_bottleneck_request \<Rightarrow> population_bottleneck_result ocpm_result option" where
  "bottlenecks_for_population fexp provider_name projected resolve report typed =
    (let request = pbr_request typed in
     case rbind (validate_population typed) (\<lambda>leading.
          rbind (resolve (br_view request) (pbr_population typed) (Some leading)) (\<lambda>resolved.
          rbind report (\<lambda>capabilities. Ok (resolved, capabilities)))) of
       Err e \<Rightarrow> Some (Err e)
     | Ok (resolved, capabilities) \<Rightarrow>
         let capabilities = (if br_resource_calendars request \<noteq> [] then capabilities\<lparr>rep_resource_calendar := coverage_available\<rparr> else capabilities);
             result = (case pr_view resolved of
                 Some view \<Rightarrow> analyze_bottlenecks fexp provider_name projected (request\<lparr>br_view := view\<rparr>)
               | None \<Rightarrow> analyze_observations fexp provider_name [] None request)
         in map_option (\<lambda>r. rbind r (\<lambda>result. Ok \<lparr>pbres_result = result,
              pbres_population = \<lparr>ps_selector = pbr_population typed, ps_object_count = pr_object_count resolved\<rparr>,
              pbres_capabilities = capabilities, pbres_unsupported = unsupported_families capabilities\<rparr>)) result)"

section \<open>Reported capabilities\<close>

lemma push_unsupported_families:
  "map um_family (push_unsupported family requirements us) = map um_family us @ (if \<forall>c \<in> set requirements. cov_available c then [] else [family])"
proof (cases "filter (\<lambda>c. \<not> cov_available c) requirements")
  case Nil
  then show ?thesis by (auto simp: push_unsupported_def filter_empty_conv)
next
  case (Cons c cs)
  then have "c \<in> set (filter (\<lambda>c. \<not> cov_available c) requirements)" by simp
  then have "c \<in> set requirements \<and> \<not> cov_available c" by simp
  then show ?thesis using Cons by (auto simp: push_unsupported_def)
qed

lemma empty_phases:
  "edge_signals [] request = Some ([], [])" "synchronization [] n = Some []" "lifecycle_instances [] a = []"
  "waiting_causes [] request = Some []" "resource_pressure [] n = Some []" "performance_patterns [] request = Some []" "blocking_cascades [] n = []"
  by (simp_all add: edge_signals_def edge_distributions_def sort_by_def synchronization_def bt_values_def lifecycle_instances_def
    waiting_causes_def overtaking_delays_def resource_groups_def with_resource_def resource_pressure_def activity_groups_def
    performance_patterns_def blocking_cascades_def)

lemmas analyze_unfold = analyze_observations_def analyze_observations_checked_def Let_def empty_phases bind.bind_lunit prod.case option.case

lemma analyze_empty:
  assumes "analyze_observations fexp provider_name [] None request = Some (Ok r)"
  shows "bd_observation_count (bres_diagnostics r) = 0 \<and> bres_signals r = [] \<and> bres_synchronization r = [] \<and> bres_waiting_causes r = [] \<and>
    bres_resource_pressure r = [] \<and> bres_patterns r = [] \<and> bres_cascades r = [] \<and> bres_changes r = []"
  using assms unfolding analyze_unfold by (auto simp: check_then_Ok)

lemma analyze_empty_Ok: "is_ok (validate_bottleneck_request request) \<Longrightarrow> \<exists>r. analyze_observations fexp provider_name [] None request = Some (Ok r)"
  unfolding analyze_unfold by (simp add: check_then_Ok)

lemma population_Ok:
  assumes "bottlenecks_for_population fexp provider_name projected resolve report typed = Some (Ok r)"
  obtains leading resolved capabilities where "validate_population typed = Ok leading"
    "resolve (br_view (pbr_request typed)) (pbr_population typed) (Some leading) = Ok resolved" "report = Ok capabilities"
    "(case pr_view resolved of
        Some view \<Rightarrow> analyze_bottlenecks fexp provider_name projected (pbr_request typed\<lparr>br_view := view\<rparr>)
      | None \<Rightarrow> analyze_observations fexp provider_name [] None (pbr_request typed)) = Some (Ok (pbres_result r))"
    "ps_object_count (pbres_population r) = pr_object_count resolved" "ps_selector (pbres_population r) = pbr_population typed"
    "pbres_capabilities r = (if br_resource_calendars (pbr_request typed) \<noteq> [] then capabilities\<lparr>rep_resource_calendar := coverage_available\<rparr> else capabilities)"
    "pbres_unsupported r = unsupported_families (pbres_capabilities r)"
proof -
  let ?acquire = "rbind (validate_population typed) (\<lambda>leading.
    rbind (resolve (br_view (pbr_request typed)) (pbr_population typed) (Some leading)) (\<lambda>resolved.
    rbind report (\<lambda>capabilities. Ok (resolved, capabilities))))"
  obtain resolved capabilities where acquire: "?acquire = Ok (resolved, capabilities)"
    using assms by (cases ?acquire) (auto simp: bottlenecks_for_population_def Let_def)
  let ?caps = "if br_resource_calendars (pbr_request typed) \<noteq> [] then capabilities\<lparr>rep_resource_calendar := coverage_available\<rparr> else capabilities"
  let ?run = "case pr_view resolved of
        Some view \<Rightarrow> analyze_bottlenecks fexp provider_name projected (pbr_request typed\<lparr>br_view := view\<rparr>)
      | None \<Rightarrow> analyze_observations fexp provider_name [] None (pbr_request typed)"
  have "map_option (\<lambda>x. rbind x (\<lambda>result. Ok \<lparr>pbres_result = result,
      pbres_population = \<lparr>ps_selector = pbr_population typed, ps_object_count = pr_object_count resolved\<rparr>,
      pbres_capabilities = ?caps, pbres_unsupported = unsupported_families ?caps\<rparr>)) ?run = Some (Ok r)"
    using assms unfolding bottlenecks_for_population_def Let_def acquire sum.case prod.case .
  then obtain result where result: "?run = Some (Ok result)" "r = \<lparr>pbres_result = result,
      pbres_population = \<lparr>ps_selector = pbr_population typed, ps_object_count = pr_object_count resolved\<rparr>,
      pbres_capabilities = ?caps, pbres_unsupported = unsupported_families ?caps\<rparr>"
    unfolding map_option_eq_Some rbind_Ok_iff by blast
  obtain leading where "validate_population typed = Ok leading"
    "resolve (br_view (pbr_request typed)) (pbr_population typed) (Some leading) = Ok resolved" "report = Ok capabilities"
    using acquire unfolding rbind_Ok_iff by auto
  then show thesis by (rule that) (use result in simp_all)
qed

section \<open>The population a selector describes\<close>

text \<open>The view whose executions are considered, the executions selected of these, and the view that is then analysed.\<close>

definition asked_view :: "dataset_view \<Rightarrow> population_selector \<Rightarrow> dataset_view" where
  "asked_view view selector = (case selector of EventTime a b \<Rightarrow> view\<lparr>dv_start := Some a, dv_end := Some b\<rparr>
     | CaseSet ids \<Rightarrow> view\<lparr>dv_object_ids := sorted_list_of_set (set ids)\<rparr> | _ \<Rightarrow> view)"

definition happens_within :: "timestamp \<Rightarrow> timestamp \<Rightarrow> event \<Rightarrow> bool" where
  "happens_within a b ev \<longleftrightarrow> epoch_nanos_utc (ev_timestamp ev) \<in> {epoch_nanos_utc a ..< epoch_nanos_utc b}"

definition in_selection :: "population_selector \<Rightarrow> process_execution \<Rightarrow> bool" where
  "in_selection selector e = (case selector of
     LeadingObjectStart a b \<Rightarrow> pe_events e \<noteq> [] \<and> happens_within a b (hd (pe_events e))
   | ExecutionContained a b \<Rightarrow> pe_events e \<noteq> [] \<and> happens_within a b (hd (pe_events e)) \<and> happens_within a b (last (pe_events e))
   | _ \<Rightarrow> True)"

definition population_of :: "executions_method \<Rightarrow> dataset_view \<Rightarrow> population_selector \<Rightarrow> string \<Rightarrow> nat set \<Rightarrow> bool" where
  "population_of process_executions view selector leading ids \<longleftrightarrow>
    (\<exists>es. (if selector = CaseSet [] then es = [] else process_executions (asked_view view selector) LeadingObject (Some leading) = Ok es) \<and>
       ids = {hd (pe_object_ids e) | e. e \<in> set es \<and> pe_object_ids e \<noteq> [] \<and> in_selection selector e})"

definition analysed_view :: "dataset_view \<Rightarrow> population_selector \<Rightarrow> nat set \<Rightarrow> dataset_view" where
  "analysed_view view selector ids = (case selector of EventTime a b \<Rightarrow> view\<lparr>dv_start := Some a, dv_end := Some b\<rparr>
     | _ \<Rightarrow> view\<lparr>dv_object_ids := sorted_list_of_set ids\<rparr>)"

lemma first_ids_set: "set (first_object_ids es) = {hd (pe_object_ids e) | e. e \<in> set es \<and> pe_object_ids e \<noteq> []}"
proof -
  have "first_opt (pe_object_ids e) = Some i \<longleftrightarrow> pe_object_ids e \<noteq> [] \<and> i = hd (pe_object_ids e)" for e i
    by (cases "pe_object_ids e") (auto simp: first_opt_def)
  then show ?thesis unfolding first_object_ids_def by (force simp: List.map_filter_def)
qed

lemma in_selection_start: "starts_within a b e = in_selection (LeadingObjectStart a b) e"
  by (cases "pe_events e") (auto simp: starts_within_def in_selection_def first_opt_def matches_window_def happens_within_def)

lemma in_selection_contained: "contained_within a b e = in_selection (ExecutionContained a b) e"
  by (cases "pe_events e") (auto simp: contained_within_def in_selection_def first_opt_def last_opt_def matches_window_def happens_within_def)

lemma selection_population:
  assumes "select_population process_executions view selector leading = Ok (view', found)"
    and "dv_start view = None" "dv_end view = None" "dv_object_ids view = []"
  shows "population_of process_executions view selector leading (set found) \<and>
    (if is_event_time selector then view' else view'\<lparr>dv_object_ids := ids\<rparr>) =
      (case selector of EventTime a b \<Rightarrow> view\<lparr>dv_start := Some a, dv_end := Some b\<rparr> | _ \<Rightarrow> view\<lparr>dv_object_ids := ids\<rparr>)"
proof -
  have same: "view\<lparr>dv_start := None, dv_end := None\<rparr> = view" using assms(2,3) by simp
  show ?thesis
  proof (cases selector)
    case (EventTime a b)
    then show ?thesis using assms(1)
      by (auto simp: select_population_def Let_def result_simps population_of_def asked_view_def in_selection_def first_ids_set is_event_time_def)
  next
    case (LeadingObjectStart a b)
    then show ?thesis using assms(1)
      by (auto simp: select_population_def Let_def result_simps population_of_def asked_view_def first_ids_set in_selection_start is_event_time_def same)
  next
    case (ExecutionContained a b)
    then show ?thesis using assms(1)
      by (auto simp: select_population_def Let_def result_simps population_of_def asked_view_def first_ids_set in_selection_contained is_event_time_def same)
  next
    case (CaseSet cs)
    then show ?thesis using assms(1,4)
      by (auto simp: select_population_def Let_def result_simps population_of_def asked_view_def first_ids_set in_selection_def is_event_time_def
          bset_eq_sorted_list_of_set split: if_splits)
  qed
qed

lemma resolution_population:
  assumes "resolve_population process_executions view selector (Some leading) = Ok resolved"
    and "dv_start view = None" "dv_end view = None" "dv_object_ids view = []"
  shows "\<exists>ids. population_of process_executions view selector leading ids \<and> pr_object_count resolved = card ids \<and>
    pr_view resolved = (if ids = {} then None else Some (analysed_view view selector ids))"
  using assms(1)
proof (rule resolve_population_OkE)
  fix l view' found
  assume l: "Some leading = Some l" and sel: "select_population process_executions view selector l = Ok (view', found)"
    and r: "resolved = population_resolution_new (if is_event_time selector then view' else view'\<lparr>dv_object_ids := bset found\<rparr>) (length (bset found))"
  have "length (bset found) = card (set found)" by (metis distinct_bset distinct_card set_bset)
  moreover have "population_of process_executions view selector leading (set found)"
    and "(if is_event_time selector then view' else view'\<lparr>dv_object_ids := bset found\<rparr>) = analysed_view view selector (set found)"
    using selection_population [OF sel assms(2-4), of "bset found"] l
    unfolding analysed_view_def bset_eq_sorted_list_of_set by simp_all
  ultimately show ?thesis unfolding r by (intro exI [of _ "set found"]) (simp add: population_resolution_new_def)
qed

lemma validate_populationD: "validate_population typed = Ok leading \<Longrightarrow> dv_start (br_view (pbr_request typed)) = None \<and>
    dv_end (br_view (pbr_request typed)) = None \<and> dv_object_ids (br_view (pbr_request typed)) = [] \<and>
    population_leading_type (pbr_request typed) = Some leading"
  by (auto simp: validate_population_def Let_def result_simps)

section \<open>Property\<close>

text \<open>
  C32: an explicit population is analysed as its selector describes it and never widened. The population are the leading objects of
  the executions the provider gives for the request's view (restricted to the window for an event window, to the listed objects
  for a case set) that the selector accepts: for the other two windows those that start in it, or start and end in it. Its size is
  reported. When it is empty the provider is not asked for observations (the answer does not depend on it) and every metric is
  empty; otherwise the result is the analysis of the request's view restricted to the window, or to exactly these objects.
  A family of metrics is reported as unsupported exactly when one of its capabilities is unavailable.
\<close>

theorem population_is_explicit:
  assumes "bottlenecks_for_population fexp provider_name projected (resolve_population process_executions) report typed = Some (Ok r)"
  shows "(\<exists>leading ids. population_leading_type (pbr_request typed) = Some leading \<and>
      population_of process_executions (br_view (pbr_request typed)) (pbr_population typed) leading ids \<and>
      pbres_population r = \<lparr>ps_selector = pbr_population typed, ps_object_count = card ids\<rparr> \<and>
      (if ids = {}
       then (\<forall>projected'. bottlenecks_for_population fexp provider_name projected' (resolve_population process_executions) report typed = Some (Ok r)) \<and>
         bd_observation_count (bres_diagnostics (pbres_result r)) = 0 \<and> bres_signals (pbres_result r) = [] \<and>
         bres_synchronization (pbres_result r) = [] \<and> bres_waiting_causes (pbres_result r) = [] \<and> bres_resource_pressure (pbres_result r) = [] \<and>
         bres_patterns (pbres_result r) = [] \<and> bres_cascades (pbres_result r) = [] \<and> bres_changes (pbres_result r) = []
       else analyze_bottlenecks fexp provider_name projected
         (pbr_request typed\<lparr>br_view := analysed_view (br_view (pbr_request typed)) (pbr_population typed) ids\<rparr>) = Some (Ok (pbres_result r)))) \<and>
    (let caps = pbres_capabilities r; work = cov_available (rep_lifecycle caps) \<and> cov_available (rep_resource caps) in
     map um_family (pbres_unsupported r) = (if cov_available (rep_shared_event caps) then [] else [''synchronization'']) @
       (if work then [] else [''waiting_causes'', ''resource_pressure'', ''performance_patterns'', ''blocking_cascades'']) @
       (if work \<and> cov_available (rep_resource_calendar caps) then [] else [''resource_unavailability'']))"
  using assms
proof (rule population_Ok)
  fix leading resolved capabilities
  assume valid: "validate_population typed = Ok leading"
    and resolved: "resolve_population process_executions (br_view (pbr_request typed)) (pbr_population typed) (Some leading) = Ok resolved"
    and report: "report = Ok capabilities"
    and run: "(case pr_view resolved of
        Some view \<Rightarrow> analyze_bottlenecks fexp provider_name projected (pbr_request typed\<lparr>br_view := view\<rparr>)
      | None \<Rightarrow> analyze_observations fexp provider_name [] None (pbr_request typed)) = Some (Ok (pbres_result r))"
    and count: "ps_object_count (pbres_population r) = pr_object_count resolved" "ps_selector (pbres_population r) = pbr_population typed"
    and unsupported: "pbres_unsupported r = unsupported_families (pbres_capabilities r)"
  note v = validate_populationD [OF valid]
  obtain ids where ids: "population_of process_executions (br_view (pbr_request typed)) (pbr_population typed) leading ids"
    "pr_object_count resolved = card ids"
    "pr_view resolved = (if ids = {} then None else Some (analysed_view (br_view (pbr_request typed)) (pbr_population typed) ids))"
    using resolution_population [OF resolved v [THEN conjunct1] v [THEN conjunct2, THEN conjunct1] v [THEN conjunct2, THEN conjunct2, THEN conjunct1]] by blast
  have "\<forall>projected'. bottlenecks_for_population fexp provider_name projected' (resolve_population process_executions) report typed = Some (Ok r)"
    if "ids = {}"
  proof -
    have "bottlenecks_for_population fexp provider_name p (resolve_population process_executions) report typed =
        bottlenecks_for_population fexp provider_name projected (resolve_population process_executions) report typed" for p
      unfolding bottlenecks_for_population_def Let_def valid rbind.simps resolved report sum.case prod.case using ids(3) that by simp
    then show ?thesis using assms by simp
  qed
  moreover have "analyze_observations fexp provider_name [] None (pbr_request typed) = Some (Ok (pbres_result r))" if "ids = {}"
    using run ids(3) that by simp
  moreover have "analyze_bottlenecks fexp provider_name projected
      (pbr_request typed\<lparr>br_view := analysed_view (br_view (pbr_request typed)) (pbr_population typed) ids\<rparr>) = Some (Ok (pbres_result r))"
    if "ids \<noteq> {}" using run ids(3) that by simp
  moreover have "pbres_population r = \<lparr>ps_selector = pbr_population typed, ps_object_count = card ids\<rparr>"
    using count ids(2) by (cases "pbres_population r") simp
  ultimately show ?thesis
    using v ids(1) analyze_empty [of fexp provider_name "pbr_request typed" "pbres_result r"]
    by (intro conjI exI [of _ leading] exI [of _ ids])
      (simp_all add: unsupported unsupported_families_def push_unsupported_families Let_def)
qed

definition sample_population :: population_bottleneck_request where
  "sample_population = \<lparr>pbr_request = default_bottleneck_request\<lparr>br_leading_object_type := Some ''order''\<rparr>, pbr_population = CaseSet [9]\<rparr>"

lemma sample_population_steps:
  "validate_population sample_population = Ok ''order''" "is_ok (validate_bottleneck_request (pbr_request sample_population))"
  "resolve_population (\<lambda>_ _ _. Ok []) (br_view (pbr_request sample_population)) (pbr_population sample_population) (Some ''order'') =
     Ok \<lparr>pr_view = None, pr_object_count = 0\<rparr>"
  by code_simp+

lemma sample_population_run:
  "\<exists>r. bottlenecks_for_population (\<lambda>x. x) ''local'' (\<lambda>_ _. Err (invalid_request ''not asked'')) (resolve_population (\<lambda>_ _ _. Ok []))
      (Ok default_report) sample_population = Some (Ok r) \<and> ps_object_count (pbres_population r) = 0"
proof -
  obtain result where "analyze_observations (\<lambda>x. x) ''local'' [] None (pbr_request sample_population) = Some (Ok result)"
    using analyze_empty_Ok [OF sample_population_steps(2)] by blast
  then show ?thesis
    unfolding bottlenecks_for_population_def Let_def sample_population_steps(1,3) rbind.simps sum.case prod.case by simp
qed

theorem population_is_explicit_witness:
  "\<exists>r. bottlenecks_for_population (\<lambda>x. x) ''local'' (\<lambda>_ _. Err (invalid_request ''not asked'')) (resolve_population (\<lambda>_ _ _. Ok []))
      (Ok default_report) sample_population = Some (Ok r) \<and> bd_observation_count (bres_diagnostics (pbres_result r)) = 0"
proof -
  obtain r where r: "bottlenecks_for_population (\<lambda>x. x) ''local'' (\<lambda>_ _. Err (invalid_request ''not asked'')) (resolve_population (\<lambda>_ _ _. Ok []))
      (Ok default_report) sample_population = Some (Ok r)" "ps_object_count (pbres_population r) = 0"
    using sample_population_run by blast
  obtain ids where "population_of (\<lambda>_ _ _. Ok []) (br_view (pbr_request sample_population)) (pbr_population sample_population) ''order'' ids"
    "if ids = {} then bd_observation_count (bres_diagnostics (pbres_result r)) = 0 else True"
    using population_is_explicit [OF r(1)] by (fastforce simp: sample_population_def population_leading_type_def)
  then have "bd_observation_count (bres_diagnostics (pbres_result r)) = 0" by (simp add: population_of_def sample_population_def)
  then show ?thesis using r(1) by blast
qed

end
