(* ===== verification/Enhancement.thy ===== *)
theory Enhancement
  imports Discovery Lifecycle BottleneckStats Prediction
begin

text \<open>
  Process enhancement: \<open>crates/ocpm-enhancement/src/lib.rs\<close> with its requests and results in \<open>crates/ocpm-core/src\<close>: process
  maps, timelines, histograms, performance intervals, rework, organisational analysis and drift between two windows.
  JSON comes from the argument \<open>api\<close>: the reader \<open>as_str\<close>, the number read back from a serialised float, and the text of
  an activity path; \<open>lg\<close> is the binary logarithm of the platform. \<open>None\<close> is a panic.
\<close>

section \<open>Requests and results\<close>

record performance_metric =
  pm_name :: string
  pm_unit :: string
  pm_support :: nat
  pm_mean :: "f64 option"
  pm_minimum :: "f64 option"
  pm_maximum :: "f64 option"
  pm_median :: "f64 option"

text \<open>The values the code hands to the JSON library for the groups of a result.\<close>

datatype group_value =
  G_text string | G_count nat | G_float f64 | G_float_option "f64 option" | G_timestamp timestamp
| G_ids "nat list option" | G_metric performance_metric | G_row "(string \<times> group_value) list" | G_rows "group_value list"
| G_counts "(string, nat) btree_map" | G_names "(string, string list) btree_map" | G_table "(string, group_value) btree_map"

record enhancement_result =
  er_metrics :: "performance_metric list"
  er_groups :: "(string, group_value) btree_map"
  er_warnings :: "string list"

datatype enhancement_kind =
  ProcessMap | Timeline | Histogram | Performance | Rework | Organizational | WindowComparison | Drift

record 'j enhancement_request =
  eq_semantic_version :: string
  eq_view :: dataset_view
  eq_comparison_view :: "dataset_view option"
  eq_kind :: enhancement_kind
  eq_parameters :: "(string, 'j) btree_map"

record 'j enhancement_api =
  ea_as_str :: "'j \<Rightarrow> string option"
  ea_as_f64 :: "f64 option \<Rightarrow> f64 option"
  ea_path_text :: "string list \<Rightarrow> string"

section \<open>Metrics\<close>

definition default_metric :: performance_metric where
  "default_metric = \<lparr>pm_name = [], pm_unit = [], pm_support = 0, pm_mean = None, pm_minimum = None, pm_maximum = None, pm_median = None\<rparr>"

definition duration_seconds :: "int \<Rightarrow> int \<Rightarrow> f64 ocpm_result" where
  "duration_seconds start stop =
    (if stop < start then Err (invalid_data ''canonical event ordering produced a negative duration'')
     else Ok (f64_div (f64_of_int (i128_wrapping_sub stop start)) (f64_of_nat 1000000000)))"

definition event_duration :: "event \<Rightarrow> event \<Rightarrow> f64 ocpm_result" where
  "event_duration a b = duration_seconds (epoch_nanos_utc (ev_timestamp a)) (epoch_nanos_utc (ev_timestamp b))"

definition metric :: "string \<Rightarrow> string \<Rightarrow> f64 list \<Rightarrow> performance_metric option" where
  "metric name unit vs =
    (if vs = [] then Some (default_metric\<lparr>pm_name := name, pm_unit := unit\<rparr>)
     else let vs = sort_by f64_total_le vs; n = length vs in
       Option.bind (if n mod 2 = 0 then Option.bind (nth_opt vs (n div 2 - 1)) (\<lambda>a. Option.bind (nth_opt vs (n div 2)) (\<lambda>b.
           Some (f64_div (f64_add a b) (F_fin 2)))) else nth_opt vs (n div 2)) (\<lambda>median.
       Some \<lparr>pm_name = name, pm_unit = unit, pm_support = n, pm_mean = Some (f64_div (f64_sum vs) (f64_of_nat n)),
         pm_minimum = first_opt vs, pm_maximum = last_opt vs, pm_median = Some median\<rparr>))"

definition scalar_metric :: "string \<Rightarrow> string \<Rightarrow> nat \<Rightarrow> f64 \<Rightarrow> performance_metric" where
  "scalar_metric name unit support v = \<lparr>pm_name = name, pm_unit = unit, pm_support = support, pm_mean = Some v,
     pm_minimum = None, pm_maximum = None, pm_median = None\<rparr>"

definition mean_of :: "f64 list \<Rightarrow> f64 option" where
  "mean_of vs = (if vs \<noteq> [] then Some (f64_div (f64_sum vs) (f64_of_nat (length vs))) else None)"

text \<open>The first and the last event of an execution, and the cycle times of the executions that have events.\<close>

definition end_points :: "process_execution list \<Rightarrow> (event \<times> event) list" where
  "end_points executions = List.map_filter (\<lambda>e. case (first_opt (pe_events e), last_opt (pe_events e)) of
     (Some a, Some b) \<Rightarrow> Some (a, b) | _ \<Rightarrow> None) executions"

definition push_duration :: "f64 list \<Rightarrow> event \<times> event \<Rightarrow> f64 list ocpm_result" where
  "push_duration vs = (\<lambda>(a, b). rbind (event_duration a b) (\<lambda>d. Ok (vs @ [d])))"

definition cycle_times :: "process_execution list \<Rightarrow> f64 list ocpm_result" where
  "cycle_times executions = try_fold push_duration [] (end_points executions)"

section \<open>Process maps and timelines\<close>

type_synonym edge_map = "(string \<times> string, nat) btree_map \<times> (string \<times> string, f64 list) btree_map"

definition pair_key :: "event \<times> event \<Rightarrow> string \<times> string" where
  "pair_key = (\<lambda>(a, b). (ev_activity a, ev_activity b))"

definition map_pair :: "edge_map \<Rightarrow> event \<times> event \<Rightarrow> edge_map ocpm_result" where
  "map_pair = (\<lambda>(frequencies, durations) (a, b).
     rbind (event_duration a b) (\<lambda>d.
     Ok (bt_incr (pair_key (a, b)) 1 frequencies, bt_push (pair_key (a, b)) d durations)))"

definition map_executions :: "process_execution list \<Rightarrow> edge_map ocpm_result" where
  "map_executions executions = try_fold (\<lambda>s e. try_fold map_pair s (windows2 (pe_events e))) ([], []) executions"

definition map_edge :: "(string \<times> string, f64 list) btree_map \<Rightarrow> (string \<times> string) \<times> nat \<Rightarrow> group_value option" where
  "map_edge durations = (\<lambda>((source, target), frequency).
     Option.bind (bt_get durations (source, target)) (\<lambda>vs.
     Option.bind (metric ''edge_duration'' ''seconds'' vs) (\<lambda>m.
     Some (G_row [(''source'', G_text source), (''target'', G_text target), (''frequency'', G_count frequency), (''duration'', G_metric m)]))))"

definition process_map :: "process_execution list \<Rightarrow> enhancement_result ocpm_result option" where
  "process_map executions = (case map_executions executions of
     Err e \<Rightarrow> Some (Err e)
   | Ok (frequencies, durations) \<Rightarrow>
      Option.bind (those (map (map_edge durations) frequencies)) (\<lambda>edges.
      Some (Ok \<lparr>er_metrics = [default_metric\<lparr>pm_name := ''process_map_edges'', pm_unit := ''edges'', pm_support := length edges\<rparr>],
        er_groups = bt_of_list [(''edges'', G_rows edges)], er_warnings = []\<rparr>)))"

definition timeline_row :: "process_execution \<Rightarrow> event \<Rightarrow> group_value" where
  "timeline_row e ev = G_row [(''execution_id'', G_text (pe_id e)), (''event_id'', G_count (ev_id ev)),
     (''activity'', G_text (ev_activity ev)), (''timestamp'', G_timestamp (ev_timestamp ev)),
     (''object_ids'', G_ids (bt_get (pe_event_object_ids e) (ev_id ev)))]"

definition timeline :: "process_execution list \<Rightarrow> enhancement_result" where
  "timeline executions =
    (let rows = concat (map (\<lambda>e. map (timeline_row e) (pe_events e)) executions)
     in \<lparr>er_metrics = [default_metric\<lparr>pm_name := ''timeline_events'', pm_unit := ''events'', pm_support := length rows\<rparr>],
       er_groups = bt_of_list [(''dotted_chart'', G_rows rows)], er_warnings = []\<rparr>)"

section \<open>Histograms\<close>

text \<open>\<open>min_by(f64::total_cmp)\<close> and \<open>max_by(f64::total_cmp)\<close>: the first least and the last greatest value.\<close>

fun total_min :: "f64 list \<Rightarrow> f64 option" where
  "total_min [] = None"
| "total_min (v # vs) = Some (fold (\<lambda>x m. if f64_total_lt x m then x else m) vs v)"

fun total_max :: "f64 list \<Rightarrow> f64 option" where
  "total_max [] = None"
| "total_max (v # vs) = Some (fold (\<lambda>x m. if f64_total_lt x m then m else x) vs v)"

definition f64_epsilon :: f64 where "f64_epsilon = F_fin (1 / 2 ^ 52)"

definition bin_width :: "f64 \<Rightarrow> f64 \<Rightarrow> f64" where
  "bin_width minimum maximum = f64_max (f64_div (f64_sub maximum minimum) (F_fin 10)) f64_epsilon"

definition bin_index :: "f64 \<Rightarrow> f64 \<Rightarrow> f64 \<Rightarrow> nat" where
  "bin_index minimum width v = min (f64_to_u64 (f64_div (f64_sub v minimum) width)) 9"

definition count_bin :: "f64 \<Rightarrow> f64 \<Rightarrow> f64 \<Rightarrow> nat list \<Rightarrow> nat list option" where
  "count_bin minimum width v bins = (let i = bin_index minimum width v in
     map_option (\<lambda>c. bins[i := c + 1]) (nth_opt bins i))"

definition bin_row :: "f64 \<Rightarrow> f64 \<Rightarrow> nat \<times> nat \<Rightarrow> group_value" where
  "bin_row minimum width = (\<lambda>(i, c). G_row [
     (''lower_seconds'', G_float (f64_add minimum (f64_mul (f64_of_nat i) width))),
     (''upper_seconds'', G_float (f64_add minimum (f64_mul (f64_of_nat (i + 1)) width))),
     (''count'', G_count c)])"

definition histogram_values :: "f64 list \<Rightarrow> enhancement_result option" where
  "histogram_values vs =
    (if vs = [] then map_option (\<lambda>m. \<lparr>er_metrics = [m], er_groups = [], er_warnings = [''histogram requires nonempty executions'']\<rparr>)
       (metric ''execution_cycle_time'' ''seconds'' [])
     else
       let minimum = (case total_min vs of None \<Rightarrow> f64_zero | Some m \<Rightarrow> m);
         maximum = (case total_max vs of None \<Rightarrow> minimum | Some m \<Rightarrow> m);
         width = bin_width minimum maximum
       in Option.bind (fold_opt (count_bin minimum width) vs (replicate 10 0)) (\<lambda>bins.
         Option.bind (metric ''execution_cycle_time'' ''seconds'' vs) (\<lambda>m.
         Some \<lparr>er_metrics = [m], er_groups = bt_of_list [(''histogram'', G_rows (map (bin_row minimum width) (indexed bins)))], er_warnings = []\<rparr>)))"

definition histogram :: "process_execution list \<Rightarrow> enhancement_result ocpm_result option" where
  "histogram executions = (case cycle_times executions of Err e \<Rightarrow> Some (Err e)
   | Ok vs \<Rightarrow> map_option Ok (histogram_values vs))"

section \<open>Performance\<close>

record performance_values =
  pv_all :: "f64 list"
  pv_edges :: "(string \<times> string, f64 list) btree_map"
  pv_cycle :: "f64 list"
  pv_service :: "f64 list"
  pv_waiting :: "f64 list"
  pv_sojourn :: "f64 list"
  pv_synchronization :: "f64 list"
  pv_pooling :: "f64 list"
  pv_lagging :: "f64 list"
  pv_flow :: "f64 list"

definition no_values :: performance_values where
  "no_values = \<lparr>pv_all = [], pv_edges = [], pv_cycle = [], pv_service = [], pv_waiting = [], pv_sojourn = [],
     pv_synchronization = [], pv_pooling = [], pv_lagging = [], pv_flow = []\<rparr>"

text \<open>The state of one execution: open starts per activity, the last completion, and when each object became ready.\<close>

record execution_clock =
  ec_starts :: "(string, int list) btree_map"
  ec_previous :: "int option"
  ec_ready :: "(nat, int) btree_map"

definition clock_new :: execution_clock where
  "clock_new = \<lparr>ec_starts = [], ec_previous = None, ec_ready = []\<rparr>"

abbreviation instant :: "event \<Rightarrow> int" where "instant ev \<equiv> epoch_nanos_utc (ev_timestamp ev)"

definition performance_cycle :: "process_execution \<Rightarrow> performance_values \<Rightarrow> performance_values ocpm_result" where
  "performance_cycle e s = (case (first_opt (pe_events e), last_opt (pe_events e)) of
     (Some a, Some b) \<Rightarrow> rbind (event_duration a b) (\<lambda>d. Ok (s\<lparr>pv_cycle := pv_cycle s @ [d]\<rparr>))
   | _ \<Rightarrow> Ok s)"

definition performance_pair :: "performance_values \<Rightarrow> event \<times> event \<Rightarrow> performance_values ocpm_result" where
  "performance_pair s = (\<lambda>(a, b). rbind (event_duration a b) (\<lambda>d.
     Ok (s\<lparr>pv_all := pv_all s @ [d], pv_edges := bt_push (pair_key (a, b)) d (pv_edges s)\<rparr>)))"

definition involved_objects :: "process_execution \<Rightarrow> event \<Rightarrow> nat list" where
  "involved_objects e ev = (case bt_get (pe_event_object_ids e) (ev_id ev) of None \<Rightarrow> pe_object_ids e | Some ids \<Rightarrow> ids)"

definition performance_readiness :: "event \<Rightarrow> int list \<Rightarrow> performance_values \<Rightarrow> performance_values ocpm_result" where
  "performance_readiness ev readiness s =
    (if readiness = [] then Ok s
     else let minimum = Min (set readiness); maximum = Max (set readiness) in
       rbind (if 1 < length readiness
         then rbind (duration_seconds minimum maximum) (\<lambda>d. Ok (s\<lparr>pv_synchronization := pv_synchronization s @ [d]\<rparr>)) else Ok s) (\<lambda>s.
       rbind (duration_seconds maximum (instant ev)) (\<lambda>pooling.
       rbind (duration_seconds minimum (instant ev)) (\<lambda>lagging.
       try_fold (\<lambda>s ready. rbind (duration_seconds ready (instant ev)) (\<lambda>d. Ok (s\<lparr>pv_flow := pv_flow s @ [d]\<rparr>)))
         (s\<lparr>pv_pooling := pv_pooling s @ [pooling], pv_lagging := pv_lagging s @ [lagging]\<rparr>) readiness))))"

definition performance_waiting :: "int option \<Rightarrow> int \<Rightarrow> event \<Rightarrow> performance_values \<Rightarrow> performance_values ocpm_result" where
  "performance_waiting previous start ev s = (case previous of None \<Rightarrow> Ok s
   | Some previous \<Rightarrow>
      rbind (duration_seconds previous start) (\<lambda>waiting.
      rbind (duration_seconds previous (instant ev)) (\<lambda>sojourn.
      Ok (s\<lparr>pv_waiting := pv_waiting s @ [waiting], pv_sojourn := pv_sojourn s @ [sojourn]\<rparr>))))"

definition performance_complete :: "event \<Rightarrow> execution_clock \<times> performance_values \<Rightarrow> (execution_clock \<times> performance_values) ocpm_result" where
  "performance_complete ev = (\<lambda>(c, s).
     rbind (case bt_get (ec_starts c) (ev_activity ev) of
         Some (start # rest) \<Rightarrow>
           rbind (duration_seconds start (instant ev)) (\<lambda>service.
           rbind (performance_waiting (ec_previous c) start ev (s\<lparr>pv_service := pv_service s @ [service]\<rparr>)) (\<lambda>s.
           Ok (c\<lparr>ec_starts := bt_insert (ev_activity ev) rest (ec_starts c)\<rparr>, s)))
       | _ \<Rightarrow> Ok (c, s)) (\<lambda>(c, s).
     Ok (c\<lparr>ec_previous := Some (instant ev)\<rparr>, s)))"

definition performance_lifecycle :: "event \<Rightarrow> execution_clock \<times> performance_values \<Rightarrow> (execution_clock \<times> performance_values) ocpm_result" where
  "performance_lifecycle ev = (\<lambda>(c, s). case map_option to_ascii_lowercase (ev_lifecycle ev) of
     None \<Rightarrow> Ok (c, s)
   | Some label \<Rightarrow>
      if label = ''start'' then Ok (c\<lparr>ec_starts := bt_push (ev_activity ev) (instant ev) (ec_starts c)\<rparr>, s)
      else if label = ''complete'' then performance_complete ev (c, s)
      else Ok (c, s))"

definition performance_event :: "process_execution \<Rightarrow> execution_clock \<times> performance_values \<Rightarrow> event
    \<Rightarrow> (execution_clock \<times> performance_values) ocpm_result" where
  "performance_event e = (\<lambda>(c, s) ev. let involved = involved_objects e ev in
     rbind (performance_readiness ev (List.map_filter (bt_get (ec_ready c)) involved) s) (\<lambda>s.
     performance_lifecycle ev (c\<lparr>ec_ready := fold (\<lambda>i. bt_insert i (instant ev)) involved (ec_ready c)\<rparr>, s)))"

definition performance_execution :: "performance_values \<Rightarrow> process_execution \<Rightarrow> performance_values ocpm_result" where
  "performance_execution s e =
    rbind (performance_cycle e s) (\<lambda>s.
    rbind (try_fold performance_pair s (windows2 (pe_events e))) (\<lambda>s.
    rbind (try_fold (performance_event e) (clock_new, s) (pe_events e)) (\<lambda>(c, s). Ok s)))"

text \<open>The edges by decreasing mean, then by source and target.\<close>

record edge_row =
  ew_source :: string
  ew_target :: string
  ew_metric :: performance_metric

definition edge_mean :: "'j enhancement_api \<Rightarrow> edge_row \<Rightarrow> f64" where
  "edge_mean api r = (case ea_as_f64 api (pm_mean (ew_metric r)) of None \<Rightarrow> f64_zero | Some v \<Rightarrow> v)"

definition edge_row_le :: "'j enhancement_api \<Rightarrow> edge_row \<Rightarrow> edge_row \<Rightarrow> bool" where
  "edge_row_le api l r = (let a = edge_mean api l; b = edge_mean api r in
     f64_total_lt b a \<or> (\<not> f64_total_lt a b \<and> (ew_source l, ew_target l) \<le> (ew_source r, ew_target r)))"

definition bottleneck_row :: "edge_row \<Rightarrow> group_value" where
  "bottleneck_row r = G_row [(''source'', G_text (ew_source r)), (''target'', G_text (ew_target r)),
     (''support'', G_count (pm_support (ew_metric r))), (''mean_seconds'', G_float_option (pm_mean (ew_metric r)))]"

definition edge_metric :: "(string \<times> string) \<times> f64 list \<Rightarrow> edge_row option" where
  "edge_metric = (\<lambda>((source, target), vs). map_option (\<lambda>m. \<lparr>ew_source = source, ew_target = target, ew_metric = m\<rparr>)
     (metric ''edge_duration'' ''seconds'' vs))"

definition edge_group :: "string \<Rightarrow> string \<Rightarrow> string" where
  "edge_group source target = ''edge:'' @ source @ [unit_separator] @ target"

definition performance_metrics :: "performance_values \<Rightarrow> performance_metric list option" where
  "performance_metrics s = those (map (\<lambda>(name, vs). metric name ''seconds'' vs)
     [(''directly_follows_duration'', pv_all s), (''execution_cycle_time'', pv_cycle s), (''service_time'', pv_service s),
      (''waiting_time'', pv_waiting s), (''sojourn_time'', pv_sojourn s), (''synchronization_time'', pv_synchronization s),
      (''pooling_time'', pv_pooling s), (''lagging_time'', pv_lagging s), (''flow_time'', pv_flow s)])"

definition performance_result :: "'j enhancement_api \<Rightarrow> performance_values \<Rightarrow> enhancement_result option" where
  "performance_result api s =
    Option.bind (those (map edge_metric (pv_edges s))) (\<lambda>rows.
    Option.bind (performance_metrics s) (\<lambda>metrics.
    let groups = fold (\<lambda>r. bt_insert (edge_group (ew_source r) (ew_target r)) (G_metric (ew_metric r))) rows []
    in Some \<lparr>er_metrics = metrics,
      er_groups = bt_insert ''bottleneck_edges'' (G_rows (map bottleneck_row (sort_by (edge_row_le api) rows))) groups,
      er_warnings = (if pv_service s = [] then [''service, waiting, and sojourn time require start/complete lifecycle labels''] else [])\<rparr>))"

definition performance :: "'j enhancement_api \<Rightarrow> process_execution list \<Rightarrow> enhancement_result ocpm_result option" where
  "performance api executions = (case try_fold performance_execution no_values executions of
     Err e \<Rightarrow> Some (Err e) | Ok s \<Rightarrow> map_option Ok (performance_result api s))"

section \<open>Rework and organisation\<close>

definition rework_execution :: "process_execution \<Rightarrow> f64 list \<times> (string, nat) btree_map \<Rightarrow> f64 list \<times> (string, nat) btree_map" where
  "rework_execution e = (\<lambda>(repeated, by_activity).
     let counts = fold (\<lambda>ev. bt_incr (ev_activity ev) 1) (pe_events e) [] in
     (repeated @ [f64_of_nat (sum_list (map (\<lambda>c. c - 1) (bt_values counts)))],
      fold (\<lambda>(activity, c). bt_incr activity (c - 1)) counts by_activity))"

definition rework :: "process_execution list \<Rightarrow> enhancement_result option" where
  "rework executions = (case fold rework_execution executions ([], []) of (repeated, by_activity) \<Rightarrow>
     map_option (\<lambda>m. \<lparr>er_metrics = [m], er_groups = bt_of_list (map (\<lambda>(activity, c). (activity, G_count c)) by_activity), er_warnings = []\<rparr>)
       (metric ''repeated_activity_occurrences'' ''events_per_execution'' repeated))"

record organization =
  og_resources :: "(string, nat) btree_map"
  og_activities :: "(string \<times> string, nat) btree_map"
  og_executions :: "(string, string list) btree_map"
  og_handovers :: "(string \<times> string, nat) btree_map"
  og_missing :: nat

definition event_resource :: "string \<Rightarrow> event \<Rightarrow> string option" where
  "event_resource attribute ev = (case bt_get (ev_attributes ev) attribute of Some (AttrString v) \<Rightarrow> Some v | _ \<Rightarrow> None)"

definition organize_event :: "string \<Rightarrow> string \<Rightarrow> event \<Rightarrow> organization \<Rightarrow> organization" where
  "organize_event attribute execution_id ev s = (case event_resource attribute ev of
     None \<Rightarrow> s\<lparr>og_missing := og_missing s + 1\<rparr>
   | Some resource \<Rightarrow> s\<lparr>og_resources := bt_incr resource 1 (og_resources s),
       og_activities := bt_incr (resource, ev_activity ev) 1 (og_activities s),
       og_executions := bt_alter resource (\<lambda>ids. insort_insert execution_id (case ids of None \<Rightarrow> [] | Some l \<Rightarrow> l)) (og_executions s)\<rparr>)"

definition organize_execution :: "string \<Rightarrow> process_execution \<Rightarrow> organization \<Rightarrow> organization" where
  "organize_execution attribute e s =
    (let s = fold (organize_event attribute (pe_id e)) (pe_events e) s;
       path = List.map_filter (event_resource attribute) (pe_events e)
     in s\<lparr>og_handovers := fold (\<lambda>pair. bt_incr pair 1) (windows2 path) (og_handovers s)\<rparr>)"

definition handover_row :: "(string \<times> string) \<times> nat \<Rightarrow> group_value" where
  "handover_row = (\<lambda>((source, target), frequency).
     G_row [(''source'', G_text source), (''target'', G_text target), (''frequency'', G_count frequency)])"

definition resource_activity_row :: "(string \<times> string) \<times> nat \<Rightarrow> group_value" where
  "resource_activity_row = (\<lambda>((resource, activity), frequency).
     G_row [(''resource'', G_text resource), (''activity'', G_text activity), (''frequency'', G_count frequency)])"

definition organizational :: "'j enhancement_api \<Rightarrow> process_execution list \<Rightarrow> 'j enhancement_request \<Rightarrow> enhancement_result option" where
  "organizational api executions request =
    (let attribute = (case Option.bind (bt_get (eq_parameters request) ''resource_attribute'') (ea_as_str api) of None \<Rightarrow> ''org:resource'' | Some a \<Rightarrow> a);
       s = fold (organize_execution attribute) executions
         \<lparr>og_resources = [], og_activities = [], og_executions = [], og_handovers = [], og_missing = 0\<rparr>
     in map_option (\<lambda>m. \<lparr>er_metrics = [m],
       er_groups = bt_insert ''resource_executions'' (G_names (og_executions s))
         (bt_insert ''resource_activities'' (G_rows (map resource_activity_row (og_activities s)))
         (bt_insert ''handovers'' (G_rows (map handover_row (og_handovers s)))
         (bt_insert ''resources'' (G_counts (og_resources s)) []))),
       er_warnings = (if 0 < og_missing s then [show_nat (og_missing s) @ '' events lacked string attribute '' @ attribute] else [])\<rparr>)
       (metric ''resource_workload'' ''events'' (map f64_of_nat (bt_values (og_resources s)))))"

section \<open>Drift\<close>

definition activity_counts :: "process_execution list \<Rightarrow> (string, nat) btree_map" where
  "activity_counts executions = fold (\<lambda>ev. bt_incr (ev_activity ev) 1) (concat (map pe_events executions)) []"

definition dfg_counts :: "process_execution list \<Rightarrow> (string, nat) btree_map" where
  "dfg_counts executions = fold (\<lambda>(a, b). bt_incr (ev_activity a @ [unit_separator] @ ev_activity b) 1)
     (concat (map (\<lambda>e. windows2 (pe_events e)) executions)) []"

definition variant_counts :: "'j enhancement_api \<Rightarrow> process_execution list \<Rightarrow> (string, nat) btree_map" where
  "variant_counts api executions = fold (\<lambda>e. bt_incr (ea_path_text api (activity_path e)) 1) executions []"

definition kl_term :: "(f64 \<Rightarrow> f64) \<Rightarrow> f64 \<Rightarrow> f64 \<Rightarrow> f64" where
  "kl_term lg v midpoint = (if f64_eq v f64_zero \<or> f64_eq midpoint f64_zero then f64_zero else f64_mul v (lg (f64_div v midpoint)))"

definition share_ratio :: "nat \<Rightarrow> nat \<Rightarrow> f64" where
  "share_ratio numerator denominator = (if denominator = 0 then f64_zero else f64_div (f64_of_nat numerator) (f64_of_nat denominator))"

record drift_share =
  dh_baseline :: f64
  dh_comparison :: f64
  dh_delta :: f64
  dh_contribution :: f64

definition drift_share_of :: "(f64 \<Rightarrow> f64) \<Rightarrow> f64 \<Rightarrow> f64 \<Rightarrow> drift_share" where
  "drift_share_of lg left right = (let midpoint = f64_div (f64_add left right) (F_fin 2) in
     \<lparr>dh_baseline = left, dh_comparison = right, dh_delta = f64_sub right left,
      dh_contribution = f64_add (f64_mul f64_half (kl_term lg left midpoint)) (f64_mul f64_half (kl_term lg right midpoint))\<rparr>)"

definition label_share :: "(f64 \<Rightarrow> f64) \<Rightarrow> (string, nat) btree_map \<Rightarrow> (string, nat) btree_map \<Rightarrow> string \<Rightarrow> drift_share" where
  "label_share lg baseline comparison label = drift_share_of lg
     (share_ratio (case bt_get baseline label of None \<Rightarrow> 0 | Some n \<Rightarrow> n) (sum_list (bt_values baseline)))
     (share_ratio (case bt_get comparison label of None \<Rightarrow> 0 | Some n \<Rightarrow> n) (sum_list (bt_values comparison)))"

definition distribution_drift :: "(f64 \<Rightarrow> f64) \<Rightarrow> (string, nat) btree_map \<Rightarrow> (string, nat) btree_map
    \<Rightarrow> f64 \<times> (string, drift_share) btree_map \<times> nat" where
  "distribution_drift lg baseline comparison =
    (let (divergence, contributions) = fold (\<lambda>label (divergence, contributions).
         let h = label_share lg baseline comparison label in
         (f64_add divergence (dh_contribution h), bt_insert label h contributions))
       (bset (bt_keys baseline @ bt_keys comparison)) (f64_zero, [])
     in (divergence, contributions, sum_list (bt_values baseline) + sum_list (bt_values comparison)))"

definition drift_row :: "drift_share \<Rightarrow> group_value" where
  "drift_row h = G_row [(''baseline_share'', G_float (dh_baseline h)), (''comparison_share'', G_float (dh_comparison h)),
     (''share_delta'', G_float (dh_delta h)), (''js_contribution'', G_float (dh_contribution h))]"

definition drift_table :: "(string, drift_share) btree_map \<Rightarrow> group_value" where
  "drift_table m = G_table (map (\<lambda>(label, h). (label, drift_row h)) m)"

definition mean_delta :: "f64 option \<Rightarrow> f64 option \<Rightarrow> f64 option" where
  "mean_delta baseline comparison = (case (comparison, baseline) of (Some right, Some left) \<Rightarrow> Some (f64_sub right left) | _ \<Rightarrow> None)"

definition drift_result :: "'j enhancement_api \<Rightarrow> (f64 \<Rightarrow> f64) \<Rightarrow> process_execution list \<Rightarrow> process_execution list
    \<Rightarrow> f64 list \<Rightarrow> f64 list \<Rightarrow> enhancement_result" where
  "drift_result api lg baseline comparison baseline_cycles comparison_cycles =
    (let (activity_divergence, activity, activity_support) = distribution_drift lg (activity_counts baseline) (activity_counts comparison);
       (dfg_divergence, dfg, dfg_support) = distribution_drift lg (dfg_counts baseline) (dfg_counts comparison);
       (variant_divergence, variant, variant_support) = distribution_drift lg (variant_counts api baseline) (variant_counts api comparison);
       delta = mean_delta (mean_of baseline_cycles) (mean_of comparison_cycles)
     in \<lparr>er_metrics = [scalar_metric ''activity_jensen_shannon_divergence'' ''bits'' activity_support activity_divergence,
          scalar_metric ''dfg_jensen_shannon_divergence'' ''bits'' dfg_support dfg_divergence,
          scalar_metric ''variant_jensen_shannon_divergence'' ''bits'' variant_support variant_divergence,
          \<lparr>pm_name = ''mean_cycle_time_delta'', pm_unit = ''seconds'', pm_support = length baseline_cycles + length comparison_cycles,
           pm_mean = delta, pm_minimum = None, pm_maximum = None, pm_median = None\<rparr>],
        er_groups = bt_insert ''performance'' (G_row [(''baseline_mean_cycle_seconds'', G_float_option (mean_of baseline_cycles)),
            (''comparison_mean_cycle_seconds'', G_float_option (mean_of comparison_cycles)), (''mean_cycle_delta_seconds'', G_float_option delta)])
          (bt_insert ''variant'' (drift_table variant) (bt_insert ''dfg'' (drift_table dfg) (bt_insert ''activity'' (drift_table activity) []))),
        er_warnings = []\<rparr>)"

definition drift_between :: "'j enhancement_api \<Rightarrow> (f64 \<Rightarrow> f64) \<Rightarrow> process_execution list \<Rightarrow> process_execution list
    \<Rightarrow> enhancement_result ocpm_result" where
  "drift_between api lg baseline comparison =
    rbind (cycle_times baseline) (\<lambda>baseline_cycles.
    rbind (cycle_times comparison) (\<lambda>comparison_cycles.
    Ok (drift_result api lg baseline comparison baseline_cycles comparison_cycles)))"

section \<open>The entry point\<close>

definition enhancement_mode :: "'j enhancement_api \<Rightarrow> (string, 'j) btree_map \<Rightarrow> execution_mode" where
  "enhancement_mode api parameters =
    (if Option.bind (bt_get parameters ''execution_mode'') (ea_as_str api) = Some ''connected_component'' then ConnectedComponent else LeadingObject)"

definition enhance_executions :: "'j enhancement_api \<Rightarrow> (f64 \<Rightarrow> f64) \<Rightarrow> (dataset_view \<Rightarrow> process_execution list ocpm_result)
    \<Rightarrow> 'j enhancement_request \<Rightarrow> process_execution list \<Rightarrow> enhancement_result ocpm_result option" where
  "enhance_executions api lg executions_of request executions = (case eq_kind request of
     ProcessMap \<Rightarrow> process_map executions
   | Timeline \<Rightarrow> Some (Ok (timeline executions))
   | Histogram \<Rightarrow> histogram executions
   | Performance \<Rightarrow> performance api executions
   | Rework \<Rightarrow> map_option Ok (rework executions)
   | Organizational \<Rightarrow> map_option Ok (organizational api executions request)
   | _ \<Rightarrow> Some (rbind (ok_or (invalid_request ''comparison_view is required for drift analysis'') (eq_comparison_view request)) (\<lambda>comparison.
       rbind (executions_of comparison) (\<lambda>other. drift_between api lg executions other))))"

definition enhance :: "'j enhancement_api \<Rightarrow> (f64 \<Rightarrow> f64) \<Rightarrow> executions_method \<Rightarrow> 'j enhancement_request
    \<Rightarrow> enhancement_result ocpm_result option" where
  "enhance api lg process_executions request =
    (if eq_semantic_version request \<noteq> ''1.0'' then Some (Err (invalid_request ''semantic_version must be 1.0''))
     else let mode = enhancement_mode api (eq_parameters request);
         leading = Option.bind (bt_get (eq_parameters request) ''leading_object_type'') (ea_as_str api);
         executions_of = (\<lambda>view. process_executions view mode leading)
       in case executions_of (eq_view request) of Err e \<Rightarrow> Some (Err e)
        | Ok executions \<Rightarrow> enhance_executions api lg executions_of request executions)"

end
