(* ===== verification/EnhancementFacts.thy ===== *)
theory EnhancementFacts
  imports Enhancement
begin

text \<open>
  Facts about \<open>Enhancement\<close>: metrics depend only on the sample and describe it, nothing panics, executions in order of time
  never fail for the order of their events except where the code compares a start with an earlier completion, the process map
  is the discovered directly-follows graph, the bins of a histogram count the sample, and drift is symmetric.
\<close>

named_theorems enhancement_simps "what the operations answer on executions in order of time"

section \<open>Metrics\<close>

definition total_sorted :: "f64 list \<Rightarrow> f64 list" where
  "total_sorted vs = sort_by f64_total_le vs"

lemma total_rank_inj: "total_rank x = total_rank y \<Longrightarrow> x = y"
  by (cases x; cases y) (auto split: if_splits)

lemma total_sorted_key: "total_sorted vs = sort_key total_rank vs"
  unfolding total_sorted_def by (rule sort_by_key) (simp add: f64_total_le_def f64_total_lt_rank not_less)

text \<open>Sorting by the total order forgets the order of a sample.\<close>

lemma total_sorted_perm: "mset us = mset vs \<Longrightarrow> total_sorted us = total_sorted vs"
  unfolding total_sorted_key by (rule sort_key_inj_key_eq) (auto simp: inj_on_def intro: total_rank_inj)

lemma total_sorted_set [simp]: "set (total_sorted vs) = set vs" "length (total_sorted vs) = length vs"
  by (simp_all add: total_sorted_key)

lemma total_sorted_Nil [simp]: "total_sorted vs = [] \<longleftrightarrow> vs = []"
  by (metis length_0_conv total_sorted_set(2))

definition total_le :: "f64 \<Rightarrow> f64 \<Rightarrow> bool" where
  "total_le x y \<longleftrightarrow> total_rank x \<le> total_rank y"

lemma total_sorted_wrt: "sorted_wrt total_le (total_sorted vs)"
  using sorted_sort_key [of total_rank vs] by (simp add: total_sorted_key sorted_wrt_map total_le_def [abs_def])

definition sample_median :: "f64 list \<Rightarrow> f64" where
  "sample_median vs = (let n = length vs; s = total_sorted vs in
     if even n then f64_div (f64_add (s ! (n div 2 - 1)) (s ! (n div 2))) (F_fin 2) else s ! (n div 2))"

definition total_mean :: "f64 list \<Rightarrow> f64" where
  "total_mean vs = f64_div (f64_sum (total_sorted vs)) (f64_of_nat (length vs))"

lemma metric_eq:
  "metric name unit vs = Some (if vs = [] then default_metric\<lparr>pm_name := name, pm_unit := unit\<rparr>
     else \<lparr>pm_name = name, pm_unit = unit, pm_support = length vs, pm_mean = Some (total_mean vs),
       pm_minimum = Some (hd (total_sorted vs)), pm_maximum = Some (last (total_sorted vs)), pm_median = Some (sample_median vs)\<rparr>)"
proof (cases "vs = []")
  case False
  then have "0 < length vs" by simp
  then have n: "0 < length vs" "length vs div 2 < length vs" "length vs div 2 - 1 < length vs" by linarith+
  have "first_opt (total_sorted vs) = Some (hd (total_sorted vs))" "last_opt (total_sorted vs) = Some (last (total_sorted vs))"
    using False by (metis total_sorted_Nil list.exhaust first_opt_def list.simps(5) list.sel(1)) (simp add: last_opt_def False)
  then show ?thesis using False n
    by (auto simp: metric_def Let_def total_sorted_def [symmetric] sample_median_def total_mean_def even_iff_mod_2_eq_zero)
qed (simp add: metric_def)

lemma metric_total: "\<exists>m. metric name unit vs = Some m \<and> pm_support m = length vs"
  unfolding metric_eq by (auto simp: default_metric_def)

lemma metric_perm: "mset us = mset vs \<Longrightarrow> metric name unit us = metric name unit vs"
  unfolding metric_eq sample_median_def total_mean_def
  using total_sorted_perm [of us vs] mset_eq_length [of us vs] by auto

lemma total_bounds:
  assumes "v \<in> set vs"
  shows "total_le (hd (total_sorted vs)) v \<and> total_le v (last (total_sorted vs))"
proof -
  obtain i where i: "i < length (total_sorted vs)" "total_sorted vs ! i = v" using assms by (metis in_set_conv_nth total_sorted_set(1))
  have refl: "total_le x x" for x by (simp add: total_le_def)
  have ne: "vs \<noteq> []" using assms by auto
  have mono: "total_le (total_sorted vs ! j) (total_sorted vs ! k)" if "j \<le> k" "k < length (total_sorted vs)" for j k
    using that sorted_wrt_nth_less [OF total_sorted_wrt, of j k vs] refl by (cases "j = k") auto
  show ?thesis
    using mono [of 0 i] mono [of i "length (total_sorted vs) - 1"] i ne by (simp add: hd_conv_nth last_conv_nth)
qed

section \<open>Durations of executions in order of time\<close>

definition time_ordered :: "process_execution \<Rightarrow> bool" where
  "time_ordered e \<longleftrightarrow> sorted (map instant (pe_events e))"

lemma event_duration_ordered [enhancement_simps]: "instant a \<le> instant b \<Longrightarrow> event_duration a b = Ok (seconds_between a b)"
  by (simp add: event_duration_def duration_seconds_def seconds_between_def)

lemma time_ordered_nth: "time_ordered e \<Longrightarrow> i \<le> j \<Longrightarrow> j < length (pe_events e) \<Longrightarrow> instant (pe_events e ! i) \<le> instant (pe_events e ! j)"
  unfolding time_ordered_def by (metis (no_types, lifting) length_map nth_map order.strict_trans1 sorted_nth_mono)

lemma time_ordered_pair: "time_ordered e \<Longrightarrow> (a, b) \<in> set (windows2 (pe_events e)) \<Longrightarrow> instant a \<le> instant b"
  by (auto simp: windows2_conv_nth intro: time_ordered_nth)

lemma time_ordered_ends: "time_ordered e \<Longrightarrow> first_opt (pe_events e) = Some a \<Longrightarrow> last_opt (pe_events e) = Some b \<Longrightarrow> instant a \<le> instant b"
  using time_ordered_nth [of e 0 "length (pe_events e) - 1"]
  by (auto simp: first_opt_def last_opt_def hd_conv_nth last_conv_nth split: list.splits if_splits)

text \<open>A loop whose body never returns early is a fold.\<close>

lemma try_fold_pure: "(\<And>x s. x \<in> set xs \<Longrightarrow> f s x = Ok (g x s)) \<Longrightarrow> try_fold f s xs = Ok (fold g xs s)"
  by (induction xs arbitrary: s) auto

lemma end_points_ordered: "\<forall>e \<in> set es. time_ordered e \<Longrightarrow> (a, b) \<in> set (end_points es) \<Longrightarrow> instant a \<le> instant b"
  by (auto simp: end_points_def List.map_filter_def split: option.splits) (blast intro: time_ordered_ends)

lemma fold_append_map: "fold (\<lambda>x vs. vs @ [f x]) xs us = us @ map f xs"
  by (induction xs arbitrary: us) simp_all

definition cycle_seconds :: "process_execution list \<Rightarrow> f64 list" where
  "cycle_seconds es = map (\<lambda>(a, b). seconds_between a b) (end_points es)"

lemma cycle_times_ordered [enhancement_simps]: "\<forall>e \<in> set es. time_ordered e \<Longrightarrow> cycle_times es = Ok (cycle_seconds es)"
  unfolding cycle_times_def cycle_seconds_def
  by (subst try_fold_pure [where g = "\<lambda>x vs. vs @ [(\<lambda>(a, b). seconds_between a b) x]"])
    (auto simp: push_duration_def event_duration_ordered end_points_ordered fold_append_map)

section \<open>Histograms\<close>

lemma bin_index_less [simp]: "bin_index minimum width v < 10"
  by (simp add: bin_index_def)

lemma count_bin_total: "length bins = 10 \<Longrightarrow>
    count_bin minimum width v bins = Some (bins[bin_index minimum width v := Suc (bins ! bin_index minimum width v)])"
  by (simp add: count_bin_def Let_def)

lemma count_bins: "length bins = 10 \<Longrightarrow> fold_opt (count_bin minimum width) vs bins =
    Some (map (\<lambda>i. bins ! i + length (filter (\<lambda>v. bin_index minimum width v = i) vs)) [0..<10])"
proof (induction vs arbitrary: bins)
  case Nil
  then show ?case by (auto intro!: nth_equalityI simp del: upt_rec_numeral)
next
  case (Cons v vs)
  let ?bins = "bins[bin_index minimum width v := Suc (bins ! bin_index minimum width v)]"
  have "?bins ! j = bins ! j + (if bin_index minimum width v = j then 1 else 0)" if "j < 10" for j
    using that Cons.prems by (auto simp: nth_list_update)
  moreover have "length ?bins = 10" using Cons.prems by simp
  ultimately show ?case unfolding fold_opt.simps count_bin_total [OF Cons.prems] Option.bind.simps
    by (subst Cons.IH) (auto simp: nth_list_update Cons.prems simp del: upt_rec_numeral)
qed

lemma sum_partition: "\<forall>v \<in> set vs. f v < n \<Longrightarrow> sum_list (map (\<lambda>i. length (filter (\<lambda>v. f v = i) vs)) [0..<n]) = length vs"
proof (induction vs)
  case (Cons v vs)
  have "sum_list (map (\<lambda>i. length (filter (\<lambda>v. f v = i) (v # vs))) [0..<n]) =
      sum_list (map (\<lambda>i. (if f v = i then 1 else 0) + length (filter (\<lambda>v. f v = i) vs)) [0..<n])"
    by (rule arg_cong [where f = sum_list]) auto
  also have "\<dots> = sum_list (map (\<lambda>i. if f v = i then 1 else 0) [0..<n]) + length vs"
    using Cons by (simp add: sum_list_addf)
  also have "sum_list (map (\<lambda>i. if f v = i then 1 else 0 :: nat) [0..<n]) = 1"
    using Cons.prems by (simp add: sum_list_distinct_conv_sum_set sum.delta)
  finally show ?case by simp
qed simp

lemma total_min_sorted: "vs \<noteq> [] \<Longrightarrow> total_min vs = Some (hd (total_sorted vs))"
proof -
  assume ne: "vs \<noteq> []"
  have "\<exists>m. total_min us = Some m \<and> m \<in> set us \<and> (\<forall>v \<in> set us. total_le m v)" if "us \<noteq> []" for us
    using that
  proof (induction us rule: rev_nonempty_induct)
    case (snoc u us)
    then obtain v vs where vs: "us = v # vs" by (cases us) auto
    show ?case using snoc.IH unfolding vs by (auto simp: total_le_def f64_total_lt_rank intro: order_trans less_imp_le)
  qed (simp add: total_le_def)
  from this [OF ne] obtain m where m: "total_min vs = Some m" "m \<in> set vs" "\<forall>v \<in> set vs. total_le m v" by blast
  have "hd (total_sorted vs) \<in> set vs" using ne by (metis hd_in_set length_0_conv total_sorted_set)
  then have "m = hd (total_sorted vs)" using m total_bounds [OF m(2)] by (intro total_rank_inj) (auto simp: total_le_def)
  then show ?thesis using m(1) by simp
qed

lemma total_max_sorted: "vs \<noteq> [] \<Longrightarrow> total_max vs = Some (last (total_sorted vs))"
proof -
  assume ne: "vs \<noteq> []"
  have "\<exists>m. total_max us = Some m \<and> m \<in> set us \<and> (\<forall>v \<in> set us. total_le v m)" if "us \<noteq> []" for us
    using that
  proof (induction us rule: rev_nonempty_induct)
    case (snoc u us)
    then obtain v vs where vs: "us = v # vs" by (cases us) auto
    show ?case using snoc.IH unfolding vs by (auto simp: total_le_def f64_total_lt_rank intro: order_trans less_imp_le)
  qed (simp add: total_le_def)
  from this [OF ne] obtain m where m: "total_max vs = Some m" "m \<in> set vs" "\<forall>v \<in> set vs. total_le v m" by blast
  have "last (total_sorted vs) \<in> set vs" using ne by (metis last_in_set length_0_conv total_sorted_set)
  then have "m = last (total_sorted vs)" using m total_bounds [OF m(2)] by (intro total_rank_inj) (auto simp: total_le_def)
  then show ?thesis using m(1) by simp
qed

lemma histogram_values_total: "\<exists>r. histogram_values vs = Some r"
proof (cases "vs = []")
  case True
  then show ?thesis by (simp add: histogram_values_def metric_eq)
next
  case False
  have "length (replicate 10 (0 :: nat)) = 10" by simp
  from count_bins [OF this] show ?thesis using False by (simp add: histogram_values_def Let_def metric_eq)
qed

text \<open>A histogram of executions in order of time always answers; for a log with executions that have events it reports the
  cycle times with the least and the greatest as the range, and ten bins: the count of a bin is the number of cycle times whose
  bin it is, so that the counts add up to the number of executions.\<close>

theorem histogram_counts:
  assumes "\<forall>e \<in> set es. time_ordered e"
  shows "\<exists>r. histogram es = Some (Ok r) \<and> (let vs = cycle_seconds es; minimum = hd (total_sorted vs);
      width = bin_width minimum (last (total_sorted vs)); bins = map (\<lambda>i. length (filter (\<lambda>v. bin_index minimum width v = i) vs)) [0..<10] in
    length vs = length (filter (\<lambda>e. pe_events e \<noteq> []) es) \<and>
    (if vs = [] then er_groups r = [] \<and> er_warnings r \<noteq> []
     else er_groups r = [(''histogram'', G_rows (map (bin_row minimum width) (indexed bins)))] \<and>
       sum_list bins = length vs \<and> (\<forall>v \<in> set vs. total_le minimum v \<and> total_le v (last (total_sorted vs))) \<and>
       metric ''execution_cycle_time'' ''seconds'' vs = Some (hd (er_metrics r))))"
proof -
  let ?vs = "cycle_seconds es"
  let ?minimum = "hd (total_sorted ?vs)"
  let ?width = "bin_width ?minimum (last (total_sorted ?vs))"
  have h: "histogram es = map_option Ok (histogram_values ?vs)" by (simp add: histogram_def cycle_times_ordered [OF assms])
  have len: "length ?vs = length (filter (\<lambda>e. pe_events e \<noteq> []) es)"
    unfolding cycle_seconds_def end_points_def List.map_filter_def
    by (induction es) (auto simp: first_opt_def last_opt_def split: list.splits)
  show ?thesis
  proof (cases "?vs = []")
    case True
    then show ?thesis using len by (simp add: h histogram_values_def metric_eq Let_def)
  next
    case False
    have ten: "length (replicate 10 (0 :: nat)) = 10" by simp
    have "\<forall>v \<in> set ?vs. bin_index ?minimum ?width v < 10" by simp
    note sum = sum_partition [OF this]
    have bins: "map (\<lambda>i. replicate 10 0 ! i + length (filter (\<lambda>v. bin_index ?minimum ?width v = i) ?vs)) [0..<10]
        = map (\<lambda>i. length (filter (\<lambda>v. bin_index ?minimum ?width v = i) ?vs)) [0..<10]" by (rule map_cong) auto
    show ?thesis
      using False sum len count_bins [OF ten, of ?minimum ?width ?vs, unfolded bins] total_bounds [of _ ?vs]
      by (simp add: h histogram_values_def Let_def total_min_sorted total_max_sorted bt_of_list_def bt_insert_def metric_eq del: upt_rec_numeral)
  qed
qed

text \<open>Two activities of one execution that overlap.\<close>

definition lifecycle_event :: "string \<Rightarrow> string \<Rightarrow> int \<Rightarrow> event" where
  "lifecycle_event activity label t = (sample_event 1 ''e'' activity t)\<lparr>ev_lifecycle := Some label\<rparr>"

definition overlapping :: process_execution where
  "overlapping = sample_execution\<lparr>pe_events := [lifecycle_event ''a'' ''start'' 0, lifecycle_event ''b'' ''start'' 1,
     lifecycle_event ''a'' ''complete'' 2, lifecycle_event ''b'' ''COMPLETE'' 3]\<rparr>"

lemma overlapping_ordered: "\<forall>e \<in> set [overlapping]. time_ordered e"
  by (simp add: overlapping_def time_ordered_def lifecycle_event_def sample_event_def)

theorem histogram_counts_witness: "\<exists>r. histogram [overlapping] = Some (Ok r) \<and> map fst (er_groups r) = [''histogram'']"
proof -
  have "pe_events overlapping \<noteq> []" by (simp add: overlapping_def)
  then show ?thesis using histogram_counts [OF overlapping_ordered] by (auto simp: Let_def split: if_splits)
qed

section \<open>Process maps\<close>

definition all_pairs :: "process_execution list \<Rightarrow> (event \<times> event) list" where
  "all_pairs es = concat (map (\<lambda>e. windows2 (pe_events e)) es)"

lemma try_fold_concat: "try_fold (\<lambda>s e. try_fold f s (g e)) s es = try_fold f s (concat (map g es))"
  by (induction es arbitrary: s) (simp_all add: try_fold_append)

lemma all_pairs_ordered: "\<forall>e \<in> set es. time_ordered e \<Longrightarrow> (a, b) \<in> set (all_pairs es) \<Longrightarrow> instant a \<le> instant b"
  by (auto simp: all_pairs_def intro: time_ordered_pair)

lemma map_pair_run:
  "try_fold map_pair (f, d) xs = Ok (f', d') \<Longrightarrow> \<exists>vs. length vs = length xs \<and>
    f' = fold (\<lambda>x. bt_incr (pair_key x) 1) xs f \<and> d' = fold (\<lambda>(x, v). bt_push (pair_key x) v) (zip xs vs) d"
proof (induction xs arbitrary: f d)
  case (Cons x xs)
  obtain a b where x: "x = (a, b)" by force
  obtain v where v: "event_duration a b = Ok v"
    and rest: "try_fold map_pair (bt_incr (pair_key x) 1 f, bt_push (pair_key x) v d) xs = Ok (f', d')"
    using Cons.prems x by (auto simp: map_pair_def result_simps)
  from Cons.IH [OF rest] obtain vs where vs: "length vs = length xs"
    "f' = fold (\<lambda>x. bt_incr (pair_key x) 1) xs (bt_incr (pair_key x) 1 f)"
    "d' = fold (\<lambda>(x, v). bt_push (pair_key x) v) (zip xs vs) (bt_push (pair_key x) v d)" by blast
  then show ?case by (intro exI [of _ "v # vs"]) simp
qed simp

lemma those_each: "\<forall>x \<in> set xs. \<exists>y. f x = Some y \<Longrightarrow> those (map f xs) = Some (map (\<lambda>x. the (f x)) xs)"
  by (induction xs) auto

lemma map_edge_found: "bt_get d (a, b) = Some vs \<Longrightarrow> map_edge d ((a, b), n) =
    Some (G_row [(''source'', G_text a), (''target'', G_text b), (''frequency'', G_count n), (''duration'', G_metric (the (metric ''edge_duration'' ''seconds'' vs)))])"
  using metric_total [of "''edge_duration''" "''seconds''" vs] by (auto simp: map_edge_def)

lemma process_map_total: "\<exists>r. process_map es = Some r"
proof (cases "map_executions es")
  case (Inr s)
  obtain f d where s: "s = (f, d)" by force
  have "try_fold map_pair ([], []) (all_pairs es) = Ok (f, d)"
    using Inr s by (simp add: map_executions_def try_fold_concat all_pairs_def)
  from map_pair_run [OF this] obtain vs where vs: "length vs = length (all_pairs es)"
    "f = fold (\<lambda>x. bt_incr (pair_key x) 1) (all_pairs es) []"
    "d = fold (\<lambda>z. bt_push (pair_key (fst z)) (snd z)) (zip (all_pairs es) vs) []" by (auto simp: case_prod_unfold)
  have "\<exists>row. map_edge d y = Some row" if "y \<in> set f" for y
  proof -
    obtain a b n where y: "y = ((a, b), n)" by (metis surj_pair)
    have "bt_get f (a, b) = Some n"
      using that bt.entries_in [OF bt_inv_fold_incr [of pair_key 1 "all_pairs es"], of "(a, b)" n] unfolding y vs(2) by simp
    then obtain x where x: "x \<in> set (all_pairs es)" "pair_key x = (a, b)"
      using get_fold_incr [of pair_key "all_pairs es" "(a, b)"] unfolding vs(2) by (auto split: if_splits)
    then obtain v where "(x, v) \<in> set (zip (all_pairs es) vs)" using vs(1) by (metis in_set_impl_in_set_zip1)
    then have "\<exists>us. bt_get d (a, b) = Some us" using x(2) unfolding vs(3) get_fold_push by (auto intro!: bexI [of _ "(x, v)"])
    then show ?thesis using y map_edge_found by auto
  qed
  then show ?thesis using Inr s by (simp add: process_map_def those_each)
qed (simp add: process_map_def)

text \<open>The durations of an edge, in the order of the log.\<close>

definition pair_durations :: "process_execution list \<Rightarrow> string \<times> string \<Rightarrow> f64 list" where
  "pair_durations es k = map (\<lambda>(a, b). seconds_between a b) (filter (\<lambda>x. pair_key x = k) (all_pairs es))"

lemma fold_components: "fold (\<lambda>x s. (f x (fst s), g x (snd s))) xs s = (fold f xs (fst s), fold g xs (snd s))"
  by (induction xs arbitrary: s) simp_all

lemma map_pairs_ordered:
  assumes "\<forall>e \<in> set es. time_ordered e"
  shows "map_executions es = Ok (fold (\<lambda>x. bt_incr (pair_key x) 1) (all_pairs es) [],
    fold (\<lambda>x. bt_push (pair_key x) ((\<lambda>(a, b). seconds_between a b) x)) (all_pairs es) [])"
proof -
  have "map_pair s x = Ok (bt_incr (pair_key x) 1 (fst s), bt_push (pair_key x) ((\<lambda>(a, b). seconds_between a b) x) (snd s))"
    if "x \<in> set (all_pairs es)" for s x
  proof -
    obtain a b f d where eq: "x = (a, b)" "s = (f, d)" by force
    show ?thesis using all_pairs_ordered [OF assms, of a b] that unfolding eq by (simp add: map_pair_def event_duration_ordered)
  qed
  then have run: "try_fold map_pair s (all_pairs es) = Ok (fold (\<lambda>x s. (bt_incr (pair_key x) 1 (fst s),
      bt_push (pair_key x) ((\<lambda>(a, b). seconds_between a b) x) (snd s))) (all_pairs es) s)" for s
    by (rule try_fold_pure)
  show ?thesis
    unfolding map_executions_def try_fold_concat all_pairs_def [symmetric] run
    using fold_components [of "\<lambda>x. bt_incr (pair_key x) 1" "\<lambda>x. bt_push (pair_key x) ((\<lambda>(a, b). seconds_between a b) x)" "all_pairs es" "([], [])"]
    by simp
qed

text \<open>Two counting maps whose keys correspond in order.\<close>

lemma bt_incr_rename:
  assumes "\<And>j k. h j < h k \<longleftrightarrow> j < (k :: 'k::linorder)"
  shows "bt_incr (h k :: 'l::linorder) n (map (\<lambda>(j, v). (h j, v)) m) = map (\<lambda>(j, v). (h j, v)) (bt_incr k n m)"
proof -
  have "h j = h k \<longleftrightarrow> j = k" for j k using assms by (metis less_irrefl neq_iff)
  then show ?thesis unfolding bt_incr_def
    by (induction k "\<lambda>e. case e of None \<Rightarrow> n | Some c \<Rightarrow> c + n" m rule: bt_alter.induct) (auto simp: assms)
qed

lemma fold_incr_rename:
  assumes "\<And>j k. h j < h k \<longleftrightarrow> j < (k :: 'k::linorder)"
  shows "fold (\<lambda>k. bt_incr (h k :: 'l::linorder) n) ks (map (\<lambda>(j, v). (h j, v)) m) = map (\<lambda>(j, v). (h j, v)) (fold (\<lambda>k. bt_incr k n) ks m)"
  by (induction ks arbitrary: m) (simp_all add: bt_incr_rename [OF assms])

lemma dfg_edges_pairs:
  "dfg_edges (discover_dfg es False) = map (\<lambda>((a, b), n). \<lparr>de_source = a, de_target = b, de_object_type = [], de_frequency = n\<rparr>)
     (fold (\<lambda>x. bt_incr (pair_key x) 1) (all_pairs es) [])"
proof -
  let ?h = "\<lambda>(a, b). (a :: string, b :: string, [] :: string)"
  have mono: "?h j < ?h k \<longleftrightarrow> j < k" for j k by (auto simp: less_prod_def split: prod.splits)
  have "edge_keys False e = map ?h (map pair_key (windows2 (pe_events e)))" for e
    by (simp add: edge_keys_def execution_type_def activity_path_def windows2_map pair_key_def comp_def case_prod_unfold)
  then have keys: "concat (map (edge_keys False) es) = map ?h (map pair_key (all_pairs es))"
    unfolding all_pairs_def by (induction es) simp_all
  have "fold (\<lambda>k. bt_incr k 1) (concat (map (edge_keys False) es)) [] = fold (\<lambda>k. bt_incr (?h k) 1) (map pair_key (all_pairs es)) []"
    unfolding keys by (simp add: fold_map comp_def)
  also have "\<dots> = map (\<lambda>(j, v). (?h j, v)) (fold (\<lambda>k. bt_incr k 1) (map pair_key (all_pairs es)) [])"
    using fold_incr_rename [of ?h 1 "map pair_key (all_pairs es)" "[]", OF mono] by simp
  finally show ?thesis unfolding discover_dfg_parts by (simp add: fold_map comp_def case_prod_unfold)
qed

definition process_map_row :: "process_execution list \<Rightarrow> dfg_edge \<Rightarrow> group_value" where
  "process_map_row es x = G_row [(''source'', G_text (de_source x)), (''target'', G_text (de_target x)), (''frequency'', G_count (de_frequency x)),
     (''duration'', G_metric (the (metric ''edge_duration'' ''seconds'' (pair_durations es (de_source x, de_target x)))))]"

text \<open>C35: The process map of executions in order of time is their discovered directly-follows graph without object types, edge
  by edge and in the same order, each edge with its frequency and the summary of exactly the durations between its adjacent
  occurrences, of which there are as many as the frequency says.\<close>

theorem process_map_is_dfg:
  assumes "\<forall>e \<in> set es. time_ordered e"
  shows "\<exists>r. process_map es = Some (Ok r) \<and>
    er_groups r = [(''edges'', G_rows (map (process_map_row es) (dfg_edges (discover_dfg es False))))] \<and>
    map pm_support (er_metrics r) = [length (dfg_edges (discover_dfg es False))] \<and>
    (\<forall>x \<in> set (dfg_edges (discover_dfg es False)). length (pair_durations es (de_source x, de_target x)) = de_frequency x)"
proof -
  let ?f = "fold (\<lambda>x. bt_incr (pair_key x) 1) (all_pairs es) []"
  let ?d = "fold (\<lambda>x. bt_push (pair_key x) ((\<lambda>(a, b). seconds_between a b) x)) (all_pairs es) []"
  have entry: "(\<exists>x \<in> set (all_pairs es). pair_key x = k) \<and> n = length (pair_durations es k)" if "(k, n) \<in> set ?f" for k n
    using that bt.entries_in [OF bt_inv_fold_incr [of pair_key 1 "all_pairs es"], of k n] get_fold_incr [of pair_key "all_pairs es" k]
    by (auto simp: pair_durations_def split: if_splits)
  have row: "map_edge ?d (k, n) = Some (process_map_row es ((\<lambda>((a, b), n). \<lparr>de_source = a, de_target = b, de_object_type = [], de_frequency = n\<rparr>) (k, n)))"
    if "(k, n) \<in> set ?f" for k n
  proof -
    have "bt_get ?d k = Some (pair_durations es k)"
      using entry [OF that] unfolding get_fold_push pair_durations_def by simp
    then show ?thesis by (cases k) (simp add: map_edge_found process_map_row_def)
  qed
  have "those (map (map_edge ?d) ?f) = Some (map (process_map_row es) (dfg_edges (discover_dfg es False)))"
  proof -
    have "map_edge ?d y = Some (process_map_row es ((\<lambda>((a, b), n). \<lparr>de_source = a, de_target = b, de_object_type = [], de_frequency = n\<rparr>) y))"
      if "y \<in> set ?f" for y using row [of "fst y" "snd y"] that by (simp only: prod.collapse)
    then show ?thesis unfolding dfg_edges_pairs map_map comp_def by (subst those_each) (blast, simp only: option.sel cong: map_cong)
  qed
  moreover have "length (pair_durations es (de_source x, de_target x)) = de_frequency x" if "x \<in> set (dfg_edges (discover_dfg es False))" for x
    using that entry unfolding dfg_edges_pairs by auto
  ultimately show ?thesis
    by (simp add: process_map_def map_pairs_ordered [OF assms] bt_of_list_def bt_insert_def default_metric_def)
qed

theorem process_map_is_dfg_witness:
  "\<exists>r. process_map [path_execution [''a'', ''b'']] = Some (Ok r) \<and> map pm_support (er_metrics r) = [1]"
proof -
  have "\<forall>e \<in> set [path_execution [''a'', ''b'']]. time_ordered e"
    by (simp add: time_ordered_def path_execution_def sample_event_def)
  moreover have "length (dfg_edges (discover_dfg [path_execution [''a'', ''b'']] False)) = 1" by code_simp
  ultimately show ?thesis using process_map_is_dfg by metis
qed

section \<open>Performance\<close>

lemma performance_result_total: "\<exists>r. performance_result api s = Some r"
proof -
  have "\<exists>r. edge_metric y = Some r" for y
    using metric_total [of "''edge_duration''" "''seconds''" "snd y"] by (cases y) (auto simp: edge_metric_def)
  then show ?thesis by (simp add: performance_result_def performance_metrics_def those_each metric_eq Let_def)
qed

text \<open>
  What service, waiting and sojourn times mean: a completion ends the earliest open start of its activity, and is compared
  with the last completion of the execution before it. A run is that completion if any, the start and the completion.
\<close>

definition labelled :: "string \<Rightarrow> event \<Rightarrow> bool" where
  "labelled label ev \<longleftrightarrow> map_option to_ascii_lowercase (ev_lifecycle ev) = Some label"

fun service_runs :: "(string \<Rightarrow> int list) \<Rightarrow> int option \<Rightarrow> event list \<Rightarrow> (int option \<times> int \<times> int) list" where
  "service_runs waiting previous [] = []"
| "service_runs waiting previous (ev # evs) =
    (if labelled ''start'' ev then service_runs (waiting(ev_activity ev := waiting (ev_activity ev) @ [instant ev])) previous evs
     else if labelled ''complete'' ev then (case waiting (ev_activity ev) of
         [] \<Rightarrow> service_runs waiting (Some (instant ev)) evs
       | start # rest \<Rightarrow> (previous, start, instant ev) # service_runs (waiting(ev_activity ev := rest)) (Some (instant ev)) evs)
     else service_runs waiting previous evs)"

definition runs_of :: "process_execution \<Rightarrow> (int option \<times> int \<times> int) list" where
  "runs_of e = service_runs (\<lambda>_. []) None (pe_events e)"

text \<open>A run starts before the completion it is compared with.\<close>

definition overlaps :: "int option \<times> int \<times> int \<Rightarrow> bool" where
  "overlaps = (\<lambda>(previous, start, complete). case previous of None \<Rightarrow> False | Some p \<Rightarrow> start < p)"

definition gap :: "int \<Rightarrow> int \<Rightarrow> f64" where
  "gap start stop = f64_div (f64_of_int (i128_wrapping_sub stop start)) (f64_of_nat 1000000000)"

definition service_of :: "(int option \<times> int \<times> int) list \<Rightarrow> f64 list" where
  "service_of runs = map (\<lambda>(previous, start, complete). gap start complete) runs"

definition waiting_of :: "(int option \<times> int \<times> int) list \<Rightarrow> f64 list" where
  "waiting_of runs = List.map_filter (\<lambda>(previous, start, complete). map_option (\<lambda>p. gap p start) previous) runs"

definition sojourn_of :: "(int option \<times> int \<times> int) list \<Rightarrow> f64 list" where
  "sojourn_of runs = List.map_filter (\<lambda>(previous, start, complete). map_option (\<lambda>p. gap p complete) previous) runs"

abbreviation negative_duration :: ocpm_error where
  "negative_duration \<equiv> invalid_data ''canonical event ordering produced a negative duration''"

lemma duration_gap: "duration_seconds start stop = (if stop < start then Err negative_duration else Ok (gap start stop))"
  by (simp add: duration_seconds_def gap_def)

lemma event_duration_gap: "event_duration a b = (if instant b < instant a then Err negative_duration else Ok (seconds_between a b))"
  by (simp add: event_duration_def duration_seconds_def seconds_between_def)

text \<open>The values the runs do not concern stay, whatever the readiness of the objects.\<close>

definition ordered_values :: "performance_values \<Rightarrow> f64 list \<times> (string \<times> string, f64 list) btree_map \<times> f64 list \<times> f64 list \<times> f64 list \<times> f64 list" where
  "ordered_values s = (pv_all s, pv_edges s, pv_cycle s, pv_service s, pv_waiting s, pv_sojourn s)"

lemma flow_Ok:
  assumes "\<forall>x \<in> set xs. x \<le> instant ev"
  shows "\<exists>s'. try_fold (\<lambda>s ready. rbind (duration_seconds ready (instant ev)) (\<lambda>d. Ok (s\<lparr>pv_flow := pv_flow s @ [d]\<rparr>))) s xs = Ok s' \<and>
    ordered_values s' = ordered_values s"
  using assms
proof (induction xs arbitrary: s)
  case (Cons x xs)
  have "\<forall>x \<in> set xs. x \<le> instant ev" "\<not> instant ev < x" using Cons.prems by auto
  from Cons.IH [OF this(1), of "s\<lparr>pv_flow := pv_flow s @ [gap x (instant ev)]\<rparr>"] this(2)
  show ?case by (simp add: duration_gap ordered_values_def)
qed simp

lemma readiness_Ok:
  assumes "\<forall>x \<in> set readiness. x \<le> instant ev"
  shows "\<exists>s'. performance_readiness ev readiness s = Ok s' \<and> ordered_values s' = ordered_values s"
proof (cases "readiness = []")
  case False
  then have "Min (set readiness) \<in> set readiness" "Max (set readiness) \<in> set readiness" "Min (set readiness) \<le> Max (set readiness)"
    by (auto intro: Min_in Max_in)
  then have bounds: "\<not> Max (set readiness) < Min (set readiness)" "\<not> instant ev < Min (set readiness)" "\<not> instant ev < Max (set readiness)"
    using assms by (auto simp: not_less)
  have "\<exists>s1. (if 1 < length readiness then rbind (duration_seconds (Min (set readiness)) (Max (set readiness)))
      (\<lambda>d. Ok (s\<lparr>pv_synchronization := pv_synchronization s @ [d]\<rparr>)) else Ok s) = Ok s1 \<and> ordered_values s1 = ordered_values s"
    using bounds(1) by (cases "1 < length readiness") (simp_all add: duration_gap ordered_values_def)
  then obtain s1 where s1: "(if 1 < length readiness then rbind (duration_seconds (Min (set readiness)) (Max (set readiness)))
      (\<lambda>d. Ok (s\<lparr>pv_synchronization := pv_synchronization s @ [d]\<rparr>)) else Ok s) = Ok s1" "ordered_values s1 = ordered_values s" by blast
  from flow_Ok [OF assms, of "s1\<lparr>pv_pooling := pv_pooling s1 @ [gap (Max (set readiness)) (instant ev)],
      pv_lagging := pv_lagging s1 @ [gap (Min (set readiness)) (instant ev)]\<rparr>"]
  moreover have "duration_seconds (Max (set readiness)) (instant ev) = Ok (gap (Max (set readiness)) (instant ev))"
    "duration_seconds (Min (set readiness)) (instant ev) = Ok (gap (Min (set readiness)) (instant ev))"
    using bounds by (simp_all add: duration_gap)
  ultimately show ?thesis
    using False s1(2) unfolding performance_readiness_def Let_def s1(1) by (simp add: ordered_values_def)
qed (simp add: performance_readiness_def)

definition open_starts :: "execution_clock \<Rightarrow> string \<Rightarrow> int list" where
  "open_starts c a = (case bt_get (ec_starts c) a of None \<Rightarrow> [] | Some l \<Rightarrow> l)"

text \<open>The clock of an execution lies in the past.\<close>

definition clock_past :: "execution_clock \<Rightarrow> int \<Rightarrow> bool" where
  "clock_past c t \<longleftrightarrow> bt_inv (ec_starts c) \<and> bt_inv (ec_ready c) \<and> (\<forall>a. \<forall>x \<in> set (open_starts c a). x \<le> t) \<and>
     (\<forall>i x. bt_get (ec_ready c) i = Some x \<longrightarrow> x \<le> t)"

lemma clock_past_mono: "clock_past c t \<Longrightarrow> t \<le> t' \<Longrightarrow> clock_past c t'"
  unfolding clock_past_def by (meson order_trans)

lemma ready_update:
  assumes "bt_inv m" "\<forall>i x. bt_get m i = Some x \<longrightarrow> x \<le> (t :: int)"
  shows "bt_inv (fold (\<lambda>i. bt_insert i t) is m) \<and> (\<forall>i x. bt_get (fold (\<lambda>i. bt_insert i t) is m) i = Some x \<longrightarrow> x \<le> t)"
  using assms
proof (induction "is" arbitrary: m)
  case (Cons j "is")
  have "bt_inv (bt_insert j t m)" "\<forall>i x. bt_get (bt_insert j t m) i = Some x \<longrightarrow> x \<le> t"
    using Cons.prems by (simp_all add: btree_simps)
  from Cons.IH [OF this] show ?case by simp
qed simp

definition with_runs :: "performance_values \<Rightarrow> (int option \<times> int \<times> int) list \<Rightarrow> f64 list \<times> (string \<times> string, f64 list) btree_map \<times> f64 list \<times> f64 list \<times> f64 list \<times> f64 list" where
  "with_runs s runs = (pv_all s, pv_edges s, pv_cycle s, pv_service s @ service_of runs, pv_waiting s @ waiting_of runs, pv_sojourn s @ sojourn_of runs)"

definition event_runs :: "execution_clock \<Rightarrow> event \<Rightarrow> (int option \<times> int \<times> int) list" where
  "event_runs c ev = (if labelled ''complete'' ev \<and> \<not> labelled ''start'' ev
     then map (\<lambda>start. (ec_previous c, start, instant ev)) (take 1 (open_starts c (ev_activity ev))) else [])"

text \<open>One event: the runs it adds, or the error when it ends a run that overlaps.\<close>

lemma performance_event_step:
  assumes "clock_past c (instant ev)" "ec_previous c = None \<or> the (ec_previous c) \<le> instant ev"
  shows "\<exists>c' s'. open_starts c' = (if labelled ''start'' ev then (open_starts c)(ev_activity ev := open_starts c (ev_activity ev) @ [instant ev])
        else if labelled ''complete'' ev then (open_starts c)(ev_activity ev := tl (open_starts c (ev_activity ev))) else open_starts c) \<and>
    ec_previous c' = (if labelled ''complete'' ev \<and> \<not> labelled ''start'' ev then Some (instant ev) else ec_previous c) \<and> clock_past c' (instant ev) \<and>
    ordered_values s' = with_runs s (event_runs c ev) \<and>
    performance_event e (c, s) ev = (if \<exists>x \<in> set (event_runs c ev). overlaps x then Err negative_duration else Ok (c', s'))"
proof -
  let ?a = "ev_activity ev" and ?t = "instant ev"
  define c1 where "c1 = c\<lparr>ec_ready := fold (\<lambda>i. bt_insert i ?t) (involved_objects e ev) (ec_ready c)\<rparr>"
  have past: "clock_past c1 ?t" and c1: "ec_starts c1 = ec_starts c" "ec_previous c1 = ec_previous c" "open_starts c1 = open_starts c"
    using assms(1) ready_update [of "ec_ready c" ?t "involved_objects e ev"]
    by (auto simp: clock_past_def c1_def open_starts_def [abs_def])
  have "\<forall>x \<in> set (List.map_filter (bt_get (ec_ready c)) (involved_objects e ev)). x \<le> ?t"
    using assms(1) by (auto simp: clock_past_def List.map_filter_def)
  from readiness_Ok [OF this, of s] obtain s1 where
    s1: "performance_readiness ev (List.map_filter (bt_get (ec_ready c)) (involved_objects e ev)) s = Ok s1" "ordered_values s1 = ordered_values s" by blast
  have run: "performance_event e (c, s) ev = performance_lifecycle ev (c1, s1)"
    using s1(1) by (simp add: performance_event_def c1_def)
  have inv: "bt_inv (ec_starts c)" using assms(1) by (simp add: clock_past_def)
  consider "labelled ''start'' ev" | "\<not> labelled ''start'' ev" "labelled ''complete'' ev" "open_starts c ?a = []"
    | start rest where "\<not> labelled ''start'' ev" "labelled ''complete'' ev" "open_starts c ?a = start # rest"
    | "\<not> labelled ''start'' ev" "\<not> labelled ''complete'' ev" by (cases "open_starts c ?a") auto
  then show ?thesis
  proof cases
    case 1
    let ?c = "c1\<lparr>ec_starts := bt_push ?a ?t (ec_starts c1)\<rparr>"
    have o: "open_starts ?c = (open_starts c)(?a := open_starts c ?a @ [?t])"
      using inv by (auto simp: open_starts_def fun_eq_iff c1 btree_simps)
    have "clock_past ?c ?t" using past inv o by (auto simp: clock_past_def c1 btree_simps)
    then show ?thesis using 1 o s1(2) c1
      by (intro exI [of _ ?c] exI [of _ s1]) (auto simp: run performance_lifecycle_def labelled_def service_of_def waiting_of_def sojourn_of_def ordered_values_def with_runs_def event_runs_def)
  next
    case 2
    let ?c = "c1\<lparr>ec_previous := Some ?t\<rparr>"
    have o: "open_starts ?c = open_starts c" using c1 by (simp add: open_starts_def [abs_def])
    have "clock_past ?c ?t" using past o c1 by (auto simp: clock_past_def)
    moreover have "bt_get (ec_starts c) ?a = None \<or> bt_get (ec_starts c) ?a = Some []" using 2(3) by (auto simp: open_starts_def split: option.splits)
    ultimately show ?thesis using 2 o s1(2) c1
      by (intro exI [of _ ?c] exI [of _ s1])
        (auto simp: run performance_lifecycle_def performance_complete_def labelled_def service_of_def waiting_of_def sojourn_of_def ordered_values_def with_runs_def event_runs_def)
  next
    case 3
    let ?c = "c1\<lparr>ec_starts := bt_insert ?a rest (ec_starts c1), ec_previous := Some ?t\<rparr>"
    let ?runs = "[(ec_previous c, start, ?t)]"
    let ?s = "s1\<lparr>pv_service := pv_service s1 @ service_of ?runs, pv_waiting := pv_waiting s1 @ waiting_of ?runs, pv_sojourn := pv_sojourn s1 @ sojourn_of ?runs\<rparr>"
    have get: "bt_get (ec_starts c) ?a = Some (start # rest)" using 3(3) by (auto simp: open_starts_def split: option.splits)
    have o: "open_starts ?c = (open_starts c)(?a := rest)" using inv by (auto simp: open_starts_def fun_eq_iff c1 btree_simps)
    have "\<forall>x \<in> set (open_starts c ?a). x \<le> ?t" using assms(1) unfolding clock_past_def by blast
    then have start: "\<not> ?t < start" and "\<forall>x \<in> set rest. x \<le> ?t" using 3(3) by auto
    then have "clock_past ?c ?t" using past inv o by (auto simp: clock_past_def c1 btree_simps)
    moreover have "performance_lifecycle ev (c1, s1) = (if overlaps (ec_previous c, start, ?t) then Err negative_duration else Ok (?c, ?s))"
      using assms(2) 3 start get c1
      by (cases "ec_previous c") (auto simp: performance_lifecycle_def performance_complete_def performance_waiting_def labelled_def
        duration_gap overlaps_def service_of_def waiting_of_def sojourn_of_def List.map_filter_def)
    ultimately show ?thesis using 3 o s1(2) by (intro exI [of _ ?c] exI [of _ ?s]) (auto simp: run ordered_values_def with_runs_def event_runs_def)
  next
    case 4
    then show ?thesis using s1(2) c1 past
      by (intro exI [of _ c1] exI [of _ s1])
        (auto simp: run performance_lifecycle_def labelled_def service_of_def waiting_of_def sojourn_of_def ordered_values_def with_runs_def event_runs_def split: option.splits)
  qed
qed

lemma runs_append: "service_of (xs @ ys) = service_of xs @ service_of ys" "waiting_of (xs @ ys) = waiting_of xs @ waiting_of ys"
  "sojourn_of (xs @ ys) = sojourn_of xs @ sojourn_of ys"
  by (simp_all add: service_of_def waiting_of_def sojourn_of_def List.map_filter_def)

lemma with_runs_append: "ordered_values s' = with_runs s xs \<Longrightarrow> with_runs s' ys = with_runs s (xs @ ys)"
  by (simp add: ordered_values_def with_runs_def runs_append)

lemma with_runs_Nil: "with_runs s [] = ordered_values s"
  by (simp add: ordered_values_def with_runs_def service_of_def waiting_of_def sojourn_of_def)

lemma performance_events:
  assumes "clock_past c t" "ec_previous c = None \<or> the (ec_previous c) \<le> t" "sorted (t # map instant evs)"
  shows "if \<exists>x \<in> set (service_runs (open_starts c) (ec_previous c) evs). overlaps x
     then try_fold (performance_event e) (c, s) evs = Err negative_duration
     else \<exists>c' s'. try_fold (performance_event e) (c, s) evs = Ok (c', s') \<and>
       ordered_values s' = with_runs s (service_runs (open_starts c) (ec_previous c) evs)"
  using assms
proof (induction evs arbitrary: c s t)
  case Nil
  then show ?case by (simp add: with_runs_Nil)
next
  case (Cons ev evs)
  have t: "t \<le> instant ev" "sorted (instant ev # map instant evs)" using Cons.prems(3) by auto
  let ?done = "labelled ''complete'' ev \<and> \<not> labelled ''start'' ev"
  have past: "clock_past c (instant ev)" using clock_past_mono [OF Cons.prems(1) t(1)] .
  have prev: "ec_previous c = None \<or> the (ec_previous c) \<le> instant ev" using Cons.prems(2) t(1) by auto
  obtain c' s' where step: "open_starts c' = (if labelled ''start'' ev then (open_starts c)(ev_activity ev := open_starts c (ev_activity ev) @ [instant ev])
        else if labelled ''complete'' ev then (open_starts c)(ev_activity ev := tl (open_starts c (ev_activity ev))) else open_starts c)"
      "ec_previous c' = (if ?done then Some (instant ev) else ec_previous c)" "clock_past c' (instant ev)" "ordered_values s' = with_runs s (event_runs c ev)"
      "performance_event e (c, s) ev = (if \<exists>x \<in> set (event_runs c ev). overlaps x then Err negative_duration else Ok (c', s'))"
    using performance_event_step [OF past prev, of s e] by blast
  have rest: "service_runs (open_starts c) (ec_previous c) (ev # evs) = event_runs c ev @ service_runs (open_starts c') (ec_previous c') evs"
    unfolding step(1,2) event_runs_def by (cases "open_starts c (ev_activity ev)") (auto simp: fun_upd_idem)
  have "ec_previous c' = None \<or> the (ec_previous c') \<le> instant ev" using step(2) prev by auto
  note IH = Cons.IH [OF step(3) this t(2), of s']
  show ?case
  proof (cases "\<exists>x \<in> set (event_runs c ev). overlaps x")
    case True
    then show ?thesis unfolding rest by (simp add: step(5) bex_Un)
  next
    case False
    then have "performance_event e (c, s) ev = Ok (c', s')"
      "(\<exists>x \<in> set (event_runs c ev @ rs). overlaps x) \<longleftrightarrow> (\<exists>x \<in> set rs. overlaps x)" for rs by (auto simp: step(5))
    then show ?thesis using IH unfolding rest with_runs_append [OF step(4)] by simp
  qed
qed

lemma performance_execution_ordered:
  assumes "time_ordered e"
  shows "if \<exists>x \<in> set (runs_of e). overlaps x then performance_execution s e = Err negative_duration
     else \<exists>s'. performance_execution s e = Ok s' \<and>
       ordered_values s' = (pv_all s @ map (\<lambda>(a, b). seconds_between a b) (all_pairs [e]),
         fold (\<lambda>x. bt_push (pair_key x) ((\<lambda>(a, b). seconds_between a b) x)) (all_pairs [e]) (pv_edges s), pv_cycle s @ cycle_seconds [e],
         pv_service s @ service_of (runs_of e), pv_waiting s @ waiting_of (runs_of e), pv_sojourn s @ sojourn_of (runs_of e))"
proof -
  have cycle: "performance_cycle e s = Ok (s\<lparr>pv_cycle := pv_cycle s @ cycle_seconds [e]\<rparr>)" for s
    using time_ordered_ends [OF assms]
    by (auto simp: performance_cycle_def cycle_seconds_def end_points_def List.map_filter_def event_duration_ordered split: option.splits)
  have pairs: "try_fold performance_pair s (windows2 (pe_events e)) = Ok (s\<lparr>pv_all := pv_all s @ map (\<lambda>(a, b). seconds_between a b) (windows2 (pe_events e)),
      pv_edges := fold (\<lambda>x. bt_push (pair_key x) ((\<lambda>(a, b). seconds_between a b) x)) (windows2 (pe_events e)) (pv_edges s)\<rparr>)" for s
  proof -
    have "try_fold performance_pair s xs = Ok (s\<lparr>pv_all := pv_all s @ map (\<lambda>(a, b). seconds_between a b) xs,
      pv_edges := fold (\<lambda>x. bt_push (pair_key x) ((\<lambda>(a, b). seconds_between a b) x)) xs (pv_edges s)\<rparr>)"
      if "\<forall>(a, b) \<in> set xs. instant a \<le> instant b" for xs
      using that by (induction xs arbitrary: s) (auto simp: performance_pair_def event_duration_ordered)
    then show ?thesis using time_ordered_pair [OF assms] by fastforce
  qed
  let ?s = "s\<lparr>pv_cycle := pv_cycle s @ cycle_seconds [e], pv_all := pv_all s @ map (\<lambda>(a, b). seconds_between a b) (all_pairs [e]),
      pv_edges := fold (\<lambda>x. bt_push (pair_key x) ((\<lambda>(a, b). seconds_between a b) x)) (all_pairs [e]) (pv_edges s)\<rparr>"
  have new: "clock_past clock_new t" "open_starts clock_new = (\<lambda>_. [])" "ec_previous clock_new = None" for t
    by (simp_all add: clock_new_def clock_past_def open_starts_def [abs_def])
  have run: "performance_execution s e = rbind (try_fold (performance_event e) (clock_new, ?s) (pe_events e)) (\<lambda>(c, s). Ok s)"
    by (simp add: performance_execution_def cycle pairs all_pairs_def)
  show ?thesis
  proof (cases "pe_events e")
    case Nil
    then show ?thesis
      by (simp add: run runs_of_def ordered_values_def service_of_def waiting_of_def sojourn_of_def)
  next
    case (Cons ev evs)
    have "sorted (instant ev # map instant (pe_events e))" using assms Cons by (simp add: time_ordered_def)
    from performance_events [OF new(1) _ this, of e ?s] show ?thesis
      unfolding run new runs_of_def [symmetric] by (auto simp: with_runs_def)
  qed
qed

definition log_runs :: "process_execution list \<Rightarrow> (int option \<times> int \<times> int) list" where
  "log_runs es = concat (map runs_of es)"

definition push_pairs :: "(event \<times> event) list \<Rightarrow> (string \<times> string, f64 list) btree_map \<Rightarrow> (string \<times> string, f64 list) btree_map" where
  "push_pairs = fold (\<lambda>x. bt_push (pair_key x) ((\<lambda>(a, b). seconds_between a b) x))"

definition pair_seconds :: "process_execution list \<Rightarrow> f64 list" where
  "pair_seconds es = map (\<lambda>(a, b). seconds_between a b) (all_pairs es)"

lemma performance_executions_ordered:
  assumes "\<forall>e \<in> set es. time_ordered e"
  shows "if \<exists>x \<in> set (log_runs es). overlaps x then try_fold performance_execution s es = Err negative_duration
     else \<exists>s'. try_fold performance_execution s es = Ok s' \<and>
       ordered_values s' = (pv_all s @ pair_seconds es, push_pairs (all_pairs es) (pv_edges s), pv_cycle s @ cycle_seconds es,
         pv_service s @ service_of (log_runs es), pv_waiting s @ waiting_of (log_runs es), pv_sojourn s @ sojourn_of (log_runs es))"
  using assms
proof (induction es arbitrary: s)
  case Nil
  then show ?case
    by (simp add: log_runs_def pair_seconds_def push_pairs_def all_pairs_def cycle_seconds_def end_points_def List.map_filter_def ordered_values_def service_of_def waiting_of_def sojourn_of_def)
next
  case (Cons e es)
  have e: "time_ordered e" "\<forall>e \<in> set es. time_ordered e" using Cons.prems by auto
  have split: "all_pairs (e # es) = all_pairs [e] @ all_pairs es" "cycle_seconds (e # es) = cycle_seconds [e] @ cycle_seconds es"
    "log_runs (e # es) = runs_of e @ log_runs es" "pair_seconds (e # es) = pair_seconds [e] @ pair_seconds es"
    "push_pairs (all_pairs (e # es)) m = push_pairs (all_pairs es) (push_pairs (all_pairs [e]) m)" for m
    by (simp_all add: all_pairs_def cycle_seconds_def end_points_def List.map_filter_def log_runs_def pair_seconds_def push_pairs_def)
  note first = performance_execution_ordered [OF e(1), of s]
  show ?case
  proof (cases "\<exists>x \<in> set (runs_of e). overlaps x")
    case True
    then show ?thesis using first unfolding split by (simp add: bex_Un)
  next
    case False
    then obtain s1 where s1: "performance_execution s e = Ok s1" and v: "ordered_values s1 = (pv_all s @ pair_seconds [e],
        push_pairs (all_pairs [e]) (pv_edges s), pv_cycle s @ cycle_seconds [e],
        pv_service s @ service_of (runs_of e), pv_waiting s @ waiting_of (runs_of e), pv_sojourn s @ sojourn_of (runs_of e))"
      using first by (auto simp: pair_seconds_def push_pairs_def)
    have "(\<exists>x \<in> set (runs_of e @ rs). overlaps x) \<longleftrightarrow> (\<exists>x \<in> set rs. overlaps x)" for rs using False by auto
    note more = this [of "log_runs es"]
    show ?thesis
    proof (cases "\<exists>x \<in> set (log_runs es). overlaps x")
      case True
      then show ?thesis using Cons.IH [OF e(2), of s1] more unfolding split by (simp add: s1)
    next
      case False
      then obtain s2 where s2: "try_fold performance_execution s1 es = Ok s2" "ordered_values s2 = (pv_all s1 @ pair_seconds es,
          push_pairs (all_pairs es) (pv_edges s1), pv_cycle s1 @ cycle_seconds es,
          pv_service s1 @ service_of (log_runs es), pv_waiting s1 @ waiting_of (log_runs es), pv_sojourn s1 @ sojourn_of (log_runs es))"
        using Cons.IH [OF e(2), of s1] by auto
      have none: "\<not> (\<exists>x \<in> set (runs_of e @ log_runs es). overlaps x)" using False more by blast
      have "ordered_values s2 = (pv_all s @ pair_seconds (e # es), push_pairs (all_pairs (e # es)) (pv_edges s), pv_cycle s @ cycle_seconds (e # es),
          pv_service s @ service_of (runs_of e @ log_runs es), pv_waiting s @ waiting_of (runs_of e @ log_runs es),
          pv_sojourn s @ sojourn_of (runs_of e @ log_runs es))"
        using v s2(2) unfolding split runs_append by (simp add: ordered_values_def push_pairs_def)
      then show ?thesis using none s1 s2(1) unfolding split(3) by (simp only: if_False try_fold.simps rbind.simps) blast
    qed
  qed
qed

lemma performance_spec:
  assumes "\<forall>e \<in> set es. time_ordered e"
  shows "if \<exists>x \<in> set (log_runs es). overlaps x then performance api es = Some (Err negative_duration)
    else \<exists>r. performance api es = Some (Ok r) \<and>
      map Some (take 5 (er_metrics r)) = [metric ''directly_follows_duration'' ''seconds'' (pair_seconds es),
        metric ''execution_cycle_time'' ''seconds'' (cycle_seconds es), metric ''service_time'' ''seconds'' (service_of (log_runs es)),
        metric ''waiting_time'' ''seconds'' (waiting_of (log_runs es)), metric ''sojourn_time'' ''seconds'' (sojourn_of (log_runs es))] \<and>
      (er_warnings r = [] \<longleftrightarrow> log_runs es \<noteq> [])"
proof -
  note run = performance_executions_ordered [OF assms, of no_values]
  show ?thesis
  proof (cases "\<exists>x \<in> set (log_runs es). overlaps x")
    case True
    then show ?thesis using run by (simp add: performance_def)
  next
    case False
    then obtain s where s: "try_fold performance_execution no_values es = Ok s" "ordered_values s = (pair_seconds es, push_pairs (all_pairs es) [],
        cycle_seconds es, service_of (log_runs es), waiting_of (log_runs es), sojourn_of (log_runs es))"
      using run by (auto simp: no_values_def)
    obtain r where r: "performance_result api s = Some r" using performance_result_total by blast
    have M: "metric name unit vs = Some (the (metric name unit vs))" for name unit vs using metric_total [of name unit vs] by auto
    have ms: "performance_metrics s = Some (map (\<lambda>(name, vs). the (metric name ''seconds'' vs))
       [(''directly_follows_duration'', pv_all s), (''execution_cycle_time'', pv_cycle s), (''service_time'', pv_service s),
        (''waiting_time'', pv_waiting s), (''sojourn_time'', pv_sojourn s), (''synchronization_time'', pv_synchronization s),
        (''pooling_time'', pv_pooling s), (''lagging_time'', pv_lagging s), (''flow_time'', pv_flow s)])"
      unfolding performance_metrics_def using metric_total by (subst those_each) (fastforce, simp add: case_prod_unfold)
    obtain rows where "those (map edge_metric (pv_edges s)) = Some rows"
      using r by (auto simp: performance_result_def bind_eq_Some_conv)
    then have "map Some (take 5 (er_metrics r)) = [metric ''directly_follows_duration'' ''seconds'' (pv_all s),
        metric ''execution_cycle_time'' ''seconds'' (pv_cycle s), metric ''service_time'' ''seconds'' (pv_service s),
        metric ''waiting_time'' ''seconds'' (pv_waiting s), metric ''sojourn_time'' ''seconds'' (pv_sojourn s)]"
      "er_warnings r = [] \<longleftrightarrow> pv_service s \<noteq> []"
      using r M [symmetric] by (auto simp: performance_result_def ms Let_def)
    then show ?thesis using s False by (auto simp: performance_def r ordered_values_def service_of_def)
  qed
qed

lemma performance_answers:
  assumes "\<forall>e \<in> set es. time_ordered e"
  shows "if \<exists>x \<in> set (log_runs es). overlaps x then performance api es = Some (Err negative_duration)
    else \<exists>r. performance api es = Some (Ok r)"
  using performance_spec [OF assms, of api] by (auto split: if_splits)

text \<open>C34: The performance analysis of executions in order of time fails exactly when a completion ends a start that lies before the
  last completion of its execution, that is when activities overlap; otherwise it reports the durations of the adjacent pairs,
  the cycle times, and the service, waiting and sojourn times of exactly the runs: earliest open starts with their completions,
  measured from the completion before them. Without runs it warns.\<close>

theorem performance_services:
  assumes "\<forall>e \<in> set es. time_ordered e"
  shows "if \<exists>x \<in> set (log_runs es). overlaps x then performance api es = Some (Err negative_duration)
    else \<exists>r. performance api es = Some (Ok r) \<and>
      map Some (take 5 (er_metrics r)) = [metric ''directly_follows_duration'' ''seconds'' (pair_seconds es),
        metric ''execution_cycle_time'' ''seconds'' (cycle_seconds es), metric ''service_time'' ''seconds'' (service_of (log_runs es)),
        metric ''waiting_time'' ''seconds'' (waiting_of (log_runs es)), metric ''sojourn_time'' ''seconds'' (sojourn_of (log_runs es))] \<and>
      (er_warnings r = [] \<longleftrightarrow> log_runs es \<noteq> [])"
  using assms by (rule performance_spec)

definition text_api :: "unit enhancement_api" where
  "text_api = \<lparr>ea_as_str = \<lambda>_. None, ea_as_f64 = id, ea_path_text = concat\<rparr>"

theorem performance_services_witness: "performance text_api [overlapping] = Some (Err negative_duration)"
proof -
  have "\<exists>x \<in> set (log_runs [overlapping]). overlaps x" by code_simp
  then show ?thesis using performance_services [OF overlapping_ordered, of text_api] by simp
qed

lemma histogram_answers: "\<forall>e \<in> set es. time_ordered e \<Longrightarrow> \<exists>r. histogram es = Some (Ok r)"
  using histogram_values_total [of "cycle_seconds es"] by (auto simp: histogram_def cycle_times_ordered)

lemma process_map_answers: "\<forall>e \<in> set es. time_ordered e \<Longrightarrow> \<exists>r. process_map es = Some (Ok r)"
  using process_map_total [of es] map_pairs_ordered [of es] by (auto simp: process_map_def bind_eq_Some_conv)

lemma rework_total: "\<exists>r. rework es = Some r"
  by (simp add: rework_def metric_eq split: prod.splits)

lemma organizational_total: "\<exists>r. organizational api es request = Some r"
  by (simp add: organizational_def metric_eq Let_def)

text \<open>No analysis panics, whatever the provider answers.\<close>

theorem enhance_total: "\<exists>r. enhance api lg process_executions request = Some r"
  using process_map_total histogram_values_total performance_result_total rework_total organizational_total
  by (auto simp: enhance_def enhance_executions_def Let_def histogram_def performance_def split: sum.splits enhancement_kind.splits)

end
