(* ===== verification/DriftFacts.thy ===== *)
theory DriftFacts
  imports EnhancementFacts Local
begin

text \<open>
  Facts about the drift analysis of \<open>Enhancement\<close>: the divergence of two windows does not depend on which of them is the
  baseline, and windows with the same paths do not diverge. The second rests on floating-point facts: halving the double of a
  rounded value is exact.
\<close>

section \<open>Rounded values are on the grid\<close>

lemma ilog2_double: "0 < q \<Longrightarrow> ilog2 (2 * q) = ilog2 q + 1"
proof -
  assume q: "0 < q"
  have "2 powi (ilog2 q + 1) = 2 * (2 :: rat) powi ilog2 q" "2 powi (ilog2 q + 1 + 1) = 2 * (2 :: rat) powi (ilog2 q + 1)"
    by (simp_all add: power_int_add)
  then show ?thesis using ilog2_bounds [OF q] by (intro ilog2_eqI) auto
qed

lemma round_mag_on_grid:
  assumes "0 < q" and "0 < round_mag q"
  shows "\<exists>m. round_mag q = of_int m * ulp (round_mag q)"
proof -
  let ?r = "round_mag q" and ?e = "ilog2 q"
  have grid: "?r = of_int (round_half_even (q / ulp q)) * ulp q" by (simp add: round_mag_def)
  show ?thesis
  proof (cases "?e < -1022")
    case True
    have "q \<le> 2 powi -1022"
      using ilog2_bounds(2) [OF assms(1)] powi_mono [of "?e + 1" "-1022"] True by linarith
    then have "?r \<le> 2 powi -1022" using True by (intro round_mag_below_power [OF assms(1)]) auto
    then have "ilog2 ?r \<le> ilog2 (2 powi -1022)" by (intro ilog2_mono assms(2))
    moreover have "ilog2 (2 powi -1022) = -1022" by (rule ilog2_eqI) (simp_all add: powi_less_iff)
    ultimately have "ulp ?r = ulp q" using True by (simp add: ulp_def)
    then show ?thesis using grid by metis
  next
    case False
    have low: "2 powi ?e \<le> ?r" using ilog2_bounds(1) [OF assms(1)] False by (intro round_mag_above_power [OF assms(1)]) auto
    have high: "?r \<le> 2 powi (?e + 1)" using ilog2_bounds(2) [OF assms(1)] False by (intro round_mag_below_power [OF assms(1)]) auto
    show ?thesis
    proof (cases "?r = 2 powi (?e + 1)")
      case True
      have "ilog2 ?r = ?e + 1" unfolding True by (rule ilog2_eqI) (simp_all add: powi_less_iff)
      then show ?thesis using powi_multiple [of "max (?e + 1 - 52) (-1074)" "?e + 1"] False unfolding ulp_def True by auto
    next
      case False
      then have "ilog2 ?r = ?e" using low high by (intro ilog2_eqI) auto
      then have "ulp ?r = ulp q" by (simp add: ulp_def)
      then show ?thesis using grid by metis
    qed
  qed
qed

lemma round_mag_idem: "0 < q \<Longrightarrow> 0 < round_mag q \<Longrightarrow> round_mag (round_mag q) = round_mag q"
  using round_mag_on_grid round_mag_grid by metis

lemma round_mag_double:
  assumes "0 < q" and "0 < round_mag q"
  shows "round_mag (2 * round_mag q) = 2 * round_mag q"
proof -
  obtain m where m: "round_mag q = of_int m * ulp (round_mag q)" using round_mag_on_grid [OF assms] by blast
  have "ulp (2 * round_mag q) = ulp (round_mag q) \<or> ulp (2 * round_mag q) = 2 * ulp (round_mag q)"
  proof (cases "ilog2 (round_mag q) - 52 < -1074")
    case False
    have "2 powi (ilog2 (round_mag q) + 1 - 52) = 2 * (2 :: rat) powi (ilog2 (round_mag q) - 52)"
      using power_int_add [of "2 :: rat" 1 "ilog2 (round_mag q) - 52"] by (simp add: algebra_simps)
    then show ?thesis using False by (simp add: ulp_def ilog2_double [OF assms(2)])
  qed (simp add: ulp_def ilog2_double [OF assms(2)])
  then have "2 * round_mag q = of_int (2 * m) * ulp (2 * round_mag q) \<or> 2 * round_mag q = of_int m * ulp (2 * round_mag q)"
    using m by (auto simp: algebra_simps)
  then show ?thesis using round_mag_grid by blast
qed

section \<open>The contribution of a label\<close>

lemma f64_add_commute: "f64_add x y = f64_add y x"
  by (cases x; cases y) (auto simp: add.commute)

lemma drift_share_swap:
  "drift_share_of lg right left = (drift_share_of lg left right)\<lparr>dh_baseline := right, dh_comparison := left, dh_delta := f64_sub left right\<rparr>"
  by (simp add: drift_share_of_def Let_def f64_add_commute [of left] f64_add_commute [of "f64_mul f64_half (kl_term lg left _)"])

lemma share_ratio_share: "share_ratio n d = share n d"
  by (simp add: share_ratio_def share_def)

lemma share_cases:
  assumes "n \<le> whole" "whole \<le> u64_max"
  obtains "share n whole = f64_zero" | p where "share n whole = F_fin (round_mag p)" "0 < p" "0 < round_mag p" "round_mag p \<le> 1"
proof (cases "n = 0")
  case True
  then show thesis using that(1) assms f64_div_zero_count [of whole] by (cases "whole = 0") (simp_all add: share_def)
next
  case False
  let ?a = "round_mag (of_nat n)" and ?b = "round_mag (of_nat whole)"
  have a: "f64_of_nat n = F_fin ?a" "1 \<le> ?a" using False assms by (auto intro: f64_of_nat_pos)
  have b: "f64_of_nat whole = F_fin ?b" "1 \<le> ?b" using False assms by (auto intro: f64_of_nat_pos)
  define p where "p = ?a / ?b"
  have p: "0 < p" "p \<le> 1" using False assms a b by (auto simp: p_def divide_le_eq_1 intro: round_mag_mono)
  have le: "round_mag p \<le> 1" "0 \<le> round_mag p" using round_mag_le_one [OF p] p(1) by (auto intro: round_mag_nonneg)
  have eq: "share n whole = f64_round p" using False assms a b by (simp add: share_def f64_div_def p_def)
  have "\<not> f64_limit \<le> round_mag p" using le(1) by (simp add: f64_limit_def)
  then have "share n whole = F_fin (round_mag p)" using p(1) by (simp add: eq f64_round_def Let_def)
  then show thesis using that p(1) le by (cases "round_mag p = 0") auto
qed

text \<open>The midpoint of a share and itself is the share, so its contribution vanishes.\<close>

lemma drift_share_same:
  assumes "n \<le> whole" "whole \<le> u64_max" "lg f64_one = f64_zero"
  shows "dh_contribution (drift_share_of lg (share n whole) (share n whole)) = f64_zero"
proof (rule share_cases [OF assms(1,2)])
  assume "share n whole = f64_zero"
  then show ?thesis by (simp add: drift_share_of_def kl_term_def f64_div_def f64_mul_def f64_half_def f64_signed_zero_def)
next
  fix p
  assume p: "share n whole = F_fin (round_mag p)" "0 < p" "0 < round_mag p" "round_mag p \<le> 1"
  let ?r = "round_mag p"
  have "\<not> f64_limit \<le> 2 * ?r" "\<not> f64_limit \<le> ?r" using p(4) by (simp_all add: f64_limit_def)
  then have double: "f64_add (F_fin ?r) (F_fin ?r) = F_fin (2 * ?r)" and half: "f64_round ?r = F_fin ?r"
    using p round_mag_double [OF p(2,3)] round_mag_idem [OF p(2,3)] by (simp_all add: f64_round_def Let_def)
  have mid: "f64_div (f64_add (F_fin ?r) (F_fin ?r)) (F_fin 2) = F_fin ?r"
    using p(3) half unfolding double by (simp add: f64_div_def)
  have "f64_round 1 = f64_one" by (simp add: f64_round_def f64_limit_def)
  then have kl: "kl_term lg (F_fin ?r) (F_fin ?r) = f64_zero"
    using p(3) assms(3) by (simp add: kl_term_def f64_div_def f64_mul_def f64_signed_zero_def)
  have zero: "f64_mul f64_half f64_zero = f64_zero" by (simp add: f64_mul_def f64_half_def f64_signed_zero_def)
  show ?thesis unfolding p(1) drift_share_of_def Let_def mid kl zero by simp
qed

section \<open>The divergence of two distributions\<close>

definition drift_labels :: "(string, nat) btree_map \<Rightarrow> (string, nat) btree_map \<Rightarrow> string list" where
  "drift_labels baseline comparison = bset (bt_keys baseline @ bt_keys comparison)"

lemma distribution_drift_parts:
  "distribution_drift lg baseline comparison =
    (fold (\<lambda>label d. f64_add d (dh_contribution (label_share lg baseline comparison label))) (drift_labels baseline comparison) f64_zero,
     fold (\<lambda>label. bt_insert label (label_share lg baseline comparison label)) (drift_labels baseline comparison) [],
     sum_list (bt_values baseline) + sum_list (bt_values comparison))"
proof -
  have "fold (\<lambda>label (d, m). let h = label_share lg baseline comparison label in (f64_add d (dh_contribution h), bt_insert label h m)) ls (d, m) =
    (fold (\<lambda>label d. f64_add d (dh_contribution (label_share lg baseline comparison label))) ls d,
     fold (\<lambda>label. bt_insert label (label_share lg baseline comparison label)) ls m)" for ls d m
    by (induction ls arbitrary: d m) (simp_all add: Let_def)
  then show ?thesis by (simp add: distribution_drift_def drift_labels_def)
qed

lemma drift_labels_commute: "drift_labels baseline comparison = drift_labels comparison baseline"
  unfolding drift_labels_def by (rule bset_cong) auto

lemma distribution_drift_swap:
  "fst (distribution_drift lg comparison baseline) = fst (distribution_drift lg baseline comparison)"
  "snd (snd (distribution_drift lg comparison baseline)) = snd (snd (distribution_drift lg baseline comparison))"
proof -
  have "dh_contribution (label_share lg comparison baseline label) = dh_contribution (label_share lg baseline comparison label)" for label
    unfolding label_share_def share_ratio_share by (subst drift_share_swap) simp
  then show "fst (distribution_drift lg comparison baseline) = fst (distribution_drift lg baseline comparison)"
    by (simp add: distribution_drift_parts drift_labels_commute [of comparison])
qed (simp add: distribution_drift_parts)

lemma bt_get_sum: "(case bt_get m k of None \<Rightarrow> 0 | Some n \<Rightarrow> n) \<le> (sum_list (bt_values m) :: nat)"
proof (cases "bt_get m k")
  case (Some n)
  then have "n \<in> set (bt_values m)" by (force simp: bt_get_def bt_values_def dest: map_of_SomeD)
  then show ?thesis using Some member_le_sum_list [of n "bt_values m"] by simp
qed simp

lemma distribution_drift_same:
  assumes "sum_list (bt_values m) \<le> u64_max" "lg f64_one = f64_zero"
  shows "fst (distribution_drift lg m m) = f64_zero"
proof -
  have "dh_contribution (label_share lg m m label) = f64_zero" for label
    unfolding label_share_def share_ratio_share by (rule drift_share_same) (simp_all add: bt_get_sum assms)
  then have "fold (\<lambda>label d. f64_add d (dh_contribution (label_share lg m m label))) ls f64_zero = f64_zero" for ls
    by (induction ls) simp_all
  then show ?thesis by (simp add: distribution_drift_parts)
qed

section \<open>Counts of paths\<close>

lemma count_perm: "mset xs = mset ys \<Longrightarrow> fold (\<lambda>x. bt_incr (x :: string) (Suc 0)) xs [] = fold (\<lambda>x. bt_incr x (Suc 0)) ys []"
proof -
  assume eq: "mset xs = mset ys"
  have "length (filter (\<lambda>x. x = k) xs) = length (filter (\<lambda>x. x = k) ys)" for k using eq by (metis mset_filter size_mset)
  moreover have "set xs = set ys" using eq by (rule mset_eq_setD)
  ultimately have "bt_get (fold (\<lambda>x. bt_incr x (Suc 0)) xs []) k = bt_get (fold (\<lambda>x. bt_incr x (Suc 0)) ys []) k" for k
    by (simp add: get_fold_incr [of "\<lambda>x. x", simplified])
  then show ?thesis using bt.get_ext [OF bt_inv_fold_incr [of "\<lambda>x. x"] bt_inv_fold_incr [of "\<lambda>x. x"]] by blast
qed

lemma mset_concat_map: "mset xs = mset ys \<Longrightarrow> mset (concat (map f xs)) = mset (concat (map f ys))"
  by (metis mset_map mset_concat sum_mset_sum_list map_map)

lemma counts_of_paths:
  "activity_counts es = fold (\<lambda>x. bt_incr x (Suc 0)) (concat (map (\<lambda>p. p) (map activity_path es))) []"
  "dfg_counts es = fold (\<lambda>x. bt_incr x (Suc 0)) (concat (map (\<lambda>p. map (\<lambda>(a, b). a @ [unit_separator] @ b) (windows2 p)) (map activity_path es))) []"
  "variant_counts api es = fold (\<lambda>x. bt_incr x (Suc 0)) (map (ea_path_text api) (map activity_path es)) []"
proof -
  have "concat (map (map ev_activity \<circ> pe_events) es) = map ev_activity (concat (map pe_events es))" by (simp add: map_concat)
  then show "activity_counts es = fold (\<lambda>x. bt_incr x (Suc 0)) (concat (map (\<lambda>p. p) (map activity_path es))) []"
    by (simp add: activity_counts_def activity_path_def [abs_def] fold_map comp_def)
  show "dfg_counts es = fold (\<lambda>x. bt_incr x (Suc 0)) (concat (map (\<lambda>p. map (\<lambda>(a, b). a @ [unit_separator] @ b) (windows2 p)) (map activity_path es))) []"
    unfolding dfg_counts_def activity_path_def windows2_map
    by (induction es rule: rev_induct) (simp_all add: fold_map comp_def case_prod_unfold windows2_map)
qed (simp add: variant_counts_def fold_map comp_def)

lemma counts_same_paths:
  assumes "mset (map activity_path es) = mset (map activity_path fs)"
  shows "activity_counts es = activity_counts fs" "dfg_counts es = dfg_counts fs" "variant_counts api es = variant_counts api fs"
  unfolding counts_of_paths
  by (intro count_perm mset_concat_map assms) (intro count_perm mset_concat_map assms, intro count_perm, metis assms mset_map)

lemma sum_counts: "sum_list (bt_values (fold (\<lambda>x. bt_incr x (Suc 0)) xs [])) = length xs"
  using sum_fold_incr [of "\<lambda>_. True" "\<lambda>x. x" xs] by (simp add: bt_values_def)

lemma sum_path_counts:
  "sum_list (bt_values (activity_counts es)) = length (concat (map pe_events es))"
  "sum_list (bt_values (dfg_counts es)) \<le> length (concat (map pe_events es))"
  "sum_list (bt_values (variant_counts api es)) = length es"
proof -
  show "sum_list (bt_values (dfg_counts es)) \<le> length (concat (map pe_events es))"
    unfolding counts_of_paths sum_counts by (induction es) (auto simp: activity_path_def)
qed (unfold counts_of_paths sum_counts, simp_all add: length_concat activity_path_def comp_def)

definition divergences :: "'j enhancement_api \<Rightarrow> (f64 \<Rightarrow> f64) \<Rightarrow> process_execution list \<Rightarrow> process_execution list \<Rightarrow> (f64 \<times> nat) list" where
  "divergences api lg baseline comparison = map (\<lambda>(l, r). let d = distribution_drift lg l r in (fst d, snd (snd d)))
     [(activity_counts baseline, activity_counts comparison), (dfg_counts baseline, dfg_counts comparison), (variant_counts api baseline, variant_counts api comparison)]"

lemma drift_result_divergences:
  "take 3 (er_metrics (drift_result api lg baseline comparison bs cs)) = map (\<lambda>(name, d, support). scalar_metric name ''bits'' support d)
     (zip [''activity_jensen_shannon_divergence'', ''dfg_jensen_shannon_divergence'', ''variant_jensen_shannon_divergence''] (divergences api lg baseline comparison))"
  by (simp add: drift_result_def divergences_def Let_def case_prod_unfold numeral_3_eq_3)

text \<open>Drift between two windows with executions in order of time always answers, and its divergences of activities, of
  directly-follows pairs and of variants are the same whichever window is the baseline. They are zero when both windows have the
  same paths of activities in any order, for logs with countable events and a logarithm that is zero at one.\<close>

theorem drift_symmetric:
  assumes "\<forall>e \<in> set baseline \<union> set comparison. time_ordered e"
  shows "\<exists>r r'. drift_between api lg baseline comparison = Ok r \<and> drift_between api lg comparison baseline = Ok r' \<and>
    take 3 (er_metrics r) = take 3 (er_metrics r') \<and>
    (mset (map activity_path baseline) = mset (map activity_path comparison) \<and> lg f64_one = f64_zero \<and>
      length baseline \<le> u64_max \<and> length (concat (map pe_events baseline)) \<le> u64_max \<longrightarrow>
      map pm_mean (take 3 (er_metrics r)) = [Some f64_zero, Some f64_zero, Some f64_zero])"
proof -
  have ok: "drift_between api lg es fs = Ok (drift_result api lg es fs (cycle_seconds es) (cycle_seconds fs))"
    if "\<forall>e \<in> set es \<union> set fs. time_ordered e" for es fs
    using that by (simp add: drift_between_def cycle_times_ordered ball_Un)
  have swap: "divergences api lg comparison baseline = divergences api lg baseline comparison"
    by (simp add: divergences_def Let_def distribution_drift_swap [of lg "_ comparison"] distribution_drift_swap [of lg "variant_counts api comparison"])
  have zero: "map fst (divergences api lg baseline comparison) = [f64_zero, f64_zero, f64_zero]"
    if "mset (map activity_path baseline) = mset (map activity_path comparison)" "lg f64_one = f64_zero"
      "length baseline \<le> u64_max" "length (concat (map pe_events baseline)) \<le> u64_max"
    using that(2-4) sum_path_counts(1,2) [where es = baseline] sum_path_counts(3) [of api baseline]
      counts_same_paths(1,2) [OF that(1) [symmetric]] counts_same_paths(3) [OF that(1) [symmetric], of api]
    by (simp add: divergences_def Let_def distribution_drift_same order.trans [OF sum_path_counts(2)])
  have names: "map pm_mean (map (\<lambda>(name, d, support). scalar_metric name ''bits'' support d) (zip [a, b, c] ds)) = map (Some \<circ> fst) ds"
    if "length ds = 3" for a b c and ds :: "(f64 \<times> nat) list"
    using that by (auto simp: numeral_3_eq_3 length_Suc_conv scalar_metric_def)
  have "length (divergences api lg baseline comparison) = 3" by (simp add: divergences_def)
  then have "map pm_mean (take 3 (er_metrics (drift_result api lg baseline comparison bs cs))) = map Some (map fst (divergences api lg baseline comparison))" for bs cs
    unfolding drift_result_divergences by (subst names) simp_all
  moreover have "take 3 (er_metrics (drift_result api lg baseline comparison bs cs)) = take 3 (er_metrics (drift_result api lg comparison baseline cs bs))" for bs cs
    unfolding drift_result_divergences swap by simp
  ultimately show ?thesis
    using ok [OF assms] ok [of comparison baseline] assms zero by (auto simp: ball_Un simp del: length_concat)
qed

theorem drift_symmetric_witness:
  "\<exists>r. drift_between text_api (\<lambda>x. if x = f64_one then f64_zero else x) [path_execution [''a'', ''b''], path_execution [''a'']]
      [path_execution [''a''], path_execution [''a'', ''b'']] = Ok r \<and>
    map pm_mean (take 3 (er_metrics r)) = [Some f64_zero, Some f64_zero, Some f64_zero]"
proof -
  let ?b = "[path_execution [''a'', ''b''], path_execution [''a'']]" and ?c = "[path_execution [''a''], path_execution [''a'', ''b'']]"
  have "sorted (map (\<lambda>x. 0 :: int) p)" for p :: "string list" by (induction p) simp_all
  then have "time_ordered (path_execution p)" for p by (simp add: time_ordered_def path_execution_def sample_event_def comp_def)
  then have ordered: "\<forall>e \<in> set ?b \<union> set ?c. time_ordered e" by simp
  have "mset (map activity_path ?b) = mset (map activity_path ?c)" by simp
  then have same: "mset (map activity_path ?b) = mset (map activity_path ?c) \<and> (if f64_one = f64_one then f64_zero else f64_one) = f64_zero \<and>
      length ?b \<le> u64_max \<and> length (concat (map pe_events ?b)) \<le> u64_max" by (simp add: u64_max_def)
  obtain r where r: "drift_between text_api (\<lambda>x. if x = f64_one then f64_zero else x) ?b ?c = Ok r"
    "mset (map activity_path ?b) = mset (map activity_path ?c) \<and> (if f64_one = f64_one then f64_zero else f64_one) = f64_zero \<and>
      length ?b \<le> u64_max \<and> length (concat (map pe_events ?b)) \<le> u64_max \<longrightarrow>
      map pm_mean (take 3 (er_metrics r)) = [Some f64_zero, Some f64_zero, Some f64_zero]"
    by (rule drift_symmetric [OF ordered, of text_api "\<lambda>x. if x = f64_one then f64_zero else x", THEN exE]) (elim exE conjE, rule that)
  from r(1) r(2) [rule_format, OF same] show ?thesis by (intro exI conjI)
qed

section \<open>Enhancement over providers\<close>

text \<open>What the analyses rely on: the events of an execution come in order of time.\<close>

locale ordered_provider =
  fixes process_executions :: executions_method
  assumes ordered: "process_executions view mode leading = Ok es \<Longrightarrow> e \<in> set es \<Longrightarrow> time_ordered e"
begin

lemma drift_answers:
  assumes "process_executions view mode leading = Ok es" "process_executions view' mode leading = Ok fs"
  shows "\<exists>r. drift_between api lg es fs = Ok r"
  using ordered [OF assms(1)] ordered [OF assms(2)] by (simp add: drift_between_def cycle_times_ordered)

text \<open>Over such executions only overlapping activities fail.\<close>

lemma enhance_executions_answers:
  assumes "executions_of = (\<lambda>view. process_executions view mode leading)" "executions_of (eq_view request) = Ok es"
    and "eq_kind request \<in> {WindowComparison, Drift} \<Longrightarrow> eq_comparison_view request = Some view \<and> executions_of view = Ok fs"
  shows "if eq_kind request = Performance \<and> (\<exists>x \<in> set (log_runs es). overlaps x)
    then enhance_executions api lg executions_of request es = Some (Err negative_duration)
    else \<exists>r. enhance_executions api lg executions_of request es = Some (Ok r)"
proof -
  have es: "\<forall>e \<in> set es. time_ordered e" using ordered assms(1,2) by blast
  have performance: "if \<exists>x \<in> set (log_runs es). overlaps x then performance api es = Some (Err negative_duration)
    else \<exists>r. performance api es = Some (Ok r)"
    using performance_answers [OF es, of api] .
  have drift: "\<exists>r. drift_between api lg es fs = Ok r" if "eq_kind request \<in> {WindowComparison, Drift}"
    using drift_answers [of "eq_view request" mode leading es view fs api lg] assms that by blast
  show ?thesis
    using performance drift process_map_answers [OF es] histogram_answers [OF es] rework_total [of es] organizational_total [of api es request] assms(3)
    by (cases "eq_kind request") (auto simp: enhance_executions_def)
qed

end

lemma filtered_events_ordered: "sorted (map instant (filtered_events_for_objects p view ids))"
proof -
  have "sorted_wrt (\<lambda>a b. instant_key a \<le> instant_key b) (filtered_events_for_objects p view ids)"
    unfolding filtered_events_for_objects_def Let_def sorted_wrt_map [symmetric] by simp
  then show ?thesis unfolding sorted_wrt_map by (rule sorted_wrt_mono_rel [rotated]) (auto simp: instant_key_def less_eq_prod_def)
qed

lemma local_method_ordered: "local_method p view mode leading = Ok es \<Longrightarrow> e \<in> set es \<Longrightarrow> time_ordered e"
proof (cases mode)
  case LeadingObject
  assume "local_method p view mode leading = Ok es" "e \<in> set es"
  then have "e \<in> set (leading_executions p view leading)" using LeadingObject by (simp add: local_method_def local_process_executions_def)
  then show ?thesis
    by (rule leading_executionsD) (simp add: time_ordered_def leading_execution_def filtered_events_ordered)
next
  case ConnectedComponent
  assume "local_method p view mode leading = Ok es" "e \<in> set es"
  then obtain g where "component_execution p view g = Some e"
    using ConnectedComponent connected_executions_Some [of p view]
    by (auto simp: local_method_def local_process_executions_def List.map_filter_def)
  then show ?thesis by (cases g) (auto simp: component_execution_def Let_def time_ordered_def filtered_events_ordered split: if_splits)
qed

interpretation local: ordered_provider "local_method p"
  by unfold_locales (rule local_method_ordered)

lemma local_method_answers: "\<exists>es. local_method p view mode leading = Ok es"
  using connected_executions_Some [of p view] by (cases mode) (auto simp: local_method_def local_process_executions_def)

text \<open>C33: Over the in-memory provider an enhancement request never panics. Another version is an invalid request. A drift request
  without a window to compare is one too, and with one it is answered by the drift between the executions of the two views. Any other
  request is answered, except for a performance request on executions with overlapping activities.\<close>

theorem enhance_local:
  shows "\<exists>es. local_method p (eq_view request) (enhancement_mode api (eq_parameters request))
      (Option.bind (bt_get (eq_parameters request) ''leading_object_type'') (ea_as_str api)) = Ok es \<and>
    (if eq_semantic_version request \<noteq> ''1.0''
     then enhance api lg (local_method p) request = Some (Err (invalid_request ''semantic_version must be 1.0''))
     else if eq_kind request \<in> {WindowComparison, Drift}
     then (case eq_comparison_view request of
         None \<Rightarrow> enhance api lg (local_method p) request = Some (Err (invalid_request ''comparison_view is required for drift analysis''))
       | Some view \<Rightarrow> \<exists>fs. local_method p view (enhancement_mode api (eq_parameters request))
             (Option.bind (bt_get (eq_parameters request) ''leading_object_type'') (ea_as_str api)) = Ok fs \<and>
           enhance api lg (local_method p) request = Some (drift_between api lg es fs))
     else if eq_kind request = Performance \<and> (\<exists>x \<in> set (log_runs es). overlaps x)
     then enhance api lg (local_method p) request = Some (Err negative_duration)
     else \<exists>r. enhance api lg (local_method p) request = Some (Ok r))"
proof -
  let ?mode = "enhancement_mode api (eq_parameters request)"
    and ?leading = "Option.bind (bt_get (eq_parameters request) ''leading_object_type'') (ea_as_str api)"
  define executions_of where "executions_of = (\<lambda>view. local_method p view ?mode ?leading)"
  obtain es where es: "executions_of (eq_view request) = Ok es" unfolding executions_of_def using local_method_answers by blast
  have run: "enhance api lg (local_method p) request = (if eq_semantic_version request \<noteq> ''1.0''
      then Some (Err (invalid_request ''semantic_version must be 1.0'')) else enhance_executions api lg executions_of request es)"
    using es by (simp add: enhance_def Let_def executions_of_def)
  have drift: "case eq_comparison_view request of
      None \<Rightarrow> enhance_executions api lg executions_of request es = Some (Err (invalid_request ''comparison_view is required for drift analysis''))
    | Some view \<Rightarrow> \<exists>fs. executions_of view = Ok fs \<and> enhance_executions api lg executions_of request es = Some (drift_between api lg es fs)"
    if "eq_kind request \<in> {WindowComparison, Drift}"
  proof (cases "eq_comparison_view request")
    case None
    then show ?thesis using that by (auto simp: enhance_executions_def)
  next
    case (Some view)
    moreover obtain fs where "executions_of view = Ok fs" unfolding executions_of_def using local_method_answers by blast
    ultimately show ?thesis using that by (auto simp: enhance_executions_def)
  qed
  have answers: "if eq_kind request = Performance \<and> (\<exists>x \<in> set (log_runs es). overlaps x)
    then enhance_executions api lg executions_of request es = Some (Err negative_duration)
    else \<exists>r. enhance_executions api lg executions_of request es = Some (Ok r)"
    if "eq_kind request \<notin> {WindowComparison, Drift}"
    using that by (intro local.enhance_executions_answers [OF executions_of_def es]) auto
  have first: "local_method p (eq_view request) ?mode ?leading = Ok es" using es by (simp add: executions_of_def)
  show ?thesis
    using first drift answers unfolding run executions_of_def
    by (intro exI [of _ es] conjI) (assumption, cases "eq_semantic_version request = ''1.0''", simp_all split: option.splits)
qed

text \<open>Empty windows are no exception: their drift is an answer of zero divergences, not a lack of data.\<close>

lemma drift_empty_windows:
  "\<exists>r. drift_between api lg [] [] = Ok r \<and> map pm_mean (take 3 (er_metrics r)) = [Some f64_zero, Some f64_zero, Some f64_zero] \<and>
    map pm_support (take 3 (er_metrics r)) = [0, 0, 0]"
proof -
  have empty: "activity_counts [] = []" "dfg_counts [] = []" "variant_counts api [] = []"
    by (simp_all add: activity_counts_def dfg_counts_def variant_counts_def)
  have "fst (distribution_drift lg [] []) = f64_zero \<and> snd (snd (distribution_drift lg [] [])) = 0"
    by (simp add: distribution_drift_def bt_values_def bt_keys_def bset_def)
  then have d: "divergences api lg [] [] = [(f64_zero, 0), (f64_zero, 0), (f64_zero, 0)]" by (simp add: divergences_def empty Let_def)
  have "drift_between api lg [] [] = Ok (drift_result api lg [] [] (cycle_seconds []) (cycle_seconds []))"
    by (simp add: drift_between_def cycle_times_ordered)
  then show ?thesis by (intro exI conjI) (assumption, simp_all only: drift_result_divergences d, simp_all add: scalar_metric_def)
qed

end
