(* ===== verification/Ieee32.thy ===== *)
theory Ieee32
  imports FloatOps
begin

text \<open>
  Single precision: an \<open>f32\<close> is the \<open>f64\<close> of the same value, so comparisons, casts to \<open>f64\<close> and special values are those of
  \<open>Ieee64\<close>; the arithmetic rounds to 24 bits.
\<close>

type_synonym f32 = f64

definition ulp32 :: "rat \<Rightarrow> rat" where
  "ulp32 q = 2 powi (max (ilog2 q - 23) (-149))"

definition round_mag32 :: "rat \<Rightarrow> rat" where
  "round_mag32 q = of_int (round_half_even (q / ulp32 q)) * ulp32 q"

text \<open>The least magnitude that overflows, \<open>2 ^ 128\<close>.\<close>

definition f32_limit :: rat where
  "f32_limit = 340282366920938463463374607431768211456"

definition f32_round :: "rat \<Rightarrow> f32" where
  "f32_round q = (if q = 0 then F_fin 0
    else let m = round_mag32 \<bar>q\<bar> in
      if f32_limit \<le> m then F_inf (q < 0)
      else if m = 0 then (if q < 0 then F_negzero else F_fin 0)
      else F_fin (if q < 0 then - m else m))"

definition f32_of_nat :: "nat \<Rightarrow> f32" where
  "f32_of_nat n = f32_round (of_nat n)"

text \<open>\<open>x as f32\<close>.\<close>

fun f32_of_f64 :: "f64 \<Rightarrow> f32" where
  "f32_of_f64 (F_fin q) = f32_round q"
| "f32_of_f64 x = x"

definition f32_of_bool :: "bool \<Rightarrow> f32" where
  "f32_of_bool b = (if b then f64_one else f64_zero)"

definition f32_add :: "f32 \<Rightarrow> f32 \<Rightarrow> f32" where
  "f32_add x y = (case (x, y) of (F_fin p, F_fin q) \<Rightarrow> f32_round (p + q) | _ \<Rightarrow> f64_add x y)"

definition f32_sub :: "f32 \<Rightarrow> f32 \<Rightarrow> f32" where
  "f32_sub x y = f32_add x (f64_neg y)"

definition f32_mul :: "f32 \<Rightarrow> f32 \<Rightarrow> f32" where
  "f32_mul x y = (case (x, y) of (F_fin p, F_fin q) \<Rightarrow> if p * q = 0 then f64_mul x y else f32_round (p * q) | _ \<Rightarrow> f64_mul x y)"

definition f32_div :: "f32 \<Rightarrow> f32 \<Rightarrow> f32" where
  "f32_div x y = (case (x, y) of (F_fin p, F_fin q) \<Rightarrow> if p = 0 \<or> q = 0 then f64_div x y else f32_round (p / q) | _ \<Rightarrow> f64_div x y)"

text \<open>The square root, as in \<open>f64_sqrt\<close>: the root of the scaled integer part, rounded once.\<close>

definition f32_sqrt :: "f32 \<Rightarrow> f32" where
  "f32_sqrt x = (case x of
     F_fin q \<Rightarrow> if q \<le> 0 then f64_sqrt x
       else let n = nat \<lfloor>q * 4 ^ 200\<rfloor>; r = isqrt n in
         if of_nat (r * r) = q * 4 ^ 200 then f32_round (of_nat r / 2 ^ 200) else f32_round ((of_nat r + 1 / 2) / 2 ^ 200)
   | _ \<Rightarrow> f64_sqrt x)"

definition f32_sum :: "f32 list \<Rightarrow> f32" where
  "f32_sum xs = fold (\<lambda>x s. f32_add s x) xs F_negzero"

definition f32_lit :: "rat \<Rightarrow> f32" where
  "f32_lit q = f32_round q"

end
