(* ===== verification/GnnData.thy ===== *)
theory GnnData
  imports Bottleneck Ieee32 Prediction Discovery
begin

text \<open>
  The graph-aware bottleneck detector of \<open>crates/ocpm-gnn/src/lib.rs\<close>: requests and artifacts with their validation, the canonical
  order of observations, thresholds and labels, the message-passing graph and its features. Elementary functions, the text of a float
  and the test for blank text come from the argument \<open>pl\<close>, the platform. \<open>None\<close> is a panic.
\<close>

unbundle bit_operations_syntax

section \<open>Requests and artifacts\<close>

record gnn_request =
  gq_semantic_version :: string
  gq_view :: dataset_view
  gq_leading_object_type :: "string option"
  gq_minimum_support :: nat
  gq_slow_threshold_seconds :: "f64 option"
  gq_resource_attribute :: string
  gq_feature_dimensions :: nat
  gq_hidden_dimensions :: nat
  gq_epochs :: nat
  gq_patience :: nat
  gq_learning_rate :: f64
  gq_l2 :: f64
  gq_validation_fraction :: f64
  gq_label_quantile :: f64
  gq_maximum_nodes :: nat
  gq_maximum_neighbors :: nat
  gq_seed :: nat

definition default_seed :: nat where "default_seed = 0x4f43504d474e4e31"

definition default_gnn_request :: gnn_request where
  "default_gnn_request = \<lparr>gq_semantic_version = ''1.0'', gq_view = default_view, gq_leading_object_type = None, gq_minimum_support = 5,
     gq_slow_threshold_seconds = None, gq_resource_attribute = ''org:resource'', gq_feature_dimensions = 32, gq_hidden_dimensions = 16,
     gq_epochs = 100, gq_patience = 15, gq_learning_rate = f64_lit (1 / 100), gq_l2 = f64_lit (1 / 10000),
     gq_validation_fraction = f64_lit (2 / 10), gq_label_quantile = f64_lit (9 / 10), gq_maximum_nodes = 100000,
     gq_maximum_neighbors = 32, gq_seed = default_seed\<rparr>"

record gnn_edge_threshold =
  ge_object_type :: string
  ge_source_activity :: string
  ge_target_activity :: string
  ge_training_support :: nat
  ge_threshold_seconds :: f64

record gnn_training =
  gt_training_count :: nat
  gt_validation_count :: nat
  gt_positive_training_count :: nat
  gt_epochs_completed :: nat
  gt_training_loss :: f64
  gt_validation_loss :: f64
  gt_validation_auc :: "f64 option"
  gt_validation_accuracy :: f64
  gt_early_stopped :: bool

record gnn_weights =
  gw_first_self :: "f32 list"
  gw_first_neighbor :: "f32 list"
  gw_first_bias :: "f32 list"
  gw_second_self :: "f32 list"
  gw_second_neighbor :: "f32 list"
  gw_second_bias :: "f32 list"
  gw_output :: "f32 list"
  gw_output_bias :: f32

record gnn_artifact =
  ga_semantic_version :: string
  ga_algorithm :: string
  ga_model_hash :: string
  ga_feature_dimensions :: nat
  ga_hidden_dimensions :: nat
  ga_maximum_neighbors :: nat
  ga_minimum_support :: nat
  ga_resource_attribute :: string
  ga_seed :: nat
  ga_global_threshold_seconds :: f64
  ga_edge_thresholds :: "gnn_edge_threshold list"
  ga_weights :: gnn_weights
  ga_training :: gnn_training
  ga_warnings :: "string list"

record gnn_signal =
  gs_object_type :: string
  gs_source_activity :: string
  gs_target_activity :: string
  gs_support :: nat
  gs_threshold_seconds :: f64
  gs_mean_risk :: f64
  gs_maximum_risk :: f64
  gs_predicted_slow_count :: nat
  gs_predicted_slow_rate :: f64
  gs_observed_slow_count :: nat
  gs_risk_weighted_excess_seconds :: f64

record gnn_diagnostics =
  gd_provider :: string
  gd_observation_count :: nat
  gd_message_passing_arc_count :: nat
  gd_feature_dimensions :: nat
  gd_hidden_dimensions :: nat
  gd_maximum_observed_neighbors :: nat
  gd_deterministic :: bool
  gd_exact :: bool

record gnn_result =
  gr_semantic_version :: string
  gr_model_hash :: string
  gr_signals :: "gnn_signal list"
  gr_training :: gnn_training
  gr_diagnostics :: gnn_diagnostics
  gr_warnings :: "string list"

record platform =
  pl_sin :: "f64 \<Rightarrow> f64"
  pl_cos :: "f64 \<Rightarrow> f64"
  pl_tanh :: "f32 \<Rightarrow> f32"
  pl_exp :: "f32 \<Rightarrow> f32"
  pl_ln :: "f32 \<Rightarrow> f32"
  pl_powi :: "f32 \<Rightarrow> nat \<Rightarrow> f32"
  pl_float_text :: "f64 \<Rightarrow> string"
  pl_is_blank :: "string \<Rightarrow> bool"

section \<open>Validation\<close>

definition gnn_bounds_invalid :: "gnn_request \<Rightarrow> bool" where
  "gnn_bounds_invalid r \<longleftrightarrow> gq_minimum_support r = 0 \<or> gq_feature_dimensions r < 16 \<or> 256 < gq_feature_dimensions r \<or>
     gq_hidden_dimensions r = 0 \<or> 256 < gq_hidden_dimensions r \<or> gq_epochs r = 0 \<or> 10000 < gq_epochs r \<or> gq_patience r = 0 \<or>
     gq_maximum_nodes r < 2 \<or> gq_maximum_neighbors r = 0 \<or> 4096 < gq_maximum_neighbors r"

definition gnn_rates_invalid :: "gnn_request \<Rightarrow> bool" where
  "gnn_rates_invalid r \<longleftrightarrow> \<not> f64_is_finite (gq_learning_rate r) \<or> f64_le (gq_learning_rate r) f64_zero \<or> f64_lt f64_one (gq_learning_rate r) \<or>
     \<not> f64_is_finite (gq_l2 r) \<or> f64_lt (gq_l2 r) f64_zero \<or>
     \<not> (f64_le f64_zero (gq_validation_fraction r) \<and> f64_lt (gq_validation_fraction r) (F_fin (1 / 2))) \<or>
     \<not> (f64_le (F_fin (1 / 2)) (gq_label_quantile r) \<and> f64_lt (gq_label_quantile r) f64_one) \<or>
     (case gq_slow_threshold_seconds r of None \<Rightarrow> False | Some v \<Rightarrow> \<not> f64_is_finite v \<or> f64_lt v f64_zero)"

definition validate_gnn_request :: "platform \<Rightarrow> gnn_request \<Rightarrow> unit ocpm_result" where
  "validate_gnn_request pl r =
    rbind (ensure (gq_semantic_version r = ''1.0'') (ocpm_error_new UnsupportedSemanticVersion ''GNN bottleneck semantic_version must be 1.0'')) (\<lambda>_.
    rbind (ensure (\<not> gnn_bounds_invalid r)
      (invalid_request ''GNN dimensions, training bounds, support, node limit, and neighbor limit are invalid'')) (\<lambda>_.
    rbind (ensure (\<not> gnn_rates_invalid r)
      (invalid_request ''GNN learning rate, regularization, validation fraction, label quantile, or threshold is invalid'')) (\<lambda>_.
    ensure (\<not> pl_is_blank pl (gq_resource_attribute r)) (invalid_request ''resource_attribute must not be empty''))))"

definition validate_request_artifact :: "gnn_request \<Rightarrow> gnn_artifact \<Rightarrow> unit ocpm_result" where
  "validate_request_artifact r a =
    ensure (\<not> (gq_feature_dimensions r \<noteq> ga_feature_dimensions a \<or> gq_hidden_dimensions r \<noteq> ga_hidden_dimensions a \<or>
        gq_maximum_neighbors r \<noteq> ga_maximum_neighbors a \<or> gq_minimum_support r \<noteq> ga_minimum_support a \<or>
        gq_resource_attribute r \<noteq> ga_resource_attribute a))
      (ocpm_error_new ArtifactIncompatible ''request feature, neighborhood, support, or resource semantics differ from the GNN artifact'')"

definition gnn_algorithm :: string where "gnn_algorithm = ''mean_graphsage_bottleneck_v1''"

definition u64_wrapping_mul :: "nat \<Rightarrow> nat \<Rightarrow> nat" where
  "u64_wrapping_mul a b = (a * b) mod 2 ^ 64"

definition gnn_shapes_ok :: "gnn_artifact \<Rightarrow> bool" where
  "gnn_shapes_ok a \<longleftrightarrow> (let f = ga_feature_dimensions a; h = ga_hidden_dimensions a; w = ga_weights a in
     length (gw_first_self w) = u64_wrapping_mul f h \<and> length (gw_first_neighbor w) = u64_wrapping_mul f h \<and> length (gw_first_bias w) = h \<and>
     length (gw_second_self w) = u64_wrapping_mul h h \<and> length (gw_second_neighbor w) = u64_wrapping_mul h h \<and>
     length (gw_second_bias w) = h \<and> length (gw_output w) = h)"

definition validate_gnn_artifact :: "(gnn_artifact \<Rightarrow> string ocpm_result) \<Rightarrow> gnn_artifact \<Rightarrow> unit ocpm_result" where
  "validate_gnn_artifact content_hash a =
    rbind (ensure (ga_semantic_version a = ''1.0'' \<and> ga_algorithm a = gnn_algorithm)
      (ocpm_error_new ArtifactIncompatible ''unsupported GNN bottleneck artifact'')) (\<lambda>_.
    rbind (ensure (gnn_shapes_ok a) (ocpm_error_new ArtifactIncompatible ''GNN artifact tensor shapes are invalid'')) (\<lambda>_.
    rbind (content_hash (a\<lparr>ga_model_hash := []\<rparr>)) (\<lambda>h.
    ensure (h = ga_model_hash a) (ocpm_error_new ArtifactIncompatible ''GNN artifact content hash does not match its payload''))))"

section \<open>Observations, thresholds and labels\<close>

definition gnn_duration :: "bottleneck_observation \<Rightarrow> f64" where
  "gnn_duration ob = nanos_to_seconds (i128_wrapping_sub (bo_target_timestamp_nanos ob) (bo_source_timestamp_nanos ob))"

definition canonical_key :: "bottleneck_observation \<Rightarrow> int \<times> int \<times> nat \<times> nat \<times> string \<times> nat \<times> string \<times> string" where
  "canonical_key ob = (bo_target_timestamp_nanos ob, bo_source_timestamp_nanos ob, bo_target_event_id ob, bo_source_event_id ob,
     bo_object_type ob, bo_object_id ob, bo_source_activity ob, bo_target_activity ob)"

definition canonical_observations :: "bottleneck_observation list \<Rightarrow> nat \<Rightarrow> bottleneck_observation list ocpm_result" where
  "canonical_observations observations maximum_nodes =
    (if maximum_nodes < length observations
     then Err (resource_limit ''GNN observation count exceeds maximum_nodes'' maximum_nodes (length observations))
     else let vs = sort_key canonical_key observations in
       if \<exists>ob \<in> set vs. bo_target_timestamp_nanos ob < bo_source_timestamp_nanos ob \<or> \<not> f64_is_finite (gnn_duration ob)
       then Err (invalid_data ''GNN bottleneck observations require finite, nonnegative transition durations'')
       else Ok vs)"

text \<open>\<open>clamp\<close> panics when its bounds are out of order.\<close>

definition temporal_training_count :: "nat \<Rightarrow> f64 \<Rightarrow> nat option" where
  "temporal_training_count whole validation_fraction =
    (if f64_eq validation_fraction f64_zero then Some whole
     else let n = f64_to_u64 (f64_floor (f64_mul (f64_of_nat whole) (f64_sub f64_one validation_fraction))); upper = u64_wrapping_sub whole 1 in
       if upper < 1 then None else Some (min (max n 1) upper))"

definition gnn_quantile :: "f64 list \<Rightarrow> f64 \<Rightarrow> f64 option" where
  "gnn_quantile vs probability =
    (if vs = [] then Some f64_zero
     else let position = f64_mul probability (f64_of_nat (length vs - 1));
              lower = f64_to_u64 (f64_floor position); upper = f64_to_u64 (f64_ceil position) in
       if lower = upper then nth_opt vs lower
       else Option.bind (nth_opt vs lower) (\<lambda>lo. Option.bind (nth_opt vs upper) (\<lambda>hi.
         Some (f64_add lo (f64_mul (f64_sub hi lo) (f64_sub position (f64_of_nat lower)))))))"

definition slow_threshold :: "gnn_request \<Rightarrow> f64 list \<Rightarrow> f64 option" where
  "slow_threshold r durations = (case gq_slow_threshold_seconds r of Some t \<Rightarrow> Some t
   | None \<Rightarrow> gnn_quantile (sort_by f64_total_le durations) (gq_label_quantile r))"

definition edge_threshold :: "gnn_request \<Rightarrow> edge_key \<times> f64 list \<Rightarrow> gnn_edge_threshold option" where
  "edge_threshold r = (\<lambda>((object_type, source, target), durations).
     map_option (\<lambda>t. \<lparr>ge_object_type = object_type, ge_source_activity = source, ge_target_activity = target,
       ge_training_support = length durations, ge_threshold_seconds = t\<rparr>) (slow_threshold r durations))"

definition training_thresholds :: "bottleneck_observation list \<Rightarrow> nat \<Rightarrow> gnn_request \<Rightarrow> (f64 \<times> gnn_edge_threshold list) option" where
  "training_thresholds observations training_count r =
    Option.bind (slice_opt observations 0 training_count) (\<lambda>training.
    Option.bind (slow_threshold r (map gnn_duration training)) (\<lambda>global.
    let groups = fold (\<lambda>ob. bt_push (edge_key_of ob) (gnn_duration ob)) training [] in
    map_option (Pair global) (those (map (edge_threshold r) (filter (\<lambda>(_, vs). gq_minimum_support r \<le> length vs) groups)))))"

definition threshold_map :: "gnn_edge_threshold list \<Rightarrow> (edge_key, f64) btree_map" where
  "threshold_map thresholds = bt_of_list (map (\<lambda>t. ((ge_object_type t, ge_source_activity t, ge_target_activity t), ge_threshold_seconds t)) thresholds)"

definition threshold_for :: "f64 \<Rightarrow> (edge_key, f64) btree_map \<Rightarrow> bottleneck_observation \<Rightarrow> f64" where
  "threshold_for global thresholds ob = (case bt_get thresholds (edge_key_of ob) of None \<Rightarrow> global | Some t \<Rightarrow> t)"

definition gnn_labels :: "bottleneck_observation list \<Rightarrow> f64 \<Rightarrow> gnn_edge_threshold list \<Rightarrow> f32 list" where
  "gnn_labels observations global thresholds =
    map (\<lambda>ob. f32_of_bool (f64_lt (threshold_for global (threshold_map thresholds) ob) (gnn_duration ob))) observations"

section \<open>The graph\<close>

record graph =
  gg_features :: "f32 list"
  gg_neighbor_features :: "f32 list"
  gg_feature_dimensions :: nat
  gg_offsets :: "nat list"
  gg_neighbors :: "nat list"
  gg_maximum_degree :: nat

definition link :: "nat \<Rightarrow> nat \<Rightarrow> nat \<Rightarrow> nat list list \<Rightarrow> nat list list option" where
  "link maximum a b adjacency = map_option (\<lambda>ns. if length ns < maximum \<and> b \<notin> set ns then adjacency[a := ns @ [b]] else adjacency)
     (nth_opt adjacency a)"

definition connect :: "nat \<Rightarrow> nat \<Rightarrow> nat \<Rightarrow> nat list list \<Rightarrow> nat list list option" where
  "connect maximum left right adjacency = (if left = right then Some adjacency
     else Option.bind (link maximum left right adjacency) (link maximum right left))"

definition object_groups :: "bottleneck_observation list \<Rightarrow> (nat, nat list) btree_map" where
  "object_groups observations = fold (\<lambda>(i, ob). bt_push (bo_object_id ob) i) (indexed observations) []"

text \<open>The indexes of a group are positions of the observations, so the look-ups of the sort key stay in range.\<close>

definition object_order :: "bottleneck_observation list \<Rightarrow> nat \<Rightarrow> int \<times> int \<times> nat \<times> nat" where
  "object_order observations i = (let ob = observations ! i in
     (bo_source_timestamp_nanos ob, bo_target_timestamp_nanos ob, bo_source_event_id ob, bo_target_event_id ob))"

definition link_objects :: "bottleneck_observation list \<Rightarrow> nat \<Rightarrow> nat list list \<Rightarrow> nat list list option" where
  "link_objects observations maximum = fold_opt (\<lambda>indexes. fold_opt (\<lambda>(a, b). connect maximum a b)
     (windows2 (sort_key (object_order observations) indexes))) (bt_values (object_groups observations))"

definition event_groups :: "bottleneck_observation list \<Rightarrow> (nat, nat list) btree_map" where
  "event_groups observations = fold (\<lambda>(i, ob) m. let m = bt_push (bo_source_event_id ob) i m in
     if bo_target_event_id ob \<noteq> bo_source_event_id ob then bt_push (bo_target_event_id ob) i m else m) (indexed observations) []"

fun link_event :: "nat \<Rightarrow> nat \<Rightarrow> nat list \<Rightarrow> nat list list \<Rightarrow> nat list list option" where
  "link_event maximum left [] adjacency = Some adjacency"
| "link_event maximum left (right # rest) adjacency =
    Option.bind (connect maximum left right adjacency) (\<lambda>adjacency.
    Option.bind (nth_opt adjacency left) (\<lambda>ns.
    if maximum \<le> length ns then Some adjacency else link_event maximum left rest adjacency))"

fun link_indexes :: "nat \<Rightarrow> nat list \<Rightarrow> nat list list \<Rightarrow> nat list list option" where
  "link_indexes maximum [] adjacency = Some adjacency"
| "link_indexes maximum (left # rest) adjacency = Option.bind (link_event maximum left rest adjacency) (link_indexes maximum rest)"

definition link_events :: "bottleneck_observation list \<Rightarrow> nat \<Rightarrow> nat list list \<Rightarrow> nat list list option" where
  "link_events observations maximum = fold_opt (\<lambda>indexes. link_indexes maximum (remdups_adj (sort indexes))) (bt_values (event_groups observations))"

definition adjacency_of :: "bottleneck_observation list \<Rightarrow> nat \<Rightarrow> nat list list option" where
  "adjacency_of observations maximum =
    Option.bind (link_objects observations maximum (replicate (length observations) [])) (\<lambda>adjacency.
    Option.bind (link_events observations maximum adjacency) (\<lambda>adjacency.
    Some (map (\<lambda>ns. remdups_adj (sort ns)) adjacency)))"

definition flatten_step :: "nat list \<Rightarrow> nat list \<times> nat list \<Rightarrow> nat list \<times> nat list" where
  "flatten_step ns = (\<lambda>(offsets, neighbors). (offsets @ [length (neighbors @ ns)], neighbors @ ns))"

definition neighbors_of :: "graph \<Rightarrow> nat \<Rightarrow> nat list option" where
  "neighbors_of g node = Option.bind (nth_opt (gg_offsets g) node) (\<lambda>a. Option.bind (nth_opt (gg_offsets g) (node + 1)) (\<lambda>b.
     slice_opt (gg_neighbors g) a b))"

section \<open>Features\<close>

definition update_at :: "nat \<Rightarrow> ('a \<Rightarrow> 'a) \<Rightarrow> 'a list \<Rightarrow> 'a list option" where
  "update_at i f xs = map_option (\<lambda>x. xs[i := f x]) (nth_opt xs i)"

definition fnv1a :: "string \<Rightarrow> 64 word" where
  "fnv1a bytes = fold (\<lambda>c h. (h XOR of_nat (of_char c)) * 0x100000001b3) bytes 0xcbf29ce484222325"

definition show_int :: "int \<Rightarrow> string" where
  "show_int i = (if i < 0 then ''-'' @ show_nat (nat (- i)) else show_nat (nat i))"

definition attribute_token :: "platform \<Rightarrow> attribute_value option \<Rightarrow> string" where
  "attribute_token pl v = (case v of None \<Rightarrow> ''missing'' | Some AttrNull \<Rightarrow> ''missing'' | Some (AttrString s) \<Rightarrow> s
   | Some (AttrInteger i) \<Rightarrow> show_int i | Some (AttrFloat x) \<Rightarrow> pl_float_text pl x
   | Some (AttrBoolean b) \<Rightarrow> if b then ''true'' else ''false'' | Some (AttrTimestamp t) \<Rightarrow> show_int (epoch_nanos_utc t))"

definition feature_tokens :: "platform \<Rightarrow> string \<Rightarrow> bottleneck_observation \<Rightarrow> string list" where
  "feature_tokens pl attribute ob =
    [''object:'' @ bo_object_type ob, ''source:'' @ bo_source_activity ob, ''target:'' @ bo_target_activity ob,
     ''transition:'' @ bo_source_activity ob @ [unit_separator] @ bo_target_activity ob,
     ''source_resource:'' @ attribute_token pl (bt_get (bo_source_attributes ob) attribute),
     ''target_resource:'' @ attribute_token pl (bt_get (bo_target_attributes ob) attribute)]"

definition hash_feature_offset :: nat where "hash_feature_offset = 9"

text \<open>The remainder by zero panics, as does a bucket out of the row.\<close>

definition add_token :: "nat \<Rightarrow> f32 \<Rightarrow> string \<Rightarrow> f32 list \<Rightarrow> f32 list option" where
  "add_token dimensions scale token row =
    (if dimensions \<le> hash_feature_offset then None
     else let h = fnv1a token; bucket = hash_feature_offset + unat h mod (dimensions - hash_feature_offset);
              sign = (if bit h 63 then F_fin (- 1) else f64_one) in
       update_at bucket (\<lambda>x. f32_add x (f32_mul sign scale)) row)"

definition two_pi :: f64 where "two_pi = f64_lit (628318530717958647692528676655900577 / 10 ^ 35)"

definition period_angle :: "int \<Rightarrow> int \<Rightarrow> f64" where
  "period_angle seconds period = f64_div (f64_mul two_pi (f64_of_int (seconds mod period))) (f64_of_int period)"

definition dense_features :: "platform \<Rightarrow> nat \<Rightarrow> bottleneck_observation \<Rightarrow> nat \<Rightarrow> f32 list" where
  "dense_features pl maximum ob degree =
    (let seconds = bo_source_timestamp_nanos ob div 1000000000; day = period_angle seconds 86400; week = period_angle seconds 604800 in
     [f64_one, f32_of_f64 (pl_sin pl day), f32_of_f64 (pl_cos pl day), f32_of_f64 (pl_sin pl week), f32_of_f64 (pl_cos pl week),
      f32_of_bool (bo_source_lifecycle ob \<noteq> None), f32_of_bool (bo_target_lifecycle ob \<noteq> None),
      f32_of_bool (bo_source_activity ob = bo_target_activity ob),
      f32_div (pl_ln pl (f32_of_nat (degree + 1))) (pl_ln pl (f32_of_nat (maximum + 1)))])"

definition feature_row :: "platform \<Rightarrow> gnn_request \<Rightarrow> graph \<Rightarrow> nat \<times> bottleneck_observation \<Rightarrow> f32 list option" where
  "feature_row pl r g = (\<lambda>(index, ob).
     Option.bind (nth_opt (gg_offsets g) (index + 1)) (\<lambda>b. Option.bind (nth_opt (gg_offsets g) index) (\<lambda>a.
     let tokens = feature_tokens pl (gq_resource_attribute r) ob; scale = f32_div f64_one (f32_sqrt (f32_of_nat (length tokens))) in
     Option.bind (fold_opt (\<lambda>(i, v). update_at i (\<lambda>_. v)) (indexed (dense_features pl (gq_maximum_neighbors r) ob (b - a)))
       (replicate (gq_feature_dimensions r) f64_zero)) (fold_opt (add_token (gq_feature_dimensions r) scale) tokens))))"

definition build_features :: "platform \<Rightarrow> gnn_request \<Rightarrow> bottleneck_observation list \<Rightarrow> graph \<Rightarrow> f32 list option" where
  "build_features pl r observations g = map_option concat (those (map (feature_row pl r g) (indexed observations)))"

definition mean_step :: "f32 list \<Rightarrow> nat \<Rightarrow> nat \<Rightarrow> f32 \<Rightarrow> nat \<Rightarrow> f32 list \<Rightarrow> f32 list option" where
  "mean_step vs dimensions node scale neighbor = fold_opt (\<lambda>dimension output.
     Option.bind (nth_opt vs (neighbor * dimensions + dimension)) (\<lambda>v.
     update_at (node * dimensions + dimension) (\<lambda>x. f32_add x (f32_mul v scale)) output)) [0..<dimensions]"

definition neighbor_means :: "graph \<Rightarrow> f32 list \<Rightarrow> nat \<Rightarrow> f32 list option" where
  "neighbor_means g vs dimensions = (let nodes = length (gg_offsets g) - 1 in
     fold_opt (\<lambda>node output. Option.bind (neighbors_of g node) (\<lambda>ns.
       if ns = [] then Some output
       else fold_opt (mean_step vs dimensions node (f32_div f64_one (f32_of_nat (length ns)))) ns output))
     [0..<nodes] (replicate (nodes * dimensions) f64_zero))"

definition build_graph :: "platform \<Rightarrow> bottleneck_observation list \<Rightarrow> gnn_request \<Rightarrow> graph option" where
  "build_graph pl observations r =
    Option.bind (adjacency_of observations (gq_maximum_neighbors r)) (\<lambda>adjacency.
    let (offsets, neighbors) = fold flatten_step adjacency ([0], []);
        g = \<lparr>gg_features = [], gg_neighbor_features = [], gg_feature_dimensions = gq_feature_dimensions r, gg_offsets = offsets,
          gg_neighbors = neighbors, gg_maximum_degree = fold max (map length adjacency) 0\<rparr> in
    Option.bind (build_features pl r observations g) (\<lambda>features. let g = g\<lparr>gg_features := features\<rparr> in
    map_option (\<lambda>ns. g\<lparr>gg_neighbor_features := ns\<rparr>) (neighbor_means g (gg_features g) (gg_feature_dimensions g))))"

end
