(* ===== verification/GnnNetwork.thy ===== *)
theory GnnNetwork
  imports GnnData
begin

text \<open>
  The two-layer network of \<open>crates/ocpm-gnn/src/lib.rs\<close>: initial weights from a shift generator, the forward and the backward pass,
  the optimiser, the training loop with early stopping and its diagnostics. Loops over indexes read and write lists through
  \<open>nth_opt\<close> and \<open>update_at\<close>, so an index out of range is a panic (\<open>None\<close>).
\<close>

section \<open>Initial weights\<close>

definition xorshift_new :: "nat \<Rightarrow> 64 word" where
  "xorshift_new seed = of_nat (if seed = 0 then default_seed else seed)"

definition xorshift_next :: "64 word \<Rightarrow> 64 word" where
  "xorshift_next v = (let v = v XOR push_bit 13 v; v = v XOR drop_bit 7 v in v XOR push_bit 17 v)"

definition xorshift_unit :: "64 word \<Rightarrow> f32" where
  "xorshift_unit v = f32_div (f32_of_nat (unat (drop_bit 40 v))) (f32_of_nat (2 ^ 24))"

definition xavier :: "nat \<Rightarrow> nat \<Rightarrow> nat \<Rightarrow> 64 word \<Rightarrow> f32 list \<times> 64 word" where
  "xavier width fan_in fan_out random =
    (let bound = f32_sqrt (f32_div (f32_of_nat 6) (f32_of_nat (fan_in + fan_out))) in
     fold (\<lambda>_ (ws, v). let v = xorshift_next v in
       (ws @ [f32_mul (f32_sub (f32_mul (xorshift_unit v) (F_fin 2)) f64_one) bound], v)) [0..<width] ([], random))"

definition initialize_weights :: "nat \<Rightarrow> nat \<Rightarrow> nat \<Rightarrow> gnn_weights" where
  "initialize_weights f h seed =
    (let (first_self, random) = xavier (f * h) f h (xorshift_new seed);
         (first_neighbor, random) = xavier (f * h) f h random;
         (second_self, random) = xavier (h * h) h h random;
         (second_neighbor, random) = xavier (h * h) h h random;
         (out, random) = xavier h h 1 random
     in \<lparr>gw_first_self = first_self, gw_first_neighbor = first_neighbor, gw_first_bias = replicate h f64_zero,
       gw_second_self = second_self, gw_second_neighbor = second_neighbor, gw_second_bias = replicate h f64_zero,
       gw_output = out, gw_output_bias = f64_zero\<rparr>)"

definition zero_weights :: "gnn_weights \<Rightarrow> gnn_weights" where
  "zero_weights w = (let z = map (\<lambda>_. f64_zero) in
     w\<lparr>gw_first_self := z (gw_first_self w), gw_first_neighbor := z (gw_first_neighbor w), gw_first_bias := z (gw_first_bias w),
       gw_second_self := z (gw_second_self w), gw_second_neighbor := z (gw_second_neighbor w), gw_second_bias := z (gw_second_bias w),
       gw_output := z (gw_output w)\<rparr>)"

section \<open>The forward pass\<close>

record forward_pass =
  fp_first :: "f32 list"
  fp_first_neighbor :: "f32 list"
  fp_second :: "f32 list"
  fp_probabilities :: "f32 list"

definition node_count :: "graph \<Rightarrow> nat" where
  "node_count g = length (gg_offsets g) - 1"

text \<open>\<open>value += xs[i] * ys[j]\<close>.\<close>

definition mac :: "f32 list \<Rightarrow> nat \<Rightarrow> f32 list \<Rightarrow> nat \<Rightarrow> f32 \<Rightarrow> f32 option" where
  "mac xs i ys j v = Option.bind (nth_opt xs i) (\<lambda>x. map_option (\<lambda>y. f32_add v (f32_mul x y)) (nth_opt ys j))"

definition layer_value :: "f32 list \<Rightarrow> f32 list \<Rightarrow> f32 list \<Rightarrow> f32 list \<Rightarrow> f32 list \<Rightarrow> nat \<Rightarrow> nat \<Rightarrow> nat \<Rightarrow> nat \<Rightarrow> f32 option" where
  "layer_value bias inputs self_weights neighbor_inputs neighbor_weights width hidden node out =
    Option.bind (nth_opt bias out) (fold_opt (\<lambda>i v.
      Option.bind (mac inputs (node * width + i) self_weights (i * hidden + out) v)
        (mac neighbor_inputs (node * width + i) neighbor_weights (i * hidden + out))) [0..<width])"

definition sigmoid :: "platform \<Rightarrow> f32 \<Rightarrow> f32" where
  "sigmoid pl v = (if f64_le f64_zero v then f32_div f64_one (f32_add f64_one (pl_exp pl (f64_neg v)))
     else let exponent = pl_exp pl v in f32_div exponent (f32_add f64_one exponent))"

definition first_layer :: "platform \<Rightarrow> graph \<Rightarrow> gnn_weights \<Rightarrow> nat \<Rightarrow> f32 list option" where
  "first_layer pl g w hidden = those (map (\<lambda>(node, out). map_option (pl_tanh pl)
     (layer_value (gw_first_bias w) (gg_features g) (gw_first_self w) (gg_neighbor_features g) (gw_first_neighbor w)
       (gg_feature_dimensions g) hidden node out)) (List.product [0..<node_count g] [0..<hidden]))"

text \<open>The activations of a node in the second layer and its logit.\<close>

definition second_node :: "platform \<Rightarrow> gnn_weights \<Rightarrow> f32 list \<Rightarrow> f32 list \<Rightarrow> nat \<Rightarrow> nat \<Rightarrow> (f32 list \<times> f32) option" where
  "second_node pl w first first_neighbor hidden node = fold_opt (\<lambda>out (row, logit).
     Option.bind (layer_value (gw_second_bias w) first (gw_second_self w) first_neighbor (gw_second_neighbor w) hidden hidden node out) (\<lambda>v.
     Option.bind (nth_opt (gw_output w) out) (\<lambda>weight.
     let activation = pl_tanh pl v in Some (row @ [activation], f32_add logit (f32_mul activation weight)))))
     [0..<hidden] ([], gw_output_bias w)"

definition forward :: "platform \<Rightarrow> graph \<Rightarrow> gnn_weights \<Rightarrow> nat \<Rightarrow> forward_pass option" where
  "forward pl g w hidden =
    Option.bind (first_layer pl g w hidden) (\<lambda>first.
    Option.bind (neighbor_means g first hidden) (\<lambda>first_neighbor.
    Option.bind (those (map (second_node pl w first first_neighbor hidden) [0..<node_count g])) (\<lambda>nodes.
    Some \<lparr>fp_first = first, fp_first_neighbor = first_neighbor, fp_second = concat (map fst nodes),
      fp_probabilities = map (sigmoid pl \<circ> snd) nodes\<rparr>)))"

section \<open>The backward pass\<close>

text \<open>The gradients have the shape of the weights.\<close>

type_synonym gradients = gnn_weights

definition half :: f64 where "half = F_fin (1 / 2)"

definition class_weight :: "f32 \<Rightarrow> f32 \<Rightarrow> f32" where
  "class_weight positive_weight label = (if f64_lt half label then positive_weight else f64_one)"

definition initial_gradients :: "gnn_weights \<Rightarrow> f32 \<Rightarrow> gradients" where
  "initial_gradients w l2 = (let h = length (gw_output w); d = map (f32_mul l2) in
     \<lparr>gw_first_self = d (gw_first_self w), gw_first_neighbor = d (gw_first_neighbor w), gw_first_bias = replicate h f64_zero,
      gw_second_self = d (gw_second_self w), gw_second_neighbor = d (gw_second_neighbor w), gw_second_bias = replicate h f64_zero,
      gw_output = d (gw_output w), gw_output_bias = f64_zero\<rparr>)"

text \<open>\<open>ys[i] += xs[j] * d\<close>.\<close>

definition accumulate :: "nat \<Rightarrow> f32 list \<Rightarrow> nat \<Rightarrow> f32 \<Rightarrow> f32 list \<Rightarrow> f32 list option" where
  "accumulate i xs j d ys = Option.bind (nth_opt xs j) (\<lambda>x. update_at i (\<lambda>y. f32_add y (f32_mul x d)) ys)"

definition one_minus_square :: "platform \<Rightarrow> f32 \<Rightarrow> f32" where
  "one_minus_square pl x = f32_sub f64_one (pl_powi pl x 2)"

definition output_gradient :: "platform \<Rightarrow> gnn_weights \<Rightarrow> forward_pass \<Rightarrow> f32 \<Rightarrow> nat \<Rightarrow> nat \<Rightarrow> gradients \<times> f32 list \<Rightarrow> (gradients \<times> f32 list) option" where
  "output_gradient pl w pass logit_delta node out = (\<lambda>(gs, second_delta).
     let i = node * length (gw_output w) + out in
     Option.bind (accumulate out (fp_second pass) i logit_delta (gw_output gs)) (\<lambda>outputs.
     Option.bind (nth_opt (gw_output w) out) (\<lambda>weight. Option.bind (nth_opt (fp_second pass) i) (\<lambda>x.
     map_option (Pair (gs\<lparr>gw_output := outputs\<rparr>))
       (update_at i (\<lambda>_. f32_mul (f32_mul logit_delta weight) (one_minus_square pl x)) second_delta)))))"

definition node_gradient :: "platform \<Rightarrow> gnn_weights \<Rightarrow> forward_pass \<Rightarrow> f32 list \<Rightarrow> f32 \<Rightarrow> f32 \<Rightarrow> nat \<Rightarrow> gradients \<times> f32 list \<Rightarrow> (gradients \<times> f32 list) option" where
  "node_gradient pl w pass labels positive_weight normalization node = (\<lambda>(gs, second_delta).
     Option.bind (nth_opt labels node) (\<lambda>label. Option.bind (nth_opt (fp_probabilities pass) node) (\<lambda>probability.
     let logit_delta = f32_div (f32_mul (f32_sub probability label) (class_weight positive_weight label)) normalization in
     fold_opt (output_gradient pl w pass logit_delta node) [0..<length (gw_output w)]
       (gs\<lparr>gw_output_bias := f32_add (gw_output_bias gs) logit_delta\<rparr>, second_delta))))"

record deltas =
  dl_gradients :: gradients
  dl_first :: "f32 list"
  dl_first_neighbor :: "f32 list"

definition hidden_gradient :: "gnn_weights \<Rightarrow> forward_pass \<Rightarrow> nat \<Rightarrow> nat \<Rightarrow> f32 \<Rightarrow> nat \<Rightarrow> deltas \<Rightarrow> deltas option" where
  "hidden_gradient w pass node out delta i d =
    (let hidden = length (gw_output w); gs = dl_gradients d; weight = i * hidden + out; cell = node * hidden + i in
     Option.bind (accumulate weight (fp_first pass) cell delta (gw_second_self gs)) (\<lambda>second_self.
     Option.bind (accumulate weight (fp_first_neighbor pass) cell delta (gw_second_neighbor gs)) (\<lambda>second_neighbor.
     Option.bind (accumulate cell (gw_second_self w) weight delta (dl_first d)) (\<lambda>first.
     map_option (\<lambda>first_neighbor. \<lparr>dl_gradients = gs\<lparr>gw_second_self := second_self, gw_second_neighbor := second_neighbor\<rparr>,
         dl_first = first, dl_first_neighbor = first_neighbor\<rparr>)
       (accumulate cell (gw_second_neighbor w) weight delta (dl_first_neighbor d))))))"

definition second_gradient :: "gnn_weights \<Rightarrow> forward_pass \<Rightarrow> f32 list \<Rightarrow> nat \<times> nat \<Rightarrow> deltas \<Rightarrow> deltas option" where
  "second_gradient w pass second_delta = (\<lambda>(node, out) d. let hidden = length (gw_output w) in
     Option.bind (nth_opt second_delta (node * hidden + out)) (\<lambda>delta.
     Option.bind (update_at out (\<lambda>x. f32_add x delta) (gw_second_bias (dl_gradients d))) (\<lambda>bias.
     fold_opt (hidden_gradient w pass node out delta) [0..<hidden] (d\<lparr>dl_gradients := (dl_gradients d)\<lparr>gw_second_bias := bias\<rparr>\<rparr>))))"

definition distribute_node :: "f32 list \<Rightarrow> nat \<Rightarrow> nat \<Rightarrow> f32 \<Rightarrow> nat \<Rightarrow> f32 list \<Rightarrow> f32 list option" where
  "distribute_node source dimensions node scale neighbor = fold_opt (\<lambda>dimension.
     accumulate (neighbor * dimensions + dimension) source (node * dimensions + dimension) scale) [0..<dimensions]"

definition distribute_neighbor_gradients :: "graph \<Rightarrow> f32 list \<Rightarrow> f32 list \<Rightarrow> nat \<Rightarrow> f32 list option" where
  "distribute_neighbor_gradients g source target dimensions = fold_opt (\<lambda>node target.
     Option.bind (neighbors_of g node) (\<lambda>ns. if ns = [] then Some target
       else fold_opt (distribute_node source dimensions node (f32_div f64_one (f32_of_nat (length ns)))) ns target))
     [0..<node_count g] target"

definition input_gradient :: "graph \<Rightarrow> nat \<Rightarrow> nat \<Rightarrow> nat \<Rightarrow> f32 \<Rightarrow> nat \<Rightarrow> gradients \<Rightarrow> gradients option" where
  "input_gradient g hidden node out delta i gs = (let cell = node * gg_feature_dimensions g + i; weight = i * hidden + out in
     Option.bind (accumulate weight (gg_features g) cell delta (gw_first_self gs)) (\<lambda>first_self.
     map_option (\<lambda>first_neighbor. gs\<lparr>gw_first_self := first_self, gw_first_neighbor := first_neighbor\<rparr>)
       (accumulate weight (gg_neighbor_features g) cell delta (gw_first_neighbor gs))))"

definition first_gradient :: "platform \<Rightarrow> graph \<Rightarrow> gnn_weights \<Rightarrow> forward_pass \<Rightarrow> nat \<times> nat \<Rightarrow> f32 list \<times> gradients \<Rightarrow> (f32 list \<times> gradients) option" where
  "first_gradient pl g w pass = (\<lambda>(node, out) (first_delta, gs). let hidden = length (gw_output w); cell = node * hidden + out in
     Option.bind (nth_opt (fp_first pass) cell) (\<lambda>x.
     Option.bind (update_at cell (\<lambda>d. f32_mul d (one_minus_square pl x)) first_delta) (\<lambda>first_delta.
     Option.bind (nth_opt first_delta cell) (\<lambda>delta.
     Option.bind (update_at out (\<lambda>x. f32_add x delta) (gw_first_bias gs)) (\<lambda>bias.
     map_option (Pair first_delta) (fold_opt (input_gradient g hidden node out delta) [0..<gg_feature_dimensions g] (gs\<lparr>gw_first_bias := bias\<rparr>)))))))"

definition backward :: "platform \<Rightarrow> graph \<Rightarrow> gnn_weights \<Rightarrow> forward_pass \<Rightarrow> f32 list \<Rightarrow> nat \<Rightarrow> f32 \<Rightarrow> f32 \<Rightarrow> gradients option" where
  "backward pl g w pass labels training_count positive_weight l2 =
    (let nodes = node_count g; hidden = length (gw_output w); cells = List.product [0..<nodes] [0..<hidden]; zeros = replicate (nodes * hidden) f64_zero in
     Option.bind (slice_opt labels 0 training_count) (\<lambda>training.
     let normalization = f64_max (f32_sum (map (class_weight positive_weight) training)) f64_one in
     Option.bind (fold_opt (node_gradient pl w pass labels positive_weight normalization) [0..<training_count] (initial_gradients w l2, zeros)) (\<lambda>(gs, second_delta).
     Option.bind (fold_opt (second_gradient w pass second_delta) cells \<lparr>dl_gradients = gs, dl_first = zeros, dl_first_neighbor = zeros\<rparr>) (\<lambda>d.
     Option.bind (distribute_neighbor_gradients g (dl_first_neighbor d) (dl_first d) hidden) (\<lambda>first_delta.
     map_option snd (fold_opt (first_gradient pl g w pass) cells (first_delta, dl_gradients d)))))))"

section \<open>The optimiser\<close>

record adam_vector =
  av_first :: "f32 list"
  av_second :: "f32 list"

definition adam_vector_new :: "nat \<Rightarrow> adam_vector" where
  "adam_vector_new width = \<lparr>av_first = replicate width f64_zero, av_second = replicate width f64_zero\<rparr>"

definition adam_cell :: "f32 \<Rightarrow> f32 \<Rightarrow> f32 \<Rightarrow> f32 \<times> f32 \<times> f32 \<times> f32 \<Rightarrow> f32 \<times> f32 \<times> f32" where
  "adam_cell correction_first correction_second rate = (\<lambda>(v, gradient, first, second).
     let first = f32_add (f32_mul (f32_lit (9 / 10)) first) (f32_mul (f32_lit (1 / 10)) gradient);
         second = f32_add (f32_mul (f32_lit (999 / 1000)) second) (f32_mul (f32_mul (f32_lit (1 / 1000)) gradient) gradient);
         first_hat = f32_div first correction_first; second_hat = f32_div second correction_second
     in (f32_sub v (f32_div (f32_mul rate first_hat) (f32_add (f32_sqrt second_hat) (f32_lit (1 / 10 ^ 8)))), first, second))"

text \<open>The zipped loop leaves what lies past the shortest list.\<close>

definition adam_update :: "platform \<Rightarrow> nat \<Rightarrow> f32 \<Rightarrow> f32 list \<Rightarrow> adam_vector \<Rightarrow> f32 list \<Rightarrow> f32 list \<times> adam_vector" where
  "adam_update pl epoch rate gradients a vs =
    (let power = min epoch (2 ^ 31 - 1);
         correction_first = f32_sub f64_one (pl_powi pl (f32_lit (9 / 10)) power);
         correction_second = f32_sub f64_one (pl_powi pl (f32_lit (999 / 1000)) power);
         cells = map (adam_cell correction_first correction_second rate) (zip vs (zip gradients (zip (av_first a) (av_second a))));
         n = length cells
     in (map fst cells @ drop n vs, \<lparr>av_first = map (fst \<circ> snd) cells @ drop n (av_first a), av_second = map (snd \<circ> snd) cells @ drop n (av_second a)\<rparr>))"

record adam_state =
  as_first_self :: adam_vector
  as_first_neighbor :: adam_vector
  as_first_bias :: adam_vector
  as_second_self :: adam_vector
  as_second_neighbor :: adam_vector
  as_second_bias :: adam_vector
  as_output :: adam_vector
  as_output_bias :: adam_vector

definition adam_new :: "gnn_weights \<Rightarrow> adam_state" where
  "adam_new w = \<lparr>as_first_self = adam_vector_new (length (gw_first_self w)), as_first_neighbor = adam_vector_new (length (gw_first_neighbor w)),
     as_first_bias = adam_vector_new (length (gw_first_bias w)), as_second_self = adam_vector_new (length (gw_second_self w)),
     as_second_neighbor = adam_vector_new (length (gw_second_neighbor w)), as_second_bias = adam_vector_new (length (gw_second_bias w)),
     as_output = adam_vector_new (length (gw_output w)), as_output_bias = adam_vector_new 1\<rparr>"

text \<open>\<open>bias[0]\<close> is the head of the list of one that was updated.\<close>

definition adam_step :: "platform \<Rightarrow> nat \<Rightarrow> f32 \<Rightarrow> gradients \<Rightarrow> adam_state \<times> gnn_weights \<Rightarrow> (adam_state \<times> gnn_weights) option" where
  "adam_step pl epoch rate gs = (\<lambda>(a, w). let up = adam_update pl epoch rate;
     (first_self, a1) = up (gw_first_self gs) (as_first_self a) (gw_first_self w);
     (first_neighbor, a2) = up (gw_first_neighbor gs) (as_first_neighbor a) (gw_first_neighbor w);
     (first_bias, a3) = up (gw_first_bias gs) (as_first_bias a) (gw_first_bias w);
     (second_self, a4) = up (gw_second_self gs) (as_second_self a) (gw_second_self w);
     (second_neighbor, a5) = up (gw_second_neighbor gs) (as_second_neighbor a) (gw_second_neighbor w);
     (second_bias, a6) = up (gw_second_bias gs) (as_second_bias a) (gw_second_bias w);
     (outputs, a7) = up (gw_output gs) (as_output a) (gw_output w);
     (bias, a8) = up [gw_output_bias gs] (as_output_bias a) [gw_output_bias w]
   in map_option (\<lambda>b. (\<lparr>as_first_self = a1, as_first_neighbor = a2, as_first_bias = a3, as_second_self = a4, as_second_neighbor = a5,
       as_second_bias = a6, as_output = a7, as_output_bias = a8\<rparr>,
      \<lparr>gw_first_self = first_self, gw_first_neighbor = first_neighbor, gw_first_bias = first_bias, gw_second_self = second_self,
       gw_second_neighbor = second_neighbor, gw_second_bias = second_bias, gw_output = outputs, gw_output_bias = b\<rparr>)) (nth_opt bias 0))"

section \<open>Training\<close>

definition binary_loss :: "platform \<Rightarrow> f32 list \<Rightarrow> f32 list \<Rightarrow> f64" where
  "binary_loss pl probabilities labels =
    (if probabilities = [] then f64_zero
     else let least = f32_lit (1 / 10 ^ 7) in
       f64_div (f64_sum (map (\<lambda>(probability, label). let v = f64_clamp least (f32_sub f64_one least) probability in
           f64_neg (f32_add (f32_mul label (pl_ln pl v)) (f32_mul (f32_sub f64_one label) (pl_ln pl (f32_sub f64_one v)))))
         (zip probabilities labels))) (f64_of_nat (length probabilities)))"

text \<open>The walk over rows sorted by probability: each group of equal probabilities gets the average of its ranks.\<close>

definition is_positive :: "f32 \<Rightarrow> bool" where
  "is_positive label \<longleftrightarrow> f64_lt half label"

function rank_sum :: "(f32 \<times> f32) list \<Rightarrow> nat \<Rightarrow> f64 \<Rightarrow> f64" where
  "rank_sum [] start s = s"
| "rank_sum (r # rows) start s =
    (let same = takeWhile (\<lambda>x. f64_eq (fst x) (fst r)) rows; stop = start + 1 + length same;
         average_rank = f64_div (f64_of_nat (start + 1 + stop)) (F_fin 2);
         positives = length (filter (is_positive \<circ> snd) (r # same))
     in rank_sum (drop (length same) rows) stop (f64_add s (f64_mul (f64_of_nat positives) average_rank)))"
  by pat_completeness auto
termination
  by (relation "measure (\<lambda>(rows, _, _). length rows)") auto

definition auc :: "f32 list \<Rightarrow> f32 list \<Rightarrow> f64 option" where
  "auc probabilities labels =
    (let positives = length (filter is_positive labels); negatives = length labels - positives in
     if positives = 0 \<or> negatives = 0 then None
     else let rows = sort_by (\<lambda>l r. f64_total_le (fst l) (fst r)) (zip probabilities labels) in
       Some (f64_div (f64_sub (rank_sum rows 0 f64_zero) (f64_of_nat (u64_wrapping_mul positives (positives + 1) div 2)))
         (f64_of_nat (u64_wrapping_mul positives negatives))))"

definition training_diagnostics :: "platform \<Rightarrow> f32 list \<Rightarrow> f32 list \<Rightarrow> nat \<Rightarrow> nat \<Rightarrow> nat \<Rightarrow> bool \<Rightarrow> gnn_training option" where
  "training_diagnostics pl labels probabilities training_count positives epochs_completed early_stopped =
    (let (a, b) = (if training_count < length labels then (training_count, length labels) else (0, training_count)) in
     Option.bind (those (map (\<lambda>i. Option.bind (nth_opt probabilities i) (\<lambda>p. map_option (\<lambda>l. f64_le half p = f64_le half l) (nth_opt labels i))) [a..<b])) (\<lambda>hits.
     Option.bind (slice_opt probabilities 0 training_count) (\<lambda>tp. Option.bind (slice_opt labels 0 training_count) (\<lambda>tl.
     Option.bind (slice_opt probabilities a b) (\<lambda>vp. Option.bind (slice_opt labels a b) (\<lambda>vl.
     Some \<lparr>gt_training_count = training_count, gt_validation_count = b - a, gt_positive_training_count = positives,
       gt_epochs_completed = epochs_completed, gt_training_loss = binary_loss pl tp tl, gt_validation_loss = binary_loss pl vp vl,
       gt_validation_auc = auc vp vl, gt_validation_accuracy = f64_div (f64_of_nat (length (filter (\<lambda>h. h) hits))) (f64_of_nat (max (b - a) 1)),
       gt_early_stopped = early_stopped\<rparr>))))))"

record training_state =
  ts_model :: gnn_weights
  ts_adam :: adam_state
  ts_best_model :: gnn_weights
  ts_best_loss :: f64
  ts_stale :: nat
  ts_completed :: nat
  ts_early_stopped :: bool

definition training_epoch :: "platform \<Rightarrow> graph \<Rightarrow> f32 list \<Rightarrow> nat \<Rightarrow> f32 \<Rightarrow> gnn_request \<Rightarrow> nat \<Rightarrow> training_state \<Rightarrow> training_state option" where
  "training_epoch pl g labels training_count positive_weight r epoch s =
    Option.bind (forward pl g (ts_model s) (gq_hidden_dimensions r)) (\<lambda>pass.
    Option.bind (backward pl g (ts_model s) pass labels training_count positive_weight (f32_of_f64 (gq_l2 r))) (\<lambda>gs.
    Option.bind (adam_step pl epoch (f32_of_f64 (gq_learning_rate r)) gs (ts_adam s, ts_model s)) (\<lambda>(adam, model).
    Option.bind (forward pl g model (gq_hidden_dimensions r)) (\<lambda>current.
    let (a, b) = (if training_count < length labels then (training_count, length labels) else (0, training_count)) in
    Option.bind (slice_opt (fp_probabilities current) a (if training_count < length labels then length (fp_probabilities current) else b)) (\<lambda>vp.
    Option.bind (slice_opt labels a b) (\<lambda>vl.
    let validation_loss = binary_loss pl vp vl; s = s\<lparr>ts_model := model, ts_adam := adam, ts_completed := epoch\<rparr> in
    Some (if f64_lt (f64_add validation_loss (f64_lit (1 / 10 ^ 8))) (ts_best_loss s)
      then s\<lparr>ts_best_loss := validation_loss, ts_best_model := model, ts_stale := 0\<rparr>
      else s\<lparr>ts_stale := ts_stale s + 1, ts_early_stopped := gq_patience r \<le> ts_stale s + 1\<rparr>)))))))"

fun training_loop :: "(nat \<Rightarrow> training_state \<Rightarrow> training_state option) \<Rightarrow> nat list \<Rightarrow> training_state \<Rightarrow> training_state option" where
  "training_loop step [] s = Some s"
| "training_loop step (epoch # epochs) s = Option.bind (step epoch s) (\<lambda>s.
     if ts_early_stopped s then Some s else training_loop step epochs s)"

definition intercept_model :: "platform \<Rightarrow> nat \<Rightarrow> nat \<Rightarrow> gnn_weights \<Rightarrow> gnn_weights" where
  "intercept_model pl positives training_count model =
    (let least = f32_lit (1 / 10 ^ 6);
         probability = f64_clamp least (f32_sub f64_one least) (f32_div (f32_add (f32_of_nat positives) half) (f32_add (f32_of_nat training_count) f64_one))
     in (zero_weights model)\<lparr>gw_output_bias := pl_ln pl (f32_div probability (f32_sub f64_one probability))\<rparr>)"

definition train_model :: "platform \<Rightarrow> graph \<Rightarrow> f32 list \<Rightarrow> nat \<Rightarrow> gnn_request \<Rightarrow> (gnn_weights \<times> gnn_training \<times> string list) option" where
  "train_model pl g labels training_count r =
    (let model = initialize_weights (gg_feature_dimensions g) (gq_hidden_dimensions r) (gq_seed r) in
     Option.bind (slice_opt labels 0 training_count) (\<lambda>training.
     let positives = length (filter is_positive training); negatives = training_count - positives in
     if positives = 0 \<or> negatives = 0
     then let model = intercept_model pl positives training_count model in
       Option.bind (forward pl g model (gq_hidden_dimensions r)) (\<lambda>pass.
       map_option (\<lambda>d. (model, d, [''the temporal training partition contained only one label class; an intercept-only smoothed model was fitted'']))
         (training_diagnostics pl labels (fp_probabilities pass) training_count positives 0 False))
     else let positive_weight = f64_clamp f64_one (F_fin 100) (f32_div (f32_of_nat negatives) (f32_of_nat positives));
              start = \<lparr>ts_model = model, ts_adam = adam_new model, ts_best_model = model, ts_best_loss = F_inf False, ts_stale = 0, ts_completed = 0, ts_early_stopped = False\<rparr>
       in Option.bind (training_loop (training_epoch pl g labels training_count positive_weight r) [1..<gq_epochs r + 1] start) (\<lambda>s.
       Option.bind (forward pl g (ts_best_model s) (gq_hidden_dimensions r)) (\<lambda>pass.
       map_option (\<lambda>d. (ts_best_model s, d, []))
         (training_diagnostics pl labels (fp_probabilities pass) training_count positives (ts_completed s) (ts_early_stopped s))))))"

end
