(* ===== verification/Gnn.thy ===== *)
theory Gnn
  imports GnnNetwork
begin

text \<open>
  Fitting and scoring of \<open>crates/ocpm-gnn/src/lib.rs\<close>: an artifact from observations, the risk signals of an artifact, and the entry
  points over a provider or over an accelerated projection. The content hash and the projection of the provider are parameters.
\<close>

section \<open>Fitting\<close>

definition no_edge_threshold :: "string" where
  "no_edge_threshold = ''no transition met minimum_support in the temporal training partition; the global threshold was used''"

definition fit_artifact :: "gnn_request \<Rightarrow> f64 \<Rightarrow> gnn_edge_threshold list \<Rightarrow> gnn_weights \<times> gnn_training \<times> string list \<Rightarrow> gnn_artifact" where
  "fit_artifact r global thresholds = (\<lambda>(weights, training, warnings).
     \<lparr>ga_semantic_version = ''1.0'', ga_algorithm = gnn_algorithm, ga_model_hash = [], ga_feature_dimensions = gq_feature_dimensions r,
      ga_hidden_dimensions = gq_hidden_dimensions r, ga_maximum_neighbors = gq_maximum_neighbors r, ga_minimum_support = gq_minimum_support r,
      ga_resource_attribute = gq_resource_attribute r, ga_seed = gq_seed r, ga_global_threshold_seconds = global,
      ga_edge_thresholds = thresholds, ga_weights = weights, ga_training = training,
      ga_warnings = (if thresholds = [] then warnings @ [no_edge_threshold] else warnings)\<rparr>)"

definition fit_canonical :: "platform \<Rightarrow> gnn_request \<Rightarrow> bottleneck_observation list \<Rightarrow> gnn_artifact option" where
  "fit_canonical pl r observations =
    Option.bind (temporal_training_count (length observations) (gq_validation_fraction r)) (\<lambda>training_count.
    Option.bind (training_thresholds observations training_count r) (\<lambda>(global, thresholds).
    Option.bind (build_graph pl observations r) (\<lambda>g.
    map_option (fit_artifact r global thresholds) (train_model pl g (gnn_labels observations global thresholds) training_count r))))"

definition fit_observations :: "platform \<Rightarrow> (gnn_artifact \<Rightarrow> string ocpm_result) \<Rightarrow> bottleneck_observation list \<Rightarrow> gnn_request
    \<Rightarrow> gnn_artifact ocpm_result option" where
  "fit_observations pl content_hash observations r = (case canonical_observations observations (gq_maximum_nodes r) of
     Err e \<Rightarrow> Some (Err e)
   | Ok observations \<Rightarrow>
      if length observations < 2
      then Some (Err (ocpm_error_new InsufficientData ''GNN bottleneck fitting requires at least two transition observations''))
      else map_option (\<lambda>a. rbind (content_hash a) (\<lambda>h. Ok (a\<lparr>ga_model_hash := h\<rparr>))) (fit_canonical pl r observations))"

section \<open>Scoring\<close>

record signal_accumulator =
  sa_support :: nat
  sa_threshold_seconds :: f64
  sa_risk_sum :: f64
  sa_maximum_risk :: f64
  sa_predicted_slow_count :: nat
  sa_observed_slow_count :: nat
  sa_risk_weighted_excess_seconds :: f64

definition no_signal :: signal_accumulator where
  "no_signal = \<lparr>sa_support = 0, sa_threshold_seconds = f64_zero, sa_risk_sum = f64_zero, sa_maximum_risk = f64_zero,
     sa_predicted_slow_count = 0, sa_observed_slow_count = 0, sa_risk_weighted_excess_seconds = f64_zero\<rparr>"

definition push_signal :: "f64 \<Rightarrow> f64 \<Rightarrow> f64 \<Rightarrow> signal_accumulator \<Rightarrow> signal_accumulator" where
  "push_signal risk duration threshold a = a\<lparr>sa_support := sa_support a + 1, sa_threshold_seconds := threshold,
     sa_risk_sum := f64_add (sa_risk_sum a) risk, sa_maximum_risk := f64_max (sa_maximum_risk a) risk,
     sa_predicted_slow_count := sa_predicted_slow_count a + (if f64_le half risk then 1 else 0),
     sa_observed_slow_count := sa_observed_slow_count a + (if f64_lt threshold duration then 1 else 0),
     sa_risk_weighted_excess_seconds := f64_add (sa_risk_weighted_excess_seconds a)
       (f64_mul risk (f64_max (f64_sub duration threshold) f64_zero))\<rparr>"

type_synonym signal_groups = "(edge_key, signal_accumulator) btree_map"

definition score_observation :: "f64 \<Rightarrow> (edge_key, f64) btree_map \<Rightarrow> f32 list \<Rightarrow> nat \<times> bottleneck_observation \<Rightarrow> signal_groups \<Rightarrow> signal_groups option" where
  "score_observation global thresholds probabilities = (\<lambda>(index, ob) groups.
     map_option (\<lambda>p. bt_alter (edge_key_of ob)
       (\<lambda>a. push_signal p (gnn_duration ob) (threshold_for global thresholds ob) (case a of None \<Rightarrow> no_signal | Some a \<Rightarrow> a)) groups)
       (nth_opt probabilities index))"

definition gnn_signal_of :: "edge_key \<times> signal_accumulator \<Rightarrow> gnn_signal" where
  "gnn_signal_of = (\<lambda>((object_type, source, target), a).
     \<lparr>gs_object_type = object_type, gs_source_activity = source, gs_target_activity = target, gs_support = sa_support a,
      gs_threshold_seconds = sa_threshold_seconds a, gs_mean_risk = f64_div (sa_risk_sum a) (f64_of_nat (sa_support a)),
      gs_maximum_risk = sa_maximum_risk a, gs_predicted_slow_count = sa_predicted_slow_count a,
      gs_predicted_slow_rate = f64_div (f64_of_nat (sa_predicted_slow_count a)) (f64_of_nat (sa_support a)),
      gs_observed_slow_count = sa_observed_slow_count a, gs_risk_weighted_excess_seconds = sa_risk_weighted_excess_seconds a\<rparr>)"

definition gnn_signal_cmp :: "gnn_signal \<Rightarrow> gnn_signal \<Rightarrow> ordering" where
  "gnn_signal_cmp left right =
    then_with (total_cmp (gs_risk_weighted_excess_seconds right) (gs_risk_weighted_excess_seconds left))
    (then_with (total_cmp (gs_mean_risk right) (gs_mean_risk left))
    (then_with (nat_cmp (gs_support right) (gs_support left))
    (then_with (string_cmp (gs_object_type left) (gs_object_type right))
    (then_with (string_cmp (gs_source_activity left) (gs_source_activity right))
      (string_cmp (gs_target_activity left) (gs_target_activity right))))))"

definition gnn_signals :: "gnn_artifact \<Rightarrow> signal_groups \<Rightarrow> gnn_signal list" where
  "gnn_signals a groups = sort_by (\<lambda>l r. gnn_signal_cmp l r \<noteq> Greater)
     (map gnn_signal_of (filter (\<lambda>(_, v). ga_minimum_support a \<le> sa_support v) groups))"

definition associative_warning :: string where
  "associative_warning = ''GNN scores are associative risk signals, not causal effects; use explicit temporal hypotheses for causal screening''"

definition score_canonical :: "platform \<Rightarrow> string \<Rightarrow> gnn_request \<Rightarrow> gnn_artifact \<Rightarrow> bottleneck_observation list \<Rightarrow> gnn_result option" where
  "score_canonical pl provider r a observations =
    Option.bind (build_graph pl observations r) (\<lambda>g.
    Option.bind (forward pl g (ga_weights a) (ga_hidden_dimensions a)) (\<lambda>pass.
    map_option (\<lambda>groups. \<lparr>gr_semantic_version = ''1.0'', gr_model_hash = ga_model_hash a, gr_signals = gnn_signals a groups,
        gr_training = ga_training a,
        gr_diagnostics = \<lparr>gd_provider = provider, gd_observation_count = length observations, gd_message_passing_arc_count = length (gg_neighbors g),
          gd_feature_dimensions = gg_feature_dimensions g, gd_hidden_dimensions = ga_hidden_dimensions a,
          gd_maximum_observed_neighbors = gg_maximum_degree g, gd_deterministic = True, gd_exact = False\<rparr>,
        gr_warnings = ga_warnings a @ [associative_warning]\<rparr>)
      (fold_opt (score_observation (ga_global_threshold_seconds a) (threshold_map (ga_edge_thresholds a)) (fp_probabilities pass))
        (indexed observations) [])))"

definition score_observations :: "platform \<Rightarrow> string \<Rightarrow> bottleneck_observation list \<Rightarrow> gnn_request \<Rightarrow> gnn_artifact \<Rightarrow> gnn_result ocpm_result option" where
  "score_observations pl provider observations r a = (case canonical_observations observations (gq_maximum_nodes r) of
     Err e \<Rightarrow> Some (Err e)
   | Ok observations \<Rightarrow> map_option Ok (score_canonical pl provider r a observations))"

section \<open>Entry points\<close>

definition gnn_projection :: "gnn_request \<Rightarrow> bottleneck_observation_request" where
  "gnn_projection r = \<lparr>bor_view = gq_view r, bor_leading_object_type = gq_leading_object_type r\<rparr>"

text \<open>Early returns before a computation that may panic.\<close>

definition checked :: "'a ocpm_result \<Rightarrow> ('a \<Rightarrow> 'b ocpm_result option) \<Rightarrow> 'b ocpm_result option" where
  "checked r k = (case r of Err e \<Rightarrow> Some (Err e) | Ok a \<Rightarrow> k a)"

definition gnn_fit_from :: "platform \<Rightarrow> (gnn_artifact \<Rightarrow> string ocpm_result) \<Rightarrow> bottleneck_observation list \<Rightarrow> gnn_request \<Rightarrow> gnn_artifact ocpm_result option" where
  "gnn_fit_from pl content_hash observations r = checked (validate_gnn_request pl r) (\<lambda>_. fit_observations pl content_hash observations r)"

definition gnn_fit :: "platform \<Rightarrow> (gnn_artifact \<Rightarrow> string ocpm_result) \<Rightarrow> (bottleneck_observation_request \<Rightarrow> bottleneck_observation list ocpm_result)
    \<Rightarrow> gnn_request \<Rightarrow> gnn_artifact ocpm_result option" where
  "gnn_fit pl content_hash observe_view r = checked (validate_gnn_request pl r) (\<lambda>_. checked (observe_view (gnn_projection r)) (\<lambda>observations.
     fit_observations pl content_hash observations r))"

definition score_checks :: "platform \<Rightarrow> (gnn_artifact \<Rightarrow> string ocpm_result) \<Rightarrow> gnn_request \<Rightarrow> gnn_artifact \<Rightarrow> unit ocpm_result" where
  "score_checks pl content_hash r a = rbind (validate_gnn_request pl r) (\<lambda>_. rbind (validate_gnn_artifact content_hash a) (\<lambda>_. validate_request_artifact r a))"

definition gnn_score_from :: "platform \<Rightarrow> (gnn_artifact \<Rightarrow> string ocpm_result) \<Rightarrow> string \<Rightarrow> bottleneck_observation list \<Rightarrow> gnn_request \<Rightarrow> gnn_artifact
    \<Rightarrow> gnn_result ocpm_result option" where
  "gnn_score_from pl content_hash provider observations r a = checked (score_checks pl content_hash r a) (\<lambda>_. score_observations pl provider observations r a)"

definition gnn_score :: "platform \<Rightarrow> (gnn_artifact \<Rightarrow> string ocpm_result) \<Rightarrow> string \<Rightarrow> (bottleneck_observation_request \<Rightarrow> bottleneck_observation list ocpm_result)
    \<Rightarrow> gnn_request \<Rightarrow> gnn_artifact \<Rightarrow> gnn_result ocpm_result option" where
  "gnn_score pl content_hash provider observe_view r a = checked (score_checks pl content_hash r a) (\<lambda>_.
     checked (observe_view (gnn_projection r)) (\<lambda>observations. score_observations pl provider observations r a))"

definition gnn_detect_from :: "platform \<Rightarrow> (gnn_artifact \<Rightarrow> string ocpm_result) \<Rightarrow> string \<Rightarrow> bottleneck_observation list \<Rightarrow> gnn_request \<Rightarrow> gnn_result ocpm_result option" where
  "gnn_detect_from pl content_hash provider observations r = checked (validate_gnn_request pl r) (\<lambda>_.
     Option.bind (fit_observations pl content_hash observations r) (\<lambda>a. checked a (score_observations pl provider observations r)))"

definition gnn_detect :: "platform \<Rightarrow> (gnn_artifact \<Rightarrow> string ocpm_result) \<Rightarrow> string \<Rightarrow> (bottleneck_observation_request \<Rightarrow> bottleneck_observation list ocpm_result)
    \<Rightarrow> gnn_request \<Rightarrow> gnn_result ocpm_result option" where
  "gnn_detect pl content_hash provider observe_view r = checked (validate_gnn_request pl r) (\<lambda>_.
     checked (observe_view (gnn_projection r)) (\<lambda>observations.
     Option.bind (fit_observations pl content_hash observations r) (\<lambda>a. checked a (score_observations pl provider observations r))))"

text \<open>The task interface for external backends has no implementation in the program; it answers with this error.\<close>

definition backend_required :: ocpm_error where
  "backend_required = ocpm_error_new ProviderUnavailable
     ''the requested predictive GNN task requires a registered backend; the built-in module currently provides provider-neutral bottleneck risk detection''"

end
