(* ===== verification/GnnGraph.thy ===== *)
theory GnnGraph
  imports Gnn
begin

text \<open>
  Facts about the message-passing graph of \<open>GnnData\<close>: building it never panics, its neighbours are in range, bounded and related,
  and below the bound they are exactly the observations that follow each other on an object or share an event.
\<close>

section \<open>Loops by index\<close>

lemma fold_opt_keeps:
  assumes "I s" and "\<And>x s. x \<in> set xs \<Longrightarrow> I s \<Longrightarrow> \<exists>s'. f x s = Some s' \<and> I s'"
  shows "\<exists>s'. fold_opt f xs s = Some s' \<and> I s'"
  using assms
proof (induction xs arbitrary: s)
  case (Cons x xs)
  obtain s1 where s1: "f x s = Some s1" "I s1" using Cons.prems(1) Cons.prems(2) [of x s] by auto
  have "\<exists>s'. fold_opt f xs s1 = Some s' \<and> I s'" by (rule Cons.IH) (use s1(2) Cons.prems(2) in auto)
  then show ?case using s1(1) by simp
qed simp

lemma fold_opt_append: "fold_opt f (xs @ ys) s = Option.bind (fold_opt f xs s) (fold_opt f ys)"
  by (induction xs arbitrary: s) (auto split: Option.bind_splits)

lemma those_list_all2: "(\<And>x. x \<in> set xs \<Longrightarrow> \<exists>y. f x = Some y \<and> P x y) \<Longrightarrow>
    \<exists>ys. those (map f xs) = Some ys \<and> list_all2 P xs ys"
proof (induction xs)
  case (Cons x xs)
  then obtain y ys where "f x = Some y" "P x y" "those (map f xs) = Some ys" "list_all2 P xs ys" by (metis list.set_intros)
  then show ?case by simp
qed simp

lemma cell_less: "i < n \<Longrightarrow> j < m \<Longrightarrow> i * m + j < n * (m :: nat)"
proof -
  assume "i < n" "j < m"
  then have "i * m + j < (i + 1) * m" by simp
  also have "\<dots> \<le> n * m" using \<open>i < n\<close> by (intro mult_right_mono) auto
  finally show ?thesis .
qed

section \<open>Links\<close>

lemma link_Some:
  assumes "a < length adjacency"
  shows "link maximum a b adjacency = Some (if length (adjacency ! a) < maximum \<and> b \<notin> set (adjacency ! a)
    then adjacency[a := adjacency ! a @ [b]] else adjacency)"
  using assms by (simp add: link_def)

text \<open>What a run of links keeps: the length, the bound on degrees, and a relation that holds between linked positions.\<close>

definition links_ok :: "nat \<Rightarrow> nat \<Rightarrow> (nat \<Rightarrow> nat \<Rightarrow> bool) \<Rightarrow> nat list list \<Rightarrow> bool" where
  "links_ok n maximum R adjacency \<longleftrightarrow> length adjacency = n \<and>
     (\<forall>i < n. length (adjacency ! i) \<le> maximum \<and> distinct (adjacency ! i) \<and> (\<forall>j \<in> set (adjacency ! i). j < n \<and> j \<noteq> i \<and> R i j))"

lemma link_ok:
  assumes "links_ok n maximum R adjacency" "a < n" "b < n" "a \<noteq> b" "R a b"
  shows "\<exists>adjacency'. link maximum a b adjacency = Some adjacency' \<and> links_ok n maximum R adjacency' \<and>
    (\<forall>i < n. set (adjacency ! i) \<subseteq> set (adjacency' ! i)) \<and> (n \<le> maximum \<longrightarrow> b \<in> set (adjacency' ! a))"
proof -
  have len: "a < length adjacency" using assms(1,2) by (simp add: links_ok_def)
  have a: "length (adjacency ! a) \<le> maximum" "distinct (adjacency ! a)" "set (adjacency ! a) \<subseteq> {j. j < n \<and> j \<noteq> a}"
    using assms(1,2) by (auto simp: links_ok_def)
  have room: "length (adjacency ! a) < maximum" if "n \<le> maximum"
  proof -
    have "length (adjacency ! a) = card (set (adjacency ! a))" using a(2) by (simp add: distinct_card)
    also have "\<dots> \<le> card ({0..<n} - {a})" using a(3) by (intro card_mono) auto
    also have "\<dots> < n" using assms(2) by (simp add: card_Diff_singleton)
    finally show ?thesis using that by simp
  qed
  let ?adj = "if length (adjacency ! a) < maximum \<and> b \<notin> set (adjacency ! a) then adjacency[a := adjacency ! a @ [b]] else adjacency"
  have "links_ok n maximum R ?adj"
    using assms by (auto simp: links_ok_def nth_list_update)
  moreover have "\<forall>i < n. set (adjacency ! i) \<subseteq> set (?adj ! i)" using len by (auto simp: nth_list_update)
  moreover have "n \<le> maximum \<longrightarrow> b \<in> set (?adj ! a)" using room len by auto
  ultimately show ?thesis using link_Some [OF len] by metis
qed

lemma connect_ok:
  assumes "links_ok n maximum R adjacency" "a < n" "b < n" "a \<noteq> b \<Longrightarrow> R a b \<and> R b a"
  shows "\<exists>adjacency'. connect maximum a b adjacency = Some adjacency' \<and> links_ok n maximum R adjacency' \<and>
    (\<forall>i < n. set (adjacency ! i) \<subseteq> set (adjacency' ! i)) \<and>
    (n \<le> maximum \<and> a \<noteq> b \<longrightarrow> b \<in> set (adjacency' ! a) \<and> a \<in> set (adjacency' ! b))"
proof (cases "a = b")
  case False
  obtain x where x: "link maximum a b adjacency = Some x" "links_ok n maximum R x" "\<forall>i < n. set (adjacency ! i) \<subseteq> set (x ! i)"
    "n \<le> maximum \<longrightarrow> b \<in> set (x ! a)"
    using link_ok [OF assms(1-3) False] assms(4) False by blast
  obtain y where y: "link maximum b a x = Some y" "links_ok n maximum R y" "\<forall>i < n. set (x ! i) \<subseteq> set (y ! i)"
    "n \<le> maximum \<longrightarrow> a \<in> set (y ! b)"
    using link_ok [OF x(2) assms(3,2)] assms(4) False by blast
  show ?thesis using False x y assms(2) by (intro exI [of _ y]) (auto simp: connect_def)
qed (use assms in \<open>auto simp: connect_def\<close>)

text \<open>A loop that only adds: what each round establishes holds at the end.\<close>

lemma fold_opt_collect:
  assumes "I s" and step: "\<And>x s. x \<in> set xs \<Longrightarrow> I s \<Longrightarrow> \<exists>s'. f x s = Some s' \<and> I s' \<and> le s s' \<and> Q x s'"
    and mono: "\<And>x s s'. Q x s \<Longrightarrow> le s s' \<Longrightarrow> Q x s'" and refl: "\<And>s. le s s" and trans: "\<And>s t u. le s t \<Longrightarrow> le t u \<Longrightarrow> le s u"
  shows "\<exists>s'. fold_opt f xs s = Some s' \<and> I s' \<and> le s s' \<and> (\<forall>x \<in> set xs. Q x s')"
  using assms(1,2)
proof (induction xs arbitrary: s)
  case (Cons x xs)
  obtain s1 where s1: "f x s = Some s1" "I s1" "le s s1" "Q x s1" using Cons.prems(1) Cons.prems(2) [of x s] by auto
  obtain t where t: "fold_opt f xs s1 = Some t" "I t" "le s1 t" "\<forall>x \<in> set xs. Q x t"
    using Cons.IH [OF s1(2)] Cons.prems(2) by auto
  show ?case using s1 t mono [OF s1(4) t(3)] trans [OF s1(3) t(3)] by auto
qed (simp add: refl)

definition extends :: "nat list list \<Rightarrow> nat list list \<Rightarrow> bool" where
  "extends adjacency adjacency' \<longleftrightarrow> length adjacency' = length adjacency \<and> (\<forall>i < length adjacency. set (adjacency ! i) \<subseteq> set (adjacency' ! i))"

lemma extends_refl: "extends a a"
  by (simp add: extends_def)

lemma extends_trans: "extends a b \<Longrightarrow> extends b c \<Longrightarrow> extends a c"
  unfolding extends_def by (metis order_trans)

text \<open>Two positions see each other, when the bound leaves room.\<close>

definition joined :: "nat \<Rightarrow> nat \<times> nat \<Rightarrow> nat list list \<Rightarrow> bool" where
  "joined maximum = (\<lambda>(a, b) adjacency. a < length adjacency \<and> b < length adjacency \<and>
     (length adjacency \<le> maximum \<and> a \<noteq> b \<longrightarrow> b \<in> set (adjacency ! a) \<and> a \<in> set (adjacency ! b)))"

lemma joined_mono: "joined maximum p a \<Longrightarrow> extends a b \<Longrightarrow> joined maximum p b"
  by (auto simp: joined_def extends_def split: prod.splits)

lemma connect_joins:
  assumes "links_ok n maximum R adjacency" "a < n" "b < n" "a \<noteq> b \<Longrightarrow> R a b \<and> R b a"
  shows "\<exists>adjacency'. connect maximum a b adjacency = Some adjacency' \<and> links_ok n maximum R adjacency' \<and> extends adjacency adjacency' \<and>
    joined maximum (a, b) adjacency'"
proof -
  obtain x where x: "connect maximum a b adjacency = Some x" "links_ok n maximum R x" "\<forall>i < n. set (adjacency ! i) \<subseteq> set (x ! i)"
    "n \<le> maximum \<and> a \<noteq> b \<longrightarrow> b \<in> set (x ! a) \<and> a \<in> set (x ! b)" using connect_ok [OF assms(1-3) assms(4)] by blast
  have len: "length adjacency = n" "length x = n" using assms(1) x(2) by (simp_all add: links_ok_def)
  then have "extends adjacency x" "joined maximum (a, b) x" using x(3,4) assms(2,3) by (simp_all add: extends_def joined_def)
  then show ?thesis using x(1,2) by blast
qed

lemma link_event_joins:
  assumes "links_ok n maximum R adjacency" "left < n" "\<forall>x \<in> set rest. x < n \<and> (left \<noteq> x \<longrightarrow> R left x \<and> R x left)"
  shows "\<exists>adjacency'. link_event maximum left rest adjacency = Some adjacency' \<and> links_ok n maximum R adjacency' \<and>
    extends adjacency adjacency' \<and> (\<forall>x \<in> set rest. joined maximum (left, x) adjacency')"
  using assms
proof (induction rest arbitrary: adjacency)
  case (Cons x rest)
  obtain y where y: "connect maximum left x adjacency = Some y" "links_ok n maximum R y" "extends adjacency y" "joined maximum (left, x) y"
    using connect_joins [OF Cons.prems(1,2), of x] Cons.prems(3) by auto
  have len: "length y = n" using y(2) by (simp add: links_ok_def)
  have get: "nth_opt y left = Some (y ! left)" using Cons.prems(2) len by simp
  show ?case
  proof (cases "maximum \<le> length (y ! left)")
    case True
    have "length (y ! left) < n"
    proof -
      have "length (y ! left) = card (set (y ! left))" using y(2) Cons.prems(2) by (simp add: links_ok_def distinct_card)
      also have "\<dots> \<le> card ({0..<n} - {left})" using y(2) Cons.prems(2) by (intro card_mono) (auto simp: links_ok_def)
      also have "\<dots> < n" using Cons.prems(2) by (simp add: card_Diff_singleton)
      finally show ?thesis .
    qed
    then have "\<not> n \<le> maximum" using True by simp
    then have "\<forall>x \<in> set (x # rest). joined maximum (left, x) y" using Cons.prems(2,3) len by (auto simp: joined_def)
    then show ?thesis using y get True by auto
  next
    case False
    obtain z where z: "link_event maximum left rest y = Some z" "links_ok n maximum R z" "extends y z" "\<forall>x \<in> set rest. joined maximum (left, x) z"
      using Cons.IH [OF y(2) Cons.prems(2)] Cons.prems(3) by auto
    then show ?thesis using y get False joined_mono [OF y(4) z(3)] extends_trans [OF y(3) z(3)] by auto
  qed
qed (simp add: extends_refl)

lemma link_indexes_joins:
  assumes "links_ok n maximum R adjacency" "\<forall>x \<in> set is. x < n" "\<forall>x \<in> set is. \<forall>y \<in> set is. x \<noteq> y \<longrightarrow> R x y"
  shows "\<exists>adjacency'. link_indexes maximum is adjacency = Some adjacency' \<and> links_ok n maximum R adjacency' \<and>
    extends adjacency adjacency' \<and> (\<forall>x \<in> set is. \<forall>y \<in> set is. x \<noteq> y \<longrightarrow> joined maximum (x, y) adjacency')"
  using assms
proof (induction "is" arbitrary: adjacency)
  case (Cons i "is")
  obtain y where y: "link_event maximum i is adjacency = Some y" "links_ok n maximum R y" "extends adjacency y" "\<forall>x \<in> set is. joined maximum (i, x) y"
    using link_event_joins [OF Cons.prems(1), of i "is"] Cons.prems(2,3) by auto
  obtain z where z: "link_indexes maximum is y = Some z" "links_ok n maximum R z" "extends y z"
    "\<forall>x \<in> set is. \<forall>y \<in> set is. x \<noteq> y \<longrightarrow> joined maximum (x, y) z"
    using Cons.IH [OF y(2)] Cons.prems(2,3) by auto
  have sym: "joined maximum (a, b) z \<Longrightarrow> joined maximum (b, a) z" for a b by (auto simp: joined_def)
  have "\<forall>x \<in> set is. joined maximum (i, x) z" using y(4) z(3) joined_mono by blast
  then have "\<forall>x \<in> set (i # is). \<forall>y \<in> set (i # is). x \<noteq> y \<longrightarrow> joined maximum (x, y) z" using z(4) sym by auto
  then show ?case using y(1) z(1,2) extends_trans [OF y(3) z(3)] by auto
qed (simp add: extends_refl)

section \<open>Groups\<close>

definition object_positions :: "bottleneck_observation list \<Rightarrow> nat \<Rightarrow> nat list" where
  "object_positions observations ob = filter (\<lambda>i. bo_object_id (observations ! i) = ob) [0..<length observations]"

lemma object_groups_values: "vs \<in> set (bt_values (object_groups observations)) \<longleftrightarrow>
    (\<exists>i < length observations. vs = object_positions observations (bo_object_id (observations ! i)))"
proof -
  have groups: "object_groups observations = fold (\<lambda>i. bt_push (bo_object_id (observations ! i)) i) [0..<length observations] []"
    by (simp add: object_groups_def indexed_map fold_map comp_def)
  have entry: "(k, vs) \<in> set (object_groups observations) \<longleftrightarrow> vs = object_positions observations k \<and>
      (\<exists>i < length observations. bo_object_id (observations ! i) = k)" for k
    unfolding groups fold_push_in [where val = "\<lambda>i. i"] object_positions_def by (simp add: Bex_def)
  have "vs \<in> set (bt_values (object_groups observations)) \<longleftrightarrow> (\<exists>k. (k, vs) \<in> set (object_groups observations))"
    by (force simp: bt_values_def)
  then show ?thesis unfolding entry by blast
qed

definition event_touches :: "bottleneck_observation \<Rightarrow> nat \<Rightarrow> bool" where
  "event_touches ob v \<longleftrightarrow> bo_source_event_id ob = v \<or> bo_target_event_id ob = v"

definition event_memberships :: "bottleneck_observation list \<Rightarrow> (nat \<times> nat) list" where
  "event_memberships observations = concat (map (\<lambda>(i, ob). (bo_source_event_id ob, i) #
     (if bo_target_event_id ob \<noteq> bo_source_event_id ob then [(bo_target_event_id ob, i)] else [])) (indexed observations))"

lemma event_groups_pairs: "event_groups observations = fold (\<lambda>x. bt_push (fst x) (snd x)) (event_memberships observations) []"
proof -
  have "fold (\<lambda>(i, ob) m. let m = bt_push (bo_source_event_id ob) i m in
     if bo_target_event_id ob \<noteq> bo_source_event_id ob then bt_push (bo_target_event_id ob) i m else m) xs m =
    fold (\<lambda>x. bt_push (fst x) (snd x)) (concat (map (\<lambda>(i, ob). (bo_source_event_id ob, i) #
     (if bo_target_event_id ob \<noteq> bo_source_event_id ob then [(bo_target_event_id ob, i)] else [])) xs)) m" for xs m
    by (induction xs arbitrary: m) (auto simp: Let_def)
  then show ?thesis by (simp add: event_groups_def event_memberships_def)
qed

lemma event_memberships_in: "(v, i) \<in> set (event_memberships observations) \<longleftrightarrow> i < length observations \<and> event_touches (observations ! i) v"
  by (force simp: event_memberships_def event_touches_def set_indexed split: if_splits)

lemma event_groups_values:
  "vs \<in> set (bt_values (event_groups observations)) \<Longrightarrow> \<exists>v. set vs = {i. i < length observations \<and> event_touches (observations ! i) v}"
  "i < length observations \<Longrightarrow> event_touches (observations ! i) v \<Longrightarrow> \<exists>vs \<in> set (bt_values (event_groups observations)).
     set vs = {i. i < length observations \<and> event_touches (observations ! i) v}"
proof -
  have set: "set (map snd (filter (\<lambda>x. fst x = v) (event_memberships observations))) = {i. i < length observations \<and> event_touches (observations ! i) v}" for v
    using event_memberships_in [of v _ observations] by force
  show "\<exists>v. set vs = {i. i < length observations \<and> event_touches (observations ! i) v}" if "vs \<in> set (bt_values (event_groups observations))"
    using that set unfolding bt_values_def event_groups_pairs by (auto simp: fold_push_in)
  show "\<exists>vs \<in> set (bt_values (event_groups observations)). set vs = {i. i < length observations \<and> event_touches (observations ! i) v}"
    if "i < length observations" "event_touches (observations ! i) v"
  proof -
    have "\<exists>x \<in> set (event_memberships observations). fst x = v" using that event_memberships_in [of v i observations] by (intro bexI [of _ "(v, i)"]) simp_all
    then have "(v, map snd (filter (\<lambda>x. fst x = v) (event_memberships observations))) \<in> set (event_groups observations)"
      unfolding event_groups_pairs fold_push_in by simp
    then have "map snd (filter (\<lambda>x. fst x = v) (event_memberships observations)) \<in> set (bt_values (event_groups observations))"
      unfolding bt_values_def set_map by (rule image_eqI [rotated]) simp
    then show ?thesis using set [of v] by blast
  qed
qed

section \<open>The neighbours\<close>

text \<open>Two observations are related when one follows the other on an object, in order of time, or when they share an event.\<close>

definition next_on_object :: "bottleneck_observation list \<Rightarrow> nat \<Rightarrow> nat \<Rightarrow> bool" where
  "next_on_object observations i j \<longleftrightarrow>
     (\<exists>ob. (i, j) \<in> set (windows2 (sort_key (object_order observations) (object_positions observations ob))))"

definition related :: "bottleneck_observation list \<Rightarrow> nat \<Rightarrow> nat \<Rightarrow> bool" where
  "related observations i j \<longleftrightarrow> i \<noteq> j \<and> (next_on_object observations i j \<or> next_on_object observations j i \<or>
     (\<exists>v. event_touches (observations ! i) v \<and> event_touches (observations ! j) v))"

lemma related_sym: "related observations i j \<Longrightarrow> related observations j i"
  by (auto simp: related_def)

lemma positions_less: "i \<in> set (object_positions observations ob) \<Longrightarrow> i < length observations"
  by (simp add: object_positions_def)

lemma next_less: "next_on_object observations i j \<Longrightarrow> i < length observations \<and> j < length observations"
  unfolding next_on_object_def using windows2_set_subset positions_less by (metis set_sort)

lemma windows2_distinct: "distinct xs \<Longrightarrow> (a, b) \<in> set (windows2 xs) \<Longrightarrow> a \<noteq> b"
  by (induction xs rule: windows2.induct) auto

lemma next_related: "next_on_object observations i j \<Longrightarrow> related observations i j"
  unfolding related_def by (auto simp: next_on_object_def object_positions_def dest!: windows2_distinct [rotated])

lemma link_objects_joins:
  assumes "links_ok (length observations) maximum (related observations) adjacency"
  shows "\<exists>adjacency'. link_objects observations maximum adjacency = Some adjacency' \<and> links_ok (length observations) maximum (related observations) adjacency' \<and>
    extends adjacency adjacency' \<and> (\<forall>i j. next_on_object observations i j \<longrightarrow> joined maximum (i, j) adjacency')"
proof -
  let ?n = "length observations" and ?R = "related observations"
  let ?pairs = "\<lambda>vs. windows2 (sort_key (object_order observations) vs)"
  have inner: "\<exists>a'. fold_opt (\<lambda>(a, b). connect maximum a b) (?pairs vs) a = Some a' \<and> links_ok ?n maximum ?R a' \<and> extends a a' \<and>
      (\<forall>p \<in> set (?pairs vs). joined maximum p a')"
    if "vs \<in> set (bt_values (object_groups observations))" "links_ok ?n maximum ?R a" for vs a
  proof (rule fold_opt_collect [where I = "links_ok ?n maximum ?R" and le = extends and Q = "joined maximum"])
    fix x s
    assume x: "x \<in> set (?pairs vs)" and s: "links_ok ?n maximum ?R s"
    obtain i j where ij: "x = (i, j)" by force
    have "\<exists>ob. vs = object_positions observations ob" using that(1) unfolding object_groups_values by blast
    then obtain ob where "vs = object_positions observations ob" ..
    then have "next_on_object observations i j" using x ij by (auto simp: next_on_object_def)
    then show "\<exists>s'. (case x of (a, b) \<Rightarrow> connect maximum a b) s = Some s' \<and> links_ok ?n maximum ?R s' \<and> extends s s' \<and> joined maximum x s'"
      using connect_joins [OF s, of i j] next_less next_related related_sym ij by auto
  qed (use that(2) in \<open>auto intro: joined_mono extends_refl extends_trans\<close>)
  have "\<exists>a'. link_objects observations maximum adjacency = Some a' \<and> links_ok ?n maximum ?R a' \<and> extends adjacency a' \<and>
      (\<forall>vs \<in> set (bt_values (object_groups observations)). \<forall>p \<in> set (?pairs vs). joined maximum p a')"
    unfolding link_objects_def
    by (rule fold_opt_collect [where I = "links_ok ?n maximum ?R" and le = extends and Q = "\<lambda>vs a. \<forall>p \<in> set (?pairs vs). joined maximum p a"])
      (use assms inner in \<open>auto intro: joined_mono extends_refl extends_trans\<close>)
  then obtain a' where a': "link_objects observations maximum adjacency = Some a'" "links_ok ?n maximum ?R a'" "extends adjacency a'"
    "\<forall>vs \<in> set (bt_values (object_groups observations)). \<forall>p \<in> set (?pairs vs). joined maximum p a'" by blast
  have "joined maximum (i, j) a'" if "next_on_object observations i j" for i j
  proof -
    have "\<exists>ob. (i, j) \<in> set (?pairs (object_positions observations ob))" using that unfolding next_on_object_def .
    then obtain ob where ob: "(i, j) \<in> set (?pairs (object_positions observations ob))" ..
    then have "i \<in> set (object_positions observations ob)" using windows2_set_subset by (metis set_sort)
    then have "object_positions observations ob \<in> set (bt_values (object_groups observations))"
      unfolding object_groups_values by (auto simp: object_positions_def)
    then show ?thesis using a'(4) ob by blast
  qed
  then show ?thesis using a' by blast
qed

lemma link_events_joins:
  assumes "links_ok (length observations) maximum (related observations) adjacency"
  shows "\<exists>adjacency'. link_events observations maximum adjacency = Some adjacency' \<and> links_ok (length observations) maximum (related observations) adjacency' \<and>
    extends adjacency adjacency' \<and> (\<forall>i < length observations. \<forall>j < length observations. \<forall>v. i \<noteq> j \<longrightarrow>
      event_touches (observations ! i) v \<longrightarrow> event_touches (observations ! j) v \<longrightarrow> joined maximum (i, j) adjacency')"
proof -
  let ?n = "length observations" and ?R = "related observations"
  let ?Q = "\<lambda>vs a. \<forall>x \<in> set vs. \<forall>y \<in> set vs. x \<noteq> y \<longrightarrow> joined maximum (x, y) a"
  have "\<exists>a'. link_events observations maximum adjacency = Some a' \<and> links_ok ?n maximum ?R a' \<and> extends adjacency a' \<and>
      (\<forall>vs \<in> set (bt_values (event_groups observations)). ?Q vs a')"
    unfolding link_events_def
  proof (rule fold_opt_collect [where I = "links_ok ?n maximum ?R" and le = extends and Q = ?Q])
    fix vs s
    assume vs: "vs \<in> set (bt_values (event_groups observations))" and s: "links_ok ?n maximum ?R s"
    obtain v where v: "set vs = {i. i < ?n \<and> event_touches (observations ! i) v}" using event_groups_values(1) [OF vs] by blast
    have "\<forall>x \<in> set (remdups_adj (sort vs)). x < ?n" "\<forall>x \<in> set (remdups_adj (sort vs)). \<forall>y \<in> set (remdups_adj (sort vs)). x \<noteq> y \<longrightarrow> ?R x y"
      using v by (auto simp: related_def)
    from link_indexes_joins [OF s this]
    show "\<exists>s'. link_indexes maximum (remdups_adj (sort vs)) s = Some s' \<and> links_ok ?n maximum ?R s' \<and> extends s s' \<and> ?Q vs s'" by simp
  qed (use assms in \<open>auto intro: joined_mono extends_refl extends_trans\<close>)
  then obtain a' where a': "link_events observations maximum adjacency = Some a'" "links_ok ?n maximum ?R a'" "extends adjacency a'"
    "\<forall>vs \<in> set (bt_values (event_groups observations)). ?Q vs a'" by blast
  have "joined maximum (i, j) a'" if "i < ?n" "j < ?n" "i \<noteq> j" "event_touches (observations ! i) v" "event_touches (observations ! j) v" for i j v
  proof -
    note found = event_groups_values(2) [OF that(1,4)]
    obtain vs where "vs \<in> set (bt_values (event_groups observations))" "set vs = {i. i < ?n \<and> event_touches (observations ! i) v}"
      using found by blast
    then show ?thesis using a'(4) that by blast
  qed
  then show ?thesis using a' by blast
qed

definition neighbors_ok :: "bottleneck_observation list \<Rightarrow> nat \<Rightarrow> nat \<Rightarrow> nat list \<Rightarrow> bool" where
  "neighbors_ok observations maximum i ns \<longleftrightarrow> sorted_wrt (<) ns \<and> length ns \<le> maximum \<and>
     set ns \<subseteq> {j. j < length observations \<and> related observations i j} \<and>
     (length observations \<le> maximum \<longrightarrow> set ns = {j. j < length observations \<and> related observations i j})"

lemma adjacency_correct:
  "\<exists>adjacency. adjacency_of observations maximum = Some adjacency \<and> length adjacency = length observations \<and>
    (\<forall>i < length observations. neighbors_ok observations maximum i (adjacency ! i))"
proof -
  let ?n = "length observations" and ?R = "related observations"
  have start: "links_ok ?n maximum ?R (replicate ?n [])" by (simp add: links_ok_def)
  obtain a where a: "link_objects observations maximum (replicate ?n []) = Some a" "links_ok ?n maximum ?R a"
    "\<forall>i j. next_on_object observations i j \<longrightarrow> joined maximum (i, j) a" using link_objects_joins [OF start] by blast
  obtain b where b: "link_events observations maximum a = Some b" "links_ok ?n maximum ?R b" "extends a b"
    "\<forall>i < ?n. \<forall>j < ?n. \<forall>v. i \<noteq> j \<longrightarrow> event_touches (observations ! i) v \<longrightarrow> event_touches (observations ! j) v \<longrightarrow> joined maximum (i, j) b"
    using link_events_joins [OF a(2)] by blast
  have len: "length b = ?n" using b(2) by (simp add: links_ok_def)
  have joined: "j \<in> set (b ! i)" if "?n \<le> maximum" "i < ?n" "j < ?n" "?R i j" for i j
  proof -
    have "joined maximum (i, j) b \<or> joined maximum (j, i) b"
      using that(2-4) a(3) b(4) joined_mono [OF _ b(3)] unfolding related_def by blast
    then show ?thesis using that len by (auto simp: joined_def related_def)
  qed
  have "neighbors_ok observations maximum i (remdups_adj (sort (b ! i)))" if "i < ?n" for i
  proof -
    have ns: "distinct (b ! i)" "length (b ! i) \<le> maximum" "\<forall>j \<in> set (b ! i). j < ?n \<and> ?R i j"
      using b(2) that by (auto simp: links_ok_def)
    have "remdups_adj (sort (b ! i)) = sort (b ! i)" using ns(1) by (simp add: remdups_adj_distinct)
    then show ?thesis using ns joined [OF _ that] by (auto simp: neighbors_ok_def strict_sorted_iff)
  qed
  then show ?thesis using a(1) b(1) len by (auto simp: adjacency_of_def)
qed

end
