(* ===== verification/GnnTotal.thy ===== *)
theory GnnTotal
  imports GnnGraph
begin

text \<open>
  Every index of the detector stays in range: the shapes of graph, weights, activations, gradients and optimiser state, kept by each
  pass, and the totality of fitting and scoring that follows.
\<close>

section \<open>The flattened graph\<close>

lemma flatten_steps: "fold flatten_step adjacency ([0], []) =
    (map (\<lambda>i. length (concat (take i adjacency))) [0..<Suc (length adjacency)], concat adjacency)"
proof (induction adjacency rule: rev_induct)
  case (snoc ns adjacency)
  have "map (\<lambda>i. length (concat (take i (adjacency @ [ns])))) [0..<Suc (length adjacency)] =
    map (\<lambda>i. length (concat (take i adjacency))) [0..<Suc (length adjacency)]" by simp
  then show ?case using snoc by (simp add: flatten_step_def)
qed simp

lemma slice_concat:
  assumes "i < length xss"
  shows "take (length (concat (take (Suc i) xss)) - length (concat (take i xss))) (drop (length (concat (take i xss))) (concat xss)) = xss ! i"
proof -
  have split: "xss = take i xss @ xss ! i # drop (Suc i) xss" using assms by (rule id_take_nth_drop)
  have whole: "concat xss = concat (take i xss) @ xss ! i @ concat (drop (Suc i) xss)" by (subst split) simp
  have upto: "concat (take (Suc i) xss) = concat (take i xss) @ xss ! i" using assms by (simp add: take_Suc_conv_app_nth)
  show ?thesis unfolding upto whole by simp
qed

definition flat :: "nat list list \<Rightarrow> graph \<Rightarrow> bool" where
  "flat adjacency g \<longleftrightarrow> gg_offsets g = map (\<lambda>i. length (concat (take i adjacency))) [0..<Suc (length adjacency)] \<and> gg_neighbors g = concat adjacency"

lemma flat_neighbors:
  assumes "flat adjacency g" "i < length adjacency"
  shows "neighbors_of g i = Some (adjacency ! i)"
proof -
  let ?o = "\<lambda>i. length (concat (take i adjacency))"
  have offsets: "nth_opt (gg_offsets g) k = Some (?o k)" if "k \<le> length adjacency" for k
    using assms(1) that by (simp add: flat_def nth_opt_def del: upt_Suc)
  have "concat adjacency = concat (take (Suc i) adjacency) @ concat (drop (Suc i) adjacency)"
    by (metis append_take_drop_id concat_append)
  then have "?o (Suc i) \<le> length (concat adjacency)" by (metis le_add1 length_append)
  moreover have "?o i \<le> ?o (Suc i)" using assms(2) by (simp add: take_Suc_conv_app_nth)
  ultimately have "slice_opt (concat adjacency) (?o i) (?o (Suc i)) = Some (adjacency ! i)"
    using slice_concat [OF assms(2)] by (simp only: slice_opt_in)
  then show ?thesis using assms offsets [of i] offsets [of "Suc i"] by (simp add: neighbors_of_def flat_def)
qed

definition graph_ok :: "nat \<Rightarrow> nat \<Rightarrow> graph \<Rightarrow> bool" where
  "graph_ok n f g \<longleftrightarrow> length (gg_offsets g) = n + 1 \<and> (\<forall>i < n. \<exists>ns. neighbors_of g i = Some ns \<and> (\<forall>j \<in> set ns. j < n)) \<and>
     gg_feature_dimensions g = f \<and> length (gg_features g) = n * f \<and> length (gg_neighbor_features g) = n * f"

lemma graph_ok_nodes: "graph_ok n f g \<Longrightarrow> node_count g = n"
  by (simp add: graph_ok_def node_count_def)

section \<open>Loops over lists\<close>

lemma fold_opt_count:
  assumes "I 0 s" "\<And>x k s. x \<in> set xs \<Longrightarrow> I k s \<Longrightarrow> \<exists>s'. f x s = Some s' \<and> I (Suc k) s'"
  shows "\<exists>s'. fold_opt f xs s = Some s' \<and> I (length xs) s'"
  using assms
proof (induction xs arbitrary: I s)
  case (Cons x xs)
  obtain s1 where s1: "f x s = Some s1" "I (Suc 0) s1" using Cons.prems(1) Cons.prems(2) [of x 0 s] by auto
  have "\<exists>s'. fold_opt f xs s1 = Some s' \<and> (\<lambda>k. I (Suc k)) (length xs) s'"
    by (rule Cons.IH [where I = "\<lambda>k. I (Suc k)"]) (use s1(2) Cons.prems(2) in auto)
  then show ?case using s1(1) by simp
qed simp

lemma concat_rows: "(\<forall>x \<in> set xs. length x = h) \<Longrightarrow> length (concat xs) = length xs * h"
  by (induction xs) auto

lemma those_length:
  assumes "\<And>x. x \<in> set xs \<Longrightarrow> \<exists>y. f x = Some y \<and> P y"
  shows "\<exists>ys. those (map f xs) = Some ys \<and> length ys = length xs \<and> (\<forall>y \<in> set ys. P y)"
proof -
  obtain ys where "those (map f xs) = Some ys" "list_all2 (\<lambda>_. P) xs ys" using those_list_all2 [of xs f "\<lambda>_. P"] assms by blast
  then show ?thesis by (auto simp: list_all2_conv_all_nth in_set_conv_nth)
qed

section \<open>Features\<close>

lemma add_token_total:
  assumes "16 \<le> f" "length row = f"
  shows "\<exists>row'. add_token f scale token row = Some row' \<and> length row' = f"
proof -
  have "unat (fnv1a token) mod (f - 9) < f - 9" using assms(1) by simp
  then have "9 + unat (fnv1a token) mod (f - 9) < length row" using assms by linarith
  then show ?thesis using assms by (simp add: add_token_def hash_feature_offset_def Let_def update_at_def)
qed

lemma feature_row_total:
  assumes "16 \<le> gq_feature_dimensions r" "index + 1 < length (gg_offsets g)"
  shows "\<exists>row. feature_row pl r g (index, ob) = Some row \<and> length row = gq_feature_dimensions r"
proof -
  let ?f = "gq_feature_dimensions r"
  let ?dense = "indexed (dense_features pl (gq_maximum_neighbors r) ob (gg_offsets g ! (index + 1) - gg_offsets g ! index))"
  let ?tokens = "feature_tokens pl (gq_resource_attribute r) ob"
  have "\<exists>row. fold_opt (\<lambda>(i, v). update_at i (\<lambda>_. v)) ?dense (replicate ?f f64_zero) = Some row \<and> length row = ?f"
    by (rule fold_opt_keeps) (use assms(1) in \<open>auto simp: set_indexed dense_features_def Let_def update_at_def\<close>)
  then obtain row where row: "fold_opt (\<lambda>(i, v). update_at i (\<lambda>_. v)) ?dense (replicate ?f f64_zero) = Some row" "length row = ?f" by blast
  have "\<exists>row'. fold_opt (add_token ?f scale) ?tokens row = Some row' \<and> length row' = ?f" for scale
    by (rule fold_opt_keeps) (use row(2) assms(1) add_token_total in auto)
  then show ?thesis using assms(2) row(1) by (simp add: feature_row_def Let_def)
qed

lemma build_features_total:
  assumes "16 \<le> gq_feature_dimensions r" "length (gg_offsets g) = length observations + 1"
  shows "\<exists>features. build_features pl r observations g = Some features \<and> length features = length observations * gq_feature_dimensions r"
proof -
  have "\<exists>rows. those (map (feature_row pl r g) (indexed observations)) = Some rows \<and> length rows = length (indexed observations) \<and>
      (\<forall>row \<in> set rows. length row = gq_feature_dimensions r)"
    by (rule those_length) (use assms in \<open>auto simp: set_indexed intro!: feature_row_total\<close>)
  then obtain rows where "those (map (feature_row pl r g) (indexed observations)) = Some rows" "length rows = length observations"
    "\<forall>row \<in> set rows. length row = gq_feature_dimensions r" by auto
  then show ?thesis using concat_rows [of rows "gq_feature_dimensions r"] by (simp add: build_features_def del: length_concat)
qed

lemma mean_step_total:
  assumes "length vs = n * d" "node < n" "neighbor < n" "length means = n * d"
  shows "\<exists>means'. mean_step vs d node scale neighbor means = Some means' \<and> length means' = n * d"
  unfolding mean_step_def
  by (rule fold_opt_keeps [where I = "\<lambda>means. length means = n * d"]) (use assms cell_less in \<open>auto simp: update_at_def\<close>)

lemma neighbor_means_total:
  assumes "length (gg_offsets g) = n + 1" "\<forall>i < n. \<exists>ns. neighbors_of g i = Some ns \<and> (\<forall>j \<in> set ns. j < n)" "length vs = n * d"
  shows "\<exists>means. neighbor_means g vs d = Some means \<and> length means = n * d"
proof -
  have nodes: "length (gg_offsets g) - 1 = n" using assms(1) by simp
  show ?thesis unfolding neighbor_means_def Let_def nodes
  proof (rule fold_opt_keeps)
    fix node means
    assume node: "node \<in> set [0..<n]" and len: "length (means :: f32 list) = n * d"
    then obtain ns where ns: "neighbors_of g node = Some ns" "\<forall>j \<in> set ns. j < n" using assms(2) by auto
    have "\<exists>means'. fold_opt (mean_step vs d node scale) ns means = Some means' \<and> length means' = n * d" for scale
      by (rule fold_opt_keeps) (use node len ns(2) assms(3) mean_step_total in auto)
    then show "\<exists>means'. Option.bind (neighbors_of g node) (\<lambda>ns. if ns = [] then Some means
        else fold_opt (mean_step vs d node (f32_div f64_one (f32_of_nat (length ns)))) ns means) = Some means' \<and> length means' = n * d"
      using ns(1) len by simp
  qed simp
qed

lemma build_graph_total:
  assumes "16 \<le> gq_feature_dimensions r"
  shows "\<exists>g adjacency. build_graph pl observations r = Some g \<and> graph_ok (length observations) (gq_feature_dimensions r) g \<and>
    adjacency_of observations (gq_maximum_neighbors r) = Some adjacency \<and> length adjacency = length observations \<and> flat adjacency g \<and>
    gg_maximum_degree g = fold max (map length adjacency) 0"
proof -
  let ?n = "length observations" and ?f = "gq_feature_dimensions r"
  obtain adjacency where adj: "adjacency_of observations (gq_maximum_neighbors r) = Some adjacency" "length adjacency = ?n"
    "\<forall>i < ?n. neighbors_ok observations (gq_maximum_neighbors r) i (adjacency ! i)" using adjacency_correct by blast
  let ?g = "\<lambda>fs ns. \<lparr>gg_features = fs, gg_neighbor_features = ns, gg_feature_dimensions = ?f,
    gg_offsets = map (\<lambda>i. length (concat (take i adjacency))) [0..<Suc (length adjacency)], gg_neighbors = concat adjacency,
    gg_maximum_degree = fold max (map length adjacency) 0\<rparr>"
  have flat: "flat adjacency (?g fs ns)" for fs ns by (simp add: flat_def)
  have neighbors: "\<forall>i < ?n. \<exists>vs. neighbors_of (?g fs ns) i = Some vs \<and> (\<forall>j \<in> set vs. j < ?n)" for fs ns
    using flat_neighbors [OF flat] adj(2,3) by (auto simp: neighbors_ok_def)
  have offsets: "length (gg_offsets (?g fs ns)) = ?n + 1" for fs ns using adj(2) by simp
  obtain fs where fs: "build_features pl r observations (?g [] []) = Some fs" "length fs = ?n * ?f"
    using build_features_total [OF assms offsets] by blast
  obtain ns where ns: "neighbor_means (?g fs []) fs ?f = Some ns" "length ns = ?n * ?f"
    using neighbor_means_total [OF offsets neighbors fs(2)] by blast
  have "build_graph pl observations r = Some (?g fs ns)" using adj(1) fs(1) ns(1) by (simp add: build_graph_def flatten_steps del: upt_Suc)
  moreover have "graph_ok ?n ?f (?g fs ns)" using neighbors [of fs ns] offsets [of fs ns] fs(2) ns(2) unfolding graph_ok_def by simp
  ultimately show ?thesis using adj(1,2) flat [of fs ns] by (intro exI [of _ "?g fs ns"] exI [of _ adjacency]) simp
qed

section \<open>The forward pass\<close>

definition weights_ok :: "nat \<Rightarrow> nat \<Rightarrow> gnn_weights \<Rightarrow> bool" where
  "weights_ok f h w \<longleftrightarrow> length (gw_first_self w) = f * h \<and> length (gw_first_neighbor w) = f * h \<and> length (gw_first_bias w) = h \<and>
     length (gw_second_self w) = h * h \<and> length (gw_second_neighbor w) = h * h \<and> length (gw_second_bias w) = h \<and> length (gw_output w) = h"

lemma weights_ok_output: "weights_ok f h w \<Longrightarrow> length (gw_output w) = h"
  by (simp add: weights_ok_def)

lemma mac_in [simp]: "i < length xs \<Longrightarrow> j < length ys \<Longrightarrow> mac xs i ys j v = Some (f32_add v (f32_mul (xs ! i) (ys ! j)))"
  by (simp add: mac_def)

lemma layer_value_total:
  assumes "length bias = h" "length xs = n * d" "length ws = d * h" "length ys = n * d" "length vs = d * h" "node < n" "out < h"
  shows "\<exists>v. layer_value bias xs ws ys vs d h node out = Some v"
proof -
  have "\<exists>v. fold_opt (\<lambda>i v. Option.bind (mac xs (node * d + i) ws (i * h + out) v) (mac ys (node * d + i) vs (i * h + out))) [0..<d] s = Some v \<and> True" for s
    by (rule fold_opt_keeps) (use assms cell_less in auto)
  then show ?thesis using assms(1,7) by (simp add: layer_value_def)
qed

definition pass_ok :: "nat \<Rightarrow> nat \<Rightarrow> forward_pass \<Rightarrow> bool" where
  "pass_ok n h p \<longleftrightarrow> length (fp_first p) = n * h \<and> length (fp_first_neighbor p) = n * h \<and> length (fp_second p) = n * h \<and> length (fp_probabilities p) = n"

lemma first_layer_total:
  assumes "graph_ok n f g" "weights_ok f h w"
  shows "\<exists>first. first_layer pl g w h = Some first \<and> length first = n * h"
proof -
  have shape: "node_count g = n" "gg_feature_dimensions g = f" "length (gg_features g) = n * f" "length (gg_neighbor_features g) = n * f"
    using assms(1) by (auto simp: graph_ok_def node_count_def)
  let ?cell = "\<lambda>(node, out). map_option (pl_tanh pl) (layer_value (gw_first_bias w) (gg_features g) (gw_first_self w) (gg_neighbor_features g)
    (gw_first_neighbor w) f h node out)"
  have "\<exists>ys. those (map ?cell (List.product [0..<n] [0..<h])) = Some ys \<and> length ys = length (List.product [0..<n] [0..<h]) \<and> (\<forall>y \<in> set ys. True)"
  proof (rule those_length)
    fix x
    assume "x \<in> set (List.product [0..<n] [0..<h])"
    then obtain node out where x: "x = (node, out)" "node < n" "out < h" by auto
    have "\<exists>v. layer_value (gw_first_bias w) (gg_features g) (gw_first_self w) (gg_neighbor_features g) (gw_first_neighbor w) f h node out = Some v"
      by (rule layer_value_total [where n = n]) (use assms(2) x shape in \<open>auto simp: weights_ok_def\<close>)
    then show "\<exists>y. ?cell x = Some y \<and> True" using x by auto
  qed
  then show ?thesis by (simp add: first_layer_def shape)
qed

lemma second_node_total:
  assumes "weights_ok f h w" "length first = n * h" "length first_neighbor = n * h" "node < n"
  shows "\<exists>row. second_node pl w first first_neighbor h node = Some row \<and> length (fst row) = h"
proof -
  have "\<exists>s'. second_node pl w first first_neighbor h node = Some s' \<and> length (fst s') = length [0..<h]"
    unfolding second_node_def
  proof (rule fold_opt_count [where I = "\<lambda>k s. length (fst s) = k"])
    fix out k and s :: "f32 list \<times> f32"
    assume out: "out \<in> set [0..<h]" and k: "length (fst s) = k"
    have layer: "\<exists>v. layer_value (gw_second_bias w) first (gw_second_self w) first_neighbor (gw_second_neighbor w) h h node out = Some v"
      by (rule layer_value_total [where n = n]) (use assms out in \<open>auto simp: weights_ok_def\<close>)
    have "out < length (gw_output w)" using assms(1) out by (simp add: weights_ok_def)
    then show "\<exists>s'. (case s of (row, logit) \<Rightarrow> Option.bind (layer_value (gw_second_bias w) first (gw_second_self w) first_neighbor (gw_second_neighbor w) h h node out)
        (\<lambda>v. Option.bind (nth_opt (gw_output w) out) (\<lambda>weight. let activation = pl_tanh pl v in Some (row @ [activation], f32_add logit (f32_mul activation weight))))) = Some s' \<and> length (fst s') = Suc k"
      using layer k by (cases s) (auto simp: Let_def)
  qed simp
  then show ?thesis by simp
qed

lemma forward_total:
  assumes "graph_ok n f g" "weights_ok f h w"
  shows "\<exists>p. forward pl g w h = Some p \<and> pass_ok n h p"
proof -
  obtain first where first: "first_layer pl g w h = Some first" "length first = n * h" using first_layer_total [OF assms] by blast
  have "\<exists>fn. neighbor_means g first h = Some fn \<and> length fn = n * h"
    by (rule neighbor_means_total) (use assms(1) first(2) in \<open>auto simp: graph_ok_def\<close>)
  then obtain fn where fn: "neighbor_means g first h = Some fn" "length fn = n * h" by blast
  have "\<exists>rows. those (map (second_node pl w first fn h) [0..<n]) = Some rows \<and> length rows = length [0..<n] \<and> (\<forall>row \<in> set rows. length (fst row) = h)"
    by (rule those_length) (use second_node_total [OF assms(2) first(2) fn(2)] in auto)
  then obtain rows where rows: "those (map (second_node pl w first fn h) [0..<n]) = Some rows" "length rows = n" "\<forall>row \<in> set rows. length (fst row) = h" by auto
  have "length (concat (map fst rows)) = n * h" using concat_rows [of "map fst rows" h] rows(2,3) by (simp del: length_concat)
  then show ?thesis using first fn rows graph_ok_nodes [OF assms(1)] by (simp add: forward_def pass_ok_def del: length_concat)
qed

section \<open>The backward pass\<close>

lemma accumulate_in [simp]: "i < length ys \<Longrightarrow> j < length xs \<Longrightarrow> accumulate i xs j d ys = Some (ys[i := f32_add (ys ! i) (f32_mul (xs ! j) d)])"
  by (simp add: accumulate_def update_at_def)

lemma update_at_in: "i < length xs \<Longrightarrow> update_at i f xs = Some (xs[i := f (xs ! i)])"
  by (simp add: update_at_def)

lemma initial_gradients_ok: "weights_ok f h w \<Longrightarrow> weights_ok f h (initial_gradients w l2)"
  by (simp add: weights_ok_def initial_gradients_def Let_def)

lemma output_gradient_total:
  assumes "weights_ok f h w" "pass_ok n h p" "node < n" "out < h" "weights_ok f h (fst s)" "length (snd s) = n * h"
  shows "\<exists>s'. output_gradient pl w p logit_delta node out s = Some s' \<and> weights_ok f h (fst s') \<and> length (snd s') = n * h"
proof -
  have "node * h + out < n * h" using assms(3,4) by (rule cell_less)
  then show ?thesis using assms by (cases s) (simp add: output_gradient_def weights_ok_def pass_ok_def update_at_in Let_def)
qed

lemma node_gradient_total:
  assumes "weights_ok f h w" "pass_ok n h p" "length labels = n" "node < n" "weights_ok f h (fst s)" "length (snd s) = n * h"
  shows "\<exists>s'. node_gradient pl w p labels positive_weight normalization node s = Some s' \<and> weights_ok f h (fst s') \<and> length (snd s') = n * h"
proof -
  have "\<exists>s'. fold_opt (output_gradient pl w p delta node) [0..<length (gw_output w)] t = Some s' \<and> weights_ok f h (fst s') \<and> length (snd s') = n * h"
    if "weights_ok f h (fst t)" "length (snd t) = n * h" for delta t
    by (rule fold_opt_keeps) (use assms(1-4) that output_gradient_total in \<open>auto simp: weights_ok_output\<close>)
  moreover have "weights_ok f h ((fst s)\<lparr>gw_output_bias := b\<rparr>)" for b using assms(5) by (simp add: weights_ok_def)
  ultimately show ?thesis using assms by (cases s) (simp add: node_gradient_def pass_ok_def Let_def)
qed

definition delta_shapes :: "nat \<Rightarrow> nat \<Rightarrow> nat \<Rightarrow> deltas \<Rightarrow> bool" where
  "delta_shapes n f h d \<longleftrightarrow> weights_ok f h (dl_gradients d) \<and> length (dl_first d) = n * h \<and> length (dl_first_neighbor d) = n * h"

lemma hidden_gradient_total:
  assumes "weights_ok f h w" "pass_ok n h p" "node < n" "out < h" "i < h" "delta_shapes n f h d"
  shows "\<exists>d'. hidden_gradient w p node out delta i d = Some d' \<and> delta_shapes n f h d'"
proof -
  have "i * h + out < h * h" "node * h + i < n * h" using assms(3-5) by (auto intro: cell_less)
  then show ?thesis using assms(1,2,6) by (simp add: hidden_gradient_def weights_ok_def pass_ok_def delta_shapes_def Let_def)
qed

lemma second_gradient_total:
  assumes "weights_ok f h w" "pass_ok n h p" "length second_delta = n * h" "node < n" "out < h" "delta_shapes n f h d"
  shows "\<exists>d'. second_gradient w p second_delta (node, out) d = Some d' \<and> delta_shapes n f h d'"
proof -
  have cell: "node * h + out < n * h" using assms(4,5) by (rule cell_less)
  have "\<exists>d'. fold_opt (hidden_gradient w p node out delta) [0..<h] e = Some d' \<and> delta_shapes n f h d'" if "delta_shapes n f h e" for delta e
    by (rule fold_opt_keeps) (use assms(1,2,4,5) that hidden_gradient_total in auto)
  moreover have "delta_shapes n f h (d\<lparr>dl_gradients := (dl_gradients d)\<lparr>gw_second_bias := (gw_second_bias (dl_gradients d))[out := x]\<rparr>\<rparr>)" for x
    using assms(6) by (simp add: delta_shapes_def weights_ok_def)
  moreover have "out < length (gw_second_bias (dl_gradients d))" using assms(5,6) by (simp add: delta_shapes_def weights_ok_def)
  ultimately show ?thesis using cell assms(3) weights_ok_output [OF assms(1)] by (simp add: second_gradient_def update_at_in Let_def)
qed

lemma distribute_node_total:
  assumes "length source = n * d" "length target = n * d" "node < n" "neighbor < n"
  shows "\<exists>target'. distribute_node source d node scale neighbor target = Some target' \<and> length target' = n * d"
  unfolding distribute_node_def
  by (rule fold_opt_keeps [where I = "\<lambda>target. length target = n * d"]) (use assms cell_less in auto)

lemma distribute_total:
  assumes "graph_ok n f g" "length source = n * d" "length target = n * d"
  shows "\<exists>target'. distribute_neighbor_gradients g source target d = Some target' \<and> length target' = n * d"
  unfolding distribute_neighbor_gradients_def graph_ok_nodes [OF assms(1)]
proof (rule fold_opt_keeps)
  fix node and t :: "f32 list"
  assume node: "node \<in> set [0..<n]" and t: "length t = n * d"
  then obtain ns where ns: "neighbors_of g node = Some ns" "\<forall>j \<in> set ns. j < n" using assms(1) by (auto simp: graph_ok_def)
  have "\<exists>t'. fold_opt (distribute_node source d node scale) ns t = Some t' \<and> length t' = n * d" for scale
    by (rule fold_opt_keeps) (use node t ns(2) assms(2) distribute_node_total in auto)
  then show "\<exists>t'. Option.bind (neighbors_of g node) (\<lambda>ns. if ns = [] then Some t
      else fold_opt (distribute_node source d node (f32_div f64_one (f32_of_nat (length ns)))) ns t) = Some t' \<and> length t' = n * d"
    using ns(1) t by simp
qed (use assms(3) in simp)

lemma input_gradient_total:
  assumes "graph_ok n f g" "node < n" "out < h" "i < f" "weights_ok f h gs"
  shows "\<exists>gs'. input_gradient g h node out delta i gs = Some gs' \<and> weights_ok f h gs'"
proof -
  have "i * h + out < f * h" "node * f + i < n * f" using assms(2-4) by (auto intro: cell_less)
  then show ?thesis using assms(1,5) by (simp add: input_gradient_def weights_ok_def graph_ok_def Let_def)
qed

lemma first_gradient_total:
  assumes "graph_ok n f g" "weights_ok f h w" "pass_ok n h p" "node < n" "out < h" "length (fst s) = n * h" "weights_ok f h (snd s)"
  shows "\<exists>s'. first_gradient pl g w p (node, out) s = Some s' \<and> length (fst s') = n * h \<and> weights_ok f h (snd s')"
proof -
  have cell: "node * h + out < n * h" using assms(4,5) by (rule cell_less)
  have "\<exists>gs'. fold_opt (input_gradient g h node out delta) [0..<f] gs = Some gs' \<and> weights_ok f h gs'" if "weights_ok f h gs" for delta gs
    by (rule fold_opt_keeps) (use assms(1,4,5) that input_gradient_total in auto)
  moreover have "weights_ok f h ((snd s)\<lparr>gw_first_bias := (gw_first_bias (snd s))[out := x]\<rparr>)" for x
    using assms(7) by (simp add: weights_ok_def)
  moreover have "out < length (gw_first_bias (snd s))" using assms(5,7) by (simp add: weights_ok_def)
  moreover have "gg_feature_dimensions g = f" "length (fp_first p) = n * h" using assms(1,3) by (simp_all add: graph_ok_def pass_ok_def)
  ultimately show ?thesis using cell assms(6) weights_ok_output [OF assms(2)]
    by (cases s) (auto simp: first_gradient_def update_at_in Let_def)
qed

lemma backward_total:
  assumes "graph_ok n f g" "weights_ok f h w" "pass_ok n h p" "length labels = n" "training_count \<le> n"
  shows "\<exists>gs. backward pl g w p labels training_count positive_weight l2 = Some gs \<and> weights_ok f h gs"
proof -
  let ?zeros = "replicate (n * h) f64_zero" and ?cells = "List.product [0..<n] [0..<h]"
  let ?norm = "f64_max (f32_sum (map (class_weight positive_weight) (take training_count labels))) f64_one"
  have "\<exists>s. fold_opt (node_gradient pl w p labels positive_weight ?norm) [0..<training_count] (initial_gradients w l2, ?zeros) = Some s \<and>
      weights_ok f h (fst s) \<and> length (snd s) = n * h"
    by (rule fold_opt_keeps) (use assms initial_gradients_ok node_gradient_total in auto)
  then obtain gs sd where s: "fold_opt (node_gradient pl w p labels positive_weight ?norm) [0..<training_count] (initial_gradients w l2, ?zeros) = Some (gs, sd)"
    "weights_ok f h gs" "length sd = n * h" by auto
  have "\<exists>d. fold_opt (second_gradient w p sd) ?cells \<lparr>dl_gradients = gs, dl_first = ?zeros, dl_first_neighbor = ?zeros\<rparr> = Some d \<and> delta_shapes n f h d"
    by (rule fold_opt_keeps) (use s(2,3) assms(2,3) second_gradient_total in \<open>auto simp: delta_shapes_def\<close>)
  then obtain d where d: "fold_opt (second_gradient w p sd) ?cells \<lparr>dl_gradients = gs, dl_first = ?zeros, dl_first_neighbor = ?zeros\<rparr> = Some d"
    "delta_shapes n f h d" by blast
  obtain fd where fd: "distribute_neighbor_gradients g (dl_first_neighbor d) (dl_first d) h = Some fd" "length fd = n * h"
    using distribute_total [OF assms(1), of "dl_first_neighbor d" h "dl_first d"] d(2) by (auto simp: delta_shapes_def)
  have "\<exists>s. fold_opt (first_gradient pl g w p) ?cells (fd, dl_gradients d) = Some s \<and> length (fst s) = n * h \<and> weights_ok f h (snd s)"
    by (rule fold_opt_keeps) (use fd(2) d(2) assms(1-3) first_gradient_total in \<open>auto simp: delta_shapes_def\<close>)
  then show ?thesis using s(1) d(1) fd(1) assms(4,5) weights_ok_output [OF assms(2)] graph_ok_nodes [OF assms(1)]
    by (auto simp: backward_def Let_def)
qed

section \<open>Training\<close>

lemma adam_update_length: "adam_update pl epoch rate gs a vs = (vs', a') \<Longrightarrow> length vs' = length vs"
  by (auto simp: adam_update_def Let_def)

lemma adam_step_total:
  assumes "weights_ok f h w"
  shows "\<exists>a' w'. adam_step pl epoch rate gs (a, w) = Some (a', w') \<and> weights_ok f h w'"
proof -
  let ?up = "adam_update pl epoch rate"
  obtain v1 a1 where 1: "?up (gw_first_self gs) (as_first_self a) (gw_first_self w) = (v1, a1)" by fastforce
  obtain v2 a2 where 2: "?up (gw_first_neighbor gs) (as_first_neighbor a) (gw_first_neighbor w) = (v2, a2)" by fastforce
  obtain v3 a3 where 3: "?up (gw_first_bias gs) (as_first_bias a) (gw_first_bias w) = (v3, a3)" by fastforce
  obtain v4 a4 where 4: "?up (gw_second_self gs) (as_second_self a) (gw_second_self w) = (v4, a4)" by fastforce
  obtain v5 a5 where 5: "?up (gw_second_neighbor gs) (as_second_neighbor a) (gw_second_neighbor w) = (v5, a5)" by fastforce
  obtain v6 a6 where 6: "?up (gw_second_bias gs) (as_second_bias a) (gw_second_bias w) = (v6, a6)" by fastforce
  obtain v7 a7 where 7: "?up (gw_output gs) (as_output a) (gw_output w) = (v7, a7)" by fastforce
  obtain v8 a8 where 8: "?up [gw_output_bias gs] (as_output_bias a) [gw_output_bias w] = (v8, a8)" by fastforce
  note lengths = 1 [THEN adam_update_length] 2 [THEN adam_update_length] 3 [THEN adam_update_length] 4 [THEN adam_update_length]
    5 [THEN adam_update_length] 6 [THEN adam_update_length] 7 [THEN adam_update_length] 8 [THEN adam_update_length]
  show ?thesis using assms lengths by (simp add: adam_step_def 1 2 3 4 5 6 7 8 weights_ok_def)
qed

lemma xavier_length: "length (fst (xavier width fan_in fan_out random)) = width"
proof -
  have "length (fst (fold (\<lambda>_ (ws, v). let v = xorshift_next v in (ws @ [f32_mul (f32_sub (f32_mul (xorshift_unit v) (F_fin 2)) f64_one) b], v)) xs s)) =
    length (fst s) + length xs" for b s and xs :: "nat list"
    by (induction xs arbitrary: s) (auto simp: Let_def split: prod.splits)
  then show ?thesis by (simp add: xavier_def Let_def)
qed

lemma initialize_weights_ok: "weights_ok f h (initialize_weights f h seed)"
proof -
  obtain v1 r1 where 1: "xavier (f * h) f h (xorshift_new seed) = (v1, r1)" by fastforce
  obtain v2 r2 where 2: "xavier (f * h) f h r1 = (v2, r2)" by fastforce
  obtain v3 r3 where 3: "xavier (h * h) h h r2 = (v3, r3)" by fastforce
  obtain v4 r4 where 4: "xavier (h * h) h h r3 = (v4, r4)" by fastforce
  obtain v5 r5 where 5: "xavier h h (Suc 0) r4 = (v5, r5)" by fastforce
  have "length v1 = f * h" "length v2 = f * h" "length v3 = h * h" "length v4 = h * h"
    using xavier_length [of "f * h" f h "xorshift_new seed"] xavier_length [of "f * h" f h r1] xavier_length [of "h * h" h h r2]
      xavier_length [of "h * h" h h r3] by (simp_all add: 1 2 3 4)
  moreover have "length v5 = h" using xavier_length [of h h "Suc 0" r4] unfolding 5 by simp
  ultimately show ?thesis by (simp add: initialize_weights_def 1 2 3 4 5 weights_ok_def)
qed

lemma intercept_model_ok: "weights_ok f h w \<Longrightarrow> weights_ok f h (intercept_model pl positives training_count w)"
  by (simp add: intercept_model_def zero_weights_def weights_ok_def Let_def)

lemma training_diagnostics_total:
  assumes "length labels = n" "length probabilities = n" "training_count \<le> n"
  shows "\<exists>d. training_diagnostics pl labels probabilities training_count positives epochs stopped = Some d"
proof -
  let ?hit = "\<lambda>i. Option.bind (nth_opt probabilities i) (\<lambda>p. map_option (\<lambda>l. f64_le half p = f64_le half l) (nth_opt labels i))"
  have hits: "\<exists>hits. those (map ?hit [a..<b]) = Some hits" if "b \<le> n" for a b
    using those_length [of "[a..<b]" ?hit "\<lambda>_. True"] assms(1,2) that by auto
  show ?thesis
  proof (cases "training_count < n")
    case True
    obtain hits where "those (map ?hit [training_count..<n]) = Some hits" using hits by blast
    then show ?thesis using True assms by (simp add: training_diagnostics_def)
  next
    case False
    obtain hits where "those (map ?hit [0..<training_count]) = Some hits" using hits assms(3) by blast
    then show ?thesis using False assms by (simp add: training_diagnostics_def)
  qed
qed

lemma training_epoch_total:
  assumes g: "graph_ok n f g" and s: "weights_ok f h (ts_model s)" "weights_ok f h (ts_best_model s)"
    and h: "gq_hidden_dimensions r = h" and labels: "length labels = n" "training_count \<le> n"
  shows "\<exists>s'. training_epoch pl g labels training_count positive_weight r epoch s = Some s' \<and> weights_ok f h (ts_model s') \<and> weights_ok f h (ts_best_model s')"
proof -
  obtain p where p: "forward pl g (ts_model s) h = Some p" "pass_ok n h p" using forward_total [OF g s(1)] by blast
  obtain gs where gs: "backward pl g (ts_model s) p labels training_count positive_weight (f32_of_f64 (gq_l2 r)) = Some gs"
    using backward_total [OF g s(1) p(2) labels] by blast
  obtain a w where w: "adam_step pl epoch (f32_of_f64 (gq_learning_rate r)) gs (ts_adam s, ts_model s) = Some (a, w)" "weights_ok f h w"
    using adam_step_total [OF s(1)] by blast
  obtain c where c: "forward pl g w h = Some c" "pass_ok n h c" using forward_total [OF g w(2)] by blast
  have "length (fp_probabilities c) = n" using c(2) by (simp add: pass_ok_def)
  then show ?thesis using p(1) gs w c(1) labels s(2) h by (simp add: training_epoch_def Let_def)
qed

lemma training_loop_total:
  assumes "I s" "\<And>e s. I s \<Longrightarrow> \<exists>s'. step e s = Some s' \<and> I s'"
  shows "\<exists>s'. training_loop step epochs s = Some s' \<and> I s'"
  using assms(1)
proof (induction epochs arbitrary: s)
  case (Cons e epochs)
  obtain t where "step e s = Some t" "I t" using assms(2) Cons.prems by blast
  then show ?case using Cons.IH [of t] by simp
qed simp

lemma train_model_total:
  assumes "graph_ok n f g" "length labels = n" "training_count \<le> n"
  shows "\<exists>w d warnings. train_model pl g labels training_count r = Some (w, d, warnings) \<and> weights_ok f (gq_hidden_dimensions r) w"
proof -
  let ?h = "gq_hidden_dimensions r"
  define w where "w = initialize_weights f ?h (gq_seed r)"
  define positives where "positives = length (filter is_positive (take training_count labels))"
  have w: "weights_ok f ?h w" unfolding w_def by (rule initialize_weights_ok)
  have dim: "gg_feature_dimensions g = f" using assms(1) by (simp add: graph_ok_def)
  have eq: "train_model pl g labels training_count r = (if positives = 0 \<or> training_count - positives = 0
     then let model = intercept_model pl positives training_count w in
       Option.bind (forward pl g model ?h) (\<lambda>pass.
       map_option (\<lambda>d. (model, d, [''the temporal training partition contained only one label class; an intercept-only smoothed model was fitted'']))
         (training_diagnostics pl labels (fp_probabilities pass) training_count positives 0 False))
     else let positive_weight = f64_clamp f64_one (F_fin 100) (f32_div (f32_of_nat (training_count - positives)) (f32_of_nat positives));
              start = \<lparr>ts_model = w, ts_adam = adam_new w, ts_best_model = w, ts_best_loss = F_inf False, ts_stale = 0, ts_completed = 0, ts_early_stopped = False\<rparr>
       in Option.bind (training_loop (training_epoch pl g labels training_count positive_weight r) [1..<gq_epochs r + 1] start) (\<lambda>s.
       Option.bind (forward pl g (ts_best_model s) ?h) (\<lambda>pass.
       map_option (\<lambda>d. (ts_best_model s, d, []))
         (training_diagnostics pl labels (fp_probabilities pass) training_count positives (ts_completed s) (ts_early_stopped s)))))"
    (is "_ = (if _ then ?intercept else ?trained)")
    using assms(2,3) by (simp add: train_model_def dim w_def positives_def Let_def)
  have intercept: "\<exists>w d warnings. ?intercept = Some (w, d, warnings) \<and> weights_ok f ?h w"
  proof -
    have model: "weights_ok f ?h (intercept_model pl positives training_count w)" using w by (rule intercept_model_ok)
    obtain p where p: "forward pl g (intercept_model pl positives training_count w) ?h = Some p" "pass_ok n ?h p" using forward_total [OF assms(1) model] by blast
    obtain d where "training_diagnostics pl labels (fp_probabilities p) training_count positives 0 False = Some d"
      using training_diagnostics_total [OF assms(2) _ assms(3)] p(2) unfolding pass_ok_def by blast
    then show ?thesis using p(1) model by (simp add: Let_def)
  qed
  have trained: "\<exists>w d warnings. ?trained = Some (w, d, warnings) \<and> weights_ok f ?h w"
  proof -
    let ?I = "\<lambda>s. weights_ok f ?h (ts_model s) \<and> weights_ok f ?h (ts_best_model s)"
    have "\<exists>s. training_loop (training_epoch pl g labels training_count positive_weight r) epochs start = Some s \<and> ?I s" if "?I start" for positive_weight start epochs
      by (rule training_loop_total [where I = ?I]) (use that training_epoch_total [OF assms(1) _ _ refl assms(2,3)] in auto)
    then obtain s where s: "training_loop (training_epoch pl g labels training_count (f64_clamp f64_one (F_fin 100) (f32_div (f32_of_nat (training_count - positives)) (f32_of_nat positives))) r)
        [1..<gq_epochs r + 1] \<lparr>ts_model = w, ts_adam = adam_new w, ts_best_model = w, ts_best_loss = F_inf False, ts_stale = 0, ts_completed = 0, ts_early_stopped = False\<rparr> = Some s" "?I s"
      using w by (metis (no_types, lifting) training_state.select_convs(1,3))
    obtain p where p: "forward pl g (ts_best_model s) ?h = Some p" "pass_ok n ?h p" using forward_total [OF assms(1)] s(2) by blast
    obtain d where "training_diagnostics pl labels (fp_probabilities p) training_count positives (ts_completed s) (ts_early_stopped s) = Some d"
      using training_diagnostics_total [OF assms(2) _ assms(3)] p(2) unfolding pass_ok_def by blast
    then show ?thesis using p(1) s by (simp add: Let_def)
  qed
  show ?thesis
  proof (cases "positives = 0 \<or> training_count - positives = 0")
    case True
    show ?thesis using intercept unfolding eq if_P [OF True] .
  next
    case False
    show ?thesis using trained unfolding eq if_not_P [OF False] .
  qed
qed

section \<open>Thresholds\<close>

lemma gnn_quantile_total:
  assumes "0 \<le> q" "q \<le> 1" "length vs \<le> 2 ^ 53"
  shows "\<exists>v. gnn_quantile vs (F_fin q) = Some v"
proof (cases "vs = []")
  case False
  define n where "n = length vs - 1"
  have n: "n < 2 ^ 53" "n < length vs" using False assms(3) unfolding n_def by (cases vs; simp)+
  obtain y where y: "f64_mul (f64_of_nat n) (F_fin q) = F_fin y" "0 \<le> y" "y \<le> of_nat n" using scaled_position [OF n(1) assms(1,2)] by blast
  have position: "f64_mul (F_fin q) (f64_of_nat n) = F_fin y"
    using y(1) n(1) by (simp add: f64_mul_def f64_of_nat_exact mult.commute f64_signed_zero_def split: if_splits)
  have up: "\<lceil>y\<rceil> \<le> int n" using y(3) by (simp add: ceiling_le_iff)
  have low: "\<lfloor>y\<rfloor> \<le> int n" using y(3) by (simp add: floor_le_iff)
  have "f64_to_u64 (f64_floor (F_fin y)) < length vs" "f64_to_u64 (f64_ceil (F_fin y)) < length vs"
    using up low y(2) n(2) by (simp_all add: min_less_iff_disj) linarith+
  then show ?thesis using False unfolding gnn_quantile_def n_def [symmetric] position Let_def by (simp del: f64_floor.simps f64_ceil.simps)
qed (simp add: gnn_quantile_def)

definition request_ok :: "gnn_request \<Rightarrow> bool" where
  "request_ok r \<longleftrightarrow> 16 \<le> gq_feature_dimensions r \<and> gq_feature_dimensions r \<le> 256 \<and> gq_hidden_dimensions r \<le> 256 \<and>
     (\<exists>q. gq_label_quantile r = F_fin q \<and> 0 \<le> q \<and> q \<le> 1)"

lemma validate_request_ok:
  assumes "validate_gnn_request pl r = Ok u"
  shows "request_ok r"
proof -
  have bounds: "\<not> gnn_bounds_invalid r" and rates: "\<not> gnn_rates_invalid r"
    using assms by (auto simp: validate_gnn_request_def ensure_def split: if_splits)
  have "f64_le (F_fin (1 / 2)) (gq_label_quantile r)" "f64_lt (gq_label_quantile r) f64_one" using rates unfolding gnn_rates_invalid_def by blast+
  then have "\<exists>q. gq_label_quantile r = F_fin q \<and> 0 \<le> q \<and> q \<le> 1"
    by (cases "gq_label_quantile r") (auto simp: f64_le_def split: if_splits)
  then show ?thesis using bounds unfolding gnn_bounds_invalid_def request_ok_def by auto
qed

lemma slow_threshold_total:
  assumes "request_ok r" "length durations \<le> 2 ^ 53"
  shows "\<exists>t. slow_threshold r durations = Some t"
proof -
  obtain q where q: "gq_label_quantile r = F_fin q" "0 \<le> q" "q \<le> 1" using assms(1) by (auto simp: request_ok_def)
  show ?thesis using gnn_quantile_total [OF q(2,3), of "sort_by f64_total_le durations"] assms(2)
    by (auto simp: slow_threshold_def q(1) split: option.split)
qed

lemma training_thresholds_total:
  assumes "request_ok r" "length observations \<le> 2 ^ 53" "training_count \<le> length observations"
  shows "\<exists>global thresholds. training_thresholds observations training_count r = Some (global, thresholds)"
proof -
  let ?training = "take training_count observations"
  let ?groups = "fold (\<lambda>ob. bt_push (edge_key_of ob) (gnn_duration ob)) ?training []"
  have "length (map gnn_duration ?training) \<le> 2 ^ 53" using assms(2,3) by simp
  then obtain global where global: "slow_threshold r (map gnn_duration ?training) = Some global" using slow_threshold_total [OF assms(1)] by blast
  have "\<exists>ts. those (map (edge_threshold r) (filter (\<lambda>(_, vs). gq_minimum_support r \<le> length vs) ?groups)) = Some ts \<and>
      length ts = length (filter (\<lambda>(_, vs). gq_minimum_support r \<le> length vs) ?groups) \<and> (\<forall>t \<in> set ts. True)"
  proof (rule those_length)
    fix e
    assume "e \<in> set (filter (\<lambda>(_, vs). gq_minimum_support r \<le> length vs) ?groups)"
    then have mem: "(fst e, snd e) \<in> set ?groups" by simp
    have "snd e = map gnn_duration (filter (\<lambda>ob. edge_key_of ob = fst e) ?training)"
      using mem unfolding fold_push_in [where key = edge_key_of and val = gnn_duration] by blast
    then have "length (snd e) \<le> length ?training" by (simp del: length_take)
    also have "\<dots> \<le> 2 ^ 53" using assms(2) by simp
    finally obtain t where "slow_threshold r (snd e) = Some t" using slow_threshold_total [OF assms(1)] by blast
    then show "\<exists>t. edge_threshold r e = Some t \<and> True" by (cases e) (auto simp: edge_threshold_def split: prod.splits)
  qed
  then show ?thesis using global assms(3) by (auto simp: training_thresholds_def Let_def)
qed

lemma temporal_training_count_total:
  assumes "2 \<le> n" "n \<le> 2 ^ 53"
  shows "\<exists>k. temporal_training_count n v = Some k \<and> 1 \<le> k \<and> k \<le> n"
  using assms by (auto simp: temporal_training_count_def u64_wrapping_sub_def Let_def)

section \<open>Fitting and scoring\<close>

lemma canonical_observations_mset:
  assumes "canonical_observations observations maximum = Ok vs"
  shows "vs = sort_key canonical_key observations" "length vs = length observations"
  using assms by (auto simp: canonical_observations_def Let_def split: if_splits)

lemma gnn_labels_length [simp]: "length (gnn_labels observations global thresholds) = length observations"
  by (simp add: gnn_labels_def)

lemma fit_canonical_total:
  assumes "request_ok r" "2 \<le> length observations" "length observations \<le> 2 ^ 53"
  shows "\<exists>a. fit_canonical pl r observations = Some a \<and> weights_ok (gq_feature_dimensions r) (gq_hidden_dimensions r) (ga_weights a) \<and>
    ga_hidden_dimensions a = gq_hidden_dimensions r"
proof -
  obtain k where k: "temporal_training_count (length observations) (gq_validation_fraction r) = Some k" "k \<le> length observations"
    using temporal_training_count_total [OF assms(2,3)] by blast
  obtain global thresholds where th: "training_thresholds observations k r = Some (global, thresholds)"
    using training_thresholds_total [OF assms(1,3) k(2)] by blast
  have "16 \<le> gq_feature_dimensions r" using assms(1) by (simp add: request_ok_def)
  then obtain g where g: "build_graph pl observations r = Some g" "graph_ok (length observations) (gq_feature_dimensions r) g"
    using build_graph_total by blast
  obtain w d warnings where w: "train_model pl g (gnn_labels observations global thresholds) k r = Some (w, d, warnings)"
    "weights_ok (gq_feature_dimensions r) (gq_hidden_dimensions r) w"
    using train_model_total [OF g(2) gnn_labels_length k(2)] by blast
  show ?thesis using k(1) th g(1) w by (simp add: fit_canonical_def fit_artifact_def)
qed

lemma fit_observations_total:
  assumes "request_ok r" "length observations \<le> 2 ^ 53"
  shows "\<exists>res. fit_observations pl content_hash observations r = Some res \<and>
    (\<forall>a. res = Ok a \<longrightarrow> weights_ok (gq_feature_dimensions r) (gq_hidden_dimensions r) (ga_weights a) \<and> ga_hidden_dimensions a = gq_hidden_dimensions r)"
proof (cases "canonical_observations observations (gq_maximum_nodes r)")
  case (Inr vs)
  note len = canonical_observations_mset(2) [OF Inr]
  show ?thesis
  proof (cases "length vs < 2")
    case False
    obtain a where a: "fit_canonical pl r vs = Some a" "weights_ok (gq_feature_dimensions r) (gq_hidden_dimensions r) (ga_weights a)"
      "ga_hidden_dimensions a = gq_hidden_dimensions r" using fit_canonical_total [OF assms(1), of vs] False assms(2) len by auto
    show ?thesis using Inr False a by (cases "content_hash a") (auto simp: fit_observations_def)
  qed (simp add: fit_observations_def Inr)
qed (simp add: fit_observations_def)

lemma score_observations_total:
  assumes "request_ok r" "weights_ok (gq_feature_dimensions r) (gq_hidden_dimensions r) (ga_weights a)" "ga_hidden_dimensions a = gq_hidden_dimensions r"
  shows "\<exists>res. score_observations pl provider observations r a = Some res"
proof (cases "canonical_observations observations (gq_maximum_nodes r)")
  case (Inr vs)
  have "16 \<le> gq_feature_dimensions r" using assms(1) by (simp add: request_ok_def)
  then obtain g where g: "build_graph pl vs r = Some g" "graph_ok (length vs) (gq_feature_dimensions r) g" using build_graph_total by blast
  obtain p where p: "forward pl g (ga_weights a) (gq_hidden_dimensions r) = Some p" "pass_ok (length vs) (gq_hidden_dimensions r) p"
    using forward_total [OF g(2) assms(2)] by blast
  have "\<exists>groups. fold_opt (score_observation (ga_global_threshold_seconds a) (threshold_map (ga_edge_thresholds a)) (fp_probabilities p))
      (indexed vs) [] = Some groups \<and> True"
    by (rule fold_opt_keeps) (use p(2) in \<open>auto simp: set_indexed score_observation_def pass_ok_def\<close>)
  then show ?thesis using Inr g(1) p(1) assms(3) by (auto simp: score_observations_def score_canonical_def)
qed (simp add: score_observations_def)

lemma artifact_shapes:
  assumes "validate_gnn_artifact content_hash a = Ok u" "validate_request_artifact r a = Ok v" "request_ok r"
  shows "weights_ok (gq_feature_dimensions r) (gq_hidden_dimensions r) (ga_weights a)" "ga_hidden_dimensions a = gq_hidden_dimensions r"
proof -
  have same: "ga_feature_dimensions a = gq_feature_dimensions r" "ga_hidden_dimensions a = gq_hidden_dimensions r"
    using assms(2) by (auto simp: validate_request_artifact_def ensure_def split: if_splits)
  have shapes: "gnn_shapes_ok a" using assms(1) by (auto simp: validate_gnn_artifact_def ensure_def split: if_splits)
  have small: "gq_feature_dimensions r * gq_hidden_dimensions r \<le> 256 * 256" "gq_hidden_dimensions r * gq_hidden_dimensions r \<le> 256 * 256"
    using assms(3) unfolding request_ok_def by (blast intro: mult_le_mono)+
  then have "u64_wrapping_mul (gq_feature_dimensions r) (gq_hidden_dimensions r) = gq_feature_dimensions r * gq_hidden_dimensions r"
    "u64_wrapping_mul (gq_hidden_dimensions r) (gq_hidden_dimensions r) = gq_hidden_dimensions r * gq_hidden_dimensions r"
    by (simp_all add: u64_wrapping_mul_def)
  then show "weights_ok (gq_feature_dimensions r) (gq_hidden_dimensions r) (ga_weights a)" using shapes by (simp add: gnn_shapes_ok_def weights_ok_def same Let_def)
  show "ga_hidden_dimensions a = gq_hidden_dimensions r" by (rule same(2))
qed

end
