(* ===== verification/GnnFacts.thy ===== *)
theory GnnFacts
  imports GnnTotal
begin

text \<open>
  What the detector of \<open>crates/ocpm-gnn\<close> promises: it never panics, its graph links exactly the related observations, its answer does
  not depend on the order of the observations, and its signals count every transition. The area under the curve is the share of pairs
  ranked correctly.
\<close>

section \<open>A sample\<close>

definition sample_platform :: platform where
  "sample_platform = \<lparr>pl_sin = (\<lambda>x. x), pl_cos = (\<lambda>x. x), pl_tanh = (\<lambda>x. x), pl_exp = (\<lambda>x. f64_one), pl_ln = (\<lambda>x. x), pl_powi = (\<lambda>x n. x),
     pl_float_text = (\<lambda>x. ''x''), pl_is_blank = (\<lambda>s. s = [])\<rparr>"

definition sample_transition :: "nat \<Rightarrow> nat \<Rightarrow> int \<Rightarrow> bottleneck_observation" where
  "sample_transition source target time = \<lparr>bo_object_id = target, bo_object_type = ''order'', bo_source_event_id = source, bo_source_activity = ''pack'',
     bo_source_timestamp_nanos = time, bo_source_lifecycle = None, bo_source_attributes = [], bo_target_event_id = target,
     bo_target_activity = ''ship'', bo_target_timestamp_nanos = time + 5, bo_target_lifecycle = None, bo_target_attributes = []\<rparr>"

definition sample_transitions :: "bottleneck_observation list" where
  "sample_transitions = [sample_transition 1 2 0, sample_transition 2 3 5, sample_transition 8 9 7]"

section \<open>No panic\<close>

text \<open>C37: No index of the detector is ever out of range: fitting, scoring and detection over any observations, request and artifact
  return a value or an error and never panic, up to 2 ^ 53 observations.\<close>

theorem gnn_never_panics:
  assumes "length observations \<le> 2 ^ 53"
  shows "(\<exists>res. gnn_fit_from pl content_hash observations r = Some res) \<and>
    (\<exists>res. gnn_score_from pl content_hash provider observations r a = Some res) \<and>
    (\<exists>res. gnn_detect_from pl content_hash provider observations r = Some res)"
proof (intro conjI)
  show "\<exists>res. gnn_fit_from pl content_hash observations r = Some res"
  proof (cases "validate_gnn_request pl r")
    case (Inr u)
    then show ?thesis using fit_observations_total [OF validate_request_ok [OF Inr] assms, of pl content_hash] by (auto simp: gnn_fit_from_def checked_def)
  qed (simp add: gnn_fit_from_def checked_def)
  show "\<exists>res. gnn_score_from pl content_hash provider observations r a = Some res"
  proof (cases "score_checks pl content_hash r a")
    case (Inr u)
    then obtain v w where ok: "validate_gnn_request pl r = Ok v" "validate_gnn_artifact content_hash a = Ok w" "validate_request_artifact r a = Ok u"
      by (auto simp: score_checks_def result_simps)
    note request = validate_request_ok [OF ok(1)]
    show ?thesis using score_observations_total [OF request artifact_shapes [OF ok(2,3) request], of pl provider observations] Inr
      by (simp add: gnn_score_from_def checked_def)
  qed (simp add: gnn_score_from_def checked_def)
  show "\<exists>res. gnn_detect_from pl content_hash provider observations r = Some res"
  proof (cases "validate_gnn_request pl r")
    case (Inr u)
    note request = validate_request_ok [OF Inr]
    obtain res where res: "fit_observations pl content_hash observations r = Some res"
      "\<forall>a. res = Ok a \<longrightarrow> weights_ok (gq_feature_dimensions r) (gq_hidden_dimensions r) (ga_weights a) \<and> ga_hidden_dimensions a = gq_hidden_dimensions r"
      using fit_observations_total [OF request assms] by blast
    show ?thesis
    proof (cases res)
      case (Inr a)
      then show ?thesis using res score_observations_total [OF request, of a pl provider observations] \<open>validate_gnn_request pl r = Ok u\<close>
        by (simp add: gnn_detect_from_def checked_def)
    qed (simp add: gnn_detect_from_def checked_def res(1) Inr)
  qed (simp add: gnn_detect_from_def checked_def)
qed

theorem gnn_never_panics_witness:
  "\<exists>res. gnn_detect_from sample_platform (\<lambda>_. Ok ''hash'') ''local'' sample_transitions default_gnn_request = Some res"
  using gnn_never_panics [of sample_transitions sample_platform "\<lambda>_. Ok ''hash''" default_gnn_request "''local''"] by (simp add: sample_transitions_def)

section \<open>The graph\<close>

text \<open>C38: Building the message-passing graph succeeds, with a node per observation. The neighbours of a node are in ascending order,
  at most \<open>maximum_neighbors\<close>, and each is related to the node: it is the next or the previous observation of the same object, or shares an
  event. When the bound leaves room for every other observation, the neighbours are all the related ones.\<close>

theorem gnn_graph_neighbors:
  assumes "16 \<le> gq_feature_dimensions r"
  shows "\<exists>g. build_graph pl observations r = Some g \<and> node_count g = length observations \<and>
    (\<forall>i < length observations. \<exists>ns. neighbors_of g i = Some ns \<and> sorted_wrt (<) ns \<and> length ns \<le> gq_maximum_neighbors r \<and>
      set ns \<subseteq> {j. j < length observations \<and> related observations i j} \<and>
      (length observations \<le> gq_maximum_neighbors r \<longrightarrow> set ns = {j. j < length observations \<and> related observations i j}))"
proof -
  obtain g adjacency where g: "build_graph pl observations r = Some g" "graph_ok (length observations) (gq_feature_dimensions r) g"
    "adjacency_of observations (gq_maximum_neighbors r) = Some adjacency" "length adjacency = length observations" "flat adjacency g"
    using build_graph_total [OF assms] by blast
  have adj: "neighbors_ok observations (gq_maximum_neighbors r) i (adjacency ! i)" if "i < length observations" for i
    using adjacency_correct [of observations "gq_maximum_neighbors r"] g(3) that by auto
  have "neighbors_of g i = Some (adjacency ! i)" if "i < length observations" for i using flat_neighbors [OF g(5)] that g(4) by simp
  then show ?thesis using g(1) graph_ok_nodes [OF g(2)] adj unfolding neighbors_ok_def by blast
qed

lemma next_same_object:
  assumes "next_on_object observations i j"
  shows "bo_object_id (observations ! i) = bo_object_id (observations ! j)" "i \<noteq> j" "i < length observations" "j < length observations"
proof -
  have "\<exists>ob. (i, j) \<in> set (windows2 (sort_key (object_order observations) (object_positions observations ob)))"
    using assms unfolding next_on_object_def .
  then obtain ob where "(i, j) \<in> set (windows2 (sort_key (object_order observations) (object_positions observations ob)))" ..
  then have "i \<in> set (object_positions observations ob)" "j \<in> set (object_positions observations ob)" by (metis windows2_set_subset set_sort)+
  then show "bo_object_id (observations ! i) = bo_object_id (observations ! j)" by (simp add: object_positions_def)
  show "i \<noteq> j" using next_related [OF assms] by (simp add: related_def)
  show "i < length observations" "j < length observations" using next_less [OF assms] by simp_all
qed

lemma sample_related: "{j. j < length sample_transitions \<and> related sample_transitions 0 j} = {1}"
proof -
  have none: "\<not> next_on_object sample_transitions i j" for i j
    using next_same_object [of sample_transitions i j]
    by (auto simp: sample_transitions_def sample_transition_def less_Suc_eq)
  show ?thesis unfolding related_def event_touches_def using none
    by (auto simp: sample_transitions_def sample_transition_def less_Suc_eq)
qed

theorem gnn_graph_neighbors_witness:
  "\<exists>g. build_graph sample_platform sample_transitions default_gnn_request = Some g \<and> neighbors_of g 0 = Some [1]"
proof -
  obtain g ns where g: "build_graph sample_platform sample_transitions default_gnn_request = Some g" "neighbors_of g 0 = Some ns" "sorted_wrt (<) ns" "set ns = {1}"
    using gnn_graph_neighbors [of default_gnn_request sample_platform sample_transitions] sample_related
    by (auto simp: default_gnn_request_def sample_transitions_def)
  have "ns = [1]" using g(3,4) strict_sorted_equal [of ns "[1]"] by simp
  then show ?thesis using g by blast
qed

section \<open>Order of the observations\<close>

lemma canonical_observations_perm:
  assumes "mset xs = mset ys" "inj_on canonical_key (set xs)"
  shows "canonical_observations xs maximum = canonical_observations ys maximum"
proof -
  have "sort_key canonical_key xs = sort_key canonical_key ys" using assms by (rule sort_key_eq_sort_key)
  moreover have "length xs = length ys" using assms(1) by (metis size_mset)
  ultimately show ?thesis by (simp add: canonical_observations_def)
qed

text \<open>The detector does not depend on the order in which a provider delivers the observations: any permutation of observations that
  differ in the canonical key gives the same signals, weights and diagnostics, bit by bit.\<close>

theorem gnn_order_independent:
  assumes "mset xs = mset ys" "inj_on canonical_key (set xs)"
  shows "gnn_detect_from pl content_hash provider xs r = gnn_detect_from pl content_hash provider ys r \<and>
    gnn_fit_from pl content_hash xs r = gnn_fit_from pl content_hash ys r \<and>
    gnn_score_from pl content_hash provider xs r a = gnn_score_from pl content_hash provider ys r a"
  unfolding gnn_detect_from_def gnn_fit_from_def gnn_score_from_def fit_observations_def score_observations_def
  by (simp add: canonical_observations_perm [OF assms])

theorem gnn_order_independent_witness:
  "gnn_detect_from sample_platform (\<lambda>_. Ok ''hash'') ''local'' sample_transitions default_gnn_request =
    gnn_detect_from sample_platform (\<lambda>_. Ok ''hash'') ''local'' (rev sample_transitions) default_gnn_request"
proof -
  have "inj_on canonical_key (set sample_transitions)" by (auto simp: inj_on_def sample_transitions_def sample_transition_def canonical_key_def)
  then show ?thesis using gnn_order_independent [of sample_transitions "rev sample_transitions"] by simp
qed

section \<open>Signals\<close>

definition on_edge :: "bottleneck_observation list \<Rightarrow> edge_key \<Rightarrow> bottleneck_observation list" where
  "on_edge observations k = filter (\<lambda>ob. edge_key_of ob = k) observations"

definition is_slow :: "f64 \<Rightarrow> (edge_key, f64) btree_map \<Rightarrow> bottleneck_observation \<Rightarrow> bool" where
  "is_slow global thresholds ob \<longleftrightarrow> f64_lt (threshold_for global thresholds ob) (gnn_duration ob)"

definition group_ok :: "f64 \<Rightarrow> (edge_key, f64) btree_map \<Rightarrow> bottleneck_observation list \<Rightarrow> signal_accumulator option \<Rightarrow> bool" where
  "group_ok global thresholds obs v \<longleftrightarrow> (case v of None \<Rightarrow> obs = []
   | Some v \<Rightarrow> obs \<noteq> [] \<and> sa_support v = length obs \<and> sa_observed_slow_count v = length (filter (is_slow global thresholds) obs) \<and>
       (\<forall>ob \<in> set obs. sa_threshold_seconds v = threshold_for global thresholds ob))"

lemma threshold_same_edge: "edge_key_of ob = edge_key_of ob' \<Longrightarrow> threshold_for global thresholds ob = threshold_for global thresholds ob'"
  by (simp add: threshold_for_def)

lemma group_ok_push:
  assumes "group_ok global thresholds obs v" "\<forall>x \<in> set obs. edge_key_of x = edge_key_of ob"
  shows "group_ok global thresholds (obs @ [ob])
    (Some (push_signal p (gnn_duration ob) (threshold_for global thresholds ob) (case v of None \<Rightarrow> no_signal | Some a \<Rightarrow> a)))"
proof -
  have "\<forall>x \<in> set obs. threshold_for global thresholds x = threshold_for global thresholds ob" using assms(2) threshold_same_edge by blast
  then show ?thesis using assms(1) by (cases v) (simp_all add: group_ok_def push_signal_def no_signal_def is_slow_def)
qed

lemma score_groups:
  assumes "length vs \<le> length probabilities"
  shows "\<exists>groups. fold_opt (score_observation global thresholds probabilities) (indexed vs) [] = Some groups \<and> bt_inv groups \<and>
    (\<forall>k. group_ok global thresholds (on_edge vs k) (bt_get groups k))"
  using assms
proof (induction vs rule: rev_induct)
  case Nil
  then show ?case by (simp add: indexed_def group_ok_def on_edge_def)
next
  case (snoc ob vs)
  obtain groups where g: "fold_opt (score_observation global thresholds probabilities) (indexed vs) [] = Some groups" "bt_inv groups"
    "\<forall>k. group_ok global thresholds (on_edge vs k) (bt_get groups k)" using snoc by auto
  let ?upd = "\<lambda>a. push_signal (probabilities ! length vs) (gnn_duration ob) (threshold_for global thresholds ob) (case a of None \<Rightarrow> no_signal | Some a \<Rightarrow> a)"
  let ?groups = "bt_alter (edge_key_of ob) ?upd groups"
  have step: "score_observation global thresholds probabilities (length vs, ob) groups = Some ?groups"
    using snoc.prems by (simp add: score_observation_def)
  have "group_ok global thresholds (on_edge (vs @ [ob]) k) (bt_get ?groups k)" for k
  proof (cases "edge_key_of ob = k")
    case True
    have same: "\<forall>x \<in> set (on_edge vs k). edge_key_of x = edge_key_of ob" using True by (simp add: on_edge_def)
    have "on_edge (vs @ [ob]) k = on_edge vs k @ [ob]" "bt_get ?groups k = Some (?upd (bt_get groups k))"
      using True by (simp_all add: on_edge_def bt.get_alter [OF g(2)])
    then show ?thesis using group_ok_push [OF spec [OF g(3)] same] by (simp only:)
  next
    case False
    then have "on_edge (vs @ [ob]) k = on_edge vs k" "bt_get ?groups k = bt_get groups k" by (simp_all add: on_edge_def bt.get_alter [OF g(2)])
    then show ?thesis using g(3) by (simp only:)
  qed
  then show ?case using g(1,2) step by (simp add: indexed_snoc fold_opt_append bt_inv_alter)
qed

definition gnn_signal_key :: "gnn_signal \<Rightarrow> edge_key" where
  "gnn_signal_key s = (gs_object_type s, gs_source_activity s, gs_target_activity s)"

lemma gnn_signal_key_of [simp]: "gnn_signal_key (gnn_signal_of e) = fst e"
proof -
  obtain t x y v where "e = ((t, x, y), v)" by (metis surj_pair)
  then show ?thesis by (simp add: gnn_signal_key_def gnn_signal_of_def)
qed

lemma gnn_signals_mset: "mset (gnn_signals a groups) = image_mset gnn_signal_of (mset (filter (\<lambda>(_, v). ga_minimum_support a \<le> sa_support v) groups))"
  by (simp add: gnn_signals_def)

lemma gnn_signals_keys:
  assumes "bt_inv groups"
  shows "distinct (map gnn_signal_key (gnn_signals a groups))"
proof -
  let ?kept = "filter (\<lambda>(_, v). ga_minimum_support a \<le> sa_support v) groups"
  have "mset (map gnn_signal_key (gnn_signals a groups)) = mset (map fst ?kept)" by (simp add: gnn_signals_mset multiset.map_comp comp_def)
  moreover have "distinct (map fst ?kept)" using bt_inv_distinct [OF assms] by (rule distinct_map_filter)
  ultimately show ?thesis by (metis mset_eq_imp_distinct_iff)
qed

lemma gnn_signals_in: "s \<in> set (gnn_signals a groups) \<longleftrightarrow> (\<exists>k v. (k, v) \<in> set groups \<and> ga_minimum_support a \<le> sa_support v \<and> s = gnn_signal_of (k, v))"
proof -
  have "set (gnn_signals a groups) = gnn_signal_of ` set (filter (\<lambda>(_, v). ga_minimum_support a \<le> sa_support v) groups)"
    using arg_cong [OF gnn_signals_mset, of set_mset a groups] by simp
  then show ?thesis by force
qed

lemma on_edge_perm: "mset xs = mset ys \<Longrightarrow> mset (on_edge xs k) = mset (on_edge ys k)"
  by (simp add: on_edge_def mset_filter)

lemma score_canonical_signals:
  assumes "score_canonical pl provider r a vs = Some res" "16 \<le> gq_feature_dimensions r"
    "weights_ok (gq_feature_dimensions r) (ga_hidden_dimensions a) (ga_weights a)"
  shows "\<exists>groups. gr_signals res = gnn_signals a groups \<and> bt_inv groups \<and>
    (\<forall>k. group_ok (ga_global_threshold_seconds a) (threshold_map (ga_edge_thresholds a)) (on_edge vs k) (bt_get groups k))"
proof -
  obtain g where g: "build_graph pl vs r = Some g" "graph_ok (length vs) (gq_feature_dimensions r) g" using build_graph_total [OF assms(2)] by blast
  obtain p where p: "forward pl g (ga_weights a) (ga_hidden_dimensions a) = Some p" "pass_ok (length vs) (ga_hidden_dimensions a) p"
    using forward_total [OF g(2) assms(3)] by blast
  have "length vs \<le> length (fp_probabilities p)" using p(2) by (simp add: pass_ok_def)
  then obtain groups where gr: "fold_opt (score_observation (ga_global_threshold_seconds a) (threshold_map (ga_edge_thresholds a)) (fp_probabilities p)) (indexed vs) [] = Some groups"
    "bt_inv groups" "\<forall>k. group_ok (ga_global_threshold_seconds a) (threshold_map (ga_edge_thresholds a)) (on_edge vs k) (bt_get groups k)"
    using score_groups by blast
  have "gr_signals res = gnn_signals a groups" using assms(1) g(1) p(1) gr(1) by (auto simp: score_canonical_def)
  then show ?thesis using gr(2,3) by blast
qed

lemma score_from_canonical:
  assumes "gnn_score_from pl content_hash provider observations r a = Some (Ok res)"
  shows "score_canonical pl provider r a (sort_key canonical_key observations) = Some res" "request_ok r"
    "weights_ok (gq_feature_dimensions r) (ga_hidden_dimensions a) (ga_weights a)"
proof -
  obtain u where checks: "score_checks pl content_hash r a = Ok u" using assms by (cases "score_checks pl content_hash r a") (auto simp: gnn_score_from_def checked_def)
  then obtain v w where ok: "validate_gnn_request pl r = Ok v" "validate_gnn_artifact content_hash a = Ok w" "validate_request_artifact r a = Ok u"
    by (auto simp: score_checks_def result_simps)
  show request: "request_ok r" by (rule validate_request_ok [OF ok(1)])
  show "weights_ok (gq_feature_dimensions r) (ga_hidden_dimensions a) (ga_weights a)"
    using artifact_shapes [OF ok(2,3) request] by simp
  have score: "score_observations pl provider observations r a = Some (Ok res)" using assms checks by (simp add: gnn_score_from_def checked_def)
  then obtain vs where vs: "canonical_observations observations (gq_maximum_nodes r) = Ok vs"
    by (cases "canonical_observations observations (gq_maximum_nodes r)") (auto simp: score_observations_def)
  then show "score_canonical pl provider r a (sort_key canonical_key observations) = Some res"
    using score canonical_observations_mset(1) [OF vs] by (auto simp: score_observations_def)
qed

text \<open>C39: A score names every transition with enough observations exactly once, and no other. The support of a signal is the number of
  observations of its transition, and its count of slow ones is the number of those that last longer than the threshold of the artifact for
  that transition (the global one when it has none).\<close>

theorem gnn_signals_complete:
  assumes "gnn_score_from pl content_hash provider observations r a = Some (Ok res)"
  shows "distinct (map gnn_signal_key (gr_signals res)) \<and>
    (\<forall>k. k \<in> gnn_signal_key ` set (gr_signals res) \<longleftrightarrow> on_edge observations k \<noteq> [] \<and> ga_minimum_support a \<le> length (on_edge observations k)) \<and>
    (\<forall>s \<in> set (gr_signals res). gs_support s = length (on_edge observations (gnn_signal_key s)) \<and>
      gs_observed_slow_count s = length (filter (is_slow (ga_global_threshold_seconds a) (threshold_map (ga_edge_thresholds a))) (on_edge observations (gnn_signal_key s))))"
proof -
  let ?vs = "sort_key canonical_key observations" and ?slow = "is_slow (ga_global_threshold_seconds a) (threshold_map (ga_edge_thresholds a))"
  note canonical = score_from_canonical [OF assms]
  have dims: "16 \<le> gq_feature_dimensions r" using canonical(2) by (simp add: request_ok_def)
  obtain groups where g: "gr_signals res = gnn_signals a groups" "bt_inv groups"
    "\<forall>k. group_ok (ga_global_threshold_seconds a) (threshold_map (ga_edge_thresholds a)) (on_edge ?vs k) (bt_get groups k)"
    using score_canonical_signals [OF canonical(1) dims canonical(3)] by blast
  have same: "mset (on_edge ?vs k) = mset (on_edge observations k)" for k by (rule on_edge_perm) simp
  have counts: "length (on_edge ?vs k) = length (on_edge observations k)" "(on_edge ?vs k = []) = (on_edge observations k = [])"
    "length (filter ?slow (on_edge ?vs k)) = length (filter ?slow (on_edge observations k))" for k
    using same [of k] by (metis size_mset, metis mset_zero_iff, metis mset_filter size_mset)
  have group: "(k, v) \<in> set groups \<Longrightarrow> on_edge observations k \<noteq> [] \<and> sa_support v = length (on_edge observations k) \<and>
      sa_observed_slow_count v = length (filter ?slow (on_edge observations k))" for k v
    using spec [OF g(3), of k] bt.entries_in [OF g(2), of k v] counts [of k] by (simp add: group_ok_def)
  have present: "\<exists>v. (k, v) \<in> set groups" if "on_edge observations k \<noteq> []" for k
    using spec [OF g(3), of k] that counts(2) [of k] bt.entries_in [OF g(2), of k] by (cases "bt_get groups k") (auto simp: group_ok_def)
  have "k \<in> gnn_signal_key ` set (gr_signals res) \<longleftrightarrow> (\<exists>v. (k, v) \<in> set groups \<and> ga_minimum_support a \<le> sa_support v)" for k
    unfolding g(1) image_iff Bex_def gnn_signals_in by (metis gnn_signal_key_of fst_conv)
  then have keys: "k \<in> gnn_signal_key ` set (gr_signals res) \<longleftrightarrow> on_edge observations k \<noteq> [] \<and> ga_minimum_support a \<le> length (on_edge observations k)" for k
    using group present by metis
  have "gs_support s = length (on_edge observations (gnn_signal_key s)) \<and> gs_observed_slow_count s = length (filter ?slow (on_edge observations (gnn_signal_key s)))"
    if s: "s \<in> set (gr_signals res)" for s
  proof -
    obtain k v where kv: "(k, v) \<in> set groups" "s = gnn_signal_of (k, v)" using s unfolding g(1) gnn_signals_in by blast
    moreover have "gs_support (gnn_signal_of (k, v)) = sa_support v" "gs_observed_slow_count (gnn_signal_of (k, v)) = sa_observed_slow_count v"
      by (simp_all add: gnn_signal_of_def split: prod.splits)
    ultimately show ?thesis using group [OF kv(1)] by simp
  qed
  then show ?thesis using keys gnn_signals_keys [OF g(2), of a] g(1) by simp
qed

definition sample_request :: gnn_request where
  "sample_request = default_gnn_request\<lparr>gq_feature_dimensions := 16, gq_hidden_dimensions := 1, gq_minimum_support := 2\<rparr>"

definition sample_artifact :: gnn_artifact where
  "sample_artifact = \<lparr>ga_semantic_version = ''1.0'', ga_algorithm = gnn_algorithm, ga_model_hash = ''hash'', ga_feature_dimensions = 16,
     ga_hidden_dimensions = 1, ga_maximum_neighbors = 32, ga_minimum_support = 2, ga_resource_attribute = ''org:resource'', ga_seed = 1,
     ga_global_threshold_seconds = f64_zero, ga_edge_thresholds = [], ga_weights = initialize_weights 16 1 1,
     ga_training = \<lparr>gt_training_count = 2, gt_validation_count = 1, gt_positive_training_count = 1, gt_epochs_completed = 1,
       gt_training_loss = f64_zero, gt_validation_loss = f64_zero, gt_validation_auc = None, gt_validation_accuracy = f64_zero, gt_early_stopped = False\<rparr>,
     ga_warnings = []\<rparr>"

lemma sample_request_valid: "validate_gnn_request sample_platform sample_request = Ok ()"
  by code_simp

lemma sample_canonical: "canonical_observations sample_transitions (gq_maximum_nodes sample_request) = Ok sample_transitions"
  by code_simp

lemma sample_checks: "score_checks sample_platform (\<lambda>_. Ok ''hash'') sample_request sample_artifact = Ok ()"
proof -
  have "weights_ok 16 1 (initialize_weights 16 1 1)" by (rule initialize_weights_ok)
  then have "gnn_shapes_ok sample_artifact" by (simp add: gnn_shapes_ok_def weights_ok_def sample_artifact_def u64_wrapping_mul_def)
  then have "validate_gnn_artifact (\<lambda>_. Ok ''hash'') sample_artifact = Ok ()" by (simp add: validate_gnn_artifact_def ensure_def sample_artifact_def)
  moreover have "validate_request_artifact sample_request sample_artifact = Ok ()"
    by (simp add: validate_request_artifact_def ensure_def sample_artifact_def sample_request_def default_gnn_request_def)
  ultimately show ?thesis by (simp add: score_checks_def sample_request_valid)
qed

lemma sample_score: "\<exists>res. gnn_score_from sample_platform (\<lambda>_. Ok ''hash'') ''local'' sample_transitions sample_request sample_artifact = Some (Ok res)"
proof -
  have "request_ok sample_request" by (rule validate_request_ok [OF sample_request_valid])
  moreover have "weights_ok (gq_feature_dimensions sample_request) (gq_hidden_dimensions sample_request) (ga_weights sample_artifact)"
    "ga_hidden_dimensions sample_artifact = gq_hidden_dimensions sample_request"
    using initialize_weights_ok [of 16 1 1] by (simp_all add: sample_request_def sample_artifact_def)
  ultimately obtain res where "score_observations sample_platform ''local'' sample_transitions sample_request sample_artifact = Some res"
    using score_observations_total by blast
  then show ?thesis using sample_canonical sample_checks by (auto simp: gnn_score_from_def checked_def score_observations_def)
qed

theorem gnn_signals_complete_witness:
  "\<exists>res. gnn_score_from sample_platform (\<lambda>_. Ok ''hash'') ''local'' sample_transitions sample_request sample_artifact = Some (Ok res) \<and>
    (\<exists>s \<in> set (gr_signals res). gnn_signal_key s = (''order'', ''pack'', ''ship'') \<and> gs_support s = 3)"
proof -
  obtain res where res: "gnn_score_from sample_platform (\<lambda>_. Ok ''hash'') ''local'' sample_transitions sample_request sample_artifact = Some (Ok res)"
    using sample_score ..
  have edge: "on_edge sample_transitions (''order'', ''pack'', ''ship'') = sample_transitions" by code_simp
  have min: "ga_minimum_support sample_artifact = 2" "length sample_transitions = 3" by (simp_all add: sample_artifact_def sample_transitions_def)
  have "(''order'', ''pack'', ''ship'') \<in> gnn_signal_key ` set (gr_signals res)"
    using gnn_signals_complete [OF res] edge min by (auto simp: sample_transitions_def)
  then obtain s where "s \<in> set (gr_signals res)" "gnn_signal_key s = (''order'', ''pack'', ''ship'')" by auto
  then show ?thesis using res gnn_signals_complete [OF res] edge min by auto
qed

end
