(* ===== verification/AucFacts.thy ===== *)
theory AucFacts
  imports GnnNetwork BottleneckStats
begin

text \<open>
  The area under the curve of \<open>crates/ocpm-gnn\<close>: the walk over rows sorted by probability, with average ranks for ties, computes the
  share of pairs of a slow and a fast observation in which the slow one has the greater probability, a tie counting one half.
\<close>

section \<open>Half integers\<close>

definition halves :: "nat \<Rightarrow> f64" where
  "halves n = F_fin (of_nat n / 2)"

lemma round_mag_half_exact:
  assumes "0 < n" "n < 2 ^ 53"
  shows "round_mag (of_nat n / 2) = of_nat n / 2"
proof (rule round_mag_grid)
  let ?q = "of_nat n / 2 :: rat"
  let ?e = "max (ilog2 ?q - 52) (-1074)"
  have "(of_nat n :: rat) < of_nat (2 ^ 53)" using assms(2) by (simp only: of_nat_less_iff)
  then have "?q < 2 powi 52" by simp
  moreover have "(2::rat) powi ilog2 ?q \<le> ?q" using assms(1) by (intro ilog2_bounds(1)) simp
  ultimately have "(2::rat) powi ilog2 ?q < 2 powi 52" by (rule le_less_trans [rotated])
  then have "ilog2 ?q < 52" unfolding powi_less_iff .
  then have "?e \<le> -1" by simp
  then have "(2::rat) powi (-1) = of_int (2 ^ nat (-1 - ?e)) * 2 powi ?e" by (rule powi_multiple)
  then have "(1 / 2 :: rat) = of_int (2 ^ nat (-1 - ?e)) * ulp ?q" by (simp add: ulp_def power_int_minus field_simps)
  then have "of_int (int n) * (1 / 2 :: rat) = of_int (int n * 2 ^ nat (-1 - ?e)) * ulp ?q" by (simp add: mult.assoc)
  then show "?q = of_int (int n * 2 ^ nat (-1 - ?e)) * ulp ?q" by simp
qed

lemma f64_round_half:
  assumes "n < 2 ^ 53"
  shows "f64_round (of_nat n / 2) = halves n"
proof (cases "n = 0")
  case False
  have "(of_nat n :: rat) < of_nat (2 ^ 53)" using assms by (simp only: of_nat_less_iff)
  then have "of_nat n / 2 < f64_limit" by (simp add: f64_limit_def)
  then show ?thesis using False round_mag_half_exact [of n] assms by (simp add: f64_round_def halves_def Let_def)
qed (simp add: halves_def)

lemma half_of_nat: "n < 2 ^ 53 \<Longrightarrow> f64_div (f64_of_nat n) (F_fin 2) = halves n"
  using f64_round_half [of n] by (simp add: f64_of_nat_exact f64_div_def f64_signed_zero_def halves_def)

lemma mul_half:
  assumes "p < 2 ^ 53" "p * m < 2 ^ 53"
  shows "f64_mul (f64_of_nat p) (halves m) = halves (p * m)"
proof -
  have "of_nat p * (of_nat m / 2) = (of_nat (p * m) / 2 :: rat)" by simp
  then show ?thesis using f64_round_half [OF assms(2)] assms(1)
    by (auto simp: f64_of_nat_exact f64_mul_def f64_signed_zero_def halves_def Let_def)
qed

lemma add_half:
  assumes "a + b < 2 ^ 53"
  shows "f64_add (halves a) (halves b) = halves (a + b)"
  using f64_round_half [OF assms] by (simp add: halves_def add_divide_distrib)

lemma sub_half:
  assumes "2 * m \<le> a" "a < 2 ^ 53"
  shows "f64_sub (halves a) (f64_of_nat m) = halves (a - 2 * m)"
proof (cases "m = 0")
  case False
  have "of_nat a / 2 - of_nat m = (of_nat (a - 2 * m) / 2 :: rat)" using assms(1) by (simp add: of_nat_diff diff_divide_distrib)
  moreover have "a - 2 * m < 2 ^ 53" using assms(2) by linarith
  ultimately have "f64_round (of_nat a / 2 - of_nat m) = halves (a - 2 * m)" using f64_round_half by (simp only:)
  then show ?thesis using assms False by (simp add: f64_of_nat_exact f64_sub_def halves_def)
qed (simp add: f64_sub_def halves_def)

section \<open>Ranks\<close>

type_synonym scored = "f32 \<times> f32"

abbreviation key_of :: "scored \<Rightarrow> int \<times> rat" where
  "key_of x \<equiv> f64_rank (fst x)"

abbreviation slow :: "scored \<Rightarrow> bool" where
  "slow x \<equiv> is_positive (snd x)"

text \<open>Twice the average rank of a row, and twice the credit of a pair.\<close>

definition pair_points :: "scored \<Rightarrow> scored \<Rightarrow> nat" where
  "pair_points x y = (if key_of y < key_of x then 2 else if key_of y = key_of x then 1 else 0)"

definition double_rank :: "scored list \<Rightarrow> scored \<Rightarrow> nat" where
  "double_rank rows x = sum_list (map (pair_points x) rows) + 1"

definition double_rank_sum :: "scored list \<Rightarrow> scored list \<Rightarrow> nat" where
  "double_rank_sum rows part = sum_list (map (double_rank rows) (filter slow part))"

lemma points_constant: "(\<And>y. y \<in> set ys \<Longrightarrow> f y = (c :: nat)) \<Longrightarrow> sum_list (map f ys) = c * length ys"
  by (induction ys) auto

lemma pair_points_cases:
  "key_of y < key_of x \<Longrightarrow> pair_points x y = 2" "key_of y = key_of x \<Longrightarrow> pair_points x y = 1" "key_of x < key_of y \<Longrightarrow> pair_points x y = 0"
proof -
  show "pair_points x y = 2" if "key_of y < key_of x" unfolding pair_points_def if_P [OF that] ..
  show "pair_points x y = 1" if "key_of y = key_of x" unfolding pair_points_def that by simp
  show "pair_points x y = 0" if "key_of x < key_of y"
    unfolding pair_points_def if_not_P [OF less_not_sym [OF that]] if_not_P [OF less_imp_neq [OF that, symmetric]] ..
qed

lemma double_rank_group:
  assumes "\<forall>y \<in> set front. key_of y < key_of x" "\<forall>y \<in> set block. key_of y = key_of x" "\<forall>y \<in> set upper. key_of x < key_of y"
  shows "double_rank (front @ block @ upper) x = 2 * length front + length block + 1"
proof -
  have "\<forall>y \<in> set front. pair_points x y = 2" "\<forall>y \<in> set block. pair_points x y = 1" "\<forall>y \<in> set upper. pair_points x y = 0"
    using assms pair_points_cases [where x = x] by blast+
  then have "sum_list (map (pair_points x) front) = 2 * length front" "sum_list (map (pair_points x) block) = 1 * length block"
    "sum_list (map (pair_points x) upper) = 0 * length upper"
    by (simp_all only: points_constant)
  then show ?thesis by (simp add: double_rank_def)
qed

lemma rank_sum_walk:
  assumes "\<forall>x \<in> set (front @ rows). fst x \<noteq> F_nan" "sorted (map key_of rows)" "\<forall>x \<in> set front. \<forall>y \<in> set rows. key_of x < key_of y"
    "s + double_rank_sum (front @ rows) rows < 2 ^ 53" "length (front @ rows) < 2 ^ 51"
  shows "rank_sum rows (length front) (halves s) = halves (s + double_rank_sum (front @ rows) rows)"
  using assms
proof (induction "length rows" arbitrary: front rows s rule: less_induct)
  case less
  show ?case
  proof (cases rows)
    case (Cons r rest)
    define same where "same = takeWhile (\<lambda>x. f64_eq (fst x) (fst r)) rest"
    define upper where "upper = drop (length same) rest"
    have rest: "rest = same @ upper" unfolding same_def upper_def by (metis takeWhile_dropWhile_id dropWhile_eq_drop)
    have numbers: "\<forall>x \<in> set rows. fst x \<noteq> F_nan" using less.prems(1) by simp
    have equal: "f64_eq (fst x) (fst r) \<longleftrightarrow> key_of x = key_of r" if "x \<in> set rows" for x
      using numbers that Cons by (intro f64_eq_rank) auto
    have group: "\<forall>x \<in> set (r # same). key_of x = key_of r"
      using equal Cons unfolding same_def by (auto dest: set_takeWhileD)
    have above: "\<forall>y \<in> set upper. key_of r < key_of y"
    proof (cases upper)
      case (Cons y ys)
      have "\<not> f64_eq (fst y) (fst r)" using nth_length_takeWhile [of "\<lambda>x. f64_eq (fst x) (fst r)" rest] rest Cons
        unfolding same_def [symmetric] by (simp add: nth_append)
      then have "key_of y \<noteq> key_of r" using equal [of y] rest Cons \<open>rows = r # rest\<close> by auto
      moreover have "sorted (map key_of (r # same @ y # ys))" using less.prems(2) rest Cons \<open>rows = r # rest\<close> by simp
      ultimately show ?thesis using Cons by (force simp: sorted_append)
    qed simp
    let ?m = "2 * length front + length (r # same) + 1" and ?p = "length (filter slow (r # same))"
    have rank: "double_rank (front @ rows) x = ?m" if "x \<in> set (r # same)" for x
    proof -
      have x: "key_of x = key_of r" using group that by blast
      have r: "r \<in> set rows" using Cons by simp
      have "double_rank (front @ (r # same) @ upper) x = ?m"
      proof (rule double_rank_group)
        show "\<forall>y \<in> set front. key_of y < key_of x" unfolding x using less.prems(3) r by blast
        show "\<forall>y \<in> set (r # same). key_of y = key_of x" unfolding x by (rule group)
        show "\<forall>y \<in> set upper. key_of x < key_of y" unfolding x by (rule above)
      qed
      moreover have "front @ rows = front @ (r # same) @ upper" using Cons rest by simp
      ultimately show ?thesis by (simp only:)
    qed
    have split: "double_rank_sum (front @ rows) rows = ?p * ?m + double_rank_sum ((front @ r # same) @ upper) upper"
    proof -
      have "sum_list (map (double_rank (front @ rows)) (filter slow (r # same))) = ?m * length (filter slow (r # same))"
        by (rule points_constant, rule rank, rule subsetD [OF filter_is_subset])
      moreover have parts: "filter slow rows = filter slow (r # same) @ filter slow upper" "front @ rows = (front @ r # same) @ upper" using Cons rest by simp_all
      ultimately show ?thesis unfolding double_rank_sum_def parts(1) map_append sum_list_append mult.commute [of ?p ?m] by (simp only: parts(2))
    qed
    have bound: "s + ?p * ?m + double_rank_sum ((front @ r # same) @ upper) upper < 2 ^ 53" using less.prems(4) unfolding split by simp
    have "length front + length (r # same) < 2 ^ 51" using less.prems(5) Cons rest by simp
    then have small: "?m < 2 ^ 53" "length (r # same) < 2 ^ 53" by simp_all
    have p: "?p < 2 ^ 53" by (rule le_less_trans [OF length_filter_le small(2)])
    have step: "f64_add (halves s) (f64_mul (f64_of_nat ?p) (f64_div (f64_of_nat (length front + 1 + (length front + 1 + length same))) (F_fin 2))) = halves (s + ?p * ?m)"
    proof -
      have "length front + 1 + (length front + 1 + length same) = ?m" by simp
      moreover have "s + ?p * ?m < 2 ^ 53" "?p * ?m < 2 ^ 53" using bound by linarith+
      ultimately show ?thesis using small(1) p by (simp only: half_of_nat mul_half add_half)
    qed
    have low: "\<forall>x \<in> set front. \<forall>y \<in> set upper. key_of x < key_of y" using less.prems(3) Cons rest by simp
    have high: "\<forall>x \<in> set (r # same). \<forall>y \<in> set upper. key_of x < key_of y"
    proof (intro ballI)
      fix x y assume "x \<in> set (r # same)" "y \<in> set upper"
      then have "key_of x = key_of r" "key_of r < key_of y" using group above by blast+
      then show "key_of x < key_of y" by (simp only:)
    qed
    have "rank_sum upper (length (front @ r # same)) (halves (s + ?p * ?m)) = halves (s + ?p * ?m + double_rank_sum ((front @ r # same) @ upper) upper)"
    proof (rule less.hyps)
      show "length upper < length rows" using Cons rest by simp
      show "\<forall>x \<in> set ((front @ r # same) @ upper). fst x \<noteq> F_nan" using less.prems(1) Cons rest by auto
      show "sorted (map key_of upper)" using less.prems(2) Cons rest by (simp add: sorted_append)
      show "\<forall>x \<in> set (front @ r # same). \<forall>y \<in> set upper. key_of x < key_of y" unfolding set_append ball_Un using low high by blast
      show "s + ?p * ?m + double_rank_sum ((front @ r # same) @ upper) upper < 2 ^ 53" by (rule bound)
      show "length ((front @ r # same) @ upper) < 2 ^ 51" using less.prems(5) Cons rest by simp
    qed
    then show ?thesis using step split Cons unfolding Cons rank_sum.simps Let_def same_def [symmetric] upper_def [symmetric]
      by (simp add: comp_def add.assoc)
  qed (simp add: double_rank_sum_def)
qed

section \<open>Pairs\<close>

definition cold :: "scored list \<Rightarrow> scored list" where
  "cold rows = filter (\<lambda>x. \<not> slow x) rows"

definition hot :: "scored list \<Rightarrow> scored list" where
  "hot rows = filter slow rows"

lemma points_sum: "pair_points x y + pair_points y x = 2"
  by (rule linorder_cases [of "key_of x" "key_of y"]) (simp_all only: pair_points_cases)

lemma points_square: "(\<Sum>x \<leftarrow> xs. \<Sum>y \<leftarrow> xs. pair_points x y) = length xs * length xs"
proof (induction xs)
  case (Cons a xs)
  have "(\<Sum>y \<leftarrow> xs. pair_points a y) + (\<Sum>y \<leftarrow> xs. pair_points y a) = (\<Sum>y \<leftarrow> xs. 2)"
    unfolding sum_list_addf [symmetric] points_sum ..
  moreover have "(\<Sum>y \<leftarrow> xs. 2) = 2 * length xs" by (rule points_constant) simp
  moreover have "pair_points a a = 1" by (rule pair_points_cases) simp
  moreover have "(\<Sum>x \<leftarrow> a # xs. \<Sum>y \<leftarrow> a # xs. pair_points x y) =
      pair_points a a + (\<Sum>y \<leftarrow> xs. pair_points a y) + ((\<Sum>x \<leftarrow> xs. pair_points x a) + (\<Sum>x \<leftarrow> xs. \<Sum>y \<leftarrow> xs. pair_points x y))"
    by (simp add: sum_list_addf)
  ultimately show ?case using Cons by simp
qed simp

lemma sum_list_split: "(\<Sum>x \<leftarrow> xs. f x) = (\<Sum>x \<leftarrow> filter P xs. f x) + (\<Sum>x \<leftarrow> filter (\<lambda>x. \<not> P x) xs. (f x :: nat))"
  by (induction xs) auto

lemma double_rank_sum_pairs:
  "double_rank_sum rows rows = length (hot rows) * (length (hot rows) + 1) + (\<Sum>x \<leftarrow> hot rows. \<Sum>y \<leftarrow> cold rows. pair_points x y)"
proof -
  have "double_rank_sum rows rows = (\<Sum>x \<leftarrow> hot rows. (\<Sum>y \<leftarrow> hot rows. pair_points x y) + ((\<Sum>y \<leftarrow> cold rows. pair_points x y) + 1))"
    unfolding double_rank_sum_def double_rank_def hot_def cold_def sum_list_split [of "pair_points _" rows slow] by (simp add: add.assoc)
  also have "\<dots> = length (hot rows) * length (hot rows) + ((\<Sum>x \<leftarrow> hot rows. \<Sum>y \<leftarrow> cold rows. pair_points x y) + (\<Sum>x \<leftarrow> hot rows. 1))"
    unfolding sum_list_addf points_square ..
  also have "(\<Sum>x \<leftarrow> hot rows. 1) = 1 * length (hot rows)" by (rule points_constant) simp
  finally show ?thesis by simp
qed

lemma sum_list_perm: "mset xs = mset ys \<Longrightarrow> (\<Sum>x \<leftarrow> xs. f x) = (\<Sum>x \<leftarrow> ys. (f x :: nat))"
  by (metis mset_map sum_mset_sum_list)

lemma double_rank_sum_perm:
  assumes "mset xs = mset ys"
  shows "double_rank_sum xs xs = double_rank_sum ys ys"
proof -
  have "double_rank xs = double_rank ys" using sum_list_perm [OF assms] by (auto simp: double_rank_def)
  moreover have "mset (filter slow xs) = mset (filter slow ys)" using assms by (simp add: mset_filter)
  ultimately show ?thesis unfolding double_rank_sum_def by (metis sum_list_perm)
qed

lemma double_rank_sum_bound: "double_rank_sum rows rows \<le> length rows * (2 * length rows + 1)"
proof -
  have le: "pair_points x y \<le> 2" for x y by (simp add: pair_points_def)
  have "sum_list (map (pair_points x) ys) \<le> 2 * length ys" for x ys
  proof (induction ys)
    case (Cons y ys)
    then show ?case using le [of x y] by simp
  qed simp
  then have rank: "double_rank rows x \<le> 2 * length rows + 1" for x by (simp add: double_rank_def)
  have "sum_list (map (double_rank rows) xs) \<le> length xs * (2 * length rows + 1)" for xs
  proof (induction xs)
    case (Cons x xs)
    then show ?case using rank [of x] by simp
  qed simp
  from this [of "filter slow rows"] show ?thesis unfolding double_rank_sum_def
    by (rule order_trans) (rule mult_le_mono1, rule length_filter_le)
qed

section \<open>The share of ordered pairs\<close>

definition pair_score :: "f32 \<Rightarrow> f32 \<Rightarrow> rat" where
  "pair_score p q = (if f64_lt q p then 1 else if f64_eq q p then 1 / 2 else 0)"

definition ordered_pairs :: "scored list \<Rightarrow> rat" where
  "ordered_pairs rows = (\<Sum>x \<leftarrow> hot rows. \<Sum>y \<leftarrow> cold rows. pair_score (fst x) (fst y))"

lemma pair_score_points:
  "fst x \<noteq> F_nan \<Longrightarrow> fst y \<noteq> F_nan \<Longrightarrow> pair_score (fst x) (fst y) = of_nat (pair_points x y) / 2"
  unfolding pair_score_def pair_points_def by (simp add: f64_lt_rank f64_eq_rank)

lemma ordered_pairs_points:
  assumes "\<forall>x \<in> set rows. fst x \<noteq> F_nan"
  shows "ordered_pairs rows = of_nat (\<Sum>x \<leftarrow> hot rows. \<Sum>y \<leftarrow> cold rows. pair_points x y) / 2"
proof -
  have inner: "(\<Sum>y \<leftarrow> ys. pair_score (fst x) (fst y)) = of_nat (\<Sum>y \<leftarrow> ys. pair_points x y) / 2"
    if "fst x \<noteq> F_nan" "\<forall>y \<in> set ys. fst y \<noteq> F_nan" for x ys
    using that(2) by (induction ys) (simp_all add: pair_score_points [OF that(1)] add_divide_distrib)
  have "(\<Sum>x \<leftarrow> xs. \<Sum>y \<leftarrow> ys. pair_score (fst x) (fst y)) = of_nat (\<Sum>x \<leftarrow> xs. \<Sum>y \<leftarrow> ys. pair_points x y) / 2"
    if "\<forall>x \<in> set xs. fst x \<noteq> F_nan" "\<forall>y \<in> set ys. fst y \<noteq> F_nan" for xs ys
    using that(1) by (induction xs) (simp_all add: inner [OF _ that(2)] add_divide_distrib)
  then show ?thesis unfolding ordered_pairs_def using assms by (simp add: hot_def cold_def)
qed

lemma zip_positives:
  assumes "length probabilities = length labels"
  shows "length (filter is_positive labels) = length (hot (zip probabilities labels))"
    "length labels - length (filter is_positive labels) = length (cold (zip probabilities labels))"
proof -
  have "filter is_positive labels = map snd (hot (zip probabilities labels))"
    using filter_map [of is_positive snd "zip probabilities labels"] assms by (simp add: hot_def comp_def)
  then show hot: "length (filter is_positive labels) = length (hot (zip probabilities labels))" by simp
  have "length (hot rows) + length (cold rows) = length rows" for rows
    unfolding hot_def cold_def by (rule sum_length_filter_compl)
  from this [of "zip probabilities labels"] show "length labels - length (filter is_positive labels) = length (cold (zip probabilities labels))"
    using assms hot by simp
qed

text \<open>C40: The walk over the rows sorted by probability, with the average of the ranks for ties, is the Mann-Whitney statistic: when both
  labels occur, the area under the curve is the number of pairs of a slow and a fast observation in which the slow one has the greater
  probability, ties counting one half, over the number of pairs, rounded once. Every sum of ranks before the division is exact.\<close>

theorem auc_is_mann_whitney:
  assumes "length probabilities = length labels" "length labels \<le> 2 ^ 25" "F_nan \<notin> set probabilities"
  shows "auc probabilities labels = (let rows = zip probabilities labels; p = length (hot rows); n = length (cold rows) in
    if p = 0 \<or> n = 0 then None else Some (f64_round (ordered_pairs rows / (of_nat p * of_nat n))))"
proof -
  define rows where "rows = zip probabilities labels"
  define p where "p = length (hot rows)"
  define n where "n = length (cold rows)"
  define u where "u = (\<Sum>x \<leftarrow> hot rows. \<Sum>y \<leftarrow> cold rows. pair_points x y)"
  define ranked where "ranked = sort_by (\<lambda>l r. f64_total_le (fst l) (fst r)) rows"
  have len: "length rows \<le> 2 ^ 25" using assms(1,2) by (simp add: rows_def)
  have fsts: "map fst rows = probabilities" using assms(1) by (simp add: rows_def)
  have ranked: "mset ranked = mset rows" "length ranked = length rows" by (simp_all add: ranked_def)
  have "map fst ranked = sort_by f64_total_le probabilities" unfolding ranked_def map_sort_by fsts ..
  then have "sorted (map f64_rank (map fst ranked))" using total_sorted_ascending [OF assms(3)] by (simp add: ascending_def)
  then have sorted: "sorted (map key_of ranked)" by (simp add: comp_def)
  have numbers: "\<forall>x \<in> set rows. fst x \<noteq> F_nan" using assms(3) fsts by (metis list.set_map image_eqI)
  then have numbers': "\<forall>x \<in> set ranked. fst x \<noteq> F_nan" using ranked(1) by (metis set_mset_mset)
  have total: "double_rank_sum ranked ranked = p * (p + 1) + u"
    using double_rank_sum_perm [OF ranked(1)] double_rank_sum_pairs [of rows] by (simp add: p_def u_def)
  have "double_rank_sum ranked ranked \<le> 2 ^ 25 * (2 * 2 ^ 25 + 1)"
    using double_rank_sum_bound [of ranked] unfolding ranked(2) by (rule order_trans) (use len in \<open>intro mult_le_mono add_mono; simp\<close>)
  then have small: "p * (p + 1) + u < 2 ^ 53" unfolding total by simp
  have "length ranked < 2 ^ 51" using len ranked(2) by simp
  then have walk: "rank_sum ranked 0 (halves 0) = halves (p * (p + 1) + u)"
    using rank_sum_walk [of "[]" ranked 0] numbers' sorted small total by simp
  have even: "2 * (p * (p + 1) div 2) = p * (p + 1)" by simp
  have sub: "f64_sub (halves (p * (p + 1) + u)) (f64_of_nat (p * (p + 1) div 2)) = halves u"
    using sub_half [of "p * (p + 1) div 2" "p * (p + 1) + u"] small unfolding even by simp
  have "p + n = length rows" unfolding p_def n_def hot_def cold_def by (rule sum_length_filter_compl)
  then have pn: "p \<le> 2 ^ 25" "n \<le> 2 ^ 25" using len by linarith+
  then have "p * n \<le> 2 ^ 25 * 2 ^ 25" "p * (p + 1) \<le> 2 ^ 25 * (2 ^ 25 + 1)" by (intro mult_le_mono add_mono; simp)+
  then have products: "u64_wrapping_mul p n = p * n" "u64_wrapping_mul p (p + 1) = p * (p + 1)" "p * n < 2 ^ 53"
    by (simp_all add: u64_wrapping_mul_def)
  have divide: "f64_div (halves u) (f64_of_nat (p * n)) = f64_round (of_nat u / 2 / (of_nat p * of_nat n))" if "p \<noteq> 0" "n \<noteq> 0"
  proof -
    have "\<not> of_nat p * of_nat n < (0 :: rat)" by (simp add: not_less)
    then show ?thesis using that products(3) by (simp add: f64_div_def halves_def f64_of_nat_exact f64_signed_zero_def)
  qed
  have pairs: "ordered_pairs rows = of_nat u / 2" unfolding u_def by (rule ordered_pairs_points [OF numbers])
  have counts: "length (filter is_positive labels) = p" "length labels - p = n"
    using zip_positives [OF assms(1)] by (simp_all add: p_def n_def rows_def)
  have "auc probabilities labels = (if p = 0 \<or> n = 0 then None
      else Some (f64_div (f64_sub (rank_sum ranked 0 f64_zero) (f64_of_nat (p * (p + 1) div 2))) (f64_of_nat (p * n))))"
    unfolding auc_def Let_def counts rows_def [symmetric] ranked_def [symmetric] products(1,2) ..
  also have "\<dots> = (if p = 0 \<or> n = 0 then None else Some (f64_round (ordered_pairs rows / (of_nat p * of_nat n))))"
  proof (cases "p = 0 \<or> n = 0")
    case False
    have zero: "f64_zero = halves 0" by (simp add: halves_def)
    show ?thesis using False divide unfolding zero walk sub pairs by simp
  qed simp
  finally show ?thesis unfolding Let_def rows_def [symmetric] p_def [symmetric] n_def [symmetric] .
qed

theorem auc_is_mann_whitney_witness:
  "auc [f64_one, f64_zero, f64_one] [f64_one, f64_zero, f64_zero] = Some (f64_round (3 / 4))"
proof -
  have "hot [(f64_one, f64_one), (f64_zero, f64_zero), (f64_one, f64_zero)] = [(f64_one, f64_one)]"
    "cold [(f64_one, f64_one), (f64_zero, f64_zero), (f64_one, f64_zero)] = [(f64_zero, f64_zero), (f64_one, f64_zero)]"
    by (simp_all add: hot_def cold_def is_positive_def half_def)
  then show ?thesis using auc_is_mann_whitney [of "[f64_one, f64_zero, f64_one]" "[f64_one, f64_zero, f64_zero]"]
    by (simp add: ordered_pairs_def pair_score_def Let_def)
qed

end
