(* ===== verification/Spec2Isabelle.thy ===== *)
theory Spec2Isabelle
  imports BindingCodec Local Discovery Conformance Prediction Engine Population DriftFacts GnnFacts AucFacts
begin

text \<open>
  A verification development for the OCPM engine, an object-centric process-mining engine in Rust
  (\<open>src/crates\<close>).

  \<^bold>\<open>The program.\<close> A canonical log holds events, objects, their relations and the history of object
  attributes. A provider answers queries over such a log: it cuts it into process executions, either one
  per leading object or one per connected component of objects, and evaluates constraints, profiles and
  snapshots over a dataset view. Discovery asks a provider for executions and mines a model from them, which
  it seals with a content hash into an artifact; conformance checking validates an artifact and compares
  it with the executions of a provider. Binding capsules and event batches are the byte formats that
  carry query results and partitions of events between processes. The analytics kernels work on rows of
  counts. Prediction, enhancement, the bottleneck analysis and the graph neural network that scores transitions work on the executions
  or on the adjacent event pairs of a provider, and the engine puts a mutable log with appends and populations before them.

  \<^bold>\<open>The theories and what they model.\<close>
  \<^item> \<open>Prelude\<close>: results as sums, fallible folds, adjacent windows, indexed lists, 64-bit saturating and
    wrapping arithmetic. \<open>BTree\<close>: \<open>BTreeMap\<close> and \<open>BTreeSet\<close> as sorted association lists; the locales
    \<open>ordered_map\<close> and \<open>counter_map\<close> state the interface and are interpreted on them. \<open>Ieee64\<close>: \<open>f64\<close> as exact
    rationals rounded to nearest even, with NaN, infinities and signed zeros.
  \<^item> \<open>CoreData\<close>: \<open>ocpm-core/src/error.rs\<close> and \<open>data.rs\<close>, the canonical log, its validation and its canonical
    order.
  \<^item> \<open>BindingCursor\<close>, \<open>Binding\<close>, \<open>BindingCodec\<close>: \<open>ocpm-core/src/binding.rs\<close>, the varint cursor, the capsule formats
    with their reservations and their round trip.
  \<^item> \<open>EventBatch\<close>: \<open>ocpm-core/src/event_batch.rs\<close>, byte payloads of cases in both byte orders.
  \<^item> \<open>Kernels\<close>: \<open>ocpm-core/src/lib.rs\<close>, conformance, next-activity, bottleneck and drift kernels on counts.
  \<^item> \<open>Models\<close> and \<open>Requests\<close>: \<open>ocpm-core/src/model.rs\<close>, \<open>serialization.rs\<close>, \<open>request.rs\<close>, \<open>result.rs\<close> and
    \<open>ocpm-query/src/lib.rs\<close>.
  \<^item> \<open>Provider\<close>: \<open>ocpm-provider/src/lib.rs\<close>, execution contexts, populations and observations; the locale
    \<open>leading_provider\<close> is what the population resolver relies on.
  \<^item> \<open>UnionFind\<close> and \<open>Local\<close>: \<open>ocpm-local/src/lib.rs\<close>, the in-memory provider; \<open>Local\<close> interprets
    \<open>leading_provider\<close> on it, and \<open>UnionFind\<close> interprets \<open>partition\<close> on the disjoint-set forest.
  \<^item> \<open>ProcessTrees\<close> and \<open>Discovery\<close>: \<open>ocpm-discovery/src/lib.rs\<close>. \<open>Alignment\<close> and \<open>Conformance\<close>:
    \<open>ocpm-conformance/src/lib.rs\<close>. \<open>Prediction\<close>: \<open>ocpm-prediction/src/lib.rs\<close>, fitting, back-off and the temporal
    holdout. \<open>FloatOps\<close> holds the operations on \<open>f64\<close> that these and the following theories add to \<open>Ieee64\<close>.
  \<^item> The bottleneck analysis, \<open>ocpm-bottleneck/src/lib.rs\<close>: \<open>BottleneckData\<close> (requests, validation, statistics), \<open>Lifecycle\<close>
    (activity instances), \<open>Intervals\<close> (unions, overlaps and queues over time; its locale is the measure of a set of instants),
    \<open>Fenwick\<close> (the trees behind overtaking and inversion counts), \<open>Waiting\<close> (batching, overtaking and the split of a wait),
    \<open>Cascades\<close> (chains of blockers), \<open>Bottleneck\<close> (edges, synchronisation, drift, hypotheses and the analysis as a whole);
    facts about the statistics stand in \<open>BottleneckStats\<close>, about the analysis in \<open>BottleneckFacts\<close>.
  \<^item> \<open>Engine\<close> and \<open>Population\<close>: \<open>ocpm-engine/src/lib.rs\<close>, appends to a running engine, execution summaries, plans, and the
    bottleneck analysis of an explicit population.
  \<^item> \<open>Enhancement\<close>: \<open>ocpm-enhancement/src/lib.rs\<close>, process maps, timelines, histograms, performance intervals, rework,
    organisation and drift; facts in \<open>EnhancementFacts\<close> and \<open>DriftFacts\<close>. The locale \<open>ordered_provider\<close> is what the analyses rely on,
    executions in order of time; \<open>DriftFacts\<close> interprets it on the in-memory provider.
  \<^item> The graph-aware detector, \<open>ocpm-gnn/src/lib.rs\<close>: \<open>Ieee32\<close> (single precision as \<open>f64\<close> values rounded to 24 bits), \<open>GnnData\<close>
    (requests, artifacts, thresholds, labels, the message-passing graph and its features), \<open>GnnNetwork\<close> (forward and backward pass,
    optimiser, training, diagnostics), \<open>Gnn\<close> (fitting, scoring and the entry points). \<open>GnnGraph\<close> holds the facts on the graph, \<open>GnnTotal\<close>
    the shapes every pass keeps, \<open>GnnFacts\<close> what the detector promises and \<open>AucFacts\<close> the area under the curve.
  \<^item> This theory: discovery and conformance checking composed over an arbitrary provider.

  \<^bold>\<open>What is shown.\<close>
  \<^item> \<open>CoreData\<close>: validation accepts exactly the well-formed logs, and sorting is canonical. \<open>BindingCodec\<close>, \<open>Binding\<close>, \<open>EventBatch\<close>:
    capsules and batches decode to what was encoded, every decoded capsule iterates safely, and no allocation exceeds the input.
  \<^item> \<open>Kernels\<close>: the kernels compute what their definitions on counts say, independently of the row order where they promise it.
    \<open>Models\<close>, \<open>Requests\<close>, \<open>Provider\<close>: exports escape reversibly; queries, contexts and populations fail closed.
  \<^item> \<open>Local\<close>: constraints are evaluated as their declarative reading says, executions are the leading objects or the connected
    components (all object relations join, whatever their validity), and snapshots, queries and profiles agree with the view.
  \<^item> \<open>ProcessTrees\<close>, \<open>Discovery\<close>: the miners end and count what they claim; the alpha miner is the classic algorithm where no activity follows
    itself, and drops such pairs otherwise; on a log whose traces differ in length one of the miners panics.
    \<open>Alignment\<close>, \<open>Conformance\<close>: the alignment search is Dijkstra's algorithm within its state bound, for costs that are not the
    unit costs of the specification but stay within stated bounds of them; token replay without deviation is a firing sequence of
    the net, and decides them when labels are unique. In this theory: a discovered directly-follows graph fits the data it was mined from under
    both checks, and mined constraints carry the counts of the checker.
  \<^item> \<open>Prediction\<close>: fitting counts exactly the recorded contexts, prediction backs off to the longest context that was followed by something and answers
    with unsmoothed shares, and the holdout does not leak. \<open>Engine\<close>: histories of appends keep the engine well formed and lose nothing; an explicit population is
    analysed as its selector describes it.
  \<^item> Bottlenecks: no index leaves its array and every loop ends; the timeline and the interval walk measure the same union; overtaking,
    batching agrees with its reading over instances, the cascades are exactly the classes of chains of blockers, the signals exactly the
    edges with support; the Kolmogorov-Smirnov walk, the step-up correction and the
    temporal hypotheses are the statistics they are named after, with the counts on which the chi-square denominator overflows.
  \<^item> Enhancement: no analysis panics; the process map is the discovered directly-follows graph; bins count the sample; drift is
    symmetric and vanishes on equal paths, without the check for small samples and the smoothing that the specification asks for; over
    the in-memory provider no request panics, and a performance request fails when activities of an execution overlap, which the
    code takes for a broken order of events.
  \<^item> The detector: no index is ever out of range, whatever the observations, so fitting, scoring and detection return; the neighbours in
    the graph are sorted, bounded and related, and complete below the bound; the answer does not depend on the order of the
    observations; a score counts every transition with enough support; the area under the curve is the Mann-Whitney statistic. What the
    network learns is not characterised: it depends on the elementary functions of the platform.

  \<^bold>\<open>Results, loops and bounds.\<close> Errors are the left summand of \<open>ocpm_result\<close>. A panic or a loop that does not end is
  \<open>None\<close> of an outer option: \<open>kahn\<close>, \<open>process_tree_cut\<close>, \<open>align_loop\<close>, the disjoint-set forest, the walks over intervals and samples and
  every access by index of the bottleneck and enhancement analyses and of the detector are such, and each has a theorem that says when the value is \<open>Some\<close>.
  \<open>process_tree_cut\<close> stops at depth 128 as the code does and the alpha miner at 65536 candidates. Counters of the code that can wrap are
  kept modulo \<open>2 ^ 64\<close> (token replay, kernels); counters that only count values in memory are natural numbers. Arithmetic without checks
  wraps as in release builds. The bounds of the theorems on the bottleneck analysis are those of data in memory: fewer than \<open>2 ^ 31\<close>
  observations, fewer than \<open>2 ^ 32\<close> values for an inversion count, samples of at most \<open>2 ^ 53\<close> values so that positions are exact, and instants
  within \<open>2 ^ 124\<close> nanoseconds for the interval measures. Sums of shares in the drift analysis assume counts of 64 bits. The detector is total up to \<open>2 ^ 53\<close> observations, where the position of a quantile
  is exact, and the ranks behind the area under the curve are exact up to \<open>2 ^ 25\<close> rows.

  \<^bold>\<open>Parameters.\<close> JSON values are a type variable with the readers the code calls (\<open>as_str\<close>, \<open>as_f64\<close>) and the
  constructors it uses; in \<open>Enhancement\<close> a group of a result is the value handed to the JSON library. The SHA-256 content hash of the
  canonical JSON text, the elementary functions of the platform (record \<open>platform\<close> for the detector), the clock, the order of a hash map and the required methods of a
  provider are function arguments.

  \<^bold>\<open>Not modelled.\<close> Serde derives, JSON text and the canonical hashing of \<open>ocpm-core/src/canonical.rs\<close> are calls into external
  crates. The DuckDB and PostgreSQL providers build SQL text that an external database runs: what their methods return is decided by
  code that is not in the repository. Import and export (\<open>ocpm-io\<close>) drive the JSON, XML, CSV and SQLite parsers of external crates. The trait
  for external backends of \<open>ocpm-gnn\<close> has no implementation. The Python
  bindings and the dispatching methods of the engine pass requests on to the components modelled here.
\<close>

section \<open>Discovery and conformance checking\<close>

lemma successively_windows2: "successively P xs \<longleftrightarrow> (\<forall>(a, b) \<in> set (windows2 xs). P a b)"
  by (induction xs rule: windows2.induct) auto

lemma windows2_snd: "snd ` set (windows2 xs) \<subseteq> set xs"
  by (induction xs rule: windows2.induct) auto

text \<open>The edges of a discovered graph are the adjacent pairs of its log.\<close>

lemma discovered_pairs:
  "(\<lambda>e. (de_source e, de_target e)) ` set (dfg_edges (discover_dfg es oc)) = (\<Union>e \<in> set es. set (path_pairs e))"
proof (intro set_eqI iffI)
  fix p assume "p \<in> (\<lambda>e. (de_source e, de_target e)) ` set (dfg_edges (discover_dfg es oc))"
  then obtain x where x: "x \<in> set (dfg_edges (discover_dfg es oc))" "p = (de_source x, de_target x)" by auto
  obtain a b t n where ab: "x = \<lparr>de_source = a, de_target = b, de_object_type = t, de_frequency = n\<rparr>" by (cases x)
  have "0 < count_list (concat (map (edge_keys oc) es)) (a, b, t)" using x(1) unfolding ab dfg_edge_in by simp
  then have "(a, b, t) \<in> set (concat (map (edge_keys oc) es))" by (metis count_list_0_iff less_numeral_extra(3))
  then show "p \<in> (\<Union>e \<in> set es. set (path_pairs e))" by (auto simp: x(2) ab edge_keys_def path_pairs_def)
next
  fix p assume "p \<in> (\<Union>e \<in> set es. set (path_pairs e))"
  then obtain e a b where e: "e \<in> set es" "p = (a, b)" "(a, b) \<in> set (windows2 (activity_path e))"
    by (cases p) (auto simp: path_pairs_def)
  define t where "t = execution_type oc e"
  define n where "n = count_list (concat (map (edge_keys oc) es)) (a, b, t)"
  have "(a, b, t) \<in> set (concat (map (edge_keys oc) es))" using e by (force simp: edge_keys_def t_def)
  then have "0 < n" unfolding n_def by (metis count_list_0_iff gr0I)
  then have "\<lparr>de_source = a, de_target = b, de_object_type = t, de_frequency = n\<rparr> \<in> set (dfg_edges (discover_dfg es oc))"
    by (simp add: dfg_edge_in n_def)
  then show "p \<in> (\<lambda>e. (de_source e, de_target e)) ` set (dfg_edges (discover_dfg es oc))" by (rule image_eqI [rotated]) (simp add: e(2))
qed

lemma discovered_boundaries:
  assumes "oc \<Longrightarrow> \<forall>e \<in> set es. unit_separator \<notin> set (pe_object_type e)"
  shows "set (bt_keys (dfg_start_activities (discover_dfg es oc))) = (\<lambda>e. hd (activity_path e)) ` {e \<in> set es. activity_path e \<noteq> []}"
    "set (bt_keys (dfg_end_activities (discover_dfg es oc))) = (\<lambda>e. last (activity_path e)) ` {e \<in> set es. activity_path e \<noteq> []}"
  using assms by (auto simp: bt_keys_dom discover_dfg_boundaries)

lemma discovered_listed:
  assumes "oc \<Longrightarrow> \<forall>e \<in> set es. unit_separator \<notin> set (pe_object_type e)"
  shows "activities_listed (discover_dfg es oc)"
proof -
  have "de_target ` set (dfg_edges (discover_dfg es oc)) \<subseteq> snd ` (\<lambda>e. (de_source e, de_target e)) ` set (dfg_edges (discover_dfg es oc))"
    by (simp add: image_image)
  also have "\<dots> \<subseteq> (\<Union>e \<in> set es. set (activity_path e))"
    unfolding discovered_pairs image_UN path_pairs_def by (intro UN_mono subset_refl windows2_snd)
  finally show ?thesis
    by (auto simp: activities_listed_def discovered_boundaries(1) [OF assms] discover_dfg_parts(1))
qed

lemma discovered_run:
  assumes "oc \<Longrightarrow> \<forall>e \<in> set es. unit_separator \<notin> set (pe_object_type e)" and e: "e \<in> set es" "activity_path e \<noteq> []"
  shows "dfg_run (discover_dfg es oc) (activity_path e)"
proof -
  have "\<exists>x \<in> set (dfg_edges (discover_dfg es oc)). de_source x = a \<and> de_target x = b"
    if "(a, b) \<in> set (windows2 (activity_path e))" for a b
  proof -
    have "(a, b) \<in> (\<lambda>e. (de_source e, de_target e)) ` set (dfg_edges (discover_dfg es oc))"
      unfolding discovered_pairs using that e(1) by (auto simp: path_pairs_def)
    then show ?thesis by auto
  qed
  then show ?thesis using e by (auto simp: dfg_run_def successively_windows2 discovered_boundaries [OF assms(1)])
qed

lemma validate_finalized:
  assumes "finalize_hash content_hash x = Ok a" "ma_schema_version x = ''1.0''"
  shows "validate_artifact content_hash a = Ok ()"
  using assms by (cases "content_hash (x\<lparr>ma_content_hash := []\<rparr>)") (auto simp: finalize_hash_def validate_artifact_def ensure_def Let_def)

text \<open>A successful discovery: the executions it mined and the artifact it sealed.\<close>

lemma discover_Ok:
  assumes "discover as_str as_f64 content_hash process_executions profile request = Some (Ok a)"
  obtains mode es where "dr_semantic_version request = ''1.0''"
    "discovery_mode as_str (dr_parameters request) = Ok mode"
    "process_executions (dr_view request) mode (Option.bind (bt_get (dr_parameters request) ''leading_object_type'') as_str) = Ok es"
    "es \<noteq> []" "discover_model as_f64 request es = Some (Ok (ma_model a))" "validate_artifact content_hash a = Ok ()"
proof -
  define leading where "leading = Option.bind (bt_get (dr_parameters request) ''leading_object_type'') as_str"
  have v: "dr_semantic_version request = ''1.0''" using assms by (simp add: discover_def split: if_splits)
  obtain mode where m: "discovery_mode as_str (dr_parameters request) = Ok mode"
    using assms v by (cases "discovery_mode as_str (dr_parameters request)") (simp_all add: discover_def)
  obtain es where e: "process_executions (dr_view request) mode leading = Ok es"
    using assms v m by (cases "process_executions (dr_view request) mode leading") (simp_all add: discover_def leading_def)
  have n: "es \<noteq> []" using assms v m e by (auto simp: discover_def leading_def Let_def)
  obtain pf where p: "profile (dr_view request) = Ok pf"
    using assms v m e n by (cases "profile (dr_view request)") (simp_all add: discover_def leading_def)
  obtain model where d: "discover_model as_f64 request es = Some (Ok model)"
    and f: "finalize_hash content_hash \<lparr>ma_schema_version = ''1.0'', ma_algorithm = algorithm_name (dr_algorithm request),
      ma_algorithm_version = dr_algorithm_version request, ma_parameters = dr_parameters request,
      ma_dataset_id = dp_dataset_id pf, ma_source_watermark = dp_source_watermark pf, ma_model = model,
      ma_content_hash = []\<rparr> = Ok a"
    using assms v m e n p by (auto simp: discover_def leading_def rbind_Ok_iff)
  have "ma_model a = model" using f by (auto simp: finalize_hash_def Let_def rbind_Ok_iff)
  then show thesis using that [OF v m e [unfolded leading_def] n] d validate_finalized [OF f] by simp
qed

lemma conformance_mode_discovery: "discovery_mode as_str parameters = Ok mode \<Longrightarrow> conformance_mode as_str parameters = mode"
  by (auto simp: discovery_mode_def conformance_mode_def split: option.splits if_splits)

definition check_request :: "'j discovery_request \<Rightarrow> conformance_method \<Rightarrow> 'j model_artifact \<Rightarrow> 'j conformance_request" where
  "check_request request method artifact = \<lparr>cq_semantic_version = ''1.0'', cq_view = dr_view request, cq_method = method,
     cq_model = artifact, cq_parameters = dr_parameters request\<rparr>"

definition mines_dfg :: "'j discovery_request \<Rightarrow> bool" where
  "mines_dfg request \<longleftrightarrow> dr_algorithm request = AlgDfg \<or> dr_algorithm request = AlgOcDfg"

lemma mined_dfg: "discover_model as_f64 request es = Some (Ok model) \<Longrightarrow> mines_dfg request \<Longrightarrow>
    model = Dfg (discover_dfg es (dr_algorithm request = AlgOcDfg))"
  by (auto simp: discover_model_def mines_dfg_def)

lemma conformance_ratio_self: "n \<le> u64_max \<Longrightarrow> conformance_ratio n n = f64_one"
  by (cases "n = 0") (simp_all add: conformance_ratio_def f64_div_self_counts)

lemma covered_by_discovery:
  assumes "ma_model artifact = Dfg (discover_dfg es oc)" "sum_list (map (\<lambda>e. length (pe_events e)) es) \<le> u64_max"
  shows "\<exists>r. frequency_coverage json_nat es artifact = Ok r \<and> cv_deviations r = 0 \<and> cv_violations r = [] \<and>
    cv_fitness r = Some f64_one \<and> cv_precision r = Some f64_one"
proof -
  define ks where "ks = concat (map path_pairs es)"
  have allowed: "(\<lambda>e. (de_source e, de_target e)) ` set (dfg_edges (discover_dfg es oc)) = set ks"
    unfolding discovered_pairs ks_def by auto
  have len: "length ks \<le> u64_max"
  proof -
    have "length (path_pairs e) \<le> length (pe_events e)" for e by (simp add: path_pairs_def activity_path_def)
    then have "length ks \<le> sum_list (map (\<lambda>e. length (pe_events e)) es)"
      unfolding ks_def length_concat map_map comp_def by (intro sum_list_mono)
    then show ?thesis using assms(2) by linarith
  qed
  have card: "card (set ks) \<le> u64_max" using card_length [of ks] len by linarith
  have sub: "set (path_pairs e) \<subseteq> set ks" if "e \<in> set es" for e using that by (auto simp: ks_def)
  from frequency_coverage_counts [OF assms(1), of json_nat es, unfolded allowed, folded ks_def] show ?thesis
    using len card sub by (auto simp: Let_def filter_empty_conv conformance_ratio_self)
qed

text \<open>
  C19: a directly-follows graph that discovery returned conforms to the data it was mined from: checking it
  by frequency coverage over the same view and parameters succeeds, with no deviation, no violation, and
  fitness and precision one, for any provider whose executions hold a number of events that fits 64 bits.
\<close>

theorem discovered_dfg_conforms:
  assumes "discover as_str as_f64 content_hash process_executions profile request = Some (Ok a)" and "mines_dfg request"
    and "\<forall>mode leading es. process_executions (dr_view request) mode leading = Ok es \<longrightarrow>
      sum_list (map (\<lambda>e. length (pe_events e)) es) \<le> u64_max"
  shows "\<exists>r. check as_str json_nat json_strings content_hash process_executions (check_request request FrequencyCoverage a) = Some (Ok r) \<and>
    cv_deviations r = 0 \<and> cv_violations r = [] \<and> cv_fitness r = Some f64_one \<and> cv_precision r = Some f64_one"
proof -
  from discover_Ok [OF assms(1)] obtain mode es where d: "discovery_mode as_str (dr_parameters request) = Ok mode"
    "process_executions (dr_view request) mode (Option.bind (bt_get (dr_parameters request) ''leading_object_type'') as_str) = Ok es"
    "discover_model as_f64 request es = Some (Ok (ma_model a))" "validate_artifact content_hash a = Ok ()" by metis
  show ?thesis
    using covered_by_discovery [OF mined_dfg [OF d(3) assms(2)] assms(3) [rule_format, OF d(2)]] d(2,4) conformance_mode_discovery [OF d(1)]
    by (simp add: check_def check_request_def)
qed

lemma align_executions_fit:
  assumes "\<forall>e \<in> set es. \<exists>k. align_dfg model (activity_path e) = Some (Ok (0, k))"
  shows "\<exists>s'. align_executions model es s = Some (Ok s') \<and> at_moves s' = at_moves s \<and> at_violations s' = at_violations s \<and>
    at_synchronous s' = at_synchronous s + sum_list (map (\<lambda>e. length (pe_events e)) es)"
  using assms
proof (induction es arbitrary: s)
  case (Cons e es)
  then obtain k where k: "align_dfg model (activity_path e) = Some (Ok (0, k))" by auto
  define t where "t = \<lparr>at_synchronous = at_synchronous s + length (pe_events e), at_moves = at_moves s,
    at_violations = at_violations s, at_expanded = at_expanded s + k\<rparr>"
  from Cons.IH [of t] Cons.prems obtain s' where "align_executions model es t = Some (Ok s')" "at_moves s' = at_moves s"
    "at_violations s' = at_violations s" "at_synchronous s' = at_synchronous t + sum_list (map (\<lambda>e. length (pe_events e)) es)"
    by (auto simp: t_def)
  then show ?case by (simp add: k t_def)
qed simp

lemma discovery_aligns:
  assumes sep: "oc \<Longrightarrow> \<forall>e \<in> set es. unit_separator \<notin> set (pe_object_type e)"
    and n: "sum_list (map (\<lambda>e. length (pe_events e)) es) < 2 ^ 32" and e: "e \<in> set es" "pe_events e \<noteq> []"
  shows "\<exists>k. align_dfg (discover_dfg es oc) (activity_path e) = Some (Ok (0, k))"
proof -
  define m where "m = sum_list (map (\<lambda>e. length (pe_events e)) es)"
  have "length (activity_path e) \<le> m" using member_le_sum [OF e(1), of "\<lambda>e. length (pe_events e)"] by (simp add: m_def activity_path_def)
  moreover have "length (dfg_activities (discover_dfg es oc)) \<le> m"
  proof -
    have "length (dfg_activities (discover_dfg es oc)) \<le> length (concat (map activity_path es))"
      unfolding discover_dfg_parts(1) length_bset by (rule card_length)
    then show ?thesis by (simp add: m_def length_concat comp_def activity_path_def)
  qed
  ultimately have "(length (activity_path e) + 1) * length (dfg_activities (discover_dfg es oc)) \<le> (m + 1) * m"
    by (intro mult_le_mono) simp_all
  also have "\<dots> \<le> 2 ^ 32 * (2 ^ 32 - 1)" using n by (intro mult_le_mono) (simp_all add: m_def)
  finally have "(length (activity_path e) + 1) * length (dfg_activities (discover_dfg es oc)) + 1 < 2 ^ 64" by simp
  from align_dfg_decides [OF discovered_listed [OF sep] this]
  have "(\<exists>k. align_dfg (discover_dfg es oc) (activity_path e) = Some (Ok (0, k))) \<longleftrightarrow> accepted (discover_dfg es oc) (activity_path e) 0"
    by (auto simp: cheapest_def)
  then show ?thesis using discovered_run [OF sep e(1)] e(2) by (simp add: accepted_zero activity_path_def)
qed

text \<open>
  The alignments of a discovered directly-follows graph against the data it was mined from find nothing
  to move: the check succeeds, every event of every execution is synchronous, and fitness is one (nonempty
  executions with fewer than \<open>2 ^ 32\<close> events in all, and object types without the unit separator when the
  graph is object-centric).
\<close>

theorem discovered_dfg_aligns:
  assumes "discover as_str as_f64 content_hash process_executions profile request = Some (Ok a)" and "mines_dfg request"
    and "\<forall>mode leading es. process_executions (dr_view request) mode leading = Ok es \<longrightarrow>
      sum_list (map (\<lambda>e. length (pe_events e)) es) < 2 ^ 32 \<and>
      (\<forall>e \<in> set es. pe_events e \<noteq> [] \<and> unit_separator \<notin> set (pe_object_type e))"
  shows "\<exists>r es. check as_str json_nat json_strings content_hash process_executions (check_request request Alignment a) = Some (Ok r) \<and>
    (\<exists>mode leading. process_executions (dr_view request) mode leading = Ok es) \<and>
    cv_conforming r = sum_list (map (\<lambda>e. length (pe_events e)) es) \<and> cv_deviations r = 0 \<and> cv_violations r = [] \<and> cv_fitness r = Some f64_one"
proof -
  from discover_Ok [OF assms(1)] obtain mode es where d: "discovery_mode as_str (dr_parameters request) = Ok mode"
    "process_executions (dr_view request) mode (Option.bind (bt_get (dr_parameters request) ''leading_object_type'') as_str) = Ok es"
    "discover_model as_f64 request es = Some (Ok (ma_model a))" "validate_artifact content_hash a = Ok ()" by metis
  define n where "n = sum_list (map (\<lambda>e. length (pe_events e)) es)"
  have ok: "n < 2 ^ 32" "\<forall>e \<in> set es. pe_events e \<noteq> [] \<and> unit_separator \<notin> set (pe_object_type e)" using assms(3) [rule_format, OF d(2)] by (simp_all add: n_def)
  define model where "model = discover_dfg es (dr_algorithm request = AlgOcDfg)"
  have "\<forall>e \<in> set es. \<exists>k. align_dfg model (activity_path e) = Some (Ok (0, k))"
    unfolding model_def using ok by (intro ballI discovery_aligns) (simp_all add: n_def)
  from align_executions_fit [OF this, of "\<lparr>at_synchronous = 0, at_moves = 0, at_violations = [], at_expanded = 0\<rparr>"]
  obtain s where s: "align_executions model es \<lparr>at_synchronous = 0, at_moves = 0, at_violations = [], at_expanded = 0\<rparr> = Some (Ok s)"
    "at_moves s = 0" "at_violations s = []" "at_synchronous s = n" by (auto simp: n_def)
  have "conformance_ratio n n = f64_one" using ok(1) by (intro conformance_ratio_self) (simp add: u64_max_def)
  then show ?thesis
    using s d(2,4) conformance_mode_discovery [OF d(1)] mined_dfg [OF d(3) assms(2)]
    by (intro exI [of _ es] exI) (auto simp: check_def check_request_def alignment_def model_def [symmetric] n_def)
qed

section \<open>Mined constraints and checked constraints\<close>

lemma positions_set: "set (positions path a) = {i. i < length path \<and> path ! i = a}"
  by (auto simp: positions_def set_indexed image_iff)

lemma positions_empty: "positions path a = [] \<longleftrightarrow> a \<notin> set path"
  by (auto simp: positions_set in_set_conv_nth simp flip: set_empty)

text \<open>The checker reads an existence and a response constraint as the miner counts them.\<close>

lemma existence_agrees: "dcl_template c = Existence \<Longrightarrow> declare_holds e c \<longleftrightarrow> contains_activity (dcl_activation c) e"
  by (simp add: declare_holds_def Let_def positions_empty contains_activity_def activity_path_def image_iff) metis

lemma response_agrees:
  assumes "dcl_template c = Response" "dcl_target c = Some t"
  shows "declare_holds e c \<longleftrightarrow> response_holds e (dcl_activation c) t"
proof -
  define path where "path = activity_path e"
  have ev: "ev_activity (pe_events e ! i) = path ! i" if "i < length path" for i
    using that by (simp add: path_def activity_path_def)
  have later: "(\<exists>x \<in> set (drop (i + 1) (pe_events e)). ev_activity x = t) \<longleftrightarrow> (\<exists>j < length path. i < j \<and> path ! j = t)" for i
  proof -
    have "(\<exists>x \<in> set (drop (i + 1) (pe_events e)). ev_activity x = t) \<longleftrightarrow> t \<in> set (drop (i + 1) path)"
      by (auto simp: path_def activity_path_def drop_map)
    also have "\<dots> \<longleftrightarrow> (\<exists>j < length path. i < j \<and> path ! j = t)"
    proof
      assume "t \<in> set (drop (i + 1) path)"
      then obtain k where "k < length path - (i + 1)" "path ! (i + 1 + k) = t" by (auto simp: in_set_conv_nth)
      then show "\<exists>j < length path. i < j \<and> path ! j = t" by (intro exI [of _ "i + 1 + k"]) simp
    next
      assume "\<exists>j < length path. i < j \<and> path ! j = t"
      then obtain j where "j < length path" "i < j" "path ! j = t" by auto
      then show "t \<in> set (drop (i + 1) path)" by (intro in_set_conv_nth [THEN iffD2] exI [of _ "j - (i + 1)"]) simp
    qed
    finally show ?thesis .
  qed
  have "response_holds e (dcl_activation c) t \<longleftrightarrow> (\<forall>i < length path. path ! i \<noteq> dcl_activation c \<or> (\<exists>j < length path. i < j \<and> path ! j = t))"
  proof -
    have len: "length (pe_events e) = length path" by (simp add: path_def activity_path_def)
    have "response_holds e (dcl_activation c) t \<longleftrightarrow> (\<forall>i x. (i, x) \<in> set (indexed (pe_events e)) \<longrightarrow>
        ev_activity x \<noteq> dcl_activation c \<or> (\<exists>j < length path. i < j \<and> path ! j = t))"
      unfolding response_holds_def later by (auto simp only: split_paired_Ball_Sigma split: prod.splits)
    then show ?thesis by (auto simp: set_indexed len ev)
  qed
  also have "\<dots> \<longleftrightarrow> declare_holds e c"
    using assms by (auto simp: declare_holds_def Let_def positions_set path_def)
  finally show ?thesis by simp
qed

lemma existence_fields:
  assumes "c \<in> set (existence_constraint es minimum_support a)"
  shows "dcl_template c = Existence" "dcl_activation c = a" "dcl_target c = None" "dcl_confidence c = dcl_support c"
    "dcl_support c = f64_div (f64_of_nat (length (filter (contains_activity a) es))) (f64_of_nat (length es))"
    "f64_le minimum_support (dcl_support c)"
  using assms by (auto simp: existence_constraint_def Let_def split: if_splits)

lemma response_fields:
  assumes "c \<in> set (response_constraint es minimum_support (a, t))"
  shows "dcl_template c = Response" "dcl_activation c = a" "dcl_target c = Some t" "t \<noteq> a"
    "dcl_support c = f64_div (f64_of_nat (length (filter (\<lambda>e. response_holds e a t) es))) (f64_of_nat (length es))"
    "dcl_confidence c = f64_div (f64_of_nat (length (filter (\<lambda>e. response_holds e a t) es))) (f64_of_nat (length (filter (contains_activity a) es)))"
    "f64_le minimum_support (dcl_support c)"
  using assms by (auto simp: response_constraint_def Let_def split: if_splits)

lemma mined_constraint:
  assumes "c \<in> set (discover_declare es minimum_support)"
  obtains a where "c \<in> set (existence_constraint es minimum_support a)"
    | a t where "c \<in> set (response_constraint es minimum_support (a, t))"
  using assms by (auto simp: discover_declare_def Let_def)

text \<open>
  C20: the numbers that declarative discovery reports are those the conformance checker would count: every
  mined constraint is an existence or a response constraint, its support is the share of executions in
  which the checker finds that it holds and is at least the minimum, and the confidence of a response divides
  the same count, executions without the activation included, by the executions that have the activation.
\<close>

theorem mined_constraints_agree:
  assumes "c \<in> set (discover_declare es minimum_support)"
  shows "dcl_support c = f64_div (f64_of_nat (length (filter (\<lambda>e. declare_holds e c) es))) (f64_of_nat (length es)) \<and>
    f64_le minimum_support (dcl_support c) \<and>
    (dcl_template c = Existence \<and> dcl_target c = None \<and> dcl_confidence c = dcl_support c \<or>
     dcl_template c = Response \<and> (\<exists>t. dcl_target c = Some t \<and> t \<noteq> dcl_activation c) \<and>
     dcl_confidence c = f64_div (f64_of_nat (length (filter (\<lambda>e. declare_holds e c) es)))
       (f64_of_nat (length (filter (contains_activity (dcl_activation c)) es))))"
  using assms
proof (cases rule: mined_constraint)
  case (1 a)
  note f = existence_fields [OF 1]
  have "filter (\<lambda>e. declare_holds e c) es = filter (contains_activity a) es"
    by (rule filter_cong) (simp_all add: existence_agrees [OF f(1)] f(2))
  then show ?thesis using f(3-6) f(1) by simp
next
  case (2 a t)
  note f = response_fields [OF 2]
  have "filter (\<lambda>e. declare_holds e c) es = filter (\<lambda>e. response_holds e a t) es"
    by (rule filter_cong) (simp_all add: response_agrees [OF f(1,3)] f(2))
  then show ?thesis using f by simp
qed

section \<open>Witnesses\<close>

text \<open>A provider of two fixed executions.\<close>

definition two_orders :: "process_execution list" where
  "two_orders = [path_execution [''a'', ''b''], path_execution [''c'']]"

definition two_orders_method :: executions_method where
  "two_orders_method view mode leading = Ok two_orders"

definition two_orders_profile :: dataset_profile where
  "two_orders_profile = \<lparr>dp_dataset_id = ''d'', dp_tenant_id = ''t'', dp_source_watermark = None, dp_event_count = 3, dp_object_count = 2,
     dp_e2o_count = 0, dp_o2o_count = 0, dp_object_attribute_change_count = 0, dp_activities = [], dp_object_types = [],
     dp_start = None, dp_end = None\<rparr>"

definition two_orders_request :: "unit discovery_request" where
  "two_orders_request = \<lparr>dr_semantic_version = ''1.0'', dr_view = default_view, dr_algorithm = AlgOcDfg,
     dr_algorithm_version = ''1'', dr_parameters = []\<rparr>"

definition two_orders_artifact :: "unit model_artifact" where
  "two_orders_artifact = \<lparr>ma_schema_version = ''1.0'', ma_algorithm = ''ocdfg'', ma_algorithm_version = ''1'', ma_parameters = [],
     ma_dataset_id = ''d'', ma_source_watermark = None, ma_model = Dfg (discover_dfg two_orders True), ma_content_hash = ''h''\<rparr>"

lemma two_orders_discovered:
  "discover (\<lambda>_. None) (\<lambda>_. None) (\<lambda>_. Ok ''h'') two_orders_method (\<lambda>_. Ok two_orders_profile) two_orders_request =
    Some (Ok two_orders_artifact)"
  by (simp add: discover_def two_orders_request_def discovery_mode_def two_orders_method_def two_orders_profile_def discover_model_def
      algorithm_name_def finalize_hash_def two_orders_artifact_def two_orders_def)

lemma two_orders_mines: "mines_dfg two_orders_request"
  by (simp add: mines_dfg_def two_orders_request_def)

theorem discovered_dfg_conforms_witness:
  "\<exists>r. check (\<lambda>_. None) (\<lambda>_. ()) (\<lambda>_. ()) (\<lambda>_. Ok ''h'') two_orders_method
      (check_request two_orders_request FrequencyCoverage two_orders_artifact) = Some (Ok r) \<and>
    cv_deviations r = 0 \<and> cv_fitness r = Some f64_one"
proof -
  have "\<forall>mode leading es. two_orders_method (dr_view two_orders_request) mode leading = Ok es \<longrightarrow>
      sum_list (map (\<lambda>e. length (pe_events e)) es) \<le> u64_max"
    by (auto simp: two_orders_method_def two_orders_def u64_max_def)
  from discovered_dfg_conforms [where json_nat = "\<lambda>_. ()" and json_strings = "\<lambda>_. ()", OF two_orders_discovered two_orders_mines this] show ?thesis by blast
qed

theorem discovered_dfg_aligns_witness:
  "\<exists>r. check (\<lambda>_. None) (\<lambda>_. ()) (\<lambda>_. ()) (\<lambda>_. Ok ''h'') two_orders_method
      (check_request two_orders_request Alignment two_orders_artifact) = Some (Ok r) \<and>
    cv_conforming r = 3 \<and> cv_deviations r = 0"
proof -
  have "\<forall>mode leading es. two_orders_method (dr_view two_orders_request) mode leading = Ok es \<longrightarrow>
      sum_list (map (\<lambda>e. length (pe_events e)) es) < 2 ^ 32 \<and> (\<forall>e \<in> set es. pe_events e \<noteq> [] \<and> unit_separator \<notin> set (pe_object_type e))"
    by (auto simp: two_orders_method_def two_orders_def path_execution_def unit_separator_def)
  from discovered_dfg_aligns [where json_nat = "\<lambda>_. ()" and json_strings = "\<lambda>_. ()", OF two_orders_discovered two_orders_mines this]
  obtain r es mode leading where r: "check (\<lambda>_. None) (\<lambda>_. ()) (\<lambda>_. ()) (\<lambda>_. Ok ''h'') two_orders_method
      (check_request two_orders_request Alignment two_orders_artifact) = Some (Ok r)" "cv_deviations r = 0"
    "two_orders_method (dr_view two_orders_request) mode leading = Ok es"
    "cv_conforming r = sum_list (map (\<lambda>e. length (pe_events e)) es)" by blast
  have "cv_conforming r = 3" using r(3,4) by (auto simp: two_orders_method_def two_orders_def)
  then show ?thesis using r(1,2) by blast
qed

text \<open>Of the two executions one has the activation, and both count for the response: its confidence is two.\<close>

definition response_ab :: declare_constraint where
  "response_ab = \<lparr>dcl_template = Response, dcl_activation = ''a'', dcl_target = Some ''b'', dcl_object_type = Some ''order'',
     dcl_support = f64_div (f64_of_nat 2) (f64_of_nat 2), dcl_confidence = f64_div (f64_of_nat 2) (f64_of_nat 1)\<rparr>"

theorem mined_constraints_agree_witness:
  "dcl_support response_ab = f64_div (f64_of_nat (length (filter (\<lambda>e. declare_holds e response_ab) two_orders))) (f64_of_nat (length two_orders)) \<and>
   dcl_confidence response_ab = f64_div (f64_of_nat 2) (f64_of_nat 1)"
proof -
  have "f64_le f64_zero (f64_div (f64_of_nat 2) (f64_of_nat 2))" using f64_div_self_counts [of 2] by (simp add: u64_max_def f64_le_def)
  moreover have "length (filter (contains_activity ''a'') two_orders) = 1" "length two_orders = 2"
    "length (filter (\<lambda>e. response_holds e ''a'' ''b'') two_orders) = 2"
    by (simp_all add: two_orders_def contains_activity_def response_holds_def path_execution_def sample_event_def indexed_def)
  moreover have "common_object_type two_orders = Some ''order''"
    by (simp add: common_object_type_def two_orders_def path_execution_def bset_def first_opt_def)
  ultimately have "response_ab \<in> set (response_constraint two_orders f64_zero (''a'', ''b''))"
    by (simp add: response_constraint_def Let_def response_ab_def)
  moreover have "''a'' \<in> set (concat (map activity_path two_orders))" "''b'' \<in> set (concat (map activity_path two_orders))"
    by (simp_all add: two_orders_def)
  ultimately have "response_ab \<in> set (discover_declare two_orders f64_zero)" unfolding discover_declare_def Let_def by force
  from mined_constraints_agree [OF this] show ?thesis by (simp add: response_ab_def)
qed

end
